(* ===== verification/Js_Prelude.thy ===== *)
theory Js_Prelude
  imports Main "HOL-Library.Code_Target_Nat"
begin

text \<open>
  Shared vocabulary of the development: the primitive values of JavaScript that the widgets
  read from their options and row data, the comparisons and conversions of the language that
  the sources use on them (\<open>==\<close>, truthiness, \<open>String(n)\<close>, \<open>parseInt\<close>), the array methods
  (\<open>splice\<close>, \<open>$.inArray\<close>, \<open>join\<close>, \<open>split\<close>) as functions on lists, and the generic lemmas the
  component theories share.  Numbers are integers: every numeric quantity the modelled code
  computes (page numbers, dates, indexes, counters) is an integer in the safe range, and
  \<open>NaN\<close> is made explicit as \<open>None\<close> or \<open>VNaN\<close> where the code can produce it.
\<close>

section \<open>Collections of facts\<close>

named_theorems js_eval \<open>definitions unfolded to evaluate a model on concrete input\<close>
named_theorems js_inv \<open>preservation lemmas of component invariants\<close>

section \<open>Characters and strings\<close>

definition upper_chars :: string where
  "upper_chars = ''ABCDEFGHIJKLMNOPQRSTUVWXYZ''"

definition lower_chars :: string where
  "lower_chars = ''abcdefghijklmnopqrstuvwxyz''"

definition digit_chars :: string where
  "digit_chars = ''0123456789''"

definition to_lower :: "char \<Rightarrow> char" where
  "to_lower c = (case map_of (zip upper_chars lower_chars) c of None \<Rightarrow> c | Some d \<Rightarrow> d)"

definition digit_val :: "char \<Rightarrow> nat option" where
  "digit_val c = map_of (zip digit_chars [0..<10]) c"

definition is_digit :: "char \<Rightarrow> bool" where
  "is_digit c \<longleftrightarrow> c \<in> set digit_chars"

text \<open>\<open>\W\<close> of a regular expression: anything but a letter, a digit or an underscore.\<close>

definition is_word_char :: "char \<Rightarrow> bool" where
  "is_word_char c \<longleftrightarrow>
     c \<in> set upper_chars \<or> c \<in> set lower_chars \<or> c \<in> set digit_chars \<or> c = CHR ''_''"

definition starts_with :: "string \<Rightarrow> string \<Rightarrow> bool" where
  "starts_with p s \<longleftrightarrow> take (length p) s = p"

definition ends_with :: "string \<Rightarrow> string \<Rightarrow> bool" where
  "ends_with p s \<longleftrightarrow> length p \<le> length s \<and> drop (length s - length p) s = p"

text \<open>\<open>xs.join(sep)\<close>.\<close>

fun js_join :: "string \<Rightarrow> string list \<Rightarrow> string" where
  "js_join sep [] = []"
| "js_join sep [x] = x"
| "js_join sep (x # xs) = x @ sep @ js_join sep xs"

text \<open>\<open>s.split(c)\<close> for a separator of one character.\<close>

fun js_split :: "char \<Rightarrow> string \<Rightarrow> string list" where
  "js_split c [] = [[]]"
| "js_split c (x # xs) =
     (if x = c then [] # js_split c xs
      else (case js_split c xs of [] \<Rightarrow> [[x]] | w # ws \<Rightarrow> (x # w) # ws))"

lemma js_split_not_Nil [simp]: "js_split c s \<noteq> []"
  by (induction s) (auto split: list.splits)

lemma js_split_no_sep: "c \<notin> set s \<Longrightarrow> js_split c s = [s]"
  by (induction s) auto

lemma js_split_append: "c \<notin> set w \<Longrightarrow> js_split c (w @ c # s) = w # js_split c s"
  by (induction w) auto

lemma js_join_Cons: "xs \<noteq> [] \<Longrightarrow> js_join sep (x # xs) = x @ sep @ js_join sep xs"
  by (cases xs) auto

text \<open>Splitting what was joined gives the parts back, when no part holds the separator.\<close>

lemma js_split_join:
  "xs \<noteq> [] \<Longrightarrow> \<forall>x\<in>set xs. c \<notin> set x \<Longrightarrow> js_split c (js_join [c] xs) = xs"
proof (induction xs)
  case Nil
  then show ?case by simp
next
  case (Cons x xs)
  show ?case
  proof (cases "xs = []")
    case True
    with Cons.prems show ?thesis by (simp add: js_split_no_sep)
  next
    case False
    with Cons.IH Cons.prems show ?thesis
      by (simp add: js_join_Cons js_split_append)
  qed
qed

lemma js_join_split: "js_join [c] (js_split c s) = s"
proof (induction s)
  case Nil
  show ?case by simp
next
  case (Cons x s)
  then show ?case
    by (cases "js_split c s"; cases "tl (js_split c s)") (auto simp: js_join_Cons)
qed

lemma js_split_sep_free: "w \<in> set (js_split c s) \<Longrightarrow> c \<notin> set w"
  by (induction s arbitrary: w) (auto split: if_splits list.splits)

section \<open>Styles\<close>

text \<open>
  What a styler of the options returns: a text of styles, an object with a \<open>class\<close> and a \<open>style\<close>
  either of which may be missing, or nothing.
\<close>

datatype css = CssString string | CssObject "string option" "string option" | CssNone

definition css_class :: "css \<Rightarrow> string" where
  "css_class c = (case c of CssObject (Some k) _ \<Rightarrow> k | _ \<Rightarrow> [])"

definition css_style :: "css \<Rightarrow> string" where
  "css_style c = (case c of CssString t \<Rightarrow> t | CssObject _ (Some t) \<Rightarrow> t | _ \<Rightarrow> [])"

section \<open>Numbers as text\<close>

text \<open>\<open>String(n)\<close> for a natural number, most significant digit first.\<close>

fun show_nat :: "nat \<Rightarrow> string" where
  "show_nat n = (if n < 10 then [digit_chars ! n] else show_nat (n div 10) @ [digit_chars ! (n mod 10)])"

declare show_nat.simps [simp del]

definition show_int :: "int \<Rightarrow> string" where
  "show_int i = (if i < 0 then CHR ''-'' # show_nat (nat (- i)) else show_nat (nat i))"

text \<open>The longest prefix of digits, read as a number: what \<open>parseInt\<close> and \<open>\d+\<close> read.\<close>

fun read_digits :: "nat \<Rightarrow> string \<Rightarrow> nat" where
  "read_digits acc [] = acc"
| "read_digits acc (c # cs) =
     (case digit_val c of None \<Rightarrow> acc | Some d \<Rightarrow> read_digits (10 * acc + d) cs)"

definition js_space :: "char \<Rightarrow> bool" where
  "js_space c \<longleftrightarrow> c \<in> {CHR '' '', CHR 0x09, CHR 0x0A, CHR 0x0B, CHR 0x0C, CHR 0x0D}"

text \<open>
  \<open>parseInt(s)\<close> on a string: leading white space is skipped, then a sign, then a hexadecimal
  number after \<open>0x\<close> or else the longest run of digits; \<open>None\<close> is \<open>NaN\<close>.
\<close>

definition parse_nat :: "string \<Rightarrow> nat option" where
  "parse_nat s = (case s of [] \<Rightarrow> None | c # _ \<Rightarrow> if is_digit c then Some (read_digits 0 s) else None)"

definition hex_val :: "char \<Rightarrow> nat option" where
  "hex_val c = map_of (zip ''0123456789abcdefABCDEF'' ([0..<16] @ [10..<16])) c"

fun read_hex :: "nat \<Rightarrow> string \<Rightarrow> nat" where
  "read_hex acc [] = acc"
| "read_hex acc (c # cs) = (case hex_val c of None \<Rightarrow> acc | Some d \<Rightarrow> read_hex (16 * acc + d) cs)"

definition hex_prefix :: "string \<Rightarrow> bool" where
  "hex_prefix s \<longleftrightarrow> take 2 s = ''0x'' \<or> take 2 s = ''0X''"

definition parse_unsigned :: "string \<Rightarrow> nat option" where
  "parse_unsigned s =
     (if hex_prefix s
      then (case drop 2 s of [] \<Rightarrow> None | h # _ \<Rightarrow> if hex_val h = None then None else Some (read_hex 0 (drop 2 s)))
      else parse_nat s)"

definition parseInt :: "string \<Rightarrow> int option" where
  "parseInt s =
     (case dropWhile js_space s of
        [] \<Rightarrow> None
      | c # cs \<Rightarrow>
          if c = CHR ''-'' then map_option (\<lambda>n. - int n) (parse_unsigned cs)
          else if c = CHR ''+'' then map_option int (parse_unsigned cs)
          else map_option int (parse_unsigned (c # cs)))"

text \<open>
  \<open>!isNaN(s)\<close> on a string: after trimming it is empty, a decimal literal with an optional
  sign, fraction and exponent, \<open>Infinity\<close>, or a hexadecimal literal.
\<close>

definition digits_then :: "string \<Rightarrow> string \<times> string" where
  "digits_then s = (takeWhile is_digit s, dropWhile is_digit s)"

definition exponent_ok :: "string \<Rightarrow> bool" where
  "exponent_ok s =
     (case s of
        [] \<Rightarrow> True
      | c # cs \<Rightarrow>
          (c = CHR ''e'' \<or> c = CHR ''E'')
          \<and> (let ds = (case cs of x # xs \<Rightarrow> if x = CHR ''-'' \<or> x = CHR ''+'' then xs else cs | [] \<Rightarrow> [])
             in ds \<noteq> [] \<and> list_all is_digit ds))"

definition decimal_ok :: "string \<Rightarrow> bool" where
  "decimal_ok s =
     (let (w, r) = digits_then s in
      case r of
        c # cs \<Rightarrow>
          if c = CHR ''.'' then (let (f, r') = digits_then cs in (w \<noteq> [] \<or> f \<noteq> []) \<and> exponent_ok r')
          else w \<noteq> [] \<and> exponent_ok r
      | [] \<Rightarrow> w \<noteq> [])"

definition js_trim :: "string \<Rightarrow> string" where
  "js_trim s = rev (dropWhile js_space (rev (dropWhile js_space s)))"

definition is_numeric :: "string \<Rightarrow> bool" where
  "is_numeric s =
     (let t = js_trim s;
          u = (case t of c # cs \<Rightarrow> if c = CHR ''-'' \<or> c = CHR ''+'' then cs else t | [] \<Rightarrow> [])
      in t = [] \<or> u = ''Infinity'' \<or> decimal_ok u
         \<or> (hex_prefix t \<and> drop 2 t \<noteq> [] \<and> list_all (\<lambda>c. hex_val c \<noteq> None) (drop 2 t)))"

lemma digit_val_nth: "d < 10 \<Longrightarrow> digit_val (digit_chars ! d) = Some d"
proof -
  assume "d < 10"
  then have "d \<in> set [0,1,2,3,4,5,6,7,8,9]" by auto
  then show ?thesis
    by (auto simp: digit_val_def digit_chars_def upt_rec)
qed

lemma digit_val_digit: "is_digit c \<longleftrightarrow> (\<exists>d. digit_val c = Some d)"
  by (auto simp: is_digit_def digit_val_def digit_chars_def upt_rec)

lemma is_digit_nth: "d < 10 \<Longrightarrow> is_digit (digit_chars ! d)"
  by (simp add: digit_val_digit digit_val_nth)

lemma show_nat_digits: "\<forall>c\<in>set (show_nat n). is_digit c"
proof (induction n rule: show_nat.induct)
  case (1 n)
  then show ?case by (subst show_nat.simps) (auto simp: is_digit_nth)
qed

lemma show_nat_not_Nil [simp]: "show_nat n \<noteq> []"
  by (subst show_nat.simps) simp

lemma read_digits_append:
  "\<forall>c\<in>set s. is_digit c \<Longrightarrow> read_digits acc (s @ t) = read_digits (read_digits acc s) t"
  by (induction s arbitrary: acc) (auto simp: digit_val_digit)

lemma read_show_nat: "read_digits 0 (show_nat n) = n"
proof (induction n rule: show_nat.induct)
  case (1 n)
  show ?case
  proof (cases "n < 10")
    case True
    then show ?thesis by (subst show_nat.simps) (simp add: digit_val_nth)
  next
    case False
    with 1 have "read_digits 0 (show_nat (n div 10)) = n div 10" by simp
    with False show ?thesis
      by (subst show_nat.simps) (simp add: read_digits_append show_nat_digits digit_val_nth)
  qed
qed

text \<open>What follows a number does not matter to \<open>parseInt\<close>, if it does not start with a digit.\<close>

lemma read_digits_stop: "t = [] \<or> \<not> is_digit (hd t) \<Longrightarrow> read_digits n t = n"
  by (cases t) (auto simp: digit_val_digit split: option.splits)

lemma parse_nat_show_append:
  "t = [] \<or> \<not> is_digit (hd t) \<Longrightarrow> parse_nat (show_nat n @ t) = Some n"
proof -
  assume t: "t = [] \<or> \<not> is_digit (hd t)"
  obtain c cs where cs: "show_nat n = c # cs" by (cases "show_nat n") auto
  have "is_digit c" using show_nat_digits [of n] cs by simp
  moreover have "read_digits 0 (show_nat n @ t) = n"
    using t by (simp add: read_digits_append show_nat_digits read_show_nat read_digits_stop)
  ultimately show ?thesis using cs by (simp add: parse_nat_def)
qed

lemma not_digit_special: "is_digit c \<Longrightarrow> \<not> js_space c \<and> c \<noteq> CHR ''-'' \<and> c \<noteq> CHR ''+''"
  by (auto simp: is_digit_def digit_chars_def js_space_def)

text \<open>No run of digits followed by something other than \<open>x\<close> is taken for hexadecimal.\<close>

lemma not_hex_prefix:
  assumes "s \<noteq> []" and "\<forall>c\<in>set s. is_digit c" and "t = [] \<or> (hd t \<noteq> CHR ''x'' \<and> hd t \<noteq> CHR ''X'')"
  shows "\<not> hex_prefix (s @ t)"
proof -
  have "\<not> is_digit (CHR ''x'')" and "\<not> is_digit (CHR ''X'')" by (simp_all add: is_digit_def digit_chars_def)
  with assms show ?thesis
    by (cases s; cases "tl s"; cases t; cases "tl t") (auto simp: hex_prefix_def is_digit_def digit_chars_def)
qed

lemma parse_unsigned_show:
  assumes "t = [] \<or> \<not> is_digit (hd t) \<and> hd t \<noteq> CHR ''x'' \<and> hd t \<noteq> CHR ''X''"
  shows "parse_unsigned (show_nat n @ t) = Some n"
  using assms not_hex_prefix [OF show_nat_not_Nil show_nat_digits, of t n] parse_nat_show_append [of t n]
  by (auto simp: parse_unsigned_def)

lemma parseInt_show_append:
  assumes "t = [] \<or> \<not> is_digit (hd t) \<and> hd t \<noteq> CHR ''x'' \<and> hd t \<noteq> CHR ''X''"
  shows "parseInt (show_int i @ t) = Some i"
proof (cases "i < 0")
  case True
  then show ?thesis
    using parse_unsigned_show [OF assms, of "nat (- i)"]
    by (simp add: show_int_def parseInt_def js_space_def)
next
  case False
  obtain c cs where cs: "show_nat (nat i) = c # cs" by (cases "show_nat (nat i)") auto
  have "is_digit c" using show_nat_digits [of "nat i"] cs by simp
  note nd = not_digit_special [OF this]
  have "parse_unsigned (c # cs @ t) = Some (nat i)"
    using parse_unsigned_show [OF assms, of "nat i"] cs by simp
  with False nd show ?thesis by (simp add: show_int_def cs parseInt_def)
qed

lemma parseInt_show_int: "parseInt (show_int i) = Some i"
  using parseInt_show_append [of "[]" i] by simp

section \<open>Arrays\<close>

text \<open>\<open>a.splice(i, 1)\<close> and \<open>a.splice(i, 0, x)\<close> at an index inside the array.\<close>

definition splice_del :: "nat \<Rightarrow> 'a list \<Rightarrow> 'a list" where
  "splice_del i xs = take i xs @ drop (Suc i) xs"

definition splice_ins :: "nat \<Rightarrow> 'a \<Rightarrow> 'a list \<Rightarrow> 'a list" where
  "splice_ins i x xs = take i xs @ x # drop i xs"

text \<open>\<open>$.inArray(x, a)\<close>, with \<open>None\<close> for -1: the first index that holds \<open>x\<close>.\<close>

fun index_where :: "('a \<Rightarrow> bool) \<Rightarrow> 'a list \<Rightarrow> nat option" where
  "index_where P [] = None"
| "index_where P (x # xs) = (if P x then Some 0 else map_option Suc (index_where P xs))"

definition in_array :: "'a \<Rightarrow> 'a list \<Rightarrow> nat option" where
  "in_array x xs = index_where (\<lambda>y. y = x) xs"

lemma length_splice_del: "i < length xs \<Longrightarrow> length (splice_del i xs) = length xs - 1"
  by (simp add: splice_del_def)

lemma length_splice_ins [simp]: "length (splice_ins i x xs) = Suc (length xs)"
  by (simp add: splice_ins_def)

lemma set_splice_ins [simp]: "set (splice_ins i x xs) = insert x (set xs)"
  using append_take_drop_id [of i xs] by (metis Un_insert_right list.simps(15) set_append splice_ins_def)

lemma splice_del_ins: "i \<le> length xs \<Longrightarrow> splice_del i (splice_ins i x xs) = xs"
  by (simp add: splice_del_def splice_ins_def)

lemma nth_splice_ins:
  assumes "k \<le> length xs" and "i \<le> length xs"
  shows "splice_ins k x xs ! i = (if i < k then xs ! i else if i = k then x else xs ! (i - 1))"
proof -
  have l: "length (take k xs) = k" using assms(1) by simp
  consider "i < k" | "i = k" | j where "i = Suc (k + j)" using less_iff_Suc_add [of k i] by (metis nat_neq_iff)
  then show ?thesis
  proof cases
    case 1
    then show ?thesis unfolding splice_ins_def nth_append l by simp
  next
    case 2
    then show ?thesis unfolding splice_ins_def nth_append l by simp
  next
    case 3
    then show ?thesis unfolding splice_ins_def nth_append l using assms by simp
  qed
qed

lemma nth_splice_del: "i < length xs - 1 \<Longrightarrow> splice_del k xs ! i = xs ! (if i < k then i else Suc i)"
  by (cases "k < length xs") (auto simp: splice_del_def nth_append min_def)

lemma splice_del_Cons_0 [simp]: "splice_del 0 (x # xs) = xs"
  by (simp add: splice_del_def)

lemma splice_del_Cons_Suc [simp]: "splice_del (Suc i) (x # xs) = x # splice_del i xs"
  by (simp add: splice_del_def)

lemma splice_del_Nil [simp]: "splice_del i [] = []"
  by (simp add: splice_del_def)

lemma set_splice_del_subset: "set (splice_del i xs) \<subseteq> set xs"
  unfolding splice_del_def by (auto dest: in_set_takeD in_set_dropD)

lemma splice_del_nths: "splice_del i xs = nths xs (- {i})"
proof (induction xs arbitrary: i)
  case Nil
  show ?case by simp
next
  case (Cons x xs)
  show ?case
  proof (cases i)
    case 0
    have "{j. Suc j \<in> - {0}} = UNIV" by auto
    with 0 show ?thesis by (simp add: nths_Cons nths_all)
  next
    case (Suc k)
    have "{j. Suc j \<in> - {Suc k}} = - {k}" by auto
    with Suc Cons show ?thesis by (simp add: nths_Cons)
  qed
qed

lemma distinct_splice_del: "distinct xs \<Longrightarrow> distinct (splice_del i xs)"
  by (simp add: splice_del_nths)

lemma index_where_None: "index_where P xs = None \<longleftrightarrow> (\<forall>x\<in>set xs. \<not> P x)"
  by (induction xs) auto

lemma index_where_Some:
  "index_where P xs = Some i \<Longrightarrow> i < length xs \<and> P (xs ! i) \<and> (\<forall>j<i. \<not> P (xs ! j))"
proof (induction xs arbitrary: i)
  case Nil
  then show ?case by simp
next
  case (Cons x xs)
  show ?case
  proof (cases "P x")
    case True
    with Cons.prems show ?thesis by simp
  next
    case False
    with Cons.prems obtain k where k: "i = Suc k" "index_where P xs = Some k" by auto
    with False Cons.IH [of k] show ?thesis by (auto simp: nth_Cons split: nat.splits)
  qed
qed

lemma in_array_None: "in_array x xs = None \<longleftrightarrow> x \<notin> set xs"
  by (auto simp: in_array_def index_where_None)

lemma in_array_Some: "in_array x xs = Some i \<Longrightarrow> i < length xs \<and> xs ! i = x"
  by (auto simp: in_array_def dest: index_where_Some)

text \<open>A loop over an array whose body may fail: the first failure ends it.\<close>

fun foldM :: "('b \<Rightarrow> 'a \<Rightarrow> 'b option) \<Rightarrow> 'b \<Rightarrow> 'a list \<Rightarrow> 'b option" where
  "foldM f b [] = Some b"
| "foldM f b (x # xs) = (case f b x of None \<Rightarrow> None | Some b' \<Rightarrow> foldM f b' xs)"

lemma foldM_invariant:
  assumes "foldM f b xs = Some r" and "P b"
    and "\<And>b x b'. x \<in> set xs \<Longrightarrow> P b \<Longrightarrow> f b x = Some b' \<Longrightarrow> P b'"
  shows "P r"
  using assms
proof (induction xs arbitrary: b)
  case Nil
  then show ?case by simp
next
  case (Cons x xs)
  from Cons.prems(1) obtain b' where b': "f b x = Some b'" "foldM f b' xs = Some r"
    by (auto split: option.splits)
  from b'(1) Cons.prems(2,3) have "P b'" by auto
  with b'(2) Cons.IH [of b'] Cons.prems(3) show ?case by auto
qed

lemma foldM_total:
  "(\<And>b x. x \<in> set xs \<Longrightarrow> f b x \<noteq> None) \<Longrightarrow> foldM f b xs \<noteq> None"
proof (induction xs arbitrary: b)
  case Nil
  show ?case by simp
next
  case (Cons x xs)
  from Cons.prems [of x b] obtain b' where "f b x = Some b'" by auto
  with Cons show ?case by simp
qed

section \<open>Division as the sources use it\<close>

text \<open>\<open>Math.ceil(a/b)\<close> and \<open>Math.floor(a/b)\<close> on integers with a positive divisor.\<close>

definition ceil_div :: "int \<Rightarrow> int \<Rightarrow> int" where
  "ceil_div a b = - ((- a) div b)"

lemma ceil_div_bounds:
  assumes "0 < b"
  shows "a \<le> ceil_div a b * b" and "(ceil_div a b - 1) * b < a"
proof -
  have "- a - (- a) div b * b = (- a) mod b" by (rule minus_div_mult_eq_mod)
  moreover have "0 \<le> (- a) mod b" and "(- a) mod b < b" using assms by simp_all
  ultimately have "a \<le> - ((- a) div b * b)" and "- ((- a) div b * b) - b < a" by linarith+
  then show "a \<le> ceil_div a b * b" and "(ceil_div a b - 1) * b < a"
    by (simp_all add: ceil_div_def left_diff_distrib)
qed

lemma ceil_div_pos: "0 < a \<Longrightarrow> 0 < b \<Longrightarrow> 0 < ceil_div a b"
  using ceil_div_bounds(1) [of b a] by (smt (verit) mult_nonpos_nonneg)

lemma ceil_div_0 [simp]: "ceil_div 0 b = 0"
  by (simp add: ceil_div_def)

end
