(* ===== verification/Easyloader.thy ===== *)
theory Easyloader
  imports Js_Prelude
begin

text \<open>
  The module loader, \<open>js/easyloader.js\<close>: the table of modules and their dependencies, the
  resolution of a request into a list of modules in dependency order (\<open>add\<close>), the
  asynchronous driver that loads them one script at a time (\<open>_1e\<close>, \<open>_10\<close>, \<open>_4\<close>), the locale
  script (\<open>_9\<close>), style sheets (\<open>_c\<close>) and the public entry \<open>easyloader.load\<close>.

  The closures the code registers with the browser are data here: a script element carries
  the continuation of its \<open>onload\<close> handler, a pending \<open>setTimeout\<close> is an entry of a timer
  list, a call of \<open>_17\<close> is a job with its queue \<open>mm\<close>.  The browser's moves (a script
  finishes loading, a timer expires) and the page's calls of \<open>load\<close> are the steps of a
  relation, in any order; callbacks of the page are entries of a log.
\<close>

section \<open>The module and locale tables\<close>

record modinfo =
  mi_js :: string
  mi_css :: "string option"
  mi_deps :: "string list option"

definition mk_module :: "string \<Rightarrow> string option \<Rightarrow> string list option \<Rightarrow> modinfo" where
  "mk_module j c d = \<lparr>mi_js = j, mi_css = c, mi_deps = d\<rparr>"

text \<open>
  The object literal \<open>_1\<close> in source order.  It names \<open>tooltip\<close> twice; in an object literal
  the last entry of a key wins, which is what \<open>mod_lookup\<close> does.
\<close>

type_synonym modtable = "(string \<times> modinfo) list"

definition el_modules :: modtable where
  "el_modules = [
   (''draggable'', mk_module ''jquery.draggable.js'' (None) (None)),
   (''droppable'', mk_module ''jquery.droppable.js'' (None) (None)),
   (''resizable'', mk_module ''jquery.resizable.js'' (None) (None)),
   (''linkbutton'', mk_module ''jquery.linkbutton.js'' (Some ''linkbutton.css'') (None)),
   (''progressbar'', mk_module ''jquery.progressbar.js'' (Some ''progressbar.css'') (None)),
   (''tooltip'', mk_module ''jquery.tooltip.js'' (Some ''tooltip.css'') (None)),
   (''pagination'', mk_module ''jquery.pagination.js'' (Some ''pagination.css'') (Some [''linkbutton''])),
   (''datagrid'', mk_module ''jquery.datagrid.js'' (Some ''datagrid.css'') (Some [''panel'', ''resizable'', ''linkbutton'', ''pagination''])),
   (''treegrid'', mk_module ''jquery.treegrid.js'' (Some ''tree.css'') (Some [''datagrid''])),
   (''propertygrid'', mk_module ''jquery.propertygrid.js'' (Some ''propertygrid.css'') (Some [''datagrid''])),
   (''datalist'', mk_module ''jquery.datalist.js'' (Some ''datalist.css'') (Some [''datagrid''])),
   (''panel'', mk_module ''jquery.panel.js'' (Some ''panel.css'') (None)),
   (''window'', mk_module ''jquery.window.js'' (Some ''window.css'') (Some [''resizable'', ''draggable'', ''panel''])),
   (''dialog'', mk_module ''jquery.dialog.js'' (Some ''dialog.css'') (Some [''linkbutton'', ''window''])),
   (''messager'', mk_module ''jquery.messager.js'' (Some ''messager.css'') (Some [''linkbutton'', ''window'', ''progressbar''])),
   (''layout'', mk_module ''jquery.layout.js'' (Some ''layout.css'') (Some [''resizable'', ''panel''])),
   (''form'', mk_module ''jquery.form.js'' (None) (None)),
   (''menu'', mk_module ''jquery.menu.js'' (Some ''menu.css'') (None)),
   (''tabs'', mk_module ''jquery.tabs.js'' (Some ''tabs.css'') (Some [''panel'', ''linkbutton''])),
   (''menubutton'', mk_module ''jquery.menubutton.js'' (Some ''menubutton.css'') (Some [''linkbutton'', ''menu''])),
   (''splitbutton'', mk_module ''jquery.splitbutton.js'' (Some ''splitbutton.css'') (Some [''menubutton''])),
   (''accordion'', mk_module ''jquery.accordion.js'' (Some ''accordion.css'') (Some [''panel''])),
   (''calendar'', mk_module ''jquery.calendar.js'' (Some ''calendar.css'') (None)),
   (''textbox'', mk_module ''jquery.textbox.js'' (Some ''textbox.css'') (Some [''validatebox'', ''linkbutton''])),
   (''filebox'', mk_module ''jquery.filebox.js'' (Some ''filebox.css'') (Some [''textbox''])),
   (''combo'', mk_module ''jquery.combo.js'' (Some ''combo.css'') (Some [''panel'', ''textbox''])),
   (''combobox'', mk_module ''jquery.combobox.js'' (Some ''combobox.css'') (Some [''combo''])),
   (''combotree'', mk_module ''jquery.combotree.js'' (None) (Some [''combo'', ''tree''])),
   (''combogrid'', mk_module ''jquery.combogrid.js'' (None) (Some [''combo'', ''datagrid''])),
   (''validatebox'', mk_module ''jquery.validatebox.js'' (Some ''validatebox.css'') (Some [''tooltip''])),
   (''numberbox'', mk_module ''jquery.numberbox.js'' (None) (Some [''textbox''])),
   (''searchbox'', mk_module ''jquery.searchbox.js'' (Some ''searchbox.css'') (Some [''menubutton'', ''textbox''])),
   (''spinner'', mk_module ''jquery.spinner.js'' (Some ''spinner.css'') (Some [''textbox''])),
   (''numberspinner'', mk_module ''jquery.numberspinner.js'' (None) (Some [''spinner'', ''numberbox''])),
   (''timespinner'', mk_module ''jquery.timespinner.js'' (None) (Some [''spinner''])),
   (''tree'', mk_module ''jquery.tree.js'' (Some ''tree.css'') (Some [''draggable'', ''droppable''])),
   (''datebox'', mk_module ''jquery.datebox.js'' (Some ''datebox.css'') (Some [''calendar'', ''combo''])),
   (''datetimebox'', mk_module ''jquery.datetimebox.js'' (None) (Some [''datebox'', ''timespinner''])),
   (''slider'', mk_module ''jquery.slider.js'' (None) (Some [''draggable''])),
   (''tooltip'', mk_module ''jquery.tooltip.js'' (None) (None)),
   (''parser'', mk_module ''jquery.parser.js'' (None) (None)),
   (''mobile'', mk_module ''jquery.mobile.js'' (None) (None))]"

definition el_locales :: "(string \<times> string) list" where
  "el_locales = [
   (''af'', ''easyui-lang-af.js''), (''ar'', ''easyui-lang-ar.js''), (''bg'', ''easyui-lang-bg.js''),
   (''ca'', ''easyui-lang-ca.js''), (''cs'', ''easyui-lang-cs.js''), (''cz'', ''easyui-lang-cz.js''),
   (''da'', ''easyui-lang-da.js''), (''de'', ''easyui-lang-de.js''), (''el'', ''easyui-lang-el.js''),
   (''en'', ''easyui-lang-en.js''), (''es'', ''easyui-lang-es.js''), (''fr'', ''easyui-lang-fr.js''),
   (''it'', ''easyui-lang-it.js''), (''jp'', ''easyui-lang-jp.js''), (''nl'', ''easyui-lang-nl.js''),
   (''pl'', ''easyui-lang-pl.js''), (''pt_BR'', ''easyui-lang-pt_BR.js''), (''ru'', ''easyui-lang-ru.js''),
   (''sv_SE'', ''easyui-lang-sv_SE.js''), (''tr'', ''easyui-lang-tr.js''), (''zh_CN'', ''easyui-lang-zh_CN.js''),
   (''zh_TW'', ''easyui-lang-zh_TW.js'')]"

definition mod_lookup :: "modtable \<Rightarrow> string \<Rightarrow> modinfo option" where
  "mod_lookup t x = map_of (rev t) x"

definition mod_deps :: "modtable \<Rightarrow> string \<Rightarrow> string list" where
  "mod_deps t x =
     (case mod_lookup t x of None \<Rightarrow> [] | Some i \<Rightarrow> (case mi_deps i of None \<Rightarrow> [] | Some ds \<Rightarrow> ds))"

section \<open>Resolving a request: \<open>add\<close>\<close>

text \<open>
  \<open>add\<close> is recursive over the table, which a page may extend (\<open>easyloader.modules\<close>), so it
  need not return on a cyclic table: the first argument is the depth of the call stack left,
  \<open>None\<close> the stack overflow.  The list is the closure variable \<open>mm\<close>, threaded through.
\<close>

primrec add_mod :: "nat \<Rightarrow> modtable \<Rightarrow> string \<Rightarrow> string list \<Rightarrow> string list option" where
  "add_mod 0 t x mm = None"
| "add_mod (Suc n) t x mm =
     (case mod_lookup t x of
        None \<Rightarrow> Some mm
      | Some i \<Rightarrow>
          (case mi_deps i of
             None \<Rightarrow> Some (mm @ [x])
           | Some ds \<Rightarrow> map_option (\<lambda>r. r @ [x]) (foldM (\<lambda>r d. add_mod n t d r) mm ds)))"

text \<open>The argument of \<open>load\<close>: one name or an array of names.\<close>

datatype larg = Name string | Names "string list"

definition resolve :: "nat \<Rightarrow> modtable \<Rightarrow> larg \<Rightarrow> string list option" where
  "resolve n t a =
     (case a of Name x \<Rightarrow> add_mod n t x [] | Names xs \<Rightarrow> foldM (\<lambda>r x. add_mod n t x r) [] xs)"

section \<open>State\<close>

datatype mstatus = Loading | Loaded

text \<open>
  What a script's \<open>onload\<close> does: finish module \<open>m\<close> of job \<open>j\<close> (with the flag \<open>_15=="loaded"\<close>
  of its style sheet), finish the locale script of job \<open>j\<close>, or run the page's own callback
  (its argument: whether one was given).
\<close>

datatype cont = Single nat string bool | Locale nat | User bool

record script =
  s_src :: string
  s_fired :: bool
  s_cont :: cont

datatype node = ScriptNode nat | LinkNode string

text \<open>
  One call of \<open>_17\<close>.  \<open>j_queue\<close> is \<open>mm\<close>, \<open>j_any\<close> is \<open>_1a\<close>, \<open>j_waited\<close> is \<open>_1d\<close>, \<open>j_cb\<close> says
  whether \<open>_19\<close> was given.  \<open>j_mods\<close> is the value \<open>mm\<close> had at the start; no code reads it, the
  invariants speak of it.
\<close>

record job =
  j_arg :: larg
  j_cb :: bool
  j_queue :: "string list"
  j_any :: bool
  j_waited :: int
  j_mods :: "string list"

datatype levent =
    Progress string | Callback nat | OnLoad nat | UserCall string | TypeError string | RangeError

record loader =
  status :: "string \<Rightarrow> mstatus option"
  scripts :: "script list"
  head_nodes :: "node list"
  timers :: "nat list"
  jobs :: "job list"
  log :: "levent list"

record config =
  c_modules :: modtable
  c_locales :: "(string \<times> string) list"
  c_base :: string
  c_theme :: string
  c_css :: bool
  c_locale :: "string option"
  c_timeout :: int
  c_stack :: nat

definition el_config :: config where
  "el_config = \<lparr>c_modules = el_modules, c_locales = el_locales, c_base = ''.'', c_theme = ''default'',
     c_css = True, c_locale = None, c_timeout = 2000, c_stack = 1000\<rparr>"

definition init_loader :: loader where
  "init_loader = \<lparr>status = (\<lambda>_. None), scripts = [], head_nodes = [], timers = [], jobs = [], log = []\<rparr>"

definition emit :: "levent \<Rightarrow> loader \<Rightarrow> loader" where
  "emit e s = s\<lparr>log := log s @ [e]\<rparr>"

definition upd_job :: "nat \<Rightarrow> (job \<Rightarrow> job) \<Rightarrow> loader \<Rightarrow> loader" where
  "upd_job j f s = s\<lparr>jobs := (jobs s)[j := f (jobs s ! j)]\<rparr>"

section \<open>Scripts and style sheets: \<open>_4\<close>, \<open>_9\<close>, \<open>_c\<close>\<close>

definition load_script :: "string \<Rightarrow> cont \<Rightarrow> loader \<Rightarrow> loader" where
  "load_script src k s =
     s\<lparr>scripts := scripts s @ [\<lparr>s_src = src, s_fired = False, s_cont = k\<rparr>],
       head_nodes := head_nodes s @ [ScriptNode (length (scripts s))]\<rparr>"

text \<open>\<open>_c\<close> calls the callback at once, without waiting for the style sheet.\<close>

definition load_css :: "string \<Rightarrow> (loader \<Rightarrow> loader) \<Rightarrow> loader \<Rightarrow> loader" where
  "load_css href cb s = cb (s\<lparr>head_nodes := head_nodes s @ [LinkNode href]\<rparr>)"

definition run_locale :: "string \<Rightarrow> nat \<Rightarrow> loader \<Rightarrow> loader" where
  "run_locale url j s = load_script url (Locale j) s"

definition is_http :: "string \<Rightarrow> bool" where
  "is_http u \<longleftrightarrow> map to_lower (take 4 u) = ''http''"

definition css_url :: "config \<Rightarrow> string \<Rightarrow> string" where
  "css_url c f = (if is_http f then f else c_base c @ ''themes/'' @ c_theme c @ ''/'' @ f)"

definition js_url :: "config \<Rightarrow> string \<Rightarrow> string" where
  "js_url c f = (if is_http f then f else c_base c @ ''plugins/'' @ f)"

section \<open>One module: \<open>_10\<close>\<close>

text \<open>
  The style sheet's callback runs inside \<open>_c\<close>, while \<open>_14\<close> is still \<open>"loading"\<close>: it sets
  \<open>_15\<close> and cannot finish the module.  When there is no style sheet \<open>_15\<close> starts as
  \<open>"loaded"\<close>.
\<close>

definition load_single :: "config \<Rightarrow> nat \<Rightarrow> string \<Rightarrow> loader \<Rightarrow> loader" where
  "load_single c j m s =
     (let s = s\<lparr>status := (status s)(m := Some Loading)\<rparr> in
      case mod_lookup (c_modules c) m of
        None \<Rightarrow> emit (TypeError m) s
      | Some i \<Rightarrow>
          (case mi_css i of
             None \<Rightarrow> load_script (js_url c (mi_js i)) (Single j m True) s
           | Some f \<Rightarrow>
               if c_css c
               then load_script (js_url c (mi_js i)) (Single j m True) (load_css (css_url c f) id s)
               else load_script (js_url c (mi_js i)) (Single j m True) s))"

section \<open>The driver: \<open>_17\<close> and \<open>_1e\<close>\<close>

definition complete :: "nat \<Rightarrow> loader \<Rightarrow> loader" where
  "complete j s =
     emit (OnLoad j) (if j_cb (jobs s ! j) then emit (Callback j) s else s)"

definition finish :: "config \<Rightarrow> nat \<Rightarrow> loader \<Rightarrow> loader" where
  "finish c j s =
     (case c_locale c of
        None \<Rightarrow> complete j s
      | Some l \<Rightarrow>
          (case (j_any (jobs s ! j), map_of (rev (c_locales c)) l) of
             (True, Some f) \<Rightarrow> run_locale (c_base c @ ''locale/'' @ f) j s
           | _ \<Rightarrow> complete j s))"

text \<open>The queue \<open>mm\<close> of job \<open>j\<close> is the third argument; it is written back wherever \<open>_1e\<close> returns.\<close>

fun pump :: "config \<Rightarrow> nat \<Rightarrow> string list \<Rightarrow> loader \<Rightarrow> loader" where
  "pump c j [] s = finish c j (upd_job j (\<lambda>b. b\<lparr>j_queue := []\<rparr>) s)"
| "pump c j (m # ms) s =
     (case status s m of
        None \<Rightarrow> load_single c j m (upd_job j (\<lambda>b. b\<lparr>j_queue := m # ms, j_any := True\<rparr>) s)
      | Some Loaded \<Rightarrow> pump c j ms s
      | Some Loading \<Rightarrow>
          if j_waited (jobs s ! j) < c_timeout c
          then (let s = upd_job j (\<lambda>b. b\<lparr>j_queue := m # ms, j_waited := j_waited b + 10\<rparr>) s
                in s\<lparr>timers := timers s @ [j]\<rparr>)
          else upd_job j (\<lambda>b. b\<lparr>j_queue := m # ms\<rparr>) s)"

definition load_module :: "config \<Rightarrow> larg \<Rightarrow> bool \<Rightarrow> loader \<Rightarrow> loader" where
  "load_module c a cb s =
     (case resolve (c_stack c) (c_modules c) a of
        None \<Rightarrow> emit RangeError s
      | Some mm \<Rightarrow>
          pump c (length (jobs s)) mm
            (s\<lparr>jobs := jobs s @ [\<lparr>j_arg = a, j_cb = cb, j_queue = mm, j_any = False, j_waited = 0,
                 j_mods = mm\<rparr>]\<rparr>))"

text \<open>
  \<open>easyloader.load\<close>: the tests on the extension apply to the argument converted to a string,
  so an array is joined with commas first.
\<close>

definition larg_string :: "larg \<Rightarrow> string" where
  "larg_string a = (case a of Name x \<Rightarrow> x | Names xs \<Rightarrow> js_join '','' xs)"

definition user_cb :: "string \<Rightarrow> bool \<Rightarrow> loader \<Rightarrow> loader" where
  "user_cb u cb s = (if cb then emit (UserCall u) s else s)"

definition load :: "config \<Rightarrow> larg \<Rightarrow> bool \<Rightarrow> loader \<Rightarrow> loader" where
  "load c a cb s =
     (let u = larg_string a; ext = map to_lower u; path = (if is_http u then u else c_base c @ u) in
      if ends_with ''.css'' ext then load_css path (user_cb u cb) s
      else if ends_with ''.js'' ext then load_script path (User cb) s
      else load_module c a cb s)"

section \<open>The browser's moves\<close>

text \<open>
  The \<open>onload\<close>/\<open>onreadystatechange\<close> handler of script \<open>k\<close>, with the element's \<open>readyState\<close>
  (\<open>None\<close> where the browser has none).
\<close>

definition ready :: "string option \<Rightarrow> bool" where
  "ready rs = (case rs of None \<Rightarrow> True | Some r \<Rightarrow> r = '''' \<or> r = ''loaded'' \<or> r = ''complete'')"

definition module_done :: "config \<Rightarrow> nat \<Rightarrow> string \<Rightarrow> loader \<Rightarrow> loader" where
  "module_done c j m s =
     (let s = emit (Progress m) (s\<lparr>status := (status s)(m := Some Loaded)\<rparr>)
      in pump c j (tl (j_queue (jobs s ! j))) s)"

definition script_event :: "config \<Rightarrow> nat \<Rightarrow> string option \<Rightarrow> loader \<Rightarrow> loader" where
  "script_event c k rs s =
     (if k < length (scripts s) \<and> \<not> s_fired (scripts s ! k) \<and> ready rs then
        let s = s\<lparr>scripts := (scripts s)[k := (scripts s ! k)\<lparr>s_fired := True\<rparr>]\<rparr> in
        case s_cont (scripts s ! k) of
          Single j m css_loaded \<Rightarrow> if css_loaded then module_done c j m s else s
        | Locale j \<Rightarrow> complete j (s\<lparr>head_nodes := filter (\<lambda>n. n \<noteq> ScriptNode k) (head_nodes s)\<rparr>)
        | User cb \<Rightarrow> user_cb (s_src (scripts s ! k)) cb s
      else s)"

definition timer_event :: "config \<Rightarrow> nat \<Rightarrow> loader \<Rightarrow> loader" where
  "timer_event c i s =
     (if i < length (timers s)
      then let j = timers s ! i in pump c j (j_queue (jobs s ! j)) (s\<lparr>timers := splice_del i (timers s)\<rparr>)
      else s)"

datatype laction = Load larg bool | ScriptEvent nat "string option" | TimerEvent nat

fun loader_act :: "config \<Rightarrow> laction \<Rightarrow> loader \<Rightarrow> loader" where
  "loader_act c (Load a cb) s = load c a cb s"
| "loader_act c (ScriptEvent k rs) s = script_event c k rs s"
| "loader_act c (TimerEvent i) s = timer_event c i s"

inductive loader_reach :: "config \<Rightarrow> loader \<Rightarrow> bool" for c where
  start: "loader_reach c init_loader"
| act: "loader_reach c s \<Longrightarrow> loader_reach c (loader_act c a s)"

section \<open>Finding the base path\<close>

text \<open>
  The loop over the page's script elements: \<open>src.match(/easyloader\.js(\W|$)/i)\<close> finds the first
  occurrence, and the last script that matches sets \<open>easyloader.base\<close>.
\<close>

definition loader_file :: string where
  "loader_file = ''easyloader.js''"

definition match_here :: "string \<Rightarrow> bool" where
  "match_here u \<longleftrightarrow>
     map to_lower (take (length loader_file) u) = loader_file
     \<and> (case drop (length loader_file) u of [] \<Rightarrow> True | ch # _ \<Rightarrow> \<not> is_word_char ch)"

fun match_index :: "string \<Rightarrow> nat option" where
  "match_index [] = None"
| "match_index (x # xs) = (if match_here (x # xs) then Some 0 else map_option Suc (match_index xs))"

fun scan_base :: "string \<Rightarrow> string list \<Rightarrow> string" where
  "scan_base b [] = b"
| "scan_base b (src # rest) =
     (if src = [] then scan_base b rest
      else case match_index src of
             None \<Rightarrow> scan_base b rest
           | Some i \<Rightarrow> scan_base (take i src) rest)"

section \<open>Resolution puts every module after its dependencies\<close>

definition dep_closed :: "modtable \<Rightarrow> string list \<Rightarrow> bool" where
  "dep_closed t ms \<longleftrightarrow>
     (\<forall>i<length ms. \<forall>d\<in>set (mod_deps t (ms ! i)). mod_lookup t d \<noteq> None \<longrightarrow> d \<in> set (take i ms))"

definition known :: "modtable \<Rightarrow> string list \<Rightarrow> bool" where
  "known t ms \<longleftrightarrow> (\<forall>m\<in>set ms. mod_lookup t m \<noteq> None)"

lemma dep_closed_Nil [simp]: "dep_closed t []"
  by (simp add: dep_closed_def)

lemma known_Nil [simp]: "known t []"
  by (simp add: known_def)

lemma dep_closed_snoc:
  "dep_closed t ms \<Longrightarrow> \<forall>d\<in>set (mod_deps t x). mod_lookup t d \<noteq> None \<longrightarrow> d \<in> set ms \<Longrightarrow>
   dep_closed t (ms @ [x])"
  by (auto simp: dep_closed_def nth_append less_Suc_eq)

definition extends :: "string list \<Rightarrow> string list \<Rightarrow> bool" where
  "extends ms r \<longleftrightarrow> (\<exists>ys. r = ms @ ys)"

lemma extends_refl [simp]: "extends ms ms"
  by (simp add: extends_def)

lemma extends_trans: "extends a b \<Longrightarrow> extends b c \<Longrightarrow> extends a c"
  by (auto simp: extends_def)

lemma extends_set: "extends ms r \<Longrightarrow> x \<in> set ms \<Longrightarrow> x \<in> set r"
  by (auto simp: extends_def)

lemma extends_snoc: "extends ms r \<Longrightarrow> extends ms (r @ [x])"
  by (auto simp: extends_def)

text \<open>What one call of \<open>add\<close> does to the list, when it returns.\<close>

definition add_ok :: "modtable \<Rightarrow> string list \<Rightarrow> string \<Rightarrow> string list \<Rightarrow> bool" where
  "add_ok t mm x r \<longleftrightarrow>
     extends mm r \<and> (dep_closed t mm \<longrightarrow> dep_closed t r) \<and> (known t mm \<longrightarrow> known t r)
     \<and> (mod_lookup t x \<noteq> None \<longrightarrow> r \<noteq> [] \<and> last r = x)"

lemma foldM_add_ok:
  assumes "foldM (\<lambda>r d. f d r) mm ds = Some r"
    and "\<And>d mm r. f d mm = Some r \<Longrightarrow> add_ok t mm d r"
  shows "extends mm r \<and> (dep_closed t mm \<longrightarrow> dep_closed t r) \<and> (known t mm \<longrightarrow> known t r)
    \<and> (\<forall>d\<in>set ds. mod_lookup t d \<noteq> None \<longrightarrow> d \<in> set r)"
  using assms(1)
proof (induction ds arbitrary: mm)
  case Nil
  then show ?case by simp
next
  case (Cons d ds)
  from Cons.prems obtain r' where r': "f d mm = Some r'" "foldM (\<lambda>r d. f d r) r' ds = Some r"
    by (auto split: option.splits)
  have ok: "add_ok t mm d r'" using r'(1) by (rule assms(2))
  have "mod_lookup t d \<noteq> None \<longrightarrow> d \<in> set r'"
    using ok last_in_set [of r'] by (auto simp: add_ok_def)
  with ok Cons.IH [OF r'(2)] show ?case
    by (auto simp: add_ok_def intro: extends_trans extends_set)
qed

lemma add_mod_ok: "add_mod n t x mm = Some r \<Longrightarrow> add_ok t mm x r"
proof (induction n arbitrary: x mm r)
  case 0
  then show ?case by simp
next
  case (Suc n)
  show ?case
  proof (cases "mod_lookup t x")
    case None
    with Suc.prems show ?thesis by (simp add: add_ok_def)
  next
    case (Some i)
    show ?thesis
    proof (cases "mi_deps i")
      case None
      with Some Suc.prems show ?thesis
        by (auto simp: add_ok_def mod_deps_def known_def intro: dep_closed_snoc extends_snoc)
    next
      case (Some ds)
      with \<open>mod_lookup t x = Some i\<close> Suc.prems obtain r' where
        r': "foldM (\<lambda>r d. add_mod n t d r) mm ds = Some r'" and r: "r = r' @ [x]" by auto
      from foldM_add_ok [OF r'(1) Suc.IH] Some \<open>mod_lookup t x = Some i\<close> show ?thesis
        unfolding r by (auto simp: add_ok_def mod_deps_def known_def intro!: dep_closed_snoc extends_snoc)
    qed
  qed
qed

lemma resolve_ok:
  assumes "resolve n t a = Some mm"
  shows "dep_closed t mm \<and> known t mm"
proof (cases a)
  case (Name x)
  with assms have "add_mod n t x [] = Some mm" by (simp add: resolve_def)
  then have "add_ok t [] x mm" by (rule add_mod_ok)
  then show ?thesis by (simp add: add_ok_def)
next
  case (Names xs)
  with assms have f: "foldM (\<lambda>r x. add_mod n t x r) [] xs = Some mm" by (simp add: resolve_def)
  from foldM_add_ok [OF f add_mod_ok] show ?thesis by simp
qed

text \<open>Every name asked for that the table knows is in the list.\<close>

lemma resolve_contains:
  assumes "resolve n t (Names xs) = Some mm" and "x \<in> set xs" and "mod_lookup t x \<noteq> None"
  shows "x \<in> set mm"
proof -
  from assms(1) have f: "foldM (\<lambda>r x. add_mod n t x r) [] xs = Some mm" by (simp add: resolve_def)
  from foldM_add_ok [OF f add_mod_ok [of n t]] assms(2,3) show ?thesis by blast
qed

section \<open>Resolution terminates on an acyclic table\<close>

text \<open>
  A table is acyclic when its modules have a rank that grows from a dependency to what
  depends on it; then a call stack deeper than the rank is enough.
\<close>

locale ranked_table =
  fixes tbl :: modtable and rank :: "string \<Rightarrow> nat"
  assumes rank_dep: "mod_lookup tbl x = Some i \<Longrightarrow> d \<in> set (mod_deps tbl x) \<Longrightarrow> rank d < rank x"
begin

lemma add_mod_total: "rank x < n \<Longrightarrow> add_mod n tbl x mm \<noteq> None"
proof (induction n arbitrary: x mm)
  case 0
  then show ?case by simp
next
  case (Suc n)
  show ?case
  proof (cases "mod_lookup tbl x")
    case None
    then show ?thesis by simp
  next
    case (Some i)
    show ?thesis
    proof (cases "mi_deps i")
      case None
      with Some show ?thesis by simp
    next
      case (Some ds)
      with \<open>mod_lookup tbl x = Some i\<close> have ds: "mod_deps tbl x = ds" by (simp add: mod_deps_def)
      have "foldM (\<lambda>r d. add_mod n tbl d r) mm ds \<noteq> None"
      proof (rule foldM_total)
        fix b d
        assume "d \<in> set ds"
        with ds \<open>mod_lookup tbl x = Some i\<close> have "rank d < rank x" using rank_dep by simp
        with Suc.prems have "rank d < n" by simp
        then show "add_mod n tbl d b \<noteq> None" by (rule Suc.IH)
      qed
      with Some \<open>mod_lookup tbl x = Some i\<close> show ?thesis by auto
    qed
  qed
qed

lemma resolve_total: "(\<And>x. rank x < n) \<Longrightarrow> resolve n tbl a \<noteq> None"
  using foldM_total [where f = "\<lambda>r x. add_mod n tbl x r"] add_mod_total [of _ n]
  by (cases a) (simp_all add: resolve_def del: not_None_eq)

end

text \<open>Ranks of the shipped modules that depend on others; every other name has rank 0.\<close>

definition el_ranks :: "(string \<times> nat) list" where
  "el_ranks =
    [(''pagination'', 1), (''window'', 1), (''layout'', 1), (''tabs'', 1),
     (''menubutton'', 1), (''accordion'', 1), (''validatebox'', 1), (''tree'', 1),
     (''slider'', 1), (''datagrid'', 2), (''dialog'', 2), (''messager'', 2),
     (''splitbutton'', 2), (''textbox'', 2), (''treegrid'', 3), (''propertygrid'', 3),
     (''datalist'', 3), (''filebox'', 3), (''combo'', 3), (''numberbox'', 3),
     (''searchbox'', 3), (''spinner'', 3), (''combobox'', 4), (''combotree'', 4),
     (''combogrid'', 4), (''numberspinner'', 4), (''timespinner'', 4), (''datebox'', 4),
     (''datetimebox'', 5)]"

definition el_rank :: "string \<Rightarrow> nat" where
  "el_rank x = (case map_of el_ranks x of None \<Rightarrow> 0 | Some n \<Rightarrow> n)"

lemma el_modules_ranked:
  "list_all (\<lambda>(n, i). case mi_deps i of None \<Rightarrow> True
     | Some ds \<Rightarrow> list_all (\<lambda>d. el_rank d < el_rank n) ds) el_modules"
  by code_simp

lemma el_ranks_bounded: "list_all (\<lambda>(x, n). n < 6) el_ranks"
  by code_simp

lemma el_rank_bound: "el_rank x < 6"
proof (cases "map_of el_ranks x")
  case None
  then show ?thesis by (simp add: el_rank_def)
next
  case (Some n)
  then have "(x, n) \<in> set el_ranks" by (rule map_of_SomeD)
  with el_ranks_bounded Some show ?thesis by (auto simp: el_rank_def list_all_iff)
qed

interpretation el: ranked_table el_modules el_rank
proof unfold_locales
  fix x i d
  assume i: "mod_lookup el_modules x = Some i" and d: "d \<in> set (mod_deps el_modules x)"
  from i have "(x, i) \<in> set el_modules"
    by (auto simp: mod_lookup_def dest: map_of_SomeD)
  with el_modules_ranked have "case mi_deps i of None \<Rightarrow> True
      | Some ds \<Rightarrow> list_all (\<lambda>d. el_rank d < el_rank x) ds"
    by (auto simp: list_all_iff)
  with i d show "el_rank d < el_rank x"
    by (auto simp: mod_deps_def list_all_iff split: option.splits)
qed

section \<open>Every module script is added once\<close>

definition mod_of :: "script \<Rightarrow> string option" where
  "mod_of sc = (case s_cont sc of Single j m b \<Rightarrow> Some m | _ \<Rightarrow> None)"

definition script_mods :: "loader \<Rightarrow> string list" where
  "script_mods s = List.map_filter mod_of (scripts s)"

text \<open>
  \<open>once\<close>: no module has two script elements, and a module with a script element has a
  status, so that no later request starts it again.
\<close>

definition once :: "loader \<Rightarrow> bool" where
  "once s \<longleftrightarrow> distinct (script_mods s) \<and> (\<forall>m\<in>set (script_mods s). status s m \<noteq> None)"

lemma map_filter_snoc:
  "List.map_filter f (xs @ [x]) = List.map_filter f xs @ (case f x of None \<Rightarrow> [] | Some y \<Rightarrow> [y])"
  by (simp add: List.map_filter_def split: option.splits)

lemma map_filter_update:
  "k < length xs \<Longrightarrow> f y = f (xs ! k) \<Longrightarrow> List.map_filter f (xs[k := y]) = List.map_filter f xs"
proof (induction xs arbitrary: k)
  case Nil
  then show ?case by simp
next
  case (Cons x xs)
  then show ?case by (cases k) (auto simp: List.map_filter_def split: if_splits)
qed

lemma script_mods_load:
  "script_mods (load_script u k s) =
     script_mods s @ (case k of Single j m b \<Rightarrow> [m] | _ \<Rightarrow> [])"
  by (simp add: script_mods_def load_script_def map_filter_snoc mod_of_def split: cont.splits)

lemma script_mods_eq: "scripts s' = scripts s \<Longrightarrow> script_mods s' = script_mods s"
  by (simp add: script_mods_def)

lemma script_mods_simps [simp]:
  "script_mods (emit e s) = script_mods s"
  "script_mods (upd_job j f s) = script_mods s"
  "script_mods (s\<lparr>timers := t\<rparr>) = script_mods s"
  "script_mods (s\<lparr>jobs := js\<rparr>) = script_mods s"
  "script_mods (s\<lparr>status := st\<rparr>) = script_mods s"
  "script_mods (s\<lparr>head_nodes := h\<rparr>) = script_mods s"
  by (auto simp: emit_def upd_job_def intro: script_mods_eq)

lemma status_simps [simp]:
  "status (emit e s) = status s"
  "status (upd_job j f s) = status s"
  "status (load_script u k s) = status s"
  by (auto simp: emit_def upd_job_def load_script_def)

lemma once_cong: "script_mods s' = script_mods s \<Longrightarrow> status s' = status s \<Longrightarrow> once s' = once s"
  by (simp add: once_def)

lemma once_complete [js_inv]: "once s \<Longrightarrow> once (complete j s)"
  by (simp add: complete_def once_def)

lemma once_load_script [js_inv]:
  "once s \<Longrightarrow> (\<And>j m b. k \<noteq> Single j m b) \<Longrightarrow> once (load_script u k s)"
  by (cases k) (auto simp: once_def script_mods_load)

lemma once_finish [js_inv]: "once s \<Longrightarrow> once (finish c j s)"
  by (auto simp: finish_def run_locale_def split: option.splits bool.splits
      intro!: once_complete once_load_script)

lemma once_load_single [js_inv]:
  assumes "once s" and "status s m = None"
  shows "once (load_single c j m s)"
proof -
  have m: "m \<notin> set (script_mods s)" using assms by (auto simp: once_def)
  have "once (load_script u (Single j m b) (s\<lparr>status := (status s)(m \<mapsto> Loading), head_nodes := h\<rparr>))" for u b h
    using assms(1) m by (auto simp: once_def script_mods_load)
  moreover have "once (load_script u (Single j m b) (s\<lparr>status := (status s)(m \<mapsto> Loading)\<rparr>))" for u b
    using assms(1) m by (auto simp: once_def script_mods_load)
  moreover have "once (emit e (s\<lparr>status := (status s)(m \<mapsto> Loading)\<rparr>))" for e
    using assms(1) by (auto simp: once_def)
  ultimately show ?thesis
    by (auto simp: load_single_def load_css_def Let_def split: option.splits)
qed

lemma once_simps [simp]:
  "once (upd_job j f s) = once s"
  "once (emit e s) = once s"
  "once (s\<lparr>timers := t\<rparr>) = once s"
  "once (s\<lparr>jobs := js\<rparr>) = once s"
  "once (s\<lparr>head_nodes := h\<rparr>) = once s"
  by (auto simp: once_def)

lemma once_pump [js_inv]: "once s \<Longrightarrow> once (pump c j q s)"
proof (induction q arbitrary: s)
  case Nil
  then show ?case by (simp add: once_finish)
next
  case (Cons m ms)
  then show ?case
    by (auto simp: Let_def split: option.split mstatus.split intro!: once_load_single)
qed

lemma once_load [js_inv]: "once s \<Longrightarrow> once (load c a cb s)"
  by (auto simp: load_def Let_def load_css_def user_cb_def load_module_def split: option.splits
      intro!: once_pump once_load_script)

lemma once_fire:
  "once s \<Longrightarrow> k < length (scripts s) \<Longrightarrow>
   once (s\<lparr>scripts := (scripts s)[k := (scripts s ! k)\<lparr>s_fired := True\<rparr>]\<rparr>)"
  by (simp add: once_def script_mods_def map_filter_update mod_of_def)

lemma once_script_event [js_inv]: "once s \<Longrightarrow> once (script_event c k rs s)"
proof (cases "k < length (scripts s) \<and> \<not> s_fired (scripts s ! k) \<and> ready rs")
  case True
  assume "once s"
  with True have *: "once (s\<lparr>scripts := (scripts s)[k := (scripts s ! k)\<lparr>s_fired := True\<rparr>]\<rparr>)" (is "once ?s")
    by (simp add: once_fire)
  have "once (emit (Progress m) (?s\<lparr>status := (status ?s)(m := Some Loaded)\<rparr>))" for m
    using * by (simp add: once_def)
  moreover have "once (?s\<lparr>head_nodes := h\<rparr>)" for h
    using * by (simp add: once_def)
  moreover have "once (user_cb u cb ?s)" for u cb
    using * by (simp add: user_cb_def once_def)
  ultimately show ?thesis using True *
    by (auto simp: script_event_def Let_def module_done_def split: cont.splits
        intro!: once_pump once_complete)
next
  case False
  assume "once s"
  with False show ?thesis by (auto simp: script_event_def)
qed

lemma once_timer_event [js_inv]: "once s \<Longrightarrow> once (timer_event c i s)"
  by (auto simp: timer_event_def Let_def intro!: once_pump)

lemma once_act: "once s \<Longrightarrow> once (loader_act c a s)"
  by (cases a) (auto intro: js_inv)

lemma once_reach: "loader_reach c s \<Longrightarrow> once s"
proof (induction rule: loader_reach.induct)
  case start
  show ?case by (simp add: once_def init_loader_def script_mods_def)
next
  case (act s a)
  then show ?case by (intro once_act)
qed

section \<open>Every request is in one place\<close>

text \<open>
  What a job waits for, or has done, is counted in tokens: its timers, its unfired scripts
  and its \<open>onLoad\<close> entries.  A job never has more than one, so it never reports twice; a
  job without a token is stuck, which is what \<open>_1e\<close> leaves behind when it times out.
\<close>

definition cont_job :: "cont \<Rightarrow> nat option" where
  "cont_job k = (case k of Single j m b \<Rightarrow> Some j | Locale j \<Rightarrow> Some j | User b \<Rightarrow> None)"

definition waits_for :: "nat \<Rightarrow> script \<Rightarrow> bool" where
  "waits_for j sc \<longleftrightarrow> \<not> s_fired sc \<and> cont_job (s_cont sc) = Some j"

definition tokens :: "nat \<Rightarrow> loader \<Rightarrow> nat" where
  "tokens j s =
     count_list (timers s) j + length (filter (waits_for j) (scripts s)) + count_list (log s) (OnLoad j)"

lemma tokens_upd_job [simp]: "tokens i (upd_job j f s) = tokens i s"
  by (simp add: tokens_def upd_job_def)

lemma tokens_more [simp]:
  "tokens j (s\<lparr>status := st\<rparr>) = tokens j s"
  "tokens j (s\<lparr>head_nodes := h\<rparr>) = tokens j s"
  "tokens j (s\<lparr>jobs := js\<rparr>) = tokens j s"
  by (simp_all add: tokens_def)

lemma tokens_emit:
  "tokens j (emit e s) = tokens j s + (if e = OnLoad j then 1 else 0)"
  by (simp add: tokens_def emit_def)

lemma tokens_load_script:
  "tokens j (load_script u k s) = tokens j s + (if cont_job k = Some j then 1 else 0)"
  by (simp add: tokens_def load_script_def waits_for_def)

lemma tokens_timers:
  "tokens j (s\<lparr>timers := timers s @ [i]\<rparr>) = tokens j s + (if i = j then 1 else 0)"
  by (simp add: tokens_def)

lemma cont_job_simps [simp]:
  "cont_job (Single j m b) = Some j" "cont_job (Locale j) = Some j" "cont_job (User cb) = None"
  by (simp_all add: cont_job_def)

lemma tokens_complete: "tokens j (complete i s) = tokens j s + (if i = j then 1 else 0)"
  by (simp add: complete_def tokens_emit)

lemma tokens_finish: "tokens j (finish c i s) = tokens j s + (if i = j then 1 else 0)"
  by (auto simp: finish_def run_locale_def tokens_complete tokens_load_script
      split: option.split bool.split)

lemma tokens_load_single:
  "tokens j (load_single c i m s) \<le> tokens j s + (if i = j then 1 else 0)"
  by (auto simp: load_single_def load_css_def Let_def tokens_load_script tokens_emit split: option.split)

lemma tokens_pump: "tokens j (pump c i q s) \<le> tokens j s + (if i = j then 1 else 0)"
proof (induction q arbitrary: s)
  case Nil
  show ?case by (simp add: tokens_finish)
next
  case (Cons m ms)
  have "tokens j (load_single c i m (upd_job i f s)) \<le> tokens j s + (if i = j then 1 else 0)" for f
    using tokens_load_single [of j c i m "upd_job i f s"] by simp
  moreover have "tokens j ((upd_job i f s)\<lparr>timers := timers (upd_job i f s) @ [i]\<rparr>)
      = tokens j s + (if i = j then 1 else 0)" for f
    by (simp only: tokens_timers tokens_upd_job)
  ultimately show ?case
    using Cons.IH [of s] by (auto simp: Let_def split: option.split mstatus.split)
qed

lemma tokens_fire:
  assumes "k < length (scripts s)" and "\<not> s_fired (scripts s ! k)"
  shows "tokens j s = tokens j (s\<lparr>scripts := (scripts s)[k := (scripts s ! k)\<lparr>s_fired := True\<rparr>]\<rparr>)
    + (if cont_job (s_cont (scripts s ! k)) = Some j then 1 else 0)"
proof -
  let ?sc = "scripts s ! k"
  have "scripts s = take k (scripts s) @ ?sc # drop (Suc k) (scripts s)"
    using assms(1) by (simp add: id_take_nth_drop)
  then have "length (filter (waits_for j) (scripts s)) =
      length (filter (waits_for j) (take k (scripts s) @ ?sc # drop (Suc k) (scripts s)))" by simp
  then show ?thesis
    using assms by (simp add: tokens_def upd_conv_take_nth_drop waits_for_def)
qed

lemma count_list_splice_del:
  "i < length xs \<Longrightarrow> count_list xs y = count_list (splice_del i xs) y + (if xs ! i = y then 1 else 0)"
proof -
  assume "i < length xs"
  then have "xs = take i xs @ xs ! i # drop (Suc i) xs" by (simp add: id_take_nth_drop)
  then have "count_list xs y = count_list (take i xs @ xs ! i # drop (Suc i) xs) y" by simp
  then show ?thesis by (simp add: splice_del_def)
qed

lemma tokens_take_timer:
  "i < length (timers s) \<Longrightarrow>
   tokens j s = tokens j (s\<lparr>timers := splice_del i (timers s)\<rparr>) + (if timers s ! i = j then 1 else 0)"
  using count_list_splice_del [of i "timers s" j] by (simp add: tokens_def)

lemma tokens_user_cb [simp]: "tokens j (user_cb u cb s) = tokens j s"
  by (simp add: user_cb_def tokens_emit)

lemma tokens_module_done: "tokens j (module_done c i m s) \<le> tokens j s + (if i = j then 1 else 0)"
  using tokens_pump [of j c i "tl (j_queue (jobs s ! i))"
      "emit (Progress m) (s\<lparr>status := (status s)(m := Some Loaded)\<rparr>)"]
  by (simp add: module_done_def Let_def tokens_emit) (auto simp: emit_def)

lemma tokens_script_event: "tokens j (script_event c k rs s) \<le> tokens j s"
proof (cases "k < length (scripts s) \<and> \<not> s_fired (scripts s ! k) \<and> ready rs")
  case True
  let ?s = "s\<lparr>scripts := (scripts s)[k := (scripts s ! k)\<lparr>s_fired := True\<rparr>]\<rparr>"
  have eq: "tokens j s = tokens j ?s + (if cont_job (s_cont (scripts s ! k)) = Some j then 1 else 0)"
    using True by (intro tokens_fire) auto
  show ?thesis
  proof (cases "s_cont (scripts s ! k)")
    case (Single i m b)
    with eq True tokens_module_done [of j c i m ?s] show ?thesis
      by (simp add: script_event_def Let_def split: if_splits)
  next
    case (Locale i)
    with eq True show ?thesis by (simp add: script_event_def Let_def tokens_complete)
  next
    case (User cb)
    with eq True show ?thesis by (simp add: script_event_def Let_def)
  qed
next
  case False
  then show ?thesis by (auto simp: script_event_def)
qed

lemma tokens_timer_event: "tokens j (timer_event c i s) \<le> tokens j s"
proof (cases "i < length (timers s)")
  case True
  have "tokens j (timer_event c i s) \<le>
      tokens j (s\<lparr>timers := splice_del i (timers s)\<rparr>) + (if timers s ! i = j then 1 else 0)"
    using True tokens_pump [of j c "timers s ! i" _ "s\<lparr>timers := splice_del i (timers s)\<rparr>"]
    by (simp add: timer_event_def Let_def)
  with tokens_take_timer [OF True, of j] show ?thesis by simp
next
  case False
  then show ?thesis by (simp add: timer_event_def)
qed

lemma tokens_load:
  "tokens j (load c a cb s) \<le> tokens j s + (if j = length (jobs s) then 1 else 0)"
proof -
  have "tokens j (pump c (length (jobs s)) q (s\<lparr>jobs := js\<rparr>)) \<le> tokens j s + (if j = length (jobs s) then 1 else 0)" for q js
    using tokens_pump [of j c "length (jobs s)" q "s\<lparr>jobs := js\<rparr>"] by auto
  then show ?thesis
    by (auto simp: load_def Let_def load_css_def load_module_def tokens_load_script tokens_emit split: option.split)
qed

text \<open>A step never gives a token to a job that exists: a finished or stuck job stays so.\<close>

lemma tokens_act: "j \<noteq> length (jobs s) \<Longrightarrow> tokens j (loader_act c a s) \<le> tokens j s"
  using tokens_load [of j c _ _ s]
  by (cases a) (auto simp: tokens_script_event tokens_timer_event intro: le_trans)

lemma jobs_simps [simp]:
  "jobs (emit e s) = jobs s" "jobs (load_script u k s) = jobs s" "jobs (user_cb u cb s) = jobs s"
  "length (jobs (upd_job j f s)) = length (jobs s)"
  by (simp_all add: emit_def load_script_def user_cb_def upd_job_def)

lemma length_jobs_pump [simp]: "length (jobs (pump c j q s)) = length (jobs s)"
  by (induction q arbitrary: s)
    (auto simp: Let_def finish_def complete_def run_locale_def load_single_def load_css_def
      split: option.split mstatus.split bool.split)

lemma length_jobs_act: "length (jobs s) \<le> length (jobs (loader_act c a s))"
  by (cases a)
    (auto simp: load_def Let_def load_css_def load_module_def script_event_def module_done_def
      complete_def timer_event_def split: option.split cont.split)

definition one_place :: "loader \<Rightarrow> bool" where
  "one_place s \<longleftrightarrow> (\<forall>j. tokens j s \<le> (if j < length (jobs s) then 1 else 0))"

lemma length_jobs_load_new:
  "tokens (length (jobs s)) s < tokens (length (jobs s)) (load c a cb s) \<Longrightarrow>
   length (jobs (load c a cb s)) = Suc (length (jobs s))"
  by (auto simp: load_def Let_def load_css_def load_module_def tokens_load_script tokens_emit
      split: option.splits if_splits)

lemma one_place_act: "one_place s \<Longrightarrow> one_place (loader_act c a s)"
  unfolding one_place_def
proof
  fix j
  assume inv: "\<forall>j. tokens j s \<le> (if j < length (jobs s) then 1 else 0)"
  let ?t = "loader_act c a s"
  show "tokens j ?t \<le> (if j < length (jobs ?t) then 1 else 0)"
  proof (cases "j = length (jobs s)")
    case False
    with tokens_act [of j s c a] inv length_jobs_act [of s c a] show ?thesis
      by (auto split: if_splits dest!: spec [of _ j])
  next
    case True
    with inv have 0: "tokens j s = 0" by (auto dest!: spec [of _ j])
    show ?thesis
    proof (cases a)
      case (Load x cb)
      show ?thesis
      proof (cases "tokens j (load c x cb s) = 0")
        case True
        with Load show ?thesis by simp
      next
        case False
        with 0 True have "length (jobs (load c x cb s)) = Suc (length (jobs s))"
          by (intro length_jobs_load_new) simp
        with 0 True Load tokens_load [of j c x cb s] show ?thesis by simp
      qed
    next
      case (ScriptEvent k rs)
      with 0 tokens_script_event [of j c k rs s] show ?thesis by simp
    next
      case (TimerEvent i)
      with 0 tokens_timer_event [of j c i s] show ?thesis by simp
    qed
  qed
qed

lemma one_place_reach: "loader_reach c s \<Longrightarrow> one_place s"
proof (induction rule: loader_reach.induct)
  case start
  show ?case by (simp add: one_place_def init_loader_def tokens_def)
next
  case (act s a)
  then show ?case by (intro one_place_act)
qed

section \<open>A request that reports has everything it asked for\<close>

definition job_ok :: "config \<Rightarrow> loader \<Rightarrow> nat \<Rightarrow> string list \<Rightarrow> bool" where
  "job_ok c s j q \<longleftrightarrow>
     resolve (c_stack c) (c_modules c) (j_arg (jobs s ! j)) = Some (j_mods (jobs s ! j))
     \<and> (\<exists>pre. j_mods (jobs s ! j) = pre @ q \<and> (\<forall>m\<in>set pre. status s m = Some Loaded))"

definition cont_ok :: "cont \<Rightarrow> string list \<Rightarrow> bool" where
  "cont_ok k q = (case k of Single j m b \<Rightarrow> q \<noteq> [] \<and> hd q = m | Locale j \<Rightarrow> q = [] | User cb \<Rightarrow> True)"

definition owner_ok :: "config \<Rightarrow> loader \<Rightarrow> nat \<Rightarrow> bool" where
  "owner_ok c s j \<longleftrightarrow>
     job_ok c s j (j_queue (jobs s ! j))
     \<and> (\<forall>sc\<in>set (scripts s). waits_for j sc \<longrightarrow> cont_ok (s_cont sc) (j_queue (jobs s ! j)))
     \<and> (OnLoad j \<in> set (log s) \<longrightarrow> j_queue (jobs s ! j) = [])"

definition progressed :: "config \<Rightarrow> loader \<Rightarrow> bool" where
  "progressed c s \<longleftrightarrow> (\<forall>j<length (jobs s). owner_ok c s j)"

text \<open>Job \<open>j\<close> is between two steps: the others are in order, it owns nothing, and \<open>q\<close> is left to load.\<close>

definition between :: "config \<Rightarrow> nat \<Rightarrow> string list \<Rightarrow> loader \<Rightarrow> bool" where
  "between c j q s \<longleftrightarrow>
     j < length (jobs s) \<and> (\<forall>i<length (jobs s). i \<noteq> j \<longrightarrow> owner_ok c s i)
     \<and> tokens j s = 0 \<and> job_ok c s j q"

definition same_other :: "nat \<Rightarrow> loader \<Rightarrow> loader \<Rightarrow> bool" where
  "same_other j s t \<longleftrightarrow>
     length (jobs t) = length (jobs s) \<and> (\<forall>i. i \<noteq> j \<longrightarrow> jobs t ! i = jobs s ! i)
     \<and> (\<forall>m. status s m = Some Loaded \<longrightarrow> status t m = Some Loaded)
     \<and> (\<forall>i sc. i \<noteq> j \<longrightarrow> sc \<in> set (scripts t) \<longrightarrow> waits_for i sc \<longrightarrow> sc \<in> set (scripts s))
     \<and> (\<forall>i. i \<noteq> j \<longrightarrow> OnLoad i \<in> set (log t) \<longrightarrow> OnLoad i \<in> set (log s))"

lemma same_other_owner: "same_other j s t \<Longrightarrow> i \<noteq> j \<Longrightarrow> owner_ok c s i \<Longrightarrow> owner_ok c t i"
  unfolding same_other_def owner_ok_def job_ok_def by metis

lemma tokens_0_owner:
  "tokens j s = 0 \<Longrightarrow> (\<forall>sc\<in>set (scripts s). \<not> waits_for j sc) \<and> OnLoad j \<notin> set (log s)"
  by (auto simp: tokens_def count_list_0_iff filter_empty_conv)

text \<open>
  What a step of job \<open>j\<close> has to establish: it touches nothing of the others, and what it
  leaves for \<open>j\<close> fits \<open>j\<close>'s queue.
\<close>

lemma betweenD:
  assumes "between c j q s"
  shows "j < length (jobs s)" and "sc \<in> set (scripts s) \<Longrightarrow> \<not> waits_for j sc"
    and "OnLoad j \<notin> set (log s)" and "job_ok c s j q"
    and "i < length (jobs s) \<Longrightarrow> i \<noteq> j \<Longrightarrow> owner_ok c s i"
  using assms tokens_0_owner [of j s] by (auto simp: between_def)

lemma progressedI:
  assumes b: "between c j q s" and o: "same_other j s t" and "job_ok c t j (j_queue (jobs t ! j))"
    and "\<And>sc. sc \<in> set (scripts t) \<Longrightarrow> sc \<notin> set (scripts s) \<Longrightarrow> cont_ok (s_cont sc) (j_queue (jobs t ! j))"
    and "OnLoad j \<in> set (log t) \<Longrightarrow> j_queue (jobs t ! j) = []"
  shows "progressed c t"
  unfolding progressed_def
proof (intro allI impI)
  fix i
  assume i: "i < length (jobs t)"
  show "owner_ok c t i"
  proof (cases "i = j")
    case False
    with i o betweenD(5) [OF b] have "owner_ok c s i" by (simp add: same_other_def)
    with False o show ?thesis by (blast intro: same_other_owner)
  next
    case True
    with assms(3-5) betweenD(2) [OF b] show ?thesis by (auto simp: owner_ok_def)
  qed
qed

lemma loader_projs [simp]:
  "scripts (emit e s) = scripts s" "timers (emit e s) = timers s"
  "log (emit e s) = log s @ [e]" "scripts (upd_job j f s) = scripts s" "log (upd_job j f s) = log s"
  "jobs (upd_job j f s) = (jobs s)[j := f (jobs s ! j)]" "log (load_script u k s) = log s"
  "scripts (load_script u k s) = scripts s @ [\<lparr>s_src = u, s_fired = False, s_cont = k\<rparr>]"
  by (auto simp: emit_def upd_job_def load_script_def)

lemma progressed_complete:
  assumes "between c j [] s"
  shows "progressed c (complete j (upd_job j (\<lambda>b. b\<lparr>j_queue := []\<rparr>) s))"
  using betweenD(1,4) [OF assms]
  by (intro progressedI [OF assms]) (auto simp: same_other_def complete_def job_ok_def split: if_splits)

lemma progressed_locale:
  assumes "between c j [] s"
  shows "progressed c (run_locale u j (upd_job j (\<lambda>b. b\<lparr>j_queue := []\<rparr>) s))"
  using betweenD(1,3,4) [OF assms]
  by (intro progressedI [OF assms])
    (auto simp: same_other_def run_locale_def job_ok_def waits_for_def cont_ok_def)

lemma progressed_finish:
  "between c j [] s \<Longrightarrow> progressed c (finish c j (upd_job j (\<lambda>b. b\<lparr>j_queue := []\<rparr>) s))"
  by (auto simp: finish_def progressed_complete progressed_locale
      simp del: loader_projs split: option.split bool.split)

lemma progressed_single:
  assumes "between c j (m # ms) s" and "status s m = None"
  shows "progressed c (load_single c j m (upd_job j (\<lambda>b. b\<lparr>j_queue := m # ms, j_any := True\<rparr>) s))"
  using betweenD(1,3,4) [OF assms(1)] assms(2)
  by (intro progressedI [OF assms(1)])
    (auto simp: same_other_def load_single_def load_css_def job_ok_def waits_for_def cont_ok_def Let_def
      split: option.splits if_splits)

lemma progressed_wait:
  assumes "between c j (m # ms) s"
  shows "progressed c ((upd_job j (\<lambda>b. b\<lparr>j_queue := m # ms, j_waited := w b\<rparr>) s)\<lparr>timers := ts\<rparr>)"
  using betweenD(1,3,4) [OF assms]
  by (intro progressedI [OF assms]) (auto simp: same_other_def job_ok_def)

lemma progressed_stop:
  assumes "between c j (m # ms) s"
  shows "progressed c (upd_job j (\<lambda>b. b\<lparr>j_queue := m # ms\<rparr>) s)"
  using betweenD(1,3,4) [OF assms]
  by (intro progressedI [OF assms]) (auto simp: same_other_def job_ok_def)

lemma job_ok_skip: "job_ok c s j (m # ms) \<Longrightarrow> status s m = Some Loaded \<Longrightarrow> job_ok c s j ms"
  unfolding job_ok_def
  by (elim conjE exE, rule conjI, assumption, rule_tac x = "pre @ [m]" in exI) auto

lemma between_skip:
  "between c j (m # ms) s \<Longrightarrow> status s m = Some Loaded \<Longrightarrow> between c j ms s"
  by (auto simp: between_def intro: job_ok_skip)

lemma progressed_pump: "between c j q s \<Longrightarrow> progressed c (pump c j q s)"
proof (induction q arbitrary: s)
  case Nil
  then show ?case by (simp add: progressed_finish)
next
  case (Cons m ms)
  then show ?case
    using between_skip [OF Cons.prems]
    by (auto simp: Let_def progressed_single progressed_wait progressed_stop
        simp del: loader_projs split: option.split mstatus.split)
qed

lemma progressed_complete_done:
  assumes "between c j [] s" and "j_queue (jobs s ! j) = []"
  shows "progressed c (complete j s)"
  using betweenD(1,4) [OF assms(1)] assms(2)
  by (intro progressedI [OF assms(1)]) (auto simp: same_other_def complete_def job_ok_def split: if_splits)

lemma owner_ok_cong:
  "jobs t ! i = jobs s ! i \<Longrightarrow> scripts t = scripts s \<Longrightarrow> log t = log s \<Longrightarrow>
   (\<And>m. status s m = Some Loaded \<Longrightarrow> status t m = Some Loaded) \<Longrightarrow> owner_ok c s i \<Longrightarrow> owner_ok c t i"
  unfolding owner_ok_def job_ok_def by metis

lemma owner_ok_emit: "(\<And>j. e \<noteq> OnLoad j) \<Longrightarrow> owner_ok c s i \<Longrightarrow> owner_ok c (emit e s) i"
  by (auto simp: owner_ok_def job_ok_def)

lemma owner_ok_user_script:
  "owner_ok c s i \<Longrightarrow> owner_ok c (load_script u (User cb) s) i"
  by (auto simp: owner_ok_def job_ok_def cont_ok_def)

lemma owner_ok_user_cb: "owner_ok c s i \<Longrightarrow> owner_ok c (user_cb u cb s) i"
  by (simp add: user_cb_def owner_ok_emit)

lemma between_new_job:
  assumes "progressed c s" and "one_place s" and "resolve (c_stack c) (c_modules c) a = Some mm"
    and "j_arg b = a" and "j_mods b = mm"
  shows "between c (length (jobs s)) mm (s\<lparr>jobs := jobs s @ [b]\<rparr>)"
proof -
  have "owner_ok c (s\<lparr>jobs := jobs s @ [b]\<rparr>) i" if "i < length (jobs s)" for i
    using assms(1) that
    by (intro owner_ok_cong [of "s\<lparr>jobs := jobs s @ [b]\<rparr>" i s]) (auto simp: progressed_def nth_append)
  moreover have "tokens (length (jobs s)) s = 0"
    using assms(2) by (auto simp: one_place_def dest!: spec [of _ "length (jobs s)"])
  ultimately show ?thesis
    using assms(3-5) by (auto simp: between_def job_ok_def)
qed

lemma progressed_load:
  assumes "progressed c s" and "one_place s"
  shows "progressed c (load c a cb s)"
proof -
  have "progressed c (user_cb u cb (s\<lparr>head_nodes := h\<rparr>))" for u h
  proof -
    have "owner_ok c (user_cb u cb (s\<lparr>head_nodes := h\<rparr>)) i" if "i < length (jobs s)" for i
      using assms(1) that
      by (intro owner_ok_user_cb owner_ok_cong [of "s\<lparr>head_nodes := h\<rparr>" i s]) (auto simp: progressed_def)
    then show ?thesis by (simp add: progressed_def)
  qed
  moreover have "progressed c (load_script u (User cb) s)" for u
    using assms(1) by (simp add: progressed_def owner_ok_user_script del: loader_projs)
  moreover have "progressed c (emit RangeError s)"
    using assms(1) by (simp add: progressed_def owner_ok_emit del: loader_projs)
  moreover have "progressed c (load_module c a cb s)" if "resolve (c_stack c) (c_modules c) a = Some mm" for mm
    using between_new_job [OF assms that] that
    by (auto simp: load_module_def intro: progressed_pump)
  ultimately show ?thesis
    by (cases "resolve (c_stack c) (c_modules c) a")
      (auto simp: load_def Let_def load_css_def load_module_def)
qed

text \<open>Firing the handler of an unfired script takes the token of its job.\<close>

abbreviation fire :: "nat \<Rightarrow> loader \<Rightarrow> loader" where
  "fire k s \<equiv> s\<lparr>scripts := (scripts s)[k := (scripts s ! k)\<lparr>s_fired := True\<rparr>]\<rparr>"

lemma owner_ok_fire:
  assumes "owner_ok c s i" and "k < length (scripts s)"
  shows "owner_ok c (fire k s) i"
proof -
  have "sc \<in> set (scripts s)" if "sc \<in> set (scripts (fire k s))" "waits_for i sc" for sc
    using that assms(2) by (auto simp: in_set_conv_nth nth_list_update waits_for_def split: if_splits)
  with assms(1) show ?thesis by (auto simp: owner_ok_def job_ok_def)
qed

lemma between_fire:
  assumes "progressed c s" "one_place s" "k < length (scripts s)" "\<not> s_fired (scripts s ! k)"
    and j: "cont_job (s_cont (scripts s ! k)) = Some j"
  shows "between c j (j_queue (jobs s ! j)) (fire k s)"
    and "cont_ok (s_cont (scripts s ! k)) (j_queue (jobs s ! j))"
proof -
  have t: "tokens j s = Suc (tokens j (fire k s))"
    using tokens_fire [OF assms(3,4), of j] j by simp
  with assms(2) have len: "j < length (jobs s)" and "tokens j (fire k s) = 0"
    by (auto simp: one_place_def dest!: spec [of _ j] split: if_splits)
  moreover have "owner_ok c (fire k s) i" if "i < length (jobs s)" for i
    using assms(1,3) that by (intro owner_ok_fire) (auto simp: progressed_def)
  moreover have o: "owner_ok c s j" using assms(1) len by (simp add: progressed_def)
  ultimately show "between c j (j_queue (jobs s ! j)) (fire k s)"
    by (auto simp: between_def owner_ok_def job_ok_def)
  from assms(3,4) j o show "cont_ok (s_cont (scripts s ! k)) (j_queue (jobs s ! j))"
    by (auto simp: owner_ok_def waits_for_def)
qed

lemma between_loaded:
  assumes "between c j (m # ms) s"
  shows "between c j ms (emit (Progress m) (s\<lparr>status := (status s)(m := Some Loaded)\<rparr>))"
proof -
  let ?t = "s\<lparr>status := (status s)(m := Some Loaded)\<rparr>"
  have "between c j (m # ms) ?t"
    using assms by (auto simp: between_def job_ok_def intro: owner_ok_cong [of ?t _ s])
  then have "between c j ms ?t" by (rule between_skip) simp
  then show ?thesis
    by (auto simp: between_def tokens_emit job_ok_def intro: owner_ok_emit)
qed

lemma progressed_script_event:
  assumes "progressed c s" and "one_place s"
  shows "progressed c (script_event c k rs s)"
proof (cases "k < length (scripts s) \<and> \<not> s_fired (scripts s ! k) \<and> ready rs")
  case True
  then have k: "k < length (scripts s)" "\<not> s_fired (scripts s ! k)" by auto
  have fired: "progressed c (fire k s)"
    using assms(1) k(1) by (simp add: progressed_def owner_ok_fire)
  show ?thesis
  proof (cases "s_cont (scripts s ! k)")
    case (Single j m b)
    then have j: "cont_job (s_cont (scripts s ! k)) = Some j" by simp
    note bf = between_fire [OF assms k j]
    from bf(2) Single obtain ms where q: "j_queue (jobs s ! j) = m # ms"
      by (cases "j_queue (jobs s ! j)") (auto simp: cont_ok_def)
    from bf(1) have "between c j (m # ms) (fire k s)" unfolding q .
    from progressed_pump [OF between_loaded [OF this]] q
    have "progressed c (module_done c j m (fire k s))" by (simp add: module_done_def Let_def)
    with True Single fired show ?thesis by (simp add: script_event_def Let_def)
  next
    case (Locale j)
    then have j: "cont_job (s_cont (scripts s ! k)) = Some j" by simp
    note bf = between_fire [OF assms k j]
    from bf(2) Locale have q: "j_queue (jobs s ! j) = []" by (simp add: cont_ok_def)
    let ?h = "filter (\<lambda>n. n \<noteq> ScriptNode k) (head_nodes s)"
    have "between c j [] ((fire k s)\<lparr>head_nodes := ?h\<rparr>)"
      using bf(1) q unfolding between_def
      by (auto simp: job_ok_def intro: owner_ok_cong [of "(fire k s)\<lparr>head_nodes := ?h\<rparr>" _ "fire k s"])
    with True Locale q show ?thesis
      by (simp add: script_event_def Let_def progressed_complete_done)
  next
    case (User cb)
    have "progressed c (user_cb u cb (fire k s))" for u
      using fired by (simp add: progressed_def owner_ok_user_cb)
    with True User show ?thesis by (simp add: script_event_def Let_def)
  qed
next
  case False
  with assms show ?thesis by (auto simp: script_event_def)
qed

lemma progressed_timer_event:
  assumes "progressed c s" and "one_place s"
  shows "progressed c (timer_event c i s)"
proof (cases "i < length (timers s)")
  case True
  let ?j = "timers s ! i" and ?t = "s\<lparr>timers := splice_del i (timers s)\<rparr>"
  have "tokens ?j s = Suc (tokens ?j ?t)" using tokens_take_timer [OF True, of ?j] by simp
  with assms(2) have "?j < length (jobs s)" and "tokens ?j ?t = 0"
    by (auto simp: one_place_def dest!: spec [of _ ?j] split: if_splits)
  moreover have "owner_ok c ?t i" if "i < length (jobs s)" for i
    using assms(1) that by (intro owner_ok_cong [of ?t i s]) (auto simp: progressed_def)
  moreover have "job_ok c ?t ?j (j_queue (jobs s ! ?j))"
    using assms(1) \<open>?j < length (jobs s)\<close> by (auto simp: progressed_def owner_ok_def job_ok_def)
  ultimately have "between c ?j (j_queue (jobs s ! ?j)) ?t" by (simp add: between_def)
  with True show ?thesis by (simp add: timer_event_def Let_def progressed_pump)
next
  case False
  with assms show ?thesis by (simp add: timer_event_def)
qed

lemma progressed_reach: "loader_reach c s \<Longrightarrow> progressed c s"
proof (induction rule: loader_reach.induct)
  case start
  show ?case by (simp add: progressed_def init_loader_def)
next
  case (act s a)
  then have "one_place s" by (simp add: one_place_reach)
  with act show ?case
    by (cases a) (auto intro: progressed_load progressed_script_event progressed_timer_event)
qed

section \<open>A request alone on the page finishes\<close>

text \<open>
  The browser delivers the load event of the newest script, again and again: with no other
  request in the way, a request for \<open>n\<close> modules reports after at most \<open>n + 1\<close> events
  (the locale script is the extra one).
\<close>

definition deliver :: "config \<Rightarrow> loader \<Rightarrow> loader" where
  "deliver c s = script_event c (length (scripts s) - 1) None s"

definition no_loading :: "loader \<Rightarrow> bool" where
  "no_loading s \<longleftrightarrow> (\<forall>m. status s m \<noteq> Some Loading)"

lemma deliver_load_script:
  assumes "k = Single j m True"
  shows "deliver c (load_script u k s) = module_done c j m (fire (length (scripts s)) (load_script u k s))"
  using assms by (simp add: deliver_def script_event_def ready_def Let_def)

lemma finish_reports: "\<exists>n\<le>1. OnLoad j \<in> set (log ((deliver c ^^ n) (finish c j s)))"
proof (cases "\<exists>f. finish c j s = run_locale f j s")
  case True
  then obtain f where f: "finish c j s = run_locale f j s" by blast
  have "OnLoad j \<in> set (log (deliver c (run_locale f j s)))"
    by (simp add: run_locale_def deliver_def script_event_def ready_def Let_def complete_def)
  then have "OnLoad j \<in> set (log ((deliver c ^^ 1) (finish c j s)))" by (simp add: f)
  then show ?thesis by blast
next
  case False
  then have "finish c j s = complete j s"
    by (auto simp: finish_def split: option.splits bool.splits)
  then have "OnLoad j \<in> set (log ((deliver c ^^ 0) (finish c j s)))" by (simp add: complete_def)
  then show ?thesis by blast
qed

lemma deliver_single:
  assumes "mod_lookup (c_modules c) m = Some i" and "j < length (jobs s)" and "no_loading s"
  shows "\<exists>t. deliver c (load_single c j m (upd_job j (\<lambda>b. b\<lparr>j_queue := m # ms, j_any := True\<rparr>) s)) = pump c j ms t
    \<and> length (jobs t) = length (jobs s) \<and> no_loading t"
  using assms
  by (cases "mi_css i"; cases "c_css c")
    (auto simp: load_single_def load_css_def Let_def deliver_load_script module_done_def no_loading_def
      intro!: exI conjI split: if_splits)

lemma pump_reports:
  assumes "j < length (jobs s)" and "no_loading s" and "known (c_modules c) q"
  shows "\<exists>n\<le>Suc (length q). OnLoad j \<in> set (log ((deliver c ^^ n) (pump c j q s)))"
  using assms
proof (induction q arbitrary: s)
  case Nil
  from finish_reports [of j c] show ?case by simp
next
  case (Cons m ms)
  from Cons.prems(3) obtain i where i: "mod_lookup (c_modules c) m = Some i" and k: "known (c_modules c) ms"
    by (auto simp: known_def)
  show ?case
  proof (cases "status s m")
    case None
    from deliver_single [OF i Cons.prems(1,2)] obtain t where
      t: "deliver c (pump c j (m # ms) s) = pump c j ms t" "length (jobs t) = length (jobs s)" "no_loading t"
      using None by auto
    from Cons.IH [of t] Cons.prems(1) t(2,3) k obtain n where
      n: "n \<le> Suc (length ms)" "OnLoad j \<in> set (log ((deliver c ^^ n) (pump c j ms t)))" by auto
    from n(2) have "OnLoad j \<in> set (log ((deliver c ^^ Suc n) (pump c j (m # ms) s)))"
      unfolding t(1) [symmetric] by (simp add: funpow_swap1)
    with n(1) show ?thesis by (intro exI [of _ "Suc n"]) simp
  next
    case (Some st)
    with Cons.prems(2) have "st = Loaded" by (cases st) (auto simp: no_loading_def)
    with Some Cons.IH [of s] Cons.prems(1,2) k obtain n where
      "n \<le> Suc (length ms)" "OnLoad j \<in> set (log ((deliver c ^^ n) (pump c j (m # ms) s)))" by auto
    then show ?thesis by (intro exI [of _ n]) simp
  qed
qed

section \<open>Properties of the loader\<close>

text \<open>
  C14: resolution (\<open>add\<close>) orders modules by dependency.  Whatever the table, the list it
  returns names only modules of the table, and each stands after all of its dependencies
  that the table knows, so loading the list from the front never loads a module early.
\<close>

theorem el_dependency_order:
  assumes "resolve n t a = Some mm"
  shows "(\<forall>m\<in>set mm. mod_lookup t m \<noteq> None) \<and>
    (\<forall>i<length mm. \<forall>d\<in>set (mod_deps t (mm ! i)). mod_lookup t d \<noteq> None \<longrightarrow> (\<exists>k<i. mm ! k = d))"
proof -
  have "known t mm" and "dep_closed t mm" using resolve_ok [OF assms] by auto
  then show ?thesis by (force simp: known_def dep_closed_def in_set_conv_nth)
qed

definition small_table :: modtable where
  "small_table =
     [(''panel'', mk_module ''p.js'' None None), (''window'', mk_module ''w.js'' None (Some [''panel''])),
      (''dialog'', mk_module ''d.js'' None (Some [''window'', ''panel'']))]"

lemma el_dependency_order_witness:
  "resolve 9 small_table (Name ''dialog'') = Some [''panel'', ''window'', ''panel'', ''dialog'']
   \<and> (\<exists>k<1. [''panel'', ''window'', ''panel'', ''dialog''] ! k = ''panel'')"
proof -
  have r: "resolve 9 small_table (Name ''dialog'') = Some [''panel'', ''window'', ''panel'', ''dialog'']"
    by code_simp
  have d: "''panel'' \<in> set (mod_deps small_table ''window'') \<and> mod_lookup small_table ''panel'' \<noteq> None"
    by code_simp
  from el_dependency_order [OF r, THEN conjunct2, rule_format, of 1 "''panel''"] d r
  show ?thesis by simp
qed

text \<open>
  C40: resolution always returns on the shipped table, whatever is asked for: the table is
  acyclic and no chain of dependencies is deeper than six calls of \<open>add\<close>.
\<close>

theorem el_resolve_returns: "\<exists>mm. resolve 6 el_modules a = Some mm"
  using el.resolve_total [of 6 a] el_rank_bound by auto

text \<open>
  C10: in every state the page can reach, whatever requests it makes and in whatever order
  scripts and timers fire, no module has two script elements: a module is loaded at most once.
\<close>

theorem el_module_loaded_once:
  assumes "loader_reach c s"
  shows "distinct (script_mods s)"
  using once_reach [OF assms] by (simp add: once_def)

definition small_config :: config where
  "small_config = el_config\<lparr>c_modules := small_table\<rparr>"

definition two_requests :: loader where
  "two_requests = loader_act small_config (Load (Name ''window'') True)
     (loader_act small_config (Load (Name ''dialog'') False) init_loader)"

lemma two_requests_reach: "loader_reach small_config two_requests"
  unfolding two_requests_def by (intro loader_reach.intros)

lemma el_module_loaded_once_witness:
  "script_mods two_requests = [''panel''] \<and> distinct (script_mods two_requests)"
  using el_module_loaded_once [OF two_requests_reach] by code_simp

text \<open>
  A request reports (\<open>easyloader.onLoad\<close>) at most once, in every reachable state.
\<close>

theorem el_reports_once:
  assumes "loader_reach c s"
  shows "count_list (log s) (OnLoad j) \<le> 1"
proof -
  from one_place_reach [OF assms] have "tokens j s \<le> (if j < length (jobs s) then 1 else 0)"
    unfolding one_place_def by blast
  then show ?thesis by (simp add: tokens_def split: if_splits)
qed

definition one_done :: loader where
  "one_done = loader_act small_config (ScriptEvent 0 None)
     (loader_act small_config (Load (Name ''panel'') True) init_loader)"

lemma one_done_reach: "loader_reach small_config one_done"
  unfolding one_done_def by (intro loader_reach.intros)

lemma one_done_log: "log one_done = [Progress ''panel'', Callback 0, OnLoad 0]"
  by code_simp

lemma el_reports_once_witness: "OnLoad 0 \<in> set (log one_done) \<and> count_list (log one_done) (OnLoad 0) \<le> 1"
  using el_reports_once [OF one_done_reach, of 0] by (simp add: one_done_log)

text \<open>
  C31: when a request reports, it has what it asked for: its list of modules is the resolution
  of its argument and every module of it has finished loading, dependencies included.
\<close>

theorem el_report_complete:
  assumes "loader_reach c s" and "OnLoad j \<in> set (log s)"
  shows "\<exists>mm. resolve (c_stack c) (c_modules c) (j_arg (jobs s ! j)) = Some mm
    \<and> (\<forall>m\<in>set mm. status s m = Some Loaded)"
proof -
  have "0 < tokens j s" using assms(2) by (auto simp: tokens_def count_list_0_iff)
  with one_place_reach [OF assms(1)] have "j < length (jobs s)"
    by (auto simp: one_place_def dest!: spec [of _ j] split: if_splits)
  with progressed_reach [OF assms(1)] have "owner_ok c s j" by (simp add: progressed_def)
  with assms(2) show ?thesis by (auto simp: owner_ok_def job_ok_def)
qed

lemma el_report_complete_witness:
  "\<exists>mm. resolve 1000 small_table (Name ''panel'') = Some mm
    \<and> (\<forall>m\<in>set mm. status one_done m = Some Loaded)"
proof -
  have "j_arg (jobs one_done ! 0) = Name ''panel''" by code_simp
  with el_report_complete [OF one_done_reach, of 0] one_done_log show ?thesis
    by (simp add: small_config_def el_config_def)
qed

text \<open>
  C37: progress.  A request made when nothing else is loading reports after at most one
  load event for each module of its list and one for the locale script.
\<close>

theorem el_request_finishes:
  assumes "no_loading s" and "resolve (c_stack c) (c_modules c) a = Some mm"
  shows "\<exists>n\<le>Suc (length mm). OnLoad (length (jobs s)) \<in> set (log ((deliver c ^^ n) (load_module c a cb s)))"
proof -
  have "known (c_modules c) mm" using resolve_ok [OF assms(2)] by simp
  with assms show ?thesis
    unfolding load_module_def by (simp, intro pump_reports) (auto simp: no_loading_def)
qed

lemma el_request_finishes_witness:
  "\<exists>n\<le>5. OnLoad 0 \<in> set (log ((deliver small_config ^^ n) (load_module small_config (Name ''dialog'') True init_loader)))"
proof -
  have n: "no_loading init_loader" by (simp add: no_loading_def init_loader_def)
  have r: "resolve (c_stack small_config) (c_modules small_config) (Name ''dialog'') =
      Some [''panel'', ''window'', ''panel'', ''dialog'']"
    by code_simp
  from el_request_finishes [OF n r, of True] show ?thesis
    by (simp add: init_loader_def numeral_eq_Suc)
qed

text \<open>
  The time-out is silent.  A request that has waited for its whole time-out on a module
  another request is loading is dropped: whatever happens afterwards, even if that module
  then finishes loading, neither its callback nor \<open>onLoad\<close> is ever called.
\<close>

lemma tokens_0_stays:
  assumes "tokens j s = 0" and "j < length (jobs s)"
  shows "tokens j (fold (loader_act c) acts s) = 0"
  using assms
proof (induction acts arbitrary: s)
  case Nil
  then show ?case by simp
next
  case (Cons a acts)
  have "tokens j (loader_act c a s) = 0"
    using tokens_act [of j s c a] Cons.prems by simp
  moreover have "j < length (jobs (loader_act c a s))"
    using length_jobs_act [of s c a] Cons.prems(2) by simp
  ultimately show ?case by (simp add: Cons.IH)
qed

theorem el_timeout_is_silent:
  assumes "loader_reach c s" and "i < length (timers s)" and "timers s ! i = j"
    and "j_queue (jobs s ! j) = m # ms" and "status s m = Some Loading"
    and "c_timeout c \<le> j_waited (jobs s ! j)"
  shows "OnLoad j \<notin> set (log (fold (loader_act c) acts (timer_event c i s)))"
proof -
  let ?s = "s\<lparr>timers := splice_del i (timers s)\<rparr>"
  have t: "tokens j s = Suc (tokens j ?s)" using tokens_take_timer [OF assms(2), of j] assms(3) by simp
  with one_place_reach [OF assms(1)] have "j < length (jobs s)" and 0: "tokens j ?s = 0"
    by (auto simp: one_place_def dest!: spec [of _ j] split: if_splits)
  moreover have "timer_event c i s = upd_job j (\<lambda>b. b\<lparr>j_queue := m # ms\<rparr>) ?s"
    using assms(2-6) by (simp add: timer_event_def Let_def)
  ultimately have "tokens j (timer_event c i s) = 0" and "j < length (jobs (timer_event c i s))"
    by (simp_all add: tokens_upd_job del: loader_projs)
  then have "tokens j (fold (loader_act c) acts (timer_event c i s)) = 0" by (rule tokens_0_stays)
  then show ?thesis by (simp add: tokens_def count_list_0_iff)
qed

definition hasty_config :: config where
  "hasty_config = small_config\<lparr>c_timeout := 10\<rparr>"

definition waiting :: loader where
  "waiting = loader_act hasty_config (Load (Name ''panel'') True)
     (loader_act hasty_config (Load (Name ''panel'') True) init_loader)"

lemma el_timeout_is_silent_witness:
  "OnLoad 1 \<notin> set (log (fold (loader_act hasty_config) [ScriptEvent 0 None, Load (Name ''window'') True]
     (timer_event hasty_config 0 waiting)))"
proof -
  have r: "loader_reach hasty_config waiting"
    unfolding waiting_def by (intro loader_reach.intros)
  have "timers waiting = [1] \<and> j_queue (jobs waiting ! 1) = [''panel''] \<and> status waiting ''panel'' = Some Loading
      \<and> j_waited (jobs waiting ! 1) = 10 \<and> c_timeout hasty_config = 10"
    by code_simp
  then show ?thesis by (intro el_timeout_is_silent [OF r, where m = "''panel''" and ms = "[]"]) simp_all
qed

text \<open>
  The scan of the page's script elements.  The base path it leaves is the default, or the
  part before \<open>easyloader.js\<close> of some script's source; and with such a script last, it is
  that script's.
\<close>

lemma match_index_take: "match_index u = Some i \<Longrightarrow> match_here (drop i u) \<and> i < length u"
proof (induction u arbitrary: i)
  case Nil
  then show ?case by simp
next
  case (Cons x u)
  then show ?case by (auto split: if_splits)
qed

lemma scan_base_append: "scan_base b (xs @ ys) = scan_base (scan_base b xs) ys"
  by (induction xs arbitrary: b) (auto split: option.split)

theorem el_base_path:
  "(scan_base b srcs = b \<or> (\<exists>src\<in>set srcs. \<exists>rest. src = scan_base b srcs @ rest \<and> match_here rest))
   \<and> (match_index src = Some i \<longrightarrow> scan_base b (srcs @ [src]) = take i src)"
proof
  show "scan_base b srcs = b \<or> (\<exists>src\<in>set srcs. \<exists>rest. src = scan_base b srcs @ rest \<and> match_here rest)"
  proof (induction srcs arbitrary: b)
    case Nil
    show ?case by simp
  next
    case (Cons u srcs)
    show ?case
    proof (cases "u = [] \<or> match_index u = None")
      case True
      with Cons.IH [of b] show ?thesis by auto
    next
      case False
      then obtain i where i: "match_index u = Some i" "u \<noteq> []" by auto
      have "u = take i u @ drop i u \<and> match_here (drop i u)" using match_index_take [OF i(1)] by simp
      with Cons.IH [of "take i u"] i show ?thesis by auto
    qed
  qed
  show "match_index src = Some i \<longrightarrow> scan_base b (srcs @ [src]) = take i src"
    by (auto simp: scan_base_append)
qed

lemma el_base_path_witness: "scan_base ''.'' ([] @ [''/js/easyloader.js'']) = ''/js/''"
proof -
  have "match_index ''/js/easyloader.js'' = Some 4" by code_simp
  with el_base_path [of "''.''" "[]" "''/js/easyloader.js''" 4] show ?thesis by simp
qed

text \<open>
  What the shipped table leaves out.  Its second entry for \<open>tooltip\<close> replaces the first,
  so a request for \<open>tooltip\<close> (or for anything that depends on it) adds its script without the
  style sheet the first entry names; and it has no entry for \<open>datetimespinner\<close>, so a request
  for that plugin loads nothing and still reports success at once.
\<close>

theorem el_table_gaps:
  "map_of el_modules ''tooltip'' = Some (mk_module ''jquery.tooltip.js'' (Some ''tooltip.css'') None)
   \<and> mod_lookup el_modules ''tooltip'' = Some (mk_module ''jquery.tooltip.js'' None None)
   \<and> head_nodes (load el_config (Name ''tooltip'') True init_loader) = [ScriptNode 0]
   \<and> head_nodes (load el_config (Name ''datetimespinner'') True init_loader) = []
   \<and> log (load el_config (Name ''datetimespinner'') True init_loader) = [Callback 0, OnLoad 0]"
  by code_simp

end
