(* ===== verification/Js_Num.thy ===== *)
theory Js_Num
  imports Js_Prelude
begin

text \<open>
  JavaScript numbers where a quotient or a failed conversion can leave the integers: a finite
  integer, the two infinities and \<open>NaN\<close>, with the comparisons (false on \<open>NaN\<close>), the sums and
  products, \<open>Math.min\<close>, truthiness and \<open>Math.ceil(a/b)\<close>.  All quotients of the modelled code
  go through \<open>Math.ceil\<close>, \<open>Math.floor\<close> or \<open>parseInt\<close>, so no fraction is ever stored.
\<close>

datatype jnum = Fin int | Inf | NegInf | NaN

definition jtruthy :: "jnum \<Rightarrow> bool" where
  "jtruthy x \<longleftrightarrow> x \<noteq> NaN \<and> x \<noteq> Fin 0"

fun jless :: "jnum \<Rightarrow> jnum \<Rightarrow> bool" where
  "jless NaN y = False"
| "jless x NaN = False"
| "jless (Fin a) (Fin b) = (a < b)"
| "jless (Fin a) Inf = True"
| "jless (Fin a) NegInf = False"
| "jless Inf y = False"
| "jless NegInf NegInf = False"
| "jless NegInf y = True"

text \<open>\<open>==\<close> on numbers: \<open>NaN\<close> equals nothing.\<close>

definition jeq :: "jnum \<Rightarrow> jnum \<Rightarrow> bool" where
  "jeq x y \<longleftrightarrow> x = y \<and> x \<noteq> NaN"

definition jneg :: "jnum \<Rightarrow> jnum" where
  "jneg x = (case x of Fin a \<Rightarrow> Fin (- a) | Inf \<Rightarrow> NegInf | NegInf \<Rightarrow> Inf | NaN \<Rightarrow> NaN)"

fun jplus :: "jnum \<Rightarrow> jnum \<Rightarrow> jnum" where
  "jplus NaN y = NaN"
| "jplus x NaN = NaN"
| "jplus (Fin a) (Fin b) = Fin (a + b)"
| "jplus Inf NegInf = NaN"
| "jplus NegInf Inf = NaN"
| "jplus Inf y = Inf"
| "jplus x Inf = Inf"
| "jplus NegInf y = NegInf"
| "jplus x NegInf = NegInf"

definition jminus :: "jnum \<Rightarrow> jnum \<Rightarrow> jnum" where
  "jminus x y = jplus x (jneg y)"

definition jsgn :: "jnum \<Rightarrow> int" where
  "jsgn x = (case x of Fin a \<Rightarrow> sgn a | Inf \<Rightarrow> 1 | NegInf \<Rightarrow> -1 | NaN \<Rightarrow> 0)"

fun jtimes :: "jnum \<Rightarrow> jnum \<Rightarrow> jnum" where
  "jtimes NaN y = NaN"
| "jtimes x NaN = NaN"
| "jtimes (Fin a) (Fin b) = Fin (a * b)"
| "jtimes x y = (let s = jsgn x * jsgn y in if s = 0 then NaN else if 0 < s then Inf else NegInf)"

definition jmin :: "jnum \<Rightarrow> jnum \<Rightarrow> jnum" where
  "jmin x y = (if x = NaN \<or> y = NaN then NaN else if jless y x then y else x)"

text \<open>
  \<open>Math.ceil(a/b)\<close>: a zero divisor gives an infinity by the sign of \<open>a\<close> (the divisors here are
  never \<open>-0\<close>), an infinite divisor gives 0.
\<close>

fun jceil_div :: "jnum \<Rightarrow> jnum \<Rightarrow> jnum" where
  "jceil_div NaN y = NaN"
| "jceil_div x NaN = NaN"
| "jceil_div (Fin a) (Fin b) =
     (if b = 0 then (if a = 0 then NaN else if 0 < a then Inf else NegInf) else Fin (ceil_div a b))"
| "jceil_div (Fin a) y = Fin 0"
| "jceil_div x (Fin b) = (if (0 \<le> b) = (0 < jsgn x) then Inf else NegInf)"
| "jceil_div x y = NaN"

definition jnum_of :: "int option \<Rightarrow> jnum" where
  "jnum_of x = (case x of None \<Rightarrow> NaN | Some i \<Rightarrow> Fin i)"

definition show_jnum :: "jnum \<Rightarrow> string" where
  "show_jnum x =
     (case x of Fin i \<Rightarrow> show_int i | Inf \<Rightarrow> ''Infinity'' | NegInf \<Rightarrow> ''-Infinity'' | NaN \<Rightarrow> ''NaN'')"

text \<open>\<open>x||y\<close> on numbers.\<close>

definition jor :: "jnum \<Rightarrow> jnum \<Rightarrow> jnum" where
  "jor x y = (if jtruthy x then x else y)"

lemma jless_Fin [simp]: "jless (Fin a) (Fin b) = (a < b)"
  by simp

lemma jeq_Fin [simp]: "jeq (Fin a) (Fin b) = (a = b)"
  by (simp add: jeq_def)

lemma jminus_Fin [simp]: "jminus (Fin a) (Fin b) = Fin (a - b)"
  by (simp add: jminus_def jneg_def)

lemma jmin_Fin [simp]: "jmin (Fin a) (Fin b) = Fin (min a b)"
  by (simp add: jmin_def min_def)

lemma jtruthy_Fin [simp]: "jtruthy (Fin a) = (a \<noteq> 0)"
  by (simp add: jtruthy_def)

lemma jtruthy_NaN [simp]: "\<not> jtruthy NaN"
  by (simp add: jtruthy_def)

lemma jor_simps [simp]: "a \<noteq> 0 \<Longrightarrow> jor (Fin a) y = Fin a" "jor (Fin 0) y = y" "jor NaN y = y"
  by (simp_all add: jor_def)

lemma jnum_of_simps [simp]: "jnum_of None = NaN" "jnum_of (Some i) = Fin i"
  by (simp_all add: jnum_of_def)

lemma show_jnum_Fin [simp]: "show_jnum (Fin i) = show_int i"
  by (simp add: show_jnum_def)

text \<open>
  \<open>s.replace(/pat/, rep)\<close> for a pattern without special characters: the first occurrence.
\<close>

fun js_replace :: "string \<Rightarrow> string \<Rightarrow> string \<Rightarrow> string" where
  "js_replace pat rep [] = (if pat = [] then rep else [])"
| "js_replace pat rep (c # s) =
     (if starts_with pat (c # s) then rep @ drop (length pat) (c # s) else c # js_replace pat rep s)"

lemma starts_with_Cons: "starts_with (p # ps) (c # s) = (c = p \<and> starts_with ps s)"
  by (auto simp: starts_with_def)

lemma starts_with_Nil [simp]: "starts_with [] s"
  by (simp add: starts_with_def)

lemma starts_with_Cons_Nil [simp]: "\<not> starts_with (p # ps) []"
  by (simp add: starts_with_def)

text \<open>A replacement passes over a prefix that does not hold the first character of its pattern.\<close>

lemma js_replace_skip: "p \<notin> set u \<Longrightarrow> js_replace (p # ps) rep (u @ v) = u @ js_replace (p # ps) rep v"
  by (induction u) (auto simp: starts_with_Cons)

lemma js_replace_here: "pat \<noteq> [] \<Longrightarrow> js_replace pat rep (pat @ v) = rep @ v"
  by (cases pat) (simp_all add: starts_with_def)

lemma js_fill: "p \<notin> set u \<Longrightarrow> js_replace (p # ps) rep (u @ (p # ps) @ v) = u @ rep @ v"
  using js_replace_skip [of p u ps rep "(p # ps) @ v"] js_replace_here [of "p # ps" rep v] by simp

declare js_replace.simps [simp del]

lemma show_int_chars: "c \<in> set (show_int i) \<Longrightarrow> is_digit c \<or> c = CHR ''-''"
  using show_nat_digits [of "nat i"] show_nat_digits [of "nat (- i)"]
  by (auto simp: show_int_def split: if_splits)

lemma brace_not_in_show_int [simp]: "CHR 0x7B \<notin> set (show_int i)"
  using show_int_chars [of "CHR 0x7B" i] by (auto simp: is_digit_def digit_chars_def)

end
