(* ===== verification/Js_Date.thy ===== *)
theory Js_Date
  imports Js_Num
begin

text \<open>
  The calendar of JavaScript's \<open>Date\<close>, as far as the widgets use it: a local day is a number
  (day 1 is 1 January of year 1, a Monday), \<open>js_day y m d\<close> is the day of \<open>new Date(y, m, d)\<close> with
  its zero-based month, the overflow of months and days and the reading of the years 0 to 99
  as 1900 to 1999; \<open>civil\<close> gives \<open>getFullYear\<close>, \<open>getMonth() + 1\<close> and \<open>getDate\<close> back, \<open>week_day\<close> is
  \<open>getDay\<close>.  Days are whole: a zone in which a day has no midnight is not modelled.
\<close>

section \<open>Years and months\<close>

definition leap :: "int \<Rightarrow> bool" where
  "leap y \<longleftrightarrow> 4 dvd y \<and> (\<not> 100 dvd y \<or> 400 dvd y)"

definition month_lens :: "int \<Rightarrow> int list" where
  "month_lens y = [31, if leap y then 29 else 28, 31, 30, 31, 30, 31, 31, 30, 31, 30, 31]"

text \<open>Days before year \<open>y\<close> and before month \<open>m\<close> (1 to 12) of year \<open>y\<close>.\<close>

definition year_days :: "int \<Rightarrow> int" where
  "year_days y = 365 * (y - 1) + (y - 1) div 4 - (y - 1) div 100 + (y - 1) div 400"

definition month_len :: "int \<Rightarrow> int \<Rightarrow> int" where
  "month_len y m = month_lens y ! nat (m - 1)"

definition month_days :: "int \<Rightarrow> int \<Rightarrow> int" where
  "month_days y m = sum_list (take (nat (m - 1)) (month_lens y))"

definition day_no :: "int \<Rightarrow> int \<Rightarrow> int \<Rightarrow> int" where
  "day_no y m d = year_days y + month_days y m + d"

text \<open>\<open>new Date(y, m, d)\<close>, month 0 to 11, out-of-range months and days carried over.\<close>

definition js_day :: "int \<Rightarrow> int \<Rightarrow> int \<Rightarrow> int" where
  "js_day y m d =
     (let y = (if 0 \<le> y \<and> y \<le> 99 then 1900 + y else y)
      in day_no (y + m div 12) (m mod 12 + 1) d)"

definition week_day :: "int \<Rightarrow> int" where
  "week_day n = n mod 7"

text \<open>The year of a day: 400, 100, 4 and 1 year cycles.\<close>

definition year_of :: "int \<Rightarrow> int" where
  "year_of n =
     (let d0 = n - 1; a = d0 div 146097; d1 = d0 mod 146097;
          b = d1 div 36524; d2 = d1 mod 36524;
          c = d2 div 1461; d3 = d2 mod 1461; e = d3 div 365;
          y = 400 * a + 100 * b + 4 * c + e
      in if b = 4 \<or> e = 4 then y else y + 1)"

fun find_month :: "int list \<Rightarrow> int \<Rightarrow> int \<Rightarrow> int \<times> int" where
  "find_month [] m r = (m, r)"
| "find_month (l # ls) m r = (if r \<le> l then (m, r) else find_month ls (m + 1) (r - l))"

type_synonym ymd = "int \<times> int \<times> int"

definition civil :: "int \<Rightarrow> ymd" where
  "civil n = (let y = year_of n in (y, find_month (month_lens y) 1 (n - year_days y)))"

section \<open>The year of a day\<close>

lemma div_step:
  fixes k y :: int
  assumes "0 < k"
  shows "y div k = (y - 1) div k + (if k dvd y then 1 else 0)"
proof -
  define q r where "q = y div k" and "r = y mod k"
  have y: "y = k * q + r" and r: "0 \<le> r" "r < k" using assms by (auto simp: q_def r_def)
  have dvd: "k dvd y \<longleftrightarrow> r = 0" by (simp add: r_def dvd_eq_mod_eq_0)
  show ?thesis
  proof (cases "r = 0")
    case True
    with y have "y - 1 = k * (q - 1) + (k - 1)" by (simp add: algebra_simps)
    then have "(y - 1) div k = q - 1" using assms by (intro int_div_pos_eq [where r = "k - 1"]) auto
    with True dvd show ?thesis by (simp add: q_def)
  next
    case False
    with y r have "(y - 1) div k = q" by (intro int_div_pos_eq [where r = "r - 1"]) auto
    with False dvd show ?thesis by (simp add: q_def)
  qed
qed

lemma leap_count:
  "(c \<longrightarrow> b) \<Longrightarrow> (b \<longrightarrow> a) \<Longrightarrow>
   (if a then 1 else 0) - (if b then 1 else 0) + (if c then 1 else 0) = (if a \<and> (\<not> b \<or> c) then 1 else (0::int))"
  by (cases a; cases b; cases c) simp_all

lemma year_days_step: "year_days (y + 1) = year_days y + (if leap y then 366 else 365)"
proof -
  define i4 i100 i400 :: int where "i4 = (if 4 dvd y then 1 else 0)" and
    "i100 = (if 100 dvd y then 1 else 0)" and "i400 = (if 400 dvd y then 1 else 0)"
  have c: "400 dvd y \<longrightarrow> 100 dvd y" by (rule impI, rule dvd_trans [of 100 400 y]) simp_all
  have b: "100 dvd y \<longrightarrow> 4 dvd y" by (rule impI, rule dvd_trans [of 4 100 y]) simp_all
  have leap: "i4 - i100 + i400 = (if leap y then 1 else 0)"
    unfolding leap_def i4_def i100_def i400_def by (rule leap_count [OF c b])
  have next_year: "year_days (y + 1) = 365 * y + y div 4 - y div 100 + y div 400"
    by (simp add: year_days_def)
  have 4: "y div 4 = (y - 1) div 4 + i4" unfolding i4_def by (rule div_step) simp
  have 100: "y div 100 = (y - 1) div 100 + i100" unfolding i100_def by (rule div_step) simp
  have 400: "y div 400 = (y - 1) div 400 + i400" unfolding i400_def by (rule div_step) simp
  have "year_days (y + 1) = year_days y + 365 + (i4 - i100 + i400)"
    unfolding next_year 4 100 400 unfolding year_days_def by (simp only: algebra_simps)
  then show ?thesis unfolding leap by simp
qed

lemma year_days_mono: "x \<le> y \<Longrightarrow> year_days x \<le> year_days y"
proof (induction y rule: int_ge_induct)
  case base
  show ?case by simp
next
  case (step y)
  then show ?case by (simp add: year_days_step)
qed

lemma year_unique:
  assumes "year_days x < n" "n \<le> year_days (x + 1)" "year_days y < n" "n \<le> year_days (y + 1)"
  shows "x = y"
proof (rule ccontr)
  assume "x \<noteq> y"
  then have "x + 1 \<le> y \<or> y + 1 \<le> x" by arith
  with assms show False using year_days_mono [of "x + 1" y] year_days_mono [of "y + 1" x] by auto
qed

lemma cycle_days:
  assumes "0 \<le> b" "b < 4" "0 \<le> c" "c < 25" "0 \<le> e" "e < 4"
  shows "year_days (400 * a + 100 * b + 4 * c + e + 1) = 146097 * a + 36524 * b + 1461 * c + 365 * e"
proof -
  let ?y = "400 * a + 100 * b + 4 * c + e"
  have "?y div 4 = 100 * a + 25 * b + c" using assms by (intro int_div_pos_eq [where r = e]) auto
  moreover have "?y div 100 = 4 * a + b" using assms by (intro int_div_pos_eq [where r = "4 * c + e"]) auto
  moreover have "?y div 400 = a" using assms by (intro int_div_pos_eq [where r = "100 * b + 4 * c + e"]) auto
  ultimately show ?thesis by (simp add: year_days_def algebra_simps)
qed

lemma year_of_correct: "year_days (year_of n) < n \<and> n \<le> year_days (year_of n + 1)"
proof -
  define a d1 where "a = (n - 1) div 146097" and "d1 = (n - 1) mod 146097"
  define b d2 where "b = d1 div 36524" and "d2 = d1 mod 36524"
  define c d3 where "c = d2 div 1461" and "d3 = d2 mod 1461"
  define e f where "e = d3 div 365" and "f = d3 mod 365"
  have n: "n = 146097 * a + d1 + 1" and d1: "0 \<le> d1" "d1 < 146097" by (auto simp: a_def d1_def)
  have d1e: "d1 = 36524 * b + d2" and d2: "0 \<le> d2" "d2 < 36524" by (auto simp: b_def d2_def)
  have d2e: "d2 = 1461 * c + d3" and d3: "0 \<le> d3" "d3 < 1461" by (auto simp: c_def d3_def)
  have d3e: "d3 = 365 * e + f" and f: "0 \<le> f" "f < 365" by (auto simp: e_def f_def)
  have bb: "0 \<le> b" "b \<le> 4" using d1 d1e d2 by arith+
  have cc: "0 \<le> c" "c < 25" using d2 d2e d3 by arith+
  have ee: "0 \<le> e" "e \<le> 4" using d3 d3e f by arith+
  have y: "year_of n = (let y = 400 * a + 100 * b + 4 * c + e in if b = 4 \<or> e = 4 then y else y + 1)"
    by (simp add: year_of_def a_def d1_def b_def d2_def c_def d3_def e_def Let_def)
  show ?thesis
  proof (cases "b = 4")
    case True
    have "d2 = 0" using True d1 d1e d2 by arith
    then have "c = 0" "e = 0" "f = 0" using d2e d3 d3e f cc ee by auto
    then have "year_of n = 400 * a + 100 * 3 + 4 * 24 + 3 + 1" using y True by simp
    moreover have "year_days (400 * a + 100 * 3 + 4 * 24 + 3 + 1) = 146097 * a + 36524 * 3 + 1461 * 24 + 365 * 3"
      by (rule cycle_days) auto
    moreover have "year_days (400 * (a + 1) + 100 * 0 + 4 * 0 + 0 + 1) = 146097 * (a + 1) + 36524 * 0 + 1461 * 0 + 365 * 0"
      by (rule cycle_days) auto
    ultimately show ?thesis using n d1e True \<open>d2 = 0\<close> by (simp add: algebra_simps)
  next
    case False
    with bb have b: "b < 4" by simp
    show ?thesis
    proof (cases "e = 4")
      case True
      with d3 d3e f have "f = 0" by arith
      have y4: "year_of n = 400 * a + 100 * b + 4 * c + 3 + 1" using y True by simp
      have s: "year_days (400 * a + 100 * b + 4 * c + 3 + 1) = 146097 * a + 36524 * b + 1461 * c + 365 * 3"
        using bb b cc by (intro cycle_days) auto
      have l: "leap (400 * a + 100 * b + 4 * c + 3 + 1)"
      proof -
        have "c < 24" using d2 d2e d3e True \<open>f = 0\<close> by simp
        then have "\<not> 100 dvd (4 * c + 4)" using cc(1) by (intro zdvd_not_zless) auto
        moreover have "100 dvd (400 * a + 100 * b + 4 * c + 3 + 1) \<longleftrightarrow> 100 dvd (4 * c + 4)"
          using dvd_add_right_iff [of 100 "400 * a + 100 * b" "4 * c + 4"] by (simp add: algebra_simps)
        moreover have "4 dvd (400 * a + 100 * b + 4 * c + 3 + 1)"
          by (rule dvdI [where k = "100 * a + 25 * b + c + 1"]) simp
        ultimately show ?thesis by (simp add: leap_def)
      qed
      then show ?thesis
        unfolding y4 year_days_step [of "400 * a + 100 * b + 4 * c + 3 + 1"]
        using s n d1e d2e d3e True \<open>f = 0\<close> by simp
    next
      case False
      with ee have e: "e < 4" by simp
      have y1: "year_of n = 400 * a + 100 * b + 4 * c + e + 1" using y \<open>b \<noteq> 4\<close> False by simp
      have "year_days (400 * a + 100 * b + 4 * c + e + 1) = 146097 * a + 36524 * b + 1461 * c + 365 * e"
        using bb b cc ee e by (intro cycle_days) auto
      then show ?thesis
        unfolding y1 year_days_step [of "400 * a + 100 * b + 4 * c + e + 1"]
        using n d1e d2e d3e f by simp
    qed
  qed
qed

lemma year_of_unique: "year_days y < n \<Longrightarrow> n \<le> year_days (y + 1) \<Longrightarrow> year_of n = y"
  using year_of_correct [of n] by (intro year_unique) auto

section \<open>Round trips\<close>

lemma find_month_sum:
  "k < length ls \<Longrightarrow> \<forall>l\<in>set ls. 0 < l \<Longrightarrow> 1 \<le> d \<Longrightarrow> d \<le> ls ! k \<Longrightarrow>
   find_month ls m (sum_list (take k ls) + d) = (m + int k, d)"
proof (induction ls arbitrary: k m)
  case Nil
  then show ?case by simp
next
  case (Cons l ls)
  show ?case
  proof (cases k)
    case 0
    with Cons.prems show ?thesis by simp
  next
    case (Suc j)
    have "0 \<le> sum_list (take j ls)"
      using Cons.prems(2) by (intro sum_list_nonneg) (auto dest!: in_set_takeD intro: less_imp_le)
    with Suc Cons.IH [of j "m + 1"] Cons.prems show ?thesis by (simp add: algebra_simps)
  qed
qed

lemma find_month_inverse:
  "1 \<le> r \<Longrightarrow> r \<le> sum_list ls \<Longrightarrow> find_month ls m r = (m', d) \<Longrightarrow>
   \<exists>k<length ls. m' = m + int k \<and> 1 \<le> d \<and> d \<le> ls ! k \<and> r = sum_list (take k ls) + d"
proof (induction ls arbitrary: m r)
  case Nil
  then show ?case by simp
next
  case (Cons l ls)
  show ?case
  proof (cases "r \<le> l")
    case True
    with Cons.prems show ?thesis by (intro exI [of _ 0]) auto
  next
    case False
    with Cons.prems Cons.IH [of "r - l" "m + 1"] obtain k where
      "k < length ls" "m' = m + 1 + int k" "1 \<le> d" "d \<le> ls ! k" "r - l = sum_list (take k ls) + d" by auto
    then show ?thesis by (intro exI [of _ "Suc k"]) auto
  qed
qed

lemma month_lens_facts:
  "length (month_lens y) = 12" "\<forall>l\<in>set (month_lens y). 28 \<le> l \<and> l \<le> 31"
  "sum_list (month_lens y) = (if leap y then 366 else 365)"
  by (simp_all add: month_lens_def)

text \<open>\<open>valid\<close>: a month of the year and a day of the month.\<close>

definition valid_ymd :: "int \<Rightarrow> int \<Rightarrow> int \<Rightarrow> bool" where
  "valid_ymd y m d \<longleftrightarrow> 1 \<le> m \<and> m \<le> 12 \<and> 1 \<le> d \<and> d \<le> month_len y m"

lemma day_in_year:
  assumes "valid_ymd y m d"
  shows "1 \<le> month_days y m + d" and "month_days y m + d \<le> (if leap y then 366 else 365)"
proof -
  let ?k = "nat (m - 1)"
  have k: "?k < length (month_lens y)" using assms by (auto simp: valid_ymd_def month_lens_facts)
  have pos: "\<forall>l\<in>set (month_lens y). (0::int) \<le> l" using month_lens_facts(2) [of y] by auto
  have t: "0 \<le> sum_list (take ?k (month_lens y))"
    using pos by (intro sum_list_nonneg) (auto dest: in_set_takeD)
  have u: "0 \<le> sum_list (drop (Suc ?k) (month_lens y))"
    using pos by (intro sum_list_nonneg) (auto dest: in_set_dropD)
  have "sum_list (month_lens y) =
      sum_list (take ?k (month_lens y)) + (month_lens y ! ?k + sum_list (drop (Suc ?k) (month_lens y)))"
    using k by (metis id_take_nth_drop sum_list.Cons sum_list_append)
  with t u assms show "1 \<le> month_days y m + d" and "month_days y m + d \<le> (if leap y then 366 else 365)"
    using month_lens_facts(3) [of y] by (auto simp: valid_ymd_def month_days_def month_len_def)
qed

theorem civil_day_no: "valid_ymd y m d \<Longrightarrow> civil (day_no y m d) = (y, m, d)"
proof -
  assume v: "valid_ymd y m d"
  have y: "year_of (day_no y m d) = y"
    using day_in_year [OF v] by (intro year_of_unique) (auto simp: day_no_def year_days_step)
  have "find_month (month_lens y) 1 (sum_list (take (nat (m - 1)) (month_lens y)) + d) = (1 + int (nat (m - 1)), d)"
    using v month_lens_facts [of y] by (intro find_month_sum) (auto simp: valid_ymd_def month_len_def)
  then show ?thesis
    using v y unfolding civil_def by (simp add: Let_def day_no_def month_days_def valid_ymd_def add.assoc)
qed

theorem day_no_civil:
  assumes "civil n = (y, m, d)"
  shows "valid_ymd y m d \<and> day_no y m d = n"
proof -
  from assms have y: "y = year_of n" and f: "find_month (month_lens y) 1 (n - year_days y) = (m, d)"
    by (auto simp: civil_def Let_def)
  have "1 \<le> n - year_days y" "n - year_days y \<le> sum_list (month_lens y)"
    using year_of_correct [of n] y month_lens_facts(3) [of y] by (auto simp: year_days_step)
  from find_month_inverse [OF this f] obtain k where
    "k < 12" "m = 1 + int k" "1 \<le> d" "d \<le> month_lens y ! k" "n - year_days y = sum_list (take k (month_lens y)) + d"
    by (auto simp: month_lens_facts)
  then show ?thesis by (auto simp: valid_ymd_def month_len_def day_no_def month_days_def)
qed

text \<open>
  What the widgets rely on: a day shifted through the constructor is the day that many
  further on, for years the constructor does not reinterpret.
\<close>

lemma js_day_plain: "1 \<le> m \<Longrightarrow> m \<le> 12 \<Longrightarrow> y < 0 \<or> 99 < y \<Longrightarrow> js_day y (m - 1) d = day_no y m d"
  by (auto simp: js_day_def)

lemma js_day_shift:
  assumes "civil n = (y, m, d)" and "y < 0 \<or> 99 < y"
  shows "js_day y (m - 1) (d + k) = n + k"
  using day_no_civil [OF assms(1)] assms(2)
  by (simp add: js_day_plain valid_ymd_def) (simp add: day_no_def)

lemma month_len_bounds: "1 \<le> m \<Longrightarrow> m \<le> 12 \<Longrightarrow> 28 \<le> month_len y m \<and> month_len y m \<le> 31"
  using month_lens_facts [of y] by (auto simp: month_len_def)

lemma month_days_Suc:
  assumes "1 \<le> m" and "m < 12"
  shows "month_days y (m + 1) = month_days y m + month_len y m"
proof -
  have "nat m = Suc (nat (m - 1))" using assms by simp
  moreover have "nat (m - 1) < length (month_lens y)" using assms by (simp add: month_lens_facts)
  ultimately show ?thesis by (simp add: month_days_def month_len_def take_Suc_conv_app_nth)
qed

text \<open>\<open>new Date(y, m, 0)\<close> with \<open>m\<close> the one-based month is the last day of that month.\<close>

lemma js_day_month_end:
  assumes "1 \<le> m" and "m \<le> 12" and "y < 0 \<or> 99 < y"
  shows "js_day y m 0 = day_no y m (month_len y m)"
proof (cases "m = 12")
  case True
  have "month_days y 12 + month_len y 12 = (if leap y then 366 else 365)"
    using month_lens_facts(3) [of y] by (simp add: month_days_def month_len_def month_lens_def eval_nat_numeral)
  with True assms(3) show ?thesis
    by (auto simp: js_day_def day_no_def year_days_step month_days_def [of "y + 1"])
next
  case False
  with assms have "m div 12 = 0" "m mod 12 = m" by auto
  with False assms month_days_Suc [of m y] show ?thesis by (auto simp: js_day_def day_no_def)
qed

end
