(* ===== verification/Weeks.thy ===== *)
theory Weeks
  imports Js_Date
begin

text \<open>
  The six weeks a calendar shows for a month: \<open>_20\<close> of \<open>js/plugins/jquery.calendar.js\<close>.  The
  loops are written over any type of dates with a weekday and a shift by days, as the code
  writes them over arrays \<open>[year, month, day]\<close>; the locale \<open>day_line\<close> says what the code relies
  on of \<open>new Date\<close>, and its lemmas show what the loops compute.
\<close>

section \<open>The loops\<close>

text \<open>The days of the month cut after the last weekday of the row (lines 179-197).\<close>

fun split_weeks :: "('a \<Rightarrow> int) \<Rightarrow> int \<Rightarrow> 'a list \<Rightarrow> int \<Rightarrow> 'a list \<Rightarrow> 'a list list \<Rightarrow> 'a list list" where
  "split_weeks wd fd [] prev cur rows = (if cur = [] then rows else rows @ [cur])"
| "split_weeks wd fd (x # xs) prev cur rows =
     (let cur = cur @ [x]; day = wd x in
      if prev = day then split_weeks wd fd xs 0 cur rows
      else if day = (if fd = 0 then 7 else fd) - 1 then split_weeks wd fd xs day [] (rows @ [cur])
      else split_weeks wd fd xs day cur rows)"

text \<open>A row filled up to seven days at its start (lines 200-204) and at its end (lines 215-219).\<close>

function pad_front :: "('a \<Rightarrow> int \<Rightarrow> 'a) \<Rightarrow> 'a list \<Rightarrow> 'a list" where
  "pad_front sh row = (if length row < 7 then pad_front sh (sh (row ! 0) (-1) # row) else row)"
  by auto
termination by (relation "measure (\<lambda>(sh, row). 7 - length row)") auto

function pad_back :: "('a \<Rightarrow> int \<Rightarrow> 'a) \<Rightarrow> 'a list \<Rightarrow> 'a list" where
  "pad_back sh row = (if length row < 7 then pad_back sh (row @ [sh (row ! (length row - 1)) 1]) else row)"
  by auto
termination by (relation "measure (\<lambda>(sh, row). 7 - length row)") auto

declare pad_front.simps [simp del] pad_back.simps [simp del]

text \<open>A week before a day and a week after it (lines 206-212 and 221-227).\<close>

definition week_before :: "('a \<Rightarrow> int \<Rightarrow> 'a) \<Rightarrow> 'a \<Rightarrow> 'a list" where
  "week_before sh c = rev (map (\<lambda>i. sh c (- i)) [1..7])"

definition week_after :: "('a \<Rightarrow> int \<Rightarrow> 'a) \<Rightarrow> 'a \<Rightarrow> 'a list" where
  "week_after sh c = map (sh c) [1..7]"

text \<open>The two ends of the table: the first row, the last row, and a sixth row if one is missing.\<close>

definition open_weeks :: "('a \<Rightarrow> int \<Rightarrow> 'a) \<Rightarrow> 'a list list \<Rightarrow> 'a list list" where
  "open_weeks sh rows =
     (if length (rows ! 0) < 7 then pad_front sh (rows ! 0) # tl rows
      else week_before sh (rows ! 0 ! 0) # rows)"

definition close_weeks :: "('a \<Rightarrow> int \<Rightarrow> 'a) \<Rightarrow> 'a list list \<Rightarrow> 'a list list" where
  "close_weeks sh rows =
     (let l = pad_back sh (last rows); rows = butlast rows @ [l] in
      if length rows < 6 then rows @ [week_after sh (last l)] else rows)"

section \<open>What they compute\<close>

locale day_line =
  fixes at :: "int \<Rightarrow> 'a" and wd :: "'a \<Rightarrow> int" and shift :: "'a \<Rightarrow> int \<Rightarrow> 'a" and lo :: int
  assumes wd_at: "lo \<le> n \<Longrightarrow> wd (at n) = n mod 7"
    and shift_at: "lo \<le> n \<Longrightarrow> shift (at n) k = at (n + k)"
begin

definition days :: "int \<Rightarrow> int \<Rightarrow> 'a list" where
  "days a b = map at [a..b]"

lemma length_days [simp]: "length (days a b) = nat (b - a + 1)"
  by (simp add: days_def)

lemma days_Cons: "a \<le> b \<Longrightarrow> days a b = at a # days (a + 1) b"
  by (simp add: days_def upto_rec1)

lemma days_snoc: "a \<le> b + 1 \<Longrightarrow> days a (b + 1) = days a b @ [at (b + 1)]"
  by (simp add: days_def upto_rec2)

lemma days_append: "a \<le> b + 1 \<Longrightarrow> b \<le> c \<Longrightarrow> days a b @ days (b + 1) c = days a c"
proof (cases "a \<le> b")
  case True
  assume "b \<le> c"
  with True have "[a..c] = [a..b] @ [b + 1..c]" by (rule upto_split2)
  then show ?thesis by (simp add: days_def)
next
  case False
  assume "a \<le> b + 1"
  with False have "a = b + 1" by simp
  then show ?thesis by (simp add: days_def)
qed

lemma days_nth: "i < nat (b - a + 1) \<Longrightarrow> days a b ! i = at (a + int i)"
  by (simp add: days_def)

lemma days_Nil [simp]: "b < a \<Longrightarrow> days a b = []"
  by (simp add: days_def)

text \<open>\<open>e\<close> is the last weekday of a row; a day \<open>n\<close> has that weekday when 7 divides \<open>n - e\<close>.\<close>

lemma mod7_dvd: "0 \<le> e \<Longrightarrow> e < 7 \<Longrightarrow> n mod 7 = e \<longleftrightarrow> 7 dvd (n - e)" for n e :: int
  by presburger

lemma mod7_step: "k mod 7 \<noteq> (k + 1) mod (7::int)"
  by presburger

lemma inside_row: "7 dvd (a + f - e - 1) \<Longrightarrow> 0 \<le> i \<Longrightarrow> i < f - 1 \<Longrightarrow> f \<le> 7 \<Longrightarrow> \<not> 7 dvd (a + i - e)"
  for a :: int
  by presburger

lemma row_end: "7 dvd (a + f - e - 1) \<Longrightarrow> 7 dvd (a + (f - 1) - e)" for a :: int
  by (simp add: algebra_simps)

lemma next_rows: "7 dvd (k - e - 1) \<Longrightarrow> 7 dvd (k + 7 - e - 1)" for k :: int
  by presburger

definition row_last :: "int \<Rightarrow> int \<Rightarrow> bool" where
  "row_last fd e \<longleftrightarrow> e = (if fd = 0 then 7 else fd) - 1 \<and> 0 \<le> e \<and> e < 7"

lemma split_step:
  assumes "lo \<le> k" and "prev \<noteq> k mod 7" and "row_last fd e"
  shows "split_weeks wd fd (at k # xs) prev cur rows =
     (if 7 dvd (k - e) then split_weeks wd fd xs e [] (rows @ [cur @ [at k]])
      else split_weeks wd fd xs (k mod 7) (cur @ [at k]) rows)"
proof -
  have "wd (at k) = k mod 7" using assms(1) by (rule wd_at)
  moreover have "k mod 7 = e \<longleftrightarrow> 7 dvd (k - e)" using assms(3) by (intro mod7_dvd) (simp_all add: row_last_def)
  moreover have "7 dvd (k - e) \<Longrightarrow> k mod 7 = e" using calculation(2) by (rule iffD2)
  moreover have "(if fd = 0 then 7 else fd) - 1 = e" using assms(3) by (simp only: row_last_def)
  ultimately show ?thesis using assms(2)
    by (cases "7 dvd (k - e)"; simp only: split_weeks.simps Let_def if_False if_True; simp)
qed

lemma split_part:
  assumes "\<forall>i. 0 \<le> i \<and> i < int j \<longrightarrow> \<not> 7 dvd (k + i - e)" and "lo \<le> k" and "prev \<noteq> k mod 7"
    and "row_last fd e"
  shows "\<exists>prev'. prev' \<noteq> (k + int j) mod 7 \<and>
     split_weeks wd fd (days k (k + int j - 1) @ xs) prev cur rows =
     split_weeks wd fd xs prev' (cur @ days k (k + int j - 1)) rows"
  using assms
proof (induction j arbitrary: k prev cur)
  case 0
  then show ?case by auto
next
  case (Suc j)
  have d: "days k (k + int (Suc j) - 1) = at k # days (k + 1) (k + 1 + int j - 1)"
    by (subst days_Cons) (auto simp: algebra_simps)
  have k: "\<not> 7 dvd (k - e)" using Suc.prems(1) by (auto dest: spec [of _ 0])
  have s: "split_weeks wd fd (days k (k + int (Suc j) - 1) @ xs) prev cur rows =
      split_weeks wd fd (days (k + 1) (k + 1 + int j - 1) @ xs) (k mod 7) (cur @ [at k]) rows"
    unfolding d append_Cons by (subst split_step [OF Suc.prems(2,3,4)]) (simp only: k if_False)
  have n: "\<forall>i. 0 \<le> i \<and> i < int j \<longrightarrow> \<not> 7 dvd (k + 1 + i - e)"
  proof (intro allI impI)
    fix i
    assume "0 \<le> i \<and> i < int j"
    then have "0 \<le> 1 + i \<and> 1 + i < int (Suc j)" by simp
    with Suc.prems(1) have "\<not> 7 dvd (k + (1 + i) - e)" by blast
    then show "\<not> 7 dvd (k + 1 + i - e)" by (simp only: add.assoc not_False_eq_True)
  qed
  have "lo \<le> k + 1" using Suc.prems(2) by simp
  from Suc.IH [OF n this mod7_step Suc.prems(4), of "cur @ [at k]"]
  obtain prev' where "prev' \<noteq> (k + 1 + int j) mod 7" "split_weeks wd fd (days (k + 1) (k + 1 + int j - 1) @ xs)
      (k mod 7) (cur @ [at k]) rows =
      split_weeks wd fd xs prev' ((cur @ [at k]) @ days (k + 1) (k + 1 + int j - 1)) rows"
    by blast
  moreover have "k + 1 + int j = k + int (Suc j)" by simp
  ultimately show ?case unfolding s by (intro exI [of _ prev']) (simp only: d append_assoc append_Cons append_Nil simp_thms)
qed

lemma split_row:
  assumes "\<forall>i. 0 \<le> i \<and> i < j \<longrightarrow> \<not> 7 dvd (k + i - e)" and "7 dvd (k + j - e)" and "0 \<le> j"
    and "lo \<le> k" and "prev \<noteq> k mod 7" and "row_last fd e"
  shows "split_weeks wd fd (days k (k + j) @ xs) prev cur rows =
     split_weeks wd fd xs e [] (rows @ [cur @ days k (k + j)])"
proof -
  have j: "int (nat j) = j" using assms(3) by simp
  have d: "days k (k + j) = days k (k + j - 1) @ [at (k + j)]"
    using days_snoc [of k "k + j - 1"] assms(3) by simp
  obtain p where p: "p \<noteq> (k + j) mod 7"
    and s: "split_weeks wd fd (days k (k + j - 1) @ [at (k + j)] @ xs) prev cur rows =
       split_weeks wd fd ([at (k + j)] @ xs) p (cur @ days k (k + j - 1)) rows"
    using split_part [of "nat j" k e prev fd "[at (k + j)] @ xs" cur rows, unfolded j, OF assms(1,4-6)] by blast
  have l: "lo \<le> k + j" using assms(3,4) by simp
  show ?thesis
    unfolding d append_assoc s
    by (simp only: append_Cons append_Nil split_step [OF l p assms(6)] assms(2) if_True append_assoc)
qed

text \<open>A row that starts on the first weekday is seven days long.\<close>

lemma split_week:
  assumes "7 dvd (k - e - 1)" and "lo \<le> k" and "row_last fd e"
  shows "split_weeks wd fd (days k (k + 6) @ xs) e [] rows =
     split_weeks wd fd xs e [] (rows @ [days k (k + 6)])"
proof -
  have r: "0 \<le> e" "e < 7" using assms(3) by (simp_all add: row_last_def)
  have k: "7 dvd ((k - 7) + 7 - e - 1)" using assms(1) by simp
  have "\<forall>i. 0 \<le> i \<and> i < 6 \<longrightarrow> \<not> 7 dvd (k + i - e)" using assms(1) by presburger
  moreover have "7 dvd (k + 6 - e)" using assms(1) by presburger
  moreover have "e \<noteq> k mod 7" using assms(1) r by presburger
  ultimately show ?thesis using split_row [of 6 k e e fd xs "[]" rows] assms by simp
qed

lemma split_tail:
  assumes "7 dvd (k - e - 1)" and "lo \<le> k" and "0 \<le> j" "j \<le> 6" and "row_last fd e"
  shows "split_weeks wd fd (days k (k + j - 1)) e [] rows =
     (if j = 0 then rows else rows @ [days k (k + j - 1)])"
proof -
  have r: "0 \<le> e" "e < 7" using assms(5) by (simp_all add: row_last_def)
  have j: "int (nat j) = j" using assms(3) by simp
  have n: "\<forall>i. 0 \<le> i \<and> i < j \<longrightarrow> \<not> 7 dvd (k + i - e)" using assms(1,4) by presburger
  have p: "e \<noteq> k mod 7" using assms(1) r by presburger
  from split_part [of "nat j" k e e fd "[]" "[]" rows, unfolded j, OF n assms(2) p assms(5)]
  obtain q where "split_weeks wd fd (days k (k + j - 1)) e [] rows =
      split_weeks wd fd [] q (days k (k + j - 1)) rows" by auto
  moreover have "days k (k + j - 1) = [] \<longleftrightarrow> j = 0" using assms(3) by (auto simp: days_def)
  ultimately show ?thesis by simp
qed

text \<open>The rows of a month of \<open>f + 21 + r\<close> days whose first row has \<open>f\<close> days.\<close>

definition tail_rows :: "int \<Rightarrow> int \<Rightarrow> 'a list list" where
  "tail_rows k r =
     (if r = 0 then [] else if r < 7 then [days k (k + r - 1)] else if r = 7 then [days k (k + 6)]
      else [days k (k + 6), days (k + 7) (k + r - 1)])"

lemma split_tail_rows:
  assumes "7 dvd (k - e - 1)" and "lo \<le> k" and "0 \<le> r" "r \<le> 9" and e: "row_last fd e"
  shows "split_weeks wd fd (days k (k + r - 1)) e [] rows = rows @ tail_rows k r"
proof (cases "r < 7")
  case True
  with split_tail [OF assms(1,2,3) _ e, of rows] show ?thesis by (simp add: tail_rows_def)
next
  case False
  have d: "days k (k + r - 1) = days k (k + 6) @ days (k + 7) (k + 7 + (r - 7) - 1)"
    using days_append [of k "k + 6" "k + r - 1"] False by (simp add: algebra_simps)
  have k: "lo \<le> k + 7" using assms(2) by simp
  have r: "0 \<le> r - 7" "r - 7 \<le> 6" using False assms(4) by simp_all
  show ?thesis
    unfolding d split_week [OF assms(1,2) e] split_tail [OF next_rows [OF assms(1)] k r e]
    using False by (simp add: tail_rows_def)
qed

lemma split_month:
  assumes "1 \<le> f" "f \<le> 7" and k: "7 dvd (a + f - e - 1)" and lo: "lo \<le> a"
    and e: "row_last fd e" and r: "0 \<le> r" "r \<le> 9"
  shows "split_weeks wd fd (days a (a + f + 20 + r)) (-1) [] [] =
     [days a (a + f - 1), days (a + f) (a + f + 6), days (a + f + 7) (a + f + 7 + 6),
      days (a + f + 14) (a + f + 14 + 6)] @ tail_rows (a + f + 21) r"
proof -
  have lk: "lo \<le> a + f" "lo \<le> a + f + 7" "lo \<le> a + f + 14" "lo \<le> a + f + 21" using assms(1) lo by simp_all
  have k7: "7 dvd (a + f + 7 - e - 1)" by (rule next_rows [OF k])
  have k14: "7 dvd (a + f + 14 - e - 1)" using next_rows [OF k7] by (simp add: algebra_simps)
  have k21: "7 dvd (a + f + 21 - e - 1)" using next_rows [OF k14] by (simp add: algebra_simps)
  have d: "days a (a + f + 20 + r) =
      days a (a + (f - 1)) @ days (a + f) (a + f + 6) @ days (a + f + 7) (a + f + 7 + 6)
      @ days (a + f + 14) (a + f + 14 + 6) @ days (a + f + 21) (a + f + 21 + r - 1)"
    using days_append [of a "a + f - 1" "a + f + 20 + r"] days_append [of "a + f" "a + f + 6" "a + f + 20 + r"]
      days_append [of "a + f + 7" "a + f + 13" "a + f + 20 + r"]
      days_append [of "a + f + 14" "a + f + 20" "a + f + 20 + r"] assms(1,2) r
    by (simp add: algebra_simps)
  have f1: "\<forall>i. 0 \<le> i \<and> i < f - 1 \<longrightarrow> \<not> 7 dvd (a + i - e)" using inside_row [OF k] assms(2) by blast
  have f2: "7 dvd (a + (f - 1) - e)" by (rule row_end [OF k])
  have f3: "0 \<le> f - 1" using assms(1) by simp
  have f4: "-1 \<noteq> a mod 7" by presburger
  have f5: "a + f - 1 = a + (f - 1)" by simp
  show ?thesis
    unfolding d f5 split_row [OF f1 f2 f3 lo f4 e] split_week [OF k lk(1) e] split_week [OF k7 lk(2) e]
      split_week [OF k14 lk(3) e] split_tail_rows [OF k21 lk(4) r e]
    by (simp only: append_assoc append_Cons append_Nil)
qed

text \<open>Filling a row at either end.\<close>

lemma pad_front_days:
  "a \<le> b \<Longrightarrow> b - a + 1 \<le> 7 \<Longrightarrow> lo \<le> b - 6 \<Longrightarrow> pad_front shift (days a b) = days (b - 6) b"
proof (induction "nat (6 - (b - a))" arbitrary: a)
  case 0
  then have "a = b - 6" by simp
  then show ?case by (subst pad_front.simps) simp
next
  case (Suc j)
  have l: "length (days a b) < 7" using Suc.hyps(2) Suc.prems by simp
  have "shift (days a b ! 0) (-1) = at (a - 1)"
    using Suc.prems shift_at [of a "-1"] by (simp add: days_nth)
  then have s: "shift (days a b ! 0) (-1) # days a b = days (a - 1) b"
    using days_Cons [of "a - 1" b] Suc.prems by simp
  have "pad_front shift (days (a - 1) b) = days (b - 6) b"
    using Suc.hyps(2) Suc.prems by (intro Suc.hyps(1)) auto
  with l s show ?case by (subst pad_front.simps) simp
qed

lemma pad_back_days:
  "a \<le> b \<Longrightarrow> b - a + 1 \<le> 7 \<Longrightarrow> lo \<le> a \<Longrightarrow> pad_back shift (days a b) = days a (a + 6)"
proof (induction "nat (6 - (b - a))" arbitrary: b)
  case 0
  then have "b = a + 6" by simp
  then show ?case by (subst pad_back.simps) simp
next
  case (Suc j)
  have l: "length (days a b) < 7" using Suc.hyps(2) Suc.prems by simp
  have "days a b ! (length (days a b) - 1) = at b" using Suc.prems by (simp add: days_nth)
  then have "shift (days a b ! (length (days a b) - 1)) 1 = at (b + 1)"
    using Suc.prems shift_at [of b 1] by simp
  then have s: "days a b @ [shift (days a b ! (length (days a b) - 1)) 1] = days a (b + 1)"
    using days_snoc [of a b] Suc.prems by simp
  have "pad_back shift (days a (b + 1)) = days a (a + 6)"
    using Suc.hyps(2) Suc.prems by (intro Suc.hyps(1)) auto
  with l s show ?case by (subst pad_back.simps) simp
qed

lemma upto_1_7: "[1..7] = [1, 2, 3, 4, 5, 6, 7 :: int]"
  by code_simp

lemma week_before_days: "lo \<le> n \<Longrightarrow> week_before shift (at n) = days (n - 7) (n - 1)"
proof -
  have "[n - 7..n - 1] = [n - 7, n - 6, n - 5, n - 4, n - 3, n - 2, n - 1]" by (simp add: upto_rec1)
  then show "lo \<le> n \<Longrightarrow> ?thesis" using shift_at [of n] by (simp add: week_before_def days_def upto_1_7)
qed

lemma week_after_days: "lo \<le> n \<Longrightarrow> week_after shift (at n) = days (n + 1) (n + 7)"
proof -
  have "[n + 1..n + 7] = [n + 1, n + 2, n + 3, n + 4, n + 5, n + 6, n + 7]" by (simp add: upto_rec1)
  then show "lo \<le> n \<Longrightarrow> ?thesis" using shift_at [of n] by (simp add: week_after_def days_def upto_1_7)
qed

text \<open>\<open>n\<close> rows of seven days from day \<open>s\<close>.\<close>

definition weeks_from :: "int \<Rightarrow> int \<Rightarrow> 'a list list" where
  "weeks_from s n = map (\<lambda>i. days (s + 7 * i) (s + 7 * i + 6)) [0..n - 1]"

lemma open_weeks_days:
  assumes "1 \<le> f" "f \<le> 7" and "lo + 7 \<le> a"
  shows "open_weeks shift (days a (a + f - 1) # rows) =
     (if f < 7 then days (a + f - 7) (a + f - 7 + 6) # rows
      else days (a + f - 14) (a + f - 14 + 6) # days (a + f - 7) (a + f - 7 + 6) # rows)"
proof (cases "f < 7")
  case True
  have "pad_front shift (days a (a + f - 1)) = days (a + f - 1 - 6) (a + f - 1)"
    using assms True by (intro pad_front_days) auto
  with True assms show ?thesis by (simp add: open_weeks_def algebra_simps)
next
  case False
  with assms have f: "f = 7" by simp
  have "lo \<le> a" using assms(3) by simp
  then have "week_before shift (days a (a + 7 - 1) ! 0) = days (a - 7) (a - 1)"
    using week_before_days [of a] by (simp add: days_nth)
  with f show ?thesis by (simp add: open_weeks_def algebra_simps)
qed

lemma close_weeks_days:
  assumes "1 \<le> l" "l \<le> 7" and "lo \<le> k" and "length rows = 4 \<or> length rows = 5"
  shows "close_weeks shift (rows @ [days k (k + l - 1)]) =
     rows @ days k (k + 6) # (if length rows = 4 then [days (k + 7) (k + 13)] else [])"
proof -
  have p: "pad_back shift (days k (k + l - 1)) = days k (k + 6)" using assms by (intro pad_back_days) auto
  have "days k (k + 6) = days k (k + 5) @ [at (k + 6)]"
    using days_snoc [of k "k + 5"] by (simp add: add.assoc)
  then have "last (days k (k + 6)) = at (k + 6)" by simp
  moreover have "week_after shift (at (k + 6)) = days (k + 7) (k + 13)"
    using week_after_days [of "k + 6"] assms(3) by (simp add: algebra_simps)
  ultimately show ?thesis using assms(4) p by (auto simp: close_weeks_def Let_def)
qed

lemma weeks_from_6:
  "weeks_from s 6 = [days s (s + 6), days (s + 7) (s + 13), days (s + 14) (s + 20), days (s + 21) (s + 27),
     days (s + 28) (s + 34), days (s + 35) (s + 41)]"
proof -
  have "[0..6 - 1] = [0, 1, 2, 3, 4, 5 :: int]" by code_simp
  then show ?thesis by (simp add: weeks_from_def add.commute)
qed

lemma close_weeks_5:
  assumes "1 \<le> l" "l \<le> 7" and "lo \<le> s"
  shows "close_weeks shift [days s (s + 6), days (s + 7) (s + 13), days (s + 14) (s + 20), days (s + 21) (s + 27),
     days (s + 28) (s + 28 + l - 1)] = weeks_from s 6"
  using close_weeks_days [of l "s + 28"
      "[days s (s + 6), days (s + 7) (s + 13), days (s + 14) (s + 20), days (s + 21) (s + 27)]"] assms
  by (simp add: weeks_from_6 add.commute)

lemma close_weeks_6:
  assumes "1 \<le> l" "l \<le> 7" and "lo \<le> s"
  shows "close_weeks shift [days s (s + 6), days (s + 7) (s + 13), days (s + 14) (s + 20), days (s + 21) (s + 27),
     days (s + 28) (s + 34), days (s + 35) (s + 35 + l - 1)] = weeks_from s 6"
  using close_weeks_days [of l "s + 35" "[days s (s + 6), days (s + 7) (s + 13), days (s + 14) (s + 20),
      days (s + 21) (s + 27), days (s + 28) (s + 34)]"] assms
  by (simp add: weeks_from_6 add.commute)

text \<open>The table of a month of 28 to 31 days: six weeks, the first of them with a day of the month before.\<close>

lemma month_table:
  assumes "1 \<le> f" "f \<le> 7" and "7 dvd (a + f - e - 1)" and "row_last fd e" and "lo + 14 \<le> a"
    and "28 \<le> l" "l \<le> 31"
  shows "split_weeks wd fd (days a (a + l - 1)) (-1) [] [] \<noteq> []"
    and "close_weeks shift (open_weeks shift (split_weeks wd fd (days a (a + l - 1)) (-1) [] [])) =
      weeks_from (if f < 7 then a + f - 7 else a - 7) 6"
proof -
  define r s where "r = l - f - 21" and "s = (if f < 7 then a + f - 7 else a - 7)"
  have r: "0 \<le> r" "r \<le> 9" and s: "lo \<le> s" using assms by (auto simp: r_def s_def)
  have l: "a + l - 1 = a + f + 20 + r" by (simp add: r_def)
  have lo: "lo \<le> a" "lo + 7 \<le> a" using assms(5) by simp_all
  note m = split_month [OF assms(1-3) lo(1) assms(4) r]
  show "split_weeks wd fd (days a (a + l - 1)) (-1) [] [] \<noteq> []" unfolding l m by simp
  show "close_weeks shift (open_weeks shift (split_weeks wd fd (days a (a + l - 1)) (-1) [] [])) =
      weeks_from (if f < 7 then a + f - 7 else a - 7) 6"
  proof (cases "f < 7")
    case True
    then have a: "a + f = s + 7" and r1: "1 \<le> r" using assms(6) by (simp_all add: s_def r_def)
    have o: "open_weeks shift (split_weeks wd fd (days a (a + l - 1)) (-1) [] []) =
        [days s (s + 6), days (s + 7) (s + 13), days (s + 14) (s + 20), days (s + 21) (s + 27)] @ tail_rows (s + 28) r"
      unfolding l m append_Cons append_Nil open_weeks_days [OF assms(1,2) lo(2)] using True a
      by (simp add: algebra_simps)
    have "close_weeks shift ([days s (s + 6), days (s + 7) (s + 13), days (s + 14) (s + 20), days (s + 21) (s + 27)]
        @ tail_rows (s + 28) r) = weeks_from s 6"
    proof (cases "r \<le> 7")
      case True
      then have "tail_rows (s + 28) r = [days (s + 28) (s + 28 + r - 1)]" using r1 by (auto simp: tail_rows_def)
      with close_weeks_5 [of r s] r1 True s show ?thesis by simp
    next
      case False
      then have "tail_rows (s + 28) r = [days (s + 28) (s + 34), days (s + 35) (s + 35 + (r - 7) - 1)]"
        by (auto simp: tail_rows_def algebra_simps)
      with close_weeks_6 [of "r - 7" s] r False s show ?thesis by simp
    qed
    with o True show ?thesis by (simp add: s_def)
  next
    case False
    then have f: "f = 7" and a: "a = s + 7" and r3: "r \<le> 3" using assms(2,7) by (simp_all add: s_def r_def)
    have o: "open_weeks shift (split_weeks wd fd (days a (a + l - 1)) (-1) [] []) =
        [days s (s + 6), days (s + 7) (s + 13), days (s + 14) (s + 20), days (s + 21) (s + 27), days (s + 28) (s + 34)]
        @ tail_rows (s + 35) r"
      unfolding l m append_Cons append_Nil open_weeks_days [OF assms(1,2) lo(2)] using f a
      by (simp add: algebra_simps)
    have "close_weeks shift ([days s (s + 6), days (s + 7) (s + 13), days (s + 14) (s + 20), days (s + 21) (s + 27),
        days (s + 28) (s + 34)] @ tail_rows (s + 35) r) = weeks_from s 6"
    proof (cases "r = 0")
      case True
      with close_weeks_5 [of 7 s] s show ?thesis by (simp add: tail_rows_def add.commute)
    next
      case False
      then have "tail_rows (s + 35) r = [days (s + 35) (s + 35 + r - 1)]" using r3 by (simp add: tail_rows_def)
      with close_weeks_6 [of r s] r r3 False s show ?thesis by simp
    qed
    with o f show ?thesis by (simp add: s_def)
  qed
qed

end

end
