(* ===== verification/Calendar.thy ===== *)
theory Calendar
  imports Weeks
begin

text \<open>
  The calendar, \<open>js/plugins/jquery.calendar.js\<close>: the six weeks of a month (\<open>_20\<close>), the table of
  day cells (\<open>_19\<close>), the handlers of the header, of the month menu and of the days (\<open>_9\<close>), the
  menu itself (\<open>_5\<close>) and \<open>moveTo\<close>.

  A date is a day and the milliseconds of that day.  The year and the month are \<open>None\<close> where the
  code holds \<open>NaN\<close>.  The callbacks of the options and the clock are the parameter \<open>cal_env\<close>; a
  callback the code only notifies is an entry of the log.  A handler that throws returns \<open>Inl\<close> of
  the state it leaves, one that returns \<open>Inr\<close>.  Sizes are not modelled.
\<close>

section \<open>The weeks of a month: \<open>_20\<close>\<close>

text \<open>\<open>new Date(c[0], c[1] - 1, c[2] + k)\<close> and its weekday.\<close>

definition shift_ymd :: "ymd \<Rightarrow> int \<Rightarrow> ymd" where
  "shift_ymd c k = (case c of (y, m, d) \<Rightarrow> civil (js_day y (m - 1) (d + k)))"

definition wd_ymd :: "ymd \<Rightarrow> int" where
  "wd_ymd c = (case c of (y, m, d) \<Rightarrow> week_day (js_day y (m - 1) d))"

text \<open>
  The days \<open>[year, month, i]\<close> of the month; \<open>new Date\<close> of a year or month that is \<open>NaN\<close>, or of a
  year beyond the range of \<open>Date\<close>, has the date \<open>NaN\<close> and the loop does not run.
\<close>

definition date_range :: "int \<Rightarrow> bool" where
  "date_range y \<longleftrightarrow> -271821 < y \<and> y < 275760"

definition month_array :: "int option \<Rightarrow> int option \<Rightarrow> ymd list" where
  "month_array year month =
     (case (year, month) of
        (Some y, Some m) \<Rightarrow>
          if date_range (y + (m - 1) div 12)
          then map (\<lambda>i. (y, m, i)) [1..snd (snd (civil (js_day y m 0)))] else []
      | _ \<Rightarrow> [])"

text \<open>\<open>None\<close>: without days there is no first row, and reading its length throws.\<close>

definition get_weeks :: "int \<Rightarrow> int option \<Rightarrow> int option \<Rightarrow> ymd list list option" where
  "get_weeks fd year month =
     (case split_weeks wd_ymd fd (month_array year month) (-1) [] [] of
        [] \<Rightarrow> None
      | rows \<Rightarrow> Some (close_weeks shift_ymd (open_weeks shift_ymd rows)))"

section \<open>State\<close>

text \<open>A \<open>Date\<close>: its local day and the milliseconds since the start of that day.\<close>

type_synonym date = "int \<times> int"

record cal_env =
  v_validator :: "date \<Rightarrow> bool"
  v_formatter :: "date \<Rightarrow> string"
  v_styler :: "date \<Rightarrow> css"
  v_now :: date

record cell =
  k_class :: "string list"
  k_abbr :: string
  k_style :: string
  k_text :: string

datatype target = MenuNext | MenuPrev | NextYear | PrevYear | PrevMonth | NextMonth | TitleText
  | MenuMonth nat | DayCell nat nat | OtherTarget

datatype cevent = Select date | Change "date option" "date option" | Navigate "int option" "int option"

record calendar =
  c_year :: "int option"
  c_month :: "int option"
  c_current :: "date option"
  c_firstDay :: int
  c_weeks :: "string list"
  c_months :: "string list"
  c_border :: bool
  c_noborder :: bool
  c_shown :: bool
  c_title :: string
  c_head :: "string list"
  c_table :: "(string \<times> cell list) list option"
  c_menuVisible :: bool
  c_menuCells :: "(string \<times> string) list"
  c_menuSel :: "nat option"
  c_yearBox :: string
  c_hover :: "target list"
  c_log :: "cevent list"

type_synonym cal_result = "calendar + calendar"

definition cal_emit :: "cevent \<Rightarrow> calendar \<Rightarrow> calendar" where
  "cal_emit e s = s\<lparr>c_log := c_log s @ [e]\<rparr>"

definition show_num :: "int option \<Rightarrow> string" where
  "show_num x = (case x of None \<Rightarrow> ''NaN'' | Some i \<Rightarrow> show_int i)"

definition nth_text :: "string list \<Rightarrow> int option \<Rightarrow> string" where
  "nth_text xs i =
     (case i of Some i \<Rightarrow> if 0 \<le> i \<and> i < int (length xs) then xs ! nat i else ''undefined''
      | None \<Rightarrow> ''undefined'')"

definition ymd_text :: "ymd \<Rightarrow> string" where
  "ymd_text c = (case c of (y, m, d) \<Rightarrow> js_join '','' [show_int y, show_int m, show_int d])"

section \<open>The table: \<open>_19\<close>\<close>

text \<open>The column of the Saturdays and the column of the Sundays.\<close>

definition sat_col :: "int \<Rightarrow> int" where
  "sat_col fd = (let a = 6 - fd in if 7 \<le> a then a - 7 else a)"

definition sun_col :: "int \<Rightarrow> int" where
  "sun_col fd = (let a = (6 - fd) + 1 in if 7 \<le> a then a - 7 else a)"

text \<open>The text that marks the current date: empty without one.\<close>

definition current_text :: "calendar \<Rightarrow> string" where
  "current_text s = (case c_current s of None \<Rightarrow> [] | Some (n, _) \<Rightarrow> ymd_text (civil n))"

definition day_class :: "cal_env \<Rightarrow> calendar \<Rightarrow> nat \<Rightarrow> nat \<Rightarrow> ymd \<Rightarrow> string list" where
  "day_class E s len j c =
     (case c of (y, m, d) \<Rightarrow>
        let t = ymd_text c; n = (js_day y (m - 1) d, 0) in
        [''calendar-day'']
        @ (if c_year s = Some y \<and> c_month s = Some m then [] else [''calendar-other-month''])
        @ (if t = ymd_text (civil (fst (v_now E))) then [''calendar-today''] else [])
        @ (if t = current_text s then [''calendar-selected''] else [])
        @ (if int j = sat_col (c_firstDay s) then [''calendar-saturday'']
           else if int j = sun_col (c_firstDay s) then [''calendar-sunday''] else [])
        @ (if j = 0 then [''calendar-first''] else if j = len - 1 then [''calendar-last''] else [])
        @ js_split (CHR '' '') (css_class (v_styler E n))
        @ (if v_validator E n then [] else [''calendar-disabled'']))"

definition day_cell :: "cal_env \<Rightarrow> calendar \<Rightarrow> nat \<Rightarrow> nat \<Rightarrow> ymd \<Rightarrow> cell" where
  "day_cell E s len j c =
     (case c of (y, m, d) \<Rightarrow>
        let n = (js_day y (m - 1) d, 0) in
        \<lparr>k_class = day_class E s len j c, k_abbr = ymd_text c, k_style = css_style (v_styler E n),
          k_text = v_formatter E n\<rparr>)"

definition row_class :: "nat \<Rightarrow> nat \<Rightarrow> string" where
  "row_class n i = (if i = 0 then ''calendar-first'' else if i = n - 1 then ''calendar-last'' else [])"

definition day_rows :: "cal_env \<Rightarrow> calendar \<Rightarrow> ymd list list \<Rightarrow> (string \<times> cell list) list" where
  "day_rows E s rows =
     map (\<lambda>(i, r). (row_class (length rows) i, map (\<lambda>(j, c). day_cell E s (length r) j c) (enumerate 0 r)))
       (enumerate 0 rows)"

text \<open>The heads of the columns: the weekdays from the first day, then those before it.\<close>

definition head_cells :: "calendar \<Rightarrow> string list" where
  "head_cells s =
     map (\<lambda>i. nth_text (c_weeks s) (Some i)) ([c_firstDay s..int (length (c_weeks s)) - 1] @ [0..c_firstDay s - 1])"

definition is_day :: "target \<Rightarrow> bool" where
  "is_day t = (case t of DayCell _ _ \<Rightarrow> True | _ \<Rightarrow> False)"

text \<open>The current date is dropped when the validator refuses it.\<close>

definition check_current :: "cal_env \<Rightarrow> calendar \<Rightarrow> calendar" where
  "check_current E s =
     (case c_current s of None \<Rightarrow> s | Some d \<Rightarrow> if v_validator E d then s else s\<lparr>c_current := None\<rparr>)"

definition put_title :: "calendar \<Rightarrow> calendar" where
  "put_title s =
     s\<lparr>c_title := nth_text (c_months s) (map_option (\<lambda>m. m - 1) (c_month s)) @ '' '' @ show_num (c_year s)\<rparr>"

definition drop_table :: "calendar \<Rightarrow> calendar" where
  "drop_table s = s\<lparr>c_table := None, c_head := [], c_hover := filter (\<lambda>t. \<not> is_day t) (c_hover s)\<rparr>"

definition cal_show :: "cal_env \<Rightarrow> calendar \<Rightarrow> cal_result" where
  "cal_show E s =
     (let s = drop_table (put_title (check_current E s)) in
      case get_weeks (c_firstDay s) (c_year s) (c_month s) of
        None \<Rightarrow> Inl s
      | Some rows \<Rightarrow>
          Inr (cal_emit (Navigate (c_year s) (c_month s)) (s\<lparr>c_head := head_cells s, c_table := Some (day_rows E s rows)\<rparr>)))"

text \<open>Sequencing: what follows a call that threw is skipped.\<close>

definition and_then :: "cal_result \<Rightarrow> (calendar \<Rightarrow> cal_result) \<Rightarrow> cal_result" where
  "and_then r f = (case r of Inl s \<Rightarrow> Inl s | Inr s \<Rightarrow> f s)"

section \<open>The menu: \<open>_5\<close>\<close>

text \<open>\<open>td:eq(i)\<close>: a negative index counts from the end, \<open>NaN\<close> matches nothing.\<close>

definition td_eq :: "nat \<Rightarrow> int option \<Rightarrow> nat option" where
  "td_eq n i =
     (case i of
        None \<Rightarrow> None
      | Some i \<Rightarrow> let k = (if i < 0 then i + int n else i) in if 0 \<le> k \<and> k < int n then Some (nat k) else None)"

definition sel_month :: "calendar \<Rightarrow> calendar" where
  "sel_month s = s\<lparr>c_menuSel := td_eq (length (c_menuCells s)) (map_option (\<lambda>m. m - 1) (c_month s))\<rparr>"

text \<open>The twelve cells, each with its text and the one-based month in \<open>abbr\<close>.\<close>

definition menu_cells :: "string list \<Rightarrow> (string \<times> string) list" where
  "menu_cells months = map (\<lambda>i. (if i < length months then months ! i else [], show_nat (Suc i))) [0..<12]"

definition show_menu :: "calendar \<Rightarrow> calendar" where
  "show_menu s =
     (let s = s\<lparr>c_menuVisible := True\<rparr>;
          s = (if c_menuCells s = [] then s\<lparr>c_menuCells := menu_cells (c_months s)\<rparr> else s)
      in sel_month (s\<lparr>c_yearBox := show_num (c_year s)\<rparr>))"

definition hide_menu :: "calendar \<Rightarrow> calendar" where
  "hide_menu s = s\<lparr>c_menuVisible := False\<rparr>"

section \<open>The handlers: \<open>_9\<close>\<close>

text \<open>\<open>_d\<close>: the month picked in the menu and the year in its box.\<close>

definition apply_menu :: "cal_env \<Rightarrow> bool \<Rightarrow> calendar \<Rightarrow> cal_result" where
  "apply_menu E hide s =
     (let r = (if is_numeric (c_yearBox s)
               then cal_show E (s\<lparr>c_year := parseInt (c_yearBox s),
                      c_month := (case c_menuSel s of None \<Rightarrow> None | Some i \<Rightarrow> parseInt (snd (c_menuCells s ! i)))\<rparr>)
               else Inr s)
      in and_then r (\<lambda>s. Inr (if hide then hide_menu s else s)))"

text \<open>\<open>_f\<close> and \<open>_10\<close>: one year, one month on or back.\<close>

definition add_year :: "cal_env \<Rightarrow> int \<Rightarrow> calendar \<Rightarrow> cal_result" where
  "add_year E k s =
     and_then (cal_show E (s\<lparr>c_year := map_option (\<lambda>y. y + k) (c_year s)\<rparr>))
       (\<lambda>s. Inr (s\<lparr>c_yearBox := show_num (c_year s)\<rparr>))"

definition carry_month :: "int option \<Rightarrow> int option \<Rightarrow> int option \<times> int option" where
  "carry_month year month =
     (case month of
        None \<Rightarrow> (year, None)
      | Some m \<Rightarrow>
          if 12 < m then (map_option (\<lambda>y. y + 1) year, Some 1)
          else if m < 1 then (map_option (\<lambda>y. y - 1) year, Some 12)
          else (year, Some m))"

definition add_month :: "cal_env \<Rightarrow> int \<Rightarrow> calendar \<Rightarrow> cal_result" where
  "add_month E k s =
     (let (y, m) = carry_month (c_year s) (map_option (\<lambda>m. m + k) (c_month s)) in
      and_then (cal_show E (s\<lparr>c_year := y, c_month := m\<rparr>)) (\<lambda>s. Inr (sel_month s)))"

definition cell_at :: "calendar \<Rightarrow> nat \<Rightarrow> nat \<Rightarrow> cell option" where
  "cell_at s i j =
     (case c_table s of
        None \<Rightarrow> None
      | Some rows \<Rightarrow>
          if i < length rows \<and> j < length (snd (rows ! i)) then Some (snd (rows ! i) ! j) else None)"

definition has_class :: "string \<Rightarrow> cell \<Rightarrow> bool" where
  "has_class x c \<longleftrightarrow> x \<in> set (k_class c)"

text \<open>The selected mark moves to one cell of the table and leaves every other, the menu included.\<close>

definition mark_cell :: "nat \<Rightarrow> nat \<Rightarrow> (string \<times> cell list) list \<Rightarrow> (string \<times> cell list) list" where
  "mark_cell i j rows =
     map (\<lambda>(a, (k, r)). (k, map (\<lambda>(b, c).
       c\<lparr>k_class := filter (\<lambda>x. x \<noteq> ''calendar-selected'') (k_class c)
          @ (if a = i \<and> b = j then [''calendar-selected''] else [])\<rparr>) (enumerate 0 r)))
       (enumerate 0 rows)"

definition read_abbr :: "string \<Rightarrow> int option \<times> int option \<times> int option" where
  "read_abbr t =
     (let p = js_split (CHR '','') t; f = (\<lambda>i. if i < length p then parseInt (p ! i) else None)
      in (f 0, f 1, f 2))"

definition click_day :: "cal_env \<Rightarrow> nat \<Rightarrow> nat \<Rightarrow> calendar \<Rightarrow> cal_result" where
  "click_day E i j s =
     (case cell_at s i j of
        None \<Rightarrow> Inr s
      | Some c \<Rightarrow>
          if has_class ''calendar-disabled'' c then Inr s
          else
            (case read_abbr (k_abbr c) of
               (Some y, Some m, Some d) \<Rightarrow>
                 let old = c_current s;
                     new = (js_day y (m - 1) d, 0);
                     s = s\<lparr>c_table := map_option (mark_cell i j) (c_table s), c_menuSel := None, c_current := Some new\<rparr>;
                     s = cal_emit (Select new) s;
                     s = (if old = Some new then s else cal_emit (Change (Some new) old) s)
                 in if c_year s \<noteq> Some y \<or> c_month s \<noteq> Some m
                    then cal_show E (s\<lparr>c_year := Some y, c_month := Some m\<rparr>) else Inr s
             | _ \<Rightarrow> Inr s))"

definition click :: "cal_env \<Rightarrow> target \<Rightarrow> calendar \<Rightarrow> cal_result" where
  "click E t s =
     (case t of
        MenuNext \<Rightarrow> add_year E 1 s
      | NextYear \<Rightarrow> add_year E 1 s
      | MenuPrev \<Rightarrow> add_year E (-1) s
      | PrevYear \<Rightarrow> add_year E (-1) s
      | MenuMonth i \<Rightarrow> if i < length (c_menuCells s) then apply_menu E True (s\<lparr>c_menuSel := Some i\<rparr>) else Inr s
      | PrevMonth \<Rightarrow> add_month E (-1) s
      | NextMonth \<Rightarrow> add_month E 1 s
      | TitleText \<Rightarrow> Inr (if c_menuVisible s then hide_menu s else show_menu s)
      | DayCell i j \<Rightarrow> click_day E i j s
      | OtherTarget \<Rightarrow> Inr s)"

definition keypress :: "cal_env \<Rightarrow> int \<Rightarrow> calendar \<Rightarrow> cal_result" where
  "keypress E code s = (if code = 13 then apply_menu E True s else Inr s)"

text \<open>The hover mark: on every button, the title and the days that are not disabled.\<close>

definition hoverable :: "calendar \<Rightarrow> target \<Rightarrow> bool" where
  "hoverable s t =
     (case t of
        OtherTarget \<Rightarrow> False
      | DayCell i j \<Rightarrow> (case cell_at s i j of None \<Rightarrow> False | Some c \<Rightarrow> \<not> has_class ''calendar-disabled'' c)
      | _ \<Rightarrow> True)"

definition mouseover :: "target \<Rightarrow> calendar \<Rightarrow> calendar" where
  "mouseover t s = (if hoverable s t then s\<lparr>c_hover := List.insert t (c_hover s)\<rparr> else s)"

definition mouseout :: "target \<Rightarrow> calendar \<Rightarrow> calendar" where
  "mouseout t s = (if hoverable s t then s\<lparr>c_hover := removeAll t (c_hover s)\<rparr> else s)"

section \<open>\<open>$.fn.calendar\<close> and \<open>moveTo\<close>\<close>

datatype copt = OYear "int option" | OMonth "int option" | OCurrent "date option" | OFirstDay int
  | OWeeks "string list" | OMonths "string list" | OBorder bool

fun set_copt :: "copt \<Rightarrow> calendar \<Rightarrow> calendar" where
  "set_copt (OYear y) s = s\<lparr>c_year := y\<rparr>"
| "set_copt (OMonth m) s = s\<lparr>c_month := m\<rparr>"
| "set_copt (OCurrent d) s = s\<lparr>c_current := d\<rparr>"
| "set_copt (OFirstDay n) s = s\<lparr>c_firstDay := n\<rparr>"
| "set_copt (OWeeks l) s = s\<lparr>c_weeks := l\<rparr>"
| "set_copt (OMonths l) s = s\<lparr>c_months := l\<rparr>"
| "set_copt (OBorder b) s = s\<lparr>c_border := b\<rparr>"

text \<open>The defaults; the year, the month and the date are read from the clock.\<close>

definition calendar_defaults :: "cal_env \<Rightarrow> bool \<Rightarrow> calendar" where
  "calendar_defaults E shown =
     (case civil (fst (v_now E)) of (y, m, d) \<Rightarrow>
       \<lparr>c_year = Some y, c_month = Some m, c_current = Some (js_day y (m - 1) d, 0), c_firstDay = 0,
        c_weeks = [''S'', ''M'', ''T'', ''W'', ''T'', ''F'', ''S''],
        c_months = [''Jan'', ''Feb'', ''Mar'', ''Apr'', ''May'', ''Jun'', ''Jul'', ''Aug'', ''Sep'', ''Oct'', ''Nov'', ''Dec''],
        c_border = True, c_noborder = False, c_shown = shown, c_title = [], c_head = [], c_table = None,
        c_menuVisible = True, c_menuCells = [], c_menuSel = None, c_yearBox = [], c_hover = [], c_log = []\<rparr>)"

text \<open>\<open>_1\<close>: a resize redraws the menu while it is visible.\<close>

definition cal_resize :: "calendar \<Rightarrow> calendar" where
  "cal_resize s = (if c_shown s \<and> c_menuVisible s then show_menu s else s)"

definition cal_init :: "cal_env \<Rightarrow> calendar \<Rightarrow> cal_result" where
  "cal_init E s =
     (let s = (if c_border s then s else s\<lparr>c_noborder := True\<rparr>)
      in and_then (cal_show E (cal_resize s)) (\<lambda>s. Inr (hide_menu s)))"

definition cal_create :: "cal_env \<Rightarrow> bool \<Rightarrow> copt list \<Rightarrow> cal_result" where
  "cal_create E shown os = cal_init E (fold set_copt os (calendar_defaults E shown))"

definition cal_reinit :: "cal_env \<Rightarrow> copt list \<Rightarrow> calendar \<Rightarrow> cal_result" where
  "cal_reinit E os s = cal_init E (fold set_copt os s)"

text \<open>The argument of \<open>moveTo\<close>: missing, \<open>null\<close> or a date.\<close>

datatype move_arg = MoveUndefined | MoveNull | MoveDate date

definition move_to :: "cal_env \<Rightarrow> move_arg \<Rightarrow> calendar \<Rightarrow> cal_result" where
  "move_to E a s =
     (case a of
        MoveDate d \<Rightarrow>
          if v_validator E d then
            (let old = c_current s; (y, m, _) = civil (fst d) in
             and_then (cal_reinit E [OYear (Some y), OMonth (Some m), OCurrent (Some d)] s)
               (\<lambda>s. Inr (if old = Some d then s else cal_emit (Change (c_current s) old) s)))
          else Inr s
      | _ \<Rightarrow>
          (let (y, m, _) = civil (fst (v_now E)) in
           cal_reinit E ([OYear (Some y), OMonth (Some m)] @ (if a = MoveNull then [OCurrent None] else [])) s))"

section \<open>The six weeks shown\<close>

lemma year_of_ge: "year_days y < n \<Longrightarrow> y \<le> year_of n"
  using year_of_correct [of n] year_days_mono [of "year_of n + 1" y] by (cases "y \<le> year_of n") auto

lemma civil_year: "fst (civil n) = year_of n"
  by (simp add: civil_def Let_def)

definition first_safe_day :: int where
  "first_safe_day = year_days 100 + 1"

lemma safe_year:
  assumes "civil n = (y, m, d)" and "first_safe_day \<le> n"
  shows "99 < y"
  using assms year_of_ge [of 100 n] civil_year [of n] by (simp add: first_safe_day_def)

interpretation greg: day_line civil wd_ymd shift_ymd first_safe_day
proof
  fix n k :: int
  assume lo: "first_safe_day \<le> n"
  obtain y m d where c: "civil n = (y, m, d)" by (cases "civil n")
  have y: "y < 0 \<or> 99 < y" using safe_year [OF c lo] by simp
  show "wd_ymd (civil n) = n mod 7"
    using js_day_shift [OF c y, of 0] by (simp add: wd_ymd_def c week_day_def)
  show "shift_ymd (civil n) k = civil (n + k)"
    using js_day_shift [OF c y, of k] by (simp add: shift_ymd_def c)
qed

lemma month_array_days:
  assumes "101 \<le> y" "y < 275760" and "1 \<le> m" "m \<le> 12"
  shows "month_array (Some y) (Some m) = greg.days (day_no y m 1) (day_no y m (month_len y m))"
proof -
  let ?l = "month_len y m"
  have l: "28 \<le> ?l" using month_len_bounds [of m y] assms by simp
  have v: "valid_ymd y m i" if "i \<in> set [1..?l]" for i using that assms by (simp add: valid_ymd_def)
  have "civil (js_day y m 0) = (y, m, ?l)"
    using js_day_month_end [of m y] civil_day_no [of y m ?l] assms l by (simp add: valid_ymd_def)
  moreover have "(m - 1) div 12 = 0" using assms by simp
  ultimately have a: "month_array (Some y) (Some m) = map (\<lambda>i. (y, m, i)) [1..?l]"
    using assms by (simp add: month_array_def date_range_def)
  have "map (\<lambda>i. (y, m, i)) [1..?l] = map (\<lambda>i. civil (day_no y m 1 + (i - 1))) [1..?l]"
  proof (rule map_cong [OF refl])
    fix i
    assume "i \<in> set [1..?l]"
    from civil_day_no [OF v [OF this]] show "(y, m, i) = civil (day_no y m 1 + (i - 1))"
      by (simp add: day_no_def add.assoc)
  qed
  also have "\<dots> = map civil (map (\<lambda>i. day_no y m 1 + (i - 1)) [1..?l])" by (simp add: comp_def)
  also have "map (\<lambda>i. day_no y m 1 + (i - 1)) [1..?l] = [day_no y m 1..day_no y m ?l]"
  proof (rule nth_equalityI)
    show "length (map (\<lambda>i. day_no y m 1 + (i - 1)) [1..?l]) = length [day_no y m 1..day_no y m ?l]"
      by (simp add: day_no_def)
  next
    fix i
    assume "i < length (map (\<lambda>i. day_no y m 1 + (i - 1)) [1..?l])"
    then have "i < nat ?l" by simp
    then show "map (\<lambda>i. day_no y m 1 + (i - 1)) [1..?l] ! i = [day_no y m 1..day_no y m ?l] ! i"
      by (simp add: day_no_def)
  qed
  finally show ?thesis using a by (simp add: greg.days_def)
qed

text \<open>The first row of a month whose first day is \<open>a\<close> ends on the last weekday of the week.\<close>

lemma first_row_length:
  fixes a fd :: int
  assumes "0 \<le> fd" "fd \<le> 6"
  obtains f e where "1 \<le> f" "f \<le> 7" "7 dvd (a + f - e - 1)" "greg.row_last fd e" "(a + f) mod 7 = fd"
proof -
  define e where "e = (if fd = 0 then 7 else fd) - (1::int)"
  define f where "f = (e - a) mod 7 + 1"
  have f: "1 \<le> f" "f \<le> 7" unfolding f_def by presburger+
  have e: "greg.row_last fd e" using assms by (auto simp: greg.row_last_def e_def)
  have "7 dvd ((e - a) mod 7 - (e - a))" by presburger
  then have d: "7 dvd (a + f - e - 1)" unfolding f_def by (simp add: algebra_simps)
  have "(a + f) mod 7 = fd"
  proof (cases "fd = 0")
    case True
    with d show ?thesis unfolding e_def by presburger
  next
    case False
    with d have "7 dvd (a + f - fd)" by (simp add: e_def algebra_simps)
    with assms show ?thesis by (subst greg.mod7_dvd) simp_all
  qed
  with f d e show thesis by (rule that)
qed

lemma six_weeks:
  assumes "101 \<le> y" "y < 275760" and "1 \<le> m" "m \<le> 12" and "0 \<le> fd" "fd \<le> 6"
  shows "\<exists>n. get_weeks fd (Some y) (Some m) = Some (map (\<lambda>i. map civil [n + 7 * i..n + 7 * i + 6]) [0..5])
     \<and> week_day n = fd \<and> n < day_no y m 1 \<and> day_no y m 1 \<le> n + 7 \<and> day_no y m (month_len y m) \<le> n + 41"
proof -
  let ?a = "day_no y m 1" and ?l = "month_len y m"
  obtain f e where f: "1 \<le> f" "f \<le> 7" and e: "7 dvd (?a + f - e - 1)" "greg.row_last fd e" and w: "(?a + f) mod 7 = fd"
    using first_row_length [OF assms(5,6)] by blast
  have l: "28 \<le> ?l" "?l \<le> 31" using month_len_bounds [of m y] assms by simp_all
  have "year_days 101 \<le> year_days y" using assms(1) by (rule year_days_mono)
  moreover have "year_days 101 = year_days 100 + 365" by code_simp
  moreover have "0 \<le> month_days y m"
    unfolding month_days_def month_lens_def
    by (rule sum_list_nonneg) (auto dest!: in_set_takeD split: if_splits)
  ultimately have lo: "first_safe_day + 14 \<le> ?a" by (simp add: first_safe_day_def day_no_def)
  define n where "n = (if f < 7 then ?a + f - 7 else ?a - 7)"
  have d: "month_array (Some y) (Some m) = greg.days ?a (?a + ?l - 1)"
    using month_array_days [of y m] assms by (simp add: day_no_def algebra_simps)
  note t = greg.month_table [OF f e lo l]
  have "get_weeks fd (Some y) (Some m) = Some (greg.weeks_from n 6)"
    using t(1) unfolding get_weeks_def d n_def t(2) [symmetric] by (auto split: list.splits)
  moreover have "week_day n = fd"
  proof (cases "f < 7")
    case True
    then have "n + 7 = ?a + f" by (simp add: n_def)
    with w have "(n + 7) mod 7 = fd" by (simp only:)
    then show ?thesis by (simp add: week_day_def)
  next
    case False
    with f(2) have "n + 7 + 7 = ?a + f" by (simp add: n_def)
    with w have "(n + 7 + 7) mod 7 = fd" by (simp only:)
    then show ?thesis unfolding week_day_def by (simp only: mod_add_self2)
  qed
  moreover have "n < ?a" "?a \<le> n + 7" using f by (auto simp: n_def)
  moreover have "day_no y m ?l = ?a + ?l - 1" by (simp add: day_no_def)
  ultimately show ?thesis using f l
    by (intro exI [of _ n]) (simp add: greg.weeks_from_def greg.days_def n_def)
qed

text \<open>
  C16: For every month of the years 101 to 275759 and every first day of the week, the calendar
  shows six rows of seven consecutive days; each row starts on the first day of the week, the
  whole month is shown and at least one day of the month before it is.
\<close>

theorem cal_six_weeks:
  assumes "101 \<le> y" "y < 275760" and "1 \<le> m" "m \<le> 12" and "0 \<le> fd" "fd \<le> 6"
  shows "\<exists>n. get_weeks fd (Some y) (Some m) = Some (map (\<lambda>i. map civil [n + 7 * i..n + 7 * i + 6]) [0..5])
     \<and> week_day n = fd \<and> n < day_no y m 1 \<and> day_no y m 1 \<le> n + 7 \<and> day_no y m (month_len y m) \<le> n + 41"
  using assms by (rule six_weeks)

theorem cal_six_weeks_witness:
  "\<exists>n. get_weeks 1 (Some 2024) (Some 2) = Some (map (\<lambda>i. map civil [n + 7 * i..n + 7 * i + 6]) [0..5])
     \<and> week_day n = 1 \<and> n < day_no 2024 2 1 \<and> day_no 2024 2 1 \<le> n + 7
     \<and> day_no 2024 2 (month_len 2024 2) \<le> n + 41"
  by (rule cal_six_weeks) simp_all

section \<open>Cells and their dates\<close>

lemma show_int_no_comma: "CHR '','' \<notin> set (show_int i)"
proof -
  have "\<not> is_digit (CHR '','')" by code_simp
  then have "CHR '','' \<notin> set (show_nat n)" for n using show_nat_digits [of n] by blast
  then show ?thesis by (simp add: show_int_def)
qed

lemma read_abbr_ymd: "read_abbr (ymd_text (y, m, d)) = (Some y, Some m, Some d)"
proof -
  have "js_split (CHR '','') (ymd_text (y, m, d)) = [show_int y, show_int m, show_int d]"
    unfolding ymd_text_def prod.case by (rule js_split_join) (simp_all add: show_int_no_comma)
  then show ?thesis by (simp add: read_abbr_def parseInt_show_int)
qed

lemma ymd_text_inj: "ymd_text a = ymd_text b \<longleftrightarrow> a = b"
proof
  obtain y m d y' m' d' where ab: "a = (y, m, d)" "b = (y', m', d')" by (cases a; cases b) auto
  assume "ymd_text a = ymd_text b"
  then have "read_abbr (ymd_text a) = read_abbr (ymd_text b)" by simp
  then show "a = b" unfolding ab read_abbr_ymd by simp
qed simp

lemma ymd_text_not_Nil: "ymd_text a \<noteq> []"
  by (cases a) (simp add: ymd_text_def)

lemma civil_inj: "civil a = civil b \<longleftrightarrow> a = b"
proof
  assume ab: "civil a = civil b"
  obtain y m d where c: "civil a = (y, m, d)" by (cases "civil a")
  from day_no_civil [OF c] day_no_civil [OF c [unfolded ab]] show "a = b" by simp
qed simp

lemma nth_day_rows:
  assumes "i < length rows" and "j < length (rows ! i)"
  shows "snd (day_rows E s rows ! i) ! j = day_cell E s (length (rows ! i)) j (rows ! i ! j)"
    and "length (snd (day_rows E s rows ! i)) = length (rows ! i)"
  using assms by (simp_all add: day_rows_def nth_enumerate_eq)

lemma length_day_rows [simp]: "length (day_rows E s rows) = length rows"
  by (simp add: day_rows_def)

lemma length_snd_day_rows: "i < length rows \<Longrightarrow> length (snd (day_rows E s rows ! i)) = length (rows ! i)"
  by (simp add: day_rows_def nth_enumerate_eq)

lemma stages_keep [simp]:
  "c_year (drop_table s) = c_year s" "c_month (drop_table s) = c_month s" "c_firstDay (drop_table s) = c_firstDay s"
  "c_current (drop_table s) = c_current s" "c_log (drop_table s) = c_log s" "c_table (drop_table s) = None"
  "c_year (put_title s) = c_year s" "c_month (put_title s) = c_month s" "c_firstDay (put_title s) = c_firstDay s"
  "c_current (put_title s) = c_current s" "c_log (put_title s) = c_log s" "c_title (drop_table s) = c_title s"
  "c_menuCells (drop_table s) = c_menuCells s" "c_menuCells (put_title s) = c_menuCells s"
  "c_menuVisible (drop_table s) = c_menuVisible s" "c_menuVisible (put_title s) = c_menuVisible s"
  by (simp_all add: drop_table_def put_title_def)

lemma check_current_keeps [simp]:
  "c_year (check_current E s) = c_year s" "c_month (check_current E s) = c_month s"
  "c_firstDay (check_current E s) = c_firstDay s" "c_log (check_current E s) = c_log s"
  "c_menuCells (check_current E s) = c_menuCells s" "c_menuVisible (check_current E s) = c_menuVisible s"
  by (auto simp: check_current_def split: option.split)

lemma day_class_cong:
  "c_year s = c_year t \<Longrightarrow> c_month s = c_month t \<Longrightarrow> c_firstDay s = c_firstDay t \<Longrightarrow> c_current s = c_current t \<Longrightarrow>
   day_rows E s rows = day_rows E t rows"
proof -
  assume st: "c_year s = c_year t" "c_month s = c_month t" "c_firstDay s = c_firstDay t" "c_current s = c_current t"
  have "day_class E s len j c = day_class E t len j c" for len j c
    by (cases c) (simp only: day_class_def current_text_def st)
  then show ?thesis by (simp add: day_rows_def day_cell_def)
qed

text \<open>What a redraw leaves, when there are weeks to draw.\<close>

lemma cal_show_Inr:
  "cal_show E s = Inr t \<longleftrightarrow>
     (\<exists>rows. get_weeks (c_firstDay s) (c_year s) (c_month s) = Some rows \<and>
        t = (let s = drop_table (put_title (check_current E s)) in
             cal_emit (Navigate (c_year s) (c_month s)) (s\<lparr>c_head := head_cells s, c_table := Some (day_rows E s rows)\<rparr>)))"
  by (auto simp: cal_show_def Let_def split: option.split)

lemma cal_show_facts:
  assumes "cal_show E s = Inr t" and "get_weeks (c_firstDay s) (c_year s) (c_month s) = Some rows"
  shows "c_table t = Some (day_rows E t rows)" and "c_year t = c_year s" and "c_month t = c_month s"
    and "c_firstDay t = c_firstDay s" and "c_current t = c_current (check_current E s)"
    and "c_log t = c_log s @ [Navigate (c_year s) (c_month s)]"
    and "c_menuCells t = c_menuCells s"
  using assms by (auto simp: cal_show_Inr Let_def cal_emit_def intro!: day_class_cong)

definition plain_style :: "cal_env \<Rightarrow> bool" where
  "plain_style E \<longleftrightarrow> (\<forall>d. css_class (v_styler E d) = [])"

lemma day_cell_at:
  assumes "c_table s = Some (day_rows E s rows)" and "i < length rows" and "j < length (rows ! i)"
  shows "cell_at s i j = Some (day_cell E s (length (rows ! i)) j (rows ! i ! j))"
  using assms nth_day_rows [OF assms(2,3)] by (simp add: cell_at_def)

lemma disabled_class:
  assumes "plain_style E"
  shows "has_class ''calendar-disabled'' (day_cell E s len j (y, m, d)) \<longleftrightarrow> \<not> v_validator E (js_day y (m - 1) d, 0)"
  using assms by (simp add: has_class_def day_cell_def day_class_def Let_def plain_style_def)

lemma selected_class:
  assumes "plain_style E"
  shows "has_class ''calendar-selected'' (day_cell E s len j c) \<longleftrightarrow> ymd_text c = current_text s"
  using assms by (cases c) (simp add: has_class_def day_cell_def day_class_def Let_def plain_style_def)

lemma weekend_class:
  assumes "plain_style E"
  shows "has_class ''calendar-saturday'' (day_cell E s len j c) \<longleftrightarrow> int j = sat_col (c_firstDay s)"
    and "has_class ''calendar-sunday'' (day_cell E s len j c) \<longleftrightarrow>
      int j = sun_col (c_firstDay s) \<and> int j \<noteq> sat_col (c_firstDay s)"
  using assms by (cases c; simp add: has_class_def day_cell_def day_class_def Let_def plain_style_def)+

text \<open>The rows of \<open>get_weeks\<close> by their days.\<close>

lemma six_weeks_rows:
  assumes "101 \<le> y" "y < 275760" and "1 \<le> m" "m \<le> 12" and "0 \<le> fd" "fd \<le> 6"
  obtains n rows where "get_weeks fd (Some y) (Some m) = Some rows" and "length rows = 6"
    and "\<And>i. i < 6 \<Longrightarrow> length (rows ! i) = 7"
    and "\<And>i j. i < 6 \<Longrightarrow> j < 7 \<Longrightarrow> rows ! i ! j = civil (n + 7 * int i + int j)" and "n mod 7 = fd"
    and "n < day_no y m 1" and "day_no y m 1 \<le> n + 7" and "day_no y m (month_len y m) \<le> n + 41"
proof -
  obtain n where n: "get_weeks fd (Some y) (Some m) = Some (map (\<lambda>i. map civil [n + 7 * i..n + 7 * i + 6]) [0..5])"
    "week_day n = fd" "n < day_no y m 1" "day_no y m 1 \<le> n + 7" "day_no y m (month_len y m) \<le> n + 41"
    using six_weeks [OF assms] by blast
  have nth: "map (\<lambda>i. map civil [n + 7 * i..n + 7 * i + 6]) [0..5] ! i = map civil [n + 7 * int i..n + 7 * int i + 6]"
    if "i < 6" for i using that by (subst nth_map) simp_all
  show thesis
  proof (rule that [OF n(1)])
    show "length (map (\<lambda>i. map civil [n + 7 * i..n + 7 * i + 6]) [0..5]) = 6" by simp
  next
    fix i :: nat
    assume i: "i < 6"
    show "length (map (\<lambda>i. map civil [n + 7 * i..n + 7 * i + 6]) [0..5] ! i) = 7" unfolding nth [OF i] by simp
    fix j :: nat
    assume "j < 7"
    then show "map (\<lambda>i. map civil [n + 7 * i..n + 7 * i + 6]) [0..5] ! i ! j = civil (n + 7 * int i + int j)"
      unfolding nth [OF i] by simp
  qed (use n in \<open>simp_all add: week_day_def\<close>)
qed

section \<open>The invariant of the table\<close>

text \<open>
  \<open>cal_drawn\<close>: the table shows the weeks of the year and month of the options, each cell with the
  date of its place in \<open>abbr\<close> and with the classes of that date.  \<open>cal_ok\<close>: a month of the years
  the code handles and a first weekday.
\<close>

definition cal_drawn :: "cal_env \<Rightarrow> calendar \<Rightarrow> bool" where
  "cal_drawn E s \<longleftrightarrow> (\<exists>rows. get_weeks (c_firstDay s) (c_year s) (c_month s) = Some rows \<and>
     (\<exists>tab. c_table s = Some tab \<and> length tab = length rows \<and>
       (\<forall>i<length rows. length (snd (tab ! i)) = length (rows ! i) \<and>
         (\<forall>j<length (rows ! i). k_abbr (snd (tab ! i) ! j) = ymd_text (rows ! i ! j) \<and>
            set (k_class (snd (tab ! i) ! j)) = set (day_class E s (length (rows ! i)) j (rows ! i ! j))))))"

definition cal_ok :: "calendar \<Rightarrow> bool" where
  "cal_ok s \<longleftrightarrow> (\<exists>y m. c_year s = Some y \<and> c_month s = Some m \<and> 101 \<le> y \<and> y < 275760 \<and> 1 \<le> m \<and> m \<le> 12)
     \<and> 0 \<le> c_firstDay s \<and> c_firstDay s \<le> 6"

lemma cal_show_drawn: "cal_show E s = Inr t \<Longrightarrow> cal_drawn E t"
proof -
  assume t: "cal_show E s = Inr t"
  then obtain rows where r: "get_weeks (c_firstDay s) (c_year s) (c_month s) = Some rows" by (auto simp: cal_show_Inr)
  note f = cal_show_facts [OF t r]
  have r': "get_weeks (c_firstDay t) (c_year t) (c_month t) = Some rows" using r f by simp
  have c: "k_abbr (day_cell E t l j c) = ymd_text c" "k_class (day_cell E t l j c) = day_class E t l j c" for l j c
    by (cases c; simp add: day_cell_def Let_def)+
  show ?thesis
    unfolding cal_drawn_def using r' f(1)
    by (intro exI [of _ rows] exI [of _ "day_rows E t rows"]) (simp add: nth_day_rows c length_snd_day_rows)
qed

lemma day_class_fields:
  "c_year s = c_year t \<Longrightarrow> c_month s = c_month t \<Longrightarrow> c_firstDay s = c_firstDay t \<Longrightarrow> c_current s = c_current t \<Longrightarrow>
   day_class E s l j c = day_class E t l j c"
  by (cases c) (simp only: day_class_def current_text_def)

lemma cal_drawn_cong:
  "c_year s = c_year t \<Longrightarrow> c_month s = c_month t \<Longrightarrow> c_firstDay s = c_firstDay t \<Longrightarrow> c_current s = c_current t \<Longrightarrow>
   c_table s = c_table t \<Longrightarrow> cal_drawn E s = cal_drawn E t"
  unfolding cal_drawn_def using day_class_fields [of s t E] by simp

lemma length_mark [simp]: "length (mark_cell i j tab) = length tab"
  by (simp add: mark_cell_def)

lemma mark_cell_nth:
  assumes "a < length tab"
  shows "length (snd (mark_cell i j tab ! a)) = length (snd (tab ! a))"
    and "b < length (snd (tab ! a)) \<Longrightarrow> snd (mark_cell i j tab ! a) ! b = (snd (tab ! a) ! b)\<lparr>k_class :=
       filter (\<lambda>x. x \<noteq> ''calendar-selected'') (k_class (snd (tab ! a) ! b))
       @ (if a = i \<and> b = j then [''calendar-selected''] else [])\<rparr>"
  using assms by (cases "tab ! a"; simp add: mark_cell_def nth_enumerate_eq)+

text \<open>The classes of a date but for the mark of the selected one.\<close>

lemma day_class_mark:
  assumes "plain_style E" and "c_year s = c_year t" "c_month s = c_month t" "c_firstDay s = c_firstDay t"
  shows "set (day_class E t l j c) = set (day_class E s l j c) - {''calendar-selected''}
     \<union> (if ymd_text c = current_text t then {''calendar-selected''} else {})"
proof -
  have "css_class (v_styler E d) = []" for d using assms(1) unfolding plain_style_def by blast
  then show ?thesis using assms(2-4) by (cases c) (auto simp: day_class_def Let_def)
qed

lemma cal_ok_rows:
  assumes "cal_ok s" and "get_weeks (c_firstDay s) (c_year s) (c_month s) = Some rows"
  obtains n where "length rows = 6" and "\<And>i. i < 6 \<Longrightarrow> length (rows ! i) = 7"
    and "\<And>i j. i < 6 \<Longrightarrow> j < 7 \<Longrightarrow> rows ! i ! j = civil (n + 7 * int i + int j)" and "n mod 7 = c_firstDay s"
    and "first_safe_day \<le> n"
proof -
  from assms(1) obtain y m where ym: "c_year s = Some y" "c_month s = Some m" "101 \<le> y" "y < 275760" "1 \<le> m" "m \<le> 12"
    "0 \<le> c_firstDay s" "c_firstDay s \<le> 6" by (auto simp: cal_ok_def)
  obtain n where n: "length rows = 6" "\<And>i. i < 6 \<Longrightarrow> length (rows ! i) = 7"
    "\<And>i j. i < 6 \<Longrightarrow> j < 7 \<Longrightarrow> rows ! i ! j = civil (n + 7 * int i + int j)" "n mod 7 = c_firstDay s"
    "day_no y m 1 \<le> n + 7"
    using six_weeks_rows [OF ym(3-8)] assms(2) ym(1,2) by (metis option.inject)
  have "year_days 101 \<le> year_days y" using ym(3) by (rule year_days_mono)
  moreover have "year_days 101 = year_days 100 + 365" by code_simp
  moreover have "0 \<le> month_days y m"
    unfolding month_days_def month_lens_def by (rule sum_list_nonneg) (auto dest!: in_set_takeD split: if_splits)
  ultimately have "first_safe_day \<le> n" using n(5) by (simp add: first_safe_day_def day_no_def)
  with n show thesis by (intro that) auto
qed

lemma safe_day_back:
  assumes "first_safe_day \<le> k" and "civil k = (y, m, d)"
  shows "js_day y (m - 1) d = k"
  using js_day_shift [OF assms(2), of 0] safe_year [OF assms(2,1)] by simp

lemma mark_cell_drawn:
  assumes d: "cal_drawn E s" and ok: "cal_ok s" and ps: "plain_style E"
    and cell: "cell_at s i j = Some c" and abbr: "k_abbr c = ymd_text (y, m, d)"
    and t: "c_year t = c_year s" "c_month t = c_month s" "c_firstDay t = c_firstDay s"
      "c_current t = Some (js_day y (m - 1) d, z)" "c_table t = map_option (mark_cell i j) (c_table s)"
  shows "cal_drawn E t"
proof -
  obtain rows tab where r: "get_weeks (c_firstDay s) (c_year s) (c_month s) = Some rows" and tab: "c_table s = Some tab"
    "length tab = length rows" "\<And>i. i < length rows \<Longrightarrow> length (snd (tab ! i)) = length (rows ! i)"
    "\<And>i j. i < length rows \<Longrightarrow> j < length (rows ! i) \<Longrightarrow> k_abbr (snd (tab ! i) ! j) = ymd_text (rows ! i ! j) \<and>
       set (k_class (snd (tab ! i) ! j)) = set (day_class E s (length (rows ! i)) j (rows ! i ! j))"
    using d by (auto simp: cal_drawn_def)
  obtain n where n: "length rows = 6" "\<And>i. i < 6 \<Longrightarrow> length (rows ! i) = 7"
    "\<And>i j. i < 6 \<Longrightarrow> j < 7 \<Longrightarrow> rows ! i ! j = civil (n + 7 * int i + int j)" "first_safe_day \<le> n"
    using cal_ok_rows [OF ok r] by metis
  have ij: "i < 6" "j < 7" and c: "c = snd (tab ! i) ! j"
    using cell tab n(1,2) by (auto simp: cell_at_def split: if_splits)
  have "rows ! i ! j = (y, m, d)" using tab(4) [of i j] ij n(1,2) abbr c by (simp add: ymd_text_inj)
  with n(3) [OF ij] have yc: "civil (n + 7 * int i + int j) = (y, m, d)" by simp
  have "js_day y (m - 1) d = n + 7 * int i + int j"
    using n(4) by (intro safe_day_back [OF _ yc]) simp
  then have cur: "current_text t = ymd_text (civil (n + 7 * int i + int j))" by (simp add: current_text_def t(4))
  have same: "ymd_text (rows ! a ! b) = current_text t \<longleftrightarrow> a = i \<and> b = j" if "a < 6" "b < 7" for a b
  proof -
    have "ymd_text (rows ! a ! b) = current_text t \<longleftrightarrow> n + 7 * int a + int b = n + 7 * int i + int j"
      unfolding cur ymd_text_inj n(3) [OF that] civil_inj ..
    also have "\<dots> \<longleftrightarrow> a = i \<and> b = j" using that(2) ij(2) by presburger
    finally show ?thesis .
  qed
  have cls: "set (k_class (snd (mark_cell i j tab ! a) ! b)) = set (day_class E t 7 b (rows ! a ! b))"
    if ab: "a < 6" "b < 7" for a b
    using tab(2) tab(3) [of a] tab(4) [of a b] n(1,2) ab same [OF ab]
    by (subst mark_cell_nth(2)) (auto simp: day_class_mark [OF ps t(1-3) [symmetric]])
  show ?thesis
    unfolding cal_drawn_def
    by (intro exI [of _ rows] exI [of _ "mark_cell i j tab"] conjI)
      (use r tab n(1,2) t cls in \<open>auto simp: mark_cell_nth\<close>)
qed

section \<open>What the handlers do\<close>

lemma and_then_Inr: "and_then r f = Inr t \<longleftrightarrow> (\<exists>s. r = Inr s \<and> f s = Inr t)"
  by (auto simp: and_then_def split: sum.split)

lemma cal_emit_keeps [simp]:
  "c_year (cal_emit e s) = c_year s" "c_month (cal_emit e s) = c_month s" "c_firstDay (cal_emit e s) = c_firstDay s"
  "c_current (cal_emit e s) = c_current s" "c_table (cal_emit e s) = c_table s" "c_log (cal_emit e s) = c_log s @ [e]"
  "c_menuVisible (cal_emit e s) = c_menuVisible s"
  by (simp_all add: cal_emit_def)

lemma show_menu_keeps [simp]:
  "c_year (show_menu s) = c_year s" "c_month (show_menu s) = c_month s" "c_firstDay (show_menu s) = c_firstDay s"
  "c_current (show_menu s) = c_current s" "c_table (show_menu s) = c_table s" "c_log (show_menu s) = c_log s"
  by (auto simp: show_menu_def sel_month_def Let_def)

lemma hide_menu_keeps [simp]:
  "c_year (hide_menu s) = c_year s" "c_month (hide_menu s) = c_month s" "c_firstDay (hide_menu s) = c_firstDay s"
  "c_current (hide_menu s) = c_current s" "c_table (hide_menu s) = c_table s" "c_log (hide_menu s) = c_log s"
  "c_menuVisible (hide_menu s) = False"
  by (auto simp: hide_menu_def)

lemma sel_month_keeps [simp]:
  "c_year (sel_month s) = c_year s" "c_month (sel_month s) = c_month s" "c_firstDay (sel_month s) = c_firstDay s"
  "c_current (sel_month s) = c_current s" "c_table (sel_month s) = c_table s" "c_log (sel_month s) = c_log s"
  by (auto simp: sel_month_def)

lemma menu_drawn [simp]:
  "cal_drawn E (show_menu s) = cal_drawn E s" "cal_drawn E (hide_menu s) = cal_drawn E s"
  "cal_drawn E (sel_month s) = cal_drawn E s" "cal_drawn E (s\<lparr>c_yearBox := b\<rparr>) = cal_drawn E s"
  "cal_drawn E (s\<lparr>c_menuSel := k\<rparr>) = cal_drawn E s" "cal_drawn E (cal_emit e s) = cal_drawn E s"
  by (rule cal_drawn_cong; simp)+

lemma add_year_drawn: "add_year E k s = Inr t \<Longrightarrow> cal_drawn E t"
  by (auto simp: add_year_def and_then_Inr dest: cal_show_drawn)

lemma add_month_drawn: "add_month E k s = Inr t \<Longrightarrow> cal_drawn E t"
  by (auto simp: add_month_def and_then_Inr dest: cal_show_drawn split: prod.splits)

lemma apply_menu_drawn: "cal_drawn E s \<Longrightarrow> apply_menu E h s = Inr t \<Longrightarrow> cal_drawn E t"
  by (auto simp: apply_menu_def and_then_Inr Let_def dest: cal_show_drawn split: if_splits)

lemma drawn_abbr:
  assumes "cal_drawn E s" and "cell_at s i j = Some c"
  obtains rows where "get_weeks (c_firstDay s) (c_year s) (c_month s) = Some rows" and "i < length rows"
    and "j < length (rows ! i)" and "k_abbr c = ymd_text (rows ! i ! j)"
    and "set (k_class c) = set (day_class E s (length (rows ! i)) j (rows ! i ! j))"
  using assms by (fastforce simp: cal_drawn_def cell_at_def split: if_splits)

text \<open>A click on a day that is not disabled, in a table that is drawn.\<close>

lemma click_day_eq:
  assumes "cell_at s i j = Some c" and "\<not> has_class ''calendar-disabled'' c" and "k_abbr c = ymd_text (y, m, d)"
  shows "click_day E i j s =
     (let new = (js_day y (m - 1) d, 0);
          t = s\<lparr>c_table := map_option (mark_cell i j) (c_table s), c_menuSel := None, c_current := Some new,
            c_log := c_log s @ Select new # (if c_current s = Some new then [] else [Change (Some new) (c_current s)])\<rparr>
      in if c_year s = Some y \<and> c_month s = Some m then Inr t
         else cal_show E (t\<lparr>c_year := Some y, c_month := Some m\<rparr>))"
  using assms by (auto simp: click_day_def read_abbr_ymd Let_def cal_emit_def)

lemma click_day_drawn:
  assumes "cal_drawn E s" and "cal_ok s" and "plain_style E" and "click_day E i j s = Inr t"
  shows "cal_drawn E t"
proof (cases "cell_at s i j")
  case None
  with assms show ?thesis by (simp add: click_day_def)
next
  case (Some c)
  from drawn_abbr [OF assms(1) Some] obtain y m d where a: "k_abbr c = ymd_text (y, m, d)" by (metis prod_cases3)
  show ?thesis
  proof (cases "has_class ''calendar-disabled'' c")
    case True
    with Some assms show ?thesis by (simp add: click_day_def)
  next
    case False
    show ?thesis
    proof (cases "c_year s = Some y \<and> c_month s = Some m")
      case True
      with assms(4) click_day_eq [OF Some False a] have
        "c_year t = c_year s" "c_month t = c_month s" "c_firstDay t = c_firstDay s"
        "c_current t = Some (js_day y (m - 1) d, 0)" "c_table t = map_option (mark_cell i j) (c_table s)"
        by (auto simp: Let_def)
      then show ?thesis by (rule mark_cell_drawn [OF assms(1-3) Some a])
    next
      case no: False
      with assms(4) click_day_eq [OF Some False a] show ?thesis by (auto simp: Let_def dest: cal_show_drawn)
    qed
  qed
qed

text \<open>A redraw returns for a month in range, and so do creation and navigation.\<close>

lemma cal_show_returns:
  assumes "cal_ok s"
  obtains t rows where "cal_show E s = Inr t" and "get_weeks (c_firstDay s) (c_year s) (c_month s) = Some rows"
    and "c_table t = Some (day_rows E t rows)" and "c_year t = c_year s" and "c_month t = c_month s"
    and "c_firstDay t = c_firstDay s" and "c_current t = c_current (check_current E s)"
    and "c_log t = c_log s @ [Navigate (c_year s) (c_month s)]" and "c_menuCells t = c_menuCells s"
    and "cal_drawn E t"
proof -
  from assms obtain y m where ym: "c_year s = Some y" "c_month s = Some m" "101 \<le> y" "y < 275760" "1 \<le> m" "m \<le> 12"
    "0 \<le> c_firstDay s" "c_firstDay s \<le> 6" by (auto simp: cal_ok_def)
  obtain rows where r: "get_weeks (c_firstDay s) (c_year s) (c_month s) = Some rows"
    using six_weeks [OF ym(3-8)] ym(1,2) by auto
  then obtain t where t: "cal_show E s = Inr t" by (auto simp: cal_show_Inr)
  from cal_show_facts [OF t r] cal_show_drawn [OF t] t r show thesis by (intro that) auto
qed

lemma cal_init_returns:
  assumes "cal_ok s"
  obtains t where "cal_init E s = Inr t" and "cal_drawn E t" and "c_year t = c_year s" and "c_month t = c_month s"
    and "c_firstDay t = c_firstDay s" and "c_current t = c_current (check_current E s)"
    and "c_log t = c_log s @ [Navigate (c_year s) (c_month s)]" and "\<not> c_menuVisible t"
proof -
  define u where "u = cal_resize (if c_border s then s else s\<lparr>c_noborder := True\<rparr>)"
  have u: "c_year u = c_year s" "c_month u = c_month s" "c_firstDay u = c_firstDay s" "c_current u = c_current s"
    "c_log u = c_log s" by (auto simp: u_def cal_resize_def)
  have ck: "c_current (check_current E u) = c_current (check_current E s)"
    using u by (auto simp: check_current_def split: option.split)
  have "cal_ok u" using assms u by (simp add: cal_ok_def)
  from cal_show_returns [OF this, of E] obtain t where t: "cal_show E u = Inr t" "c_year t = c_year u" "c_month t = c_month u"
    "c_firstDay t = c_firstDay u" "c_current t = c_current (check_current E u)"
    "c_log t = c_log u @ [Navigate (c_year u) (c_month u)]" "cal_drawn E t" by metis
  have "cal_init E s = Inr (hide_menu t)" using t(1) by (simp add: cal_init_def Let_def u_def and_then_def)
  with t u ck show thesis by (intro that [of "hide_menu t"]) simp_all
qed

lemma add_month_returns:
  assumes "c_year s = Some y" and "c_month s = Some m" and "1 \<le> m" "m \<le> 12" and "0 \<le> c_firstDay s" "c_firstDay s \<le> 6"
    and "k = 1 \<or> k = -1" and "101 \<le> (12 * y + m - 1 + k) div 12" and "(12 * y + m - 1 + k) div 12 < 275760"
  shows "\<exists>t. add_month E k s = Inr t \<and> c_year t = Some ((12 * y + m - 1 + k) div 12)
     \<and> c_month t = Some ((12 * y + m - 1 + k) mod 12 + 1) \<and> cal_drawn E t \<and> c_firstDay t = c_firstDay s
     \<and> c_log t = c_log s @ [Navigate (c_year t) (c_month t)]"
proof -
  let ?y = "(12 * y + m - 1 + k) div 12" and ?m = "(12 * y + m - 1 + k) mod 12 + 1"
  have c: "carry_month (Some y) (Some (m + k)) = (Some ?y, Some ?m)"
  proof -
    consider "m + k = 13" | "m + k = 0" | "1 \<le> m + k" "m + k \<le> 12" using assms(3,4,7) by force
    then show ?thesis
    proof cases
      case 1
      then have e: "12 * y + m - 1 + k = 12 * (y + 1)" by simp
      show ?thesis unfolding e using 1 by (simp add: carry_month_def)
    next
      case 2
      then have e: "12 * y + m - 1 + k = 12 * (y - 1) + 11" by simp
      have "(12 * (y - 1) + 11) div 12 = y - 1" by (rule int_div_pos_eq [where r = 11]) simp_all
      moreover have "(12 * (y - 1) + 11) mod 12 = 11" by (rule int_mod_pos_eq [where q = "y - 1"]) simp_all
      ultimately show ?thesis unfolding e using 2 by (simp add: carry_month_def)
    next
      case 3
      then have "(12 * y + m - 1 + k) div 12 = y" by (intro int_div_pos_eq [where r = "m + k - 1"]) simp_all
      moreover have "(12 * y + m - 1 + k) mod 12 = m + k - 1"
        using 3 by (intro int_mod_pos_eq [where q = y]) simp_all
      ultimately show ?thesis using 3 by (simp add: carry_month_def)
    qed
  qed
  let ?s = "s\<lparr>c_year := Some ?y, c_month := Some ?m\<rparr>"
  have "0 \<le> (12 * y + m - 1 + k) mod 12" "(12 * y + m - 1 + k) mod 12 < 12" by simp_all
  then have "cal_ok ?s" using assms by (simp add: cal_ok_def)
  from cal_show_returns [OF this, of E] obtain t where t: "cal_show E ?s = Inr t" "c_year t = Some ?y" "c_month t = Some ?m"
    "c_firstDay t = c_firstDay s" "c_log t = c_log s @ [Navigate (Some ?y) (Some ?m)]" "cal_drawn E t" by auto
  have "add_month E k s = Inr (sel_month t)"
    using t(1) assms(1,2) c by (simp add: add_month_def and_then_def)
  with t show ?thesis by (intro exI [of _ "sel_month t"]) simp
qed

text \<open>A calendar to try the handlers on: 7 February 2024, with the 13th disabled.\<close>

definition sample_env :: cal_env where
  "sample_env = \<lparr>v_validator = (\<lambda>d. fst d \<noteq> day_no 2024 2 13), v_formatter = (\<lambda>d. show_int (snd (snd (civil (fst d))))),
     v_styler = (\<lambda>_. CssNone), v_now = (day_no 2024 2 7, 36000000)\<rparr>"

definition sample_calendar :: calendar where
  "sample_calendar = (case cal_create sample_env True [] of Inl s \<Rightarrow> s | Inr s \<Rightarrow> s)"

lemma sample_now: "civil (day_no 2024 2 7) = (2024, 2, 7)"
  by code_simp

lemma sample_facts:
  "c_year sample_calendar = Some 2024" "c_month sample_calendar = Some 2" "c_firstDay sample_calendar = 0"
  "cal_drawn sample_env sample_calendar" "cal_ok sample_calendar" "plain_style sample_env"
  "c_current sample_calendar = Some (day_no 2024 2 7, 0)" "\<not> c_menuVisible sample_calendar"
proof -
  define d where "d = calendar_defaults sample_env True"
  have y: "c_year d = Some 2024" "c_month d = Some 2" "c_firstDay d = 0" "c_current d = Some (js_day 2024 1 7, 0)"
    by (simp_all add: d_def calendar_defaults_def sample_env_def sample_now)
  have j: "js_day 2024 1 7 = day_no 2024 2 7" "day_no 2024 2 7 \<noteq> day_no 2024 2 13" by code_simp+
  have ok: "cal_ok d" using y by (simp add: cal_ok_def)
  from cal_init_returns [OF ok, of sample_env] obtain t where t: "cal_init sample_env d = Inr t" "cal_drawn sample_env t"
    "c_year t = c_year d" "c_month t = c_month d" "c_firstDay t = c_firstDay d"
    "c_current t = c_current (check_current sample_env d)" "\<not> c_menuVisible t" by metis
  have s: "sample_calendar = t" using t(1) by (simp add: sample_calendar_def cal_create_def d_def)
  show "c_year sample_calendar = Some 2024" "c_month sample_calendar = Some 2" "c_firstDay sample_calendar = 0"
    "cal_drawn sample_env sample_calendar" "cal_ok sample_calendar" "plain_style sample_env"
    "c_current sample_calendar = Some (day_no 2024 2 7, 0)" "\<not> c_menuVisible sample_calendar"
    unfolding s using t y ok j
    by (simp_all add: cal_ok_def plain_style_def sample_env_def css_class_def check_current_def)
qed

text \<open>
  The table never goes stale: after every click that returns, the table shows the weeks of
  the year and month of the options, every cell carries its own date, and its classes (other
  month, today, selected, weekend, disabled) are those of that date in the state reached.
\<close>

theorem cal_table_invariant:
  assumes "cal_drawn E s" and "cal_ok s" and "plain_style E" and "click E t s = Inr s'"
  shows "cal_drawn E s'"
proof (cases t)
  case (DayCell i j)
  with assms show ?thesis by (auto simp: click_def intro: click_day_drawn)
next
  case (MenuMonth i)
  have "cal_drawn E (s\<lparr>c_menuSel := Some i\<rparr>)" using assms(1) by simp
  note apply_menu_drawn [OF this]
  with MenuMonth assms show ?thesis by (simp add: click_def split: if_splits)
next
  case TitleText
  with assms show ?thesis by (auto simp: click_def split: if_splits)
qed (use assms in \<open>auto simp: click_def dest: add_year_drawn add_month_drawn\<close>)

theorem cal_table_invariant_witness:
  "\<exists>s'. click sample_env NextMonth sample_calendar = Inr s' \<and> cal_drawn sample_env s'"
proof -
  have "\<exists>s'. click sample_env NextMonth sample_calendar = Inr s'"
    using add_month_returns [of sample_calendar 2024 2 1 sample_env] sample_facts by (auto simp: click_def)
  then obtain s' where "click sample_env NextMonth sample_calendar = Inr s'" ..
  with cal_table_invariant [OF sample_facts(4,5,6) this] show ?thesis by blast
qed

section \<open>The day selected\<close>

lemma cal_year_month_row:
  assumes "cal_drawn E s" and "cal_ok s" and "cell_at s i j = Some c"
  obtains n where "j < 7" and "k_abbr c = ymd_text (civil n)" and "first_safe_day \<le> n"
    and "n mod 7 = (c_firstDay s + int j) mod 7"
    and "set (k_class c) = set (day_class E s 7 j (civil n))"
proof -
  from drawn_abbr [OF assms(1,3)] obtain rows where r: "get_weeks (c_firstDay s) (c_year s) (c_month s) = Some rows"
    "i < length rows" "j < length (rows ! i)" "k_abbr c = ymd_text (rows ! i ! j)"
    "set (k_class c) = set (day_class E s (length (rows ! i)) j (rows ! i ! j))" by metis
  from cal_ok_rows [OF assms(2) r(1)] obtain n where n: "length rows = 6" "\<And>i. i < 6 \<Longrightarrow> length (rows ! i) = 7"
    "\<And>i j. i < 6 \<Longrightarrow> j < 7 \<Longrightarrow> rows ! i ! j = civil (n + 7 * int i + int j)" "n mod 7 = c_firstDay s"
    "first_safe_day \<le> n" by metis
  have ij: "i < 6" "j < 7" using r n by auto
  have "(n + 7 * int i + int j) mod 7 = (n + int j + 7 * int i) mod 7" by (simp add: algebra_simps)
  also have "\<dots> = (n + int j) mod 7" by (rule mod_mult_self2)
  also have "\<dots> = (n mod 7 + int j) mod 7" by (simp add: mod_add_left_eq)
  finally have "(n + 7 * int i + int j) mod 7 = (c_firstDay s + int j) mod 7" by (simp only: n(4))
  with n(3) [OF ij] n(5) r(4,5) ij n(2) show thesis by (intro that [of "n + 7 * int i + int j"]) auto
qed

text \<open>
  Clicking a day that is not disabled makes it the current date, whatever month it is of:
  \<open>onSelect\<close> is told the date of the cell, \<open>onChange\<close> is told it with the old date unless they are
  equal, a day of another month moves the calendar there, and the table stays correct.
\<close>

theorem cal_click_day:
  assumes "cal_drawn E s" and "cal_ok s" and "plain_style E"
    and "cell_at s i j = Some c" and "\<not> has_class ''calendar-disabled'' c"
    and "101 \<le> y" "y < 275760" and "k_abbr c = ymd_text (y, m, d)"
  shows "\<exists>s' new. new = (js_day y (m - 1) d, 0) \<and> civil (fst new) = (y, m, d) \<and> click E (DayCell i j) s = Inr s' \<and>
     c_current s' = Some new \<and> c_year s' = Some y \<and> c_month s' = Some m \<and> cal_drawn E s' \<and>
     c_log s' = c_log s @ Select new # (if c_current s = Some new then [] else [Change (Some new) (c_current s)])
       @ (if c_year s = Some y \<and> c_month s = Some m then [] else [Navigate (Some y) (Some m)])"
proof -
  obtain n where n: "j < 7" "k_abbr c = ymd_text (civil n)" "first_safe_day \<le> n"
    "set (k_class c) = set (day_class E s 7 j (civil n))"
    using cal_year_month_row [OF assms(1,2,4)] by metis
  have cn: "civil n = (y, m, d)" using n(2) assms(8) by (simp add: ymd_text_inj)
  have js: "js_day y (m - 1) d = n" by (rule safe_day_back [OF n(3) cn])
  have "1 \<le> m" "m \<le> 12" using day_no_civil [OF cn] by (simp_all add: valid_ymd_def)
  have val: "v_validator E (n, 0)"
    using disabled_class [OF assms(3), of s 7 j y m d] assms(5) n(4) js
    by (simp add: has_class_def cn day_cell_def Let_def)
  note eq = click_day_eq [OF assms(4,5,8)]
  define t where "t = s\<lparr>c_table := map_option (mark_cell i j) (c_table s), c_menuSel := None, c_current := Some (n, 0),
     c_log := c_log s @ Select (n, 0) # (if c_current s = Some (n, 0) then [] else [Change (Some (n, 0)) (c_current s)])\<rparr>"
  show ?thesis
  proof (cases "c_year s = Some y \<and> c_month s = Some m")
    case True
    then have e: "click E (DayCell i j) s = Inr t" using eq js by (simp add: click_def t_def Let_def)
    have "cal_drawn E t" using e click_day_drawn [OF assms(1-3), of i j t] by (simp add: click_def)
    with e True js cn show ?thesis by (intro exI [of _ t] exI [of _ "(n, 0)"]) (simp add: t_def)
  next
    case False
    let ?t = "t\<lparr>c_year := Some y, c_month := Some m\<rparr>"
    have e: "click E (DayCell i j) s = cal_show E ?t" using eq js False by (auto simp: click_def t_def Let_def)
    have "cal_ok ?t" using assms(2,6,7) \<open>1 \<le> m\<close> \<open>m \<le> 12\<close> by (auto simp: cal_ok_def t_def)
    from cal_show_returns [OF this, of E] obtain u where u: "cal_show E ?t = Inr u" "c_year u = Some y" "c_month u = Some m"
      "c_current u = c_current (check_current E ?t)" "c_log u = c_log t @ [Navigate (Some y) (Some m)]" "cal_drawn E u"
      by auto
    have "c_current u = Some (n, 0)" using u(4) val by (simp add: check_current_def t_def)
    with e u False js cn show ?thesis by (intro exI [of _ u] exI [of _ "(n, 0)"]) (auto simp: t_def)
  qed
qed

lemma sample_cell: "\<exists>c. cell_at sample_calendar 1 2 = Some c \<and> k_abbr c = ymd_text (2024, 2, 6)
   \<and> \<not> has_class ''calendar-disabled'' c"
proof -
  obtain n rows where r: "get_weeks 0 (Some 2024) (Some 2) = Some rows" "length rows = 6"
    "\<And>i. i < 6 \<Longrightarrow> length (rows ! i) = 7"
    "\<And>i j. i < 6 \<Longrightarrow> j < 7 \<Longrightarrow> rows ! i ! j = civil (n + 7 * int i + int j)" "n mod 7 = 0"
    "n < day_no 2024 2 1" "day_no 2024 2 1 \<le> n + 7" "day_no 2024 2 (month_len 2024 2) \<le> n + 41"
    by (rule six_weeks_rows [of 2024 2 0]) auto
  have "day_no 2024 2 1 = 738917" by code_simp
  with r(5-7) have n: "n = 738913" by presburger
  have c9: "civil 738922 = (2024, 2, 6)" "js_day 2024 1 6 \<noteq> day_no 2024 2 13" by code_simp+
  have rc: "rows ! 1 ! 2 = (2024, 2, 6)" using r(4) [of 1 2] n c9 by simp
  obtain rows' tab where t: "get_weeks 0 (Some 2024) (Some 2) = Some rows'" "c_table sample_calendar = Some tab"
    "length tab = length rows'"
    "\<forall>i<length rows'. length (snd (tab ! i)) = length (rows' ! i) \<and>
         (\<forall>j<length (rows' ! i). k_abbr (snd (tab ! i) ! j) = ymd_text (rows' ! i ! j) \<and>
            set (k_class (snd (tab ! i) ! j)) = set (day_class sample_env sample_calendar (length (rows' ! i)) j (rows' ! i ! j)))"
    using sample_facts(4) unfolding cal_drawn_def sample_facts(1-3) by blast
  have eq: "rows' = rows" using t(1) r(1) by simp
  have k: "k_abbr (snd (tab ! 1) ! 2) = ymd_text (2024, 2, 6)"
    "set (k_class (snd (tab ! 1) ! 2)) = set (day_class sample_env sample_calendar 7 2 (2024, 2, 6))"
    "cell_at sample_calendar 1 2 = Some (snd (tab ! 1) ! 2)"
    using t r(2) r(3) [of 1] rc unfolding eq by (auto simp: cell_at_def)
  have "''calendar-disabled'' \<notin> set (day_class sample_env sample_calendar 7 2 (2024, 2, 6))"
    using disabled_class [OF sample_facts(6), of sample_calendar 7 2 2024 2 6] c9(2)
    by (simp add: has_class_def day_cell_def Let_def sample_env_def)
  with k show ?thesis by (auto simp: has_class_def)
qed

theorem cal_click_day_witness:
  "\<exists>s' new. click sample_env (DayCell 1 2) sample_calendar = Inr s' \<and> c_current s' = Some new
     \<and> civil (fst new) = (2024, 2, 6)"
proof -
  obtain c where c: "cell_at sample_calendar 1 2 = Some c" "k_abbr c = ymd_text (2024, 2, 6)"
    "\<not> has_class ''calendar-disabled'' c" using sample_cell by blast
  from cal_click_day [OF sample_facts(4,5,6) c(1,3) _ _ c(2)] show ?thesis by auto
qed

text \<open>
  The weekend columns are the weekend: in a drawn table a cell has the Saturday class exactly
  if its date is a Saturday, and the Sunday class exactly if it is a Sunday, for every first
  day of the week.
\<close>

theorem cal_weekend_columns:
  assumes "cal_drawn E s" and "cal_ok s" and "plain_style E"
    and "cell_at s i j = Some c" and "k_abbr c = ymd_text x"
  shows "(has_class ''calendar-saturday'' c \<longleftrightarrow> wd_ymd x = 6) \<and> (has_class ''calendar-sunday'' c \<longleftrightarrow> wd_ymd x = 0)"
proof -
  obtain n where n: "j < 7" "k_abbr c = ymd_text (civil n)" "first_safe_day \<le> n"
    "n mod 7 = (c_firstDay s + int j) mod 7" "set (k_class c) = set (day_class E s 7 j (civil n))"
    using cal_year_month_row [OF assms(1,2,4)] by metis
  have x: "x = civil n" using n(2) assms(5) by (simp add: ymd_text_inj)
  have wd: "wd_ymd x = (c_firstDay s + int j) mod 7" using greg.wd_at [OF n(3)] n(4) x by simp
  have fd: "0 \<le> c_firstDay s" "c_firstDay s \<le> 6" using assms(2) by (simp_all add: cal_ok_def)
  obtain y m d where ymd: "civil n = (y, m, d)" by (cases "civil n")
  have cls: "has_class ''calendar-saturday'' c \<longleftrightarrow> int j = sat_col (c_firstDay s)"
    "has_class ''calendar-sunday'' c \<longleftrightarrow> int j = sun_col (c_firstDay s) \<and> int j \<noteq> sat_col (c_firstDay s)"
    using weekend_class [OF assms(3), of s 7 j "(y, m, d)"] n(5)
    by (simp_all add: has_class_def ymd day_cell_def Let_def)
  have "sat_col (c_firstDay s) = 6 - c_firstDay s" using fd by (simp add: sat_col_def)
  moreover have "sun_col (c_firstDay s) = (if c_firstDay s = 0 then 0 else 7 - c_firstDay s)"
    using fd by (simp add: sun_col_def)
  moreover have "(c_firstDay s + int j) mod 7 = (if c_firstDay s + int j < 7 then c_firstDay s + int j else c_firstDay s + int j - 7)"
  proof -
    have "x mod 7 = (if x < 7 then x else x - 7)" if "0 \<le> x" "x < 14" for x :: int
      using that mod_pos_pos_trivial [of x 7] mod_pos_pos_trivial [of "x - 7" 7] minus_mod_self2 [of x 7] by simp
    from this [of "c_firstDay s + int j"] show ?thesis using fd n(1) by simp
  qed
  ultimately show ?thesis unfolding cls wd using fd n(1) by (auto split: if_splits)
qed

theorem cal_weekend_columns_witness:
  "\<exists>c. cell_at sample_calendar 1 2 = Some c \<and> \<not> has_class ''calendar-saturday'' c \<and> \<not> has_class ''calendar-sunday'' c"
proof -
  obtain c where c: "cell_at sample_calendar 1 2 = Some c" "k_abbr c = ymd_text (2024, 2, 6)" using sample_cell by blast
  have "wd_ymd (2024, 2, 6) = 2" by code_simp
  with cal_weekend_columns [OF sample_facts(4,5,6) c] c(1) show ?thesis by simp
qed

section \<open>Navigation\<close>

text \<open>
  The arrows move by one month and by one year: counting months from year 0, the next and the
  previous month arrows add and subtract one, across the ends of a year too; the calendar is
  redrawn and \<open>onNavigate\<close> is told the new year and month.
\<close>

theorem cal_month_arrows:
  assumes "c_year s = Some y" and "c_month s = Some m" and "1 \<le> m" "m \<le> 12" and "0 \<le> c_firstDay s" "c_firstDay s \<le> 6"
    and "(t, k) = (NextMonth, 1) \<or> (t, k) = (PrevMonth, -1)"
    and "101 \<le> (12 * y + m - 1 + k) div 12" and "(12 * y + m - 1 + k) div 12 < 275760"
  shows "\<exists>s' y' m'. click E t s = Inr s' \<and> c_year s' = Some y' \<and> c_month s' = Some m' \<and> 1 \<le> m' \<and> m' \<le> 12
     \<and> 12 * y' + m' = 12 * y + m + k \<and> cal_drawn E s' \<and> c_log s' = c_log s @ [Navigate (Some y') (Some m')]"
proof -
  let ?n = "12 * y + m - 1 + k"
  have k: "k = 1 \<or> k = -1" using assms(7) by auto
  from add_month_returns [OF assms(1-6) k assms(8,9), of E] obtain u where u: "add_month E k s = Inr u"
    "c_year u = Some (?n div 12)" "c_month u = Some (?n mod 12 + 1)" "cal_drawn E u"
    "c_log u = c_log s @ [Navigate (c_year u) (c_month u)]" by blast
  have c: "click E t s = Inr u" using assms(7) u(1) by (auto simp: click_def)
  have "12 * (?n div 12) + ?n mod 12 = ?n" by (rule mult_div_mod_eq)
  moreover have "0 \<le> ?n mod 12" "?n mod 12 < 12" by simp_all
  ultimately show ?thesis using c u by (intro exI [of _ u] exI [of _ "?n div 12"] exI [of _ "?n mod 12 + 1"]) auto
qed

theorem cal_month_arrows_witness:
  "\<exists>s' y' m'. click sample_env PrevMonth (sample_calendar\<lparr>c_month := Some 1\<rparr>) = Inr s' \<and> c_year s' = Some y'
     \<and> c_month s' = Some m' \<and> 12 * y' + m' = 12 * 2023 + 12"
  using cal_month_arrows [of "sample_calendar\<lparr>c_month := Some 1\<rparr>" 2024 1 PrevMonth "-1" sample_env] sample_facts by auto

text \<open>
  C38: A year box whose text passes \<open>isNaN\<close> but is no number to \<open>parseInt\<close>, an empty box among
  them, breaks the calendar: pressing enter sets the year to \<open>NaN\<close>, the title is redrawn, the
  table is removed and the handler throws before it hides the menu, whatever the month.
\<close>

theorem cal_blank_year_throws:
  assumes "is_numeric (c_yearBox s)" and "parseInt (c_yearBox s) = None"
  shows "\<exists>s'. keypress E 13 s = Inl s' \<and> c_year s' = None \<and> c_table s' = None \<and> c_menuVisible s' = c_menuVisible s
     \<and> ends_with '' NaN'' (c_title s') \<and> c_log s' = c_log s"
proof -
  define u where "u = s\<lparr>c_year := parseInt (c_yearBox s),
     c_month := (case c_menuSel s of None \<Rightarrow> None | Some i \<Rightarrow> parseInt (snd (c_menuCells s ! i)))\<rparr>"
  have "get_weeks (c_firstDay u) (c_year u) (c_month u) = None"
    using assms(2) by (simp add: get_weeks_def month_array_def u_def)
  then have "cal_show E u = Inl (drop_table (put_title (check_current E u)))" by (simp add: cal_show_def Let_def)
  then have k: "keypress E 13 s = Inl (drop_table (put_title (check_current E u)))"
    using assms(1) by (simp add: keypress_def apply_menu_def and_then_def u_def)
  have "c_title (drop_table (put_title (check_current E u))) =
      nth_text (c_months (check_current E u)) (map_option (\<lambda>m. m - 1) (c_month u)) @ '' NaN''"
    using assms(2) by (simp add: put_title_def drop_table_def show_num_def u_def)
  then have "ends_with '' NaN'' (c_title (drop_table (put_title (check_current E u))))" by (simp add: ends_with_def)
  with k assms(2) show ?thesis
    by (intro exI [of _ "drop_table (put_title (check_current E u))"]) (simp add: u_def)
qed

theorem cal_blank_year_throws_witness:
  "\<exists>s'. keypress sample_env 13 (sample_calendar\<lparr>c_yearBox := ''''\<rparr>) = Inl s' \<and> c_table s' = None"
proof -
  have "is_numeric ''''" and "parseInt '''' = None" by code_simp+
  then show ?thesis using cal_blank_year_throws [of "sample_calendar\<lparr>c_yearBox := ''''\<rparr>" sample_env] by auto
qed

text \<open>
  \<open>moveTo\<close> a date the validator refuses does nothing; to one it accepts, of a year in range,
  the calendar shows that month with that date current, the menu is hidden, and \<open>onChange\<close> is
  told after \<open>onNavigate\<close>, unless the date was current already.
\<close>

theorem cal_move_to:
  assumes "civil (fst d) = (y, m, e)" and "101 \<le> y" "y < 275760" and "0 \<le> c_firstDay s" "c_firstDay s \<le> 6"
  shows "if v_validator E d then \<exists>s'. move_to E (MoveDate d) s = Inr s' \<and> c_current s' = Some d \<and> c_year s' = Some y
       \<and> c_month s' = Some m \<and> cal_drawn E s' \<and> \<not> c_menuVisible s'
       \<and> c_log s' = c_log s @ Navigate (Some y) (Some m)
           # (if c_current s = Some d then [] else [Change (Some d) (c_current s)])
     else move_to E (MoveDate d) s = Inr s"
proof (cases "v_validator E d")
  case False
  then show ?thesis by (simp add: move_to_def)
next
  case True
  let ?s = "fold set_copt [OYear (Some y), OMonth (Some m), OCurrent (Some d)] s"
  have m: "1 \<le> m" "m \<le> 12" using day_no_civil [OF assms(1)] by (simp_all add: valid_ymd_def)
  then have "cal_ok ?s" using assms by (simp add: cal_ok_def)
  from cal_init_returns [OF this, of E] obtain t where t: "cal_init E ?s = Inr t" "cal_drawn E t" "c_year t = Some y"
    "c_month t = Some m" "c_current t = c_current (check_current E ?s)" "c_log t = c_log s @ [Navigate (Some y) (Some m)]"
    "\<not> c_menuVisible t" by auto
  have cur: "c_current t = Some d" using t(5) True by (simp add: check_current_def)
  have mv: "move_to E (MoveDate d) s = Inr (if c_current s = Some d then t else cal_emit (Change (Some d) (c_current s)) t)"
    using True assms(1) t(1) cur by (simp add: move_to_def cal_reinit_def and_then_def Let_def)
  show ?thesis using True mv t cur by (auto simp: Let_def)
qed

theorem cal_move_to_witness:
  "\<exists>s'. move_to sample_env (MoveDate (day_no 2025 3 1, 0)) sample_calendar = Inr s'
     \<and> c_current s' = Some (day_no 2025 3 1, 0) \<and> c_year s' = Some 2025"
proof -
  have "civil (day_no 2025 3 1) = (2025, 3, 1)" "day_no 2025 3 1 \<noteq> day_no 2024 2 13" by code_simp+
  then show ?thesis
    using cal_move_to [of "(day_no 2025 3 1, 0)" 2025 3 1 sample_calendar sample_env] sample_facts(3)
    by (auto simp: sample_env_def)
qed

end
