(* ===== verification/Js_Value.thy ===== *)
theory Js_Value
  imports Js_Num
begin

text \<open>
  The values a row holds, and the operators of the language the widgets apply to them: \<open>==\<close> with
  its conversions, the order \<open><\<close> of the default sorter, truthiness, and the text a value has when
  it is joined into markup.  Numbers are integers; a string is compared with a number by the exact
  value of its numeric literal, so a text such as \<open>"1.50"\<close> keeps its place between 1 and 2.
\<close>

datatype jsval = VUndef | VNull | VBool bool | VNum int | VStr string

section \<open>Numeric literals\<close>

text \<open>
  The value of a numeric text as \<open>m * 10 ^ e\<close>; the empty text is 0, \<open>None\<close> is \<open>NaN\<close> (an infinite
  literal is not modelled and reads as \<open>NaN\<close>).
\<close>

definition all_digits :: "string \<Rightarrow> bool" where
  "all_digits s \<longleftrightarrow> list_all is_digit s"

definition exponent_val :: "string \<Rightarrow> int option" where
  "exponent_val s =
     (case s of
        [] \<Rightarrow> Some 0
      | c # cs \<Rightarrow>
          if c = CHR ''e'' \<or> c = CHR ''E'' then
            (case cs of
               [] \<Rightarrow> None
             | x # xs \<Rightarrow>
                 let ds = (if x = CHR ''-'' \<or> x = CHR ''+'' then xs else cs)
                 in if ds = [] \<or> \<not> all_digits ds then None
                    else Some ((if x = CHR ''-'' then -1 else 1) * int (read_digits 0 ds)))
          else None)"

definition decimal_val :: "string \<Rightarrow> (int \<times> int) option" where
  "decimal_val s =
     (let (w, r) = digits_then s;
          (f, r') = (case r of c # cs \<Rightarrow> if c = CHR ''.'' then digits_then cs else ([], r) | [] \<Rightarrow> ([], []))
      in if w = [] \<and> f = [] then None
         else map_option (\<lambda>e. (int (read_digits 0 (w @ f)), e - int (length f))) (exponent_val r'))"

definition literal_val :: "string \<Rightarrow> (int \<times> int) option" where
  "literal_val s =
     (case js_trim s of
        [] \<Rightarrow> Some (0, 0)
      | c # cs \<Rightarrow>
          if hex_prefix (c # cs) then
            (if drop 1 cs \<noteq> [] \<and> list_all (\<lambda>x. hex_val x \<noteq> None) (drop 1 cs)
             then Some (int (read_hex 0 (drop 1 cs)), 0) else None)
          else if c = CHR ''-'' then map_option (\<lambda>(m, e). (- m, e)) (decimal_val cs)
          else if c = CHR ''+'' then decimal_val cs
          else decimal_val (c # cs))"

text \<open>\<open>Number(v)\<close>: the number an operator sees.\<close>

definition to_number :: "jsval \<Rightarrow> (int \<times> int) option" where
  "to_number v =
     (case v of
        VUndef \<Rightarrow> None
      | VNull \<Rightarrow> Some (0, 0)
      | VBool b \<Rightarrow> Some (if b then 1 else 0, 0)
      | VNum i \<Rightarrow> Some (i, 0)
      | VStr s \<Rightarrow> literal_val s)"

text \<open>Two numbers brought to one exponent, so that they compare as integers.\<close>

definition scale :: "int \<times> int \<Rightarrow> int \<times> int \<Rightarrow> int \<times> int" where
  "scale x y = (let e = min (snd x) (snd y)
     in (fst x * 10 ^ nat (snd x - e), fst y * 10 ^ nat (snd y - e)))"

definition num_rel :: "(int \<Rightarrow> int \<Rightarrow> bool) \<Rightarrow> jsval \<Rightarrow> jsval \<Rightarrow> bool" where
  "num_rel r a b =
     (case (to_number a, to_number b) of
        (Some x, Some y) \<Rightarrow> (case scale x y of (p, q) \<Rightarrow> r p q)
      | _ \<Rightarrow> False)"

section \<open>Operators\<close>

definition nullish :: "jsval \<Rightarrow> bool" where
  "nullish v \<longleftrightarrow> v = VUndef \<or> v = VNull"

text \<open>\<open>a == b\<close>.\<close>

definition loose_eq :: "jsval \<Rightarrow> jsval \<Rightarrow> bool" where
  "loose_eq a b =
     (if nullish a \<or> nullish b then nullish a \<and> nullish b
      else case (a, b) of
        (VStr s, VStr t) \<Rightarrow> s = t
      | _ \<Rightarrow> num_rel (=) a b)"

text \<open>\<open>a > b\<close>: by code units when both are strings.\<close>

fun str_less :: "string \<Rightarrow> string \<Rightarrow> bool" where
  "str_less s [] = False"
| "str_less [] (c # cs) = True"
| "str_less (c # cs) (d # ds) =
     (of_char c < (of_char d :: nat) \<or> c = d \<and> str_less cs ds)"

definition js_greater :: "jsval \<Rightarrow> jsval \<Rightarrow> bool" where
  "js_greater a b =
     (case (a, b) of
        (VStr s, VStr t) \<Rightarrow> str_less t s
      | _ \<Rightarrow> num_rel (\<lambda>p q. q < p) a b)"

definition truthy :: "jsval \<Rightarrow> bool" where
  "truthy v =
     (case v of VUndef \<Rightarrow> False | VNull \<Rightarrow> False | VBool b \<Rightarrow> b | VNum i \<Rightarrow> i \<noteq> 0 | VStr s \<Rightarrow> s \<noteq> [])"

text \<open>
  A value as text: \<open>String(v)\<close>, and as an element of \<open>join\<close>, where \<open>undefined\<close> and \<open>null\<close> are
  the empty text.
\<close>

definition js_string :: "jsval \<Rightarrow> string" where
  "js_string v =
     (case v of VUndef \<Rightarrow> ''undefined'' | VNull \<Rightarrow> ''null'' | VBool b \<Rightarrow> if b then ''true'' else ''false''
      | VNum i \<Rightarrow> show_int i | VStr s \<Rightarrow> s)"

definition join_text :: "jsval \<Rightarrow> string" where
  "join_text v = (if nullish v then [] else js_string v)"

section \<open>Keys of one kind\<close>

text \<open>Values that \<open>==\<close> tells apart exactly: all numbers, or all strings.\<close>

definition kind :: "bool \<Rightarrow> jsval set" where
  "kind num = (if num then range VNum else range VStr)"

lemma scale_plain: "scale (x, 0) (y, 0) = (x, y)"
  by (simp add: scale_def)

lemma loose_eq_num [simp]: "loose_eq (VNum i) (VNum j) \<longleftrightarrow> i = j"
  by (simp add: loose_eq_def nullish_def num_rel_def to_number_def scale_plain)

lemma loose_eq_str [simp]: "loose_eq (VStr s) (VStr t) \<longleftrightarrow> s = t"
  by (simp add: loose_eq_def nullish_def)

lemma loose_eq_kind: "a \<in> kind b \<Longrightarrow> c \<in> kind b \<Longrightarrow> loose_eq a c \<longleftrightarrow> a = c"
  by (auto simp: kind_def split: if_splits)

lemma js_greater_num [simp]: "js_greater (VNum i) (VNum j) \<longleftrightarrow> j < i"
  by (simp add: js_greater_def num_rel_def to_number_def scale_plain)

lemma js_greater_str [simp]: "js_greater (VStr s) (VStr t) \<longleftrightarrow> str_less t s"
  by (simp add: js_greater_def)

lemma str_less_trans: "str_less a b \<Longrightarrow> str_less b u \<Longrightarrow> str_less a u"
proof (induction a b arbitrary: u rule: str_less.induct)
  case (2 c cs)
  then show ?case by (cases u) auto
next
  case (3 c cs d ds)
  then show ?case by (cases u) (auto simp del: of_char_eq_iff)
qed simp

lemma str_less_irrefl: "\<not> str_less a a"
  by (induction a) auto

lemma str_less_linear: "str_less a b \<or> a = b \<or> str_less b a"
proof (induction a b rule: str_less.induct)
  case (3 c cs d ds)
  have "of_char c = (of_char d :: nat) \<Longrightarrow> c = d" by simp
  with 3 show ?case by (cases "of_char c < (of_char d :: nat)"; cases "of_char d < (of_char c :: nat)") auto
next
  case (1 s)
  then show ?case by (cases s) auto
qed auto

text \<open>The comparison the grid sorts by when a column has none of its own (jquery.datagrid.js, 1033-1035).\<close>

definition default_sorter :: "jsval \<Rightarrow> jsval \<Rightarrow> int" where
  "default_sorter a b = (if loose_eq a b then 0 else if js_greater a b then 1 else -1)"

lemma default_sorter_kind:
  assumes "a \<in> kind k" "b \<in> kind k" "c \<in> kind k"
  shows "default_sorter a b = - default_sorter b a"
    and "default_sorter a b \<le> 0 \<Longrightarrow> default_sorter b c \<le> 0 \<Longrightarrow> default_sorter a c \<le> 0"
proof -
  show "default_sorter a b = - default_sorter b a"
  proof (cases k)
    case True
    with assms show ?thesis by (auto simp: kind_def default_sorter_def)
  next
    case False
    then obtain s t where "a = VStr s" "b = VStr t" using assms by (auto simp: kind_def)
    then show ?thesis
      using str_less_linear [of s t] str_less_trans [of s t s] str_less_irrefl [of s]
      by (auto simp: default_sorter_def)
  qed
  show "default_sorter a b \<le> 0 \<Longrightarrow> default_sorter b c \<le> 0 \<Longrightarrow> default_sorter a c \<le> 0"
  proof (cases k)
    case True
    with assms show "default_sorter a b \<le> 0 \<Longrightarrow> default_sorter b c \<le> 0 \<Longrightarrow> default_sorter a c \<le> 0"
      by (auto simp: kind_def default_sorter_def split: if_splits)
  next
    case False
    then obtain s t u where "a = VStr s" "b = VStr t" "c = VStr u" using assms by (auto simp: kind_def)
    then show "default_sorter a b \<le> 0 \<Longrightarrow> default_sorter b c \<le> 0 \<Longrightarrow> default_sorter a c \<le> 0"
      using str_less_linear [of s t] str_less_linear [of t u] str_less_trans [of u t s] str_less_trans [of u s t]
        str_less_trans [of t u s] str_less_irrefl [of s]
      by (auto simp: default_sorter_def split: if_splits)
  qed
qed

end
