(* ===== verification/Pagination.thy ===== *)
theory Pagination
  imports Js_Num
begin

text \<open>
  The pager, \<open>js/plugins/jquery.pagination.js\<close>: the toolbar it builds from its layout (\<open>_1\<close>), the
  refresh that clamps the page number and redraws everything (\<open>_14\<close>), page selection (\<open>_10\<close>), the
  loading flag (\<open>_1d\<close>), the navigation handlers of its defaults and its methods.

  A pager is its options, the elements it has built and what they show.  A page callback is an
  entry of the log; \<open>onBeforeRefresh\<close>, whose result the code tests, is a parameter.
\<close>

section \<open>State\<close>

datatype pbutton = ButtonSep | Button string

datatype pbuttons = NoButtons | ButtonArray "pbutton list" | ButtonMarkup string

datatype pcell = TdList "string list" | TdSep | TdNav string | TdBefore string | TdNum | TdAfter | TdLinks
  | TdButton string | TdMarkup string

datatype pevent = SelectPage jnum jnum | ChangePageSize jnum | Refreshed jnum jnum

record pager =
  p_total :: jnum
  p_pageSize :: jnum
  p_pageNumber :: jnum
  p_pageList :: "int list"
  p_loading :: bool
  p_buttons :: pbuttons
  p_showPageList :: bool
  p_showRefresh :: bool
  p_links :: int
  p_layout :: "string list"
  p_beforePageText :: string
  p_afterPageText :: string
  p_displayMsg :: string
  p_tds :: "pcell list"
  p_bb :: "string list"
  p_psVal :: "string option"
  p_num :: string
  p_after :: string
  p_linkItems :: "(int \<times> bool) list"
  p_info :: string
  p_disabled :: "string \<Rightarrow> bool"
  p_refreshIcon :: string
  p_log :: "pevent list"

definition pagination_defaults :: pager where
  "pagination_defaults =
     \<lparr>p_total = Fin 1, p_pageSize = Fin 10, p_pageNumber = Fin 1, p_pageList = [10, 20, 30, 50],
      p_loading = False, p_buttons = NoButtons, p_showPageList = True, p_showRefresh = True, p_links = 10,
      p_layout = [''list'', ''sep'', ''first'', ''prev'', ''sep'', ''manual'', ''sep'', ''next'', ''last'',
        ''sep'', ''refresh''],
      p_beforePageText = ''Page'', p_afterPageText = ''of {pages}'',
      p_displayMsg = ''Displaying {from} to {to} of {total} items'',
      p_tds = [], p_bb = [], p_psVal = None, p_num = '''', p_after = '''', p_linkItems = [], p_info = '''',
      p_disabled = (\<lambda>_. False), p_refreshIcon = '''', p_log = []\<rparr>"

text \<open>The options a caller hands over, merged by \<open>$.extend\<close>.\<close>

datatype popt = OTotal jnum | OPageSize jnum | OPageNumber jnum | OPageList "int list" | OLoading bool
  | OShowPageList bool | OShowRefresh bool | OLinks int | OLayout "string list" | OButtons pbuttons

fun set_popt :: "popt \<Rightarrow> pager \<Rightarrow> pager" where
  "set_popt (OTotal n) s = s\<lparr>p_total := n\<rparr>"
| "set_popt (OPageSize n) s = s\<lparr>p_pageSize := n\<rparr>"
| "set_popt (OPageNumber n) s = s\<lparr>p_pageNumber := n\<rparr>"
| "set_popt (OPageList l) s = s\<lparr>p_pageList := l\<rparr>"
| "set_popt (OLoading b) s = s\<lparr>p_loading := b\<rparr>"
| "set_popt (OShowPageList b) s = s\<lparr>p_showPageList := b\<rparr>"
| "set_popt (OShowRefresh b) s = s\<lparr>p_showRefresh := b\<rparr>"
| "set_popt (OLinks n) s = s\<lparr>p_links := n\<rparr>"
| "set_popt (OLayout l) s = s\<lparr>p_layout := l\<rparr>"
| "set_popt (OButtons b) s = s\<lparr>p_buttons := b\<rparr>"

definition extend_popts :: "popt list \<Rightarrow> pager \<Rightarrow> pager" where
  "extend_popts os s = fold set_popt os s"

section \<open>Building the toolbar: \<open>_1\<close>\<close>

definition remove_first :: "string \<Rightarrow> string list \<Rightarrow> string list" where
  "remove_first x aa = (case in_array x aa of None \<Rightarrow> aa | Some i \<Rightarrow> splice_del i aa)"

text \<open>The layout after \<open>list\<close> and \<open>refresh\<close> are dropped and a separator at either end is.\<close>

definition pg_layout :: "pager \<Rightarrow> string list" where
  "pg_layout s =
     (let aa = p_layout s;
          aa = (if p_showPageList s then aa else remove_first ''list'' aa);
          aa = (if p_showRefresh s then aa else remove_first ''refresh'' aa);
          aa = (case aa of [] \<Rightarrow> [] | x # xs \<Rightarrow> if x = ''sep'' then xs else aa)
      in if aa \<noteq> [] \<and> last aa = ''sep'' then butlast aa else aa)"

text \<open>One item of the layout: its cells and the elements kept in \<open>bb\<close>.\<close>

definition build_item :: "pager \<Rightarrow> string \<Rightarrow> pcell list \<times> string list" where
  "build_item s x =
     (if x = ''list'' then ([TdList (map show_int (p_pageList s))], [])
      else if x = ''sep'' then ([TdSep], [])
      else if x = ''first'' \<or> x = ''prev'' \<or> x = ''next'' \<or> x = ''last'' then ([TdNav x], [x])
      else if x = ''manual'' then ([TdBefore (p_beforePageText s), TdNum, TdAfter], [''num'', ''after''])
      else if x = ''refresh'' then ([TdNav x], [x])
      else if x = ''links'' then ([TdLinks], [])
      else ([], []))"

definition build_buttons :: "pbuttons \<Rightarrow> pcell list" where
  "build_buttons b =
     (case b of
        NoButtons \<Rightarrow> []
      | ButtonArray bs \<Rightarrow> TdSep # map (\<lambda>x. case x of ButtonSep \<Rightarrow> TdSep | Button n \<Rightarrow> TdButton n) bs
      | ButtonMarkup m \<Rightarrow> [TdSep, TdMarkup m])"

text \<open>The options of the first page list among the cells; a new \<open>select\<close> shows its first option.\<close>

definition pg_page_list :: "pcell list \<Rightarrow> string list option" where
  "pg_page_list ts =
     (case List.map_filter (\<lambda>t. case t of TdList l \<Rightarrow> Some l | _ \<Rightarrow> None) ts of [] \<Rightarrow> None | l # _ \<Rightarrow> Some l)"

definition pg_build :: "pager \<Rightarrow> pager" where
  "pg_build s =
     (let items = map (build_item s) (pg_layout s) in
      s\<lparr>p_tds := concat (map fst items) @ build_buttons (p_buttons s),
        p_bb := concat (map snd items),
        p_psVal := (case pg_page_list (concat (map fst items)) of Some (v # _) \<Rightarrow> Some v | _ \<Rightarrow> None),
        p_num := ''1'', p_after := '''', p_linkItems := [], p_info := '''',
        p_disabled := (\<lambda>_. False), p_refreshIcon := ''pagination-refresh''\<rparr>)"

section \<open>Loading flag: \<open>_1d\<close>\<close>

definition pg_loading :: "bool \<Rightarrow> pager \<Rightarrow> pager" where
  "pg_loading b s =
     (let s = s\<lparr>p_loading := b\<rparr> in
      if p_showRefresh s \<and> ''refresh'' \<in> set (p_bb s)
      then s\<lparr>p_refreshIcon := (if p_loading s then ''pagination-loading'' else ''pagination-load'')\<rparr>
      else s)"

section \<open>Refresh: \<open>_14\<close>\<close>

text \<open>
  The page size goes through the \<open>select\<close> element: \<open>val(x)\<close> of a text no option has selects
  nothing, \<open>val()\<close> then gives \<open>null\<close> and \<open>parseInt(null)\<close> is \<open>NaN\<close>.
\<close>

definition select_val :: "string \<Rightarrow> string list \<Rightarrow> string option" where
  "select_val v l = (if v \<in> set l then Some v else None)"

definition sync_size :: "pager \<Rightarrow> pager" where
  "sync_size s =
     (case pg_page_list (p_tds s) of
        None \<Rightarrow> s
      | Some l \<Rightarrow>
          let v = select_val (show_jnum (p_pageSize s)) l
          in s\<lparr>p_psVal := v, p_pageSize := (case v of None \<Rightarrow> NaN | Some t \<Rightarrow> jnum_of (parseInt t))\<rparr>)"

definition pg_pages :: "pager \<Rightarrow> jnum" where
  "pg_pages s = jor (jceil_div (p_total s) (p_pageSize s)) (Fin 1)"

text \<open>The clamped page number and the number of pages shown.\<close>

definition pg_clamp :: "pager \<Rightarrow> jnum \<times> jnum" where
  "pg_clamp s =
     (let pages = pg_pages s;
          n = p_pageNumber s;
          n = (if jless n (Fin 1) then Fin 1 else n);
          n = (if jless pages n then pages else n)
      in if jeq (p_total s) (Fin 0) then (Fin 0, Fin 0) else (n, pages))"

text \<open>The window of page links around page \<open>n\<close>.\<close>

definition link_window :: "jnum \<Rightarrow> jnum \<Rightarrow> int \<Rightarrow> jnum \<times> jnum" where
  "link_window n pages links =
     (let a = jminus n (Fin (links div 2));
          a = (if jless a (Fin 1) then Fin 1 else a);
          b = jminus (jplus a (Fin links)) (Fin 1);
          b = (if jless pages b then pages else b);
          a = jplus (jminus b (Fin links)) (Fin 1);
          a = (if jless a (Fin 1) then Fin 1 else a)
      in (a, b))"

definition link_items :: "jnum \<Rightarrow> jnum \<times> jnum \<Rightarrow> (int \<times> bool) list" where
  "link_items n w =
     (case w of (Fin a, Fin b) \<Rightarrow> map (\<lambda>i. (i, Fin i = n)) [a..b] | _ \<Rightarrow> [])"

text \<open>The first and the last record shown, and the message about them.\<close>

definition info_from :: "pager \<Rightarrow> jnum" where
  "info_from s =
     (if jeq (p_total s) (Fin 0) then Fin 0
      else jplus (jtimes (p_pageSize s) (jminus (p_pageNumber s) (Fin 1))) (Fin 1))"

definition info_to :: "pager \<Rightarrow> jnum" where
  "info_to s = jmin (jtimes (p_pageSize s) (p_pageNumber s)) (p_total s)"

definition info_text :: "pager \<Rightarrow> string" where
  "info_text s =
     (let m = js_replace ''{from}'' (show_jnum (info_from s)) (p_displayMsg s);
          m = js_replace ''{to}'' (show_jnum (info_to s)) m
      in js_replace ''{total}'' (show_jnum (p_total s)) m)"

definition nav_disabled :: "pager \<Rightarrow> jnum \<Rightarrow> string \<Rightarrow> bool" where
  "nav_disabled s pages x =
     (if x \<in> set (p_bb s) then
        (if x = ''first'' \<or> x = ''prev'' then \<not> jtruthy (p_total s) \<or> jeq (p_pageNumber s) (Fin 1)
         else if x = ''next'' \<or> x = ''last'' then jeq (p_pageNumber s) pages
         else p_disabled s x)
      else p_disabled s x)"

text \<open>The redraws of \<open>_14\<close>, each of one part of the toolbar.\<close>

definition put_num :: "pager \<Rightarrow> pager" where
  "put_num s = (if ''num'' \<in> set (p_bb s) then s\<lparr>p_num := show_jnum (p_pageNumber s)\<rparr> else s)"

definition put_after :: "jnum \<Rightarrow> pager \<Rightarrow> pager" where
  "put_after pages s =
     (if ''after'' \<in> set (p_bb s)
      then s\<lparr>p_after := js_replace ''{pages}'' (show_jnum pages) (p_afterPageText s)\<rparr> else s)"

definition put_links :: "jnum \<Rightarrow> pager \<Rightarrow> pager" where
  "put_links pages s =
     (if TdLinks \<in> set (p_tds s)
      then s\<lparr>p_linkItems := link_items (p_pageNumber s) (link_window (p_pageNumber s) pages (p_links s))\<rparr>
      else s)"

definition put_info :: "pager \<Rightarrow> pager" where
  "put_info s = s\<lparr>p_info := info_text s\<rparr>"

definition put_disabled :: "jnum \<Rightarrow> pager \<Rightarrow> pager" where
  "put_disabled pages s = s\<lparr>p_disabled := nav_disabled s pages\<rparr>"

definition pg_refresh :: "popt list \<Rightarrow> pager \<Rightarrow> pager" where
  "pg_refresh os s =
     (let s = sync_size (extend_popts os s); (n, pages) = pg_clamp s; s = s\<lparr>p_pageNumber := n\<rparr>;
          s = put_disabled pages (put_info (put_links pages (put_after pages (put_num s))))
      in pg_loading (p_loading s) s)"

section \<open>Selecting a page: \<open>_10\<close>, and the events of the toolbar\<close>

definition pg_emit :: "pevent \<Rightarrow> pager \<Rightarrow> pager" where
  "pg_emit e s = s\<lparr>p_log := p_log s @ [e]\<rparr>"

definition pg_select :: "jnum \<Rightarrow> pager \<Rightarrow> pager" where
  "pg_select n s =
     (let s = pg_refresh [OPageNumber n] s in pg_emit (SelectPage (p_pageNumber s) (p_pageSize s)) s)"

text \<open>\<open>change\<close> of the page list, whose new value is the text \<open>v\<close>.\<close>

definition pg_change_size :: "string \<Rightarrow> pager \<Rightarrow> pager" where
  "pg_change_size v s =
     (let s = s\<lparr>p_pageSize := jnum_of (parseInt v)\<rparr>;
          s = pg_emit (ChangePageSize (p_pageSize s)) s
      in pg_select (p_pageNumber s) s)"

text \<open>\<open>keydown\<close> in the page number box, which holds the text \<open>v\<close>.\<close>

definition pg_keydown :: "int \<Rightarrow> string \<Rightarrow> pager \<Rightarrow> pager" where
  "pg_keydown code v s =
     (if code = 13 then pg_select (jor (jnum_of (parseInt v)) (Fin 1)) s else s)"

text \<open>The handlers of \<open>nav\<close>; \<open>allow\<close> is the result of \<open>onBeforeRefresh\<close>, false to veto.\<close>

definition pg_nav :: "(jnum \<Rightarrow> jnum \<Rightarrow> bool) \<Rightarrow> string \<Rightarrow> pager \<Rightarrow> pager" where
  "pg_nav allow x s =
     (let n = p_pageNumber s; pages = jceil_div (p_total s) (p_pageSize s) in
      if x = ''first'' then (if jless (Fin 1) n then pg_select (Fin 1) s else s)
      else if x = ''prev'' then (if jless (Fin 1) n then pg_select (jminus n (Fin 1)) s else s)
      else if x = ''next'' then (if jless n pages then pg_select (jplus n (Fin 1)) s else s)
      else if x = ''last'' then (if jless n pages then pg_select pages s else s)
      else if x = ''refresh'' then
        (if allow n (p_pageSize s)
         then (let s = pg_select n s in pg_emit (Refreshed (p_pageNumber s) (p_pageSize s)) s)
         else s)
      else s)"

text \<open>A click on page link \<open>i\<close>; the link of the current page has no handler.\<close>

definition pg_link :: "int \<Rightarrow> pager \<Rightarrow> pager" where
  "pg_link i s = (if (i, False) \<in> set (p_linkItems s) then pg_select (Fin i) s else s)"

text \<open>\<open>$.fn.pagination\<close> with an options object: on a new element the defaults come first.\<close>

definition pg_create :: "popt list \<Rightarrow> pager" where
  "pg_create os = pg_refresh [] (pg_build (extend_popts os pagination_defaults))"

definition pg_reinit :: "popt list \<Rightarrow> pager \<Rightarrow> pager" where
  "pg_reinit os s = pg_refresh [] (pg_build (extend_popts os s))"

text \<open>The methods.\<close>

datatype pmethod = MLoading | MLoaded | MRefresh "popt list" | MSelect jnum

fun pg_method :: "pmethod \<Rightarrow> pager \<Rightarrow> pager" where
  "pg_method MLoading s = pg_loading True s"
| "pg_method MLoaded s = pg_loading False s"
| "pg_method (MRefresh os) s = pg_refresh os s"
| "pg_method (MSelect n) s = pg_select n s"

section \<open>What a refresh leaves\<close>

lemma extend_Nil [simp]: "extend_popts [] s = s"
  by (simp add: extend_popts_def)

lemma extend_Cons [simp]: "extend_popts (x # xs) s = extend_popts xs (set_popt x s)"
  by (simp add: extend_popts_def)

lemma sync_size_keeps [simp]:
  "p_total (sync_size s) = p_total s" "p_pageNumber (sync_size s) = p_pageNumber s"
  "p_links (sync_size s) = p_links s" "p_displayMsg (sync_size s) = p_displayMsg s"
  "p_tds (sync_size s) = p_tds s" "p_bb (sync_size s) = p_bb s" "p_log (sync_size s) = p_log s"
  "p_showRefresh (sync_size s) = p_showRefresh s" "p_disabled (sync_size s) = p_disabled s"
  "p_afterPageText (sync_size s) = p_afterPageText s" "p_loading (sync_size s) = p_loading s"
  by (auto simp: sync_size_def Let_def split: option.split)

lemma pg_loading_keeps [simp]:
  "p_total (pg_loading b s) = p_total s" "p_pageNumber (pg_loading b s) = p_pageNumber s" "p_pageSize (pg_loading b s) = p_pageSize s"
  "p_tds (pg_loading b s) = p_tds s" "p_bb (pg_loading b s) = p_bb s" "p_log (pg_loading b s) = p_log s" "p_links (pg_loading b s) = p_links s"
  "p_displayMsg (pg_loading b s) = p_displayMsg s" "p_loading (pg_loading b s) = b"
  by (simp_all add: pg_loading_def Let_def)

lemma put_num_keeps [simp]:
  "p_total (put_num s) = p_total s" "p_pageNumber (put_num s) = p_pageNumber s" "p_pageSize (put_num s) = p_pageSize s"
  "p_tds (put_num s) = p_tds s" "p_bb (put_num s) = p_bb s" "p_log (put_num s) = p_log s" "p_links (put_num s) = p_links s"
  "p_displayMsg (put_num s) = p_displayMsg s" "p_loading (put_num s) = p_loading s"
  by (simp_all add: put_num_def)

lemma put_after_keeps [simp]:
  "p_total (put_after q s) = p_total s" "p_pageNumber (put_after q s) = p_pageNumber s" "p_pageSize (put_after q s) = p_pageSize s"
  "p_tds (put_after q s) = p_tds s" "p_bb (put_after q s) = p_bb s" "p_log (put_after q s) = p_log s" "p_links (put_after q s) = p_links s"
  "p_displayMsg (put_after q s) = p_displayMsg s" "p_loading (put_after q s) = p_loading s"
  by (simp_all add: put_after_def)

lemma put_links_keeps [simp]:
  "p_total (put_links q s) = p_total s" "p_pageNumber (put_links q s) = p_pageNumber s" "p_pageSize (put_links q s) = p_pageSize s"
  "p_tds (put_links q s) = p_tds s" "p_bb (put_links q s) = p_bb s" "p_log (put_links q s) = p_log s" "p_links (put_links q s) = p_links s"
  "p_displayMsg (put_links q s) = p_displayMsg s" "p_loading (put_links q s) = p_loading s"
  by (simp_all add: put_links_def)

lemma put_info_keeps [simp]:
  "p_total (put_info s) = p_total s" "p_pageNumber (put_info s) = p_pageNumber s" "p_pageSize (put_info s) = p_pageSize s"
  "p_tds (put_info s) = p_tds s" "p_bb (put_info s) = p_bb s" "p_log (put_info s) = p_log s" "p_links (put_info s) = p_links s"
  "p_displayMsg (put_info s) = p_displayMsg s" "p_loading (put_info s) = p_loading s"
  by (simp_all add: put_info_def)

lemma put_disabled_keeps [simp]:
  "p_total (put_disabled q s) = p_total s" "p_pageNumber (put_disabled q s) = p_pageNumber s" "p_pageSize (put_disabled q s) = p_pageSize s"
  "p_tds (put_disabled q s) = p_tds s" "p_bb (put_disabled q s) = p_bb s" "p_log (put_disabled q s) = p_log s" "p_links (put_disabled q s) = p_links s"
  "p_displayMsg (put_disabled q s) = p_displayMsg s" "p_loading (put_disabled q s) = p_loading s"
  by (simp_all add: put_disabled_def)

lemma pg_loading_shows [simp]:
  "p_info (pg_loading b s) = p_info s" "p_linkItems (pg_loading b s) = p_linkItems s"
  "p_disabled (pg_loading b s) = p_disabled s"
  by (simp_all add: pg_loading_def Let_def)

lemma info_text_cong:
  "p_total t = p_total s \<Longrightarrow> p_pageNumber t = p_pageNumber s \<Longrightarrow> p_pageSize t = p_pageSize s \<Longrightarrow>
   p_displayMsg t = p_displayMsg s \<Longrightarrow> info_text t = info_text s"
  by (simp add: info_text_def info_from_def info_to_def)

lemma refresh_parts:
  "p_total (pg_refresh os s) = p_total (extend_popts os s)"
  "p_pageSize (pg_refresh os s) = p_pageSize (sync_size (extend_popts os s))"
  "p_pageNumber (pg_refresh os s) = fst (pg_clamp (sync_size (extend_popts os s)))"
  "p_tds (pg_refresh os s) = p_tds (extend_popts os s)"
  "p_bb (pg_refresh os s) = p_bb (extend_popts os s)"
  "p_links (pg_refresh os s) = p_links (extend_popts os s)"
  "p_log (pg_refresh os s) = p_log (extend_popts os s)"
  "p_displayMsg (pg_refresh os s) = p_displayMsg (extend_popts os s)"
  by (simp_all add: pg_refresh_def Let_def split: prod.split)

lemma refresh_info: "p_info (pg_refresh os s) = info_text (pg_refresh os s)"
proof -
  have "p_info (put_disabled q (put_info t)) = info_text (pg_loading b (put_disabled q (put_info t)))" for q b t
    by (simp add: put_disabled_def put_info_def info_text_def info_from_def info_to_def pg_loading_def Let_def)
  then show ?thesis by (simp add: pg_refresh_def Let_def split: prod.split)
qed

lemma refresh_links:
  "TdLinks \<in> set (p_tds (extend_popts os s)) \<Longrightarrow>
   p_linkItems (pg_refresh os s) =
     link_items (p_pageNumber (pg_refresh os s))
       (link_window (p_pageNumber (pg_refresh os s)) (snd (pg_clamp (sync_size (extend_popts os s))))
         (p_links (extend_popts os s)))"
  by (simp add: pg_refresh_def Let_def put_disabled_def put_info_def put_links_def split: prod.split)

lemma refresh_disabled:
  "x \<in> set (p_bb (extend_popts os s)) \<Longrightarrow> x \<in> {''first'', ''prev'', ''next'', ''last''} \<Longrightarrow>
   p_disabled (pg_refresh os s) x =
     (if x = ''first'' \<or> x = ''prev''
      then \<not> jtruthy (p_total (pg_refresh os s)) \<or> jeq (p_pageNumber (pg_refresh os s)) (Fin 1)
      else jeq (p_pageNumber (pg_refresh os s)) (snd (pg_clamp (sync_size (extend_popts os s)))))"
  by (auto simp: pg_refresh_def Let_def put_disabled_def nav_disabled_def split: prod.split)

section \<open>A pager whose size is in its list\<close>

text \<open>\<open>sized k s\<close>: the page size is \<open>k > 0\<close> and the page list, if there is one, offers it.\<close>

definition sized :: "int \<Rightarrow> pager \<Rightarrow> bool" where
  "sized k s \<longleftrightarrow> 0 < k \<and> p_pageSize s = Fin k
     \<and> (case pg_page_list (p_tds s) of None \<Rightarrow> True | Some l \<Rightarrow> show_int k \<in> set l)"

lemma sized_sync: "sized k s \<Longrightarrow> p_pageSize (sync_size s) = Fin k"
  by (auto simp: sized_def sync_size_def select_val_def parseInt_show_int split: option.splits)

text \<open>A pager about to be refreshed: its sizes are finite and the record count is not negative.\<close>

definition about :: "int \<Rightarrow> int \<Rightarrow> int \<Rightarrow> pager \<Rightarrow> bool" where
  "about k t p s \<longleftrightarrow> sized k s \<and> 0 \<le> t \<and> p_total s = Fin t \<and> p_pageNumber s = Fin p"

definition clamp_page :: "int \<Rightarrow> int \<Rightarrow> int \<Rightarrow> int" where
  "clamp_page k t p = (if t = 0 then 0 else max 1 (min p (ceil_div t k)))"

lemma clamp_about:
  assumes "about k t p s"
  shows "pg_clamp (sync_size s) = (Fin (clamp_page k t p), Fin (ceil_div t k))"
proof -
  have k: "0 < k" and ps: "p_pageSize (sync_size s) = Fin k"
    using assms sized_sync [of k s] by (auto simp: about_def sized_def)
  show ?thesis
  proof (cases "t = 0")
    case True
    with assms k ps show ?thesis by (simp add: about_def pg_clamp_def clamp_page_def Let_def)
  next
    case False
    with assms k have "0 < ceil_div t k" by (simp add: about_def ceil_div_pos)
    with False assms k ps show ?thesis
      by (auto simp: about_def pg_clamp_def pg_pages_def clamp_page_def Let_def)
  qed
qed

lemma refresh_about:
  assumes "about k t p (extend_popts os s)"
  shows "p_total (pg_refresh os s) = Fin t" "p_pageSize (pg_refresh os s) = Fin k"
    "p_pageNumber (pg_refresh os s) = Fin (clamp_page k t p)"
  using assms clamp_about [OF assms] sized_sync [of k "extend_popts os s"]
  by (simp_all add: refresh_parts about_def)

lemma clamp_page_bounds:
  assumes "0 < t" and "0 < k"
  shows "1 \<le> clamp_page k t p" and "clamp_page k t p \<le> ceil_div t k" and "(clamp_page k t p - 1) * k < t"
    and "1 \<le> p \<Longrightarrow> p \<le> ceil_div t k \<Longrightarrow> clamp_page k t p = p"
proof -
  have "0 < ceil_div t k" using assms by (simp add: ceil_div_pos)
  then show "1 \<le> clamp_page k t p" and le: "clamp_page k t p \<le> ceil_div t k"
    and "1 \<le> p \<Longrightarrow> p \<le> ceil_div t k \<Longrightarrow> clamp_page k t p = p"
    using assms by (auto simp: clamp_page_def)
  have "(clamp_page k t p - 1) * k \<le> (ceil_div t k - 1) * k"
    using le assms(2) by (intro mult_right_mono) auto
  also have "\<dots> < t" using assms(2) by (rule ceil_div_bounds)
  finally show "(clamp_page k t p - 1) * k < t" .
qed

section \<open>Properties of the pager\<close>

text \<open>
  C32: every refresh leaves a valid page.  With \<open>t\<close> records in pages of \<open>k\<close>, the page number
  is 0 when there are none; otherwise it lies between 1 and the number of pages, the page is
  not empty, and a requested page that exists is the one taken.
\<close>

theorem pg_page_valid:
  assumes "about k t p (extend_popts os s)"
  shows "\<exists>n. p_pageNumber (pg_refresh os s) = Fin n \<and>
    (if t = 0 then n = 0
     else 1 \<le> n \<and> n \<le> ceil_div t k \<and> (n - 1) * k < t \<and> (1 \<le> p \<and> p \<le> ceil_div t k \<longrightarrow> n = p))"
proof -
  have "0 < k" and "0 \<le> t" using assms by (auto simp: about_def sized_def)
  with refresh_about(3) [OF assms] clamp_page_bounds [of t k p] show ?thesis
    by (auto simp: clamp_page_def)
qed

definition pager95 :: pager where
  "pager95 = pg_build (extend_popts [OTotal (Fin 95)] pagination_defaults)"

lemma pager95_about: "about 10 95 n (extend_popts [OPageNumber (Fin n)] pager95)"
proof -
  have "p_total pager95 = Fin 95" "p_pageSize pager95 = Fin 10"
    by (simp_all add: pager95_def pg_build_def pagination_defaults_def Let_def)
  moreover have "pg_page_list (p_tds pager95) = Some [''10'', ''20'', ''30'', ''50'']" by code_simp
  moreover have "show_int 10 = ''10''" by code_simp
  ultimately show ?thesis by (simp add: about_def sized_def)
qed

lemma pg_page_valid_witness: "\<exists>n. p_pageNumber (pg_refresh [OPageNumber (Fin 12)] pager95) = Fin n \<and> 1 \<le> n \<and> n \<le> 10"
proof -
  have "ceil_div 95 10 = 10" by code_simp
  with pg_page_valid [OF pager95_about [of 12]] show ?thesis by auto
qed

text \<open>
  The pages partition the records.  After a refresh that asks for page \<open>n\<close> (one that
  exists), the toolbar says "from" to "to", both within 1 and \<open>t\<close>; and record \<open>r\<close> lies in that
  range exactly when \<open>n\<close> is the page \<open>(r - 1) div k + 1\<close>, so every record is shown on exactly
  one page.
\<close>

lemma page_of_record:
  fixes k n r t :: int
  assumes "0 < k" and "1 \<le> r" and "r \<le> t"
  shows "(k * (n - 1) + 1 \<le> r \<and> r \<le> min (k * n) t) \<longleftrightarrow> n = (r - 1) div k + 1"
proof
  assume n: "n = (r - 1) div k + 1"
  define q m where "q = (r - 1) div k" and "m = (r - 1) mod k"
  have "r - 1 = k * q + m" by (simp add: q_def m_def)
  moreover have "0 \<le> m" and "m < k" using assms(1) by (simp_all add: m_def)
  moreover have "n = q + 1" using n by (simp add: q_def)
  ultimately show "k * (n - 1) + 1 \<le> r \<and> r \<le> min (k * n) t"
    using assms(3) by (simp add: algebra_simps)
next
  assume "k * (n - 1) + 1 \<le> r \<and> r \<le> min (k * n) t"
  then have "0 \<le> (r - 1) - k * (n - 1)" and "(r - 1) - k * (n - 1) < k" by (simp_all add: algebra_simps)
  then have "(r - 1) div k = n - 1"
    using div_pos_pos_trivial [of "(r - 1) - k * (n - 1)" k] assms(1)
    by (metis add.commute diff_add_cancel div_mult_self2 less_irrefl add_0)
  then show "n = (r - 1) div k + 1" by simp
qed

theorem pg_pages_partition:
  assumes "about k t n (extend_popts os s)" and "1 \<le> n" and "n \<le> ceil_div t k" and "1 \<le> r" and "r \<le> t"
  shows "\<exists>a b. info_from (pg_refresh os s) = Fin a \<and> info_to (pg_refresh os s) = Fin b
    \<and> 1 \<le> a \<and> a \<le> b \<and> b \<le> t \<and> (a \<le> r \<and> r \<le> b \<longleftrightarrow> n = (r - 1) div k + 1)"
proof -
  have k: "0 < k" using assms(1) by (auto simp: about_def sized_def)
  have t: "0 < t" using assms(4,5) by simp
  note c = clamp_page_bounds [OF t k, of n]
  have n: "clamp_page k t n = n" using c(4) assms(2,3) by simp
  have "info_from (pg_refresh os s) = Fin (k * (n - 1) + 1)"
    and "info_to (pg_refresh os s) = Fin (min (k * n) t)"
    using refresh_about [OF assms(1)] n t by (simp_all add: info_from_def info_to_def)
  moreover have "0 \<le> k * (n - 1)" using k assms(2) by simp
  moreover have "k * (n - 1) + 1 \<le> min (k * n) t" using c(3) n k by (simp add: algebra_simps)
  ultimately show ?thesis using page_of_record [OF k assms(4,5), of n] by auto
qed

lemma pg_pages_partition_witness:
  "\<exists>a b. info_from (pg_refresh [OPageNumber (Fin 10)] pager95) = Fin a
    \<and> info_to (pg_refresh [OPageNumber (Fin 10)] pager95) = Fin b \<and> a \<le> 93 \<and> 93 \<le> b"
proof -
  have "(10::int) \<le> ceil_div 95 10" by code_simp
  with pg_pages_partition [OF pager95_about [of 10], of 93] show ?thesis by auto
qed

text \<open>
  The message.  With the default \<open>displayMsg\<close> the three place holders are filled in with
  the range shown and the number of records, whatever these numbers are.
\<close>

theorem pg_message:
  assumes "p_displayMsg s = p_displayMsg pagination_defaults" and "info_from s = Fin a"
    and "info_to s = Fin b" and "p_total s = Fin t"
  shows "info_text s =
    ''Displaying '' @ show_int a @ '' to '' @ show_int b @ '' of '' @ show_int t @ '' items''"
proof -
  have 1: "js_replace ''{from}'' (show_int a) (''Displaying '' @ ''{from}'' @ '' to {to} of {total} items'') =
      ''Displaying '' @ show_int a @ '' to {to} of {total} items''"
    by (rule js_fill) simp
  have 2: "js_replace ''{to}'' (show_int b)
        ((''Displaying '' @ show_int a @ '' to '') @ ''{to}'' @ '' of {total} items'') =
      (''Displaying '' @ show_int a @ '' to '') @ show_int b @ '' of {total} items''"
    by (rule js_fill) simp
  have 3: "js_replace ''{total}'' (show_int t)
        ((''Displaying '' @ show_int a @ '' to '' @ show_int b @ '' of '') @ ''{total}'' @ '' items'') =
      (''Displaying '' @ show_int a @ '' to '' @ show_int b @ '' of '') @ show_int t @ '' items''"
    by (rule js_fill) simp
  from assms 1 2 3 show ?thesis by (simp add: info_text_def pagination_defaults_def Let_def)
qed

lemma pg_message_witness:
  "info_text (pg_create [OTotal (Fin 95), OPageNumber (Fin 3)]) = ''Displaying 21 to 30 of 95 items''"
proof -
  let ?s = "pg_create [OTotal (Fin 95), OPageNumber (Fin 3)]"
  have "p_displayMsg ?s = p_displayMsg pagination_defaults \<and> info_from ?s = Fin 21 \<and> info_to ?s = Fin 30
      \<and> p_total ?s = Fin 95" by code_simp
  then have "info_text ?s = ''Displaying '' @ show_int 21 @ '' to '' @ show_int 30 @ '' of '' @ show_int 95 @ '' items''"
    by (intro pg_message) simp_all
  then show ?thesis by code_simp
qed

text \<open>
  The page links.  They are a window of consecutive pages within 1 and the number of
  pages, at most \<open>links\<close> of them (and exactly that many when there are enough pages); the
  current page is among them and is the only one marked and without a handler.
\<close>

lemma link_window_Fin:
  fixes n pages l :: int
  assumes "0 < l" and "1 \<le> n" and "n \<le> pages"
  shows "\<exists>a b. link_window (Fin n) (Fin pages) l = (Fin a, Fin b)
    \<and> 1 \<le> a \<and> a \<le> n \<and> n \<le> b \<and> b \<le> pages \<and> b - a + 1 = min l pages"
proof -
  define a0 where "a0 = max 1 (n - l div 2)"
  define b where "b = min pages (a0 + l - 1)"
  define a where "a = max 1 (b - l + 1)"
  have "link_window (Fin n) (Fin pages) l = (Fin a, Fin b)"
    by (auto simp: link_window_def Let_def a_def b_def a0_def max_def min_def)
  moreover have "0 \<le> l div 2" and "l div 2 < l" using assms(1) by auto
  then have "n - l < a0" and "1 \<le> a0" and "a0 \<le> n" using assms by (auto simp: a0_def)
  then have "1 \<le> a \<and> a \<le> n \<and> n \<le> b \<and> b \<le> pages \<and> b - a + 1 = min l pages"
    using assms by (auto simp: a_def b_def)
  ultimately show ?thesis by blast
qed

theorem pg_links_window:
  assumes "about k t p (extend_popts os s)" and "0 < t" and "TdLinks \<in> set (p_tds s)"
    and "0 < p_links (extend_popts os s)" and "p_tds (extend_popts os s) = p_tds s"
  shows "\<exists>a b n. p_pageNumber (pg_refresh os s) = Fin n \<and> a \<le> n \<and> n \<le> b \<and> 1 \<le> a \<and> b \<le> ceil_div t k
    \<and> b - a + 1 = min (p_links (extend_popts os s)) (ceil_div t k)
    \<and> p_linkItems (pg_refresh os s) = map (\<lambda>i. (i, i = n)) [a..b]"
proof -
  have k: "0 < k" using assms(1) by (auto simp: about_def sized_def)
  let ?n = "clamp_page k t p" and ?q = "ceil_div t k" and ?l = "p_links (extend_popts os s)"
  note c = clamp_page_bounds [OF assms(2) k, of p]
  from link_window_Fin [OF assms(4) c(1,2)] obtain a b where
    w: "link_window (Fin ?n) (Fin ?q) ?l = (Fin a, Fin b)" and
    ab: "1 \<le> a" "a \<le> ?n" "?n \<le> b" "b \<le> ?q" "b - a + 1 = min ?l ?q" by blast
  have "p_linkItems (pg_refresh os s) = map (\<lambda>i. (i, i = ?n)) [a..b]"
    using refresh_links [of os s] assms(3,5) clamp_about [OF assms(1)] refresh_about(3) [OF assms(1)] w
    by (simp add: link_items_def)
  with ab refresh_about(3) [OF assms(1)] show ?thesis by blast
qed

definition pager_links :: pager where
  "pager_links = pg_build (extend_popts [OTotal (Fin 95), OLayout [''first'', ''links'', ''last''], OLinks 4] pagination_defaults)"

lemma pg_links_window_witness:
  "\<exists>a b n. p_pageNumber (pg_refresh [OPageNumber (Fin 7)] pager_links) = Fin n \<and> b - a + 1 = 4
    \<and> p_linkItems (pg_refresh [OPageNumber (Fin 7)] pager_links) = map (\<lambda>i. (i, i = n)) [a..b]"
proof -
  let ?u = "extend_popts [OPageNumber (Fin 7)] pager_links"
  have f: "p_tds pager_links = [TdNav ''first'', TdLinks, TdNav ''last''] \<and> p_links pager_links = 4
      \<and> p_total pager_links = Fin 95 \<and> p_pageSize pager_links = Fin 10"
    by code_simp
  have "pg_page_list [TdNav ''first'', TdLinks, TdNav ''last''] = None" by code_simp
  with f have "about 10 95 7 ?u" by (simp add: about_def sized_def)
  moreover have "ceil_div 95 10 = 10" by code_simp
  ultimately show ?thesis using pg_links_window [of 10 95 7 "[OPageNumber (Fin 7)]" pager_links] f by fastforce
qed

text \<open>
  The navigation buttons.  On a refreshed pager a disabled button's handler does nothing
  at all, and an enabled one goes where its name says: to page 1, one back, one on, or to the
  last page.
\<close>

theorem pg_navigation:
  assumes "about k t p (extend_popts os s)" and "u = pg_refresh os s"
    and "x \<in> set (p_bb (extend_popts os s))" and "x \<in> {''first'', ''prev'', ''next'', ''last''}"
    and "p_pageNumber u = Fin n"
  shows "(p_disabled u x \<longrightarrow> pg_nav allow x u = u) \<and>
    (\<not> p_disabled u x \<longrightarrow>
       pg_nav allow x u = pg_select (Fin (if x = ''first'' then 1 else if x = ''prev'' then n - 1
         else if x = ''next'' then n + 1 else ceil_div t k)) u)"
proof -
  have k: "0 < k" and t: "0 \<le> t" using assms(1) by (auto simp: about_def sized_def)
  have n: "n = clamp_page k t p" using refresh_about(3) [OF assms(1)] assms(2,5) by simp
  have parts: "p_total u = Fin t" "p_pageSize u = Fin k" using refresh_about [OF assms(1)] assms(2) by auto
  have "snd (pg_clamp (sync_size (extend_popts os s))) = Fin (ceil_div t k)"
    using clamp_about [OF assms(1)] by simp
  then have dis: "p_disabled u x =
      (if x = ''first'' \<or> x = ''prev'' then t = 0 \<or> n = 1 else n = ceil_div t k)"
    using refresh_disabled [OF assms(3,4)] parts assms(2,5) by simp
  show ?thesis
  proof (cases "t = 0")
    case True
    with n have "n = 0" by (simp add: clamp_page_def)
    with True parts dis assms(4,5) k show ?thesis by (auto simp: pg_nav_def Let_def)
  next
    case False
    with t have "0 < t" by simp
    note c = clamp_page_bounds [OF this k, of p]
    with n have "1 \<le> n" and "n \<le> ceil_div t k" by auto
    with False parts dis assms(4,5) k show ?thesis by (auto simp: pg_nav_def Let_def)
  qed
qed

lemma pg_navigation_witness:
  "pg_nav (\<lambda>_ _. True) ''next'' (pg_refresh [OPageNumber (Fin 10)] pager95) = pg_refresh [OPageNumber (Fin 10)] pager95
   \<and> pg_nav (\<lambda>_ _. True) ''prev'' (pg_refresh [OPageNumber (Fin 10)] pager95) =
       pg_select (Fin 9) (pg_refresh [OPageNumber (Fin 10)] pager95)"
proof -
  let ?s = "extend_popts [OPageNumber (Fin 10)] pager95" and ?u = "pg_refresh [OPageNumber (Fin 10)] pager95"
  have b: "''next'' \<in> set (p_bb ?s)" "''prev'' \<in> set (p_bb ?s)" by code_simp+
  have n: "p_pageNumber ?u = Fin 10" by code_simp
  have d: "p_disabled ?u ''next''" "\<not> p_disabled ?u ''prev''" by code_simp+
  from pg_navigation [OF pager95_about refl b(1) _ n] pg_navigation [OF pager95_about refl b(2) _ n] d
  show ?thesis by simp
qed

text \<open>
  A page size the page list does not offer is lost.  The refresh reads the size back
  from the \<open>select\<close> element, which then shows nothing: the size becomes \<open>NaN\<close>, there is one page,
  and the message reports \<open>NaN\<close> for both ends of the range.
\<close>

theorem pg_size_not_offered:
  assumes "pg_page_list (p_tds (extend_popts os s)) = Some l" and "p_pageSize (extend_popts os s) = Fin k"
    and "show_int k \<notin> set l" and "p_total (extend_popts os s) = Fin t" and "0 < t"
    and "p_pageNumber (extend_popts os s) = Fin p"
  shows "p_pageSize (pg_refresh os s) = NaN \<and> p_pageNumber (pg_refresh os s) = Fin 1
    \<and> info_from (pg_refresh os s) = NaN \<and> info_to (pg_refresh os s) = NaN"
proof -
  let ?u = "sync_size (extend_popts os s)"
  have nan: "p_pageSize ?u = NaN" using assms(1-3) by (simp add: sync_size_def select_val_def)
  have "jceil_div (Fin t) NaN = NaN" by simp
  with nan assms(4-6) have "pg_clamp ?u = (Fin 1, Fin 1)"
    by (auto simp: pg_clamp_def pg_pages_def Let_def)
  with nan assms(4,5) show ?thesis by (simp add: info_from_def info_to_def jmin_def refresh_parts)
qed

lemma pg_size_not_offered_witness:
  "p_pageSize (pg_refresh [OPageSize (Fin 15)] pager95) = NaN \<and> p_info (pg_refresh [OPageSize (Fin 15)] pager95) =
     ''Displaying NaN to NaN of 95 items''"
proof -
  have "pg_page_list (p_tds (extend_popts [OPageSize (Fin 15)] pager95)) = Some [''10'', ''20'', ''30'', ''50'']
      \<and> p_pageSize (extend_popts [OPageSize (Fin 15)] pager95) = Fin 15 \<and> show_int 15 \<notin> set [''10'', ''20'', ''30'', ''50'']
      \<and> p_total (extend_popts [OPageSize (Fin 15)] pager95) = Fin 95
      \<and> p_pageNumber (extend_popts [OPageSize (Fin 15)] pager95) = Fin 1"
    by code_simp
  then have "p_pageSize (pg_refresh [OPageSize (Fin 15)] pager95) = NaN"
    using pg_size_not_offered [of "[OPageSize (Fin 15)]" pager95] by auto
  moreover have "p_info (pg_refresh [OPageSize (Fin 15)] pager95) = ''Displaying NaN to NaN of 95 items''"
    by code_simp
  ultimately show ?thesis by simp
qed

end
