(* ===== verification/Dg_State.thy ===== *)
theory Dg_State
  imports Js_Value Pagination
begin

text \<open>
  The data of the grid, \<open>js/plugins/jquery.datagrid.js\<close>: its columns, its row elements in the two
  views, its options and state, the array helpers \<open>_2\<close>, \<open>_4\<close> and \<open>_7\<close>, the layout of the column
  fields (\<open>_75\<close>, \<open>_76\<close>) and the finder of the defaults.

  Rows are shared objects: the arrays of the state hold references into a store, so that an edit
  of a row is seen through all of them.  The callbacks of the options are the parameter
  \<open>grid_env\<close>; a callback the code only notifies is an entry of the log.
\<close>

section \<open>Columns\<close>

datatype cwidth = WidthNone | WidthPx int | WidthPercent int

text \<open>The editor of a column: a type, or a type with options, of which the box of two values reads two.\<close>

datatype editor_spec = EditorType string | EditorWith string string string

record column =
  col_field :: "string option"
  col_title :: string
  col_width :: cwidth
  col_hidden :: bool
  col_checkbox :: bool
  col_sortable :: bool
  col_order :: string
  col_resizable :: bool
  col_fixed :: bool
  col_auto :: bool
  col_box :: "int option"
  col_delta :: int
  col_align :: string
  col_halign :: string
  col_rowspan :: nat
  col_colspan :: nat
  col_editor :: "editor_spec option"
  col_class :: string

definition plain_column :: "string \<Rightarrow> column" where
  "plain_column f =
     \<lparr>col_field = Some f, col_title = f, col_width = WidthNone, col_hidden = False, col_checkbox = False,
      col_sortable = False, col_order = [], col_resizable = True, col_fixed = False, col_auto = False,
      col_box = None, col_delta = 0, col_align = [], col_halign = [], col_rowspan = 0, col_colspan = 0,
      col_editor = None, col_class = []\<rparr>"

section \<open>Row elements\<close>

text \<open>An editor in a cell: its type and options, the value it shows and the markup it replaced.\<close>

record editor =
  ed_spec :: editor_spec
  ed_value :: jsval
  ed_old :: string

text \<open>A header cell.\<close>

record hcell =
  h_field :: "string option"
  h_hidden :: bool
  h_over :: bool

record td =
  d_field :: "string option"
  d_class :: string
  d_hidden :: bool
  d_style :: string
  d_div :: string
  d_check :: bool
  d_checked :: bool
  d_value :: string
  d_text :: string
  d_cellClass :: string
  d_editor :: "editor option"
  d_span :: "(nat \<times> nat) option"

record tr =
  t_index :: nat
  t_live :: bool
  t_selected :: bool
  t_checked :: bool
  t_over :: bool
  t_editing :: bool
  t_alt :: bool
  t_user :: "string list"
  t_style :: string
  t_num :: "jnum option"
  t_cells :: "td list"

section \<open>Rows and state\<close>

type_synonym row = "string \<Rightarrow> jsval"
type_synonym rid = nat

datatype gevent =
    OnSelect nat rid | OnUnselect nat rid | OnCheck nat rid | OnUncheck nat rid
  | OnSelectAll "rid list" | OnUnselectAll "rid list" | OnCheckAll "rid list" | OnUncheckAll "rid list"
  | OnClickCell nat "string option" jsval | OnClickRow nat rid
  | OnDblClickCell nat "string option" jsval | OnDblClickRow nat rid | OnRowContextMenu nat rid
  | OnHeaderContextMenu "string option"
  | OnBeginEdit nat rid | OnEndEdit nat rid "(string \<times> jsval) list" | OnAfterEdit nat rid "(string \<times> jsval) list"
  | OnCancelEdit nat rid | OnSortColumn "string option" string | OnLoadSuccess | OnLoadError
  | OnResizeColumn "string option" int

text \<open>The parameters of a request.\<close>

record params =
  q_query :: "(string \<times> string) list"
  q_page :: "(jnum \<times> jnum) option"
  q_sort :: "(string \<times> string) option"

record grid =
  g_rows :: "rid list"
  g_total :: jnum
  g_footer :: "rid list"
  g_store :: "rid \<Rightarrow> row"
  g_next :: rid
  g_selected :: "rid list"
  g_checked :: "rid list"
  g_original :: "rid list"
  g_updated :: "rid list"
  g_inserted :: "rid list"
  g_deleted :: "rid list"
  g_highlight :: "nat option"
  g_lastSelected :: "nat option"
  g_resizing :: bool
  g_body1 :: "tr list"
  g_body2 :: "tr list"
  g_foot1 :: "tr list"
  g_foot2 :: "tr list"
  g_headCheck :: bool
  g_headSort :: "(string \<times> string) list"
  g_pagers :: "pager list"
  g_mask :: bool
  g_requests :: "params list"
  g_mute :: bool
  g_log :: "gevent list"
  g_head1 :: "hcell list"
  g_head2 :: "hcell list"
  g_css :: "(string \<times> string) list"
  g_dirty :: "string list"
  g_prefix :: string
  g_selector :: "string option"
  g_leftWidth :: int
  o_columns :: "column list list"
  o_frozen :: "column list list"
  o_idField :: "string option"
  o_singleSelect :: bool
  o_ctrlSelect :: bool
  o_checkOnSelect :: bool
  o_selectOnCheck :: bool
  o_striped :: bool
  o_nowrap :: bool
  o_autoRowHeight :: bool
  o_rownumbers :: bool
  o_showHeader :: bool
  o_showFooter :: bool
  o_fitColumns :: bool
  o_pagination :: bool
  o_pageNumber :: jnum
  o_pageSize :: jnum
  o_sortName :: "string option"
  o_sortOrder :: string
  o_multiSort :: bool
  o_remoteSort :: bool
  o_url :: "string option"
  o_query :: "(string \<times> string) list"
  o_loadMsg :: string
  o_scrollbar :: int
  o_pageList :: "int list"
  o_pagePosition :: string

text \<open>The defaults (2334) and the state of a grid just made (1691).\<close>

definition datagrid_defaults :: grid where
  "datagrid_defaults =
     \<lparr>g_rows = [], g_total = Fin 0, g_footer = [], g_store = (\<lambda>_ _. VUndef), g_next = 0, g_selected = [], g_checked = [],
      g_original = [], g_updated = [], g_inserted = [], g_deleted = [], g_highlight = None, g_lastSelected = None,
      g_resizing = False, g_body1 = [], g_body2 = [], g_foot1 = [], g_foot2 = [], g_headCheck = False, g_headSort = [],
      g_pagers = [], g_mask = False, g_requests = [], g_mute = False, g_log = [],
      g_head1 = [], g_head2 = [], g_css = [], g_dirty = [], g_prefix = [], g_selector = None, g_leftWidth = 0,
      o_columns = [], o_frozen = [], o_idField = None, o_singleSelect = False, o_ctrlSelect = False,
      o_checkOnSelect = True, o_selectOnCheck = True, o_striped = False, o_nowrap = True, o_autoRowHeight = True,
      o_rownumbers = False, o_showHeader = True, o_showFooter = False, o_fitColumns = False, o_pagination = False,
      o_pageNumber = Fin 1, o_pageSize = Fin 10, o_sortName = None, o_sortOrder = ''asc'', o_multiSort = False,
      o_remoteSort = True, o_url = None, o_query = [], o_loadMsg = ''Processing, please wait ...'', o_scrollbar = 18,
      o_pageList = [10, 20, 30, 40, 50], o_pagePosition = ''bottom''\<rparr>"

text \<open>
  The callbacks whose result the code uses, and what it asks of other code: \<open>e_put\<close> and \<open>e_get\<close> are the
  value a field widget holds after \<open>setValue\<close> and the value it gives back, \<open>e_valid\<close> its validation; \<open>e_box\<close>
  is the style width that gives an element an outer width, \<open>e_natural\<close> the width the contents of a column
  ask for, \<open>e_percent\<close> a share of the width of the view, \<open>e_room\<close> the width of the header of the second view.
\<close>

datatype veto = BeforeSelect | BeforeUnselect | BeforeCheck | BeforeUncheck | BeforeEdit

record grid_env =
  e_before :: "veto \<Rightarrow> nat \<Rightarrow> row \<Rightarrow> bool"
  e_beforeLoad :: "params \<Rightarrow> bool"
  e_beforeSort :: "string option \<Rightarrow> string \<Rightarrow> bool"
  e_rowStyler :: "nat \<Rightarrow> row \<Rightarrow> css"
  e_styler :: "string \<Rightarrow> jsval \<Rightarrow> row \<Rightarrow> nat \<Rightarrow> css"
  e_formatter :: "string \<Rightarrow> (jsval \<Rightarrow> row \<Rightarrow> nat \<Rightarrow> string) option"
  e_sorter :: "string \<Rightarrow> (jsval \<Rightarrow> jsval \<Rightarrow> int) option"
  e_valid :: "string \<Rightarrow> string \<Rightarrow> jsval \<Rightarrow> bool"
  e_put :: "string \<Rightarrow> jsval \<Rightarrow> jsval"
  e_get :: "string \<Rightarrow> jsval \<Rightarrow> jsval"
  e_box :: "int \<Rightarrow> int"
  e_natural :: "string option \<Rightarrow> int"
  e_percent :: "int \<Rightarrow> int"
  e_room :: int

definition default_env :: grid_env where
  "default_env = \<lparr>e_before = (\<lambda>_ _ _. True), e_beforeLoad = (\<lambda>_. True), e_beforeSort = (\<lambda>_ _. True),
     e_rowStyler = (\<lambda>_ _. CssNone), e_styler = (\<lambda>_ _ _ _. CssNone), e_formatter = (\<lambda>_. None), e_sorter = (\<lambda>_. None),
     e_valid = (\<lambda>_ _ _. True), e_put = (\<lambda>_ v. v), e_get = (\<lambda>_ v. v), e_box = (\<lambda>w. w - 8), e_natural = (\<lambda>_. 80),
     e_percent = (\<lambda>p. 8 * p), e_room = 800\<rparr>"

text \<open>
  The events of \<open>onSelect\<close> and \<open>onCheck\<close> are lost while the selection is restored after a load,
  when the code replaces both callbacks.
\<close>

definition is_muted :: "gevent \<Rightarrow> bool" where
  "is_muted e = (case e of OnSelect _ _ \<Rightarrow> True | OnCheck _ _ \<Rightarrow> True | _ \<Rightarrow> False)"

definition dg_emit :: "gevent \<Rightarrow> grid \<Rightarrow> grid" where
  "dg_emit e s = (if g_mute s \<and> is_muted e then s else s\<lparr>g_log := g_log s @ [e]\<rparr>)"

section \<open>Arrays: \<open>_2\<close>, \<open>_4\<close>, \<open>_7\<close>\<close>

text \<open>
  \<open>key\<close> reads the id field of a row, \<open>eq\<close> is \<open>==\<close>: the first element with an id is taken out
  (\<open>_4\<close>), a row is added unless its id is there (\<open>_7\<close>); \<open>_4\<close> on an object takes that object out.
\<close>

definition arr_remove_id :: "('k \<Rightarrow> 'k \<Rightarrow> bool) \<Rightarrow> ('a \<Rightarrow> 'k) \<Rightarrow> 'k \<Rightarrow> 'a list \<Rightarrow> 'a list" where
  "arr_remove_id eq key k a = (case index_where (\<lambda>x. eq (key x) k) a of None \<Rightarrow> a | Some i \<Rightarrow> splice_del i a)"

definition arr_remove :: "'a \<Rightarrow> 'a list \<Rightarrow> 'a list" where
  "arr_remove x a = (case in_array x a of None \<Rightarrow> a | Some i \<Rightarrow> splice_del i a)"

definition arr_add_id :: "('k \<Rightarrow> 'k \<Rightarrow> bool) \<Rightarrow> ('a \<Rightarrow> 'k) \<Rightarrow> 'a \<Rightarrow> 'a list \<Rightarrow> 'a list" where
  "arr_add_id eq key r a = (if list_ex (\<lambda>x. eq (key x) (key r)) a then a else a @ [r])"

text \<open>\<open>_104\<close>: a row of the new data takes the place of the one with its id; true when there is one.\<close>

definition arr_refresh :: "('k \<Rightarrow> 'k \<Rightarrow> bool) \<Rightarrow> ('a \<Rightarrow> 'k) \<Rightarrow> 'a \<Rightarrow> 'a list \<Rightarrow> ('a list \<times> bool)" where
  "arr_refresh eq key r a =
     (case index_where (\<lambda>x. eq (key x) (key r)) a of None \<Rightarrow> (a, False) | Some i \<Rightarrow> (a[i := r], True))"

text \<open>
  What the grid relies on: on keys that \<open>==\<close> tells apart, the arrays are lists of distinct keys,
  and the operations are insertion and deletion of a key.
\<close>

locale keyed_array =
  fixes eq :: "'k \<Rightarrow> 'k \<Rightarrow> bool" and keys :: "'k set"
  assumes eq_keys: "x \<in> keys \<Longrightarrow> y \<in> keys \<Longrightarrow> eq x y \<longleftrightarrow> x = y"
begin

lemma add_id:
  assumes "key ` set a \<subseteq> keys" and "key r \<in> keys"
  shows "map key (arr_add_id eq key r a) =
    (if key r \<in> set (map key a) then map key a else map key a @ [key r])"
proof -
  have "list_ex (\<lambda>x. eq (key x) (key r)) a \<longleftrightarrow> key r \<in> set (map key a)"
    using assms eq_keys by (auto simp: list_ex_iff image_iff) (metis eq_keys image_subset_iff)+
  then show ?thesis by (simp add: arr_add_id_def)
qed

lemma find_id:
  assumes "key ` set a \<subseteq> keys" and "k \<in> keys"
  shows "index_where (\<lambda>x. eq (key x) k) a = in_array k (map key a)"
  using assms
proof (induction a)
  case Nil
  then show ?case by (simp add: in_array_def)
next
  case (Cons x a)
  then have "eq (key x) k \<longleftrightarrow> key x = k" by (intro eq_keys) auto
  with Cons show ?case by (simp add: in_array_def)
qed

lemma remove1_splice: "(case in_array k ks of None \<Rightarrow> ks | Some i \<Rightarrow> splice_del i ks) = remove1 k ks"
proof (induction ks)
  case Nil
  show ?case by (simp add: in_array_def)
next
  case (Cons x ks)
  then show ?case by (auto simp: in_array_def split: option.splits)
qed

lemma remove_id:
  assumes "key ` set a \<subseteq> keys" and "k \<in> keys"
  shows "map key (arr_remove_id eq key k a) = remove1 k (map key a)"
proof -
  have "map key (splice_del i a) = splice_del i (map key a)" for i
    by (simp add: splice_del_def take_map drop_map)
  then show ?thesis
    unfolding remove1_splice [symmetric] arr_remove_id_def find_id [OF assms] by (auto split: option.split)
qed

lemma refresh_id:
  assumes "key ` set a \<subseteq> keys" and "key r \<in> keys"
  shows "map key (fst (arr_refresh eq key r a)) = map key a" and "snd (arr_refresh eq key r a) \<longleftrightarrow> key r \<in> set (map key a)"
proof -
  have i: "index_where (\<lambda>x. eq (key x) (key r)) a = in_array (key r) (map key a)" by (rule find_id [OF assms])
  show "snd (arr_refresh eq key r a) \<longleftrightarrow> key r \<in> set (map key a)"
    using in_array_None [of "key r" "map key a"]
    by (cases "in_array (key r) (map key a)") (simp_all add: arr_refresh_def i)
  show "map key (fst (arr_refresh eq key r a)) = map key a"
    by (auto simp: arr_refresh_def i map_update list_update_id dest: in_array_Some split: option.split)
      (metis in_array_Some length_map list_update_id)
qed

lemma add_distinct:
  assumes "key ` set a \<subseteq> keys" and "key r \<in> keys" and "distinct (map key a)"
  shows "distinct (map key (arr_add_id eq key r a))"
  using assms(3) by (simp add: add_id [OF assms(1,2)])

lemma remove_distinct:
  assumes "key ` set a \<subseteq> keys" and "k \<in> keys" and "distinct (map key a)"
  shows "distinct (map key (arr_remove_id eq key k a))"
  using assms(3) by (simp add: remove_id [OF assms(1,2)] distinct_remove1)

end

interpretation ids: keyed_array loose_eq "kind b" for b
  by unfold_locales (rule loose_eq_kind)

section \<open>The columns: \<open>_76\<close> and \<open>_75\<close>\<close>

text \<open>The column of a field: among the columns first, then among the frozen ones.\<close>

definition find_column :: "column list list \<Rightarrow> string option \<Rightarrow> column option" where
  "find_column rows f = List.find (\<lambda>c. col_field c = f) (concat rows)"

definition get_column :: "grid \<Rightarrow> string option \<Rightarrow> column option" where
  "get_column s f =
     (case find_column (o_columns s) f of Some c \<Rightarrow> Some c | None \<Rightarrow> find_column (o_frozen s) f)"

text \<open>An assignment to a field of that column object.\<close>

fun upd_first :: "('a \<Rightarrow> bool) \<Rightarrow> ('a \<Rightarrow> 'a) \<Rightarrow> 'a list \<Rightarrow> 'a list" where
  "upd_first P f [] = []"
| "upd_first P f (x # xs) = (if P x then f x # xs else x # upd_first P f xs)"

fun upd_column :: "string option \<Rightarrow> (column \<Rightarrow> column) \<Rightarrow> column list list \<Rightarrow> column list list" where
  "upd_column f g [] = []"
| "upd_column f g (r # rs) =
     (if \<exists>c\<in>set r. col_field c = f then upd_first (\<lambda>c. col_field c = f) g r # rs else r # upd_column f g rs)"

definition set_column :: "string option \<Rightarrow> (column \<Rightarrow> column) \<Rightarrow> grid \<Rightarrow> grid" where
  "set_column f g s =
     (if find_column (o_columns s) f \<noteq> None then s\<lparr>o_columns := upd_column f g (o_columns s)\<rparr>
      else s\<lparr>o_frozen := upd_column f g (o_frozen s)\<rparr>)"

text \<open>
  The fields below the header, by filling a matrix with the columns and their spans: \<open>None\<close> in the
  matrix is a hole.  A row span that leaves the header throws, the result is \<open>None\<close>.
\<close>

definition span :: "nat \<Rightarrow> nat" where
  "span n = (if n = 0 then 1 else n)"

definition set_at :: "nat \<Rightarrow> 'a \<Rightarrow> 'a option list \<Rightarrow> 'a option list" where
  "set_at i x xs = (if i < length xs then xs[i := Some x] else xs @ replicate (i - length xs) None @ [Some x])"

definition place_column :: "nat \<Rightarrow> string option list list \<Rightarrow> column \<Rightarrow> string option list list option" where
  "place_column ef aa col =
     (case index_where (\<lambda>x. x = None) (aa ! ef) of
        None \<Rightarrow> Some aa
      | Some f0 \<Rightarrow>
          let f = (case col_field col of None \<Rightarrow> [] | Some x \<Rightarrow> x) in
          foldM (\<lambda>aa (c, r). if ef + r < length aa then Some (aa[ef + r := set_at (f0 + c) f (aa ! (ef + r))]) else None)
            aa (List.product [0..<span (col_colspan col)] [0..<span (col_rowspan col)]))"

definition header_width :: "column list list \<Rightarrow> nat" where
  "header_width rows = (case rows of [] \<Rightarrow> 0 | r # _ \<Rightarrow> sum_list (map (\<lambda>c. span (col_colspan c)) r))"

definition column_fields :: "column list list \<Rightarrow> string option list option" where
  "column_fields rows =
     (if rows = [] then Some []
      else map_option last
        (foldM (\<lambda>aa ef. foldM (place_column ef) aa (rows ! ef))
          (replicate (length rows) (replicate (header_width rows) None)) [0..<length rows]))"

definition fields_of :: "bool \<Rightarrow> grid \<Rightarrow> string option list" where
  "fields_of frozen s =
     (case column_fields (if frozen then o_frozen s else o_columns s) of None \<Rightarrow> [] | Some l \<Rightarrow> l)"

section \<open>The finder\<close>

text \<open>
  \<open>getTr\<close> with view 0: the row elements of both views.  A row of the body is found by its index
  (in the \<open>id\<close> and in \<open>datagrid-row-index\<close>, which are set together).
\<close>

definition has_index :: "nat \<Rightarrow> tr \<Rightarrow> bool" where
  "has_index i t \<longleftrightarrow> t_index t = i"

definition get_tr :: "grid \<Rightarrow> nat \<Rightarrow> tr option" where
  "get_tr s i = List.find (has_index i) (g_body2 s)"

definition upd_row :: "nat \<Rightarrow> (tr \<Rightarrow> tr) \<Rightarrow> grid \<Rightarrow> grid" where
  "upd_row i f s =
     s\<lparr>g_body1 := upd_first (has_index i) f (g_body1 s), g_body2 := upd_first (has_index i) f (g_body2 s)\<rparr>"

definition upd_all :: "(tr \<Rightarrow> bool) \<Rightarrow> (tr \<Rightarrow> tr) \<Rightarrow> grid \<Rightarrow> grid" where
  "upd_all P f s =
     s\<lparr>g_body1 := map (\<lambda>t. if P t then f t else t) (g_body1 s), g_body2 := map (\<lambda>t. if P t then f t else t) (g_body2 s)\<rparr>"

text \<open>\<open>getRow\<close> by index and \<open>getRows\<close>; an index outside the rows reads \<open>undefined\<close>.\<close>

definition get_row :: "grid \<Rightarrow> nat \<Rightarrow> rid option" where
  "get_row s i = (if i < length (g_rows s) then Some (g_rows s ! i) else None)"

definition get_rows :: "grid \<Rightarrow> rid list" where
  "get_rows s = g_rows s"

text \<open>The key of a row, \<open>row[opts.idField]\<close>.\<close>

definition row_key :: "grid \<Rightarrow> rid \<Rightarrow> jsval" where
  "row_key s r = (case o_idField s of None \<Rightarrow> VUndef | Some f \<Rightarrow> g_store s r f)"

text \<open>\<open>_105\<close>: the index of a row object, or of the first row with an id.\<close>

datatype row_arg = RowObject rid | RowId jsval

definition row_index :: "row_arg \<Rightarrow> grid \<Rightarrow> nat option" where
  "row_index a s =
     (case a of RowObject r \<Rightarrow> in_array r (g_rows s) | RowId k \<Rightarrow> index_where (\<lambda>r. loose_eq (row_key s r) k) (g_rows s))"

section \<open>Lemmas on row elements\<close>

lemma upd_first_map: "(\<And>x. P x \<Longrightarrow> g (f x) = g x) \<Longrightarrow> map g (upd_first P f xs) = map g xs"
  by (induction xs) auto

lemma length_upd_first [simp]: "length (upd_first P f xs) = length xs"
  by (induction xs) auto

lemma upd_first_distinct:
  "distinct (map t_index ts) \<Longrightarrow> upd_first (has_index i) f ts = map (\<lambda>t. if t_index t = i then f t else t) ts"
proof (induction ts)
  case Nil
  show ?case by simp
next
  case (Cons t ts)
  show ?case
  proof (cases "t_index t = i")
    case True
    with Cons.prems have "\<forall>u\<in>set ts. t_index u \<noteq> i" by (auto simp: image_iff)
    then have "map (\<lambda>t. if t_index t = i then f t else t) ts = ts" by (induction ts) auto
    with True show ?thesis by (simp add: has_index_def)
  next
    case False
    with Cons show ?thesis by (simp add: has_index_def)
  qed
qed

text \<open>The fields of a header of one row are the fields of its columns.\<close>

lemma place_flat:
  assumes "col_colspan c \<le> 1" and "col_rowspan c \<le> 1" and "k < n"
  shows "place_column 0 [map Some fs @ replicate (n - k) None] c =
     Some [map Some (fs @ [case col_field c of None \<Rightarrow> [] | Some x \<Rightarrow> x]) @ replicate (n - Suc k) None]"
proof -
  obtain m where m: "n - k = Suc m" "n - Suc k = m" using assms(3) by (metis Suc_diff_Suc)
  have i: "index_where (\<lambda>x. x = None) (map Some fs @ None # replicate m None) = Some (length fs)"
    by (induction fs) simp_all
  have "span (col_colspan c) = 1" "span (col_rowspan c) = 1" using assms by (auto simp: span_def)
  then show ?thesis
    unfolding place_column_def m by (simp add: i Let_def set_at_def list_update_append)
qed

lemma place_flat_row:
  assumes "\<forall>c\<in>set cs. col_colspan c \<le> 1 \<and> col_rowspan c \<le> 1" and "k + length cs \<le> n"
  shows "foldM (place_column 0) [map Some fs @ replicate (n - k) None] cs =
     Some [map Some (fs @ map (\<lambda>c. case col_field c of None \<Rightarrow> [] | Some x \<Rightarrow> x) cs) @ replicate (n - k - length cs) None]"
  using assms
proof (induction cs arbitrary: fs k)
  case Nil
  then show ?case by simp
next
  case (Cons c cs)
  then have "k < n" by simp
  with Cons.prems place_flat [of c k n fs]
  have "place_column 0 [map Some fs @ replicate (n - k) None] c =
     Some [map Some (fs @ [case col_field c of None \<Rightarrow> [] | Some x \<Rightarrow> x]) @ replicate (n - Suc k) None]" by simp
  with Cons.prems Cons.IH [of "Suc k" "fs @ [case col_field c of None \<Rightarrow> [] | Some x \<Rightarrow> x]"] show ?case by simp
qed

lemma flat_fields:
  assumes "\<forall>c\<in>set cs. col_colspan c \<le> 1 \<and> col_rowspan c \<le> 1"
  shows "column_fields [cs] = Some (map (\<lambda>c. Some (case col_field c of None \<Rightarrow> [] | Some x \<Rightarrow> x)) cs)"
proof -
  have "sum_list (map (\<lambda>c. span (col_colspan c)) cs) = length cs"
    using assms by (induction cs) (auto simp: span_def le_Suc_eq)
  then have "header_width [cs] = length cs" by (simp add: header_width_def)
  with place_flat_row [OF assms, of 0 "length cs" "[]"] show ?thesis
    by (simp add: column_fields_def)
qed

end
