(* ===== verification/Dg_Select.thy ===== *)
theory Dg_Select
  imports Dg_State
begin

text \<open>
  Selection and checking of rows in \<open>js/plugins/jquery.datagrid.js\<close>: \<open>_97\<close>, \<open>_98\<close>, \<open>_121\<close>, \<open>_11c\<close>
  (select), \<open>_94\<close>, \<open>_95\<close>, \<open>_126\<close>, \<open>_12c\<close> (check), which call each other once through
  \<open>checkOnSelect\<close> and \<open>selectOnCheck\<close>; the methods built on them, the restoring of the selection
  after a load (\<open>_fd\<close>) and the events of the rows and of the header boxes.

  A call with a row index that no row has works on \<open>undefined\<close> as its row: without an id field it only calls the callbacks with it, with one it throws, or puts \<open>undefined\<close>
  into an empty array of selected or checked rows.  Arrays that hold \<open>undefined\<close> are not modelled: the result of such a call is \<open>None\<close>, and the
  properties name the operations that stay on the page (\<open>on_page\<close>).
\<close>

section \<open>Marks\<close>

text \<open>The boxes of a row element.\<close>

definition tick :: "bool \<Rightarrow> tr \<Rightarrow> tr" where
  "tick b t = t\<lparr>t_cells := map (\<lambda>d. if d_check d then d\<lparr>d_checked := b\<rparr> else d) (t_cells t)\<rparr>"

definition with_id :: "(grid \<Rightarrow> grid) \<Rightarrow> grid \<Rightarrow> grid" where
  "with_id f s = (if o_idField s = None then s else f s)"

definition mark_sel :: "nat \<Rightarrow> rid \<Rightarrow> grid \<Rightarrow> grid" where
  "mark_sel i r s =
     upd_row i (\<lambda>t. t\<lparr>t_selected := True\<rparr>)
       (with_id (\<lambda>s. s\<lparr>g_selected := arr_add_id loose_eq (row_key s) r (g_selected s)\<rparr>) s)"

definition unmark_sel :: "nat \<Rightarrow> rid \<Rightarrow> grid \<Rightarrow> grid" where
  "unmark_sel i r s =
     with_id (\<lambda>s. s\<lparr>g_selected := arr_remove_id loose_eq (row_key s) (row_key s r) (g_selected s)\<rparr>)
       (upd_row i (\<lambda>t. t\<lparr>t_selected := False\<rparr>) s)"

definition mark_sel_all :: "grid \<Rightarrow> grid" where
  "mark_sel_all s =
     with_id (\<lambda>s. s\<lparr>g_selected := fold (arr_add_id loose_eq (row_key s)) (get_rows s) (g_selected s)\<rparr>)
       (upd_all t_live (\<lambda>t. t\<lparr>t_selected := True\<rparr>) s)"

definition unmark_sel_all :: "grid \<Rightarrow> grid" where
  "unmark_sel_all s =
     with_id (\<lambda>s. s\<lparr>g_selected := fold (\<lambda>r. arr_remove_id loose_eq (row_key s) (row_key s r)) (get_rows s) (g_selected s)\<rparr>)
       (upd_all t_selected (\<lambda>t. t\<lparr>t_selected := False\<rparr>) s)"

definition all_checked :: "grid \<Rightarrow> bool" where
  "all_checked s \<longleftrightarrow> length (filter t_checked (g_body2 s)) = length (get_rows s)"

definition mark_chk :: "nat \<Rightarrow> rid \<Rightarrow> grid \<Rightarrow> grid" where
  "mark_chk i r s =
     (let s = upd_row i (\<lambda>t. tick True (t\<lparr>t_checked := True\<rparr>)) s;
          s = (if all_checked s then s\<lparr>g_headCheck := True\<rparr> else s)
      in with_id (\<lambda>s. s\<lparr>g_checked := arr_add_id loose_eq (row_key s) r (g_checked s)\<rparr>) s)"

definition unmark_chk :: "nat \<Rightarrow> rid \<Rightarrow> grid \<Rightarrow> grid" where
  "unmark_chk i r s =
     (let s = upd_row i (\<lambda>t. tick False (t\<lparr>t_checked := False\<rparr>)) s; s = s\<lparr>g_headCheck := False\<rparr>
      in with_id (\<lambda>s. s\<lparr>g_checked := arr_remove_id loose_eq (row_key s) (row_key s r) (g_checked s)\<rparr>) s)"

definition mark_chk_all :: "grid \<Rightarrow> grid" where
  "mark_chk_all s =
     (let s = upd_all t_live (\<lambda>t. tick True (t\<lparr>t_checked := True\<rparr>)) s; s = s\<lparr>g_headCheck := True\<rparr>
      in with_id (\<lambda>s. s\<lparr>g_checked := fold (arr_add_id loose_eq (row_key s)) (get_rows s) (g_checked s)\<rparr>) s)"

definition unmark_chk_all :: "grid \<Rightarrow> grid" where
  "unmark_chk_all s =
     (let s = upd_all t_checked (\<lambda>t. tick False (t\<lparr>t_checked := False\<rparr>)) s; s = s\<lparr>g_headCheck := False\<rparr>
      in with_id (\<lambda>s. s\<lparr>g_checked := fold (\<lambda>r. arr_remove_id loose_eq (row_key s) (row_key s r)) (get_rows s) (g_checked s)\<rparr>) s)"

section \<open>Select and check\<close>

text \<open>
  Each operation with the call it makes on the other mark in the middle (\<open>casc\<close>); the third
  argument of the code, true in that inner call, stops the cascade there.
\<close>

definition select_all_with :: "(grid \<Rightarrow> grid) \<Rightarrow> grid \<Rightarrow> grid" where
  "select_all_with casc s = (let s = mark_sel_all (casc s) in dg_emit (OnSelectAll (get_rows s)) s)"

definition unselect_all_with :: "(grid \<Rightarrow> grid) \<Rightarrow> grid \<Rightarrow> grid" where
  "unselect_all_with casc s = (let s = unmark_sel_all (casc s) in dg_emit (OnUnselectAll (get_rows s)) s)"

definition check_all_with :: "(grid \<Rightarrow> grid) \<Rightarrow> grid \<Rightarrow> grid" where
  "check_all_with casc s = (let s = mark_chk_all (casc s) in dg_emit (OnCheckAll (get_rows s)) s)"

definition uncheck_all_with :: "(grid \<Rightarrow> grid) \<Rightarrow> grid \<Rightarrow> grid" where
  "uncheck_all_with casc s = (let s = unmark_chk_all (casc s) in dg_emit (OnUncheckAll (get_rows s)) s)"

definition select_with :: "grid_env \<Rightarrow> (grid \<Rightarrow> grid) \<Rightarrow> nat \<Rightarrow> rid \<Rightarrow> grid \<Rightarrow> grid" where
  "select_with E casc i r s =
     (if \<not> e_before E BeforeSelect i (g_store s r) then s
      else
        let s = (if o_singleSelect s then (unselect_all_with id s)\<lparr>g_selected := []\<rparr> else s)
        in dg_emit (OnSelect i r) (mark_sel i r (casc s)))"

definition unselect_with :: "grid_env \<Rightarrow> (grid \<Rightarrow> grid) \<Rightarrow> nat \<Rightarrow> rid \<Rightarrow> grid \<Rightarrow> grid" where
  "unselect_with E casc i r s =
     (if \<not> e_before E BeforeUnselect i (g_store s r) then s
      else dg_emit (OnUnselect i r) (unmark_sel i r (casc s)))"

definition check_with :: "grid_env \<Rightarrow> (grid \<Rightarrow> grid) \<Rightarrow> nat \<Rightarrow> rid \<Rightarrow> grid \<Rightarrow> grid" where
  "check_with E casc i r s =
     (if \<not> e_before E BeforeCheck i (g_store s r) then s
      else
        let s = (if o_singleSelect s \<and> o_selectOnCheck s then (uncheck_all_with id s)\<lparr>g_checked := []\<rparr> else s)
        in dg_emit (OnCheck i r) (mark_chk i r (casc s)))"

definition uncheck_with :: "grid_env \<Rightarrow> (grid \<Rightarrow> grid) \<Rightarrow> nat \<Rightarrow> rid \<Rightarrow> grid \<Rightarrow> grid" where
  "uncheck_with E casc i r s =
     (if \<not> e_before E BeforeUncheck i (g_store s r) then s
      else dg_emit (OnUncheck i r) (unmark_chk i r (casc s)))"

definition on_row :: "(rid \<Rightarrow> grid \<Rightarrow> grid) \<Rightarrow> nat \<Rightarrow> grid \<Rightarrow> grid option" where
  "on_row f i s = map_option (\<lambda>r. f r s) (get_row s i)"

text \<open>\<open>_97\<close>, \<open>_98\<close>, \<open>_94\<close>, \<open>_95\<close> and their forms for all rows, as the methods call them.\<close>

definition select_row :: "grid_env \<Rightarrow> nat \<Rightarrow> grid \<Rightarrow> grid option" where
  "select_row E i s =
     on_row (\<lambda>r. select_with E (\<lambda>s. if o_checkOnSelect s then check_with E id i r s else s) i r) i s"

definition unselect_row :: "grid_env \<Rightarrow> nat \<Rightarrow> grid \<Rightarrow> grid option" where
  "unselect_row E i s =
     on_row (\<lambda>r. unselect_with E (\<lambda>s. if o_checkOnSelect s then uncheck_with E id i r s else s) i r) i s"

definition check_row :: "grid_env \<Rightarrow> nat \<Rightarrow> grid \<Rightarrow> grid option" where
  "check_row E i s =
     on_row (\<lambda>r. check_with E (\<lambda>s. if o_selectOnCheck s then select_with E id i r s else s) i r) i s"

definition uncheck_row :: "grid_env \<Rightarrow> nat \<Rightarrow> grid \<Rightarrow> grid option" where
  "uncheck_row E i s =
     on_row (\<lambda>r. uncheck_with E (\<lambda>s. if o_selectOnCheck s then unselect_with E id i r s else s) i r) i s"

definition select_all :: "grid \<Rightarrow> grid" where
  "select_all s = select_all_with (\<lambda>s. if o_checkOnSelect s then check_all_with id s else s) s"

definition unselect_all :: "grid \<Rightarrow> grid" where
  "unselect_all s = unselect_all_with (\<lambda>s. if o_checkOnSelect s then uncheck_all_with id s else s) s"

definition check_all :: "grid \<Rightarrow> grid" where
  "check_all s = check_all_with (\<lambda>s. if o_selectOnCheck s then select_all_with id s else s) s"

definition uncheck_all :: "grid \<Rightarrow> grid" where
  "uncheck_all s = uncheck_all_with (\<lambda>s. if o_selectOnCheck s then unselect_all_with id s else s) s"

text \<open>The methods that empty the arrays, rows of other pages included.\<close>

definition clear_selections :: "grid \<Rightarrow> grid" where
  "clear_selections s =
     (let s = unselect_all (s\<lparr>g_selected := []\<rparr>) in if o_checkOnSelect s then s\<lparr>g_checked := []\<rparr> else s)"

definition clear_checked :: "grid \<Rightarrow> grid" where
  "clear_checked s =
     (let s = uncheck_all (s\<lparr>g_checked := []\<rparr>) in if o_selectOnCheck s then s\<lparr>g_selected := []\<rparr> else s)"

definition select_record :: "grid_env \<Rightarrow> jsval \<Rightarrow> grid \<Rightarrow> grid option" where
  "select_record E k s =
     (if o_idField s = None then Some s
      else case row_index (RowId k) s of None \<Rightarrow> Some s | Some i \<Rightarrow> select_row E i s)"

text \<open>\<open>_108\<close>, \<open>_10b\<close> and \<open>getSelected\<close>: without an id field, the rows marked on the page.\<close>

definition marked_rows :: "(tr \<Rightarrow> bool) \<Rightarrow> grid \<Rightarrow> rid list" where
  "marked_rows P s = List.map_filter (\<lambda>t. if P t then get_row s (t_index t) else None) (g_body2 s)"

definition get_selections :: "grid \<Rightarrow> rid list" where
  "get_selections s = (if o_idField s = None then marked_rows t_selected s else g_selected s)"

definition get_checked :: "grid \<Rightarrow> rid list" where
  "get_checked s = (if o_idField s = None then marked_rows t_checked s else g_checked s)"

definition get_selected :: "grid \<Rightarrow> rid option" where
  "get_selected s = (case get_selections s of [] \<Rightarrow> None | r # _ \<Rightarrow> Some r)"

section \<open>After a load: \<open>_fd\<close>\<close>

definition restore_row :: "grid_env \<Rightarrow> nat \<Rightarrow> rid \<Rightarrow> grid \<Rightarrow> grid" where
  "restore_row E i r s =
     (let (a, sel) = arr_refresh loose_eq (row_key s) r (g_selected s);
          s = s\<lparr>g_selected := a\<rparr>;
          s = (if sel then select_with E id i r s else s);
          (c, chk) = arr_refresh loose_eq (row_key s) r (g_checked s);
          s = s\<lparr>g_checked := c\<rparr>
      in if chk then check_with E id i r s else s)"

definition set_selection_state :: "grid_env \<Rightarrow> grid \<Rightarrow> grid" where
  "set_selection_state E s =
     (let s = s\<lparr>g_headCheck := False\<rparr> in
      if o_idField s = None then s
      else (fold (\<lambda>(i, r). restore_row E i r) (enumerate 0 (get_rows s)) (s\<lparr>g_mute := True\<rparr>))\<lparr>g_mute := False\<rparr>)"

section \<open>The events of the rows\<close>

text \<open>
  The element under the mouse: the box of a cell (whose state the browser has already toggled), a
  cell, or the row outside its cells.
\<close>

datatype row_target = OnBox | OnCell "string option" | OnRow

definition box_checked :: "tr \<Rightarrow> bool" where
  "box_checked t = list_ex (\<lambda>d. d_check d \<and> d_checked d) (t_cells t)"

definition click_row :: "grid_env \<Rightarrow> bool \<Rightarrow> bool \<Rightarrow> nat \<Rightarrow> grid \<Rightarrow> grid option" where
  "click_row E ctrl shift i s =
     (let toggle = (\<lambda>s. if (case get_tr s i of None \<Rightarrow> False | Some t \<Rightarrow> t_selected t)
                        then unselect_row E i s else select_row E i s) in
      if o_singleSelect s then select_row E i s
      else if o_ctrlSelect s then
        (if ctrl then toggle s
         else if shift then
           (let s = clear_selections s; l = (case g_lastSelected s of None \<Rightarrow> 0 | Some k \<Rightarrow> k)
            in foldM (\<lambda>s k. select_row E k s) s [min l i..<Suc (max l i)])
         else map_option (\<lambda>s. s\<lparr>g_lastSelected := Some i\<rparr>) (select_row E i (clear_selections s)))
      else toggle s)"

definition row_click :: "grid_env \<Rightarrow> row_target \<Rightarrow> bool \<Rightarrow> bool \<Rightarrow> nat \<Rightarrow> grid \<Rightarrow> grid option" where
  "row_click E tg ctrl shift i s =
     (case get_row s i of
        None \<Rightarrow> None
      | Some r \<Rightarrow>
          (case tg of
             OnBox \<Rightarrow>
               let now = (case get_tr s i of None \<Rightarrow> True | Some t \<Rightarrow> \<not> box_checked t) in
               if o_singleSelect s \<and> o_selectOnCheck s then check_row E i (upd_row i (tick (\<not> now)) s)
               else if now then check_row E i (upd_row i (tick False) s)
               else uncheck_row E i (upd_row i (tick True) s)
           | _ \<Rightarrow>
               let s = (case tg of OnCell f \<Rightarrow>
                          dg_emit (OnClickCell i f (case f of None \<Rightarrow> VUndef | Some x \<Rightarrow> g_store s r x)) s | _ \<Rightarrow> s)
               in map_option (dg_emit (OnClickRow i r)) (click_row E ctrl shift i s)))"

definition row_dblclick :: "row_target \<Rightarrow> nat \<Rightarrow> grid \<Rightarrow> grid option" where
  "row_dblclick tg i s =
     (case get_row s i of
        None \<Rightarrow> None
      | Some r \<Rightarrow>
          let s = (case tg of OnCell f \<Rightarrow>
                     dg_emit (OnDblClickCell i f (case f of None \<Rightarrow> VUndef | Some x \<Rightarrow> g_store s r x)) s | _ \<Rightarrow> s)
          in Some (dg_emit (OnDblClickRow i r) s))"

definition row_contextmenu :: "nat \<Rightarrow> grid \<Rightarrow> grid option" where
  "row_contextmenu i s = on_row (\<lambda>r. dg_emit (OnRowContextMenu i r)) i s"

text \<open>\<open>_8e\<close> and \<open>_87\<close>: the row under the mouse.\<close>

definition highlight_row :: "nat \<Rightarrow> grid \<Rightarrow> grid" where
  "highlight_row i s =
     (let s = (case g_highlight s of None \<Rightarrow> s | Some k \<Rightarrow> upd_row k (\<lambda>t. t\<lparr>t_over := False\<rparr>) s)
      in (upd_row i (\<lambda>t. t\<lparr>t_over := True\<rparr>) s)\<lparr>g_highlight := Some i\<rparr>)"

definition row_mouse :: "bool \<Rightarrow> nat \<Rightarrow> grid \<Rightarrow> grid" where
  "row_mouse over i s =
     (if g_resizing s then s else if over then highlight_row i s else upd_row i (\<lambda>t. t\<lparr>t_over := False\<rparr>) s)"

text \<open>A click on the box of the header (442-452); the browser toggles it first.\<close>

definition header_check :: "grid \<Rightarrow> grid" where
  "header_check s =
     (if o_singleSelect s \<and> o_selectOnCheck s then s
      else let s = s\<lparr>g_headCheck := \<not> g_headCheck s\<rparr> in if g_headCheck s then check_all s else uncheck_all s)"

section \<open>Fields each mark leaves alone\<close>

lemma upd_row_keeps [simp]:
  "g_rows (upd_row i f s) = g_rows s" "g_store (upd_row i f s) = g_store s" "o_idField (upd_row i f s) = o_idField s"
  "g_selected (upd_row i f s) = g_selected s" "g_checked (upd_row i f s) = g_checked s"
  "g_headCheck (upd_row i f s) = g_headCheck s" "o_singleSelect (upd_row i f s) = o_singleSelect s"
  "o_checkOnSelect (upd_row i f s) = o_checkOnSelect s" "o_selectOnCheck (upd_row i f s) = o_selectOnCheck s"
  "get_rows (upd_row i f s) = get_rows s" "row_key (upd_row i f s) = row_key s"
  by (simp_all add: upd_row_def get_rows_def row_key_def fun_eq_iff split: option.split)

lemma upd_all_keeps [simp]:
  "g_rows (upd_all P f s) = g_rows s" "g_store (upd_all P f s) = g_store s" "o_idField (upd_all P f s) = o_idField s"
  "g_selected (upd_all P f s) = g_selected s" "g_checked (upd_all P f s) = g_checked s"
  "g_headCheck (upd_all P f s) = g_headCheck s" "o_singleSelect (upd_all P f s) = o_singleSelect s"
  "o_checkOnSelect (upd_all P f s) = o_checkOnSelect s" "o_selectOnCheck (upd_all P f s) = o_selectOnCheck s"
  "get_rows (upd_all P f s) = get_rows s" "row_key (upd_all P f s) = row_key s"
  by (simp_all add: upd_all_def get_rows_def row_key_def fun_eq_iff split: option.split)

lemma dg_emit_keeps [simp]:
  "g_rows (dg_emit e s) = g_rows s" "g_store (dg_emit e s) = g_store s" "o_idField (dg_emit e s) = o_idField s"
  "g_selected (dg_emit e s) = g_selected s" "g_checked (dg_emit e s) = g_checked s"
  "g_headCheck (dg_emit e s) = g_headCheck s" "o_singleSelect (dg_emit e s) = o_singleSelect s"
  "o_checkOnSelect (dg_emit e s) = o_checkOnSelect s" "o_selectOnCheck (dg_emit e s) = o_selectOnCheck s"
  "get_rows (dg_emit e s) = get_rows s" "row_key (dg_emit e s) = row_key s"
  "g_body1 (dg_emit e s) = g_body1 s" "g_body2 (dg_emit e s) = g_body2 s"
  by (simp_all add: dg_emit_def get_rows_def row_key_def fun_eq_iff split: option.split)

section \<open>The invariant\<close>

text \<open>
  \<open>keys_ok b\<close>: the grid has an id field, the ids of the page and of the two arrays are all numbers
  or all strings, those of the page are distinct.  \<open>page_ok\<close>: the row elements of the second view
  are those of the rows, in order.
\<close>

definition keys_ok :: "bool \<Rightarrow> grid \<Rightarrow> bool" where
  "keys_ok b s \<longleftrightarrow> o_idField s \<noteq> None \<and> row_key s ` (set (g_rows s) \<union> set (g_selected s) \<union> set (g_checked s)) \<subseteq> kind b
     \<and> distinct (map (row_key s) (g_rows s))"

definition page_ok :: "grid \<Rightarrow> bool" where
  "page_ok s \<longleftrightarrow> map t_index (g_body2 s) = [0..<length (g_rows s)] \<and> (\<forall>t\<in>set (g_body2 s). t_live t)"

text \<open>
  The contract of the marks, over the ids of the page in order: the two lists of ids, the marks
  of the row elements and the box of the header.
\<close>

record marks =
  m_sel :: "jsval list"
  m_fsel :: "bool list"
  m_chk :: "jsval list"
  m_fchk :: "bool list"
  m_head :: bool

definition key_insert :: "'a \<Rightarrow> 'a list \<Rightarrow> 'a list" where
  "key_insert k l = (if k \<in> set l then l else l @ [k])"

definition m_ok :: "jsval list \<Rightarrow> marks \<Rightarrow> bool" where
  "m_ok ks A \<longleftrightarrow> distinct (m_sel A) \<and> distinct (m_chk A) \<and> m_fsel A = map (\<lambda>k. k \<in> set (m_sel A)) ks
     \<and> m_fchk A = map (\<lambda>k. k \<in> set (m_chk A)) ks \<and> (ks \<noteq> [] \<longrightarrow> m_head A = list_all id (m_fchk A))"

definition m_select :: "jsval list \<Rightarrow> nat \<Rightarrow> marks \<Rightarrow> marks" where
  "m_select ks i A = A\<lparr>m_sel := key_insert (ks ! i) (m_sel A), m_fsel := (m_fsel A)[i := True]\<rparr>"

definition m_unselect :: "jsval list \<Rightarrow> nat \<Rightarrow> marks \<Rightarrow> marks" where
  "m_unselect ks i A = A\<lparr>m_sel := remove1 (ks ! i) (m_sel A), m_fsel := (m_fsel A)[i := False]\<rparr>"

definition m_select_all :: "jsval list \<Rightarrow> marks \<Rightarrow> marks" where
  "m_select_all ks A = A\<lparr>m_sel := fold key_insert ks (m_sel A), m_fsel := map (\<lambda>_. True) ks\<rparr>"

definition m_unselect_all :: "jsval list \<Rightarrow> marks \<Rightarrow> marks" where
  "m_unselect_all ks A = A\<lparr>m_sel := fold remove1 ks (m_sel A), m_fsel := map (\<lambda>_. False) ks\<rparr>"

definition m_check :: "jsval list \<Rightarrow> nat \<Rightarrow> marks \<Rightarrow> marks" where
  "m_check ks i A = (let f = (m_fchk A)[i := True] in
     A\<lparr>m_chk := key_insert (ks ! i) (m_chk A), m_fchk := f, m_head := m_head A \<or> list_all id f\<rparr>)"

definition m_uncheck :: "jsval list \<Rightarrow> nat \<Rightarrow> marks \<Rightarrow> marks" where
  "m_uncheck ks i A = A\<lparr>m_chk := remove1 (ks ! i) (m_chk A), m_fchk := (m_fchk A)[i := False], m_head := False\<rparr>"

definition m_check_all :: "jsval list \<Rightarrow> marks \<Rightarrow> marks" where
  "m_check_all ks A = A\<lparr>m_chk := fold key_insert ks (m_chk A), m_fchk := map (\<lambda>_. True) ks, m_head := True\<rparr>"

definition m_uncheck_all :: "jsval list \<Rightarrow> marks \<Rightarrow> marks" where
  "m_uncheck_all ks A = A\<lparr>m_chk := fold remove1 ks (m_chk A), m_fchk := map (\<lambda>_. False) ks, m_head := False\<rparr>"

definition m_no_sel :: "jsval list \<Rightarrow> marks \<Rightarrow> marks" where
  "m_no_sel ks A = A\<lparr>m_sel := [], m_fsel := map (\<lambda>_. False) ks\<rparr>"

definition m_no_chk :: "jsval list \<Rightarrow> marks \<Rightarrow> marks" where
  "m_no_chk ks A = A\<lparr>m_chk := [], m_fchk := map (\<lambda>_. False) ks, m_head := False\<rparr>"

lemma set_key_insert [simp]: "set (key_insert k l) = insert k (set l)"
  by (auto simp: key_insert_def)

lemma distinct_key_insert: "distinct l \<Longrightarrow> distinct (key_insert k l)"
  by (simp add: key_insert_def)

lemma fold_key_insert: "set (fold key_insert ks l) = set ks \<union> set l" "distinct l \<Longrightarrow> distinct (fold key_insert ks l)"
  by (induction ks arbitrary: l) (auto simp: distinct_key_insert)

lemma fold_remove1: "distinct l \<Longrightarrow> set (fold remove1 ks l) = set l - set ks" "distinct l \<Longrightarrow> distinct (fold remove1 ks l)"
proof (induction ks arbitrary: l)
  case (Cons k ks)
  case 1
  then have "distinct (remove1 k l)" by (rule distinct_remove1)
  with Cons(1) [OF this] 1 show ?case by (auto simp: set_remove1_eq)
next
  case (Cons k ks)
  case 2
  then have "distinct (remove1 k l)" by (rule distinct_remove1)
  from Cons(2) [OF this] show ?case by simp
qed simp_all

lemma map_upd_member:
  assumes "distinct ks" and "i < length ks"
  shows "(map P ks)[i := b] = map (\<lambda>k. if k = ks ! i then b else P k) ks"
  using assms by (intro nth_equalityI) (auto simp: nth_list_update nth_eq_iff_index_eq)

lemma m_select_ok: "distinct ks \<Longrightarrow> i < length ks \<Longrightarrow> m_ok ks A \<Longrightarrow> m_ok ks (m_select ks i A)"
  by (auto simp: m_ok_def m_select_def distinct_key_insert map_upd_member)

lemma m_unselect_ok: "distinct ks \<Longrightarrow> i < length ks \<Longrightarrow> m_ok ks A \<Longrightarrow> m_ok ks (m_unselect ks i A)"
  by (auto simp: m_ok_def m_unselect_def map_upd_member set_remove1_eq)

lemma m_select_all_ok: "m_ok ks A \<Longrightarrow> m_ok ks (m_select_all ks A)"
  by (auto simp: m_ok_def m_select_all_def fold_key_insert)

lemma m_unselect_all_ok: "m_ok ks A \<Longrightarrow> m_ok ks (m_unselect_all ks A)"
  by (auto simp: m_ok_def m_unselect_all_def fold_remove1)

lemma m_check_ok:
  assumes "distinct ks" and "i < length ks" and "m_ok ks A"
  shows "m_ok ks (m_check ks i A)"
proof -
  have "(m_fchk A)[i := True] = map (\<lambda>k. k \<in> insert (ks ! i) (set (m_chk A))) ks"
    using assms by (auto simp: m_ok_def map_upd_member)
  moreover have "m_head A \<Longrightarrow> list_all id (map (\<lambda>k. k \<in> insert (ks ! i) (set (m_chk A))) ks)"
    using assms by (auto simp: m_ok_def list_all_iff)
  ultimately show ?thesis using assms by (auto simp: m_ok_def m_check_def Let_def distinct_key_insert)
qed

lemma m_uncheck_ok:
  assumes "distinct ks" and "i < length ks" and "m_ok ks A"
  shows "m_ok ks (m_uncheck ks i A)"
proof -
  have f: "(m_fchk A)[i := False] = map (\<lambda>k. k \<in> set (m_chk A) - {ks ! i}) ks"
    using assms by (auto simp: m_ok_def map_upd_member)
  have "ks ! i \<in> set ks" using assms(2) by simp
  with f assms show ?thesis by (auto simp: m_ok_def m_uncheck_def list_all_iff set_remove1_eq)
qed

lemma m_check_all_ok: "m_ok ks A \<Longrightarrow> m_ok ks (m_check_all ks A)"
  by (auto simp: m_ok_def m_check_all_def fold_key_insert list_all_iff)

lemma m_uncheck_all_ok: "m_ok ks A \<Longrightarrow> m_ok ks (m_uncheck_all ks A)"
  by (auto simp: m_ok_def m_uncheck_all_def fold_remove1 list_all_iff)

lemma m_none_ok: "m_ok ks A \<Longrightarrow> m_ok ks (m_no_sel ks A)" "m_ok ks A \<Longrightarrow> m_ok ks (m_no_chk ks A)"
  by (auto simp: m_ok_def m_no_sel_def m_no_chk_def list_all_iff)

text \<open>The grid seen through that contract.\<close>

definition page_keys :: "grid \<Rightarrow> jsval list" where
  "page_keys s = map (row_key s) (g_rows s)"

definition marks_of :: "grid \<Rightarrow> marks" where
  "marks_of s = \<lparr>m_sel = map (row_key s) (g_selected s), m_fsel = map t_selected (g_body2 s),
     m_chk = map (row_key s) (g_checked s), m_fchk = map t_checked (g_body2 s), m_head = g_headCheck s\<rparr>"

definition grid_ok :: "bool \<Rightarrow> grid \<Rightarrow> bool" where
  "grid_ok b s \<longleftrightarrow> keys_ok b s \<and> page_ok s \<and> m_ok (page_keys s) (marks_of s)"

lemma page_length: "page_ok s \<Longrightarrow> length (g_body2 s) = length (g_rows s)"
  unfolding page_ok_def by (metis length_map length_upt minus_nat.diff_0)

lemma page_index: "page_ok s \<Longrightarrow> i < length (g_rows s) \<Longrightarrow> t_index (g_body2 s ! i) = i"
  using page_length [of s] unfolding page_ok_def by (metis add_0 length_map nth_map nth_upt)

lemma page_row_upd:
  assumes "page_ok s" and "\<And>t. t_index (f t) = t_index t" and "i < length (g_rows s)"
  shows "g_body2 (upd_row i f s) = (g_body2 s)[i := f (g_body2 s ! i)]"
proof -
  have "distinct (map t_index (g_body2 s))" using assms(1) by (simp add: page_ok_def)
  then have "g_body2 (upd_row i f s) = map (\<lambda>t. if t_index t = i then f t else t) (g_body2 s)"
    by (simp add: upd_row_def upd_first_distinct)
  also have "\<dots> = (g_body2 s)[i := f (g_body2 s ! i)]"
    using page_length [OF assms(1)] page_index [OF assms(1)] assms(3)
    by (intro nth_equalityI) (auto simp: nth_list_update)
  finally show ?thesis .
qed

lemma upd_first_all: "\<forall>x\<in>set xs. Q x \<Longrightarrow> (\<And>x. Q x \<Longrightarrow> Q (f x)) \<Longrightarrow> \<forall>x\<in>set (upd_first P f xs). Q x"
  by (induction xs) auto

lemma page_ok_row:
  assumes "page_ok s" and "\<And>t. t_index (f t) = t_index t" and "\<And>t. t_live (f t) = t_live t"
  shows "page_ok (upd_row i f s)"
proof -
  have "map t_index (upd_first (has_index i) f ts) = map t_index ts" for ts
    by (rule upd_first_map) (simp add: assms(2))
  moreover have "\<forall>t\<in>set ts. t_live t \<Longrightarrow> \<forall>t\<in>set (upd_first (has_index i) f ts). t_live t" for ts
    by (rule upd_first_all) (simp_all add: assms(3))
  ultimately show ?thesis using assms(1) unfolding page_ok_def by (auto simp: upd_row_def)
qed

lemma page_ok_all:
  assumes "page_ok s" and "\<And>t. t_index (f t) = t_index t" and "\<And>t. t_live (f t) = t_live t"
  shows "page_ok (upd_all P f s)"
  using assms by (auto simp: page_ok_def upd_all_def comp_def if_distrib cong: if_cong)

lemma tick_keeps [simp]:
  "t_index (tick b t) = t_index t" "t_live (tick b t) = t_live t" "t_selected (tick b t) = t_selected t"
  "t_checked (tick b t) = t_checked t"
  by (simp_all add: tick_def)

section \<open>The marks refine the contract\<close>

definition good :: "bool \<Rightarrow> grid \<Rightarrow> bool" where
  "good b s \<longleftrightarrow> keys_ok b s \<and> page_ok s"

text \<open>What no mark touches.\<close>

definition same_page :: "grid \<Rightarrow> grid \<Rightarrow> bool" where
  "same_page s t \<longleftrightarrow> g_rows t = g_rows s \<and> g_store t = g_store s \<and> o_idField t = o_idField s
     \<and> o_singleSelect t = o_singleSelect s \<and> o_checkOnSelect t = o_checkOnSelect s \<and> o_selectOnCheck t = o_selectOnCheck s"

lemma same_page_refl [simp]: "same_page s s"
  by (simp add: same_page_def)

lemma same_page_trans: "same_page s t \<Longrightarrow> same_page t u \<Longrightarrow> same_page s u"
  by (simp add: same_page_def)

lemma same_page_facts:
  assumes "same_page s t"
  shows "page_keys t = page_keys s" and "get_row t i = get_row s i" and "row_key t = row_key s"
  using assms by (simp_all add: same_page_def page_keys_def get_row_def row_key_def fun_eq_iff split: option.split)

lemma good_keys:
  assumes "good b s"
  shows "row_key s ` set (g_selected s) \<subseteq> kind b" and "row_key s ` set (g_checked s) \<subseteq> kind b"
    and "r \<in> set (g_rows s) \<Longrightarrow> row_key s r \<in> kind b" and "distinct (page_keys s)" and "o_idField s \<noteq> None"
  using assms by (auto simp: good_def keys_ok_def page_keys_def)

lemma get_row_set: "get_row s i = Some r \<Longrightarrow> i < length (g_rows s) \<and> r = g_rows s ! i \<and> r \<in> set (g_rows s)
   \<and> i < length (page_keys s) \<and> page_keys s ! i = row_key s r"
  by (auto simp: get_row_def page_keys_def split: if_splits)

lemma add_id_set: "set (arr_add_id eq key r a) \<subseteq> insert r (set a)"
  by (auto simp: arr_add_id_def)

lemma remove_id_set: "set (arr_remove_id eq key k a) \<subseteq> set a"
  unfolding arr_remove_id_def by (cases "index_where (\<lambda>x. eq (key x) k) a") (simp_all add: set_splice_del_subset)

lemma fold_add_set: "set (fold (arr_add_id eq key) rs a) \<subseteq> set rs \<union> set a"
proof (induction rs arbitrary: a)
  case (Cons r rs)
  show ?case using Cons [of "arr_add_id eq key r a"] add_id_set [of eq key r a] by auto
qed simp

lemma fold_remove_set: "set (fold (\<lambda>r. arr_remove_id eq key (f r)) rs a) \<subseteq> set a"
proof (induction rs arbitrary: a)
  case (Cons r rs)
  show ?case using Cons [of "arr_remove_id eq key (f r) a"] remove_id_set [of eq key "f r" a] by auto
qed simp

lemma fold_add_keys:
  assumes "key ` set a \<subseteq> kind b" and "key ` set rs \<subseteq> kind b"
  shows "map key (fold (arr_add_id loose_eq key) rs a) = fold key_insert (map key rs) (map key a)"
  using assms
proof (induction rs arbitrary: a)
  case (Cons r rs)
  have k: "key r \<in> kind b" using Cons.prems(2) by simp
  have "key ` set (arr_add_id loose_eq key r a) \<subseteq> kind b"
    using add_id_set [of loose_eq key r a] Cons.prems(1) k by auto
  from Cons.IH [OF this] Cons.prems(2) ids.add_id [OF Cons.prems(1) k] show ?case
    by (simp add: key_insert_def)
qed simp

lemma fold_remove_keys:
  assumes "key ` set a \<subseteq> kind b" and "key ` set rs \<subseteq> kind b"
  shows "map key (fold (\<lambda>r. arr_remove_id loose_eq key (key r)) rs a) = fold remove1 (map key rs) (map key a)"
  using assms
proof (induction rs arbitrary: a)
  case (Cons r rs)
  have k: "key r \<in> kind b" using Cons.prems(2) by simp
  have "key ` set (arr_remove_id loose_eq key (key r) a) \<subseteq> kind b"
    using remove_id_set [of loose_eq key "key r" a] Cons.prems(1) by auto
  from Cons.IH [OF this] Cons.prems(2) ids.remove_id [OF Cons.prems(1) k] show ?case by simp
qed simp

lemma good_page: "good b s \<Longrightarrow> page_ok s"
  by (simp add: good_def)

lemma rows_keys: "good b s \<Longrightarrow> row_key s ` set (get_rows s) \<subseteq> kind b"
  by (auto simp: get_rows_def dest: good_keys(3))

lemma good_upd_row:
  "good b s \<Longrightarrow> (\<And>t. t_index (f t) = t_index t) \<Longrightarrow> (\<And>t. t_live (f t) = t_live t) \<Longrightarrow> good b (upd_row i f s)"
  unfolding good_def by (simp add: page_ok_row keys_ok_def)

lemma good_upd_all:
  "good b s \<Longrightarrow> (\<And>t. t_index (f t) = t_index t) \<Longrightarrow> (\<And>t. t_live (f t) = t_live t) \<Longrightarrow> good b (upd_all P f s)"
  unfolding good_def by (simp add: page_ok_all keys_ok_def)

lemma good_arrays:
  assumes "good b s" and "set a \<subseteq> set (g_rows s) \<union> set (g_selected s) \<union> set (g_checked s)"
  shows "good b (s\<lparr>g_selected := a\<rparr>)" and "good b (s\<lparr>g_checked := a\<rparr>)" and "good b (s\<lparr>g_headCheck := h\<rparr>)"
proof -
  have k: "row_key (s\<lparr>g_selected := a\<rparr>) = row_key s" "row_key (s\<lparr>g_checked := a\<rparr>) = row_key s"
    "row_key (s\<lparr>g_headCheck := h\<rparr>) = row_key s" by (simp_all add: row_key_def fun_eq_iff split: option.split)
  show "good b (s\<lparr>g_selected := a\<rparr>)" "good b (s\<lparr>g_checked := a\<rparr>)" "good b (s\<lparr>g_headCheck := h\<rparr>)"
    using assms unfolding good_def keys_ok_def page_ok_def k by auto
qed

lemma map_row_upd:
  assumes "page_ok s" and "\<And>t. t_index (f t) = t_index t" and "i < length (g_rows s)"
  shows "map g (g_body2 (upd_row i f s)) = (map g (g_body2 s))[i := g (f (g_body2 s ! i))]"
  using page_row_upd [OF assms] by (simp add: map_update)

lemma map_row_same: "(\<And>t. g (f t) = g t) \<Longrightarrow> map g (g_body2 (upd_row i f s)) = map g (g_body2 s)"
  by (simp add: upd_row_def upd_first_map)

lemma map_all_same: "(\<And>t. g (f t) = g t) \<Longrightarrow> map g (g_body2 (upd_all P f s)) = map g (g_body2 s)"
  by (simp add: upd_all_def)

lemma row_key_upd [simp]:
  "row_key (s\<lparr>g_selected := a\<rparr>) = row_key s" "row_key (s\<lparr>g_checked := a\<rparr>) = row_key s"
  "row_key (s\<lparr>g_headCheck := h\<rparr>) = row_key s" "row_key (s\<lparr>g_body1 := x\<rparr>) = row_key s"
  "row_key (s\<lparr>g_body2 := x\<rparr>) = row_key s" "row_key (s\<lparr>g_mute := m\<rparr>) = row_key s" "row_key (s\<lparr>g_log := l\<rparr>) = row_key s"
  by (simp_all add: row_key_def fun_eq_iff split: option.split)

lemma with_id_Some: "o_idField s \<noteq> None \<Longrightarrow> with_id f s = f s"
  unfolding with_id_def by (simp only: if_False)

lemma mark_sel_refines:
  assumes "good b s" and "get_row s i = Some r"
  shows "good b (mark_sel i r s)" and "marks_of (mark_sel i r s) = m_select (page_keys s) i (marks_of s)"
    and "same_page s (mark_sel i r s)"
proof -
  note r = get_row_set [OF assms(2)] and k = good_keys [OF assms(1)]
  let ?a = "arr_add_id loose_eq (row_key s) r (g_selected s)"
  have w: "mark_sel i r s = upd_row i (\<lambda>t. t\<lparr>t_selected := True\<rparr>) (s\<lparr>g_selected := ?a\<rparr>)"
    by (simp only: mark_sel_def with_id_Some [OF k(5)])
  have g: "good b (s\<lparr>g_selected := ?a\<rparr>)"
    using good_arrays(1) [OF assms(1), of ?a] add_id_set [of loose_eq "row_key s" r "g_selected s"] r by auto
  show "good b (mark_sel i r s)" unfolding w by (rule good_upd_row [OF g]) simp_all
  show "same_page s (mark_sel i r s)" unfolding w by (simp add: same_page_def)
  have "map (row_key s) ?a = key_insert (row_key s r) (map (row_key s) (g_selected s))"
    using ids.add_id [OF k(1) k(3)] r by (simp add: key_insert_def)
  moreover have "map t_selected (g_body2 (upd_row i (\<lambda>t. t\<lparr>t_selected := True\<rparr>) (s\<lparr>g_selected := ?a\<rparr>))) =
      (map t_selected (g_body2 s))[i := True]"
    using good_page [OF g] r by (subst map_row_upd) simp_all
  moreover have "map t_checked (g_body2 (upd_row i (\<lambda>t. t\<lparr>t_selected := True\<rparr>) (s\<lparr>g_selected := ?a\<rparr>))) =
      map t_checked (g_body2 s)"
    by (subst map_row_same) simp_all
  ultimately show "marks_of (mark_sel i r s) = m_select (page_keys s) i (marks_of s)"
    using r unfolding w by (simp add: marks_of_def m_select_def)
qed

lemma unmark_sel_refines:
  assumes "good b s" and "get_row s i = Some r"
  shows "good b (unmark_sel i r s)" and "marks_of (unmark_sel i r s) = m_unselect (page_keys s) i (marks_of s)"
    and "same_page s (unmark_sel i r s)"
proof -
  note r = get_row_set [OF assms(2)] and k = good_keys [OF assms(1)]
  let ?u = "upd_row i (\<lambda>t. t\<lparr>t_selected := False\<rparr>) s"
  let ?a = "arr_remove_id loose_eq (row_key s) (row_key s r) (g_selected s)"
  have w: "unmark_sel i r s = ?u\<lparr>g_selected := ?a\<rparr>"
    using k(5) by (simp add: unmark_sel_def with_id_Some del: not_None_eq)
  have g: "good b ?u" by (rule good_upd_row [OF assms(1)]) simp_all
  show "good b (unmark_sel i r s)"
    unfolding w using good_arrays(1) [OF g, of ?a] remove_id_set [of loose_eq "row_key s" "row_key s r" "g_selected s"] by auto
  show "same_page s (unmark_sel i r s)" unfolding w by (simp add: same_page_def)
  have "map (row_key s) ?a = remove1 (row_key s r) (map (row_key s) (g_selected s))"
    using ids.remove_id [OF k(1) k(3)] r by simp
  moreover have "map t_selected (g_body2 ?u) = (map t_selected (g_body2 s))[i := False]"
    using good_page [OF assms(1)] r by (subst map_row_upd) simp_all
  moreover have "map t_checked (g_body2 ?u) = map t_checked (g_body2 s)" by (subst map_row_same) simp_all
  ultimately show "marks_of (unmark_sel i r s) = m_unselect (page_keys s) i (marks_of s)"
    using r unfolding w by (simp add: marks_of_def m_unselect_def)
qed

lemma mark_sel_all_refines:
  assumes "good b s"
  shows "good b (mark_sel_all s)" and "marks_of (mark_sel_all s) = m_select_all (page_keys s) (marks_of s)"
    and "same_page s (mark_sel_all s)"
proof -
  note k = good_keys [OF assms]
  let ?u = "upd_all t_live (\<lambda>t. t\<lparr>t_selected := True\<rparr>) s"
  let ?a = "fold (arr_add_id loose_eq (row_key s)) (g_rows s) (g_selected s)"
  have w: "mark_sel_all s = ?u\<lparr>g_selected := ?a\<rparr>"
    using k(5) by (simp add: mark_sel_all_def with_id_Some get_rows_def del: not_None_eq)
  have g: "good b ?u" by (rule good_upd_all [OF assms]) simp_all
  show "good b (mark_sel_all s)"
    unfolding w using good_arrays(1) [OF g, of ?a] fold_add_set [of loose_eq "row_key s" "g_rows s" "g_selected s"] by auto
  show "same_page s (mark_sel_all s)" unfolding w by (simp add: same_page_def)
  have "map (row_key s) ?a = fold key_insert (page_keys s) (map (row_key s) (g_selected s))"
    using fold_add_keys [OF k(1)] rows_keys [OF assms] by (simp add: page_keys_def get_rows_def)
  moreover have "map t_selected (g_body2 ?u) = map (\<lambda>_. True) (page_keys s)"
    using good_page [OF assms] page_length [of s]
    by (intro nth_equalityI) (auto simp: upd_all_def page_ok_def page_keys_def)
  moreover have "map t_checked (g_body2 ?u) = map t_checked (g_body2 s)" by (subst map_all_same) simp_all
  ultimately show "marks_of (mark_sel_all s) = m_select_all (page_keys s) (marks_of s)"
    unfolding w by (simp add: marks_of_def m_select_all_def)
qed

lemma unmark_sel_all_refines:
  assumes "good b s"
  shows "good b (unmark_sel_all s)" and "marks_of (unmark_sel_all s) = m_unselect_all (page_keys s) (marks_of s)"
    and "same_page s (unmark_sel_all s)"
proof -
  note k = good_keys [OF assms]
  let ?u = "upd_all t_selected (\<lambda>t. t\<lparr>t_selected := False\<rparr>) s"
  let ?a = "fold (\<lambda>r. arr_remove_id loose_eq (row_key s) (row_key s r)) (g_rows s) (g_selected s)"
  have w: "unmark_sel_all s = ?u\<lparr>g_selected := ?a\<rparr>"
    using k(5) by (simp add: unmark_sel_all_def with_id_Some get_rows_def del: not_None_eq)
  have g: "good b ?u" by (rule good_upd_all [OF assms]) simp_all
  show "good b (unmark_sel_all s)"
    unfolding w using good_arrays(1) [OF g, of ?a] fold_remove_set [of loose_eq "row_key s" "row_key s" "g_rows s" "g_selected s"]
    by auto
  show "same_page s (unmark_sel_all s)" unfolding w by (simp add: same_page_def)
  have "map (row_key s) ?a = fold remove1 (page_keys s) (map (row_key s) (g_selected s))"
    using fold_remove_keys [OF k(1)] rows_keys [OF assms] by (simp add: page_keys_def get_rows_def)
  moreover have "map t_selected (g_body2 ?u) = map (\<lambda>_. False) (page_keys s)"
    using page_length [OF good_page [OF assms]]
    by (intro nth_equalityI) (auto simp: upd_all_def page_keys_def)
  moreover have "map t_checked (g_body2 ?u) = map t_checked (g_body2 s)" by (subst map_all_same) simp_all
  ultimately show "marks_of (unmark_sel_all s) = m_unselect_all (page_keys s) (marks_of s)"
    unfolding w by (simp add: marks_of_def m_unselect_all_def)
qed

lemma all_checked_flags:
  assumes "page_ok s"
  shows "all_checked s \<longleftrightarrow> list_all id (map t_checked (g_body2 s))"
proof -
  have "length (filter t_checked ts) = length ts \<longleftrightarrow> list_all id (map t_checked ts)" for ts
  proof (induction ts)
    case (Cons t ts)
    have "length (filter t_checked ts) \<noteq> Suc (length ts)" using length_filter_le [of t_checked ts] by linarith
    with Cons show ?case by auto
  qed simp
  then show ?thesis unfolding all_checked_def get_rows_def page_length [OF assms, symmetric] .
qed

lemma mark_chk_refines:
  assumes "good b s" and "get_row s i = Some r"
  shows "good b (mark_chk i r s)" and "marks_of (mark_chk i r s) = m_check (page_keys s) i (marks_of s)"
    and "same_page s (mark_chk i r s)"
proof -
  note r = get_row_set [OF assms(2)] and k = good_keys [OF assms(1)]
  let ?u = "upd_row i (\<lambda>t. tick True (t\<lparr>t_checked := True\<rparr>)) s"
  let ?h = "if all_checked ?u then ?u\<lparr>g_headCheck := True\<rparr> else ?u"
  let ?a = "arr_add_id loose_eq (row_key s) r (g_checked s)"
  have w: "mark_chk i r s = ?h\<lparr>g_checked := ?a\<rparr>"
    using k(5) by (simp add: mark_chk_def with_id_Some Let_def del: not_None_eq)
  have g: "good b ?u" by (rule good_upd_row [OF assms(1)]) simp_all
  have h: "good b ?h" using good_arrays(3) [OF g, of "[]" True] g by simp
  show "good b (mark_chk i r s)"
    unfolding w by (rule good_arrays(2) [OF h]) (use add_id_set [of loose_eq "row_key s" r "g_checked s"] r in auto)
  show "same_page s (mark_chk i r s)" unfolding w by (simp add: same_page_def)
  have "map (row_key s) ?a = key_insert (row_key s r) (map (row_key s) (g_checked s))"
    using ids.add_id [OF k(2) k(3)] r by (simp add: key_insert_def)
  moreover have f: "map t_checked (g_body2 ?u) = (map t_checked (g_body2 s))[i := True]"
    using good_page [OF assms(1)] r by (subst map_row_upd) simp_all
  moreover have "map t_selected (g_body2 ?u) = map t_selected (g_body2 s)" by (subst map_row_same) simp_all
  moreover have "all_checked ?u \<longleftrightarrow> list_all id ((map t_checked (g_body2 s))[i := True])"
    unfolding all_checked_flags [OF good_page [OF g]] f ..
  ultimately show "marks_of (mark_chk i r s) = m_check (page_keys s) i (marks_of s)"
    using r unfolding w by (simp add: marks_of_def m_check_def Let_def)
qed

lemma unmark_chk_refines:
  assumes "good b s" and "get_row s i = Some r"
  shows "good b (unmark_chk i r s)" and "marks_of (unmark_chk i r s) = m_uncheck (page_keys s) i (marks_of s)"
    and "same_page s (unmark_chk i r s)"
proof -
  note r = get_row_set [OF assms(2)] and k = good_keys [OF assms(1)]
  let ?u = "upd_row i (\<lambda>t. tick False (t\<lparr>t_checked := False\<rparr>)) s"
  let ?a = "arr_remove_id loose_eq (row_key s) (row_key s r) (g_checked s)"
  have w: "unmark_chk i r s = ?u\<lparr>g_headCheck := False, g_checked := ?a\<rparr>"
    using k(5) by (simp add: unmark_chk_def with_id_Some Let_def del: not_None_eq)
  have g: "good b ?u" by (rule good_upd_row [OF assms(1)]) simp_all
  have h: "good b (?u\<lparr>g_headCheck := False\<rparr>)" using good_arrays(3) [OF g, of "[]" False] by simp
  show "good b (unmark_chk i r s)"
    unfolding w by (rule good_arrays(2) [OF h]) (use remove_id_set [of loose_eq "row_key s" "row_key s r" "g_checked s"] in auto)
  show "same_page s (unmark_chk i r s)" unfolding w by (simp add: same_page_def)
  have "map (row_key s) ?a = remove1 (row_key s r) (map (row_key s) (g_checked s))"
    using ids.remove_id [OF k(2) k(3)] r by simp
  moreover have "map t_checked (g_body2 ?u) = (map t_checked (g_body2 s))[i := False]"
    using good_page [OF assms(1)] r by (subst map_row_upd) simp_all
  moreover have "map t_selected (g_body2 ?u) = map t_selected (g_body2 s)" by (subst map_row_same) simp_all
  ultimately show "marks_of (unmark_chk i r s) = m_uncheck (page_keys s) i (marks_of s)"
    using r unfolding w by (simp add: marks_of_def m_uncheck_def)
qed

lemma mark_chk_all_refines:
  assumes "good b s"
  shows "good b (mark_chk_all s)" and "marks_of (mark_chk_all s) = m_check_all (page_keys s) (marks_of s)"
    and "same_page s (mark_chk_all s)"
proof -
  note k = good_keys [OF assms]
  let ?u = "upd_all t_live (\<lambda>t. tick True (t\<lparr>t_checked := True\<rparr>)) s"
  let ?a = "fold (arr_add_id loose_eq (row_key s)) (g_rows s) (g_checked s)"
  have w: "mark_chk_all s = ?u\<lparr>g_headCheck := True, g_checked := ?a\<rparr>"
    using k(5) by (simp add: mark_chk_all_def with_id_Some get_rows_def Let_def del: not_None_eq)
  have g: "good b ?u" by (rule good_upd_all [OF assms]) simp_all
  have h: "good b (?u\<lparr>g_headCheck := True\<rparr>)" using good_arrays(3) [OF g, of "[]" True] by simp
  show "good b (mark_chk_all s)"
    unfolding w by (rule good_arrays(2) [OF h]) (use fold_add_set [of loose_eq "row_key s" "g_rows s" "g_checked s"] in auto)
  show "same_page s (mark_chk_all s)" unfolding w by (simp add: same_page_def)
  have "map (row_key s) ?a = fold key_insert (page_keys s) (map (row_key s) (g_checked s))"
    using fold_add_keys [OF k(2)] rows_keys [OF assms] by (simp add: page_keys_def get_rows_def)
  moreover have "map t_checked (g_body2 ?u) = map (\<lambda>_. True) (page_keys s)"
    using good_page [OF assms] page_length [of s]
    by (intro nth_equalityI) (auto simp: upd_all_def page_ok_def page_keys_def)
  moreover have "map t_selected (g_body2 ?u) = map t_selected (g_body2 s)" by (subst map_all_same) simp_all
  ultimately show "marks_of (mark_chk_all s) = m_check_all (page_keys s) (marks_of s)"
    unfolding w by (simp add: marks_of_def m_check_all_def)
qed

lemma unmark_chk_all_refines:
  assumes "good b s"
  shows "good b (unmark_chk_all s)" and "marks_of (unmark_chk_all s) = m_uncheck_all (page_keys s) (marks_of s)"
    and "same_page s (unmark_chk_all s)"
proof -
  note k = good_keys [OF assms]
  let ?u = "upd_all t_checked (\<lambda>t. tick False (t\<lparr>t_checked := False\<rparr>)) s"
  let ?a = "fold (\<lambda>r. arr_remove_id loose_eq (row_key s) (row_key s r)) (g_rows s) (g_checked s)"
  have w: "unmark_chk_all s = ?u\<lparr>g_headCheck := False, g_checked := ?a\<rparr>"
    using k(5) by (simp add: unmark_chk_all_def with_id_Some get_rows_def Let_def del: not_None_eq)
  have g: "good b ?u" by (rule good_upd_all [OF assms]) simp_all
  have h: "good b (?u\<lparr>g_headCheck := False\<rparr>)" using good_arrays(3) [OF g, of "[]" False] by simp
  show "good b (unmark_chk_all s)"
    unfolding w by (rule good_arrays(2) [OF h])
      (use fold_remove_set [of loose_eq "row_key s" "row_key s" "g_rows s" "g_checked s"] in auto)
  show "same_page s (unmark_chk_all s)" unfolding w by (simp add: same_page_def)
  have "map (row_key s) ?a = fold remove1 (page_keys s) (map (row_key s) (g_checked s))"
    using fold_remove_keys [OF k(2)] rows_keys [OF assms] by (simp add: page_keys_def get_rows_def)
  moreover have "map t_checked (g_body2 ?u) = map (\<lambda>_. False) (page_keys s)"
    using page_length [OF good_page [OF assms]]
    by (intro nth_equalityI) (auto simp: upd_all_def page_keys_def)
  moreover have "map t_selected (g_body2 ?u) = map t_selected (g_body2 s)" by (subst map_all_same) simp_all
  ultimately show "marks_of (unmark_chk_all s) = m_uncheck_all (page_keys s) (marks_of s)"
    unfolding w by (simp add: marks_of_def m_uncheck_all_def)
qed

section \<open>The operations keep the invariant\<close>

lemma grid_ok_good: "grid_ok b s \<longleftrightarrow> good b s \<and> m_ok (page_keys s) (marks_of s)"
  by (simp add: grid_ok_def good_def)

lemma emit_facts [simp]:
  "good b (dg_emit e s) = good b s" "marks_of (dg_emit e s) = marks_of s" "page_keys (dg_emit e s) = page_keys s"
  "same_page s (dg_emit e t) = same_page s t" "grid_ok b (dg_emit e s) = grid_ok b s" "get_row (dg_emit e s) i = get_row s i"
  by (simp_all add: good_def keys_ok_def page_ok_def marks_of_def page_keys_def same_page_def grid_ok_def get_row_def)

text \<open>\<open>keeps b s f\<close>: the step \<open>f\<close> from \<open>s\<close> keeps the invariant and the page.\<close>

definition step_ok :: "bool \<Rightarrow> grid \<Rightarrow> grid \<Rightarrow> bool" where
  "step_ok b s t \<longleftrightarrow> grid_ok b t \<and> same_page s t"

lemma step_ok_refl: "grid_ok b s \<Longrightarrow> step_ok b s s"
  by (simp add: step_ok_def)

lemma step_ok_trans: "step_ok b s t \<Longrightarrow> step_ok b t u \<Longrightarrow> step_ok b s u"
  by (auto simp: step_ok_def intro: same_page_trans)

lemma step_ok_emit [simp]: "step_ok b s (dg_emit e t) = step_ok b s t"
  by (simp add: step_ok_def)



lemma refine_step:
  assumes "grid_ok b s" and "good b t" and "marks_of t = A" and "same_page s t" and "m_ok (page_keys s) A"
  shows "step_ok b s t"
  using assms same_page_facts(1) [OF assms(4)] by (simp add: step_ok_def grid_ok_good)

lemma grid_keys: "grid_ok b s \<Longrightarrow> distinct (page_keys s)" and grid_good: "grid_ok b s \<Longrightarrow> good b s"
  and grid_marks: "grid_ok b s \<Longrightarrow> m_ok (page_keys s) (marks_of s)"
  by (auto simp: grid_ok_good dest: good_keys)

lemma marks_steps:
  assumes "grid_ok b s"
  shows "step_ok b s (mark_sel_all s)" and "step_ok b s (unmark_sel_all s)"
    and "step_ok b s (mark_chk_all s)" and "step_ok b s (unmark_chk_all s)"
  using refine_step [OF assms mark_sel_all_refines [OF grid_good [OF assms]] m_select_all_ok [OF grid_marks [OF assms]]]
    refine_step [OF assms unmark_sel_all_refines [OF grid_good [OF assms]] m_unselect_all_ok [OF grid_marks [OF assms]]]
    refine_step [OF assms mark_chk_all_refines [OF grid_good [OF assms]] m_check_all_ok [OF grid_marks [OF assms]]]
    refine_step [OF assms unmark_chk_all_refines [OF grid_good [OF assms]] m_uncheck_all_ok [OF grid_marks [OF assms]]]
  by simp_all

lemma mark_steps:
  assumes "grid_ok b s" and "get_row s i = Some r"
  shows "step_ok b s (mark_sel i r s)" and "step_ok b s (unmark_sel i r s)"
    and "step_ok b s (mark_chk i r s)" and "step_ok b s (unmark_chk i r s)"
proof -
  note g = grid_good [OF assms(1)] and k = grid_keys [OF assms(1)] and m = grid_marks [OF assms(1)]
  have i: "i < length (page_keys s)" using get_row_set [OF assms(2)] by simp
  show "step_ok b s (mark_sel i r s)"
    by (rule refine_step [OF assms(1) mark_sel_refines [OF g assms(2)] m_select_ok [OF k i m]])
  show "step_ok b s (unmark_sel i r s)"
    by (rule refine_step [OF assms(1) unmark_sel_refines [OF g assms(2)] m_unselect_ok [OF k i m]])
  show "step_ok b s (mark_chk i r s)"
    by (rule refine_step [OF assms(1) mark_chk_refines [OF g assms(2)] m_check_ok [OF k i m]])
  show "step_ok b s (unmark_chk i r s)"
    by (rule refine_step [OF assms(1) unmark_chk_refines [OF g assms(2)] m_uncheck_ok [OF k i m]])
qed

lemma reset_step:
  assumes "grid_ok b s" and "list_all Not (map t_selected (g_body2 s))"
  shows "step_ok b s (s\<lparr>g_selected := []\<rparr>)"
proof (rule refine_step [OF assms(1) _ _ _ m_none_ok(1) [OF grid_marks [OF assms(1)]]])
  show "good b (s\<lparr>g_selected := []\<rparr>)" by (rule good_arrays [OF grid_good [OF assms(1)]]) simp
  show "same_page s (s\<lparr>g_selected := []\<rparr>)" by (simp add: same_page_def)
  have "map t_selected (g_body2 s) = map (\<lambda>_. False) (page_keys s)"
    using assms(2) page_length [OF good_page [OF grid_good [OF assms(1)]]]
    by (intro nth_equalityI) (auto simp: page_keys_def list_all_length)
  then show "marks_of (s\<lparr>g_selected := []\<rparr>) = m_no_sel (page_keys s) (marks_of s)"
    by (simp add: marks_of_def m_no_sel_def)
qed

lemma reset_chk_step:
  assumes "grid_ok b s" and "list_all Not (map t_checked (g_body2 s))" and "\<not> g_headCheck s"
  shows "step_ok b s (s\<lparr>g_checked := []\<rparr>)"
proof (rule refine_step [OF assms(1) _ _ _ m_none_ok(2) [OF grid_marks [OF assms(1)]]])
  show "good b (s\<lparr>g_checked := []\<rparr>)" by (rule good_arrays [OF grid_good [OF assms(1)]]) simp
  show "same_page s (s\<lparr>g_checked := []\<rparr>)" by (simp add: same_page_def)
  have "map t_checked (g_body2 s) = map (\<lambda>_. False) (page_keys s)"
    using assms(2) page_length [OF good_page [OF grid_good [OF assms(1)]]]
    by (intro nth_equalityI) (auto simp: page_keys_def list_all_length)
  then show "marks_of (s\<lparr>g_checked := []\<rparr>) = m_no_chk (page_keys s) (marks_of s)"
    using assms(3) by (simp add: marks_of_def m_no_chk_def)
qed

lemma unmarked_flags:
  "list_all Not (map t_selected (g_body2 (unmark_sel_all s)))" "list_all Not (map t_checked (g_body2 (unmark_chk_all s)))"
  "\<not> g_headCheck (unmark_chk_all s)"
  by (auto simp: unmark_sel_all_def unmark_chk_all_def with_id_def upd_all_def Let_def list_all_iff)

lemma all_with_steps:
  assumes "grid_ok b s" and "\<And>t. grid_ok b t \<Longrightarrow> step_ok b t (casc t)"
  shows "step_ok b s (select_all_with casc s)" and "step_ok b s (unselect_all_with casc s)"
    and "step_ok b s (check_all_with casc s)" and "step_ok b s (uncheck_all_with casc s)"
proof -
  have c: "step_ok b s (casc s)" and g: "grid_ok b (casc s)" using assms(2) [OF assms(1)] by (simp_all add: step_ok_def)
  show "step_ok b s (select_all_with casc s)" "step_ok b s (unselect_all_with casc s)"
    "step_ok b s (check_all_with casc s)" "step_ok b s (uncheck_all_with casc s)"
    using marks_steps [OF g] c
    by (auto simp: select_all_with_def unselect_all_with_def check_all_with_def uncheck_all_with_def Let_def
        intro: step_ok_trans)
qed

lemma unselect_reset_step:
  assumes "grid_ok b s"
  shows "step_ok b s ((unselect_all_with id s)\<lparr>g_selected := []\<rparr>)" and "step_ok b s ((uncheck_all_with id s)\<lparr>g_checked := []\<rparr>)"
proof -
  have u: "step_ok b s (unselect_all_with id s)" "step_ok b s (uncheck_all_with id s)"
    using all_with_steps [OF assms, of id] by (auto intro: step_ok_refl)
  then have g: "grid_ok b (unselect_all_with id s)" "grid_ok b (uncheck_all_with id s)" by (simp_all add: step_ok_def)
  have f: "list_all Not (map t_selected (g_body2 (unselect_all_with id s)))"
    "list_all Not (map t_checked (g_body2 (uncheck_all_with id s)))" "\<not> g_headCheck (uncheck_all_with id s)"
    by (simp_all add: unselect_all_with_def uncheck_all_with_def Let_def unmarked_flags)
  show "step_ok b s ((unselect_all_with id s)\<lparr>g_selected := []\<rparr>)"
    by (rule step_ok_trans [OF u(1) reset_step [OF g(1) f(1)]])
  show "step_ok b s ((uncheck_all_with id s)\<lparr>g_checked := []\<rparr>)"
    by (rule step_ok_trans [OF u(2) reset_chk_step [OF g(2) f(2,3)]])
qed





lemma fold_remove1_Nil [simp]: "fold remove1 ks [] = []"
  by (induction ks) simp_all

lemma all_with_refines:
  assumes "good b s"
  shows "good b (unselect_all_with id s)" and "good b (uncheck_all_with id s)"
    and "marks_of (unselect_all_with id s) = m_unselect_all (page_keys s) (marks_of s)"
    and "marks_of (uncheck_all_with id s) = m_uncheck_all (page_keys s) (marks_of s)"
    and "same_page s (unselect_all_with id s)" and "same_page s (uncheck_all_with id s)"
  using unmark_sel_all_refines [OF assms] unmark_chk_all_refines [OF assms]
  by (simp_all add: unselect_all_with_def uncheck_all_with_def Let_def)


lemma opts_upd [simp]:
  "o_checkOnSelect (s\<lparr>g_selected := a\<rparr>) = o_checkOnSelect s" "o_selectOnCheck (s\<lparr>g_checked := a\<rparr>) = o_selectOnCheck s"
  by simp_all

lemma same_page_arrays [simp]:
  "same_page s (t\<lparr>g_selected := a\<rparr>) = same_page s t" "same_page s (t\<lparr>g_checked := a\<rparr>) = same_page s t"
  by (simp_all add: same_page_def)





section \<open>All operations on the marks\<close>

datatype sel_op = SelectRow nat | UnselectRow nat | CheckRow nat | UncheckRow nat | SelectAll | UnselectAll
  | CheckAll | UncheckAll | ClearSelections | ClearChecked | SelectRecord jsval
  | ClickOn row_target bool bool nat | HeaderClick

fun sel_run :: "grid_env \<Rightarrow> sel_op \<Rightarrow> grid \<Rightarrow> grid option" where
  "sel_run E (SelectRow i) s = select_row E i s"
| "sel_run E (UnselectRow i) s = unselect_row E i s"
| "sel_run E (CheckRow i) s = check_row E i s"
| "sel_run E (UncheckRow i) s = uncheck_row E i s"
| "sel_run E SelectAll s = Some (select_all s)"
| "sel_run E UnselectAll s = Some (unselect_all s)"
| "sel_run E CheckAll s = Some (check_all s)"
| "sel_run E UncheckAll s = Some (uncheck_all s)"
| "sel_run E ClearSelections s = Some (clear_selections s)"
| "sel_run E ClearChecked s = Some (clear_checked s)"
| "sel_run E (SelectRecord k) s = select_record E k s"
| "sel_run E (ClickOn tg ctrl shift i) s = row_click E tg ctrl shift i s"
| "sel_run E HeaderClick s = Some (header_check s)"














section \<open>What the operations do to the marks\<close>

text \<open>The contract of the row operations: single selection first, then the cascade, then the row.\<close>

fun m_run :: "bool \<Rightarrow> bool \<Rightarrow> bool \<Rightarrow> jsval list \<Rightarrow> sel_op \<Rightarrow> marks \<Rightarrow> marks" where
  "m_run single cos soc ks (SelectRow i) A =
     m_select ks i ((if cos then m_check ks i \<circ> (if single \<and> soc then m_no_chk ks else id) else id)
       ((if single then m_no_sel ks else id) A))"
| "m_run single cos soc ks (UnselectRow i) A = m_unselect ks i ((if cos then m_uncheck ks i else id) A)"
| "m_run single cos soc ks (CheckRow i) A =
     m_check ks i ((if soc then m_select ks i \<circ> (if single then m_no_sel ks else id) else id)
       ((if single \<and> soc then m_no_chk ks else id) A))"
| "m_run single cos soc ks (UncheckRow i) A = m_uncheck ks i ((if soc then m_unselect ks i else id) A)"
| "m_run single cos soc ks SelectAll A = m_select_all ks ((if cos then m_check_all ks else id) A)"
| "m_run single cos soc ks UnselectAll A = m_unselect_all ks ((if cos then m_uncheck_all ks else id) A)"
| "m_run single cos soc ks CheckAll A = m_check_all ks ((if soc then m_select_all ks else id) A)"
| "m_run single cos soc ks UncheckAll A = m_uncheck_all ks ((if soc then m_unselect_all ks else id) A)"
| "m_run single cos soc ks op A = A"

definition basic_op :: "sel_op \<Rightarrow> bool" where
  "basic_op op = (case op of ClearSelections \<Rightarrow> False | ClearChecked \<Rightarrow> False | SelectRecord _ \<Rightarrow> False
     | ClickOn _ _ _ _ \<Rightarrow> False | HeaderClick \<Rightarrow> False | _ \<Rightarrow> True)"

definition no_veto :: "grid_env \<Rightarrow> bool" where
  "no_veto E \<longleftrightarrow> (\<forall>v i r. e_before E v i r)"

lemma m_no_absorb:
  "m_no_sel ks (m_unselect_all ks A) = m_no_sel ks A" "m_no_chk ks (m_uncheck_all ks A) = m_no_chk ks A"
  by (simp_all add: m_no_sel_def m_no_chk_def m_unselect_all_def m_uncheck_all_def)

text \<open>\<open>acts b s t A\<close>: a step that keeps the invariant and has the effect \<open>A\<close> on the marks.\<close>

definition acts :: "bool \<Rightarrow> grid \<Rightarrow> grid \<Rightarrow> marks \<Rightarrow> bool" where
  "acts b s t A \<longleftrightarrow> step_ok b s t \<and> marks_of t = A"

lemma acts_facts:
  assumes "acts b s t A"
  shows "grid_ok b t" and "page_keys t = page_keys s" and "get_row t i = get_row s i" and "marks_of t = A"
    and "o_singleSelect t = o_singleSelect s" and "o_checkOnSelect t = o_checkOnSelect s"
    and "o_selectOnCheck t = o_selectOnCheck s" and "g_store t = g_store s"
proof -
  have sp: "same_page s t" and g: "grid_ok b t" "marks_of t = A" using assms by (simp_all add: acts_def step_ok_def)
  show "page_keys t = page_keys s" and "get_row t i = get_row s i" using same_page_facts(1,2) [OF sp] by simp_all
  show "grid_ok b t" and "marks_of t = A" by (rule g)+
  show "o_singleSelect t = o_singleSelect s" and "o_checkOnSelect t = o_checkOnSelect s"
    and "o_selectOnCheck t = o_selectOnCheck s" and "g_store t = g_store s" using sp by (simp_all add: same_page_def)
qed

lemma acts_trans: "acts b s t A \<Longrightarrow> acts b t u B \<Longrightarrow> acts b s u B"
  by (auto simp: acts_def intro: step_ok_trans)

lemma acts_id: "grid_ok b s \<Longrightarrow> acts b s s (marks_of s)"
  by (simp add: acts_def step_ok_refl)

lemma acts_emit [simp]: "acts b s (dg_emit e t) A = acts b s t A"
  by (simp add: acts_def)

lemma mark_acts:
  assumes "grid_ok b s" and "get_row s i = Some r"
  shows "acts b s (mark_sel i r s) (m_select (page_keys s) i (marks_of s))"
    and "acts b s (unmark_sel i r s) (m_unselect (page_keys s) i (marks_of s))"
    and "acts b s (mark_chk i r s) (m_check (page_keys s) i (marks_of s))"
    and "acts b s (unmark_chk i r s) (m_uncheck (page_keys s) i (marks_of s))"
  using mark_steps [OF assms] mark_sel_refines [OF grid_good [OF assms(1)] assms(2)]
    unmark_sel_refines [OF grid_good [OF assms(1)] assms(2)] mark_chk_refines [OF grid_good [OF assms(1)] assms(2)]
    unmark_chk_refines [OF grid_good [OF assms(1)] assms(2)]
  by (simp_all add: acts_def)

lemma mark_all_acts:
  assumes "grid_ok b s"
  shows "acts b s (mark_sel_all s) (m_select_all (page_keys s) (marks_of s))"
    and "acts b s (unmark_sel_all s) (m_unselect_all (page_keys s) (marks_of s))"
    and "acts b s (mark_chk_all s) (m_check_all (page_keys s) (marks_of s))"
    and "acts b s (unmark_chk_all s) (m_uncheck_all (page_keys s) (marks_of s))"
  using marks_steps [OF assms] mark_sel_all_refines [OF grid_good [OF assms]]
    unmark_sel_all_refines [OF grid_good [OF assms]] mark_chk_all_refines [OF grid_good [OF assms]]
    unmark_chk_all_refines [OF grid_good [OF assms]]
  by (simp_all add: acts_def)

lemma reset_acts:
  assumes "grid_ok b s"
  shows "acts b s ((unselect_all_with id s)\<lparr>g_selected := []\<rparr>) (m_no_sel (page_keys s) (marks_of s))"
    and "acts b s ((uncheck_all_with id s)\<lparr>g_checked := []\<rparr>) (m_no_chk (page_keys s) (marks_of s))"
proof -
  note r = all_with_refines [OF grid_good [OF assms]]
  have "marks_of ((unselect_all_with id s)\<lparr>g_selected := []\<rparr>) = m_no_sel (page_keys s) (marks_of s)"
    using r(3) by (simp add: marks_of_def m_no_sel_def m_unselect_all_def)
  moreover have "marks_of ((uncheck_all_with id s)\<lparr>g_checked := []\<rparr>) = m_no_chk (page_keys s) (marks_of s)"
    using r(4) by (simp add: marks_of_def m_no_chk_def m_uncheck_all_def)
  ultimately show "acts b s ((unselect_all_with id s)\<lparr>g_selected := []\<rparr>) (m_no_sel (page_keys s) (marks_of s))"
    "acts b s ((uncheck_all_with id s)\<lparr>g_checked := []\<rparr>) (m_no_chk (page_keys s) (marks_of s))"
    using unselect_reset_step [OF assms] by (simp_all add: acts_def)
qed

text \<open>A mark after a cascade of known effect.\<close>

lemma row_with_acts:
  assumes g: "grid_ok b s" and r: "get_row s i = Some r" and nv: "no_veto E"
    and casc: "\<And>t A. acts b s t A \<Longrightarrow> acts b s (casc t) (C A)"
  shows "acts b s (select_with E casc i r s)
      (m_select (page_keys s) i (C ((if o_singleSelect s then m_no_sel (page_keys s) else id) (marks_of s))))"
    and "acts b s (unselect_with E casc i r s) (m_unselect (page_keys s) i (C (marks_of s)))"
    and "acts b s (check_with E casc i r s)
      (m_check (page_keys s) i (C ((if o_singleSelect s \<and> o_selectOnCheck s then m_no_chk (page_keys s) else id) (marks_of s))))"
    and "acts b s (uncheck_with E casc i r s) (m_uncheck (page_keys s) i (C (marks_of s)))"
proof -
  have v: "e_before E k i x" for k x using nv by (simp add: no_veto_def)
  have m: "acts b s (mark_sel i r (casc t)) (m_select (page_keys s) i (C A))"
    "acts b s (unmark_sel i r (casc t)) (m_unselect (page_keys s) i (C A))"
    "acts b s (mark_chk i r (casc t)) (m_check (page_keys s) i (C A))"
    "acts b s (unmark_chk i r (casc t)) (m_uncheck (page_keys s) i (C A))"
    if "acts b s t A" for t A
  proof -
    note c = casc [OF that] and f = acts_facts [OF casc [OF that]]
    have "get_row (casc t) i = Some r" using f(3) r by simp
    note k = mark_acts [OF f(1) this, unfolded f(2,4)]
    show "acts b s (mark_sel i r (casc t)) (m_select (page_keys s) i (C A))"
      "acts b s (unmark_sel i r (casc t)) (m_unselect (page_keys s) i (C A))"
      "acts b s (mark_chk i r (casc t)) (m_check (page_keys s) i (C A))"
      "acts b s (unmark_chk i r (casc t)) (m_uncheck (page_keys s) i (C A))"
      by (rule acts_trans [OF c k(1)] acts_trans [OF c k(2)] acts_trans [OF c k(3)] acts_trans [OF c k(4)])+
  qed
  note a = acts_id [OF g] and z = reset_acts [OF g]
  show "acts b s (select_with E casc i r s)
      (m_select (page_keys s) i (C ((if o_singleSelect s then m_no_sel (page_keys s) else id) (marks_of s))))"
    using m(1) [OF a] m(1) [OF z(1)] v by (simp add: select_with_def Let_def)
  show "acts b s (unselect_with E casc i r s) (m_unselect (page_keys s) i (C (marks_of s)))"
    using m(2) [OF a] v by (simp add: unselect_with_def)
  show "acts b s (check_with E casc i r s)
      (m_check (page_keys s) i (C ((if o_singleSelect s \<and> o_selectOnCheck s then m_no_chk (page_keys s) else id) (marks_of s))))"
    using m(3) [OF a] m(3) [OF z(2)] v by (simp add: check_with_def Let_def)
  show "acts b s (uncheck_with E casc i r s) (m_uncheck (page_keys s) i (C (marks_of s)))"
    using m(4) [OF a] v by (simp add: uncheck_with_def)
qed

lemma nested_acts:
  assumes t: "acts b s t A" and r: "get_row s i = Some r" and nv: "no_veto E"
  shows "acts b s (select_with E id i r t)
      (m_select (page_keys s) i ((if o_singleSelect s then m_no_sel (page_keys s) else id) A))"
    and "acts b s (unselect_with E id i r t) (m_unselect (page_keys s) i A)"
    and "acts b s (check_with E id i r t)
      (m_check (page_keys s) i ((if o_singleSelect s \<and> o_selectOnCheck s then m_no_chk (page_keys s) else id) A))"
    and "acts b s (uncheck_with E id i r t) (m_uncheck (page_keys s) i A)"
proof -
  note f = acts_facts [OF t]
  have r': "get_row t i = Some r" using f(3) r by simp
  have i: "acts b t (id u) B" if "acts b t u B" for u B using that by simp
  note n = row_with_acts [OF f(1) r' nv, of id "\<lambda>B. B", OF i, unfolded f(2,4,5,7)]
  show "acts b s (select_with E id i r t)
      (m_select (page_keys s) i ((if o_singleSelect s then m_no_sel (page_keys s) else id) A))"
    "acts b s (unselect_with E id i r t) (m_unselect (page_keys s) i A)"
    "acts b s (check_with E id i r t)
      (m_check (page_keys s) i ((if o_singleSelect s \<and> o_selectOnCheck s then m_no_chk (page_keys s) else id) A))"
    "acts b s (uncheck_with E id i r t) (m_uncheck (page_keys s) i A)"
    using acts_trans [OF t n(1)] acts_trans [OF t n(2)] acts_trans [OF t n(3)] acts_trans [OF t n(4)]
    by simp_all
qed

lemma all_with_acts:
  assumes t: "acts b s t A"
  shows "acts b s (select_all_with id t) (m_select_all (page_keys s) A)"
    and "acts b s (unselect_all_with id t) (m_unselect_all (page_keys s) A)"
    and "acts b s (check_all_with id t) (m_check_all (page_keys s) A)"
    and "acts b s (uncheck_all_with id t) (m_uncheck_all (page_keys s) A)"
proof -
  note f = acts_facts [OF t]
  note k = mark_all_acts [OF f(1), unfolded f(2,4)]
  show "acts b s (select_all_with id t) (m_select_all (page_keys s) A)"
    "acts b s (unselect_all_with id t) (m_unselect_all (page_keys s) A)"
    "acts b s (check_all_with id t) (m_check_all (page_keys s) A)"
    "acts b s (uncheck_all_with id t) (m_uncheck_all (page_keys s) A)"
    using acts_trans [OF t k(1)] acts_trans [OF t k(2)] acts_trans [OF t k(3)] acts_trans [OF t k(4)]
    by (simp_all add: select_all_with_def unselect_all_with_def check_all_with_def uncheck_all_with_def Let_def)
qed

lemma sel_run_acts:
  assumes g: "grid_ok b s" and nv: "no_veto E" and op: "basic_op op" and run: "sel_run E op s = Some t"
  shows "acts b s t (m_run (o_singleSelect s) (o_checkOnSelect s) (o_selectOnCheck s) (page_keys s) op (marks_of s))"
proof -
  note a = acts_id [OF g]
  have opt: "o_checkOnSelect u = o_checkOnSelect s" "o_selectOnCheck u = o_selectOnCheck s" if "acts b s u A" for u A
    using acts_facts [OF that] by simp_all
  show ?thesis
  proof (cases op)
    case (SelectRow i)
    with run obtain r where r: "get_row s i = Some r" by (auto simp: select_row_def on_row_def)
    let ?c = "\<lambda>s. if o_checkOnSelect s then check_with E id i r s else s" and ?C = "if o_checkOnSelect s then m_check (page_keys s) i \<circ> (if o_singleSelect s \<and> o_selectOnCheck s then m_no_chk (page_keys s) else id) else id"
    have c: "acts b s (?c u) (?C A)" if "acts b s u A" for u A
      using nested_acts(3) [OF that r nv] that opt [OF that] by simp
    from row_with_acts(1) [OF g r nv, of ?c ?C] c SelectRow run r show ?thesis by (simp add: select_row_def on_row_def)
  next
    case (UnselectRow i)
    with run obtain r where r: "get_row s i = Some r" by (auto simp: unselect_row_def on_row_def)
    let ?c = "\<lambda>s. if o_checkOnSelect s then uncheck_with E id i r s else s" and ?C = "if o_checkOnSelect s then m_uncheck (page_keys s) i else id"
    have c: "acts b s (?c u) (?C A)" if "acts b s u A" for u A
      using nested_acts(4) [OF that r nv] that opt [OF that] by simp
    from row_with_acts(2) [OF g r nv, of ?c ?C] c UnselectRow run r show ?thesis by (simp add: unselect_row_def on_row_def)
  next
    case (CheckRow i)
    with run obtain r where r: "get_row s i = Some r" by (auto simp: check_row_def on_row_def)
    let ?c = "\<lambda>s. if o_selectOnCheck s then select_with E id i r s else s" and ?C = "if o_selectOnCheck s then m_select (page_keys s) i \<circ> (if o_singleSelect s then m_no_sel (page_keys s) else id) else id"
    have c: "acts b s (?c u) (?C A)" if "acts b s u A" for u A
      using nested_acts(1) [OF that r nv] that opt [OF that] by simp
    from row_with_acts(3) [OF g r nv, of ?c ?C] c CheckRow run r show ?thesis by (simp add: check_row_def on_row_def)
  next
    case (UncheckRow i)
    with run obtain r where r: "get_row s i = Some r" by (auto simp: uncheck_row_def on_row_def)
    let ?c = "\<lambda>s. if o_selectOnCheck s then unselect_with E id i r s else s" and ?C = "if o_selectOnCheck s then m_unselect (page_keys s) i else id"
    have c: "acts b s (?c u) (?C A)" if "acts b s u A" for u A
      using nested_acts(2) [OF that r nv] that opt [OF that] by simp
    from row_with_acts(4) [OF g r nv, of ?c ?C] c UncheckRow run r show ?thesis by (simp add: uncheck_row_def on_row_def)
  next
    case SelectAll
    with run all_with_acts(1) [OF all_with_acts(3) [OF a]] all_with_acts(1) [OF a] show ?thesis
      by (auto simp: select_all_def select_all_with_def)
  next
    case UnselectAll
    with run all_with_acts(2) [OF all_with_acts(4) [OF a]] all_with_acts(2) [OF a] show ?thesis
      by (auto simp: unselect_all_def unselect_all_with_def)
  next
    case CheckAll
    with run all_with_acts(3) [OF all_with_acts(1) [OF a]] all_with_acts(3) [OF a] show ?thesis
      by (auto simp: check_all_def check_all_with_def)
  next
    case UncheckAll
    with run all_with_acts(4) [OF all_with_acts(2) [OF a]] all_with_acts(4) [OF a] show ?thesis
      by (auto simp: uncheck_all_def uncheck_all_with_def)
  qed (use op in \<open>simp_all add: basic_op_def\<close>)
qed

section \<open>Properties\<close>

text \<open>A page of three rows, of which the second is selected together with a row of another page.\<close>

definition sample_tr :: "nat \<Rightarrow> bool \<Rightarrow> tr" where
  "sample_tr i sel = \<lparr>t_index = i, t_live = True, t_selected = sel, t_checked = sel, t_over = False, t_editing = False,
     t_alt = False, t_user = [], t_style = [], t_num = None, t_cells = []\<rparr>"

definition sample_grid :: grid where
  "sample_grid = datagrid_defaults\<lparr>o_idField := Some ''id'', g_rows := [0, 1, 2],
     g_store := (\<lambda>r f. if f = ''id'' then VNum (10 * int r) else VUndef), g_next := 6,
     g_selected := [5, 1], g_checked := [5, 1], g_total := Fin 3,
     g_body2 := [sample_tr 0 False, sample_tr 1 True, sample_tr 2 False]\<rparr>"

lemma sample_grid_ok: "grid_ok True sample_grid"
proof -
  have "row_key sample_grid r = VNum (10 * int r)" for r
    by (simp add: row_key_def sample_grid_def datagrid_defaults_def)
  moreover have "g_rows sample_grid = [0, 1, 2]" "g_selected sample_grid = [5, 1]" "g_checked sample_grid = [5, 1]"
    "o_idField sample_grid = Some ''id''" "g_headCheck sample_grid = False"
    "g_body2 sample_grid = [sample_tr 0 False, sample_tr 1 True, sample_tr 2 False]"
    by (simp_all add: sample_grid_def datagrid_defaults_def)
  ultimately show ?thesis
    by (simp add: grid_ok_def keys_ok_def page_ok_def page_keys_def marks_of_def m_ok_def kind_def sample_tr_def upt_rec)
qed

lemma default_no_veto: "no_veto default_env"
  by (simp add: no_veto_def default_env_def)



text \<open>
  C11: The operations implement their contract on ids: selecting a row inserts its id, unselecting
  removes it, single selection empties the set first, and each does the same to the checked ids
  when \<open>checkOnSelect\<close> (or \<open>selectOnCheck\<close>, for the check operations) is set and no callback vetoes.
\<close>

theorem dg_marks_refine:
  assumes "grid_ok b s" and "no_veto E" and "basic_op op" and "sel_run E op s = Some t"
  shows "marks_of t = m_run (o_singleSelect s) (o_checkOnSelect s) (o_selectOnCheck s) (page_keys s) op (marks_of s)"
  using sel_run_acts [OF assms] by (simp add: acts_def)

theorem dg_marks_refine_witness:
  "\<exists>t. sel_run default_env (SelectRow 0) sample_grid = Some t \<and> m_sel (marks_of t) = [VNum 50, VNum 10, VNum 0]"
proof -
  have "sel_run default_env (SelectRow 0) sample_grid \<noteq> None" by code_simp
  then obtain t where t: "sel_run default_env (SelectRow 0) sample_grid = Some t" by blast
  have "basic_op (SelectRow 0)" by (simp add: basic_op_def)
  from dg_marks_refine [OF sample_grid_ok default_no_veto this t] t show ?thesis
    by (simp add: m_select_def m_check_def marks_of_def sample_grid_def datagrid_defaults_def row_key_def page_keys_def
        key_insert_def Let_def)
qed

text \<open>
  C21: With \<open>checkOnSelect\<close> and \<open>selectOnCheck\<close>, the defaults, a grid whose selected and checked ids
  are the same keeps them the same through every such operation.
\<close>

theorem dg_select_check_sync:
  assumes "grid_ok b s" and "no_veto E" and "basic_op op" and "sel_run E op s = Some t"
    and "o_checkOnSelect s" and "o_selectOnCheck s"
    and "row_key s ` set (g_selected s) = row_key s ` set (g_checked s)"
  shows "row_key t ` set (g_selected t) = row_key t ` set (g_checked t)"
proof -
  have d: "distinct (m_sel (marks_of s))" "distinct (m_chk (marks_of s))" using grid_marks [OF assms(1)] by (simp_all add: m_ok_def)
  have e: "set (m_sel (marks_of s)) = set (m_chk (marks_of s))" using assms(7) by (simp add: marks_of_def)
  have m: "marks_of t = m_run (o_singleSelect s) True True (page_keys s) op (marks_of s)"
    using sel_run_acts [OF assms(1-4)] assms(5,6) by (simp add: acts_def)
  have "set (m_sel (m_run (o_singleSelect s) True True (page_keys s) op (marks_of s))) =
      set (m_chk (m_run (o_singleSelect s) True True (page_keys s) op (marks_of s)))"
    using d e by (cases op) (auto simp: m_select_def m_check_def m_unselect_def m_uncheck_def m_select_all_def
        m_check_all_def m_unselect_all_def m_uncheck_all_def m_no_sel_def m_no_chk_def Let_def fold_key_insert fold_remove1
        set_remove1_eq)
  then have "set (m_sel (marks_of t)) = set (m_chk (marks_of t))" unfolding m .
  then show ?thesis by (simp add: marks_of_def)
qed

theorem dg_select_check_sync_witness:
  "\<exists>t. sel_run default_env UnselectAll sample_grid = Some t \<and> row_key t ` set (g_selected t) = row_key t ` set (g_checked t)"
proof -
  have "basic_op UnselectAll" by (simp add: basic_op_def)
  moreover have "sel_run default_env UnselectAll sample_grid = Some (unselect_all sample_grid)" by simp
  ultimately show ?thesis
    using dg_select_check_sync [OF sample_grid_ok default_no_veto, of UnselectAll "unselect_all sample_grid"]
    by (auto simp: sample_grid_def datagrid_defaults_def)
qed

text \<open>
  A single-selection grid has one selected row after a selection that is not vetoed: the array
  holds that row alone, and of the rows of the page only that one is marked.
\<close>

theorem dg_single_select:
  assumes "grid_ok b s" and "no_veto E" and "o_singleSelect s" and "select_row E i s = Some t" and "get_row s i = Some r"
  shows "row_key t ` set (g_selected t) = {row_key s r} \<and> length (g_selected t) = 1
     \<and> (\<forall>j<length (g_rows t). t_selected (g_body2 t ! j) \<longleftrightarrow> j = i)"
proof -
  let ?ks = "page_keys s"
  have a: "acts b s t (m_run True (o_checkOnSelect s) (o_selectOnCheck s) ?ks (SelectRow i) (marks_of s))"
    using sel_run_acts [OF assms(1,2), of "SelectRow i" t] assms(3,4) by (simp add: basic_op_def)
  note f = acts_facts [OF a]
  have "m_sel (marks_of t) = [?ks ! i]"
    using f(4) by (auto simp: m_select_def m_check_def m_no_sel_def m_no_chk_def key_insert_def Let_def)
  then have sel: "map (row_key t) (g_selected t) = [row_key s r]" using get_row_set [OF assms(5)] by (simp add: marks_of_def)
  have m: "m_fsel (marks_of t) = map (\<lambda>k. k = row_key s r) ?ks"
    using grid_marks [OF f(1)] sel f(2) by (simp add: m_ok_def marks_of_def)
  have pg: "page_ok t" by (rule good_page [OF grid_good [OF f(1)]])
  have "t_selected (g_body2 t ! j) \<longleftrightarrow> j = i" if "j < length (g_rows t)" for j
  proof -
    have l: "length (g_rows t) = length ?ks" using f(2) by (simp add: page_keys_def) (metis f(2) length_map page_keys_def)
    have "t_selected (g_body2 t ! j) \<longleftrightarrow> m_fsel (marks_of t) ! j" using that page_length [OF pg] by (simp add: marks_of_def)
    also have "\<dots> \<longleftrightarrow> ?ks ! j = ?ks ! i" unfolding m using that l get_row_set [OF assms(5)] by simp
    also have "\<dots> \<longleftrightarrow> j = i"
      using nth_eq_iff_index_eq [OF grid_keys [OF assms(1)], of j i] that l get_row_set [OF assms(5)] by simp
    finally show ?thesis .
  qed
  moreover have "length (g_selected t) = 1" using sel by (metis length_map list.size(3,4) One_nat_def add_0)
  moreover have "row_key t ` set (g_selected t) = {row_key s r}" using sel by (metis empty_set list.simps(15) set_map)
  ultimately show ?thesis by blast
qed

theorem dg_single_select_witness:
  "\<exists>t. select_row default_env 2 (sample_grid\<lparr>o_singleSelect := True\<rparr>) = Some t \<and> length (g_selected t) = 1"
proof -
  let ?s = "sample_grid\<lparr>o_singleSelect := True\<rparr>"
  have "row_key ?s = row_key sample_grid" by (simp add: row_key_def fun_eq_iff split: option.split)
  then have ok: "grid_ok True ?s"
    using sample_grid_ok by (simp add: grid_ok_def keys_ok_def page_ok_def page_keys_def marks_of_def)
  have "select_row default_env 2 ?s \<noteq> None" by code_simp
  then obtain t where t: "select_row default_env 2 ?s = Some t" by blast
  have "get_row ?s 2 = Some 2" by code_simp
  from dg_single_select [OF ok default_no_veto _ t this] t show ?thesis by simp
qed

section \<open>Restoring the selection after a load\<close>

text \<open>The marks once the first \<open>k\<close> rows are restored: none beyond them.\<close>

definition part_ok :: "jsval list \<Rightarrow> nat \<Rightarrow> marks \<Rightarrow> bool" where
  "part_ok ks k A \<longleftrightarrow> distinct (m_sel A) \<and> distinct (m_chk A)
     \<and> m_fsel A = map (\<lambda>j. j < k \<and> ks ! j \<in> set (m_sel A)) [0..<length ks]
     \<and> m_fchk A = map (\<lambda>j. j < k \<and> ks ! j \<in> set (m_chk A)) [0..<length ks]
     \<and> (ks \<noteq> [] \<longrightarrow> m_head A = list_all id (m_fchk A))"

lemma part_ok_all: "part_ok ks (length ks) A \<Longrightarrow> m_ok ks A"
proof -
  have "map (\<lambda>j. j < length ks \<and> ks ! j \<in> S) [0..<length ks] = map (\<lambda>k. k \<in> S) ks" for S :: "jsval set"
    by (intro nth_equalityI) simp_all
  then show "part_ok ks (length ks) A \<Longrightarrow> ?thesis" by (simp add: part_ok_def m_ok_def)
qed

lemma part_upd:
  assumes "i < length ks" and "f = map (\<lambda>j. j < i \<and> P j) [0..<length ks]"
  shows "map (\<lambda>j. j < Suc i \<and> P j) [0..<length ks] = (if P i then f[i := True] else f)"
  using assms by (intro nth_equalityI) (auto simp: nth_list_update less_Suc_eq)

definition m_restore :: "jsval list \<Rightarrow> nat \<Rightarrow> marks \<Rightarrow> marks" where
  "m_restore ks i A =
     (let A = (if ks ! i \<in> set (m_sel A) then m_select ks i A else A)
      in if ks ! i \<in> set (m_chk A) then m_check ks i A else A)"

lemma m_restore_part:
  assumes "i < length ks" and "part_ok ks i A"
  shows "part_ok ks (Suc i) (m_restore ks i A)"
proof -
  note f = part_upd [OF assms(1)]
  have mono: "list_all id l \<Longrightarrow> list_all id (l[i := True])" for l :: "bool list"
    using set_update_subset_insert [of l i True] by (auto simp: list_all_iff)
  from assms(2) show ?thesis
    using f [of "m_fsel A" "\<lambda>j. ks ! j \<in> set (m_sel A)"] f [of "m_fchk A" "\<lambda>j. ks ! j \<in> set (m_chk A)"]
    by (auto simp: part_ok_def m_restore_def m_select_def m_check_def key_insert_def Let_def intro: mono)
qed

lemma refresh_refines:
  assumes "good b s" and "r \<in> set (g_rows s)"
  defines "a \<equiv> arr_refresh loose_eq (row_key s) r (g_selected s)"
    and "c \<equiv> arr_refresh loose_eq (row_key s) r (g_checked s)"
  shows "good b (s\<lparr>g_selected := fst a\<rparr>)" and "good b (s\<lparr>g_checked := fst c\<rparr>)"
    and "marks_of (s\<lparr>g_selected := fst a\<rparr>) = marks_of s" and "marks_of (s\<lparr>g_checked := fst c\<rparr>) = marks_of s"
    and "snd a \<longleftrightarrow> row_key s r \<in> set (m_sel (marks_of s))" and "snd c \<longleftrightarrow> row_key s r \<in> set (m_chk (marks_of s))"
proof -
  note k = good_keys [OF assms(1)]
  note i = ids.refresh_id [OF k(1) k(3) [OF assms(2)]] ids.refresh_id [OF k(2) k(3) [OF assms(2)]]
  have sub: "set (fst (arr_refresh eq key r l)) \<subseteq> insert r (set l)" for eq :: "jsval \<Rightarrow> jsval \<Rightarrow> bool" and key l
    using set_update_subset_insert by (auto simp: arr_refresh_def split: option.split) fast
  show "good b (s\<lparr>g_selected := fst a\<rparr>)" "good b (s\<lparr>g_checked := fst c\<rparr>)"
    unfolding a_def c_def
    by (rule good_arrays [OF assms(1)];
        use sub [of loose_eq "row_key s" "g_selected s"] sub [of loose_eq "row_key s" "g_checked s"] assms(2) in auto)+
  show "marks_of (s\<lparr>g_selected := fst a\<rparr>) = marks_of s" "marks_of (s\<lparr>g_checked := fst c\<rparr>) = marks_of s"
    using i(1,3) by (simp_all add: marks_of_def a_def c_def)
  show "snd a \<longleftrightarrow> row_key s r \<in> set (m_sel (marks_of s))" "snd c \<longleftrightarrow> row_key s r \<in> set (m_chk (marks_of s))"
    using i(2,4) by (simp_all add: marks_of_def a_def c_def)
qed

lemma restore_row_refines:
  assumes "good b s" and "no_veto E" and "\<not> o_singleSelect s" and "get_row s i = Some r"
  shows "good b (restore_row E i r s)" and "marks_of (restore_row E i r s) = m_restore (page_keys s) i (marks_of s)"
    and "same_page s (restore_row E i r s)"
proof -
  note r = get_row_set [OF assms(4)]
  have rs: "r \<in> set (g_rows s)" using r by simp
  have v: "e_before E k j x" for k j x using assms(2) by (simp add: no_veto_def)
  let ?s1 = "s\<lparr>g_selected := fst (arr_refresh loose_eq (row_key s) r (g_selected s))\<rparr>"
  note f1 = refresh_refines [OF assms(1) rs]
  have p1: "page_keys ?s1 = page_keys s" "get_row ?s1 i = Some r" "\<not> o_singleSelect ?s1"
    using assms(3,4) by (simp_all add: page_keys_def get_row_def split: if_splits)
  let ?s2 = "if row_key s r \<in> set (m_sel (marks_of s)) then select_with E id i r ?s1 else ?s1"
  let ?A2 = "if row_key s r \<in> set (m_sel (marks_of s)) then m_select (page_keys s) i (marks_of s) else marks_of s"
  have sel: "select_with E id i r ?s1 = dg_emit (OnSelect i r) (mark_sel i r ?s1)"
    using v p1(3) by (simp add: select_with_def)
  have f2: "good b ?s2" "marks_of ?s2 = ?A2" "same_page s ?s2"
    using mark_sel_refines [OF f1(1) p1(2)] f1(1,3) p1(1) by (auto simp: sel same_page_def)
  have p2: "page_keys ?s2 = page_keys s" "get_row ?s2 i = Some r" "row_key ?s2 = row_key s" "\<not> o_singleSelect ?s2"
    using same_page_facts [OF f2(3)] assms(3,4) f2(3) by (simp_all add: same_page_def)
  have rs2: "r \<in> set (g_rows ?s2)" using get_row_set [OF p2(2)] by simp
  let ?s3 = "?s2\<lparr>g_checked := fst (arr_refresh loose_eq (row_key ?s2) r (g_checked ?s2))\<rparr>"
  note f3 = refresh_refines [OF f2(1) rs2]
  have sp3: "same_page s ?s3" using f2(3) by simp
  have p3: "page_keys ?s3 = page_keys s" "get_row ?s3 i = Some r" "\<not> o_singleSelect ?s3" "same_page s ?s3"
    using same_page_facts(1,2) [OF sp3] sp3 assms(3,4) by (simp_all add: same_page_def)
  have chk: "check_with E id i r ?s3 = dg_emit (OnCheck i r) (mark_chk i r ?s3)"
    using v p3(3) by (simp add: check_with_def)
  have eq: "restore_row E i r s = (if row_key s r \<in> set (m_chk ?A2) then check_with E id i r ?s3 else ?s3)"
    using f1(5) f3(6) f2(2) p2(3) unfolding restore_row_def Let_def by (simp add: split_def)
  note m = mark_chk_refines [OF f3(2) p3(2)]
  have ms: "marks_of (mark_chk i r ?s3) = m_check (page_keys s) i ?A2" "marks_of ?s3 = ?A2"
    unfolding m(2) p3(1) f3(4) f2(2) by (rule refl)+
  have kr: "row_key s r = page_keys s ! i" using r by simp
  show "good b (restore_row E i r s)" unfolding eq using m(1) f3(2) by (simp add: chk)
  show "same_page s (restore_row E i r s)" unfolding eq using same_page_trans [OF sp3 m(3)] sp3 by (simp only: chk emit_facts simp_thms split: if_split)
  show "marks_of (restore_row E i r s) = m_restore (page_keys s) i (marks_of s)"
    unfolding eq m_restore_def Let_def kr [symmetric]
    by (cases "row_key s r \<in> set (m_chk ?A2)") (simp_all only: if_True if_False chk emit_facts ms)
qed

lemma restore_fold:
  assumes "good b s" and "no_veto E" and "\<not> o_singleSelect s" and "part_ok (page_keys s) n (marks_of s)"
    and "drop n (g_rows s) = rs"
  defines "t \<equiv> fold (\<lambda>(i, r). restore_row E i r) (enumerate n rs) s"
  shows "good b t \<and> same_page s t \<and> part_ok (page_keys s) (n + length rs) (marks_of t)"
  using assms(1,3-5) unfolding t_def
proof (induction rs arbitrary: s n)
  case Nil
  then show ?case by simp
next
  case (Cons r rs)
  have n: "n < length (g_rows s)"
  proof (rule ccontr)
    assume "\<not> n < length (g_rows s)"
    then have "drop n (g_rows s) = []" by simp
    with Cons.prems(4) show False by simp
  qed
  with Cons.prems(4) have r: "g_rows s ! n = r" and d: "drop (Suc n) (g_rows s) = rs"
    using Cons_nth_drop_Suc [OF n] by simp_all
  have row: "get_row s n = Some r" using n r by (simp add: get_row_def)
  let ?u = "restore_row E n r s"
  note f = restore_row_refines [OF Cons.prems(1) assms(2) Cons.prems(2) row]
  have k: "page_keys ?u = page_keys s" "g_rows ?u = g_rows s" "\<not> o_singleSelect ?u"
    using same_page_facts [OF f(3)] f(3) Cons.prems(2) by (simp_all add: same_page_def)
  have "part_ok (page_keys s) (Suc n) (marks_of ?u)"
    unfolding f(2) by (rule m_restore_part [OF _ Cons.prems(3)]) (use n in \<open>simp add: page_keys_def\<close>)
  with Cons.IH [of ?u "Suc n"] f(1) k d
  have "good b (fold (\<lambda>(i, r). restore_row E i r) (enumerate (Suc n) rs) ?u)"
    "same_page ?u (fold (\<lambda>(i, r). restore_row E i r) (enumerate (Suc n) rs) ?u)"
    "part_ok (page_keys s) (Suc n + length rs) (marks_of (fold (\<lambda>(i, r). restore_row E i r) (enumerate (Suc n) rs) ?u))"
    by auto
  then show ?case using f(3) by (auto intro: same_page_trans)
qed

lemma good_mute: "good b (s\<lparr>g_mute := m\<rparr>) = good b s" "marks_of (s\<lparr>g_mute := m\<rparr>) = marks_of s"
  "page_keys (s\<lparr>g_mute := m\<rparr>) = page_keys s"
  by (simp_all add: good_def keys_ok_def page_ok_def marks_of_def page_keys_def)

text \<open>
  The selection survives paging: when a new page is drawn with no row marked and the ids held
  from other pages are distinct, restoring the selection marks exactly the rows whose ids are
  held, keeps the ids, and sets the box of the header accordingly (multiple selection, no vetoes).
\<close>

theorem dg_restore_selection:
  assumes "keys_ok b s" and "page_ok s" and "no_veto E" and "\<not> o_singleSelect s"
    and "distinct (map (row_key s) (g_selected s))" and "distinct (map (row_key s) (g_checked s))"
    and "\<forall>t\<in>set (g_body2 s). \<not> t_selected t \<and> \<not> t_checked t"
  shows "grid_ok b (set_selection_state E s) \<and> g_rows (set_selection_state E s) = g_rows s"
proof -
  let ?s = "s\<lparr>g_headCheck := False, g_mute := True\<rparr>"
  have k: "row_key ?s = row_key s" by (simp add: row_key_def fun_eq_iff split: option.split)
  have g: "good b ?s" using assms(1,2) by (simp add: good_def keys_ok_def page_ok_def k)
  have l: "length (g_body2 s) = length (g_rows s)" by (rule page_length [OF assms(2)])
  have "map t_selected (g_body2 s) = map (\<lambda>_. False) [0..<length (g_rows s)]"
    "map t_checked (g_body2 s) = map (\<lambda>_. False) [0..<length (g_rows s)]"
    using l assms(7) by (auto intro!: nth_equalityI)
  moreover have "g_rows s \<noteq> [] \<longrightarrow> \<not> list_all id (map (\<lambda>_. False) [0..<length (g_rows s)])"
    by (auto simp: list_all_iff)
  ultimately have "part_ok (page_keys ?s) 0 (marks_of ?s)"
    using assms(5,6) by (simp add: part_ok_def marks_of_def page_keys_def k)
  from restore_fold [OF g assms(3) _ this, of "g_rows s"] assms(4)
  obtain t where t: "t = fold (\<lambda>(i, r). restore_row E i r) (enumerate 0 (g_rows s)) ?s" "good b t" "same_page ?s t"
    "part_ok (page_keys ?s) (length (g_rows s)) (marks_of t)" by auto
  have "part_ok (page_keys ?s) (length (page_keys ?s)) (marks_of t)" using t(4) by (simp add: page_keys_def)
  then have "m_ok (page_keys t) (marks_of t)" using same_page_facts(1) [OF t(3)] by (simp add: part_ok_all)
  moreover have "set_selection_state E s = t\<lparr>g_mute := False\<rparr>"
    using assms(1) t(1) by (auto simp: set_selection_state_def Let_def keys_ok_def get_rows_def)
  ultimately show ?thesis using t(2,3) by (simp add: grid_ok_good good_mute same_page_def)
qed

theorem dg_restore_selection_witness:
  "g_headCheck (set_selection_state default_env (sample_grid\<lparr>g_body2 := map (\<lambda>i. sample_tr i False) [0, 1, 2]\<rparr>)) = False
   \<and> grid_ok True (set_selection_state default_env (sample_grid\<lparr>g_body2 := map (\<lambda>i. sample_tr i False) [0, 1, 2]\<rparr>))"
proof -
  let ?s = "sample_grid\<lparr>g_body2 := map (\<lambda>i. sample_tr i False) [0, 1, 2]\<rparr>"
  have "g_headCheck (set_selection_state default_env ?s) = False" by code_simp
  moreover have "keys_ok True ?s" using sample_grid_ok by (simp add: grid_ok_def keys_ok_def)
  moreover have "page_ok ?s" by (simp add: page_ok_def sample_grid_def datagrid_defaults_def sample_tr_def upt_rec)
  moreover have "distinct (map (row_key ?s) (g_selected ?s))" "distinct (map (row_key ?s) (g_checked ?s))"
    by (simp_all add: sample_grid_def datagrid_defaults_def row_key_def)
  ultimately show ?thesis
    using dg_restore_selection [of True ?s default_env] default_no_veto
    by (simp add: sample_tr_def) (simp add: sample_grid_def datagrid_defaults_def)
qed

end
