(* ===== verification/Dg_Render.thy ===== *)
theory Dg_Render
  imports Dg_Select
begin

text \<open>
  The view of the grid, \<open>_1f0\<close> of \<open>js/plugins/jquery.datagrid.js\<close>: the cells of a row, the tables
  of the two views, the footer and the placeholder of an empty page, and the three operations that
  change single rows of a page that is drawn already: \<open>updateRow\<close>, \<open>insertRow\<close> and \<open>deleteRow\<close>.

  Row heights (\<open>fixRowHeight\<close>) are sizes and not modelled.
\<close>

section \<open>Rendering: lines 2092-2200\<close>

definition empty_row :: row where
  "empty_row = (\<lambda>_. VUndef)"

definition field_val :: "row \<Rightarrow> string option \<Rightarrow> jsval" where
  "field_val r f = (case f of None \<Rightarrow> r ''undefined'' | Some x \<Rightarrow> r x)"

definition field_text :: "string option \<Rightarrow> string" where
  "field_text f = (case f of None \<Rightarrow> ''undefined'' | Some x \<Rightarrow> x)"

text \<open>The style of the cell's \<open>div\<close>.\<close>

definition div_style :: "grid \<Rightarrow> column \<Rightarrow> string" where
  "div_style s c =
     (if col_checkbox c then []
      else (if col_align c = [] then [] else ''text-align:'' @ col_align c @ '';'')
        @ (if \<not> o_nowrap s then ''white-space:normal;height:auto;''
           else if o_autoRowHeight s then ''height:auto;'' else []))"

definition render_cell :: "grid_env \<Rightarrow> grid \<Rightarrow> nat \<Rightarrow> row \<Rightarrow> string option \<Rightarrow> column \<Rightarrow> td" where
  "render_cell E s i r f c =
     (let v = field_val r f; css = e_styler E (field_text f) v r i in
      \<lparr>d_field = f, d_class = css_class css, d_hidden = col_hidden c, d_style = css_style css, d_div = div_style s c,
       d_check = col_checkbox c, d_checked = (col_checkbox c \<and> truthy (r ''checked'')),
       d_value = (if col_checkbox c then join_text v else []),
       d_text = (if col_checkbox c then []
                 else case e_formatter E (field_text f) of Some g \<Rightarrow> g v r i | None \<Rightarrow> join_text v),
       d_cellClass = (if col_checkbox c then [] else col_class c), d_editor = None, d_span = None\<rparr>)"

text \<open>A field that no column has, such as that of a group, has no cell.\<close>

definition render_cells :: "grid_env \<Rightarrow> grid \<Rightarrow> bool \<Rightarrow> nat \<Rightarrow> row \<Rightarrow> td list" where
  "render_cells E s frozen i r =
     List.map_filter (\<lambda>f. map_option (render_cell E s i r f) (get_column s f)) (fields_of frozen s)"

text \<open>The number of row \<open>n\<close> (from 1) over all pages.\<close>

definition row_number :: "grid \<Rightarrow> int \<Rightarrow> jnum" where
  "row_number s n =
     (if o_pagination s then jplus (Fin n) (jtimes (jminus (o_pageNumber s) (Fin 1)) (o_pageSize s)) else Fin n)"

definition row_num_cell :: "grid \<Rightarrow> bool \<Rightarrow> nat \<Rightarrow> jnum option" where
  "row_num_cell s frozen i = (if frozen \<and> o_rownumbers s then Some (row_number s (int i + 1)) else None)"

definition class_words :: "string \<Rightarrow> string list" where
  "class_words c = filter (\<lambda>w. w \<noteq> []) (js_split (CHR '' '') c)"

definition is_alt :: "grid \<Rightarrow> nat \<Rightarrow> bool" where
  "is_alt s i \<longleftrightarrow> i mod 2 \<noteq> 0 \<and> o_striped s"

definition render_tr :: "grid_env \<Rightarrow> grid \<Rightarrow> bool \<Rightarrow> nat \<Rightarrow> row \<Rightarrow> tr" where
  "render_tr E s frozen i r =
     (let css = e_rowStyler E i r in
      \<lparr>t_index = i, t_live = True, t_selected = False, t_checked = False, t_over = False, t_editing = False,
       t_alt = is_alt s i, t_user = class_words (css_class css), t_style = css_style css,
       t_num = row_num_cell s frozen i, t_cells = render_cells E s frozen i r\<rparr>)"

text \<open>The first view has a table only with row numbers or frozen columns.\<close>

definition has_view1 :: "grid \<Rightarrow> bool" where
  "has_view1 s \<longleftrightarrow> o_rownumbers s \<or> o_frozen s \<noteq> []"

definition render_table :: "grid_env \<Rightarrow> grid \<Rightarrow> bool \<Rightarrow> row list \<Rightarrow> tr list" where
  "render_table E s frozen rows =
     (if frozen \<and> \<not> has_view1 s then [] else map (\<lambda>(i, r). render_tr E s frozen i r) (enumerate 0 rows))"

definition row_values :: "grid \<Rightarrow> rid list \<Rightarrow> row list" where
  "row_values s rs = map (g_store s) rs"

definition render_footer :: "grid_env \<Rightarrow> grid \<Rightarrow> bool \<Rightarrow> tr list" where
  "render_footer E s frozen =
     map (\<lambda>(i, r). (render_tr E s frozen i r)\<lparr>t_alt := False, t_user := [], t_style := []\<rparr>)
       (enumerate 0 (row_values s (g_footer s)))"

text \<open>The placeholder loses the class and the index attribute of a row.\<close>

definition render_empty_row :: "grid_env \<Rightarrow> grid \<Rightarrow> grid" where
  "render_empty_row E s = s\<lparr>g_body2 := map (\<lambda>t. t\<lparr>t_live := False\<rparr>) (render_table E s False [empty_row])\<rparr>"

text \<open>The drawing of a page as \<open>_b1\<close> asks for it (lines 1044-1055).\<close>

definition draw_footer :: "grid_env \<Rightarrow> grid \<Rightarrow> grid" where
  "draw_footer E s = s\<lparr>g_foot2 := render_footer E s False, g_foot1 := render_footer E s True\<rparr>"

definition after_render :: "grid_env \<Rightarrow> grid \<Rightarrow> grid" where
  "after_render E s = (if g_rows s = [] then render_empty_row E s else s)"

definition draw_page :: "grid_env \<Rightarrow> grid \<Rightarrow> grid" where
  "draw_page E s =
     (let s = s\<lparr>g_body2 := render_table E s False (row_values s (g_rows s))\<rparr>;
          s = s\<lparr>g_body1 := render_table E s True (row_values s (g_rows s))\<rparr>;
          s = (if o_showFooter s then draw_footer E s else s)
      in after_render E s)"

section \<open>Single rows: lines 2200-2317\<close>

definition override_row :: "row \<Rightarrow> (string \<times> jsval) list \<Rightarrow> row" where
  "override_row r fs = fold (\<lambda>(f, v) r. r(f := v)) fs r"

text \<open>The new markup of a row element: its boxes stay checked, its own classes are replaced.\<close>

definition refresh_tr :: "grid_env \<Rightarrow> grid \<Rightarrow> bool \<Rightarrow> nat \<Rightarrow> row \<Rightarrow> row \<Rightarrow> tr \<Rightarrow> tr" where
  "refresh_tr E s frozen i old r t =
     (let was = box_checked t; oldw = class_words (css_class (e_rowStyler E i old));
          neww = class_words (css_class (e_rowStyler E i r));
          u = filter (\<lambda>w. w \<notin> set oldw) (t_user t);
          t' = t\<lparr>t_cells := render_cells E s frozen i r, t_num := row_num_cell s frozen i,
              t_style := css_style (e_rowStyler E i r),
              t_user := u @ filter (\<lambda>w. w \<notin> set u) neww, t_live := True,
              t_alt := (t_alt t \<or> is_alt s i)\<rparr>
      in if was then tick True t' else t')"

definition update_row :: "grid_env \<Rightarrow> nat \<Rightarrow> (string \<times> jsval) list \<Rightarrow> grid \<Rightarrow> grid option" where
  "update_row E i fs s =
     (case get_row s i of
        None \<Rightarrow> None
      | Some r \<Rightarrow>
          let old = g_store s r; new = override_row old fs; s = s\<lparr>g_store := (g_store s)(r := new)\<rparr> in
          Some (s\<lparr>g_body1 := upd_first (has_index i) (refresh_tr E s True i old new) (g_body1 s),
                  g_body2 := upd_first (has_index i) (refresh_tr E s False i old new) (g_body2 s)\<rparr>))"

definition refresh_row :: "grid_env \<Rightarrow> nat \<Rightarrow> grid \<Rightarrow> grid option" where
  "refresh_row E i s = update_row E i [] s"

text \<open>A row element takes a new index: its attributes, its number in the first view, its stripe.\<close>

definition renumber :: "grid \<Rightarrow> bool \<Rightarrow> nat \<Rightarrow> tr \<Rightarrow> tr" where
  "renumber s frozen i t =
     t\<lparr>t_index := i,
       t_num := (if frozen \<and> o_rownumbers s \<and> t_num t \<noteq> None then Some (row_number s (int i + 1)) else t_num t),
       t_alt := (if o_striped s then i mod 2 \<noteq> 0 else t_alt t)\<rparr>"

definition shift_up :: "grid \<Rightarrow> bool \<Rightarrow> nat \<Rightarrow> tr list \<Rightarrow> tr list" where
  "shift_up s frozen k ts =
     fold (\<lambda>i. upd_first (has_index i) (renumber s frozen (i + 1))) (rev [k..<length (g_rows s)]) ts"

definition shift_down :: "grid \<Rightarrow> bool \<Rightarrow> nat \<Rightarrow> tr list \<Rightarrow> tr list" where
  "shift_down s frozen k ts =
     fold (\<lambda>i. upd_first (has_index i) (renumber s frozen (i - 1))) [Suc k..<length (g_rows s)] ts"

definition new_tr :: "nat \<Rightarrow> tr" where
  "new_tr i = \<lparr>t_index = i, t_live = True, t_selected = False, t_checked = False, t_over = False, t_editing = False,
     t_alt = False, t_user = [], t_style = [], t_num = None, t_cells = []\<rparr>"

text \<open>After the last row, before the row that now has the next index, or alone.\<close>

fun ins_after_last :: "tr \<Rightarrow> tr list \<Rightarrow> tr list" where
  "ins_after_last n [] = []"
| "ins_after_last n (t # ts) =
     (if t_live t \<and> \<not> list_ex t_live ts then t # n # ts else t # ins_after_last n ts)"

fun ins_before :: "nat \<Rightarrow> tr \<Rightarrow> tr list \<Rightarrow> tr list" where
  "ins_before k n [] = []"
| "ins_before k n (t # ts) = (if has_index k t then n # t # ts else t # ins_before k n ts)"

definition insert_tr :: "nat \<Rightarrow> nat \<Rightarrow> tr list \<Rightarrow> tr list" where
  "insert_tr len k ts =
     (if len \<le> k then (if len = 0 then [new_tr k] else ins_after_last (new_tr k) ts)
      else ins_before (Suc k) (new_tr k) ts)"

definition insert_row :: "grid_env \<Rightarrow> nat option \<Rightarrow> rid \<Rightarrow> grid \<Rightarrow> grid option" where
  "insert_row E ix r s =
     (let n = length (g_rows s);
          k = (case ix of None \<Rightarrow> n | Some i \<Rightarrow> if n < i then n else i)
      in refresh_row E k
           (s\<lparr>g_body1 := insert_tr n k (shift_up s True k (g_body1 s)),
              g_body2 := insert_tr n k (shift_up s False k (g_body2 s)),
              g_total := jplus (g_total s) (Fin 1), g_rows := splice_ins k r (g_rows s)\<rparr>))"

fun remove_first_tr :: "nat \<Rightarrow> tr list \<Rightarrow> tr list" where
  "remove_first_tr k [] = []"
| "remove_first_tr k (t # ts) = (if has_index k t then ts else t # remove_first_tr k ts)"

definition delete_row_view :: "nat \<Rightarrow> grid \<Rightarrow> grid" where
  "delete_row_view k s =
     s\<lparr>g_body1 := shift_down s True k (remove_first_tr k (g_body1 s)),
       g_body2 := shift_down s False k (remove_first_tr k (g_body2 s)),
       g_total := jplus (g_total s) (Fin (-1)), g_rows := splice_del k (g_rows s)\<rparr>"

section \<open>Row elements and their indices\<close>

lemma upd_first_split: "\<forall>x\<in>set xs. \<not> P x \<Longrightarrow> P y \<Longrightarrow> upd_first P f (xs @ y # ys) = xs @ f y # ys"
  by (induction xs) auto

lemma fold_up:
  assumes "k \<le> n" and "\<forall>x\<in>set xs. t_index x < k" and "map t_index ys = [k..<n]"
  shows "fold (\<lambda>i. upd_first (has_index i) (f i)) (rev [k..<n]) (xs @ ys @ zs) = xs @ map (\<lambda>t. f (t_index t) t) ys @ zs"
  using assms
proof (induction n arbitrary: ys zs rule: nat_induct_at_least)
  case base
  then show ?case by simp
next
  case (Suc n)
  then obtain ys' y where y: "ys = ys' @ [y]" "map t_index ys' = [k..<n]" "t_index y = n"
    by (cases ys rule: rev_cases) auto
  have "\<forall>x\<in>set (xs @ ys'). \<not> has_index n x"
  proof
    fix x
    assume "x \<in> set (xs @ ys')"
    then have "t_index x < k \<or> t_index x \<in> set (map t_index ys')" using Suc.prems(1) by auto
    then show "\<not> has_index n x" using y(2) Suc.hyps by (auto simp: has_index_def)
  qed
  then have "upd_first (has_index n) (f n) ((xs @ ys') @ y # zs) = (xs @ ys') @ f n y # zs"
    by (rule upd_first_split) (simp add: has_index_def y)
  with Suc.IH [OF Suc.prems(1) y(2), of "f n y # zs"] Suc.hyps y show ?case by simp
qed

lemma fold_down:
  assumes "\<forall>x\<in>set xs. t_index x \<le> k" and "map t_index ys = [Suc k..<n]" and "\<And>i t. t_index (f i t) = i - 1"
  shows "fold (\<lambda>i. upd_first (has_index i) (f i)) [Suc k..<n] (xs @ ys) = xs @ map (\<lambda>t. f (t_index t) t) ys"
  using assms(1,2)
proof (induction ys arbitrary: xs k)
  case Nil
  then show ?case by simp
next
  case (Cons y ys)
  then have "[Suc k..<n] = t_index y # map t_index ys" by simp
  then have c: "Suc k < n \<and> Suc k = t_index y \<and> [Suc k + 1..<n] = map t_index ys"
    unfolding upt_eq_Cons_conv .
  then have k: "Suc k < n" and y: "t_index y = Suc k" "map t_index ys = [Suc (Suc k)..<n]"
    using c by (blast, metis, metis Suc_eq_plus1)
  have "upd_first (has_index (Suc k)) (f (Suc k)) (xs @ y # ys) = xs @ f (Suc k) y # ys"
    using Cons.prems(1) y by (intro upd_first_split) (auto simp: has_index_def)
  moreover have "\<forall>x\<in>set (xs @ [f (Suc k) y]). t_index x \<le> Suc k" using Cons.prems(1) assms(3) by auto
  ultimately show ?case using Cons.IH [of "xs @ [f (Suc k) y]" "Suc k"] y k by (simp add: upt_rec [of "Suc k" n])
qed

lemma index_parts:
  assumes "map t_index ts = [0..<n]" and "k \<le> n"
  shows "map t_index (take k ts) = [0..<k]" and "map t_index (drop k ts) = [k..<n]" and "\<forall>x\<in>set (take k ts). t_index x < k"
    and "length ts = n"
proof -
  show t: "map t_index (take k ts) = [0..<k]" using assms by (simp add: take_map [symmetric])
  show "map t_index (drop k ts) = [k..<n]" using assms by (simp add: drop_map [symmetric])
  show "\<forall>x\<in>set (take k ts). t_index x < k"
  proof
    fix x
    assume "x \<in> set (take k ts)"
    then have "t_index x \<in> set (map t_index (take k ts))" by simp
    then show "t_index x < k" unfolding t by simp
  qed
  show "length ts = n" using assms(1) by (metis length_map length_upt minus_nat.diff_0)
qed

lemma shift_up_parts:
  assumes "map t_index ts = [0..<length (g_rows s)]" and "k \<le> length (g_rows s)"
  shows "shift_up s frozen k ts = take k ts @ map (\<lambda>t. renumber s frozen (t_index t + 1) t) (drop k ts)"
  using fold_up [OF assms(2) index_parts(3) [OF assms] index_parts(2) [OF assms],
      of "\<lambda>i. renumber s frozen (i + 1)" "[]"]
  by (simp add: shift_up_def)

lemma ins_before_split: "\<forall>x\<in>set xs. \<not> has_index k x \<Longrightarrow> has_index k y \<Longrightarrow> ins_before k n (xs @ y # ys) = xs @ n # y # ys"
  by (induction xs) auto

lemma ins_after_all: "ts \<noteq> [] \<Longrightarrow> \<forall>t\<in>set ts. t_live t \<Longrightarrow> ins_after_last n ts = ts @ [n]"
proof (induction ts)
  case (Cons t ts)
  then show ?case by (cases ts) (auto simp: list_ex_iff)
qed simp

text \<open>Where the new row element goes.\<close>

lemma insert_tr_parts:
  assumes "map t_index ts = [0..<n]" and "\<forall>t\<in>set ts. t_live t" and "k \<le> n"
    and "\<And>t. t_index (g t) = t_index t + 1"
  shows "insert_tr n k (take k ts @ map g (drop k ts)) = take k ts @ new_tr k # map g (drop k ts)"
proof (cases "k = n")
  case True
  with index_parts(4) [OF assms(1,3)] assms(2) show ?thesis
    by (cases "ts = []") (auto simp: insert_tr_def ins_after_all)
next
  case False
  with assms(3) have k: "k < n" by simp
  note p = index_parts [OF assms(1,3)]
  have "drop k ts \<noteq> []" using k p(4) by simp
  then obtain y ys where y: "drop k ts = y # ys" by (cases "drop k ts") auto
  have "t_index y = k" using p(2) y k by (simp add: upt_rec [of k n])
  with p(3) y k show ?thesis
    unfolding insert_tr_def by (simp, subst ins_before_split) (auto simp: has_index_def assms(4))
qed

lemma remove_first_split: "\<forall>x\<in>set xs. \<not> has_index k x \<Longrightarrow> has_index k y \<Longrightarrow> remove_first_tr k (xs @ y # ys) = xs @ ys"
  by (induction xs) auto

lemma shift_down_parts:
  assumes "map t_index ts = [0..<length (g_rows s)]" and "k < length (g_rows s)"
  shows "shift_down s frozen k (remove_first_tr k ts) =
     take k ts @ map (\<lambda>t. renumber s frozen (t_index t - 1) t) (drop (Suc k) ts)"
proof -
  have k: "k \<le> length (g_rows s)" "Suc k \<le> length (g_rows s)" using assms(2) by simp_all
  note p = index_parts [OF assms(1) k(1)] and q = index_parts [OF assms(1) k(2)]
  have kl: "k < length ts" using p(4) assms(2) by simp
  have "t_index (ts ! k) = k" using assms by (metis add_0 diff_zero length_upt nth_map nth_upt p(4))
  then have "remove_first_tr k (take k ts @ ts ! k # drop (Suc k) ts) = take k ts @ drop (Suc k) ts"
    using p(3) by (intro remove_first_split) (auto simp: has_index_def)
  then have r: "remove_first_tr k ts = take k ts @ drop (Suc k) ts" using id_take_nth_drop [OF kl] by simp
  have x: "\<forall>x\<in>set (take k ts). t_index x \<le> k" using p(3) by auto
  show ?thesis
    unfolding shift_down_def r by (rule fold_down [OF x q(2)]) (simp add: renumber_def)
qed

section \<open>Changing one row is drawing the page again\<close>

text \<open>A row element without the marks, and a page that shows the rows as rendering them would.\<close>

definition strip :: "tr \<Rightarrow> tr" where
  "strip t = t\<lparr>t_selected := False, t_checked := False, t_over := False, t_editing := False,
     t_cells := map (\<lambda>d. d\<lparr>d_checked := False\<rparr>) (t_cells t)\<rparr>"

definition shows_rows :: "grid_env \<Rightarrow> grid \<Rightarrow> bool \<Rightarrow> tr list \<Rightarrow> bool" where
  "shows_rows E s frozen ts \<longleftrightarrow>
     map strip ts = map (\<lambda>(i, r). strip (render_tr E s frozen i (g_store s r))) (enumerate 0 (g_rows s))"

definition drawn :: "grid_env \<Rightarrow> grid \<Rightarrow> bool" where
  "drawn E s \<longleftrightarrow> g_rows s = [] \<or> (shows_rows E s False (g_body2 s) \<and> (has_view1 s \<longrightarrow> shows_rows E s True (g_body1 s)))"

text \<open>Stylers and formatters that do not look at the index.\<close>

definition uniform :: "grid_env \<Rightarrow> bool" where
  "uniform E \<longleftrightarrow> (\<forall>i r. e_rowStyler E i r = e_rowStyler E 0 r) \<and> (\<forall>f v r i. e_styler E f v r i = e_styler E f v r 0)
     \<and> (\<forall>f g v r i. e_formatter E f = Some g \<longrightarrow> g v r i = g v r 0)"

text \<open>Rendering looks at the columns and the options only.\<close>

definition same_look :: "grid \<Rightarrow> grid \<Rightarrow> bool" where
  "same_look s t \<longleftrightarrow> o_columns t = o_columns s \<and> o_frozen t = o_frozen s \<and> o_nowrap t = o_nowrap s
     \<and> o_autoRowHeight t = o_autoRowHeight s \<and> o_rownumbers t = o_rownumbers s \<and> o_pagination t = o_pagination s
     \<and> o_pageNumber t = o_pageNumber s \<and> o_pageSize t = o_pageSize s \<and> o_striped t = o_striped s"

lemma same_look_facts:
  assumes "same_look s t"
  shows "render_tr E t = render_tr E s" and "render_cells E t = render_cells E s" and "has_view1 t = has_view1 s"
    and "row_num_cell t = row_num_cell s" and "is_alt t = is_alt s" and "refresh_tr E t = refresh_tr E s"
proof -
  have "div_style t = div_style s" using assms by (simp add: fun_eq_iff div_style_def same_look_def)
  then have c: "render_cell E t = render_cell E s" by (simp add: fun_eq_iff render_cell_def)
  have g: "get_column t = get_column s" using assms by (simp add: fun_eq_iff get_column_def same_look_def split: option.split)
  have "fields_of frozen t = fields_of frozen s" for frozen using assms by (simp add: fields_of_def same_look_def)
  then show k: "render_cells E t = render_cells E s" by (simp add: fun_eq_iff render_cells_def c g)
  show n: "row_num_cell t = row_num_cell s"
    using assms by (simp add: fun_eq_iff row_num_cell_def row_number_def same_look_def)
  show a: "is_alt t = is_alt s" using assms by (simp add: fun_eq_iff is_alt_def same_look_def)
  show "render_tr E t = render_tr E s" by (simp add: fun_eq_iff render_tr_def k n a)
  show "refresh_tr E t = refresh_tr E s" by (simp add: fun_eq_iff refresh_tr_def k n a)
  show "has_view1 t = has_view1 s" using assms by (simp add: has_view1_def same_look_def)
qed

lemma strip_facts [simp]:
  "t_index (strip t) = t_index t" "t_live (strip t) = t_live t" "t_num (strip t) = t_num t" "t_alt (strip t) = t_alt t"
  "t_user (strip t) = t_user t" "t_style (strip t) = t_style t" "strip (tick b t) = strip t"
  by (auto simp: strip_def tick_def)

lemma uniform_cells: "uniform E \<Longrightarrow> render_cells E s frozen i r = render_cells E s frozen j r"
proof -
  assume u: "uniform E"
  have st: "e_styler E f v r i = e_styler E f v r j" for f v using u unfolding uniform_def by metis
  have fm: "e_formatter E f = Some g \<Longrightarrow> g v r i = g v r j" for f g v using u unfolding uniform_def by metis
  have "render_cell E s i r = render_cell E s j r"
    by (auto simp: fun_eq_iff render_cell_def Let_def st dest: fm split: option.split)
  then show ?thesis by (simp only: render_cells_def)
qed

text \<open>A renumbered element is the element of the row at its new place.\<close>

lemma renumber_render:
  assumes "uniform E" and "strip t = strip (render_tr E s frozen i r)"
  shows "strip (renumber s frozen j t) = strip (render_tr E s frozen j r)"
proof -
  have eq: "t_num t = row_num_cell s frozen i" "t_alt t = is_alt s i" "t_user t = class_words (css_class (e_rowStyler E i r))"
    "t_style t = css_style (e_rowStyler E i r)" "t_live t"
    using arg_cong [OF assms(2), of t_num] arg_cong [OF assms(2), of t_alt] arg_cong [OF assms(2), of t_user]
      arg_cong [OF assms(2), of t_style] arg_cong [OF assms(2), of t_live] by (simp_all add: render_tr_def Let_def)
  have c: "map (\<lambda>d. d\<lparr>d_checked := False\<rparr>) (t_cells t) = map (\<lambda>d. d\<lparr>d_checked := False\<rparr>) (render_cells E s frozen j r)"
    using arg_cong [OF assms(2), of t_cells] uniform_cells [OF assms(1), of s frozen i r j]
    by (simp add: strip_def render_tr_def Let_def)
  have "e_rowStyler E i r = e_rowStyler E j r" using assms(1) unfolding uniform_def by metis
  with eq c show ?thesis
    by (simp add: strip_def renumber_def render_tr_def Let_def is_alt_def row_num_cell_def add.commute)
qed

lemma refresh_render:
  assumes "t_user t = class_words (css_class (e_rowStyler E i old)) \<or> t_user t = []" and "t_index t = i"
    and "t_alt t \<longrightarrow> is_alt s i"
  shows "strip (refresh_tr E s frozen i old r t) = strip (render_tr E s frozen i r)"
proof -
  let ?o = "class_words (css_class (e_rowStyler E i old))"
  have "filter (\<lambda>w. w \<notin> set ?o) (t_user t) = []" using assms(1) by (auto simp: filter_empty_conv)
  then have "strip (refresh_tr E s frozen i old r t) = strip (t\<lparr>t_cells := render_cells E s frozen i r,
      t_num := row_num_cell s frozen i, t_style := css_style (e_rowStyler E i r),
      t_user := class_words (css_class (e_rowStyler E i r)), t_live := True, t_alt := (t_alt t \<or> is_alt s i)\<rparr>)"
    by (simp add: refresh_tr_def Let_def)
  also have "\<dots> = strip (render_tr E s frozen i r)"
    using assms(2,3) by (auto simp: strip_def render_tr_def Let_def)
  finally show ?thesis .
qed

lemma shows_index:
  assumes "shows_rows E s frozen ts"
  shows "map t_index ts = [0..<length (g_rows s)]" and "\<forall>t\<in>set ts. t_live t" and "length ts = length (g_rows s)"
    and "i < length (g_rows s) \<Longrightarrow> strip (ts ! i) = strip (render_tr E s frozen i (g_store s (g_rows s ! i)))"
proof -
  note eq = assms [unfolded shows_rows_def]
  show l: "length ts = length (g_rows s)" using arg_cong [OF eq, of length] by simp
  show n: "i < length (g_rows s) \<Longrightarrow> strip (ts ! i) = strip (render_tr E s frozen i (g_store s (g_rows s ! i)))" for i
    using arg_cong [OF eq, of "\<lambda>l. l ! i"] l by (simp add: nth_enumerate_eq)
  show "map t_index ts = [0..<length (g_rows s)]"
  proof (rule nth_equalityI)
    fix i
    assume "i < length (map t_index ts)"
    then show "map t_index ts ! i = [0..<length (g_rows s)] ! i"
      using arg_cong [OF n [of i], of t_index] l by (simp add: render_tr_def Let_def)
  qed (simp add: l)
  show "\<forall>t\<in>set ts. t_live t"
    using n l by (metis in_set_conv_nth strip_facts(2) render_tr_def tr.select_convs(2))
qed

lemma shows_rowsI:
  assumes "length ts = length (g_rows s)"
    and "\<And>i. i < length (g_rows s) \<Longrightarrow> strip (ts ! i) = strip (render_tr E s frozen i (g_store s (g_rows s ! i)))"
  shows "shows_rows E s frozen ts"
  unfolding shows_rows_def using assms by (intro nth_equalityI) (simp_all add: nth_enumerate_eq)

text \<open>The two views after each of the three operations.\<close>

lemma insert_view:
  assumes "uniform E" and "shows_rows E s frozen ts \<or> g_rows s = []" and "k \<le> length (g_rows s)"
    and t: "same_look s t" "g_rows t = splice_ins k r (g_rows s)" "g_store t = g_store s"
  shows "shows_rows E t frozen (upd_first (has_index k) (refresh_tr E t frozen k (g_store s r) (g_store s r))
     (insert_tr (length (g_rows s)) k (shift_up s frozen k ts)))"
proof -
  let ?n = "length (g_rows s)"
  let ?g = "\<lambda>t. renumber s frozen (t_index t + 1) t"
  define xs ys where "xs = (if ?n = 0 then [] else take k ts)" and "ys = (if ?n = 0 then [] else drop k ts)"
  have "insert_tr ?n k (shift_up s frozen k ts) = xs @ new_tr k # map ?g ys \<and> length xs = k \<and> length ys = ?n - k
     \<and> (\<forall>x\<in>set xs. t_index x < k)
     \<and> (\<forall>i<k. strip (xs ! i) = strip (render_tr E s frozen i (g_store s (g_rows s ! i))))
     \<and> (\<forall>i<?n - k. t_index (ys ! i) = k + i \<and> strip (ys ! i) = strip (render_tr E s frozen (k + i) (g_store s (g_rows s ! (k + i)))))"
  proof (cases "?n = 0")
    case True
    with assms(3) show ?thesis by (simp add: insert_tr_def xs_def ys_def)
  next
    case False
    then have sh: "shows_rows E s frozen ts" using assms(2) by auto
    note v = shows_index [OF sh] and p = index_parts [OF shows_index(1) [OF sh] assms(3)]
    have "insert_tr ?n k (shift_up s frozen k ts) = take k ts @ new_tr k # map ?g (drop k ts)"
      unfolding shift_up_parts [OF v(1) assms(3)] by (rule insert_tr_parts [OF v(1,2) assms(3)]) (simp add: renumber_def)
    moreover have "t_index (ts ! j) = j" if "j < ?n" for j using v(1,3) that by (metis add_0 diff_zero length_upt nth_map nth_upt)
    ultimately show ?thesis using False v(3,4) p(3) assms(3) by (auto simp: xs_def ys_def)
  qed
  then have ins: "insert_tr ?n k (shift_up s frozen k ts) = xs @ new_tr k # map ?g ys" and len: "length xs = k" "length ys = ?n - k"
    and xi: "\<forall>x\<in>set xs. t_index x < k"
    and xr: "\<And>i. i < k \<Longrightarrow> strip (xs ! i) = strip (render_tr E s frozen i (g_store s (g_rows s ! i)))"
    and yi: "\<And>i. i < ?n - k \<Longrightarrow> t_index (ys ! i) = k + i"
    and yr: "\<And>i. i < ?n - k \<Longrightarrow> strip (ys ! i) = strip (render_tr E s frozen (k + i) (g_store s (g_rows s ! (k + i))))"
    by blast+
  let ?f = "refresh_tr E t frozen k (g_store s r) (g_store s r)"
  have up: "upd_first (has_index k) ?f (xs @ new_tr k # map ?g ys) = xs @ ?f (new_tr k) # map ?g ys"
    using xi by (intro upd_first_split) (auto simp: has_index_def new_tr_def)
  have look: "render_tr E t = render_tr E s" "?f = refresh_tr E s frozen k (g_store s r) (g_store s r)"
    by (simp_all add: same_look_facts [OF t(1)])
  show ?thesis
    unfolding ins up
  proof (rule shows_rowsI)
    show "length (xs @ ?f (new_tr k) # map ?g ys) = length (g_rows t)" using len assms(3) by (simp add: t(2))
  next
    fix i
    assume "i < length (g_rows t)"
    then have i: "i \<le> ?n" by (simp add: t(2))
    have new: "strip (?f (new_tr k)) = strip (render_tr E s frozen k (g_store s r))"
      unfolding look by (rule refresh_render) (simp_all add: new_tr_def)
    have old: "strip (?g (ys ! j)) = strip (render_tr E s frozen (k + j + 1) (g_store s (g_rows s ! (k + j))))"
      if "j < ?n - k" for j
      using renumber_render [OF assms(1) yr [OF that], of "t_index (ys ! j) + 1"] yi [OF that] by simp
    have nth: "splice_ins k r (g_rows s) ! i = (if i < k then g_rows s ! i else if i = k then r else g_rows s ! (i - 1))"
      by (rule nth_splice_ins [OF assms(3) i])
    show "strip ((xs @ ?f (new_tr k) # map ?g ys) ! i) = strip (render_tr E t frozen i (g_store t (g_rows t ! i)))"
    proof (cases "i < k")
      case True
      then show ?thesis using xr len by (simp add: nth_append look t(2,3) nth)
    next
      case False
      show ?thesis
      proof (cases "i = k")
        case True
        then show ?thesis using new len nth by (simp add: nth_append look t(2,3))
      next
        case neq: False
        with False obtain j where j: "i = Suc (k + j)" using less_iff_Suc_add [of k i] by auto
        then have "j < ?n - k" using i by simp
        with old [OF this] j len show ?thesis by (simp add: nth_append look t(2,3) nth [unfolded j])
      qed
    qed
  qed
qed

lemma delete_view:
  assumes "uniform E" and "shows_rows E s frozen ts" and "k < length (g_rows s)"
    and t: "same_look s t" "g_rows t = splice_del k (g_rows s)" "g_store t = g_store s"
  shows "shows_rows E t frozen (shift_down s frozen k (remove_first_tr k ts))"
proof -
  let ?n = "length (g_rows s)" and ?g = "\<lambda>t. renumber s frozen (t_index t - 1) t"
  note v = shows_index [OF assms(2)]
  have ix: "t_index (ts ! j) = j" if "j < ?n" for j using v(1,3) that by (metis add_0 diff_zero length_upt nth_map nth_upt)
  have look: "render_tr E t = render_tr E s" by (simp add: same_look_facts [OF t(1)])
  show ?thesis
    unfolding shift_down_parts [OF v(1) assms(3)]
  proof (rule shows_rowsI)
    show "length (take k ts @ map ?g (drop (Suc k) ts)) = length (g_rows t)"
      using v(3) assms(3) by (simp add: t(2) length_splice_del)
  next
    fix i
    assume "i < length (g_rows t)"
    then have i: "i < ?n - 1" using assms(3) by (simp add: t(2) length_splice_del)
    have nth: "splice_del k (g_rows s) ! i = g_rows s ! (if i < k then i else Suc i)"
      by (rule nth_splice_del [OF i])
    show "strip ((take k ts @ map ?g (drop (Suc k) ts)) ! i) = strip (render_tr E t frozen i (g_store t (g_rows t ! i)))"
    proof (cases "i < k")
      case True
      then show ?thesis using v(3) v(4) [of i] i by (simp add: nth_append look t(2,3) nth)
    next
      case False
      have "strip (?g (ts ! Suc i)) = strip (render_tr E s frozen i (g_store s (g_rows s ! Suc i)))"
        using renumber_render [OF assms(1) v(4) [of "Suc i"], of i] ix [of "Suc i"] i by simp
      with False v(3) i assms(3) show ?thesis by (simp add: nth_append look t(2,3) nth)
    qed
  qed
qed

lemma update_view:
  assumes "shows_rows E s frozen ts" and "k < length (g_rows s)" and "distinct (g_rows s)"
    and t: "same_look s t" "g_rows t = g_rows s" "g_store t = (g_store s)(g_rows s ! k := new)"
  shows "shows_rows E t frozen (upd_first (has_index k) (refresh_tr E t frozen k (g_store s (g_rows s ! k)) new) ts)"
proof -
  note v = shows_index [OF assms(1)]
  let ?f = "refresh_tr E t frozen k (g_store s (g_rows s ! k)) new"
  have ix: "t_index (ts ! j) = j" if "j < length (g_rows s)" for j
    using v(1,3) that by (metis add_0 diff_zero length_upt nth_map nth_upt)
  have kl: "k < length ts" using v(3) assms(2) by simp
  have "upd_first (has_index k) ?f (take k ts @ ts ! k # drop (Suc k) ts) = take k ts @ ?f (ts ! k) # drop (Suc k) ts"
  proof (rule upd_first_split)
    show "\<forall>x\<in>set (take k ts). \<not> has_index k x"
      using index_parts(3) [OF v(1), of k] assms(2) by (auto simp: has_index_def)
  qed (use ix [OF assms(2)] in \<open>simp add: has_index_def\<close>)
  then have up: "upd_first (has_index k) ?f ts = ts[k := ?f (ts ! k)]"
    using id_take_nth_drop [OF kl] upd_conv_take_nth_drop [OF kl] by metis
  have look: "render_tr E t = render_tr E s" "?f = refresh_tr E s frozen k (g_store s (g_rows s ! k)) new"
    by (simp_all add: same_look_facts [OF t(1)])
  have sk: "strip (ts ! k) = strip (render_tr E s frozen k (g_store s (g_rows s ! k)))" by (rule v(4) [OF assms(2)])
  have "strip (?f (ts ! k)) = strip (render_tr E s frozen k new)"
    unfolding look
  proof (rule refresh_render)
    show "t_user (ts ! k) = class_words (css_class (e_rowStyler E k (g_store s (g_rows s ! k)))) \<or> t_user (ts ! k) = []"
      using arg_cong [OF sk, of t_user] by (simp add: render_tr_def Let_def)
    show "t_alt (ts ! k) \<longrightarrow> is_alt s k" using arg_cong [OF sk, of t_alt] by (simp add: render_tr_def Let_def)
  qed (rule ix [OF assms(2)])
  then show ?thesis
    unfolding up using v(3,4) assms(2,3) by (intro shows_rowsI) (auto simp: look t nth_list_update nth_eq_iff_index_eq)
qed

lemma same_look_refl [simp]: "same_look s s"
  by (simp add: same_look_def)

text \<open>
  C22: Inserting one row is as good as drawing the page again: on a page that shows its rows, of a
  grid whose stylers and formatters do not look at the index, the new row appears at its place,
  the rows after it move down, and every index, stripe, row number (over all pages) and cell in
  both views is the one rendering the new list of rows gives; the total grows by one.
\<close>

theorem dg_insert_row:
  assumes "uniform E" and "drawn E s"
  shows "\<exists>t. insert_row E ix r s = Some t \<and> drawn E t \<and> g_total t = jplus (g_total s) (Fin 1)
     \<and> g_rows t = splice_ins (case ix of None \<Rightarrow> length (g_rows s) | Some i \<Rightarrow> min i (length (g_rows s))) r (g_rows s)"
proof -
  let ?n = "length (g_rows s)"
  define k where "k = (case ix of None \<Rightarrow> ?n | Some i \<Rightarrow> if ?n < i then ?n else i)"
  have k: "k \<le> ?n" "k = (case ix of None \<Rightarrow> ?n | Some i \<Rightarrow> min i ?n)" by (auto simp: k_def split: option.split)
  let ?u = "s\<lparr>g_body1 := insert_tr ?n k (shift_up s True k (g_body1 s)),
     g_body2 := insert_tr ?n k (shift_up s False k (g_body2 s)),
     g_total := jplus (g_total s) (Fin 1), g_rows := splice_ins k r (g_rows s)\<rparr>"
  have at: "splice_ins k r (g_rows s) ! k = r" using nth_splice_ins [OF k(1) k(1)] by simp
  let ?t = "?u\<lparr>g_body1 := upd_first (has_index k) (refresh_tr E ?u True k (g_store s r) (g_store s r)) (g_body1 ?u),
     g_body2 := upd_first (has_index k) (refresh_tr E ?u False k (g_store s r) (g_store s r)) (g_body2 ?u)\<rparr>"
  have row: "get_row ?u k = Some r" using at k(1) by (simp add: get_row_def)
  have eq: "insert_row E ix r s = Some ?t"
    unfolding insert_row_def Let_def k_def [symmetric] refresh_row_def update_row_def row
    by (simp add: override_row_def refresh_tr_def [abs_def] fun_upd_idem)
  have look: "same_look s ?t" "same_look ?u ?t" by (simp_all add: same_look_def)
  have v: "shows_rows E ?t frozen (upd_first (has_index k) (refresh_tr E ?t frozen k (g_store s r) (g_store s r))
     (insert_tr ?n k (shift_up s frozen k ts)))" if "shows_rows E s frozen ts \<or> g_rows s = []" for frozen ts
    by (rule insert_view [OF assms(1) that k(1) look(1)]) simp_all
  have rf: "refresh_tr E ?t = refresh_tr E ?u" by (rule same_look_facts(6) [OF look(2)])
  have hv: "has_view1 ?t = has_view1 s" by (rule same_look_facts(3) [OF look(1)])
  have "drawn E ?t"
    using assms(2) v [of False "g_body2 s"] v [of True "g_body1 s"] hv unfolding drawn_def rf by auto
  with eq k(2) show ?thesis by (intro exI [of _ ?t]) simp
qed

text \<open>
  C23: Deleting one row, too: the elements of the row leave both views, the rows after it move up,
  and the page is what rendering the remaining rows gives; the total shrinks by one.
\<close>

theorem dg_delete_row_view:
  assumes "uniform E" and "drawn E s" and "k < length (g_rows s)"
  shows "drawn E (delete_row_view k s) \<and> g_rows (delete_row_view k s) = splice_del k (g_rows s)
     \<and> g_total (delete_row_view k s) = jplus (g_total s) (Fin (-1))"
proof -
  have look: "same_look s (delete_row_view k s)" by (simp add: same_look_def delete_row_view_def)
  have v: "shows_rows E (delete_row_view k s) frozen (shift_down s frozen k (remove_first_tr k ts))"
    if "shows_rows E s frozen ts" for frozen ts
    by (rule delete_view [OF assms(1) that assms(3) look]) (simp_all add: delete_row_view_def)
  have "g_rows s \<noteq> []" using assms(3) by auto
  then have "drawn E (delete_row_view k s)"
    using assms(2) v same_look_facts(3) [OF look] unfolding drawn_def by (auto simp: delete_row_view_def)
  then show ?thesis by (simp add: delete_row_view_def)
qed

text \<open>
  \<open>updateRow\<close> changes the fields given of the one row object and redraws that row in both
  views, so that the page shows the new values; the rows keep their places.
\<close>

theorem dg_update_row:
  assumes "drawn E s" and "distinct (g_rows s)" and "k < length (g_rows s)"
  shows "\<exists>t. update_row E k fs s = Some t \<and> drawn E t \<and> g_rows t = g_rows s
     \<and> g_store t = (g_store s)(g_rows s ! k := override_row (g_store s (g_rows s ! k)) fs)"
proof -
  let ?r = "g_rows s ! k"
  let ?old = "g_store s ?r"
  let ?new = "override_row ?old fs"
  let ?u = "s\<lparr>g_store := (g_store s)(?r := ?new)\<rparr>"
  let ?t = "?u\<lparr>g_body1 := upd_first (has_index k) (refresh_tr E ?u True k ?old ?new) (g_body1 s),
     g_body2 := upd_first (has_index k) (refresh_tr E ?u False k ?old ?new) (g_body2 s)\<rparr>"
  have eq: "update_row E k fs s = Some ?t" using assms(3) by (simp add: update_row_def get_row_def Let_def)
  have look: "same_look s ?t" "same_look ?u ?t" by (simp_all add: same_look_def)
  have rf: "refresh_tr E ?t = refresh_tr E ?u" by (rule same_look_facts(6) [OF look(2)])
  have v: "shows_rows E ?t frozen (upd_first (has_index k) (refresh_tr E ?u frozen k ?old ?new) ts)"
    if "shows_rows E s frozen ts" for frozen ts
    using update_view [OF that assms(3,2) look(1), of ?new] by (simp add: rf)
  have "g_rows s \<noteq> []" using assms(3) by auto
  then have "drawn E ?t" using assms(1) v same_look_facts(3) [OF look(1)] unfolding drawn_def by auto
  with eq show ?thesis by (intro exI [of _ ?t]) simp
qed

text \<open>A page just drawn shows its rows.\<close>

lemma draw_page_drawn: "drawn E (draw_page E s)"
proof -
  have t: "shows_rows E s frozen (render_table E s frozen (row_values s (g_rows s)))" if "frozen \<longrightarrow> has_view1 s" for frozen
    unfolding shows_rows_def using that
    by (intro nth_equalityI) (auto simp: render_table_def row_values_def nth_enumerate_eq)
  show ?thesis
  proof (cases "g_rows s = []")
    case True
    then have "g_rows (draw_page E s) = []"
      by (simp add: draw_page_def Let_def after_render_def draw_footer_def render_empty_row_def)
    then show ?thesis by (simp add: drawn_def)
  next
    case False
    let ?d = "draw_page E s"
    have look: "same_look s ?d" and g: "g_rows ?d = g_rows s" "g_store ?d = g_store s"
      and b: "g_body2 ?d = render_table E s False (row_values s (g_rows s))"
      "g_body1 ?d = render_table E (s\<lparr>g_body2 := g_body2 ?d\<rparr>) True (row_values s (g_rows s))"
      using False by (simp_all add: draw_page_def Let_def after_render_def draw_footer_def same_look_def row_values_def)
    have l2: "same_look s (s\<lparr>g_body2 := g_body2 ?d\<rparr>)" by (simp add: same_look_def)
    have "render_table E (s\<lparr>g_body2 := g_body2 ?d\<rparr>) True = render_table E s True"
      by (simp add: render_table_def fun_eq_iff same_look_facts [OF l2])
    then have "shows_rows E ?d True (g_body1 ?d)" if "has_view1 s"
      using t [of True] that by (simp add: shows_rows_def b(2) g same_look_facts [OF look])
    moreover have "shows_rows E ?d False (g_body2 ?d)"
      using t [of False] by (simp add: shows_rows_def b(1) g same_look_facts [OF look])
    ultimately show ?thesis by (simp add: drawn_def same_look_facts [OF look])
  qed
qed

lemma default_uniform: "uniform default_env"
  by (simp add: uniform_def default_env_def)

definition sample_page :: grid where
  "sample_page = draw_page default_env (sample_grid\<lparr>o_columns := [[plain_column ''id'']], o_striped := True, o_rownumbers := True\<rparr>)"

lemma sample_page_facts: "drawn default_env sample_page" "g_rows sample_page = [0, 1, 2]" "g_total sample_page = Fin 3"
  by (simp_all add: sample_page_def draw_page_drawn)
    (simp_all add: draw_page_def Let_def sample_grid_def datagrid_defaults_def after_render_def)

theorem dg_insert_row_witness:
  "\<exists>t. insert_row default_env (Some 1) 7 sample_page = Some t \<and> drawn default_env t \<and> g_total t = Fin 4 \<and> g_rows t = [0, 7, 1, 2]"
  using dg_insert_row [OF default_uniform sample_page_facts(1), of "Some 1" 7]
  by (auto simp: sample_page_facts splice_ins_def)

theorem dg_delete_row_view_witness:
  "drawn default_env (delete_row_view 1 sample_page) \<and> g_rows (delete_row_view 1 sample_page) = [0, 2]
   \<and> g_total (delete_row_view 1 sample_page) = Fin 2"
  using dg_delete_row_view [OF default_uniform sample_page_facts(1), of 1]
  by (simp add: sample_page_facts splice_del_def)

theorem dg_update_row_witness:
  "\<exists>t. update_row default_env 2 [(''id'', VNum 5)] sample_page = Some t \<and> drawn default_env t \<and> g_rows t = [0, 1, 2]
   \<and> g_store t 2 ''id'' = VNum 5"
proof -
  have "distinct (g_rows sample_page)" "2 < length (g_rows sample_page)" "g_rows sample_page ! 2 = 2"
    by (simp_all add: sample_page_facts)
  with dg_update_row [OF sample_page_facts(1), of 2 "[(''id'', VNum 5)]"] show ?thesis
    by (auto simp: sample_page_facts override_row_def)
qed

end
