(* ===== verification/Dg_Frame.thy ===== *)
theory Dg_Frame
  imports Dg_Render
begin

text \<open>
  What the marks of the grid do not touch.  \<open>erase\<close> forgets the selection, the checks, the highlight
  and the log; every operation of theory Dg_Select leaves the rest of the grid as it is, so that the
  theories about loading and editing can pass over a change of marks.
\<close>

definition erase :: "grid \<Rightarrow> grid" where
  "erase s = s\<lparr>g_selected := [], g_checked := [], g_headCheck := False, g_log := [], g_mute := False,
     g_lastSelected := None, g_highlight := None, g_body1 := map strip (g_body1 s), g_body2 := map strip (g_body2 s)\<rparr>"

lemma erase_fields [simp]:
  "g_rows (erase s) = g_rows s" "g_store (erase s) = g_store s" "g_total (erase s) = g_total s"
  "g_footer (erase s) = g_footer s" "g_next (erase s) = g_next s" "g_original (erase s) = g_original s"
  "g_updated (erase s) = g_updated s" "g_inserted (erase s) = g_inserted s" "g_deleted (erase s) = g_deleted s"
  "g_pagers (erase s) = g_pagers s" "g_mask (erase s) = g_mask s" "g_requests (erase s) = g_requests s"
  "g_headSort (erase s) = g_headSort s" "g_resizing (erase s) = g_resizing s" "o_idField (erase s) = o_idField s"
  "o_url (erase s) = o_url s" "o_pageNumber (erase s) = o_pageNumber s" "o_pageSize (erase s) = o_pageSize s"
  "o_pagination (erase s) = o_pagination s" "o_remoteSort (erase s) = o_remoteSort s"
  "o_sortName (erase s) = o_sortName s" "o_sortOrder (erase s) = o_sortOrder s" "o_query (erase s) = o_query s"
  "o_singleSelect (erase s) = o_singleSelect s" "o_checkOnSelect (erase s) = o_checkOnSelect s"
  "o_selectOnCheck (erase s) = o_selectOnCheck s" "o_loadMsg (erase s) = o_loadMsg s"
  "o_columns (erase s) = o_columns s" "o_frozen (erase s) = o_frozen s" "o_showFooter (erase s) = o_showFooter s"
  "o_multiSort (erase s) = o_multiSort s" "o_nowrap (erase s) = o_nowrap s"
  "o_autoRowHeight (erase s) = o_autoRowHeight s" "o_rownumbers (erase s) = o_rownumbers s"
  "o_striped (erase s) = o_striped s" "g_foot1 (erase s) = g_foot1 s" "g_foot2 (erase s) = g_foot2 s"
  "o_pageList (erase s) = o_pageList s"
  "g_body1 (erase s) = map strip (g_body1 s)" "g_body2 (erase s) = map strip (g_body2 s)"
  by (simp_all add: erase_def)

definition only_marks :: "grid \<Rightarrow> grid \<Rightarrow> bool" where
  "only_marks s t \<longleftrightarrow> erase t = erase s"

lemma only_marks_fields:
  assumes "only_marks s t"
  shows "g_rows t = g_rows s" "g_store t = g_store s" "g_total t = g_total s" "g_footer t = g_footer s" "g_next t = g_next s"
  "g_original t = g_original s" "g_updated t = g_updated s" "g_inserted t = g_inserted s" "g_deleted t = g_deleted s"
  "g_pagers t = g_pagers s" "g_mask t = g_mask s" "g_requests t = g_requests s" "g_headSort t = g_headSort s"
  "g_resizing t = g_resizing s" "o_idField t = o_idField s" "o_url t = o_url s" "o_pageNumber t = o_pageNumber s"
  "o_pageSize t = o_pageSize s" "o_pagination t = o_pagination s" "o_remoteSort t = o_remoteSort s"
  "o_sortName t = o_sortName s" "o_sortOrder t = o_sortOrder s" "o_query t = o_query s"
  "o_singleSelect t = o_singleSelect s" "o_checkOnSelect t = o_checkOnSelect s" "o_selectOnCheck t = o_selectOnCheck s"
  "o_loadMsg t = o_loadMsg s" "o_columns t = o_columns s" "o_frozen t = o_frozen s" "o_showFooter t = o_showFooter s"
  "o_multiSort t = o_multiSort s" "o_nowrap t = o_nowrap s" "o_autoRowHeight t = o_autoRowHeight s"
  "o_rownumbers t = o_rownumbers s" "o_striped t = o_striped s" "g_foot1 t = g_foot1 s" "g_foot2 t = g_foot2 s"
  "o_pageList t = o_pageList s"
    "map strip (g_body1 t) = map strip (g_body1 s)" "map strip (g_body2 t) = map strip (g_body2 s)"
  using assms unfolding only_marks_def by (metis erase_fields)+

lemma only_marks_look: "only_marks s t \<Longrightarrow> same_look s t"
  by (simp add: same_look_def only_marks_fields)

lemma only_marks_refl [simp]: "only_marks s s"
  by (simp add: only_marks_def)

lemma only_marks_trans [trans]: "only_marks s t \<Longrightarrow> only_marks t u \<Longrightarrow> only_marks s u"
  by (simp add: only_marks_def)

text \<open>Whether the page shows its rows does not depend on the marks.\<close>

lemma only_marks_drawn:
  assumes "only_marks s t"
  shows "drawn E t \<longleftrightarrow> drawn E s"
proof -
  note f = only_marks_fields [OF assms] and l = same_look_facts [OF only_marks_look [OF assms]]
  have "shows_rows E t frozen ts \<longleftrightarrow> shows_rows E s frozen us" if "map strip ts = map strip us" for frozen ts us
    using that by (simp add: shows_rows_def f l)
  with f show ?thesis by (simp add: drawn_def l)
qed

section \<open>The operations of theory Dg_Select\<close>

lemma strip_marks [simp]:
  "strip (t\<lparr>t_selected := b\<rparr>) = strip t" "strip (t\<lparr>t_checked := b\<rparr>) = strip t" "strip (t\<lparr>t_over := b\<rparr>) = strip t"
  by (simp_all add: strip_def)

lemma marks_upd_row: "(\<And>t. strip (f t) = strip t) \<Longrightarrow> only_marks s (upd_row i f s)"
  by (simp add: only_marks_def erase_def upd_row_def upd_first_map)

lemma marks_upd_all: "(\<And>t. strip (f t) = strip t) \<Longrightarrow> only_marks s (upd_all P f s)"
  by (simp add: only_marks_def erase_def upd_all_def comp_def if_distrib cong: if_cong)

lemma marks_fields [simp]:
  "only_marks s (t\<lparr>g_selected := a\<rparr>) = only_marks s t" "only_marks s (t\<lparr>g_checked := a\<rparr>) = only_marks s t"
  "only_marks s (t\<lparr>g_headCheck := b\<rparr>) = only_marks s t" "only_marks s (t\<lparr>g_mute := b\<rparr>) = only_marks s t"
  "only_marks s (t\<lparr>g_lastSelected := l\<rparr>) = only_marks s t" "only_marks s (t\<lparr>g_highlight := l\<rparr>) = only_marks s t"
  "only_marks s (dg_emit e t) = only_marks s t"
  by (simp_all add: only_marks_def erase_def dg_emit_def)

lemma marks_with_id: "(\<And>t. only_marks s t \<Longrightarrow> only_marks s (f t)) \<Longrightarrow> only_marks s t \<Longrightarrow> only_marks s (with_id f t)"
  by (simp add: with_id_def)

named_theorems keeps \<open>operations that change marks only\<close>

lemma marks_each [keeps]:
  assumes "only_marks s t"
  shows "only_marks s (mark_sel i r t)" "only_marks s (unmark_sel i r t)" "only_marks s (mark_sel_all t)"
    "only_marks s (unmark_sel_all t)" "only_marks s (mark_chk i r t)" "only_marks s (unmark_chk i r t)"
    "only_marks s (mark_chk_all t)" "only_marks s (unmark_chk_all t)"
proof -
  have r: "only_marks s (upd_row i f u)" if "only_marks s u" "\<And>t. strip (f t) = strip t" for i f u
    using only_marks_trans [OF that(1) marks_upd_row [OF that(2)]] .
  have a: "only_marks s (upd_all P f u)" if "only_marks s u" "\<And>t. strip (f t) = strip t" for P f u
    using only_marks_trans [OF that(1) marks_upd_all [OF that(2)]] .
  show "only_marks s (mark_sel i r t)" "only_marks s (unmark_sel i r t)" "only_marks s (mark_sel_all t)"
    "only_marks s (unmark_sel_all t)" "only_marks s (mark_chk i r t)" "only_marks s (unmark_chk i r t)"
    "only_marks s (mark_chk_all t)" "only_marks s (unmark_chk_all t)"
    unfolding mark_sel_def unmark_sel_def mark_sel_all_def unmark_sel_all_def mark_chk_def unmark_chk_def mark_chk_all_def
      unmark_chk_all_def Let_def
    using assms by (auto simp: with_id_def intro!: r a)
qed

lemma marks_ops [keeps]:
  assumes "\<And>u. only_marks s u \<Longrightarrow> only_marks s (casc u)" and "only_marks s t"
  shows "only_marks s (select_with E casc i r t)" "only_marks s (unselect_with E casc i r t)"
    "only_marks s (check_with E casc i r t)" "only_marks s (uncheck_with E casc i r t)"
    "only_marks s (select_all_with casc t)" "only_marks s (unselect_all_with casc t)"
    "only_marks s (check_all_with casc t)" "only_marks s (uncheck_all_with casc t)"
  using assms
  by (simp_all add: select_with_def unselect_with_def check_with_def uncheck_with_def select_all_with_def
      unselect_all_with_def check_all_with_def uncheck_all_with_def Let_def marks_each)

lemma marks_restore [keeps]: "only_marks s t \<Longrightarrow> only_marks s (restore_row E i r t)"
  by (simp add: restore_row_def Let_def marks_ops split: prod.split)

lemma marks_selection_state [keeps]: "only_marks s t \<Longrightarrow> only_marks s (set_selection_state E t)"
proof -
  assume "only_marks s t"
  moreover have "only_marks s u \<Longrightarrow> only_marks s (fold (\<lambda>(i, r). restore_row E i r) l u)" for l u
    by (induction l arbitrary: u) (auto intro: marks_restore)
  ultimately show ?thesis by (simp add: set_selection_state_def Let_def)
qed

lemma marks_rows [keeps]:
  "only_marks s t \<Longrightarrow> select_row E i t = Some u \<Longrightarrow> only_marks s u"
  "only_marks s t \<Longrightarrow> unselect_row E i t = Some u \<Longrightarrow> only_marks s u"
  "only_marks s t \<Longrightarrow> check_row E i t = Some u \<Longrightarrow> only_marks s u"
  "only_marks s t \<Longrightarrow> uncheck_row E i t = Some u \<Longrightarrow> only_marks s u"
  by (auto simp: select_row_def unselect_row_def check_row_def uncheck_row_def on_row_def intro!: marks_ops split: if_splits)

end
