(* ===== verification/Dg_Load.thy ===== *)
theory Dg_Load
  imports Dg_Frame "HOL-Library.Multiset"
begin

text \<open>
  Loading and sorting, \<open>js/plugins/jquery.datagrid.js\<close>: the parameters of a request and what happens
  when it is answered (\<open>_b0\<close>), the display of a page of data (\<open>_b1\<close>) with its local sort, the sort
  state of the header (\<open>_a4\<close>), the snapshot that changes are measured against (\<open>_178\<close>), and the
  grid's use of its pagers.

  A request is an entry of \<open>g_requests\<close> until it is answered; answers come in any order.  The loader
  is the one of the defaults.
\<close>

section \<open>Fresh row objects\<close>

definition alloc_row :: "row \<Rightarrow> grid \<Rightarrow> rid \<times> grid" where
  "alloc_row r s = (g_next s, s\<lparr>g_store := (g_store s)(g_next s := r), g_next := Suc (g_next s)\<rparr>)"

fun alloc_rows :: "row list \<Rightarrow> grid \<Rightarrow> rid list \<times> grid" where
  "alloc_rows [] s = ([], s)"
| "alloc_rows (r # rs) s = (let (i, s) = alloc_row r s; (is, s) = alloc_rows rs s in (i # is, s))"

section \<open>Requests: \<open>_b0\<close>, lines 1608-1634\<close>

definition truthy_text :: "string option \<Rightarrow> bool" where
  "truthy_text x \<longleftrightarrow> x \<noteq> None \<and> x \<noteq> Some []"

definition request_params :: "grid \<Rightarrow> params" where
  "request_params s =
     \<lparr>q_query = o_query s,
      q_page = (if o_pagination s then Some (jor (o_pageNumber s) (Fin 1), o_pageSize s) else None),
      q_sort = (if truthy_text (o_sortName s) then Some (the (o_sortName s), o_sortOrder s) else None)\<rparr>"

definition upd_pagers :: "(pager \<Rightarrow> pager) \<Rightarrow> grid \<Rightarrow> grid" where
  "upd_pagers f s = s\<lparr>g_pagers := map f (g_pagers s)\<rparr>"

definition grid_loading :: "grid \<Rightarrow> grid" where
  "grid_loading s = (let s = upd_pagers (pg_loading True) s in if o_loadMsg s \<noteq> [] then s\<lparr>g_mask := True\<rparr> else s)"

definition grid_loaded :: "grid \<Rightarrow> grid" where
  "grid_loaded s = (upd_pagers (pg_loading False) s)\<lparr>g_mask := False\<rparr>"

text \<open>The loader of the defaults (2335): nothing is sent without a \<open>url\<close>.\<close>

definition default_loader :: "params \<Rightarrow> grid \<Rightarrow> grid option" where
  "default_loader q s = (if truthy_text (o_url s) then Some (s\<lparr>g_requests := g_requests s @ [q]\<rparr>) else None)"

definition request :: "grid_env \<Rightarrow> (string \<times> string) list option \<Rightarrow> grid \<Rightarrow> grid" where
  "request E q s =
     (let s = (case q of None \<Rightarrow> s | Some q \<Rightarrow> s\<lparr>o_query := q\<rparr>); p = request_params s in
      if \<not> e_beforeLoad E p then s
      else let s = grid_loading s in case default_loader p s of Some s \<Rightarrow> s | None \<Rightarrow> grid_loaded s)"

section \<open>Sorting on the page: lines 1024-1043\<close>

text \<open>
  \<open>sort\<close> of an array, which is stable; the comparison may throw.  An element goes in front of the
  first one it is not greater than.
\<close>

fun sort_ins :: "('a \<Rightarrow> 'a \<Rightarrow> int option) \<Rightarrow> 'a \<Rightarrow> 'a list \<Rightarrow> 'a list option" where
  "sort_ins c x [] = Some [x]"
| "sort_ins c x (y # ys) =
     (case c x y of None \<Rightarrow> None | Some r \<Rightarrow> if 0 < r then map_option (Cons y) (sort_ins c x ys) else Some (x # y # ys))"

fun js_sort :: "('a \<Rightarrow> 'a \<Rightarrow> int option) \<Rightarrow> 'a list \<Rightarrow> 'a list option" where
  "js_sort c [] = Some []"
| "js_sort c (x # xs) = (case js_sort c xs of None \<Rightarrow> None | Some ys \<Rightarrow> sort_ins c x ys)"

definition sorter_of :: "grid_env \<Rightarrow> string \<Rightarrow> jsval \<Rightarrow> jsval \<Rightarrow> int" where
  "sorter_of E n = (case e_sorter E n of None \<Rightarrow> default_sorter | Some f \<Rightarrow> f)"

text \<open>The names in turn until one tells the rows apart; a missing order counts as descending.\<close>

fun row_cmp :: "grid_env \<Rightarrow> grid \<Rightarrow> string list \<Rightarrow> string list \<Rightarrow> row \<Rightarrow> row \<Rightarrow> int option" where
  "row_cmp E s [] os a b = Some 0"
| "row_cmp E s (n # ns) os a b =
     (case get_column s (Some n) of
        None \<Rightarrow> None
      | Some c \<Rightarrow>
          let r = sorter_of E n (a n) (b n) * (case os of [] \<Rightarrow> -1 | x # _ \<Rightarrow> if x = ''asc'' then 1 else -1)
          in if r \<noteq> 0 then Some r else row_cmp E s ns (drop 1 os) a b)"

definition sort_names :: "grid \<Rightarrow> string list" where
  "sort_names s = (if truthy_text (o_sortName s) then js_split (CHR '','') (the (o_sortName s)) else [])"

definition sort_orders :: "grid \<Rightarrow> string list" where
  "sort_orders s = js_split (CHR '','') (o_sortOrder s)"

definition local_sort :: "grid_env \<Rightarrow> grid \<Rightarrow> grid option" where
  "local_sort E s =
     (if \<not> o_remoteSort s \<and> truthy_text (o_sortName s)
      then map_option (\<lambda>l. s\<lparr>g_rows := l\<rparr>)
        (js_sort (\<lambda>a b. row_cmp E s (sort_names s) (sort_orders s) (g_store s a) (g_store s b)) (g_rows s))
      else Some s)"

section \<open>The page of data: \<open>_b1\<close>, lines 1014-1073\<close>

text \<open>What \<open>loadData\<close> takes: an array of rows or an object with a total; and the data the grid holds.\<close>

datatype gdata = DataArray "rid list" | DataPage jsval "rid list" "rid list option" | DataHeld

definition parse_total :: "jsval \<Rightarrow> jnum" where
  "parse_total v = jnum_of (parseInt (js_string v))"

definition held_total :: "jnum \<Rightarrow> jnum" where
  "held_total n = (case n of Fin i \<Rightarrow> Fin i | _ \<Rightarrow> NaN)"

definition take_data :: "gdata \<Rightarrow> grid \<Rightarrow> grid" where
  "take_data d s =
     (case d of
        DataArray rs \<Rightarrow> s\<lparr>g_total := Fin (int (length rs)), g_rows := rs\<rparr>
      | DataPage t rs f \<Rightarrow>
          s\<lparr>g_total := parse_total t, g_rows := rs, g_footer := (case f of None \<Rightarrow> g_footer s | Some x \<Rightarrow> x)\<rparr>
      | DataHeld \<Rightarrow> s\<lparr>g_total := held_total (g_total s)\<rparr>)"

text \<open>The pagers learn the total; a page that no longer exists is left for the last one.\<close>

definition tell_pagers :: "grid_env \<Rightarrow> grid \<Rightarrow> grid" where
  "tell_pagers E s =
     (case g_pagers s of
        [] \<Rightarrow> s
      | p # _ \<Rightarrow>
          if jeq (p_total p) (g_total s) then s
          else
            let s = upd_pagers (pg_refresh [OTotal (g_total s)]) s; n = p_pageNumber (pg_refresh [OTotal (g_total s)] p) in
            if \<not> jeq (o_pageNumber s) n \<and> jless (Fin 0) n then request E None (s\<lparr>o_pageNumber := n\<rparr>) else s)"

definition show_data :: "grid_env \<Rightarrow> gdata \<Rightarrow> grid \<Rightarrow> grid option" where
  "show_data E d s =
     map_option (\<lambda>s. dg_emit OnLoadSuccess (set_selection_state E (tell_pagers E (draw_page E s))))
       (local_sort E (take_data d s))"

text \<open>\<open>_178\<close>: the rows of the page are copied and the changes forgotten.\<close>

definition snapshot :: "grid \<Rightarrow> grid" where
  "snapshot s =
     (let (is, s) = alloc_rows (row_values s (g_rows s)) s
      in s\<lparr>g_original := is, g_updated := [], g_inserted := [], g_deleted := []\<rparr>)"

definition load_data :: "grid_env \<Rightarrow> gdata \<Rightarrow> grid \<Rightarrow> grid option" where
  "load_data E d s = map_option snapshot (show_data E d s)"

text \<open>An answer to the \<open>k\<close>-th request under way, and its failure.\<close>

definition take_request :: "nat \<Rightarrow> grid \<Rightarrow> grid" where
  "take_request k s = s\<lparr>g_requests := splice_del k (g_requests s)\<rparr>"

definition answered :: "grid_env \<Rightarrow> nat \<Rightarrow> gdata \<Rightarrow> grid \<Rightarrow> grid option" where
  "answered E k d s = load_data E d (grid_loaded (take_request k s))"

definition failed :: "nat \<Rightarrow> grid \<Rightarrow> grid" where
  "failed k s = dg_emit OnLoadError (grid_loaded (take_request k s))"

text \<open>\<open>load\<close> and \<open>reload\<close>, with a \<open>url\<close>, with parameters, or without either.\<close>

datatype load_arg = LoadUrl string | LoadQuery "(string \<times> string) list" | LoadPlain

definition load_query :: "load_arg \<Rightarrow> (string \<times> string) list option" where
  "load_query a = (case a of LoadQuery q \<Rightarrow> Some q | _ \<Rightarrow> None)"

definition take_url :: "load_arg \<Rightarrow> grid \<Rightarrow> grid" where
  "take_url a s = (case a of LoadUrl u \<Rightarrow> s\<lparr>o_url := Some u\<rparr> | _ \<Rightarrow> s)"

definition load_method :: "grid_env \<Rightarrow> load_arg \<Rightarrow> grid \<Rightarrow> grid" where
  "load_method E a s =
     request E (load_query a) (upd_pagers (pg_refresh [OPageNumber (Fin 1)]) ((take_url a s)\<lparr>o_pageNumber := Fin 1\<rparr>))"

definition reload :: "grid_env \<Rightarrow> load_arg \<Rightarrow> grid \<Rightarrow> grid" where
  "reload E a s = request E (load_query a) (take_url a s)"

definition reload_footer :: "grid_env \<Rightarrow> rid list option \<Rightarrow> grid \<Rightarrow> grid" where
  "reload_footer E f s =
     (let s = (case f of None \<Rightarrow> s | Some x \<Rightarrow> s\<lparr>g_footer := x\<rparr>)
      in if o_showFooter s then after_render E (draw_footer E s) else s)"

section \<open>The pagers: lines 328-349\<close>

definition init_pagers :: "grid \<Rightarrow> grid" where
  "init_pagers s =
     (if \<not> o_pagination s then s\<lparr>g_pagers := []\<rparr>
      else
        let p = pg_create [OTotal (jtimes (o_pageNumber s) (o_pageSize s)), OPageNumber (o_pageNumber s), OPageSize (o_pageSize s),
                  OPageList (o_pageList s)]
        in s\<lparr>g_pagers := replicate (if o_pagePosition s = ''bottom'' \<or> o_pagePosition s = ''top'' then 1 else 2) p,
             o_pageSize := p_pageSize p\<rparr>)"

text \<open>\<open>onSelectPage\<close> of the pagers.\<close>

definition page_selected :: "grid_env \<Rightarrow> jnum \<Rightarrow> jnum \<Rightarrow> grid \<Rightarrow> grid" where
  "page_selected E n k s =
     request E None
       (upd_pagers (pg_refresh [OPageNumber n, OPageSize k]) (s\<lparr>o_pageNumber := jor n (Fin 1), o_pageSize := k\<rparr>))"

text \<open>What a user does to a pager, and the handlers that run; each selects a page once at most.\<close>

datatype pager_use = PagerNav string | PagerLink int | PagerKey int string | PagerSize string

fun pager_act :: "pager_use \<Rightarrow> pager \<Rightarrow> pager" where
  "pager_act (PagerNav x) p = pg_nav (\<lambda>_ _. True) x p"
| "pager_act (PagerLink i) p = pg_link i p"
| "pager_act (PagerKey c v) p = pg_keydown c v p"
| "pager_act (PagerSize v) p = pg_change_size v p"

definition pages_selected :: "pevent list \<Rightarrow> (jnum \<times> jnum) list" where
  "pages_selected es = List.map_filter (\<lambda>e. case e of SelectPage n k \<Rightarrow> Some (n, k) | _ \<Rightarrow> None) es"

definition use_pager :: "grid_env \<Rightarrow> nat \<Rightarrow> pager_use \<Rightarrow> grid \<Rightarrow> grid" where
  "use_pager E j a s =
     (if j < length (g_pagers s) then
        let p = g_pagers s ! j; p' = pager_act a p in
        fold (\<lambda>(n, k). page_selected E n k) (pages_selected (drop (length (p_log p)) (p_log p')))
          (s\<lparr>g_pagers := (g_pagers s)[j := p']\<rparr>)
      else s)"

section \<open>The sort state: \<open>_a4\<close>, lines 680-739\<close>

datatype sort_arg = SortBy string | SortOpts "string option" "string option"

text \<open>\<open>a[i]=x\<close> on an array whose holes are \<open>None\<close>, and \<open>join\<close>, to which a hole is the empty text.\<close>

definition put_order :: "nat \<Rightarrow> string \<Rightarrow> string option list \<Rightarrow> string option list" where
  "put_order i x l = (if i < length l then l[i := Some x] else l @ replicate (i - length l) None @ [Some x])"

definition join_orders :: "string option list \<Rightarrow> string" where
  "join_orders l = js_join '','' (map (case_option [] id) l)"

text \<open>A click on a column: its order is turned, and with \<open>multiSort\<close> it is dropped when it would start again.\<close>

definition turn_sort :: "bool \<Rightarrow> string \<Rightarrow> string \<Rightarrow> string list \<times> string option list \<Rightarrow> string list \<times> string option list" where
  "turn_sort multi f ord ab =
     (case in_array f (fst ab) of
        Some i \<Rightarrow>
          let o' = (if i < length (snd ab) \<and> snd ab ! i = Some ''asc'' then ''desc'' else ''asc'') in
          if multi \<and> o' = ord then (splice_del i (fst ab), splice_del i (snd ab)) else (fst ab, put_order i o' (snd ab))
      | None \<Rightarrow> if multi then (fst ab @ [f], snd ab @ [Some ord]) else ([f], [Some ord]))"

definition sort_lists :: "string option \<Rightarrow> string \<Rightarrow> string list \<times> string option list" where
  "sort_lists n ord =
     (if truthy_text n then (js_split (CHR '','') (the n), map Some (js_split (CHR '','') ord)) else ([], []))"

text \<open>The classes of the header cells; a name without a column throws.\<close>

definition head_sort :: "grid \<Rightarrow> string list \<times> string option list \<Rightarrow> (string \<times> string) list option" where
  "head_sort s ab =
     (if \<forall>f\<in>set (fst ab). get_column s (Some f) \<noteq> None
      then Some (map (\<lambda>(i, f). (f, if i < length (snd ab) then case_option ''undefined'' id (snd ab ! i) else ''undefined''))
        (enumerate 0 (fst ab)))
      else None)"

definition apply_sort :: "grid_env \<Rightarrow> string option \<Rightarrow> string \<Rightarrow> string list \<times> string option list \<Rightarrow> grid \<Rightarrow> grid option" where
  "apply_sort E n ord ab s =
     (if \<not> e_beforeSort E n ord then Some s
      else
        let s = s\<lparr>o_sortName := n, o_sortOrder := ord\<rparr> in
        case head_sort s ab of
          None \<Rightarrow> None
        | Some h \<Rightarrow>
            let s = s\<lparr>g_headSort := h\<rparr> in
            map_option (\<lambda>s. dg_emit (OnSortColumn (o_sortName s) (o_sortOrder s)) s)
              (if o_remoteSort s then Some (request E None s) else show_data E DataHeld s))"

definition col_default_order :: "column \<Rightarrow> string" where
  "col_default_order c = (if col_order c = [] then ''asc'' else col_order c)"

definition sort_grid :: "grid_env \<Rightarrow> sort_arg \<Rightarrow> grid \<Rightarrow> grid option" where
  "sort_grid E a s =
     (case a of
        SortOpts n ord \<Rightarrow>
          let n = (case n of None \<Rightarrow> o_sortName s | _ \<Rightarrow> n); ord = (case ord of None \<Rightarrow> o_sortOrder s | Some x \<Rightarrow> x)
          in apply_sort E n ord (sort_lists n ord) s
      | SortBy f \<Rightarrow>
          (case get_column s (Some f) of
             None \<Rightarrow> None
           | Some c \<Rightarrow>
               if \<not> col_sortable c \<or> g_resizing s then Some s
               else
                 let ab = turn_sort (o_multiSort s) f (col_default_order c) (sort_lists (o_sortName s) (o_sortOrder s))
                 in apply_sort E (Some (js_join '','' (fst ab))) (join_orders (snd ab)) ab s))"

section \<open>Stable sorting\<close>

text \<open>
  What the sort relies on: on the elements of \<open>A\<close> the comparison returns \<open>d\<close>, and \<open>d\<close> orders them.
  Then the array comes back sorted, and elements that compare equal keep their order.
\<close>

locale comparison =
  fixes c :: "'a \<Rightarrow> 'a \<Rightarrow> int option" and d :: "'a \<Rightarrow> 'a \<Rightarrow> int" and A :: "'a set"
  assumes returns: "x \<in> A \<Longrightarrow> y \<in> A \<Longrightarrow> c x y = Some (d x y)"
    and turned: "x \<in> A \<Longrightarrow> y \<in> A \<Longrightarrow> d x y = - d y x"
    and trans: "x \<in> A \<Longrightarrow> y \<in> A \<Longrightarrow> z \<in> A \<Longrightarrow> d x y \<le> 0 \<Longrightarrow> d y z \<le> 0 \<Longrightarrow> d x z \<le> 0"
begin

lemma ins_total: "x \<in> A \<Longrightarrow> set ys \<subseteq> A \<Longrightarrow> \<exists>zs. sort_ins c x ys = Some zs \<and> mset zs = add_mset x (mset ys)"
proof (induction ys)
  case (Cons y ys)
  then obtain zs where "sort_ins c x ys = Some zs" "mset zs = add_mset x (mset ys)" by auto
  with Cons.prems show ?case by (auto simp: returns)
qed simp

lemma ins_sorted:
  assumes "x \<in> A" and "set ys \<subseteq> A" and "sorted_wrt (\<lambda>a b. d a b \<le> 0) ys" and "sort_ins c x ys = Some zs"
  shows "sorted_wrt (\<lambda>a b. d a b \<le> 0) zs"
  using assms
proof (induction ys arbitrary: zs)
  case (Cons y ys)
  show ?case
  proof (cases "0 < d x y")
    case True
    with Cons.prems obtain vs where vs: "sort_ins c x ys = Some vs" "zs = y # vs" by (auto simp: returns)
    have "set vs = insert x (set ys)" using ins_total [of x ys] Cons.prems vs(1) by (auto dest!: arg_cong [of _ _ set_mset])
    moreover have "d y x \<le> 0" using True turned [of x y] Cons.prems by simp
    moreover have "sorted_wrt (\<lambda>a b. d a b \<le> 0) vs" using Cons vs by simp
    ultimately show ?thesis using Cons.prems vs(2) by auto
  next
    case False
    with Cons.prems have z: "zs = x # y # ys" by (auto simp: returns)
    have "d x y \<le> 0" using False by simp
    moreover have "d x b \<le> 0" if "b \<in> set ys" for b
      using that False Cons.prems trans [of x y b] by auto
    ultimately show ?thesis using Cons.prems(3) z by auto
  qed
qed auto

lemma ins_stable:
  assumes "x \<in> A" and "set ys \<subseteq> A" and "sort_ins c x ys = Some zs" and "r \<in> A"
  shows "filter (\<lambda>b. d r b = 0) zs = filter (\<lambda>b. d r b = 0) (x # ys)"
  using assms
proof (induction ys arbitrary: zs)
  case (Cons y ys)
  show ?case
  proof (cases "0 < d x y")
    case True
    with Cons.prems obtain vs where vs: "sort_ins c x ys = Some vs" "zs = y # vs" by (auto simp: returns)
    have "\<not> (d r x = 0 \<and> d r y = 0)"
    proof
      assume "d r x = 0 \<and> d r y = 0"
      then have "d x r \<le> 0" and "d r y \<le> 0" using turned [of x r] Cons.prems by auto
      then have "d x y \<le> 0" using trans [of x r y] Cons.prems by simp
      with True show False by simp
    qed
    with Cons.IH [OF _ _ vs(1)] Cons.prems vs(2) show ?thesis by auto
  next
    case False
    with Cons.prems show ?thesis by (auto simp: returns)
  qed
qed simp

lemma sort_correct:
  assumes "set xs \<subseteq> A"
  shows "\<exists>ys. js_sort c xs = Some ys \<and> mset ys = mset xs \<and> sorted_wrt (\<lambda>a b. d a b \<le> 0) ys
     \<and> (\<forall>r\<in>A. filter (\<lambda>b. d r b = 0) ys = filter (\<lambda>b. d r b = 0) xs)"
  using assms
proof (induction xs)
  case (Cons x xs)
  then obtain ys where y: "js_sort c xs = Some ys" "mset ys = mset xs" "sorted_wrt (\<lambda>a b. d a b \<le> 0) ys"
    "\<forall>r\<in>A. filter (\<lambda>b. d r b = 0) ys = filter (\<lambda>b. d r b = 0) xs" by auto
  have A: "x \<in> A" "set ys \<subseteq> A" using Cons.prems y(2) by (auto dest: mset_eq_setD)
  obtain zs where z: "sort_ins c x ys = Some zs" "mset zs = add_mset x (mset ys)" using ins_total [OF A] by auto
  have "filter (\<lambda>b. d r b = 0) zs = filter (\<lambda>b. d r b = 0) (x # xs)" if "r \<in> A" for r
    using ins_stable [OF A z(1) that] y(4) that by simp
  with ins_sorted [OF A y(3) z(1)] y z show ?case by auto
qed simp

end

text \<open>The order of the rows: the names in turn, each ascending or descending, on values of one kind.\<close>

definition key_less :: "jsval \<Rightarrow> jsval \<Rightarrow> bool" where
  "key_less a b \<longleftrightarrow> (case (a, b) of (VNum i, VNum j) \<Rightarrow> i < j | (VStr s, VStr t) \<Rightarrow> str_less s t | _ \<Rightarrow> False)"

fun rows_before :: "string list \<Rightarrow> string list \<Rightarrow> row \<Rightarrow> row \<Rightarrow> bool" where
  "rows_before [] os a b = True"
| "rows_before (n # ns) os a b =
     (if a n = b n then rows_before ns (drop 1 os) a b
      else if take 1 os = [''asc''] then key_less (a n) (b n) else key_less (b n) (a n))"

fun rows_diff :: "string list \<Rightarrow> string list \<Rightarrow> row \<Rightarrow> row \<Rightarrow> int" where
  "rows_diff [] os a b = 0"
| "rows_diff (n # ns) os a b =
     (if a n = b n then rows_diff ns (drop 1 os) a b
      else default_sorter (a n) (b n) * (if take 1 os = [''asc''] then 1 else -1))"

definition plain_sort :: "grid_env \<Rightarrow> grid \<Rightarrow> string list \<Rightarrow> bool" where
  "plain_sort E s ns \<longleftrightarrow> (\<forall>n\<in>set ns. get_column s (Some n) \<noteq> None \<and> e_sorter E n = None)"

definition sortable :: "grid_env \<Rightarrow> grid \<Rightarrow> string list \<Rightarrow> (string \<Rightarrow> bool) \<Rightarrow> row set" where
  "sortable E s ns k = (if plain_sort E s ns then {r. \<forall>n\<in>set ns. r n \<in> kind (k n)} else {})"

lemma default_sorter_eq: "a \<in> kind k \<Longrightarrow> b \<in> kind k \<Longrightarrow> default_sorter a b = 0 \<longleftrightarrow> a = b"
  by (simp add: default_sorter_def loose_eq_kind)

lemma default_sorter_less:
  assumes "a \<in> kind k" and "b \<in> kind k" and "a \<noteq> b"
  shows "default_sorter a b < 0 \<longleftrightarrow> key_less a b"
proof (cases k)
  case True
  with assms show ?thesis by (auto simp: kind_def default_sorter_def key_less_def)
next
  case False
  then obtain u v where "a = VStr u" "b = VStr v" using assms by (auto simp: kind_def)
  with assms(3) show ?thesis
    using str_less_linear [of u v] str_less_trans [of u v u] str_less_irrefl [of u]
    by (auto simp: default_sorter_def key_less_def)
qed

lemma row_cmp_diff:
  assumes "a \<in> sortable E s ns k" and "b \<in> sortable E s ns k"
  shows "row_cmp E s ns os a b = Some (rows_diff ns os a b)"
  using assms
proof (induction ns arbitrary: os)
  case (Cons n ns)
  have p: "plain_sort E s (n # ns)" using Cons.prems by (auto simp: sortable_def split: if_splits)
  then have c: "get_column s (Some n) \<noteq> None" "sorter_of E n = default_sorter" and q: "plain_sort E s ns"
    by (auto simp: plain_sort_def sorter_of_def)
  have k: "a n \<in> kind (k n)" "b n \<in> kind (k n)" using Cons.prems p by (auto simp: sortable_def)
  have "a \<in> sortable E s ns k" "b \<in> sortable E s ns k" using Cons.prems p q by (auto simp: sortable_def)
  from Cons.IH [OF this] c default_sorter_eq [OF k] show ?case
    by (cases os) (auto simp: split: option.split)
qed simp

lemma rows_diff_turned:
  assumes "a \<in> sortable E s ns k" and "b \<in> sortable E s ns k"
  shows "rows_diff ns os a b = - rows_diff ns os b a"
  using assms
proof (induction ns arbitrary: os)
  case (Cons n ns)
  have p: "plain_sort E s (n # ns)" "plain_sort E s ns" using Cons.prems by (auto simp: sortable_def plain_sort_def split: if_splits)
  then have k: "a n \<in> kind (k n)" "b n \<in> kind (k n)" "a \<in> sortable E s ns k" "b \<in> sortable E s ns k"
    using Cons.prems by (auto simp: sortable_def)
  from Cons.IH [OF k(3,4)] default_sorter_kind(1) [OF k(1,2,2)] show ?case by auto
qed simp

lemma rows_diff_trans:
  assumes "a \<in> sortable E s ns k" and "b \<in> sortable E s ns k" and "c \<in> sortable E s ns k"
    and "rows_diff ns os a b \<le> 0" and "rows_diff ns os b c \<le> 0"
  shows "rows_diff ns os a c \<le> 0"
  using assms
proof (induction ns arbitrary: os)
  case (Cons n ns)
  have p: "plain_sort E s (n # ns)" "plain_sort E s ns" using Cons.prems by (auto simp: sortable_def plain_sort_def split: if_splits)
  then have k: "a n \<in> kind (k n)" "b n \<in> kind (k n)" "c n \<in> kind (k n)"
    and r: "a \<in> sortable E s ns k" "b \<in> sortable E s ns k" "c \<in> sortable E s ns k"
    using Cons.prems by (auto simp: sortable_def)
  note eq = default_sorter_eq [OF k(1,2)] default_sorter_eq [OF k(2,3)] default_sorter_eq [OF k(1,3)]
  note tr = default_sorter_kind(2) [OF k] default_sorter_kind(2) [OF k(3,2,1)]
  note tu = default_sorter_kind(1) [OF k(1,2,2)] default_sorter_kind(1) [OF k(2,3,3)] default_sorter_kind(1) [OF k(1,3,3)]
  show ?case
  proof (cases "a n = b n \<or> b n = c n")
    case True
    with Cons.IH [OF r, of "drop 1 os"] Cons.prems(4,5) show ?thesis by (auto split: if_splits)
  next
    case False
    with Cons.prems(4,5) eq tr tu show ?thesis by (auto split: if_splits)
  qed
qed simp

interpretation rows: comparison "\<lambda>a b. row_cmp E s ns os (g a) (g b)" "\<lambda>a b. rows_diff ns os (g a) (g b)"
  "{a. g a \<in> sortable E s ns k}" for E s ns os k and g :: "rid \<Rightarrow> row"
  by unfold_locales (simp_all add: row_cmp_diff, metis rows_diff_turned, metis rows_diff_trans)

lemma rows_diff_before:
  assumes "a \<in> sortable E s ns k" and "b \<in> sortable E s ns k"
  shows "(rows_diff ns os a b \<le> 0 \<longleftrightarrow> rows_before ns os a b) \<and> (rows_diff ns os a b = 0 \<longleftrightarrow> (\<forall>n\<in>set ns. a n = b n))"
  using assms
proof (induction ns arbitrary: os)
  case (Cons n ns)
  have p: "plain_sort E s (n # ns)" "plain_sort E s ns" using Cons.prems by (auto simp: sortable_def plain_sort_def split: if_splits)
  then have k: "a n \<in> kind (k n)" "b n \<in> kind (k n)" and r: "a \<in> sortable E s ns k" "b \<in> sortable E s ns k"
    using Cons.prems by (auto simp: sortable_def)
  note eq = default_sorter_eq [OF k] and le = default_sorter_less [OF k] default_sorter_less [OF k(2,1)]
    and tu = default_sorter_kind(1) [OF k(1,2,2)]
  show ?case
  proof (cases "a n = b n")
    case True
    with Cons.IH [OF r, of "drop 1 os"] show ?thesis by simp
  next
    case False
    with eq le tu show ?thesis by auto
  qed
qed simp


section \<open>What loading keeps\<close>

lemma request_keeps [simp]:
  "g_rows (request E q s) = g_rows s" "g_store (request E q s) = g_store s" "g_total (request E q s) = g_total s"
  "g_body1 (request E q s) = g_body1 s" "g_body2 (request E q s) = g_body2 s" "g_next (request E q s) = g_next s"
  "o_pageNumber (request E q s) = o_pageNumber s" "same_look s (request E q s)" "g_selected (request E q s) = g_selected s"
  "g_checked (request E q s) = g_checked s" "o_idField (request E q s) = o_idField s" "g_log (request E q s) = g_log s"
  "g_original (request E q s) = g_original s" "g_inserted (request E q s) = g_inserted s" "g_deleted (request E q s) = g_deleted s"
  "g_updated (request E q s) = g_updated s" "o_singleSelect (request E q s) = o_singleSelect s"
  "map p_total (g_pagers (request E q s)) = map p_total (g_pagers s)"
  by (simp_all add: request_def default_loader_def grid_loading_def grid_loaded_def upd_pagers_def same_look_def Let_def
      split: option.split)

lemma tell_pagers_keeps [simp]:
  "g_rows (tell_pagers E s) = g_rows s" "g_store (tell_pagers E s) = g_store s" "g_total (tell_pagers E s) = g_total s"
  "g_body1 (tell_pagers E s) = g_body1 s" "g_body2 (tell_pagers E s) = g_body2 s" "g_next (tell_pagers E s) = g_next s"
  "o_idField (tell_pagers E s) = o_idField s" "g_selected (tell_pagers E s) = g_selected s"
  "g_checked (tell_pagers E s) = g_checked s" "o_singleSelect (tell_pagers E s) = o_singleSelect s"
  "o_pageNumber (tell_pagers E s) = o_pageNumber s \<Longrightarrow> same_look s (tell_pagers E s)"
  by (auto simp: tell_pagers_def upd_pagers_def Let_def split: list.split)
    (simp_all add: same_look_def request_keeps(8) [unfolded same_look_def])

lemma draw_page_keeps [simp]:
  "g_rows (draw_page E s) = g_rows s" "g_store (draw_page E s) = g_store s" "g_total (draw_page E s) = g_total s"
  "g_next (draw_page E s) = g_next s" "g_pagers (draw_page E s) = g_pagers s" "o_pageNumber (draw_page E s) = o_pageNumber s"
  "o_idField (draw_page E s) = o_idField s" "g_selected (draw_page E s) = g_selected s" "g_checked (draw_page E s) = g_checked s"
  "o_singleSelect (draw_page E s) = o_singleSelect s" "g_requests (draw_page E s) = g_requests s" "o_url (draw_page E s) = o_url s"
  "same_look s (draw_page E s)"
  by (simp_all add: draw_page_def Let_def after_render_def draw_footer_def render_empty_row_def same_look_def)

lemma alloc_rows_spec:
  assumes "alloc_rows rs s = (is, t)"
  shows "is = [g_next s..<g_next s + length rs] \<and> map (g_store t) is = rs \<and> (\<forall>i<g_next s. g_store t i = g_store s i)
     \<and> g_next t = g_next s + length rs \<and> t = s\<lparr>g_store := g_store t, g_next := g_next t\<rparr>"
  using assms
proof (induction rs arbitrary: s "is" t)
  case Nil
  then show ?case by simp
next
  case (Cons r rs)
  let ?s = "s\<lparr>g_store := (g_store s)(g_next s := r), g_next := Suc (g_next s)\<rparr>"
  obtain js where u: "alloc_rows rs ?s = (js, t)" and i: "is = g_next s # js"
    using Cons.prems by (auto simp: alloc_row_def Let_def split: prod.splits)
  note IH = Cons.IH [OF u]
  have "t = ?s\<lparr>g_store := g_store t, g_next := g_next t\<rparr>" using IH by blast
  then have "t = s\<lparr>g_store := g_store t, g_next := g_next t\<rparr>" by simp
  moreover have "is = [g_next s..<g_next s + length (r # rs)]" using IH i by (simp add: upt_conv_Cons del: upt_Suc)
  moreover have "g_store t (g_next s) = r" using IH by auto
  moreover have "map (g_store t) is = r # rs"
  proof -
    have "map (g_store t) js = rs" using IH by blast
    with \<open>g_store t (g_next s) = r\<close> show ?thesis unfolding i by simp
  qed
  moreover have "g_next t = g_next s + length (r # rs)" "\<forall>i<g_next s. g_store t i = g_store s i" using IH by auto
  ultimately show ?case by blast
qed

lemma snapshot_keeps [simp]:
  "g_rows (snapshot s) = g_rows s" "g_total (snapshot s) = g_total s" "o_pageNumber (snapshot s) = o_pageNumber s"
  "g_pagers (snapshot s) = g_pagers s" "g_requests (snapshot s) = g_requests s" "g_body1 (snapshot s) = g_body1 s"
  "g_body2 (snapshot s) = g_body2 s" "g_selected (snapshot s) = g_selected s" "g_checked (snapshot s) = g_checked s"
  "g_inserted (snapshot s) = []" "g_updated (snapshot s) = []" "g_deleted (snapshot s) = []" "o_idField (snapshot s) = o_idField s"
  "o_singleSelect (snapshot s) = o_singleSelect s" "g_log (snapshot s) = g_log s" "same_look s (snapshot s)"
proof -
  obtain js t where a: "alloc_rows (row_values s (g_rows s)) s = (js, t)"
    by (cases "alloc_rows (row_values s (g_rows s)) s")
  from alloc_rows_spec [OF a] obtain st n where t: "t = s\<lparr>g_store := st, g_next := n\<rparr>" by blast
  show "g_rows (snapshot s) = g_rows s" "g_total (snapshot s) = g_total s" "o_pageNumber (snapshot s) = o_pageNumber s"
    "g_pagers (snapshot s) = g_pagers s" "g_requests (snapshot s) = g_requests s" "g_body1 (snapshot s) = g_body1 s"
    "g_body2 (snapshot s) = g_body2 s" "g_selected (snapshot s) = g_selected s" "g_checked (snapshot s) = g_checked s"
    "g_inserted (snapshot s) = []" "g_updated (snapshot s) = []" "g_deleted (snapshot s) = []" "o_idField (snapshot s) = o_idField s"
    "o_singleSelect (snapshot s) = o_singleSelect s" "g_log (snapshot s) = g_log s" "same_look s (snapshot s)"
    by (simp_all add: snapshot_def a t same_look_def)
qed

lemma snapshot_spec:
  assumes "\<forall>r\<in>set (g_rows s). r < g_next s"
  shows "g_original (snapshot s) = [g_next s..<g_next s + length (g_rows s)]"
    and "row_values (snapshot s) (g_original (snapshot s)) = row_values s (g_rows s)"
    and "\<forall>i<g_next s. g_store (snapshot s) i = g_store s i"
    and "g_next (snapshot s) = g_next s + length (g_rows s)"
proof -
  obtain js t where a: "alloc_rows (row_values s (g_rows s)) s = (js, t)"
    by (cases "alloc_rows (row_values s (g_rows s)) s")
  note sp = alloc_rows_spec [OF a]
  have e: "snapshot s = t\<lparr>g_original := js, g_updated := [], g_inserted := [], g_deleted := []\<rparr>"
    by (simp add: snapshot_def a)
  show "g_original (snapshot s) = [g_next s..<g_next s + length (g_rows s)]" "g_next (snapshot s) = g_next s + length (g_rows s)"
    "\<forall>i<g_next s. g_store (snapshot s) i = g_store s i"
    using sp by (simp_all add: e row_values_def)
  have "map (g_store t) js = row_values s (g_rows s)" using sp by blast
  then show "row_values (snapshot s) (g_original (snapshot s)) = row_values s (g_rows s)" by (simp add: e row_values_def)
qed

lemma sort_ins_mset: "sort_ins c x ys = Some zs \<Longrightarrow> mset zs = add_mset x (mset ys)"
  by (induction ys arbitrary: zs) (auto split: option.splits if_splits)

lemma js_sort_mset: "js_sort c xs = Some ys \<Longrightarrow> mset ys = mset xs"
  by (induction xs arbitrary: ys) (auto split: option.splits dest: sort_ins_mset)

lemma local_sort_keeps:
  assumes "local_sort E s = Some t"
  shows "t = s\<lparr>g_rows := g_rows t\<rparr>" and "mset (g_rows t) = mset (g_rows s)"
  using assms by (auto simp: local_sort_def js_sort_mset split: if_splits)

text \<open>A page shows its rows however the objects that are not on it change.\<close>

lemma drawn_store:
  assumes "drawn E s" and "same_look s t" and "g_rows t = g_rows s" and "\<forall>r\<in>set (g_rows s). g_store t r = g_store s r"
    and "map strip (g_body1 t) = map strip (g_body1 s)" and "map strip (g_body2 t) = map strip (g_body2 s)"
  shows "drawn E t"
proof -
  have r: "map (\<lambda>(i, r). strip (render_tr E s f i (g_store t r))) (enumerate 0 (g_rows s)) =
      map (\<lambda>(i, r). strip (render_tr E s f i (g_store s r))) (enumerate 0 (g_rows s))" for f
    using assms(4) by (auto simp: in_set_enumerate_eq)
  show ?thesis using assms(1,5,6) by (simp add: drawn_def shows_rows_def same_look_facts [OF assms(2)] assms(3) r)
qed

section \<open>Properties\<close>

text \<open>
  Sorting on the page: with local sort and the default comparison, on columns whose values on
  the page are all numbers or all texts, the rows are permuted into the order the sort names and
  orders describe, rows that agree on all of them keep their order, and nothing else changes.
\<close>

theorem dg_local_sort:
  assumes "\<not> o_remoteSort s" and "truthy_text (o_sortName s)" and "plain_sort E s (sort_names s)"
    and "\<forall>r\<in>set (g_rows s). \<forall>n\<in>set (sort_names s). g_store s r n \<in> kind (k n)"
  shows "\<exists>l. local_sort E s = Some (s\<lparr>g_rows := l\<rparr>) \<and> mset l = mset (g_rows s)
     \<and> sorted_wrt (\<lambda>a b. rows_before (sort_names s) (sort_orders s) (g_store s a) (g_store s b)) l
     \<and> (\<forall>r\<in>set (g_rows s).
          let same = (\<lambda>a. \<forall>n\<in>set (sort_names s). g_store s r n = g_store s a n) in filter same l = filter same (g_rows s))"
proof -
  let ?A = "{a. g_store s a \<in> sortable E s (sort_names s) k}"
  have A: "set (g_rows s) \<subseteq> ?A" using assms(3,4) by (auto simp: sortable_def)
  from rows.sort_correct [OF A, of "sort_orders s"] obtain l where
    l: "js_sort (\<lambda>a b. row_cmp E s (sort_names s) (sort_orders s) (g_store s a) (g_store s b)) (g_rows s) = Some l"
      "mset l = mset (g_rows s)" "sorted_wrt (\<lambda>a b. rows_diff (sort_names s) (sort_orders s) (g_store s a) (g_store s b) \<le> 0) l"
    and st: "\<And>r. r \<in> ?A \<Longrightarrow> filter (\<lambda>b. rows_diff (sort_names s) (sort_orders s) (g_store s r) (g_store s b) = 0) l =
       filter (\<lambda>b. rows_diff (sort_names s) (sort_orders s) (g_store s r) (g_store s b) = 0) (g_rows s)" by blast
  have lA: "set l \<subseteq> ?A" using A l(2) by (metis mset_eq_setD)
  have "sorted_wrt (\<lambda>a b. rows_before (sort_names s) (sort_orders s) (g_store s a) (g_store s b)) l"
    using l(3) by (rule sorted_wrt_mono_rel [rotated]) (use lA rows_diff_before in blast)
  moreover have "filter (\<lambda>a. \<forall>n\<in>set (sort_names s). g_store s r n = g_store s a n) l =
      filter (\<lambda>a. \<forall>n\<in>set (sort_names s). g_store s r n = g_store s a n) (g_rows s)" if "r \<in> set (g_rows s)" for r
  proof -
    have e: "filter (\<lambda>a. \<forall>n\<in>set (sort_names s). g_store s r n = g_store s a n) m =
        filter (\<lambda>b. rows_diff (sort_names s) (sort_orders s) (g_store s r) (g_store s b) = 0) m" if "set m \<subseteq> ?A" for m
      using that \<open>r \<in> set (g_rows s)\<close> A rows_diff_before by (intro filter_cong) (blast+)
    have "r \<in> ?A" using that A by blast
    from st [OF this] e [OF lA] e [OF A] show ?thesis by simp
  qed
  moreover have "local_sort E s = Some (s\<lparr>g_rows := l\<rparr>)" using assms(1,2) l(1) by (simp add: local_sort_def)
  ultimately show ?thesis using l(2) by (auto simp: Let_def)
qed

lemma load_page_number:
  assumes "load_data E d s = Some t" and "g_pagers s = []"
  shows "o_pageNumber t = o_pageNumber s"
proof -
  obtain l where l: "local_sort E (take_data d s) = Some l" and
    t: "t = snapshot (dg_emit OnLoadSuccess (set_selection_state E (tell_pagers E (draw_page E l))))"
    using assms(1) by (auto simp: load_data_def show_data_def)
  have "g_pagers l = []" "o_pageNumber l = o_pageNumber s"
    using assms(2) by (subst local_sort_keeps(1) [OF l], simp add: take_data_def split: gdata.split)+
  then have p: "tell_pagers E (draw_page E l) = draw_page E l" by (simp add: tell_pagers_def)
  have "only_marks (draw_page E l) (set_selection_state E (draw_page E l))" by (simp add: marks_selection_state)
  from only_marks_fields [OF this] \<open>o_pageNumber l = o_pageNumber s\<close> show ?thesis
    unfolding t p by (simp add: dg_emit_def)
qed

text \<open>Showing data, marking rows and taking the snapshot.\<close>

lemma shown_page:
  assumes "show_data E d s = Some w" and "only_marks w u" and "\<forall>r\<in>set (g_rows (take_data d s)). r < g_next s"
  shows "mset (g_rows (snapshot u)) = mset (g_rows (take_data d s))" and "g_total (snapshot u) = g_total (take_data d s)"
    and "o_pageNumber (snapshot u) = o_pageNumber s \<Longrightarrow> drawn E (snapshot u)"
    and "row_values (snapshot u) (g_original (snapshot u)) = row_values (snapshot u) (g_rows (snapshot u))"
    and "set (g_original (snapshot u)) \<inter> set (g_rows (snapshot u)) = {}"
    and "\<forall>r\<in>set (g_rows (snapshot u)) \<union> set (g_original (snapshot u)). r < g_next (snapshot u)"
    and "row_values (snapshot u) (g_rows (snapshot u)) = row_values s (g_rows (snapshot u))"
    and "o_remoteSort s \<Longrightarrow> g_rows (snapshot u) = g_rows (take_data d s)"
proof -
  obtain l where l: "local_sort E (take_data d s) = Some l" and
    w: "w = dg_emit OnLoadSuccess (set_selection_state E (tell_pagers E (draw_page E l)))"
    using assms(1) by (auto simp: show_data_def)
  let ?t = "snapshot u" and ?p = "tell_pagers E (draw_page E l)"
  have "only_marks ?p w" by (simp add: w marks_selection_state)
  then have m: "only_marks ?p u" using assms(2) by (rule only_marks_trans)
  note mf = only_marks_fields [OF m] and lk = local_sort_keeps [OF l]
  have "set (g_rows l) = set (g_rows (take_data d s))" using lk(2) by (rule mset_eq_setD)
  moreover have n: "g_next l = g_next s" "g_total l = g_total (take_data d s)" "o_pageNumber l = o_pageNumber s" "g_store l = g_store s"
    by (subst lk(1), simp add: take_data_def split: gdata.split)+
  ultimately have b: "\<forall>r\<in>set (g_rows u). r < g_next u" using assms(3) by (simp add: mf)
  note sn = snapshot_spec [OF b]
  have r: "g_rows ?t = g_rows l" by (simp add: mf)
  show "mset (g_rows ?t) = mset (g_rows (take_data d s))" using lk(2) r by simp
  show "g_total ?t = g_total (take_data d s)" using n(2) by (simp add: mf)
  have "row_values u (g_rows u) = row_values ?t (g_rows ?t)" using sn(3) b by (auto simp: row_values_def)
  then show "row_values ?t (g_original ?t) = row_values ?t (g_rows ?t)" "row_values ?t (g_rows ?t) = row_values s (g_rows ?t)"
    using sn(2) by (simp_all add: row_values_def mf n(4))
  show "set (g_original ?t) \<inter> set (g_rows ?t) = {}" using sn(1) b by auto
  have "r < g_next ?t" if "r \<in> set (g_rows u)" for r using bspec [OF b that] by (simp add: sn(4))
  then show "\<forall>r\<in>set (g_rows ?t) \<union> set (g_original ?t). r < g_next ?t" using sn(1,4) by auto
  show "g_rows ?t = g_rows (take_data d s)" if "o_remoteSort s"
  proof -
    have "o_remoteSort (take_data d s)" using that by (simp add: take_data_def split: gdata.split)
    with l r show ?thesis by (simp add: local_sort_def)
  qed
  show "drawn E ?t" if "o_pageNumber ?t = o_pageNumber s"
  proof -
    have "same_look (draw_page E l) ?p" by (rule tell_pagers_keeps(11)) (use that n(3) mf in simp)
    then have "drawn E ?p" by (rule drawn_store [OF draw_page_drawn]) simp_all
    then have du: "drawn E u" by (simp add: only_marks_drawn [OF m])
    show ?thesis using sn(3) b by (intro drawn_store [OF du snapshot_keeps(16)]) simp_all
  qed
qed

lemma load_page:
  assumes "load_data E d s = Some t" and "\<forall>r\<in>set (g_rows (take_data d s)). r < g_next s"
  shows "mset (g_rows t) = mset (g_rows (take_data d s)) \<and> g_total t = g_total (take_data d s)
     \<and> (o_pageNumber t = o_pageNumber s \<longrightarrow> drawn E t)
     \<and> g_inserted t = [] \<and> g_updated t = [] \<and> g_deleted t = []
     \<and> row_values t (g_original t) = row_values t (g_rows t) \<and> set (g_original t) \<inter> set (g_rows t) = {}"
proof -
  obtain w where w: "show_data E d s = Some w" "t = snapshot w" using assms(1) by (auto simp: load_data_def)
  from shown_page(1-5) [OF w(1) only_marks_refl assms(2)] show ?thesis by (simp add: w(2))
qed

text \<open>
  Loading a page: the grid then holds the rows handed over (sorted or not) and their total, the
  page in both views shows them, the changes are forgotten, and the rows the changes will be
  measured against are copies of them in objects of their own.  Only when the pager moved the grid
  to another page the row numbers drawn are those of the page asked for first.
\<close>

theorem dg_load_page:
  assumes "load_data E d s = Some t" and "\<forall>r\<in>set (g_rows (take_data d s)). r < g_next s"
  shows "mset (g_rows t) = mset (g_rows (take_data d s)) \<and> g_total t = g_total (take_data d s)
     \<and> (o_pageNumber t = o_pageNumber s \<longrightarrow> drawn E t)
     \<and> g_inserted t = [] \<and> g_updated t = [] \<and> g_deleted t = []
     \<and> row_values t (g_original t) = row_values t (g_rows t) \<and> set (g_original t) \<inter> set (g_rows t) = {}"
  by (rule load_page [OF assms])

text \<open>
  The grid shows the answer that came last, whichever request it answers: when a request for a
  page is overtaken by the answer to a later one, its own answer replaces that page again, while
  the page number of the grid stays that of the later request.
\<close>

theorem dg_last_answer_wins:
  assumes "answered E k d s = Some t" and "\<forall>r\<in>set (g_rows (take_data d s)). r < g_next s" and "g_pagers s = []"
  shows "mset (g_rows t) = mset (g_rows (take_data d s)) \<and> drawn E t \<and> o_pageNumber t = o_pageNumber s"
proof -
  let ?s = "grid_loaded (take_request k s)"
  have k: "g_next ?s = g_next s" "o_pageNumber ?s = o_pageNumber s" "g_pagers ?s = []" "g_total ?s = g_total s" "g_rows ?s = g_rows s"
    using assms(3) by (simp_all add: grid_loaded_def take_request_def upd_pagers_def)
  have d: "g_rows (take_data d ?s) = g_rows (take_data d s)" by (simp add: take_data_def k split: gdata.split)
  have l: "load_data E d ?s = Some t" using assms(1) by (simp add: answered_def)
  have "\<forall>r\<in>set (g_rows (take_data d ?s)). r < g_next ?s" using assms(2) by (simp add: d k)
  from load_page [OF l this] have r: "mset (g_rows t) = mset (g_rows (take_data d s))" "o_pageNumber t = o_pageNumber ?s \<longrightarrow> drawn E t"
    by (simp_all add: d)
  moreover have "o_pageNumber t = o_pageNumber ?s" by (rule load_page_number [OF l k(3)])
  ultimately show ?thesis by (simp add: k)
qed

text \<open>
  A page that no longer exists is left: when the total an answer brings makes the page of the
  grid lie beyond the last one, the pager and the grid move to the last page and that page is
  requested; a page that still exists is kept and nothing is requested; and the same total a
  second time changes nothing, so the reloading ends.
\<close>

theorem dg_page_gone:
  assumes "g_pagers s = p # ps" and "about k n m (set_popt (OTotal (Fin n)) p)" and "p_total p \<noteq> Fin n" and "0 < n"
    and "g_total s = Fin n" and "o_pageNumber s = Fin m" and "truthy_text (o_url s)" and "\<forall>q. e_beforeLoad E q"
  defines "c \<equiv> clamp_page k n m"
  shows "o_pageNumber (tell_pagers E s) = Fin c \<and> 1 \<le> c \<and> c \<le> ceil_div n k \<and> (1 \<le> m \<and> m \<le> ceil_div n k \<longrightarrow> c = m)
     \<and> p_pageNumber (hd (g_pagers (tell_pagers E s))) = Fin c
     \<and> g_requests (tell_pagers E s) =
          g_requests s @ (if c = m then [] else [request_params (s\<lparr>o_pageNumber := Fin c\<rparr>)])
     \<and> tell_pagers E (tell_pagers E s) = tell_pagers E s"
proof -
  have a: "about k n m (extend_popts [OTotal (Fin n)] p)" using assms(2) by simp
  let ?u = "upd_pagers (pg_refresh [OTotal (g_total s)]) s"
  have k: "0 < k" using assms(2) by (simp add: about_def sized_def)
  have c: "1 \<le> c" "c \<le> ceil_div n k" "1 \<le> m \<Longrightarrow> m \<le> ceil_div n k \<Longrightarrow> c = m"
    unfolding c_def using clamp_page_bounds [OF assms(4) k] by auto
  have pn: "p_pageNumber (pg_refresh [OTotal (Fin n)] p) = Fin c" "p_total (pg_refresh [OTotal (Fin n)] p) = Fin n"
    using refresh_about [OF a] by (simp_all add: c_def)
  have eq: "tell_pagers E s = (if c = m then ?u else request E None (?u\<lparr>o_pageNumber := Fin c\<rparr>))"
    using assms(1,3,5,6) pn(1) c(1) by (simp add: tell_pagers_def Let_def jeq_def upd_pagers_def)
  have req: "request E None v = grid_loading v\<lparr>g_requests := g_requests v @ [request_params v]\<rparr>" if "truthy_text (o_url v)" for v
    using assms(8) that by (simp add: request_def default_loader_def grid_loading_def upd_pagers_def Let_def)
  let ?t = "tell_pagers E s"
  have rp: "request_params (?u\<lparr>o_pageNumber := Fin c\<rparr>) = request_params (s\<lparr>o_pageNumber := Fin c\<rparr>)"
    by (simp add: request_params_def upd_pagers_def)
  have f: "o_pageNumber ?t = Fin c" "p_pageNumber (hd (g_pagers ?t)) = Fin c" "p_total (hd (g_pagers ?t)) = Fin n" "g_pagers ?t \<noteq> []"
    "g_requests ?t = g_requests s @ (if c = m then [] else [request_params (s\<lparr>o_pageNumber := Fin c\<rparr>)])"
    using assms(1,5,6,7) pn rp by (auto simp: eq req upd_pagers_def grid_loading_def Let_def)
  have "tell_pagers E ?t = ?t"
    using f(3,4) assms(5) by (cases "g_pagers ?t") (auto simp: tell_pagers_def [of E ?t] jeq_def)
  with f c show ?thesis by simp
qed

section \<open>Sorting by clicks\<close>

lemma request_options [simp]:
  "o_sortName (request E q s) = o_sortName s" "o_sortOrder (request E q s) = o_sortOrder s" "o_multiSort (request E q s) = o_multiSort s"
  "o_remoteSort (request E q s) = o_remoteSort s" "get_column (request E q s) = get_column s" "g_resizing (request E q s) = g_resizing s"
  by (simp_all add: request_def default_loader_def grid_loading_def grid_loaded_def upd_pagers_def get_column_def fun_eq_iff Let_def
      split: option.split)

lemma sort_lists_join:
  assumes "ns \<noteq> []" and "\<forall>n\<in>set ns. CHR '','' \<notin> set n" and "js_join '','' ns \<noteq> []"
    and "os \<noteq> []" and "\<forall>x\<in>set os. CHR '','' \<notin> set x"
  shows "sort_lists (Some (js_join '','' ns)) (js_join '','' os) = (ns, map Some os)"
  using assms by (simp add: sort_lists_def truthy_text_def js_split_join)

lemma js_join_snoc: "f \<noteq> [] \<Longrightarrow> js_join sep (ns @ [f]) \<noteq> []"
  by (induction sep ns rule: js_join.induct) auto

lemma js_join_length: "2 \<le> length ns \<Longrightarrow> js_join '','' ns \<noteq> []"
  by (induction "'',''" ns rule: js_join.induct) auto

text \<open>One click with a remote sort on a column that can be sorted.\<close>

lemma click_remote:
  assumes "o_remoteSort s" and "\<forall>n x. e_beforeSort E n x" and "get_column s (Some f) = Some c" and "col_sortable c" and "\<not> g_resizing s"
    and ab: "turn_sort (o_multiSort s) f (col_default_order c) (sort_lists (o_sortName s) (o_sortOrder s)) = (ns, map Some os)"
    and "\<forall>n\<in>set ns. get_column s (Some n) \<noteq> None" and "length os = length ns"
  shows "\<exists>t. sort_grid E (SortBy f) s = Some t \<and> o_sortName t = Some (js_join '','' ns) \<and> o_sortOrder t = js_join '','' os
     \<and> o_multiSort t = o_multiSort s \<and> o_remoteSort t \<and> get_column t = get_column s \<and> \<not> g_resizing t \<and> g_headSort t = zip ns os"
proof -
  let ?s = "s\<lparr>o_sortName := Some (js_join '','' ns), o_sortOrder := js_join '','' os\<rparr>"
  have h: "head_sort ?s (ns, map Some os) = Some (zip ns os)"
    using assms(7,8) by (auto simp: head_sort_def get_column_def intro!: nth_equalityI simp: nth_enumerate_eq split: option.splits)
  have gc: "get_column (s\<lparr>o_sortName := x, o_sortOrder := y, g_headSort := z\<rparr>) = get_column s" for x y z
    by (simp add: get_column_def fun_eq_iff split: option.split)
  have hs: "g_headSort (request E None u) = g_headSort u" for u
    by (simp add: request_def default_loader_def grid_loading_def grid_loaded_def upd_pagers_def Let_def)
  have em: "dg_emit (OnSortColumn x y) u = u\<lparr>g_log := g_log u @ [OnSortColumn x y]\<rparr>" for x y u
    by (simp add: dg_emit_def is_muted_def)
  have gl: "get_column (u\<lparr>g_log := l\<rparr>) = get_column u" for u l by (simp add: get_column_def fun_eq_iff split: option.split)
  have jo: "join_orders (map Some os) = js_join '','' os" by (simp add: join_orders_def comp_def)
  show ?thesis using assms(1-5) by (simp add: sort_grid_def ab apply_sort_def jo h Let_def em gl hs gc)
qed

lemma in_array_snoc: "f \<notin> set ns \<Longrightarrow> in_array f (ns @ [f]) = Some (length ns)"
  by (induction ns) (auto simp: in_array_def)

lemma sort_lists_shape:
  assumes "sort_lists n x = (ns, map Some os)"
  shows "\<forall>f\<in>set ns. CHR '','' \<notin> set f" and "\<forall>f\<in>set os. CHR '','' \<notin> set f" and "ns \<noteq> [] \<Longrightarrow> js_join '','' ns \<noteq> []"
    and "ns = [] \<longleftrightarrow> os = []"
proof -
  have inj: "map Some us = map Some vs \<Longrightarrow> us = vs" for us vs :: "string list" by (metis inj_Some inj_map_eq_map)
  have "(ns = [] \<and> os = []) \<or> (truthy_text n \<and> ns = js_split (CHR '','') (the n) \<and> os = js_split (CHR '','') x)"
    using assms inj by (auto simp: sort_lists_def split: if_splits)
  then show "\<forall>f\<in>set ns. CHR '','' \<notin> set f" "\<forall>f\<in>set os. CHR '','' \<notin> set f" "ns \<noteq> [] \<Longrightarrow> js_join '','' ns \<noteq> []" "ns = [] \<longleftrightarrow> os = []"
    by (auto simp: js_join_split truthy_text_def dest: js_split_sep_free)
qed

definition turned :: "string \<Rightarrow> string" where
  "turned x = (if x = ''asc'' then ''desc'' else ''asc'')"

text \<open>
  Three clicks come back: with \<open>multiSort\<close>, clicking a column that is not sorted by adds it in
  its default order, a second click turns the order, a third one takes the column out again, and
  the sort names and orders, and the arrows in the header, are those of before (remote sort, no veto).
\<close>

theorem dg_sort_cycle:
  assumes "o_remoteSort s" and "\<forall>n x. e_beforeSort E n x" and "get_column s (Some f) = Some c" and "col_sortable c"
    and "\<not> g_resizing s" and "o_multiSort s" and "f \<noteq> []" and "CHR '','' \<notin> set f"
    and "col_default_order c = ''asc'' \<or> col_default_order c = ''desc''"
    and "sort_lists (o_sortName s) (o_sortOrder s) = (ns, map Some os)" and "length os = length ns" and "f \<notin> set ns"
    and "\<forall>n\<in>set ns. get_column s (Some n) \<noteq> None"
  defines "o1 \<equiv> col_default_order c"
  shows "\<exists>t u v. sort_grid E (SortBy f) s = Some t \<and> sort_grid E (SortBy f) t = Some u \<and> sort_grid E (SortBy f) u = Some v
     \<and> sort_lists (o_sortName t) (o_sortOrder t) = (ns @ [f], map Some (os @ [o1]))
     \<and> sort_lists (o_sortName u) (o_sortOrder u) = (ns @ [f], map Some (os @ [turned o1]))
     \<and> sort_lists (o_sortName v) (o_sortOrder v) = (ns, map Some os) \<and> g_headSort v = zip ns os"
proof -
  note sh = sort_lists_shape [OF assms(10)]
  have o1: "CHR '','' \<notin> set o1" "CHR '','' \<notin> set (turned o1)" "turned o1 \<noteq> o1" "turned (turned o1) = o1" "o1 = ''asc'' \<or> o1 = ''desc''"
    using assms(9) by (auto simp: o1_def turned_def)
  have nj: "sort_lists (Some (js_join '','' (ns @ [f]))) (js_join '','' (os @ [x])) = (ns @ [f], map Some (os @ [x]))"
    if "CHR '','' \<notin> set x" for x
    by (rule sort_lists_join) (use that sh assms(7,8) js_join_snoc in auto)
  have gc: "\<forall>n\<in>set (ns @ [f]). get_column s (Some n) \<noteq> None" using assms(3,13) by auto
  have "turn_sort (o_multiSort s) f (col_default_order c) (sort_lists (o_sortName s) (o_sortOrder s)) = (ns @ [f], map Some (os @ [o1]))"
    using assms(6,12) in_array_None [of f ns] by (simp add: turn_sort_def assms(10) o1_def)
  from click_remote [OF assms(1-5) this gc] assms(11) obtain t where t: "sort_grid E (SortBy f) s = Some t"
    "o_sortName t = Some (js_join '','' (ns @ [f]))" "o_sortOrder t = js_join '','' (os @ [o1])" "o_multiSort t" "o_remoteSort t"
    "get_column t = get_column s" "\<not> g_resizing t" using assms(6) by auto
  have lt: "sort_lists (o_sortName t) (o_sortOrder t) = (ns @ [f], map Some (os @ [o1]))" using nj [OF o1(1)] t(2,3) by simp
  have ct: "get_column t (Some f) = Some c" "\<forall>n\<in>set (ns @ [f]). get_column t (Some n) \<noteq> None" using assms(3) gc t(6) by simp_all
  have "turn_sort (o_multiSort t) f (col_default_order c) (sort_lists (o_sortName t) (o_sortOrder t)) =
      (ns @ [f], map Some (os @ [turned o1]))"
    using t(4) assms(11) o1(3,5)
    by (auto simp: turn_sort_def lt in_array_snoc [OF assms(12)] o1_def [symmetric] turned_def nth_append put_order_def
        list_update_append)
  from click_remote [OF t(5) assms(2) ct(1) assms(4) t(7) this ct(2)] assms(11) obtain u where u: "sort_grid E (SortBy f) t = Some u"
    "o_sortName u = Some (js_join '','' (ns @ [f]))" "o_sortOrder u = js_join '','' (os @ [turned o1])" "o_multiSort u" "o_remoteSort u"
    "get_column u = get_column t" "\<not> g_resizing u" using t(4) by auto
  have lu: "sort_lists (o_sortName u) (o_sortOrder u) = (ns @ [f], map Some (os @ [turned o1]))" using nj [OF o1(2)] u(2,3) by simp
  have cu: "get_column u (Some f) = Some c" "\<forall>n\<in>set ns. get_column u (Some n) \<noteq> None" using ct u(6) by simp_all
  have sp: "splice_del (length xs) (xs @ [x]) = xs" for xs and x :: 'x by (simp add: splice_del_def)
  have "turn_sort (o_multiSort u) f (col_default_order c) (sort_lists (o_sortName u) (o_sortOrder u)) = (ns, map Some os)"
    using u(4) assms(11) o1(3,5) sp [of ns f] sp [of "map Some os" "Some (turned o1)"]
    by (auto simp: turn_sort_def lu in_array_snoc [OF assms(12)] o1_def [symmetric] turned_def nth_append)
  from click_remote [OF u(5) assms(2) cu(1) assms(4) u(7) this cu(2)] assms(11) obtain v where v: "sort_grid E (SortBy f) u = Some v"
    "o_sortName v = Some (js_join '','' ns)" "o_sortOrder v = js_join '','' os" "g_headSort v = zip ns os" by auto
  have "sort_lists (o_sortName v) (o_sortOrder v) = (ns, map Some os)"
  proof (cases "ns = []")
    case True
    with sh(4) v(2) show ?thesis by (simp add: sort_lists_def truthy_text_def)
  next
    case False
    with sh v(2,3) show ?thesis by (simp add: sort_lists_join)
  qed
  with t(1) u(1) v(1,4) lt lu show ?thesis by blast
qed

section \<open>Examples\<close>

text \<open>Three rows sorted by group, then by descending id.\<close>

definition sort_grid3 :: grid where
  "sort_grid3 = sample_grid\<lparr>o_columns := [[(plain_column ''id'')\<lparr>col_sortable := True\<rparr>, (plain_column ''g'')\<lparr>col_sortable := True\<rparr>]],
     g_store := (\<lambda>r f. if f = ''id'' then VNum (10 * int r) else VStr (if r = 1 then ''a'' else ''b'')),
     o_sortName := Some ''g,id'', o_sortOrder := ''asc,desc'', o_remoteSort := False\<rparr>"

lemma sort_grid3_facts:
  "sort_names sort_grid3 = [''g'', ''id'']" "sort_orders sort_grid3 = [''asc'', ''desc'']" "g_rows sort_grid3 = [0, 1, 2]"
  "get_column sort_grid3 (Some ''g'') = Some ((plain_column ''g'')\<lparr>col_sortable := True\<rparr>)"
  "get_column sort_grid3 (Some ''id'') = Some ((plain_column ''id'')\<lparr>col_sortable := True\<rparr>)"
  by (simp_all add: sort_grid3_def sample_grid_def sort_names_def sort_orders_def truthy_text_def get_column_def find_column_def
      plain_column_def)

theorem dg_local_sort_witness:
  "\<exists>l. local_sort default_env sort_grid3 = Some (sort_grid3\<lparr>g_rows := l\<rparr>) \<and> mset l = {#0, 1, 2#}"
proof -
  have "plain_sort default_env sort_grid3 (sort_names sort_grid3)"
    by (simp add: plain_sort_def sort_grid3_facts default_env_def)
  moreover have "\<forall>r\<in>set (g_rows sort_grid3). \<forall>n\<in>set (sort_names sort_grid3). g_store sort_grid3 r n \<in> kind (n = ''id'')"
    unfolding sort_grid3_facts by (simp add: sort_grid3_def kind_def)
  moreover have "\<not> o_remoteSort sort_grid3" "truthy_text (o_sortName sort_grid3)" by (simp_all add: sort_grid3_def truthy_text_def)
  ultimately show ?thesis
    using dg_local_sort [of sort_grid3 default_env "\<lambda>n. n = ''id''"] by (auto simp: sort_grid3_facts)
qed

lemma sort_grid3_sorted: "map_option g_rows (local_sort default_env sort_grid3) = Some [1, 2, 0]"
  by code_simp

lemma load_some:
  assumes "o_remoteSort s"
  shows "\<exists>t. load_data E d s = Some t"
proof -
  have "o_remoteSort (take_data d s)" using assms by (simp add: take_data_def split: gdata.split)
  then show ?thesis by (simp add: load_data_def show_data_def local_sort_def)
qed

theorem dg_load_page_witness:
  "\<exists>t. load_data default_env (DataArray [2, 1]) sample_page = Some t \<and> g_total t = Fin 2 \<and> g_inserted t = []"
proof -
  have "o_remoteSort sample_page" "g_next sample_page = 6"
    by (simp_all add: sample_page_def draw_page_def after_render_def Let_def sample_grid_def datagrid_defaults_def)
  then obtain t where t: "load_data default_env (DataArray [2, 1]) sample_page = Some t" using load_some by blast
  from dg_load_page [OF t] \<open>g_next sample_page = 6\<close> t show ?thesis by (simp add: take_data_def)
qed

text \<open>Pages 1 and 2 are both under way, page 2 is the page of the grid; the answer for page 1 comes last.\<close>

definition two_answers :: grid where
  "two_answers = sample_page\<lparr>o_pagination := True, o_pageNumber := Fin 2,
     g_requests := [\<lparr>q_query = [], q_page = Some (Fin 1, Fin 10), q_sort = None\<rparr>, \<lparr>q_query = [], q_page = Some (Fin 2, Fin 10), q_sort = None\<rparr>]\<rparr>"

theorem dg_last_answer_wins_witness:
  "\<exists>t. answered default_env 0 (DataArray [0, 1]) two_answers = Some t \<and> o_pageNumber t = Fin 2 \<and> mset (g_rows t) = {#0, 1#}"
proof -
  have two: "o_remoteSort two_answers" "g_next two_answers = 6" "g_pagers two_answers = []" "o_pageNumber two_answers = Fin 2"
    by (simp_all add: two_answers_def sample_page_def draw_page_def after_render_def Let_def sample_grid_def datagrid_defaults_def)
  then have "o_remoteSort (grid_loaded (take_request 0 two_answers))" by (simp add: grid_loaded_def take_request_def upd_pagers_def)
  then obtain t where t: "answered default_env 0 (DataArray [0, 1]) two_answers = Some t" unfolding answered_def using load_some by blast
  from dg_last_answer_wins [OF t] two t show ?thesis by (simp add: take_data_def)
qed

text \<open>A grid on page 12 of 95 rows, when 93 are left in 10 pages.\<close>

definition far_grid :: grid where
  "far_grid = datagrid_defaults\<lparr>o_pagination := True, o_pageNumber := Fin 12, o_url := Some ''rows.json'', g_total := Fin 93,
     g_pagers := [pager95\<lparr>p_pageNumber := Fin 12\<rparr>]\<rparr>"

theorem dg_page_gone_witness:
  "o_pageNumber (tell_pagers default_env far_grid) = Fin 10 \<and> length (g_requests (tell_pagers default_env far_grid)) = 1"
proof -
  have a: "about 10 93 12 (set_popt (OTotal (Fin 93)) (pager95\<lparr>p_pageNumber := Fin 12\<rparr>))"
    using pager95_about [of 12] by (simp add: about_def sized_def)
  have t: "p_total (pager95\<lparr>p_pageNumber := Fin 12\<rparr>) \<noteq> Fin 93"
    by (simp add: pager95_def pg_build_def pagination_defaults_def Let_def)
  have c: "clamp_page 10 93 12 = 10" by code_simp
  have "g_pagers far_grid = [pager95\<lparr>p_pageNumber := Fin 12\<rparr>]" "g_total far_grid = Fin 93" "o_pageNumber far_grid = Fin 12"
    "truthy_text (o_url far_grid)" "\<forall>q. e_beforeLoad default_env q" "g_requests far_grid = []"
    by (simp_all add: far_grid_def truthy_text_def default_env_def datagrid_defaults_def)
  with dg_page_gone [of far_grid _ _ 10 93 12 default_env, OF _ a t] c show ?thesis by simp
qed

theorem dg_sort_cycle_witness:
  "\<exists>t. sort_grid default_env (SortBy ''id'') (sort_grid3\<lparr>o_remoteSort := True, o_multiSort := True, o_sortName := None\<rparr>) = Some t
     \<and> sort_lists (o_sortName t) (o_sortOrder t) = ([''id''], [Some ''asc''])"
proof -
  let ?s = "sort_grid3\<lparr>o_remoteSort := True, o_multiSort := True, o_sortName := None\<rparr>"
  have c: "get_column ?s (Some ''id'') = Some ((plain_column ''id'')\<lparr>col_sortable := True\<rparr>)"
    using sort_grid3_facts(5) by (simp add: get_column_def split: option.splits)
  have "sort_lists (o_sortName ?s) (o_sortOrder ?s) = ([], map Some [])" by (simp add: sort_lists_def truthy_text_def)
  from dg_sort_cycle [OF _ _ c _ _ _ _ _ _ this, of default_env] show ?thesis
    by (auto simp: col_default_order_def plain_column_def default_env_def sort_grid3_def sample_grid_def datagrid_defaults_def)
qed

end
