(* ===== verification/Dg_Edit.thy ===== *)
theory Dg_Edit
  imports Dg_Load
begin

text \<open>
  Editing, \<open>js/plugins/jquery.datagrid.js\<close>: the editors in the cells of a row (\<open>_13d\<close>, \<open>_143\<close>, \<open>_140\<close>,
  \<open>_14f\<close>), their types (\<open>_199\<close>, \<open>_1a7\<close>), the insertion and deletion of rows with the record of
  changes (\<open>_16b\<close>, \<open>_171\<close>, \<open>_175\<close>, \<open>_165\<close>), and taking the changes over or back (\<open>_17c\<close>, \<open>_17e\<close>).

  An operation on an index without a row has no result (\<open>None\<close>), as has one that throws: an editor in
  a column of boxes, whose cells have no place for it, or a box of two values without its options.
\<close>

section \<open>Types of editors: lines 1711-1805\<close>

definition spec_type :: "editor_spec \<Rightarrow> string" where
  "spec_type x = (case x of EditorType t \<Rightarrow> t | EditorWith t _ _ \<Rightarrow> t)"

text \<open>The fields whose value is the text of an \<open>input\<close>, and the widgets, which are other plugins.\<close>

definition text_editors :: "string list" where
  "text_editors = [''text'', ''textarea'', ''validatebox'']"

definition widget_editors :: "string list" where
  "widget_editors = [''textbox'', ''numberbox'', ''numberspinner'', ''combobox'', ''combotree'', ''combogrid'', ''datebox'',
     ''datetimebox'', ''timespinner'', ''datetimespinner'']"

definition known_editor :: "string \<Rightarrow> bool" where
  "known_editor t \<longleftrightarrow> t \<in> set text_editors \<or> t \<in> set widget_editors \<or> t = ''checkbox''"

text \<open>\<open>val(v)\<close>: an \<open>input\<close> drops line breaks, a \<open>textarea\<close> keeps them as line feeds.\<close>

fun feeds :: "bool \<Rightarrow> string \<Rightarrow> string" where
  "feeds cr [] = []"
| "feeds cr (c # cs) =
     (if c = CHR 0x0A then (if cr then feeds False cs else c # feeds False cs)
      else if c = CHR 0x0D then CHR 0x0A # feeds True cs else c # feeds False cs)"

definition field_input :: "string \<Rightarrow> jsval \<Rightarrow> string" where
  "field_input ty v =
     (let t = join_text v
      in if ty = ''textarea'' then feeds False t else filter (\<lambda>c. c \<noteq> CHR 0x0A \<and> c \<noteq> CHR 0x0D) t)"

definition set_value :: "grid_env \<Rightarrow> editor_spec \<Rightarrow> jsval \<Rightarrow> jsval" where
  "set_value E x v =
     (if spec_type x \<in> set text_editors then VStr (field_input (spec_type x) v)
      else case x of
        EditorWith t on off \<Rightarrow> if t = ''checkbox'' then VBool (loose_eq (VStr on) v) else e_put E t v
      | EditorType t \<Rightarrow> e_put E t v)"

definition get_value :: "grid_env \<Rightarrow> editor_spec \<Rightarrow> jsval \<Rightarrow> jsval" where
  "get_value E x v =
     (if spec_type x \<in> set text_editors then v
      else case x of
        EditorWith t on off \<Rightarrow> if t = ''checkbox'' then VStr (if v = VBool True then on else off) else e_get E t v
      | EditorType t \<Rightarrow> e_get E t v)"

section \<open>The editors of a row: \<open>_140\<close>, \<open>_14f\<close>, \<open>_150\<close>, \<open>_154\<close>, \<open>_142\<close>\<close>

text \<open>The row elements of an index, in the first and in the second view.\<close>

definition row_trs :: "nat \<Rightarrow> grid \<Rightarrow> tr list" where
  "row_trs i s =
     (case List.find (has_index i) (g_body1 s) of None \<Rightarrow> [] | Some t \<Rightarrow> [t])
     @ (case List.find (has_index i) (g_body2 s) of None \<Rightarrow> [] | Some t \<Rightarrow> [t])"

definition is_editing :: "nat \<Rightarrow> grid \<Rightarrow> bool" where
  "is_editing i s \<longleftrightarrow> list_ex t_editing (row_trs i s)"

definition row_editors :: "nat \<Rightarrow> grid \<Rightarrow> (string \<times> editor) list" where
  "row_editors i s =
     List.map_filter (\<lambda>d. map_option (Pair (field_text (d_field d))) (d_editor d)) (concat (map t_cells (row_trs i s)))"

definition get_editor :: "nat \<Rightarrow> string \<Rightarrow> grid \<Rightarrow> (string \<times> editor) option" where
  "get_editor i f s = List.find (\<lambda>x. fst x = f) (row_editors i s)"

text \<open>The editor of a cell with the value of the row in it; an element keeps the one it has when its column has none.\<close>

definition edit_cell :: "grid_env \<Rightarrow> grid \<Rightarrow> row \<Rightarrow> td \<Rightarrow> td option" where
  "edit_cell E s r d =
     (case get_column s (Some (field_text (d_field d))) of
        None \<Rightarrow> Some d
      | Some c \<Rightarrow>
          (case col_editor c of
             None \<Rightarrow> Some d
           | Some x \<Rightarrow>
               if \<not> known_editor (spec_type x) then Some d
               else if d_check d \<or> x = EditorType ''checkbox'' then None
               else Some (d\<lparr>d_editor := Some \<lparr>ed_spec = x, ed_value = set_value E x (r (field_text (d_field d))), ed_old = d_text d\<rparr>\<rparr>)))"

definition edit_tr :: "grid_env \<Rightarrow> grid \<Rightarrow> row \<Rightarrow> tr \<Rightarrow> tr option" where
  "edit_tr E s r t =
     map_option (\<lambda>ds. t\<lparr>t_editing := True, t_cells := ds\<rparr>)
       (foldM (\<lambda>ds d. map_option (\<lambda>d'. ds @ [d']) (edit_cell E s r d)) [] (t_cells t))"

fun upd_first_opt :: "('a \<Rightarrow> bool) \<Rightarrow> ('a \<Rightarrow> 'a option) \<Rightarrow> 'a list \<Rightarrow> 'a list option" where
  "upd_first_opt P f [] = Some []"
| "upd_first_opt P f (x # xs) =
     (if P x then map_option (\<lambda>y. y # xs) (f x) else map_option (Cons x) (upd_first_opt P f xs))"

definition close_cell :: "td \<Rightarrow> td" where
  "close_cell d = (case d_editor d of None \<Rightarrow> d | Some e \<Rightarrow> d\<lparr>d_editor := None, d_text := ed_old e\<rparr>)"

definition close_tr :: "tr \<Rightarrow> tr" where
  "close_tr t = t\<lparr>t_editing := False, t_cells := map close_cell (t_cells t)\<rparr>"

text \<open>Only the types with a box to validate can be invalid.\<close>

definition editor_valid :: "grid_env \<Rightarrow> string \<times> editor \<Rightarrow> bool" where
  "editor_valid E x =
     (let t = spec_type (ed_spec (snd x))
      in t = ''text'' \<or> t = ''textarea'' \<or> t = ''checkbox'' \<or> e_valid E t (fst x) (ed_value (snd x)))"

definition validate_row :: "grid_env \<Rightarrow> nat \<Rightarrow> grid \<Rightarrow> bool" where
  "validate_row E i s \<longleftrightarrow> (is_editing i s \<longrightarrow> list_all (editor_valid E) (row_editors i s))"

section \<open>Begin, end, cancel: \<open>_13d\<close> and \<open>_143\<close>\<close>

definition begin_edit :: "grid_env \<Rightarrow> nat \<Rightarrow> grid \<Rightarrow> grid option" where
  "begin_edit E i s =
     (case get_row s i of
        None \<Rightarrow> None
      | Some r \<Rightarrow>
          if is_editing i s \<or> \<not> e_before E BeforeEdit i (g_store s r) then Some s
          else
            case (upd_first_opt (has_index i) (edit_tr E s (g_store s r)) (g_body1 s),
                  upd_first_opt (has_index i) (edit_tr E s (g_store s r)) (g_body2 s)) of
              (Some b1, Some b2) \<Rightarrow> Some (dg_emit (OnBeginEdit i r) (s\<lparr>g_body1 := b1, g_body2 := b2\<rparr>))
            | _ \<Rightarrow> None)"

text \<open>What the user types into the editor of a field.\<close>

definition type_cell :: "string \<Rightarrow> jsval \<Rightarrow> td \<Rightarrow> td" where
  "type_cell f v d =
     (if field_text (d_field d) = f then d\<lparr>d_editor := map_option (\<lambda>e. e\<lparr>ed_value := v\<rparr>) (d_editor d)\<rparr> else d)"

definition type_in :: "nat \<Rightarrow> string \<Rightarrow> jsval \<Rightarrow> grid \<Rightarrow> grid" where
  "type_in i f v s = upd_row i (\<lambda>t. t\<lparr>t_cells := map (type_cell f v) (t_cells t)\<rparr>) s"

text \<open>The values of the editors go into the row where they differ from it.\<close>

definition put_field :: "grid_env \<Rightarrow> row \<times> (string \<times> jsval) list \<Rightarrow> string \<times> editor \<Rightarrow> row \<times> (string \<times> jsval) list" where
  "put_field E p x =
     (let f = fst x; v = get_value E (ed_spec (snd x)) (ed_value (snd x))
      in if loose_eq (fst p f) v then p else ((fst p)(f := v), snd p @ [(f, v)]))"

definition take_values :: "grid_env \<Rightarrow> row \<Rightarrow> (string \<times> editor) list \<Rightarrow> row \<times> (string \<times> jsval) list" where
  "take_values E r es = fold (\<lambda>x p. put_field E p x) es (r, [])"

definition close_editors :: "nat \<Rightarrow> grid \<Rightarrow> grid" where
  "close_editors i s = upd_row i close_tr s"

definition end_edit :: "grid_env \<Rightarrow> nat \<Rightarrow> grid \<Rightarrow> grid option" where
  "end_edit E i s =
     (case get_row s i of
        None \<Rightarrow> None
      | Some r \<Rightarrow>
          if \<not> is_editing i s \<or> \<not> validate_row E i s then Some s
          else
            let (new, ch) = take_values E (g_store s r) (row_editors i s);
                s = s\<lparr>g_store := (g_store s)(r := new)\<rparr>;
                s = (if ch \<noteq> [] \<and> r \<notin> set (g_inserted s) \<and> r \<notin> set (g_updated s) then s\<lparr>g_updated := g_updated s @ [r]\<rparr> else s);
                s = dg_emit (OnEndEdit i r ch) s
            in map_option (dg_emit (OnAfterEdit i r ch)) (refresh_row E i (close_editors i s)))"

definition cancel_edit :: "grid_env \<Rightarrow> nat \<Rightarrow> grid \<Rightarrow> grid option" where
  "cancel_edit E i s =
     (case get_row s i of
        None \<Rightarrow> None
      | Some r \<Rightarrow>
          if \<not> is_editing i s then Some s
          else map_option (dg_emit (OnCancelEdit i r)) (refresh_row E i (close_editors i s)))"

section \<open>Changes: \<open>_165\<close> to \<open>_17e\<close>\<close>

definition get_changes :: "string option \<Rightarrow> grid \<Rightarrow> rid list" where
  "get_changes k s =
     (if \<not> truthy_text k then g_inserted s @ g_deleted s @ g_updated s
      else if k = Some ''inserted'' then g_inserted s
      else if k = Some ''deleted'' then g_deleted s
      else if k = Some ''updated'' then g_updated s
      else [])"

definition tell_total :: "grid \<Rightarrow> grid" where
  "tell_total s = upd_pagers (pg_refresh [OTotal (g_total s)]) s"

text \<open>A row leaves an array by its id, or not at all when the grid has no id field.\<close>

definition drop_row :: "grid \<Rightarrow> rid \<Rightarrow> rid list \<Rightarrow> rid list" where
  "drop_row s r a = (if o_idField s = None then a else arr_remove_id loose_eq (row_key s) (row_key s r) a)"

definition delete_row :: "grid_env \<Rightarrow> nat \<Rightarrow> grid \<Rightarrow> grid option" where
  "delete_row E i s =
     (case cancel_edit E i s of
        None \<Rightarrow> None
      | Some s \<Rightarrow>
          (case get_row s i of
             None \<Rightarrow> None
           | Some r \<Rightarrow>
               let s = (if r \<in> set (g_inserted s) then s\<lparr>g_inserted := arr_remove r (g_inserted s)\<rparr>
                        else s\<lparr>g_deleted := g_deleted s @ [r]\<rparr>);
                   s = s\<lparr>g_selected := drop_row s r (g_selected s), g_checked := drop_row s r (g_checked s)\<rparr>
               in Some (tell_total (delete_row_view i s))))"

text \<open>\<open>insertRow\<close>, and \<open>appendRow\<close> without an index.\<close>

definition insert_row_at :: "grid_env \<Rightarrow> nat option \<Rightarrow> rid \<Rightarrow> grid \<Rightarrow> grid option" where
  "insert_row_at E i r s =
     map_option (\<lambda>s. tell_total (s\<lparr>g_inserted := g_inserted s @ [r]\<rparr>)) (insert_row E i r s)"

definition append_row :: "grid_env \<Rightarrow> rid \<Rightarrow> grid \<Rightarrow> grid option" where
  "append_row E r s = insert_row_at E None r s"

definition accept_step :: "grid_env \<Rightarrow> bool \<times> grid \<Rightarrow> nat \<Rightarrow> (bool \<times> grid) option" where
  "accept_step E p i = (if validate_row E i (snd p) then map_option (Pair (fst p)) (end_edit E i (snd p)) else Some (False, snd p))"

definition accept_changes :: "grid_env \<Rightarrow> grid \<Rightarrow> grid option" where
  "accept_changes E s =
     map_option (\<lambda>(ok, s). if ok then snapshot s else s) (foldM (accept_step E) (True, s) [0..<length (g_rows s)])"

text \<open>\<open>_187\<close>: the ids that are on the page again are selected, or checked, one by one.\<close>

definition index_of_id :: "jsval \<Rightarrow> grid \<Rightarrow> nat option" where
  "index_of_id k s = (if k = VNull then None else row_index (RowId k) s)"

definition mark_id :: "(nat \<Rightarrow> rid \<Rightarrow> grid \<Rightarrow> grid) \<Rightarrow> jsval \<Rightarrow> grid \<Rightarrow> grid" where
  "mark_id f k s = (case index_of_id k s of None \<Rightarrow> s | Some i \<Rightarrow> f i (g_rows s ! i) s)"

definition revert :: "grid \<Rightarrow> grid" where
  "revert s = s\<lparr>g_selected := [], g_checked := [],
     g_total := jplus (g_total s) (Fin (int (length (g_deleted s)) - int (length (g_inserted s)))), g_rows := g_original s\<rparr>"

definition reject_changes :: "grid_env \<Rightarrow> grid \<Rightarrow> grid option" where
  "reject_changes E s =
     (case foldM (\<lambda>s i. cancel_edit E i s) s [0..<length (g_rows s)] of
        None \<Rightarrow> None
      | Some s \<Rightarrow>
          let sel = map (row_key s) (g_selected s); chk = map (row_key s) (g_checked s) in
          map_option (\<lambda>t. snapshot (fold (mark_id (check_with E id)) chk (fold (mark_id (select_with E id)) sel t)))
            (show_data E DataHeld (revert s)))"

section \<open>The values of the editors\<close>

definition editor_value :: "grid_env \<Rightarrow> editor \<Rightarrow> jsval" where
  "editor_value E e = get_value E (ed_spec e) (ed_value e)"

lemma loose_eq_refl [simp]: "loose_eq v v"
  by (cases v) (auto simp: loose_eq_def nullish_def num_rel_def to_number_def scale_def)

lemma put_field_pair:
  "put_field E (r, ch) (f, e) =
     (if loose_eq (r f) (editor_value E e) then (r, ch) else (r(f := editor_value E e), ch @ [(f, editor_value E e)]))"
  by (simp add: put_field_def editor_value_def Let_def)

lemma put_field_fold:
  assumes "distinct (map fst es)"
  shows "fold (\<lambda>x p. put_field E p x) es (r, ch) =
    ((\<lambda>f. case map_of es f of None \<Rightarrow> r f | Some e \<Rightarrow> if loose_eq (r f) (editor_value E e) then r f else editor_value E e),
     ch @ map (\<lambda>(f, e). (f, editor_value E e)) (filter (\<lambda>(f, e). \<not> loose_eq (r f) (editor_value E e)) es))"
  using assms
proof (induction es arbitrary: r ch)
  case (Cons x es)
  obtain f e where x: "x = (f, e)" by (cases x)
  have nf: "map_of es f = None" and d: "distinct (map fst es)" using Cons.prems x by (simp_all add: map_of_eq_None_iff)
  show ?case
  proof (cases "loose_eq (r f) (editor_value E e)")
    case True
    have "(case map_of (x # es) g of None \<Rightarrow> r g | Some e \<Rightarrow> if loose_eq (r g) (editor_value E e) then r g else editor_value E e) =
        (case map_of es g of None \<Rightarrow> r g | Some e \<Rightarrow> if loose_eq (r g) (editor_value E e) then r g else editor_value E e)" for g
      using True x nf by (cases "g = f") simp_all
    with True Cons.IH [OF d, of r ch] x show ?thesis by (simp add: put_field_pair)
  next
    case False
    let ?r = "r(f := editor_value E e)"
    have "(case map_of (x # es) g of None \<Rightarrow> r g | Some e \<Rightarrow> if loose_eq (r g) (editor_value E e) then r g else editor_value E e) =
        (case map_of es g of None \<Rightarrow> ?r g | Some e \<Rightarrow> if loose_eq (?r g) (editor_value E e) then ?r g else editor_value E e)" for g
      using False x nf by (cases "g = f") (simp_all split: option.split)
    moreover have "filter (\<lambda>(f, e). \<not> loose_eq (?r f) (editor_value E e)) es = filter (\<lambda>(f, e). \<not> loose_eq (r f) (editor_value E e)) es"
    proof (rule filter_cong)
      fix y
      assume "y \<in> set es"
      then have "fst y \<noteq> f" using Cons.prems x by (metis distinct.simps(2) fst_conv image_eqI list.map(2) set_map)
      then show "(case y of (f, e) \<Rightarrow> \<not> loose_eq (?r f) (editor_value E e)) = (case y of (f, e) \<Rightarrow> \<not> loose_eq (r f) (editor_value E e))"
        by (cases y) simp
    qed simp
    ultimately show ?thesis using False Cons.IH [OF d, of ?r "ch @ [(f, editor_value E e)]"] x by (simp add: put_field_pair del: fun_upd_apply)
  qed
qed simp

lemmas take_values_eq = put_field_fold [where ch = "[]", folded take_values_def, unfolded append_Nil]

lemma take_values_same:
  assumes "\<forall>(f, e)\<in>set es. loose_eq (r f) (editor_value E e)"
  shows "take_values E r es = (r, [])"
  using assms unfolding take_values_def by (induction es) (auto simp: put_field_pair)

section \<open>A page with one row under edit\<close>

text \<open>All rows but the \<open>i\<close>-th are shown; that one has its index, its stripe and the classes \<open>u\<close>.\<close>

definition shows_but :: "grid_env \<Rightarrow> grid \<Rightarrow> bool \<Rightarrow> nat \<Rightarrow> string list \<Rightarrow> tr list \<Rightarrow> bool" where
  "shows_but E s frozen i u ts \<longleftrightarrow> length ts = length (g_rows s)
     \<and> (\<forall>j<length ts. j \<noteq> i \<longrightarrow> strip (ts ! j) = strip (render_tr E s frozen j (g_store s (g_rows s ! j))))
     \<and> (\<forall>j<length ts. t_index (ts ! j) = j) \<and> (i < length ts \<longrightarrow> t_user (ts ! i) = u \<and> t_alt (ts ! i) = is_alt s i)"

lemma shows_shows_but:
  assumes "shows_rows E s frozen ts" and "i < length (g_rows s)"
  shows "shows_but E s frozen i (class_words (css_class (e_rowStyler E i (g_store s (g_rows s ! i))))) ts"
proof -
  note v = shows_index [OF assms(1)]
  have "t_index (ts ! j) = j" if "j < length ts" for j using v(1,3) that by (metis add_0 diff_zero length_upt nth_map nth_upt)
  with v(3) arg_cong [OF v(4) [OF assms(2)], of t_user] arg_cong [OF v(4) [OF assms(2)], of t_alt] v(4) show ?thesis
    by (simp add: shows_but_def render_tr_def Let_def)
qed

lemma upd_first_nth:
  assumes "\<forall>j<length ts. t_index (ts ! j) = j" and "i < length ts"
  shows "upd_first (has_index i) f ts = ts[i := f (ts ! i)]"
proof -
  have "map t_index ts = [0..<length ts]" using assms(1) by (intro nth_equalityI) simp_all
  then have "upd_first (has_index i) f ts = map (\<lambda>t. if t_index t = i then f t else t) ts" by (intro upd_first_distinct) simp
  also have "\<dots> = ts[i := f (ts ! i)]" using assms by (intro nth_equalityI) (auto simp: nth_list_update)
  finally show ?thesis .
qed

lemma shows_but_upd:
  assumes "shows_but E s frozen i u ts" and "i < length ts"
    and "t_index (f (ts ! i)) = i" and "t_user (f (ts ! i)) = u" and "t_alt (f (ts ! i)) = is_alt s i"
  shows "shows_but E s frozen i u (upd_first (has_index i) f ts)" and "upd_first (has_index i) f ts = ts[i := f (ts ! i)]"
proof -
  show eq: "upd_first (has_index i) f ts = ts[i := f (ts ! i)]"
    using assms(1,2) by (intro upd_first_nth) (simp_all add: shows_but_def)
  show "shows_but E s frozen i u (upd_first (has_index i) f ts)"
    using assms unfolding eq by (auto simp: shows_but_def nth_list_update)
qed

text \<open>The one row may change its object and the page its state; redrawing that row shows all.\<close>

lemma shows_but_refresh:
  assumes "shows_but E s frozen i u ts" and "i < length (g_rows s)" and "same_look s t" and "g_rows t = g_rows s"
    and "distinct (g_rows s)" and "\<forall>r. r \<noteq> g_rows s ! i \<longrightarrow> g_store t r = g_store s r"
    and "u = class_words (css_class (e_rowStyler E i (g_store t (g_rows s ! i))))"
  shows "shows_rows E t frozen
     (upd_first (has_index i) (refresh_tr E t frozen i (g_store t (g_rows s ! i)) (g_store t (g_rows s ! i))) ts)"
proof -
  let ?r = "g_store t (g_rows s ! i)"
  have l: "length ts = length (g_rows s)" using assms(1) by (simp add: shows_but_def)
  have eq: "upd_first (has_index i) (refresh_tr E t frozen i ?r ?r) ts = ts[i := refresh_tr E t frozen i ?r ?r (ts ! i)]"
    using assms(1,2) l by (intro upd_first_nth) (simp_all add: shows_but_def)
  note look = same_look_facts [OF assms(3)]
  have i: "strip (refresh_tr E t frozen i ?r ?r (ts ! i)) = strip (render_tr E t frozen i ?r)"
    using assms(1,2,7) l by (intro refresh_render) (simp_all add: shows_but_def look)
  show ?thesis
    unfolding eq
  proof (rule shows_rowsI)
    show "length (ts[i := refresh_tr E t frozen i ?r ?r (ts ! i)]) = length (g_rows t)" using l assms(4) by simp
  next
    fix j
    assume "j < length (g_rows t)"
    then have j: "j < length (g_rows s)" using assms(4) by simp
    show "strip (ts[i := refresh_tr E t frozen i ?r ?r (ts ! i)] ! j) = strip (render_tr E t frozen j (g_store t (g_rows t ! j)))"
    proof (cases "j = i")
      case True
      with i j l assms(4) show ?thesis by simp
    next
      case False
      then have "g_rows s ! j \<noteq> g_rows s ! i" using assms(2,5) j by (simp add: nth_eq_iff_index_eq)
      with False assms(1,4,6) j l show ?thesis by (simp add: shows_but_def look)
    qed
  qed
qed

text \<open>The page \<open>t\<close> of an edit of row \<open>i\<close> of \<open>s\<close>.\<close>

definition edit_page :: "grid_env \<Rightarrow> grid \<Rightarrow> nat \<Rightarrow> string list \<Rightarrow> grid \<Rightarrow> bool" where
  "edit_page E s i u t \<longleftrightarrow> same_look s t \<and> g_rows t = g_rows s \<and> shows_but E s False i u (g_body2 t)
     \<and> (has_view1 s \<longrightarrow> shows_but E s True i u (g_body1 t))"

lemma upd_first_opt_eq: "upd_first_opt P f xs = Some ys \<Longrightarrow> ys = upd_first P (the \<circ> f) xs"
  by (induction xs arbitrary: ys) (auto split: if_splits)

lemma upd_first_opt_nth: "upd_first_opt P f xs = Some ys \<Longrightarrow> (\<exists>i<length xs. P (xs ! i)) \<Longrightarrow> \<exists>x\<in>set xs. P x \<and> f x \<noteq> None"
  by (induction xs arbitrary: ys) (auto simp: nth_Cons split: if_splits nat.splits)

lemma upd_first_cong: "(\<And>x. x \<in> set xs \<Longrightarrow> P x \<Longrightarrow> f x = g x) \<Longrightarrow> upd_first P f xs = upd_first P g xs"
  by (induction xs) auto

lemma edit_tr_keeps:
  assumes "edit_tr E s r t = Some t'"
  shows "t_index t' = t_index t" and "t_user t' = t_user t" and "t_alt t' = t_alt t" and "t_editing t'"
  using assms by (auto simp: edit_tr_def)

lemma begin_shows_but:
  assumes "shows_but E s frozen i u ts" and "i < length ts" and "upd_first_opt (has_index i) (edit_tr E s r) ts = Some us"
  shows "shows_but E s frozen i u us" and "\<exists>t'. edit_tr E s r (ts ! i) = Some t' \<and> us = ts[i := t']"
proof -
  have ix: "\<forall>j<length ts. t_index (ts ! j) = j" using assms(1) by (simp add: shows_but_def)
  have only: "x = ts ! i" if "x \<in> set ts" "has_index i x" for x
    using that ix by (auto simp: in_set_conv_nth has_index_def)
  have "\<exists>i'<length ts. has_index i (ts ! i')" using ix assms(2) by (auto simp: has_index_def)
  then obtain t' where t': "edit_tr E s r (ts ! i) = Some t'"
    using upd_first_opt_nth [OF assms(3)] only by auto
  have eq: "us = upd_first (has_index i) (\<lambda>_. t') ts"
    unfolding upd_first_opt_eq [OF assms(3)] using only t' by (intro upd_first_cong) auto
  note k = edit_tr_keeps [OF t']
  have f: "t_index t' = i" "t_user t' = u" "t_alt t' = is_alt s i"
    using k assms(1,2) by (simp_all add: shows_but_def)
  show "shows_but E s frozen i u us" "\<exists>t'. edit_tr E s r (ts ! i) = Some t' \<and> us = ts[i := t']"
    using shows_but_upd [of E s frozen i u ts "\<lambda>_. t'"] assms(1,2) f t' unfolding eq by auto
qed

lemma begin_page:
  assumes "drawn E s" and "get_row s i = Some r" and "begin_edit E i s = Some t" and "t \<noteq> s"
  defines "u \<equiv> class_words (css_class (e_rowStyler E i (g_store s r)))"
  shows "edit_page E s i u t" and "g_store t = g_store s" and "is_editing i t" and "g_updated t = g_updated s"
    and "\<exists>t'. edit_tr E s (g_store s r) (g_body2 s ! i) = Some t' \<and> g_body2 t = (g_body2 s)[i := t']"
    and "has_view1 s \<Longrightarrow> \<exists>t'. edit_tr E s (g_store s r) (g_body1 s ! i) = Some t' \<and> g_body1 t = (g_body1 s)[i := t']"
proof -
  have i: "i < length (g_rows s)" and r: "r = g_rows s ! i" using assms(2) by (auto simp: get_row_def split: if_splits)
  obtain b1 b2 where b: "upd_first_opt (has_index i) (edit_tr E s (g_store s r)) (g_body1 s) = Some b1"
    "upd_first_opt (has_index i) (edit_tr E s (g_store s r)) (g_body2 s) = Some b2"
    "t = dg_emit (OnBeginEdit i r) (s\<lparr>g_body1 := b1, g_body2 := b2\<rparr>)"
    using assms(2,3,4) unfolding begin_edit_def by (auto split: if_splits option.splits)
  have d: "shows_rows E s False (g_body2 s)" "has_view1 s \<Longrightarrow> shows_rows E s True (g_body1 s)"
    using assms(1) i by (auto simp: drawn_def)
  note l = shows_index(3) [OF d(1)]
  note v2 = shows_shows_but [OF d(1) i, folded r u_def] and v1 = shows_shows_but [OF d(2) i, folded r u_def]
  note s2 = begin_shows_but [OF v2 _ b(2)] and s1 = begin_shows_but [OF v1 _ b(1)]
  have tb: "g_body1 t = b1" "g_body2 t = b2" by (simp_all add: b(3))
  have l1: "i < length (g_body1 s)" if "has_view1 s" using shows_index(3) [OF d(2) [OF that]] i by simp
  have "same_look s t" "g_rows t = g_rows s" by (simp_all add: b(3) dg_emit_def same_look_def)
  then show "edit_page E s i u t"
    using s2(1) s1(1) l l1 i by (simp add: edit_page_def tb u_def)
  show "g_store t = g_store s" "g_updated t = g_updated s" by (simp_all add: b(3) dg_emit_def)
  show "\<exists>t'. edit_tr E s (g_store s r) (g_body2 s ! i) = Some t' \<and> g_body2 t = (g_body2 s)[i := t']"
    using s2(2) l i by (simp add: tb)
  then obtain t' where t': "edit_tr E s (g_store s r) (g_body2 s ! i) = Some t'" "g_body2 t = (g_body2 s)[i := t']" by blast
  show "has_view1 s \<Longrightarrow> \<exists>t'. edit_tr E s (g_store s r) (g_body1 s ! i) = Some t' \<and> g_body1 t = (g_body1 s)[i := t']"
    using s1(2) l1 by (simp add: tb)
  have ix: "t_index (g_body2 s ! j) = j" if "j < length (g_rows s)" for j using v2 l that by (simp add: shows_but_def)
  have "List.find (has_index i) (g_body2 t) = Some t'"
    unfolding find_Some_iff
  proof (intro exI [of _ i] conjI allI impI)
    show "i < length (g_body2 t)" "has_index i (g_body2 t ! i)" "t' = g_body2 t ! i"
      using t'(2) l i ix [OF i] edit_tr_keeps(1) [OF t'(1)] by (simp_all add: has_index_def)
    show "\<not> has_index i (g_body2 t ! j)" if "j < i" for j
      using that t'(2) l i ix [of j] by (simp add: has_index_def)
  qed
  then show "is_editing i t" using edit_tr_keeps(4) [OF t'(1)] by (simp add: is_editing_def row_trs_def)
qed

lemma type_page:
  assumes "edit_page E s i u t" and "i < length (g_rows s)"
  shows "edit_page E s i u (type_in i f v t)" and "g_store (type_in i f v t) = g_store t" and "g_updated (type_in i f v t) = g_updated t"
proof -
  let ?f = "\<lambda>t. t\<lparr>t_cells := map (type_cell f v) (t_cells t)\<rparr>"
  have "shows_but E s frozen i u (upd_first (has_index i) ?f ts)" if "shows_but E s frozen i u ts" for frozen ts
    by (rule shows_but_upd(1) [OF that]) (use that assms(2) in \<open>simp_all add: shows_but_def\<close>)
  with assms(1) show "edit_page E s i u (type_in i f v t)"
    by (simp add: edit_page_def type_in_def upd_row_def same_look_def)
  show "g_store (type_in i f v t) = g_store t" "g_updated (type_in i f v t) = g_updated t" by (simp_all add: type_in_def upd_row_def)
qed

lemma refresh_row_eq:
  "get_row s i = Some r \<Longrightarrow> refresh_row E i s =
     Some (s\<lparr>g_body1 := upd_first (has_index i) (refresh_tr E s True i (g_store s r) (g_store s r)) (g_body1 s),
             g_body2 := upd_first (has_index i) (refresh_tr E s False i (g_store s r) (g_store s r)) (g_body2 s)\<rparr>)"
proof -
  have "s\<lparr>g_store := (g_store s)(r := override_row (g_store s r) [])\<rparr> = s" by (simp add: override_row_def)
  then show "get_row s i = Some r \<Longrightarrow> ?thesis" by (simp add: refresh_row_def update_row_def Let_def) (simp add: override_row_def)
qed

text \<open>Closing the editors and redrawing the row, after its object became \<open>new\<close>.\<close>

lemma close_page:
  assumes "edit_page E s i u t" and "get_row s i = Some r" and "distinct (g_rows s)"
    and "same_look s v" and "g_rows v = g_rows s" and "g_body1 v = g_body1 t" and "g_body2 v = g_body2 t"
    and "g_store v = (g_store s)(r := new)" and "u = class_words (css_class (e_rowStyler E i new))"
  shows "\<exists>w. refresh_row E i (close_editors i v) = Some w \<and> drawn E w \<and> g_store w = g_store v \<and> g_rows w = g_rows s
     \<and> g_updated w = g_updated v \<and> g_inserted w = g_inserted v \<and> g_deleted w = g_deleted v \<and> g_total w = g_total v"
proof -
  have i: "i < length (g_rows s)" and r: "r = g_rows s ! i" using assms(2) by (auto simp: get_row_def split: if_splits)
  define c where "c = close_editors i v"
  have cf: "same_look s c" "g_rows c = g_rows s" "g_store c = (g_store s)(r := new)" "get_row c i = Some r"
    using assms(4,5,8) i r by (simp_all add: c_def close_editors_def upd_row_def same_look_def get_row_def)
  define w where "w = c\<lparr>g_body1 := upd_first (has_index i) (refresh_tr E c True i (g_store c r) (g_store c r)) (g_body1 c),
             g_body2 := upd_first (has_index i) (refresh_tr E c False i (g_store c r) (g_store c r)) (g_body2 c)\<rparr>"
  have eq: "refresh_row E i c = Some w" unfolding w_def by (rule refresh_row_eq [OF cf(4)])
  have cl: "t_index (close_tr x) = t_index x" "t_user (close_tr x) = t_user x" "t_alt (close_tr x) = t_alt x" for x
    by (simp_all add: close_tr_def)
  have sb: "shows_but E s frozen i u (upd_first (has_index i) close_tr ts)" if "shows_but E s frozen i u ts" for frozen ts
    by (rule shows_but_upd(1) [OF that]) (use that i in \<open>simp_all add: shows_but_def cl\<close>)
  have wf: "same_look s w" "g_rows w = g_rows s" "g_store w = g_store c" using cf(1,2) by (simp_all add: w_def same_look_def)
  have rf: "refresh_tr E c = refresh_tr E s" "refresh_tr E w = refresh_tr E s"
    using same_look_facts(6) [OF cf(1)] same_look_facts(6) [OF wf(1)] by simp_all
  have gr: "g_store w (g_rows s ! i) = g_store c r" by (simp add: r wf(3))
  have st: "\<forall>r'. r' \<noteq> g_rows s ! i \<longrightarrow> g_store w r' = g_store s r'" "u = class_words (css_class (e_rowStyler E i (g_store w (g_rows s ! i))))"
    using cf(3) assms(9) r wf(3) by simp_all
  have sh: "shows_rows E w frozen (upd_first (has_index i) (refresh_tr E c frozen i (g_store c r) (g_store c r)) (upd_first (has_index i) close_tr ts))"
    if "shows_but E s frozen i u ts" for frozen ts
    using shows_but_refresh [OF sb [OF that] i wf(1,2) assms(3) st] unfolding rf gr .
  have "g_body1 c = upd_first (has_index i) close_tr (g_body1 t)" "g_body2 c = upd_first (has_index i) close_tr (g_body2 t)"
    using assms(6,7) by (simp_all add: c_def close_editors_def upd_row_def)
  then have dw: "drawn E w" using sh assms(1) same_look_facts(3) [OF wf(1)] by (simp add: drawn_def edit_page_def w_def)
  with eq wf show ?thesis unfolding c_def [symmetric] by (intro exI [of _ w]) (simp add: w_def c_def close_editors_def upd_row_def)
qed

lemma find_upd_first: "(\<And>x. P (f x) = P x) \<Longrightarrow> List.find P (upd_first P f xs) = map_option f (List.find P xs)"
  by (induction xs) auto

lemma row_trs_upd:
  assumes "\<And>t. t_index (f t) = t_index t"
  shows "row_trs i (upd_row i f s) = map f (row_trs i s)"
  using assms by (auto simp: row_trs_def upd_row_def has_index_def find_upd_first split: option.split)

lemma type_in_editing [simp]: "is_editing i (type_in i f v t) = is_editing i t"
  unfolding is_editing_def type_in_def by (subst row_trs_upd) (simp_all add: list_ex_iff)

definition type_all :: "nat \<Rightarrow> (string \<times> jsval) list \<Rightarrow> grid \<Rightarrow> grid" where
  "type_all i fvs s = fold (\<lambda>(f, v). type_in i f v) fvs s"

lemma type_in_keeps [simp]:
  "g_rows (type_in i f v t) = g_rows t" "g_inserted (type_in i f v t) = g_inserted t" "g_deleted (type_in i f v t) = g_deleted t"
  "g_total (type_in i f v t) = g_total t"
  by (simp_all add: type_in_def upd_row_def)

lemma type_all_page:
  assumes "edit_page E s i u t" and "i < length (g_rows s)"
  shows "edit_page E s i u (type_all i fvs t) \<and> g_store (type_all i fvs t) = g_store t \<and> g_updated (type_all i fvs t) = g_updated t
     \<and> is_editing i (type_all i fvs t) = is_editing i t \<and> g_inserted (type_all i fvs t) = g_inserted t"
  using assms(1) unfolding type_all_def
proof (induction fvs arbitrary: t)
  case (Cons x fvs)
  obtain f v where x: "x = (f, v)" by (cases x)
  from Cons.IH [OF type_page(1) [OF Cons.prems assms(2), of f v]] type_page(2,3) [OF Cons.prems assms(2), of f v]
  show ?case by (simp add: x)
qed simp

lemma begin_keeps:
  assumes "begin_edit E i s = Some t"
  shows "g_inserted t = g_inserted s" "g_deleted t = g_deleted s" "g_total t = g_total s" "g_rows t = g_rows s" "g_store t = g_store s"
    "g_updated t = g_updated s"
  using assms by (auto simp: begin_edit_def dg_emit_def split: option.splits if_splits)

lemma end_edit_page:
  fixes fvs :: "(string \<times> jsval) list"
  assumes "drawn E s" and "distinct (g_rows s)" and "get_row s i = Some r" and "begin_edit E i s = Some t" and "t \<noteq> s"
  defines "v \<equiv> type_all i fvs t"
  defines "new \<equiv> fst (take_values E (g_store s r) (row_editors i v))" and "ch \<equiv> snd (take_values E (g_store s r) (row_editors i v))"
  assumes "validate_row E i v"
    and "class_words (css_class (e_rowStyler E i new)) = class_words (css_class (e_rowStyler E i (g_store s r)))"
  shows "\<exists>u. end_edit E i v = Some u \<and> drawn E u \<and> g_rows u = g_rows s \<and> g_store u = (g_store s)(r := new)
     \<and> g_updated u = (if ch = [] \<or> r \<in> set (g_inserted s) \<or> r \<in> set (g_updated s) then g_updated s else g_updated s @ [r])"
proof -
  have i: "i < length (g_rows s)" using assms(3) by (auto simp: get_row_def split: if_splits)
  note b = begin_page [OF assms(1,3,4,5)] and k = begin_keeps [OF assms(4)]
  from type_all_page [OF b(1) i, of fvs] b(2,3,4) k
  have v: "edit_page E s i (class_words (css_class (e_rowStyler E i (g_store s r)))) v" "g_store v = g_store s" "g_updated v = g_updated s"
    "is_editing i v" "g_inserted v = g_inserted s" by (simp_all add: v_def)
  let ?v1 = "v\<lparr>g_store := (g_store s)(r := new)\<rparr>"
  let ?v2 = "if ch \<noteq> [] \<and> r \<notin> set (g_inserted ?v1) \<and> r \<notin> set (g_updated ?v1) then ?v1\<lparr>g_updated := g_updated ?v1 @ [r]\<rparr> else ?v1"
  let ?v3 = "dg_emit (OnEndEdit i r ch) ?v2"
  have gv: "same_look s v" "g_rows v = g_rows s" using v(1) by (simp_all add: edit_page_def)
  have v3: "same_look s ?v3" "g_rows ?v3 = g_rows s" "g_body1 ?v3 = g_body1 v" "g_body2 ?v3 = g_body2 v" "g_store ?v3 = (g_store s)(r := new)"
    using gv by (simp_all add: same_look_def dg_emit_def)
  from close_page [OF v(1) assms(3,2) v3 assms(10) [symmetric]] obtain w where
    w: "refresh_row E i (close_editors i ?v3) = Some w" "drawn E w" "g_store w = g_store ?v3" "g_rows w = g_rows s" "g_updated w = g_updated ?v3"
    by blast
  have row: "get_row v i = Some r" using assms(3) gv(2) by (simp add: get_row_def split: if_splits)
  have "end_edit E i v = Some (dg_emit (OnAfterEdit i r ch) w)"
  proof -
    have tv: "take_values E (g_store s r) (row_editors i v) = (new, ch)" by (simp add: new_def ch_def)
    have c: "(\<not> is_editing i v \<or> \<not> validate_row E i v) = False" using v(4) assms(9) by simp
    have "end_edit E i v = map_option (dg_emit (OnAfterEdit i r ch)) (refresh_row E i (close_editors i ?v3))"
      unfolding end_edit_def row option.case Let_def c if_False v(2) tv prod.case by (rule refl)
    then show ?thesis unfolding w(1) by simp
  qed
  moreover have "drawn E (dg_emit (OnAfterEdit i r ch) w)"
    using w(2) only_marks_drawn [of w "dg_emit (OnAfterEdit i r ch) w" E] by simp
  ultimately show ?thesis using w v(3,5) v3(5) by (auto simp: dg_emit_def)
qed

text \<open>
  Editing a row: after the editors of a row of a drawn page were opened, typed into and found
  valid, ending the edit writes the value of every editor into the row object where it differs (in
  the sense of \<open>==\<close>), leaves the other fields and rows, records the row as updated exactly when some
  value differed and it is not a new row, and the page shows the rows again.  This holds when the row
  styler gives the row the same classes before and after; otherwise the old classes stay.
\<close>

theorem dg_edit_row:
  assumes "drawn E s" and "distinct (g_rows s)" and "get_row s i = Some r" and "begin_edit E i s = Some t" and "t \<noteq> s"
    and "validate_row E i (type_all i fvs t)" and "distinct (map fst (row_editors i (type_all i fvs t)))"
  defines "es \<equiv> row_editors i (type_all i fvs t)" and "old \<equiv> g_store s r"
  defines "new \<equiv> (\<lambda>f. case map_of es f of None \<Rightarrow> old f | Some e \<Rightarrow> if loose_eq (old f) (editor_value E e) then old f else editor_value E e)"
  assumes "class_words (css_class (e_rowStyler E i new)) = class_words (css_class (e_rowStyler E i old))"
  shows "\<exists>u. end_edit E i (type_all i fvs t) = Some u \<and> drawn E u \<and> g_rows u = g_rows s \<and> g_store u = (g_store s)(r := new)
     \<and> g_updated u = (if (\<forall>(f, e)\<in>set es. loose_eq (old f) (editor_value E e)) \<or> r \<in> set (g_inserted s) \<or> r \<in> set (g_updated s)
         then g_updated s else g_updated s @ [r])"
proof -
  note tv = take_values_eq [OF assms(7), of E "g_store s r"]
  have n: "fst (take_values E (g_store s r) (row_editors i (type_all i fvs t))) = new"
    unfolding tv new_def es_def old_def by (rule fst_conv)
  have c: "snd (take_values E (g_store s r) (row_editors i (type_all i fvs t))) = [] \<longleftrightarrow> (\<forall>(f, e)\<in>set es. loose_eq (old f) (editor_value E e))"
    unfolding tv by (auto simp: es_def old_def filter_empty_conv)
  show ?thesis
    using end_edit_page [OF assms(1-5), of fvs, OF assms(6)] assms(11) by (simp add: n c old_def)
qed

text \<open>
  Cancelling an edit: whatever was typed, the row objects and the changes are those of before and
  the page shows the rows again.
\<close>

theorem dg_cancel_edit:
  assumes "drawn E s" and "distinct (g_rows s)" and "get_row s i = Some r" and "begin_edit E i s = Some t" and "t \<noteq> s"
  shows "\<exists>u. cancel_edit E i (type_all i fvs t) = Some u \<and> drawn E u \<and> g_rows u = g_rows s \<and> g_store u = g_store s
     \<and> g_updated u = g_updated s"
proof -
  let ?v = "type_all i fvs t"
  have i: "i < length (g_rows s)" using assms(3) by (auto simp: get_row_def split: if_splits)
  note b = begin_page [OF assms(1,3,4,5)]
  from type_all_page [OF b(1) i, of fvs] b(2,3,4)
  have v: "edit_page E s i (class_words (css_class (e_rowStyler E i (g_store s r)))) ?v" "g_store ?v = (g_store s)(r := g_store s r)"
    "g_updated ?v = g_updated s" "is_editing i ?v" by simp_all
  have gv: "same_look s ?v" "g_rows ?v = g_rows s" using v(1) by (simp_all add: edit_page_def)
  from close_page [OF v(1) assms(3,2) gv refl refl v(2) refl] obtain w where
    w: "refresh_row E i (close_editors i ?v) = Some w" "drawn E w" "g_store w = g_store ?v" "g_rows w = g_rows s" "g_updated w = g_updated ?v"
    by blast
  have "get_row ?v i = Some r" using assms(3) gv(2) by (simp add: get_row_def split: if_splits)
  then have "cancel_edit E i ?v = Some (dg_emit (OnCancelEdit i r) w)" using v(4) w(1) by (simp add: cancel_edit_def)
  moreover have "drawn E (dg_emit (OnCancelEdit i r) w)"
    using w(2) only_marks_drawn [of w "dg_emit (OnCancelEdit i r) w" E] by simp
  ultimately show ?thesis using w v(2,3) by (auto simp: dg_emit_def)
qed

section \<open>Editors give back what they were given\<close>

text \<open>Numbers, texts without line breaks, and the two values of a box.\<close>

definition gives_back :: "editor_spec \<Rightarrow> jsval \<Rightarrow> bool" where
  "gives_back x v =
     (if spec_type x \<in> set text_editors
      then (case v of VNum _ \<Rightarrow> True | VStr t \<Rightarrow> CHR 0x0A \<notin> set t \<and> CHR 0x0D \<notin> set t | _ \<Rightarrow> False)
      else case x of EditorWith t on off \<Rightarrow> t = ''checkbox'' \<and> (v = VStr on \<or> v = VStr off) | _ \<Rightarrow> False)"

lemma feeds_plain: "CHR 0x0A \<notin> set t \<Longrightarrow> CHR 0x0D \<notin> set t \<Longrightarrow> feeds b t = t"
  by (induction t arbitrary: b) auto

lemma filter_plain: "CHR 0x0A \<notin> set t \<Longrightarrow> CHR 0x0D \<notin> set t \<Longrightarrow> filter (\<lambda>c. c \<noteq> CHR 0x0A \<and> c \<noteq> CHR 0x0D) t = t"
  by (induction t) auto

lemma show_int_plain: "CHR 0x0A \<notin> set (show_int n)" "CHR 0x0D \<notin> set (show_int n)"
  using show_int_chars [of "CHR 0x0A" n] show_int_chars [of "CHR 0x0D" n] by (auto simp: is_digit_def digit_chars_def)

lemma digits_decimal: "s \<noteq> [] \<Longrightarrow> \<forall>c\<in>set s. is_digit c \<Longrightarrow> decimal_val s = Some (int (read_digits 0 s), 0)"
  by (simp add: decimal_val_def digits_then_def exponent_val_def Let_def takeWhile_eq_all_conv [THEN iffD2] dropWhile_eq_Nil_conv [THEN iffD2])

lemma js_trim_same: "s \<noteq> [] \<Longrightarrow> \<not> js_space (hd s) \<Longrightarrow> \<not> js_space (last s) \<Longrightarrow> js_trim s = s"
proof -
  assume a: "s \<noteq> []" "\<not> js_space (hd s)" "\<not> js_space (last s)"
  then obtain c cs where s: "s = c # cs" by (cases s) auto
  have d: "dropWhile js_space s = s" using a s by simp
  have "rev s \<noteq> []" "\<not> js_space (hd (rev s))" using a by (simp_all add: hd_rev)
  then have "dropWhile js_space (rev s) = rev s" by (cases "rev s") auto
  with d show ?thesis by (simp add: js_trim_def)
qed

lemma literal_show_int: "literal_val (show_int n) = Some (n, 0)"
proof -
  let ?d = "show_nat (nat \<bar>n\<bar>)"
  have dg: "\<forall>c\<in>set ?d. is_digit c" by (rule show_nat_digits)
  have dv: "decimal_val ?d = Some (\<bar>n\<bar>, 0)" using digits_decimal [OF show_nat_not_Nil dg] by (simp add: read_show_nat)
  have ld: "is_digit (last ?d)" "is_digit (hd ?d)" using dg show_nat_not_Nil [of "nat \<bar>n\<bar>"] by simp_all
  show ?thesis
  proof (cases "n < 0")
    case True
    then have s: "show_int n = CHR ''-'' # ?d" by (simp add: show_int_def)
    have "js_trim (show_int n) = show_int n"
      unfolding s by (rule js_trim_same) (use not_digit_special [OF ld(1)] in \<open>simp_all add: js_space_def\<close>)
    moreover have "\<not> hex_prefix (show_int n)" by (simp add: s hex_prefix_def)
    ultimately show ?thesis using dv True by (simp add: literal_val_def s)
  next
    case False
    then have s: "show_int n = ?d" by (simp add: show_int_def)
    obtain c cs where c: "?d = c # cs" by (cases ?d) auto
    have "js_trim ?d = ?d" by (rule js_trim_same) (use not_digit_special [OF ld(1)] not_digit_special [OF ld(2)] in simp_all)
    moreover have "\<not> hex_prefix (?d @ [])" by (rule not_hex_prefix [OF show_nat_not_Nil dg]) simp
    moreover have "c \<noteq> CHR ''-''" "c \<noteq> CHR ''+''" using not_digit_special [OF ld(2)] c by simp_all
    moreover have "show_nat (nat n) = c # cs" using c False by simp
    ultimately show ?thesis using dv False by (simp add: literal_val_def s)
  qed
qed

lemma loose_eq_shown: "loose_eq (VNum n) (VStr (show_int n))"
  by (simp add: loose_eq_def nullish_def num_rel_def to_number_def literal_show_int scale_def)

lemma gives_back_value:
  assumes "gives_back x v"
  shows "loose_eq v (get_value E x (set_value E x v))"
proof (cases "spec_type x \<in> set text_editors")
  case True
  then show ?thesis
    using assms by (auto simp: gives_back_def get_value_def set_value_def field_input_def Let_def join_text_def nullish_def
        js_string_def feeds_plain filter_plain show_int_plain loose_eq_shown split: jsval.splits)
next
  case False
  then show ?thesis
    using assms by (cases x) (auto simp: gives_back_def get_value_def set_value_def loose_eq_def nullish_def text_editors_def)
qed

lemma foldM_map:
  assumes "foldM (\<lambda>ds d. map_option (\<lambda>d'. ds @ [d']) (f d)) acc xs = Some ys"
  shows "\<forall>y\<in>set ys. y \<in> set acc \<or> (\<exists>x\<in>set xs. f x = Some y)"
  using assms
proof (induction xs arbitrary: acc)
  case (Cons x xs)
  then show ?case by (cases "f x") fastforce+
qed simp

lemma drawn_no_editors:
  assumes "shows_rows E s frozen ts" and "i < length (g_rows s)" and "d \<in> set (t_cells (ts ! i))"
  shows "d_editor d = None"
proof -
  have "map (\<lambda>d. d\<lparr>d_checked := False\<rparr>) (t_cells (ts ! i)) =
      map (\<lambda>d. d\<lparr>d_checked := False\<rparr>) (render_cells E s frozen i (g_store s (g_rows s ! i)))"
    using arg_cong [OF shows_index(4) [OF assms(1,2)], of t_cells] by (simp add: strip_def render_tr_def Let_def)
  then have "map d_editor (t_cells (ts ! i)) = map d_editor (render_cells E s frozen i (g_store s (g_rows s ! i)))"
    by (drule_tac arg_cong [where f = "map d_editor"]) (simp add: comp_def)
  moreover have "\<forall>x\<in>set (map d_editor (render_cells E s frozen i r)). x = None" for r
    by (auto simp: render_cells_def map_filter_def render_cell_def Let_def)
  ultimately show ?thesis using assms(3) by (metis image_eqI image_set)
qed

lemma row_trs_in: "t \<in> set (row_trs i s) \<Longrightarrow> has_index i t \<and> (t \<in> set (g_body1 s) \<or> t \<in> set (g_body2 s))"
  by (cases "List.find (has_index i) (g_body1 s)"; cases "List.find (has_index i) (g_body2 s)")
    (auto simp: row_trs_def find_Some_iff)

text \<open>The editors just opened hold the values of the row, as each of them shows it.\<close>

lemma begin_editors:
  assumes "drawn E s" and "get_row s i = Some r" and "begin_edit E i s = Some t" and "t \<noteq> s" and "g_body1 s = [] \<or> has_view1 s"
    and "(f, e) \<in> set (row_editors i t)"
  shows "\<exists>c. get_column s (Some f) = Some c \<and> col_editor c = Some (ed_spec e) \<and> ed_value e = set_value E (ed_spec e) (g_store s r f)"
proof -
  have i: "i < length (g_rows s)" using assms(2) by (auto simp: get_row_def split: if_splits)
  note b = begin_page [OF assms(1-4)]
  have d: "shows_rows E s False (g_body2 s)" "has_view1 s \<Longrightarrow> shows_rows E s True (g_body1 s)" using assms(1) i by (auto simp: drawn_def)
  obtain t2 where t2: "edit_tr E s (g_store s r) (g_body2 s ! i) = Some t2" "g_body2 t = (g_body2 s)[i := t2]" using b(5) by blast
  have only: "x = t'" if a: "x \<in> set (ts[i := t'])" "has_index i x" "\<forall>j<length ts. t_index (ts ! j) = j" for x t' ts
  proof -
    obtain j where "j < length (ts[i := t'])" "(ts[i := t']) ! j = x" using a(1) by (meson in_set_conv_nth)
    then have j: "j < length ts" "x = (if j = i then t' else ts ! j)" by (auto simp: nth_list_update)
    with a(2,3) show ?thesis by (auto simp: has_index_def split: if_splits)
  qed
  have ix: "\<forall>j<length ts. t_index (ts ! j) = j" if "shows_rows E s frozen ts" for frozen ts
    using shows_shows_but [OF that i] by (simp add: shows_but_def)
  obtain x where x: "x \<in> set (row_trs i t)" "\<exists>d\<in>set (t_cells x). field_text (d_field d) = f \<and> d_editor d = Some e"
    using assms(6) by (auto simp: row_editors_def map_filter_def split: option.splits) blast
  from x(1) have hx: "has_index i x" "x \<in> set (g_body1 t) \<or> x \<in> set (g_body2 t)" using row_trs_in by auto
  have "\<exists>frozen ts. shows_rows E s frozen ts \<and> edit_tr E s (g_store s r) (ts ! i) = Some x"
  proof (cases "x \<in> set (g_body2 t)")
    case True
    then have "x = t2" using only [OF _ hx(1) ix [OF d(1)]] t2(2) by simp
    with d(1) t2(1) show ?thesis by blast
  next
    case False
    then have x1: "x \<in> set (g_body1 t)" using hx(2) by simp
    have "has_view1 s"
    proof (rule ccontr)
      assume "\<not> has_view1 s"
      then have "g_body1 s = []" using assms(5) by simp
      then have "g_body1 t = []" using assms(2,3) by (auto simp: begin_edit_def split: if_splits option.splits)
      with x1 show False by simp
    qed
    with b(6) obtain t1 where t1: "edit_tr E s (g_store s r) (g_body1 s ! i) = Some t1" "g_body1 t = (g_body1 s)[i := t1]" by blast
    then have "x = t1" using only [OF _ hx(1) ix [OF d(2) [OF \<open>has_view1 s\<close>]]] x1 by simp
    with d(2) \<open>has_view1 s\<close> t1(1) show ?thesis by blast
  qed
  then obtain frozen ts where ts: "shows_rows E s frozen ts" "edit_tr E s (g_store s r) (ts ! i) = Some x" by blast
  obtain d' where d': "d' \<in> set (t_cells x)" "field_text (d_field d') = f" "d_editor d' = Some e" using x(2) by blast
  from ts(2) obtain ds where "foldM (\<lambda>ds d. map_option (\<lambda>d'. ds @ [d']) (edit_cell E s (g_store s r) d)) [] (t_cells (ts ! i)) = Some ds"
    "t_cells x = ds" by (auto simp: edit_tr_def)
  with foldM_map d'(1) obtain d0 where d0: "d0 \<in> set (t_cells (ts ! i))" "edit_cell E s (g_store s r) d0 = Some d'" by fastforce
  have "d_editor d0 = None" by (rule drawn_no_editors [OF ts(1) i d0(1)])
  with d0(2) d'(2,3) show ?thesis by (auto simp: edit_cell_def split: option.splits if_splits)
qed

text \<open>
  Looking is not editing: opening the editors of a row and ending the edit at once leaves the row
  objects and the changes as they are, and the page shows the rows again, when the values under the
  editors are numbers or texts in text editors, or one of the two values of a box.
\<close>

theorem dg_untouched_edit:
  assumes "drawn E s" and "distinct (g_rows s)" and "get_row s i = Some r" and "begin_edit E i s = Some t" and "t \<noteq> s"
    and "validate_row E i t" and "g_body1 s = [] \<or> has_view1 s"
    and "\<forall>f c x. get_column s (Some f) = Some c \<longrightarrow> col_editor c = Some x \<longrightarrow> gives_back x (g_store s r f)"
  shows "\<exists>u. end_edit E i t = Some u \<and> drawn E u \<and> g_rows u = g_rows s \<and> g_store u = g_store s \<and> g_updated u = g_updated s"
proof -
  have t: "type_all i [] t = t" by (simp add: type_all_def)
  have "\<forall>(f, e)\<in>set (row_editors i t). loose_eq (g_store s r f) (editor_value E e)"
  proof clarify
    fix f e
    assume "(f, e) \<in> set (row_editors i t)"
    from begin_editors [OF assms(1,3,4,5,7) this] obtain c where "get_column s (Some f) = Some c" "col_editor c = Some (ed_spec e)"
      "ed_value e = set_value E (ed_spec e) (g_store s r f)" by blast
    with assms(8) gives_back_value [of "ed_spec e" "g_store s r f" E] show "loose_eq (g_store s r f) (editor_value E e)"
      by (auto simp: editor_value_def)
  qed
  then have "take_values E (g_store s r) (row_editors i t) = (g_store s r, [])" by (rule take_values_same)
  with end_edit_page [OF assms(1-5), of "[]", unfolded t, OF assms(6)] show ?thesis by auto
qed

text \<open>An empty value is not given back: a field that is \<open>null\<close> or missing counts as changed, to the empty text.\<close>

lemma null_not_given_back: "nullish v \<Longrightarrow> spec_type x = ''text'' \<Longrightarrow> get_value E x (set_value E x v) = VStr [] \<and> \<not> loose_eq v (VStr [])"
  by (auto simp: get_value_def set_value_def text_editors_def field_input_def join_text_def nullish_def loose_eq_def)

section \<open>Witnesses\<close>

text \<open>A page with a text editor on the column of names.\<close>

definition edit_sample :: grid where
  "edit_sample = draw_page default_env (sample_grid\<lparr>o_columns := [[plain_column ''id'', (plain_column ''name'')\<lparr>col_editor := Some (EditorType ''text'')\<rparr>]],
     g_store := (\<lambda>r f. if f = ''id'' then VNum (10 * int r) else if f = ''name'' then VStr ''ann'' else VUndef)\<rparr>)"

lemma edit_sample_facts:
  "drawn default_env edit_sample" "g_rows edit_sample = [0, 1, 2]" "g_body1 edit_sample = []" "g_next edit_sample = 6"
  "g_store edit_sample r f = (if f = ''id'' then VNum (10 * int r) else if f = ''name'' then VStr ''ann'' else VUndef)"
  "get_column edit_sample (Some f) = (if f = ''id'' then Some (plain_column ''id'')
     else if f = ''name'' then Some ((plain_column ''name'')\<lparr>col_editor := Some (EditorType ''text'')\<rparr>) else None)"
  "g_updated edit_sample = []" "g_inserted edit_sample = []"
  by (simp_all add: edit_sample_def draw_page_drawn)
    (simp_all add: draw_page_def Let_def sample_grid_def datagrid_defaults_def after_render_def render_table_def has_view1_def
      get_column_def find_column_def plain_column_def)

lemma edit_sample_run:
  "map_option (\<lambda>t. (is_editing 2 t, validate_row default_env 2 t, validate_row default_env 2 (type_all 2 [(''name'', VStr ''bob'')] t),
     map (\<lambda>(f, e). (f, editor_value default_env e)) (row_editors 2 (type_all 2 [(''name'', VStr ''bob'')] t)))) (begin_edit default_env 2 edit_sample)
   = Some (True, True, True, [(''name'', VStr ''bob'')])"
  "is_editing 2 edit_sample = False"
  by code_simp+

lemma edit_sample_begin:
  obtains t e where "begin_edit default_env 2 edit_sample = Some t" "t \<noteq> edit_sample" "validate_row default_env 2 t"
    "validate_row default_env 2 (type_all 2 [(''name'', VStr ''bob'')] t)"
    "row_editors 2 (type_all 2 [(''name'', VStr ''bob'')] t) = [(''name'', e)]" "editor_value default_env e = VStr ''bob''"
  using edit_sample_run by (auto simp: map_eq_Cons_conv)

theorem dg_edit_row_witness:
  "\<exists>t u. begin_edit default_env 2 edit_sample = Some t \<and> end_edit default_env 2 (type_all 2 [(''name'', VStr ''bob'')] t) = Some u
     \<and> drawn default_env u \<and> g_store u 2 ''name'' = VStr ''bob'' \<and> g_updated u = [2]"
proof -
  obtain t e where t: "begin_edit default_env 2 edit_sample = Some t" "t \<noteq> edit_sample" "validate_row default_env 2 t"
    "validate_row default_env 2 (type_all 2 [(''name'', VStr ''bob'')] t)"
    "row_editors 2 (type_all 2 [(''name'', VStr ''bob'')] t) = [(''name'', e)]" "editor_value default_env e = VStr ''bob''"
    by (rule edit_sample_begin)
  have "distinct (g_rows edit_sample)" "get_row edit_sample 2 = Some 2" by (simp_all add: edit_sample_facts get_row_def)
  moreover have "distinct (map fst (row_editors 2 (type_all 2 [(''name'', VStr ''bob'')] t)))" by (simp add: t(5))
  moreover have "\<not> loose_eq (VStr ''ann'') (VStr ''bob'')" by (simp add: loose_eq_def nullish_def)
  ultimately show ?thesis
    using dg_edit_row [OF edit_sample_facts(1) _ _ t(1,2,4)] t(1,5,6) by (auto simp: edit_sample_facts default_env_def)
qed

theorem dg_cancel_edit_witness:
  "\<exists>t u. begin_edit default_env 2 edit_sample = Some t \<and> cancel_edit default_env 2 (type_all 2 [(''name'', VStr ''bob'')] t) = Some u
     \<and> drawn default_env u \<and> g_store u 2 ''name'' = VStr ''ann'' \<and> g_updated u = []"
proof -
  obtain t where t: "begin_edit default_env 2 edit_sample = Some t" "t \<noteq> edit_sample" by (rule edit_sample_begin)
  have "distinct (g_rows edit_sample)" "get_row edit_sample 2 = Some 2" by (simp_all add: edit_sample_facts get_row_def)
  from dg_cancel_edit [OF edit_sample_facts(1) this t, of "[(''name'', VStr ''bob'')]"] t(1) show ?thesis by (auto simp: edit_sample_facts)
qed

theorem dg_untouched_edit_witness:
  "\<exists>t u. begin_edit default_env 2 edit_sample = Some t \<and> end_edit default_env 2 t = Some u \<and> drawn default_env u \<and> g_updated u = []"
proof -
  obtain t where t: "begin_edit default_env 2 edit_sample = Some t" "t \<noteq> edit_sample" "validate_row default_env 2 t" by (rule edit_sample_begin)
  have "distinct (g_rows edit_sample)" "get_row edit_sample 2 = Some 2" by (simp_all add: edit_sample_facts get_row_def)
  moreover have "\<forall>f c x. get_column edit_sample (Some f) = Some c \<longrightarrow> col_editor c = Some x \<longrightarrow> gives_back x (g_store edit_sample 2 f)"
    by (simp add: edit_sample_facts gives_back_def text_editors_def spec_type_def plain_column_def)
  ultimately show ?thesis
    using dg_untouched_edit [OF edit_sample_facts(1) _ _ t] t(1) by (auto simp: edit_sample_facts)
qed

end
