(* ===== verification/Dg_Changes.thy ===== *)
theory Dg_Changes
  imports Dg_Edit
begin

text \<open>
  The record of changes, \<open>js/plugins/jquery.datagrid.js\<close>: what \<open>getChanges\<close> says after any sequence of
  edits, insertions and deletions is the difference to the page that was loaded, and \<open>rejectChanges\<close>
  brings that page back.
\<close>

section \<open>Sequences of edits\<close>

text \<open>What a user and a program do to the rows between two loads; an inserted row is a new object.\<close>

datatype edit_op = BeginEdit nat | TypeIn nat string jsval | EndEdit nat | CancelEdit nat | DeleteRow nat | InsertRow "nat option" row

fun edit_run :: "grid_env \<Rightarrow> grid \<Rightarrow> edit_op \<Rightarrow> grid option" where
  "edit_run E s (BeginEdit i) = begin_edit E i s"
| "edit_run E s (TypeIn i f v) = Some (type_in i f v s)"
| "edit_run E s (EndEdit i) = end_edit E i s"
| "edit_run E s (CancelEdit i) = cancel_edit E i s"
| "edit_run E s (DeleteRow i) = delete_row E i s"
| "edit_run E s (InsertRow ix r) = (let (j, s) = alloc_row r s in insert_row_at E ix j s)"

definition edits :: "grid_env \<Rightarrow> edit_op list \<Rightarrow> grid \<Rightarrow> grid option" where
  "edits E ops s = foldM (edit_run E) s ops"

text \<open>
  The rows that edits found other values for, told from the steps alone: an edit that ends, is accepted by its
  editors, and has an editor whose value is not \<open>==\<close> to the one of the row.
\<close>

fun touches :: "grid_env \<Rightarrow> edit_op \<Rightarrow> grid \<Rightarrow> rid list" where
  "touches E (EndEdit i) s =
     (if is_editing i s \<and> validate_row E i s \<and> list_ex (\<lambda>(f, e). \<not> loose_eq (g_store s (g_rows s ! i) f) (editor_value E e)) (row_editors i s)
      then [g_rows s ! i] else [])"
| "touches E op s = []"

primrec touched :: "grid_env \<Rightarrow> edit_op list \<Rightarrow> grid \<Rightarrow> rid list" where
  "touched E [] s = []"
| "touched E (p # ps) s = touches E p s @ (case edit_run E s p of None \<Rightarrow> [] | Some t \<Rightarrow> touched E ps t)"

section \<open>What each step does to the data\<close>

text \<open>Two grids that differ in their elements, marks and log only.\<close>

definition same_data :: "grid \<Rightarrow> grid \<Rightarrow> bool" where
  "same_data s t \<longleftrightarrow> g_rows t = g_rows s \<and> g_store t = g_store s \<and> g_next t = g_next s \<and> g_total t = g_total s
     \<and> g_original t = g_original s \<and> g_inserted t = g_inserted s \<and> g_updated t = g_updated s \<and> g_deleted t = g_deleted s
     \<and> o_remoteSort t = o_remoteSort s \<and> o_idField t = o_idField s \<and> g_selected t = g_selected s \<and> g_checked t = g_checked s"

lemma same_data_refl [simp]: "same_data s s"
  by (simp add: same_data_def)

lemma same_data_trans [trans]: "same_data s t \<Longrightarrow> same_data t u \<Longrightarrow> same_data s u"
  by (simp add: same_data_def)

lemma same_data_emit [simp]: "same_data s (dg_emit e t) = same_data s t"
  by (simp add: same_data_def) (simp add: dg_emit_def)

lemma refresh_data: "refresh_row E i s = Some t \<Longrightarrow> same_data s t"
proof -
  assume a: "refresh_row E i s = Some t"
  then obtain r where "get_row s i = Some r" by (auto simp: refresh_row_def update_row_def split: option.splits)
  with a show "same_data s t" by (auto simp: refresh_row_eq same_data_def)
qed

lemma close_data [simp]: "same_data s (close_editors i s)"
  by (simp add: close_editors_def upd_row_def same_data_def)

lemma begin_data: "begin_edit E i s = Some t \<Longrightarrow> same_data s t"
  by (auto simp: begin_edit_def split: option.splits if_splits) (simp_all add: same_data_def)

lemma type_data: "same_data s (type_in i f v s)"
  by (simp add: type_in_def upd_row_def same_data_def)

lemma cancel_data: "cancel_edit E i s = Some t \<Longrightarrow> same_data s t"
  by (auto simp: cancel_edit_def split: option.splits if_splits dest!: refresh_data intro: same_data_trans [OF close_data])

lemma cancel_returns: "i < length (g_rows s) \<Longrightarrow> \<exists>t. cancel_edit E i s = Some t"
  by (simp add: cancel_edit_def refresh_row_eq get_row_def close_editors_def upd_row_def)

lemma take_values_none: "snd (take_values E r es) = [] \<Longrightarrow> fst (take_values E r es) = r"
proof -
  have "length ch \<le> length (snd (fold (\<lambda>x p. put_field E p x) es (r, ch)))
     \<and> (length (snd (fold (\<lambda>x p. put_field E p x) es (r, ch))) = length ch \<longrightarrow> fst (fold (\<lambda>x p. put_field E p x) es (r, ch)) = r)" for r :: row and ch :: "(string \<times> jsval) list"
  proof (induction es arbitrary: r ch)
    case (Cons x es)
    obtain f e where x: "x = (f, e)" by (cases x)
    show ?case
      using Cons.IH [where r = r and ch = ch] Cons.IH [where r = "r(f := editor_value E e)" and ch = "ch @ [(f, editor_value E e)]"]
      by (auto simp: x put_field_pair simp del: fun_upd_apply)
  qed simp
  from this [where r = r and ch = "[]"] show "snd (take_values E r es) = [] \<Longrightarrow> ?thesis" by (simp add: take_values_def)
qed

lemma take_values_changed: "snd (take_values E r es) \<noteq> [] \<longleftrightarrow> list_ex (\<lambda>(f, e). \<not> loose_eq (r f) (editor_value E e)) es"
proof -
  have keep: "ch \<noteq> [] \<Longrightarrow> snd (fold (\<lambda>x p. put_field E p x) es (r, ch)) \<noteq> []" for r :: row and ch :: "(string \<times> jsval) list" and es
    by (induction es arbitrary: r ch) (auto simp: put_field_pair split_beta simp del: fun_upd_apply split: if_splits)
  show ?thesis unfolding take_values_def
  proof (induction es)
    case (Cons x es)
    obtain f e where "x = (f, e)" by (cases x)
    then show ?case using Cons keep by (cases "loose_eq (r f) (editor_value E e)") (simp_all add: put_field_pair del: fun_upd_apply)
  qed simp
qed

text \<open>Ending an edit changes one row object at most, and says so.\<close>

lemma end_data:
  assumes "end_edit E i s = Some t"
  shows "\<exists>r new us. r \<in> set (g_rows s) \<and> same_data (s\<lparr>g_store := (g_store s)(r := new), g_updated := g_updated s @ us\<rparr>) t
     \<and> set us \<subseteq> {r} - set (g_inserted s) \<and> set us = set (touches E (EndEdit i) s) - set (g_inserted s) - set (g_updated s) \<and> distinct us \<and> (new = g_store s r \<or> r \<in> set (g_inserted s) \<or> r \<in> set (g_updated s @ us))"
proof -
  obtain r where r: "get_row s i = Some r" using assms by (cases "get_row s i") (simp_all add: end_edit_def)
  then have rr: "r \<in> set (g_rows s)" "g_rows s ! i = r" by (auto simp: get_row_def split: if_splits)
  show ?thesis
  proof (cases "\<not> is_editing i s \<or> \<not> validate_row E i s")
    case True
    with assms r have "t = s" "touches E (EndEdit i) s = []" by (auto simp: end_edit_def)
    then show ?thesis using rr by (intro exI [of _ r] exI [of _ "g_store s r"] exI [of _ "[]"]) (simp add: same_data_def)
  next
    case False
    obtain new ch where tv: "take_values E (g_store s r) (row_editors i s) = (new, ch)"
      by (cases "take_values E (g_store s r) (row_editors i s)")
    define us where "us = (if ch \<noteq> [] \<and> r \<notin> set (g_inserted s) \<and> r \<notin> set (g_updated s) then [r] else [])"
    let ?v = "dg_emit (OnEndEdit i r ch) (s\<lparr>g_store := (g_store s)(r := new), g_updated := g_updated s @ us\<rparr>)"
    have "end_edit E i s = map_option (dg_emit (OnAfterEdit i r ch)) (refresh_row E i (close_editors i ?v))"
      using False r by (simp add: end_edit_def tv us_def)
    with assms obtain w where w: "refresh_row E i (close_editors i ?v) = Some w" "t = dg_emit (OnAfterEdit i r ch) w" by auto
    have "same_data ?v t" using same_data_trans [OF close_data refresh_data [OF w(1)]] w(2) by simp
    then have "same_data (s\<lparr>g_store := (g_store s)(r := new), g_updated := g_updated s @ us\<rparr>) t"
      by (rule same_data_trans [rotated]) simp
    moreover have "set us = set (touches E (EndEdit i) s) - set (g_inserted s) - set (g_updated s)"
      using False take_values_changed [of E "g_store s r" "row_editors i s"] tv rr(2) by (auto simp: us_def)
    moreover have "new = g_store s r" if "ch = []" using take_values_none [of E "g_store s r" "row_editors i s"] tv that by simp
    ultimately show ?thesis using rr by (intro exI [of _ r] exI [of _ new] exI [of _ us]) (auto simp: us_def)
  qed
qed

lemma arr_remove_eq: "arr_remove x a = remove1 x a"
proof -
  have "(case in_array x ks of None \<Rightarrow> ks | Some i \<Rightarrow> splice_del i ks) = remove1 x ks" for ks :: "'b list" and x
    by (induction ks) (auto simp: in_array_def split: option.splits)
  then show ?thesis by (simp add: arr_remove_def)
qed

lemma delete_data:
  assumes "delete_row E i s = Some t"
  shows "\<exists>sel chk. i < length (g_rows s) \<and> same_data (s\<lparr>g_selected := sel, g_checked := chk, g_rows := splice_del i (g_rows s), g_total := jplus (g_total s) (Fin (-1)),
     g_inserted := remove1 (g_rows s ! i) (g_inserted s),
     g_deleted := g_deleted s @ (if g_rows s ! i \<in> set (g_inserted s) then [] else [g_rows s ! i])\<rparr>) t"
proof -
  obtain u where u: "cancel_edit E i s = Some u" using assms by (auto simp: delete_row_def split: option.splits)
  note d = cancel_data [OF u, unfolded same_data_def]
  have i: "i < length (g_rows s)" using u by (auto simp: cancel_edit_def get_row_def split: option.splits if_splits)
  let ?r = "g_rows s ! i"
  have r: "get_row u i = Some ?r" using i d by (simp add: get_row_def)
  define v where "v = (if ?r \<in> set (g_inserted u) then u\<lparr>g_inserted := arr_remove ?r (g_inserted u)\<rparr> else u\<lparr>g_deleted := g_deleted u @ [?r]\<rparr>)"
  define sel chk where "sel = drop_row v ?r (g_selected v)" and "chk = drop_row v ?r (g_checked v)"
  have t: "t = tell_total (delete_row_view i (v\<lparr>g_selected := sel, g_checked := chk\<rparr>))"
    using assms unfolding delete_row_def u option.case r Let_def v_def [symmetric] sel_def chk_def by simp
  have v: "g_inserted v = remove1 ?r (g_inserted s)" "g_deleted v = g_deleted s @ (if ?r \<in> set (g_inserted s) then [] else [?r])"
    "g_rows v = g_rows s" "g_total v = g_total s" "g_store v = g_store s" "g_next v = g_next s" "g_original v = g_original s"
    "g_updated v = g_updated s" "o_remoteSort v = o_remoteSort s" "o_idField v = o_idField s"
    using d by (simp_all add: v_def arr_remove_eq remove1_idem)
  show ?thesis
    using i by (intro exI [of _ sel] exI [of _ chk]) (simp add: t same_data_def tell_total_def upd_pagers_def delete_row_view_def v)
qed

lemma insert_data:
  assumes "insert_row_at E ix r s = Some t"
  shows "\<exists>k\<le>length (g_rows s). same_data (s\<lparr>g_rows := splice_ins k r (g_rows s), g_total := jplus (g_total s) (Fin 1),
     g_inserted := g_inserted s @ [r]\<rparr>) t"
proof -
  define k where "k = (case ix of None \<Rightarrow> length (g_rows s) | Some i \<Rightarrow> if length (g_rows s) < i then length (g_rows s) else i)"
  let ?v = "s\<lparr>g_body1 := insert_tr (length (g_rows s)) k (shift_up s True k (g_body1 s)),
     g_body2 := insert_tr (length (g_rows s)) k (shift_up s False k (g_body2 s)),
     g_total := jplus (g_total s) (Fin 1), g_rows := splice_ins k r (g_rows s)\<rparr>"
  obtain w where w: "refresh_row E k ?v = Some w" "t = tell_total (w\<lparr>g_inserted := g_inserted w @ [r]\<rparr>)"
    using assms by (auto simp: insert_row_at_def insert_row_def Let_def k_def)
  have "k \<le> length (g_rows s)" by (auto simp: k_def split: option.split)
  then show ?thesis
    using refresh_data [OF w(1)] by (intro exI [of _ k]) (simp add: w(2) same_data_def tell_total_def upd_pagers_def)
qed

lemma insert_returns: "\<exists>t. insert_row_at E ix r s = Some t"
proof -
  define k where "k = (case ix of None \<Rightarrow> length (g_rows s) | Some i \<Rightarrow> if length (g_rows s) < i then length (g_rows s) else i)"
  have "k \<le> length (g_rows s)" by (auto simp: k_def split: option.split)
  then have "k < length (splice_ins k r (g_rows s))" by simp
  then show ?thesis
    by (simp add: insert_row_at_def insert_row_def Let_def k_def [symmetric] refresh_row_eq get_row_def)
qed

text \<open>The list of updated rows grows by the rows touched, and by nothing else.\<close>

lemma updated_step:
  assumes "edit_run E s op = Some t" and "distinct (g_updated s)"
  shows "set (g_updated t) = set (g_updated s) \<union> (set (touches E op s) - set (g_inserted s)) \<and> distinct (g_updated t)"
proof (cases op)
  case (BeginEdit i)
  with assms show ?thesis using begin_data [of E i s t] by (simp add: same_data_def)
next
  case (TypeIn i f v)
  with assms show ?thesis using type_data [of s i f v] by (simp add: same_data_def)
next
  case (CancelEdit i)
  with assms show ?thesis using cancel_data [of E i s t] by (simp add: same_data_def)
next
  case (EndEdit i)
  with assms(1) have "end_edit E i s = Some t" by simp
  from end_data [OF this] obtain us where u: "g_updated t = g_updated s @ us" "distinct us"
    "set us = set (touches E (EndEdit i) s) - set (g_inserted s) - set (g_updated s)" by (auto simp: same_data_def)
  then show ?thesis using assms(2) EndEdit by auto
next
  case (DeleteRow i)
  with assms(1) have "delete_row E i s = Some t" by simp
  from delete_data [OF this] assms(2) DeleteRow show ?thesis by (auto simp: same_data_def)
next
  case (InsertRow ix x)
  with assms(1) have "insert_row_at E ix (g_next s) (s\<lparr>g_store := (g_store s)(g_next s := x), g_next := Suc (g_next s)\<rparr>) = Some t"
    by (simp add: alloc_row_def)
  from insert_data [OF this] assms(2) InsertRow show ?thesis by (auto simp: same_data_def)
qed

section \<open>The invariant of the changes\<close>

text \<open>
  \<open>base\<close> are the row objects loaded, \<open>n\<close> is their total and \<open>vals\<close> their values then: the rows of the page
  and the deleted ones are the loaded and the inserted ones, each once; a deleted row was loaded; a
  row that differs from what was loaded is listed as updated; the originals are objects apart.
\<close>

definition changes_ok :: "rid list \<Rightarrow> row list \<Rightarrow> int \<Rightarrow> grid \<Rightarrow> bool" where
  "changes_ok base vals n s \<longleftrightarrow>
     mset (g_rows s) + mset (g_deleted s) = mset base + mset (g_inserted s)
     \<and> distinct (base @ g_inserted s) \<and> set (g_deleted s) \<inter> set (g_inserted s) = {}
     \<and> g_total s = Fin (n + int (length (g_inserted s)) - int (length (g_deleted s)))
     \<and> (\<forall>r\<in>set base \<union> set (g_inserted s) \<union> set (g_original s). r < g_next s)
     \<and> set (g_original s) \<inter> (set base \<union> set (g_inserted s)) = {}
     \<and> row_values s (g_original s) = vals
     \<and> length vals = length base \<and> (\<forall>k<length base. base ! k \<notin> set (g_updated s) \<longrightarrow> g_store s (base ! k) = vals ! k)
     \<and> set (g_updated s) \<subseteq> set base"

lemma changes_okD:
  assumes "changes_ok base vals n s"
  shows "mset (g_rows s) + mset (g_deleted s) = mset base + mset (g_inserted s)"
    and "distinct (base @ g_inserted s)" and "set (g_deleted s) \<inter> set (g_inserted s) = {}"
    and "g_total s = Fin (n + int (length (g_inserted s)) - int (length (g_deleted s)))"
    and "\<forall>r\<in>set base \<union> set (g_inserted s) \<union> set (g_original s). r < g_next s"
    and "set (g_original s) \<inter> (set base \<union> set (g_inserted s)) = {}"
    and "map (g_store s) (g_original s) = vals" and "length vals = length base"
    and "\<forall>k<length base. base ! k \<notin> set (g_updated s) \<longrightarrow> g_store s (base ! k) = vals ! k"
    and "set (g_updated s) \<subseteq> set base"
  using assms unfolding changes_ok_def row_values_def by blast+

lemma changes_sets:
  assumes "changes_ok base vals n s"
  shows "set (g_rows s) \<union> set (g_deleted s) = set base \<union> set (g_inserted s)" and "distinct (g_rows s @ g_deleted s)"
    and "set (g_inserted s) = set (g_rows s) - set base" and "set (g_deleted s) = set base - set (g_rows s)"
proof -
  have m: "mset (g_rows s @ g_deleted s) = mset (base @ g_inserted s)" using assms by (simp add: changes_ok_def)
  then show u: "set (g_rows s) \<union> set (g_deleted s) = set base \<union> set (g_inserted s)" by (metis mset_eq_setD set_append)
  show d: "distinct (g_rows s @ g_deleted s)" using m assms by (metis changes_ok_def mset_eq_imp_distinct_iff)
  show "set (g_inserted s) = set (g_rows s) - set base" "set (g_deleted s) = set base - set (g_rows s)"
    using u d assms by (auto simp: changes_ok_def)
qed

lemma changes_same:
  assumes "changes_ok base vals n s" and "same_data s t"
  shows "changes_ok base vals n t"
proof -
  have e: "g_rows t = g_rows s" "g_store t = g_store s" "g_next t = g_next s" "g_total t = g_total s" "g_original t = g_original s"
    "g_inserted t = g_inserted s" "g_updated t = g_updated s" "g_deleted t = g_deleted s"
    using assms(2) by (simp_all only: same_data_def)
  from assms(1) show ?thesis unfolding changes_ok_def row_values_def e .
qed

text \<open>What is left to show when an operation changed the arrays.\<close>

lemma changes_arrays:
  assumes "changes_ok base vals n s"
    and "mset rows + mset del = mset base + mset ins" and "distinct (base @ ins)" and "set del \<inter> set ins = {}"
    and "tot = Fin (n + int (length ins) - int (length del))" and "\<forall>r\<in>set ins. r < nx" and "g_next s \<le> nx"
    and "set ins \<inter> set (g_original s) = {}" and "\<forall>r<g_next s. st r = g_store s r"
  shows "changes_ok base vals n (s\<lparr>g_rows := rows, g_deleted := del, g_inserted := ins, g_total := tot, g_next := nx, g_store := st\<rparr>)"
proof -
  note c = assms(1) [unfolded changes_ok_def]
  note D = changes_okD [OF assms(1)]
  show ?thesis (is "changes_ok _ _ _ ?w")
    unfolding changes_ok_def
  proof (intro conjI)
    have "map st (g_original s) = map (g_store s) (g_original s)" using c assms(9) by simp
    moreover have "map (g_store s) (g_original s) = vals" using c by (simp only: row_values_def)
    ultimately have "map st (g_original s) = vals" by simp
    then show "row_values ?w (g_original ?w) = vals" by (simp add: row_values_def)
    have "st (base ! k) = g_store s (base ! k)" if "k < length base" for k using c assms(9) nth_mem [OF that] by blast
    then show "\<forall>k<length base. base ! k \<notin> set (g_updated ?w) \<longrightarrow> g_store ?w (base ! k) = vals ! k" using D(9) by simp
    have "set (g_original s) \<inter> (set base \<union> set ins) = {}" using c assms(8) by blast
    then show "set (g_original ?w) \<inter> (set base \<union> set (g_inserted ?w)) = {}" by simp
    have "\<forall>r\<in>set base \<union> set ins \<union> set (g_original s). r < nx" using c assms(6,7) less_le_trans by blast
    then show "\<forall>r\<in>set base \<union> set (g_inserted ?w) \<union> set (g_original ?w). r < g_next ?w" by simp
  qed (use assms(2-5) in \<open>simp_all add: D(8,10)\<close>)
qed

lemma changes_end:
  assumes "changes_ok base vals n s" and "end_edit E i s = Some t"
  shows "changes_ok base vals n t"
proof -
  obtain r new us where e: "r \<in> set (g_rows s)" "set us \<subseteq> {r} - set (g_inserted s)"
    "same_data (s\<lparr>g_store := (g_store s)(r := new), g_updated := g_updated s @ us\<rparr>) t"
    "new = g_store s r \<or> r \<in> set (g_inserted s) \<or> r \<in> set (g_updated s @ us)"
    using end_data [OF assms(2)] by blast
  have r: "r \<in> set base \<union> set (g_inserted s)" using e(1) changes_sets(1) [OF assms(1)] by auto
  note c = assms(1) [unfolded changes_ok_def]
  have ro: "r \<notin> set (g_original s)" using r c by blast
  let ?w = "s\<lparr>g_store := (g_store s)(r := new), g_updated := g_updated s @ us\<rparr>"
  have f: "g_rows ?w = g_rows s" "g_deleted ?w = g_deleted s" "g_inserted ?w = g_inserted s" "g_total ?w = g_total s"
    "g_next ?w = g_next s" "g_original ?w = g_original s" by simp_all
  note D = changes_okD [OF assms(1)]
  have "changes_ok base vals n ?w"
    unfolding changes_ok_def
  proof (intro conjI)
    have "map ((g_store s)(r := new)) (g_original s) = map (g_store s) (g_original s)" using ro by auto
    moreover have "map (g_store s) (g_original s) = vals" using c by (simp only: row_values_def)
    ultimately have "map ((g_store s)(r := new)) (g_original s) = vals" by simp
    then show "row_values ?w (g_original ?w) = vals" by (simp add: row_values_def del: fun_upd_apply)
    show "set (g_updated ?w) \<subseteq> set base" using c e(2) r by auto
    have "((g_store s)(r := new)) (base ! k) = vals ! k"
      if k: "k < length base" and a: "base ! k \<notin> set (g_updated s @ us)" for k
    proof -
      have "base ! k \<notin> set (g_inserted s)" using D(2) nth_mem [OF k] by auto
      then have "new = g_store s r" if "base ! k = r" using a e(4) that by auto
      moreover have "base ! k \<notin> set (g_updated s)" using a by simp
      with k D(9) have "g_store s (base ! k) = vals ! k" by blast
      ultimately show ?thesis by (cases "base ! k = r") simp_all
    qed
    then show "\<forall>k<length base. base ! k \<notin> set (g_updated ?w) \<longrightarrow> g_store ?w (base ! k) = vals ! k" by simp
  qed (unfold f, (rule D)+)
  then show ?thesis by (rule changes_same [OF _ e(3)])
qed

lemma mset_splice_del: "i < length xs \<Longrightarrow> add_mset (xs ! i) (mset (splice_del i xs)) = mset xs"
proof (induction i arbitrary: xs)
  case 0
  then show ?case by (cases xs) auto
next
  case (Suc i)
  then show ?case by (cases xs) auto
qed

lemma mset_splice_ins: "mset (splice_ins k x xs) = add_mset x (mset xs)"
  by (metis append_take_drop_id mset.simps(2) mset_append splice_ins_def union_mset_add_mset_right)

lemma changes_delete:
  assumes "changes_ok base vals n s" and "delete_row E i s = Some t"
  shows "changes_ok base vals n t"
proof -
  obtain sel chk where i: "i < length (g_rows s)" and d: "same_data (s\<lparr>g_selected := sel, g_checked := chk, g_rows := splice_del i (g_rows s),
     g_total := jplus (g_total s) (Fin (-1)), g_inserted := remove1 (g_rows s ! i) (g_inserted s),
     g_deleted := g_deleted s @ (if g_rows s ! i \<in> set (g_inserted s) then [] else [g_rows s ! i])\<rparr>) t" (is "same_data ?u t")
    using delete_data [OF assms(2)] by blast
  let ?r = "g_rows s ! i"
  have m: "add_mset ?r (mset (splice_del i (g_rows s))) = mset (g_rows s)" by (rule mset_splice_del [OF i])
  have c: "mset (g_rows s) + mset (g_deleted s) = mset base + mset (g_inserted s)" "distinct (g_inserted s)"
    "g_total s = Fin (n + int (length (g_inserted s)) - int (length (g_deleted s)))" using assms(1) by (auto simp: changes_ok_def)
  let ?ins = "remove1 ?r (g_inserted s)" and ?del = "g_deleted s @ (if ?r \<in> set (g_inserted s) then [] else [?r])"
  note c0 = assms(1) [unfolded changes_ok_def]
  have "set ?ins \<subseteq> set (g_inserted s)" by (rule set_remove1_subset)
  have new: "mset (splice_del i (g_rows s)) + mset ?del = mset base + mset ?ins \<and> set ?del \<inter> set ?ins = {}
     \<and> jplus (g_total s) (Fin (-1)) = Fin (n + int (length ?ins) - int (length ?del))"
  proof (cases "?r \<in> set (g_inserted s)")
    case True
    then have rm: "add_mset ?r (mset ?ins) = mset (g_inserted s)" by simp
    have "add_mset ?r (mset (splice_del i (g_rows s)) + mset (g_deleted s)) = add_mset ?r (mset base + mset ?ins)"
      using c(1) unfolding m [symmetric] rm [symmetric] by simp
    then have "mset (splice_del i (g_rows s)) + mset (g_deleted s) = mset base + mset ?ins" by simp
    moreover have "int (length ?ins) = int (length (g_inserted s)) - 1"
      using length_pos_if_in_set [OF True] True by (simp only: length_remove1 if_True)
    moreover have "set (g_deleted s) \<inter> set ?ins = {}" using c0 \<open>set ?ins \<subseteq> set (g_inserted s)\<close> by blast
    ultimately show ?thesis using True c(3) by simp
  next
    case False
    then have ins: "?ins = g_inserted s" by (rule remove1_idem)
    have "add_mset ?r (mset (splice_del i (g_rows s)) + mset (g_deleted s)) = mset base + mset (g_inserted s)"
      using c(1) unfolding m [symmetric] by simp
    moreover have "set (g_deleted s) \<inter> set (g_inserted s) = {}" using c0 by blast
    ultimately show ?thesis using False c(3) unfolding ins by simp
  qed
  have "changes_ok base vals n (s\<lparr>g_rows := splice_del i (g_rows s), g_deleted := ?del, g_inserted := ?ins, g_total := jplus (g_total s) (Fin (-1)),
     g_next := g_next s, g_store := g_store s\<rparr>)" (is "changes_ok _ _ _ ?w")
  proof (rule changes_arrays [OF assms(1)])
    show "distinct (base @ ?ins)" using c0 \<open>set ?ins \<subseteq> set (g_inserted s)\<close> by (auto intro: distinct_remove1)
    show "\<forall>r\<in>set ?ins. r < g_next s" "set ?ins \<inter> set (g_original s) = {}" using c0 \<open>set ?ins \<subseteq> set (g_inserted s)\<close> by blast+
  qed (use new in auto)
  moreover have "same_data (?w\<lparr>g_selected := sel, g_checked := chk\<rparr>) t" using d by (simp add: same_data_def)
  moreover have "changes_ok base vals n (?w\<lparr>g_selected := sel, g_checked := chk\<rparr>) = changes_ok base vals n ?w"
    unfolding changes_ok_def row_values_def by simp
  ultimately show ?thesis using changes_same by blast
qed

lemma changes_insert:
  assumes "changes_ok base vals n s" and "edit_run E s (InsertRow ix x) = Some t"
  shows "changes_ok base vals n t"
proof -
  let ?s = "s\<lparr>g_store := (g_store s)(g_next s := x), g_next := Suc (g_next s)\<rparr>"
  have "insert_row_at E ix (g_next s) ?s = Some t" using assms(2) by (simp add: alloc_row_def)
  from insert_data [OF this] obtain k where k: "k \<le> length (g_rows s)"
    "same_data (?s\<lparr>g_rows := splice_ins k (g_next s) (g_rows s), g_total := jplus (g_total s) (Fin 1), g_inserted := g_inserted s @ [g_next s]\<rparr>) t"
    (is "same_data ?u t") by auto
  have fresh: "g_next s \<notin> set base \<union> set (g_inserted s) \<union> set (g_original s)" using assms(1) by (auto simp: changes_ok_def)
  note c = assms(1) [unfolded changes_ok_def]
  have nd: "g_next s \<notin> set (g_deleted s)" using fresh changes_sets(1) [OF assms(1)] by auto
  have "changes_ok base vals n (s\<lparr>g_rows := splice_ins k (g_next s) (g_rows s), g_deleted := g_deleted s, g_inserted := g_inserted s @ [g_next s],
     g_total := jplus (g_total s) (Fin 1), g_next := Suc (g_next s), g_store := (g_store s)(g_next s := x)\<rparr>)" (is "changes_ok _ _ _ ?w")
  proof (rule changes_arrays [OF assms(1)])
    show "mset (splice_ins k (g_next s) (g_rows s)) + mset (g_deleted s) = mset base + mset (g_inserted s @ [g_next s])"
      using c by (simp add: mset_splice_ins)
    show "distinct (base @ g_inserted s @ [g_next s])" using c fresh by auto
    show "set (g_deleted s) \<inter> set (g_inserted s @ [g_next s]) = {}" using c nd by auto
    have "g_total s = Fin (n + int (length (g_inserted s)) - int (length (g_deleted s)))" using c by blast
    then show "jplus (g_total s) (Fin 1) = Fin (n + int (length (g_inserted s @ [g_next s])) - int (length (g_deleted s)))" by simp
    have "\<forall>r\<in>set (g_inserted s). r < g_next s" using c by blast
    then show "\<forall>r\<in>set (g_inserted s @ [g_next s]). r < Suc (g_next s)" by (auto simp: less_Suc_eq)
    show "set (g_inserted s @ [g_next s]) \<inter> set (g_original s) = {}" using c fresh by auto
  qed simp_all
  moreover have "same_data ?w t" using k(2) by (simp add: same_data_def)
  ultimately show ?thesis by (rule changes_same)
qed

lemma changes_step:
  assumes "changes_ok base vals n s" and "edit_run E s op = Some t"
  shows "changes_ok base vals n t"
proof (cases op)
  case (BeginEdit i)
  with assms(2) have "begin_edit E i s = Some t" by simp
  then show ?thesis by (rule changes_same [OF assms(1) begin_data])
next
  case (TypeIn i f v)
  with assms(2) have "t = type_in i f v s" by simp
  then show ?thesis using changes_same [OF assms(1) type_data] by simp
next
  case (CancelEdit i)
  with assms(2) have "cancel_edit E i s = Some t" by simp
  then show ?thesis by (rule changes_same [OF assms(1) cancel_data])
next
  case (EndEdit i)
  with assms(2) have "end_edit E i s = Some t" by simp
  then show ?thesis by (rule changes_end [OF assms(1)])
next
  case (DeleteRow i)
  with assms(2) have "delete_row E i s = Some t" by simp
  then show ?thesis by (rule changes_delete [OF assms(1)])
next
  case (InsertRow ix x)
  show ?thesis using assms(2) unfolding InsertRow by (rule changes_insert [OF assms(1)])
qed

lemma changes_edits: "changes_ok base vals n s \<Longrightarrow> edits E ops s = Some t \<Longrightarrow> changes_ok base vals n t"
  unfolding edits_def by (erule foldM_invariant [where P = "changes_ok base vals n"]) (auto intro: changes_step)

lemma touches_rows: "edit_run E s op = Some t \<Longrightarrow> set (touches E op s) \<subseteq> set (g_rows s)"
  by (cases op) (auto simp: end_edit_def get_row_def split: if_splits)

lemma updated_edits:
  assumes "changes_ok base vals n s" and "edits E ops s = Some t" and "distinct (g_updated s)"
  shows "set (g_updated t) = set (g_updated s) \<union> (set (touched E ops s) \<inter> set base) \<and> distinct (g_updated t)"
  using assms
proof (induction ops arbitrary: s)
  case (Cons op ops)
  then obtain u where u: "edit_run E s op = Some u" "edits E ops u = Some t" by (auto simp: edits_def split: option.splits)
  note us = updated_step [OF u(1) Cons.prems(3)]
  have "set (touches E op s) - set (g_inserted s) = set (touches E op s) \<inter> set base"
    using touches_rows [OF u(1)] changes_sets(1) [OF Cons.prems(1)] changes_okD(2) [OF Cons.prems(1)] by auto
  with Cons.IH [OF changes_step [OF Cons.prems(1) u(1)] u(2)] us u(1) show ?case by auto
qed (simp add: edits_def)

lemma edit_run_opts:
  assumes "edit_run E s op = Some t"
  shows "o_remoteSort t = o_remoteSort s" and "o_idField t = o_idField s"
proof -
  have "o_remoteSort t = o_remoteSort s \<and> o_idField t = o_idField s"
  proof (cases op)
    case (EndEdit i)
    with assms have "end_edit E i s = Some t" by simp
    from end_data [OF this] show ?thesis by (auto simp: same_data_def)
  next
    case (DeleteRow i)
    with assms have "delete_row E i s = Some t" by simp
    from delete_data [OF this] show ?thesis by (auto simp: same_data_def)
  next
    case (InsertRow ix x)
    with assms have "insert_row_at E ix (g_next s) (s\<lparr>g_store := (g_store s)(g_next s := x), g_next := Suc (g_next s)\<rparr>) = Some t"
      by (simp add: alloc_row_def)
    from insert_data [OF this] show ?thesis by (auto simp: same_data_def)
  qed (use assms begin_data type_data cancel_data in \<open>auto simp: same_data_def\<close>)
  then show "o_remoteSort t = o_remoteSort s" "o_idField t = o_idField s" by simp_all
qed

lemma edits_opts: "edits E ops s = Some t \<Longrightarrow> o_remoteSort t = o_remoteSort s \<and> o_idField t = o_idField s"
  unfolding edits_def
  by (rule foldM_invariant [where P = "\<lambda>t. o_remoteSort t = o_remoteSort s \<and> o_idField t = o_idField s"]) (auto dest: edit_run_opts)

section \<open>From loading to the changes\<close>

lemma load_changes:
  assumes "load_data E d s = Some t" and "\<forall>r\<in>set (g_rows (take_data d s)). r < g_next s"
    and "distinct (g_rows (take_data d s))" and "g_total (take_data d s) = Fin n"
  shows "changes_ok (g_rows t) (row_values t (g_rows t)) n t"
proof -
  obtain w where w: "show_data E d s = Some w" "t = snapshot w" using assms(1) by (auto simp: load_data_def)
  note p = shown_page [OF w(1) only_marks_refl assms(2), folded w(2)]
  have "distinct (g_rows t)" using p(1) assms(3) by (metis mset_eq_imp_distinct_iff)
  moreover have "g_inserted t = []" "g_updated t = []" "g_deleted t = []" by (simp_all add: w(2))
  ultimately show ?thesis
    using p(2,4,5,6) assms(4) by (simp add: changes_ok_def row_values_def)
qed

section \<open>Rejecting\<close>

lemma cancel_all:
  assumes "foldM (\<lambda>s i. cancel_edit E i s) s is = Some t"
  shows "same_data s t"
  using assms
  by (rule foldM_invariant [where P = "same_data s"]) (auto intro: same_data_trans cancel_data)

lemma cancel_all_page: "foldM (\<lambda>s i. cancel_edit E i s) s is = Some t \<Longrightarrow> o_pageNumber t = o_pageNumber s"
  by (rule foldM_invariant [where P = "\<lambda>t. o_pageNumber t = o_pageNumber s"])
    (auto simp: cancel_edit_def refresh_row_eq close_editors_def upd_row_def dg_emit_def get_row_def split: option.splits if_splits)

lemma cancel_all_returns:
  "\<forall>i\<in>set is. i < length (g_rows s) \<Longrightarrow> \<exists>t. foldM (\<lambda>s i. cancel_edit E i s) s is = Some t"
proof (induction "is" arbitrary: s)
  case (Cons i "is")
  then obtain u where u: "cancel_edit E i s = Some u" using cancel_returns by force
  have "length (g_rows u) = length (g_rows s)" using cancel_data [OF u] by (simp add: same_data_def)
  with Cons have "\<exists>t. foldM (\<lambda>s i. cancel_edit E i s) u is = Some t" by simp
  with u show ?case by simp
qed simp

lemma marks_mark_id: "(\<And>i r u. only_marks s u \<Longrightarrow> only_marks s (f i r u)) \<Longrightarrow> only_marks s t \<Longrightarrow> only_marks s (fold (mark_id f) ks t)"
  by (induction ks arbitrary: t) (auto simp: mark_id_def split: option.split)

lemma revert_data: "g_rows (take_data DataHeld (revert s)) = g_original s" "g_next (revert s) = g_next s"
    "g_store (revert s) = g_store s" "o_remoteSort (revert s) = o_remoteSort s"
    "g_total (take_data DataHeld (revert s)) = held_total (jplus (g_total s) (Fin (int (length (g_deleted s)) - int (length (g_inserted s)))))"
  by (simp_all add: take_data_def revert_def)

lemma revert_returns: "o_remoteSort s \<Longrightarrow> \<exists>w. show_data E DataHeld (revert s) = Some w"
  by (simp add: show_data_def local_sort_def take_data_def revert_def)

lemma reject_page:
  assumes c: "changes_ok base vals n s" and rs: "o_remoteSort s"
  shows "\<exists>v. reject_changes E s = Some v \<and> row_values v (g_rows v) = vals \<and> g_total v = Fin n \<and> g_inserted v = [] \<and> g_updated v = []
     \<and> g_deleted v = [] \<and> row_values v (g_original v) = vals \<and> (o_pageNumber v = o_pageNumber s \<longrightarrow> drawn E v)"
proof -
  obtain u where u: "foldM (\<lambda>s i. cancel_edit E i s) s [0..<length (g_rows s)] = Some u" using cancel_all_returns [of "[0..<length (g_rows s)]" s E] by auto
  have sd: "same_data s u" by (rule cancel_all [OF u])
  have cu: "changes_ok base vals n u" by (rule changes_same [OF c sd])
  have ru: "o_remoteSort u" using sd rs by (simp add: same_data_def)
  obtain w where w: "show_data E DataHeld (revert u) = Some w" using revert_returns [OF ru] by blast
  define x where "x = fold (mark_id (check_with E id)) (map (row_key u) (g_checked u)) (fold (mark_id (select_with E id)) (map (row_key u) (g_selected u)) w)"
  have v: "reject_changes E s = Some (snapshot x)" by (simp add: reject_changes_def u w Let_def x_def)
  have m: "only_marks w x" unfolding x_def by (intro marks_mark_id) (auto intro: marks_ops)
  have b: "\<forall>r\<in>set (g_rows (take_data DataHeld (revert u))). r < g_next (revert u)"
    using changes_okD(5) [OF cu] by (simp add: revert_data)
  note p = shown_page [OF w m b]
  have "g_rows (snapshot x) = g_original u" using p(8) ru by (simp add: revert_data)
  then have r: "row_values (snapshot x) (g_rows (snapshot x)) = vals"
    using p(7) changes_okD(7) [OF cu] by (simp add: revert_data row_values_def)
  moreover have "g_total (snapshot x) = Fin n"
    using p(2) changes_okD(4) [OF cu] by (simp add: revert_data held_total_def)
  moreover have "drawn E (snapshot x)" if "o_pageNumber (snapshot x) = o_pageNumber s"
  proof (rule p(3))
    have "o_pageNumber u = o_pageNumber s" by (rule cancel_all_page [OF u])
    with that show "o_pageNumber (snapshot x) = o_pageNumber (revert u)" by (simp add: revert_def)
  qed
  ultimately show ?thesis using v p(4) by simp
qed

section \<open>Properties\<close>

text \<open>
  C2: The changes are exact: after a page of distinct rows was loaded, and after any sequence of edits,
  cancelled edits, deletions and insertions that did not throw, \<open>getChanges('inserted')\<close> is the rows of the
  page that were not loaded, \<open>getChanges('deleted')\<close> the loaded rows that are no longer there, each
  once.  \<open>getChanges('updated')\<close> is the loaded rows, each once, for which an accepted edit ended with a value that was not \<open>==\<close> to the one of
  the row then, those deleted since included; every loaded row whose object differs now is one of them.  \<open>getChanges()\<close>
  is the three after each other, and the total follows the insertions and deletions.
\<close>

theorem dg_changes_exact:
  assumes "load_data E d s = Some t" and "\<forall>r\<in>set (g_rows (take_data d s)). r < g_next s"
    and "distinct (g_rows (take_data d s))" and "g_total (take_data d s) = Fin n" and "edits E ops t = Some u"
  shows "set (get_changes (Some ''inserted'') u) = set (g_rows u) - set (g_rows t)
     \<and> set (get_changes (Some ''deleted'') u) = set (g_rows t) - set (g_rows u)
     \<and> set (get_changes (Some ''updated'') u) = set (touched E ops t) \<inter> set (g_rows t)
     \<and> distinct (g_rows u) \<and> distinct (get_changes (Some ''inserted'') u) \<and> distinct (get_changes (Some ''deleted'') u)
     \<and> distinct (get_changes (Some ''updated'') u)
     \<and> (\<forall>r\<in>set (g_rows t). g_store u r \<noteq> g_store t r \<longrightarrow> r \<in> set (get_changes (Some ''updated'') u))
     \<and> get_changes None u = get_changes (Some ''inserted'') u @ get_changes (Some ''deleted'') u @ get_changes (Some ''updated'') u
     \<and> g_total u = Fin (n + int (length (get_changes (Some ''inserted'') u)) - int (length (get_changes (Some ''deleted'') u)))"
proof -
  have l: "changes_ok (g_rows t) (row_values t (g_rows t)) n t" by (rule load_changes [OF assms(1-4)])
  have c: "changes_ok (g_rows t) (row_values t (g_rows t)) n u" by (rule changes_edits [OF l assms(5)])
  have g: "get_changes (Some ''inserted'') u = g_inserted u" "get_changes (Some ''deleted'') u = g_deleted u"
    "get_changes (Some ''updated'') u = g_updated u" "get_changes None u = g_inserted u @ g_deleted u @ g_updated u"
    by (simp_all add: get_changes_def truthy_text_def)
  have "g_updated t = []" using load_page [OF assms(1,2)] by simp
  then have "set (g_updated u) = set (touched E ops t) \<inter> set (g_rows t) \<and> distinct (g_updated u)"
    using updated_edits [OF l assms(5)] by simp
  moreover have "r \<in> set (g_updated u)" if "r \<in> set (g_rows t)" "g_store u r \<noteq> g_store t r" for r
    using that changes_okD(9) [OF c] by (auto simp: row_values_def in_set_conv_nth)
  ultimately show ?thesis using changes_sets [OF c] changes_okD(2,4) [OF c] by (auto simp: g)
qed

text \<open>
  C15: Rejecting brings the page back: whatever was edited, inserted and deleted since the page was loaded,
  \<open>rejectChanges\<close> returns, the rows have the values they had when they were loaded, in that order, the
  total is that of then, no changes are left, and the page shows the rows again (unless the pager
  sent the grid to another page).
\<close>

theorem dg_reject_restores:
  assumes "load_data E d s = Some t" and "\<forall>r\<in>set (g_rows (take_data d s)). r < g_next s"
    and "distinct (g_rows (take_data d s))" and "g_total (take_data d s) = Fin n" and "edits E ops t = Some u" and "o_remoteSort t"
  shows "\<exists>v. reject_changes E u = Some v \<and> row_values v (g_rows v) = row_values t (g_rows t) \<and> g_total v = g_total t
     \<and> get_changes None v = [] \<and> (o_pageNumber v = o_pageNumber u \<longrightarrow> drawn E v)"
proof -
  have c: "changes_ok (g_rows t) (row_values t (g_rows t)) n u" by (rule changes_edits [OF load_changes [OF assms(1-4)] assms(5)])
  have "o_remoteSort u" using edits_opts [OF assms(5)] assms(6) by simp
  with reject_page [OF c this, of E] load_page [OF assms(1,2)] assms(4) show ?thesis
    by (auto simp: get_changes_def truthy_text_def)
qed

section \<open>The marks after rejecting\<close>

definition marks_within :: "rid set \<Rightarrow> grid \<Rightarrow> bool" where
  "marks_within R s \<longleftrightarrow> set (g_rows s) \<subseteq> R \<and> set (g_selected s) \<subseteq> R \<and> set (g_checked s) \<subseteq> R"

lemma within_marks:
  assumes "marks_within R s"
  shows "r \<in> R \<Longrightarrow> marks_within R (mark_sel i r s)" and "r \<in> R \<Longrightarrow> marks_within R (mark_chk i r s)"
    and "marks_within R (unmark_sel_all s)" and "marks_within R (unmark_chk_all s)"
proof -
  have fold: "set (fold (\<lambda>r. arr_remove_id loose_eq key (key r)) rs a) \<subseteq> set a" for key :: "rid \<Rightarrow> jsval" and rs a by (rule fold_remove_set)
  show "r \<in> R \<Longrightarrow> marks_within R (mark_sel i r s)" "r \<in> R \<Longrightarrow> marks_within R (mark_chk i r s)"
    using assms add_id_set [of loose_eq "row_key s" r "g_selected s"] add_id_set [of loose_eq "row_key s" r "g_checked s"]
    by (auto simp: marks_within_def mark_sel_def mark_chk_def with_id_def Let_def row_key_def)
  show "marks_within R (unmark_sel_all s)" "marks_within R (unmark_chk_all s)"
    using assms fold [of "row_key s" "get_rows s" "g_selected s"] fold [of "row_key s" "get_rows s" "g_checked s"]
    by (auto simp: marks_within_def unmark_sel_all_def unmark_chk_all_def with_id_def Let_def get_rows_def)
qed

lemma within_fields [simp]:
  "marks_within R (dg_emit e s) = marks_within R s" "marks_within R (s\<lparr>g_mute := b\<rparr>) = marks_within R s"
  "marks_within R (s\<lparr>g_headCheck := b\<rparr>) = marks_within R s"
  by (simp_all add: marks_within_def)

lemma within_row:
  assumes "marks_within R s" and "r \<in> R"
  shows "marks_within R (select_with E id i r s)" and "marks_within R (check_with E id i r s)"
proof -
  have e: "marks_within R (u\<lparr>g_selected := []\<rparr>)" "marks_within R (u\<lparr>g_checked := []\<rparr>)" if "marks_within R u" for u
    using that by (simp_all add: marks_within_def)
  show "marks_within R (select_with E id i r s)" "marks_within R (check_with E id i r s)"
    using assms by (auto simp: select_with_def check_with_def unselect_all_with_def uncheck_all_with_def Let_def intro!: within_marks e)
qed

lemma within_restore:
  assumes "marks_within R s" and "r \<in> R"
  shows "marks_within R (restore_row E i r s)"
proof -
  have f: "set (fst (arr_refresh eq key r a)) \<subseteq> insert r (set a)" for eq :: "jsval \<Rightarrow> jsval \<Rightarrow> bool" and key :: "rid \<Rightarrow> jsval" and a
    using set_update_subset_insert [of a _ r] by (auto simp: arr_refresh_def split: option.split)
  have s: "marks_within R (u\<lparr>g_selected := fst (arr_refresh eq key r (g_selected u))\<rparr>)"
    "marks_within R (u\<lparr>g_checked := fst (arr_refresh eq key r (g_checked u))\<rparr>)" if "marks_within R u" for u and eq :: "jsval \<Rightarrow> jsval \<Rightarrow> bool" and key :: "rid \<Rightarrow> jsval"
    using that assms(2) f [of eq key "g_selected u"] f [of eq key "g_checked u"] by (auto simp: marks_within_def)
  show ?thesis
  proof -
    define u where "u = s\<lparr>g_selected := fst (arr_refresh loose_eq (row_key s) r (g_selected s))\<rparr>"
    define v where "v = (if snd (arr_refresh loose_eq (row_key s) r (g_selected s)) then select_with E id i r u else u)"
    have "marks_within R u" unfolding u_def by (rule s(1) [OF assms(1)])
    then have "marks_within R v" using assms(2) by (simp add: v_def within_row)
    then have "marks_within R (v\<lparr>g_checked := fst (arr_refresh loose_eq (row_key v) r (g_checked v))\<rparr>)" by (rule s(2))
    moreover have "restore_row E i r s = (let t = v\<lparr>g_checked := fst (arr_refresh loose_eq (row_key v) r (g_checked v))\<rparr> in
        if snd (arr_refresh loose_eq (row_key v) r (g_checked v)) then check_with E id i r t else t)"
      unfolding restore_row_def Let_def case_prod_beta u_def v_def by simp
    ultimately show ?thesis using assms(2) by (simp add: Let_def within_row)
  qed
qed

lemma within_state:
  assumes "marks_within R s"
  shows "marks_within R (set_selection_state E s)"
proof -
  have "marks_within R u \<Longrightarrow> \<forall>x\<in>set l. snd x \<in> R \<Longrightarrow> marks_within R (fold (\<lambda>(i, r). restore_row E i r) l u)" for l u
  proof (induction l arbitrary: u)
    case (Cons x l)
    then have "marks_within R (restore_row E (fst x) (snd x) u)" by (intro within_restore) simp_all
    with Cons.IH Cons.prems show ?case by (simp add: case_prod_beta)
  qed simp
  moreover have "\<forall>x\<in>set (enumerate 0 (get_rows s)). snd x \<in> R"
    using assms by (auto simp: marks_within_def get_rows_def in_set_enumerate_eq)
  ultimately show ?thesis using assms by (simp add: set_selection_state_def Let_def get_rows_def)
qed

lemma within_mark_id:
  assumes "\<And>i r u. marks_within R u \<Longrightarrow> r \<in> R \<Longrightarrow> marks_within R (f i r u)" and "marks_within R s"
  shows "marks_within R (fold (mark_id f) ks s)"
  using assms(2)
proof (induction ks arbitrary: s)
  case (Cons k ks)
  have "marks_within R (mark_id f k s)"
  proof (cases "index_of_id k s")
    case (Some i)
    then have "i < length (g_rows s)"
      by (auto simp: index_of_id_def row_index_def split: if_splits dest: index_where_Some)
    with Some Cons.prems show ?thesis by (auto simp: mark_id_def marks_within_def [of R s] intro!: assms(1) Cons.prems)
  qed (use Cons.prems in \<open>simp add: mark_id_def\<close>)
  then show ?case using Cons.IH by simp
qed simp

text \<open>
  Rejecting keeps the marks of the page only: after \<open>rejectChanges\<close> every row that is selected or
  checked is a row of the page, so what was selected on other pages is lost, although loading a page keeps it.
\<close>

theorem dg_reject_marks:
  assumes "reject_changes E s = Some v" and "o_remoteSort s"
  shows "set (g_selected v) \<subseteq> set (g_rows v) \<and> set (g_checked v) \<subseteq> set (g_rows v)"
proof -
  obtain u where u: "foldM (\<lambda>s i. cancel_edit E i s) s [0..<length (g_rows s)] = Some u"
    using assms(1) by (auto simp: reject_changes_def split: option.splits)
  then have rs: "o_remoteSort u" using cancel_all [OF u] assms(2) by (simp add: same_data_def)
  obtain w where w: "show_data E DataHeld (revert u) = Some w"
    and v: "v = snapshot (fold (mark_id (check_with E id)) (map (row_key u) (g_checked u)) (fold (mark_id (select_with E id)) (map (row_key u) (g_selected u)) w))"
    using assms(1) by (auto simp: reject_changes_def u Let_def)
  let ?R = "set (g_original u)"
  have l: "local_sort E (take_data DataHeld (revert u)) = Some (take_data DataHeld (revert u))"
    using rs by (simp add: local_sort_def take_data_def revert_def)
  have "marks_within ?R (tell_pagers E (draw_page E (take_data DataHeld (revert u))))"
    by (simp add: marks_within_def) (simp add: take_data_def revert_def)
  then have "marks_within ?R w" using w l by (auto simp: show_data_def intro: within_state)
  then have m: "marks_within ?R (fold (mark_id (check_with E id)) (map (row_key u) (g_checked u)) (fold (mark_id (select_with E id)) (map (row_key u) (g_selected u)) w))"
    by (intro within_mark_id within_row)
  have "only_marks w (fold (mark_id (check_with E id)) (map (row_key u) (g_checked u)) (fold (mark_id (select_with E id)) (map (row_key u) (g_selected u)) w))"
    by (intro marks_mark_id) (auto intro: marks_ops)
  from only_marks_fields(1) [OF this] have "g_rows v = g_rows w" by (simp add: v)
  moreover have "only_marks (draw_page E (take_data DataHeld (revert u))) (draw_page E (take_data DataHeld (revert u)))" by simp
  have "g_rows w = g_original u"
  proof -
    let ?p = "tell_pagers E (draw_page E (take_data DataHeld (revert u)))"
    have "only_marks ?p w" using w l by (auto simp: show_data_def marks_selection_state)
    from only_marks_fields(1) [OF this] show ?thesis by (simp add: take_data_def revert_def)
  qed
  ultimately have "g_rows v = g_original u" by simp
  with m show ?thesis by (simp add: v marks_within_def)
qed

text \<open>A row that was edited and is then deleted stays in the list of updated rows.\<close>

lemma deleted_stays_updated:
  assumes "delete_row E i s = Some t" and "g_rows s ! i \<in> set (g_updated s)" and "g_rows s ! i \<notin> set (g_inserted s)"
  shows "g_rows s ! i \<in> set (get_changes (Some ''updated'') t) \<and> g_rows s ! i \<in> set (get_changes (Some ''deleted'') t)"
  using delete_data [OF assms(1)] assms(2,3) by (auto simp: same_data_def get_changes_def truthy_text_def)

section \<open>Witnesses\<close>

text \<open>Two rows are loaded; a row is put in front, the first loaded one is deleted.\<close>

definition two_edits :: "edit_op list" where
  "two_edits = [InsertRow (Some 0) ((\<lambda>_. VUndef)(''name'' := VStr ''new'')), DeleteRow 1]"

lemma load_remote:
  assumes "load_data E d s = Some t"
  shows "o_remoteSort t = o_remoteSort s"
proof -
  obtain l where l: "local_sort E (take_data d s) = Some l" and
    t: "t = snapshot (dg_emit OnLoadSuccess (set_selection_state E (tell_pagers E (draw_page E l))))"
    using assms by (auto simp: load_data_def show_data_def)
  have l2: "o_remoteSort l = o_remoteSort s" by (subst local_sort_keeps(1) [OF l]) (simp add: take_data_def split: gdata.split)
  have "o_remoteSort (snapshot u) = o_remoteSort u" for u
    by (cases "alloc_rows (row_values u (g_rows u)) u") (use alloc_rows_spec in \<open>fastforce simp: snapshot_def dest: arg_cong [where f = o_remoteSort]\<close>)
  moreover have "only_marks (tell_pagers E (draw_page E l)) (dg_emit OnLoadSuccess (set_selection_state E (tell_pagers E (draw_page E l))))"
    by (simp add: marks_selection_state)
  note only_marks_fields(20) [OF this]
  moreover have "o_remoteSort (tell_pagers E (draw_page E l)) = o_remoteSort l"
    by (simp add: tell_pagers_def Let_def request_def grid_loading_def grid_loaded_def upd_pagers_def default_loader_def
        draw_page_def after_render_def draw_footer_def render_empty_row_def split: list.split option.split)
  ultimately show ?thesis using l2 unfolding t by simp
qed

lemma two_edits_get:
  obtains t u where "load_data default_env (DataArray [2, 1]) edit_sample = Some t" "mset (g_rows t) = {#2, 1#}" "o_remoteSort t"
    "edits default_env two_edits t = Some u"
proof -
  have o: "o_remoteSort edit_sample" by (simp add: edit_sample_def draw_page_def Let_def sample_grid_def datagrid_defaults_def after_render_def)
  then obtain t where t: "load_data default_env (DataArray [2, 1]) edit_sample = Some t" using load_some by blast
  have m: "mset (g_rows t) = {#2, 1#}" using load_page [OF t] by (simp add: take_data_def edit_sample_facts)
  obtain u where u: "edit_run default_env t (InsertRow (Some 0) ((\<lambda>_. VUndef)(''name'' := VStr ''new''))) = Some u"
    using insert_returns by (fastforce simp: alloc_row_def)
  have "length (g_rows t) = 2" using arg_cong [OF m, of size] by simp
  then have "length (g_rows u) = 3"
    using insert_data [of default_env "Some 0" "g_next t" "snd (alloc_row ((\<lambda>_. VUndef)(''name'' := VStr ''new'')) t)" u] u
    by (auto simp: alloc_row_def same_data_def)
  then have "1 < length (g_rows u)" by simp
  then obtain x where x: "cancel_edit default_env 1 u = Some x" using cancel_returns by blast
  have "length (g_rows x) = 3" using cancel_data [OF x] \<open>length (g_rows u) = 3\<close> by (simp add: same_data_def)
  then obtain w where w: "edit_run default_env u (DeleteRow 1) = Some w" using x by (auto simp: delete_row_def get_row_def Let_def)
  have "o_remoteSort t" using load_remote [OF t] o by simp
  moreover have "edits default_env two_edits t = Some w" using u w by (simp add: edits_def two_edits_def)
  ultimately show thesis using t m by (rule that [rotated 2])
qed

lemma sample_data: "\<forall>r\<in>set (g_rows (take_data (DataArray [2, 1]) edit_sample)). r < g_next edit_sample"
    "distinct (g_rows (take_data (DataArray [2, 1]) edit_sample))" "g_total (take_data (DataArray [2, 1]) edit_sample) = Fin 2"
  by (simp_all add: take_data_def edit_sample_facts)

theorem dg_changes_exact_witness:
  "\<exists>t u. load_data default_env (DataArray [2, 1]) edit_sample = Some t \<and> edits default_env two_edits t = Some u
     \<and> set (get_changes (Some ''inserted'') u) = set (g_rows u) - {2, 1} \<and> set (get_changes (Some ''deleted'') u) = {2, 1} - set (g_rows u)"
proof -
  obtain t u where t: "load_data default_env (DataArray [2, 1]) edit_sample = Some t" "mset (g_rows t) = {#2, 1#}"
    "edits default_env two_edits t = Some u" by (rule two_edits_get)
  have "set (g_rows t) = {2, 1}" using arg_cong [OF t(2), of set_mset] by simp
  with dg_changes_exact [OF t(1) sample_data t(3)] t(1,3) show ?thesis by simp
qed

theorem dg_reject_restores_witness:
  "\<exists>t u v. edits default_env two_edits t = Some u \<and> reject_changes default_env u = Some v
     \<and> row_values v (g_rows v) = row_values t (g_rows t) \<and> get_changes None v = []"
proof -
  obtain t u where t: "load_data default_env (DataArray [2, 1]) edit_sample = Some t" "o_remoteSort t"
    "edits default_env two_edits t = Some u" by (rule two_edits_get)
  from dg_reject_restores [OF t(1) sample_data t(3,2)] t(3) show ?thesis by auto
qed

text \<open>A grid with marks on a row of another page.\<close>

theorem dg_reject_marks_witness:
  "\<exists>v. g_selected edit_sample = [5, 1] \<and> reject_changes default_env edit_sample = Some v \<and> set (g_selected v) \<subseteq> set (g_rows v)"
proof -
  have s: "o_remoteSort edit_sample" "g_selected edit_sample = [5, 1]"
    by (simp_all add: edit_sample_def draw_page_def Let_def sample_grid_def datagrid_defaults_def after_render_def)
  obtain u where u: "foldM (\<lambda>s i. cancel_edit default_env i s) edit_sample [0..<length (g_rows edit_sample)] = Some u"
    using cancel_all_returns [of "[0..<length (g_rows edit_sample)]" edit_sample default_env] by auto
  then have "o_remoteSort u" using cancel_all [OF u] s(1) by (simp add: same_data_def)
  then obtain w where "show_data default_env DataHeld (revert u) = Some w" using revert_returns by blast
  with u obtain v where "reject_changes default_env edit_sample = Some v" by (simp add: reject_changes_def Let_def)
  with dg_reject_marks [OF this s(1)] s(2) show ?thesis by blast
qed

end
