(* ===== verification/Rose.thy ===== *)
theory Rose
  imports Js_Prelude
begin

text \<open>
  Forests: the nested arrays of node objects of a tree widget and the nested lists of its elements are
  both lists of \<open>rose\<close> trees, whose labels carry an identifier.  Functions on them recurse over a
  forest and the children of its first tree together.
\<close>

section \<open>Forests\<close>

datatype 'a rose = Rose (lab: 'a) (kids: "'a rose list")

text \<open>The labels and the trees in document order.\<close>

fun labels :: "'a rose list \<Rightarrow> 'a list" where
  "labels [] = []"
| "labels (Rose x cs # ts) = x # labels cs @ labels ts"

fun nodes :: "'a rose list \<Rightarrow> 'a rose list" where
  "nodes [] = []"
| "nodes (Rose x cs # ts) = Rose x cs # nodes cs @ nodes ts"

definition relabel :: "('a \<Rightarrow> 'b) \<Rightarrow> 'a rose list \<Rightarrow> 'b rose list" where
  "relabel f ts = map (map_rose f) ts"

text \<open>The tree at an identifier, the labels above it from the root down, and the list it stands in.\<close>

fun path_to :: "('a \<Rightarrow> bool) \<Rightarrow> 'a rose list \<Rightarrow> 'a list option" where
  "path_to P [] = None"
| "path_to P (Rose x cs # ts) =
     (if P x then Some [] else case path_to P cs of Some p \<Rightarrow> Some (x # p) | None \<Rightarrow> path_to P ts)"

fun level_in :: "('a \<Rightarrow> bool) \<Rightarrow> 'a rose list \<Rightarrow> 'a rose list \<Rightarrow> 'a rose list option" where
  "level_in P us [] = None"
| "level_in P us (Rose x cs # ts) =
     (if P x then Some us else case level_in P cs cs of Some l \<Rightarrow> Some l | None \<Rightarrow> level_in P us ts)"

definition level_of :: "('a \<Rightarrow> bool) \<Rightarrow> 'a rose list \<Rightarrow> 'a rose list" where
  "level_of P ts = (case level_in P ts ts of Some l \<Rightarrow> l | None \<Rightarrow> [])"

text \<open>Each topmost tree with \<open>P\<close> is replaced by the trees \<open>g\<close> makes of it.\<close>

fun alter :: "('a \<Rightarrow> bool) \<Rightarrow> ('a rose \<Rightarrow> 'a rose list) \<Rightarrow> 'a rose list \<Rightarrow> 'a rose list" where
  "alter P g [] = []"
| "alter P g (Rose x cs # ts) = (if P x then g (Rose x cs) else [Rose x (alter P g cs)]) @ alter P g ts"

definition set_kids :: "('a \<Rightarrow> bool) \<Rightarrow> ('a rose list \<Rightarrow> 'a rose list) \<Rightarrow> 'a rose list \<Rightarrow> 'a rose list" where
  "set_kids P h = alter P (\<lambda>t. [Rose (lab t) (h (kids t))])"

lemma relabel_simps [simp]:
  "relabel f [] = []" "relabel f (Rose x cs # ts) = Rose (f x) (relabel f cs) # relabel f ts"
  "relabel f (ts @ us) = relabel f ts @ relabel f us"
  by (simp_all add: relabel_def)

lemma forest_induct [case_names Nil Rose]:
  assumes "P []" and "\<And>x cs ts. P cs \<Longrightarrow> P ts \<Longrightarrow> P (Rose x cs # ts)"
  shows "P ts"
  by (induction ts rule: labels.induct) (use assms in auto)

lemma labels_append [simp]: "labels (ts @ us) = labels ts @ labels us"
  by (induction ts rule: forest_induct) simp_all

lemma labels_relabel [simp]: "labels (relabel f ts) = map f (labels ts)"
  by (induction ts rule: forest_induct) simp_all

lemma nodes_append [simp]: "nodes (ts @ us) = nodes ts @ nodes us"
  by (induction ts rule: forest_induct) simp_all

lemma labels_nodes: "labels ts = map lab (nodes ts)"
  by (induction ts rule: forest_induct) simp_all

lemma relabel_relabel [simp]: "relabel f (relabel g ts) = relabel (\<lambda>x. f (g x)) ts"
  by (induction ts rule: forest_induct) simp_all

lemma relabel_cong: "(\<And>x. x \<in> set (labels ts) \<Longrightarrow> f x = g x) \<Longrightarrow> relabel f ts = relabel g ts"
  by (induction ts rule: forest_induct) simp_all

lemma relabel_id: "(\<And>x. x \<in> set (labels ts) \<Longrightarrow> f x = x) \<Longrightarrow> relabel f ts = ts"
  by (induction ts rule: forest_induct) simp_all

lemma relabel_alter:
  "(\<And>x. Q (f x) = P x) \<Longrightarrow> (\<And>t. P (lab t) \<Longrightarrow> relabel f (g t) = h (map_rose f t)) \<Longrightarrow> relabel f (alter P g ts) = alter Q h (relabel f ts)"
proof (induction ts rule: forest_induct)
  case (Rose x cs ts)
  have "map_rose f (Rose x cs) = Rose (f x) (relabel f cs)" by (simp add: relabel_def)
  then show ?case using Rose Rose.prems(2) [of "Rose x cs"] by simp
qed simp

lemma alter_other: "\<forall>x\<in>set (labels ts). \<not> P x \<Longrightarrow> alter P g ts = ts"
  by (induction ts rule: forest_induct) simp_all

lemma alter_append [simp]: "alter P g (ts @ us) = alter P g ts @ alter P g us"
  by (induction ts rule: forest_induct) simp_all

lemma path_to_None: "path_to P ts = None \<longleftrightarrow> (\<forall>x\<in>set (labels ts). \<not> P x)"
  by (induction ts rule: forest_induct) (auto split: option.split)

lemma path_to_labels: "path_to P ts = Some p \<Longrightarrow> set p \<subseteq> set (labels ts)"
  by (induction ts arbitrary: p rule: forest_induct) (auto split: option.splits if_splits)

section \<open>The walk: \<open>_68\<close> of the tree\<close>

text \<open>
  A loop over a stack: the first node is taken out and handed to \<open>f\<close>, its children are put in front; \<open>f\<close>
  can end the walk.
\<close>

lemma kids_size: "size_list size (kids t) < size t"
  by (cases t) simp

function walk :: "('a rose \<Rightarrow> 's \<Rightarrow> bool \<times> 's) \<Rightarrow> 'a rose list \<Rightarrow> 's \<Rightarrow> 's" where
  "walk f [] s = s"
| "walk f (t # ts) s = (if fst (f t s) then walk f (kids t @ ts) (snd (f t s)) else snd (f t s))"
  by pat_completeness auto

termination
proof (relation "measure (\<lambda>(f, ts, s). sum_list (map size ts))")
  fix f :: "'a rose \<Rightarrow> 's \<Rightarrow> bool \<times> 's" and t :: "'a rose" and ts and s :: 's
  have "sum_list (map size us) \<le> size_list size us" for us :: "'a rose list" by (induction us) auto
  from le_less_trans [OF this kids_size] have "sum_list (map size (kids t)) < size t" .
  then show "((f, kids t @ ts, snd (f t s)), (f, t # ts, s)) \<in> measure (\<lambda>(f, ts, s). sum_list (map size ts))" by simp
qed simp

fun fold_until :: "('b \<Rightarrow> 's \<Rightarrow> bool \<times> 's) \<Rightarrow> 'b list \<Rightarrow> 's \<Rightarrow> 's" where
  "fold_until f [] s = s"
| "fold_until f (x # xs) s = (if fst (f x s) then fold_until f xs (snd (f x s)) else snd (f x s))"

lemma walk_nodes: "walk f ts s = fold_until f (nodes ts) s"
proof (induction f ts s rule: walk.induct)
  case (2 f t ts s)
  have n: "nodes (t # ts) = t # nodes (kids t @ ts)" by (cases t) simp
  show ?case
  proof (cases "fst (f t s)")
    case True
    with "2.IH" show ?thesis unfolding n walk.simps(2) fold_until.simps by simp
  next
    case False
    then show ?thesis unfolding n walk.simps(2) fold_until.simps by simp
  qed
qed simp

definition find_node :: "('a \<Rightarrow> bool) \<Rightarrow> 'a rose list \<Rightarrow> 'a rose option" where
  "find_node P ts = walk (\<lambda>t r. if P (lab t) then (False, Some t) else (True, r)) ts None"

lemma find_node_eq: "find_node P ts = List.find (\<lambda>t. P (lab t)) (nodes ts)"
proof -
  have "fold_until (\<lambda>t r. if P (lab t) then (False, Some t) else (True, r)) ns None = List.find (\<lambda>t. P (lab t)) ns" for ns
    by (induction ns) auto
  then show ?thesis by (simp add: find_node_def walk_nodes)
qed

lemma find_node_simps [simp]:
  "find_node P [] = None"
  "find_node P (Rose x cs # ts) =
     (if P x then Some (Rose x cs) else case find_node P cs of Some t \<Rightarrow> Some t | None \<Rightarrow> find_node P ts)"
proof -
  have "List.find Q (ns @ ms) = (case List.find Q ns of Some t \<Rightarrow> Some t | None \<Rightarrow> List.find Q ms)" for Q :: "'b \<Rightarrow> bool" and ns ms
    by (induction ns) auto
  note f = this
  show "find_node P [] = None" "find_node P (Rose x cs # ts) =
     (if P x then Some (Rose x cs) else case find_node P cs of Some t \<Rightarrow> Some t | None \<Rightarrow> find_node P ts)"
    by (simp_all add: find_node_eq f split: option.split)
qed

end
