(* ===== verification/Tr_State.thy ===== *)
theory Tr_State
  imports Rose Js_Value
begin

text \<open>
  The data of the tree, \<open>js/plugins/jquery.tree.js\<close>: the node objects, the elements of the page that show
  them, how one is found from the other (\<open>_c\<close>, \<open>_9a\<close>, \<open>_5a\<close>, \<open>_63\<close>), and the boxes (\<open>_34\<close>, \<open>_51\<close>).

  The node objects form a forest by their \<open>children\<close>, the elements (\<open>li\<close>, its \<open>div\<close>, its \<open>ul\<close>) another
  one; an object and its element share \<open>domId\<close>.  \<open>target\<close> and \<open>checked\<close> of an object are refreshed from
  the page (\<open>_c4\<close>) each time it is handed out; the model refreshes \<open>checked\<close> where it is read.
  A missing \<open>children\<close> is the empty list.  An operation that throws has no result (\<open>None\<close>).
\<close>

section \<open>Nodes and elements\<close>

record tnode =
  n_dom :: nat
  n_id :: jsval
  n_text :: string
  n_icon :: string
  n_state :: string
  n_checked :: bool
  n_mark :: "bool option"
  n_hidden :: bool

text \<open>
  The \<open>div\<close> of a node: its \<open>tree-indent\<close> spans, the \<open>tree-hit\<close> (expanded or collapsed), the classes of
  its icon, its box (\<open>tree-checkbox0\<close>, \<open>1\<close> or \<open>2\<close>), its title or the editor in it; and whether a \<open>ul\<close>
  follows, and is displayed.
\<close>

record telem =
  v_dom :: nat
  v_indent :: nat
  v_hit :: "bool option"
  v_folder :: bool
  v_open :: bool
  v_icon :: string
  v_loading :: bool
  v_box :: "nat option"
  v_title :: string
  v_edit :: "string option"
  v_selected :: bool
  v_hidden :: bool
  v_hover :: bool
  v_hitHover :: "bool option"
  v_ul :: "bool option"

datatype tevent =
    TClick nat | TDblClick nat | TContextMenu nat | TExpand nat | TCollapse nat | TCheck nat bool | TSelect nat
  | TLoadSuccess "nat option" | TLoadError | TAfterEdit nat | TCancelEdit nat | TDrop nat string

text \<open>What is left to do when the children of a node arrive: end its expansion, and then a drop into it.\<close>

datatype tcont = NoCont | ExpandCont nat "nat option"

text \<open>
  A request: the node whose icon shows that it is loading, the list to fill (that of a node, or of the
  tree; the number 0, which no element has, is a list that was taken out of the page), and the \<open>id\<close> sent.
\<close>

record trequest =
  p_div :: "nat option"
  p_ul :: "nat option"
  p_id :: "jsval option"
  p_cont :: tcont

record tree =
  tw_data :: "tnode rose list"
  tw_dom :: "telem rose list"
  tw_next :: nat
  tw_pending :: "trequest list"
  tw_mute :: bool
  tw_log :: "tevent list"
  to_checkbox :: bool
  to_cascade :: bool
  to_onlyLeaf :: bool
  to_deep :: bool
  to_url :: "string option"

definition tree_defaults :: tree where
  "tree_defaults = \<lparr>tw_data = [], tw_dom = [], tw_next = 1, tw_pending = [], tw_mute = False, tw_log = [],
     to_checkbox = False, to_cascade = True, to_onlyLeaf = False, to_deep = False, to_url = None\<rparr>"

text \<open>The callbacks whose result the code uses.\<close>

datatype tveto = TBeforeExpand | TBeforeCollapse | TBeforeSelect | TBeforeEdit

record tree_env =
  te_before :: "tveto \<Rightarrow> tnode \<Rightarrow> bool"
  te_check :: "tnode \<Rightarrow> bool \<Rightarrow> bool"
  te_load :: "tnode option \<Rightarrow> bool"
  te_formatter :: "tnode \<Rightarrow> string"
  te_filter :: "string \<Rightarrow> tnode \<Rightarrow> bool"
  te_drop :: "nat \<Rightarrow> tnode rose option \<Rightarrow> string \<Rightarrow> bool"

definition tree_env0 :: tree_env where
  "tree_env0 = \<lparr>te_before = (\<lambda>_ _. True), te_check = (\<lambda>_ _. True), te_load = (\<lambda>_. True), te_formatter = n_text,
     te_filter = (\<lambda>q n. q = n_text n), te_drop = (\<lambda>_ _ _. True)\<rparr>"

definition tr_emit :: "tevent \<Rightarrow> tree \<Rightarrow> tree" where
  "tr_emit e s = s\<lparr>tw_log := tw_log s @ [e]\<rparr>"

section \<open>Finding: \<open>_c\<close>, \<open>_dc\<close>, \<open>_9a\<close>, \<open>_5a\<close>, \<open>_c1\<close>, \<open>_bd\<close>, \<open>_d5\<close>\<close>

definition elem :: "nat \<Rightarrow> tree \<Rightarrow> telem rose option" where
  "elem d s = find_node (\<lambda>v. v_dom v = d) (tw_dom s)"

definition upd_elem :: "nat \<Rightarrow> (telem \<Rightarrow> telem) \<Rightarrow> tree \<Rightarrow> tree" where
  "upd_elem d f s = s\<lparr>tw_dom := relabel (\<lambda>v. if v_dom v = d then f v else v) (tw_dom s)\<rparr>"

definition upd_node :: "nat \<Rightarrow> (tnode \<Rightarrow> tnode) \<Rightarrow> tree \<Rightarrow> tree" where
  "upd_node d f s = s\<lparr>tw_data := relabel (\<lambda>n. if n_dom n = d then f n else n) (tw_data s)\<rparr>"

definition box_is :: "nat \<Rightarrow> nat \<Rightarrow> tree \<Rightarrow> bool" where
  "box_is k d s \<longleftrightarrow> (case elem d s of None \<Rightarrow> False | Some t \<Rightarrow> v_box (lab t) = Some k)"

definition fresh :: "tree \<Rightarrow> tnode \<Rightarrow> tnode" where
  "fresh s n = n\<lparr>n_checked := box_is 1 (n_dom n) s\<rparr>"

definition get_node :: "nat \<Rightarrow> tree \<Rightarrow> tnode rose option" where
  "get_node d s = find_node (\<lambda>n. n_dom n = d) (tw_data s)"

definition find_id :: "jsval \<Rightarrow> tree \<Rightarrow> tnode rose option" where
  "find_id k s = find_node (\<lambda>n. loose_eq (n_id n) k) (tw_data s)"

definition tr_above :: "nat \<Rightarrow> tree \<Rightarrow> nat list" where
  "tr_above d s = (case path_to (\<lambda>v. v_dom v = d) (tw_dom s) of None \<Rightarrow> [] | Some p \<Rightarrow> rev (map v_dom p))"

text \<open>The parents of a node, nearest first, as far as their objects are found.\<close>

definition get_parents :: "nat \<Rightarrow> tree \<Rightarrow> nat list" where
  "get_parents d s = takeWhile (\<lambda>p. get_node p s \<noteq> None) (tr_above d s)"

definition get_parent :: "nat \<Rightarrow> tree \<Rightarrow> nat option" where
  "get_parent d s = (case get_parents d s of [] \<Rightarrow> None | p # _ \<Rightarrow> Some p)"

definition get_roots :: "tree \<Rightarrow> tnode list" where
  "get_roots s = map (\<lambda>t. fresh s (lab t)) (tw_data s)"

text \<open>The nodes below a node, or all.\<close>

definition get_children :: "nat option \<Rightarrow> tree \<Rightarrow> tnode list" where
  "get_children d s =
     (let cs = (case d of None \<Rightarrow> tw_data s | Some d \<Rightarrow> (case get_node d s of None \<Rightarrow> tw_data s | Some t \<Rightarrow> kids t))
      in walk (\<lambda>t l. (True, l @ [fresh s (lab t)])) cs [])"

definition get_root :: "nat option \<Rightarrow> tree \<Rightarrow> tnode option" where
  "get_root d s =
     (case d of
        None \<Rightarrow> (case get_roots s of [] \<Rightarrow> None | n # _ \<Rightarrow> Some n)
      | Some d \<Rightarrow> map_option (\<lambda>t. fresh s (lab t)) (get_node (case rev (get_parents d s) of [] \<Rightarrow> d | r # _ \<Rightarrow> r) s))"

definition get_data :: "nat \<Rightarrow> tree \<Rightarrow> tnode rose option" where
  "get_data d s = map_option (map_rose (fresh s)) (get_node d s)"

text \<open>\<open>getChecked\<close> and \<open>getSelected\<close> read the page.\<close>

definition check_class :: "string \<Rightarrow> nat option" where
  "check_class x = (if x = ''checked'' then Some 1 else if x = ''unchecked'' then Some 0 else if x = ''indeterminate'' then Some 2 else None)"

definition get_checked_nodes :: "string list \<Rightarrow> tree \<Rightarrow> tnode option list" where
  "get_checked_nodes xs s =
     map (\<lambda>v. map_option (\<lambda>t. fresh s (lab t)) (get_node (v_dom v) s))
       (filter (\<lambda>v. v_box v \<noteq> None \<and> v_box v \<in> set (filter (\<lambda>c. c \<noteq> None) (map check_class xs))) (labels (tw_dom s)))"

definition get_selected_node :: "tree \<Rightarrow> tnode option" where
  "get_selected_node s =
     (case filter v_selected (labels (tw_dom s)) of [] \<Rightarrow> None | v # _ \<Rightarrow> map_option (\<lambda>t. fresh s (lab t)) (get_node (v_dom v) s))"

definition is_leaf_elem :: "nat \<Rightarrow> tree \<Rightarrow> bool" where
  "is_leaf_elem d s \<longleftrightarrow> (case elem d s of None \<Rightarrow> True | Some t \<Rightarrow> v_hit (lab t) = None)"

section \<open>Boxes: \<open>_34\<close>\<close>

definition box_num :: "bool \<Rightarrow> nat" where
  "box_num b = (if b then 1 else 0)"

definition put_box :: "nat \<Rightarrow> telem \<Rightarrow> telem" where
  "put_box k v = v\<lparr>v_box := map_option (\<lambda>_. k) (v_box v)\<rparr>"

definition set_box :: "nat \<Rightarrow> nat \<Rightarrow> tree \<Rightarrow> tree" where
  "set_box k d s = upd_elem d (put_box k) s"

text \<open>A node that is filtered out keeps its box, and its parent becomes indeterminate when that box differs.\<close>

definition mark_one :: "bool \<Rightarrow> tnode rose \<Rightarrow> tree \<Rightarrow> tree" where
  "mark_one b t s =
     (if n_hidden (lab t) then s
      else
        let d = n_dom (lab t); s = set_box (box_num b) d s in
        if list_ex (\<lambda>c. n_hidden (lab c) \<and> \<not> box_is (box_num b) (n_dom (lab c)) s) (kids t)
        then let s = set_box 2 d s in (case get_parent d s of None \<Rightarrow> s | Some p \<Rightarrow> set_box 2 p s)
        else s)"

definition below :: "nat \<Rightarrow> tree \<Rightarrow> nat list" where
  "below d s = (case elem d s of None \<Rightarrow> [] | Some t \<Rightarrow> map v_dom (labels [t]))"

definition mark_down :: "bool \<Rightarrow> tnode rose \<Rightarrow> tree \<Rightarrow> tree" where
  "mark_down b t s =
     (if to_deep s then fold (set_box (box_num b)) (below (n_dom (lab t)) s) s
      else walk (\<lambda>t s. (True, mark_one b t s)) (kids t) (mark_one b t s))"

text \<open>The nodes above: a box is \<open>1\<close> or \<open>0\<close> when all boxes of the children are, else \<open>2\<close>.\<close>

definition all_same :: "bool \<Rightarrow> nat \<Rightarrow> telem rose list \<Rightarrow> bool" where
  "all_same b d ts \<longleftrightarrow>
     list_all (\<lambda>t. if v_dom (lab t) = d then v_box (lab t) = Some (box_num b)
        else v_box (lab t) = None \<or> v_box (lab t) = Some (box_num b)) (level_of (\<lambda>v. v_dom v = d) ts)"

definition box_above :: "nat \<Rightarrow> telem rose list \<Rightarrow> nat" where
  "box_above d ts = (if all_same True d ts then 1 else if all_same False d ts then 0 else 2)"

fun fix_path :: "nat list \<Rightarrow> nat \<Rightarrow> tree \<Rightarrow> tree" where
  "fix_path [] d s = s"
| "fix_path (p # ps) d s = fix_path ps p (set_box (box_above d (tw_dom s)) p s)"

definition check_flag :: "bool option \<Rightarrow> tnode \<Rightarrow> tree \<Rightarrow> bool" where
  "check_flag b n s =
     (case b of
        Some b \<Rightarrow> b
      | None \<Rightarrow>
          if box_is 1 (n_dom n) s then False
          else if box_is 0 (n_dom n) s then True
          else (case n_mark n of None \<Rightarrow> True | Some m \<Rightarrow> \<not> m))"

definition check_node :: "tree_env \<Rightarrow> nat \<Rightarrow> bool option \<Rightarrow> tree \<Rightarrow> tree option" where
  "check_node E d flag s =
     (if \<not> to_checkbox s then Some s
      else
        case get_node d s of
          None \<Rightarrow> None
        | Some t \<Rightarrow>
            let b = check_flag flag (lab t) s; s = upd_node d (\<lambda>n. n\<lparr>n_mark := Some b\<rparr>) s in
            if \<not> te_check E ((fresh s (lab t))\<lparr>n_mark := Some b\<rparr>) b then Some s
            else
              let s = (if to_cascade s then fix_path (get_parents d s) d (mark_down b t s) else set_box (box_num b) d s)
              in Some (if tw_mute s then s else tr_emit (TCheck d b) s))"

text \<open>\<open>_51\<close>: a node that gained or lost its children.\<close>

definition set_leaf :: "tree_env \<Rightarrow> nat \<Rightarrow> tree \<Rightarrow> tree option" where
  "set_leaf E d s =
     (if \<not> to_checkbox s then Some s
      else
        case elem d s of
          None \<Rightarrow> Some s
        | Some t \<Rightarrow>
            if v_hit (lab t) = None then
              (case v_box (lab t) of
                 Some k \<Rightarrow> check_node E d (Some (k = 1)) s
               | None \<Rightarrow> Some (if to_onlyLeaf s then upd_elem d (\<lambda>v. v\<lparr>v_box := Some 0\<rparr>) s else s))
            else if to_onlyLeaf s then Some (upd_elem d (\<lambda>v. v\<lparr>v_box := None\<rparr>) s)
            else if v_box (lab t) = Some 1 then check_node E d (Some True) s
            else if v_box (lab t) = Some 2 then
              let cs = get_children (Some d) s; s1 = (if list_all n_checked cs then check_node E d (Some True) s else Some s)
              in if list_all (\<lambda>n. \<not> n_checked n) cs then Option.bind s1 (check_node E d (Some False)) else s1
            else Some s)"

end
