(* ===== verification/Tr_Load.thy ===== *)
theory Tr_Load
  imports Tr_State
begin

text \<open>
  The tree, \<open>js/plugins/jquery.tree.js\<close>: drawing nodes (\<open>_127\<close>), loading them into a list (\<open>_5b\<close>), asking
  for them (\<open>_79\<close>), expanding and collapsing (\<open>_83\<close> to \<open>_a0\<close>), changing the forest (\<open>_a4\<close>, \<open>_aa\<close>, \<open>_b0\<close>,
  \<open>_64\<close>), selecting, editing a title, filtering, and the mouse.

  \<open>loadFilter\<close> and \<open>loader\<close> are those of the defaults, nothing is animated, and the lines that
  connect the nodes are not drawn.
\<close>

section \<open>Drawing: lines 1110-1160\<close>

definition norm_state :: "string \<Rightarrow> string" where
  "norm_state x = (if x \<noteq> ''open'' \<and> x \<noteq> ''closed'' then ''open'' else x)"

fun number :: "nat \<Rightarrow> tnode rose list \<Rightarrow> tnode rose list \<times> nat" where
  "number k [] = ([], k)"
| "number k (Rose n cs # ts) =
     (let (cs', k') = number (Suc k) cs; (ts', k'') = number k' ts
      in (Rose (n\<lparr>n_dom := k, n_state := norm_state (n_state n)\<rparr>) cs' # ts', k''))"

definition render_node :: "tree_env \<Rightarrow> tree \<Rightarrow> nat \<Rightarrow> bool \<Rightarrow> tnode \<Rightarrow> telem" where
  "render_node E s k full n =
     (let closed = n_state n = ''closed''; leaf = (\<not> closed \<and> \<not> full)
      in \<lparr>v_dom = n_dom n, v_indent = (if leaf then Suc k else k),
          v_hit = (if closed then Some False else if full then Some True else None),
          v_folder = (\<not> leaf), v_open = (\<not> closed \<and> full), v_icon = n_icon n, v_loading = False,
          v_box = (if to_checkbox s \<and> (\<not> to_onlyLeaf s \<or> leaf) then Some 0 else None),
          v_title = te_formatter E n, v_edit = None, v_selected = False, v_hidden = False, v_hover = False,
          v_hitHover = None, v_ul = (if full then Some (\<not> closed) else None)\<rparr>)"

fun render_items :: "tree_env \<Rightarrow> tree \<Rightarrow> nat \<Rightarrow> tnode rose list \<Rightarrow> telem rose list" where
  "render_items E s k [] = []"
| "render_items E s k (Rose n cs # ts) =
     Rose (render_node E s k (cs \<noteq> []) n) (render_items E s (Suc k) cs) # render_items E s k ts"

section \<open>Loading: \<open>_5b\<close>\<close>

definition set_title :: "tree_env \<Rightarrow> nat \<Rightarrow> tree \<Rightarrow> tree" where
  "set_title E d s =
     (case get_node d s of None \<Rightarrow> s | Some t \<Rightarrow> upd_elem d (\<lambda>v. v\<lparr>v_title := te_formatter E (fresh s (lab t)), v_edit := None\<rparr>) s)"

definition check_elem :: "tree_env \<Rightarrow> bool \<Rightarrow> tree \<Rightarrow> nat \<Rightarrow> tree option" where
  "check_elem E b s d = (if to_checkbox s \<and> elem d s = None then None else check_node E d (Some b) s)"

definition dom_kids :: "nat option \<Rightarrow> (telem rose list \<Rightarrow> telem rose list) \<Rightarrow> tree \<Rightarrow> tree" where
  "dom_kids p h s =
     s\<lparr>tw_dom := (case p of None \<Rightarrow> h (tw_dom s) | Some d \<Rightarrow> set_kids (\<lambda>v. v_dom v = d) h (tw_dom s))\<rparr>"

definition data_kids :: "nat option \<Rightarrow> (tnode rose list \<Rightarrow> tnode rose list) \<Rightarrow> tree \<Rightarrow> tree" where
  "data_kids p h s =
     s\<lparr>tw_data := (case p of None \<Rightarrow> h (tw_data s) | Some d \<Rightarrow> set_kids (\<lambda>n. n_dom n = d) h (tw_data s))\<rparr>"

definition list_depth :: "nat option \<Rightarrow> tree \<Rightarrow> nat" where
  "list_depth p s =
     (case p of
        None \<Rightarrow> 0
      | Some d \<Rightarrow> (case elem d s of None \<Rightarrow> 0 | Some t \<Rightarrow> v_indent (lab t) + (if v_hit (lab t) = None then 0 else 1)))"

text \<open>The list of a node that is no longer among the data takes the place of all the data.\<close>

definition put_data :: "tree_env \<Rightarrow> nat option \<Rightarrow> tnode rose list \<Rightarrow> bool \<Rightarrow> tree \<Rightarrow> tnode rose list \<times> tree" where
  "put_data E p data app s =
     (let found = (case p of None \<Rightarrow> None | Some d \<Rightarrow> map_option (\<lambda>_. d) (get_node d s));
          (new, k) = number (tw_next s) data;
          items = render_items E s (list_depth p s) new;
          s = (data_kids found (\<lambda>cs. (if app then cs else []) @ new) s)\<lparr>tw_next := k\<rparr>;
          s = dom_kids p (\<lambda>cs. (if app then cs else []) @ items) s
      in (new, case found of None \<Rightarrow> s | Some d \<Rightarrow> set_title E d s))"

definition first_unchecked :: "tnode rose list \<Rightarrow> nat list" where
  "first_unchecked new = take 1 (map n_dom (filter (\<lambda>n. \<not> n_checked n) (map lab new)))"

definition flagged :: "tnode rose list \<Rightarrow> nat list" where
  "flagged new = walk (\<lambda>t l. (True, if n_checked (lab t) then l @ [n_dom (lab t)] else l)) new []"

definition load_nodes :: "tree_env \<Rightarrow> nat option \<Rightarrow> tnode rose list \<Rightarrow> bool \<Rightarrow> tree \<Rightarrow> tree option" where
  "load_nodes E p data app s =
     (let found = (case p of None \<Rightarrow> None | Some d \<Rightarrow> map_option (\<lambda>_. d) (get_node d s));
          (new, s) = put_data E p data app s
      in case foldM (check_elem E False) (s\<lparr>tw_mute := True\<rparr>) (first_unchecked new) of
           None \<Rightarrow> None
         | Some s \<Rightarrow>
             map_option (\<lambda>s. tr_emit (TLoadSuccess found) (s\<lparr>tw_mute := False\<rparr>))
               (foldM (check_elem E True) s (flagged new)))"

text \<open>\<open>update\<close>: the fields given; the title is drawn again.\<close>

record tchange =
  c_text :: "string option"
  c_icon :: "string option"
  c_id :: "jsval option"
  c_state :: "string option"
  c_check :: "bool option"

definition opt :: "'a option \<Rightarrow> 'a \<Rightarrow> 'a" where
  "opt x y = (case x of None \<Rightarrow> y | Some z \<Rightarrow> z)"

definition apply_change :: "tchange \<Rightarrow> tnode \<Rightarrow> tnode" where
  "apply_change c n = n\<lparr>n_text := opt (c_text c) (n_text n), n_icon := opt (c_icon c) (n_icon n), n_id := opt (c_id c) (n_id n),
     n_state := opt (c_state c) (n_state n)\<rparr>"

definition update_node :: "tree_env \<Rightarrow> nat \<Rightarrow> tchange \<Rightarrow> tree \<Rightarrow> tree option" where
  "update_node E d c s =
     (case get_node d s of
        None \<Rightarrow> None
      | Some t \<Rightarrow>
          let old = box_is 1 d s; n = apply_change c (lab t); s = upd_node d (apply_change c) s;
              s = upd_elem d (\<lambda>v. v\<lparr>v_title := te_formatter E (n\<lparr>n_checked := opt (c_check c) old\<rparr>), v_edit := None, v_icon := n_icon n\<rparr>) s
          in if opt (c_check c) old \<noteq> old then check_node E d (c_check c) s else Some s)"

section \<open>Changing the forest: \<open>_a4\<close>, \<open>_aa\<close>, \<open>_b0\<close>\<close>

text \<open>A leaf gets the icon and the hit of a folder; the hit takes the place of the last indent.\<close>

definition make_folder :: "telem \<Rightarrow> telem" where
  "make_folder v =
     (let v = (if v_hit v = None then v\<lparr>v_folder := True, v_open := True, v_hit := Some True, v_indent := v_indent v - 1\<rparr> else v)
      in if v_ul v = None then v\<lparr>v_ul := Some True\<rparr> else v)"

definition append_nodes :: "tree_env \<Rightarrow> nat option \<Rightarrow> tnode rose list \<Rightarrow> tree \<Rightarrow> tree option" where
  "append_nodes E p data s =
     (if data = [] then Some s
      else
        case p of
          None \<Rightarrow> load_nodes E None data True s
        | Some d \<Rightarrow> Option.bind (load_nodes E (Some d) data True (upd_elem d make_folder s)) (set_leaf E d))"

definition move_last :: "bool \<Rightarrow> nat \<Rightarrow> nat \<Rightarrow> tnode rose list \<Rightarrow> tnode rose list" where
  "move_last front d m xs =
     (case index_where (\<lambda>t. n_dom (lab t) = d) xs of
        None \<Rightarrow> xs
      | Some i \<Rightarrow>
          let k = (if front then i else Suc i); ys = take k xs @ drop (length xs - m) xs @ drop k xs
          in take (length ys - m) ys)"

definition move_items :: "bool \<Rightarrow> nat \<Rightarrow> nat list \<Rightarrow> telem rose list \<Rightarrow> telem rose list" where
  "move_items front d ds ts =
     (let li = filter (\<lambda>t. v_dom (lab t) \<in> set ds) (nodes ts)
      in alter (\<lambda>v. v_dom v = d) (\<lambda>t. if front then li @ [t] else t # li) (alter (\<lambda>v. v_dom v \<in> set ds) (\<lambda>_. []) ts))"

definition insert_nodes :: "tree_env \<Rightarrow> bool \<Rightarrow> nat \<Rightarrow> tnode rose list \<Rightarrow> tree \<Rightarrow> tree option" where
  "insert_nodes E front d data s =
     (if data = [] then Some s
      else
        let p = get_parent d s; ds = map (\<lambda>t. n_dom (lab t)) (fst (number (tw_next s) data)) in
        map_option (\<lambda>s. (data_kids p (move_last front d (length data)) s)\<lparr>tw_dom := move_items front d ds (tw_dom s)\<rparr>)
          (append_nodes E p data s))"

definition make_leaf :: "telem \<Rightarrow> telem" where
  "make_leaf v = v\<lparr>v_folder := False, v_hit := None, v_indent := Suc (v_indent v), v_ul := None\<rparr>"

definition detach :: "nat \<Rightarrow> tree \<Rightarrow> tree" where
  "detach d s = dom_kids (Some d) (\<lambda>_. [])
     (s\<lparr>tw_pending := map (\<lambda>p. if p_ul p = Some d then p\<lparr>p_ul := Some 0\<rparr> else p) (tw_pending s)\<rparr>)"

definition drop_node :: "nat \<Rightarrow> tnode rose list \<Rightarrow> tnode rose list" where
  "drop_node d cs = (case index_where (\<lambda>t. n_dom (lab t) = d) cs of None \<Rightarrow> cs | Some i \<Rightarrow> splice_del i cs)"

definition remove_node :: "tree_env \<Rightarrow> nat \<Rightarrow> tree \<Rightarrow> tree option" where
  "remove_node E d s =
     (let p = get_parent d s; s = data_kids p (drop_node d) s;
          s = s\<lparr>tw_dom := alter (\<lambda>v. v_dom v = d) (\<lambda>_. []) (tw_dom s)\<rparr>
      in case p of
           None \<Rightarrow> Some s
         | Some p \<Rightarrow>
             let empty = (case get_node p s of None \<Rightarrow> True | Some t \<Rightarrow> kids t = []);
                 s = (if empty then detach p (upd_elem p make_leaf s) else s)
             in set_leaf E p (set_title E p s))"

definition pop_node :: "tree_env \<Rightarrow> nat \<Rightarrow> tree \<Rightarrow> (tnode rose option \<times> tree) option" where
  "pop_node E d s = map_option (Pair (get_data d s)) (remove_node E d s)"

text \<open>The end of a drop into a node, and a drop next to one.\<close>

definition drop_into :: "tree_env \<Rightarrow> nat \<Rightarrow> nat \<Rightarrow> tree \<Rightarrow> tree option" where
  "drop_into E src d s =
     Option.bind (pop_node E src s) (\<lambda>(t, s). map_option (tr_emit (TDrop d ''append''))
       (append_nodes E (Some d) (case t of None \<Rightarrow> [] | Some t \<Rightarrow> [t]) s))"

definition drop_beside :: "tree_env \<Rightarrow> bool \<Rightarrow> nat \<Rightarrow> nat \<Rightarrow> tree \<Rightarrow> tree option" where
  "drop_beside E front src d s =
     Option.bind (pop_node E src s) (\<lambda>(t, s). map_option (tr_emit (TDrop d (if front then ''top'' else ''bottom'')))
       (insert_nodes E front d (case t of None \<Rightarrow> [] | Some t \<Rightarrow> [t]) s))"

section \<open>Requests: \<open>_79\<close>\<close>

definition set_loading :: "bool \<Rightarrow> nat option \<Rightarrow> tree \<Rightarrow> tree" where
  "set_loading b p s = (case p of None \<Rightarrow> s | Some d \<Rightarrow> upd_elem d (\<lambda>v. if v_folder v then v\<lparr>v_loading := b\<rparr> else v) s)"

definition ask_nodes :: "tree_env \<Rightarrow> nat option \<Rightarrow> jsval option \<Rightarrow> tcont \<Rightarrow> tree \<Rightarrow> tree" where
  "ask_nodes E p k c s =
     (let node = (case p of None \<Rightarrow> None | Some d \<Rightarrow> map_option (\<lambda>t. fresh s (lab t)) (get_node d s)) in
      if \<not> te_load E node then s
      else case to_url s of
             None \<Rightarrow> set_loading False p (set_loading True p s)
           | Some u \<Rightarrow>
               if u = [] then set_loading False p (set_loading True p s)
               else (set_loading True p s)\<lparr>tw_pending := tw_pending s @ [\<lparr>p_div = p, p_ul = p, p_id = k, p_cont = c\<rparr>]\<rparr>)"

section \<open>Expanding: \<open>_83\<close>, \<open>_8a\<close>, \<open>_8f\<close>, \<open>_92\<close>, \<open>_96\<close>, \<open>_a0\<close>\<close>

definition end_expand :: "tree_env \<Rightarrow> nat \<Rightarrow> nat option \<Rightarrow> tree \<Rightarrow> tree option" where
  "end_expand E d src s =
     (let s = tr_emit (TExpand d) (upd_node d (\<lambda>n. n\<lparr>n_state := ''open''\<rparr>) s)
      in case src of None \<Rightarrow> Some s | Some x \<Rightarrow> drop_into E x d s)"

definition hit_open :: "telem \<Rightarrow> telem" where
  "hit_open v = v\<lparr>v_hit := Some True, v_hitHover := (if v_hitHover v = Some False then None else v_hitHover v), v_open := True\<rparr>"

definition expand_node :: "tree_env \<Rightarrow> nat \<Rightarrow> nat option \<Rightarrow> tree \<Rightarrow> tree option" where
  "expand_node E d src s =
     (case elem d s of
        None \<Rightarrow> Some s
      | Some t \<Rightarrow>
          if v_hit (lab t) \<noteq> Some False then Some s
          else
            case get_node d s of
              None \<Rightarrow> None
            | Some n \<Rightarrow>
                if \<not> te_before E TBeforeExpand (fresh s (lab n)) then Some s
                else
                  let s = upd_elem d hit_open s in
                  if v_ul (lab t) \<noteq> None then end_expand E d src (upd_elem d (\<lambda>v. v\<lparr>v_ul := Some True\<rparr>) s)
                  else Some (ask_nodes E (Some d) (Some (n_id (lab n))) (ExpandCont d src) (upd_elem d (\<lambda>v. v\<lparr>v_ul := Some False\<rparr>) s)))"

definition collapse_node :: "tree_env \<Rightarrow> nat \<Rightarrow> tree \<Rightarrow> tree option" where
  "collapse_node E d s =
     (case elem d s of
        None \<Rightarrow> Some s
      | Some t \<Rightarrow>
          if v_hit (lab t) \<noteq> Some True then Some s
          else
            case get_node d s of
              None \<Rightarrow> None
            | Some n \<Rightarrow>
                if \<not> te_before E TBeforeCollapse (fresh s (lab n)) then Some s
                else
                  Some (tr_emit (TCollapse d) (upd_node d (\<lambda>n. n\<lparr>n_state := ''closed''\<rparr>)
                    (upd_elem d (\<lambda>v. v\<lparr>v_hit := Some False, v_hitHover := (if v_hitHover v = Some True then None else v_hitHover v),
                       v_open := False, v_ul := map_option (\<lambda>_. False) (v_ul v)\<rparr>) s))))"

definition toggle_node :: "tree_env \<Rightarrow> nat \<Rightarrow> tree \<Rightarrow> tree option" where
  "toggle_node E d s =
     (case elem d s of
        None \<Rightarrow> Some s
      | Some t \<Rightarrow>
          (case v_hit (lab t) of None \<Rightarrow> Some s | Some b \<Rightarrow> if b then collapse_node E d s else expand_node E d None s))"

definition all_nodes :: "nat option \<Rightarrow> tree \<Rightarrow> nat list" where
  "all_nodes p s = (case p of None \<Rightarrow> [] | Some d \<Rightarrow> [d]) @ map n_dom (get_children p s)"

definition expand_all :: "tree_env \<Rightarrow> nat option \<Rightarrow> tree \<Rightarrow> tree option" where
  "expand_all E p s = foldM (\<lambda>s d. expand_node E d None s) s (all_nodes p s)"

definition collapse_all :: "tree_env \<Rightarrow> nat option \<Rightarrow> tree \<Rightarrow> tree option" where
  "collapse_all E p s = foldM (\<lambda>s d. collapse_node E d s) s (all_nodes p s)"

definition expand_to :: "tree_env \<Rightarrow> nat \<Rightarrow> tree \<Rightarrow> tree option" where
  "expand_to E d s = foldM (\<lambda>s p. expand_node E p None s) s (rev (get_parents d s))"

text \<open>An answer to the \<open>j\<close>-th request under way, and its failure.\<close>

definition resume :: "tree_env \<Rightarrow> trequest \<Rightarrow> tree \<Rightarrow> tree option" where
  "resume E p s =
     (case p_cont p of
        NoCont \<Rightarrow> Some s
      | ExpandCont d src \<Rightarrow>
          end_expand E d src
            (if p_ul p = Some d
             then upd_elem d (\<lambda>v. v\<lparr>v_ul := (case elem d s of None \<Rightarrow> None | Some t \<Rightarrow> if kids t = [] then None else Some True)\<rparr>) s
             else s))"

definition take_answer :: "nat \<Rightarrow> tree \<Rightarrow> tree" where
  "take_answer j s = set_loading False (p_div (tw_pending s ! j)) (s\<lparr>tw_pending := splice_del j (tw_pending s)\<rparr>)"

definition answer_nodes :: "tree_env \<Rightarrow> nat \<Rightarrow> tnode rose list \<Rightarrow> tree \<Rightarrow> tree option" where
  "answer_nodes E j data s =
     (if j < length (tw_pending s)
      then let p = tw_pending s ! j in Option.bind (load_nodes E (p_ul p) data False (take_answer j s)) (resume E p)
      else Some s)"

definition answer_failed :: "tree_env \<Rightarrow> nat \<Rightarrow> tree \<Rightarrow> tree option" where
  "answer_failed E j s =
     (if j < length (tw_pending s) then resume E (tw_pending s ! j) (tr_emit TLoadError (take_answer j s)) else Some s)"

definition reload_node :: "tree_env \<Rightarrow> nat option \<Rightarrow> tree \<Rightarrow> tree option" where
  "reload_node E p s =
     (case p of
        None \<Rightarrow> Some (ask_nodes E None None NoCont (s\<lparr>tw_dom := []\<rparr>))
      | Some d \<Rightarrow>
          expand_node E d None (detach d
            (upd_elem d (\<lambda>v. v\<lparr>v_hit := map_option (\<lambda>_. False) (v_hit v),
               v_hitHover := (if v_hitHover v = Some True then None else v_hitHover v), v_ul := None\<rparr>) s)))"

text \<open>\<open>$.fn.tree\<close>: the options are in place; \<open>data\<close> is the option of that name.\<close>

definition tree_start :: "tree_env \<Rightarrow> tnode rose list option \<Rightarrow> tree \<Rightarrow> tree option" where
  "tree_start E data s =
     map_option (ask_nodes E None None NoCont) (case data of None \<Rightarrow> Some s | Some l \<Rightarrow> load_nodes E None l False s)"

section \<open>Selecting, editing, filtering: \<open>_e9\<close>, \<open>_f0\<close>, \<open>_f7\<close>, \<open>_fd\<close>, \<open>_100\<close>\<close>

definition select_node :: "tree_env \<Rightarrow> nat \<Rightarrow> tree \<Rightarrow> tree" where
  "select_node E d s =
     (if (case get_node d s of None \<Rightarrow> True | Some t \<Rightarrow> te_before E TBeforeSelect (fresh s (lab t)))
      then tr_emit (TSelect d) (s\<lparr>tw_dom := relabel (\<lambda>v. v\<lparr>v_selected := (v_dom v = d)\<rparr>) (tw_dom s)\<rparr>)
      else s)"

definition begin_title :: "tree_env \<Rightarrow> nat \<Rightarrow> tree \<Rightarrow> tree option" where
  "begin_title E d s =
     (case get_node d s of
        None \<Rightarrow> None
      | Some t \<Rightarrow>
          Some (if te_before E TBeforeEdit (fresh s (lab t))
                then upd_elem d (\<lambda>v. v\<lparr>v_title := [], v_edit := Some (n_text (lab t))\<rparr>) s else s))"

definition type_title :: "nat \<Rightarrow> string \<Rightarrow> tree \<Rightarrow> tree" where
  "type_title d x s = upd_elem d (\<lambda>v. v\<lparr>v_edit := map_option (\<lambda>_. x) (v_edit v)\<rparr>) s"

text \<open>The end of an edit takes the text of the input over, so there must be one.\<close>

definition end_title :: "tree_env \<Rightarrow> nat \<Rightarrow> tree \<Rightarrow> tree option" where
  "end_title E d s =
     (case (get_node d s, elem d s) of
        (Some n, Some t) \<Rightarrow>
          map_option (\<lambda>x. tr_emit (TAfterEdit d) (set_title E d (upd_node d (\<lambda>n. n\<lparr>n_text := x\<rparr>) s))) (v_edit (lab t))
      | _ \<Rightarrow> None)"

definition cancel_title :: "tree_env \<Rightarrow> nat \<Rightarrow> tree \<Rightarrow> tree option" where
  "cancel_title E d s = (if get_node d s = None then None else Some (tr_emit (TCancelEdit d) (set_title E d s)))"

definition show_filtered :: "bool \<Rightarrow> nat \<Rightarrow> tree \<Rightarrow> tree" where
  "show_filtered b d s = upd_node d (\<lambda>n. n\<lparr>n_hidden := \<not> b\<rparr>) (upd_elem d (\<lambda>v. v\<lparr>v_hidden := \<not> b\<rparr>) s)"

definition filter_step :: "tree_env \<Rightarrow> string \<Rightarrow> tnode rose \<Rightarrow> tree \<times> nat list \<Rightarrow> tree \<times> nat list" where
  "filter_step E q t p =
     (if te_filter E q (lab t) then (show_filtered True (n_dom (lab t)) (fst p), snd p @ [n_dom (lab t)])
      else (show_filtered False (n_dom (lab t)) (fst p), snd p))"

definition do_filter :: "tree_env \<Rightarrow> string \<Rightarrow> tree \<Rightarrow> tree" where
  "do_filter E q s =
     (let (s, ds) = walk (\<lambda>t p. (True, filter_step E q t p)) (tw_data s) (s, [])
      in fold (\<lambda>d s. fold (show_filtered True) (get_parents d s) s) ds s)"

text \<open>\<open>onDrop\<close>: into a node, which is opened first when it is closed, or above or below one.\<close>

definition tree_drop :: "tree_env \<Rightarrow> nat \<Rightarrow> nat \<Rightarrow> string \<Rightarrow> tree \<Rightarrow> tree option" where
  "tree_drop E src d pos s =
     (if \<not> te_drop E d (get_data src s) pos then Some s
      else if pos = ''append'' then
        (case get_node d s of
           None \<Rightarrow> None
         | Some t \<Rightarrow> if n_state (lab t) = ''closed'' then expand_node E d (Some src) s else drop_into E src d s)
      else drop_beside E (pos = ''top'') src d s)"

section \<open>The mouse: \<open>_4\<close>\<close>

datatype ttarget = OnHit | OnNodeBox | OnTitle

definition tree_click :: "tree_env \<Rightarrow> nat \<Rightarrow> ttarget \<Rightarrow> tree \<Rightarrow> tree option" where
  "tree_click E d x s =
     (case x of
        OnHit \<Rightarrow> toggle_node E d s
      | OnNodeBox \<Rightarrow> check_node E d None s
      | OnTitle \<Rightarrow> Some (tr_emit (TClick d) (select_node E d s)))"

definition tree_dblclick :: "tree_env \<Rightarrow> nat \<Rightarrow> tree \<Rightarrow> tree" where
  "tree_dblclick E d s = tr_emit (TDblClick d) (select_node E d s)"

definition tree_menu :: "nat \<Rightarrow> tree \<Rightarrow> tree" where
  "tree_menu d s = tr_emit (TContextMenu d) s"

definition tree_over :: "nat \<Rightarrow> ttarget \<Rightarrow> tree \<Rightarrow> tree" where
  "tree_over d x s = upd_elem d (\<lambda>v. v\<lparr>v_hover := True, v_hitHover := (if x = OnHit then v_hit v else v_hitHover v)\<rparr>) s"

definition tree_out :: "nat \<Rightarrow> ttarget \<Rightarrow> tree \<Rightarrow> tree" where
  "tree_out d x s =
     upd_elem d (\<lambda>v. v\<lparr>v_hover := False, v_hitHover := (if x = OnHit \<and> v_hitHover v = v_hit v then None else v_hitHover v)\<rparr>) s"

end
