(* ===== verification/Tr_Check.thy ===== *)
theory Tr_Check
  imports Tr_Load
begin

text \<open>
  Checking a node, \<open>_34\<close> of \<open>js/plugins/jquery.tree.js\<close>: the walks down and up of the code are one
  recursion over the page (\<open>check_in\<close>), which keeps the boxes of folders in accord with those of their
  children.
\<close>

section \<open>Forests and identifiers\<close>

lemma path_to_relabel: "path_to P (relabel g ts) = map_option (map g) (path_to (\<lambda>x. P (g x)) ts)"
  by (induction ts rule: forest_induct) (auto split: option.split)

lemma find_node_relabel: "find_node P (relabel g ts) = map_option (map_rose g) (find_node (\<lambda>x. P (g x)) ts)"
proof (induction ts rule: forest_induct)
  case (Rose x cs ts)
  have "map_rose g (Rose x cs) = Rose (g x) (relabel g cs)" by (simp add: relabel_def)
  with Rose show ?case by (simp split: option.split)
qed simp

lemma find_node_None: "find_node P ts = None \<longleftrightarrow> (\<forall>x\<in>set (labels ts). \<not> P x)"
  by (induction ts rule: forest_induct) (auto split: option.split)

lemma find_node_Some: "find_node P ts = Some t \<Longrightarrow> P (lab t) \<and> lab t \<in> set (labels ts) \<and> set (labels (kids t)) \<subseteq> set (labels ts)"
  by (induction ts rule: forest_induct) (auto split: option.splits if_splits)

abbreviation ids :: "telem rose list \<Rightarrow> nat list" where
  "ids ts \<equiv> map v_dom (labels ts)"

lemma ids_relabel: "(\<And>v. v_dom (g v) = v_dom v) \<Longrightarrow> ids (relabel g ts) = ids ts"
  by (induction ts rule: forest_induct) simp_all

abbreviation path_ids :: "nat \<Rightarrow> telem rose list \<Rightarrow> nat list option" where
  "path_ids d ts \<equiv> path_to (\<lambda>x. x = d) (relabel v_dom ts)"

lemma path_ids_eq: "map_option (map v_dom) (path_to (\<lambda>v. v_dom v = d) ts) = path_ids d ts"
  by (simp add: path_to_relabel)

lemma path_ids_simps [simp]:
  "path_ids d [] = None"
  "path_ids d (Rose v cs # ts) = (if v_dom v = d then Some []
     else case path_ids d cs of Some p \<Rightarrow> Some (v_dom v # p) | None \<Rightarrow> path_ids d ts)"
  by simp_all

lemma path_ids_None: "path_ids d ts = None \<longleftrightarrow> d \<notin> set (ids ts)"
  by (auto simp: path_to_None)

lemma path_ids_set: "path_ids d ts = Some q \<Longrightarrow> set q \<subseteq> set (ids ts)"
  using path_to_labels [of "\<lambda>x. x = d" "relabel v_dom ts" q] by simp

lemma path_ids_in: "path_ids d ts = Some q \<Longrightarrow> d \<in> set (ids ts)"
  by (metis option.distinct(1) path_ids_None)

lemma ids_first: "ids (t # ts) = ids [t] @ ids ts"
  by (cases t) simp

lemma ids_apart: "distinct (ids (t # ts)) \<Longrightarrow> set (ids [t]) \<inter> set (ids ts) = {}"
  unfolding ids_first [of t ts] by simp

lemma path_ids_butlast:
  assumes "distinct (ids ts)" and "path_ids d ts = Some (q @ [p])"
  shows "path_ids p ts = Some q"
  using assms
proof (induction ts arbitrary: q rule: forest_induct)
  case (Rose v cs ts)
  show ?case
  proof (cases "path_ids d cs")
    case None
    then have t: "path_ids d ts = Some (q @ [p])" using Rose.prems(2) by (simp split: if_splits)
    then have "path_ids p ts = Some q" using Rose.prems(1) Rose.IH(2) by auto
    moreover have "p \<in> set (ids ts)" using path_ids_set [OF t] by simp
    then have "v_dom v \<noteq> p" "p \<notin> set (ids cs)" using Rose.prems(1) by auto
    then have "v_dom v \<noteq> p" "path_ids p cs = None" using path_ids_None by blast+
    ultimately show ?thesis by simp
  next
    case (Some q')
    then have e: "q @ [p] = v_dom v # q'" using Rose.prems(2) by (simp split: if_splits)
    show ?thesis
    proof (cases q)
      case Nil
      with e show ?thesis by simp
    next
      case (Cons x xs)
      with e have x: "x = v_dom v" "q' = xs @ [p]" by auto
      then have c: "path_ids d cs = Some (xs @ [p])" using Some by simp
      then have "path_ids p cs = Some xs" using Rose.prems(1) Rose.IH(1) by auto
      moreover have "p \<in> set (ids cs)" using path_ids_set [OF c] by simp
      then have "v_dom v \<noteq> p" using Rose.prems(1) by auto
      ultimately show ?thesis using Cons x by simp
    qed
  qed
qed simp

text \<open>The list a node stands in.\<close>

lemma level_in_None: "level_in P us ts = None \<longleftrightarrow> (\<forall>x\<in>set (labels ts). \<not> P x)"
proof (induction ts arbitrary: us rule: forest_induct)
  case (Rose x cs ts)
  show ?case using Rose.IH(1) [of cs] Rose.IH(2) [of us] by (cases "level_in P cs cs") auto
qed simp

lemma level_in_root: "\<exists>t\<in>set ts. P (lab t) \<Longrightarrow> \<forall>t\<in>set ts. \<forall>x\<in>set (labels (kids t)). \<not> P x \<Longrightarrow> level_in P us ts = Some us"
proof (induction ts)
  case (Cons t ts)
  obtain x cs where t: "t = Rose x cs" by (cases t)
  have "level_in P cs cs = None" using Cons.prems(2) t by (simp add: level_in_None)
  with Cons t show ?case by auto
qed simp

lemma level_in_any: "\<forall>t\<in>set ts. \<not> P (lab t) \<Longrightarrow> level_in P us ts = level_in P us' ts"
  by (induction ts arbitrary: us us' rule: forest_induct) (auto split: option.split)

section \<open>One recursion\<close>

definition put_at :: "nat \<Rightarrow> nat \<Rightarrow> telem rose list \<Rightarrow> telem rose list" where
  "put_at k p ts = relabel (\<lambda>v. if v_dom v = p then put_box k v else v) ts"

fun fixf :: "nat list \<Rightarrow> nat \<Rightarrow> telem rose list \<Rightarrow> telem rose list" where
  "fixf [] d ts = ts"
| "fixf (p # ps) d ts = fixf ps p (put_at (box_above d ts) p ts)"

definition top_id :: "nat \<Rightarrow> telem rose list \<Rightarrow> nat" where
  "top_id d cs = (case path_ids d cs of Some (p # _) \<Rightarrow> p | _ \<Rightarrow> d)"

fun check_in :: "nat \<Rightarrow> nat \<Rightarrow> telem rose list \<Rightarrow> telem rose list" where
  "check_in k d [] = []"
| "check_in k d (Rose v cs # ts) =
     (if v_dom v = d then Rose (put_box k v) (relabel (put_box k) cs) # ts
      else if d \<in> set (ids cs) then Rose (put_box (box_above (top_id d cs) (check_in k d cs)) v) (check_in k d cs) # ts
      else Rose v cs # check_in k d ts)"

definition mark_set :: "nat \<Rightarrow> nat set \<Rightarrow> telem rose list \<Rightarrow> telem rose list" where
  "mark_set k D ts = relabel (\<lambda>v. if v_dom v \<in> D then put_box k v else v) ts"

lemma put_box_dom [simp]: "v_dom (put_box k v) = v_dom v" "v_hit (put_box k v) = v_hit v"
  by (simp_all add: put_box_def)

lemma put_at_ids [simp]: "ids (put_at k p ts) = ids ts" "relabel v_dom (put_at k p ts) = relabel v_dom ts"
  by (simp_all add: put_at_def comp_def if_distrib cong: if_cong)

lemma put_at_other: "p \<notin> set (ids ts) \<Longrightarrow> put_at k p ts = ts"
  unfolding put_at_def by (rule relabel_id) auto

lemma mark_set_other: "D \<inter> set (ids ts) = {} \<Longrightarrow> mark_set k D ts = ts"
  unfolding mark_set_def by (rule relabel_id) auto

lemma mark_set_all: "set (ids ts) \<subseteq> D \<Longrightarrow> mark_set k D ts = relabel (put_box k) ts"
  unfolding mark_set_def by (rule relabel_cong) auto

lemma mark_set_ids [simp]: "ids (mark_set k D ts) = ids ts" "relabel v_dom (mark_set k D ts) = relabel v_dom ts"
  by (simp_all add: mark_set_def comp_def if_distrib cong: if_cong)

lemma fixf_ids [simp]: "ids (fixf ps d ts) = ids ts" "relabel v_dom (fixf ps d ts) = relabel v_dom ts"
  by (induction ps arbitrary: d ts) simp_all

lemma fixf_snoc: "fixf (ps @ [p]) d ts = (let us = fixf ps d ts in put_at (box_above (last (d # ps)) us) p us)"
  by (induction ps arbitrary: d ts) (simp_all add: Let_def)

lemma box_above_first:
  assumes "d \<in> set (ids cs)" and "distinct (ids (Rose v cs # ts))"
  shows "box_above d (Rose v cs # ts) = box_above d cs"
proof -
  have "level_in (\<lambda>v. v_dom v = d) cs cs \<noteq> None" using assms(1) by (auto simp: level_in_None)
  then have "level_of (\<lambda>v. v_dom v = d) (Rose v cs # ts) = level_of (\<lambda>v. v_dom v = d) cs"
    using assms by (auto simp: level_of_def)
  then show ?thesis by (simp add: box_above_def all_same_def)
qed

lemma path_ids_root: "path_ids d ts = Some (p # q) \<Longrightarrow> distinct (ids ts) \<Longrightarrow> \<forall>t\<in>set ts. v_dom (lab t) \<noteq> d"
proof (induction ts)
  case (Cons t ts)
  obtain v cs where t: "t = Rose v cs" by (cases t)
  show ?case
  proof (cases "path_ids d cs")
    case None
    with Cons t show ?thesis by (auto split: if_splits)
  next
    case (Some a)
    have "d \<in> set (ids cs)" by (rule path_ids_in [OF Some])
    then have "d \<notin> set (ids ts)" "v_dom v \<noteq> d" using Cons.prems(2) t by auto
    moreover have "v_dom (lab u) \<in> set (ids ts)" if "u \<in> set ts" for u
      using that by (induction ts rule: labels.induct) auto
    ultimately show ?thesis using t by auto
  qed
qed simp

lemma box_above_rest:
  assumes "path_ids d ts = Some (p # q)" and "distinct (ids (t # ts))"
  shows "box_above d (t # ts) = box_above d ts"
proof -
  obtain v cs where t: "t = Rose v cs" by (cases t)
  have "d \<in> set (ids ts)" by (rule path_ids_in [OF assms(1)])
  then have "v_dom v \<noteq> d" "level_in (\<lambda>v. v_dom v = d) cs cs = None" using assms(2) t by (auto simp: level_in_None)
  moreover have "level_in (\<lambda>v. v_dom v = d) (t # ts) ts = level_in (\<lambda>v. v_dom v = d) ts ts"
    by (rule level_in_any) (use path_ids_root [OF assms(1)] assms(2) t in auto)
  ultimately have "level_of (\<lambda>v. v_dom v = d) (t # ts) = level_of (\<lambda>v. v_dom v = d) ts"
    using t by (simp add: level_of_def)
  then show ?thesis by (simp add: box_above_def all_same_def)
qed

lemma fixf_rest:
  assumes "path_ids d ts = Some q" and "distinct (ids (t # ts))"
  shows "fixf (rev q) d (t # ts) = t # fixf (rev q) d ts"
  using assms
proof (induction "rev q" arbitrary: q d ts)
  case (Cons p ps)
  then have q: "q = rev ps @ [p]" by (metis rev.simps(2) rev_rev_ident)
  obtain v cs where t: "t = Rose v cs" by (cases t)
  have pq: "p \<in> set (ids ts)" using path_ids_set [OF Cons.prems(1)] q by simp
  have ba: "box_above d (t # ts) = box_above d ts" using Cons.prems q by (cases "rev ps") (auto intro: box_above_rest)
  have "put_at k p (t # ts) = t # put_at k p ts" for k
  proof -
    have "p \<notin> set (ids [t])" using ids_apart [OF Cons.prems(2)] pq by blast
    then have "put_at k p [t] = [t]" by (rule put_at_other)
    then show ?thesis by (simp add: put_at_def t)
  qed
  moreover have "path_ids p ts = Some (rev ps)" using Cons.prems path_ids_butlast [of ts d "rev ps" p] q by (cases t) auto
  then have "fixf (rev (rev ps)) p (t # put_at k p ts) = t # fixf (rev (rev ps)) p (put_at k p ts)" for k
    by (intro Cons.hyps(1)) (use Cons.prems(2) t in auto)
  ultimately show ?case unfolding q by (simp add: ba)
qed simp

lemma fixf_first:
  assumes "path_ids d cs = Some q" and "distinct (ids (Rose v cs # ts))"
  shows "fixf (rev q) d (Rose v cs # ts) = Rose v (fixf (rev q) d cs) # ts"
  using assms
proof (induction "rev q" arbitrary: q d cs)
  case (Cons p ps)
  then have q: "q = rev ps @ [p]" by (metis rev.simps(2) rev_rev_ident)
  have pq: "p \<in> set (ids cs)" using path_ids_set [OF Cons.prems(1)] q by simp
  have ba: "box_above d (Rose v cs # ts) = box_above d cs"
    by (rule box_above_first [OF path_ids_in [OF Cons.prems(1)] Cons.prems(2)])
  have "put_at k p (Rose v cs # ts) = Rose v (put_at k p cs) # ts" for k
  proof -
    have "v_dom v \<notin> set (ids cs)" "set (ids cs) \<inter> set (ids ts) = {}" using Cons.prems(2) by auto
    then have "p \<notin> set (ids ts)" "p \<noteq> v_dom v" using pq by blast+
    then show ?thesis using put_at_other [of p ts k] by (simp add: put_at_def)
  qed
  moreover have "path_ids p cs = Some (rev ps)" using Cons.prems path_ids_butlast [of cs d "rev ps" p] q by auto
  then have "fixf (rev (rev ps)) p (Rose v (put_at k p cs) # ts) = Rose v (fixf (rev (rev ps)) p (put_at k p cs)) # ts" for k
    by (intro Cons.hyps(1)) (use Cons.prems(2) in auto)
  ultimately show ?case unfolding q by (simp add: ba)
qed simp

lemma top_id_last: "path_ids d cs = Some q \<Longrightarrow> last (d # rev q) = top_id d cs"
  by (cases q) (simp_all add: top_id_def)

text \<open>Marking the nodes at and below \<open>d\<close> and then going up is the recursion.\<close>

lemma fix_check_in:
  assumes "distinct (ids ts)" and "path_ids d ts = Some q" and "find_node (\<lambda>v. v_dom v = d) ts = Some t"
  shows "fixf (rev q) d (mark_set k (set (ids [t])) ts) = check_in k d ts"
  using assms
proof (induction ts arbitrary: q rule: forest_induct)
  case (Rose v cs ts)
  obtain w ws where t: "t = Rose w ws" by (cases t)
  consider (here) "v_dom v = d" | (in_cs) "v_dom v \<noteq> d" "d \<in> set (ids cs)" | (in_ts) "v_dom v \<noteq> d" "d \<notin> set (ids cs)" by blast
  then show ?case
  proof cases
    case here
    then have "t = Rose v cs" "q = []" using Rose.prems(2,3) by auto
    moreover have "mark_set k (set (ids [Rose v cs])) ts = ts" by (rule mark_set_other) (use Rose.prems(1) in auto)
    ultimately show ?thesis using here mark_set_all [of cs "set (ids [Rose v cs])" k] by (auto simp: mark_set_def)
  next
    case in_cs
    then obtain q' where q': "path_ids d cs = Some q'" using path_ids_None by fastforce
    then have q: "q = v_dom v # q'" using Rose.prems(2) in_cs by simp
    have f: "find_node (\<lambda>v. v_dom v = d) cs = Some t"
    proof -
      have "find_node (\<lambda>v. v_dom v = d) cs \<noteq> None" using in_cs(2) by (auto simp: find_node_None)
      with Rose.prems(3) in_cs(1) show ?thesis by auto
    qed
    have D: "set (ids [t]) \<subseteq> set (ids cs)" using find_node_Some [OF f] t by auto
    have disj: "v_dom v \<notin> set (ids cs)" "set (ids cs) \<inter> set (ids ts) = {}" using Rose.prems(1) by auto
    have "mark_set k (set (ids [t])) ts = ts" by (rule mark_set_other) (use D disj in blast)
    then have m: "mark_set k (set (ids [t])) (Rose v cs # ts) = Rose v (mark_set k (set (ids [t])) cs) # ts"
      using D disj by (auto simp: mark_set_def)
    have dc: "distinct (ids cs)" using Rose.prems(1) by simp
    have fx: "fixf (rev q') d (Rose v (mark_set k (set (ids [t])) cs) # ts) = Rose v (check_in k d cs) # ts"
      using fixf_first [of d "mark_set k (set (ids [t])) cs" q' v ts] Rose.IH(1) [OF dc q' f] Rose.prems(1) q' by simp
    have ci: "ids (check_in k d cs) = ids cs" using fixf_ids(1) Rose.IH(1) [OF dc q' f] mark_set_ids(1) by metis
    have "top_id d cs \<in> set (ids cs)"
      using path_ids_set [OF q'] in_cs(2) by (auto simp: top_id_def q' split: list.split)
    then have "box_above (top_id d cs) (Rose v (check_in k d cs) # ts) = box_above (top_id d cs) (check_in k d cs)"
      using Rose.prems(1) ci by (intro box_above_first) auto
    moreover have "put_at n (v_dom v) (Rose v (check_in k d cs) # ts) = Rose (put_box n v) (check_in k d cs) # ts" for n
      using put_at_other [of "v_dom v" "check_in k d cs" n] put_at_other [of "v_dom v" ts n] ci disj Rose.prems(1)
      by (auto simp: put_at_def)
    ultimately show ?thesis
      using in_cs unfolding q m rev.simps fixf_snoc fx Let_def top_id_last [OF q'] by simp
  next
    case in_ts
    then have c: "path_ids d cs = None" "find_node (\<lambda>v. v_dom v = d) cs = None" by (auto simp: path_ids_None find_node_None)
    then have qt: "path_ids d ts = Some q" "find_node (\<lambda>v. v_dom v = d) ts = Some t"
      using Rose.prems(2,3) in_ts by simp_all
    have "set (ids [t]) \<subseteq> set (ids ts)" using find_node_Some [OF qt(2)] t by auto
    then have "set (ids [t]) \<inter> set (ids [Rose v cs]) = {}" using ids_apart [OF Rose.prems(1)] by blast
    then have "mark_set k (set (ids [t])) [Rose v cs] = [Rose v cs]" by (rule mark_set_other)
    then have m: "mark_set k (set (ids [t])) (Rose v cs # ts) = Rose v cs # mark_set k (set (ids [t])) ts" by (simp add: mark_set_def)
    have "fixf (rev q) d (Rose v cs # mark_set k (set (ids [t])) ts) = Rose v cs # fixf (rev q) d (mark_set k (set (ids [t])) ts)"
      by (rule fixf_rest) (use qt(1) Rose.prems(1) in auto)
    then show ?thesis unfolding m using Rose.IH(2) [OF _ qt] Rose.prems(1) in_ts by simp
  qed
qed simp

section \<open>Boxes in accord\<close>

definition box_of_kids :: "telem rose list \<Rightarrow> nat" where
  "box_of_kids cs =
     (if list_all (\<lambda>t. v_box (lab t) = Some 1) cs then 1 else if list_all (\<lambda>t. v_box (lab t) = Some 0) cs then 0 else 2)"

text \<open>A folder with a box: its children have boxes, and its box is \<open>1\<close> or \<open>0\<close> when all of theirs are, else \<open>2\<close>.\<close>

fun boxes_ok :: "telem rose list \<Rightarrow> bool" where
  "boxes_ok [] = True"
| "boxes_ok (Rose v cs # ts) \<longleftrightarrow>
     (cs \<noteq> [] \<and> v_box v \<noteq> None \<longrightarrow> list_all (\<lambda>t. v_box (lab t) \<noteq> None) cs \<and> v_box v = Some (box_of_kids cs))
     \<and> boxes_ok cs \<and> boxes_ok ts"

text \<open>The boxes of the nodes without children.\<close>

fun leaf_boxes :: "telem rose list \<Rightarrow> (nat \<times> nat option) list" where
  "leaf_boxes [] = []"
| "leaf_boxes (Rose v cs # ts) = (if cs = [] then [(v_dom v, v_box v)] else leaf_boxes cs) @ leaf_boxes ts"

lemma boxes_ok_append [simp]: "boxes_ok (ts @ us) \<longleftrightarrow> boxes_ok ts \<and> boxes_ok us"
  by (induction ts rule: boxes_ok.induct) auto

lemma put_box_box [simp]: "v_box (put_box k v) = map_option (\<lambda>_. k) (v_box v)"
  by (simp add: put_box_def)

lemma relabel_Nil [simp]: "relabel f ts = [] \<longleftrightarrow> ts = []"
  by (simp add: relabel_def)

lemma put_kids:
  assumes "k \<le> 1" and "cs \<noteq> []" and "list_all (\<lambda>t. v_box (lab t) \<noteq> None) cs"
  shows "list_all (\<lambda>t. v_box (lab t) \<noteq> None) (relabel (put_box k) cs)" and "box_of_kids (relabel (put_box k) cs) = k"
proof -
  have b: "v_box (lab t) = map_option (\<lambda>_. k) (v_box (lab u))" if "t = map_rose (put_box k) u" for t u
    using that by (cases u) simp
  have all: "\<forall>t\<in>set (relabel (put_box k) cs). v_box (lab t) = Some k"
    using assms(3) b by (fastforce simp: relabel_def list_all_iff)
  then show "list_all (\<lambda>t. v_box (lab t) \<noteq> None) (relabel (put_box k) cs)" by (simp add: list_all_iff)
  have "relabel (put_box k) cs \<noteq> []" using assms(2) by simp
  moreover have "k = 0 \<or> k = 1" using assms(1) by linarith
  ultimately show "box_of_kids (relabel (put_box k) cs) = k" using all by (auto simp: box_of_kids_def list_all_iff)
qed

lemma boxes_ok_put: "k \<le> 1 \<Longrightarrow> boxes_ok ts \<Longrightarrow> boxes_ok (relabel (put_box k) ts)"
proof (induction ts rule: boxes_ok.induct)
  case (2 v cs ts)
  then show ?case using put_kids [OF 2(3), of cs] by auto
qed simp

lemma all_same_root:
  assumes "\<exists>t\<in>set cs. v_dom (lab t) = d" and "distinct (ids cs)" and "list_all (\<lambda>t. v_box (lab t) \<noteq> None) cs"
  shows "all_same b d cs \<longleftrightarrow> list_all (\<lambda>t. v_box (lab t) = Some (box_num b)) cs"
proof -
  have "\<forall>t\<in>set cs. \<forall>x\<in>set (labels (kids t)). v_dom x \<noteq> d"
  proof (intro ballI notI)
    fix t x assume a: "t \<in> set cs" "x \<in> set (labels (kids t))" "v_dom x = d"
    obtain u where u: "u \<in> set cs" "v_dom (lab u) = d" using assms(1) by blast
    show False
      using assms(2) a u
    proof (induction cs)
      case (Cons c cs)
      obtain w ws where c: "c = Rose w ws" by (cases c)
      have l: "v_dom (lab c) \<in> set (ids cs)" "set (ids (kids c)) \<subseteq> set (ids cs)" if "c \<in> set cs" for c and cs :: "telem rose list"
        using that by (induction cs rule: labels.induct) auto
      have ap: "set (ids [c]) \<inter> set (ids cs) = {}" by (rule ids_apart [OF Cons.prems(1)])
      have dc: "distinct (ids cs)" "v_dom w \<notin> set (ids ws)" using Cons.prems(1) c by auto
      have dx: "d \<in> set (ids (kids t))" using a(2,3) by auto
      show ?case
      proof (cases "u = c")
        case True
        then have dw: "d = v_dom w" using Cons.prems(6) c by simp
        show ?thesis
        proof (cases "t = c")
          case True
          with dx c dw dc(2) show ?thesis by simp
        next
          case False
          then have "d \<in> set (ids cs)" using l(2) [of t cs] dx Cons.prems(2) by auto
          moreover have "d \<in> set (ids [c])" using dw c by simp
          ultimately show ?thesis using ap by blast
        qed
      next
        case False
        then have uc: "u \<in> set cs" using Cons.prems(5) by simp
        then have "d \<in> set (ids cs)" using l(1) [of u cs] Cons.prems(6) by simp
        moreover have "set (ids (kids c)) \<subseteq> set (ids [c])" using c by auto
        ultimately have "t \<noteq> c" using ap dx by blast
        with Cons uc dc show ?thesis by auto
      qed
    qed simp
  qed
  with assms(1) have l: "level_of (\<lambda>v. v_dom v = d) cs = cs" by (simp add: level_of_def level_in_root)
  show ?thesis
    unfolding all_same_def l by (rule list.pred_cong [OF refl]) (use assms(3) in \<open>auto simp: list_all_iff\<close>)
qed

lemma box_above_root:
  assumes "\<exists>t\<in>set cs. v_dom (lab t) = d" and "distinct (ids cs)" and "list_all (\<lambda>t. v_box (lab t) \<noteq> None) cs"
  shows "box_above d cs = box_of_kids cs"
  using all_same_root [OF assms] by (simp add: box_above_def box_of_kids_def box_num_def)

lemma put_box_put [simp]: "put_box k (put_box l v) = put_box k v"
  by (simp add: put_box_def option.map_comp comp_def)

lemma check_in_shape:
  shows "relabel v_dom (check_in k d ts) = relabel v_dom ts"
    and "relabel (put_box 0) (check_in k d ts) = relabel (put_box 0) ts"
    and "map (\<lambda>t. v_box (lab t) = None) (check_in k d ts) = map (\<lambda>t. v_box (lab t) = None) ts"
  by (induction k d ts rule: check_in.induct) simp_all

lemma top_id_root: "d \<in> set (ids cs) \<Longrightarrow> \<exists>t\<in>set cs. v_dom (lab t) = top_id d cs"
proof (induction cs)
  case (Cons t cs)
  obtain v us where t: "t = Rose v us" by (cases t)
  show ?case
  proof (cases "v_dom v = d \<or> d \<in> set (ids us)")
    case True
    then show ?thesis
    proof
      assume "v_dom v = d" then show ?thesis by (auto simp: top_id_def t)
    next
      assume "d \<in> set (ids us)"
      then obtain q where "path_ids d us = Some q" using path_ids_None by fastforce
      then show ?thesis by (auto simp: top_id_def t)
    qed
  next
    case False
    then have "path_ids d us = None" using path_ids_None by blast
    with False have "top_id d (t # cs) = top_id d cs" by (simp add: top_id_def t)
    moreover have "d \<in> set (ids cs)" using Cons.prems False t by auto
    ultimately show ?thesis using Cons.IH by auto
  qed
qed simp

lemma boxes_ok_check_in:
  assumes "k \<le> 1" and "distinct (ids ts)" and "boxes_ok ts"
  shows "boxes_ok (check_in k d ts)"
  using assms
proof (induction k d ts rule: check_in.induct)
  case (2 k d v cs ts)
  note sh = check_in_shape [of k]
  consider (here) "v_dom v = d" | (in_cs) "v_dom v \<noteq> d" "d \<in> set (ids cs)" | (in_ts) "v_dom v \<noteq> d" "d \<notin> set (ids cs)" by blast
  then show ?case
  proof cases
    case here
    then have "check_in k d (Rose v cs # ts) = relabel (put_box k) [Rose v cs] @ ts" by simp
    moreover have "boxes_ok (relabel (put_box k) [Rose v cs])" by (rule boxes_ok_put) (use "2.prems" in auto)
    ultimately show ?thesis using "2.prems"(3) by (simp only: boxes_ok_append) simp
  next
    case in_cs
    let ?us = "check_in k d cs"
    have ids: "ids ?us = ids cs" using arg_cong [OF sh(1) [of d cs], of labels] by simp
    have u: "boxes_ok ?us" using 2 in_cs by auto
    have doms: "map (\<lambda>t. v_dom (lab t)) ?us = map (\<lambda>t. v_dom (lab t)) cs"
    proof -
      have "map lab (relabel v_dom ws) = map (\<lambda>t. v_dom (lab t)) ws" for ws :: "telem rose list"
      proof (induction ws)
        case (Cons w ws)
        then show ?case by (cases w) (simp add: relabel_def)
      qed (simp add: relabel_def)
      with sh(1) [of d cs] show ?thesis by metis
    qed
    have b: "list_all (\<lambda>t. v_box (lab t) \<noteq> None) ?us \<and> box_above (top_id d cs) ?us = box_of_kids ?us"
      if "list_all (\<lambda>t. v_box (lab t) \<noteq> None) cs"
    proof -
      have "list_all (\<lambda>b. \<not> b) (map (\<lambda>t. v_box (lab t) = None) ?us)"
        using that unfolding sh(3) by (simp add: list_all_iff)
      then have n: "list_all (\<lambda>t. v_box (lab t) \<noteq> None) ?us" by (simp add: list_all_iff)
      have "top_id d cs \<in> set (map (\<lambda>t. v_dom (lab t)) cs)" using top_id_root [OF in_cs(2)] by force
      then have "\<exists>t\<in>set ?us. v_dom (lab t) = top_id d cs" unfolding doms [symmetric] by auto
      then have "box_above (top_id d cs) ?us = box_of_kids ?us"
        by (rule box_above_root) (use ids "2.prems"(2) n in auto)
      with n show ?thesis by simp
    qed
    have "?us \<noteq> [] \<longleftrightarrow> cs \<noteq> []" using doms by (metis map_is_Nil_conv)
    with u b "2.prems"(3) in_cs show ?thesis by auto
  next
    case in_ts
    with 2 show ?thesis by auto
  qed
qed simp

lemma leaf_boxes_ids: "set (map fst (leaf_boxes ts)) \<subseteq> set (ids ts)"
  by (induction ts rule: leaf_boxes.induct) auto

definition put_leaf :: "nat \<Rightarrow> nat set \<Rightarrow> nat \<times> nat option \<Rightarrow> nat \<times> nat option" where
  "put_leaf k D x = (fst x, if fst x \<in> D then map_option (\<lambda>_. k) (snd x) else snd x)"

lemma put_leaf_other: "D \<inter> set (ids ts) = {} \<Longrightarrow> map (put_leaf k D) (leaf_boxes ts) = leaf_boxes ts"
proof -
  assume "D \<inter> set (ids ts) = {}"
  moreover have "fst x \<in> set (ids ts)" if "x \<in> set (leaf_boxes ts)" for x
    using subsetD [OF leaf_boxes_ids, of "fst x" ts] that by simp
  ultimately have "fst x \<notin> D" if "x \<in> set (leaf_boxes ts)" for x using that by blast
  then show ?thesis by (simp add: map_idI put_leaf_def)
qed

lemma put_leaf_all: "set (ids ts) \<subseteq> D \<Longrightarrow> leaf_boxes (relabel (put_box k) ts) = map (put_leaf k D) (leaf_boxes ts)"
  by (induction ts rule: leaf_boxes.induct) (auto simp: put_leaf_def)

lemma leaf_boxes_check_in:
  assumes "distinct (ids ts)" and "find_node (\<lambda>v. v_dom v = d) ts = Some t"
  shows "leaf_boxes (check_in k d ts) = map (put_leaf k (set (ids [t]))) (leaf_boxes ts)"
  using assms
proof (induction ts rule: forest_induct)
  case (Rose v cs ts)
  obtain w ws where t: "t = Rose w ws" by (cases t)
  have ap: "set (ids [Rose v cs]) \<inter> set (ids ts) = {}" by (rule ids_apart [OF Rose.prems(1)])
  consider (here) "v_dom v = d" | (in_cs) "v_dom v \<noteq> d" "d \<in> set (ids cs)" | (in_ts) "v_dom v \<noteq> d" "d \<notin> set (ids cs)" by blast
  then show ?case
  proof cases
    case here
    then have "t = Rose v cs" using Rose.prems(2) by simp
    moreover have "map (put_leaf k (set (ids [Rose v cs]))) (leaf_boxes ts) = leaf_boxes ts"
      by (rule put_leaf_other) (use ap in blast)
    moreover have "leaf_boxes (relabel (put_box k) [Rose v cs]) = map (put_leaf k (set (ids [Rose v cs]))) (leaf_boxes [Rose v cs])"
      by (rule put_leaf_all) simp
    ultimately show ?thesis using here by (auto split: if_splits)
  next
    case in_cs
    then have f: "find_node (\<lambda>v. v_dom v = d) cs = Some t"
      using Rose.prems(2) find_node_None [of "\<lambda>v. v_dom v = d" cs] by (auto split: option.splits)
    have "set (ids [t]) \<subseteq> set (ids cs)" using find_node_Some [OF f] t by auto
    then have "map (put_leaf k (set (ids [t]))) (leaf_boxes ts) = leaf_boxes ts"
      by (intro put_leaf_other) (use ap in auto)
    moreover have "leaf_boxes (check_in k d cs) = map (put_leaf k (set (ids [t]))) (leaf_boxes cs)"
      using Rose.IH(1) [OF _ f] Rose.prems(1) by simp
    moreover have "cs \<noteq> []" using in_cs by auto
    moreover from this have "check_in k d cs \<noteq> []" using check_in_shape(1) [of k d cs] by (metis relabel_Nil)
    ultimately show ?thesis using in_cs by simp
  next
    case in_ts
    then have "find_node (\<lambda>v. v_dom v = d) cs = None" by (auto simp: find_node_None)
    then have f: "find_node (\<lambda>v. v_dom v = d) ts = Some t" using Rose.prems(2) in_ts by simp
    have "set (ids [t]) \<subseteq> set (ids ts)" using find_node_Some [OF f] t by auto
    then have "map (put_leaf k (set (ids [t]))) (leaf_boxes [Rose v cs]) = leaf_boxes [Rose v cs]"
      by (intro put_leaf_other) (use ap in blast)
    moreover have "leaf_boxes (check_in k d ts) = map (put_leaf k (set (ids [t]))) (leaf_boxes ts)"
      using Rose.IH(2) [OF _ f] Rose.prems(1) by simp
    moreover have "check_in k d (Rose v cs # ts) = Rose v cs # check_in k d ts" using in_ts by simp
    ultimately show ?thesis by simp
  qed
qed simp

section \<open>The page shows the nodes\<close>

text \<open>
  The elements form the same forest as the node objects, with the same identifiers, which are
  distinct numbers the counter has passed.
\<close>

definition in_sync :: "tree \<Rightarrow> bool" where
  "in_sync s \<longleftrightarrow> relabel v_dom (tw_dom s) = relabel n_dom (tw_data s) \<and> distinct (ids (tw_dom s))
     \<and> (\<forall>d\<in>set (ids (tw_dom s)). 0 < d \<and> d < tw_next s) \<and> 0 < tw_next s"

definition none_hidden :: "tree \<Rightarrow> bool" where
  "none_hidden s \<longleftrightarrow> (\<forall>n\<in>set (labels (tw_data s)). \<not> n_hidden n)"

lemma sync_ids: "in_sync s \<Longrightarrow> map n_dom (labels (tw_data s)) = ids (tw_dom s)"
  unfolding in_sync_def by (metis labels_relabel)

lemma sync_find:
  assumes "in_sync s"
  shows "map_option (map_rose v_dom) (elem d s) = map_option (map_rose n_dom) (get_node d s)"
    and "elem d s = None \<longleftrightarrow> get_node d s = None" and "get_node d s = None \<longleftrightarrow> d \<notin> set (ids (tw_dom s))"
proof -
  have r: "relabel v_dom (tw_dom s) = relabel n_dom (tw_data s)" using assms by (simp add: in_sync_def)
  show e: "map_option (map_rose v_dom) (elem d s) = map_option (map_rose n_dom) (get_node d s)"
    using find_node_relabel [of "\<lambda>x. x = d" v_dom "tw_dom s"] find_node_relabel [of "\<lambda>x. x = d" n_dom "tw_data s"] r
    by (simp add: elem_def get_node_def)
  show "elem d s = None \<longleftrightarrow> get_node d s = None" using e by (metis option.map_disc_iff)
  show "get_node d s = None \<longleftrightarrow> d \<notin> set (ids (tw_dom s))"
    unfolding sync_ids [OF assms, symmetric] by (auto simp: get_node_def find_node_None)
qed

lemma map_rose_labels: "labels [map_rose f t] = map f (labels [t])"
  using labels_relabel [of f "[t]"] by (simp add: relabel_def)

lemma sync_labels:
  assumes "in_sync s" and "get_node d s = Some t" and "elem d s = Some e"
  shows "map n_dom (labels [t]) = ids [e]"
proof -
  have "map_rose v_dom e = map_rose n_dom t" using sync_find(1) [OF assms(1), of d] assms(2,3) by simp
  then show ?thesis using map_rose_labels [of v_dom e] map_rose_labels [of n_dom t] by metis
qed

lemma sync_parents: "in_sync s \<Longrightarrow> get_parents d s = tr_above d s"
proof -
  assume s: "in_sync s"
  have "set (tr_above d s) \<subseteq> set (ids (tw_dom s))"
    unfolding tr_above_def
    by (cases "path_to (\<lambda>v. v_dom v = d) (tw_dom s)") (auto dest!: path_to_labels)
  then show ?thesis unfolding get_parents_def using sync_find(3) [OF s] by (auto simp: takeWhile_eq_all_conv)
qed

lemma tr_above_path: "path_ids d (tw_dom s) = Some q \<Longrightarrow> tr_above d s = rev q"
  using path_ids_eq [of d "tw_dom s"] by (auto simp: tr_above_def)

section \<open>Boxes of the state\<close>

lemma set_box_eq: "set_box k d s = s\<lparr>tw_dom := put_at k d (tw_dom s)\<rparr>"
  by (simp add: set_box_def upd_elem_def put_at_def)

lemma mark_set_put: "mark_set k D (put_at k d ts) = mark_set k (insert d D) ts"
  unfolding mark_set_def put_at_def relabel_relabel by (rule relabel_cong) auto

lemma fold_set_box: "fold (set_box k) ds s = s\<lparr>tw_dom := mark_set k (set ds) (tw_dom s)\<rparr>"
proof (induction ds arbitrary: s)
  case Nil
  have "mark_set k {} ts = ts" for ts by (rule mark_set_other) simp
  then show ?case by simp
next
  case (Cons d ds)
  then show ?case by (simp add: set_box_eq mark_set_put)
qed

lemma fix_path_eq: "fix_path ps d s = s\<lparr>tw_dom := fixf ps d (tw_dom s)\<rparr>"
  by (induction ps arbitrary: d s) (simp_all add: set_box_eq)

lemma walk_all: "walk (\<lambda>t s. (True, f t s)) ts s = fold f (nodes ts) s"
proof -
  have "fold_until (\<lambda>t s. (True, f t s)) ns s = fold f ns s" for ns by (induction ns arbitrary: s) simp_all
  then show ?thesis by (simp add: walk_nodes)
qed

lemma fold_mark_one:
  assumes "\<forall>t\<in>set ts. \<not> n_hidden (lab t) \<and> (\<forall>c\<in>set (kids t). \<not> n_hidden (lab c))"
  shows "fold (mark_one b) ts s = fold (set_box (box_num b)) (map (\<lambda>t. n_dom (lab t)) ts) s"
  using assms
proof (induction ts arbitrary: s)
  case (Cons t ts)
  have "mark_one b t s = set_box (box_num b) (n_dom (lab t)) s"
    using Cons.prems by (auto simp: mark_one_def Let_def list_ex_iff)
  with Cons show ?case by simp
qed simp

lemma nodes_kids: "t \<in> set (nodes ts) \<Longrightarrow> c \<in> set (kids t) \<Longrightarrow> lab c \<in> set (labels ts)"
proof (induction ts rule: forest_induct)
  case (Rose x cs ts)
  have "lab c \<in> set (labels cs)" if "c \<in> set cs" for c and cs :: "'a rose list"
    using that by (induction cs rule: labels.induct) auto
  with Rose show ?case by auto
qed simp

lemma mark_down_eq:
  assumes "\<forall>n\<in>set (labels [t]). \<not> n_hidden n" and "to_deep s \<Longrightarrow> below (n_dom (lab t)) s = map n_dom (labels [t])"
  shows "mark_down b t s = s\<lparr>tw_dom := mark_set (box_num b) (set (map n_dom (labels [t]))) (tw_dom s)\<rparr>"
proof (cases "to_deep s")
  case True
  with assms(2) show ?thesis by (simp add: mark_down_def fold_set_box)
next
  case False
  obtain n cs where t: "t = Rose n cs" by (cases t)
  have "\<forall>u\<in>set (nodes [t]). \<not> n_hidden (lab u) \<and> (\<forall>c\<in>set (kids u). \<not> n_hidden (lab c))"
  proof
    fix u assume u: "u \<in> set (nodes [t])"
    then have "lab u \<in> set (labels [t])" by (simp only: labels_nodes set_map image_eqI)
    moreover have "lab c \<in> set (labels [t])" if "c \<in> set (kids u)" for c by (rule nodes_kids [OF u that])
    ultimately show "\<not> n_hidden (lab u) \<and> (\<forall>c\<in>set (kids u). \<not> n_hidden (lab c))" using assms(1) by blast
  qed
  then have "fold (mark_one b) (nodes [t]) s = fold (set_box (box_num b)) (map (\<lambda>t. n_dom (lab t)) (nodes [t])) s"
    by (rule fold_mark_one)
  moreover have "map (\<lambda>t. n_dom (lab t)) (nodes [t]) = map n_dom (labels [t])" by (simp add: labels_nodes)
  moreover have "mark_down b t s = fold (mark_one b) (nodes [t]) s" using False by (simp add: mark_down_def walk_all t)
  ultimately show ?thesis by (simp only: fold_set_box)
qed

text \<open>What checking does to a page in accord with its nodes, none of them filtered out.\<close>

definition allowed :: "tree_env \<Rightarrow> tree \<Rightarrow> nat \<Rightarrow> bool \<Rightarrow> bool" where
  "allowed E s d b \<longleftrightarrow>
     (case get_node d s of None \<Rightarrow> False | Some t \<Rightarrow> te_check E ((fresh s (lab t))\<lparr>n_mark := Some b\<rparr>) b)"

lemma check_node_eq:
  fixes flag
  assumes "in_sync s" and "none_hidden s" and "to_checkbox s" and "to_cascade s" and "get_node d s = Some t"
  defines "b \<equiv> check_flag flag (lab t) s" and "u \<equiv> upd_node d (\<lambda>n. n\<lparr>n_mark := Some (check_flag flag (lab t) s)\<rparr>) s"
  shows "check_node E d flag s = Some (if \<not> allowed E s d b then u
     else let w = u\<lparr>tw_dom := check_in (box_num b) d (tw_dom s)\<rparr> in if tw_mute s then w else tr_emit (TCheck d b) w)"
proof -
  obtain e where e: "elem d s = Some e" using sync_find(2) [OF assms(1), of d] assms(5) by auto
  have lb: "map n_dom (labels [t]) = ids [e]" by (rule sync_labels [OF assms(1,5) e])
  have dd: "d \<in> set (ids (tw_dom s))" using sync_find(3) [OF assms(1), of d] assms(5) by auto
  then obtain q where q: "path_ids d (tw_dom s) = Some q" using path_ids_None [of d "tw_dom s"] by fastforce
  have ue: "elem x u = elem x s" "tw_dom u = tw_dom s" "to_deep u = to_deep s" "tr_above x u = tr_above x s" "to_cascade u = to_cascade s"
    "tw_mute u = tw_mute s" for x by (simp_all add: u_def upd_node_def elem_def tr_above_def)
  have du: "tw_data u = relabel (\<lambda>n. if n_dom n = d then n\<lparr>n_mark := Some b\<rparr> else n) (tw_data s)"
    unfolding u_def b_def upd_node_def by simp
  have su: "in_sync u"
    using assms(1) unfolding in_sync_def du ue by (simp add: if_distrib cong: if_cong) (simp add: u_def upd_node_def)
  have n: "n_dom (lab t) = d" using find_node_Some assms(5) unfolding get_node_def by blast
  have hid: "\<forall>n\<in>set (labels [t]). \<not> n_hidden n"
  proof -
    have "set (labels [t]) \<subseteq> set (labels (tw_data s))"
      using find_node_Some [OF assms(5) [unfolded get_node_def]] by (cases t) auto
    with assms(2) show ?thesis by (auto simp: none_hidden_def)
  qed
  have md: "mark_down b t u = u\<lparr>tw_dom := mark_set (box_num b) (set (ids [e])) (tw_dom s)\<rparr>"
    using mark_down_eq [OF hid, of u b] e by (simp add: ue lb n below_def)
  have "fix_path (get_parents d u) d (mark_down b t u) = u\<lparr>tw_dom := check_in (box_num b) d (tw_dom s)\<rparr>"
    unfolding sync_parents [OF su] ue(4) tr_above_path [OF q] fix_path_eq md
    using fix_check_in [OF _ q e [unfolded elem_def], of "box_num b"] assms(1) by (simp add: in_sync_def)
  moreover have "upd_node d (\<lambda>n. n\<lparr>n_mark := Some b\<rparr>) s = u" by (simp only: u_def b_def)
  moreover have "fresh u n = fresh s n" for n by (simp add: fresh_def box_is_def ue)
  ultimately show ?thesis
    using assms(3,4,5) ue unfolding check_node_def allowed_def by (simp add: Let_def b_def [symmetric])
qed

lemma check_in_sync:
  assumes "in_sync s" and "none_hidden s" and "boxes_ok (tw_dom s)" and "to_cascade s" and "check_node E d flag s = Some u"
  shows "in_sync u" and "none_hidden u" and "boxes_ok (tw_dom u)" and "relabel v_dom (tw_dom u) = relabel v_dom (tw_dom s)"
    and "tw_next u = tw_next s" and "to_cascade u = to_cascade s" and "tw_pending u = tw_pending s" and "to_url u = to_url s"
proof -
  have "in_sync u \<and> none_hidden u \<and> boxes_ok (tw_dom u) \<and> relabel v_dom (tw_dom u) = relabel v_dom (tw_dom s) \<and> tw_next u = tw_next s
      \<and> to_cascade u = to_cascade s \<and> tw_pending u = tw_pending s \<and> to_url u = to_url s"
  proof (cases "to_checkbox s")
    case False
    with assms show ?thesis by (simp add: check_node_def)
  next
    case True
    then obtain t where t: "get_node d s = Some t" using assms(5) by (auto simp: check_node_def split: option.splits)
    let ?b = "check_flag flag (lab t) s"
    let ?v = "upd_node d (\<lambda>n. n\<lparr>n_mark := Some ?b\<rparr>) s"
    have b: "box_num ?b \<le> 1" by (simp add: box_num_def)
    have d: "distinct (ids (tw_dom s))" using assms(1) by (simp add: in_sync_def)
    note r = check_in_shape(1) [of "box_num ?b" d "tw_dom s"]
    have r': "ids (check_in (box_num ?b) d (tw_dom s)) = ids (tw_dom s)" using arg_cong [OF r, of labels] by simp
    have dv: "relabel n_dom (tw_data ?v) = relabel n_dom (tw_data s)" "none_hidden ?v"
      using assms(2) by (auto simp: upd_node_def none_hidden_def if_distrib cong: if_cong)
    have sv: "in_sync ?v" using assms(1) dv(1) by (simp add: in_sync_def) (simp add: upd_node_def)
    have sw: "in_sync (?v\<lparr>tw_dom := check_in (box_num ?b) d (tw_dom s)\<rparr>)"
      using assms(1) dv(1) by (simp add: in_sync_def r r') (simp add: upd_node_def)
    note eq = check_node_eq [OF assms(1,2) True assms(4) t, of E flag]
    show ?thesis
    proof (cases "allowed E s d ?b")
      case False
      with eq assms(5) have "u = ?v" by simp
      with sv dv(2) assms(3) show ?thesis by (simp add: upd_node_def)
    next
      case True
      then have u: "u = ?v\<lparr>tw_dom := check_in (box_num ?b) d (tw_dom s)\<rparr>
         \<or> u = tr_emit (TCheck d ?b) (?v\<lparr>tw_dom := check_in (box_num ?b) d (tw_dom s)\<rparr>)"
        using eq assms(5) by (auto simp: Let_def)
      have em: "in_sync (tr_emit x w) = in_sync w" "none_hidden (tr_emit x w) = none_hidden w" for x w
        by (simp_all add: in_sync_def none_hidden_def tr_emit_def)
      have bo: "boxes_ok (check_in (box_num ?b) d (tw_dom s))" by (rule boxes_ok_check_in [OF b d assms(3)])
      have nh: "none_hidden (?v\<lparr>tw_dom := check_in (box_num ?b) d (tw_dom s)\<rparr>)" using dv(2) by (simp add: none_hidden_def)
      have "tw_dom u = check_in (box_num ?b) d (tw_dom s)" "tw_next u = tw_next s" "to_cascade u = to_cascade s" "tw_pending u = tw_pending s"
        "to_url u = to_url s"
        using u by (auto simp: tr_emit_def upd_node_def)
      with u sw nh bo r show ?thesis by (auto simp: em)
    qed
  qed
  then show "in_sync u" "none_hidden u" "boxes_ok (tw_dom u)" "relabel v_dom (tw_dom u) = relabel v_dom (tw_dom s)" "tw_next u = tw_next s"
    "to_cascade u = to_cascade s" "tw_pending u = tw_pending s" "to_url u = to_url s" by blast+
qed

text \<open>
  C13: Checking with the cascade: on a page in accord with its nodes, none filtered out, a check that is not
  refused gives every node without children at or below the one checked its new box, leaves the
  boxes of the other nodes without children, and every folder again has the box its children ask
  for (checked or unchecked when all of them are, else indeterminate); nothing but boxes changes.
\<close>

theorem tree_check_cascade:
  assumes "in_sync s" and "none_hidden s" and "boxes_ok (tw_dom s)" and "to_checkbox s" and "to_cascade s" and "allowed E s d b"
  shows "\<exists>u. check_node E d (Some b) s = Some u \<and> in_sync u \<and> boxes_ok (tw_dom u)
     \<and> leaf_boxes (tw_dom u) = map (\<lambda>(x, k). (x, if x \<in> set (below d s) then map_option (\<lambda>_. box_num b) k else k)) (leaf_boxes (tw_dom s))
     \<and> relabel (put_box 0) (tw_dom u) = relabel (put_box 0) (tw_dom s)"
proof -
  obtain t where t: "get_node d s = Some t" using assms(6) by (auto simp: allowed_def split: option.splits)
  obtain e where e: "elem d s = Some e" using sync_find(2) [OF assms(1), of d] t by auto
  obtain u where u: "check_node E d (Some b) s = Some u" "tw_dom u = check_in (box_num b) d (tw_dom s)"
    using check_node_eq [OF assms(1,2,4,5) t, of E "Some b"] assms(6) by (auto simp: check_flag_def Let_def tr_emit_def)
  have "put_leaf (box_num b) (set (below d s)) = (\<lambda>(x, k). (x, if x \<in> set (below d s) then map_option (\<lambda>_. box_num b) k else k))"
    by (auto simp: put_leaf_def fun_eq_iff)
  moreover have "leaf_boxes (tw_dom u) = map (put_leaf (box_num b) (set (below d s))) (leaf_boxes (tw_dom s))"
    using leaf_boxes_check_in [OF _ e [unfolded elem_def]] assms(1) by (simp add: u(2) below_def e in_sync_def)
  ultimately show ?thesis
    using u check_in_sync(1,3) [OF assms(1,2,3,5) u(1)] check_in_shape(2) [of "box_num b" d "tw_dom s"] by auto
qed

section \<open>Witnesses\<close>

text \<open>A folder with two leaves, one of them checked, and a leaf beside it.\<close>

definition node_named :: "nat \<Rightarrow> string \<Rightarrow> tnode" where
  "node_named d x = \<lparr>n_dom = d, n_id = VStr x, n_text = x, n_icon = [], n_state = ''open'', n_checked = False, n_mark = None, n_hidden = False\<rparr>"

definition sample_tree :: tree where
  "sample_tree =
     (let s = tree_defaults\<lparr>to_checkbox := True, tw_next := 5,
            tw_data := [Rose (node_named 1 ''a'') [Rose (node_named 2 ''b'') [], Rose (node_named 3 ''c'') []], Rose (node_named 4 ''d'') []]\<rparr>
      in s\<lparr>tw_dom := check_in 1 2 (render_items tree_env0 s 0 (tw_data s))\<rparr>)"

lemma sample_tree_facts:
  "in_sync sample_tree" "none_hidden sample_tree" "boxes_ok (tw_dom sample_tree)" "to_checkbox sample_tree" "to_cascade sample_tree"
  "allowed tree_env0 sample_tree 3 True" "below 3 sample_tree = [3]"
  "leaf_boxes (tw_dom sample_tree) = [(2, Some 1), (3, Some 0), (4, Some 0)]"
  by code_simp+

theorem tree_check_cascade_witness:
  "\<exists>u. check_node tree_env0 3 (Some True) sample_tree = Some u \<and> boxes_ok (tw_dom u)
     \<and> leaf_boxes (tw_dom u) = [(2, Some 1), (3, Some 1), (4, Some 0)]"
  using tree_check_cascade [OF sample_tree_facts(1-6)] by (auto simp: sample_tree_facts box_num_def)

end
