(* ===== verification/Tr_Forest.thy ===== *)
theory Tr_Forest
  imports Tr_Check
begin

text \<open>
  The operations that change the forest, \<open>_5b\<close>, \<open>_a4\<close>, \<open>_aa\<close>, \<open>_b0\<close> of \<open>js/plugins/jquery.tree.js\<close>: the
  objects and the elements stay in step, and the boxes in accord.
\<close>

section \<open>Changes that leave the forest and the boxes alone\<close>

definition quiet :: "tree \<Rightarrow> tree \<Rightarrow> bool" where
  "quiet s t \<longleftrightarrow> (\<exists>g h. tw_dom t = relabel g (tw_dom s) \<and> tw_data t = relabel h (tw_data s)
       \<and> (\<forall>v. v_dom (g v) = v_dom v \<and> v_box (g v) = v_box v) \<and> (\<forall>n. n_dom (h n) = n_dom n \<and> n_hidden (h n) = n_hidden n))
     \<and> tw_next t = tw_next s \<and> to_checkbox t = to_checkbox s \<and> to_cascade t = to_cascade s \<and> to_onlyLeaf t = to_onlyLeaf s
     \<and> to_url t = to_url s"

lemma relabel_ident [simp]: "relabel (\<lambda>x. x) ts = ts"
  by (rule relabel_id) (rule refl)

lemma quietI:
  assumes "t = s\<lparr>tw_dom := relabel g (tw_dom s), tw_data := relabel h (tw_data s)\<rparr>"
    and "\<And>v. v_dom (g v) = v_dom v \<and> v_box (g v) = v_box v" and "\<And>n. n_dom (h n) = n_dom n \<and> n_hidden (h n) = n_hidden n"
  shows "quiet s t"
  unfolding quiet_def assms(1) using assms(2,3) by (intro conjI exI [of _ g] exI [of _ h]) simp_all

lemma quiet_refl [simp]: "quiet s s"
  by (rule quietI [where g = "\<lambda>x. x" and h = "\<lambda>x. x"]) simp_all

lemma quiet_trans [trans]: "quiet s t \<Longrightarrow> quiet t u \<Longrightarrow> quiet s u"
  unfolding quiet_def
proof (elim conjE exE, intro conjI)
  fix g h g' h'
  assume "tw_dom t = relabel g (tw_dom s)" "tw_data t = relabel h (tw_data s)" "\<forall>v. v_dom (g v) = v_dom v \<and> v_box (g v) = v_box v"
    "\<forall>n. n_dom (h n) = n_dom n \<and> n_hidden (h n) = n_hidden n" "tw_dom u = relabel g' (tw_dom t)" "tw_data u = relabel h' (tw_data t)"
    "\<forall>v. v_dom (g' v) = v_dom v \<and> v_box (g' v) = v_box v" "\<forall>n. n_dom (h' n) = n_dom n \<and> n_hidden (h' n) = n_hidden n"
  then show "\<exists>g h. tw_dom u = relabel g (tw_dom s) \<and> tw_data u = relabel h (tw_data s)
       \<and> (\<forall>v. v_dom (g v) = v_dom v \<and> v_box (g v) = v_box v) \<and> (\<forall>n. n_dom (h n) = n_dom n \<and> n_hidden (h n) = n_hidden n)"
    by (intro exI [of _ "\<lambda>v. g' (g v)"] exI [of _ "\<lambda>n. h' (h n)"]) simp
qed simp_all

lemma quiet_elem: "(\<And>v. v_dom (f v) = v_dom v \<and> v_box (f v) = v_box v) \<Longrightarrow> quiet s (upd_elem d f s)"
  by (rule quietI [where g = "\<lambda>v. if v_dom v = d then f v else v" and h = "\<lambda>x. x"]) (simp_all add: upd_elem_def)

lemma quiet_node: "(\<And>n. n_dom (f n) = n_dom n \<and> n_hidden (f n) = n_hidden n) \<Longrightarrow> quiet s (upd_node d f s)"
  by (rule quietI [where g = "\<lambda>x. x" and h = "\<lambda>n. if n_dom n = d then f n else n"]) (simp_all add: upd_node_def)

lemma quiet_fields [simp]:
  "quiet s (tr_emit e t) = quiet s t" "quiet s (t\<lparr>tw_pending := p\<rparr>) = quiet s t" "quiet s (t\<lparr>tw_mute := b\<rparr>) = quiet s t"
  by (simp_all add: quiet_def tr_emit_def)

lemma quiet_title: "quiet s (set_title E d s)"
  by (auto simp: set_title_def intro: quiet_elem split: option.split)

section \<open>The invariant\<close>

definition leaf_ok :: "telem rose list \<Rightarrow> bool" where
  "leaf_ok ts \<longleftrightarrow> (\<forall>x\<in>set (leaf_boxes ts). \<forall>k. snd x = Some k \<longrightarrow> k \<le> 1)"

definition full_boxes :: "bool \<Rightarrow> telem rose list \<Rightarrow> bool" where
  "full_boxes b ts \<longleftrightarrow> (\<forall>v\<in>set (labels ts). v_box v \<noteq> None \<longleftrightarrow> b)"

text \<open>
  Every node has a box or none has one; no box of a node without children is indeterminate; the
  tree cascades, and has no address to ask for nodes.
\<close>

definition tree_base :: "tree \<Rightarrow> bool" where
  "tree_base s \<longleftrightarrow> in_sync s \<and> none_hidden s \<and> full_boxes (to_checkbox s) (tw_dom s)
     \<and> to_cascade s \<and> \<not> to_onlyLeaf s \<and> \<not> (\<exists>u. to_url s = Some u \<and> u \<noteq> [])"

definition tree_ok :: "tree \<Rightarrow> bool" where
  "tree_ok s \<longleftrightarrow> tree_base s \<and> boxes_ok (tw_dom s) \<and> leaf_ok (tw_dom s)"

lemma list_all_relabel:
  assumes "\<And>v. v_box (g v) = v_box v"
  shows "list_all (\<lambda>t. P (v_box (lab t))) (relabel g ts) = list_all (\<lambda>t. P (v_box (lab t))) ts"
proof (induction ts)
  case (Cons u us)
  with assms show ?case by (cases u) (simp add: relabel_def)
qed (simp add: relabel_def)

lemma box_of_kids_relabel:
  assumes "\<And>v. v_box (g v) = v_box v"
  shows "box_of_kids (relabel g cs) = box_of_kids cs"
  using list_all_relabel [OF assms, of "\<lambda>b. b = Some 1" cs] list_all_relabel [OF assms, of "\<lambda>b. b = Some 0" cs]
  by (simp add: box_of_kids_def)

lemma boxes_ok_relabel: "(\<And>v. v_box (g v) = v_box v) \<Longrightarrow> boxes_ok (relabel g ts) = boxes_ok ts"
proof (induction ts rule: boxes_ok.induct)
  case (2 v cs ts)
  then show ?case
    using list_all_relabel [OF "2.prems", of "\<lambda>b. b \<noteq> None" cs] by (simp add: box_of_kids_relabel [OF "2.prems"])
qed simp

lemma leaf_boxes_relabel: "(\<And>v. v_dom (g v) = v_dom v \<and> v_box (g v) = v_box v) \<Longrightarrow> leaf_boxes (relabel g ts) = leaf_boxes ts"
  by (induction ts rule: leaf_boxes.induct) auto

lemma quiet_facts:
  assumes "quiet s t"
  shows "tree_base t \<longleftrightarrow> tree_base s" and "tree_ok t \<longleftrightarrow> tree_ok s"
    and "relabel v_dom (tw_dom t) = relabel v_dom (tw_dom s)" and "relabel n_dom (tw_data t) = relabel n_dom (tw_data s)"
    and "tw_next t = tw_next s" and "boxes_ok (tw_dom t) = boxes_ok (tw_dom s)" and "leaf_boxes (tw_dom t) = leaf_boxes (tw_dom s)"
    and "to_checkbox t = to_checkbox s"
proof -
  obtain g h where gh: "tw_dom t = relabel g (tw_dom s)" "tw_data t = relabel h (tw_data s)"
    "\<forall>v. v_dom (g v) = v_dom v \<and> v_box (g v) = v_box v" "\<forall>n. n_dom (h n) = n_dom n \<and> n_hidden (h n) = n_hidden n"
    and o: "tw_next t = tw_next s" "to_checkbox t = to_checkbox s" "to_cascade t = to_cascade s" "to_onlyLeaf t = to_onlyLeaf s"
      "to_url t = to_url s"
    using assms unfolding quiet_def by blast
  show d: "relabel v_dom (tw_dom t) = relabel v_dom (tw_dom s)" and n: "relabel n_dom (tw_data t) = relabel n_dom (tw_data s)"
    and "tw_next t = tw_next s" "to_checkbox t = to_checkbox s"
    using gh o by simp_all
  show b: "boxes_ok (tw_dom t) = boxes_ok (tw_dom s)" unfolding gh(1) by (rule boxes_ok_relabel) (use gh(3) in simp)
  show l: "leaf_boxes (tw_dom t) = leaf_boxes (tw_dom s)" unfolding gh(1) by (rule leaf_boxes_relabel) (use gh(3) in simp)
  have "ids (tw_dom t) = ids (tw_dom s)" using arg_cong [OF d, of labels] by simp
  then have "in_sync t = in_sync s" by (simp add: in_sync_def d n o)
  moreover have "full_boxes b (tw_dom t) = full_boxes b (tw_dom s)" for b using gh(3) by (simp add: full_boxes_def gh(1))
  moreover have "none_hidden t = none_hidden s" using gh(4) by (simp add: none_hidden_def gh(2))
  ultimately show "tree_base t \<longleftrightarrow> tree_base s" by (simp add: tree_base_def o)
  with b l show "tree_ok t \<longleftrightarrow> tree_ok s" by (simp add: tree_ok_def leaf_ok_def)
qed

section \<open>Checking when only a node and those above it are out of accord\<close>

definition node_ok :: "telem \<Rightarrow> telem rose list \<Rightarrow> bool" where
  "node_ok v cs \<longleftrightarrow> (cs \<noteq> [] \<and> v_box v \<noteq> None \<longrightarrow> list_all (\<lambda>t. v_box (lab t) \<noteq> None) cs \<and> v_box v = Some (box_of_kids cs))"

fun boxes_off :: "nat \<Rightarrow> telem rose list \<Rightarrow> bool" where
  "boxes_off d [] = True"
| "boxes_off d (Rose v cs # ts) \<longleftrightarrow> (d \<noteq> v_dom v \<and> d \<notin> set (ids cs) \<longrightarrow> node_ok v cs) \<and> boxes_off d cs \<and> boxes_off d ts"

lemma boxes_off_relabel: "(\<And>v. v_dom (g v) = v_dom v \<and> v_box (g v) = v_box v) \<Longrightarrow> boxes_off d (relabel g ts) = boxes_off d ts"
proof (induction ts rule: boxes_ok.induct)
  case (2 v cs ts)
  then have g: "\<And>v. v_box (g v) = v_box v" by simp
  have "node_ok (g v) (relabel g cs) = node_ok v cs"
    using list_all_relabel [OF g, of "\<lambda>b. b \<noteq> None" cs] by (simp add: node_ok_def box_of_kids_relabel [OF g] g)
  with 2 show ?case by (simp add: comp_def)
qed simp

lemma boxes_off_other: "d \<notin> set (ids ts) \<Longrightarrow> boxes_off d ts = boxes_ok ts"
  by (induction ts rule: boxes_ok.induct) (auto simp: node_ok_def)

lemma boxes_ok_off: "boxes_ok ts \<Longrightarrow> boxes_off d ts"
  by (induction ts rule: boxes_ok.induct) (auto simp: node_ok_def)

lemma boxes_off_append [simp]: "boxes_off d (ts @ us) \<longleftrightarrow> boxes_off d ts \<and> boxes_off d us"
  by (induction ts rule: boxes_ok.induct) auto

lemma root_label: "t \<in> set ts \<Longrightarrow> lab t \<in> set (labels ts)"
  by (induction ts rule: labels.induct) auto

lemma full_roots: "full_boxes True ts \<Longrightarrow> list_all (\<lambda>t. v_box (lab t) \<noteq> None) ts"
  using root_label by (fastforce simp: full_boxes_def list_all_iff)

lemma boxes_ok_none: "full_boxes False ts \<Longrightarrow> boxes_ok ts"
  by (induction ts rule: boxes_ok.induct) (auto simp: full_boxes_def)

lemma full_check_in: "full_boxes b (check_in k d ts) = full_boxes b ts"
proof -
  have "map (\<lambda>v. v_box v \<noteq> None) (labels us) = map (\<lambda>v. v_box v \<noteq> None) (labels (relabel (put_box 0) us))" for us by simp
  then have "map (\<lambda>v. v_box v \<noteq> None) (labels (check_in k d ts)) = map (\<lambda>v. v_box v \<noteq> None) (labels ts)"
    using check_in_shape(2) [of k d ts] by metis
  then have "set (map (\<lambda>v. v_box v \<noteq> None) (labels (check_in k d ts))) = set (map (\<lambda>v. v_box v \<noteq> None) (labels ts))" by simp
  moreover have "full_boxes b us \<longleftrightarrow> set (map (\<lambda>v. v_box v \<noteq> None) (labels us)) \<subseteq> {b}" for us by (auto simp: full_boxes_def)
  ultimately show ?thesis by simp
qed

lemma boxes_ok_repair:
  assumes "k \<le> 1" and "distinct (ids ts)" and "boxes_off d ts" and "full_boxes True ts" and "d \<in> set (ids ts)"
  shows "boxes_ok (check_in k d ts)"
  using assms
proof (induction k d ts rule: check_in.induct)
  case (2 k d v cs ts)
  have dist: "distinct (ids cs)" "distinct (ids ts)" "v_dom v \<notin> set (ids cs)" "v_dom v \<notin> set (ids ts)"
    "set (ids cs) \<inter> set (ids ts) = {}" using "2.prems"(2) by auto
  have full: "full_boxes True cs" "full_boxes True ts" using "2.prems"(4) by (auto simp: full_boxes_def)
  consider (here) "v_dom v = d" | (in_cs) "v_dom v \<noteq> d" "d \<in> set (ids cs)" | (in_ts) "v_dom v \<noteq> d" "d \<notin> set (ids cs)" by blast
  then show ?case
  proof cases
    case here
    then have "d \<notin> set (ids cs)" "d \<notin> set (ids ts)" using dist by auto
    then have "boxes_ok cs" "boxes_ok ts" using "2.prems"(3) by (simp_all add: boxes_off_other)
    with here put_kids [OF "2.prems"(1) _ full_roots [OF full(1)]] boxes_ok_put [OF "2.prems"(1)] show ?thesis by auto
  next
    case in_cs
    then have "d \<notin> set (ids ts)" using dist(5) by blast
    then have ts: "boxes_ok ts" using "2.prems"(3) by (simp add: boxes_off_other)
    let ?us = "check_in k d cs"
    have u: "boxes_ok ?us" using 2 in_cs dist full by auto
    have ids: "ids ?us = ids cs" using arg_cong [OF check_in_shape(1) [of k d cs], of labels] by simp
    have n: "list_all (\<lambda>t. v_box (lab t) \<noteq> None) ?us" using full(1) full_check_in full_roots by blast
    have "top_id d cs = top_id d ?us" using check_in_shape(1) [of k d cs] by (simp add: top_id_def)
    then have "\<exists>t\<in>set ?us. v_dom (lab t) = top_id d cs" using top_id_root [of d ?us] ids in_cs(2) by simp
    then have "box_above (top_id d cs) ?us = box_of_kids ?us" by (rule box_above_root) (use ids dist n in auto)
    with u ts n in_cs show ?thesis by auto
  next
    case in_ts
    then have "d \<in> set (ids ts)" using "2.prems"(5) by auto
    moreover have "boxes_ok cs" "node_ok v cs" using "2.prems"(3) in_ts by (auto simp: boxes_off_other)
    ultimately show ?thesis using 2 in_ts dist full by (auto simp: node_ok_def)
  qed
qed simp

text \<open>No check is refused.\<close>

definition no_refusal :: "tree_env \<Rightarrow> bool" where
  "no_refusal E \<longleftrightarrow> (\<forall>n b. te_check E n b)"

lemma leaf_ok_check_in:
  assumes "k \<le> 1" and "distinct (ids ts)" and "leaf_ok ts" and "d \<in> set (ids ts)"
  shows "leaf_ok (check_in k d ts)"
proof -
  obtain t where t: "find_node (\<lambda>v. v_dom v = d) ts = Some t"
    using assms(4) find_node_None [of "\<lambda>v. v_dom v = d" ts] by fastforce
  show ?thesis
    using assms(1,3) unfolding leaf_ok_def leaf_boxes_check_in [OF assms(2) t] by (auto simp: put_leaf_def)
qed

text \<open>A check of \<open>d\<close> brings the boxes in accord; those of nodes without children may be off at \<open>d\<close> only.\<close>

lemma check_repairs:
  assumes "tree_base s" and "boxes_off d (tw_dom s)" and "no_refusal E" and "check_node E d flag s = Some u"
    and "\<forall>x\<in>set (leaf_boxes (tw_dom s)). fst x \<noteq> d \<longrightarrow> (\<forall>k. snd x = Some k \<longrightarrow> k \<le> 1)" and "d \<in> set (ids (tw_dom s))"
  shows "tree_ok u" and "relabel v_dom (tw_dom u) = relabel v_dom (tw_dom s)" and "tw_next u = tw_next s"
proof -
  have b: "in_sync s" "none_hidden s" "full_boxes (to_checkbox s) (tw_dom s)" "to_cascade s" using assms(1) by (simp_all add: tree_base_def)
  have "tree_ok u \<and> relabel v_dom (tw_dom u) = relabel v_dom (tw_dom s) \<and> tw_next u = tw_next s"
  proof (cases "to_checkbox s")
    case False
    then have "u = s" using assms(4) by (simp add: check_node_def)
    moreover have "full_boxes False (tw_dom s)" using b(3) False by simp
    moreover have "snd x = None" if "x \<in> set (leaf_boxes ts)" "full_boxes False ts" for x ts
      using that by (induction ts rule: leaf_boxes.induct) (auto simp: full_boxes_def split: if_splits)
    then have "leaf_ok (tw_dom s)" using b(3) False by (auto simp: leaf_ok_def)
    ultimately show ?thesis using assms(1) boxes_ok_none by (simp add: tree_ok_def)
  next
    case True
    then obtain t where t: "get_node d s = Some t" using assms(4) by (auto simp: check_node_def split: option.splits)
    obtain e where e: "elem d s = Some e" using sync_find(2) [OF b(1), of d] t by auto
    let ?b = "check_flag flag (lab t) s"
    have k: "box_num ?b \<le> 1" by (simp add: box_num_def)
    let ?v = "upd_node d (\<lambda>n. n\<lparr>n_mark := Some ?b\<rparr>) s"
    let ?w = "?v\<lparr>tw_dom := check_in (box_num ?b) d (tw_dom s)\<rparr>"
    have al: "allowed E s d ?b" using assms(3) t by (simp add: allowed_def no_refusal_def)
    then have u: "u = ?w \<or> u = tr_emit (TCheck d ?b) ?w"
      using check_node_eq [OF b(1,2) True b(4) t, of E flag] assms(4) by (auto simp: Let_def)
    have q: "quiet s ?v" by (rule quiet_node) simp
    have vb: "tree_base ?v" "tw_dom ?v = tw_dom s" "to_checkbox ?v = to_checkbox s" "tw_next ?v = tw_next s"
      using quiet_facts(1) [OF q] assms(1) by (simp_all add: upd_node_def)
    note r = check_in_shape(1) [of "box_num ?b" d "tw_dom s"]
    have r': "ids (check_in (box_num ?b) d (tw_dom s)) = ids (tw_dom s)" using arg_cong [OF r, of labels] by simp
    have d: "distinct (ids (tw_dom s))" using b(1) by (simp add: in_sync_def)
    have "tree_base ?w"
      using vb(1) by (simp add: tree_base_def in_sync_def none_hidden_def r r' full_check_in vb(2))
    moreover have "boxes_ok (tw_dom ?w)" using boxes_ok_repair [OF k d assms(2) _ assms(6)] b(3) True by simp
    moreover have "leaf_ok (tw_dom ?w)"
    proof -
      have "v_dom (lab e) = d" using find_node_Some [OF e [unfolded elem_def]] by simp
      then have "d \<in> set (ids [e])" by (cases e) simp
      then show ?thesis
        using k assms(5) leaf_boxes_check_in [OF d e [unfolded elem_def], of "box_num ?b"]
        by (auto simp: leaf_ok_def put_leaf_def split: if_splits)
    qed
    ultimately have w: "tree_ok ?w" by (simp add: tree_ok_def)
    have "tree_ok (tr_emit x y) = tree_ok y" for x y
      by (simp add: tree_ok_def tree_base_def tr_emit_def in_sync_def none_hidden_def)
    with w u have "tree_ok u" by auto
    moreover have "tw_dom u = tw_dom ?w" "tw_next u = tw_next s" using u vb by (auto simp: tr_emit_def)
    ultimately show ?thesis using r by simp
  qed
  then show "tree_ok u" "relabel v_dom (tw_dom u) = relabel v_dom (tw_dom s)" "tw_next u = tw_next s" by blast+
qed

lemma check_keeps:
  assumes "tree_ok s" and "no_refusal E" and "check_node E d flag s = Some u"
  shows "tree_ok u" and "relabel v_dom (tw_dom u) = relabel v_dom (tw_dom s)" and "tw_next u = tw_next s"
proof -
  have "tree_ok u \<and> relabel v_dom (tw_dom u) = relabel v_dom (tw_dom s) \<and> tw_next u = tw_next s"
  proof (cases "to_checkbox s")
    case False
    with assms show ?thesis by (simp add: check_node_def)
  next
    case True
    then obtain t where t: "get_node d s = Some t" using assms(3) by (auto simp: check_node_def split: option.splits)
    have "in_sync s" using assms(1) by (simp add: tree_ok_def tree_base_def)
    then have d: "d \<in> set (ids (tw_dom s))" using sync_find(3) [of s d] t by simp
    have "\<forall>x\<in>set (leaf_boxes (tw_dom s)). fst x \<noteq> d \<longrightarrow> (\<forall>k. snd x = Some k \<longrightarrow> k \<le> 1)"
      using assms(1) by (auto simp: tree_ok_def leaf_ok_def)
    with check_repairs [OF _ boxes_ok_off assms(2,3) this d] assms(1) show ?thesis by (simp add: tree_ok_def)
  qed
  then show "tree_ok u" "relabel v_dom (tw_dom u) = relabel v_dom (tw_dom s)" "tw_next u = tw_next s" by blast+
qed

section \<open>Loading\<close>

lemma number_spec:
  "number k ts = (us, k') \<Longrightarrow> map n_dom (labels us) = [k..<k'] \<and> k' = k + length (labels ts) \<and> (us = [] \<longleftrightarrow> ts = [])
     \<and> map n_hidden (labels us) = map n_hidden (labels ts) \<and> map (\<lambda>t. n_checked (lab t)) us = map (\<lambda>t. n_checked (lab t)) ts
     \<and> length us = length ts"
proof (induction k ts arbitrary: us k' rule: number.induct)
  case (2 k n cs ts)
  obtain cs' k1 where c: "number (Suc k) cs = (cs', k1)" by (cases "number (Suc k) cs")
  obtain ts' k2 where t: "number k1 ts = (ts', k2)" by (cases "number k1 ts")
  have u: "us = Rose (n\<lparr>n_dom := k, n_state := norm_state (n_state n)\<rparr>) cs' # ts'" "k' = k2" using 2(3) c t by simp_all
  note ic = "2.IH"(1) [OF c] and it = "2.IH"(2) [OF c [symmetric] refl t]
  have "[k..<k2] = k # [Suc k..<k1] @ [k1..<k2]"
  proof -
    have k: "Suc k \<le> k1" "k1 \<le> k2" using ic it by simp_all
    then obtain m where m: "k2 = k1 + m" using le_Suc_ex by blast
    have "k < k2" using k by simp
    then have "[k..<k2] = k # [Suc k..<k2]" by (rule upt_conv_Cons)
    also have "[Suc k..<k2] = [Suc k..<k1] @ [k1..<k2]" unfolding m by (rule upt_add_eq_append [OF k(1)])
    finally show ?thesis .
  qed
  with ic it show ?case unfolding u by simp
qed simp

lemma render_shape: "relabel v_dom (render_items E s k ts) = relabel n_dom ts"
  by (induction E s k ts rule: render_items.induct) (simp_all add: render_node_def Let_def)

lemma render_boxes: "\<not> to_onlyLeaf s \<Longrightarrow> v \<in> set (labels (render_items E s k ts)) \<Longrightarrow> v_box v = (if to_checkbox s then Some 0 else None)"
  by (induction E s k ts rule: render_items.induct) (auto simp: render_node_def Let_def)

lemma boxes_ok_zero: "\<forall>v\<in>set (labels ts). v_box v = b \<Longrightarrow> b = Some 0 \<or> b = None \<Longrightarrow> boxes_ok ts"
proof (induction ts rule: boxes_ok.induct)
  case (2 v cs ts)
  have "\<forall>t\<in>set cs. v_box (lab t) = b" using 2(3) root_label by fastforce
  then have "b = Some 0 \<Longrightarrow> cs \<noteq> [] \<Longrightarrow> box_of_kids cs = 0" by (cases cs) (auto simp: box_of_kids_def list_all_iff)
  with 2 \<open>\<forall>t\<in>set cs. v_box (lab t) = b\<close> show ?case by (auto simp: list_all_iff)
qed simp

lemma leaf_boxes_labels: "x \<in> set (leaf_boxes ts) \<Longrightarrow> \<exists>v\<in>set (labels ts). x = (v_dom v, v_box v)"
  by (induction ts rule: leaf_boxes.induct) (auto split: if_splits)

lemma set_kids_simps [simp]:
  "set_kids P h [] = []"
  "set_kids P h (Rose x cs # ts) = (if P x then Rose x (h cs) else Rose x (set_kids P h cs)) # set_kids P h ts"
  "set_kids P h (ts @ us) = set_kids P h ts @ set_kids P h us"
  by (simp_all add: set_kids_def)

lemma set_kids_other: "\<forall>x\<in>set (labels ts). \<not> P x \<Longrightarrow> set_kids P h ts = ts"
  unfolding set_kids_def by (rule alter_other)

lemma relabel_set_kids:
  assumes "\<And>x. Q (f x) = P x" and "\<And>cs. relabel f (h cs) = h' (relabel f cs)"
  shows "relabel f (set_kids P h ts) = set_kids Q h' (relabel f ts)"
  by (induction ts rule: forest_induct) (simp_all add: assms)

lemma labels_set_kids: "set (labels (set_kids P h ts)) \<subseteq> set (labels ts) \<union> (\<Union>cs\<in>kids ` set (nodes ts). set (labels (h cs)))"
  by (induction ts rule: forest_induct) auto

lemma nodes_labels: "t \<in> set (nodes ts) \<Longrightarrow> set (labels (kids t)) \<subseteq> set (labels ts)"
  by (induction ts rule: forest_induct) auto

lemma labels_add: "set (labels (set_kids P (\<lambda>cs. cs @ us) ts)) \<subseteq> set (labels ts) \<union> set (labels us)"
  using labels_set_kids [of P "\<lambda>cs. cs @ us" ts] nodes_labels by fastforce

lemma distinct_add:
  assumes "distinct (labels ts)" and "distinct (labels us)" and "set (labels ts) \<inter> set (labels us) = {}"
  shows "distinct (labels (set_kids (\<lambda>x. x = (p::nat)) (\<lambda>cs. cs @ us) ts))"
  using assms(1,3)
proof (induction ts rule: forest_induct)
  case (Rose x cs ts)
  note la = labels_add [of "\<lambda>x. x = p" us]
  show ?case
  proof (cases "x = p")
    case True
    then have "set_kids (\<lambda>x. x = p) (\<lambda>cs. cs @ us) ts = ts" using Rose.prems by (intro set_kids_other) auto
    with True Rose.prems assms(2) show ?thesis by auto
  next
    case False
    show ?thesis
    proof (cases "p \<in> set (labels cs)")
      case True
      then have "set_kids (\<lambda>x. x = p) (\<lambda>cs. cs @ us) ts = ts" using Rose.prems by (intro set_kids_other) auto
      moreover have "distinct (labels (set_kids (\<lambda>x. x = p) (\<lambda>cs. cs @ us) cs))" using Rose by auto
      ultimately show ?thesis using False Rose.prems la [of cs] by auto
    next
      case notin: False
      then have "set_kids (\<lambda>x. x = p) (\<lambda>cs. cs @ us) cs = cs" by (intro set_kids_other) auto
      moreover have "distinct (labels (set_kids (\<lambda>x. x = p) (\<lambda>cs. cs @ us) ts))" using Rose by auto
      ultimately show ?thesis using False Rose.prems la [of ts] by auto
    qed
  qed
qed simp

lemma boxes_off_add:
  assumes "boxes_ok ts" and "boxes_ok us" and "d \<in> set (ids us)" and "distinct (ids ts)" and "d \<notin> set (ids ts)"
  shows "boxes_off d (set_kids (\<lambda>v. v_dom v = p) (\<lambda>cs. cs @ us) ts)"
  using assms(1,4,5)
proof (induction ts rule: boxes_ok.induct)
  case (2 v cs ts)
  then have IH: "boxes_off d (set_kids (\<lambda>v. v_dom v = p) (\<lambda>cs. cs @ us) cs)" "boxes_off d (set_kids (\<lambda>v. v_dom v = p) (\<lambda>cs. cs @ us) ts)"
    by auto
  consider "v_dom v = p" | "v_dom v \<noteq> p" "p \<in> set (ids cs)" | "v_dom v \<noteq> p" "p \<notin> set (ids cs)" by blast
  then show ?case
  proof cases
    case 1
    with IH assms(2,3) 2(3) show ?thesis by (auto simp: boxes_ok_off)
  next
    case p: 2
    have "d \<in> set (ids (set_kids (\<lambda>v. v_dom v = p) (\<lambda>cs. cs @ us) cs))"
      using p(2) assms(3)
    proof (induction cs rule: forest_induct)
      case (Rose w ws cs)
      then show ?case by (cases "p = v_dom w") auto
    qed simp
    with IH p(1) show ?thesis by simp
  next
    case 3
    then have "set_kids (\<lambda>v. v_dom v = p) (\<lambda>cs. cs @ us) cs = cs" by (intro set_kids_other) auto
    moreover have "node_ok v cs" using 2(3) by (simp add: node_ok_def)
    ultimately show ?thesis using IH 3 by simp
  qed
qed simp

lemma leaf_boxes_add: "us \<noteq> [] \<Longrightarrow> set (leaf_boxes (set_kids P (\<lambda>cs. cs @ us) ts)) \<subseteq> set (leaf_boxes ts) \<union> set (leaf_boxes us)"
proof (induction ts rule: forest_induct)
  case (Rose v cs ts)
  have "leaf_boxes (as @ bs) = leaf_boxes as @ leaf_boxes bs" for as bs by (induction as rule: leaf_boxes.induct) auto
  moreover have "set_kids P (\<lambda>cs. cs @ us) cs = [] \<longleftrightarrow> cs = []" by (cases cs rule: labels.cases) auto
  ultimately show ?case using Rose by auto
qed simp

text \<open>The forest of the identifiers, and the forest with a list appended at a place.\<close>

definition shape :: "tree \<Rightarrow> nat rose list" where
  "shape s = relabel n_dom (tw_data s)"

definition add_at :: "nat option \<Rightarrow> 'a rose list \<Rightarrow> ('a \<Rightarrow> nat) \<Rightarrow> 'a rose list \<Rightarrow> 'a rose list" where
  "add_at p us key ts = (case p of None \<Rightarrow> ts @ us | Some p \<Rightarrow> set_kids (\<lambda>x. key x = p) (\<lambda>cs. cs @ us) ts)"

lemma relabel_add_at: "relabel f (add_at p us (\<lambda>x. key (f x)) ts) = add_at p (relabel f us) key (relabel f ts)"
  by (auto simp: add_at_def intro: relabel_set_kids split: option.split)

lemma add_at_labels: "set (labels (add_at p us key ts)) \<subseteq> set (labels ts) \<union> set (labels us)"
  by (cases p) (simp_all add: add_at_def labels_add)

definition new_nodes :: "tnode rose list \<Rightarrow> tree \<Rightarrow> tnode rose list" where
  "new_nodes data s = fst (number (tw_next s) data)"

text \<open>The nodes to load: none filtered out.\<close>

definition plain_nodes :: "tnode rose list \<Rightarrow> bool" where
  "plain_nodes ts \<longleftrightarrow> ts \<noteq> [] \<and> (\<forall>n\<in>set (labels ts). \<not> n_hidden n)"

lemma put_data_ok:
  assumes "tree_ok s" and "plain_nodes data" and "\<forall>d. p = Some d \<longrightarrow> get_node d s \<noteq> None" and "put_data E p data True s = (new, t)"
  shows "new = new_nodes data s" and "tree_base t" and "shape t = add_at p (relabel n_dom new) id (shape s)"
    and "\<And>d. d \<in> set (map n_dom (labels new)) \<Longrightarrow> boxes_off d (tw_dom t)" and "leaf_ok (tw_dom t)"
proof -
  obtain us k where nu: "number (tw_next s) data = (us, k)" by (cases "number (tw_next s) data")
  note nsp = number_spec [OF nu]
  define items where "items = render_items E s (list_depth p s) us"
  define u where "u = s\<lparr>tw_data := add_at p us n_dom (tw_data s), tw_next := k, tw_dom := add_at p items v_dom (tw_dom s)\<rparr>"
  have f: "(case p of None \<Rightarrow> None | Some d \<Rightarrow> map_option (\<lambda>_. d) (get_node d s)) = p" using assms(3) by (auto split: option.split)
  have t: "new = us" "t = (case p of None \<Rightarrow> u | Some d \<Rightarrow> set_title E d u)"
    using assms(4) unfolding put_data_def f nu by (auto simp: Let_def data_kids_def dom_kids_def u_def add_at_def items_def split: option.splits)
  have q: "quiet u t" using quiet_title by (auto simp: t(2) split: option.split)
  note b = assms(1) [unfolded tree_ok_def tree_base_def]
  have bs: "in_sync s" "\<not> to_onlyLeaf s" using b by simp_all
  have sh: "relabel v_dom items = relabel n_dom us" by (simp add: items_def render_shape)
  have ui: "ids items = [tw_next s..<k]" using arg_cong [OF sh, of labels] nsp by simp
  have old: "set (ids (tw_dom s)) \<inter> {tw_next s..<k} = {}" "\<forall>d\<in>set (ids (tw_dom s)). 0 < d \<and> d < tw_next s" "distinct (ids (tw_dom s))" "0 < tw_next s"
    using bs(1) by (force simp: in_sync_def)+
  have kk: "tw_next s \<le> k" using nsp by simp
  have nd: "set (ids (tw_dom u)) \<subseteq> set (ids (tw_dom s)) \<union> set (ids items)"
    using add_at_labels [of p items v_dom "tw_dom s"] by (auto simp: u_def)
  have sd: "relabel v_dom (tw_dom u) = add_at p (relabel n_dom us) id (shape s)"
    using relabel_add_at [of v_dom p items id "tw_dom s"] bs(1) sh by (simp add: u_def in_sync_def shape_def)
  have su: "shape u = add_at p (relabel n_dom us) id (shape s)"
    using relabel_add_at [of n_dom p us id "tw_data s"] by (simp add: u_def shape_def)
  have "distinct (ids (tw_dom u))"
  proof (cases p)
    case None
    then show ?thesis using old(1,3) ui by (auto simp: u_def add_at_def)
  next
    case (Some d)
    have "relabel v_dom (tw_dom u) = set_kids (\<lambda>x. x = d) (\<lambda>cs. cs @ relabel v_dom items) (relabel v_dom (tw_dom s))"
      unfolding sd using bs(1) sh by (simp add: add_at_def Some in_sync_def shape_def)
    then have "ids (tw_dom u) = labels (set_kids (\<lambda>x. x = d) (\<lambda>cs. cs @ relabel v_dom items) (relabel v_dom (tw_dom s)))"
      by (metis labels_relabel)
    then show ?thesis using distinct_add [of "relabel v_dom (tw_dom s)" "relabel v_dom items" d] old(1,3) ui by simp
  qed
  then have uin: "in_sync u"
    using sd su nd ui old(2,4) kk by (force simp: in_sync_def shape_def u_def)
  have "none_hidden u"
  proof -
    have "\<not> n_hidden n" if "n \<in> set (labels us)" for n
    proof -
      have "n_hidden n \<in> set (map n_hidden (labels us))" using that by simp
      then show ?thesis using nsp assms(2) by (auto simp: plain_nodes_def)
    qed
    then show ?thesis using b add_at_labels [of p us n_dom "tw_data s"] by (auto simp: none_hidden_def u_def)
  qed
  note nh = this
  have bx: "v_box v = (if to_checkbox s then Some 0 else None)" if "v \<in> set (labels items)" for v
    using render_boxes [OF bs(2)] that by (simp add: items_def)
  have cb: "to_checkbox u = to_checkbox s" "to_cascade u = to_cascade s" "to_onlyLeaf u = to_onlyLeaf s" "to_url u = to_url s"
    by (simp_all add: u_def)
  have fs: "full_boxes (to_checkbox s) (tw_dom s)" using b by blast
  have "v_box v \<noteq> None \<longleftrightarrow> to_checkbox s" if "v \<in> set (labels (tw_dom u))" for v
  proof -
    have "v \<in> set (labels (tw_dom s)) \<or> v \<in> set (labels items)"
      using that subsetD [OF add_at_labels [of p items v_dom "tw_dom s"], of v] by (simp add: u_def)
    then show ?thesis
    proof
      assume "v \<in> set (labels (tw_dom s))" then show ?thesis using fs by (simp add: full_boxes_def)
    next
      assume "v \<in> set (labels items)" then show ?thesis by (simp add: bx)
    qed
  qed
  then have "full_boxes (to_checkbox u) (tw_dom u)" unfolding full_boxes_def cb by blast
  with nh uin b have tu: "tree_base u" unfolding tree_base_def cb by blast
  have bi: "boxes_ok items" by (rule boxes_ok_zero [of items "if to_checkbox s then Some 0 else None"]) (use bx in simp_all)
  show "new = new_nodes data s" by (simp add: t new_nodes_def nu)
  show "tree_base t" using tu quiet_facts(1) [OF q] by simp
  show "shape t = add_at p (relabel n_dom new) id (shape s)" using quiet_facts(4) [OF q] su t(1) by (simp add: shape_def)
  have "us \<noteq> []" using nsp assms(2) by (auto simp: plain_nodes_def)
  then have ine: "items \<noteq> []" using sh by (metis relabel_Nil)
  have "set (leaf_boxes (tw_dom u)) \<subseteq> set (leaf_boxes (tw_dom s)) \<union> set (leaf_boxes items)"
  proof (cases p)
    case None
    have "leaf_boxes (as @ bs) = leaf_boxes as @ leaf_boxes bs" for as bs by (induction as rule: leaf_boxes.induct) auto
    then show ?thesis by (simp add: u_def add_at_def None)
  next
    case (Some d)
    then show ?thesis using leaf_boxes_add [OF ine] by (simp add: u_def add_at_def)
  qed
  moreover have "snd x = (if to_checkbox s then Some 0 else None)" if "x \<in> set (leaf_boxes items)" for x
    using leaf_boxes_labels [OF that] bx by auto
  ultimately have "leaf_ok (tw_dom u)"
    using b unfolding leaf_ok_def by (metis UnE option.distinct(1) option.inject subsetD zero_le_one)
  then show "leaf_ok (tw_dom t)" using quiet_facts(7) [OF q] by (simp add: leaf_ok_def)
  show "boxes_off d (tw_dom t)" if "d \<in> set (map n_dom (labels new))" for d
  proof -
    have "d \<in> set (ids items)" using that arg_cong [OF sh, of labels] t(1) by simp
    moreover from this have "d \<notin> set (ids (tw_dom s))" using ui old(1) by auto
    moreover have "boxes_ok (tw_dom s)" using b by simp
    ultimately have "boxes_off d (tw_dom u)"
      using boxes_off_add [of "tw_dom s" items d] bi old(3) by (cases p) (auto simp: u_def add_at_def boxes_ok_off)
    moreover obtain g where g: "tw_dom t = relabel g (tw_dom u)" "\<forall>v. v_dom (g v) = v_dom v \<and> v_box (g v) = v_box v"
      using q unfolding quiet_def by blast
    moreover have "boxes_off d (relabel g ts) = boxes_off d ts" for ts by (rule boxes_off_relabel) (use g(2) in simp)
    ultimately show ?thesis by simp
  qed
qed

lemma check_returns: "in_sync s \<Longrightarrow> d \<in> set (ids (tw_dom s)) \<Longrightarrow> \<exists>u. check_node E d flag s = Some u"
  using sync_find(3) [of s d] by (auto simp: check_node_def Let_def split: option.split)

lemma check_elem_keeps:
  assumes "tree_ok s" and "no_refusal E" and "d \<in> set (ids (tw_dom s))"
  shows "\<exists>u. check_elem E b s d = Some u \<and> tree_ok u \<and> relabel v_dom (tw_dom u) = relabel v_dom (tw_dom s) \<and> tw_next u = tw_next s"
proof -
  have s: "in_sync s" using assms(1) by (simp add: tree_ok_def tree_base_def)
  have "elem d s \<noteq> None" using sync_find(2,3) [OF s, of d] assms(3) by simp
  then have "check_elem E b s d = check_node E d (Some b) s" by (auto simp: check_elem_def)
  with check_returns [OF s assms(3)] check_keeps [OF assms(1,2)] show ?thesis by metis
qed

lemma ids_shape: "relabel v_dom ts = relabel v_dom us \<Longrightarrow> ids ts = ids us"
  by (metis labels_relabel)

lemma check_all_keeps:
  assumes "tree_ok s" and "no_refusal E" and "set ds \<subseteq> set (ids (tw_dom s))"
  shows "\<exists>u. foldM (check_elem E b) s ds = Some u \<and> tree_ok u \<and> relabel v_dom (tw_dom u) = relabel v_dom (tw_dom s) \<and> tw_next u = tw_next s"
  using assms(1,3)
proof (induction ds arbitrary: s)
  case (Cons d ds)
  then obtain u where u: "check_elem E b s d = Some u" "tree_ok u" "relabel v_dom (tw_dom u) = relabel v_dom (tw_dom s)" "tw_next u = tw_next s"
    using check_elem_keeps [OF Cons.prems(1) assms(2), of d b] Cons.prems(2) by auto
  have "set ds \<subseteq> set (ids (tw_dom u))" using Cons.prems(2) ids_shape [OF u(3)] by simp
  from Cons.IH [OF u(2) this] u show ?case by simp
qed simp

lemma flagged_eq: "flagged new = map n_dom (filter n_checked (labels new))"
proof -
  have "walk (\<lambda>t l. (True, if n_checked (lab t) then l @ [n_dom (lab t)] else l)) new [] =
      fold (\<lambda>t l. if n_checked (lab t) then l @ [n_dom (lab t)] else l) (nodes new) []" by (rule walk_all)
  also have "fold (\<lambda>t l. if n_checked (lab t) then l @ [n_dom (lab t)] else l) ns acc =
      acc @ map n_dom (filter n_checked (map lab ns))" for ns acc by (induction ns arbitrary: acc) auto
  finally show ?thesis by (simp add: flagged_def labels_nodes)
qed

lemma tree_ok_shape: "tree_ok s \<Longrightarrow> relabel v_dom (tw_dom s) = shape s"
  by (simp add: tree_ok_def tree_base_def in_sync_def shape_def)

lemma load_ok:
  assumes "tree_ok s" and "plain_nodes data" and "\<forall>d. p = Some d \<longrightarrow> get_node d s \<noteq> None" and "no_refusal E"
  shows "\<exists>u. load_nodes E p data True s = Some u \<and> tree_ok u \<and> shape u = add_at p (relabel n_dom (new_nodes data s)) id (shape s)"
proof -
  obtain new t where nt: "put_data E p data True s = (new, t)" by (cases "put_data E p data True s")
  note pd = put_data_ok [OF assms(1,2,3) nt]
  let ?t = "t\<lparr>tw_mute := True\<rparr>"
  have q: "quiet t ?t" by simp
  have bt: "tree_base ?t" "boxes_off d (tw_dom ?t) = boxes_off d (tw_dom t)" for d using pd(2) quiet_facts(1) [OF q] by simp_all
  obtain n cs ns where new: "new = Rose n cs # ns"
  proof -
    have "new \<noteq> []" using assms(2) number_spec [of "tw_next s" data] pd(1) unfolding new_nodes_def plain_nodes_def
      by (cases "number (tw_next s) data") auto
    then show thesis using that by (cases new rule: labels.cases) auto
  qed
  have lab_in: "n_dom m \<in> set (ids (tw_dom ?t))" if "m \<in> set (labels new)" for m
  proof -
    have "ids (tw_dom t) = labels (shape t)" using pd(2) sync_ids [of t] by (simp add: tree_base_def shape_def)
    moreover have "n_dom m \<in> set (labels (add_at p (relabel n_dom new) id ts))" if "\<And>d. p = Some d \<Longrightarrow> d \<in> set (labels ts)" for ts
    proof (cases p)
      case None
      then show ?thesis using \<open>m \<in> set (labels new)\<close> by (simp add: add_at_def)
    next
      case (Some d)
      have "d \<in> set (labels ts) \<Longrightarrow> n_dom m \<in> set (labels (set_kids (\<lambda>x. x = d) (\<lambda>cs. cs @ relabel n_dom new) ts))"
      proof (induction ts rule: forest_induct)
        case (Rose x cs ts)
        then show ?case using \<open>m \<in> set (labels new)\<close> by (cases "x = d") auto
      qed simp
      then show ?thesis using that Some by (simp add: add_at_def)
    qed
    moreover have "p = Some d \<Longrightarrow> d \<in> set (labels (shape s))" for d
      using assms(3) by (auto simp: shape_def get_node_def find_node_None)
    ultimately show ?thesis using pd(3) by simp
  qed
  have leaf: "\<forall>x\<in>set (leaf_boxes (tw_dom ?t)). fst x \<noteq> d \<longrightarrow> (\<forall>k. snd x = Some k \<longrightarrow> k \<le> 1)" for d
    using pd(5) by (simp add: leaf_ok_def)
  have rep: "\<exists>u. check_elem E b ?t d = Some u \<and> tree_ok u \<and> relabel v_dom (tw_dom u) = relabel v_dom (tw_dom ?t)"
    if "d \<in> set (map n_dom (labels new))" for b d
  proof -
    have d: "d \<in> set (ids (tw_dom ?t))" using that lab_in by auto
    have sy: "in_sync ?t" using bt(1) by (simp add: tree_base_def)
    have "elem d ?t \<noteq> None" using sync_find(2,3) [OF sy, of d] d by simp
    then have "check_elem E b ?t d = check_node E d (Some b) ?t" by (auto simp: check_elem_def)
    moreover obtain u where "check_node E d (Some b) ?t = Some u" using check_returns [OF sy d] by blast
    moreover have "boxes_off d (tw_dom ?t)" using pd(4) [OF that] by simp
    ultimately show ?thesis using check_repairs(1,2) [OF bt(1) _ assms(4) _ leaf d] by auto
  qed
  have fl: "set (flagged new) \<subseteq> set (ids (tw_dom ?t))" using lab_in by (auto simp: flagged_eq)
  have "\<exists>v w. foldM (check_elem E False) ?t (first_unchecked new) = Some v \<and> foldM (check_elem E True) v (flagged new) = Some w
     \<and> tree_ok w \<and> relabel v_dom (tw_dom w) = relabel v_dom (tw_dom ?t)"
  proof (cases "first_unchecked new")
    case Nil
    then have "n_checked n" by (simp add: new first_unchecked_def split: if_splits)
    then obtain ds where ds: "flagged new = n_dom n # ds" by (simp add: flagged_eq new)
    obtain u where u: "check_elem E True ?t (n_dom n) = Some u" "tree_ok u" "relabel v_dom (tw_dom u) = relabel v_dom (tw_dom ?t)"
      using rep [of "n_dom n" True] by (auto simp: new)
    have "set ds \<subseteq> set (ids (tw_dom u))" using fl ds ids_shape [OF u(3)] by simp
    from check_all_keeps [OF u(2) assms(4) this] u show ?thesis by (auto simp: Nil ds)
  next
    case (Cons d ds)
    have "length (first_unchecked new) \<le> 1" by (simp add: first_unchecked_def)
    then have "first_unchecked new = [d]" using Cons by simp
    have "d \<in> set (map n_dom (labels new))"
    proof -
      have "d \<in> set (first_unchecked new)" using Cons by simp
      then have "d \<in> set (map n_dom (filter (\<lambda>n. \<not> n_checked n) (map lab new)))"
        unfolding first_unchecked_def by (rule in_set_takeD)
      then show ?thesis using root_label by auto
    qed
    from rep [OF this, of False] obtain u where u: "check_elem E False ?t d = Some u" "tree_ok u" "relabel v_dom (tw_dom u) = relabel v_dom (tw_dom ?t)"
      by blast
    have "set (flagged new) \<subseteq> set (ids (tw_dom u))" using fl ids_shape [OF u(3)] by simp
    from check_all_keeps [OF u(2) assms(4) this] u show ?thesis by (auto simp: \<open>first_unchecked new = [d]\<close>)
  qed
  then obtain v w where vw: "foldM (check_elem E False) ?t (first_unchecked new) = Some v" "foldM (check_elem E True) v (flagged new) = Some w"
    "tree_ok w" "relabel v_dom (tw_dom w) = relabel v_dom (tw_dom ?t)" by blast
  let ?f = "case p of None \<Rightarrow> None | Some d \<Rightarrow> map_option (\<lambda>_. d) (get_node d s)"
  have "load_nodes E p data True s = Some (tr_emit (TLoadSuccess ?f) (w\<lparr>tw_mute := False\<rparr>))"
    by (simp add: load_nodes_def nt vw)
  moreover have qw: "quiet w (tr_emit (TLoadSuccess ?f) (w\<lparr>tw_mute := False\<rparr>))" by simp
  then have "tree_ok (tr_emit (TLoadSuccess ?f) (w\<lparr>tw_mute := False\<rparr>))" using vw(3) quiet_facts(2) by blast
  moreover have "shape (tr_emit (TLoadSuccess ?f) (w\<lparr>tw_mute := False\<rparr>)) = shape w" by (simp add: shape_def tr_emit_def)
  moreover have "shape w = shape t"
    using tree_ok_shape [OF vw(3)] vw(4) pd(2) by (simp add: tree_base_def in_sync_def shape_def)
  ultimately show ?thesis using pd(1,3) by auto
qed

section \<open>Appending\<close>

lemma set_leaf_keeps:
  assumes "tree_ok s" and "no_refusal E"
  shows "\<exists>u. set_leaf E d s = Some u \<and> tree_ok u \<and> shape u = shape s"
proof (cases "to_checkbox s \<and> elem d s \<noteq> None")
  case False
  then show ?thesis using assms by (auto simp: set_leaf_def split: option.split)
next
  case True
  then obtain e where e: "elem d s = Some e" by blast
  have o: "\<not> to_onlyLeaf s" and sy: "in_sync s" and fb: "full_boxes True (tw_dom s)" using assms(1) True by (auto simp: tree_ok_def tree_base_def)
  have d: "d \<in> set (ids (tw_dom s))" using sync_find(2,3) [OF sy, of d] e by simp
  have bx: "v_box (lab e) \<noteq> None"
    using fb find_node_Some e unfolding elem_def full_boxes_def by blast
  have ck: "\<exists>u. check_node E d f w = Some u \<and> tree_ok u \<and> shape u = shape w" if w: "tree_ok w" "d \<in> set (ids (tw_dom w))" for f w
  proof -
    have "in_sync w" using w(1) by (simp add: tree_ok_def tree_base_def)
    then obtain u where u: "check_node E d f w = Some u" using check_returns w(2) by blast
    with check_keeps [OF w(1) assms(2) u] tree_ok_shape w(1) show ?thesis by metis
  qed
  have ck2: "\<exists>u. Option.bind (check_node E d f s) (check_node E d g) = Some u \<and> tree_ok u \<and> shape u = shape s" for f g
  proof -
    obtain v where v: "check_node E d f s = Some v" "tree_ok v" "shape v = shape s" using ck [OF assms(1) d] by blast
    have "ids (tw_dom v) = ids (tw_dom s)" using tree_ok_shape [OF v(2)] tree_ok_shape [OF assms(1)] v(3) by (intro ids_shape) simp
    with ck [OF v(2)] d v show ?thesis by auto
  qed
  show ?thesis
    using True e o bx ck [OF assms(1) d] ck2 assms(1) unfolding set_leaf_def by (auto simp: Let_def)
qed

lemma make_folder_keeps: "v_dom (make_folder v) = v_dom v \<and> v_box (make_folder v) = v_box v"
  by (simp add: make_folder_def Let_def)

lemma append_ok:
  assumes "tree_ok s" and "plain_nodes data" and "\<forall>d. p = Some d \<longrightarrow> get_node d s \<noteq> None" and "no_refusal E"
  shows "\<exists>u. append_nodes E p data s = Some u \<and> tree_ok u \<and> shape u = add_at p (relabel n_dom (new_nodes data s)) id (shape s)"
proof (cases p)
  case None
  with load_ok [OF assms(1,2,3,4)] assms(2) show ?thesis by (simp add: append_nodes_def plain_nodes_def)
next
  case (Some d)
  let ?s = "upd_elem d make_folder s"
  have q: "quiet s ?s" by (rule quiet_elem) (rule make_folder_keeps)
  have k: "tree_ok ?s" "shape ?s = shape s" "get_node d ?s = get_node d s" "new_nodes data ?s = new_nodes data s"
    using quiet_facts(2,4) [OF q] assms(1) by (simp_all add: shape_def) (simp_all add: upd_elem_def get_node_def new_nodes_def)
  have "\<forall>x. Some d = Some x \<longrightarrow> get_node x ?s \<noteq> None" using assms(3) Some k(3) by simp
  from load_ok [OF k(1) assms(2) this assms(4)] obtain v where v: "load_nodes E (Some d) data True ?s = Some v" "tree_ok v"
    "shape v = add_at p (relabel n_dom (new_nodes data s)) id (shape s)" using k Some by auto
  from set_leaf_keeps [OF v(2) assms(4), of d] v assms(2) show ?thesis
    by (auto simp: append_nodes_def Some plain_nodes_def)
qed

end
