(* ===== verification/Tr_Ops.thy ===== *)
theory Tr_Ops
  imports Tr_Forest
begin

text \<open>
  Removing a node, \<open>_b0\<close> of \<open>js/plugins/jquery.tree.js\<close>: the objects and the elements stay in step, and
  \<open>_51\<close> brings the boxes above back in accord.
\<close>

section \<open>Removing\<close>

definition drop_key :: "('a \<Rightarrow> nat) \<Rightarrow> nat \<Rightarrow> 'a rose list \<Rightarrow> 'a rose list" where
  "drop_key key d cs = (case index_where (\<lambda>t. key (lab t) = d) cs of None \<Rightarrow> cs | Some i \<Rightarrow> splice_del i cs)"

lemma drop_node_key: "drop_node d = drop_key n_dom d"
  by (simp add: drop_node_def drop_key_def fun_eq_iff)

lemma drop_key_simps [simp]:
  "drop_key key d [] = []" "drop_key key d (Rose x cs # ts) = (if key x = d then ts else Rose x cs # drop_key key d ts)"
  by (auto simp: drop_key_def split: option.split)

definition kill :: "('a \<Rightarrow> nat) \<Rightarrow> nat \<Rightarrow> 'a rose list \<Rightarrow> 'a rose list" where
  "kill key d = alter (\<lambda>x. key x = d) (\<lambda>_. [])"

lemma kill_simps [simp]:
  "kill key d [] = []"
  "kill key d (Rose x cs # ts) = (if key x = d then kill key d ts else Rose x (kill key d cs) # kill key d ts)"
  by (simp_all add: kill_def)

lemma kill_other: "d \<notin> set (map key (labels ts)) \<Longrightarrow> kill key d ts = ts"
  unfolding kill_def by (rule alter_other) auto

lemma kill_labels: "set (labels (kill key d ts)) \<subseteq> set (labels ts)"
  by (induction ts rule: forest_induct) auto

lemma kill_distinct: "distinct (map key (labels ts)) \<Longrightarrow> distinct (map key (labels (kill key d ts)))"
proof (induction ts rule: forest_induct)
  case (Rose x cs ts)
  have s: "key ` set (labels (kill key d us)) \<subseteq> key ` set (labels us)" for us by (rule image_mono [OF kill_labels])
  show ?case using Rose s [of cs] s [of ts] by (auto simp: image_iff) blast+
qed simp

lemma relabel_kill: "relabel f (kill (\<lambda>x. key (f x)) d ts) = kill key d (relabel f ts)"
  unfolding kill_def by (rule relabel_alter) simp_all

text \<open>Deleting from the list of the parent is deleting from the forest.\<close>

lemma drop_key_root: "distinct (map key (labels ts)) \<Longrightarrow> \<exists>t\<in>set ts. key (lab t) = d \<Longrightarrow> drop_key key d ts = kill key d ts"
proof (induction ts)
  case (Cons t ts)
  obtain x cs where t: "t = Rose x cs" by (cases t)
  show ?case
  proof (cases "key x = d")
    case True
    then have "d \<notin> set (map key (labels ts))" using Cons.prems(1) t by auto
    from kill_other [OF this] show ?thesis using True t by simp
  next
    case False
    then obtain u where u: "u \<in> set ts" "key (lab u) = d" using Cons.prems(2) t by auto
    have "d \<in> set (map key (labels ts))" using root_label [OF u(1)] u(2) by auto
    then have "d \<notin> set (map key (labels cs))" using Cons.prems(1) t by auto
    from kill_other [OF this] show ?thesis using False t Cons u by auto
  qed
qed simp

lemma path_root: "path_to P ts = Some [] \<Longrightarrow> \<exists>t\<in>set ts. P (lab t)"
  by (induction ts rule: forest_induct) (auto split: if_splits option.splits)

lemma set_kids_alter:
  assumes "\<And>cs. distinct (map key (labels cs)) \<Longrightarrow> path_to (\<lambda>x. key x = d) cs = Some [] \<Longrightarrow> h cs = alter (\<lambda>x. key x = d) g cs"
  shows "distinct (map key (labels ts)) \<Longrightarrow> path_to (\<lambda>x. key x = d) ts = Some q \<Longrightarrow> q \<noteq> [] \<Longrightarrow>
     set_kids (\<lambda>x. key x = key (last q)) h ts = alter (\<lambda>x. key x = d) g ts"
proof (induction ts arbitrary: q rule: forest_induct)
  case (Rose x cs ts)
  have dj: "key x \<notin> key ` set (labels cs)" "key x \<notin> key ` set (labels ts)" "key ` set (labels cs) \<inter> key ` set (labels ts) = {}"
    using Rose.prems(1) by auto
  have xd: "key x \<noteq> d" using Rose.prems(2,3) by auto
  have other: "d \<notin> set (map key (labels us)) \<Longrightarrow> alter (\<lambda>x. key x = d) g us = us" for us by (rule alter_other) auto
  show ?case
  proof (cases "path_to (\<lambda>x. key x = d) cs")
    case None
    then have t: "path_to (\<lambda>x. key x = d) ts = Some q" and c: "d \<notin> set (map key (labels cs))"
      using Rose.prems(2) xd None path_to_None [of "\<lambda>x. key x = d" cs] by auto
    have "last q \<in> set (labels ts)" using path_to_labels [OF t] Rose.prems(3) by auto
    then have l: "key x \<noteq> key (last q)" "\<forall>y\<in>set (labels cs). key y \<noteq> key (last q)" using dj by (force, force)
    have "set_kids (\<lambda>x. key x = key (last q)) h ts = alter (\<lambda>x. key x = d) g ts" using Rose t by simp
    with l xd other [OF c] set_kids_other [of cs "\<lambda>x. key x = key (last q)"] show ?thesis by simp
  next
    case (Some q')
    then have q: "q = x # q'" using Rose.prems(2) xd by simp
    have d: "d \<in> set (map key (labels cs))"
      using Some path_to_None [of "\<lambda>x. key x = d" cs] by auto
    then have c: "d \<notin> set (map key (labels ts))" using dj(3) by auto
    show ?thesis
    proof (cases "q' = []")
      case True
      have "h cs = alter (\<lambda>x. key x = d) g cs" by (rule assms) (use Rose.prems(1) Some True in simp_all)
      moreover have "set_kids (\<lambda>y. key y = key x) h ts = ts" by (rule set_kids_other) (use dj(2) in \<open>auto simp: image_iff\<close>)
      ultimately show ?thesis using True q xd other [OF c] by simp
    next
      case False
      have lq: "last q = last q'" "last q' \<in> set (labels cs)" using path_to_labels [OF Some] False q by auto
      then have "set_kids (\<lambda>x. key x = key (last q)) h ts = ts" by (intro set_kids_other) (use dj(3) in force)
      moreover have "key x \<noteq> key (last q)" using lq dj(1) by auto
      moreover have "set_kids (\<lambda>x. key x = key (last q)) h cs = alter (\<lambda>x. key x = d) g cs"
        using Rose.IH(1) [OF _ Some False] Rose.prems(1) lq(1) by simp
      ultimately show ?thesis using xd other [OF c] by simp
    qed
  qed
qed simp

lemma drop_key_at:
  "distinct (map key (labels ts)) \<Longrightarrow> path_to (\<lambda>x. key x = d) ts = Some q \<Longrightarrow> q \<noteq> [] \<Longrightarrow>
     set_kids (\<lambda>x. key x = key (last q)) (drop_key key d) ts = kill key d ts"
  unfolding kill_def by (rule set_kids_alter) (auto simp flip: kill_def intro: drop_key_root dest: path_root)

text \<open>After that only the parent can be out of accord, and only if it was indeterminate or has no child left.\<close>

definition half_ok :: "telem \<Rightarrow> telem rose list \<Rightarrow> bool" where
  "half_ok v cs \<longleftrightarrow> (\<forall>k. v_box v = Some k \<longrightarrow> k \<le> 2 \<and> (k \<le> 1 \<longrightarrow> list_all (\<lambda>t. v_box (lab t) = Some k) cs))"

fun boxes_but :: "nat \<Rightarrow> telem rose list \<Rightarrow> bool" where
  "boxes_but p [] = True"
| "boxes_but p (Rose v cs # ts) \<longleftrightarrow> (if v_dom v = p then half_ok v cs else node_ok v cs) \<and> boxes_but p cs \<and> boxes_but p ts"

lemma boxes_but_other: "p \<notin> set (ids ts) \<Longrightarrow> boxes_but p ts = boxes_ok ts"
  by (induction ts rule: boxes_ok.induct) (auto simp: node_ok_def)

lemma boxes_but_off: "boxes_but p ts \<Longrightarrow> boxes_off p ts"
  by (induction ts rule: boxes_ok.induct) auto

lemma boxes_but_find: "boxes_but p ts \<Longrightarrow> find_node (\<lambda>v. v_dom v = p) ts = Some t \<Longrightarrow> half_ok (lab t) (kids t)"
  by (induction ts rule: boxes_ok.induct) (auto split: if_splits option.splits)

lemma boxes_but_kids:
  "boxes_but p ts \<Longrightarrow> distinct (ids ts) \<Longrightarrow> find_node (\<lambda>v. v_dom v = p) ts = Some t \<Longrightarrow> boxes_ok (kids t)"
proof (induction ts rule: forest_induct)
  case (Rose v cs ts)
  then show ?case by (cases "v_dom v = p") (auto simp: boxes_but_other split: option.splits)
qed simp

lemma boxes_but_relabel:
  assumes "\<And>v. v_dom (g v) = v_dom v \<and> v_box (g v) = v_box v"
  shows "boxes_but p (relabel g ts) = boxes_but p ts"
proof (induction ts rule: forest_induct)
  case (Rose v cs ts)
  have g: "\<And>v. v_box (g v) = v_box v" using assms by simp
  have "node_ok (g v) (relabel g cs) = node_ok v cs"
    using list_all_relabel [OF g, of "\<lambda>b. b \<noteq> None" cs] by (simp add: node_ok_def box_of_kids_relabel [OF g] g)
  moreover have "half_ok (g v) (relabel g cs) = half_ok v cs"
    using list_all_relabel [OF g, of "\<lambda>b. b = Some k" cs for k] by (simp add: half_ok_def g)
  ultimately show ?case using Rose assms by simp
qed simp

lemma boxes_but_ok:
  "boxes_but p ts \<Longrightarrow> distinct (ids ts) \<Longrightarrow> (\<And>t. find_node (\<lambda>v. v_dom v = p) ts = Some t \<Longrightarrow> node_ok (lab t) (kids t)) \<Longrightarrow> boxes_ok ts"
proof (induction ts rule: forest_induct)
  case (Rose v cs ts)
  have "node_ok v cs" using Rose.prems(1,3) by (cases "v_dom v = p") auto
  moreover have "boxes_ok cs"
  proof (cases "p \<in> set (ids cs)")
    case False
    with Rose.prems(1) show ?thesis by (simp add: boxes_but_other)
  next
    case True
    then have "v_dom v \<noteq> p" using Rose.prems(2) by auto
    with Rose show ?thesis by auto
  qed
  moreover have "boxes_ok ts"
  proof (cases "p \<in> set (ids ts)")
    case False
    with Rose.prems(1) show ?thesis by (simp add: boxes_but_other)
  next
    case True
    then have "v_dom v \<noteq> p" "p \<notin> set (ids cs)" using Rose.prems(2) by auto
    then have "v_dom v \<noteq> p" "find_node (\<lambda>v. v_dom v = p) cs = None" by (auto simp: find_node_None)
    with Rose show ?thesis by auto
  qed
  ultimately show ?case by (simp add: node_ok_def)
qed simp

lemma kill_roots: "list_all (\<lambda>t. P (lab t)) cs \<Longrightarrow> list_all (\<lambda>t. P (lab t)) (kill key d cs)"
  by (induction cs rule: forest_induct) auto

lemma kill_map_roots:
  "\<forall>t\<in>set cs. v_dom (lab t) \<noteq> d \<Longrightarrow> map (\<lambda>t. v_box (lab t)) (kill v_dom d cs) = map (\<lambda>t. v_box (lab t)) cs"
  by (induction cs rule: forest_induct) auto

lemma kill_half: "node_ok v cs \<Longrightarrow> cs \<noteq> [] \<Longrightarrow> half_ok v (kill v_dom d cs)"
  using kill_roots [of "\<lambda>v. v_box v = Some 1" cs v_dom d] kill_roots [of "\<lambda>v. v_box v = Some 0" cs v_dom d]
  by (auto simp: node_ok_def half_ok_def box_of_kids_def)

lemma kill_node_ok:
  assumes "node_ok v cs" and "\<forall>t\<in>set cs. v_dom (lab t) \<noteq> d"
  shows "node_ok v (kill v_dom d cs)"
proof -
  have m: "map (\<lambda>t. v_box (lab t)) (kill v_dom d cs) = map (\<lambda>t. v_box (lab t)) cs" by (rule kill_map_roots) (rule assms(2))
  have "list_all (\<lambda>t. P (v_box (lab t))) us = list_all P (map (\<lambda>t. v_box (lab t)) us)" for P and us :: "telem rose list"
    by (simp add: list_all_iff)
  then have l: "list_all (\<lambda>t. P (v_box (lab t))) (kill v_dom d cs) = list_all (\<lambda>t. P (v_box (lab t))) cs" for P
    using m by metis
  have "box_of_kids (kill v_dom d cs) = box_of_kids cs"
    unfolding box_of_kids_def l [of "\<lambda>b. b = Some 1"] l [of "\<lambda>b. b = Some 0"] ..
  moreover have "kill v_dom d cs = [] \<longleftrightarrow> cs = []" using m by (metis map_is_Nil_conv)
  ultimately show ?thesis using assms(1) l [of "\<lambda>b. b \<noteq> None"] unfolding node_ok_def by simp
qed

lemma kill_root: "boxes_ok cs \<Longrightarrow> distinct (ids cs) \<Longrightarrow> path_ids d cs = Some [] \<Longrightarrow> boxes_ok (kill v_dom d cs)"
proof (induction cs)
  case (Cons t us)
  obtain w ws where t: "t = Rose w ws" by (cases t)
  show ?case
  proof (cases "v_dom w = d")
    case True
    then have "d \<notin> set (ids us)" using Cons.prems(2) t by auto
    then show ?thesis using True Cons.prems(1) t kill_other [of d v_dom us] by simp
  next
    case False
    then have n: "path_ids d ws = None" "path_ids d us = Some []" using Cons.prems(3) t by (auto split: option.splits)
    then have "d \<notin> set (ids ws)" using path_ids_None by blast
    then show ?thesis using False Cons t n kill_other [of d v_dom ws] by auto
  qed
qed simp

lemma kill_boxes:
  "boxes_ok ts \<Longrightarrow> distinct (ids ts) \<Longrightarrow> path_ids d ts = Some q \<Longrightarrow> q \<noteq> [] \<Longrightarrow> boxes_but (last q) (kill v_dom d ts)"
proof (induction ts arbitrary: q rule: forest_induct)
  case (Rose v cs ts)
  have dj: "v_dom v \<notin> set (ids cs)" "v_dom v \<notin> set (ids ts)" "set (ids cs) \<inter> set (ids ts) = {}" "distinct (ids cs)" "distinct (ids ts)"
    using Rose.prems(2) by auto
  have ok: "node_ok v cs" "boxes_ok cs" "boxes_ok ts" using Rose.prems(1) by (simp_all add: node_ok_def)
  have vd: "v_dom v \<noteq> d" using Rose.prems(3,4) by auto
  show ?case
  proof (cases "d \<in> set (ids cs)")
    case True
    then obtain q' where q': "path_ids d cs = Some q'" using path_ids_None by fastforce
    then have q: "q = v_dom v # q'" using Rose.prems(3) vd by simp
    have "d \<notin> set (ids ts)" using True dj(3) by blast
    then have ts: "kill v_dom d ts = ts" by (rule kill_other)
    have nts: "last q \<notin> set (ids ts)"
    proof (cases "q' = []")
      case False
      then have "last q' \<in> set (ids cs)" using subsetD [OF path_ids_set [OF q'] last_in_set] by blast
      with dj(3) q False show ?thesis by auto
    qed (use q dj(2) in simp)
    show ?thesis
    proof (cases "q' = []")
      case True
      then have "boxes_ok (kill v_dom d cs)" by (intro kill_root [OF ok(2) dj(4)]) (use q' in simp)
      moreover have "v_dom v \<notin> set (ids (kill v_dom d cs))" using kill_labels [of v_dom d cs] dj(1) by auto
      moreover have "cs \<noteq> []" using \<open>d \<in> set (ids cs)\<close> by auto
      ultimately show ?thesis
        using True q vd ts ok nts kill_half by (simp add: boxes_but_other)
    next
      case False
      then have b: "boxes_but (last q') (kill v_dom d cs)" by (intro Rose.IH(1) [OF ok(2) dj(4) q'])
      have "last q' \<in> set (ids cs)" using path_ids_set [OF q'] False by auto
      then have "last q' \<noteq> v_dom v" using dj(1) by auto
      moreover have "\<forall>t\<in>set cs. v_dom (lab t) \<noteq> d"
        using q' False dj(4) by (cases q') (auto dest: path_ids_root)
      then have "node_ok v (kill v_dom d cs)" by (rule kill_node_ok [OF ok(1)])
      ultimately show ?thesis using b q False vd ts ok(3) nts by (simp add: boxes_but_other)
    qed
  next
    case False
    then have t: "path_ids d ts = Some q" using Rose.prems(3) vd path_ids_None [of d cs] by auto
    have cs: "kill v_dom d cs = cs" by (rule kill_other) (rule False)
    have "last q \<in> set (ids ts)" using path_ids_set [OF t] Rose.prems(4) by auto
    with dj(2,3) have lq: "last q \<noteq> v_dom v" "last q \<notin> set (ids cs)" by (metis, metis disjoint_iff)
    then have "v_dom v \<noteq> last q" "boxes_but (last q) cs" using ok(2) boxes_but_other by auto
    moreover have "kill v_dom d (Rose v cs # ts) = Rose v cs # kill v_dom d ts" using cs vd by simp
    ultimately show ?thesis using Rose.IH(2) [OF ok(3) dj(5) t Rose.prems(4)] ok(1) by (simp only: boxes_but.simps if_False simp_thms)
  qed
qed simp

lemma kill_leaves:
  "path_ids d ts = Some q \<Longrightarrow> distinct (ids ts) \<Longrightarrow> x \<in> set (leaf_boxes (kill v_dom d ts)) \<Longrightarrow>
     x \<in> set (leaf_boxes ts) \<or> q \<noteq> [] \<and> fst x = last q"
proof (induction ts arbitrary: q rule: forest_induct)
  case (Rose v cs ts)
  have dj: "set (ids cs) \<inter> set (ids ts) = {}" "v_dom v \<notin> set (ids ts)" "distinct (ids cs)" "distinct (ids ts)"
    using Rose.prems(2) by auto
  consider (here) "v_dom v = d" | (in_cs) "v_dom v \<noteq> d" "d \<in> set (ids cs)" | (in_ts) "v_dom v \<noteq> d" "d \<notin> set (ids cs)" by blast
  then show ?case
  proof cases
    case here
    then have "kill v_dom d ts = ts" using kill_other [of d v_dom ts] dj(2) by auto
    with here Rose.prems(3) show ?thesis by auto
  next
    case in_cs
    then obtain q' where q': "path_ids d cs = Some q'" using path_ids_None by fastforce
    then have q: "q = v_dom v # q'" using Rose.prems(1) in_cs by simp
    have "d \<notin> set (ids ts)" using in_cs(2) dj(1) by blast
    then have ts: "kill v_dom d ts = ts" by (rule kill_other)
    show ?thesis
    proof (cases "kill v_dom d cs = []")
      case True
      have "q' = []"
      proof (rule ccontr)
        assume "q' \<noteq> []"
        then have "\<forall>t\<in>set cs. v_dom (lab t) \<noteq> d" using q' dj(3) by (cases q') (auto dest: path_ids_root)
        from kill_map_roots [OF this] True in_cs(2) show False by auto
      qed
      with True Rose.prems(3) ts q in_cs show ?thesis by auto
    next
      case False
      moreover have "cs \<noteq> []" using in_cs(2) by auto
      ultimately show ?thesis using Rose.IH(1) [OF q' dj(3)] Rose.prems(3) ts q in_cs by (auto split: if_splits)
    qed
  next
    case in_ts
    then have t: "path_ids d ts = Some q" using Rose.prems(1) path_ids_None [of d cs] by auto
    have cs: "kill v_dom d cs = cs" by (rule kill_other) (rule in_ts(2))
    with in_ts Rose.IH(2) [OF t dj(4)] Rose.prems(3) show ?thesis by auto
  qed
qed simp

text \<open>When all children have the same box, checked or unchecked, all nodes below have it.\<close>

lemma all_below:
  "boxes_ok cs \<Longrightarrow> full_boxes True cs \<Longrightarrow> k \<le> 1 \<Longrightarrow> list_all (\<lambda>t. v_box (lab t) = Some k) cs \<Longrightarrow> v \<in> set (labels cs) \<Longrightarrow> v_box v = Some k"
proof (induction cs rule: forest_induct)
  case (Rose w cs ts)
  have f: "full_boxes True cs" "full_boxes True ts" using Rose.prems(2) by (auto simp: full_boxes_def)
  have "list_all (\<lambda>t. v_box (lab t) = Some k) cs"
  proof (cases "cs = []")
    case False
    then have "k = box_of_kids cs" using Rose.prems(1,4) by simp
    with Rose.prems(3) show ?thesis by (auto simp: box_of_kids_def split: if_splits)
  qed simp
  with Rose f show ?case by auto
qed simp

lemma find_label: "distinct (ids ts) \<Longrightarrow> v \<in> set (labels ts) \<Longrightarrow> \<exists>t. find_node (\<lambda>w. v_dom w = v_dom v) ts = Some t \<and> lab t = v"
proof (induction ts rule: forest_induct)
  case (Rose w cs ts)
  have "find_node (\<lambda>w. v_dom w = v_dom v) cs = None" if "v \<in> set (labels ts)"
    using Rose.prems(1) that by (auto simp: find_node_None)
  with Rose show ?case by (cases "v_dom w = v_dom v") auto
qed simp

lemma below_checked:
  assumes "in_sync s" and "get_node p s = Some t" and "elem p s = Some e"
  shows "map n_checked (get_children (Some p) s) = map (\<lambda>v. v_box v = Some 1) (labels (kids e))"
proof -
  have k: "map n_dom (labels (kids t)) = ids (kids e)"
    using sync_labels [OF assms] by (cases t; cases e) simp
  have "get_children (Some p) s = map (fresh s) (labels (kids t))"
  proof -
    have "fold (\<lambda>t l. l @ [fresh s (lab t)]) ns acc = acc @ map (fresh s) (map lab ns)" for ns acc
      by (induction ns arbitrary: acc) simp_all
    then show ?thesis using assms(2) by (simp add: get_children_def walk_all labels_nodes)
  qed
  then have "map n_checked (get_children (Some p) s) = map (\<lambda>d. box_is 1 d s) (map n_dom (labels (kids t)))"
    by (simp add: fresh_def)
  also have "\<dots> = map (\<lambda>v. box_is 1 (v_dom v) s) (labels (kids e))" unfolding k by simp
  also have "\<dots> = map (\<lambda>v. v_box v = Some 1) (labels (kids e))"
  proof (rule map_cong [OF refl])
    fix v assume "v \<in> set (labels (kids e))"
    then have "v \<in> set (labels (tw_dom s))" using assms(3) find_node_Some unfolding elem_def by blast
    with assms(1) show "box_is 1 (v_dom v) s = (v_box v = Some 1)"
      using find_label by (fastforce simp: box_is_def elem_def in_sync_def)
  qed
  finally show ?thesis .
qed

text \<open>\<open>_51\<close> brings a parent that is half in accord in accord.\<close>

lemma set_leaf_repairs:
  assumes "tree_base s" and "boxes_but p (tw_dom s)" and "no_refusal E" and "p \<in> set (ids (tw_dom s))"
    and "\<forall>x\<in>set (leaf_boxes (tw_dom s)). fst x \<noteq> p \<longrightarrow> (\<forall>k. snd x = Some k \<longrightarrow> k \<le> 1)"
    and "\<forall>e. elem p s = Some e \<and> kids e = [] \<longrightarrow> v_hit (lab e) = None"
  shows "\<exists>u. set_leaf E p s = Some u \<and> tree_ok u \<and> shape u = shape s"
proof -
  have sy: "in_sync s" and fb: "full_boxes (to_checkbox s) (tw_dom s)" and o: "\<not> to_onlyLeaf s" and dist: "distinct (ids (tw_dom s))"
    using assms(1) by (auto simp: tree_base_def in_sync_def)
  obtain e where e: "elem p s = Some e" using sync_find(2,3) [OF sy, of p] assms(4) by auto
  obtain t where t: "get_node p s = Some t" using sync_find(3) [OF sy, of p] assms(4) by auto
  have shp: "shape u = shape s" if "tree_ok u" "relabel v_dom (tw_dom u) = relabel v_dom (tw_dom s)" for u
    using tree_ok_shape [OF that(1)] that(2) sy by (simp add: in_sync_def shape_def)
  have ck: "\<exists>u. check_node E p f s = Some u \<and> tree_ok u \<and> relabel v_dom (tw_dom u) = relabel v_dom (tw_dom s)" for f
  proof -
    obtain u where u: "check_node E p f s = Some u" using check_returns [OF sy assms(4)] by blast
    from check_repairs [OF assms(1) boxes_but_off [OF assms(2)] assms(3) u assms(5,4)] u show ?thesis by blast
  qed
  have ck2: "\<exists>u. Option.bind (check_node E p f s) (check_node E p g) = Some u \<and> tree_ok u \<and> relabel v_dom (tw_dom u) = relabel v_dom (tw_dom s)" for f g
  proof -
    obtain u where u: "check_node E p f s = Some u" "tree_ok u" "relabel v_dom (tw_dom u) = relabel v_dom (tw_dom s)" using ck by blast
    have p: "p \<in> set (ids (tw_dom u))" using ids_shape [OF u(3)] assms(4) by simp
    have "in_sync u" using u(2) by (simp add: tree_ok_def tree_base_def)
    then obtain w where w: "check_node E p g u = Some w" using check_returns p by blast
    from check_keeps [OF u(2) assms(3) w] u w show ?thesis by auto
  qed
  have ok: "tree_ok s" if "node_ok (lab e) (kids e)" "kids e = [] \<Longrightarrow> \<forall>k. v_box (lab e) = Some k \<longrightarrow> k \<le> 1"
  proof -
    have "boxes_ok (tw_dom s)"
      by (rule boxes_but_ok [OF assms(2) dist]) (use e that(1) in \<open>simp add: elem_def\<close>)
    moreover have "leaf_ok (tw_dom s)"
      unfolding leaf_ok_def
    proof (intro ballI allI impI)
      fix x k assume x: "x \<in> set (leaf_boxes (tw_dom s))" "snd x = Some k"
      show "k \<le> 1"
      proof (cases "fst x = p")
        case False
        with assms(5) x show ?thesis by blast
      next
        case True
        have "find_node (\<lambda>v. v_dom v = p) ts = Some e \<Longrightarrow> distinct (ids ts) \<Longrightarrow> x \<in> set (leaf_boxes ts) \<Longrightarrow> kids e = [] \<and> snd x = v_box (lab e)" for ts
        proof (induction ts rule: forest_induct)
          case (Rose v cs ts)
          have sub: "fst x \<in> set (ids us)" if "x \<in> set (leaf_boxes us)" for us using subsetD [OF leaf_boxes_ids, of "fst x" us] that by simp
          show ?case
          proof (cases "v_dom v = p")
            case True
            then have "x \<notin> set (leaf_boxes cs)" "x \<notin> set (leaf_boxes ts)" using sub Rose.prems(2) \<open>fst x = p\<close> by auto
            with True Rose.prems show ?thesis by (auto split: if_splits)
          next
            case nv: False
            show ?thesis
            proof (cases "p \<in> set (ids cs)")
              case True
              then have "x \<notin> set (leaf_boxes ts)" using sub [of ts] Rose.prems(2) \<open>fst x = p\<close> by auto
              moreover have "find_node (\<lambda>v. v_dom v = p) cs \<noteq> None" "cs \<noteq> []" using True by (auto simp: find_node_None)
              ultimately show ?thesis using Rose nv by auto
            next
              case False
              then have "x \<notin> set (leaf_boxes cs)" using sub [of cs] \<open>fst x = p\<close> by metis
              moreover have "find_node (\<lambda>v. v_dom v = p) cs = None" using False unfolding find_node_None by force
              ultimately show ?thesis using Rose nv \<open>fst x = p\<close> by (auto split: if_splits)
            qed
          qed
        qed simp
        from this [of "tw_dom s"] e dist x have "kids e = []" "v_box (lab e) = Some k" by (simp_all add: elem_def)
        with that(2) show ?thesis by blast
      qed
    qed
    ultimately show ?thesis using assms(1) by (simp add: tree_ok_def)
  qed
  show ?thesis
  proof (cases "to_checkbox s")
    case False
    then have "v_box v = None" if "v \<in> set (labels (tw_dom s))" for v using fb that by (simp add: full_boxes_def)
    moreover have "lab e \<in> set (labels (tw_dom s))" using e find_node_Some unfolding elem_def by blast
    ultimately have "tree_ok s" by (intro ok) (simp_all add: node_ok_def)
    with False show ?thesis by (simp add: set_leaf_def)
  next
    case True
    have el: "lab e \<in> set (labels (tw_dom s))" "set (labels (kids e)) \<subseteq> set (labels (tw_dom s))"
      using e find_node_Some unfolding elem_def by blast+
    obtain k where k: "v_box (lab e) = Some k" using fb True el(1) by (auto simp: full_boxes_def)
    have fk: "full_boxes True (kids e)" using fb True el(2) by (auto simp: full_boxes_def)
    have h: "half_ok (lab e) (kids e)" "boxes_ok (kids e)"
      using boxes_but_find [OF assms(2)] boxes_but_kids [OF assms(2) dist] e by (simp_all add: elem_def)
    then have k2: "k \<le> 2" and kk: "k \<le> 1 \<Longrightarrow> list_all (\<lambda>t. v_box (lab t) = Some k) (kids e)" using k by (auto simp: half_ok_def)
    show ?thesis
    proof (cases "v_hit (lab e) = None")
      case True
      then have "set_leaf E p s = check_node E p (Some (k = 1)) s" using e k \<open>to_checkbox s\<close> by (simp add: set_leaf_def)
      with ck shp show ?thesis by metis
    next
      case hit: False
      then have ne: "kids e \<noteq> []" using assms(6) [rule_format, of e] e by metis
      have "k = 1 \<or> k = 0 \<or> k = 2" using k2 by (auto simp: numeral_2_eq_2 le_Suc_eq)
      then consider "k = 1" | "k = 0" | "k = 2" by blast
      then show ?thesis
      proof cases
        case 1
        then have "set_leaf E p s = check_node E p (Some True) s" using e k hit o \<open>to_checkbox s\<close> by (simp add: set_leaf_def)
        with ck shp show ?thesis by metis
      next
        case 2
        then have l: "list_all (\<lambda>t. v_box (lab t) = Some 0) (kids e)" using kk by simp
        then have "\<not> list_all (\<lambda>t. v_box (lab t) = Some 1) (kids e)" using ne by (cases "kids e") auto
        then have "node_ok (lab e) (kids e)" using l k 2 full_roots [OF fk] by (simp add: node_ok_def box_of_kids_def)
        then have "tree_ok s" using ok ne by blast
        moreover have "set_leaf E p s = Some s" using e k 2 hit o \<open>to_checkbox s\<close> by (auto simp: set_leaf_def)
        ultimately show ?thesis by blast
      next
        case 3
        note bc = below_checked [OF sy t e]
        let ?all = "list_all n_checked (get_children (Some p) s)" and ?non = "list_all (\<lambda>n. \<not> n_checked n) (get_children (Some p) s)"
        have "?all = list_all id (map n_checked (get_children (Some p) s))" "?non = list_all Not (map n_checked (get_children (Some p) s))"
          by (simp_all add: list.pred_map comp_def)
        then have al: "?all \<longleftrightarrow> (\<forall>v\<in>set (labels (kids e)). v_box v = Some 1)" "?non \<longleftrightarrow> (\<forall>v\<in>set (labels (kids e)). v_box v \<noteq> Some 1)"
          unfolding bc by (simp_all add: list_all_iff)
        have sl: "set_leaf E p s = (let s1 = (if ?all then check_node E p (Some True) s else Some s)
            in if ?non then Option.bind s1 (check_node E p (Some False)) else s1)"
          using e k 3 hit o \<open>to_checkbox s\<close> by (auto simp: set_leaf_def Let_def)
        show ?thesis
        proof (cases "?all \<or> ?non")
          case True
          then have "(\<exists>f. set_leaf E p s = check_node E p f s) \<or> (\<exists>f g. set_leaf E p s = Option.bind (check_node E p f s) (check_node E p g))"
            unfolding sl Let_def by (cases ?all; cases ?non) auto
          with ck ck2 shp show ?thesis by metis
        next
          case False
          have "\<not> list_all (\<lambda>t. v_box (lab t) = Some 1) (kids e)"
            using all_below [OF h(2) fk, of 1] False al(1) by auto
          moreover have "\<not> list_all (\<lambda>t. v_box (lab t) = Some 0) (kids e)"
            using all_below [OF h(2) fk, of 0] False al(2) by auto
          ultimately have "node_ok (lab e) (kids e)" using k 3 full_roots [OF fk] by (simp add: node_ok_def box_of_kids_def)
          then have "tree_ok s" using ok ne by blast
          with False show ?thesis unfolding sl Let_def by simp
        qed
      qed
    qed
  qed
qed

section \<open>\<open>_b0\<close> keeps the tree in order\<close>

lemma make_leaf_keeps: "v_dom (make_leaf v) = v_dom v \<and> v_box (make_leaf v) = v_box v"
  by (simp add: make_leaf_def)

lemma set_kids_same: "find_node P ts = None \<or> (\<exists>t. find_node P ts = Some t \<and> h (kids t) = kids t) \<Longrightarrow>
    (\<And>x y. x \<in> set (labels ts) \<Longrightarrow> y \<in> set (labels ts) \<Longrightarrow> P x \<Longrightarrow> P y \<Longrightarrow> key x = key y) \<Longrightarrow>
    distinct (map key (labels ts)) \<Longrightarrow> set_kids P h ts = ts"
proof (induction ts rule: forest_induct)
  case (Rose x cs ts)
  have other: "set_kids P h us = us" if "\<forall>y\<in>set (labels us). \<not> P y" for us using that by (rule set_kids_other)
  show ?case
  proof (cases "P x")
    case True
    have "\<not> P y" if "y \<in> set (labels cs) \<union> set (labels ts)" for y
      using Rose.prems(2) [of x y] Rose.prems(3) True that by auto
    then have "set_kids P h ts = ts" by (intro other) blast
    with True Rose.prems(1) show ?thesis by simp
  next
    case nx: False
    show ?thesis
    proof (cases "find_node P cs")
      case None
      then have "set_kids P h cs = cs" by (intro other) (simp add: find_node_None)
      moreover have "set_kids P h ts = ts" using Rose.IH(2) Rose.prems nx None by simp
      ultimately show ?thesis using nx by simp
    next
      case (Some t)
      then obtain z where z: "z \<in> set (labels cs)" "P z" using find_node_Some by fastforce
      have "\<not> P y" if "y \<in> set (labels ts)" for y
      proof
        assume "P y"
        then have "key z = key y" using Rose.prems(2) [of z y] z that by simp
        then show False using Rose.prems(3) z(1) that by auto
      qed
      then have "set_kids P h ts = ts" by (intro other) blast
      moreover have "set_kids P h cs = cs" using Rose.IH(1) Rose.prems nx Some by simp
      ultimately show ?thesis using nx by simp
    qed
  qed
qed simp

text \<open>A list that is empty and goes: nothing the boxes depend on changes.\<close>

lemma detach_quiet:
  assumes "in_sync s" and "get_node p s = Some t" and "kids t = []"
  shows "quiet s (detach p (upd_elem p make_leaf s))"
proof -
  let ?s = "upd_elem p make_leaf s"
  have q: "quiet s ?s" by (rule quiet_elem) (rule make_leaf_keeps)
  obtain e where e: "elem p s = Some e" using sync_find(2) [OF assms(1), of p] assms(2) by auto
  have "map_rose v_dom e = map_rose n_dom t" using sync_find(1) [OF assms(1), of p] e assms(2) by simp
  then have k: "kids e = []" using assms(3) by (cases e; cases t) simp
  have d: "distinct (ids (tw_dom ?s))" "ids (tw_dom ?s) = ids (tw_dom s)"
    using assms(1) quiet_facts(3) [OF q] ids_shape by (metis in_sync_def)+
  have "find_node (\<lambda>v. v_dom v = p) (tw_dom ?s) = map_option (map_rose (\<lambda>v. if v_dom v = p then make_leaf v else v)) (find_node (\<lambda>v. v_dom v = p) (tw_dom s))"
    using find_node_relabel [of "\<lambda>v. v_dom v = p" "\<lambda>v. if v_dom v = p then make_leaf v else v" "tw_dom s"] make_leaf_keeps
    by (simp add: upd_elem_def if_distrib [of v_dom] cong: if_cong)
  then obtain e' where e': "find_node (\<lambda>v. v_dom v = p) (tw_dom ?s) = Some e'" "kids e' = []"
    using e k by (cases e) (simp add: elem_def)
  have "set_kids (\<lambda>v. v_dom v = p) (\<lambda>_. []) (tw_dom ?s) = tw_dom ?s"
    by (rule set_kids_same [where key = v_dom]) (use e' d in auto)
  then have "detach p ?s = ?s\<lparr>tw_pending := map (\<lambda>x. if p_ul x = Some p then x\<lparr>p_ul := Some 0\<rparr> else x) (tw_pending ?s)\<rparr>"
    by (simp add: detach_def dom_kids_def)
  with q show ?thesis by simp
qed

lemma kill_sync:
  assumes "in_sync s" and "path_ids d (tw_dom s) = Some q"
  defines "t \<equiv> (data_kids (if q = [] then None else Some (last q)) (drop_node d) s)\<lparr>tw_dom := kill v_dom d (tw_dom s)\<rparr>"
  shows "t = s\<lparr>tw_data := kill n_dom d (tw_data s), tw_dom := kill v_dom d (tw_dom s)\<rparr>" and "in_sync t"
    and "shape t = kill id d (shape s)"
proof -
  have sh: "relabel n_dom (tw_data s) = relabel v_dom (tw_dom s)" and dist: "distinct (ids (tw_dom s))"
    and bd: "\<forall>d\<in>set (ids (tw_dom s)). 0 < d \<and> d < tw_next s" "0 < tw_next s" using assms(1) by (simp_all add: in_sync_def)
  have dn: "distinct (map n_dom (labels (tw_data s)))" using dist sync_ids [OF assms(1)] by simp
  obtain qd where qd: "path_to (\<lambda>n. n_dom n = d) (tw_data s) = Some qd" "map n_dom qd = q"
    using assms(2) path_to_relabel [of "\<lambda>x. x = d" n_dom "tw_data s"] by (cases "path_to (\<lambda>n. n_dom n = d) (tw_data s)") (auto simp: sh)
  have kd: "tw_data (data_kids (if q = [] then None else Some (last q)) (drop_node d) s) = kill n_dom d (tw_data s)"
  proof (cases "q = []")
    case True
    have "\<exists>t\<in>set ts. n_dom (lab t) = d" if "path_to (\<lambda>n. n_dom n = d) ts = Some []" for ts
      using that by (induction ts rule: forest_induct) (auto split: if_splits option.splits)
    then have "drop_key n_dom d (tw_data s) = kill n_dom d (tw_data s)" using qd True by (intro drop_key_root [OF dn]) simp
    with True show ?thesis by (simp add: data_kids_def drop_node_key)
  next
    case False
    then have "qd \<noteq> []" using qd(2) by auto
    then have "qd \<noteq> []" "last q = n_dom (last qd)" using qd(2) by (auto simp: last_map)
    with drop_key_at [OF dn qd(1)] False show ?thesis by (simp add: data_kids_def drop_node_key)
  qed
  then show t: "t = s\<lparr>tw_data := kill n_dom d (tw_data s), tw_dom := kill v_dom d (tw_dom s)\<rparr>"
    unfolding t_def by (simp add: data_kids_def)
  have rv: "relabel v_dom (kill v_dom d (tw_dom s)) = kill id d (relabel v_dom (tw_dom s))"
    and rn: "relabel n_dom (kill n_dom d (tw_data s)) = kill id d (relabel n_dom (tw_data s))"
    using relabel_kill [of v_dom id d "tw_dom s"] relabel_kill [of n_dom id d "tw_data s"] by simp_all
  have "set (ids (kill v_dom d (tw_dom s))) \<subseteq> set (ids (tw_dom s))" using kill_labels [of v_dom d "tw_dom s"] by auto
  then show "in_sync t" using rv rn sh kill_distinct [OF dist, of d] bd unfolding t in_sync_def by auto
  show "shape t = kill id d (shape s)" by (simp add: t shape_def rn)
qed

lemma remove_ok:
  assumes "tree_ok s" and "get_node d s \<noteq> None" and "no_refusal E"
  shows "\<exists>u. remove_node E d s = Some u \<and> tree_ok u \<and> shape u = kill id d (shape s)"
proof -
  have b: "tree_base s" "boxes_ok (tw_dom s)" "leaf_ok (tw_dom s)" and sy: "in_sync s" and dist: "distinct (ids (tw_dom s))"
    using assms(1) by (auto simp: tree_ok_def tree_base_def in_sync_def)
  have "d \<in> set (ids (tw_dom s))" using sync_find(3) [OF sy, of d] assms(2) by blast
  then obtain q where q: "path_ids d (tw_dom s) = Some q" using path_ids_None by fastforce
  define p where "p = (if q = [] then None else Some (last q))"
  have gp: "get_parent d s = p"
    using sync_parents [OF sy, of d] tr_above_path [OF q] by (cases q rule: rev_cases) (simp_all add: get_parent_def p_def)
  define t where "t = s\<lparr>tw_data := kill n_dom d (tw_data s), tw_dom := kill v_dom d (tw_dom s)\<rparr>"
  note ks = kill_sync [OF sy q, folded p_def, unfolded kill_def [of v_dom]]
  have st: "(data_kids p (drop_node d) s)\<lparr>tw_dom := alter (\<lambda>v. v_dom v = d) (\<lambda>_. []) (tw_dom (data_kids p (drop_node d) s))\<rparr> = t"
    using ks(1) by (simp add: t_def data_kids_def kill_def)
  have t: "in_sync t" "shape t = kill id d (shape s)"
    using ks by (simp_all add: t_def kill_def)
  have "set (labels (tw_dom t)) \<subseteq> set (labels (tw_dom s))" "set (labels (tw_data t)) \<subseteq> set (labels (tw_data s))"
    using kill_labels [of v_dom d "tw_dom s"] kill_labels [of n_dom d "tw_data s"] by (simp_all add: t_def)
  then have tb: "tree_base t" using b(1) t(1) unfolding tree_base_def none_hidden_def full_boxes_def by (auto simp: t_def)
  show ?thesis
  proof (cases "q = []")
    case True
    have "boxes_ok (tw_dom t)" using kill_root [OF b(2) dist] q True by (simp add: t_def)
    moreover have "leaf_ok (tw_dom t)" using kill_leaves [OF q dist] b(3) True by (auto simp: t_def leaf_ok_def)
    ultimately have "tree_ok t" using tb by (simp add: tree_ok_def)
    moreover have "remove_node E d s = Some t" unfolding remove_node_def gp Let_def st by (simp add: p_def True)
    ultimately show ?thesis using t(2) by blast
  next
    case False
    let ?p = "last q"
    have p: "p = Some ?p" using False by (simp add: p_def)
    have bb: "boxes_but ?p (tw_dom t)" using kill_boxes [OF b(2) dist q False] by (simp add: t_def)
    have lf: "\<forall>x\<in>set (leaf_boxes (tw_dom t)). fst x \<noteq> ?p \<longrightarrow> (\<forall>k. snd x = Some k \<longrightarrow> k \<le> 1)"
      using kill_leaves [OF q dist] b(3) by (fastforce simp: t_def leaf_ok_def)
    have pin: "?p \<in> set (ids (tw_dom t))"
    proof -
      have "?p \<in> set (ids ts)" if "path_ids d ts = Some q'" "q' \<noteq> []" "last q' = ?p" "distinct (ids ts)" for ts q'
        using path_ids_set [OF that(1)] that(2,3) by (metis last_in_set subsetD)
      have "path_ids d ts = Some q' \<Longrightarrow> q' \<noteq> [] \<Longrightarrow> distinct (ids ts) \<Longrightarrow> last q' \<in> set (ids (kill v_dom d ts))" for ts q'
      proof (induction ts arbitrary: q' rule: forest_induct)
        case (Rose v cs ts)
        then show ?case by (cases "path_ids d cs") (auto split: if_splits)
      qed simp
      from this [OF q False dist] show ?thesis by (simp add: t_def)
    qed
    obtain n where n: "get_node ?p t = Some n" using sync_find(3) [OF t(1), of ?p] pin by auto
    define w where "w = set_title E ?p (if kids n = [] then detach ?p (upd_elem ?p make_leaf t) else t)"
    have rm: "remove_node E d s = set_leaf E ?p w"
      unfolding remove_node_def gp p Let_def st [unfolded p] by (simp add: n w_def)
    have qw: "quiet t w"
      unfolding w_def using quiet_trans [OF detach_quiet [OF t(1) n] quiet_title] quiet_title by auto
    obtain g where g: "tw_dom w = relabel g (tw_dom t)" "\<forall>v. v_dom (g v) = v_dom v \<and> v_box (g v) = v_box v"
      using qw unfolding quiet_def by blast
    have "boxes_but ?p (tw_dom w)" using boxes_but_relabel [of g ?p "tw_dom t"] g bb by simp
    moreover have "ids (tw_dom w) = ids (tw_dom t)" by (rule ids_shape [OF quiet_facts(3) [OF qw]])
    moreover have "\<forall>e. elem ?p w = Some e \<and> kids e = [] \<longrightarrow> v_hit (lab e) = None"
    proof (intro allI impI)
      fix e assume e: "elem ?p w = Some e \<and> kids e = []"
      have w: "in_sync w" using tb quiet_facts(1) [OF qw] by (simp add: tree_base_def)
      have "map_option (map_rose n_dom) (get_node ?p w) = map_option (map_rose n_dom) (get_node ?p t)"
        using quiet_facts(4) [OF qw] find_node_relabel [of "\<lambda>x. x = ?p" n_dom "tw_data w"] find_node_relabel [of "\<lambda>x. x = ?p" n_dom "tw_data t"]
        by (simp add: get_node_def)
      then have "map_rose v_dom e = map_rose n_dom n" using sync_find(1) [OF w, of ?p] e n by auto
      then have "kids n = []" using e by (cases e; cases n) simp
      then have hw: "w = set_title E ?p (detach ?p (upd_elem ?p make_leaf t))" by (simp add: w_def)
      have "\<forall>v\<in>set (labels (tw_dom (detach ?p (upd_elem ?p make_leaf t)))). v_dom v = ?p \<longrightarrow> v_hit v = None"
      proof -
        have "\<forall>v\<in>set (labels (tw_dom (upd_elem ?p make_leaf t))). v_dom v = ?p \<longrightarrow> v_hit v = None"
          by (auto simp: upd_elem_def make_leaf_def)
        moreover have "set (labels (set_kids P (\<lambda>_. []) ts)) \<subseteq> set (labels ts)" for P and ts :: "telem rose list"
          using labels_set_kids [of P "\<lambda>_. []" ts] by simp
        ultimately show ?thesis by (auto simp: detach_def dom_kids_def)
      qed
      then have "\<forall>v\<in>set (labels (tw_dom w)). v_dom v = ?p \<longrightarrow> v_hit v = None"
        unfolding hw set_title_def by (auto simp: upd_elem_def split: option.split)
      with e find_node_Some show "v_hit (lab e) = None" unfolding elem_def by fastforce
    qed
    moreover have "leaf_boxes (tw_dom w) = leaf_boxes (tw_dom t)" by (rule quiet_facts(7) [OF qw])
    moreover have "tree_base w" using tb quiet_facts(1) [OF qw] by simp
    ultimately obtain u where "set_leaf E ?p w = Some u" "tree_ok u" "shape u = shape w"
      using set_leaf_repairs [of w ?p E] assms(3) pin lf by auto
    moreover have "shape w = shape t" using quiet_facts(4) [OF qw] by (simp add: shape_def)
    ultimately show ?thesis using rm t(2) by auto
  qed
qed

end
