(* ===== verification/Tr_Insert.thy ===== *)
theory Tr_Insert
  imports Tr_Ops "HOL-Library.Multiset"
begin

text \<open>
  Inserting nodes beside a node, \<open>_aa\<close> of \<open>js/plugins/jquery.tree.js\<close>, and what any sequence of the
  operations on the forest keeps.
\<close>

section \<open>Inserting\<close>

definition put_beside :: "bool \<Rightarrow> ('a \<Rightarrow> nat) \<Rightarrow> nat \<Rightarrow> 'a rose list \<Rightarrow> 'a rose list \<Rightarrow> 'a rose list" where
  "put_beside front key d us = alter (\<lambda>x. key x = d) (\<lambda>t. if front then us @ [t] else t # us)"

lemma put_beside_simps [simp]:
  "put_beside front key d us [] = []"
  "put_beside front key d us (Rose x cs # ts) =
     (if key x = d then (if front then us @ [Rose x cs] else Rose x cs # us) else [Rose x (put_beside front key d us cs)]) @ put_beside front key d us ts"
  by (simp_all add: put_beside_def)

lemma put_beside_other: "d \<notin> set (map key (labels ts)) \<Longrightarrow> put_beside front key d us ts = ts"
  unfolding put_beside_def by (rule alter_other) auto

lemma relabel_put_beside:
  "relabel f (put_beside front (\<lambda>x. key (f x)) d us ts) = put_beside front key d (relabel f us) (relabel f ts)"
  unfolding put_beside_def by (rule relabel_alter) (auto simp: relabel_def)

text \<open>A forest that has the shape of one with a list appended was made so.\<close>

lemma add_at_inverse:
  assumes "relabel f ts = add_at p xs id ys" and "distinct (map f (labels ts))" and "\<forall>d. p = Some d \<longrightarrow> d \<in> set (labels ys)"
  shows "\<exists>os us. ts = add_at p us f os \<and> relabel f os = ys \<and> relabel f us = xs"
proof (cases p)
  case None
  then have "map (map_rose f) ts = ys @ xs" using assms(1) by (simp add: add_at_def relabel_def)
  then obtain os us where "ts = os @ us" "map (map_rose f) os = ys" "map (map_rose f) us = xs"
    unfolding map_eq_append_conv by blast
  with None show ?thesis by (auto simp: add_at_def relabel_def)
next
  case (Some d)
  have "relabel f ts = set_kids (\<lambda>x. x = d) (\<lambda>cs. cs @ xs) ys \<Longrightarrow> distinct (map f (labels ts)) \<Longrightarrow> d \<in> set (labels ys) \<Longrightarrow>
      \<exists>os us. ts = set_kids (\<lambda>x. f x = d) (\<lambda>cs. cs @ us) os \<and> relabel f os = ys \<and> relabel f us = xs"
  proof (induction ys arbitrary: ts rule: forest_induct)
    case (Rose y cs ys)
    obtain x ks rs where ts: "ts = Rose x ks # rs" using Rose.prems(1) by (cases ts rule: labels.cases) (auto split: if_splits)
    show ?case
    proof (cases "y = d")
      case True
      then have e: "f x = d" "relabel f ks = cs @ xs" "relabel f rs = set_kids (\<lambda>x. x = d) (\<lambda>cs. cs @ xs) ys"
        using Rose.prems(1) ts by auto
      then have "map (map_rose f) ks = cs @ xs" by (simp add: relabel_def)
      then obtain os us where k: "ks = os @ us" "map (map_rose f) os = cs" "map (map_rose f) us = xs"
        unfolding map_eq_append_conv by blast
      have dr: "d \<notin> f ` set (labels rs)" using Rose.prems(2) ts e(1) by auto
      have "d \<notin> set (labels ys)"
      proof
        assume "d \<in> set (labels ys)"
        then have "d \<in> set (labels (set_kids (\<lambda>x. x = d) (\<lambda>cs. cs @ xs) ys))" by (induction ys rule: forest_induct) auto
        then have "d \<in> set (map f (labels rs))" unfolding e(3) [symmetric] labels_relabel [symmetric] .
        with dr show False by simp
      qed
      then have "relabel f rs = ys" using e(3) set_kids_other [of ys "\<lambda>x. x = d" "\<lambda>cs. cs @ xs"] by auto
      moreover have "set_kids (\<lambda>x. f x = d) (\<lambda>cs. cs @ us) rs = rs" by (rule set_kids_other) (use dr in auto)
      ultimately show ?thesis using ts k e(1) True
        by (intro exI [of _ "Rose x os # rs"] exI [of _ us]) (simp add: relabel_def)
    next
      case False
      then have e: "f x = y" "relabel f ks = set_kids (\<lambda>x. x = d) (\<lambda>cs. cs @ xs) cs" "relabel f rs = set_kids (\<lambda>x. x = d) (\<lambda>cs. cs @ xs) ys"
        using Rose.prems(1) ts by auto
      have keep: "d \<in> set (labels zs) \<Longrightarrow> d \<in> set (labels (set_kids (\<lambda>x. x = d) (\<lambda>cs. cs @ xs) zs))" for zs
        by (induction zs rule: forest_induct) auto
      have dist: "distinct (map f (labels ks))" "distinct (map f (labels rs))" "f ` set (labels ks) \<inter> f ` set (labels rs) = {}"
        using Rose.prems(2) ts by auto
      have im: "f ` set (labels ks) = set (labels (relabel f ks))" "f ` set (labels rs) = set (labels (relabel f rs))" by simp_all
      show ?thesis
      proof (cases "d \<in> set (labels cs)")
        case True
        then obtain os us where o: "ks = set_kids (\<lambda>x. f x = d) (\<lambda>cs. cs @ us) os" "relabel f os = cs" "relabel f us = xs"
          using Rose.IH(1) [OF e(2) dist(1)] by blast
        have "d \<in> f ` set (labels ks)" using keep [OF True] unfolding im e(2) .
        then have "d \<notin> set (labels (relabel f rs))" using dist(3) unfolding im(2) [symmetric] by (metis disjoint_iff)
        then have "d \<notin> set (labels ys)" using keep [of ys] unfolding e(3) by metis
        then have "relabel f rs = ys" using e(3) set_kids_other [of ys "\<lambda>x. x = d" "\<lambda>cs. cs @ xs"] by auto
        moreover have "set_kids (\<lambda>x. f x = d) (\<lambda>cs. cs @ us) rs = rs"
        proof (rule set_kids_other, intro ballI notI)
          fix z assume "z \<in> set (labels rs)" "f z = d"
          then have "d \<in> set (map f (labels rs))" by auto
          also have "map f (labels rs) = labels ys" using \<open>relabel f rs = ys\<close> by (metis labels_relabel)
          finally show False using \<open>d \<notin> set (labels ys)\<close> by simp
        qed
        ultimately show ?thesis using ts o e(1) False
          by (intro exI [of _ "Rose x os # rs"] exI [of _ us]) simp
      next
        case nc: False
        then obtain os us where o: "rs = set_kids (\<lambda>x. f x = d) (\<lambda>cs. cs @ us) os" "relabel f os = ys" "relabel f us = xs"
          using Rose.IH(2) [OF e(3) dist(2)] Rose.prems(3) False by auto
        have k: "relabel f ks = cs" using e(2) nc set_kids_other [of cs "\<lambda>x. x = d" "\<lambda>cs. cs @ xs"] by auto
        have "set_kids (\<lambda>x. f x = d) (\<lambda>cs. cs @ us) ks = ks"
        proof (rule set_kids_other, intro ballI notI)
          fix z assume "z \<in> set (labels ks)" "f z = d"
          then have "d \<in> set (map f (labels ks))" by auto
          also have "map f (labels ks) = labels cs" using k by (metis labels_relabel)
          finally show False using nc by simp
        qed
        with k show ?thesis using ts o e(1) False
          by (intro exI [of _ "Rose x ks # os"] exI [of _ us]) simp
      qed
    qed
  qed simp
  from this assms Some show ?thesis by (auto simp: add_at_def)
qed

lemma root_split:
  assumes "path_to (\<lambda>x. key x = d) ts = Some []" and "distinct (map key (labels ts))"
  shows "\<exists>xs t ys. ts = xs @ t # ys \<and> key (lab t) = d \<and> d \<notin> set (map key (labels xs)) \<and> d \<notin> set (map key (labels ys))"
  using assms
proof (induction ts)
  case (Cons t ts)
  obtain x cs where t: "t = Rose x cs" by (cases t)
  show ?case
  proof (cases "key x = d")
    case True
    then have "t # ts = [] @ t # ts \<and> key (lab t) = d \<and> d \<notin> set (map key (labels [])) \<and> d \<notin> set (map key (labels ts))"
      using Cons.prems(2) t by auto
    then show ?thesis by blast
  next
    case False
    then have n: "path_to (\<lambda>x. key x = d) cs = None" "path_to (\<lambda>x. key x = d) ts = Some []" using Cons.prems(1) t by (auto split: option.splits)
    then obtain xs u ys where s: "ts = xs @ u # ys" "key (lab u) = d" "d \<notin> set (map key (labels xs))" "d \<notin> set (map key (labels ys))"
      using Cons.IH Cons.prems(2) t by auto
    have "d \<notin> set (map key (labels (t # xs)))" using s(3) n(1) False t by (auto simp: path_to_None)
    with s show ?thesis by (intro exI [of _ "t # xs"] exI [of _ u] exI [of _ ys]) simp
  qed
qed simp

lemma put_beside_root:
  assumes "d \<notin> set (map key (labels xs))" and "d \<notin> set (map key (labels ys))" and "key (lab t) = d"
  shows "put_beside front key d us (xs @ t # ys) = xs @ (if front then us @ [t] else t # us) @ ys"
proof -
  have "put_beside front key d us (xs @ t # ys) = put_beside front key d us xs @ put_beside front key d us (t # ys)"
    by (simp add: put_beside_def)
  with assms put_beside_other [OF assms(1)] put_beside_other [OF assms(2)] show ?thesis by (cases t) simp
qed

lemma move_last_root:
  assumes "path_to (\<lambda>n. n_dom n = d) os = Some []" and "distinct (map n_dom (labels os))"
  shows "move_last front d (length us) (os @ us) = put_beside front n_dom d us os"
proof -
  obtain xs t ys where s: "os = xs @ t # ys" "n_dom (lab t) = d" "d \<notin> set (map n_dom (labels xs))" "d \<notin> set (map n_dom (labels ys))"
    using root_split [OF assms] by blast
  have "index_where (\<lambda>t. n_dom (lab t) = d) (xs @ t # zs) = Some (length xs)" for zs
  proof -
    have "\<forall>u\<in>set xs. n_dom (lab u) \<noteq> d" using s(3) root_label by fastforce
    then show ?thesis using s(2) by (induction xs) simp_all
  qed
  then show ?thesis unfolding put_beside_root [OF s(3,4,2)] s(1) by (simp add: move_last_def Let_def)
qed

lemma set_kids_set_kids: "set_kids P h (set_kids P k ts) = set_kids P (\<lambda>cs. h (k cs)) ts"
  by (induction ts rule: forest_induct) simp_all

lemma move_last_at:
  assumes "distinct (map n_dom (labels os))" and "path_to (\<lambda>n. n_dom n = d) os = Some q"
  defines "p \<equiv> (if q = [] then None else Some (n_dom (last q)))"
  shows "tw_data (data_kids p (move_last front d (length us)) (s\<lparr>tw_data := add_at p us n_dom os\<rparr>)) = put_beside front n_dom d us os"
proof (cases "q = []")
  case True
  then show ?thesis using move_last_root [OF _ assms(1)] assms(2) by (simp add: p_def data_kids_def add_at_def)
next
  case False
  have "set_kids (\<lambda>x. n_dom x = n_dom (last q)) (\<lambda>cs. move_last front d (length us) (cs @ us)) os = put_beside front n_dom d us os"
    unfolding put_beside_def by (rule set_kids_alter [OF _ assms(1,2) False]) (simp add: move_last_root put_beside_def)
  then show ?thesis using False by (simp add: p_def data_kids_def add_at_def set_kids_set_kids)
qed

text \<open>Moving the elements takes them out of the list and puts them beside \<open>d\<close>.\<close>

lemma filter_no: "\<forall>t\<in>set (nodes ts). \<not> P (lab t) \<Longrightarrow> filter (\<lambda>t. P (lab t)) (nodes ts) = []"
  by simp

lemma filter_roots:
  fixes us :: "'a rose list"
  assumes "distinct (map key (labels us))"
  shows "filter (\<lambda>t. key (lab t) \<in> set (map (\<lambda>t. key (lab t)) us)) (nodes us) = us"
    and "alter (\<lambda>x. key x \<in> set (map (\<lambda>t. key (lab t)) us)) (\<lambda>_. []) us = []"
proof -
  have no: "filter (\<lambda>t. key (lab t) \<in> D) (nodes ts) = []" if "D \<inter> set (map key (labels ts)) = {}" for D and ts :: "'a rose list"
    using that by (auto simp: labels_nodes filter_empty_conv)
  have "set (map (\<lambda>t. key (lab t)) us) \<subseteq> D \<Longrightarrow> D \<inter> set (map key (concat (map (\<lambda>t. labels (kids t)) us))) = {} \<Longrightarrow>
      filter (\<lambda>t. key (lab t) \<in> D) (nodes us) = us" for D
  proof (induction us)
    case (Cons u us)
    obtain x cs where u: "u = Rose x cs" by (cases u)
    have "D \<inter> set (map key (labels cs)) = {}" using Cons.prems(2) u by auto
    from no [OF this] show ?case using Cons u by (simp add: Int_Un_distrib)
  qed simp
  moreover have "set (map (\<lambda>t. key (lab t)) us) \<inter> set (map key (concat (map (\<lambda>t. labels (kids t)) us))) = {}"
    using assms
  proof (induction us)
    case (Cons u us)
    obtain x cs where u: "u = Rose x cs" by (cases u)
    define A where "A = set (map (\<lambda>t. key (lab t)) us)"
    define B where "B = set (map key (concat (map (\<lambda>t. labels (kids t)) us)))"
    define L where "L = key ` set (labels us)"
    have s: "set (labels (kids t)) \<subseteq> set (labels us)" "lab t \<in> set (labels us)" if "t \<in> set us" for t
      using that by (induction us rule: labels.induct) auto
    have "A \<subseteq> L" using s(2) unfolding A_def L_def by auto
    moreover have "B \<subseteq> L"
    proof
      fix k assume "k \<in> B"
      then obtain t y where "t \<in> set us" "y \<in> set (labels (kids t))" "k = key y" unfolding B_def by auto
      with s(1) [of t] show "k \<in> L" unfolding L_def by blast
    qed
    moreover have "key x \<notin> key ` set (labels cs)" "key x \<notin> L" "key ` set (labels cs) \<inter> L = {}"
      using Cons.prems u by (auto simp: L_def)
    moreover have "A \<inter> B = {}" using Cons.IH Cons.prems u by (simp add: A_def B_def)
    ultimately have "insert (key x) A \<inter> (key ` set (labels cs) \<union> B) = {}" by blast
    moreover have "set (map (\<lambda>t. key (lab t)) (u # us)) = insert (key x) A"
      "set (map key (concat (map (\<lambda>t. labels (kids t)) (u # us)))) = key ` set (labels cs) \<union> B"
      by (simp_all add: u A_def B_def image_Un)
    ultimately show ?case by (simp only:)
  qed simp
  ultimately show "filter (\<lambda>t. key (lab t) \<in> set (map (\<lambda>t. key (lab t)) us)) (nodes us) = us" by blast
  have "set (map (\<lambda>t. key (lab t)) us) \<subseteq> D \<Longrightarrow> alter (\<lambda>x. key x \<in> D) (\<lambda>_. []) us = []" for D
  proof (induction us)
    case (Cons u us)
    then show ?case by (cases u) simp
  qed simp
  then show "alter (\<lambda>x. key x \<in> set (map (\<lambda>t. key (lab t)) us)) (\<lambda>_. []) us = []" by blast
qed

lemma add_at_extra:
  fixes us :: "'a rose list"
  assumes "distinct (map key (labels (add_at p us key os)))" and dos: "distinct (map key (labels os))" and "\<forall>d. p = Some d \<longrightarrow> d \<in> set (map key (labels os))"
  defines "D \<equiv> set (map (\<lambda>t. key (lab t)) us)"
  shows "filter (\<lambda>t. key (lab t) \<in> D) (nodes (add_at p us key os)) = us" and "alter (\<lambda>x. key x \<in> D) (\<lambda>_. []) (add_at p us key os) = os"
    and "mset (labels (add_at p us key os)) = mset (labels os) + mset (labels us)"
proof -
  have A: "mset (labels (set_kids (\<lambda>x. key x = d) (\<lambda>cs. cs @ us) ts)) = mset (labels ts) + mset (labels us)"
    if "d \<in> set (map key (labels ts))" "distinct (map key (labels ts))" for d and ts :: "'a rose list"
    using that
  proof (induction ts rule: forest_induct)
    case (Rose x cs ts)
    have o: "set_kids (\<lambda>x. key x = d) (\<lambda>cs. cs @ us) ts = ts" if "d \<notin> set (map key (labels ts))" for ts :: "'a rose list"
      by (rule set_kids_other) (use that in auto)
    show ?case
    proof (cases "key x = d")
      case True
      then have "d \<notin> set (map key (labels ts))" using Rose.prems(2) by auto
      from o [OF this] True show ?thesis by simp
    next
      case False
      show ?thesis
      proof (cases "d \<in> set (map key (labels cs))")
        case True
        then have "d \<notin> set (map key (labels ts))" using Rose.prems(2) by auto
        from o [OF this] Rose.IH(1) True False Rose.prems(2) show ?thesis by simp
      next
        case nc: False
        from o [OF nc] Rose.IH(2) nc False Rose.prems show ?thesis by simp
      qed
    qed
  qed simp
  show ms: "mset (labels (add_at p us key os)) = mset (labels os) + mset (labels us)"
  proof (cases p)
    case (Some d)
    with A [OF _ dos, of d] assms(3) show ?thesis by (simp add: add_at_def)
  qed (simp add: add_at_def)
  have "mset (map key (labels (add_at p us key os))) = mset (map key (labels os @ labels us))" using ms by simp
  then have "distinct (map key (labels os @ labels us))" using assms(1) mset_eq_imp_distinct_iff by blast
  then have dus: "distinct (map key (labels us))" and dj: "set (map key (labels os)) \<inter> set (map key (labels us)) = {}" by auto
  have "D \<subseteq> set (map key (labels us))" using root_label by (fastforce simp: D_def)
  with dj have D: "D \<inter> set (map key (labels os)) = {}" by blast
  note fr = filter_roots [OF dus, folded D_def]
  have no: "filter (\<lambda>t. key (lab t) \<in> D) (nodes ts) = []" "alter (\<lambda>x. key x \<in> D) (\<lambda>_. []) ts = ts"
    if "D \<inter> set (map key (labels ts)) = {}" for ts :: "'a rose list"
    using that by (force simp: labels_nodes filter_empty_conv disjoint_iff, intro alter_other) (use that in \<open>auto simp: disjoint_iff\<close>)
  have f: "filter (\<lambda>t. key (lab t) \<in> D) (nodes (set_kids (\<lambda>x. key x = d) (\<lambda>cs. cs @ us) ts)) = us"
    if "d \<in> set (map key (labels ts))" "distinct (map key (labels ts))" "D \<inter> set (map key (labels ts)) = {}" for d and ts :: "'a rose list"
    using that
  proof (induction ts rule: forest_induct)
    case (Rose x cs ts)
    have o: "set_kids (\<lambda>x. key x = d) (\<lambda>cs. cs @ us) ts = ts" if "d \<notin> set (map key (labels ts))" for ts :: "'a rose list"
      by (rule set_kids_other) (use that in auto)
    have dd: "D \<inter> set (map key (labels cs)) = {}" "D \<inter> set (map key (labels ts)) = {}" "key x \<notin> D" using Rose.prems(3) by auto
    show ?case
    proof (cases "key x = d")
      case True
      then have "d \<notin> set (map key (labels ts))" using Rose.prems(2) by auto
      from o [OF this] True no(1) [OF dd(1)] no(1) [OF dd(2)] dd(3) fr(1) show ?thesis by simp
    next
      case False
      show ?thesis
      proof (cases "d \<in> set (map key (labels cs))")
        case True
        then have "d \<notin> set (map key (labels ts))" using Rose.prems(2) by auto
        from o [OF this] Rose.IH(1) True False Rose.prems(2) dd no(1) [OF dd(2)] show ?thesis by simp
      next
        case nc: False
        from o [OF nc] Rose.IH(2) nc False Rose.prems dd no(1) [OF dd(1)] show ?thesis by simp
      qed
    qed
  qed simp
  have al: "alter (\<lambda>x. key x \<in> D) (\<lambda>_. []) (set_kids (\<lambda>x. key x = d) (\<lambda>cs. cs @ us) ts) = ts"
    if "D \<inter> set (map key (labels ts)) = {}" for d and ts :: "'a rose list"
    using that
  proof (induction ts rule: forest_induct)
    case (Rose x cs ts)
    have dd: "D \<inter> set (map key (labels cs)) = {}" "D \<inter> set (map key (labels ts)) = {}" "key x \<notin> D" using Rose.prems by auto
    with Rose.IH no(2) [OF dd(1)] fr(2) show ?case by (cases "key x = d") simp_all
  qed simp
  show "filter (\<lambda>t. key (lab t) \<in> D) (nodes (add_at p us key os)) = us"
  proof (cases p)
    case None
    with no(1) [OF D] fr(1) show ?thesis by (simp add: add_at_def)
  next
    case (Some d)
    with f [OF _ dos D, of d] assms(3) show ?thesis by (simp add: add_at_def)
  qed
  show "alter (\<lambda>x. key x \<in> D) (\<lambda>_. []) (add_at p us key os) = os"
    using al [OF D] no(2) [OF D] fr(2) by (cases p) (simp_all add: add_at_def)
qed

lemma put_beside_mset:
  assumes "d \<in> set (map key (labels ts))" and "distinct (map key (labels ts))"
  shows "mset (labels (put_beside front key d us ts)) = mset (labels ts) + mset (labels us)"
  using assms
proof (induction ts rule: forest_induct)
  case (Rose x cs ts)
  note o = put_beside_other [of d key _ front us]
  show ?case
  proof (cases "key x = d")
    case True
    then have "d \<notin> set (map key (labels ts))" using Rose.prems(2) by auto
    from o [OF this] True show ?thesis by simp
  next
    case False
    show ?thesis
    proof (cases "d \<in> set (map key (labels cs))")
      case True
      then have "d \<notin> set (map key (labels ts))" using Rose.prems(2) by auto
      from o [OF this] Rose.IH(1) True False Rose.prems(2) show ?thesis by simp
    next
      case nc: False
      from o [OF nc] Rose.IH(2) nc False Rose.prems show ?thesis by simp
    qed
  qed
qed simp

text \<open>The boxes do not depend on the order of the children.\<close>

lemma boxes_ok_all: "boxes_ok ts \<longleftrightarrow> (\<forall>t\<in>set ts. boxes_ok [t])"
proof (induction ts)
  case (Cons t ts)
  have "boxes_ok (t # ts) = (boxes_ok [t] \<and> boxes_ok ts)" using boxes_ok_append [of "[t]" ts] by simp
  with Cons show ?case by simp
qed simp

lemma leaf_boxes_append: "leaf_boxes (ts @ us) = leaf_boxes ts @ leaf_boxes us"
  by (induction ts rule: leaf_boxes.induct) simp_all

lemma leaf_boxes_all: "set (leaf_boxes ts) = (\<Union>t\<in>set ts. set (leaf_boxes [t]))"
proof (induction ts)
  case (Cons t ts)
  have "set (leaf_boxes (t # ts)) = set (leaf_boxes [t]) \<union> set (leaf_boxes ts)" using leaf_boxes_append [of "[t]" ts] by simp
  with Cons show ?case by simp
qed simp

lemma same_kids:
  assumes "set cs = set ds"
  shows "node_ok v cs = node_ok v ds" and "boxes_ok cs = boxes_ok ds" and "set (leaf_boxes cs) = set (leaf_boxes ds)" and "cs = [] \<longleftrightarrow> ds = []"
proof -
  have l: "list_all P cs = list_all P ds" for P using assms by (simp add: list_all_iff)
  show e: "cs = [] \<longleftrightarrow> ds = []" using assms by (metis set_empty)
  show "node_ok v cs = node_ok v ds" by (simp add: node_ok_def box_of_kids_def l e)
  show "boxes_ok cs = boxes_ok ds" using boxes_ok_all [of cs] boxes_ok_all [of ds] assms by simp
  show "set (leaf_boxes cs) = set (leaf_boxes ds)" using leaf_boxes_all [of cs] leaf_boxes_all [of ds] assms by simp
qed

lemma put_beside_set:
  assumes "path_ids d os = Some []" and "distinct (ids os)"
  shows "set (put_beside front v_dom d us os) = set (os @ us)"
proof -
  have "path_to (\<lambda>v. v_dom v = d) os = Some []" using assms(1) path_ids_eq [of d os] by auto
  then obtain xs t ys where s: "os = xs @ t # ys" "v_dom (lab t) = d" "d \<notin> set (ids xs)" "d \<notin> set (ids ys)"
    using root_split [OF _ assms(2)] by blast
  then show ?thesis unfolding s(1) put_beside_root [OF s(3,4,2)] by auto
qed

lemma put_beside_boxes:
  assumes "distinct (ids os)" and "path_ids d os = Some q"
  defines "p \<equiv> (if q = [] then None else Some (last q))"
  shows "boxes_ok (put_beside front v_dom d us os) = boxes_ok (add_at p us v_dom os)"
    and "set (leaf_boxes (put_beside front v_dom d us os)) = set (leaf_boxes (add_at p us v_dom os))"
proof -
  have B: "boxes_ok (put_beside front v_dom d us ts) = boxes_ok (set_kids (\<lambda>v. v_dom v = last r) (\<lambda>cs. cs @ us) ts)
      \<and> set (leaf_boxes (put_beside front v_dom d us ts)) = set (leaf_boxes (set_kids (\<lambda>v. v_dom v = last r) (\<lambda>cs. cs @ us) ts))
      \<and> (r \<noteq> [] \<longrightarrow> map (\<lambda>t. v_box (lab t)) (put_beside front v_dom d us ts) = map (\<lambda>t. v_box (lab t)) ts)"
    if "distinct (ids ts)" "path_ids d ts = Some r" "r \<noteq> []" for ts r
    using that
  proof (induction ts arbitrary: r rule: forest_induct)
    case (Rose v cs ts)
    have vd: "v_dom v \<noteq> d" using Rose.prems(2,3) by auto
    have dj: "v_dom v \<notin> set (ids cs)" "v_dom v \<notin> set (ids ts)" "set (ids cs) \<inter> set (ids ts) = {}" "distinct (ids cs)" "distinct (ids ts)"
      using Rose.prems(1) by auto
    have other: "set_kids (\<lambda>v. v_dom v = k) (\<lambda>cs. cs @ us) ys = ys" if "k \<notin> set (ids ys)" for k ys
      by (rule set_kids_other) (use that in auto)
    have nc: "node_ok v ys = node_ok v zs" if "map (\<lambda>t. v_box (lab t)) ys = map (\<lambda>t. v_box (lab t)) zs" for ys zs
    proof -
      have l: "list_all (\<lambda>t. P (v_box (lab t))) ws = list_all P (map (\<lambda>t. v_box (lab t)) ws)" for P and ws :: "telem rose list"
        by (simp add: list_all_iff)
      have "ys = [] \<longleftrightarrow> zs = []" using that by (metis map_is_Nil_conv)
      then show ?thesis using that l [of "\<lambda>b. b \<noteq> None"] l [of "\<lambda>b. b = Some 1"] l [of "\<lambda>b. b = Some 0"]
        by (simp add: node_ok_def box_of_kids_def)
    qed
    show ?case
    proof (cases "path_ids d cs")
      case None
      then have c: "d \<notin> set (ids cs)" and t: "path_ids d ts = Some r" using Rose.prems(2) vd None path_ids_None [of d cs] by auto
      have "last r \<in> set (ids ts)" using path_ids_set [OF t] Rose.prems(3) by auto
      then have lr: "last r \<noteq> v_dom v" "last r \<notin> set (ids cs)" using dj(2,3) by (metis, metis disjoint_iff)
      from Rose.IH(2) [OF dj(5) t Rose.prems(3)] vd lr put_beside_other [OF c] other [OF lr(2)] show ?thesis by auto
    next
      case (Some r')
      then have r: "r = v_dom v # r'" using Rose.prems(2) vd by simp
      have "d \<in> set (ids cs)" by (rule path_ids_in [OF Some])
      then have "d \<notin> set (ids ts)" using dj(3) by (metis disjoint_iff)
      note ts = put_beside_other [OF this]
      show ?thesis
      proof (cases "r' = []")
        case True
        have k: "set (put_beside front v_dom d us cs) = set (cs @ us)" by (rule put_beside_set) (use Some True dj(4) in simp_all)
        note sk = same_kids [OF k]
        show ?thesis using sk(1) [of v] sk(2-4) ts other [OF dj(2)] True r vd by (simp add: node_ok_def)
      next
        case False
        have "last r' \<in> set (ids cs)" using path_ids_set [OF Some] False by auto
        then have lr: "last r' \<noteq> v_dom v" "last r' \<notin> set (ids ts)" using dj(1,3) by (metis, metis disjoint_iff)
        note IH = Rose.IH(1) [OF dj(4) Some False]
        let ?a = "put_beside front v_dom d us cs" and ?b = "set_kids (\<lambda>v. v_dom v = last r') (\<lambda>cs. cs @ us) cs"
        have rb: "map (\<lambda>t. v_box (lab t)) ?b = map (\<lambda>t. v_box (lab t)) cs" by (induction cs rule: forest_induct) simp_all
        have "node_ok v ?a = node_ok v ?b" by (rule nc) (use IH False rb in simp)
        moreover have "?a = [] \<longleftrightarrow> ?b = []" using IH False rb by (metis map_is_Nil_conv)
        ultimately show ?thesis using IH ts other [OF lr(2)] False r vd lr(1) by (simp add: node_ok_def)
      qed
    qed
  qed simp
  show "boxes_ok (put_beside front v_dom d us os) = boxes_ok (add_at p us v_dom os)"
    and "set (leaf_boxes (put_beside front v_dom d us os)) = set (leaf_boxes (add_at p us v_dom os))"
    using B [OF assms(1,2)] same_kids(2,3) [OF put_beside_set [OF _ assms(1)], of d front us] assms(2)
    by (cases "q = []"; simp add: p_def add_at_def)+
qed

section \<open>\<open>_aa\<close> keeps the tree in order\<close>

lemma insert_ok:
  assumes "tree_ok s" and "plain_nodes data" and "get_node d s \<noteq> None" and "no_refusal E"
  shows "\<exists>u. insert_nodes E front d data s = Some u \<and> tree_ok u
     \<and> shape u = put_beside front id d (relabel n_dom (new_nodes data s)) (shape s)"
proof -
  have sy: "in_sync s" and dist: "distinct (ids (tw_dom s))" using assms(1) by (auto simp: tree_ok_def tree_base_def in_sync_def)
  have din: "d \<in> set (ids (tw_dom s))" using sync_find(3) [OF sy, of d] assms(3) by blast
  then obtain q where q: "path_ids d (tw_dom s) = Some q" using path_ids_None by fastforce
  define p where "p = (if q = [] then None else Some (last q))"
  have gp: "get_parent d s = p"
    using sync_parents [OF sy, of d] tr_above_path [OF q] by (cases q rule: rev_cases) (simp_all add: get_parent_def p_def)
  have shd: "shape s = relabel v_dom (tw_dom s)" using tree_ok_shape [OF assms(1)] by simp
  have pin: "\<forall>x. p = Some x \<longrightarrow> x \<in> set (ids (tw_dom s))" using path_ids_set [OF q] by (auto simp: p_def)
  then have "\<forall>x. p = Some x \<longrightarrow> get_node x s \<noteq> None" using sync_find(3) [OF sy] by blast
  then obtain u where u: "append_nodes E p data s = Some u" "tree_ok u"
    "shape u = add_at p (relabel n_dom (new_nodes data s)) id (shape s)" using append_ok [OF assms(1,2) _ assms(4)] by blast
  let ?new = "relabel n_dom (new_nodes data s)"
  have ub: "in_sync u" "tree_base u" "boxes_ok (tw_dom u)" "leaf_ok (tw_dom u)" using u(2) by (auto simp: tree_ok_def tree_base_def)
  have du: "distinct (ids (tw_dom u))" "distinct (map n_dom (labels (tw_data u)))"
    using ub(1) sync_ids [OF ub(1)] by (simp_all add: in_sync_def)
  have pl: "\<forall>x. p = Some x \<longrightarrow> x \<in> set (labels (shape s))" using pin by (simp add: shd)
  have dls: "distinct (labels (shape s))" using dist by (simp add: shd)
  obtain os us where o: "tw_dom u = add_at p us v_dom os" "relabel v_dom os = shape s" "relabel v_dom us = ?new"
    using add_at_inverse [of v_dom "tw_dom u" p ?new "shape s"] tree_ok_shape [OF u(2)] u(3) du(1) pl by metis
  obtain os' us' where o': "tw_data u = add_at p us' n_dom os'" "relabel n_dom os' = shape s" "relabel n_dom us' = ?new"
    using add_at_inverse [of n_dom "tw_data u" p ?new "shape s"] u(3) du(2) pl unfolding shape_def [of u] by metis
  have dos: "distinct (ids os)" "distinct (map n_dom (labels os'))" using dls o(2) o'(2) by (metis labels_relabel)+
  have ps: "\<forall>x. p = Some x \<longrightarrow> x \<in> set (ids os)" "\<forall>x. p = Some x \<longrightarrow> x \<in> set (map n_dom (labels os'))"
    using pl o(2) o'(2) by (metis labels_relabel)+
  have dd: "d \<in> set (ids os)" "d \<in> set (map n_dom (labels os'))" using din o(2) o'(2) unfolding shd by (metis labels_relabel)+
  have roots: "map (\<lambda>t. n_dom (lab t)) (fst (number (tw_next s) data)) = map (\<lambda>t. v_dom (lab t)) us" and len: "length data = length us'"
  proof -
    have r: "map (\<lambda>t. f (lab t)) ts = map lab (relabel f ts)" for f :: "'x \<Rightarrow> nat" and ts
      by (simp add: relabel_def rose.map_sel)
    show "map (\<lambda>t. n_dom (lab t)) (fst (number (tw_next s) data)) = map (\<lambda>t. v_dom (lab t)) us"
      unfolding r o(3) by (simp add: new_nodes_def)
    have "length (fst (number k ts)) = length ts" for k ts
      by (induction k ts rule: number.induct) (auto split: prod.splits)
    then have "length (new_nodes data s) = length data" by (simp add: new_nodes_def)
    moreover have "length us' = length (new_nodes data s)" using arg_cong [OF o'(3), of length] by (simp add: relabel_def)
    ultimately show "length data = length us'" by simp
  qed
  have qo: "path_ids d os = Some q" using q unfolding o(2) shd .
  obtain qd where qd: "path_to (\<lambda>n. n_dom n = d) os' = Some qd" "map n_dom qd = q"
    using q path_to_relabel [of "\<lambda>x. x = d" n_dom os'] by (cases "path_to (\<lambda>n. n_dom n = d) os'") (auto simp: o'(2) shd)
  have pd: "p = (if qd = [] then None else Some (n_dom (last qd)))" using qd(2) by (auto simp: p_def last_map)
  define w where "w = u\<lparr>tw_data := put_beside front n_dom d us' os', tw_dom := put_beside front v_dom d us os\<rparr>"
  have "tw_data (data_kids p (move_last front d (length us')) (u\<lparr>tw_data := add_at p us' n_dom os'\<rparr>)) = put_beside front n_dom d us' os'"
    using move_last_at [OF dos(2) qd(1)] unfolding pd .
  then have wd: "data_kids p (move_last front d (length data)) u = u\<lparr>tw_data := put_beside front n_dom d us' os'\<rparr>"
    unfolding len o'(1) [symmetric] by (simp add: data_kids_def)
  note ax = add_at_extra [OF du(1) [unfolded o(1)] dos(1) ps(1)]
  note ax' = add_at_extra(3) [OF du(2) [unfolded o'(1)] dos(2) ps(2)]
  have wm: "move_items front d (map (\<lambda>t. n_dom (lab t)) (fst (number (tw_next s) data))) (tw_dom u) = put_beside front v_dom d us os"
    unfolding move_items_def roots o(1) ax(1,2) Let_def by (simp add: put_beside_def)
  have res: "insert_nodes E front d data s = Some w"
    using assms(2) u(1) wd wm unfolding insert_nodes_def gp by (simp add: plain_nodes_def w_def Let_def data_kids_def)
  have ms: "mset (labels (put_beside front v_dom d us os)) = mset (labels (tw_dom u))"
    "mset (labels (put_beside front n_dom d us' os')) = mset (labels (tw_data u))"
    using put_beside_mset [OF dd(1) dos(1)] put_beside_mset [OF dd(2) dos(2)] ax(3) ax' by (simp_all add: o(1) o'(1))
  have st: "set (labels (tw_dom w)) = set (labels (tw_dom u))" "set (labels (tw_data w)) = set (labels (tw_data u))"
    using ms [THEN mset_eq_setD] by (simp_all add: w_def)
  have rel: "relabel v_dom (tw_dom w) = put_beside front id d ?new (shape s)" "relabel n_dom (tw_data w) = put_beside front id d ?new (shape s)"
    using relabel_put_beside [of v_dom front id d us os] relabel_put_beside [of n_dom front id d us' os'] o(2,3) o'(2,3)
    by (simp_all add: w_def)
  have "mset (ids (tw_dom w)) = mset (ids (tw_dom u))" using ms(1) by (simp add: w_def)
  then have "distinct (ids (tw_dom w))" using du(1) mset_eq_imp_distinct_iff by blast
  then have "in_sync w" using rel st(1) ub(1) by (auto simp: in_sync_def w_def)
  then have "tree_base w" using ub(2) st unfolding tree_base_def none_hidden_def full_boxes_def by (simp add: w_def)
  moreover have "boxes_ok (tw_dom w)" "set (leaf_boxes (tw_dom w)) = set (leaf_boxes (tw_dom u))"
    using put_beside_boxes [OF dos(1) qo, of front us] ub(3) by (simp_all add: w_def o(1) p_def)
  ultimately have "tree_ok w" using ub(4) by (simp add: tree_ok_def leaf_ok_def)
  with res rel(2) show ?thesis by (simp add: shape_def)
qed

section \<open>Any sequence of changes\<close>

datatype tree_op =
    OpAppend "nat option" "tnode rose list" | OpInsert bool nat "tnode rose list" | OpRemove nat
  | OpCheck nat "bool option" | OpSelect nat | OpCollapse nat

fun tree_step :: "tree_env \<Rightarrow> tree_op \<Rightarrow> tree \<Rightarrow> tree option" where
  "tree_step E (OpAppend p data) s = append_nodes E p data s"
| "tree_step E (OpInsert front d data) s = insert_nodes E front d data s"
| "tree_step E (OpRemove d) s = remove_node E d s"
| "tree_step E (OpCheck d b) s = check_node E d b s"
| "tree_step E (OpSelect d) s = Some (select_node E d s)"
| "tree_step E (OpCollapse d) s = collapse_node E d s"

definition in_tree :: "nat \<Rightarrow> tree \<Rightarrow> bool" where
  "in_tree d s \<longleftrightarrow> d \<in> set (map n_dom (labels (tw_data s)))"

text \<open>The operation names nodes of the tree and brings at least one node.\<close>

fun op_fits :: "tree_op \<Rightarrow> tree \<Rightarrow> bool" where
  "op_fits (OpAppend p data) s \<longleftrightarrow> plain_nodes data \<and> (case p of None \<Rightarrow> True | Some d \<Rightarrow> in_tree d s)"
| "op_fits (OpInsert front d data) s \<longleftrightarrow> plain_nodes data \<and> in_tree d s"
| "op_fits (OpRemove d) s = in_tree d s"
| "op_fits (OpCheck d b) s = in_tree d s"
| "op_fits (OpSelect d) s = in_tree d s"
| "op_fits (OpCollapse d) s = in_tree d s"

fun run_ops :: "tree_env \<Rightarrow> tree_op list \<Rightarrow> tree \<Rightarrow> tree option" where
  "run_ops E [] s = Some s"
| "run_ops E (p # ps) s = (if op_fits p s then Option.bind (tree_step E p s) (run_ops E ps) else run_ops E ps s)"

lemma in_tree_node: "in_tree d s \<longleftrightarrow> get_node d s \<noteq> None"
  by (auto simp: in_tree_def get_node_def find_node_None)

lemma quiet_select: "quiet s (select_node E d s)"
proof -
  have "quiet s (s\<lparr>tw_dom := relabel (\<lambda>v. v\<lparr>v_selected := (v_dom v = d)\<rparr>) (tw_dom s)\<rparr>)"
    by (rule quietI [where g = "\<lambda>v. v\<lparr>v_selected := (v_dom v = d)\<rparr>" and h = "\<lambda>x. x"]) simp_all
  then show ?thesis by (simp add: select_node_def)
qed

lemma quiet_collapse:
  assumes "in_sync s" and "get_node d s \<noteq> None"
  shows "\<exists>u. collapse_node E d s = Some u \<and> quiet s u"
proof -
  have q: "quiet s (upd_node d (\<lambda>n. n\<lparr>n_state := x\<rparr>) (upd_elem d f s))"
    if "\<And>v. v_dom (f v) = v_dom v \<and> v_box (f v) = v_box v" for f x
    by (rule quiet_trans [OF quiet_elem quiet_node]) (simp_all add: that)
  obtain n where n: "get_node d s = Some n" using assms(2) by blast
  show ?thesis
    unfolding collapse_node_def n option.case by (auto split: option.split intro!: q)
qed

lemma tree_step_ok:
  assumes "tree_ok s" and "no_refusal E" and "op_fits p s"
  shows "\<exists>u. tree_step E p s = Some u \<and> tree_ok u"
proof (cases p)
  case (OpAppend q data)
  with assms append_ok [of s data q E] show ?thesis by (auto simp: in_tree_node split: option.splits)
next
  case (OpInsert front d data)
  with assms insert_ok [of s data d E front] show ?thesis by (auto simp: in_tree_node)
next
  case (OpRemove d)
  with assms remove_ok [of s d E] show ?thesis by (auto simp: in_tree_node)
next
  case (OpCheck d b)
  have sy: "in_sync s" using assms(1) by (simp add: tree_ok_def tree_base_def)
  have "d \<in> set (ids (tw_dom s))" using assms(3) OpCheck sync_ids [OF sy] by (simp add: in_tree_def)
  then obtain u where "check_node E d b s = Some u" using check_returns [OF sy] by blast
  with OpCheck check_keeps(1) [OF assms(1,2)] show ?thesis by auto
next
  case (OpSelect d)
  with quiet_facts(2) [OF quiet_select] assms(1) show ?thesis by simp
next
  case (OpCollapse d)
  have "in_sync s" using assms(1) by (simp add: tree_ok_def tree_base_def)
  with OpCollapse assms(3) obtain u where "collapse_node E d s = Some u" "quiet s u" using quiet_collapse [of s d E] by (auto simp: in_tree_node)
  with OpCollapse quiet_facts(2) assms(1) show ?thesis by auto
qed

text \<open>
  C4: the invariant.  From a tree in order (\<open>tree_ok\<close>: the objects and the elements form the same
  forest with distinct numbers, each folder's box says whether all, none or some of the boxes of its
  children are checked), any sequence of appending, inserting, removing, checking, selecting and
  collapsing that names nodes of the tree at the time runs to its end, and leaves the tree in order.
\<close>

theorem tree_ops_invariant:
  assumes "tree_ok s" and "no_refusal E"
  shows "\<exists>u. run_ops E ps s = Some u \<and> tree_ok u"
  using assms(1)
proof (induction ps arbitrary: s)
  case (Cons p ps)
  show ?case
  proof (cases "op_fits p s")
    case True
    obtain u where "tree_step E p s = Some u" "tree_ok u" using tree_step_ok [OF Cons.prems assms(2) True] by blast
    with True Cons.IH show ?thesis by simp
  qed (use Cons in simp)
qed simp

text \<open>
  C7: the three changes of the forest, on the forest of the numbers of the nodes: \<open>append\<close> puts the new
  nodes at the end of the children of a node, \<open>insert\<close> right before or after a node among its siblings,
  \<open>remove\<close> takes a node and all below it out; nothing else moves.
\<close>

theorem tree_forest_ops:
  assumes "tree_ok s" and "no_refusal E" and "plain_nodes data" and "in_tree d s"
  shows "map_option shape (append_nodes E (Some d) data s) =
      Some (alter (\<lambda>x. x = d) (\<lambda>t. [Rose d (kids t @ relabel n_dom (new_nodes data s))]) (shape s))
     \<and> map_option shape (insert_nodes E front d data s) =
      Some (alter (\<lambda>x. x = d) (\<lambda>t. if front then relabel n_dom (new_nodes data s) @ [t] else t # relabel n_dom (new_nodes data s)) (shape s))
     \<and> map_option shape (remove_node E d s) = Some (alter (\<lambda>x. x = d) (\<lambda>_. []) (shape s))"
proof -
  have g: "get_node d s \<noteq> None" using assms(4) by (simp add: in_tree_node)
  have "alter (\<lambda>x. x = d) (\<lambda>t. [Rose (lab t) (kids t @ us)]) ts = alter (\<lambda>x. x = d) (\<lambda>t. [Rose d (kids t @ us)]) ts" for us ts
    by (induction ts rule: forest_induct) simp_all
  with append_ok [OF assms(1,3) _ assms(2), of "Some d"] g
  have "map_option shape (append_nodes E (Some d) data s) =
      Some (alter (\<lambda>x. x = d) (\<lambda>t. [Rose d (kids t @ relabel n_dom (new_nodes data s))]) (shape s))"
    by (auto simp: add_at_def set_kids_def)
  moreover have "map_option shape (insert_nodes E front d data s) =
      Some (alter (\<lambda>x. x = d) (\<lambda>t. if front then relabel n_dom (new_nodes data s) @ [t] else t # relabel n_dom (new_nodes data s)) (shape s))"
    using insert_ok [OF assms(1,3) g assms(2), of front] by (auto simp: put_beside_def)
  moreover have "map_option shape (remove_node E d s) = Some (alter (\<lambda>x. x = d) (\<lambda>_. []) (shape s))"
    using remove_ok [OF assms(1) g assms(2)] by (auto simp: kill_def)
  ultimately show ?thesis by blast
qed

text \<open>A tree of a folder with two leaves, and a leaf.\<close>

lemma sample_ok: "tree_ok sample_tree"
proof -
  have "full_boxes True (tw_dom sample_tree)" unfolding full_boxes_def by code_simp
  moreover have "\<not> to_onlyLeaf sample_tree" "to_url sample_tree = None"
    by (simp_all add: sample_tree_def tree_defaults_def Let_def)
  moreover have "leaf_ok (tw_dom sample_tree)" by (simp add: leaf_ok_def sample_tree_facts)
  ultimately show ?thesis using sample_tree_facts by (simp add: tree_ok_def tree_base_def)
qed

lemma env0_refuses_nothing: "no_refusal tree_env0"
  by (simp add: no_refusal_def tree_env0_def)

theorem tree_ops_invariant_witness:
  "\<exists>u. run_ops tree_env0 [OpCheck 3 (Some True), OpRemove 2, OpInsert True 3 [Rose (node_named 0 ''n'') []]] sample_tree = Some u \<and> tree_ok u"
  by (rule tree_ops_invariant [OF sample_ok env0_refuses_nothing])

theorem tree_forest_ops_witness:
  "map_option shape (remove_node tree_env0 1 sample_tree) = Some [Rose 4 []] \<and>
   map_option shape (insert_nodes tree_env0 True 3 [Rose (node_named 0 ''n'') []] sample_tree) =
     Some [Rose 1 [Rose 2 [], Rose 5 [], Rose 3 []], Rose 4 []]"
proof -
  have p: "plain_nodes [Rose (node_named 0 ''n'') []]" by (simp add: plain_nodes_def node_named_def)
  have i: "in_tree 1 sample_tree" "in_tree 3 sample_tree"
    by (simp_all add: in_tree_def sample_tree_def node_named_def tree_defaults_def Let_def)
  have s: "shape sample_tree = [Rose 1 [Rose 2 [], Rose 3 []], Rose 4 []]"
    by (simp add: shape_def sample_tree_def node_named_def tree_defaults_def Let_def)
  have n: "relabel n_dom (new_nodes [Rose (node_named 0 ''n'') []] sample_tree) = [Rose 5 []]"
    by (simp add: new_nodes_def sample_tree_def tree_defaults_def node_named_def Let_def)
  note f = tree_forest_ops [OF sample_ok env0_refuses_nothing p]
  have "map_option shape (remove_node tree_env0 1 sample_tree) = Some [Rose 4 []]"
    using f [OF i(1)] by (simp add: s)
  moreover have "map_option shape (insert_nodes tree_env0 True 3 [Rose (node_named 0 ''n'') []] sample_tree) =
     Some [Rose 1 [Rose 2 [], Rose 5 [], Rose 3 []], Rose 4 []]"
    using f [OF i(2), of True] by (simp add: s n)
  ultimately show ?thesis by blast
qed

end
