(* ===== verification/Panel.thy ===== *)
theory Panel
  imports Js_Value
begin

text \<open>
  The panel, \<open>js/plugins/jquery.panel.js\<close>: its flags, what is displayed of it, its geometry, the content
  it loads, and the operations open, close, collapse, expand, maximize, minimize, restore, destroy.

  The options the code reads and the classes it reads back are fields; an animation is a completion
  that is still to come (\<open>pl_outer\<close> for the panel, \<open>pl_inner\<close> for its body) and that \<open>stop(true,true)\<close>
  brings forward.  A callback that is only told something is an entry of \<open>pl_log\<close>; the ones that can
  refuse are the environment.  Sizes in pixels and the layout of what the panel holds are left out.
\<close>

section \<open>State\<close>

record geom =
  ge_width :: jsval
  ge_height :: jsval
  ge_left :: jsval
  ge_top :: jsval
  ge_fit :: bool

datatype outer_anim = Opening | Closing
datatype inner_anim = Expanding | Collapsing

datatype pevent =
    POpen | PClose | PDestroy | PCollapse | PExpand | PMaximize | PMinimize | PRestore | PLoad | PLoadError | PResize | PMove

record panel =
  pl_title :: "string option"
  pl_geom :: geom
  pl_original :: "geom option"
  pl_closed :: bool
  pl_minimized :: bool
  pl_maximized :: bool
  pl_collapsed :: bool
  pl_shown :: bool
  pl_body :: bool
  pl_outer :: "outer_anim option"
  pl_inner :: "inner_anim option"
  pl_openAnim :: bool
  pl_closeAnim :: bool
  pl_noheader :: bool
  pl_header :: bool
  pl_doSize :: bool
  pl_collapsible :: bool
  pl_maximizable :: bool
  pl_expandTool :: bool
  pl_restoreTool :: bool
  pl_href :: "string option"
  pl_cache :: bool
  pl_loaded :: bool
  pl_message :: string
  pl_html :: string
  pl_loads :: "string list"
  pl_gone :: bool
  pl_log :: "pevent list"

definition panel_defaults :: panel where
  "panel_defaults = \<lparr>pl_title = None, pl_geom = \<lparr>ge_width = VStr ''auto'', ge_height = VStr ''auto'', ge_left = VNull, ge_top = VNull, ge_fit = False\<rparr>,
     pl_original = None, pl_closed = False, pl_minimized = False, pl_maximized = False, pl_collapsed = False,
     pl_shown = True, pl_body = True, pl_outer = None, pl_inner = None, pl_openAnim = False, pl_closeAnim = False,
     pl_noheader = False, pl_header = False, pl_doSize = True, pl_collapsible = False, pl_maximizable = False, pl_expandTool = False, pl_restoreTool = False,
     pl_href = None, pl_cache = True, pl_loaded = False, pl_message = ''Loading...'', pl_html = [], pl_loads = [], pl_gone = False, pl_log = []\<rparr>"

datatype pveto = BeforeOpen | BeforeClose | BeforeDestroy | BeforeCollapse | BeforeExpand | BeforeLoad

record panel_env =
  pe_before :: "pveto \<Rightarrow> bool"
  pe_extract :: "string \<Rightarrow> string"

definition panel_env0 :: panel_env where
  "panel_env0 = \<lparr>pe_before = (\<lambda>_. True), pe_extract = (\<lambda>x. x)\<rparr>"

definition pl_emit :: "pevent \<Rightarrow> panel \<Rightarrow> panel" where
  "pl_emit e p = p\<lparr>pl_log := pl_log p @ [e]\<rparr>"

section \<open>Loading: \<open>_28\<close>\<close>

text \<open>A request is the address asked; its answers can come in any order.\<close>

definition load_panel :: "panel_env \<Rightarrow> panel \<Rightarrow> panel" where
  "load_panel E p =
     (case pl_href p of
        None \<Rightarrow> p
      | Some u \<Rightarrow>
          if u = [] \<or> pl_loaded p \<and> pl_cache p \<or> \<not> pe_before E BeforeLoad then p
          else p\<lparr>pl_loaded := False, pl_html := pl_message p, pl_loads := pl_loads p @ [u]\<rparr>)"

definition panel_answer :: "panel_env \<Rightarrow> nat \<Rightarrow> string \<Rightarrow> panel \<Rightarrow> panel" where
  "panel_answer E j x p =
     (if j < length (pl_loads p)
      then (pl_emit PLoad (p\<lparr>pl_html := pe_extract E x, pl_loads := splice_del j (pl_loads p)\<rparr>))\<lparr>pl_loaded := True\<rparr>
      else p)"

definition panel_failed :: "nat \<Rightarrow> panel \<Rightarrow> panel" where
  "panel_failed j p = (if j < length (pl_loads p) then pl_emit PLoadError (p\<lparr>pl_loads := splice_del j (pl_loads p)\<rparr>) else p)"

definition panel_refresh :: "panel_env \<Rightarrow> string option \<Rightarrow> panel \<Rightarrow> panel" where
  "panel_refresh E u p =
     (let p = p\<lparr>pl_loaded := False\<rparr>
      in load_panel E (case u of None \<Rightarrow> p | Some x \<Rightarrow> if x = [] then p else p\<lparr>pl_href := Some x\<rparr>))"

section \<open>The body: \<open>_3b\<close> and \<open>_4d\<close>\<close>

definition collapse_end :: "panel \<Rightarrow> panel" where
  "collapse_end p = pl_emit PCollapse (p\<lparr>pl_body := False, pl_collapsed := True, pl_inner := None\<rparr>)"

definition expand_end :: "panel_env \<Rightarrow> panel \<Rightarrow> panel" where
  "expand_end E p = load_panel E (pl_emit PExpand (p\<lparr>pl_body := True, pl_collapsed := False, pl_inner := None\<rparr>))"

definition stop_inner :: "panel_env \<Rightarrow> panel \<Rightarrow> panel" where
  "stop_inner E p = (case pl_inner p of None \<Rightarrow> p | Some Collapsing \<Rightarrow> collapse_end p | Some Expanding \<Rightarrow> expand_end E p)"

definition begin_collapse :: "bool \<Rightarrow> panel \<Rightarrow> panel" where
  "begin_collapse anim p =
     (let p = p\<lparr>pl_expandTool := (pl_header p \<and> pl_collapsible p)\<rparr>
      in if anim then p\<lparr>pl_inner := Some Collapsing\<rparr> else collapse_end p)"

definition begin_expand :: "panel_env \<Rightarrow> bool \<Rightarrow> panel \<Rightarrow> panel" where
  "begin_expand E anim p =
     (let p = p\<lparr>pl_expandTool := False\<rparr>
      in if anim then p\<lparr>pl_body := True, pl_inner := Some Expanding\<rparr> else expand_end E p)"

definition collapse_panel :: "panel_env \<Rightarrow> bool \<Rightarrow> panel \<Rightarrow> panel" where
  "collapse_panel E anim p =
     (if pl_collapsed p then p
      else let p = stop_inner E p in if pe_before E BeforeCollapse then begin_collapse anim p else p)"

definition expand_panel :: "panel_env \<Rightarrow> bool \<Rightarrow> panel \<Rightarrow> panel" where
  "expand_panel E anim p =
     (if \<not> pl_collapsed p then p
      else let p = stop_inner E p in if pe_before E BeforeExpand then begin_expand E anim p else p)"

section \<open>The geometry: \<open>_3a\<close>, \<open>_58\<close>, \<open>_5c\<close>, \<open>_3\<close>, \<open>_f\<close>\<close>

definition full_geom :: "geom \<Rightarrow> geom" where
  "full_geom g = g\<lparr>ge_left := VNum 0, ge_top := VNum 0, ge_fit := True\<rparr>"

definition maximize_panel :: "panel \<Rightarrow> panel" where
  "maximize_panel p =
     (if pl_maximized p then p
      else
        let p = p\<lparr>pl_restoreTool := (pl_header p \<and> pl_maximizable p)\<rparr>;
            p = (if pl_original p = None then p\<lparr>pl_original := Some (pl_geom p)\<rparr> else p)
        in pl_emit PMaximize (pl_emit PResize (p\<lparr>pl_geom := full_geom (pl_geom p)\<rparr>)\<lparr>pl_minimized := False, pl_maximized := True\<rparr>))"

definition minimize_panel :: "panel \<Rightarrow> panel" where
  "minimize_panel p = pl_emit PMinimize (p\<lparr>pl_shown := False, pl_minimized := True, pl_maximized := False\<rparr>)"

definition restore_panel :: "panel \<Rightarrow> panel" where
  "restore_panel p =
     (if \<not> pl_maximized p then p
      else
        let p = p\<lparr>pl_shown := True, pl_restoreTool := False, pl_geom := (case pl_original p of None \<Rightarrow> pl_geom p | Some g \<Rightarrow> g)\<rparr>
        in pl_emit PRestore (pl_emit PResize p\<lparr>pl_minimized := False, pl_maximized := False, pl_original := None\<rparr>))"

text \<open>\<open>resize\<close> and \<open>move\<close> with the values given.\<close>

definition given :: "jsval \<Rightarrow> jsval \<Rightarrow> jsval" where
  "given x y = (if x = VUndef then y else x)"

definition resize_panel :: "(jsval \<times> jsval \<times> jsval \<times> jsval) option \<Rightarrow> panel \<Rightarrow> panel" where
  "resize_panel r p =
     pl_emit PResize
       (case r of
          None \<Rightarrow> p
        | Some (w, h, l, t) \<Rightarrow>
            let g = pl_geom p in
            p\<lparr>pl_geom := g\<lparr>ge_width := given w (ge_width g), ge_height := given h (ge_height g),
               ge_left := given l (ge_left g), ge_top := given t (ge_top g)\<rparr>\<rparr>)"

definition move_panel :: "(jsval \<times> jsval) option \<Rightarrow> panel \<Rightarrow> panel" where
  "move_panel r p =
     pl_emit PMove
       (case r of
          None \<Rightarrow> p
        | Some (l, t) \<Rightarrow>
            let g = pl_geom p in
            p\<lparr>pl_geom := g\<lparr>ge_left := if nullish l then ge_left g else l, ge_top := if nullish t then ge_top g else t\<rparr>\<rparr>)"

section \<open>Opening and closing: \<open>_34\<close> and \<open>_3c\<close>\<close>

definition open_end :: "panel_env \<Rightarrow> panel \<Rightarrow> panel" where
  "open_end E p =
     (let p = p\<lparr>pl_outer := None, pl_closed := False, pl_minimized := False\<rparr>;
          p = pl_emit POpen (if pl_restoreTool p then p\<lparr>pl_maximized := True\<rparr> else p);
          p = (if pl_maximized p then maximize_panel (p\<lparr>pl_maximized := False\<rparr>) else p);
          p = (if pl_collapsed p then collapse_panel E False (p\<lparr>pl_collapsed := False\<rparr>) else p)
      in if pl_collapsed p then p else load_panel E p)"

definition close_end :: "panel \<Rightarrow> panel" where
  "close_end p = pl_emit PClose (p\<lparr>pl_outer := None, pl_shown := False, pl_closed := True\<rparr>)"

definition stop_outer :: "panel_env \<Rightarrow> panel \<Rightarrow> panel" where
  "stop_outer E p = (case pl_outer p of None \<Rightarrow> p | Some Opening \<Rightarrow> open_end E p | Some Closing \<Rightarrow> close_end p)"

text \<open>What follows \<open>onBeforeOpen\<close> and \<open>onBeforeClose\<close>.\<close>

definition begin_open :: "panel_env \<Rightarrow> panel \<Rightarrow> panel" where
  "begin_open E p =
     (let p = (stop_outer E p)\<lparr>pl_shown := True\<rparr>
      in if pl_openAnim p then p\<lparr>pl_outer := Some Opening\<rparr> else open_end E p)"

definition begin_close :: "panel_env \<Rightarrow> panel \<Rightarrow> panel" where
  "begin_close E p =
     (let p = stop_outer E p in if pl_closeAnim p then p\<lparr>pl_outer := Some Closing\<rparr> else close_end p)"

definition open_panel :: "panel_env \<Rightarrow> bool \<Rightarrow> panel \<Rightarrow> panel" where
  "open_panel E force p = (if force \<or> pe_before E BeforeOpen then begin_open E p else p)"

definition close_panel :: "panel_env \<Rightarrow> bool \<Rightarrow> panel \<Rightarrow> panel" where
  "close_panel E force p = (if force \<or> pe_before E BeforeClose then begin_close E p else p)"

definition destroy_panel :: "panel_env \<Rightarrow> bool \<Rightarrow> panel \<Rightarrow> panel" where
  "destroy_panel E force p =
     (if force \<or> pe_before E BeforeDestroy then pl_emit PDestroy (p\<lparr>pl_html := [], pl_gone := True\<rparr>) else p)"

section \<open>Creation: \<open>$.fn.panel\<close>, \<open>_18\<close>\<close>

text \<open>The header is drawn anew, its tools without the classes they had; \<open>content\<close> replaces the body.
  A header of its own markup (option \<open>header\<close>) is not modelled.\<close>

definition draw_panel :: "string option \<Rightarrow> panel \<Rightarrow> panel" where
  "draw_panel content p =
     (let p = p\<lparr>pl_header := (\<not> pl_noheader p \<and> pl_title p \<noteq> None \<and> pl_title p \<noteq> Some []), pl_expandTool := False, pl_restoreTool := False\<rparr>
      in case content of None \<Rightarrow> p | Some x \<Rightarrow> if x = [] then p else p\<lparr>pl_html := x\<rparr>)"

definition settle_panel :: "panel_env \<Rightarrow> panel \<Rightarrow> panel" where
  "settle_panel E p =
     (let p = (if pl_doSize p then pl_emit PResize (p\<lparr>pl_shown := True\<rparr>) else p)
      in if pl_closed p \<or> pl_minimized p then p\<lparr>pl_shown := False\<rparr> else open_panel E False p)"

definition panel_create :: "panel_env \<Rightarrow> string option \<Rightarrow> panel \<Rightarrow> panel" where
  "panel_create E content opts = settle_panel E (draw_panel content opts)"

definition panel_reinit :: "panel_env \<Rightarrow> (panel \<Rightarrow> panel) \<Rightarrow> string option \<Rightarrow> panel \<Rightarrow> panel" where
  "panel_reinit E f content p = settle_panel E (draw_panel content ((f p)\<lparr>pl_loaded := False\<rparr>))"

definition panel_title :: "string option \<Rightarrow> panel \<Rightarrow> panel" where
  "panel_title x p = p\<lparr>pl_title := x\<rparr>"

text \<open>The buttons of the header.\<close>

datatype ptool = CollapseTool | MinTool | MaxTool | CloseTool

definition panel_tool :: "panel_env \<Rightarrow> ptool \<Rightarrow> panel \<Rightarrow> panel" where
  "panel_tool E x p =
     (case x of
        CollapseTool \<Rightarrow> (if pl_collapsed p then expand_panel E True p else collapse_panel E True p)
      | MinTool \<Rightarrow> minimize_panel p
      | MaxTool \<Rightarrow> (if pl_maximized p then restore_panel p else maximize_panel p)
      | CloseTool \<Rightarrow> close_panel E False p)"

section \<open>Operations in any order\<close>

text \<open>The methods, the buttons of the header, the ends of animations brought forward or reached, and the answers to requests.\<close>

datatype panel_op =
    OpOpen bool | OpClose bool | OpCollapsePanel bool | OpExpandPanel bool | OpMaximize | OpMinimize | OpRestore
  | OpResize "(jsval \<times> jsval \<times> jsval \<times> jsval) option" | OpMove "(jsval \<times> jsval) option" | OpTitle "string option"
  | OpTool ptool | OpStopOuter | OpStopInner | OpAnswer nat string | OpFailed nat | OpRefresh "string option"

fun panel_step :: "panel_env \<Rightarrow> panel_op \<Rightarrow> panel \<Rightarrow> panel" where
  "panel_step E (OpOpen b) p = open_panel E b p"
| "panel_step E (OpClose b) p = close_panel E b p"
| "panel_step E (OpCollapsePanel a) p = collapse_panel E a p"
| "panel_step E (OpExpandPanel a) p = expand_panel E a p"
| "panel_step E OpMaximize p = maximize_panel p"
| "panel_step E OpMinimize p = minimize_panel p"
| "panel_step E OpRestore p = restore_panel p"
| "panel_step E (OpResize r) p = resize_panel r p"
| "panel_step E (OpMove r) p = move_panel r p"
| "panel_step E (OpTitle x) p = panel_title x p"
| "panel_step E (OpTool x) p = panel_tool E x p"
| "panel_step E OpStopOuter p = stop_outer E p"
| "panel_step E OpStopInner p = stop_inner E p"
| "panel_step E (OpAnswer j x) p = panel_answer E j x p"
| "panel_step E (OpFailed j) p = panel_failed j p"
| "panel_step E (OpRefresh u) p = panel_refresh E u p"

definition panel_run :: "panel_env \<Rightarrow> panel_op list \<Rightarrow> panel \<Rightarrow> panel" where
  "panel_run E ps p = fold (panel_step E) ps p"

text \<open>Every operation of a session is done in a state that suits it.\<close>

primrec along :: "(panel_op \<Rightarrow> panel \<Rightarrow> bool) \<Rightarrow> panel_env \<Rightarrow> panel_op list \<Rightarrow> panel \<Rightarrow> bool" where
  "along P E [] p = True"
| "along P E (x # xs) p = (P x p \<and> along P E xs (panel_step E x p))"

lemma along_run:
  assumes "along P E xs p" and "I p" and "\<And>x q. I q \<Longrightarrow> P x q \<Longrightarrow> I (panel_step E x q)"
  shows "I (panel_run E xs p)"
  using assms(1,2) unfolding panel_run_def by (induction xs arbitrary: p) (simp_all add: assms(3))

lemma along_True: "along (\<lambda>_ _. True) E xs p"
  by (induction xs arbitrary: p) simp_all

lemma along_both: "along (\<lambda>x q. P x q \<and> Q x q) E xs p = (along P E xs p \<and> along Q E xs p)"
  by (induction xs arbitrary: p) auto

text \<open>The last of the events told that says yes or no.\<close>

definition told :: "pevent set \<Rightarrow> pevent set \<Rightarrow> bool \<Rightarrow> pevent list \<Rightarrow> bool" where
  "told yes no b es = fold (\<lambda>e b. if e \<in> yes then True else if e \<in> no then False else b) es b"

lemma told_Nil [simp]: "told yes no b [] = b"
  by (simp add: told_def)

lemma told_Cons [simp]: "told yes no b (e # es) = told yes no (if e \<in> yes then True else if e \<in> no then False else b) es"
  by (simp add: told_def)

lemma told_append [simp]: "told yes no b (es @ fs) = told yes no (told yes no b es) fs"
  by (simp add: told_def)

lemma told_silent: "set fs \<inter> (yes \<union> no) = {} \<Longrightarrow> told yes no b fs = b"
  by (induction fs) auto

text \<open>
  What collapsing, expanding and loading do not touch: the flags of the panel itself, its geometry, and all events but their own.
\<close>

definition body_only :: "panel \<Rightarrow> panel \<Rightarrow> bool" where
  "body_only p q \<longleftrightarrow> pl_shown q = pl_shown p \<and> pl_closed q = pl_closed p \<and> pl_minimized q = pl_minimized p \<and> pl_maximized q = pl_maximized p
     \<and> pl_outer q = pl_outer p \<and> pl_geom q = pl_geom p \<and> pl_original q = pl_original p \<and> pl_restoreTool q = pl_restoreTool p
     \<and> (\<exists>es. pl_log q = pl_log p @ es \<and> set es \<subseteq> {PCollapse, PExpand, PLoad, PLoadError})"

lemma body_only_refl [simp]: "body_only p p"
  by (simp add: body_only_def)

lemma body_only_trans: "body_only p q \<Longrightarrow> body_only q r \<Longrightarrow> body_only p r"
proof -
  assume a: "body_only p q" "body_only q r"
  then obtain es fs where "pl_log q = pl_log p @ es" "set es \<subseteq> {PCollapse, PExpand, PLoad, PLoadError}"
    "pl_log r = pl_log q @ fs" "set fs \<subseteq> {PCollapse, PExpand, PLoad, PLoadError}" by (auto simp: body_only_def)
  then have "pl_log r = pl_log p @ es @ fs \<and> set (es @ fs) \<subseteq> {PCollapse, PExpand, PLoad, PLoadError}" by simp
  with a show ?thesis unfolding body_only_def by metis
qed

lemma body_only_told:
  assumes "body_only p q" and "{PCollapse, PExpand, PLoad, PLoadError} \<inter> (yes \<union> no) = {}"
  shows "told yes no b (pl_log q) = told yes no b (pl_log p)"
proof -
  obtain es where "pl_log q = pl_log p @ es" "set es \<subseteq> {PCollapse, PExpand, PLoad, PLoadError}" using assms(1) by (auto simp: body_only_def)
  moreover from this assms(2) have "set es \<inter> (yes \<union> no) = {}" by blast
  ultimately show ?thesis by (simp add: told_silent)
qed

lemma body_only_load [simp]: "body_only p (load_panel E q) = body_only p q"
  by (simp add: load_panel_def body_only_def split: option.split)

lemma body_only_collapse_end: "body_only p (collapse_end p)"
  by (simp add: body_only_def collapse_end_def pl_emit_def)

lemma body_only_expand_end: "body_only p (expand_end E p)"
  by (simp add: expand_end_def) (simp add: body_only_def pl_emit_def)

lemma body_only_stop_inner: "body_only p (stop_inner E p)"
  by (simp add: stop_inner_def body_only_collapse_end body_only_expand_end split: option.split inner_anim.split)

lemma body_only_begin: "body_only p (begin_collapse a p)" "body_only p (begin_expand E a p)"
proof -
  have t: "body_only p (p\<lparr>pl_expandTool := b\<rparr>)" "body_only p (p\<lparr>pl_expandTool := b, pl_inner := i\<rparr>)"
    "body_only p (p\<lparr>pl_expandTool := b, pl_body := c, pl_inner := i\<rparr>)" for b c i by (simp_all add: body_only_def)
  show "body_only p (begin_collapse a p)" "body_only p (begin_expand E a p)"
    using t body_only_trans [OF t(1) body_only_collapse_end] body_only_trans [OF t(1) body_only_expand_end]
    by (simp_all add: begin_collapse_def begin_expand_def Let_def)
qed

lemma body_only_body: "body_only p (collapse_panel E a p)" "body_only p (expand_panel E a p)"
  using body_only_stop_inner body_only_trans [OF body_only_stop_inner body_only_begin(1)] body_only_trans [OF body_only_stop_inner body_only_begin(2)]
  by (simp_all add: collapse_panel_def expand_panel_def Let_def)

lemma body_only_answers: "body_only p (panel_answer E j x p)" "body_only p (panel_failed j p)" "body_only p (panel_refresh E u p)" "body_only p (panel_title t p)"
  by (auto simp: panel_answer_def panel_failed_def panel_refresh_def panel_title_def pl_emit_def Let_def split: option.split) (simp_all add: body_only_def)

text \<open>The parts of the end of an opening, in their order.\<close>

definition opened :: "panel \<Rightarrow> panel" where
  "opened p =
     (let p = p\<lparr>pl_outer := None, pl_closed := False, pl_minimized := False\<rparr>;
          p = pl_emit POpen (if pl_restoreTool p then p\<lparr>pl_maximized := True\<rparr> else p)
      in if pl_maximized p then maximize_panel (p\<lparr>pl_maximized := False\<rparr>) else p)"

lemma open_end_parts:
  "open_end E p =
     (let p = opened p; p = (if pl_collapsed p then collapse_panel E False (p\<lparr>pl_collapsed := False\<rparr>) else p)
      in if pl_collapsed p then p else load_panel E p)"
  by (simp add: open_end_def opened_def Let_def)

lemma body_only_opened: "body_only (opened p) (open_end E p)"
proof -
  have "body_only (opened p) (opened p\<lparr>pl_collapsed := False\<rparr>)" by (simp add: body_only_def)
  from body_only_trans [OF this body_only_body(1)] show ?thesis by (simp add: open_end_parts Let_def)
qed

section \<open>The geometry\<close>

text \<open>
  While the panel is away (maximized, and not restored since) its own geometry waits; what \<open>resize\<close> and \<open>move\<close> ask for
  otherwise becomes its own.
\<close>

definition away :: "panel \<Rightarrow> bool" where
  "away p = told {PMaximize} {PRestore} False (pl_log p)"






lemma full_full [simp]: "full_geom (full_geom g) = full_geom g"
  by (simp add: full_geom_def)

lemma away_emit [simp]: "away (pl_emit e p) = (e = PMaximize \<or> e \<noteq> PRestore \<and> away p)"
  by (auto simp: away_def pl_emit_def)

lemma away_fields [simp]:
  "away (p\<lparr>pl_shown := b\<rparr>) = away p" "away (p\<lparr>pl_closed := b\<rparr>) = away p" "away (p\<lparr>pl_outer := x\<rparr>) = away p"
  "away (p\<lparr>pl_minimized := b\<rparr>) = away p" "away (p\<lparr>pl_maximized := b\<rparr>) = away p" "away (p\<lparr>pl_original := m\<rparr>) = away p"
  "away (p\<lparr>pl_geom := g\<rparr>) = away p" "away (p\<lparr>pl_restoreTool := b\<rparr>) = away p" "away (p\<lparr>pl_collapsed := b\<rparr>) = away p"
  by (simp_all add: away_def)

lemma emit_geom [simp]:
  "pl_original (pl_emit e p) = pl_original p" "pl_geom (pl_emit e p) = pl_geom p" "pl_maximized (pl_emit e p) = pl_maximized p"
  "pl_restoreTool (pl_emit e p) = pl_restoreTool p" "pl_shown (pl_emit e p) = pl_shown p" "pl_closed (pl_emit e p) = pl_closed p"
  "pl_minimized (pl_emit e p) = pl_minimized p" "pl_outer (pl_emit e p) = pl_outer p" "pl_log (pl_emit e p) = pl_log p @ [e]"
  "pl_body (pl_emit e p) = pl_body p" "pl_inner (pl_emit e p) = pl_inner p" "pl_collapsed (pl_emit e p) = pl_collapsed p"
  by (simp_all add: pl_emit_def)











section \<open>What is displayed\<close>

text \<open>
  The display and the flags follow the events told: \<open>p\<close> is the panel at the start of the events.  An opening that is
  still animated displays the panel before it is told.
\<close>

definition display_ok :: "panel \<Rightarrow> panel \<Rightarrow> bool" where
  "display_ok p q \<longleftrightarrow>
     pl_shown q = (pl_outer q = Some Opening \<or> told {POpen, PRestore} {PClose, PMinimize} (pl_shown p) (pl_log q))
     \<and> pl_closed q = told {PClose} {POpen} (pl_closed p) (pl_log q)
     \<and> pl_minimized q = told {PMinimize} {POpen, PMaximize, PRestore} (pl_minimized p) (pl_log q)
     \<and> pl_maximized q = told {PMaximize} {PRestore, PMinimize} (pl_maximized p) (pl_log q)"

definition body_told :: "panel \<Rightarrow> panel \<Rightarrow> bool" where
  "body_told p q \<longleftrightarrow> (if pl_inner q = Some Expanding then pl_body q else pl_body q = told {PExpand} {PCollapse} (pl_body p) (pl_log q))"

definition view_ok :: "panel \<Rightarrow> bool" where
  "view_ok q \<longleftrightarrow> (pl_outer q = None \<longrightarrow> pl_shown q = (\<not> pl_closed q \<and> \<not> pl_minimized q)) \<and> (pl_outer q = Some Opening \<longrightarrow> pl_shown q)"

definition body_ok :: "panel \<Rightarrow> bool" where
  "body_ok q \<longleftrightarrow> (if pl_inner q = Some Expanding then pl_body q else pl_body q = (\<not> pl_collapsed q))"

text \<open>A panel is not minimized while its opening is animated; it is displayed when it is maximized or restored.\<close>

definition unhurried :: "panel_op \<Rightarrow> panel \<Rightarrow> bool" where
  "unhurried x p \<longleftrightarrow> (x = OpMinimize \<or> x = OpTool MinTool \<longrightarrow> pl_outer p \<noteq> Some Opening)"

definition in_view :: "panel_op \<Rightarrow> panel \<Rightarrow> bool" where
  "in_view x p \<longleftrightarrow> (x = OpMaximize \<or> x = OpRestore \<or> x = OpTool MaxTool \<longrightarrow> pl_shown p)"

lemma display_body_only: "body_only q r \<Longrightarrow> display_ok p r = display_ok p q" "body_only q r \<Longrightarrow> view_ok r = view_ok q"
proof -
  assume q: "body_only q r"
  have "told {POpen, PRestore} {PClose, PMinimize} b (pl_log r) = told {POpen, PRestore} {PClose, PMinimize} b (pl_log q)"
    "told {PClose} {POpen} b (pl_log r) = told {PClose} {POpen} b (pl_log q)"
    "told {PMinimize} {POpen, PMaximize, PRestore} b (pl_log r) = told {PMinimize} {POpen, PMaximize, PRestore} b (pl_log q)"
    "told {PMaximize} {PRestore, PMinimize} b (pl_log r) = told {PMaximize} {PRestore, PMinimize} b (pl_log q)" for b
    by (rule body_only_told [OF q], simp)+
  then show "display_ok p r = display_ok p q" "view_ok r = view_ok q" using q by (simp_all add: display_ok_def view_ok_def body_only_def)
qed

lemma display_maximize: "display_ok p q \<Longrightarrow> display_ok p (maximize_panel q)" "view_ok q \<Longrightarrow> pl_shown q \<Longrightarrow> view_ok (maximize_panel q)"
  by (auto simp: display_ok_def view_ok_def maximize_panel_def Let_def)

lemma display_restore: "display_ok p q \<Longrightarrow> display_ok p (restore_panel q)" "view_ok q \<Longrightarrow> pl_shown q \<Longrightarrow> view_ok (restore_panel q)"
  by (auto simp: display_ok_def view_ok_def restore_panel_def Let_def split: option.split)

lemma display_minimize:
  "display_ok p q \<Longrightarrow> pl_outer q \<noteq> Some Opening \<Longrightarrow> display_ok p (minimize_panel q)"
  "view_ok q \<Longrightarrow> pl_outer q \<noteq> Some Opening \<Longrightarrow> view_ok (minimize_panel q)"
  by (simp_all add: display_ok_def view_ok_def minimize_panel_def)

lemma display_sizes:
  "display_ok p (resize_panel r q) = display_ok p q" "display_ok p (move_panel v q) = display_ok p q"
  "view_ok (resize_panel r q) = view_ok q" "view_ok (move_panel v q) = view_ok q"
  by (simp_all add: display_ok_def view_ok_def resize_panel_def move_panel_def Let_def split: option.split)

lemma display_open_end:
  "display_ok p q \<Longrightarrow> pl_shown q \<Longrightarrow> display_ok p (open_end E q)" "pl_shown q \<Longrightarrow> view_ok (open_end E q)"
proof -
  define b where "b = pl_emit POpen (let q = q\<lparr>pl_outer := None, pl_closed := False, pl_minimized := False\<rparr> in if pl_restoreTool q then q\<lparr>pl_maximized := True\<rparr> else q)"
  have o: "opened q = (if pl_maximized b then maximize_panel (b\<lparr>pl_maximized := False\<rparr>) else b)" by (simp add: opened_def b_def Let_def)
  have "display_ok p (opened q)" if "display_ok p q" "pl_shown q"
    unfolding o using that by (simp add: display_ok_def b_def maximize_panel_def Let_def)
  then show "display_ok p q \<Longrightarrow> pl_shown q \<Longrightarrow> display_ok p (open_end E q)"
    using display_body_only(1) [OF body_only_opened [of q E]] by simp
  have "view_ok (opened q)" if "pl_shown q"
    unfolding o using that by (simp add: view_ok_def b_def maximize_panel_def Let_def)
  then show "pl_shown q \<Longrightarrow> view_ok (open_end E q)" using display_body_only(2) [OF body_only_opened [of q E]] by simp
qed

lemma outer_open_end: "pl_outer (open_end E q) = None" "pl_outer (stop_outer E q) = None"
proof -
  have "pl_outer (opened q) = None" for q by (simp add: opened_def maximize_panel_def Let_def)
  then show o: "pl_outer (open_end E q) = None" for q using body_only_opened [of q E] by (simp add: body_only_def)
  show "pl_outer (stop_outer E q) = None" by (simp add: stop_outer_def o close_end_def split: option.split outer_anim.split)
qed

lemma display_outer:
  "display_ok p q \<Longrightarrow> display_ok p (stop_outer E q)" "view_ok q \<Longrightarrow> view_ok (stop_outer E q)"
  "display_ok p q \<Longrightarrow> display_ok p (open_panel E f q)" "view_ok q \<Longrightarrow> view_ok (open_panel E f q)"
  "display_ok p q \<Longrightarrow> display_ok p (close_panel E f q)" "view_ok q \<Longrightarrow> view_ok (close_panel E f q)"
proof -
  have c: "display_ok p q \<Longrightarrow> display_ok p (close_end q)" "view_ok (close_end q)" for q
    by (simp_all add: close_end_def display_ok_def view_ok_def)
  have s: "display_ok p q \<Longrightarrow> display_ok p (stop_outer E q)" "view_ok q \<Longrightarrow> view_ok (stop_outer E q)" for q
  proof -
    have v: "pl_shown q" if "display_ok p q \<or> view_ok q" "pl_outer q = Some Opening" using that by (auto simp: display_ok_def view_ok_def)
    show "display_ok p q \<Longrightarrow> display_ok p (stop_outer E q)" "view_ok q \<Longrightarrow> view_ok (stop_outer E q)"
      using display_open_end(1) [of p q E] display_open_end(2) [of q E] v c by (simp_all add: stop_outer_def split: option.split outer_anim.split)
  qed
  let ?s = "stop_outer E q"
  have n: "pl_outer ?s = None" by (rule outer_open_end)
  have op: "display_ok p (open_end E (r\<lparr>pl_shown := True\<rparr>))" if "display_ok p r" "pl_outer r = None" for r
  proof -
    have "open_end E (r\<lparr>pl_shown := True\<rparr>) = open_end E (r\<lparr>pl_shown := True, pl_outer := Some Opening\<rparr>)" by (simp add: open_end_def)
    moreover have "display_ok p (r\<lparr>pl_shown := True, pl_outer := Some Opening\<rparr>)" using that by (simp add: display_ok_def)
    ultimately show ?thesis using display_open_end(1) [of p "r\<lparr>pl_shown := True, pl_outer := Some Opening\<rparr>" E] by simp
  qed
  have an: "display_ok p r \<Longrightarrow> display_ok p (r\<lparr>pl_shown := True, pl_outer := Some Opening\<rparr>)" "view_ok (r\<lparr>pl_shown := True, pl_outer := Some Opening\<rparr>)"
    "display_ok p r \<Longrightarrow> pl_outer r = None \<Longrightarrow> display_ok p (r\<lparr>pl_outer := Some Closing\<rparr>)" "view_ok (r\<lparr>pl_outer := Some Closing\<rparr>)" for r
    by (simp_all add: display_ok_def view_ok_def)
  show "display_ok p q \<Longrightarrow> display_ok p ?s" "view_ok q \<Longrightarrow> view_ok ?s" using s by simp_all
  show "display_ok p q \<Longrightarrow> display_ok p (open_panel E f q)"
    using s(1) op [OF _ n] n an(1) by (auto simp: open_panel_def begin_open_def Let_def)
  show "view_ok q \<Longrightarrow> view_ok (open_panel E f q)"
    using s(2) display_open_end(2) an(2) by (auto simp: open_panel_def begin_open_def Let_def)
  show "display_ok p q \<Longrightarrow> display_ok p (close_panel E f q)"
    using s(1) c(1) [of ?s] n an(3) by (auto simp: close_panel_def begin_close_def Let_def)
  show "view_ok q \<Longrightarrow> view_ok (close_panel E f q)"
    using s(2) c(2) [of ?s] n an(4) by (auto simp: close_panel_def begin_close_def Let_def)
qed

lemmas display_all = display_outer display_maximize display_restore display_minimize display_sizes
  display_body_only [OF body_only_body(1)] display_body_only [OF body_only_body(2)] display_body_only [OF body_only_stop_inner] display_body_only [OF body_only_answers(1)]
  display_body_only [OF body_only_answers(2)] display_body_only [OF body_only_answers(3)] display_body_only [OF body_only_answers(4)]

lemma display_step:
  "display_ok p q \<Longrightarrow> unhurried x q \<Longrightarrow> display_ok p (panel_step E x q)"
  "view_ok q \<Longrightarrow> unhurried x q \<Longrightarrow> in_view x q \<Longrightarrow> view_ok (panel_step E x q)"
  by (cases x; auto simp: display_all unhurried_def panel_tool_def split: ptool.splits)
    (cases x; auto simp: display_all unhurried_def in_view_def panel_tool_def split: ptool.splits)

section \<open>What is displayed of the body\<close>

text \<open>What the other operations leave to the body.\<close>

definition same_body :: "panel \<Rightarrow> panel \<Rightarrow> bool" where
  "same_body p q \<longleftrightarrow> pl_body q = pl_body p \<and> pl_collapsed q = pl_collapsed p \<and> pl_inner q = pl_inner p
     \<and> (\<exists>es. pl_log q = pl_log p @ es \<and> set es \<inter> {PExpand, PCollapse} = {})"

lemma body_same: "same_body q r \<Longrightarrow> body_ok r = body_ok q" "same_body q r \<Longrightarrow> body_told p r = body_told p q"
  by (auto simp: same_body_def body_ok_def body_told_def told_silent)

lemma same_body_refl: "same_body p p"
  by (simp add: same_body_def)

lemma same_body_trans: "same_body p q \<Longrightarrow> same_body q r \<Longrightarrow> same_body p r"
proof -
  assume a: "same_body p q" "same_body q r"
  then obtain es fs where "pl_log q = pl_log p @ es" "set es \<inter> {PExpand, PCollapse} = {}"
    "pl_log r = pl_log q @ fs" "set fs \<inter> {PExpand, PCollapse} = {}" by (auto simp: same_body_def)
  then have "pl_log r = pl_log p @ es @ fs \<and> set (es @ fs) \<inter> {PExpand, PCollapse} = {}" by auto
  with a show ?thesis unfolding same_body_def by metis
qed

lemma same_body_load [simp]: "same_body p (load_panel E q) = same_body p q"
  by (simp add: load_panel_def same_body_def split: option.split)

lemma same_body_ops:
  "same_body p (maximize_panel p)" "same_body p (restore_panel p)" "same_body p (minimize_panel p)" "same_body p (resize_panel r p)"
  "same_body p (move_panel v p)" "same_body p (panel_title t p)" "same_body p (panel_answer E j x p)" "same_body p (panel_failed j p)"
  "same_body p (close_end p)" "same_body p (opened p)"
  by (simp_all add: maximize_panel_def restore_panel_def minimize_panel_def resize_panel_def move_panel_def panel_title_def panel_answer_def
      panel_failed_def close_end_def opened_def same_body_def Let_def split: option.split)

lemma same_body_refresh: "same_body p (panel_refresh E u p)"
  by (auto simp: panel_refresh_def Let_def split: option.split) (simp_all add: same_body_def)

lemma body_ends: "body_ok (collapse_end p)" "body_ok (expand_end E p)" "body_told q (collapse_end p)" "body_told q (expand_end E p)"
proof -
  let ?x = "pl_emit PExpand (p\<lparr>pl_body := True, pl_collapsed := False, pl_inner := None\<rparr>)"
  have "same_body ?x (expand_end E p)" by (simp add: expand_end_def) (simp add: same_body_def)
  moreover have "body_ok ?x" "body_told q ?x" by (simp_all add: body_ok_def body_told_def)
  ultimately show "body_ok (expand_end E p)" "body_told q (expand_end E p)" using body_same by simp_all
  show "body_ok (collapse_end p)" "body_told q (collapse_end p)" by (simp_all add: collapse_end_def body_ok_def body_told_def)
qed

lemma stop_inner_body: "body_ok p \<Longrightarrow> body_ok (stop_inner E p)" "body_told q p \<Longrightarrow> body_told q (stop_inner E p)" "pl_inner (stop_inner E p) = None"
proof -
  show "body_ok p \<Longrightarrow> body_ok (stop_inner E p)" "body_told q p \<Longrightarrow> body_told q (stop_inner E p)"
    by (simp_all add: stop_inner_def body_ends split: option.split inner_anim.split)
  show "pl_inner (stop_inner E p) = None"
    by (simp add: stop_inner_def collapse_end_def expand_end_def load_panel_def split: option.split inner_anim.split)
qed

lemma begin_body:
  assumes "pl_inner p = None"
  shows "body_ok p \<Longrightarrow> body_ok (begin_collapse a p)" "body_told q p \<Longrightarrow> body_told q (begin_collapse a p)" "body_ok (begin_expand E a p)" "body_told q (begin_expand E a p)"
  using assms by (simp_all add: begin_collapse_def begin_expand_def body_ends Let_def) (simp_all add: body_ok_def body_told_def)

lemma body_moves:
  "body_ok p \<Longrightarrow> body_ok (collapse_panel E a p)" "body_told q p \<Longrightarrow> body_told q (collapse_panel E a p)"
  "body_ok p \<Longrightarrow> body_ok (expand_panel E a p)" "body_told q p \<Longrightarrow> body_told q (expand_panel E a p)"
  by (simp_all add: collapse_panel_def expand_panel_def stop_inner_body begin_body Let_def)

lemma body_open_end:
  "body_told q p \<Longrightarrow> body_told q (open_end E p)" "body_ok p \<Longrightarrow> pe_before E BeforeCollapse \<Longrightarrow> body_ok (open_end E p)"
proof -
  let ?o = "opened p" and ?c = "opened p\<lparr>pl_collapsed := False\<rparr>"
  have l: "body_ok (load_panel E r) = body_ok r" "body_told q (load_panel E r) = body_told q r" for r
    using body_same [of r "load_panel E r"] same_body_load [of r E r] same_body_refl [of r] by blast+
  have c: "body_told q ?c = body_told q ?o" by (simp add: body_told_def)
  show "body_told q p \<Longrightarrow> body_told q (open_end E p)"
    using body_same(2) [OF same_body_ops(10)] body_moves(2) [of q ?c E False] c by (simp add: open_end_parts l Let_def)
  have "body_ok (collapse_panel E False ?c)" if "pe_before E BeforeCollapse"
    using that by (simp add: collapse_panel_def begin_collapse_def body_ends Let_def)
  then show "body_ok p \<Longrightarrow> pe_before E BeforeCollapse \<Longrightarrow> body_ok (open_end E p)"
    using body_same(1) [OF same_body_ops(10)] by (simp add: open_end_parts l Let_def)
qed

lemma body_outer:
  "body_told q p \<Longrightarrow> body_told q (stop_outer E p)" "body_told q p \<Longrightarrow> body_told q (open_panel E f p)" "body_told q p \<Longrightarrow> body_told q (close_panel E f p)"
  "pe_before E BeforeCollapse \<Longrightarrow> body_ok p \<Longrightarrow> body_ok (stop_outer E p)" "pe_before E BeforeCollapse \<Longrightarrow> body_ok p \<Longrightarrow> body_ok (open_panel E f p)"
  "pe_before E BeforeCollapse \<Longrightarrow> body_ok p \<Longrightarrow> body_ok (close_panel E f p)"
proof -
  have f: "body_told q (r\<lparr>pl_shown := b\<rparr>) = body_told q r" "body_told q (r\<lparr>pl_outer := x\<rparr>) = body_told q r"
    "body_ok (r\<lparr>pl_shown := b\<rparr>) = body_ok r" "body_ok (r\<lparr>pl_outer := x\<rparr>) = body_ok r" for r b x by (simp_all add: body_told_def body_ok_def)
  note e = body_open_end body_same [OF same_body_ops(9)] f
  have s: "body_told q r \<Longrightarrow> body_told q (stop_outer E r)" "pe_before E BeforeCollapse \<Longrightarrow> body_ok r \<Longrightarrow> body_ok (stop_outer E r)" for r
    by (simp_all add: stop_outer_def e split: option.split outer_anim.split)
  show "body_told q p \<Longrightarrow> body_told q (stop_outer E p)" "body_told q p \<Longrightarrow> body_told q (open_panel E f p)" "body_told q p \<Longrightarrow> body_told q (close_panel E f p)"
    "pe_before E BeforeCollapse \<Longrightarrow> body_ok p \<Longrightarrow> body_ok (stop_outer E p)" "pe_before E BeforeCollapse \<Longrightarrow> body_ok p \<Longrightarrow> body_ok (open_panel E f p)"
    "pe_before E BeforeCollapse \<Longrightarrow> body_ok p \<Longrightarrow> body_ok (close_panel E f p)"
    by (simp_all add: open_panel_def begin_open_def close_panel_def begin_close_def s e Let_def)
qed

lemmas body_all = body_outer body_moves stop_inner_body body_same [OF same_body_ops(1)] body_same [OF same_body_ops(2)] body_same [OF same_body_ops(3)]
  body_same [OF same_body_ops(4)] body_same [OF same_body_ops(5)] body_same [OF same_body_ops(6)] body_same [OF same_body_ops(7)]
  body_same [OF same_body_ops(8)] body_same [OF same_body_refresh]

lemma body_step: "body_told p q \<Longrightarrow> body_told p (panel_step E x q)" "pe_before E BeforeCollapse \<Longrightarrow> body_ok q \<Longrightarrow> body_ok (panel_step E x q)"
  by (cases x; simp add: body_all panel_tool_def split: ptool.split)+

text \<open>
  C34: the display follows what is told.  Through any sequence of the operations, animated or not, refused or not, in which the panel is not minimized while its opening is
  animated: the panel is displayed if its opening is animated or the last of its opening, restoring, closing and minimizing that was told is one of the first two; its flags closed,
  minimized and maximized are what the events told last; at rest its body is displayed if an expanding was told after the last collapsing.
  The flags agree with that under conditions: \<open>collapsed\<close> with the body at rest if no collapsing is refused, and \<open>closed\<close> and \<open>minimized\<close> with the panel at rest
  (displayed exactly when it is neither) if it was displayed whenever it was maximized or restored.
\<close>

theorem panel_display:
  assumes "pl_log p = []" and "pl_outer p = None" and "pl_inner p = None" and "along unhurried E xs p" and "q = panel_run E xs p"
  shows "pl_shown q = (pl_outer q = Some Opening \<or> told {POpen, PRestore} {PClose, PMinimize} (pl_shown p) (pl_log q)) \<and>
    pl_closed q = told {PClose} {POpen} (pl_closed p) (pl_log q) \<and>
    pl_minimized q = told {PMinimize} {POpen, PMaximize, PRestore} (pl_minimized p) (pl_log q) \<and>
    pl_maximized q = told {PMaximize} {PRestore, PMinimize} (pl_maximized p) (pl_log q) \<and>
    (pl_inner q = None \<longrightarrow> pl_body q = told {PExpand} {PCollapse} (pl_body p) (pl_log q)) \<and>
    (pe_before E BeforeCollapse \<and> pl_body p = (\<not> pl_collapsed p) \<and> pl_inner q = None \<longrightarrow> pl_body q = (\<not> pl_collapsed q)) \<and>
    (along in_view E xs p \<and> pl_shown p = (\<not> pl_closed p \<and> \<not> pl_minimized p) \<and> pl_outer q = None \<longrightarrow> pl_shown q = (\<not> pl_closed q \<and> \<not> pl_minimized q))"
proof -
  have d: "display_ok p q"
    unfolding assms(5) by (rule along_run [OF assms(4)]) (use assms(1,2) display_step(1) in \<open>simp_all add: display_ok_def\<close>)
  have t: "body_told p q"
    unfolding assms(5) by (rule along_run [OF along_True]) (use assms(1,3) body_step(1) in \<open>simp_all add: body_told_def\<close>)
  have b: "body_ok q" if "pe_before E BeforeCollapse" "pl_body p = (\<not> pl_collapsed p)"
    unfolding assms(5) by (rule along_run [OF along_True]) (use that assms(3) body_step(2) in \<open>simp_all add: body_ok_def\<close>)
  have v: "view_ok q" if "along in_view E xs p" "pl_shown p = (\<not> pl_closed p \<and> \<not> pl_minimized p)"
  proof -
    have "along (\<lambda>x q. unhurried x q \<and> in_view x q) E xs p" using assms(4) that(1) by (simp add: along_both)
    then show ?thesis unfolding assms(5) by (rule along_run) (use that(2) assms(2) display_step(2) in \<open>auto simp: view_ok_def\<close>)
  qed
  show ?thesis using d t b v by (auto simp: display_ok_def body_told_def body_ok_def view_ok_def)
qed

theorem panel_display_witness:
  "let q = panel_run panel_env0 [OpMinimize, OpMaximize, OpClose False, OpCollapsePanel False, OpRestore] panel_defaults
   in pl_shown q \<and> pl_closed q \<and> \<not> pl_minimized q \<and> \<not> pl_maximized q \<and> \<not> pl_body q \<and> pl_collapsed q"
proof -
  let ?xs = "[OpMinimize, OpMaximize, OpClose False, OpCollapsePanel False, OpRestore]"
  have i: "pl_log panel_defaults = []" "pl_outer panel_defaults = None" "pl_inner panel_defaults = None" "along unhurried panel_env0 ?xs panel_defaults"
    by code_simp+
  have f: "pl_log (panel_run panel_env0 ?xs panel_defaults) = [PMinimize, PResize, PMaximize, PClose, PCollapse, PResize, PRestore]"
    "pl_outer (panel_run panel_env0 ?xs panel_defaults) = None" "pl_inner (panel_run panel_env0 ?xs panel_defaults) = None"
    "pe_before panel_env0 BeforeCollapse" "pl_body panel_defaults" "\<not> pl_collapsed panel_defaults" by code_simp+
  from panel_display [OF i refl] f show ?thesis by (auto simp: panel_defaults_def Let_def)
qed

text \<open>
  On a hidden panel the flags go apart from the display: a minimized panel that is maximized stays hidden, and restoring a closed one displays it.  An opening that
  is refused the collapsing clears the flag \<open>collapsed\<close> over a body that is hidden.  Minimized while its opening is animated, a panel stays hidden when it is told to be open.
\<close>

lemma maximize_hidden:
  "let p = maximize_panel (minimize_panel panel_defaults) in \<not> pl_shown p \<and> \<not> pl_closed p \<and> \<not> pl_minimized p"
  "let p = restore_panel (close_panel panel_env0 False (maximize_panel panel_defaults)) in pl_shown p \<and> pl_closed p"
  by code_simp+

lemma refused_collapse:
  "let E = panel_env0\<lparr>pe_before := (\<lambda>v. v \<noteq> BeforeCollapse)\<rparr>; p = open_panel E False (collapse_panel panel_env0 False panel_defaults)
   in \<not> pl_collapsed p \<and> \<not> pl_body p"
  by code_simp

lemma hurried_minimize:
  "let p = stop_outer panel_env0 (minimize_panel (open_panel panel_env0 False (panel_defaults\<lparr>pl_closed := True, pl_shown := False, pl_openAnim := True\<rparr>)))
   in \<not> pl_shown p \<and> \<not> pl_closed p \<and> \<not> pl_minimized p"
  by code_simp

section \<open>A page is asked for once\<close>

definition settled :: "string \<Rightarrow> panel \<Rightarrow> bool" where
  "settled x p \<longleftrightarrow> pl_loaded p \<and> pl_cache p \<and> pl_loads p = [] \<and> pl_html p = x"

lemma settled_fields [simp]:
  "settled x (pl_emit e p) = settled x p" "settled x (p\<lparr>pl_body := b\<rparr>) = settled x p" "settled x (p\<lparr>pl_collapsed := b\<rparr>) = settled x p"
  "settled x (p\<lparr>pl_inner := i\<rparr>) = settled x p" "settled x (p\<lparr>pl_outer := o'\<rparr>) = settled x p" "settled x (p\<lparr>pl_shown := b\<rparr>) = settled x p"
  "settled x (p\<lparr>pl_closed := b\<rparr>) = settled x p" "settled x (p\<lparr>pl_minimized := b\<rparr>) = settled x p" "settled x (p\<lparr>pl_maximized := b\<rparr>) = settled x p"
  "settled x (p\<lparr>pl_expandTool := b\<rparr>) = settled x p" "settled x (p\<lparr>pl_restoreTool := b\<rparr>) = settled x p"
  "settled x (p\<lparr>pl_geom := g\<rparr>) = settled x p" "settled x (p\<lparr>pl_original := m\<rparr>) = settled x p" "settled x (p\<lparr>pl_title := ti\<rparr>) = settled x p"
  by (simp_all add: settled_def pl_emit_def)

lemma settled_load [simp]: "settled x p \<Longrightarrow> settled x (load_panel E p)"
  by (auto simp: settled_def load_panel_def split: option.split)

lemma settled_inner: "settled x p \<Longrightarrow> settled x (stop_inner E p)"
  by (simp add: stop_inner_def collapse_end_def expand_end_def split: option.split inner_anim.split)

lemma settled_collapse: "settled x p \<Longrightarrow> settled x (collapse_panel E a p)"
  using settled_inner by (simp add: collapse_panel_def begin_collapse_def collapse_end_def Let_def)

lemma settled_expand: "settled x p \<Longrightarrow> settled x (expand_panel E a p)"
  using settled_inner by (simp add: expand_panel_def begin_expand_def expand_end_def Let_def)

lemma settled_maximize: "settled x p \<Longrightarrow> settled x (maximize_panel p)"
  by (simp add: maximize_panel_def Let_def)

lemma settled_open_end: "settled x p \<Longrightarrow> settled x (open_end E p)"
  unfolding open_end_def Let_def by (simp add: settled_collapse settled_maximize)

lemma settled_outer: "settled x p \<Longrightarrow> settled x (stop_outer E p)"
  by (simp add: stop_outer_def close_end_def settled_open_end split: option.split outer_anim.split)

lemma settled_step: "settled x p \<Longrightarrow> \<forall>u. y \<noteq> OpRefresh u \<Longrightarrow> settled x (panel_step E y p)"
proof (cases y)
  case (OpAnswer j z)
  then show "settled x p \<Longrightarrow> settled x (panel_step E y p)" by (simp add: settled_def panel_answer_def)
next
  case (OpFailed j)
  then show "settled x p \<Longrightarrow> settled x (panel_step E y p)" by (simp add: settled_def panel_failed_def)
qed (auto simp: open_panel_def begin_open_def close_panel_def begin_close_def close_end_def minimize_panel_def restore_panel_def panel_tool_def
    resize_panel_def move_panel_def panel_title_def
    Let_def settled_collapse settled_expand settled_maximize settled_outer settled_inner settled_open_end split: ptool.split option.split)

text \<open>
  A cached page is asked for once.  When the answer to the only request of a caching panel has come, the panel
  shows it, and keeps showing it without asking again, whatever is done with the panel but \<open>refresh\<close>.
\<close>

theorem panel_loads_once:
  assumes "pl_cache p" and "pl_loads p = [u]" and "\<forall>y\<in>set ys. \<forall>u. y \<noteq> OpRefresh u"
  shows "pl_html (panel_run E ys (panel_answer E 0 x p)) = pe_extract E x \<and> pl_loads (panel_run E ys (panel_answer E 0 x p)) = []"
proof -
  have "settled (pe_extract E x) (panel_answer E 0 x p)"
    using assms(1,2) by (simp add: settled_def panel_answer_def pl_emit_def)
  then have "settled (pe_extract E x) (panel_run E ys (panel_answer E 0 x p))"
    using assms(3) unfolding panel_run_def
  proof (induction ys arbitrary: p rule: rev_induct)
    case (snoc y ys)
    then show ?case using settled_step [of "pe_extract E x" "fold (panel_step E) ys (panel_answer E 0 x p)" y E] by simp
  qed simp
  then show ?thesis by (simp add: settled_def)
qed

theorem panel_loads_once_witness:
  "pl_html (panel_run panel_env0 [OpClose False, OpOpen False] (panel_answer panel_env0 0 ''x'' (panel_create panel_env0 None (panel_defaults\<lparr>pl_href := Some ''/a''\<rparr>)))) = ''x'' \<and>
   pl_loads (panel_run panel_env0 [OpClose False, OpOpen False] (panel_answer panel_env0 0 ''x'' (panel_create panel_env0 None (panel_defaults\<lparr>pl_href := Some ''/a''\<rparr>)))) = []"
proof -
  let ?p = "panel_create panel_env0 None (panel_defaults\<lparr>pl_href := Some ''/a''\<rparr>)"
  have "pl_cache ?p" "pl_loads ?p = [''/a'']" by code_simp+
  from panel_loads_once [OF this, of "[OpClose False, OpOpen False]" panel_env0 "''x''"] show ?thesis by (simp add: panel_env0_def)
qed

end
