(* ===== verification/Tabs.thy ===== *)
theory Tabs
  imports Panel
begin

text \<open>
  The tabs, \<open>js/plugins/jquery.tabs.js\<close>: a list of panels (theory Panel) of which at most one is open, the
  elements of the header that stand for them, and the history of selections.

  A tab is its panel and its \<open>li\<close>; both are found again by the position in one list.  The container can
  be hidden by what surrounds it, which \<open>is(":visible")\<close> sees.  The panels are not animated; tools,
  icons, sizes and the scrolling of the header are left out.
\<close>

section \<open>State\<close>

record tab =
  tb_id :: nat
  tb_panel :: panel
  tb_selected :: bool
  tb_disabled :: bool
  tb_closable :: bool
  tb_link :: bool
  tb_text :: "string option"
  tb_want :: bool

datatype tabs_event =
    TsSelect "string option" nat | TsUnselect "string option" nat | TsAdd "string option" nat | TsClose "string option" nat
  | TsUpdate "string option" nat | TsMenu "string option" nat

record tabs =
  ts_tabs :: "tab list"
  ts_his :: "string option list"
  ts_next :: nat
  ts_shown :: bool
  ts_selectedOpt :: int
  ts_log :: "tabs_event list"

definition tabs_defaults :: tabs where
  "tabs_defaults = \<lparr>ts_tabs = [], ts_his = [], ts_next = 0, ts_shown = True, ts_selectedOpt = 0, ts_log = []\<rparr>"

text \<open>What can refuse: the callbacks of the panel of each tab, and \<open>onBeforeClose\<close> of the tabs.\<close>

record tabs_env =
  se_panel :: "nat \<Rightarrow> panel_env"
  se_close :: "string option \<Rightarrow> nat \<Rightarrow> bool"

definition tabs_env0 :: tabs_env where
  "tabs_env0 = \<lparr>se_panel = (\<lambda>_. panel_env0), se_close = (\<lambda>_ _. True)\<rparr>"

definition ts_emit :: "tabs_event \<Rightarrow> tabs \<Rightarrow> tabs" where
  "ts_emit e s = s\<lparr>ts_log := ts_log s @ [e]\<rparr>"

section \<open>Finding: \<open>_61\<close>, \<open>_4a\<close>, \<open>_24\<close>, \<open>_60\<close>\<close>

datatype tab_key = ByIndex int | ByTitle "string option"

definition tab_title :: "tab \<Rightarrow> string option" where
  "tab_title t = pl_title (tb_panel t)"

definition find_tab :: "tab_key \<Rightarrow> tabs \<Rightarrow> nat option" where
  "find_tab k s =
     (case k of
        ByIndex i \<Rightarrow> if i < 0 \<or> int (length (ts_tabs s)) \<le> i then None else Some (nat i)
      | ByTitle x \<Rightarrow> index_where (\<lambda>t. tab_title t = x) (ts_tabs s))"

definition tab_index :: "nat \<Rightarrow> tabs \<Rightarrow> int" where
  "tab_index d s = (case index_where (\<lambda>t. tb_id t = d) (ts_tabs s) of None \<Rightarrow> -1 | Some i \<Rightarrow> int i)"

definition selected_tab :: "tabs \<Rightarrow> nat option" where
  "selected_tab s = index_where tb_selected (ts_tabs s)"

definition tab_exists :: "tab_key \<Rightarrow> tabs \<Rightarrow> bool" where
  "tab_exists k s \<longleftrightarrow> find_tab k s \<noteq> None"

definition upd_tab :: "nat \<Rightarrow> (tab \<Rightarrow> tab) \<Rightarrow> tabs \<Rightarrow> tabs" where
  "upd_tab i f s = s\<lparr>ts_tabs := (ts_tabs s)[i := f (ts_tabs s ! i)]\<rparr>"

definition on_panel :: "(panel \<Rightarrow> panel) \<Rightarrow> tab \<Rightarrow> tab" where
  "on_panel f t = t\<lparr>tb_panel := f (tb_panel t)\<rparr>"

definition tab_visible :: "tabs \<Rightarrow> tab \<Rightarrow> bool" where
  "tab_visible s t \<longleftrightarrow> ts_shown s \<and> pl_shown (tb_panel t) \<and> pl_body (tb_panel t)"

definition tabs_options :: "tabs \<Rightarrow> tabs" where
  "tabs_options s = s\<lparr>ts_selectedOpt := (case selected_tab s of None \<Rightarrow> -1 | Some i \<Rightarrow> int i)\<rparr>"

section \<open>Selecting: \<open>_50\<close>, \<open>_74\<close> and the callbacks of the panels in \<open>_3c\<close>\<close>

definition close_at :: "tabs_env \<Rightarrow> nat \<Rightarrow> tabs \<Rightarrow> tabs" where
  "close_at E i s =
     (let t = ts_tabs s ! i; P = se_panel E (tb_id t) in
      if \<not> pe_before P BeforeClose then s
      else ts_emit (TsUnselect (tab_title t) i) (upd_tab i (\<lambda>t. on_panel (begin_close P) (t\<lparr>tb_selected := False\<rparr>)) s))"

definition unselect_tab :: "tabs_env \<Rightarrow> tab_key \<Rightarrow> tabs \<Rightarrow> tabs" where
  "unselect_tab E k s =
     (case find_tab k s of None \<Rightarrow> s | Some i \<Rightarrow> if tab_visible s (ts_tabs s ! i) then close_at E i s else s)"

text \<open>The header element is marked and scrolled into view (which stores the option \<open>selected\<close>) before the panel is shown.\<close>

definition show_at :: "tabs_env \<Rightarrow> nat \<Rightarrow> tabs \<Rightarrow> tabs" where
  "show_at E i s =
     (let t = ts_tabs s ! i;
          s = tabs_options (upd_tab i (\<lambda>t. t\<lparr>tb_selected := True\<rparr>) s);
          s = upd_tab i (on_panel (begin_open (se_panel E (tb_id t)))) s
      in ts_emit (TsSelect (tab_title t) i) (s\<lparr>ts_his := ts_his s @ [tab_title t]\<rparr>))"

definition open_at :: "tabs_env \<Rightarrow> nat \<Rightarrow> tabs \<Rightarrow> tabs" where
  "open_at E i s =
     (if \<not> pe_before (se_panel E (tb_id (ts_tabs s ! i))) BeforeOpen then s
      else
        case selected_tab s of
          None \<Rightarrow> show_at E i s
        | Some j \<Rightarrow>
            if j = i then s
            else let s = unselect_tab E (ByIndex (int j)) s in if selected_tab s \<noteq> None then s else show_at E i s)"

definition select_tab :: "tabs_env \<Rightarrow> tab_key \<Rightarrow> tabs \<Rightarrow> tabs" where
  "select_tab E k s =
     (case find_tab k s of None \<Rightarrow> s | Some i \<Rightarrow> if tab_visible s (ts_tabs s ! i) then s else open_at E i s)"

section \<open>Adding: \<open>_3c\<close> and \<open>_4b\<close>\<close>

record tab_spec =
  sp_title :: "string option"
  sp_index :: "int option"
  sp_selected :: "bool option"
  sp_closable :: bool
  sp_collapsible :: bool
  sp_href :: "string option"
  sp_content :: "string option"

definition tab_place :: "tab_spec \<Rightarrow> tabs \<Rightarrow> nat" where
  "tab_place o' s =
     (case sp_index o' of
        None \<Rightarrow> length (ts_tabs s)
      | Some i \<Rightarrow> if int (length (ts_tabs s)) < i then length (ts_tabs s) else if i < 0 then 0 else nat i)"

definition new_tab :: "tabs_env \<Rightarrow> tab_spec \<Rightarrow> bool \<Rightarrow> nat \<Rightarrow> tab" where
  "new_tab E o' want d =
     \<lparr>tb_id = d,
      tb_panel = panel_create (se_panel E d) (sp_content o')
        (panel_defaults\<lparr>pl_title := sp_title o', pl_collapsible := sp_collapsible o', pl_href := sp_href o', pl_noheader := True,
           pl_closed := True, pl_doSize := False\<rparr>),
      tb_selected = False, tb_disabled = False, tb_closable = sp_closable o', tb_link = sp_closable o', tb_text = sp_title o', tb_want = want\<rparr>"

definition put_tab :: "tabs_env \<Rightarrow> tab_spec \<Rightarrow> bool \<Rightarrow> tabs \<Rightarrow> tabs" where
  "put_tab E o' want s =
     (let k = tab_place o' s
      in ts_emit (TsUpdate (sp_title o') k)
           (s\<lparr>ts_tabs := splice_ins k (new_tab E o' want (ts_next s)) (ts_tabs s), ts_next := Suc (ts_next s)\<rparr>))"

definition add_tab :: "tabs_env \<Rightarrow> tab_spec \<Rightarrow> tabs \<Rightarrow> tabs" where
  "add_tab E o' s =
     (let want = (case sp_selected o' of None \<Rightarrow> True | Some b \<Rightarrow> b); k = tab_place o' s;
          s = ts_emit (TsAdd (sp_title o') k) (put_tab E o' want s)
      in if want then select_tab E (ByIndex (int k)) s else s)"

section \<open>Updating: \<open>_51\<close>\<close>

text \<open>
  The body is drawn again for the type \<open>all\<close> only (the test for \<open>body\<close> compares the wrong thing), and
  without the header part the callback at the end reads a property of \<open>undefined\<close>, which throws.
\<close>

datatype tab_part = AllParts | HeaderPart | BodyPart

record tab_change =
  tc_title :: "string option option"
  tc_closable :: "bool option"
  tc_content :: "string option"

definition change_panel :: "tabs_env \<Rightarrow> tab_change \<Rightarrow> nat \<Rightarrow> tabs \<Rightarrow> tabs" where
  "change_panel E c i s =
     (let s = upd_tab i (\<lambda>t. on_panel (\<lambda>p. draw_panel (tc_content c)
            (p\<lparr>pl_title := (case tc_title c of None \<Rightarrow> pl_title p | Some x \<Rightarrow> x), pl_loaded := False\<rparr>))
            (t\<lparr>tb_closable := (case tc_closable c of None \<Rightarrow> tb_closable t | Some b \<Rightarrow> b)\<rparr>)) s;
          p = tb_panel (ts_tabs s ! i)
      in if pl_closed p \<or> pl_minimized p then upd_tab i (on_panel (\<lambda>p. p\<lparr>pl_shown := False\<rparr>)) s else open_at E i s)"

definition update_header :: "string option \<Rightarrow> nat \<Rightarrow> tabs \<Rightarrow> tabs" where
  "update_header old i s =
     (let t = ts_tabs s ! i; s = upd_tab i (\<lambda>t. t\<lparr>tb_text := tab_title t, tb_link := tb_closable t\<rparr>) s
      in if old = tab_title t then s else s\<lparr>ts_his := map (\<lambda>x. if x = old then tab_title t else x) (ts_his s)\<rparr>)"

definition update_tab :: "tabs_env \<Rightarrow> tab_part \<Rightarrow> tab_change \<Rightarrow> nat \<Rightarrow> tabs \<Rightarrow> tabs option" where
  "update_tab E part c i s =
     (let old = tab_title (ts_tabs s ! i); s = (if part = AllParts then change_panel E c i s else s) in
      if part = BodyPart then None
      else let s = update_header old i s in Some (ts_emit (TsUpdate (tab_title (ts_tabs s ! i)) i) s))"

section \<open>Closing: \<open>_5a\<close>\<close>

definition after_close :: "tabs_env \<Rightarrow> string option \<Rightarrow> tabs \<Rightarrow> tabs" where
  "after_close E title s =
     (let his = filter (\<lambda>x. x \<noteq> title) (ts_his s); s = s\<lparr>ts_his := butlast his\<rparr> in
      if his \<noteq> [] \<and> last his \<noteq> None \<and> last his \<noteq> Some [] then select_tab E (ByTitle (last his)) s
      else if ts_tabs s \<noteq> [] then select_tab E (ByIndex 0) s else s)"

definition close_tab :: "tabs_env \<Rightarrow> tab_key \<Rightarrow> tabs \<Rightarrow> tabs" where
  "close_tab E k s =
     (case find_tab k s of
        None \<Rightarrow> s
      | Some i \<Rightarrow>
          let title = tab_title (ts_tabs s ! i) in
          if \<not> se_close E title i then s
          else after_close E title (ts_emit (TsClose title i) (s\<lparr>ts_tabs := splice_del i (ts_tabs s)\<rparr>)))"

section \<open>The header: \<open>_2e\<close>, and the rest of the methods\<close>

definition click_tab :: "tabs_env \<Rightarrow> bool \<Rightarrow> nat \<Rightarrow> tabs \<Rightarrow> tabs" where
  "click_tab E on_close i s =
     (let t = ts_tabs s ! i in
      if tb_disabled t then s
      else if on_close then close_tab E (ByIndex (int i)) s
      else if pl_collapsible (tb_panel t) then
        (if pl_closed (tb_panel t) then select_tab E (ByIndex (int i)) s else unselect_tab E (ByIndex (int i)) s)
      else select_tab E (ByIndex (int i)) s)"

definition menu_tab :: "nat \<Rightarrow> tabs \<Rightarrow> tabs" where
  "menu_tab i s = (let t = ts_tabs s ! i in if tb_disabled t then s else ts_emit (TsMenu (tb_text t) i) s)"

definition enable_tab :: "bool \<Rightarrow> tab_key \<Rightarrow> tabs \<Rightarrow> tabs option" where
  "enable_tab b k s = map_option (\<lambda>i. upd_tab i (\<lambda>t. t\<lparr>tb_disabled := \<not> b\<rparr>) s) (find_tab k s)"

definition tabs_initial :: "tabs_env \<Rightarrow> tabs \<Rightarrow> tabs" where
  "tabs_initial E s =
     (case index_where tb_want (ts_tabs s) of
        Some i \<Rightarrow> select_tab E (ByIndex (int i)) s
      | None \<Rightarrow> select_tab E (ByIndex (ts_selectedOpt s)) s)"

text \<open>\<open>$.fn.tabs\<close> over markup: the panels in order, those with the attribute \<open>selected\<close> wanted.\<close>

definition tabs_create :: "tabs_env \<Rightarrow> tab_spec list \<Rightarrow> int \<Rightarrow> tabs" where
  "tabs_create E os k =
     tabs_initial E (fold (\<lambda>o' s. put_tab E o' (sp_selected o' = Some True) s) os (tabs_defaults\<lparr>ts_selectedOpt := k\<rparr>))"

section \<open>One tab is open\<close>

definition resting :: "panel \<Rightarrow> bool" where
  "resting p \<longleftrightarrow> pl_shown p = (\<not> pl_closed p \<and> \<not> pl_minimized p) \<and> pl_outer p = None \<and> \<not> pl_openAnim p \<and> \<not> pl_closeAnim p"

definition still :: "panel \<Rightarrow> bool" where
  "still p \<longleftrightarrow> resting p \<and> pl_body p \<and> \<not> pl_collapsed p \<and> \<not> pl_minimized p \<and> \<not> pl_maximized p \<and> \<not> pl_restoreTool p \<and> pl_inner p = None"

definition tab_ok :: "tab \<Rightarrow> bool" where
  "tab_ok t \<longleftrightarrow> still (tb_panel t) \<and> tb_selected t = (\<not> pl_closed (tb_panel t))"

definition one_selected :: "tab list \<Rightarrow> bool" where
  "one_selected ts \<longleftrightarrow> (\<forall>i<length ts. \<forall>j<length ts. tb_selected (ts ! i) \<and> tb_selected (ts ! j) \<longrightarrow> i = j)"

definition tabs_ok :: "tabs \<Rightarrow> bool" where
  "tabs_ok s \<longleftrightarrow> (\<forall>t\<in>set (ts_tabs s). tab_ok t) \<and> one_selected (ts_tabs s)"

lemma load_panel_fields [simp]:
  "pl_title (load_panel E p) = pl_title p" "pl_closed (load_panel E p) = pl_closed p" "pl_collapsible (load_panel E p) = pl_collapsible p"
  "still (load_panel E p) = still p" "pl_shown (load_panel E p) = pl_shown p" "pl_body (load_panel E p) = pl_body p"
  by (auto simp: load_panel_def still_def resting_def split: option.split)

lemma still_open:
  assumes "still p"
  shows "still (begin_open E p)" and "\<not> pl_closed (begin_open E p)" and "pl_title (begin_open E p) = pl_title p"
    and "pl_shown (begin_open E p)" and "pl_body (begin_open E p)" and "pl_collapsible (begin_open E p) = pl_collapsible p"
proof -
  define q where "q = pl_emit POpen (p\<lparr>pl_shown := True, pl_outer := None, pl_closed := False, pl_minimized := False\<rparr>)"
  have o: "begin_open E p = load_panel E q"
    using assms by (simp add: q_def begin_open_def stop_outer_def open_end_def still_def resting_def pl_emit_def Let_def)
  have "still q" using assms by (simp add: q_def still_def resting_def pl_emit_def)
  then show "still (begin_open E p)" unfolding o by simp
  have q: "\<not> pl_closed q" "pl_title q = pl_title p" "pl_shown q" "pl_body q" "pl_collapsible q = pl_collapsible p"
    using assms by (simp_all add: q_def pl_emit_def still_def)
  then show "\<not> pl_closed (begin_open E p)" "pl_title (begin_open E p) = pl_title p"
    "pl_shown (begin_open E p)" "pl_body (begin_open E p)" "pl_collapsible (begin_open E p) = pl_collapsible p"
    unfolding o by simp_all
qed

lemma still_close:
  assumes "still p"
  shows "still (begin_close E p)" and "pl_closed (begin_close E p)" and "pl_title (begin_close E p) = pl_title p"
  using assms by (simp_all add: begin_close_def stop_outer_def close_end_def still_def resting_def pl_emit_def Let_def)

lemma still_shown: "still p \<Longrightarrow> pl_shown p = (\<not> pl_closed p)"
  by (simp add: still_def resting_def)

lemma selected_None: "selected_tab s = None \<longleftrightarrow> (\<forall>t\<in>set (ts_tabs s). \<not> tb_selected t)"
  by (simp add: selected_tab_def index_where_None)

lemma selected_Some: "selected_tab s = Some i \<Longrightarrow> i < length (ts_tabs s) \<and> tb_selected (ts_tabs s ! i)"
  by (auto simp: selected_tab_def dest: index_where_Some)

lemma one_selected_eq: "one_selected (ts_tabs s) \<Longrightarrow> i < length (ts_tabs s) \<Longrightarrow> tb_selected (ts_tabs s ! i) \<Longrightarrow> selected_tab s = Some i"
proof -
  assume a: "one_selected (ts_tabs s)" "i < length (ts_tabs s)" "tb_selected (ts_tabs s ! i)"
  then obtain j where j: "selected_tab s = Some j" using selected_None [of s] nth_mem [OF a(2)] by (cases "selected_tab s") auto
  with selected_Some [OF j] a show ?thesis by (auto simp: one_selected_def)
qed

lemma ts_emit_fields [simp]:
  "ts_tabs (ts_emit e s) = ts_tabs s" "ts_his (ts_emit e s) = ts_his s" "ts_shown (ts_emit e s) = ts_shown s" "ts_next (ts_emit e s) = ts_next s"
  "selected_tab (ts_emit e s) = selected_tab s"
  by (simp_all add: ts_emit_def selected_tab_def)

lemma tabs_options_fields [simp]:
  "ts_tabs (tabs_options s) = ts_tabs s" "ts_his (tabs_options s) = ts_his s" "ts_shown (tabs_options s) = ts_shown s"
  "selected_tab (tabs_options s) = selected_tab s" "ts_next (tabs_options s) = ts_next s"
  by (simp_all add: tabs_options_def selected_tab_def)

lemma upd_tab_fields [simp]:
  "ts_tabs (upd_tab i f s) = (ts_tabs s)[i := f (ts_tabs s ! i)]" "ts_his (upd_tab i f s) = ts_his s" "ts_shown (upd_tab i f s) = ts_shown s"
  "ts_next (upd_tab i f s) = ts_next s"
  by (simp_all add: upd_tab_def)

lemma find_tab_bound: "find_tab k s = Some i \<Longrightarrow> i < length (ts_tabs s)"
  by (auto simp: find_tab_def split: tab_key.splits if_splits dest: index_where_Some)

lemma find_tab_index [simp]: "i < length (ts_tabs s) \<Longrightarrow> find_tab (ByIndex (int i)) s = Some i"
  by (simp add: find_tab_def)

text \<open>The list after a tab was opened or closed.\<close>

lemma close_at_tabs:
  assumes "pe_before (se_panel E (tb_id (ts_tabs s ! i))) BeforeClose"
  shows "ts_tabs (close_at E i s) = (ts_tabs s)[i := on_panel (begin_close (se_panel E (tb_id (ts_tabs s ! i)))) ((ts_tabs s ! i)\<lparr>tb_selected := False\<rparr>)]"
    and "ts_his (close_at E i s) = ts_his s" and "ts_shown (close_at E i s) = ts_shown s"
  using assms by (simp_all add: close_at_def Let_def)

lemma show_at_tabs:
  assumes "i < length (ts_tabs s)"
  shows "ts_tabs (show_at E i s) = (ts_tabs s)[i := on_panel (begin_open (se_panel E (tb_id (ts_tabs s ! i)))) ((ts_tabs s ! i)\<lparr>tb_selected := True\<rparr>)]"
    and "ts_his (show_at E i s) = ts_his s @ [tab_title (ts_tabs s ! i)]" and "ts_shown (show_at E i s) = ts_shown s"
  using assms by (simp_all add: show_at_def Let_def)

lemma tabs_okD: "tabs_ok s \<Longrightarrow> i < length (ts_tabs s) \<Longrightarrow> tab_ok (ts_tabs s ! i)"
  by (simp add: tabs_ok_def)

lemma tabs_ok_eq: "ts_tabs t = ts_tabs s \<Longrightarrow> tabs_ok t = tabs_ok s"
  by (simp add: tabs_ok_def)

lemma close_at_ok:
  assumes "tabs_ok s" and "i < length (ts_tabs s)"
  shows "tabs_ok (close_at E i s)"
proof (cases "pe_before (se_panel E (tb_id (ts_tabs s ! i))) BeforeClose")
  case False
  with assms show ?thesis by (simp add: close_at_def Let_def)
next
  case True
  let ?t = "on_panel (begin_close (se_panel E (tb_id (ts_tabs s ! i)))) ((ts_tabs s ! i)\<lparr>tb_selected := False\<rparr>)"
  have "tab_ok ?t" using tabs_okD [OF assms] still_close by (simp add: tab_ok_def on_panel_def)
  moreover have "\<not> tb_selected ?t" by (simp add: on_panel_def)
  moreover have "one_selected ((ts_tabs s)[i := t])" if "\<not> tb_selected t" for t
    using assms that by (auto simp: tabs_ok_def one_selected_def nth_list_update split: if_splits)
  ultimately show ?thesis
    using assms set_update_subset_insert [of "ts_tabs s" i ?t] unfolding tabs_ok_def close_at_tabs [where E = E, OF True] by blast
qed

lemma show_at_ok:
  assumes "tabs_ok s" and "i < length (ts_tabs s)" and "selected_tab s = None"
  shows "tabs_ok (show_at E i s)" and "selected_tab (show_at E i s) = Some i"
proof -
  let ?t = "on_panel (begin_open (se_panel E (tb_id (ts_tabs s ! i)))) ((ts_tabs s ! i)\<lparr>tb_selected := True\<rparr>)"
  have "tab_ok ?t" using tabs_okD [OF assms(1,2)] still_open by (simp add: tab_ok_def on_panel_def)
  moreover have n: "\<not> tb_selected (ts_tabs s ! j)" if "j < length (ts_tabs s)" for j
    using assms(3) that unfolding selected_None by simp
  have "one_selected ((ts_tabs s)[i := ?t])"
    unfolding one_selected_def using n assms(2) by (auto simp: nth_list_update split: if_splits)
  ultimately show ok: "tabs_ok (show_at E i s)"
    using assms(1) set_update_subset_insert [of "ts_tabs s" i ?t] unfolding tabs_ok_def show_at_tabs [OF assms(2)] by blast
  have "tb_selected (ts_tabs (show_at E i s) ! i)" unfolding show_at_tabs [OF assms(2)] using assms(2) by (simp add: on_panel_def)
  moreover have "i < length (ts_tabs (show_at E i s))" using assms(2) by (simp add: show_at_tabs)
  ultimately show "selected_tab (show_at E i s) = Some i"
    using ok one_selected_eq unfolding tabs_ok_def by blast
qed

lemma unselect_ok: "tabs_ok s \<Longrightarrow> tabs_ok (unselect_tab E k s)"
  by (auto simp: unselect_tab_def close_at_ok find_tab_bound split: option.split)

lemma unselect_length [simp]: "length (ts_tabs (unselect_tab E k s)) = length (ts_tabs s)"
  by (simp add: unselect_tab_def close_at_def Let_def split: option.split)

lemma open_at_ok: "tabs_ok s \<Longrightarrow> i < length (ts_tabs s) \<Longrightarrow> tabs_ok (open_at E i s)"
  unfolding open_at_def by (auto simp: show_at_ok unselect_ok Let_def split: option.split)

lemma select_ok: "tabs_ok s \<Longrightarrow> tabs_ok (select_tab E k s)"
  by (auto simp: select_tab_def open_at_ok find_tab_bound split: option.split)

lemma new_tab_ok: "tab_ok (new_tab E o' w d)" "\<not> tb_selected (new_tab E o' w d)"
  by (simp_all add: new_tab_def tab_ok_def panel_create_def draw_panel_def settle_panel_def panel_defaults_def still_def resting_def Let_def split: option.split)

lemma one_selected_filter: "one_selected ts \<longleftrightarrow> length (filter tb_selected ts) \<le> 1"
proof
  assume o: "one_selected ts"
  show "length (filter tb_selected ts) \<le> 1"
  proof (rule ccontr)
    assume "\<not> length (filter tb_selected ts) \<le> 1"
    then have l: "1 < card {i. i < length ts \<and> tb_selected (ts ! i)}" by (simp add: length_filter_conv_card)
    then obtain i where "i \<in> {i. i < length ts \<and> tb_selected (ts ! i)}" by (metis card.empty all_not_in_conv not_less_zero)
    then have "{i. i < length ts \<and> tb_selected (ts ! i)} = {i}" using o by (auto simp: one_selected_def)
    with l show False by simp
  qed
next
  assume "length (filter tb_selected ts) \<le> 1"
  then have l: "card {i. i < length ts \<and> tb_selected (ts ! i)} \<le> 1" by (simp add: length_filter_conv_card)
  have "finite {i. i < length ts \<and> tb_selected (ts ! i)}" by simp
  with l show "one_selected ts" unfolding one_selected_def by (metis (mono_tags, lifting) card_le_Suc0_iff_eq One_nat_def mem_Collect_eq)
qed

lemma one_selected_ins: "one_selected ts \<Longrightarrow> \<not> tb_selected t \<Longrightarrow> one_selected (splice_ins k t ts)"
proof -
  assume "one_selected ts" "\<not> tb_selected t"
  moreover have "filter tb_selected ts = filter tb_selected (take k ts) @ filter tb_selected (drop k ts)"
    by (metis append_take_drop_id filter_append)
  ultimately show ?thesis by (simp add: one_selected_filter splice_ins_def)
qed

lemma one_selected_del: "one_selected ts \<Longrightarrow> one_selected (splice_del k ts)"
proof -
  assume "one_selected ts"
  moreover have "filter tb_selected ts = filter tb_selected (take k ts) @ filter tb_selected (drop k ts)"
    by (metis append_take_drop_id filter_append)
  moreover have "length (filter tb_selected (drop (Suc k) ts)) \<le> length (filter tb_selected (drop k ts))"
    by (cases "k < length ts") (simp_all add: Cons_nth_drop_Suc [symmetric])
  ultimately show ?thesis by (simp add: one_selected_filter splice_del_def)
qed

lemma put_tab_ok: "tabs_ok s \<Longrightarrow> tabs_ok (put_tab E o' w s)"
  unfolding tabs_ok_def put_tab_def Let_def by (simp add: new_tab_ok one_selected_ins)

lemma add_tab_ok: "tabs_ok s \<Longrightarrow> tabs_ok (add_tab E o' s)"
  unfolding add_tab_def Let_def using put_tab_ok tabs_ok_eq [of "ts_emit e s" s for e s]
  by (simp add: select_ok split: option.split)

lemma after_close_ok: "tabs_ok s \<Longrightarrow> tabs_ok (after_close E x s)"
  using tabs_ok_eq [of "s\<lparr>ts_his := h\<rparr>" s for h] by (auto simp: after_close_def select_ok Let_def)

lemma close_tab_ok: "tabs_ok s \<Longrightarrow> tabs_ok (close_tab E k s)"
proof -
  assume s: "tabs_ok s"
  have "tabs_ok (ts_emit e (s\<lparr>ts_tabs := splice_del i (ts_tabs s)\<rparr>))" for e i
    using s set_splice_del_subset [of i "ts_tabs s"] one_selected_del unfolding tabs_ok_def by (simp add: subset_iff)
  with s show ?thesis by (auto simp: close_tab_def after_close_ok Let_def split: option.split)
qed

text \<open>
  Every step of the widget: its methods, the clicks on its header, and the container being hidden or
  displayed by what surrounds it.
\<close>

datatype tabs_op =
    SelectTab tab_key | UnselectTab tab_key | AddTab tab_spec | CloseTab tab_key | UpdateTab tab_part tab_change nat
  | ClickTab bool nat | EnableTab bool tab_key | TabsInitial | ShowContainer bool

definition tabs_step :: "tabs_env \<Rightarrow> tabs_op \<Rightarrow> tabs \<Rightarrow> tabs option" where
  "tabs_step E x s =
     (case x of
        SelectTab k \<Rightarrow> Some (select_tab E k s)
      | UnselectTab k \<Rightarrow> Some (unselect_tab E k s)
      | AddTab o' \<Rightarrow> Some (add_tab E o' s)
      | CloseTab k \<Rightarrow> Some (close_tab E k s)
      | UpdateTab part c i \<Rightarrow> if i < length (ts_tabs s) then update_tab E part c i s else None
      | ClickTab b i \<Rightarrow> if i < length (ts_tabs s) then Some (click_tab E b i s) else Some s
      | EnableTab b k \<Rightarrow> enable_tab b k s
      | TabsInitial \<Rightarrow> Some (tabs_initial E s)
      | ShowContainer b \<Rightarrow> Some (s\<lparr>ts_shown := b\<rparr>))"

text \<open>A step that throws leaves the widget where it is.\<close>

definition tabs_run :: "tabs_env \<Rightarrow> tabs_op list \<Rightarrow> tabs \<Rightarrow> tabs" where
  "tabs_run E xs s = fold (\<lambda>x s. case tabs_step E x s of None \<Rightarrow> s | Some t \<Rightarrow> t) xs s"

lemma one_selected_upd: "i < length ts \<Longrightarrow> tb_selected t = tb_selected (ts ! i) \<Longrightarrow> one_selected (ts[i := t]) = one_selected ts"
  by (auto simp: one_selected_def nth_list_update)

lemma upd_tab_ok:
  assumes "tabs_ok s" and "i < length (ts_tabs s)" and "tab_ok (f (ts_tabs s ! i))" and "tb_selected (f (ts_tabs s ! i)) = tb_selected (ts_tabs s ! i)"
  shows "tabs_ok (upd_tab i f s)"
  using assms set_update_subset_insert [of "ts_tabs s" i "f (ts_tabs s ! i)"]
  by (auto simp: tabs_ok_def one_selected_upd)

lemma update_header_ok: "tabs_ok s \<Longrightarrow> i < length (ts_tabs s) \<Longrightarrow> tabs_ok (update_header old i s)"
proof -
  assume s: "tabs_ok s" "i < length (ts_tabs s)"
  have "tabs_ok (upd_tab i (\<lambda>t. t\<lparr>tb_text := x, tb_link := b\<rparr>) s)" for x b
    by (rule upd_tab_ok [OF s]) (use tabs_okD [OF s] in \<open>simp_all add: tab_ok_def\<close>)
  then have "tabs_ok (upd_tab i (\<lambda>t. t\<lparr>tb_text := tab_title t, tb_link := tb_closable t\<rparr>) s)" by (simp add: upd_tab_def)
  then show ?thesis using tabs_ok_eq [of "t\<lparr>ts_his := h\<rparr>" t for t h] by (simp add: update_header_def Let_def)
qed

lemma change_panel_ok: "tabs_ok s \<Longrightarrow> i < length (ts_tabs s) \<Longrightarrow> tabs_ok (change_panel E c i s)"
proof -
  assume s: "tabs_ok s" "i < length (ts_tabs s)"
  define f where "f = (\<lambda>t. on_panel (\<lambda>p. draw_panel (tc_content c)
            (p\<lparr>pl_title := (case tc_title c of None \<Rightarrow> pl_title p | Some x \<Rightarrow> x), pl_loaded := False\<rparr>))
            (t\<lparr>tb_closable := (case tc_closable c of None \<Rightarrow> tb_closable t | Some b \<Rightarrow> b)\<rparr>))"
  have "still (draw_panel x (p\<lparr>pl_title := y, pl_loaded := b\<rparr>)) \<and> pl_closed (draw_panel x (p\<lparr>pl_title := y, pl_loaded := b\<rparr>)) = pl_closed p"
    if "still p" for x y b p
    using that by (simp add: draw_panel_def still_def resting_def Let_def split: option.split)
  then have "tab_ok (f (ts_tabs s ! i)) \<and> tb_selected (f (ts_tabs s ! i)) = tb_selected (ts_tabs s ! i)"
    using tabs_okD [OF s] by (simp add: f_def tab_ok_def on_panel_def)
  then have u: "tabs_ok (upd_tab i f s)" by (intro upd_tab_ok [OF s]) simp_all
  let ?u = "upd_tab i f s"
  have i: "i < length (ts_tabs ?u)" using s(2) by simp
  have c: "change_panel E c i s = (let p = tb_panel (ts_tabs ?u ! i)
      in if pl_closed p \<or> pl_minimized p then upd_tab i (on_panel (\<lambda>p. p\<lparr>pl_shown := False\<rparr>)) ?u else open_at E i ?u)"
    by (simp only: change_panel_def f_def Let_def)
  show ?thesis
  proof (cases "pl_closed (tb_panel (ts_tabs ?u ! i)) \<or> pl_minimized (tb_panel (ts_tabs ?u ! i))")
    case True
    then have "tabs_ok (upd_tab i (on_panel (\<lambda>p. p\<lparr>pl_shown := False\<rparr>)) ?u)"
      by (intro upd_tab_ok [OF u i]) (use tabs_okD [OF u i] in \<open>auto simp: tab_ok_def on_panel_def still_def resting_def\<close>)
    with True show ?thesis unfolding c by (simp only: Let_def if_True)
  next
    case False
    then show ?thesis unfolding c Let_def using open_at_ok [OF u i] by simp
  qed
qed

lemma open_at_length [simp]: "length (ts_tabs (open_at E i s)) = length (ts_tabs s)"
  by (simp add: open_at_def show_at_def Let_def split: option.split)

lemma change_panel_length [simp]: "length (ts_tabs (change_panel E c i s)) = length (ts_tabs s)"
  by (simp add: change_panel_def Let_def)

lemma tabs_step_ok:
  assumes "tabs_ok s" and "tabs_step E x s = Some t"
  shows "tabs_ok t"
proof (cases x)
  case (UpdateTab part c i)
  then have i: "i < length (ts_tabs s)" and u: "update_tab E part c i s = Some t" using assms(2) by (auto simp: tabs_step_def split: if_splits)
  let ?s = "if part = AllParts then change_panel E c i s else s"
  have "tabs_ok ?s" "i < length (ts_tabs ?s)" using assms(1) i change_panel_ok by simp_all
  from update_header_ok [OF this] have "tabs_ok (update_header (tab_title (ts_tabs s ! i)) i ?s)" .
  moreover have "t = ts_emit (TsUpdate (tab_title (ts_tabs (update_header (tab_title (ts_tabs s ! i)) i ?s) ! i)) i)
      (update_header (tab_title (ts_tabs s ! i)) i ?s)"
    using u by (simp add: update_tab_def Let_def split: if_splits)
  ultimately show ?thesis using tabs_ok_eq ts_emit_fields(1) by metis
next
  case (EnableTab b k)
  then obtain i where i: "find_tab k s = Some i" and t: "t = upd_tab i (\<lambda>t. t\<lparr>tb_disabled := \<not> b\<rparr>) s"
    using assms(2) by (auto simp: tabs_step_def enable_tab_def)
  note ib = find_tab_bound [OF i]
  show ?thesis unfolding t by (rule upd_tab_ok [OF assms(1) ib]) (use tabs_okD [OF assms(1) ib] in \<open>simp_all add: tab_ok_def\<close>)
next
  case (ShowContainer b)
  with assms show ?thesis by (auto simp: tabs_step_def tabs_ok_def)
qed (use assms in \<open>auto simp: tabs_step_def select_ok unselect_ok add_tab_ok close_tab_ok click_tab_def tabs_initial_def Let_def split: if_splits option.splits\<close>)

lemma tabs_run_ok: "tabs_ok s \<Longrightarrow> tabs_ok (tabs_run E xs s)"
  unfolding tabs_run_def using tabs_step_ok by (induction xs arbitrary: s) (auto split: option.split)

lemma tabs_create_ok: "tabs_ok (tabs_create E os k)"
proof -
  have "tabs_ok (tabs_defaults\<lparr>ts_selectedOpt := k\<rparr>)" by (simp add: tabs_ok_def tabs_defaults_def one_selected_def)
  then have "tabs_ok (fold (\<lambda>o' s. put_tab E o' (sp_selected o' = Some True) s) os (tabs_defaults\<lparr>ts_selectedOpt := k\<rparr>))"
    by (induction os arbitrary: k rule: rev_induct) (simp_all add: put_tab_ok)
  then show ?thesis by (simp add: tabs_create_def tabs_initial_def select_ok split: option.split)
qed

text \<open>
  C5: one tab.  After any sequence of selecting, unselecting, adding, closing, updating, enabling and clicking on tabs
  created over any markup, with any callbacks refusing, and the container hidden and displayed at any time,
  at most one tab is marked as selected, and the panel of a tab is open and displayed exactly when the
  tab is.
\<close>

theorem tabs_one_open:
  "let s = tabs_run E xs (tabs_create E os k) in
     length (filter tb_selected (ts_tabs s)) \<le> 1 \<and>
     list_all (\<lambda>t. tb_selected t = (\<not> pl_closed (tb_panel t)) \<and> tb_selected t = pl_shown (tb_panel t)) (ts_tabs s)"
  using tabs_run_ok [OF tabs_create_ok [of E os k], of E xs] still_shown
  by (auto simp: Let_def tabs_ok_def tab_ok_def one_selected_filter list_all_iff)

section \<open>What a selection does\<close>

definition no_veto :: "tabs_env \<Rightarrow> bool" where
  "no_veto E \<longleftrightarrow> (\<forall>d v. pe_before (se_panel E d) v) \<and> (\<forall>x i. se_close E x i)"

lemma visible_selected: "tabs_ok s \<Longrightarrow> ts_shown s \<Longrightarrow> i < length (ts_tabs s) \<Longrightarrow> tab_visible s (ts_tabs s ! i) = tb_selected (ts_tabs s ! i)"
  using tabs_okD [of s i] still_shown by (simp add: tab_visible_def tab_ok_def still_def)

lemma show_at_log: "ts_log (show_at E i s) = ts_log s @ [TsSelect (tab_title (ts_tabs s ! i)) i]"
  by (simp add: show_at_def ts_emit_def tabs_options_def upd_tab_def Let_def)

lemma none_left: "(\<And>k. k < length ts \<Longrightarrow> P (ts ! k) \<longrightarrow> k = j) \<Longrightarrow> \<not> P t \<Longrightarrow> \<forall>u\<in>set (ts[j := t]). \<not> P u"
proof (intro ballI notI)
  fix u assume h: "\<And>k. k < length ts \<Longrightarrow> P (ts ! k) \<longrightarrow> k = j" "\<not> P t" "u \<in> set (ts[j := t])" "P u"
  then obtain k where k: "k < length ts" "u = ts[j := t] ! k" by (auto simp: in_set_conv_nth)
  show False
  proof (cases "k = j")
    case True
    with k h(2,4) show False by simp
  next
    case False
    with k h(1) [OF k(1)] h(4) show False by simp
  qed
qed

lemma close_at_free:
  assumes "no_veto E" and "tabs_ok s" and "j < length (ts_tabs s)" and "tb_selected (ts_tabs s ! j)"
  shows "selected_tab (close_at E j s) = None" and "map tab_title (ts_tabs (close_at E j s)) = map tab_title (ts_tabs s)"
    and "ts_his (close_at E j s) = ts_his s" and "ts_log (close_at E j s) = ts_log s @ [TsUnselect (tab_title (ts_tabs s ! j)) j]"
    and "map tb_id (ts_tabs (close_at E j s)) = map tb_id (ts_tabs s)"
proof -
  have v: "pe_before (se_panel E (tb_id (ts_tabs s ! j))) BeforeClose" using assms(1) by (simp add: no_veto_def)
  note c = close_at_tabs [where E = E, OF v]
  show "ts_his (close_at E j s) = ts_his s" by (rule c(2))
  show "ts_log (close_at E j s) = ts_log s @ [TsUnselect (tab_title (ts_tabs s ! j)) j]"
    using v by (simp add: close_at_def ts_emit_def upd_tab_def Let_def)
  have t: "pl_title (tb_panel (ts_tabs s ! j)) = tab_title (ts_tabs s ! j)" by (simp add: tab_title_def)
  show "map tab_title (ts_tabs (close_at E j s)) = map tab_title (ts_tabs s)"
    unfolding c(1) map_update using still_close(3) tabs_okD [OF assms(2,3)] assms(3) by (simp add: tab_title_def on_panel_def tab_ok_def map_update [symmetric] list_update_same_conv)
  show "map tb_id (ts_tabs (close_at E j s)) = map tb_id (ts_tabs s)"
    unfolding c(1) using assms(3) by (simp add: map_update on_panel_def list_update_same_conv)
  have "tb_selected (ts_tabs s ! k) \<longrightarrow> k = j" if "k < length (ts_tabs s)" for k
    using assms(2-4) that by (simp add: tabs_ok_def one_selected_def)
  then show "selected_tab (close_at E j s) = None"
    unfolding selected_None c(1) by (intro none_left) (simp_all add: on_panel_def)
qed

lemma show_at_titles:
  assumes "tabs_ok s" and "i < length (ts_tabs s)"
  shows "map tab_title (ts_tabs (show_at E i s)) = map tab_title (ts_tabs s)" and "map tb_id (ts_tabs (show_at E i s)) = map tb_id (ts_tabs s)"
  unfolding show_at_tabs [OF assms(2)]
  using still_open(3) tabs_okD [OF assms] assms(2) by (simp_all add: map_update tab_title_def on_panel_def tab_ok_def list_update_same_conv)

lemma select_free:
  assumes "tabs_ok s" and "ts_shown s" and "no_veto E" and "find_tab k s = Some i"
  shows "selected_tab (select_tab E k s) = Some i" and "map tab_title (ts_tabs (select_tab E k s)) = map tab_title (ts_tabs s)"
    and "map tb_id (ts_tabs (select_tab E k s)) = map tb_id (ts_tabs s)"
    and "ts_his (select_tab E k s) = (if selected_tab s = Some i then ts_his s else ts_his s @ [tab_title (ts_tabs s ! i)])"
    and "ts_log (select_tab E k s) = ts_log s @ (case selected_tab s of
        None \<Rightarrow> [TsSelect (tab_title (ts_tabs s ! i)) i]
      | Some j \<Rightarrow> if j = i then [] else [TsUnselect (tab_title (ts_tabs s ! j)) j, TsSelect (tab_title (ts_tabs s ! i)) i])"
proof -
  note ib = find_tab_bound [OF assms(4)]
  have one: "one_selected (ts_tabs s)" using assms(1) by (simp add: tabs_ok_def)
  have vis: "tab_visible s (ts_tabs s ! i) \<longleftrightarrow> selected_tab s = Some i"
    using visible_selected [OF assms(1,2) ib] one_selected_eq [OF one ib] selected_Some by blast
  have nv: "pe_before (se_panel E d) v" for d v using assms(3) by (simp add: no_veto_def)
  have "selected_tab (select_tab E k s) = Some i \<and> map tab_title (ts_tabs (select_tab E k s)) = map tab_title (ts_tabs s)
     \<and> map tb_id (ts_tabs (select_tab E k s)) = map tb_id (ts_tabs s)
     \<and> ts_his (select_tab E k s) = (if selected_tab s = Some i then ts_his s else ts_his s @ [tab_title (ts_tabs s ! i)])
     \<and> ts_log (select_tab E k s) = ts_log s @ (case selected_tab s of
        None \<Rightarrow> [TsSelect (tab_title (ts_tabs s ! i)) i]
      | Some j \<Rightarrow> if j = i then [] else [TsUnselect (tab_title (ts_tabs s ! j)) j, TsSelect (tab_title (ts_tabs s ! i)) i])"
  proof (cases "selected_tab s")
    case None
    then have "select_tab E k s = show_at E i s" using vis nv assms(4) by (simp add: select_tab_def open_at_def)
    with None show_at_ok(2) [OF assms(1) ib None] show_at_titles [OF assms(1) ib] show_at_tabs(2) [OF ib] show_at_log show ?thesis by simp
  next
    case (Some j)
    show ?thesis
    proof (cases "j = i")
      case True
      then have "select_tab E k s = s" using vis Some assms(4) by (simp add: select_tab_def)
      with Some True show ?thesis by simp
    next
      case False
      note jb = selected_Some [OF Some]
      have uj: "unselect_tab E (ByIndex (int j)) s = close_at E j s"
        using jb visible_selected [OF assms(1,2), of j] by (simp add: unselect_tab_def)
      note cf = close_at_free [OF assms(3,1) conjunct1 [OF jb] conjunct2 [OF jb]]
      have okc: "tabs_ok (close_at E j s)" using close_at_ok assms(1) jb by blast
      have lc: "i < length (ts_tabs (close_at E j s))" using ib arg_cong [OF cf(2), of length] by simp
      have tc: "tab_title (ts_tabs (close_at E j s) ! i) = tab_title (ts_tabs s ! i)"
        using arg_cong [OF cf(2), of "\<lambda>l. l ! i"] ib lc by simp
      have sel: "select_tab E k s = show_at E i (close_at E j s)"
        using vis nv assms(4) Some False uj cf(1) by (simp add: select_tab_def open_at_def)
      have "selected_tab s \<noteq> Some i" using Some False by simp
      then show ?thesis
        unfolding sel using show_at_ok(2) [OF okc lc cf(1)] show_at_titles [OF okc lc] show_at_tabs(2) [OF lc] show_at_log cf tc Some False
        by simp
    qed
  qed
  then show "selected_tab (select_tab E k s) = Some i" "map tab_title (ts_tabs (select_tab E k s)) = map tab_title (ts_tabs s)"
    "map tb_id (ts_tabs (select_tab E k s)) = map tb_id (ts_tabs s)"
    "ts_his (select_tab E k s) = (if selected_tab s = Some i then ts_his s else ts_his s @ [tab_title (ts_tabs s ! i)])"
    "ts_log (select_tab E k s) = ts_log s @ (case selected_tab s of
        None \<Rightarrow> [TsSelect (tab_title (ts_tabs s ! i)) i]
      | Some j \<Rightarrow> if j = i then [] else [TsUnselect (tab_title (ts_tabs s ! j)) j, TsSelect (tab_title (ts_tabs s ! i)) i])"
    by blast+
qed

text \<open>Every entry of the history is the title of a tab.\<close>

definition his_ok :: "tabs \<Rightarrow> bool" where
  "his_ok s \<longleftrightarrow> set (ts_his s) \<subseteq> set (map tab_title (ts_tabs s))"

lemma close_at_titles:
  assumes "tabs_ok s" and "j < length (ts_tabs s)"
  shows "map tab_title (ts_tabs (close_at E j s)) = map tab_title (ts_tabs s)" and "ts_his (close_at E j s) = ts_his s"
proof -
  have "tab_title (on_panel (begin_close P) (t\<lparr>tb_selected := b\<rparr>)) = tab_title t" if "tab_ok t" for P t b
    using that still_close(3) by (simp add: tab_title_def on_panel_def tab_ok_def)
  from this [OF tabs_okD [OF assms]] have "map tab_title (ts_tabs (close_at E j s)) = map tab_title (ts_tabs s) \<and> ts_his (close_at E j s) = ts_his s"
    using assms(2) by (simp add: close_at_def Let_def map_update list_update_same_conv)
  then show "map tab_title (ts_tabs (close_at E j s)) = map tab_title (ts_tabs s)" "ts_his (close_at E j s) = ts_his s" by blast+
qed

lemma unselect_titles:
  "tabs_ok s \<Longrightarrow> map tab_title (ts_tabs (unselect_tab E k s)) = map tab_title (ts_tabs s)"
  "tabs_ok s \<Longrightarrow> ts_his (unselect_tab E k s) = ts_his s"
  by (auto simp: unselect_tab_def close_at_titles find_tab_bound split: option.split)

lemma title_in: "i < length (ts_tabs s) \<Longrightarrow> tab_title (ts_tabs s ! i) \<in> set (map tab_title (ts_tabs s))"
  by simp

lemma show_at_his: "tabs_ok s \<Longrightarrow> i < length (ts_tabs s) \<Longrightarrow> his_ok s \<Longrightarrow> his_ok (show_at E i s)"
  using title_in [of i s] unfolding his_ok_def show_at_titles show_at_tabs(2) by simp

lemma unselect_his: "tabs_ok s \<Longrightarrow> his_ok s \<Longrightarrow> his_ok (unselect_tab E k s)"
  unfolding his_ok_def unselect_titles .

lemma open_at_his: "tabs_ok s \<Longrightarrow> i < length (ts_tabs s) \<Longrightarrow> his_ok s \<Longrightarrow> his_ok (open_at E i s)"
  unfolding open_at_def by (auto simp: show_at_his unselect_his unselect_ok Let_def split: option.split)

lemma open_at_titles:
  assumes "tabs_ok s" and "i < length (ts_tabs s)"
  shows "map tab_title (ts_tabs (open_at E i s)) = map tab_title (ts_tabs s) \<and>
    set (ts_his (open_at E i s)) \<subseteq> set (ts_his s) \<union> set (map tab_title (ts_tabs s))"
proof -
  have sh: "map tab_title (ts_tabs (show_at E i t)) = map tab_title (ts_tabs t) \<and> set (ts_his (show_at E i t)) \<subseteq> set (ts_his t) \<union> set (map tab_title (ts_tabs t))"
    if "tabs_ok t" "i < length (ts_tabs t)" for t
    using show_at_titles [OF that] show_at_tabs(2) [OF that(2)] title_in [OF that(2)] by simp
  show ?thesis
  proof (cases "selected_tab s")
    case None
    with sh [OF assms] show ?thesis by (simp add: open_at_def)
  next
    case (Some j)
    let ?u = "unselect_tab E (ByIndex (int j)) s"
    have "i < length (ts_tabs ?u)" using assms(2) by simp
    from sh [OF unselect_ok [OF assms(1)] this] unselect_titles [OF assms(1), of E "ByIndex (int j)"] Some
    show ?thesis by (simp add: open_at_def Let_def)
  qed
qed

lemma select_his: "tabs_ok s \<Longrightarrow> his_ok s \<Longrightarrow> his_ok (select_tab E k s)"
  by (auto simp: select_tab_def open_at_his find_tab_bound split: option.split)

lemma put_tab_his: "his_ok s \<Longrightarrow> his_ok (put_tab E o' w s)"
  unfolding his_ok_def put_tab_def Let_def by (auto)

lemma his_emit [simp]: "his_ok (ts_emit e s) = his_ok s"
  by (simp add: his_ok_def)

lemma add_tab_his: "tabs_ok s \<Longrightarrow> his_ok s \<Longrightarrow> his_ok (add_tab E o' s)"
  unfolding add_tab_def Let_def using put_tab_ok tabs_ok_eq [of "ts_emit e s" s for e s]
  by (simp add: select_his put_tab_his split: option.split)

lemma after_close_his: "tabs_ok s \<Longrightarrow> set (filter (\<lambda>x. x \<noteq> title) (ts_his s)) \<subseteq> set (map tab_title (ts_tabs s)) \<Longrightarrow> his_ok (after_close E title s)"
proof -
  assume s: "tabs_ok s" "set (filter (\<lambda>x. x \<noteq> title) (ts_his s)) \<subseteq> set (map tab_title (ts_tabs s))"
  define h where "h = filter (\<lambda>x. x \<noteq> title) (ts_his s)"
  define t where "t = s\<lparr>ts_his := butlast h\<rparr>"
  have ok: "tabs_ok t" using s(1) tabs_ok_eq [of t s] by (simp add: t_def)
  have "set (butlast xs) \<subseteq> set xs" for xs :: "string option list" by (auto dest: in_set_butlastD)
  from subset_trans [OF this s(2)] have his: "his_ok t" by (simp add: his_ok_def t_def h_def)
  have a: "after_close E title s = (if h \<noteq> [] \<and> last h \<noteq> None \<and> last h \<noteq> Some [] then select_tab E (ByTitle (last h)) t
      else if ts_tabs t \<noteq> [] then select_tab E (ByIndex 0) t else t)"
    by (simp only: after_close_def Let_def t_def h_def)
  show ?thesis unfolding a using select_his [OF ok his] his by simp
qed

lemma close_tab_his: "tabs_ok s \<Longrightarrow> his_ok s \<Longrightarrow> his_ok (close_tab E k s)"
proof -
  assume s: "tabs_ok s" "his_ok s"
  show ?thesis
  proof (cases "find_tab k s")
    case None
    with s show ?thesis by (simp add: close_tab_def)
  next
    case (Some i)
    note ib = find_tab_bound [OF Some]
    let ?x = "tab_title (ts_tabs s ! i)" and ?t = "\<lambda>e. ts_emit e (s\<lparr>ts_tabs := splice_del i (ts_tabs s)\<rparr>)"
    have ok: "tabs_ok (?t e)" for e
      using s(1) set_splice_del_subset [of i "ts_tabs s"] one_selected_del unfolding tabs_ok_def by (simp add: subset_iff)
    have "ts_tabs s = take i (ts_tabs s) @ ts_tabs s ! i # drop (Suc i) (ts_tabs s)" using ib by (rule id_take_nth_drop)
    then have "set (map tab_title (ts_tabs s)) = insert ?x (set (map tab_title (splice_del i (ts_tabs s))))"
      unfolding splice_del_def by (metis (no_types, lifting) Un_insert_right list.simps(15) list.simps(9) map_append set_append)
    then have "set (filter (\<lambda>y. y \<noteq> ?x) (ts_his (?t e))) \<subseteq> set (map tab_title (ts_tabs (?t e)))" for e
      using s(2) unfolding his_ok_def by auto
    from after_close_his [OF ok this] Some s(2) show ?thesis by (simp add: close_tab_def Let_def)
  qed
qed

lemma map_title_upd:
  assumes "i < length ts"
  shows "set (map tab_title (ts[i := t])) = insert (tab_title t) (set (map tab_title (splice_del i ts)))"
    and "set (map tab_title ts) = insert (tab_title (ts ! i)) (set (map tab_title (splice_del i ts)))"
proof -
  show "set (map tab_title (ts[i := t])) = insert (tab_title t) (set (map tab_title (splice_del i ts)))"
    unfolding upd_conv_take_nth_drop [OF assms] splice_del_def by auto
  show "set (map tab_title ts) = insert (tab_title (ts ! i)) (set (map tab_title (splice_del i ts)))"
    by (subst id_take_nth_drop [OF assms]) (auto simp: splice_del_def)
qed

text \<open>A tab may get another title when every entry of the history that was its title is renamed too.\<close>

definition his_but :: "string option \<Rightarrow> nat \<Rightarrow> tabs \<Rightarrow> bool" where
  "his_but old i s \<longleftrightarrow> (\<forall>x\<in>set (ts_his s). x = old \<or> x \<in> set (map tab_title (ts_tabs s)))"

lemma update_header_his: "i < length (ts_tabs s) \<Longrightarrow> his_but old i s \<Longrightarrow> his_ok (update_header old i s)"
proof -
  assume s: "i < length (ts_tabs s)" "his_but old i s"
  let ?s = "upd_tab i (\<lambda>t. t\<lparr>tb_text := tab_title t, tb_link := tb_closable t\<rparr>) s"
  have t: "map tab_title (ts_tabs ?s) = map tab_title (ts_tabs s)"
    using s(1) by (simp add: map_update tab_title_def list_update_same_conv)
  then have "set (map tab_title (ts_tabs ?s)) = set (map tab_title (ts_tabs s))" by simp
  with s show ?thesis using title_in [OF s(1)] by (auto simp: update_header_def his_ok_def his_but_def Let_def)
qed

lemma change_panel_his:
  assumes "tabs_ok s" and "i < length (ts_tabs s)" and "his_ok s"
  shows "his_but (tab_title (ts_tabs s ! i)) i (change_panel E c i s)"
proof -
  define f where "f = (\<lambda>t. on_panel (\<lambda>p. draw_panel (tc_content c)
            (p\<lparr>pl_title := (case tc_title c of None \<Rightarrow> pl_title p | Some x \<Rightarrow> x), pl_loaded := False\<rparr>))
            (t\<lparr>tb_closable := (case tc_closable c of None \<Rightarrow> tb_closable t | Some b \<Rightarrow> b)\<rparr>))"
  let ?u = "upd_tab i f s"
  have c: "change_panel E c i s = (let p = tb_panel (ts_tabs ?u ! i)
      in if pl_closed p \<or> pl_minimized p then upd_tab i (on_panel (\<lambda>p. p\<lparr>pl_shown := False\<rparr>)) ?u else open_at E i ?u)"
    by (simp only: change_panel_def f_def Let_def)
  have b: "his_but (tab_title (ts_tabs s ! i)) i ?u"
    using assms(3) map_title_upd [OF assms(2)] unfolding his_but_def his_ok_def by auto
  have more: "his_but old i t" if "his_but old i s'" "set (map tab_title (ts_tabs s')) \<subseteq> set (map tab_title (ts_tabs t))"
      "set (ts_his t) \<subseteq> set (ts_his s') \<union> set (map tab_title (ts_tabs s'))" for old s' t
    using that unfolding his_but_def by blast
  have "still (draw_panel x (p\<lparr>pl_title := y, pl_loaded := b\<rparr>)) \<and> pl_closed (draw_panel x (p\<lparr>pl_title := y, pl_loaded := b\<rparr>)) = pl_closed p"
    if "still p" for x y b p
    using that by (simp add: draw_panel_def still_def resting_def Let_def split: option.split)
  then have "tab_ok (f (ts_tabs s ! i)) \<and> tb_selected (f (ts_tabs s ! i)) = tb_selected (ts_tabs s ! i)"
    using tabs_okD [OF assms(1,2)] by (simp add: f_def tab_ok_def on_panel_def)
  then have u: "tabs_ok ?u" by (intro upd_tab_ok [OF assms(1,2)]) simp_all
  have i: "i < length (ts_tabs ?u)" using assms(2) by simp
  have "map tab_title (ts_tabs (upd_tab i (on_panel (\<lambda>p. p\<lparr>pl_shown := False\<rparr>)) ?u)) = map tab_title (ts_tabs ?u)"
    using assms(2) by (simp add: map_update tab_title_def on_panel_def list_update_same_conv)
  then have h: "his_but (tab_title (ts_tabs s ! i)) i (upd_tab i (on_panel (\<lambda>p. p\<lparr>pl_shown := False\<rparr>)) ?u)"
    by (intro more [OF b]) (metis order_refl, simp)
  have o: "map tab_title (ts_tabs (open_at E i ?u)) = map tab_title (ts_tabs ?u) \<and> set (ts_his (open_at E i ?u)) \<subseteq> set (ts_his ?u) \<union> set (map tab_title (ts_tabs ?u))"
    using open_at_titles [OF u i, of E] by blast
  then have "his_but (tab_title (ts_tabs s ! i)) i (open_at E i ?u)" by (intro more [OF b]) (metis order_refl, blast)
  with h show ?thesis unfolding c Let_def by (simp split: if_split)
qed

lemma tabs_step_his:
  assumes "tabs_ok s" and "his_ok s" and "tabs_step E x s = Some t"
  shows "his_ok t"
proof (cases x)
  case (UpdateTab part c i)
  then have i: "i < length (ts_tabs s)" and u: "update_tab E part c i s = Some t" using assms(3) by (auto simp: tabs_step_def split: if_splits)
  let ?s = "if part = AllParts then change_panel E c i s else s"
  have "his_but (tab_title (ts_tabs s ! i)) i ?s" using change_panel_his [OF assms(1) i assms(2)] assms(2) by (auto simp: his_but_def his_ok_def)
  moreover have "i < length (ts_tabs ?s)" using i by simp
  ultimately have "his_ok (update_header (tab_title (ts_tabs s ! i)) i ?s)" by (intro update_header_his)
  moreover have "t = ts_emit (TsUpdate (tab_title (ts_tabs (update_header (tab_title (ts_tabs s ! i)) i ?s) ! i)) i)
      (update_header (tab_title (ts_tabs s ! i)) i ?s)"
    using u by (simp add: update_tab_def Let_def split: if_splits)
  ultimately show ?thesis by simp
next
  case (EnableTab b k)
  then obtain i where i: "find_tab k s = Some i" and t: "t = upd_tab i (\<lambda>t. t\<lparr>tb_disabled := \<not> b\<rparr>) s"
    using assms(3) by (auto simp: tabs_step_def enable_tab_def)
  have "map tab_title (ts_tabs t) = map tab_title (ts_tabs s)"
    using find_tab_bound [OF i] by (simp add: t map_update tab_title_def list_update_same_conv)
  moreover have "ts_his t = ts_his s" by (simp add: t)
  ultimately show ?thesis using assms(2) unfolding his_ok_def by simp
next
  case (ShowContainer b)
  with assms show ?thesis by (auto simp: tabs_step_def his_ok_def)
qed (use assms in \<open>auto simp: tabs_step_def select_his unselect_his add_tab_his close_tab_his click_tab_def tabs_initial_def Let_def split: if_splits option.splits\<close>)

lemma tabs_run_his: "tabs_ok s \<Longrightarrow> his_ok s \<Longrightarrow> his_ok (tabs_run E xs s)"
  unfolding tabs_run_def using tabs_step_ok tabs_step_his
  by (induction xs arbitrary: s) (auto split: option.split)

lemma tabs_create_his: "his_ok (tabs_create E os k)"
proof -
  have s: "tabs_ok (tabs_defaults\<lparr>ts_selectedOpt := k\<rparr>)" "his_ok (tabs_defaults\<lparr>ts_selectedOpt := k\<rparr>)"
    by (simp_all add: tabs_ok_def tabs_defaults_def one_selected_def his_ok_def)
  have "tabs_ok (fold (\<lambda>o' s. put_tab E o' (sp_selected o' = Some True) s) os (tabs_defaults\<lparr>ts_selectedOpt := k\<rparr>))
    \<and> his_ok (fold (\<lambda>o' s. put_tab E o' (sp_selected o' = Some True) s) os (tabs_defaults\<lparr>ts_selectedOpt := k\<rparr>))"
    using s by (induction os arbitrary: k rule: rev_induct) (simp_all add: put_tab_ok put_tab_his)
  then show ?thesis by (simp add: tabs_create_def tabs_initial_def select_his split: option.split)
qed

definition selected_title :: "tabs \<Rightarrow> string option option" where
  "selected_title s = map_option (\<lambda>i. tab_title (ts_tabs s ! i)) (selected_tab s)"

text \<open>
  Selecting.  In a displayed container, with no callback refusing, selecting a tab that exists makes it the
  selected one, whichever was before: the other tab is told that it is unselected, then this one that it
  is selected, the history gets its title, and no tab moves.
\<close>

theorem tabs_select:
  assumes s_def: "s = tabs_run E xs (tabs_create E os k)" and "ts_shown s" and "no_veto E" and "find_tab key s = Some i"
  shows "selected_tab (select_tab E key s) = Some i \<and> map tb_id (ts_tabs (select_tab E key s)) = map tb_id (ts_tabs s) \<and>
    (case selected_tab s of
       None \<Rightarrow> ts_his (select_tab E key s) = ts_his s @ [tab_title (ts_tabs s ! i)] \<and>
         ts_log (select_tab E key s) = ts_log s @ [TsSelect (tab_title (ts_tabs s ! i)) i]
     | Some j \<Rightarrow> if j = i then select_tab E key s = s
         else ts_his (select_tab E key s) = ts_his s @ [tab_title (ts_tabs s ! i)] \<and>
           ts_log (select_tab E key s) = ts_log s @ [TsUnselect (tab_title (ts_tabs s ! j)) j, TsSelect (tab_title (ts_tabs s ! i)) i])"
proof -
  have s: "tabs_ok s" "ts_shown s" "find_tab key s = Some i" using assms tabs_run_ok [OF tabs_create_ok] by simp_all
  note f = select_free [OF s(1,2) assms(3) s(3)]
  have "select_tab E key s = s" if "selected_tab s = Some i"
    using selected_Some [OF that] visible_selected [OF s(1,2)] s(3) by (simp add: select_tab_def)
  with f show ?thesis by (auto split: option.split)
qed

lemma none_after_del:
  assumes "tabs_ok s" and "selected_tab s = Some i" and "i < length (ts_tabs s)"
  shows "\<forall>u\<in>set (splice_del i (ts_tabs s)). \<not> tb_selected u"
proof (intro ballI notI)
  fix u assume u: "u \<in> set (splice_del i (ts_tabs s))" "tb_selected u"
  let ?r = "splice_del i (ts_tabs s)"
  have l: "length ?r = length (ts_tabs s) - 1" using assms(3) by (simp add: length_splice_del)
  obtain m where m: "m < length ?r" "u = ?r ! m" using u(1) by (auto simp: in_set_conv_nth)
  then have "?r ! m = ts_tabs s ! (if m < i then m else Suc m)" using l by (simp add: nth_splice_del)
  then have "selected_tab s = Some (if m < i then m else Suc m)"
    using u(2) m assms(1) l by (intro one_selected_eq) (auto simp: tabs_ok_def)
  with assms(2) show False by (auto split: if_splits)
qed

lemma select_free_title:
  assumes "tabs_ok t" and "ts_shown t" and "no_veto E" and "find_tab k t = Some m"
  shows "selected_title (select_tab E k t) = Some (tab_title (ts_tabs t ! m))"
proof -
  note f = select_free [OF assms]
  have "m < length (ts_tabs t)" using find_tab_bound [OF assms(4)] .
  then have "tab_title (ts_tabs (select_tab E k t) ! m) = tab_title (ts_tabs t ! m)"
    using arg_cong [OF f(2), of "\<lambda>l. l ! m"] arg_cong [OF f(2), of length] by simp
  then show ?thesis using f(1) by (simp add: selected_title_def)
qed

text \<open>
  C33: closing the selected tab selects the tab whose selection is the last in the history, leaving out the
  closed one; without such a tab the first one, if one is left.
\<close>

theorem tabs_close_selected:
  assumes s_def: "s = tabs_run E xs (tabs_create E os k)" and "ts_shown s" and "no_veto E"
    and "find_tab key s = Some i" and "selected_tab s = Some i"
  shows "selected_title (close_tab E key s) =
    (let rest = splice_del i (ts_tabs s); h = filter (\<lambda>x. x \<noteq> tab_title (ts_tabs s ! i)) (ts_his s)
     in if rest = [] then None
        else if h = [] \<or> last h = None \<or> last h = Some [] then Some (tab_title (hd rest)) else Some (last h))"
proof -
  have ok: "tabs_ok s" "his_ok s" "ts_shown s" "find_tab key s = Some i" "selected_tab s = Some i"
    using assms tabs_run_ok [OF tabs_create_ok] tabs_run_his [OF tabs_create_ok tabs_create_his] by simp_all
  note ib = find_tab_bound [OF ok(4)]
  let ?x = "tab_title (ts_tabs s ! i)"
  define r where "r = splice_del i (ts_tabs s)"
  define h where "h = filter (\<lambda>y. y \<noteq> ?x) (ts_his s)"
  define t where "t = (ts_emit (TsClose ?x i) (s\<lparr>ts_tabs := r\<rparr>))\<lparr>ts_his := butlast h\<rparr>"
  have cl: "close_tab E key s = (if h \<noteq> [] \<and> last h \<noteq> None \<and> last h \<noteq> Some [] then select_tab E (ByTitle (last h)) t
      else if r \<noteq> [] then select_tab E (ByIndex 0) t else t)"
    using ok(4) assms(3) by (simp add: close_tab_def after_close_def no_veto_def t_def r_def h_def Let_def)
  have tt: "ts_tabs t = r" "ts_shown t" using ok(3) by (simp_all add: t_def)
  have okt: "tabs_ok t"
    using ok(1) set_splice_del_subset [of i "ts_tabs s"] one_selected_del unfolding tabs_ok_def tt r_def by (simp add: subset_iff)
  have none: "selected_tab t = None" using none_after_del [OF ok(1,5) ib] by (simp add: selected_None tt r_def)
  note sel = select_free_title [OF okt tt(2) assms(3), unfolded tt(1)]
  have hin: "set h \<subseteq> set (map tab_title r)"
    using ok(2) map_title_upd(2) [OF ib] unfolding his_ok_def h_def r_def by auto
  have byt: "selected_title (select_tab E (ByTitle (last h)) t) = Some (last h)" if "h \<noteq> []"
  proof -
    have "last h \<in> set (map tab_title r)" using hin that by (meson last_in_set subsetD)
    then obtain m where m: "find_tab (ByTitle (last h)) t = Some m"
      by (cases "index_where (\<lambda>u. tab_title u = last h) r") (auto simp: find_tab_def tt index_where_None)
    then have "tab_title (r ! m) = last h" by (auto simp: find_tab_def tt dest: index_where_Some)
    with sel [OF m] show ?thesis by simp
  qed
  have first: "selected_title (select_tab E (ByIndex 0) t) = Some (tab_title (hd r))" if "r \<noteq> []"
  proof -
    have "find_tab (ByIndex 0) t = Some 0" using that by (simp add: find_tab_def tt)
    from sel [OF this] that show ?thesis by (simp add: hd_conv_nth)
  qed
  have st: "selected_title t = None" by (simp add: selected_title_def none)
  show ?thesis
  proof (cases "r = []")
    case True
    have "set h \<subseteq> {}" using hin unfolding True by simp
    then have he: "h = []" by simp
    show ?thesis unfolding cl r_def [symmetric] h_def [symmetric] Let_def he True using st by simp
  next
    case False
    with byt first show ?thesis unfolding cl r_def [symmetric] h_def [symmetric] Let_def by auto
  qed
qed

text \<open>
  In a container that is hidden a selection does not move: while a tab is selected, selecting any tab does
  nothing (the tab that is selected cannot be unselected, for it is not visible).
\<close>

theorem tabs_hidden_stuck:
  assumes "\<not> ts_shown s" and "selected_tab s = Some j"
  shows "select_tab E key s = s"
proof -
  have "unselect_tab E (ByIndex (int j)) s = s" using assms(1) by (simp add: unselect_tab_def tab_visible_def split: option.split)
  then show ?thesis using assms(2) by (simp add: select_tab_def open_at_def split: option.split)
qed

text \<open>
  Adding.  The new tab stands at the index asked for, brought into the range of the list (at the end when
  none is given), and the others keep their order; in a displayed container, with no callback refusing,
  it is then selected unless the option says otherwise.
\<close>

theorem tabs_add:
  assumes "s = tabs_run E xs (tabs_create E os k)" and "ts_shown s" and "no_veto E"
  shows "map tb_id (ts_tabs (add_tab E o' s)) = splice_ins (tab_place o' s) (ts_next s) (map tb_id (ts_tabs s)) \<and>
    tab_place o' s \<le> length (ts_tabs s) \<and>
    (if sp_selected o' = Some False then selected_title (add_tab E o' s) = selected_title s
     else selected_tab (add_tab E o' s) = Some (tab_place o' s) \<and> selected_title (add_tab E o' s) = Some (sp_title o'))"
proof -
  have ok: "tabs_ok s" using assms(1) tabs_run_ok [OF tabs_create_ok] by simp
  let ?p = "tab_place o' s"
  define w where "w = (case sp_selected o' of None \<Rightarrow> True | Some b \<Rightarrow> b)"
  define t where "t = ts_emit (TsAdd (sp_title o') ?p) (put_tab E o' w s)"
  have pl: "?p \<le> length (ts_tabs s)" by (auto simp: tab_place_def split: option.split)
  have tt: "ts_tabs t = splice_ins ?p (new_tab E o' w (ts_next s)) (ts_tabs s)" "ts_shown t"
    using assms(2) by (simp_all add: t_def put_tab_def Let_def)
  have okt: "tabs_ok t" using put_tab_ok [OF ok, of E o' w] tabs_ok_eq [of t "put_tab E o' w s"] by (simp add: t_def)
  have ids: "map tb_id (ts_tabs t) = splice_ins ?p (ts_next s) (map tb_id (ts_tabs s))"
    by (simp add: tt splice_ins_def take_map drop_map new_tab_def)
  have ad: "add_tab E o' s = (if w then select_tab E (ByIndex (int ?p)) t else t)"
    by (simp add: add_tab_def t_def w_def Let_def)
  have at: "ts_tabs t ! ?p = new_tab E o' w (ts_next s)" using pl by (simp add: tt nth_splice_ins)
  show ?thesis
  proof (cases w)
    case True
    have f: "find_tab (ByIndex (int ?p)) t = Some ?p" using pl by (simp add: tt)
    note sf = select_free [OF okt tt(2) assms(3) f]
    have "tab_title (ts_tabs (select_tab E (ByIndex (int ?p)) t) ! ?p) = tab_title (ts_tabs t ! ?p)"
      using arg_cong [OF sf(2), of "\<lambda>l. l ! ?p"] arg_cong [OF sf(2), of length] pl by (simp add: tt)
    moreover have "tab_title (new_tab E o' w (ts_next s)) = sp_title o'"
      by (simp add: tab_title_def new_tab_def panel_create_def draw_panel_def settle_panel_def panel_defaults_def Let_def split: option.split)
    moreover have "sp_selected o' \<noteq> Some False" using True by (auto simp: w_def)
    ultimately show ?thesis using True ad sf(1,3) ids pl at by (simp add: selected_title_def)
  next
    case False
    then have n: "sp_selected o' = Some False" by (auto simp: w_def split: option.splits)
    have "selected_title t = selected_title s"
    proof (cases "selected_tab s")
      case None
      then have "selected_tab t = None" unfolding selected_None by (simp add: tt new_tab_ok)
      with None show ?thesis by (simp add: selected_title_def)
    next
      case (Some j)
      note jb = selected_Some [OF Some]
      let ?j = "if j < ?p then j else Suc j"
      have "ts_tabs t ! ?j = ts_tabs s ! j" using pl jb by (auto simp: tt nth_splice_ins)
      moreover have "selected_tab t = Some ?j"
        by (rule one_selected_eq) (use okt jb calculation in \<open>auto simp: tabs_ok_def tt\<close>)
      ultimately show ?thesis using Some by (simp add: selected_title_def)
    qed
    with False ad ids pl n show ?thesis by simp
  qed
qed

section \<open>Witnesses\<close>

definition plain_tab :: "string \<Rightarrow> tab_spec" where
  "plain_tab x = \<lparr>sp_title = Some x, sp_index = None, sp_selected = None, sp_closable = True, sp_collapsible = False, sp_href = None, sp_content = None\<rparr>"

definition abc_tabs :: tabs where
  "abc_tabs = tabs_run tabs_env0 [SelectTab (ByIndex 1), SelectTab (ByIndex 2)] (tabs_create tabs_env0 [plain_tab ''A'', plain_tab ''B'', plain_tab ''C''] 0)"

lemma abc_facts:
  "ts_shown abc_tabs" "find_tab (ByTitle (Some ''A'')) abc_tabs = Some 0" "find_tab (ByIndex 2) abc_tabs = Some 2" "selected_tab abc_tabs = Some 2"
  "ts_his abc_tabs = [Some ''A'', Some ''B'', Some ''C'']" "map tab_title (ts_tabs abc_tabs) = [Some ''A'', Some ''B'', Some ''C'']"
  "map tb_id (ts_tabs abc_tabs) = [0, 1, 2]" "ts_next abc_tabs = 3" "length (ts_tabs abc_tabs) = 3"
  by code_simp+

lemma env0_allows: "no_veto tabs_env0"
  by (simp add: no_veto_def tabs_env0_def panel_env0_def)

theorem tabs_select_witness:
  "selected_tab (select_tab tabs_env0 (ByTitle (Some ''A'')) abc_tabs) = Some 0 \<and>
   ts_his (select_tab tabs_env0 (ByTitle (Some ''A'')) abc_tabs) = [Some ''A'', Some ''B'', Some ''C'', Some ''A'']"
  using tabs_select [OF abc_tabs_def abc_facts(1) env0_allows abc_facts(2)] abc_facts(4-6)
  by (auto simp: map_eq_Cons_conv)

theorem tabs_close_selected_witness:
  "selected_title (close_tab tabs_env0 (ByIndex 2) abc_tabs) = Some (Some ''B'')"
proof -
  have "tab_title (ts_tabs abc_tabs ! 2) = Some ''C''" "splice_del 2 (ts_tabs abc_tabs) \<noteq> []"
    using abc_facts(6) by (auto simp: map_eq_Cons_conv numeral_2_eq_2 splice_del_def)
  then show ?thesis using tabs_close_selected [OF abc_tabs_def abc_facts(1) env0_allows abc_facts(3,4)] by (simp add: abc_facts Let_def)
qed

theorem tabs_hidden_stuck_witness:
  "select_tab tabs_env0 (ByIndex 0) (abc_tabs\<lparr>ts_shown := False\<rparr>) = abc_tabs\<lparr>ts_shown := False\<rparr>"
proof -
  have "selected_tab (abc_tabs\<lparr>ts_shown := False\<rparr>) = Some 2" using abc_facts(4) by (simp add: selected_tab_def)
  from tabs_hidden_stuck [OF _ this] show ?thesis by simp
qed

theorem tabs_add_witness:
  "map tb_id (ts_tabs (add_tab tabs_env0 ((plain_tab ''D'')\<lparr>sp_index := Some 1\<rparr>) abc_tabs)) = [0, 3, 1, 2] \<and>
   selected_title (add_tab tabs_env0 ((plain_tab ''D'')\<lparr>sp_index := Some 1\<rparr>) abc_tabs) = Some (Some ''D'')"
  using tabs_add [OF abc_tabs_def abc_facts(1) env0_allows, of "(plain_tab ''D'')\<lparr>sp_index := Some 1\<rparr>"]
  by (simp add: abc_facts tab_place_def plain_tab_def splice_ins_def)

text \<open>
  Closing a tab that is not selected takes the selected one out of the history: with A, B, C selected
  in turn, then D, closing A, selecting B and closing it goes on to C, not to D, which was the one before B.
\<close>

lemma history_forgets:
  "selected_title (tabs_run tabs_env0 [SelectTab (ByIndex 1), SelectTab (ByIndex 2), SelectTab (ByIndex 3), CloseTab (ByTitle (Some ''A'')),
     SelectTab (ByTitle (Some ''B'')), CloseTab (ByTitle (Some ''B''))]
     (tabs_create tabs_env0 [plain_tab ''A'', plain_tab ''B'', plain_tab ''C'', plain_tab ''D''] 0)) = Some (Some ''C'')"
  by code_simp

text \<open>An update of the body alone throws.\<close>

lemma update_body_throws: "update_tab E BodyPart c i s = None"
  by (simp add: update_tab_def)

end
