(* ===== verification/Accordion.thy ===== *)
theory Accordion
  imports Tabs
begin

text \<open>
  The accordion, \<open>js/plugins/jquery.accordion.js\<close>: a list of panels (theory Panel), of which one that can
  be collapsed is expanded unless several may be.

  A panel, its header and the arrow in it are found again by the position in one list.  An animation of
  a panel is a completion still to come; every operation first brings all of them forward (\<open>_36\<close>).
  Sizes are left out.
\<close>

section \<open>State\<close>

record acc_panel =
  ap_panel :: panel
  ap_selected :: bool
  ap_arrow :: bool
  ap_want :: bool

datatype acc_event =
    AcSelect "string option" nat | AcUnselect "string option" nat | AcAdd "string option" nat | AcRemove "string option" nat

record accordion =
  ac_panels :: "acc_panel list"
  ac_multiple :: bool
  ac_animate :: bool
  ac_selectedOpt :: int
  ac_log :: "acc_event list"

definition accordion_defaults :: accordion where
  "accordion_defaults = \<lparr>ac_panels = [], ac_multiple = False, ac_animate = True, ac_selectedOpt = 0, ac_log = []\<rparr>"

record acc_env =
  ae_panel :: "string option \<Rightarrow> panel_env"
  ae_remove :: "string option \<Rightarrow> nat \<Rightarrow> bool"

definition acc_env0 :: acc_env where
  "acc_env0 = \<lparr>ae_panel = (\<lambda>_. panel_env0), ae_remove = (\<lambda>_ _. True)\<rparr>"

definition ac_emit :: "acc_event \<Rightarrow> accordion \<Rightarrow> accordion" where
  "ac_emit e s = s\<lparr>ac_log := ac_log s @ [e]\<rparr>"

section \<open>Finding: \<open>_f\<close>, \<open>_14\<close>, \<open>_16\<close>, \<open>_1b\<close>\<close>

definition ap_title :: "acc_panel \<Rightarrow> string option" where
  "ap_title p = pl_title (ap_panel p)"

definition ap_collapsed :: "acc_panel \<Rightarrow> bool" where
  "ap_collapsed p = pl_collapsed (ap_panel p)"

definition ap_collapsible :: "acc_panel \<Rightarrow> bool" where
  "ap_collapsible p = pl_collapsible (ap_panel p)"

definition find_panel :: "tab_key \<Rightarrow> accordion \<Rightarrow> nat option" where
  "find_panel k s =
     (case k of
        ByIndex i \<Rightarrow> if i < 0 \<or> int (length (ac_panels s)) \<le> i then None else Some (nat i)
      | ByTitle x \<Rightarrow> index_where (\<lambda>p. ap_title p = x) (ac_panels s))"

definition acc_selections :: "accordion \<Rightarrow> nat list" where
  "acc_selections s = filter (\<lambda>i. \<not> ap_collapsed (ac_panels s ! i)) [0..<length (ac_panels s)]"

definition acc_selected :: "accordion \<Rightarrow> nat option" where
  "acc_selected s = index_where (\<lambda>p. \<not> ap_collapsed p) (ac_panels s)"

definition upd_acc :: "nat \<Rightarrow> (acc_panel \<Rightarrow> acc_panel) \<Rightarrow> accordion \<Rightarrow> accordion" where
  "upd_acc i f s = s\<lparr>ac_panels := (ac_panels s)[i := f (ac_panels s ! i)]\<rparr>"

definition on_body :: "(panel \<Rightarrow> panel) \<Rightarrow> acc_panel \<Rightarrow> acc_panel" where
  "on_body f p = p\<lparr>ap_panel := f (ap_panel p)\<rparr>"

section \<open>Expanding and collapsing: \<open>_32\<close>, \<open>_33\<close>, \<open>_36\<close> and the callbacks in \<open>_27\<close>\<close>

definition env_at :: "acc_env \<Rightarrow> nat \<Rightarrow> accordion \<Rightarrow> panel_env" where
  "env_at E i s = ae_panel E (ap_title (ac_panels s ! i))"

definition collapsed_at :: "nat \<Rightarrow> accordion \<Rightarrow> accordion" where
  "collapsed_at i s = ac_emit (AcUnselect (ap_title (ac_panels s ! i)) i) (upd_acc i (on_body collapse_end) s)"

definition expanded_at :: "acc_env \<Rightarrow> nat \<Rightarrow> accordion \<Rightarrow> accordion" where
  "expanded_at E i s = ac_emit (AcSelect (ap_title (ac_panels s ! i)) i) (upd_acc i (on_body (expand_end (env_at E i s))) s)"

definition stop_at :: "acc_env \<Rightarrow> nat \<Rightarrow> accordion \<Rightarrow> accordion" where
  "stop_at E i s =
     (case pl_inner (ap_panel (ac_panels s ! i)) of
        None \<Rightarrow> s
      | Some Collapsing \<Rightarrow> collapsed_at i s
      | Some Expanding \<Rightarrow> expanded_at E i s)"

definition stop_all :: "acc_env \<Rightarrow> accordion \<Rightarrow> accordion" where
  "stop_all E s = fold (stop_at E) [0..<length (ac_panels s)] s"

definition collapse_at :: "acc_env \<Rightarrow> nat \<Rightarrow> accordion \<Rightarrow> accordion" where
  "collapse_at E i s =
     (if ap_collapsed (ac_panels s ! i) then s
      else
        let s = stop_at E i s in
        if \<not> pe_before (env_at E i s) BeforeCollapse then s
        else
          let s = upd_acc i (\<lambda>p. p\<lparr>ap_selected := False, ap_arrow := True\<rparr>) s in
          if ac_animate s then upd_acc i (on_body (begin_collapse True)) s
          else collapsed_at i (upd_acc i (on_body (\<lambda>p. p\<lparr>pl_expandTool := (pl_header p \<and> pl_collapsible p)\<rparr>)) s))"

definition acc_unselect_at :: "acc_env \<Rightarrow> nat \<Rightarrow> accordion \<Rightarrow> accordion" where
  "acc_unselect_at E i s = collapse_at E i (stop_all E s)"

definition fold_others :: "acc_env \<Rightarrow> accordion \<Rightarrow> accordion" where
  "fold_others E s =
     (if ac_multiple s then s
      else fold (acc_unselect_at E) (filter (\<lambda>i. ap_collapsible (ac_panels s ! i)) (acc_selections s)) s)"

definition expand_at :: "acc_env \<Rightarrow> nat \<Rightarrow> accordion \<Rightarrow> accordion" where
  "expand_at E i s =
     (if \<not> ap_collapsed (ac_panels s ! i) then s
      else
        let s = stop_at E i s in
        if \<not> pe_before (env_at E i s) BeforeExpand then s
        else
          let s = upd_acc i (\<lambda>p. p\<lparr>ap_selected := True, ap_arrow := False\<rparr>) (fold_others E s) in
          if ac_animate s then upd_acc i (on_body (begin_expand (env_at E i s) True)) s
          else expanded_at E i (upd_acc i (on_body (\<lambda>p. p\<lparr>pl_expandTool := False\<rparr>)) s))"

definition acc_select :: "acc_env \<Rightarrow> tab_key \<Rightarrow> accordion \<Rightarrow> accordion" where
  "acc_select E k s = (case find_panel k s of None \<Rightarrow> s | Some i \<Rightarrow> expand_at E i (stop_all E s))"

definition acc_unselect :: "acc_env \<Rightarrow> tab_key \<Rightarrow> accordion \<Rightarrow> accordion" where
  "acc_unselect E k s = (case find_panel k s of None \<Rightarrow> s | Some i \<Rightarrow> acc_unselect_at E i s)"

text \<open>A click on the header or its arrow.\<close>

definition acc_click :: "acc_env \<Rightarrow> nat \<Rightarrow> accordion \<Rightarrow> accordion" where
  "acc_click E i s =
     (let p = ac_panels s ! i in
      if ap_collapsible p then
        (if ap_collapsed p then acc_select E (ByIndex (int i)) s else acc_unselect E (ByIndex (int i)) s)
      else s)"

section \<open>Adding and removing: \<open>_27\<close>, \<open>add\<close>, \<open>_48\<close>\<close>

record acc_spec =
  as_title :: "string option"
  as_selected :: "bool option"
  as_collapsible :: bool
  as_collapsed :: bool
  as_href :: "string option"
  as_content :: "string option"

text \<open>
  A panel that is created collapsed is collapsed by the operation, with its callbacks: the accordion
  is told of an unselection.
\<close>

definition acc_new :: "acc_env \<Rightarrow> acc_spec \<Rightarrow> bool \<Rightarrow> acc_panel" where
  "acc_new E o' want =
     \<lparr>ap_panel = panel_create (ae_panel E (as_title o')) (as_content o')
        (panel_defaults\<lparr>pl_title := as_title o', pl_href := as_href o', pl_collapsible := as_collapsible o', pl_collapsed := as_collapsed o', pl_doSize := False\<rparr>),
      ap_selected = False, ap_arrow = True, ap_want = want\<rparr>"

definition acc_put :: "acc_env \<Rightarrow> acc_spec \<Rightarrow> bool \<Rightarrow> accordion \<Rightarrow> accordion" where
  "acc_put E o' want s =
     (let p = acc_new E o' want; s = s\<lparr>ac_panels := ac_panels s @ [p]\<rparr>
      in if PCollapse \<in> set (pl_log (ap_panel p)) then ac_emit (AcUnselect (as_title o') (length (ac_panels s) - 1)) s else s)"

definition acc_add :: "acc_env \<Rightarrow> acc_spec \<Rightarrow> accordion \<Rightarrow> accordion" where
  "acc_add E o' s =
     (let want = (case as_selected o' of None \<Rightarrow> True | Some b \<Rightarrow> b);
          s = acc_put E o' want (stop_all E s); k = length (ac_panels s) - 1;
          s = ac_emit (AcAdd (as_title o') k) s
      in if want then acc_select E (ByIndex (int k)) s else s)"

text \<open>Removing a panel that is not there reads a property of \<open>null\<close>, which throws.\<close>

definition acc_remove :: "acc_env \<Rightarrow> tab_key \<Rightarrow> accordion \<Rightarrow> accordion option" where
  "acc_remove E k s =
     (let s = stop_all E s in
      case find_panel k s of
        None \<Rightarrow> None
      | Some i \<Rightarrow>
          let title = ap_title (ac_panels s ! i) in
          if \<not> ae_remove E title i then Some s
          else
            let s = s\<lparr>ac_panels := splice_del i (ac_panels s)\<rparr>;
                s = (if ac_panels s \<noteq> [] \<and> acc_selected s = None then acc_select E (ByIndex 0) s else s)
            in Some (ac_emit (AcRemove title i) s))"

definition acc_initial :: "acc_env \<Rightarrow> accordion \<Rightarrow> accordion" where
  "acc_initial E s =
     (let k = (case index_where ap_want (ac_panels s) of Some i \<Rightarrow> int i | None \<Rightarrow> ac_selectedOpt s); a = ac_animate s
      in (acc_select E (ByIndex k) (s\<lparr>ac_animate := False\<rparr>))\<lparr>ac_animate := a\<rparr>)"

definition acc_create :: "acc_env \<Rightarrow> acc_spec list \<Rightarrow> accordion \<Rightarrow> accordion" where
  "acc_create E os s = acc_initial E (fold (\<lambda>o' s. acc_put E o' (as_selected o' = Some True) s) os (s\<lparr>ac_panels := []\<rparr>))"

section \<open>The faces of the panels\<close>

text \<open>Whether a panel is expanded when its animation is over, and what its header shows.\<close>

definition target :: "acc_panel \<Rightarrow> bool" where
  "target p = (case pl_inner (ap_panel p) of Some Expanding \<Rightarrow> True | Some Collapsing \<Rightarrow> False | None \<Rightarrow> \<not> ap_collapsed p)"

record face =
  fc_open :: bool
  fc_marked :: bool
  fc_arrow :: bool
  fc_can :: bool
  fc_title :: "string option"

definition face :: "acc_panel \<Rightarrow> face" where
  "face p = \<lparr>fc_open = target p, fc_marked = ap_selected p, fc_arrow = ap_arrow p, fc_can = ap_collapsible p, fc_title = ap_title p\<rparr>"

definition faces :: "accordion \<Rightarrow> face list" where
  "faces s = map face (ac_panels s)"

definition shut :: "face \<Rightarrow> face" where
  "shut f = f\<lparr>fc_open := False, fc_marked := False, fc_arrow := True\<rparr>"

definition unfold_face :: "face \<Rightarrow> face" where
  "unfold_face f = f\<lparr>fc_open := True, fc_marked := True, fc_arrow := False\<rparr>"

definition calm :: "accordion \<Rightarrow> bool" where
  "calm s \<longleftrightarrow> (\<forall>p\<in>set (ac_panels s). pl_inner (ap_panel p) = None)"

definition same_opts :: "accordion \<Rightarrow> accordion \<Rightarrow> bool" where
  "same_opts s t \<longleftrightarrow> ac_multiple t = ac_multiple s \<and> ac_animate t = ac_animate s \<and> length (ac_panels t) = length (ac_panels s)"

definition face_ok :: "face \<Rightarrow> bool" where
  "face_ok f \<longleftrightarrow> fc_marked f = fc_open f \<and> fc_arrow f = (\<not> fc_open f)"

lemma length_faces [simp]: "length (faces s) = length (ac_panels s)"
  by (simp add: faces_def)

lemma nth_faces [simp]: "i < length (ac_panels s) \<Longrightarrow> faces s ! i = face (ac_panels s ! i)"
  by (simp add: faces_def)

lemma faces_emit [simp]: "faces (ac_emit e s) = faces s" "calm (ac_emit e s) = calm s" "same_opts s (ac_emit e t) = same_opts s t"
  "ac_panels (ac_emit e s) = ac_panels s" "ac_multiple (ac_emit e s) = ac_multiple s" "ac_animate (ac_emit e s) = ac_animate s"
  by (simp_all add: ac_emit_def faces_def calm_def same_opts_def)

lemma same_opts_refl [simp]: "same_opts s s"
  by (simp add: same_opts_def)

lemma same_opts_trans: "same_opts s t \<Longrightarrow> same_opts t u \<Longrightarrow> same_opts s u"
  by (simp add: same_opts_def)

lemma upd_acc_fields [simp]:
  "ac_panels (upd_acc i f s) = (ac_panels s)[i := f (ac_panels s ! i)]" "ac_multiple (upd_acc i f s) = ac_multiple s"
  "ac_animate (upd_acc i f s) = ac_animate s" "same_opts s (upd_acc i f s)"
  by (simp_all add: upd_acc_def same_opts_def)

lemma faces_upd: "i < length (ac_panels s) \<Longrightarrow> faces (upd_acc i f s) = (faces s)[i := face (f (ac_panels s ! i))]"
  by (simp add: faces_def map_update)

lemma load_fields [simp]:
  "pl_inner (load_panel E p) = pl_inner p" "pl_collapsed (load_panel E p) = pl_collapsed p"
  by (auto simp: load_panel_def split: option.split)

lemma end_fields [simp]:
  "pl_inner (collapse_end p) = None" "pl_collapsed (collapse_end p)" "pl_title (collapse_end p) = pl_title p" "pl_collapsible (collapse_end p) = pl_collapsible p"
  "pl_inner (expand_end E p) = None" "\<not> pl_collapsed (expand_end E p)" "pl_title (expand_end E p) = pl_title p" "pl_collapsible (expand_end E p) = pl_collapsible p"
  by (simp_all add: collapse_end_def expand_end_def pl_emit_def)

lemma face_ends:
  "face (on_body collapse_end p) = (face p)\<lparr>fc_open := False\<rparr>" "face (on_body (expand_end E) p) = (face p)\<lparr>fc_open := True\<rparr>"
  by (simp_all add: face_def target_def on_body_def ap_collapsed_def ap_collapsible_def ap_title_def)

lemma upd_same: "faces s ! i = f \<Longrightarrow> (faces s)[i := f] = faces s"
  by auto

lemma stop_at_facts:
  assumes "i < length (ac_panels s)"
  shows "faces (stop_at E i s) = faces s" and "same_opts s (stop_at E i s)"
    and "pl_inner (ap_panel (ac_panels (stop_at E i s) ! i)) = None"
    and "j \<noteq> i \<Longrightarrow> ac_panels (stop_at E i s) ! j = ac_panels s ! j"
proof -
  have f: "(face p)\<lparr>fc_open := target p\<rparr> = face p" for p by (simp add: face_def)
  consider (none) "pl_inner (ap_panel (ac_panels s ! i)) = None" | (c) "pl_inner (ap_panel (ac_panels s ! i)) = Some Collapsing"
    | (e) "pl_inner (ap_panel (ac_panels s ! i)) = Some Expanding" by (metis inner_anim.exhaust option.exhaust)
  then have "faces (stop_at E i s) = faces s \<and> same_opts s (stop_at E i s) \<and> pl_inner (ap_panel (ac_panels (stop_at E i s) ! i)) = None
      \<and> (j \<noteq> i \<longrightarrow> ac_panels (stop_at E i s) ! j = ac_panels s ! j)"
  proof cases
    case none
    then show ?thesis by (simp add: stop_at_def)
  next
    case c
    then have "target (ac_panels s ! i) = False" by (simp add: target_def)
    with f [of "ac_panels s ! i"] have "(faces s)[i := face (on_body collapse_end (ac_panels s ! i))] = faces s"
      using assms by (intro upd_same) (simp add: face_ends)
    with c assms show ?thesis by (simp add: stop_at_def collapsed_at_def faces_upd on_body_def)
  next
    case e
    then have "target (ac_panels s ! i) = True" by (simp add: target_def)
    with f [of "ac_panels s ! i"] have "(faces s)[i := face (on_body (expand_end (env_at E i s)) (ac_panels s ! i))] = faces s"
      using assms by (intro upd_same) (simp add: face_ends)
    with e assms show ?thesis by (simp add: stop_at_def expanded_at_def faces_upd on_body_def)
  qed
  then show "faces (stop_at E i s) = faces s" "same_opts s (stop_at E i s)" "pl_inner (ap_panel (ac_panels (stop_at E i s) ! i)) = None"
    "j \<noteq> i \<Longrightarrow> ac_panels (stop_at E i s) ! j = ac_panels s ! j" by blast+
qed

lemma stop_all_facts: "faces (stop_all E s) = faces s" "same_opts s (stop_all E s)" "calm (stop_all E s)"
proof -
  have "n \<le> length (ac_panels s) \<Longrightarrow> faces (fold (stop_at E) [0..<n] s) = faces s \<and> same_opts s (fold (stop_at E) [0..<n] s)
      \<and> (\<forall>i<n. pl_inner (ap_panel (ac_panels (fold (stop_at E) [0..<n] s) ! i)) = None)" for n
  proof (induction n)
    case (Suc n)
    let ?t = "fold (stop_at E) [0..<n] s"
    have l: "n < length (ac_panels ?t)" using Suc by (simp add: same_opts_def)
    note f = stop_at_facts [OF l, where E = E]
    have "\<forall>i<Suc n. pl_inner (ap_panel (ac_panels (stop_at E n ?t) ! i)) = None"
      using f(3) f(4) Suc by (metis Suc_leD less_Suc_eq)
    then show ?case using f(1,2) Suc same_opts_trans by (auto simp: fold_append)
  qed simp
  from this [of "length (ac_panels s)"] show "faces (stop_all E s) = faces s" "same_opts s (stop_all E s)" "calm (stop_all E s)"
    by (auto simp: stop_all_def calm_def same_opts_def in_set_conv_nth)
qed

lemma calm_stop: "calm s \<Longrightarrow> i < length (ac_panels s) \<Longrightarrow> stop_at E i s = s"
  by (simp add: stop_at_def calm_def)

lemma calm_target: "calm s \<Longrightarrow> i < length (ac_panels s) \<Longrightarrow> fc_open (faces s ! i) = (\<not> ap_collapsed (ac_panels s ! i))"
  by (simp add: face_def target_def calm_def)

lemma face_marks:
  "face (p\<lparr>ap_selected := b, ap_arrow := c\<rparr>) = (face p)\<lparr>fc_marked := b, fc_arrow := c\<rparr>"
  by (simp add: face_def target_def ap_collapsed_def ap_collapsible_def ap_title_def split: option.split inner_anim.split)

lemma face_begin:
  "face (on_body (begin_collapse True) p) = (face p)\<lparr>fc_open := False\<rparr>"
  "face (on_body (begin_expand E True) p) = (face p)\<lparr>fc_open := True\<rparr>"
  "face (on_body (\<lambda>p. p\<lparr>pl_expandTool := x\<rparr>) q) = face q"
  "face (on_body (\<lambda>p. p\<lparr>pl_expandTool := (pl_header p \<and> pl_collapsible p)\<rparr>) q) = face q"
  by (simp_all add: face_def target_def on_body_def begin_collapse_def begin_expand_def ap_collapsed_def ap_collapsible_def ap_title_def Let_def
      split: option.split inner_anim.split)

lemma face_ok_shut: "face_ok f \<Longrightarrow> \<not> fc_open f \<Longrightarrow> shut f = f"
  by (simp add: face_ok_def shut_def)

definition no_refuse :: "acc_env \<Rightarrow> bool" where
  "no_refuse E \<longleftrightarrow> (\<forall>x. pe_before (ae_panel E x) BeforeCollapse)"

lemma collapse_faces:
  assumes "calm s" and "i < length (ac_panels s)" and "no_refuse E" and "face_ok (faces s ! i)"
  shows "faces (collapse_at E i s) = (faces s)[i := shut (faces s ! i)]" and "same_opts s (collapse_at E i s)"
proof -
  have "faces (collapse_at E i s) = (faces s)[i := shut (faces s ! i)] \<and> same_opts s (collapse_at E i s)"
  proof (cases "ap_collapsed (ac_panels s ! i)")
    case True
    then have "shut (faces s ! i) = faces s ! i" using calm_target [OF assms(1,2)] assms(4) by (simp add: face_ok_shut)
    with True show ?thesis by (simp add: collapse_at_def)
  next
    case False
    let ?t = "upd_acc i (\<lambda>p. p\<lparr>ap_selected := False, ap_arrow := True\<rparr>) s"
    have e: "pe_before (env_at E i s) BeforeCollapse" using assms(3) by (simp add: env_at_def no_refuse_def)
    have c: "collapse_at E i s = (if ac_animate s then upd_acc i (on_body (begin_collapse True)) ?t
          else collapsed_at i (upd_acc i (on_body (\<lambda>p. p\<lparr>pl_expandTool := (pl_header p \<and> pl_collapsible p)\<rparr>)) ?t))"
      using False e calm_stop [OF assms(1,2)] by (simp add: collapse_at_def Let_def)
    have sh: "shut (faces s ! i) = (face (ac_panels s ! i))\<lparr>fc_marked := False, fc_arrow := True, fc_open := False\<rparr>" using assms(2) by (simp add: shut_def)
    show ?thesis
      unfolding c sh using assms(2)
      by (simp add: faces_upd face_begin face_marks collapsed_at_def face_ends) (simp add: same_opts_def)
  qed
  then show "faces (collapse_at E i s) = (faces s)[i := shut (faces s ! i)]" "same_opts s (collapse_at E i s)" by blast+
qed

lemma unselect_at_faces:
  assumes "i < length (ac_panels s)" and "no_refuse E" and "face_ok (faces s ! i)"
  shows "faces (acc_unselect_at E i s) = (faces s)[i := shut (faces s ! i)]" and "same_opts s (acc_unselect_at E i s)"
proof -
  have l: "i < length (ac_panels (stop_all E s))" using assms(1) stop_all_facts(2) [of s E] by (simp add: same_opts_def)
  have fo: "face_ok (faces (stop_all E s) ! i)" using assms(3) stop_all_facts(1) [of E s] by (simp only:)
  show "faces (acc_unselect_at E i s) = (faces s)[i := shut (faces s ! i)]"
    using collapse_faces(1) [OF stop_all_facts(3) l assms(2) fo] unfolding acc_unselect_at_def stop_all_facts(1) .
  show "same_opts s (acc_unselect_at E i s)"
    using same_opts_trans [OF stop_all_facts(2) collapse_faces(2) [OF stop_all_facts(3) l assms(2) fo]] unfolding acc_unselect_at_def .
qed

definition all_ok :: "accordion \<Rightarrow> bool" where
  "all_ok s \<longleftrightarrow> (\<forall>f\<in>set (faces s). face_ok f)"

lemma all_okD: "all_ok s \<Longrightarrow> i < length (ac_panels s) \<Longrightarrow> face_ok (faces s ! i)"
  unfolding all_ok_def by (metis length_faces nth_mem)

lemma shut_ok [simp]: "face_ok (shut f)" "shut (shut f) = shut f" "fc_can (shut f) = fc_can f" "fc_title (shut f) = fc_title f" "\<not> fc_open (shut f)"
  by (simp_all add: face_ok_def shut_def)

lemma unfold_ok [simp]: "face_ok (unfold_face f)" "fc_can (unfold_face f) = fc_can f" "fc_title (unfold_face f) = fc_title f" "fc_open (unfold_face f)"
  by (simp_all add: face_ok_def unfold_face_def)

lemma fold_unselect:
  assumes "all_ok s" and "no_refuse E" and "\<forall>i\<in>set is. i < length (ac_panels s)"
  shows "faces (fold (acc_unselect_at E) is s) = map (\<lambda>i. if i \<in> set is then shut (faces s ! i) else faces s ! i) [0..<length (ac_panels s)]"
    and "same_opts s (fold (acc_unselect_at E) is s)"
proof -
  have "faces (fold (acc_unselect_at E) is s) = map (\<lambda>i. if i \<in> set is then shut (faces s ! i) else faces s ! i) [0..<length (ac_panels s)]
    \<and> same_opts s (fold (acc_unselect_at E) is s)"
    using assms
  proof (induction "is" arbitrary: s)
    case Nil
    have "map ((!) (faces s)) [0..<length (ac_panels s)] = faces s" by (metis length_faces map_nth)
    then show ?case by simp
  next
    case (Cons i "is")
    have i: "i < length (ac_panels s)" using Cons.prems(3) by simp
    note u = unselect_at_faces [OF i assms(2) all_okD [OF Cons.prems(1) i]]
    let ?t = "acc_unselect_at E i s"
    have ok: "all_ok ?t" using Cons.prems(1) set_update_subset_insert [of "faces s" i "shut (faces s ! i)"]
      unfolding all_ok_def u(1) by auto
    have l: "length (ac_panels ?t) = length (ac_panels s)" using u(2) by (simp add: same_opts_def)
    have IH: "faces (fold (acc_unselect_at E) is ?t) = map (\<lambda>i. if i \<in> set is then shut (faces ?t ! i) else faces ?t ! i) [0..<length (ac_panels s)]"
      "same_opts ?t (fold (acc_unselect_at E) is ?t)"
      using Cons.IH [OF ok assms(2)] Cons.prems(3) l by simp_all
    have "faces (fold (acc_unselect_at E) is ?t) = map (\<lambda>j. if j \<in> set (i # is) then shut (faces s ! j) else faces s ! j) [0..<length (ac_panels s)]"
      unfolding IH(1) u(1) using i by (intro map_cong [OF refl]) (auto simp: nth_list_update)
    then show ?case using same_opts_trans [OF u(2) IH(2)] by simp
  qed
  then show "faces (fold (acc_unselect_at E) is s) = map (\<lambda>i. if i \<in> set is then shut (faces s ! i) else faces s ! i) [0..<length (ac_panels s)]"
    "same_opts s (fold (acc_unselect_at E) is s)" by blast+
qed

lemma others_faces:
  assumes "all_ok s" and "no_refuse E" and "calm s"
  shows "faces (fold_others E s) = map (\<lambda>f. if \<not> ac_multiple s \<and> fc_can f then shut f else f) (faces s)" and "same_opts s (fold_others E s)"
proof -
  let ?is = "filter (\<lambda>i. ap_collapsible (ac_panels s ! i)) (acc_selections s)"
  have b: "\<forall>i\<in>set ?is. i < length (ac_panels s)" by (auto simp: acc_selections_def)
  note f = fold_unselect [OF assms(1,2) b]
  have eq: "(if i \<in> set ?is then shut (faces s ! i) else faces s ! i) = (if fc_can (faces s ! i) then shut (faces s ! i) else faces s ! i)"
    if "i < length (ac_panels s)" for i
  proof (cases "fc_can (faces s ! i) \<and> i \<notin> set ?is")
    case True
    then have "\<not> fc_open (faces s ! i)" using that calm_target [OF assms(3) that] by (auto simp: acc_selections_def face_def)
    then show ?thesis using True face_ok_shut [OF all_okD [OF assms(1) that]] by simp
  next
    case False
    have c: "fc_can (faces s ! i)" if "i \<in> set ?is" using that \<open>i < length (ac_panels s)\<close> by (simp add: face_def)
    show ?thesis
    proof (cases "i \<in> set ?is")
      case True
      then show ?thesis using c [OF True] by (simp only: if_True)
    next
      case no: False
      then have "\<not> fc_can (faces s ! i)" using False by blast
      then show ?thesis using no by (simp only: if_False)
    qed
  qed
  have "faces (fold (acc_unselect_at E) ?is s) = map (\<lambda>i. if fc_can (faces s ! i) then shut (faces s ! i) else faces s ! i) [0..<length (ac_panels s)]"
    unfolding f(1)
  proof (rule map_cong [OF refl])
    fix i assume "i \<in> set [0..<length (ac_panels s)]"
    then have "i < length (ac_panels s)" by simp
    then show "(if i \<in> set ?is then shut (faces s ! i) else faces s ! i) = (if fc_can (faces s ! i) then shut (faces s ! i) else faces s ! i)" by (rule eq)
  qed
  also have "\<dots> = map (\<lambda>f. if fc_can f then shut f else f) (map ((!) (faces s)) [0..<length (faces s)])" by (simp add: comp_def)
  finally have g: "faces (fold (acc_unselect_at E) ?is s) = map (\<lambda>f. if fc_can f then shut f else f) (faces s)" unfolding map_nth .
  show "faces (fold_others E s) = map (\<lambda>f. if \<not> ac_multiple s \<and> fc_can f then shut f else f) (faces s)"
    using g by (cases "ac_multiple s") (simp_all add: fold_others_def del: length_faces)
  show "same_opts s (fold_others E s)" using f(2) by (simp add: fold_others_def)
qed

text \<open>What expanding does to the faces, and to the rest.\<close>

definition open_faces :: "bool \<Rightarrow> nat \<Rightarrow> face list \<Rightarrow> face list" where
  "open_faces many i fs =
     (if fc_open (fs ! i) then fs
      else (map (\<lambda>f. if \<not> many \<and> fc_can f then shut f else f) fs)[i := unfold_face (fs ! i)])"

lemma expand_faces:
  assumes "calm s" and "i < length (ac_panels s)" and "no_refuse E" and "all_ok s"
  shows "faces (expand_at E i s) = faces s \<or> faces (expand_at E i s) = open_faces (ac_multiple s) i (faces s)"
    and "pe_before (ae_panel E (ap_title (ac_panels s ! i))) BeforeExpand \<Longrightarrow> faces (expand_at E i s) = open_faces (ac_multiple s) i (faces s)"
    and "same_opts s (expand_at E i s)"
proof -
  have eq: "faces (expand_at E i s) = (if pe_before (ae_panel E (ap_title (ac_panels s ! i))) BeforeExpand
        then open_faces (ac_multiple s) i (faces s) else faces s) \<and> same_opts s (expand_at E i s)"
  proof (cases "ap_collapsed (ac_panels s ! i)")
    case False
    then show ?thesis using calm_target [OF assms(1,2)] by (simp add: expand_at_def open_faces_def)
  next
    case True
    note c = calm_stop [OF assms(1,2)]
    show ?thesis
    proof (cases "pe_before (ae_panel E (ap_title (ac_panels s ! i))) BeforeExpand")
      case False
      with True c show ?thesis by (simp add: expand_at_def env_at_def Let_def)
    next
      case e: True
      note o = others_faces [OF assms(4,3,1)]
      define u where "u = fold_others E s"
      define t where "t = upd_acc i (\<lambda>p. p\<lparr>ap_selected := True, ap_arrow := False\<rparr>) u"
      have l: "i < length (ac_panels u)" "length (ac_panels t) = length (ac_panels s)" "same_opts s t"
        using o(2) assms(2) by (simp_all add: u_def t_def same_opts_def)
      have x: "expand_at E i s = (if ac_animate t then upd_acc i (on_body (begin_expand (env_at E i t) True)) t
            else expanded_at E i (upd_acc i (on_body (\<lambda>p. p\<lparr>pl_expandTool := False\<rparr>)) t))"
        using True e c by (simp add: expand_at_def env_at_def Let_def t_def u_def)
      have fu: "face (ac_panels u ! i) = (if \<not> ac_multiple s \<and> fc_can (faces s ! i) then shut (faces s ! i) else faces s ! i)"
        using arg_cong [OF o(1), of "\<lambda>l. l ! i"] l(1) assms(2) by (simp add: u_def)
      have ft: "faces t = (faces u)[i := (face (ac_panels u ! i))\<lparr>fc_marked := True, fc_arrow := False\<rparr>]"
        using l(1) by (simp add: t_def faces_upd face_marks)
      have un: "(face (ac_panels u ! i))\<lparr>fc_marked := True, fc_arrow := False, fc_open := True\<rparr> = unfold_face (faces s ! i)"
        unfolding fu by (simp add: unfold_face_def shut_def)
      have it: "i < length (ac_panels t)" using l assms(2) by simp
      have fti: "face (ac_panels t ! i) = (face (ac_panels u ! i))\<lparr>fc_marked := True, fc_arrow := False\<rparr>"
        using l(1) by (simp add: t_def face_marks)
      have "faces (expand_at E i s) = (faces t)[i := unfold_face (faces s ! i)]"
        unfolding x using it un fti by (simp add: faces_upd face_begin expanded_at_def face_ends)
      also have "\<dots> = (faces u)[i := unfold_face (faces s ! i)]" unfolding ft by simp
      finally have "faces (expand_at E i s) = open_faces (ac_multiple s) i (faces s)"
        using calm_target [OF assms(1,2)] True by (simp add: open_faces_def u_def o(1))
      moreover have "same_opts s (expand_at E i s)"
        unfolding x using l(3) by (auto simp: expanded_at_def intro: same_opts_trans) (simp add: same_opts_def)
      ultimately show ?thesis using e by simp
    qed
  qed
  then show "faces (expand_at E i s) = faces s \<or> faces (expand_at E i s) = open_faces (ac_multiple s) i (faces s)"
    "pe_before (ae_panel E (ap_title (ac_panels s ! i))) BeforeExpand \<Longrightarrow> faces (expand_at E i s) = open_faces (ac_multiple s) i (faces s)"
    "same_opts s (expand_at E i s)" by (auto split: if_splits)
qed

lemma find_panel_bound: "find_panel k s = Some i \<Longrightarrow> i < length (ac_panels s)"
  by (auto simp: find_panel_def split: tab_key.splits if_splits dest: index_where_Some)

lemma ok_stop: "all_ok s \<Longrightarrow> all_ok (stop_all E s)"
  by (simp add: all_ok_def stop_all_facts)

lemma select_faces:
  assumes "all_ok s" and "no_refuse E" and "find_panel k s = Some i"
  shows "faces (acc_select E k s) = faces s \<or> faces (acc_select E k s) = open_faces (ac_multiple s) i (faces s)"
    and "pe_before (ae_panel E (ap_title (ac_panels s ! i))) BeforeExpand \<Longrightarrow> faces (acc_select E k s) = open_faces (ac_multiple s) i (faces s)"
    and "same_opts s (acc_select E k s)"
proof -
  note ib = find_panel_bound [OF assms(3)]
  have l: "i < length (ac_panels (stop_all E s))" "ac_multiple (stop_all E s) = ac_multiple s"
    using ib stop_all_facts(2) [of s E] by (simp_all add: same_opts_def)
  have "ap_title (ac_panels (stop_all E s) ! i) = ap_title (ac_panels s ! i)"
    using arg_cong [OF stop_all_facts(1), of "\<lambda>fs. fc_title (fs ! i)" E s] l(1) ib by (simp add: face_def)
  with expand_faces [OF stop_all_facts(3) l(1) assms(2) ok_stop [OF assms(1)]] l(2) same_opts_trans [OF stop_all_facts(2)] stop_all_facts(1) [of E s]
  show "faces (acc_select E k s) = faces s \<or> faces (acc_select E k s) = open_faces (ac_multiple s) i (faces s)"
    "pe_before (ae_panel E (ap_title (ac_panels s ! i))) BeforeExpand \<Longrightarrow> faces (acc_select E k s) = open_faces (ac_multiple s) i (faces s)"
    "same_opts s (acc_select E k s)"
    by (simp_all add: acc_select_def assms(3))
qed

section \<open>One panel is expanded\<close>

definition acc_ok :: "accordion \<Rightarrow> bool" where
  "acc_ok s \<longleftrightarrow> all_ok s \<and> (\<not> ac_multiple s \<longrightarrow> length (filter (\<lambda>f. fc_can f \<and> fc_open f) (faces s)) \<le> 1)"

lemma open_faces_ok:
  assumes "\<forall>f\<in>set fs. face_ok f" and "i < length fs"
  shows "\<forall>f\<in>set (open_faces m i fs). face_ok f"
proof (cases "fc_open (fs ! i)")
  case True
  with assms show ?thesis by (simp add: open_faces_def)
next
  case False
  have "\<forall>f\<in>set (map (\<lambda>f. if \<not> m \<and> fc_can f then shut f else f) fs). face_ok f" using assms(1) by auto
  with False set_update_subset_insert [of "map (\<lambda>f. if \<not> m \<and> fc_can f then shut f else f) fs" i "unfold_face (fs ! i)"]
  show ?thesis by (auto simp: open_faces_def)
qed

lemma filter_upd_one: "filter P fs = [] \<Longrightarrow> length (filter P (fs[i := f])) \<le> 1"
proof (cases "i < length fs")
  case True
  assume e: "filter P fs = []"
  have "filter P (take i fs) = []" "filter P (drop (Suc i) fs) = []"
    using e by (auto simp: filter_empty_conv dest: in_set_takeD in_set_dropD)
  then show ?thesis unfolding upd_conv_take_nth_drop [OF True] by simp
next
  case False
  assume "filter P fs = []"
  with False show ?thesis by (simp add: list_update_beyond)
qed

lemma open_faces_one:
  assumes "length (filter (\<lambda>f. fc_can f \<and> fc_open f) fs) \<le> 1"
  shows "length (filter (\<lambda>f. fc_can f \<and> fc_open f) (open_faces False i fs)) \<le> 1"
proof -
  have "filter (\<lambda>f. fc_can f \<and> fc_open f) (map (\<lambda>f. if fc_can f then shut f else f) fs) = []" by (auto simp: filter_empty_conv)
  from filter_upd_one [OF this] assms show ?thesis by (simp add: open_faces_def)
qed

lemma acc_ok_open: "acc_ok s \<Longrightarrow> i < length (ac_panels s) \<Longrightarrow> faces t = open_faces (ac_multiple s) i (faces s) \<Longrightarrow> same_opts s t \<Longrightarrow> acc_ok t"
  using open_faces_ok [of "faces s" i "ac_multiple s"] open_faces_one [of "faces s" i]
  by (auto simp: acc_ok_def all_ok_def same_opts_def)

lemma acc_ok_same: "acc_ok s \<Longrightarrow> faces t = faces s \<Longrightarrow> ac_multiple t = ac_multiple s \<Longrightarrow> acc_ok t"
  by (simp add: acc_ok_def all_ok_def)

lemma acc_ok_stop: "acc_ok s \<Longrightarrow> acc_ok (stop_all E s)"
  using stop_all_facts(2) [of s E] by (intro acc_ok_same [OF _ stop_all_facts(1)]) (simp_all add: same_opts_def)

lemma acc_select_ok: "acc_ok s \<Longrightarrow> no_refuse E \<Longrightarrow> acc_ok (acc_select E k s)"
proof -
  assume s: "acc_ok s" "no_refuse E"
  show ?thesis
  proof (cases "find_panel k s")
    case None
    with s show ?thesis by (simp add: acc_select_def)
  next
    case (Some i)
    have a: "all_ok s" using s(1) by (simp add: acc_ok_def)
    note f = select_faces [OF a s(2) Some]
    from f(1) show ?thesis
    proof
      assume "faces (acc_select E k s) = faces s"
      with f(3) show ?thesis by (intro acc_ok_same [OF s(1)]) (simp_all add: same_opts_def)
    next
      assume "faces (acc_select E k s) = open_faces (ac_multiple s) i (faces s)"
      with acc_ok_open [OF s(1) find_panel_bound [OF Some] _ f(3)] show ?thesis by blast
    qed
  qed
qed

lemma acc_unselect_ok: "acc_ok s \<Longrightarrow> no_refuse E \<Longrightarrow> acc_ok (acc_unselect E k s)"
proof -
  assume s: "acc_ok s" "no_refuse E"
  show ?thesis
  proof (cases "find_panel k s")
    case None
    with s show ?thesis by (simp add: acc_unselect_def)
  next
    case (Some i)
    have a: "all_ok s" using s(1) by (simp add: acc_ok_def)
    note ib = find_panel_bound [OF Some]
    note u = unselect_at_faces [OF ib s(2) all_okD [OF a ib]]
    have "\<forall>f\<in>set ((faces s)[i := shut (faces s ! i)]). face_ok f"
      using a set_update_subset_insert [of "faces s" i "shut (faces s ! i)"] by (auto simp: all_ok_def)
    moreover have "length (filter (\<lambda>f. fc_can f \<and> fc_open f) ((faces s)[i := shut (faces s ! i)])) \<le> length (filter (\<lambda>f. fc_can f \<and> fc_open f) (faces s))"
    proof -
      have il: "i < length (faces s)" using ib by simp
      have "filter P fs = filter P (take i fs) @ filter P (fs ! i # drop (Suc i) fs)" if "i < length fs" for P and fs :: "face list"
        using id_take_nth_drop [OF that] by (metis filter_append)
      from this [OF il] show ?thesis unfolding upd_conv_take_nth_drop [OF il] by simp
    qed
    then have "\<not> ac_multiple s \<Longrightarrow> length (filter (\<lambda>f. fc_can f \<and> fc_open f) ((faces s)[i := shut (faces s ! i)])) \<le> 1"
      using s(1) unfolding acc_ok_def by (meson le_trans)
    ultimately show ?thesis using u by (simp add: acc_unselect_def Some acc_ok_def all_ok_def same_opts_def)
  qed
qed

lemma new_face:
  assumes "no_refuse E" and "as_collapsed o'"
  shows "face (acc_new E o' w) = \<lparr>fc_open = False, fc_marked = False, fc_arrow = True, fc_can = as_collapsible o', fc_title = as_title o'\<rparr>"
proof -
  let ?q = "panel_defaults\<lparr>pl_title := as_title o', pl_href := as_href o', pl_collapsible := as_collapsible o', pl_collapsed := True, pl_doSize := False\<rparr>"
  let ?E = "ae_panel E (as_title o')"
  have b: "pe_before ?E BeforeCollapse" using assms(1) by (simp add: no_refuse_def)
  have oe: "pl_inner (open_end ?E p) = None \<and> pl_collapsed (open_end ?E p) \<and> pl_title (open_end ?E p) = pl_title p \<and> pl_collapsible (open_end ?E p) = pl_collapsible p"
    if "pl_collapsed p" "pl_inner p = None" "\<not> pl_maximized p" "\<not> pl_restoreTool p" for p
    using that b by (simp add: open_end_def collapse_panel_def stop_inner_def begin_collapse_def collapse_end_def pl_emit_def Let_def)
  have "pl_inner (panel_create ?E c ?q) = None \<and> pl_collapsed (panel_create ?E c ?q) \<and> pl_title (panel_create ?E c ?q) = as_title o'
      \<and> pl_collapsible (panel_create ?E c ?q) = as_collapsible o'" for c
  proof -
    define d where "d = draw_panel c ?q"
    have d: "pl_collapsed d" "pl_inner d = None" "\<not> pl_maximized d" "\<not> pl_restoreTool d" "pl_title d = as_title o'" "pl_collapsible d = as_collapsible o'"
      "\<not> pl_closed d" "\<not> pl_minimized d" "\<not> pl_doSize d" "pl_outer d = None" "\<not> pl_openAnim d"
      by (simp_all add: d_def draw_panel_def panel_defaults_def Let_def split: option.split)
    have "panel_create ?E c ?q = (if pe_before ?E BeforeOpen then open_end ?E (d\<lparr>pl_shown := True\<rparr>) else d)"
      using d by (simp add: panel_create_def d_def [symmetric] settle_panel_def open_panel_def begin_open_def stop_outer_def Let_def)
    then show ?thesis using d oe [of "d\<lparr>pl_shown := True\<rparr>"] by simp
  qed
  then show ?thesis
    using assms(2) by (simp add: acc_new_def face_def target_def ap_collapsed_def ap_collapsible_def ap_title_def)
qed

lemma acc_put_ok: "acc_ok s \<Longrightarrow> no_refuse E \<Longrightarrow> as_collapsed o' \<Longrightarrow> acc_ok (acc_put E o' w s)"
proof -
  assume s: "acc_ok s" "no_refuse E" "as_collapsed o'"
  have "faces (acc_put E o' w s) = faces s @ [face (acc_new E o' w)]" by (simp add: acc_put_def faces_def Let_def ac_emit_def)
  moreover have "ac_multiple (acc_put E o' w s) = ac_multiple s" by (simp add: acc_put_def Let_def ac_emit_def)
  ultimately show ?thesis using s(1) new_face [OF s(2,3), of w] by (simp add: acc_ok_def all_ok_def face_ok_def)
qed

lemma acc_add_ok: "acc_ok s \<Longrightarrow> no_refuse E \<Longrightarrow> as_collapsed o' \<Longrightarrow> acc_ok (acc_add E o' s)"
  unfolding acc_add_def Let_def using acc_ok_same [of s "ac_emit e s" for e s]
  by (simp add: acc_select_ok acc_put_ok acc_ok_stop split: option.split)

lemma acc_remove_ok: "acc_ok s \<Longrightarrow> no_refuse E \<Longrightarrow> acc_remove E k s = Some t \<Longrightarrow> acc_ok t"
proof -
  assume s: "acc_ok s" "no_refuse E" "acc_remove E k s = Some t"
  define u where "u = stop_all E s"
  have u: "acc_ok u" using acc_ok_stop [OF s(1)] by (simp add: u_def)
  obtain i where i: "find_panel k u = Some i" using s(3) by (auto simp: acc_remove_def Let_def u_def split: option.splits)
  define v where "v = u\<lparr>ac_panels := splice_del i (ac_panels u)\<rparr>"
  have fv: "faces v = splice_del i (faces u)" "ac_multiple v = ac_multiple u" by (simp_all add: v_def faces_def splice_del_def take_map drop_map)
  have "length (filter P (splice_del i fs)) \<le> length (filter P fs)" for P and fs :: "face list"
  proof -
    have "filter P fs = filter P (take i fs) @ filter P (drop i fs)" by (metis append_take_drop_id filter_append)
    moreover have "length (filter P (drop (Suc i) fs)) \<le> length (filter P (drop i fs))"
      by (cases "i < length fs") (simp_all add: Cons_nth_drop_Suc [symmetric])
    ultimately show ?thesis by (simp add: splice_del_def)
  qed
  then have len: "length (filter P (splice_del i (faces u))) \<le> length (filter P (faces u))" for P by blast
  have ok: "acc_ok v"
    using u len [of "\<lambda>f. fc_can f \<and> fc_open f"] set_splice_del_subset [of i "faces u"] unfolding acc_ok_def all_ok_def fv by (auto intro: le_trans)
  have "t = (if \<not> ae_remove E (ap_title (ac_panels u ! i)) i then u
      else ac_emit (AcRemove (ap_title (ac_panels u ! i)) i) (if ac_panels v \<noteq> [] \<and> acc_selected v = None then acc_select E (ByIndex 0) v else v))"
    using s(3) i unfolding acc_remove_def u_def [symmetric] Let_def
    by (cases "ae_remove E (ap_title (ac_panels u ! i)) i") (auto simp only: option.case option.inject if_True if_False not_True_eq_False not_False_eq_True v_def)
  then show ?thesis using u ok acc_select_ok [OF ok s(2)] acc_ok_same [of w "ac_emit e w" for w e] by simp
qed

text \<open>Every step of the widget, the ends of animations included.\<close>

datatype acc_op =
    AccSelect tab_key | AccUnselect tab_key | AccClick nat | AccAdd acc_spec | AccRemove tab_key | AccFinish | AccInitial

fun acc_step :: "acc_env \<Rightarrow> acc_op \<Rightarrow> accordion \<Rightarrow> accordion option" where
  "acc_step E (AccSelect k) s = Some (acc_select E k s)"
| "acc_step E (AccUnselect k) s = Some (acc_unselect E k s)"
| "acc_step E (AccClick i) s = (if i < length (ac_panels s) then Some (acc_click E i s) else Some s)"
| "acc_step E (AccAdd o') s = (if as_collapsed o' then Some (acc_add E o' s) else None)"
| "acc_step E (AccRemove k) s = acc_remove E k s"
| "acc_step E AccFinish s = Some (stop_all E s)"
| "acc_step E AccInitial s = Some (acc_initial E s)"

definition acc_run :: "acc_env \<Rightarrow> acc_op list \<Rightarrow> accordion \<Rightarrow> accordion" where
  "acc_run E xs s = fold (\<lambda>x s. case acc_step E x s of None \<Rightarrow> s | Some t \<Rightarrow> t) xs s"

lemma acc_initial_ok: "acc_ok s \<Longrightarrow> no_refuse E \<Longrightarrow> acc_ok (acc_initial E s)"
proof -
  assume s: "acc_ok s" "no_refuse E"
  have "acc_ok (s\<lparr>ac_animate := False\<rparr>)" by (rule acc_ok_same [OF s(1)]) (simp_all add: faces_def)
  from acc_select_ok [OF this s(2)] have a: "acc_ok (acc_select E k (s\<lparr>ac_animate := False\<rparr>))" for k .
  show ?thesis unfolding acc_initial_def Let_def by (rule acc_ok_same [OF a]) (simp_all add: faces_def)
qed

lemma acc_step_ok: "acc_ok s \<Longrightarrow> no_refuse E \<Longrightarrow> acc_step E x s = Some t \<Longrightarrow> acc_ok t"
  by (cases x) (auto simp: acc_select_ok acc_unselect_ok acc_add_ok acc_ok_stop acc_initial_ok acc_click_def Let_def
      dest: acc_remove_ok split: if_splits)

lemma acc_run_ok: "acc_ok s \<Longrightarrow> no_refuse E \<Longrightarrow> acc_ok (acc_run E xs s)"
  unfolding acc_run_def using acc_step_ok by (induction xs arbitrary: s) (auto split: option.split)

lemma acc_create_ok: "no_refuse E \<Longrightarrow> list_all as_collapsed os \<Longrightarrow> acc_ok (acc_create E os s)"
proof -
  assume e: "no_refuse E" "list_all as_collapsed os"
  have "list_all as_collapsed os \<Longrightarrow> acc_ok t \<Longrightarrow> acc_ok (fold (\<lambda>o' s. acc_put E o' (as_selected o' = Some True) s) os t)" for os t
    by (induction os arbitrary: t) (simp_all add: acc_put_ok e(1))
  moreover have "acc_ok (s\<lparr>ac_panels := []\<rparr>)" by (simp add: acc_ok_def all_ok_def faces_def)
  ultimately show ?thesis using e by (simp add: acc_create_def acc_initial_ok)
qed

text \<open>
  C17: one panel.  In an accordion that is not \<open>multiple\<close>, made of panels that start collapsed, with no collapse refused,
  after any selecting, unselecting, clicking, adding and removing, and at any time during the animations,
  at most one panel that can be collapsed is expanded or expanding, and the header of every panel is marked,
  and its arrow turned, exactly when the panel is expanded or expanding.
\<close>

theorem acc_one_open:
  assumes "no_refuse E" and "list_all as_collapsed os" and "\<not> ac_multiple (acc_run E xs (acc_create E os s))"
  shows "length (filter (\<lambda>p. ap_collapsible p \<and> target p) (ac_panels (acc_run E xs (acc_create E os s)))) \<le> 1 \<and>
    list_all (\<lambda>p. ap_selected p = target p \<and> ap_arrow p = (\<not> target p)) (ac_panels (acc_run E xs (acc_create E os s)))"
proof -
  have ok: "acc_ok (acc_run E xs (acc_create E os s))" using acc_run_ok [OF acc_create_ok [OF assms(1,2)] assms(1)] .
  have n: "length (filter (\<lambda>f. fc_can f \<and> fc_open f) (faces t)) = length (filter (\<lambda>p. ap_collapsible p \<and> target p) (ac_panels t))" for t
    by (simp add: faces_def filter_map comp_def face_def)
  have "list_all (\<lambda>p. ap_selected p = target p \<and> ap_arrow p = (\<not> target p)) (ac_panels t)" if "all_ok t" for t
    using that by (simp add: all_ok_def faces_def face_ok_def face_def list_all_iff)
  with ok assms(3) show ?thesis unfolding acc_ok_def n by blast
qed

text \<open>
  Selecting a panel that nothing refuses expands it, and collapses, unless the accordion is
  \<open>multiple\<close>, every other panel that can be collapsed; the panels that cannot are left alone.
\<close>

theorem acc_select_exact:
  assumes "t = acc_run E xs (acc_create E os s)" and "no_refuse E" and "list_all as_collapsed os"
    and "find_panel k t = Some i" and "pe_before (ae_panel E (ap_title (ac_panels t ! i))) BeforeExpand" and "\<not> target (ac_panels t ! i)"
  shows "map target (ac_panels (acc_select E k t)) =
    (map (\<lambda>p. target p \<and> (ac_multiple t \<or> \<not> ap_collapsible p)) (ac_panels t))[i := True]"
proof -
  have ok: "all_ok t" using acc_run_ok [OF acc_create_ok [OF assms(2,3)] assms(2)] by (simp add: assms(1) acc_ok_def)
  note ib = find_panel_bound [OF assms(4)]
  have f: "faces (acc_select E k t) = open_faces (ac_multiple t) i (faces t)" by (rule select_faces(2) [OF ok assms(2,4,5)])
  have "map target (ac_panels u) = map fc_open (faces u)" for u by (simp add: faces_def face_def comp_def)
  note m = this
  have "map fc_open (open_faces (ac_multiple t) i (faces t)) =
      (map (\<lambda>f. fc_open f \<and> (ac_multiple t \<or> \<not> fc_can f)) (faces t))[i := True]"
  proof -
    have "fc_open (if \<not> many \<and> fc_can f then shut f else f) = (fc_open f \<and> (many \<or> \<not> fc_can f))" for many f by (simp add: shut_def)
    moreover have "\<not> fc_open (faces t ! i)" using assms(6) ib by (simp add: face_def)
    ultimately show ?thesis by (simp add: open_faces_def map_update comp_def)
  qed
  also have "map (\<lambda>f. fc_open f \<and> (ac_multiple t \<or> \<not> fc_can f)) (faces t) = map (\<lambda>p. target p \<and> (ac_multiple t \<or> \<not> ap_collapsible p)) (ac_panels t)"
    by (simp add: faces_def face_def)
  finally show ?thesis unfolding m f .
qed

text \<open>
  Removing.  After a panel was removed, an accordion with panels left has one that is expanded or expanding,
  when expanding the first is not refused.
\<close>

theorem acc_remove_leaves_open:
  assumes "s = acc_run E xs (acc_create E os s0)" and "no_refuse E" and "list_all as_collapsed os"
    and "\<forall>x. pe_before (ae_panel E x) BeforeExpand" and "acc_remove E k s = Some t" and "length (ac_panels t) < length (ac_panels s)"
    and "ac_panels t \<noteq> []"
  shows "list_ex target (ac_panels t)"
proof -
  have ok: "acc_ok s" using acc_run_ok [OF acc_create_ok [OF assms(2,3)] assms(2)] by (simp add: assms(1))
  define u where "u = stop_all E s"
  have uo: "acc_ok u" "calm u" "length (ac_panels u) = length (ac_panels s)"
    using acc_ok_stop [OF ok] stop_all_facts(2,3) by (simp_all add: u_def same_opts_def)
  obtain i where i: "find_panel k u = Some i" using assms(5) by (auto simp: acc_remove_def Let_def u_def split: option.splits)
  define v where "v = u\<lparr>ac_panels := splice_del i (ac_panels u)\<rparr>"
  have t: "t = (if \<not> ae_remove E (ap_title (ac_panels u ! i)) i then u
      else ac_emit (AcRemove (ap_title (ac_panels u ! i)) i) (if ac_panels v \<noteq> [] \<and> acc_selected v = None then acc_select E (ByIndex 0) v else v))"
    using assms(5) i unfolding acc_remove_def u_def [symmetric] Let_def
    by (cases "ae_remove E (ap_title (ac_panels u ! i)) i") (auto simp only: option.case option.inject if_True if_False not_True_eq_False not_False_eq_True v_def)
  have r: "ae_remove E (ap_title (ac_panels u ! i)) i" using t assms(6) uo(3) by (auto split: if_splits)
  have cv: "calm v" using uo(2) set_splice_del_subset [of i "ac_panels u"] by (auto simp: calm_def v_def)
  have av: "all_ok v" using uo(1) set_splice_del_subset [of i "faces u"]
    by (auto simp: acc_ok_def all_ok_def v_def faces_def splice_del_def take_map drop_map)
  show ?thesis
  proof (cases "ac_panels v \<noteq> [] \<and> acc_selected v = None")
    case True
    then have f0: "find_panel (ByIndex 0) v = Some 0" by (simp add: find_panel_def)
    have f: "faces (acc_select E (ByIndex 0) v) = open_faces (ac_multiple v) 0 (faces v)"
      by (rule select_faces(2) [OF av assms(2) f0]) (use assms(4) in simp)
    have "fc_open (open_faces (ac_multiple v) 0 (faces v) ! 0)" using True by (auto simp: open_faces_def faces_def)
    then have "fc_open (faces t ! 0)" using t r True f by simp
    moreover have "0 < length (faces t)" using assms(7) by simp
    ultimately have "fc_open (faces t ! 0)" "0 < length (faces t)" by blast+
    then have "target (ac_panels t ! 0)" "0 < length (ac_panels t)" by (simp_all add: faces_def face_def)
    then show ?thesis by (auto simp: list_ex_iff)
  next
    case False
    then have tv: "ac_panels t = ac_panels v" using r t unfolding if_not_P [OF False] by simp
    with assms(7) False have "acc_selected v \<noteq> None" by simp
    then obtain j where j: "acc_selected v = Some j" by blast
    then have "j < length (ac_panels v)" "\<not> ap_collapsed (ac_panels v ! j)" by (auto simp: acc_selected_def dest: index_where_Some)
    then have "target (ac_panels v ! j)" using calm_target [OF cv] by (simp add: face_def)
    then show ?thesis using tv \<open>j < length (ac_panels v)\<close> by (auto simp: list_ex_iff)
  qed
qed

text \<open>
  An accordion of a fixed panel and two that can be collapsed: the second one is expanded at first, the
  third is selected, a fourth is added without being selected and the third is removed.
\<close>

definition acc_demo :: "string \<Rightarrow> bool \<Rightarrow> acc_spec" where
  "acc_demo x c = \<lparr>as_title = Some x, as_selected = None, as_collapsible = c, as_collapsed = True, as_href = None, as_content = None\<rparr>"

definition acc_demo_specs :: "acc_spec list" where
  "acc_demo_specs = [acc_demo ''a'' False, (acc_demo ''b'' True)\<lparr>as_selected := Some True\<rparr>, acc_demo ''c'' True]"

definition acc_demo_ops :: "acc_op list" where
  "acc_demo_ops = [AccSelect (ByTitle (Some ''c'')), AccAdd ((acc_demo ''d'' True)\<lparr>as_selected := Some False\<rparr>)]"

theorem acc_one_open_witness:
  "length (filter (\<lambda>p. ap_collapsible p \<and> target p) (ac_panels (acc_run acc_env0 acc_demo_ops (acc_create acc_env0 acc_demo_specs accordion_defaults)))) \<le> 1"
proof -
  have "no_refuse acc_env0" by (simp add: no_refuse_def acc_env0_def panel_env0_def)
  moreover have "list_all as_collapsed acc_demo_specs" by code_simp
  moreover have "\<not> ac_multiple (acc_run acc_env0 acc_demo_ops (acc_create acc_env0 acc_demo_specs accordion_defaults))" by code_simp
  ultimately show ?thesis using acc_one_open [of acc_env0 acc_demo_specs acc_demo_ops accordion_defaults] by blast
qed

theorem acc_select_exact_witness:
  "map target (ac_panels (acc_select acc_env0 (ByIndex 0) (acc_run acc_env0 acc_demo_ops (acc_create acc_env0 acc_demo_specs accordion_defaults)))) =
    (map (\<lambda>p. target p \<and> (ac_multiple (acc_run acc_env0 acc_demo_ops (acc_create acc_env0 acc_demo_specs accordion_defaults)) \<or> \<not> ap_collapsible p))
      (ac_panels (acc_run acc_env0 acc_demo_ops (acc_create acc_env0 acc_demo_specs accordion_defaults))))[0 := True]"
proof -
  have "no_refuse acc_env0" by (simp add: no_refuse_def acc_env0_def panel_env0_def)
  moreover have "list_all as_collapsed acc_demo_specs" by code_simp
  moreover have "find_panel (ByIndex 0) (acc_run acc_env0 acc_demo_ops (acc_create acc_env0 acc_demo_specs accordion_defaults)) = Some 0" by code_simp
  moreover have "pe_before (ae_panel acc_env0 x) BeforeExpand" for x by (simp add: acc_env0_def panel_env0_def)
  moreover have "\<not> target (ac_panels (acc_run acc_env0 acc_demo_ops (acc_create acc_env0 acc_demo_specs accordion_defaults)) ! 0)" by code_simp
  ultimately show ?thesis
    using acc_select_exact [OF refl, of acc_env0 acc_demo_specs "ByIndex 0" acc_demo_ops accordion_defaults 0] by blast
qed

theorem acc_remove_leaves_open_witness:
  "list_ex target (ac_panels (the (acc_remove acc_env0 (ByTitle (Some ''c'')) (acc_run acc_env0 acc_demo_ops (acc_create acc_env0 acc_demo_specs accordion_defaults)))))"
proof -
  let ?s = "acc_run acc_env0 acc_demo_ops (acc_create acc_env0 acc_demo_specs accordion_defaults)"
  have "no_refuse acc_env0" "\<forall>x. pe_before (ae_panel acc_env0 x) BeforeExpand" by (simp_all add: no_refuse_def acc_env0_def panel_env0_def)
  moreover have "list_all as_collapsed acc_demo_specs" by code_simp
  moreover have "acc_remove acc_env0 (ByTitle (Some ''c'')) ?s = Some (the (acc_remove acc_env0 (ByTitle (Some ''c'')) ?s))" by code_simp
  moreover have "length (ac_panels (the (acc_remove acc_env0 (ByTitle (Some ''c'')) ?s))) < length (ac_panels ?s)" by code_simp
  moreover have "ac_panels (the (acc_remove acc_env0 (ByTitle (Some ''c'')) ?s)) \<noteq> []" by code_simp
  ultimately show ?thesis
    using acc_remove_leaves_open [OF refl, of acc_env0 acc_demo_specs "ByTitle (Some ''c'')" acc_demo_ops accordion_defaults] by blast
qed

end
