(* ===== verification/Textbox.thy ===== *)
theory Textbox
  imports Js_Value "HOL-Library.List_Lexorder" "HOL-Library.Char_ord" "HOL-Library.Multiset"
begin

text \<open>
  The text field, \<open>js/plugins/jquery.textbox.js\<close>, and the values of the drop-down field over it,
  \<open>js/plugins/jquery.combo.js\<close>.

  A text field has three texts: the option \<open>value\<close>, what its input shows (the text typed while it has the
  focus, else the value or the prompt) and the hidden input, which is what a form sends.  A drop-down field has
  a list of hidden inputs instead.  Sizes, icons and the position of the panel are left out; \<open>validate\<close>,
  which the code calls at the end of \<open>setText\<close>, gives back what it takes and is left out.
\<close>

section \<open>State\<close>

record textbox =
  tx_value :: string
  tx_input :: string
  tx_hidden :: string
  tx_focus :: bool
  tx_marked :: bool
  tx_prompting :: bool
  tx_prompt :: string
  tx_original :: string
  tx_disabled :: bool
  tx_readonly :: bool
  tx_log :: "(string \<times> string) list"

definition textbox_defaults :: textbox where
  "textbox_defaults = \<lparr>tx_value = [], tx_input = [], tx_hidden = [], tx_focus = False, tx_marked = False, tx_prompting = False,
     tx_prompt = [], tx_original = [], tx_disabled = False, tx_readonly = False, tx_log = []\<rparr>"

section \<open>Texts and values\<close>

definition get_text :: "textbox \<Rightarrow> string" where
  "get_text s = (if tx_focus s then tx_input s else tx_value s)"

definition set_text :: "string \<Rightarrow> textbox \<Rightarrow> textbox" where
  "set_text v s =
     (let s = (if get_text s \<noteq> v then s\<lparr>tx_value := v, tx_input := v\<rparr> else s) in
      if tx_focus s then s
      else if v \<noteq> [] then s\<lparr>tx_prompting := False\<rparr>
      else s\<lparr>tx_input := tx_prompt s, tx_prompting := True\<rparr>)"

definition init_value :: "string \<Rightarrow> textbox \<Rightarrow> textbox" where
  "init_value v s = (set_text v (s\<lparr>tx_value := []\<rparr>))\<lparr>tx_hidden := v\<rparr>"

definition text_set :: "string \<Rightarrow> textbox \<Rightarrow> textbox" where
  "text_set v s =
     (let old = tx_hidden s; s = init_value v s in if old \<noteq> v then s\<lparr>tx_log := tx_log s @ [(v, old)]\<rparr> else s)"

definition clear_text :: "textbox \<Rightarrow> textbox" where
  "clear_text s = text_set [] s"

definition reset_text :: "textbox \<Rightarrow> textbox" where
  "reset_text s = text_set (tx_original s) s"

definition textbox_create :: "string \<Rightarrow> string \<Rightarrow> textbox" where
  "textbox_create prompt v = init_value v (textbox_defaults\<lparr>tx_prompt := prompt, tx_original := v\<rparr>)"

section \<open>The input: \<open>_20\<close> and \<open>inputEvents\<close>\<close>

text \<open>
  The focus moves first, then the handlers run, if the field is neither disabled nor read-only: of the field,
  then the ones of \<open>inputEvents\<close>.
\<close>

definition live :: "textbox \<Rightarrow> bool" where
  "live s \<longleftrightarrow> \<not> tx_disabled s \<and> \<not> tx_readonly s"

definition focus_in :: "textbox \<Rightarrow> textbox" where
  "focus_in s =
     (let s = s\<lparr>tx_focus := True\<rparr> in
      if \<not> live s \<or> tx_marked s then s
      else (s\<lparr>tx_input := tx_value s, tx_prompting := False, tx_marked := True\<rparr>))"

definition blur_text :: "textbox \<Rightarrow> textbox" where
  "blur_text s =
     (if \<not> tx_marked s then s
      else
        let s = s\<lparr>tx_value := tx_input s\<rparr>;
            s = (if tx_value s = [] then s\<lparr>tx_input := tx_prompt s, tx_prompting := True\<rparr> else s\<lparr>tx_prompting := False\<rparr>)
        in s\<lparr>tx_marked := False\<rparr>)"

definition focus_out :: "textbox \<Rightarrow> textbox" where
  "focus_out s =
     (let s = s\<lparr>tx_focus := False\<rparr>
      in if live s then (let s = blur_text s in text_set (tx_value s) s) else s)"

definition press_enter :: "textbox \<Rightarrow> textbox" where
  "press_enter s = (if live s then text_set (get_text s) s else s)"

text \<open>What the browser does with a key in an input that can be edited.\<close>

definition type_text :: "string \<Rightarrow> textbox \<Rightarrow> textbox" where
  "type_text v s = (if tx_focus s \<and> live s then s\<lparr>tx_input := v\<rparr> else s)"

section \<open>The field through its events\<close>

datatype text_op = TFocus | TType string | TEnter | TBlur | TSet string | TClear | TReset

fun text_step :: "text_op \<Rightarrow> textbox \<Rightarrow> textbox" where
  "text_step TFocus s = focus_in s"
| "text_step (TType v) s = type_text v s"
| "text_step TEnter s = (if tx_focus s then press_enter s else s)"
| "text_step TBlur s = (if tx_focus s then focus_out s else s)"
| "text_step (TSet v) s = text_set v s"
| "text_step TClear s = clear_text s"
| "text_step TReset s = reset_text s"

definition text_run :: "text_op list \<Rightarrow> textbox \<Rightarrow> textbox" where
  "text_run ps s = fold text_step ps s"

text \<open>A field at rest shows its value, or the prompt when that is empty, and sends what it shows.\<close>

definition at_rest :: "textbox \<Rightarrow> bool" where
  "at_rest s \<longleftrightarrow> \<not> tx_focus s \<and> \<not> tx_marked s \<and> tx_hidden s = tx_value s \<and> tx_prompting s = (tx_value s = [])
     \<and> tx_input s = (if tx_value s = [] then tx_prompt s else tx_value s)"

definition in_use :: "textbox \<Rightarrow> bool" where
  "in_use s \<longleftrightarrow> tx_focus s \<and> tx_marked s \<and> \<not> tx_prompting s"

text \<open>The changes told form a chain: each starts at the value where the one before ended.\<close>

fun chain :: "'a \<Rightarrow> ('a \<times> 'a) list \<Rightarrow> 'a \<Rightarrow> bool" where
  "chain x [] y = (x = y)"
| "chain x ((b, a) # cs) y = (x = a \<and> a \<noteq> b \<and> chain b cs y)"

lemma chain_snoc: "chain x (cs @ [(b, a)]) y = (chain x cs a \<and> a \<noteq> b \<and> y = b)"
  by (induction cs arbitrary: x) auto

definition field_ok :: "string \<Rightarrow> textbox \<Rightarrow> bool" where
  "field_ok v s \<longleftrightarrow> live s \<and> (at_rest s \<or> in_use s) \<and> chain v (tx_log s) (tx_hidden s)"

lemma text_set_facts [simp]:
  "live (text_set v s) = live s" "tx_focus (text_set v s) = tx_focus s" "tx_marked (text_set v s) = tx_marked s"
  "tx_hidden (text_set v s) = v" "tx_prompt (text_set v s) = tx_prompt s"
  "tx_log (text_set v s) = tx_log s @ (if tx_hidden s = v then [] else [(v, tx_hidden s)])"
  by (simp_all add: text_set_def init_value_def set_text_def live_def Let_def)

lemma text_set_rest: "\<not> tx_focus s \<Longrightarrow> \<not> tx_marked s \<Longrightarrow> at_rest (text_set v s)"
  by (simp add: text_set_def init_value_def set_text_def at_rest_def get_text_def Let_def)

lemma text_set_use: "in_use s \<Longrightarrow> in_use (text_set v s)"
  by (simp add: text_set_def init_value_def set_text_def in_use_def Let_def)

lemma field_set: "field_ok x s \<Longrightarrow> field_ok x (text_set v s)"
  unfolding field_ok_def using text_set_use [of s v] text_set_rest [of s v]
  by (auto simp: chain_snoc at_rest_def [of s])

lemma field_step: "field_ok x s \<Longrightarrow> field_ok x (text_step p s)"
proof (cases p)
  case TFocus
  assume "field_ok x s"
  with TFocus show ?thesis by (auto simp: field_ok_def focus_in_def live_def in_use_def at_rest_def Let_def)
next
  case (TType v)
  assume "field_ok x s"
  with TType show ?thesis by (auto simp: field_ok_def type_text_def live_def in_use_def at_rest_def)
next
  case TBlur
  assume ok: "field_ok x s"
  show ?thesis
  proof (cases "tx_focus s")
    case True
    define t where "t = blur_text (s\<lparr>tx_focus := False\<rparr>)"
    have "\<not> tx_focus t" "\<not> tx_marked t" "live t" "tx_hidden t = tx_hidden s" "tx_log t = tx_log s"
      using ok True by (auto simp: t_def field_ok_def blur_text_def live_def in_use_def at_rest_def Let_def)
    moreover have "text_step p s = text_set (tx_value t) t"
      using TBlur True ok by (simp add: t_def focus_out_def field_ok_def live_def Let_def)
    ultimately show ?thesis using ok text_set_rest [of t "tx_value t"] by (auto simp: field_ok_def chain_snoc)
  qed (use TBlur ok in simp)
qed (auto simp: press_enter_def clear_text_def reset_text_def intro: field_set)

text \<open>
  C29: a text field never takes its prompt for a value.  After any focusing, typing, pressing of Enter, leaving,
  setting, clearing and resetting, a field without the focus sends the text it shows, the prompt is shown exactly when
  that is empty, and the changes reported form a chain from the first value to the present one
  in which no step is idle.
\<close>

theorem text_field:
  assumes "s = text_run ps (textbox_create prompt v)"
  shows "(\<not> tx_focus s \<longrightarrow> tx_hidden s = get_text s \<and> tx_prompting s = (get_text s = []) \<and>
      tx_input s = (if get_text s = [] then prompt else get_text s)) \<and> chain v (tx_log s) (tx_hidden s)"
proof -
  have "field_ok v (textbox_create prompt v)"
    by (simp add: field_ok_def textbox_create_def textbox_defaults_def init_value_def set_text_def live_def at_rest_def get_text_def Let_def)
  then have "field_ok v s" unfolding assms text_run_def by (induction ps rule: rev_induct) (simp_all add: field_step)
  moreover have "tx_prompt s = prompt"
  proof -
    have "tx_prompt (text_step p u) = tx_prompt u" for p u
      by (cases p) (simp_all add: focus_in_def type_text_def press_enter_def focus_out_def blur_text_def clear_text_def reset_text_def Let_def)
    then have "tx_prompt (fold text_step ps u) = tx_prompt u" for u by (induction ps arbitrary: u) simp_all
    then show ?thesis
      unfolding assms text_run_def by (simp add: textbox_create_def textbox_defaults_def init_value_def set_text_def Let_def)
  qed
  ultimately show ?thesis by (auto simp: field_ok_def at_rest_def in_use_def get_text_def)
qed

theorem text_field_witness:
  "chain ''a'' (tx_log (text_run [TFocus, TType ''bc'', TEnter, TType [], TBlur] (textbox_create ''name'' ''a''))) []"
proof -
  let ?s = "text_run [TFocus, TType ''bc'', TEnter, TType [], TBlur] (textbox_create ''name'' ''a'')"
  have "chain ''a'' (tx_log ?s) (tx_hidden ?s)" using text_field [OF refl, of "[TFocus, TType ''bc'', TEnter, TType [], TBlur]" "''name''" "''a''"] by blast
  moreover have "tx_hidden ?s = []" by code_simp
  ultimately show ?thesis by simp
qed

text \<open>After Enter the option \<open>value\<close> is empty until the field is left: the text shown was the one to be set.\<close>

lemma enter_empties:
  assumes "tx_focus s" and "live s" and "tx_input s \<noteq> []"
  shows "tx_value (press_enter s) = [] \<and> tx_hidden (press_enter s) = tx_input s"
  using assms by (simp add: press_enter_def text_set_def init_value_def set_text_def get_text_def Let_def)

end
