(* ===== verification/Combo.thy ===== *)
theory Combo
  imports Textbox
begin

text \<open>
  The values of a drop-down field, \<open>js/plugins/jquery.combo.js\<close>, and the list to choose them from,
  \<open>js/plugins/jquery.combobox.js\<close>.

  The values are the hidden inputs, in order; the text is the one of the text field (theory Textbox).
  The list is drawn from the rows: one item for each row, found again by the number in its id, and one
  header for each run of rows of a group.  The values and the texts of rows are texts.  The panel is open
  or not; its place and the scrolling of the list are left out.
\<close>

section \<open>The drop-down field\<close>

datatype combo_event =
    CoChange "string list" "string list" | CoShow | CoHide | CoSelect string | CoUnselect string | CoLoaded

record combo =
  co_box :: textbox
  co_values :: "string list"
  co_multiple :: bool
  co_separator :: char
  co_previous :: string
  co_original :: "string list"
  co_open :: bool
  co_log :: "combo_event list"

definition co_emit :: "combo_event \<Rightarrow> 'a combo_scheme \<Rightarrow> 'a combo_scheme" where
  "co_emit e s = s\<lparr>co_log := co_log s @ [e]\<rparr>"

definition values_differ :: "string list \<Rightarrow> string list \<Rightarrow> bool" where
  "values_differ a b \<longleftrightarrow> length a \<noteq> length b \<or> sort a \<noteq> sort b"

definition combo_text :: "string \<Rightarrow> 'a combo_scheme \<Rightarrow> 'a combo_scheme" where
  "combo_text v s = (if get_text (co_box s) \<noteq> v then s\<lparr>co_box := set_text v (co_box s), co_previous := v\<rparr> else s)"

definition combo_values :: "string list \<Rightarrow> 'a combo_scheme \<Rightarrow> 'a combo_scheme" where
  "combo_values vs s =
     (let old = co_values s; s = s\<lparr>co_values := vs\<rparr> in
      if \<not> values_differ old vs then s
      else if co_multiple s then co_emit (CoChange vs old) s
      else co_emit (CoChange (take 1 vs) (take 1 old)) s)"

definition show_combo :: "'a combo_scheme \<Rightarrow> 'a combo_scheme" where
  "show_combo s = (if co_open s then s else co_emit CoShow (s\<lparr>co_open := True\<rparr>))"

definition hide_combo :: "'a combo_scheme \<Rightarrow> 'a combo_scheme" where
  "hide_combo s = co_emit CoHide (s\<lparr>co_open := False\<rparr>)"

definition clear_combo :: "'a combo_scheme \<Rightarrow> 'a combo_scheme" where
  "clear_combo s =
     (let s = s\<lparr>co_box := set_text [] (co_box s)\<rparr> in combo_values (if co_multiple s then [] else [[]]) s)"

definition reset_combo :: "'a combo_scheme \<Rightarrow> 'a combo_scheme" where
  "reset_combo s = combo_values (co_original s) s"

text \<open>The change told at the start is thrown away: \<open>_42\<close> puts an empty callback in its place.\<close>

definition init_combo :: "'a combo_scheme \<Rightarrow> 'a combo_scheme" where
  "init_combo s =
     (let v = tx_value (co_box s)
      in s\<lparr>co_values := (if co_multiple s then (if v = [] then [] else js_split (co_separator s) v) else [v])\<rparr>)"

section \<open>The rows and the list\<close>

record crow =
  cr_value :: string
  cr_text :: string
  cr_group :: "string option"
  cr_selected :: bool
  cr_disabled :: bool

record citem =
  ci_selected :: bool
  ci_hover :: bool
  ci_visible :: bool
  ci_disabled :: bool

record combobox = combo +
  bx_data :: "crow list"
  bx_items :: "citem list"
  bx_groups :: "(string \<times> bool) list"
  bx_remote :: bool
  bx_url :: string
  bx_nav :: bool
  bx_asked :: "(string option \<times> bool) list"

record box_env =
  be_filter :: "string \<Rightarrow> crow \<Rightarrow> bool"
  be_load :: "string option \<Rightarrow> bool"

definition default_filter :: "string \<Rightarrow> crow \<Rightarrow> bool" where
  "default_filter q r = starts_with (map to_lower q) (map to_lower (cr_text r))"

definition box_env0 :: box_env where
  "box_env0 = \<lparr>be_filter = default_filter, be_load = (\<lambda>_. True)\<rparr>"

definition box_defaults :: combobox where
  "box_defaults = \<lparr>co_box = textbox_defaults, co_values = [[]], co_multiple = False, co_separator = CHR '','', co_previous = [],
     co_original = [[]], co_open = False, co_log = [], bx_data = [], bx_items = [], bx_groups = [], bx_remote = False, bx_url = [],
     bx_nav = True, bx_asked = []\<rparr>"

definition find_row :: "string \<Rightarrow> combobox \<Rightarrow> nat option" where
  "find_row v s = index_where (\<lambda>r. cr_value r = v) (bx_data s)"

definition upd_item :: "nat \<Rightarrow> (citem \<Rightarrow> citem) \<Rightarrow> combobox \<Rightarrow> combobox" where
  "upd_item i f s = s\<lparr>bx_items := (bx_items s)[i := f (bx_items s ! i)]\<rparr>"

definition upd_items :: "(citem \<Rightarrow> citem) \<Rightarrow> combobox \<Rightarrow> combobox" where
  "upd_items f s = s\<lparr>bx_items := map f (bx_items s)\<rparr>"

definition row_text :: "combobox \<Rightarrow> string \<Rightarrow> string" where
  "row_text s v = (case find_row v s of None \<Rightarrow> v | Some i \<Rightarrow> cr_text (bx_data s ! i))"

definition mark_item :: "string \<Rightarrow> combobox \<Rightarrow> combobox" where
  "mark_item v s = (case find_row v s of None \<Rightarrow> s | Some i \<Rightarrow> upd_item i (\<lambda>t. t\<lparr>ci_selected := True\<rparr>) s)"

definition box_values :: "string list \<Rightarrow> bool \<Rightarrow> combobox \<Rightarrow> combobox" where
  "box_values vs remain s =
     (let s = fold mark_item vs (upd_items (\<lambda>t. t\<lparr>ci_selected := False\<rparr>) s);
          s = (if remain then s else combo_text (js_join [co_separator s] (map (row_text s) vs)) s)
      in combo_values vs s)"

definition box_select :: "string \<Rightarrow> combobox \<Rightarrow> combobox" where
  "box_select v s =
     (if v \<in> set (co_values s) then s
      else co_emit (CoSelect v) (box_values (if co_multiple s then co_values s @ [v] else [v]) False s))"

definition box_unselect :: "string \<Rightarrow> combobox \<Rightarrow> combobox" where
  "box_unselect v s =
     (case in_array v (co_values s) of
        None \<Rightarrow> s
      | Some i \<Rightarrow> co_emit (CoUnselect v) (box_values (splice_del i (co_values s)) False s))"

section \<open>Loading: \<open>_26\<close>, \<open>_2e\<close>\<close>

definition group_of :: "crow \<Rightarrow> string option" where
  "group_of r = (if cr_group r = Some [] then None else cr_group r)"

fun draw_groups :: "string option \<Rightarrow> crow list \<Rightarrow> string list" where
  "draw_groups p [] = []"
| "draw_groups p (r # rs) =
     (case group_of r of
        None \<Rightarrow> draw_groups None rs
      | Some g \<Rightarrow> if p = Some g then draw_groups p rs else g # draw_groups (Some g) rs)"

definition draw_item :: "crow \<Rightarrow> citem" where
  "draw_item r = \<lparr>ci_selected = False, ci_hover = False, ci_visible = True, ci_disabled = cr_disabled r\<rparr>"

definition add_selected :: "crow \<Rightarrow> string list \<Rightarrow> string list" where
  "add_selected r vs = (if cr_selected r \<and> cr_value r \<notin> set vs then vs @ [cr_value r] else vs)"

definition box_load :: "crow list \<Rightarrow> bool \<Rightarrow> combobox \<Rightarrow> combobox" where
  "box_load rows remain s =
     (let vs = fold add_selected rows (co_values s);
          s = s\<lparr>bx_data := rows, bx_items := map draw_item rows, bx_groups := map (\<lambda>g. (g, True)) (draw_groups None rows)\<rparr>
      in co_emit CoLoaded (box_values (if co_multiple s then vs else if vs = [] then [] else [last vs]) remain s))"

definition box_ask :: "box_env \<Rightarrow> string option \<Rightarrow> bool \<Rightarrow> combobox \<Rightarrow> combobox" where
  "box_ask E q remain s = (if \<not> be_load E q \<or> bx_url s = [] then s else s\<lparr>bx_asked := bx_asked s @ [(q, remain)]\<rparr>)"

definition box_answer :: "nat \<Rightarrow> crow list \<Rightarrow> combobox \<Rightarrow> combobox" where
  "box_answer j rows s =
     (if j < length (bx_asked s)
      then box_load rows (snd (bx_asked s ! j)) (s\<lparr>bx_asked := splice_del j (bx_asked s)\<rparr>) else s)"

definition box_reload :: "box_env \<Rightarrow> string option \<Rightarrow> combobox \<Rightarrow> combobox" where
  "box_reload E u s = box_ask E None False (case u of None \<Rightarrow> s | Some x \<Rightarrow> if x = [] then s else s\<lparr>bx_url := x\<rparr>)"

section \<open>The query: \<open>_34\<close>\<close>

definition show_group :: "string option \<Rightarrow> combobox \<Rightarrow> combobox" where
  "show_group g s =
     (case g of
        None \<Rightarrow> s
      | Some x \<Rightarrow>
          (case in_array x (map fst (bx_groups s)) of None \<Rightarrow> s | Some k \<Rightarrow> s\<lparr>bx_groups := (bx_groups s)[k := (x, True)]\<rparr>))"

definition match_row :: "box_env \<Rightarrow> string \<Rightarrow> nat \<Rightarrow> combobox \<times> string \<times> string option \<Rightarrow> combobox \<times> string \<times> string option" where
  "match_row E q i st =
     (let (s, v, g) = st; r = bx_data s ! i in
      if \<not> be_filter E q r then st
      else
        let k = the (find_row (cr_value r) s);
            s = upd_item k (\<lambda>t. t\<lparr>ci_visible := True\<rparr>) s;
            same = (map to_lower (cr_text r) = map to_lower q);
            s = (if same then upd_item k (\<lambda>t. t\<lparr>ci_selected := True\<rparr>) s else s);
            v = (if same then cr_value r else v)
        in if g \<noteq> cr_group r then (show_group (cr_group r) s, v, cr_group r) else (s, v, g))"

definition match_part :: "box_env \<Rightarrow> string \<Rightarrow> combobox \<Rightarrow> combobox \<times> string" where
  "match_part E q s =
     (let q = js_trim q; (s, v, g) = fold (match_row E q) [0..<length (bx_data s)] (s, q, None) in (s, v))"

definition match_parts :: "box_env \<Rightarrow> string list \<Rightarrow> combobox \<Rightarrow> combobox \<times> string list" where
  "match_parts E qs s = fold (\<lambda>q (s, vs). let (s, v) = match_part E q s in (s, vs @ [v])) qs (s, [])"

definition query_values :: "string \<Rightarrow> string list \<Rightarrow> combobox \<Rightarrow> combobox" where
  "query_values q vs s = box_values (if co_multiple s \<and> q = [] then [] else vs) True s"

definition hide_list :: "combobox \<Rightarrow> combobox" where
  "hide_list s =
     (upd_items (\<lambda>t. t\<lparr>ci_selected := False, ci_hover := False, ci_visible := False\<rparr>) s)\<lparr>bx_groups := map (\<lambda>(g, b). (g, False)) (bx_groups s)\<rparr>"

definition box_query :: "box_env \<Rightarrow> string \<Rightarrow> combobox \<Rightarrow> combobox" where
  "box_query E q s =
     (let qs = (if co_multiple s then js_split (co_separator s) q else [q]) in
      if bx_remote s then box_ask E (Some q) True (query_values q qs s)
      else let (s, vs) = match_parts E qs (hide_list s) in query_values q vs s)"

text \<open>What the timer of the key handler does, \<open>_19\<close>.\<close>

definition box_show :: "combobox \<Rightarrow> combobox" where
  "box_show s =
     (if co_open s then s
      else show_combo ((upd_items (\<lambda>t. t\<lparr>ci_visible := True\<rparr>) s)\<lparr>bx_groups := map (\<lambda>(g, b). (g, True)) (bx_groups s)\<rparr>))"

definition box_typed :: "box_env \<Rightarrow> combobox \<Rightarrow> combobox" where
  "box_typed E s =
     (let q = get_text (co_box s) in
      if co_previous s = q then s else box_query E q (box_show (s\<lparr>co_previous := q\<rparr>)))"

section \<open>The keys and the mouse: \<open>_e\<close>, \<open>_3e\<close>, \<open>_44\<close>\<close>

text \<open>In a panel that is closed no item is visible.\<close>

definition can_choose :: "combobox \<Rightarrow> citem \<Rightarrow> bool" where
  "can_choose s t \<longleftrightarrow> co_open s \<and> ci_visible t \<and> \<not> ci_disabled t"

definition items_where :: "(citem \<Rightarrow> bool) \<Rightarrow> combobox \<Rightarrow> nat list" where
  "items_where P s = filter (\<lambda>i. P (bx_items s ! i)) [0..<length (bx_items s)]"

text \<open>
  From the item under the pointer, else from the selected ones: the first to be reached after them, or before
  them, in the order \<open>nextAll\<close> and \<open>prevAll\<close> give; none left, from the other end.
\<close>

definition nav_target :: "bool \<Rightarrow> combobox \<Rightarrow> nat option" where
  "nav_target down s =
     (let hov = items_where ci_hover s; from = (if hov \<noteq> [] then hov else items_where ci_selected s);
          n = length (bx_items s); all = items_where (can_choose s) s;
          reached = concat (map (\<lambda>i. if down then [Suc i..<n] else rev [0..<i]) from);
          ahead = filter (\<lambda>i. can_choose s (bx_items s ! i)) reached
      in if ahead \<noteq> [] then Some (hd ahead) else if all = [] then None else Some (if down then hd all else last all))"

definition box_nav :: "bool \<Rightarrow> combobox \<Rightarrow> combobox" where
  "box_nav down s =
     (let k = nav_target down s; s = upd_items (\<lambda>t. t\<lparr>ci_hover := False\<rparr>) s in
      case k of
        None \<Rightarrow> s
      | Some i \<Rightarrow>
          let s = upd_item i (\<lambda>t. t\<lparr>ci_hover := True\<rparr>) s
          in if bx_nav s then box_select (cr_value (bx_data s ! i)) s else s)"

definition choose_item :: "nat \<Rightarrow> combobox \<Rightarrow> combobox" where
  "choose_item i s =
     (let v = cr_value (bx_data s ! i)
      in if co_multiple s \<and> ci_selected (bx_items s ! i) then box_unselect v s else box_select v s)"

definition box_enter :: "combobox \<Rightarrow> combobox" where
  "box_enter s =
     (let s = (case items_where ci_hover s of [] \<Rightarrow> s | i # _ \<Rightarrow> choose_item i s);
          s = box_values (filter (\<lambda>v. find_row v s \<noteq> None) (co_values s)) False s
      in if co_multiple s then s else hide_combo s)"

definition box_click :: "nat \<Rightarrow> combobox \<Rightarrow> combobox" where
  "box_click i s =
     (if length (bx_items s) \<le> i \<or> ci_disabled (bx_items s ! i) then s
      else let s = choose_item i s in if co_multiple s then s else hide_combo s)"

definition box_over :: "nat \<Rightarrow> combobox \<Rightarrow> combobox" where
  "box_over i s =
     (let s = upd_items (\<lambda>t. t\<lparr>ci_hover := False\<rparr>) s
      in if i < length (bx_items s) \<and> \<not> ci_disabled (bx_items s ! i) then upd_item i (\<lambda>t. t\<lparr>ci_hover := True\<rparr>) s else s)"

definition box_out :: "nat \<Rightarrow> combobox \<Rightarrow> combobox" where
  "box_out i s = upd_item i (\<lambda>t. t\<lparr>ci_hover := False\<rparr>) s"

definition box_clear :: "combobox \<Rightarrow> combobox" where
  "box_clear s = upd_items (\<lambda>t. t\<lparr>ci_selected := False\<rparr>) (clear_combo s)"

definition box_reset :: "combobox \<Rightarrow> combobox" where
  "box_reset s = box_values (co_original s) False s"

section \<open>The marks of the list\<close>

definition sized :: "combobox \<Rightarrow> bool" where
  "sized s \<longleftrightarrow> length (bx_items s) = length (bx_data s)"

definition marks_ok :: "combobox \<Rightarrow> bool" where
  "marks_ok s \<longleftrightarrow> sized s \<and> (\<forall>i<length (bx_data s). ci_selected (bx_items s ! i) = (\<exists>v\<in>set (co_values s). find_row v s = Some i))"

definition looks :: "combobox \<Rightarrow> (bool \<times> bool \<times> bool) list" where
  "looks s = map (\<lambda>t. (ci_hover t, ci_visible t, ci_disabled t)) (bx_items s)"

definition same_list :: "combobox \<Rightarrow> combobox \<Rightarrow> bool" where
  "same_list s t \<longleftrightarrow> bx_data t = bx_data s \<and> looks t = looks s \<and> bx_groups t = bx_groups s \<and> bx_remote t = bx_remote s \<and> bx_url t = bx_url s
     \<and> bx_nav t = bx_nav s \<and> bx_asked t = bx_asked s \<and> co_multiple t = co_multiple s \<and> co_separator t = co_separator s \<and> co_open t = co_open s"

lemma same_list_refl [simp]: "same_list s s"
  by (simp add: same_list_def)

lemma same_list_trans: "same_list s t \<Longrightarrow> same_list t u \<Longrightarrow> same_list s u"
  by (simp add: same_list_def)

lemma looks_length: "looks t = looks s \<Longrightarrow> length (bx_items t) = length (bx_items s)"
  by (drule arg_cong [of _ _ length]) (simp add: looks_def)

lemma same_list_sized: "same_list s t \<Longrightarrow> sized t = sized s"
  using looks_length [of t s] by (auto simp: same_list_def sized_def)

lemma same_list_find: "same_list s t \<Longrightarrow> find_row v t = find_row v s"
  by (simp add: same_list_def find_row_def)

lemma find_row_bound: "find_row v s = Some i \<Longrightarrow> i < length (bx_data s) \<and> cr_value (bx_data s ! i) = v"
  by (auto simp: find_row_def dest: index_where_Some)

lemma co_emit_list [simp]:
  "same_list s (co_emit e t) = same_list s t" "bx_items (co_emit e t) = bx_items t" "co_values (co_emit e t) = co_values t"
  "bx_data (co_emit e t) = bx_data t" "co_box (co_emit e t) = co_box t" "co_multiple (co_emit e t) = co_multiple t"
  "co_separator (co_emit e t) = co_separator t" "co_open (co_emit e t) = co_open t" "bx_groups (co_emit e t) = bx_groups t"
  "bx_nav (co_emit e t) = bx_nav t" "bx_remote (co_emit e t) = bx_remote t"
  by (simp_all add: co_emit_def same_list_def looks_def)

lemma combo_values_list [simp]:
  "same_list s (combo_values vs t) = same_list s t" "bx_items (combo_values vs t) = bx_items t" "co_values (combo_values vs t) = vs"
  "bx_data (combo_values vs t) = bx_data t" "co_box (combo_values vs t) = co_box t"
proof -
  have *: "same_list s (t\<lparr>co_values := vs\<rparr>) = same_list s t" by (simp add: same_list_def looks_def)
  show "same_list s (combo_values vs t) = same_list s t" "bx_items (combo_values vs t) = bx_items t" "co_values (combo_values vs t) = vs"
    "bx_data (combo_values vs t) = bx_data t" "co_box (combo_values vs t) = co_box t"
    using * by (simp_all add: combo_values_def Let_def)
qed

lemma combo_text_list [simp]:
  "same_list s (combo_text v t) = same_list s t" "bx_items (combo_text v t) = bx_items t" "co_values (combo_text v t) = co_values t"
  "bx_data (combo_text v t) = bx_data t"
  by (simp_all add: combo_text_def same_list_def looks_def)

lemma get_set_text [simp]: "get_text (set_text v b) = v"
  by (simp add: set_text_def get_text_def Let_def)

lemma combo_text_get: "get_text (co_box (combo_text v s)) = v"
  by (simp add: combo_text_def)

lemma mark_item_facts:
  assumes "sized s"
  shows "same_list s (mark_item v s)" and "co_values (mark_item v s) = co_values s" and "co_box (mark_item v s) = co_box s"
    and "i < length (bx_data s) \<Longrightarrow> ci_selected (bx_items (mark_item v s) ! i) = (ci_selected (bx_items s ! i) \<or> find_row v s = Some i)"
proof -
  show "same_list s (mark_item v s)"
  proof (cases "find_row v s")
    case (Some k)
    then have "k < length (bx_items s)" using find_row_bound [OF Some] assms by (simp add: sized_def)
    then have "map (\<lambda>t. (ci_hover t, ci_visible t, ci_disabled t)) ((bx_items s)[k := (bx_items s ! k)\<lparr>ci_selected := True\<rparr>]) = looks s"
      by (simp add: looks_def map_update list_update_same_conv)
    then show ?thesis using Some by (simp add: mark_item_def upd_item_def same_list_def looks_def)
  qed (simp add: mark_item_def)
  show "co_values (mark_item v s) = co_values s" "co_box (mark_item v s) = co_box s"
    by (simp_all add: mark_item_def upd_item_def split: option.split)
  show "ci_selected (bx_items (mark_item v s) ! i) = (ci_selected (bx_items s ! i) \<or> find_row v s = Some i)" if "i < length (bx_data s)"
    using that assms find_row_bound [of v s] by (auto simp: mark_item_def upd_item_def sized_def nth_list_update split: option.split)
qed

lemma fold_mark_facts:
  "sized s \<Longrightarrow> same_list s (fold mark_item vs s) \<and> co_values (fold mark_item vs s) = co_values s \<and> co_box (fold mark_item vs s) = co_box s \<and>
    (\<forall>i<length (bx_data s). ci_selected (bx_items (fold mark_item vs s) ! i) = (ci_selected (bx_items s ! i) \<or> (\<exists>v\<in>set vs. find_row v s = Some i)))"
proof (induction vs arbitrary: s)
  case (Cons v vs)
  note m = mark_item_facts [OF Cons.prems, where v = v]
  have z: "sized (mark_item v s)" "bx_data (mark_item v s) = bx_data s" using Cons.prems m(1) by (simp_all add: same_list_sized) (simp add: same_list_def)
  from Cons.IH [OF z(1)] m z(2) same_list_find [OF m(1)] same_list_trans [OF m(1), of "fold mark_item vs (mark_item v s)"] show ?case by auto
qed simp

lemma box_values_facts:
  assumes "sized s"
  shows "marks_ok (box_values vs r s)" and "same_list s (box_values vs r s)" and "co_values (box_values vs r s) = vs"
    and "get_text (co_box (box_values vs r s)) = (if r then get_text (co_box s) else js_join [co_separator s] (map (row_text s) vs))"
proof -
  define t where "t = upd_items (\<lambda>t. t\<lparr>ci_selected := False\<rparr>) s"
  have t: "sized t" "same_list s t" "co_box t = co_box s" using assms by (simp_all add: t_def upd_items_def sized_def same_list_def looks_def comp_def)
  define u where "u = fold mark_item vs t"
  note f = fold_mark_facts [OF t(1), of vs, folded u_def]
  have su: "same_list s u" using f t(2) same_list_trans by blast
  define w where "w = (if r then u else combo_text (js_join [co_separator u] (map (row_text u) vs)) u)"
  have b: "box_values vs r s = combo_values vs w" by (simp add: box_values_def t_def u_def w_def Let_def)
  have iw: "bx_items w = bx_items u" "bx_data w = bx_data u" "same_list s w" using su by (simp_all add: w_def)
  show sl: "same_list s (box_values vs r s)" "co_values (box_values vs r s) = vs" using iw(3) by (simp_all add: b)
  have fr: "find_row v (combo_values vs w) = find_row v t" for v
    using iw(2) f by (simp add: find_row_def same_list_def)
  have d: "bx_data w = bx_data t" using iw(2) f by (simp add: same_list_def)
  have "\<not> ci_selected (bx_items t ! i)" if "i < length (bx_data t)" for i
    using that t(1) by (simp add: t_def upd_items_def sized_def)
  then show "marks_ok (box_values vs r s)"
    using f t(1) iw d fr same_list_sized [OF sl(1)] assms unfolding marks_ok_def b by simp
  have "row_text u = row_text s" using su by (intro ext) (simp add: row_text_def same_list_def find_row_def split: option.split)
  moreover have "co_separator u = co_separator s" using su by (simp add: same_list_def)
  ultimately show "get_text (co_box (box_values vs r s)) = (if r then get_text (co_box s) else js_join [co_separator s] (map (row_text s) vs))"
    using f t(3) by (simp add: b w_def combo_text_get)
qed

lemma marks_emit [simp]: "marks_ok (co_emit e s) = marks_ok s" "sized (co_emit e s) = sized s" "find_row v (co_emit e s) = find_row v s"
  by (simp_all add: marks_ok_def sized_def find_row_def)

lemma marks_sized: "marks_ok s \<Longrightarrow> sized s"
  by (simp add: marks_ok_def)

lemma bx_select_ok: "marks_ok s \<Longrightarrow> marks_ok (box_select v s)"
  by (simp add: box_select_def box_values_facts marks_sized)

lemma bx_unselect_ok: "marks_ok s \<Longrightarrow> marks_ok (box_unselect v s)"
  by (simp add: box_unselect_def box_values_facts marks_sized split: option.split)

lemma box_load_ok: "marks_ok (box_load rows r s)"
  by (simp add: box_load_def Let_def box_values_facts sized_def)

lemma marks_cong:
  "marks_ok s \<Longrightarrow> bx_data t = bx_data s \<Longrightarrow> map ci_selected (bx_items t) = map ci_selected (bx_items s) \<Longrightarrow> co_values t = co_values s \<Longrightarrow> marks_ok t"
proof -
  assume m: "marks_ok s" "bx_data t = bx_data s" "map ci_selected (bx_items t) = map ci_selected (bx_items s)" "co_values t = co_values s"
  have l: "length (bx_items t) = length (bx_items s)" using arg_cong [OF m(3), of length] by simp
  have "ci_selected (bx_items t ! i) = ci_selected (bx_items s ! i)" if "i < length (bx_items s)" for i
    using arg_cong [OF m(3), of "\<lambda>xs. xs ! i"] that l by simp
  then show ?thesis using m l by (simp add: marks_ok_def sized_def find_row_def)
qed

section \<open>The query\<close>

text \<open>What a row that passes the filter changes: its item, the value found, the header of its group.\<close>

definition same_but_items :: "combobox \<Rightarrow> combobox \<Rightarrow> bool" where
  "same_but_items s t \<longleftrightarrow> bx_data t = bx_data s \<and> length (bx_items t) = length (bx_items s) \<and> co_values t = co_values s \<and> co_box t = co_box s
     \<and> co_multiple t = co_multiple s \<and> co_separator t = co_separator s \<and> co_open t = co_open s \<and> bx_nav t = bx_nav s
     \<and> map fst (bx_groups t) = map fst (bx_groups s)"

lemma same_but_items_refl [simp]: "same_but_items s s"
  by (simp add: same_but_items_def)

lemma same_but_items_trans: "same_but_items s t \<Longrightarrow> same_but_items t u \<Longrightarrow> same_but_items s u"
  by (simp add: same_but_items_def)

lemma upd_item_same [simp]: "same_but_items s (upd_item i f t) = same_but_items s t" "same_but_items s (upd_items f t) = same_but_items s t"
  by (simp_all add: same_but_items_def upd_item_def upd_items_def)

lemma show_group_names [simp]: "map fst (bx_groups (show_group g s)) = map fst (bx_groups s)"
  by (auto simp: show_group_def map_update list_update_same_conv split: option.split dest: in_array_Some)

lemma show_group_same [simp]: "same_but_items s (show_group g t) = same_but_items s t" "bx_items (show_group g t) = bx_items t"
  using show_group_names [of g t] by (simp_all add: same_but_items_def del: show_group_names) (simp_all add: show_group_def split: option.split)

lemma match_row_same: "same_but_items s (fst (match_row E q i (s, v, g)))"
  by (simp add: match_row_def Let_def)

lemma match_fold_same: "same_but_items s (fst (fold (match_row E q) ks (s, v, g)))"
proof (induction ks arbitrary: s v g)
  case (Cons i ks)
  obtain t w h where m: "match_row E q i (s, v, g) = (t, w, h)" by (cases "match_row E q i (s, v, g)") auto
  show ?case using same_but_items_trans [OF _ Cons.IH [of t w h]] match_row_same [of s E q i v g] m by simp
qed simp

lemma match_part_same: "same_but_items s (fst (match_part E q s))"
  using match_fold_same [where s = s and E = E and q = "js_trim q" and v = "js_trim q" and g = None and ks = "[0..<length (bx_data s)]"]
  by (cases "fold (match_row E (js_trim q)) [0..<length (bx_data s)] (s, js_trim q, None)") (simp add: match_part_def Let_def)

lemma match_parts_same: "same_but_items s (fst (match_parts E qs s))"
proof -
  have "same_but_items s (fst (fold (\<lambda>q (s, vs). let (s, v) = match_part E q s in (s, vs @ [v])) qs (s, vs)))" for vs
  proof (induction qs arbitrary: s vs)
    case (Cons q qs)
    obtain t v where m: "match_part E q s = (t, v)" by (cases "match_part E q s") auto
    show ?case using same_but_items_trans [OF _ Cons.IH [of t "vs @ [v]"]] match_part_same [of s E q] m by simp
  qed simp
  then show ?thesis by (simp add: match_parts_def)
qed

lemma same_but_sized: "same_but_items s t \<Longrightarrow> sized t = sized s"
  by (simp add: same_but_items_def sized_def)

lemma hide_list_same: "same_but_items s (hide_list s)"
  by (simp add: same_but_items_def hide_list_def upd_items_def comp_def case_prod_beta)

lemma box_ask_list [simp]: "marks_ok (box_ask E q r s) = marks_ok s" "same_but_items s (box_ask E q r s)" "co_values (box_ask E q r s) = co_values s"
  by (simp_all add: box_ask_def marks_ok_def sized_def find_row_def same_but_items_def)

lemma box_query_local: "\<not> bx_remote s \<Longrightarrow>
  box_query E q s = (let m = match_parts E (if co_multiple s then js_split (co_separator s) q else [q]) (hide_list s) in query_values q (snd m) (fst m))"
  by (simp add: box_query_def Let_def split_beta)

lemma query_ok: "sized s \<Longrightarrow> marks_ok (box_query E q s)"
proof -
  assume z: "sized s"
  have t: "sized (hide_list s)" using same_but_sized [OF hide_list_same] z by blast
  have "sized (fst (match_parts E qs (hide_list s)))" for qs using same_but_sized [OF match_parts_same] t by blast
  then have "\<not> bx_remote s \<Longrightarrow> ?thesis" by (simp add: box_query_local Let_def query_values_def box_values_facts)
  moreover have "bx_remote s \<Longrightarrow> ?thesis" using z by (simp add: box_query_def query_values_def box_values_facts Let_def)
  ultimately show ?thesis by blast
qed

lemma box_show_ok: "marks_ok s \<Longrightarrow> marks_ok (box_show s)"
  by (cases "co_open s") (auto simp: box_show_def show_combo_def upd_items_def comp_def intro: marks_cong)

lemma upd_items_ok: "marks_ok s \<Longrightarrow> (\<And>t. ci_selected (f t) = ci_selected t) \<Longrightarrow> marks_ok (upd_items f s)"
  by (erule marks_cong) (simp_all add: upd_items_def)

lemma upd_item_ok: "marks_ok s \<Longrightarrow> (\<And>t. ci_selected (f t) = ci_selected t) \<Longrightarrow> marks_ok (upd_item i f s)"
  by (erule marks_cong) (simp_all add: upd_item_def map_update list_update_same_conv list_update_beyond, metis list_update_id map_update)

lemma choose_ok: "marks_ok s \<Longrightarrow> marks_ok (choose_item i s)"
  by (simp add: choose_item_def Let_def bx_select_ok bx_unselect_ok)

lemma hide_combo_list [simp]: "marks_ok (hide_combo s) = marks_ok s" "co_values (hide_combo s) = co_values s" "co_box (hide_combo s) = co_box s"
  "bx_data (hide_combo s) = bx_data s" "find_row v (hide_combo s) = find_row v s" "bx_items (hide_combo s) = bx_items s"
  by (simp_all add: hide_combo_def co_emit_def marks_ok_def sized_def find_row_def)

lemma nav_ok: "marks_ok s \<Longrightarrow> marks_ok (box_nav d s)"
  by (simp add: box_nav_def Let_def bx_select_ok upd_items_ok upd_item_ok split: option.split)

lemma enter_ok: "marks_ok s \<Longrightarrow> marks_ok (box_enter s)"
  by (simp add: box_enter_def Let_def box_values_facts choose_ok marks_sized split: list.split)

text \<open>What is done with the field, the clearing of it apart.\<close>

datatype box_op =
    BoxSelect string | BoxUnselect string | BoxSet "string list" | BoxReset | BoxReload "string option" | BoxLoad "crow list"
  | BoxAnswer nat "crow list" | BoxFocus | BoxType string | BoxTimer | BoxNav bool | BoxEnter | BoxClick nat | BoxOver nat | BoxOut nat
  | BoxShow | BoxHide

fun box_step :: "box_env \<Rightarrow> box_op \<Rightarrow> combobox \<Rightarrow> combobox" where
  "box_step E (BoxSelect v) s = box_select v s"
| "box_step E (BoxUnselect v) s = box_unselect v s"
| "box_step E (BoxSet vs) s = box_values vs False s"
| "box_step E BoxReset s = box_reset s"
| "box_step E (BoxReload u) s = box_reload E u s"
| "box_step E (BoxLoad rows) s = box_load rows False s"
| "box_step E (BoxAnswer j rows) s = box_answer j rows s"
| "box_step E BoxFocus s = s\<lparr>co_box := focus_in (co_box s)\<rparr>"
| "box_step E (BoxType v) s = s\<lparr>co_box := type_text v (co_box s)\<rparr>"
| "box_step E BoxTimer s = box_typed E s"
| "box_step E (BoxNav d) s = box_nav d s"
| "box_step E BoxEnter s = box_enter s"
| "box_step E (BoxClick i) s = box_click i s"
| "box_step E (BoxOver i) s = box_over i s"
| "box_step E (BoxOut i) s = box_out i s"
| "box_step E BoxShow s = box_show s"
| "box_step E BoxHide s = hide_combo s"

definition box_run :: "box_env \<Rightarrow> box_op list \<Rightarrow> combobox \<Rightarrow> combobox" where
  "box_run E ps s = fold (box_step E) ps s"

lemma box_step_ok: "marks_ok s \<Longrightarrow> marks_ok (box_step E p s)"
proof (cases p)
  case (BoxAnswer j rows)
  then show "marks_ok s \<Longrightarrow> ?thesis" by (simp add: box_answer_def box_load_ok)
next
  case (BoxReload u)
  then show "marks_ok s \<Longrightarrow> ?thesis" by (auto simp: box_reload_def marks_ok_def sized_def find_row_def box_ask_def split: option.split)
next
  case BoxTimer
  assume m: "marks_ok s"
  have "marks_ok (s\<lparr>co_previous := x\<rparr>)" for x by (rule marks_cong [OF m]) simp_all
  then show ?thesis using BoxTimer m by (simp add: box_typed_def Let_def query_ok box_show_ok marks_sized)
next
  case (BoxFocus)
  then show "marks_ok s \<Longrightarrow> ?thesis" by (auto intro: marks_cong)
next
  case (BoxType v)
  then show "marks_ok s \<Longrightarrow> ?thesis" by (auto intro: marks_cong)
qed (simp_all add: bx_select_ok bx_unselect_ok box_values_facts marks_sized box_reset_def box_load_ok nav_ok enter_ok box_click_def
    choose_ok box_over_def box_out_def upd_items_ok upd_item_ok box_show_ok Let_def)

text \<open>
  C6: the marks of the list.  After data was loaded, and any selecting, unselecting, setting, loading again, querying by typing,
  moving with the keys, pressing of Enter, clicking and pointing, there is one item for each row, and an item
  is marked as selected exactly when it is the first one with a value among the values of the field.
\<close>

theorem cbx_marks:
  "let t = box_run E ps (box_load rows remain s) in
     length (bx_items t) = length (bx_data t) \<and>
     list_all (\<lambda>i. ci_selected (bx_items t ! i) = list_ex (\<lambda>v. find_row v t = Some i) (co_values t)) [0..<length (bx_data t)]"
proof -
  have "marks_ok (box_run E ps (box_load rows remain s))"
    unfolding box_run_def by (induction ps rule: rev_induct) (simp_all add: box_load_ok box_step_ok)
  then show ?thesis by (simp add: marks_ok_def sized_def list_all_iff list_ex_iff Let_def)
qed

definition pick_value :: "box_env \<Rightarrow> string \<Rightarrow> crow \<Rightarrow> string \<Rightarrow> string" where
  "pick_value E q r v = (if be_filter E q r \<and> map to_lower (cr_text r) = map to_lower q then cr_value r else v)"

definition shown_group :: "box_env \<Rightarrow> string \<Rightarrow> string \<Rightarrow> crow list \<Rightarrow> bool" where
  "shown_group E q x rs \<longleftrightarrow> list_ex (\<lambda>r. be_filter E q r \<and> cr_group r = Some x) rs"

definition header_shown :: "combobox \<Rightarrow> string \<Rightarrow> bool" where
  "header_shown s x = (case in_array x (map fst (bx_groups s)) of None \<Rightarrow> False | Some k \<Rightarrow> snd (bx_groups s ! k))"

lemma find_distinct: "distinct (map cr_value (bx_data s)) \<Longrightarrow> i < length (bx_data s) \<Longrightarrow> find_row (cr_value (bx_data s ! i)) s = Some i"
proof -
  assume d: "distinct (map cr_value (bx_data s))" "i < length (bx_data s)"
  then obtain k where k: "find_row (cr_value (bx_data s ! i)) s = Some k"
    by (cases "find_row (cr_value (bx_data s ! i)) s") (auto simp: find_row_def index_where_None)
  from find_row_bound [OF this] d have "k = i" by (auto simp: distinct_conv_nth)
  with k show ?thesis by simp
qed

lemma header_upd: "bx_groups t = (bx_groups s)[k := (x, True)] \<Longrightarrow> in_array x (map fst (bx_groups s)) = Some k \<Longrightarrow> header_shown t y = (y = x \<or> header_shown s y)"
proof -
  assume h: "bx_groups t = (bx_groups s)[k := (x, True)]" "in_array x (map fst (bx_groups s)) = Some k"
  from in_array_Some [OF h(2)] have k: "k < length (bx_groups s)" "fst (bx_groups s ! k) = x" by auto
  have n: "map fst (bx_groups t) = map fst (bx_groups s)" using k h(1) by (simp add: map_update list_update_same_conv)
  show ?thesis
  proof (cases "in_array y (map fst (bx_groups s))")
    case None
    then show ?thesis using h(2) n by (auto simp: header_shown_def)
  next
    case (Some j)
    from in_array_Some [OF Some] have j: "j < length (bx_groups s)" "fst (bx_groups s ! j) = y" by auto
    show ?thesis using Some n h k j by (auto simp: header_shown_def nth_list_update)
  qed
qed

lemma header_show_group: "g \<noteq> None \<Longrightarrow> header_shown (show_group g s) y = (header_shown s y \<or> (Some y = g \<and> y \<in> set (map fst (bx_groups s))))"
proof -
  assume "g \<noteq> None"
  then obtain x where g: "g = Some x" by blast
  show ?thesis
  proof (cases "in_array x (map fst (bx_groups s))")
    case None
    then show ?thesis using in_array_None [of x "map fst (bx_groups s)"] by (auto simp: show_group_def g)
  next
    case (Some k)
    have "x \<in> set (map fst (bx_groups s))" using in_array_Some [OF Some] by (metis nth_mem)
    moreover have "header_shown (show_group g s) y = (y = x \<or> header_shown s y)"
      by (rule header_upd [OF _ Some]) (simp add: show_group_def g Some)
    ultimately show ?thesis by (auto simp: g)
  qed
qed

lemma match_row_facts:
  assumes "sized s" and "distinct (map cr_value (bx_data s))" and "i < length (bx_data s)"
    and "g \<noteq> None \<longrightarrow> the g \<in> set (map fst (bx_groups s)) \<longrightarrow> header_shown s (the g)"
    and m: "match_row E q i (s, v, g) = (t, w, h)"
  shows "w = pick_value E q (bx_data s ! i) v"
    and "j < length (bx_data s) \<Longrightarrow> ci_visible (bx_items t ! j) = (ci_visible (bx_items s ! j) \<or> j = i \<and> be_filter E q (bx_data s ! i))"
    and "x \<in> set (map fst (bx_groups s)) \<Longrightarrow> header_shown t x = (header_shown s x \<or> shown_group E q x [bx_data s ! i])"
    and "h \<noteq> None \<Longrightarrow> the h \<in> set (map fst (bx_groups t)) \<Longrightarrow> header_shown t (the h)"
proof -
  note f = find_distinct [OF assms(2,3)]
  let ?r = "bx_data s ! i"
  have il: "i < length (bx_items s)" using assms(1,3) by (simp add: sized_def)
  define u where "u = (let u = upd_item i (\<lambda>t. t\<lparr>ci_visible := True\<rparr>) s
      in if map to_lower (cr_text ?r) = map to_lower q then upd_item i (\<lambda>t. t\<lparr>ci_selected := True\<rparr>) u else u)"
  have u: "bx_groups u = bx_groups s" "bx_data u = bx_data s"
    "j < length (bx_data s) \<Longrightarrow> ci_visible (bx_items u ! j) = (ci_visible (bx_items s ! j) \<or> j = i)" for j
    using il by (auto simp: u_def upd_item_def Let_def nth_list_update)
  have hu: "header_shown u x = header_shown s x" for x by (simp only: header_shown_def u(1))
  have e: "match_row E q i (s, v, g) = (if \<not> be_filter E q ?r then (s, v, g)
      else (if g \<noteq> cr_group ?r then show_group (cr_group ?r) u else u, pick_value E q ?r v, if g \<noteq> cr_group ?r then cr_group ?r else g))"
    by (simp add: match_row_def f u_def Let_def pick_value_def)
  show "w = pick_value E q ?r v" using m unfolding e by (auto simp: pick_value_def split: if_splits)
  show "ci_visible (bx_items t ! j) = (ci_visible (bx_items s ! j) \<or> j = i \<and> be_filter E q ?r)" if "j < length (bx_data s)"
    using m u(3) [OF that] unfolding e by (auto split: if_splits)
  show "header_shown t x = (header_shown s x \<or> shown_group E q x [?r])" if x: "x \<in> set (map fst (bx_groups s))"
  proof (cases "be_filter E q ?r")
    case False
    then show ?thesis using m unfolding e by (simp add: shown_group_def)
  next
    case True
    show ?thesis
    proof (cases "g = cr_group ?r")
      case True
      then have "t = u" using m \<open>be_filter E q ?r\<close> unfolding e by simp
      moreover have "header_shown s x" if "cr_group ?r = Some x" using assms(4) x that True by (simp only: option.sel) simp
      ultimately show ?thesis using hu by (auto simp: shown_group_def)
    next
      case ne: False
      have "t = fst (match_row E q i (s, v, g))" using m by simp
      with ne True have t: "t = show_group (cr_group ?r) u" unfolding e by simp
      show ?thesis
      proof (cases "cr_group ?r")
        case None
        then show ?thesis using t hu by (simp add: show_group_def shown_group_def)
      next
        case (Some y)
        then show ?thesis using t hu header_show_group [of "cr_group ?r" u x] x u(1) True by (auto simp: shown_group_def)
      qed
    qed
  qed
  show "header_shown t (the h)" if "h \<noteq> None" "the h \<in> set (map fst (bx_groups t))"
  proof (cases "be_filter E q ?r \<and> g \<noteq> cr_group ?r")
    case True
    have "t = fst (match_row E q i (s, v, g))" "h = snd (snd (match_row E q i (s, v, g)))" using m by simp_all
    with True have t: "t = show_group (cr_group ?r) u" "h = cr_group ?r" unfolding e by simp_all
    then show ?thesis using that header_show_group [of h u "the h"] by auto
  next
    case False
    then have "h = g" "t = s \<or> t = u" using m unfolding e by (auto split: if_splits)
    then show ?thesis using assms(4) that hu u(1) by auto
  qed
qed

lemma match_fold:
  assumes "sized s" and "distinct (map cr_value (bx_data s))" and "n \<le> length (bx_data s)"
    and "fold (match_row E q) [0..<n] (s, v, None) = (t, w, h)"
  shows "w = fold (pick_value E q) (take n (bx_data s)) v \<and> same_but_items s t \<and>
    (\<forall>j<length (bx_data s). ci_visible (bx_items t ! j) = (ci_visible (bx_items s ! j) \<or> j < n \<and> be_filter E q (bx_data s ! j))) \<and>
    (\<forall>x\<in>set (map fst (bx_groups s)). header_shown t x = (header_shown s x \<or> shown_group E q x (take n (bx_data s)))) \<and>
    (h \<noteq> None \<longrightarrow> the h \<in> set (map fst (bx_groups t)) \<longrightarrow> header_shown t (the h))"
  using assms(3,4)
proof (induction n arbitrary: t w h)
  case 0
  then show ?case by (simp add: shown_group_def)
next
  case (Suc n)
  obtain t' w' h' where f: "fold (match_row E q) [0..<n] (s, v, None) = (t', w', h')" by (cases "fold (match_row E q) [0..<n] (s, v, None)") auto
  have m: "match_row E q n (t', w', h') = (t, w, h)" using Suc.prems(2) f by simp
  note IH = Suc.IH [OF Suc_leD [OF Suc.prems(1)] f]
  have st: "same_but_items s t'" using IH by blast
  have d: "bx_data t' = bx_data s" "map fst (bx_groups t') = map fst (bx_groups s)" "sized t'"
    using st assms(1) by (simp_all add: same_but_items_def sized_def)
  have n: "n < length (bx_data s)" using Suc.prems(1) by simp
  have hs: "h' \<noteq> None \<longrightarrow> the h' \<in> set (map fst (bx_groups t')) \<longrightarrow> header_shown t' (the h')" using IH by blast
  note r = match_row_facts [OF d(3), unfolded d(1), OF assms(2) n hs m]
  have tk: "take (Suc n) (bx_data s) = take n (bx_data s) @ [bx_data s ! n]" using n by (simp add: take_Suc_conv_app_nth)
  have "same_but_items s t" using same_but_items_trans [OF st] match_row_same [of t' E q n w' h'] m by simp
  moreover have "w = fold (pick_value E q) (take (Suc n) (bx_data s)) v" using r(1) IH tk by simp
  moreover have "ci_visible (bx_items t ! j) = (ci_visible (bx_items s ! j) \<or> j < Suc n \<and> be_filter E q (bx_data s ! j))" if "j < length (bx_data s)" for j
    using r(2) [OF that] IH that by (auto simp: less_Suc_eq)
  moreover have "header_shown t x = (header_shown s x \<or> shown_group E q x (take (Suc n) (bx_data s)))" if "x \<in> set (map fst (bx_groups s))" for x
  proof -
    have "header_shown t x = (header_shown t' x \<or> shown_group E q x [bx_data s ! n])" using r(3) [of x] that unfolding d(2) by blast
    moreover have "header_shown t' x = (header_shown s x \<or> shown_group E q x (take n (bx_data s)))" using IH that by blast
    ultimately show ?thesis unfolding tk by (auto simp: shown_group_def)
  qed
  moreover have "h \<noteq> None \<longrightarrow> the h \<in> set (map fst (bx_groups t)) \<longrightarrow> header_shown t (the h)" using r(4) by blast
  ultimately show ?case by blast
qed

lemma query_facts:
  assumes "length (bx_items s) = length (bx_data s)" and "distinct (map cr_value (bx_data s))" and "\<not> co_multiple s" and "\<not> bx_remote s"
  shows "map ci_visible (bx_items (box_query E q s)) = map (be_filter E (js_trim q)) (bx_data s) \<and>
    list_all (\<lambda>x. header_shown (box_query E q s) x = list_ex (\<lambda>r. be_filter E (js_trim q) r \<and> cr_group r = Some x) (bx_data s)) (map fst (bx_groups s)) \<and>
    get_text (co_box (box_query E q s)) = get_text (co_box s) \<and>
    co_values (box_query E q s) =
      [fold (\<lambda>r v. if be_filter E (js_trim q) r \<and> map to_lower (cr_text r) = map to_lower (js_trim q) then cr_value r else v) (bx_data s) (js_trim q)]"
proof -
  define u where "u = hide_list s"
  have us: "same_but_items s u" by (simp add: u_def hide_list_same)
  have z: "sized u" "bx_data u = bx_data s" using us assms(1) by (simp_all add: same_but_items_def sized_def)
  have hid: "\<not> ci_visible (bx_items u ! j)" if "j < length (bx_data s)" for j using that assms(1) by (simp add: u_def hide_list_def upd_items_def)
  have hh: "\<not> header_shown u x" for x
    by (auto simp: header_shown_def u_def hide_list_def case_prod_beta comp_def split: option.split dest: in_array_Some)
  obtain t w h where f: "fold (match_row E (js_trim q)) [0..<length (bx_data u)] (u, js_trim q, None) = (t, w, h)"
    by (cases "fold (match_row E (js_trim q)) [0..<length (bx_data u)] (u, js_trim q, None)") auto
  note m = match_fold [OF z(1) assms(2) [folded z(2)] le_refl f]
  have b: "box_query E q s = box_values [w] True t"
    using assms(3,4) m us f by (simp add: box_query_local match_parts_def match_part_def query_values_def u_def [symmetric] same_but_items_def Let_def)
  have zt: "sized t" using m same_but_sized z(1) by blast
  note v = box_values_facts [OF zt, where vs = "[w]" and r = True, folded b]
  have vis: "map ci_visible (bx_items t) = map (be_filter E (js_trim q)) (bx_data s)"
    using m z zt hid by (intro nth_equalityI) (auto simp: sized_def same_but_items_def)
  have "map ci_visible (bx_items (box_query E q s)) = map (fst \<circ> snd) (looks (box_query E q s))" by (simp add: looks_def comp_def)
  also have "looks (box_query E q s) = looks t" using v(2) by (simp add: same_list_def)
  finally have "map ci_visible (bx_items (box_query E q s)) = map (be_filter E (js_trim q)) (bx_data s)" using vis by (simp add: looks_def comp_def)
  moreover have bg: "bx_groups (box_query E q s) = bx_groups t" using v(2) by (simp add: same_list_def)
  then have "list_all (\<lambda>x. header_shown (box_query E q s) x = list_ex (\<lambda>r. be_filter E (js_trim q) r \<and> cr_group r = Some x) (bx_data s)) (map fst (bx_groups s))"
  proof -
    have n: "map fst (bx_groups u) = map fst (bx_groups s)" using us by (simp add: same_but_items_def)
    have "header_shown t x = shown_group E (js_trim q) x (bx_data s)" if "x \<in> set (map fst (bx_groups s))" for x
      using m hh [of x] that unfolding n z(2) take_all [OF le_refl] by blast
    moreover have "header_shown (box_query E q s) x = header_shown t x" for x by (simp only: header_shown_def bg)
    ultimately show ?thesis by (simp add: list_all_iff shown_group_def)
  qed
  moreover have "get_text (co_box (box_query E q s)) = get_text (co_box s)" using v(4) m us by (simp add: same_but_items_def)
  moreover have "co_values (box_query E q s) = [w]" by (rule v(3))
  moreover have "w = fold (pick_value E (js_trim q)) (bx_data s) (js_trim q)" using m z(2) by simp
  ultimately show ?thesis unfolding pick_value_def by simp
qed

lemmas cbx_query_values = query_facts [THEN conjunct2, THEN conjunct2, THEN conjunct2]

text \<open>
  The query.  What is typed into a field whose list is searched in place shows exactly the rows that pass the filter, and exactly the
  headers of the groups such a row belongs to; the text stays as it is typed, and the value is the one of the (last) such row with that text, in
  whatever case, else the text itself without the spaces around it.
\<close>

theorem cbx_query:
  assumes "length (bx_items s) = length (bx_data s)" and "distinct (map cr_value (bx_data s))" and "\<not> co_multiple s" and "\<not> bx_remote s"
  shows "map ci_visible (bx_items (box_query E q s)) = map (be_filter E (js_trim q)) (bx_data s) \<and>
    list_all (\<lambda>x. header_shown (box_query E q s) x = list_ex (\<lambda>r. be_filter E (js_trim q) r \<and> cr_group r = Some x) (bx_data s)) (map fst (bx_groups s)) \<and>
    get_text (co_box (box_query E q s)) = get_text (co_box s) \<and>
    co_values (box_query E q s) =
      [fold (\<lambda>r v. if be_filter E (js_trim q) r \<and> map to_lower (cr_text r) = map to_lower (js_trim q) then cr_value r else v) (bx_data s) (js_trim q)]"
  by (rule query_facts [OF assms])

section \<open>The keys\<close>

definition calm_list :: "combobox \<Rightarrow> bool" where
  "calm_list s \<longleftrightarrow> list_all (\<lambda>t. \<not> ci_hover t) (bx_items s)"

lemma calm_upd: "calm_list s \<Longrightarrow> (\<And>t. ci_hover (f t) = ci_hover t) \<Longrightarrow> calm_list (upd_item i f s)"
  by (cases "i < length (bx_items s)")
    (auto simp: calm_list_def upd_item_def list_all_iff list_update_beyond dest!: set_update_subset_insert [THEN subsetD])

lemma calm_group: "calm_list (show_group g s) = calm_list s"
  by (simp add: calm_list_def)

lemma calm_match_row: "calm_list s \<Longrightarrow> calm_list (fst (match_row E q i (s, v, g)))"
  by (simp add: match_row_def Let_def calm_upd calm_group)

lemma calm_match_fold: "calm_list s \<Longrightarrow> calm_list (fst (fold (match_row E q) ks (s, v, g)))"
proof (induction ks arbitrary: s v g)
  case (Cons i ks)
  obtain t w h where "match_row E q i (s, v, g) = (t, w, h)" by (cases "match_row E q i (s, v, g)") auto
  then show ?case using Cons calm_match_row [of s E q i v g] by simp
qed simp

lemma hover_none: "calm_list s \<Longrightarrow> items_where ci_hover s = []"
  by (auto simp: calm_list_def items_where_def list_all_length)

lemma looks_hover: "looks t = looks s \<Longrightarrow> items_where ci_hover t = items_where ci_hover s"
proof -
  assume e: "looks t = looks s"
  have "ci_hover (bx_items t ! i) = ci_hover (bx_items s ! i)" if "i < length (bx_items s)" for i
    using arg_cong [OF e, of "\<lambda>xs. fst (xs ! i)"] that looks_length [OF e] by (simp add: looks_def)
  then show ?thesis using looks_length [OF e] by (auto simp: items_where_def intro: filter_cong)
qed

lemma looks_choose: "looks t = looks s \<Longrightarrow> co_open t = co_open s \<Longrightarrow> items_where (can_choose t) t = items_where (can_choose s) s"
proof -
  assume e: "looks t = looks s" "co_open t = co_open s"
  have "can_choose t (bx_items t ! i) = can_choose s (bx_items s ! i)" if "i < length (bx_items s)" for i
    using arg_cong [OF e(1), of "\<lambda>xs. snd (xs ! i)"] that looks_length [OF e(1)] e(2) by (simp add: looks_def can_choose_def)
  then show ?thesis using looks_length [OF e(1)] by (auto simp: items_where_def intro: filter_cong)
qed

lemma filter_after:
  assumes "m < length (filter P [0..<n])" and "filter P [0..<n] ! m = j"
  shows "filter P [Suc j..<n] = drop (Suc m) (filter P [0..<n])" and "j < n" and "P j"
proof -
  let ?ys = "filter P [0..<n]"
  have "j \<in> set ?ys" using assms nth_mem by metis
  then show j: "j < n" "P j" by simp_all
  have "[0..<n] = [0..<j] @ j # [Suc j..<n]" using j(1) by (metis le_add1 less_imp_le_nat plus_nat.add_0 upt_add_eq_append upt_conv_Cons le_add_diff_inverse)
  then have ys: "?ys = filter P [0..<j] @ j # filter P [Suc j..<n]" using j(2) by simp
  have "?ys ! length (filter P [0..<j]) = j" "length (filter P [0..<j]) < length ?ys" unfolding ys by simp_all
  then have "m = length (filter P [0..<j])" using assms distinct_filter [OF distinct_upt] by (metis nth_eq_iff_index_eq)
  then show "filter P [Suc j..<n] = drop (Suc m) ?ys" unfolding ys by simp
qed

lemma filter_one: "i < n \<Longrightarrow> filter (\<lambda>k. k = i) [0..<n] = [i]"
  by (induction n) (auto simp: less_Suc_eq filter_empty_conv)

definition point_at :: "nat \<Rightarrow> combobox \<Rightarrow> combobox" where
  "point_at i s = upd_item i (\<lambda>t. t\<lparr>ci_hover := True\<rparr>) (upd_items (\<lambda>t. t\<lparr>ci_hover := False\<rparr>) s)"

lemma point_facts:
  assumes "i < length (bx_items s)"
  shows "items_where ci_hover (point_at i s) = [i]" and "items_where (can_choose (point_at i s)) (point_at i s) = items_where (can_choose s) s"
    and "bx_data (point_at i s) = bx_data s" "length (bx_items (point_at i s)) = length (bx_items s)" "co_values (point_at i s) = co_values s"
    and "co_multiple (point_at i s) = co_multiple s" "bx_nav (point_at i s) = bx_nav s" "co_open (point_at i s) = co_open s"
proof -
  have h: "ci_hover (bx_items (point_at i s) ! k) = (k = i)" "can_choose (point_at i s) (bx_items (point_at i s) ! k) = can_choose s (bx_items s ! k)"
    if "k < length (bx_items s)" for k
    using that assms by (auto simp: point_at_def upd_item_def upd_items_def nth_list_update can_choose_def)
  have l: "length (bx_items (point_at i s)) = length (bx_items s)" by (simp add: point_at_def upd_item_def upd_items_def)
  have "items_where ci_hover (point_at i s) = filter (\<lambda>k. k = i) [0..<length (bx_items s)]"
    unfolding items_where_def l by (rule filter_cong) (simp_all add: h(1))
  then show "items_where ci_hover (point_at i s) = [i]" using filter_one [OF assms] by simp
  show "items_where (can_choose (point_at i s)) (point_at i s) = items_where (can_choose s) s"
    unfolding items_where_def l by (rule filter_cong) (simp_all add: h(2))
qed (simp_all add: point_at_def upd_item_def upd_items_def)

lemma nav_step:
  assumes "sized s" and "bx_nav s" and "\<not> co_multiple s" and "nav_target d s = Some i" and "i < length (bx_data s)"
    and "co_values s = [cr_value (bx_data s ! i)] \<or> cr_value (bx_data s ! i) \<notin> set (co_values s)"
  shows "items_where ci_hover (box_nav d s) = [i]" and "items_where (can_choose (box_nav d s)) (box_nav d s) = items_where (can_choose s) s"
    and "co_values (box_nav d s) = [cr_value (bx_data s ! i)]" and "bx_data (box_nav d s) = bx_data s" and "sized (box_nav d s)"
    and "bx_nav (box_nav d s)" and "\<not> co_multiple (box_nav d s)"
proof -
  have il: "i < length (bx_items s)" using assms(1,5) by (simp add: sized_def)
  note p = point_facts [OF il]
  have b: "box_nav d s = box_select (cr_value (bx_data s ! i)) (point_at i s)"
    using assms(2,4) p by (simp add: box_nav_def point_at_def Let_def)
  have z: "sized (point_at i s)" using p assms(1) by (simp add: sized_def)
  have sl: "same_list (point_at i s) (box_nav d s)"
    unfolding b using z by (simp add: box_select_def box_values_facts)
  show "co_values (box_nav d s) = [cr_value (bx_data s ! i)]"
    unfolding b using assms(3,6) p z by (auto simp: box_select_def box_values_facts)
  show "items_where ci_hover (box_nav d s) = [i]" using looks_hover [of "box_nav d s" "point_at i s"] sl p(1) by (simp add: same_list_def)
  show "items_where (can_choose (box_nav d s)) (box_nav d s) = items_where (can_choose s) s"
    using looks_choose [of "box_nav d s" "point_at i s"] sl p(2) by (simp add: same_list_def)
  show "bx_data (box_nav d s) = bx_data s" "bx_nav (box_nav d s)" "\<not> co_multiple (box_nav d s)" using sl p assms(2,3) by (simp_all add: same_list_def)
  show "sized (box_nav d s)" using same_list_sized [OF sl] z by simp
qed

text \<open>
  The keys.  In an open list with nothing marked, where a value follows the keys, pressing the down key \<open>k + 1\<close> times points at the item number \<open>k\<close> of those
  that are visible and not disabled, counted round from the first, and makes its value the one value of the field.
\<close>

theorem cbx_nav_cycle:
  assumes "length (bx_items s) = length (bx_data s)" and "bx_nav s" and "\<not> co_multiple s"
    and "list_all (\<lambda>t. \<not> ci_hover t \<and> \<not> ci_selected t) (bx_items s)" and "list_all (\<lambda>v. find_row v s = None) (co_values s)"
    and "js = items_where (can_choose s) s" and "js \<noteq> []"
  shows "items_where ci_hover ((box_nav True ^^ Suc k) s) = [js ! (k mod length js)] \<and>
    co_values ((box_nav True ^^ Suc k) s) = [cr_value (bx_data s ! (js ! (k mod length js)))]"
proof -
  let ?n = "length js" and ?t = "\<lambda>k. (box_nav True ^^ Suc k) s"
  have en: "js = filter (\<lambda>i. can_choose s (bx_items s ! i)) [0..<length (bx_data s)]" using assms(1,6) by (simp add: items_where_def)
  have jb: "js ! m < length (bx_data s)" if "m < ?n" for m using nth_mem [OF that] unfolding en by simp
  have "items_where ci_hover (?t k) = [js ! (k mod ?n)] \<and> co_values (?t k) = [cr_value (bx_data s ! (js ! (k mod ?n)))] \<and>
      items_where (can_choose (?t k)) (?t k) = js \<and> bx_data (?t k) = bx_data s \<and> sized (?t k) \<and> bx_nav (?t k) \<and> \<not> co_multiple (?t k)"
  proof (induction k)
    case 0
    have hs: "items_where ci_hover s = []" "items_where ci_selected s = []" using assms(4) by (auto simp: items_where_def list_all_length)
    then have t: "nav_target True s = Some (js ! 0)" using assms(6,7) by (simp add: nav_target_def hd_conv_nth Let_def)
    have b: "js ! 0 < length (bx_data s)" using jb [of 0] assms(7) by simp
    have "cr_value (bx_data s ! (js ! 0)) \<notin> set (co_values s)"
    proof
      assume "cr_value (bx_data s ! (js ! 0)) \<in> set (co_values s)"
      then have "find_row (cr_value (bx_data s ! (js ! 0))) s = None" using assms(5) by (simp add: list_all_iff)
      then show False using b by (auto simp: find_row_def index_where_None)
    qed
    with nav_step [OF _ assms(2,3) t b] assms(1,6) show ?case by (simp add: sized_def)
  next
    case (Suc k)
    let ?u = "?t k" and ?m = "k mod ?n"
    have m: "?m < ?n" using assms(7) by simp
    have u: "items_where ci_hover ?u = [js ! ?m]" "items_where (can_choose ?u) ?u = js" "bx_data ?u = bx_data s" "sized ?u" "bx_nav ?u" "\<not> co_multiple ?u"
      "co_values ?u = [cr_value (bx_data s ! (js ! ?m))]" using Suc.IH by simp_all
    have fl: "js = filter (\<lambda>i. can_choose ?u (bx_items ?u ! i)) [0..<length (bx_items ?u)]" using u(2) by (simp add: items_where_def)
    have ah: "filter (\<lambda>i. can_choose ?u (bx_items ?u ! i)) [Suc (js ! ?m)..<length (bx_items ?u)] = drop (Suc ?m) js"
      using filter_after(1) [of ?m "\<lambda>i. can_choose ?u (bx_items ?u ! i)" "length (bx_items ?u)", folded fl, OF m refl] .
    have sm: "Suc k mod ?n = (if Suc ?m = ?n then 0 else Suc ?m)" by (simp add: mod_Suc)
    have t: "nav_target True ?u = Some (js ! (Suc k mod ?n))"
    proof (cases "Suc ?m = ?n")
      case True
      then show ?thesis using u(1,2) ah sm assms(7) by (simp add: nav_target_def hd_conv_nth Let_def)
    next
      case False
      then have "Suc ?m < ?n" using m by simp
      then show ?thesis using u(1,2) ah sm False by (simp add: nav_target_def hd_drop_conv_nth Let_def)
    qed
    have b: "js ! (Suc k mod ?n) < length (bx_data ?u)" using jb [of "Suc k mod ?n"] assms(7) u(3) by simp
    have v: "co_values ?u = [cr_value (bx_data ?u ! (js ! (Suc k mod ?n)))] \<or> cr_value (bx_data ?u ! (js ! (Suc k mod ?n))) \<notin> set (co_values ?u)"
      using u(3,7) by auto
    show ?case using nav_step [OF u(4-6) t b v] u(2,3) by simp
  qed
  then show ?thesis by blast
qed

section \<open>Typing and Enter\<close>

lemma row_found: "find_row v s = None \<longleftrightarrow> \<not> list_ex (\<lambda>r. cr_value r = v) (bx_data s)"
  by (auto simp: find_row_def index_where_None list_ex_iff)

lemma query_box:
  assumes "\<not> bx_remote s" and "\<not> co_multiple s" and "sized s" and "m = match_parts E [q] (hide_list s)"
  shows "box_query E q s = box_values (snd m) True (fst m)" and "same_but_items s (fst m)" and "same_list (fst m) (box_query E q s)"
proof -
  show sm: "same_but_items s (fst m)" unfolding assms(4) using same_but_items_trans [OF hide_list_same match_parts_same] .
  have zm: "sized (fst m)" "\<not> co_multiple (fst m)" using same_but_sized [OF sm] sm assms(2,3) by (simp_all add: same_but_items_def)
  show b: "box_query E q s = box_values (snd m) True (fst m)"
    using zm(2) assms(1,2) unfolding assms(4) by (simp add: box_query_local query_values_def Let_def)
  show "same_list (fst m) (box_query E q s)" unfolding b by (rule box_values_facts(2) [OF zm(1)])
qed

lemma calm_query:
  assumes "\<not> bx_remote s" and "\<not> co_multiple s" and "sized s"
  shows "items_where ci_hover (box_query E q s) = []"
proof -
  have h: "calm_list (hide_list s)" by (simp add: calm_list_def hide_list_def upd_items_def list_all_iff)
  define m where "m = match_parts E [q] (hide_list s)"
  have c: "calm_list (fst m)"
    using calm_match_fold [OF h] by (simp add: m_def match_parts_def match_part_def Let_def split_beta)
  have "looks (box_query E q s) = looks (fst m)" using query_box(3) [OF assms m_def] by (simp add: same_list_def)
  from looks_hover [OF this] show ?thesis using hover_none [OF c] by simp
qed

lemma enter_free:
  assumes "items_where ci_hover s = []" and "sized s" and "\<not> co_multiple s"
  shows "co_values (box_enter s) = filter (\<lambda>v. find_row v s \<noteq> None) (co_values s)"
    and "get_text (co_box (box_enter s)) = js_join [co_separator s] (map (row_text s) (filter (\<lambda>v. find_row v s \<noteq> None) (co_values s)))"
    and "\<not> co_open (box_enter s)" and "co_log (box_enter s) \<noteq> [] \<and> last (co_log (box_enter s)) = CoHide"
proof -
  let ?t = "box_values (filter (\<lambda>v. find_row v s \<noteq> None) (co_values s)) False s"
  note b = box_values_facts [OF assms(2), where vs = "filter (\<lambda>v. find_row v s \<noteq> None) (co_values s)" and r = False]
  have "\<not> co_multiple ?t" using b(2) assms(3) by (simp add: same_list_def)
  then have "box_enter s = hide_combo ?t" using assms(1) by (simp add: box_enter_def Let_def)
  then show "co_values (box_enter s) = filter (\<lambda>v. find_row v s \<noteq> None) (co_values s)"
    "get_text (co_box (box_enter s)) = js_join [co_separator s] (map (row_text s) (filter (\<lambda>v. find_row v s \<noteq> None) (co_values s)))"
    using b(3,4) by simp_all
  show "\<not> co_open (box_enter s)" "co_log (box_enter s) \<noteq> [] \<and> last (co_log (box_enter s)) = CoHide"
    using \<open>box_enter s = hide_combo ?t\<close> by (simp_all add: hide_combo_def co_emit_def)
qed

text \<open>
  C30: what is typed is held to the list.  When a new text is typed, searched and confirmed by Enter, the value is the one of the
  row with that text, in whatever case, or the text itself when it is the value of a row, and the field shows the text of that row;
  without such a row there is no value and no text.  While it is typed the list is open; Enter closes it, and tells so last.
\<close>

theorem cbx_type_enter:
  assumes "length (bx_items s) = length (bx_data s)" and "distinct (map cr_value (bx_data s))" and "\<not> co_multiple s" and "\<not> bx_remote s"
    and "tx_focus (co_box s)" and "live (co_box s)" and "co_previous s \<noteq> q"
    and "w = fold (\<lambda>r v. if be_filter E (js_trim q) r \<and> map to_lower (cr_text r) = map to_lower (js_trim q) then cr_value r else v) (bx_data s) (js_trim q)"
    and "t = box_enter (box_typed E (s\<lparr>co_box := type_text q (co_box s)\<rparr>))"
  shows "co_values t = (if list_ex (\<lambda>r. cr_value r = w) (bx_data s) then [w] else []) \<and>
    get_text (co_box t) = (case find_row w s of None \<Rightarrow> [] | Some i \<Rightarrow> cr_text (bx_data s ! i)) \<and>
    co_open (box_typed E (s\<lparr>co_box := type_text q (co_box s)\<rparr>)) \<and> \<not> co_open t \<and> co_log t \<noteq> [] \<and> last (co_log t) = CoHide"
proof -
  define u where "u = box_show (s\<lparr>co_box := type_text q (co_box s), co_previous := q\<rparr>)"
  have u: "bx_data u = bx_data s" "length (bx_items u) = length (bx_items s)" "\<not> co_multiple u" "\<not> bx_remote u" "co_separator u = co_separator s"
    using assms(3,4) by (simp_all add: u_def box_show_def show_combo_def upd_items_def)
  have "get_text (type_text q (co_box s)) = q" using assms(5,6) by (simp add: get_text_def type_text_def)
  then have typed: "box_typed E (s\<lparr>co_box := type_text q (co_box s)\<rparr>) = box_query E q u" using assms(7) by (simp add: box_typed_def u_def Let_def)
  then have t: "t = box_enter (box_query E q u)" using assms(9) by simp
  have zu: "sized u" using u assms(1) by (simp add: sized_def)
  have v: "co_values (box_query E q u) = [w]"
    using cbx_query_values [where s = u and E = E and q = q] u assms(1,2,8) by simp
  have sb: "sized (box_query E q u)" "bx_data (box_query E q u) = bx_data s" "\<not> co_multiple (box_query E q u)"
  proof -
    note q = query_box(2,3) [OF u(4,3) zu refl]
    show "sized (box_query E q u)" "bx_data (box_query E q u) = bx_data s" "\<not> co_multiple (box_query E q u)"
      using same_list_sized [OF q(2)] same_but_sized [OF q(1)] zu q u by (simp_all add: same_list_def same_but_items_def)
  qed
  have "co_open u" by (simp add: u_def box_show_def show_combo_def)
  then have opened: "co_open (box_query E q u)"
    using query_box(2,3) [OF u(4,3) zu refl, of E q] by (simp add: same_list_def same_but_items_def)
  have fr: "find_row w (box_query E q u) = find_row w s" by (simp add: find_row_def sb(2))
  note e = enter_free [OF calm_query [OF u(4,3) zu] sb(1,3), unfolded v, folded t]
  have "co_values t = (if list_ex (\<lambda>r. cr_value r = w) (bx_data s) then [w] else [])"
    "get_text (co_box t) = (case find_row w s of None \<Rightarrow> [] | Some i \<Rightarrow> cr_text (bx_data s ! i))"
    using e fr row_found [of w s] by (auto simp: row_text_def sb(2) split: option.split)
  then show ?thesis using e(3,4) opened typed by simp
qed

section \<open>An example\<close>

text \<open>A list of four towns in two groups, one of them disabled; a field with the focus over it.\<close>

definition town :: "string \<Rightarrow> string \<Rightarrow> string \<Rightarrow> bool \<Rightarrow> crow" where
  "town v x g d = \<lparr>cr_value = v, cr_text = x, cr_group = Some g, cr_selected = False, cr_disabled = d\<rparr>"

definition town_rows :: "crow list" where
  "town_rows = [town ''b'' ''Bern'' ''south'' False, town ''r'' ''Rome'' ''south'' True, town ''k'' ''Kiel'' ''north'' False, town ''br'' ''Bremen'' ''north'' False]"

definition town_box :: combobox where
  "town_box = (box_load town_rows False (box_defaults\<lparr>co_open := True\<rparr>))\<lparr>co_box := focus_in textbox_defaults\<rparr>"

lemma town_facts:
  "length (bx_items town_box) = length (bx_data town_box)" "distinct (map cr_value (bx_data town_box))" "\<not> co_multiple town_box"
  "\<not> bx_remote town_box" "bx_nav town_box" "tx_focus (co_box town_box)" "live (co_box town_box)" "co_previous town_box \<noteq> ''bREMEN''"
  "list_all (\<lambda>t. \<not> ci_hover t \<and> \<not> ci_selected t) (bx_items town_box)" "list_all (\<lambda>v. find_row v town_box = None) (co_values town_box)"
  "items_where (can_choose town_box) town_box = [0, 2, 3]"
  by code_simp+

theorem cbx_query_witness:
  "map ci_visible (bx_items (box_query box_env0 ''b'' town_box)) = [True, False, False, True]"
proof -
  have "map ci_visible (bx_items (box_query box_env0 ''b'' town_box)) = map (be_filter box_env0 (js_trim ''b'')) (bx_data town_box)"
    using cbx_query [OF town_facts(1-4), of box_env0 "''b''"] by blast
  also have "\<dots> = [True, False, False, True]" by code_simp
  finally show ?thesis .
qed

theorem cbx_nav_cycle_witness:
  "co_values ((box_nav True ^^ 5) town_box) = [''k'']"
proof -
  have "co_values ((box_nav True ^^ Suc 4) town_box) = [cr_value (bx_data town_box ! ([0, 2, 3] ! (4 mod length [0, 2, 3 :: nat])))]"
    using cbx_nav_cycle [OF town_facts(1,5,3,9,10) town_facts(11) [symmetric], of 4] by simp
  moreover have "cr_value (bx_data town_box ! ([0, 2, 3] ! (4 mod length [0, 2, 3 :: nat]))) = ''k''" by code_simp
  ultimately show ?thesis by simp
qed

theorem cbx_type_enter_witness:
  "co_values (box_enter (box_typed box_env0 (town_box\<lparr>co_box := type_text ''bREMEN'' (co_box town_box)\<rparr>))) = [''br''] \<and>
   \<not> co_open (box_enter (box_typed box_env0 (town_box\<lparr>co_box := type_text ''bREMEN'' (co_box town_box)\<rparr>)))"
proof -
  let ?w = "fold (\<lambda>r v. if be_filter box_env0 (js_trim ''bREMEN'') r \<and> map to_lower (cr_text r) = map to_lower (js_trim ''bREMEN'') then cr_value r else v)
      (bx_data town_box) (js_trim ''bREMEN'')"
  have "?w = ''br''" "list_ex (\<lambda>r. cr_value r = ''br'') (bx_data town_box)" by code_simp+
  then show ?thesis using cbx_type_enter [OF town_facts(1-4,6-8) refl refl, of box_env0] by simp
qed

text \<open>
  \<open>clear\<close> gives a field with one value the empty text as its value and takes all marks away: a row whose value is the empty text
  is the value then, and is not marked.
\<close>

lemma clear_unmarks:
  assumes "find_row [] s = Some i" and "i < length (bx_items s)" and "\<not> co_multiple s"
  shows "co_values (box_clear s) = [[]] \<and> find_row [] (box_clear s) = Some i \<and> \<not> ci_selected (bx_items (box_clear s) ! i)"
  using assms by (simp add: box_clear_def clear_combo_def upd_items_def find_row_def)

end
