(* ===== verification/Time_Fields.thy ===== *)
theory Time_Fields
  imports Calendar Textbox
begin

text \<open>
  Times and dates as texts: \<open>formatter\<close>, \<open>parser\<close> and the spinning of \<open>js/plugins/jquery.timespinner.js\<close>,
  \<open>jquery.datetimespinner.js\<close>, \<open>jquery.datebox.js\<close> and \<open>jquery.datetimebox.js\<close>.

  A \<open>Date\<close> is the pair of theory Calendar: its day and the milliseconds of that day.  Days have 24 hours (no
  change of the clock).  A time whose numbers leave the range of the dates of the language is no date (\<open>BadDate\<close>); the days and years of the
  fields for dates are modelled within that range.  Numbers are exact: sums beyond \<open>2 ^ 53\<close>, which the language rounds, leave the range anyway unless
  they cancel each other.  Separators have one character.
\<close>

section \<open>Dates of the language\<close>

text \<open>\<open>parseInt(s, 10)\<close>, which does not read hexadecimal numbers, and \<open>||0\<close> on an element of an array.\<close>

definition parse10 :: "string \<Rightarrow> int option" where
  "parse10 s =
     (case dropWhile js_space s of
        [] \<Rightarrow> None
      | c # cs \<Rightarrow>
          if c = CHR ''-'' then map_option (\<lambda>n. - int n) (parse_nat cs)
          else if c = CHR ''+'' then map_option int (parse_nat cs)
          else map_option int (parse_nat (c # cs)))"

definition or_zero :: "int option \<Rightarrow> int" where
  "or_zero x = (case x of None \<Rightarrow> 0 | Some i \<Rightarrow> i)"

definition part_of :: "string list \<Rightarrow> nat \<Rightarrow> int" where
  "part_of tt i = (if i < length tt then or_zero (parse10 (tt ! i)) else 0)"

definition day_ms :: int where
  "day_ms = 86400000"

text \<open>\<open>new Date(y, m, d, h, mi, s)\<close> for the day \<open>n\<close> of \<open>y\<close>, \<open>m\<close>, \<open>d\<close>: hours, minutes and seconds carry over.\<close>

definition date_at :: "int \<Rightarrow> int \<Rightarrow> int \<Rightarrow> int \<Rightarrow> date" where
  "date_at n h mi s = (let t = n * day_ms + ((h * 60 + mi) * 60 + s) * 1000 in (t div day_ms, t mod day_ms))"

text \<open>
  A date of the language is at most 100 000 000 days from the start of 1970; a \<open>Date\<close> beyond that holds \<open>NaN\<close>: it is an object,
  no comparison with it holds, and its hours are \<open>NaN\<close>.  A parser gives \<open>null\<close>, such a date, or a date.
\<close>

datatype reading = NoDate | BadDate | At date

definition epoch_day :: int where
  "epoch_day = day_no 1970 1 1"

definition in_range :: "date \<Rightarrow> bool" where
  "in_range d \<longleftrightarrow> \<bar>(fst d - epoch_day) * day_ms + snd d\<bar> \<le> 8640000000000000"

definition time_clip :: "date \<Rightarrow> reading" where
  "time_clip d = (if in_range d then At d else BadDate)"

definition hours :: "date \<Rightarrow> int" where
  "hours d = snd d div 3600000"

definition minutes :: "date \<Rightarrow> int" where
  "minutes d = snd d div 60000 mod 60"

definition seconds :: "date \<Rightarrow> int" where
  "seconds d = snd d div 1000 mod 60"

definition later :: "date \<Rightarrow> date \<Rightarrow> bool" where
  "later a b \<longleftrightarrow> fst b < fst a \<or> fst a = fst b \<and> snd b < snd a"

fun after :: "reading \<Rightarrow> reading \<Rightarrow> bool" where
  "after (At a) (At b) = later a b"
| "after a b = False"

definition two :: "int \<Rightarrow> string" where
  "two n = (if n < 10 then ''0'' else []) @ show_int n"

section \<open>The time spinner\<close>

record tspin =
  tm_box :: textbox
  tm_separator :: char
  tm_showSeconds :: bool
  tm_min :: string
  tm_max :: string
  tm_increment :: int
  tm_highlight :: nat
  tm_selections :: "(nat \<times> nat) list"

definition tspin_defaults :: tspin where
  "tspin_defaults = \<lparr>tm_box = textbox_defaults, tm_separator = CHR '':'', tm_showSeconds = False, tm_min = [], tm_max = [],
     tm_increment = 1, tm_highlight = 0, tm_selections = [(0, 2), (3, 5), (6, 8)]\<rparr>"

definition base_day :: int where
  "base_day = js_day 1900 0 0"

definition time_read :: "char \<Rightarrow> string \<Rightarrow> reading" where
  "time_read c s =
     (if s = [] then NoDate
      else let tt = js_split c s in time_clip (date_at base_day (part_of tt 0) (part_of tt 1) (part_of tt 2)))"

text \<open>\<open>if (min && min > d) d = min\<close>, then the same with the other bound.\<close>

definition time_parse :: "tspin \<Rightarrow> string \<Rightarrow> reading" where
  "time_parse s v =
     (let d = time_read (tm_separator s) v in
      if d = NoDate then NoDate
      else
        let a = time_read (tm_separator s) (tm_min s); b = time_read (tm_separator s) (tm_max s);
            d = (if after a d then a else d)
        in if after d b then b else d)"

definition time_texts :: "bool \<Rightarrow> date \<Rightarrow> string list" where
  "time_texts sec d = [two (hours d), two (minutes d)] @ (if sec then [two (seconds d)] else [])"

definition time_format :: "tspin \<Rightarrow> reading \<Rightarrow> string" where
  "time_format s d =
     (case d of
        NoDate \<Rightarrow> []
      | BadDate \<Rightarrow> js_join [tm_separator s] ([''NaN'', ''NaN''] @ (if tm_showSeconds s then [''NaN''] else []))
      | At d \<Rightarrow> js_join [tm_separator s] (time_texts (tm_showSeconds s) d))"

definition time_set :: "string \<Rightarrow> tspin \<Rightarrow> tspin" where
  "time_set v s = s\<lparr>tm_box := text_set (time_format s (time_parse s v)) (tm_box s)\<rparr>"

definition time_init :: "string \<Rightarrow> tspin \<Rightarrow> tspin" where
  "time_init v s = s\<lparr>tm_box := init_value (time_format s (time_parse s v)) (tm_box s)\<rparr>"

text \<open>The number in the part that is highlighted goes up or down by the increment; the result is read again.\<close>

definition spin_text :: "tspin \<Rightarrow> bool \<Rightarrow> string \<Rightarrow> string" where
  "spin_text s down v =
     (let (a, b) = tm_selections s ! tm_highlight s
      in take a v @ show_int (or_zero (parseInt (drop a (take b v))) + tm_increment s * (if down then -1 else 1)) @ drop b v)"

definition time_spin :: "bool \<Rightarrow> tspin \<Rightarrow> tspin" where
  "time_spin down s = time_set (spin_text s down (tx_hidden (tm_box s))) s"

text \<open>A click highlights the part under the caret; the last two handlers of \<open>inputEvents\<close> read what was typed.\<close>

definition part_at :: "nat \<Rightarrow> (nat \<times> nat) list \<Rightarrow> nat option" where
  "part_at k sels = index_where (\<lambda>(a, b). a \<le> k \<and> k \<le> b) sels"

definition time_click :: "nat \<Rightarrow> tspin \<Rightarrow> tspin" where
  "time_click k s = (case part_at k (tm_selections s) of None \<Rightarrow> s | Some i \<Rightarrow> s\<lparr>tm_highlight := i\<rparr>)"

definition time_blur :: "tspin \<Rightarrow> tspin" where
  "time_blur s = time_set (get_text (tm_box s)) s"

definition time_hours :: "tspin \<Rightarrow> int option" where
  "time_hours s = parse10 (js_split (tm_separator s) (tx_hidden (tm_box s)) ! 0)"

definition time_part :: "nat \<Rightarrow> tspin \<Rightarrow> int option" where
  "time_part i s = (let vv = js_split (tm_separator s) (tx_hidden (tm_box s)) in if i < length vv then parse10 (vv ! i) else None)"

definition time_seconds :: "tspin \<Rightarrow> int" where
  "time_seconds s = or_zero (time_part 2 s)"

section \<open>Dates and dates with times\<close>

definition date_format :: "date \<Rightarrow> string" where
  "date_format d = (let (y, m, e) = civil (fst d) in two m @ ''/'' @ two e @ ''/'' @ show_int y)"

definition date_parse :: "date \<Rightarrow> string \<Rightarrow> date" where
  "date_parse now s =
     (if s = [] then now
      else
        let ss = js_split (CHR ''/'') s; num = (\<lambda>i. if i < length ss then parse10 (ss ! i) else None)
        in case (num 2, num 0, num 1) of (Some y, Some m, Some d) \<Rightarrow> (js_day y (m - 1) d, 0) | _ \<Rightarrow> now)"

text \<open>\<open>new Date(d.getFullYear(), d.getMonth(), d.getDate(), h, mi, s)\<close>.\<close>

definition with_time :: "date \<Rightarrow> int \<Rightarrow> int \<Rightarrow> int \<Rightarrow> date" where
  "with_time d h mi s = (let (y, m, e) = civil (fst d) in date_at (js_day y (m - 1) e) h mi s)"

definition dtbox_format :: "char \<Rightarrow> bool \<Rightarrow> date \<Rightarrow> string" where
  "dtbox_format c sec d = date_format d @ '' '' @ js_join [c] (time_texts sec d)"

definition dtbox_parse :: "date \<Rightarrow> char \<Rightarrow> string \<Rightarrow> date" where
  "dtbox_parse now c s =
     (if js_trim s = [] then now
      else
        let dt = js_split (CHR '' '') s; d = date_parse now (dt ! 0) in
        if length dt < 2 then d
        else let tt = js_split c (dt ! 1) in with_time d (part_of tt 0) (part_of tt 1) (part_of tt 2))"

text \<open>
  The parser of the spinner for dates with times reads the time with the one of the time spinner, which gives
  \<open>null\<close> for an empty text: two spaces in a row make it read a property of \<open>null\<close>, which throws (\<open>None\<close> outside).
\<close>

definition dtspin_format :: "tspin \<Rightarrow> reading \<Rightarrow> string" where
  "dtspin_format s d =
     (case d of
        NoDate \<Rightarrow> []
      | BadDate \<Rightarrow> ''NaN/NaN/NaN'' @ '' '' @ time_format s d
      | At e \<Rightarrow> date_format e @ '' '' @ time_format s d)"

definition dtspin_parse :: "date \<Rightarrow> tspin \<Rightarrow> string \<Rightarrow> reading option" where
  "dtspin_parse now s v =
     (let v = js_trim v in
      if v = [] then Some NoDate
      else
        let dt = js_split (CHR '' '') v; b = date_parse now (dt ! 0) in
        if length dt < 2 then Some (At b)
        else
          case time_parse s (dt ! 1) of
            NoDate \<Rightarrow> None
          | BadDate \<Rightarrow> Some BadDate
          | At c \<Rightarrow> Some (At (with_time b (hours c) (minutes c) (seconds c))))"

definition dtspin_set :: "date \<Rightarrow> string \<Rightarrow> tspin \<Rightarrow> tspin option" where
  "dtspin_set now v s = map_option (\<lambda>d. s\<lparr>tm_box := text_set (dtspin_format s d) (tm_box s)\<rparr>) (dtspin_parse now s v)"

definition dtspin_spin :: "date \<Rightarrow> bool \<Rightarrow> tspin \<Rightarrow> tspin option" where
  "dtspin_spin now down s = dtspin_set now (spin_text s down (tx_hidden (tm_box s))) s"

section \<open>Reading numbers back\<close>

lemma parse10_show: "parse10 (show_int i) = Some i"
proof -
  have n: "parse_nat (show_nat n) = Some n" for n using parse_nat_show_append [of "[]" n] by simp
  show ?thesis
  proof (cases "i < 0")
    case True
    then show ?thesis by (simp add: show_int_def parse10_def js_space_def n)
  next
    case False
    obtain c cs where cs: "show_nat (nat i) = c # cs" by (cases "show_nat (nat i)") auto
    have "is_digit c" using show_nat_digits [of "nat i"] cs by simp
    with not_digit_special [OF this] False n [of "nat i"] show ?thesis by (simp add: show_int_def cs parse10_def)
  qed
qed

lemma two_digits: "0 \<le> n \<Longrightarrow> \<exists>d ds. two n = d # ds \<and> is_digit d \<and> (\<forall>c\<in>set ds. is_digit c) \<and> read_digits 0 (two n) = nat n"
proof -
  assume n: "0 \<le> n"
  have z: "is_digit (CHR ''0'')" "digit_val (CHR ''0'') = Some 0" by code_simp+
  obtain c cs where cs: "show_nat (nat n) = c # cs" by (cases "show_nat (nat n)") auto
  have d: "\<forall>x\<in>set (c # cs). is_digit x" using show_nat_digits [of "nat n"] unfolding cs .
  have r: "read_digits 0 (c # cs) = nat n" using read_show_nat [of "nat n"] unfolding cs .
  show ?thesis
  proof (cases "n < 10")
    case True
    then have "two n = CHR ''0'' # c # cs" using n cs by (simp add: two_def show_int_def)
    moreover have "read_digits 0 (CHR ''0'' # c # cs) = read_digits 0 (c # cs)" by (subst read_digits.simps(2)) (simp add: z(2) del: read_digits.simps)
    ultimately show ?thesis using d r z(1) by auto
  next
    case False
    then have "two n = c # cs" using n cs by (simp add: two_def show_int_def)
    then show ?thesis using d r by auto
  qed
qed

lemma parse_nat_two: "0 \<le> n \<Longrightarrow> parse_nat (two n) = Some (nat n)"
  using two_digits [of n] by (auto simp: parse_nat_def)

lemma parse10_two: "0 \<le> n \<Longrightarrow> parse10 (two n) = Some n"
proof -
  assume n: "0 \<le> n"
  obtain d ds where t: "two n = d # ds" "is_digit d" using two_digits [OF n] by blast
  show ?thesis using not_digit_special [OF t(2)] parse_nat_two [OF n] n unfolding parse10_def t(1) by simp
qed

lemma parseInt_two: "0 \<le> n \<Longrightarrow> parseInt (two n) = Some n"
proof -
  assume n: "0 \<le> n"
  obtain d ds where t: "two n = d # ds" "is_digit d" "\<forall>c\<in>set ds. is_digit c" using two_digits [OF n] by blast
  have "\<not> hex_prefix (two n)" using not_hex_prefix [of "two n" "[]"] t by simp
  then show ?thesis using not_digit_special [OF t(2)] parse_nat_two [OF n] n by (simp add: parseInt_def parse_unsigned_def t(1) split: list.split)
qed

lemma two_chars: "0 \<le> n \<Longrightarrow> c \<in> set (two n) \<Longrightarrow> is_digit c"
  using two_digits [of n] by auto

lemma two_length: "0 \<le> n \<Longrightarrow> n < 100 \<Longrightarrow> length (two n) = 2"
proof -
  assume n: "0 \<le> n" "n < 100"
  have "length (show_nat k) = 1" if "k < 10" for k using that by (simp add: show_nat.simps [of k])
  moreover have "length (show_nat k) = 2" if "10 \<le> k" "k < 100" for k
    using that show_nat.simps [of k] show_nat.simps [of "k div 10"] by simp
  ultimately show ?thesis using n by (simp add: two_def show_int_def)
qed

section \<open>Times\<close>

definition proper :: "date \<Rightarrow> bool" where
  "proper d \<longleftrightarrow> 0 \<le> snd d \<and> snd d < day_ms"

lemma proper_parts:
  assumes "proper d"
  shows "0 \<le> hours d" "hours d < 24" "0 \<le> minutes d" "minutes d < 60" "0 \<le> seconds d" "seconds d < 60"
proof -
  have "0 \<le> snd d" "snd d < 86400000" using assms by (simp_all add: proper_def day_ms_def)
  then show "0 \<le> hours d" "hours d < 24" unfolding hours_def by linarith+
qed (simp_all add: minutes_def seconds_def)

lemma proper_at: "proper (date_at n h m s)"
  by (simp add: proper_def date_at_def day_ms_def Let_def)

lemma split_time:
  assumes "0 \<le> t" and "t mod 1000 = (0::int)"
  shows "((t div 3600000 * 60 + t div 60000 mod 60) * 60 + t div 1000 mod 60) * 1000 = t"
proof -
  obtain k where k: "t = 1000 * k" using assms(2) by (metis dvd_def dvd_eq_mod_eq_0)
  have d: "1000 * k div 3600000 = k div 3600" "1000 * k div 60000 = k div 60"
    using div_mult_mult1 [of 1000 k 3600] div_mult_mult1 [of 1000 k 60] by simp_all
  have "k div 3600 = k div 60 div 60" using zdiv_zmult2_eq [of 60 k 60] by simp
  moreover have "k div 60 div 60 * 60 + k div 60 mod 60 = k div 60" by (rule div_mult_mod_eq)
  moreover have "k div 60 * 60 + k mod 60 = k" by (rule div_mult_mod_eq)
  ultimately show ?thesis unfolding k by (simp add: d)
qed

lemma date_at_parts:
  assumes "proper d" and "snd d mod 1000 = 0"
  shows "date_at n (hours d) (minutes d) (seconds d) = (n, snd d)"
proof -
  have "((hours d * 60 + minutes d) * 60 + seconds d) * 1000 = snd d"
    unfolding hours_def minutes_def seconds_def using split_time [of "snd d"] assms by (simp add: proper_def)
  then have "date_at n (hours d) (minutes d) (seconds d) = ((n * day_ms + snd d) div day_ms, (n * day_ms + snd d) mod day_ms)"
    by (simp add: date_at_def Let_def)
  then show ?thesis using assms(1) by (simp add: proper_def day_ms_def)
qed

text \<open>Times of a day, and numbers that are not too large, stay in the range.\<close>

lemma base_epoch: "base_day = epoch_day - 25568"
  by code_simp

lemma clip_at: "\<bar>h\<bar> \<le> 2000000000 \<Longrightarrow> \<bar>m\<bar> \<le> 2000000000 \<Longrightarrow> \<bar>s\<bar> \<le> 2000000000 \<Longrightarrow>
    time_clip (date_at base_day h m s) = At (date_at base_day h m s)"
proof -
  assume a: "\<bar>h\<bar> \<le> 2000000000" "\<bar>m\<bar> \<le> 2000000000" "\<bar>s\<bar> \<le> 2000000000"
  define t where "t = ((h * 60 + m) * 60 + s) * 1000"
  have "(fst (date_at base_day h m s) - epoch_day) * day_ms + snd (date_at base_day h m s) = (base_day - epoch_day) * day_ms + t"
    using div_mult_mod_eq [of "base_day * day_ms + t" day_ms] by (simp add: date_at_def Let_def t_def algebra_simps)
  moreover have "\<bar>(base_day - epoch_day) * day_ms + t\<bar> \<le> 8640000000000000"
    using a unfolding base_epoch day_ms_def t_def by (simp add: abs_le_iff)
  ultimately show ?thesis by (simp add: time_clip_def in_range_def)
qed

lemma clip_proper: "proper d \<Longrightarrow> fst d = base_day \<Longrightarrow> time_clip d = At d"
  by (simp add: time_clip_def in_range_def base_epoch proper_def day_ms_def abs_le_iff)

lemma clip_cases: "time_clip d = At d \<or> time_clip d = BadDate"
  by (simp add: time_clip_def)

definition plain_sep :: "char \<Rightarrow> bool" where
  "plain_sep c \<longleftrightarrow> \<not> is_digit c \<and> c \<noteq> CHR ''-''"

lemma show_int_plain_sep: "plain_sep c \<Longrightarrow> c \<notin> set (show_int i)"
  using show_int_chars [of c i] by (auto simp: plain_sep_def)

lemma two_plain: "plain_sep c \<Longrightarrow> c \<notin> set (two n)"
  using show_int_plain_sep [of c n] by (auto simp: two_def plain_sep_def is_digit_def digit_chars_def)

text \<open>Reading the join of up to three texts of numbers.\<close>

lemma read_join:
  assumes "plain_sep c" and "ws \<noteq> []" and "\<forall>w\<in>set ws. c \<notin> set w \<and> w \<noteq> []"
  shows "time_read c (js_join [c] ws) = time_clip (date_at base_day (part_of ws 0) (part_of ws 1) (part_of ws 2))"
proof -
  have "js_split c (js_join [c] ws) = ws" using assms(2,3) by (intro js_split_join) auto
  moreover have "js_join [c] ws \<noteq> []" using assms(2,3) by (cases ws; cases "tl ws") auto
  ultimately show ?thesis by (simp add: time_read_def)
qed

lemma two_not_Nil [simp]: "two n \<noteq> []"
proof -
  have "show_int n \<noteq> []" by (simp add: show_int_def)
  then show ?thesis by (simp add: two_def)
qed

lemma read_format:
  assumes "plain_sep c" and "proper d" and "snd d mod 1000 = 0" and "sec \<or> snd d mod 60000 = 0"
  shows "time_read c (js_join [c] (time_texts sec d)) = At (base_day, snd d)"
proof -
  note p = proper_parts [OF assms(2)]
  have "seconds d = 0" if "\<not> sec"
  proof -
    have "snd d mod 60000 = 0" using assms(4) that by simp
    then obtain k where "snd d = 60000 * k" by (metis dvd_def dvd_eq_mod_eq_0)
    then have "snd d div 1000 = k * 60" by simp
    then show ?thesis by (simp add: seconds_def)
  qed
  then have "part_of (time_texts sec d) 0 = hours d" "part_of (time_texts sec d) 1 = minutes d" "part_of (time_texts sec d) 2 = seconds d"
    using p by (simp_all add: part_of_def time_texts_def parse10_two or_zero_def)
  moreover have "\<forall>w\<in>set (time_texts sec d). c \<notin> set w \<and> w \<noteq> []" using two_plain [OF assms(1)] by (auto simp: time_texts_def)
  moreover have "time_clip (base_day, snd d) = At (base_day, snd d)" by (rule clip_proper) (use assms(2) in \<open>simp_all add: proper_def\<close>)
  ultimately show ?thesis using read_join [OF assms(1), of "time_texts sec d"] date_at_parts [OF assms(2,3)] by (simp add: time_texts_def)
qed

lemma date_at_ms: "snd (date_at n h m s) mod 1000 = 0"
proof -
  have "day_ms = 1000 * 86400" by (simp add: day_ms_def)
  then have "n * day_ms + ((h * 60 + m) * 60 + s) * 1000 = 1000 * (n * 86400 + ((h * 60 + m) * 60 + s))" by simp
  then have "(n * day_ms + ((h * 60 + m) * 60 + s) * 1000) mod day_ms = 1000 * ((n * 86400 + ((h * 60 + m) * 60 + s)) mod 86400)"
    unfolding \<open>day_ms = 1000 * 86400\<close> by (simp only: mult_mod_right [symmetric])
  then show ?thesis unfolding date_at_def Let_def snd_conv by (simp only: mod_mult_self1_is_0)
qed

lemma date_at_shift:
  assumes "proper d" and "snd d mod 1000 = 0"
  shows "snd (date_at n (hours d + a) (minutes d + b) (seconds d + c)) = (snd d + ((a * 60 + b) * 60 + c) * 1000) mod day_ms"
proof -
  have "((hours d * 60 + minutes d) * 60 + seconds d) * 1000 = snd d"
    unfolding hours_def minutes_def seconds_def using split_time [of "snd d"] assms by (simp add: proper_def)
  then have e: "n * day_ms + (((hours d + a) * 60 + (minutes d + b)) * 60 + (seconds d + c)) * 1000 = (snd d + ((a * 60 + b) * 60 + c) * 1000) + n * day_ms"
    by (simp add: algebra_simps)
  show ?thesis unfolding date_at_def Let_def snd_conv e by (rule mod_mult_self1)
qed

lemma texts_day: "snd d = snd e \<Longrightarrow> time_texts sec d = time_texts sec e"
  by (simp add: time_texts_def hours_def minutes_def seconds_def)

lemma no_seconds: "snd d mod 60000 = 0 \<Longrightarrow> seconds d = 0"
proof -
  assume "snd d mod 60000 = 0"
  then obtain k where "snd d = 60000 * k" by (metis dvd_def dvd_eq_mod_eq_0)
  then have "snd d div 1000 = k * 60" by simp
  then show ?thesis by (simp add: seconds_def)
qed

text \<open>
  A time is read back.  For a separator that is neither a digit nor a minus sign, the text of a time of the day within the bounds of the spinner, with no
  seconds where it shows none, is read as that time.
\<close>

theorem time_roundtrip:
  assumes "\<not> is_digit (tm_separator s)" and "tm_separator s \<noteq> CHR ''-''" and "fst d = base_day" and "0 \<le> snd d" and "snd d < day_ms"
    and "snd d mod (if tm_showSeconds s then 1000 else 60000) = 0"
    and "\<not> after (time_read (tm_separator s) (tm_min s)) (At d)" and "\<not> after (At d) (time_read (tm_separator s) (tm_max s))"
  shows "time_parse s (time_format s (At d)) = At d"
proof -
  have p: "plain_sep (tm_separator s)" "proper d" using assms(1,2,4,5) by (simp_all add: plain_sep_def proper_def)
  have ms: "snd d mod 1000 = 0" "tm_showSeconds s \<or> snd d mod 60000 = 0"
  proof -
    have "snd d mod 1000 = 0" if z: "snd d mod 60000 = 0" using mod_mod_cancel [of 1000 60000 "snd d"] z by simp
    then show "snd d mod 1000 = 0" "tm_showSeconds s \<or> snd d mod 60000 = 0" using assms(6) by (auto split: if_splits)
  qed
  have "time_read (tm_separator s) (time_format s (At d)) = At d"
    using read_format [OF p ms] assms(3) by (simp add: time_format_def prod_eq_iff)
  then show ?thesis using assms(7,8) by (simp add: time_parse_def Let_def)
qed

lemma read_proper: "time_read c v = At d \<Longrightarrow> proper d \<and> snd d mod 1000 = 0"
  by (auto simp: time_read_def time_clip_def Let_def proper_at date_at_ms split: if_splits)

lemma parse_proper: "time_parse s v = At d \<Longrightarrow> proper d \<and> snd d mod 1000 = 0"
  by (auto simp: time_parse_def Let_def split: if_splits dest: read_proper)

lemma read_format_cut:
  assumes "plain_sep c" and "proper d" and "snd d mod 1000 = 0"
  shows "time_read c (js_join [c] (time_texts sec d)) = At (base_day, if sec then snd d else snd d div 60000 * 60000)"
proof (cases sec)
  case True
  then show ?thesis using read_format [OF assms, of sec] by simp
next
  case False
  let ?e = "(fst d, snd d div 60000 * 60000)"
  have e: "snd ?e div 60000 = snd d div 60000" by simp
  have h: "snd ?e div 3600000 = snd d div 3600000"
    using e zdiv_zmult2_eq [of 60 "snd ?e" 60000] zdiv_zmult2_eq [of 60 "snd d" 60000] by simp
  have t: "time_texts False ?e = time_texts False d" unfolding time_texts_def hours_def minutes_def e h by simp
  have k: "snd ?e \<le> snd d" "0 \<le> snd ?e"
    using assms(2) div_mult_mod_eq [of "snd d" 60000] pos_mod_sign [of 60000 "snd d"] by (simp_all add: proper_def pos_imp_zdiv_nonneg_iff)
  then have pe: "proper ?e" using assms(2) by (simp add: proper_def)
  have "snd ?e = 1000 * (60 * (snd d div 60000))" by simp
  then have me: "snd ?e mod 1000 = 0" "snd ?e mod 60000 = 0" by (simp_all only: mod_mult_self1_is_0 snd_conv) simp
  from read_format [OF assms(1) pe me(1), of False] me(2) show ?thesis using False t by simp
qed

text \<open>
  C27: the bounds.  In a spinner with both bounds, the lower one not later than the upper one (and, where it shows no seconds, a full minute), an empty text leaves the field
  empty.  Any other text, spun or typed, whose time the language can hold is shown as the time that it says, or the bound it is beyond, and what is shown is read again as a time
  within the bounds; numbers of up to nine digits are such a time.  For the others the field shows \<open>NaN\<close> for every number, which the bounds do not catch.
\<close>

theorem time_in_bounds:
  assumes "\<not> is_digit (tm_separator s)" and "tm_separator s \<noteq> CHR ''-''"
    and "time_read (tm_separator s) (tm_min s) = At (base_day, a)" and "time_read (tm_separator s) (tm_max s) = At (base_day, b)"
    and "a \<le> b" and "tm_showSeconds s \<or> a mod 60000 = 0" and "w = tx_hidden (tm_box (time_set v s))"
  shows "(v = [] \<longrightarrow> w = []) \<and>
    (v \<noteq> [] \<and> (\<forall>i<3. \<bar>part_of (js_split (tm_separator s) v) i\<bar> < 10 ^ 9) \<longrightarrow> time_read (tm_separator s) v \<noteq> BadDate) \<and>
    (time_read (tm_separator s) v = BadDate \<longrightarrow> w = js_join [tm_separator s] ([''NaN'', ''NaN''] @ (if tm_showSeconds s then [''NaN''] else []))) \<and>
    (\<forall>d. time_read (tm_separator s) v = At d \<longrightarrow>
       w = js_join [tm_separator s] (time_texts (tm_showSeconds s) (if later (base_day, a) d then (base_day, a) else if later d (base_day, b) then (base_day, b) else d)) \<and>
       (\<exists>k. time_read (tm_separator s) w = At (base_day, k) \<and> a \<le> k \<and> k \<le> b))"
proof (intro conjI impI allI)
  let ?c = "tm_separator s"
  have p: "plain_sep ?c" using assms(1,2) by (simp add: plain_sep_def)
  have w: "w = time_format s (time_parse s v)" by (simp add: assms(7) time_set_def)
  show "w = []" if "v = []" using that by (simp add: w time_format_def time_parse_def time_read_def)
  show "time_read ?c v \<noteq> BadDate" if "v \<noteq> [] \<and> (\<forall>i<3. \<bar>part_of (js_split ?c v) i\<bar> < 10 ^ 9)"
  proof -
    have "\<bar>part_of (js_split ?c v) i\<bar> < 10 ^ 9" if "i < 3" for i using that \<open>v \<noteq> [] \<and> _\<close> by blast
    from this [of 0] this [of 1] this [of 2]
    have "time_clip (date_at base_day (part_of (js_split ?c v) 0) (part_of (js_split ?c v) 1) (part_of (js_split ?c v) 2)) \<noteq> BadDate"
      by (subst clip_at) simp_all
    then show ?thesis using that by (simp add: time_read_def Let_def)
  qed
  show "w = js_join [?c] ([''NaN'', ''NaN''] @ (if tm_showSeconds s then [''NaN''] else []))" if "time_read ?c v = BadDate"
    using that by (simp add: w time_format_def time_parse_def Let_def assms(3,4))
  fix d assume r: "time_read ?c v = At d"
  define e where "e = (if later (base_day, a) d then (base_day, a) else if later d (base_day, b) then (base_day, b) else d)"
  have "\<not> later (base_day, a) (base_day, b)" using assms(5) by (simp add: later_def)
  then have e: "time_parse s v = At e" using r by (simp add: time_parse_def e_def Let_def assms(3,4))
  then show we: "w = js_join [?c] (time_texts (tm_showSeconds s) (if later (base_day, a) d then (base_day, a) else if later d (base_day, b) then (base_day, b) else d))"
    by (simp add: w time_format_def e_def)
  have k: "fst e = base_day" "a \<le> snd e" "snd e \<le> b" using assms(5) by (auto simp: e_def later_def)
  have "a \<le> snd e div 60000 * 60000" if "a mod 60000 = 0"
  proof -
    have "a = a div 60000 * 60000" using that div_mult_mod_eq [of a 60000] by simp
    moreover have "a div 60000 \<le> snd e div 60000" using k(2) by (intro zdiv_mono1) simp_all
    ultimately show ?thesis by linarith
  qed
  moreover have "snd e div 60000 * 60000 \<le> snd e" using div_mult_mod_eq [of "snd e" 60000] pos_mod_sign [of 60000 "snd e"] by linarith
  moreover have "time_read ?c w = At (base_day, if tm_showSeconds s then snd e else snd e div 60000 * 60000)"
    unfolding we e_def [symmetric] using parse_proper [OF e] by (intro read_format_cut [OF p]) simp_all
  ultimately show "\<exists>k. time_read ?c w = At (base_day, k) \<and> a \<le> k \<and> k \<le> b" using assms(6) k by auto
qed

section \<open>Spinning\<close>

definition unit_ms :: "nat \<Rightarrow> int" where
  "unit_ms i = (if i = 0 then 3600000 else if i = 1 then 60000 else 1000)"

lemma two_chars2: "length w = 2 \<Longrightarrow> \<exists>x y. w = [x, y]"
  by (cases w; cases "tl w") auto

lemma spin_join:
  assumes "ws = [p, q] \<or> ws = [p, q, r]" and "length p = 2" "length q = 2" "length r = 2" and "i < length ws"
    and "tm_selections s = [(0, 2), (3, 5), (6, 8)]" and "tm_highlight s = i"
  shows "spin_text s down (js_join [c] ws) =
    js_join [c] (ws[i := show_int (or_zero (parseInt (ws ! i)) + tm_increment s * (if down then -1 else 1))])"
proof -
  obtain p1 p2 q1 q2 r1 r2 where w: "p = [p1, p2]" "q = [q1, q2]" "r = [r1, r2]" using two_chars2 assms(2-4) by metis
  have "i = 0 \<or> i = 1 \<or> i = 2" using assms(1,5) by auto
  then show ?thesis
    using assms(1,5,6) by (elim disjE) (simp_all add: spin_text_def w assms(7) numeral_2_eq_2 numeral_3_eq_3 eval_nat_numeral)
qed

lemma spun_read:
  assumes "plain_sep c" and "proper d" and "sec \<or> seconds d = 0" and "i < (if sec then 3 else 2)"
  shows "time_read c (js_join [c] ((time_texts sec d)[i := show_int ([hours d, minutes d, seconds d] ! i + \<delta>)])) =
    time_clip (date_at base_day (hours d + (if i = 0 then \<delta> else 0)) (minutes d + (if i = 1 then \<delta> else 0)) (seconds d + (if i = 2 then \<delta> else 0)))"
proof -
  note b = proper_parts [OF assms(2)]
  have i: "i = 0 \<or> i = 1 \<or> i = 2 \<and> sec" using assms(4) by (auto split: if_splits)
  have sn: "show_int x \<noteq> []" for x by (simp add: show_int_def)
  have "\<forall>w\<in>set ((time_texts sec d)[i := show_int ([hours d, minutes d, seconds d] ! i + \<delta>)]). c \<notin> set w \<and> w \<noteq> []"
    using i two_plain [OF assms(1)] show_int_plain_sep [OF assms(1)] sn by (elim disjE) (auto simp: time_texts_def numeral_2_eq_2)
  from read_join [OF assms(1) _ this] show ?thesis
    using i b assms(3) by (elim disjE) (auto simp: time_texts_def part_of_def parse10_show parse10_two or_zero_def numeral_2_eq_2)
qed

text \<open>
  Spinning.  In a spinner without bounds and with the parts of a time under its highlights, spinning the hours, the minutes or the seconds
  adds the increment, or takes it away, in hours, minutes or seconds, round the clock: what goes beyond a full minute or hour carries over, what goes beyond
  midnight starts the day anew; the increment has up to nine digits.
\<close>

theorem time_spins:
  assumes "\<not> is_digit (tm_separator s)" and "tm_separator s \<noteq> CHR ''-''" and "tm_min s = []" and "tm_max s = []"
    and "tm_selections s = [(0, 2), (3, 5), (6, 8)]" and "tm_highlight s < (if tm_showSeconds s then 3 else 2)"
    and "0 \<le> t" and "t < day_ms" and "t mod (if tm_showSeconds s then 1000 else 60000) = 0"
    and "tx_hidden (tm_box s) = time_format s (At (base_day, t))" and "\<bar>tm_increment s\<bar> < 10 ^ 9"
  shows "tx_hidden (tm_box (time_spin down s)) =
    time_format s (At (base_day, (t + tm_increment s * (if down then -1 else 1) * unit_ms (tm_highlight s)) mod day_ms))"
proof -
  let ?d = "(base_day, t)" and ?c = "tm_separator s" and ?i = "tm_highlight s" and ?sec = "tm_showSeconds s"
  define \<delta> where "\<delta> = tm_increment s * (if down then -1 else 1 :: int)"
  have p: "plain_sep ?c" "proper ?d" using assms(1,2,7,8) by (simp_all add: plain_sep_def proper_def)
  note b = proper_parts [OF p(2)]
  have ms: "snd ?d mod 1000 = 0" using assms(9) mod_mod_cancel [of 1000 60000 t] by (auto split: if_splits)
  have ns: "\<not> ?sec \<Longrightarrow> seconds ?d = 0" using assms(9) no_seconds [of ?d] by simp
  define ws where "ws = time_texts ?sec ?d"
  have ws: "ws = [two (hours ?d), two (minutes ?d)] \<or> ws = [two (hours ?d), two (minutes ?d), two (seconds ?d)]" by (simp add: ws_def time_texts_def)
  have il: "?i < length ws" using assms(6) by (auto simp: ws_def time_texts_def eval_nat_numeral split: if_splits)
  have l: "length (two (hours ?d)) = 2" "length (two (minutes ?d)) = 2" "length (two (seconds ?d)) = 2" using b by (simp_all add: two_length)
  define h where "h = [hours ?d, minutes ?d, seconds ?d]"
  have wi: "ws ! ?i = two (h ! ?i)" "0 \<le> h ! ?i" using ws il b assms(6) by (auto simp: h_def less_Suc_eq numeral_3_eq_3 numeral_2_eq_2 split: if_splits)
  have st: "spin_text s down (tx_hidden (tm_box s)) = js_join [?c] (ws[?i := show_int (h ! ?i + \<delta>)])"
    using spin_join [OF ws l il assms(5) refl, of down ?c] wi assms(10) by (simp add: time_format_def ws_def \<delta>_def parseInt_two or_zero_def)
  have "?sec \<or> seconds ?d = 0" using ns by auto
  note rd = spun_read [OF p this assms(6), of \<delta>, folded ws_def h_def, folded st]
  let ?e = "date_at base_day (hours ?d + (if ?i = 0 then \<delta> else 0)) (minutes ?d + (if ?i = 1 then \<delta> else 0)) (seconds ?d + (if ?i = 2 then \<delta> else 0))"
  have "?i = 0 \<or> ?i = 1 \<or> ?i = 2" using assms(6) by (auto split: if_splits)
  then have "snd ?e = (t + \<delta> * unit_ms ?i) mod day_ms"
    unfolding date_at_shift [OF p(2) ms] by (auto simp: unit_ms_def mult.commute)
  then have "time_texts ?sec ?e = time_texts ?sec (base_day, (t + \<delta> * unit_ms ?i) mod day_ms)" by (intro texts_day) simp
  moreover have "\<bar>\<delta>\<bar> < 10 ^ 9" using assms(11) by (simp add: \<delta>_def)
  then have "time_read ?c (spin_text s down (tx_hidden (tm_box s))) = At ?e" using b unfolding rd by (intro clip_at) auto
  then have "time_parse s (spin_text s down (tx_hidden (tm_box s))) = At ?e" by (simp add: time_parse_def assms(3,4) Let_def) (simp add: time_read_def)
  ultimately show ?thesis by (simp add: time_spin_def time_set_def time_format_def \<delta>_def)
qed

section \<open>Dates\<close>

lemma date_facts:
  assumes "civil (fst d) = (y, m, e)" and "y < 0 \<or> 99 < y"
  shows "date_format d = js_join ''/'' [two m, two e, show_int y]" and "js_day y (m - 1) e = fst d" and "1 \<le> m" "1 \<le> e"
    and "js_split (CHR ''/'') (date_format d) = [two m, two e, show_int y]" and "CHR '' '' \<notin> set (date_format d)"
    and "\<exists>c cs. date_format d = c # cs \<and> is_digit c"
proof -
  show f: "date_format d = js_join ''/'' [two m, two e, show_int y]" by (simp add: date_format_def assms(1))
  note v = day_no_civil [OF assms(1)]
  then show m: "1 \<le> m" "1 \<le> e" by (simp_all add: valid_ymd_def)
  show "js_day y (m - 1) e = fst d" using v js_day_plain [of m y e] assms(2) by (simp add: valid_ymd_def)
  have p: "plain_sep (CHR ''/'')" "plain_sep (CHR '' '')" by code_simp+
  show "js_split (CHR ''/'') (date_format d) = [two m, two e, show_int y]"
    unfolding f by (rule js_split_join) (use two_plain [OF p(1)] show_int_plain_sep [OF p(1)] in auto)
  show "CHR '' '' \<notin> set (date_format d)" using two_plain [OF p(2)] show_int_plain_sep [OF p(2)] by (simp add: f)
  obtain c cs where "two m = c # cs" "is_digit c" using two_digits [of m] m(1) by fastforce
  then show "\<exists>c cs. date_format d = c # cs \<and> is_digit c" by (simp add: f)
qed

lemma date_back:
  assumes "civil (fst d) = (y, m, e)" and "y < 0 \<or> 99 < y"
  shows "date_parse now (date_format d) = (fst d, 0)"
proof -
  note f = date_facts [OF assms]
  have "date_format d \<noteq> []" using f(7) by auto
  then show ?thesis
    using f(2-5) by (simp add: date_parse_def parse10_two parse10_show Let_def)
qed

lemma trim_same: "s \<noteq> [] \<Longrightarrow> \<not> js_space (hd s) \<Longrightarrow> \<not> js_space (last s) \<Longrightarrow> js_trim s = s"
proof -
  assume a: "s \<noteq> []" "\<not> js_space (hd s)" "\<not> js_space (last s)"
  have "dropWhile js_space s = s" using a(1,2) by (cases s) simp_all
  moreover have "dropWhile js_space (rev s) = rev s" using a(1,3) by (cases "rev s") (auto simp: last_rev [symmetric])
  ultimately show ?thesis by (simp add: js_trim_def)
qed

lemma last_two: "0 \<le> n \<Longrightarrow> \<not> js_space (last (two n))"
  using two_chars [of n "last (two n)"] not_digit_special by simp

text \<open>A date, a space and a time: the two parts are found again, and there is nothing to trim.\<close>

lemma date_time_split:
  assumes "civil (fst d) = (y, m, e)" and "y < 0 \<or> 99 < y" and "proper d" and "c \<noteq> CHR '' ''"
  shows "js_split (CHR '' '') (date_format d @ '' '' @ js_join [c] (time_texts sec d)) = [date_format d, js_join [c] (time_texts sec d)]"
    and "js_trim (date_format d @ '' '' @ js_join [c] (time_texts sec d)) = date_format d @ '' '' @ js_join [c] (time_texts sec d)"
    and "js_join [c] (time_texts sec d) \<noteq> []"
proof -
  note f = date_facts [OF assms(1,2)] and p = proper_parts [OF assms(3)]
  have s: "plain_sep (CHR '' '')" by code_simp
  have "CHR '' '' \<notin> set (js_join [c] (time_texts sec d))" using two_plain [OF s] assms(4) by (simp add: time_texts_def)
  then show "js_split (CHR '' '') (date_format d @ '' '' @ js_join [c] (time_texts sec d)) = [date_format d, js_join [c] (time_texts sec d)]"
    using js_split_append [OF f(6)] by (simp add: js_split_no_sep)
  show "js_join [c] (time_texts sec d) \<noteq> []" by (simp add: time_texts_def)
  have "\<not> js_space (last (js_join [c] (time_texts sec d)))" using last_two [OF p(3)] last_two [OF p(5)] by (simp add: time_texts_def)
  then show "js_trim (date_format d @ '' '' @ js_join [c] (time_texts sec d)) = date_format d @ '' '' @ js_join [c] (time_texts sec d)"
    using f(7) not_digit_special by (intro trim_same) (auto simp: time_texts_def)
qed

lemma time_parts:
  assumes "plain_sep c" and "proper d" and "snd d mod (if sec then 1000 else 60000) = 0" and "tt = time_texts sec d"
  shows "js_split c (js_join [c] tt) = tt" and "part_of tt 0 = hours d" "part_of tt 1 = minutes d" "part_of tt 2 = seconds d" and "snd d mod 1000 = 0"
proof -
  have ns: "\<not> sec \<Longrightarrow> seconds d = 0" using assms(3) no_seconds [of d] by simp
  show "part_of tt 0 = hours d" "part_of tt 1 = minutes d" "part_of tt 2 = seconds d"
    using proper_parts [OF assms(2)] ns by (auto simp: assms(4) part_of_def time_texts_def parse10_two or_zero_def)
  show "js_split c (js_join [c] tt) = tt" using two_plain [OF assms(1)] unfolding assms(4) by (intro js_split_join) (auto simp: time_texts_def)
  show "snd d mod 1000 = 0" using assms(3) mod_mod_cancel [of 1000 60000 "snd d"] by (auto split: if_splits)
qed

lemma dtbox_back:
  assumes "civil (fst d) = (y, m, e)" and "y < 0 \<or> 99 < y" and "plain_sep c" and "proper d" and "c \<noteq> CHR '' ''"
    and "snd d mod (if sec then 1000 else 60000) = 0"
  shows "dtbox_parse now c (dtbox_format c sec d) = d"
proof -
  note f = date_facts [OF assms(1,2)] and q = date_time_split [OF assms(1,2,4,5), of sec] and tp = time_parts [OF assms(3,4,6) refl]
  have ne: "date_format d \<noteq> []" using f(7) by auto
  have wt: "with_time (fst d, 0) (hours d) (minutes d) (seconds d) = d"
    using date_at_parts [OF assms(4) tp(5), of "fst d"] f(2) by (simp add: with_time_def assms(1))
  show ?thesis
    using q date_back [OF assms(1,2)] tp(1-4) wt ne unfolding dtbox_parse_def dtbox_format_def by (simp add: Let_def)
qed

text \<open>
  C20: dates are read back.  For every day of a year that is not one of 0 to 99, the text of a date field is read as that day; the text of a
  field for dates with times, and the one of its spinner without bounds, is read as the date and the time, with no seconds where none are shown.
\<close>

theorem date_roundtrip:
  assumes "civil (fst d) = (y, m, e)" and "y < 0 \<or> 99 < y" and "0 \<le> snd d" and "snd d < day_ms"
    and "\<not> is_digit (tm_separator s)" and "tm_separator s \<noteq> CHR ''-''" and "tm_separator s \<noteq> CHR '' ''"
    and "snd d mod (if tm_showSeconds s then 1000 else 60000) = 0" and "tm_min s = []" and "tm_max s = []"
  shows "date_parse now (date_format d) = (fst d, 0) \<and>
    dtbox_parse now (tm_separator s) (dtbox_format (tm_separator s) (tm_showSeconds s) d) = d \<and>
    dtspin_parse now s (dtspin_format s (At d)) = Some (At d)"
proof -
  let ?c = "tm_separator s" and ?sec = "tm_showSeconds s"
  have p: "plain_sep ?c" "proper d" using assms(3-6) by (simp_all add: plain_sep_def proper_def)
  note f = date_facts [OF assms(1,2)] and b = date_back [OF assms(1,2)] and q = date_time_split [OF assms(1,2) p(2) assms(7)] and pp = proper_parts [OF p(2)]
  have ms: "snd d mod 1000 = 0" using assms(8) mod_mod_cancel [of 1000 60000 "snd d"] by (auto split: if_splits)
  define tt where "tt = time_texts ?sec d"
  note tp = time_parts [OF p assms(8) tt_def]
  note parts = tp(2-4) and sp = tp(1)
  have wt: "with_time (fst d, 0) (hours d) (minutes d) (seconds d) = d"
    using date_at_parts [OF p(2) ms, of "fst d"] f(2) by (simp add: with_time_def assms(1))
  have ne: "date_format d \<noteq> []" using f(7) by auto
  have "dtbox_parse now ?c (dtbox_format ?c ?sec d) = d" by (rule dtbox_back [OF assms(1,2) p assms(7,8)])
  moreover have "dtspin_parse now s (dtspin_format s (At d)) = Some (At d)"
  proof -
    have r: "time_read ?c (js_join [?c] tt) = At (base_day, snd d)"
      using q(3) sp parts date_at_parts [OF p(2) ms] clip_proper [of "(base_day, snd d)"] p(2) by (simp add: time_read_def tt_def Let_def proper_def)
    then have "time_parse s (js_join [?c] tt) = At (base_day, snd d)" by (simp add: time_parse_def assms(9,10) Let_def) (simp add: time_read_def)
    moreover have "hours (base_day, snd d) = hours d" "minutes (base_day, snd d) = minutes d" "seconds (base_day, snd d) = seconds d"
      by (simp_all add: hours_def minutes_def seconds_def)
    ultimately show ?thesis
      using q [of ?sec] b wt ne unfolding dtspin_parse_def dtspin_format_def time_format_def tt_def [symmetric] by (simp add: Let_def tt_def)
  qed
  ultimately show ?thesis using b by simp
qed

section \<open>Examples\<close>

theorem time_roundtrip_witness:
  "time_parse (tspin_defaults\<lparr>tm_min := ''08:30'', tm_max := ''18:00''\<rparr>) (time_format (tspin_defaults\<lparr>tm_min := ''08:30'', tm_max := ''18:00''\<rparr>)
     (At (base_day, 36300000))) = At (base_day, 36300000)"
  by (rule time_roundtrip) code_simp+

theorem time_in_bounds_witness:
  "\<exists>k. time_read (CHR '':'') (tx_hidden (tm_box (time_set ''25:10'' (tspin_defaults\<lparr>tm_min := ''08:30'', tm_max := ''18:00''\<rparr>)))) = At (base_day, k) \<and>
     30600000 \<le> k \<and> k \<le> 64800000"
proof -
  let ?s = "tspin_defaults\<lparr>tm_min := ''08:30'', tm_max := ''18:00''\<rparr>"
  have "tm_separator ?s = CHR '':''" "\<not> is_digit (tm_separator ?s)" "tm_separator ?s \<noteq> CHR ''-''"
    "time_read (tm_separator ?s) (tm_min ?s) = At (base_day, 30600000)" "time_read (tm_separator ?s) (tm_max ?s) = At (base_day, 64800000)"
    "tm_showSeconds ?s \<or> (30600000 :: int) mod 60000 = 0" by code_simp+
  moreover have "\<exists>d. time_read (tm_separator ?s) ''25:10'' = At d" by (rule exI) code_simp
  ultimately show ?thesis using time_in_bounds [of ?s 30600000 64800000, OF _ _ _ _ _ _ refl, of "''25:10''"] by auto
qed

theorem time_spins_witness:
  "tx_hidden (tm_box (time_spin False (tspin_defaults\<lparr>tm_highlight := 1, tm_increment := 30, tm_box := textbox_defaults\<lparr>tx_hidden := ''23:45''\<rparr>\<rparr>))) = ''00:15''"
proof -
  let ?s = "tspin_defaults\<lparr>tm_highlight := 1, tm_increment := 30, tm_box := textbox_defaults\<lparr>tx_hidden := ''23:45''\<rparr>\<rparr>"
  have f: "\<not> is_digit (tm_separator ?s)" "tm_separator ?s \<noteq> CHR ''-''" "tm_min ?s = []" "tm_max ?s = []" "tm_selections ?s = [(0, 2), (3, 5), (6, 8)]"
    "tm_highlight ?s < (if tm_showSeconds ?s then 3 else 2)" "0 \<le> (85500000 :: int)" "85500000 < day_ms"
    "(85500000 :: int) mod (if tm_showSeconds ?s then 1000 else 60000) = 0" "tx_hidden (tm_box ?s) = time_format ?s (At (base_day, 85500000))"
    "\<bar>tm_increment ?s\<bar> < 10 ^ 9" by code_simp+
  have "time_format ?s (At (base_day, (85500000 + tm_increment ?s * (if False then -1 else 1) * unit_ms (tm_highlight ?s)) mod day_ms)) = ''00:15''" by code_simp
  with time_spins [OF f, of False] show ?thesis by simp
qed

theorem date_roundtrip_witness:
  "dtspin_parse (0, 0) (tspin_defaults\<lparr>tm_showSeconds := True\<rparr>) (dtspin_format (tspin_defaults\<lparr>tm_showSeconds := True\<rparr>) (At (day_no 2016 2 29, 45296000))) =
     Some (At (day_no 2016 2 29, 45296000))"
proof -
  let ?s = "tspin_defaults\<lparr>tm_showSeconds := True\<rparr>" and ?d = "(day_no 2016 2 29, 45296000) :: date"
  have "civil (fst ?d) = (2016, 2, 29)" "(2016 :: int) < 0 \<or> 99 < (2016 :: int)" "0 \<le> snd ?d" "snd ?d < day_ms" "\<not> is_digit (tm_separator ?s)" "tm_separator ?s \<noteq> CHR ''-''"
    "tm_separator ?s \<noteq> CHR '' ''" "snd ?d mod (if tm_showSeconds ?s then 1000 else 60000) = 0" "tm_min ?s = []" "tm_max ?s = []" by code_simp+
  from date_roundtrip [OF this, of "(0, 0)"] show ?thesis by blast
qed

text \<open>
  With an upper bound alone, spinning down from midnight leaves it: the time is one of the day before, earlier than the bound, and the hour shown is beyond it.
  Two spaces before the time make the spinner for dates with times throw.  Numbers too large for a date pass the bounds and are shown as \<open>NaN\<close>.
\<close>

lemma not_a_time: "tx_hidden (tm_box (time_set ''9999999999:00'' (tspin_defaults\<lparr>tm_min := ''08:30'', tm_max := ''18:00''\<rparr>))) = ''NaN:NaN''"
  by code_simp


lemma time_escapes:
  "tx_hidden (tm_box (time_spin True (tspin_defaults\<lparr>tm_max := ''18:00'', tm_box := textbox_defaults\<lparr>tx_hidden := ''00:00''\<rparr>\<rparr>))) = ''23:00''"
  by code_simp

lemma two_spaces_throw: "dtspin_parse now tspin_defaults ''1/2/2015  10:30'' = None"
  by (simp add: dtspin_parse_def Let_def) code_simp

end
