(* ===== verification/Date_Box.thy ===== *)
theory Date_Box
  imports Combo Time_Fields
begin

text \<open>
  The date field, \<open>js/plugins/jquery.datebox.js\<close>, and the field for dates with times,
  \<open>js/plugins/jquery.datetimebox.js\<close>: a drop-down field (theory Combo) with a calendar (theory Calendar) and, for the second, a
  time spinner (theory Time_Fields) in its panel.

  An exception is \<open>Inl\<close> with the state it leaves.  The buttons and the click on a day of the calendar are
  modelled by the call they end in; sizes and the sharing of a calendar are left out.
\<close>

section \<open>The date field\<close>

record datebox = combo +
  db_calendar :: calendar

definition date_set :: "cal_env \<Rightarrow> string \<Rightarrow> bool \<Rightarrow> 'a datebox_scheme \<Rightarrow> 'a datebox_scheme + 'a datebox_scheme" where
  "date_set E v raw s =
     (case move_to E (MoveDate (date_parse (v_now E) v)) (db_calendar s) of
        Inl c \<Rightarrow> Inl (s\<lparr>db_calendar := c\<rparr>)
      | Inr c \<Rightarrow>
          let s = s\<lparr>db_calendar := c\<rparr> in
          if raw then Inr (combo_values [v] s)
          else if v = [] then Inr (combo_values [v] (combo_text v s))
          else
            case c_current c of
              None \<Rightarrow> Inl s
            | Some d \<Rightarrow> Inr (combo_values [date_format d] (combo_text (date_format d) s)))"

definition date_init :: "cal_env \<Rightarrow> string \<Rightarrow> 'a datebox_scheme \<Rightarrow> 'a datebox_scheme" where
  "date_init E v s =
     (let v = (if v = [] then v else date_format (date_parse (v_now E) v))
      in combo_text v (s\<lparr>co_box := init_value v (co_box s), co_values := [v]\<rparr>))"

text \<open>The panel shows the date of the text, and tells that it is shown when that is done; Enter takes the date of the calendar, a day chosen there its own.\<close>

definition date_show :: "cal_env \<Rightarrow> 'a datebox_scheme \<Rightarrow> 'a datebox_scheme + 'a datebox_scheme" where
  "date_show E s =
     (if co_open s then Inr s
      else map_sum id (co_emit CoShow) (date_set E (get_text (co_box s)) True (s\<lparr>co_open := True\<rparr>)))"

definition date_enter :: "cal_env \<Rightarrow> 'a datebox_scheme \<Rightarrow> 'a datebox_scheme + 'a datebox_scheme" where
  "date_enter E s =
     (case c_current (db_calendar s) of
        None \<Rightarrow> Inr s
      | Some d \<Rightarrow> (case date_set E (date_format d) False s of Inl s \<Rightarrow> Inl s | Inr s \<Rightarrow> Inr (hide_combo s)))"

definition date_pick :: "cal_env \<Rightarrow> date \<Rightarrow> 'a datebox_scheme \<Rightarrow> 'a datebox_scheme + 'a datebox_scheme" where
  "date_pick E d s = (case date_set E (date_format d) False s of Inl s \<Rightarrow> Inl s | Inr s \<Rightarrow> Inr (hide_combo s))"

definition date_today :: "cal_env \<Rightarrow> 'a datebox_scheme \<Rightarrow> 'a datebox_scheme + 'a datebox_scheme" where
  "date_today E s =
     (let (y, m, d) = civil (fst (v_now E)) in
      case cal_reinit E [OYear (Some y), OMonth (Some m), OCurrent (Some (js_day y (m - 1) d, 0))] (db_calendar s) of
        Inl c \<Rightarrow> Inl (s\<lparr>db_calendar := c\<rparr>)
      | Inr c \<Rightarrow> date_enter E (s\<lparr>db_calendar := c\<rparr>))"

definition date_query :: "cal_env \<Rightarrow> string \<Rightarrow> 'a datebox_scheme \<Rightarrow> 'a datebox_scheme + 'a datebox_scheme" where
  "date_query E q s = date_set E q True s"

definition date_reset :: "cal_env \<Rightarrow> 'a datebox_scheme \<Rightarrow> 'a datebox_scheme + 'a datebox_scheme" where
  "date_reset E s = date_set E (hd (co_original s)) False s"

section \<open>The field for dates with times\<close>

record dtbox = datebox +
  dx_spinner :: tspin
  dx_seconds :: bool

definition dt_set :: "cal_env \<Rightarrow> string \<Rightarrow> bool \<Rightarrow> dtbox \<Rightarrow> dtbox + dtbox" where
  "dt_set E v raw s =
     (let s = combo_values [v] s; c = tm_separator (dx_spinner s); d = dtbox_parse (v_now E) c v;
          x = dtbox_format c (dx_seconds s) d;
          s = (if raw then s else if v = [] then combo_text v s else combo_values [x] (combo_text x s))
      in case move_to E (MoveDate d) (db_calendar s) of
           Inl k \<Rightarrow> Inl (s\<lparr>db_calendar := k\<rparr>)
         | Inr k \<Rightarrow> Inr (s\<lparr>db_calendar := k, dx_spinner := time_set (js_join [c] (time_texts (dx_seconds s) d)) (dx_spinner s)\<rparr>))"

text \<open>The day of the calendar with the time of the spinner; a spinner without a time gives a date that is none, shown as below.\<close>

definition dt_current :: "dtbox \<Rightarrow> date option option" where
  "dt_current s =
     (case c_current (db_calendar s) of
        None \<Rightarrow> None
      | Some a \<Rightarrow>
          (case (time_part 0 (dx_spinner s), time_part 1 (dx_spinner s)) of
             (Some h, Some m) \<Rightarrow> Some (Some (with_time a h m (time_seconds (dx_spinner s))))
           | _ \<Rightarrow> Some None))"

definition no_date_text :: "char \<Rightarrow> bool \<Rightarrow> string" where
  "no_date_text c sec = ''NaN/NaN/NaN '' @ js_join [c] ([''NaN'', ''NaN''] @ (if sec then [''NaN''] else []))"

definition dt_enter :: "cal_env \<Rightarrow> dtbox \<Rightarrow> dtbox + dtbox" where
  "dt_enter E s =
     (case dt_current s of
        None \<Rightarrow> Inl s
      | Some d \<Rightarrow>
          let c = tm_separator (dx_spinner s);
              v = (case d of None \<Rightarrow> no_date_text c (dx_seconds s) | Some d \<Rightarrow> dtbox_format c (dx_seconds s) d)
          in case dt_set E v False s of Inl s \<Rightarrow> Inl s | Inr s \<Rightarrow> Inr (hide_combo s))"

definition dt_today :: "cal_env \<Rightarrow> dtbox \<Rightarrow> dtbox + dtbox" where
  "dt_today E s =
     (case dt_set E (dtbox_format (tm_separator (dx_spinner s)) (dx_seconds s) (v_now E)) False s of Inl s \<Rightarrow> Inl s | Inr s \<Rightarrow> Inr (hide_combo s))"

text \<open>The panel is shown by the date field below, which reads the date alone, then by this one.\<close>

definition dt_show :: "cal_env \<Rightarrow> dtbox \<Rightarrow> dtbox + dtbox" where
  "dt_show E s =
     (if co_open s then Inr s
      else
        case date_set E (get_text (co_box s)) True (s\<lparr>co_open := True\<rparr>) of
          Inl s \<Rightarrow> Inl s
        | Inr s \<Rightarrow> map_sum id (co_emit CoShow) (dt_set E (hd (co_values s)) True s))"

definition dt_init :: "cal_env \<Rightarrow> string \<Rightarrow> dtbox \<Rightarrow> dtbox" where
  "dt_init E v s =
     (let c = tm_separator (dx_spinner s); v = (if v = [] then v else dtbox_format c (dx_seconds s) (dtbox_parse (v_now E) c v))
      in combo_text v (s\<lparr>co_box := init_value v (co_box s), co_values := [v]\<rparr>))"

definition dt_reset :: "cal_env \<Rightarrow> dtbox \<Rightarrow> dtbox + dtbox" where
  "dt_reset E s = dt_set E (hd (co_original s)) False s"

section \<open>The fields and their calendar\<close>

definition day_ok :: "cal_env \<Rightarrow> date \<Rightarrow> bool" where
  "day_ok E d \<longleftrightarrow> v_validator E d \<and> 101 \<le> fst (civil (fst d)) \<and> fst (civil (fst d)) < 275760"

definition week_ok :: "calendar \<Rightarrow> bool" where
  "week_ok c \<longleftrightarrow> 0 \<le> c_firstDay c \<and> c_firstDay c \<le> 6"

lemma move_shows:
  assumes "day_ok E d" and "week_ok c"
  shows "\<exists>t. move_to E (MoveDate d) c = Inr t \<and> c_current t = Some d \<and> week_ok t"
proof -
  obtain y m e where c: "civil (fst d) = (y, m, e)" by (cases "civil (fst d)") auto
  let ?s = "fold set_copt [OYear (Some y), OMonth (Some m), OCurrent (Some d)] c"
  have m: "1 \<le> m" "m \<le> 12" using day_no_civil [OF c] by (simp_all add: valid_ymd_def)
  then have "cal_ok ?s" using assms c by (simp add: cal_ok_def day_ok_def week_ok_def)
  from cal_init_returns [OF this, of E] obtain t where t: "cal_init E ?s = Inr t" "c_firstDay t = c_firstDay ?s" "c_current t = c_current (check_current E ?s)" by metis
  have "c_current t = Some d" using t(3) assms(1) by (simp add: check_current_def day_ok_def)
  moreover have "c_firstDay t = c_firstDay c" using t(2) by simp
  ultimately show ?thesis
    using assms t(1) c by (auto simp: move_to_def cal_reinit_def and_then_def Let_def day_ok_def week_ok_def cal_emit_def)
qed

lemma move_refuses: "\<not> v_validator E d \<Longrightarrow> move_to E (MoveDate d) c = Inr c"
  by (simp add: move_to_def)

lemma combo_keeps [simp]:
  "db_calendar (combo_values vs s) = db_calendar s" "db_calendar (combo_text v s) = db_calendar s"
  "co_values (combo_values vs s) = vs" "co_box (combo_values vs s) = co_box s" "co_values (combo_text v s) = co_values s"
  by (simp_all add: combo_values_def combo_text_def co_emit_def Let_def)

lemma combo_text_shown: "get_text (co_box (combo_text v s)) = v"
  by (simp add: combo_text_def)

text \<open>
  Setting a date.  A text set in a date field is read; when the calendar accepts the day, the calendar shows it and the field has the text of
  that day as its value and its text, and setting that text again changes nothing but what it
  reports; when the calendar refuses the day, its date stays and the field has the text of that.
\<close>

theorem datebox_set:
  fixes s :: datebox
  assumes "d = date_parse (v_now E) v" and "v \<noteq> []" and "0 \<le> c_firstDay (db_calendar s)" "c_firstDay (db_calendar s) \<le> 6"
    and "101 \<le> fst (civil (fst d))" "fst (civil (fst d)) < 275760" and "c_current (db_calendar s) = Some old"
    and "\<forall>t. v_validator E (fst d, t) = v_validator E d"
  shows "\<exists>t. date_set E v False s = Inr t \<and> co_values t = [date_format (if v_validator E d then d else old)] \<and>
    get_text (co_box t) = date_format (if v_validator E d then d else old) \<and> c_current (db_calendar t) = Some (if v_validator E d then d else old) \<and>
    (v_validator E d \<longrightarrow> (\<exists>u. date_set E (date_format d) False t = Inr u \<and> co_values u = co_values t \<and> get_text (co_box u) = get_text (co_box t) \<and>
       c_current (db_calendar u) = Some (fst d, 0)))"
proof (cases "v_validator E d")
  case False
  then show ?thesis
    using assms(1,2,7) by (simp add: date_set_def move_refuses combo_text_shown Let_def)
next
  case True
  then have ok: "day_ok E d" using assms(5,6) by (simp add: day_ok_def)
  obtain c where c: "move_to E (MoveDate d) (db_calendar s) = Inr c" "c_current c = Some d" "week_ok c"
    using move_shows [OF ok] assms(3,4) by (auto simp: week_ok_def)
  define t where "t = combo_values [date_format d] (combo_text (date_format d) (s\<lparr>db_calendar := c\<rparr>))"
  have t: "date_set E v False s = Inr t" using c assms(1,2) by (simp add: date_set_def t_def Let_def)
  have tf: "co_values t = [date_format d]" "get_text (co_box t) = date_format d" "db_calendar t = c" by (simp_all add: t_def combo_text_shown)
  obtain y m e where ymd: "civil (fst d) = (y, m, e)" by (cases "civil (fst d)") auto
  have y: "y < 0 \<or> 99 < y" using assms(5) ymd by simp
  have bk: "date_parse (v_now E) (date_format d) = (fst d, 0)" by (rule date_back [OF ymd y])
  have ok0: "day_ok E (fst d, 0)" using ok assms(8) by (simp add: day_ok_def)
  obtain k where k: "move_to E (MoveDate (fst d, 0)) c = Inr k" "c_current k = Some (fst d, 0)" using move_shows [OF ok0 c(3)] by blast
  have ne: "date_format d \<noteq> []" using date_facts(7) [OF ymd y] by auto
  have same: "date_format (fst d, 0) = date_format d" by (simp add: date_format_def)
  have "date_set E (date_format d) False t = Inr (combo_values [date_format d] (combo_text (date_format d) (t\<lparr>db_calendar := k\<rparr>)))"
    using k ne same by (simp add: date_set_def bk tf(3) Let_def)
  then show ?thesis using True t tf c(2) k(2) by (simp add: combo_text_shown)
qed

lemma spinner_shows:
  assumes "plain_sep (tm_separator p)" and "tm_min p = []" "tm_max p = []" and "proper d" and "snd d mod 1000 = 0"
    and "tm_showSeconds p \<or> snd d mod 60000 = 0"
  shows "tx_hidden (tm_box (time_set (js_join [tm_separator p] (time_texts (tm_showSeconds p) d)) p)) = js_join [tm_separator p] (time_texts (tm_showSeconds p) d)"
proof -
  have "time_read (tm_separator p) [] = NoDate" by (simp add: time_read_def)
  then have "time_parse p (js_join [tm_separator p] (time_texts (tm_showSeconds p) d)) = At (base_day, snd d)"
    using read_format [OF assms(1,4-6)] assms(2,3) by (simp add: time_parse_def Let_def)
  then show ?thesis using texts_day [of "(base_day, snd d)" d] by (simp add: time_set_def time_format_def)
qed

lemma spinner_parts:
  assumes "plain_sep (tm_separator p)" and "proper d" and "tx_hidden (tm_box p) = js_join [tm_separator p] (time_texts (tm_showSeconds p) d)"
    and "tm_showSeconds p \<or> seconds d = 0"
  shows "time_part 0 p = Some (hours d)" "time_part 1 p = Some (minutes d)" "time_seconds p = seconds d"
proof -
  note b = proper_parts [OF assms(2)]
  have "js_split (tm_separator p) (tx_hidden (tm_box p)) = time_texts (tm_showSeconds p) d"
    unfolding assms(3) using two_plain [OF assms(1)] by (intro js_split_join) (auto simp: time_texts_def)
  then show "time_part 0 p = Some (hours d)" "time_part 1 p = Some (minutes d)" "time_seconds p = seconds d"
    using b assms(4) by (auto simp: time_part_def time_seconds_def time_texts_def parse10_two or_zero_def)
qed

lemma dt_set_keeps: "dx_seconds (combo_values vs s) = dx_seconds s" "dx_spinner (combo_values vs s) = dx_spinner s"
  "dx_seconds (combo_text v s) = dx_seconds s" "dx_spinner (combo_text v s) = dx_spinner s"
  for s :: dtbox
  by (simp_all add: combo_values_def combo_text_def co_emit_def Let_def)

lemma dt_set_back:
  fixes w :: dtbox
  assumes "v = dtbox_format c (dx_seconds w) d" and "day_ok E d" and "plain_sep c" "c \<noteq> CHR '' ''" and "proper d"
    and "snd d mod (if dx_seconds w then 1000 else 60000) = 0" and "week_ok (db_calendar w)" and "tm_separator (dx_spinner w) = c"
  shows "\<exists>t. dt_set E v False w = Inr t \<and> co_values t = [v] \<and> get_text (co_box t) = v \<and> c_current (db_calendar t) = Some d \<and> week_ok (db_calendar t)
    \<and> dx_seconds t = dx_seconds w \<and> dx_spinner t = time_set (js_join [c] (time_texts (dx_seconds w) d)) (dx_spinner w)"
proof -
  obtain y m e where ymd: "civil (fst d) = (y, m, e)" by (cases "civil (fst d)") auto
  have y: "y < 0 \<or> 99 < y" using assms(2) ymd by (simp add: day_ok_def)
  have bk: "dtbox_parse (v_now E) c v = d" unfolding assms(1) by (rule dtbox_back [OF ymd y assms(3,5,4,6)])
  have ne: "v \<noteq> []" by (simp add: assms(1) dtbox_format_def)
  obtain k where k: "move_to E (MoveDate d) (db_calendar w) = Inr k" "c_current k = Some d" "week_ok k" using move_shows [OF assms(2,7)] by blast
  show ?thesis
    using k assms(8) ne bk by (simp add: dt_set_def Let_def dt_set_keeps combo_text_shown assms(1) [symmetric])
qed

text \<open>
  C19: a date with its time goes through the calendar and the spinner unharmed.  When the text of a date and time was set in the field, Enter, which takes the day of the
  calendar and the time of the spinner, gives the same value and the same text.
\<close>

theorem datetimebox_enter:
  fixes s :: dtbox
  assumes "v = dtbox_format (tm_separator (dx_spinner s)) (dx_seconds s) d"
    and "v_validator E d" and "101 \<le> fst (civil (fst d))" "fst (civil (fst d)) < 275760"
    and "0 \<le> snd d" "snd d < day_ms" and "snd d mod (if dx_seconds s then 1000 else 60000) = 0"
    and "0 \<le> c_firstDay (db_calendar s)" "c_firstDay (db_calendar s) \<le> 6"
    and "\<not> is_digit (tm_separator (dx_spinner s))" "tm_separator (dx_spinner s) \<noteq> CHR ''-''" "tm_separator (dx_spinner s) \<noteq> CHR '' ''"
    and "tm_min (dx_spinner s) = []" "tm_max (dx_spinner s) = []" and "tm_showSeconds (dx_spinner s) = dx_seconds s"
  shows "\<exists>t u. dt_set E v False s = Inr t \<and> co_values t = [v] \<and> get_text (co_box t) = v \<and>
    dt_enter E t = Inr u \<and> co_values u = [v] \<and> get_text (co_box u) = v \<and> c_current (db_calendar u) = Some d"
proof -
  let ?p = "dx_spinner s" and ?sec = "dx_seconds s"
  let ?c = "tm_separator ?p"
  have p: "plain_sep ?c" "proper d" using assms by (simp_all add: plain_sep_def proper_def)
  obtain y m e where ymd: "civil (fst d) = (y, m, e)" by (cases "civil (fst d)") auto
  have y: "y < 0 \<or> 99 < y" using assms(3) ymd by simp
  have ms: "snd d mod 1000 = 0" using assms(7) mod_mod_cancel [of 1000 60000 "snd d"] by (auto split: if_splits)
  have ok: "day_ok E d" using assms(2-4) by (simp add: day_ok_def)
  define q where "q = time_set (js_join [?c] (time_texts ?sec d)) ?p"
  have q: "tm_separator q = ?c" "tm_min q = []" "tm_max q = []" "tm_showSeconds q = ?sec" "tx_hidden (tm_box q) = js_join [?c] (time_texts ?sec d)"
    using spinner_shows [OF p(1) assms(13,14) p(2) ms] assms(7,13-15) by (auto simp: q_def time_set_def split: if_splits)
  obtain t where t: "dt_set E v False s = Inr t" "co_values t = [v]" "get_text (co_box t) = v" "c_current (db_calendar t) = Some d" "week_ok (db_calendar t)"
    "dx_seconds t = ?sec" "dx_spinner t = q"
    using dt_set_back [OF assms(1) ok p(1) assms(12) p(2) assms(7) _ refl] assms(8,9) by (auto simp: week_ok_def q_def)
  have ns: "tm_showSeconds q \<or> seconds d = 0" using assms(7) no_seconds [of d] q(4) by (auto split: if_splits)
  note parts = spinner_parts [of q d, unfolded q(1,4), OF p(1,2) q(5)] ns
  have wt: "with_time d (hours d) (minutes d) (seconds d) = d"
    using date_at_parts [OF p(2) ms, of "fst d"] date_facts(2) [OF ymd y] by (simp add: with_time_def ymd)
  have "dt_current t = Some (Some d)" using parts ns q(4) t(4,7) wt by (simp add: dt_current_def)
  moreover obtain u where u: "dt_set E v False t = Inr u" "co_values u = [v]" "get_text (co_box u) = v" "c_current (db_calendar u) = Some d"
    using dt_set_back [of v ?c t d E] assms(1,7,12) ok p t(5-7) q(1) by auto
  ultimately have "dt_enter E t = Inr (hide_combo u)" using t(6,7) q(1) by (simp add: dt_enter_def Let_def assms(1) [symmetric])
  then show ?thesis using t u by (intro exI [of _ t] exI [of _ "hide_combo u"]) (simp add: hide_combo_def co_emit_def)
qed

section \<open>Examples\<close>

definition sample_datebox :: datebox where
  "sample_datebox = \<lparr>co_box = textbox_defaults, co_values = [[]], co_multiple = False, co_separator = CHR '','', co_previous = [],
     co_original = [[]], co_open = False, co_log = [], db_calendar = sample_calendar\<rparr>"

definition sample_dtbox :: dtbox where
  "sample_dtbox = datebox.extend sample_datebox \<lparr>dx_spinner = tspin_defaults, dx_seconds = False\<rparr>"

lemma sample_boxes:
  "db_calendar sample_datebox = sample_calendar" "db_calendar sample_dtbox = sample_calendar" "dx_spinner sample_dtbox = tspin_defaults" "\<not> dx_seconds sample_dtbox"
  by (simp_all add: sample_datebox_def sample_dtbox_def datebox.defs combo.defs)

theorem datebox_set_witness:
  "\<exists>t. date_set sample_env ''3/5/2024'' False sample_datebox = Inr t \<and> co_values t = [''03/05/2024''] \<and> c_current (db_calendar t) = Some (day_no 2024 3 5, 0)"
proof -
  have d: "date_parse (v_now sample_env) ''3/5/2024'' = (day_no 2024 3 5, 0)" "fst (civil (day_no 2024 3 5)) = 2024" "day_no 2024 3 5 \<noteq> day_no 2024 2 13"
    "date_format (day_no 2024 3 5, 0) = ''03/05/2024''" by code_simp+
  have ok: "v_validator sample_env (day_no 2024 3 5, t)" for t using d(3) by (simp add: sample_env_def)
  have y: "101 \<le> fst (civil (fst (day_no 2024 3 5, 0 :: int)))" "fst (civil (fst (day_no 2024 3 5, 0 :: int))) < 275760"
    "0 \<le> c_firstDay (db_calendar sample_datebox)" "c_firstDay (db_calendar sample_datebox) \<le> 6"
    "c_current (db_calendar sample_datebox) = Some (day_no 2024 2 7, 0)" "''3/5/2024'' \<noteq> []"
    by (simp_all only: fst_conv d(2) sample_boxes(1) sample_facts(3,7)) simp_all
  have "\<forall>t. v_validator sample_env (fst (day_no 2024 3 5, 0 :: int), t) = v_validator sample_env (day_no 2024 3 5, 0)" by (simp only: fst_conv ok simp_thms)
  from datebox_set [OF d(1) [symmetric] y(6,3,4,1,2,5) this] show ?thesis unfolding if_P [OF ok] d(4) by blast
qed

theorem datetimebox_enter_witness:
  "\<exists>t u. dt_set sample_env ''03/05/2024 10:05'' False sample_dtbox = Inr t \<and> dt_enter sample_env t = Inr u \<and> co_values u = [''03/05/2024 10:05'']"
proof -
  let ?d = "(day_no 2024 3 5, 36300000 :: int)"
  have d: "''03/05/2024 10:05'' = dtbox_format (tm_separator tspin_defaults) False ?d" "fst (civil (day_no 2024 3 5)) = 2024" "day_no 2024 3 5 \<noteq> day_no 2024 2 13"
    "0 \<le> (36300000 :: int)" "(36300000 :: int) < day_ms" "(36300000 :: int) mod 60000 = 0" "\<not> is_digit (tm_separator tspin_defaults)"
    "tm_separator tspin_defaults \<noteq> CHR ''-''" "tm_separator tspin_defaults \<noteq> CHR '' ''" "tm_min tspin_defaults = []" "tm_max tspin_defaults = []"
    "tm_showSeconds tspin_defaults = False" by code_simp+
  have sec: "dx_seconds sample_dtbox = False" using sample_boxes(4) by simp
  have v: "v_validator sample_env ?d" using d(3) by (simp add: sample_env_def)
  have y: "101 \<le> fst (civil (fst ?d))" "fst (civil (fst ?d)) < 275760" "0 \<le> snd ?d" "snd ?d < day_ms" "0 \<le> c_firstDay sample_calendar" "c_firstDay sample_calendar \<le> 6"
    by (simp_all only: fst_conv snd_conv d(2,4,5) sample_facts(3))
  have m: "snd ?d mod (if False then 1000 else 60000) = 0" by (simp only: snd_conv if_False d(6))
  from datetimebox_enter [of "''03/05/2024 10:05''" sample_dtbox ?d sample_env, unfolded sample_boxes(2,3) sec,
      OF d(1) v y(1-4) m y(5,6) d(7-12)]
  show ?thesis by blast
qed

end
