(* ===== verification/Js_Float.thy ===== *)
theory Js_Float
  imports Js_Num
begin

text \<open>
  The numbers of the language that are no integers, as far as the fields for numbers use them: \<open>parseFloat\<close>,
  \<open>toFixed\<close>, the comparison of numbers and the text of a large one.

  A finite number is its sign and a fraction of natural numbers; the fractions that occur are the ones of the 53 bits
  of a double, which \<open>near\<close> rounds to, half to even, with its smallest exponent and its infinity.
\<close>

section \<open>Global replacement\<close>

text \<open>Every occurrence of \<open>a\<close> that does not overlap one before it becomes \<open>b\<close>; \<open>k\<close> characters are still to be passed over.\<close>

fun replace_all :: "string \<Rightarrow> string \<Rightarrow> nat \<Rightarrow> string \<Rightarrow> string" where
  "replace_all a b k [] = []"
| "replace_all a b (Suc k) (c # cs) = replace_all a b k cs"
| "replace_all a b 0 (c # cs) =
     (if starts_with a (c # cs) then b @ replace_all a b (length a - 1) cs else c # replace_all a b 0 cs)"

lemma replace_skip: "k \<le> length s \<Longrightarrow> replace_all a b k s = replace_all a b 0 (drop k s)"
proof (induction s arbitrary: k)
  case (Cons c s)
  then show ?case by (cases k) simp_all
qed simp

lemma replace_foreign: "a \<noteq> [] \<Longrightarrow> hd a \<notin> set w \<Longrightarrow> replace_all a b 0 (w @ t) = w @ replace_all a b 0 t"
  by (induction w) (auto simp: starts_with_def neq_Nil_conv)

lemma replace_found: "a \<noteq> [] \<Longrightarrow> replace_all a [] 0 (a @ t) = replace_all a [] 0 t"
proof -
  assume a: "a \<noteq> []"
  then obtain c cs where "a = c # cs" by (cases a) auto
  then show ?thesis using replace_skip [of "length cs" "cs @ t" a "[]"] by (simp add: starts_with_def)
qed

lemma replace_subset: "set (replace_all a [] k s) \<subseteq> set s"
  by (induction a "[] :: string" k s rule: replace_all.induct) auto

lemma replace_char: "replace_all [c] b 0 s = concat (map (\<lambda>x. if x = c then b else [x]) s)"
  by (induction s) (auto simp: starts_with_def)

section \<open>Doubles\<close>

datatype jfloat = FNaN | FInf bool | Fin bool int int

text \<open>The quotient of \<open>a\<close> and \<open>b\<close>, to the nearest integer: a half goes to the even one.\<close>

definition div_even :: "int \<Rightarrow> int \<Rightarrow> int" where
  "div_even a b =
     (let q = a div b; r = a mod b
      in if 2 * r < b then q else if b < 2 * r then q + 1 else if even q then q else q + 1)"

text \<open>How many bits a positive integer has.\<close>

function bits :: "int \<Rightarrow> int" where
  "bits n = (if n \<le> 0 then 0 else 1 + bits (n div 2))"
  by auto
termination by (relation "measure nat") auto

declare bits.simps [simp del]

definition pow2 :: "int \<Rightarrow> int" where
  "pow2 s = 2 ^ nat s"

text \<open>\<open>a / b * 2 ^ s\<close> as a fraction.\<close>

definition scale :: "int \<Rightarrow> int \<times> int \<Rightarrow> int \<times> int" where
  "scale s x = (fst x * pow2 s, snd x * pow2 (- s))"

text \<open>The power of two that brings the number to 53 bits before the point, at most 1074 for the smallest doubles.\<close>

definition exponent :: "int \<times> int \<Rightarrow> int" where
  "exponent x =
     (let s = 53 - bits (fst x) + bits (snd x); (a, b) = scale s x
      in min 1074 (if b * pow2 53 \<le> a then s - 1 else s))"

definition near :: "bool \<Rightarrow> int \<times> int \<Rightarrow> jfloat" where
  "near neg x =
     (if fst x = 0 then Fin neg 0 1
      else
        let s = exponent x; (a, b) = scale s x; m = div_even a b
        in if s < - 971 \<or> s = - 971 \<and> m = pow2 53 then FInf neg else Fin neg (m * pow2 (- s)) (pow2 s))"

fun fless :: "jfloat \<Rightarrow> jfloat \<Rightarrow> bool" where
  "fless FNaN y = False"
| "fless x FNaN = False"
| "fless (FInf p) y = (p \<and> y \<noteq> FInf True)"
| "fless x (FInf q) = (\<not> q)"
| "fless (Fin p a b) (Fin q c d) = ((if p then - a else a) * d < (if q then - c else c) * b)"

section \<open>\<open>parseFloat\<close>\<close>

definition read_exponent :: "string \<Rightarrow> int" where
  "read_exponent s =
     (case s of
        c # cs \<Rightarrow>
          if c = CHR ''e'' \<or> c = CHR ''E''
          then (case cs of
                  x # xs \<Rightarrow>
                    if x = CHR ''-'' then - (case parse_nat xs of None \<Rightarrow> 0 | Some n \<Rightarrow> int n)
                    else if x = CHR ''+'' then (case parse_nat xs of None \<Rightarrow> 0 | Some n \<Rightarrow> int n)
                    else (case parse_nat cs of None \<Rightarrow> 0 | Some n \<Rightarrow> int n)
                | [] \<Rightarrow> 0)
          else 0
      | [] \<Rightarrow> 0)"

text \<open>\<open>n * 10 ^ k\<close>.\<close>

definition decimal :: "bool \<Rightarrow> int \<Rightarrow> int \<Rightarrow> jfloat" where
  "decimal neg n k = near neg (if 0 \<le> k then (n * 10 ^ nat k, 1) else (n, 10 ^ nat (- k)))"

definition fraction :: "string \<Rightarrow> string \<times> string" where
  "fraction s = (case s of c # cs \<Rightarrow> if c = CHR ''.'' then digits_then cs else ([], s) | [] \<Rightarrow> ([], []))"

definition parse_unsigned_float :: "bool \<Rightarrow> string \<Rightarrow> jfloat" where
  "parse_unsigned_float neg s =
     (if starts_with ''Infinity'' s then FInf neg
      else
        let (w, r) = digits_then s; (f, r) = fraction r
        in if w = [] \<and> f = [] then FNaN else decimal neg (int (read_digits 0 (w @ f))) (read_exponent r - int (length f)))"

definition parse_float :: "string \<Rightarrow> jfloat" where
  "parse_float s =
     (case dropWhile js_space s of
        [] \<Rightarrow> FNaN
      | c # cs \<Rightarrow>
          if c = CHR ''-'' then parse_unsigned_float True cs
          else if c = CHR ''+'' then parse_unsigned_float False cs
          else parse_unsigned_float False (c # cs))"

text \<open>\<open>parseFloat(s) == s\<close>: the text as a whole is that number, which for a hexadecimal text can only be zero.\<close>

definition hex_zero :: "string \<Rightarrow> bool" where
  "hex_zero s \<longleftrightarrow> hex_prefix s \<and> drop 2 s \<noteq> [] \<and> list_all (\<lambda>c. c = CHR ''0'') (drop 2 s)"

definition float_whole :: "string \<Rightarrow> bool" where
  "float_whole s =
     (let t = js_trim s; u = (case t of c # cs \<Rightarrow> if c = CHR ''-'' \<or> c = CHR ''+'' then cs else t | [] \<Rightarrow> [])
      in u = ''Infinity'' \<or> decimal_ok u \<or> hex_zero t)"

section \<open>\<open>toFixed\<close>\<close>

text \<open>
  The digits of a number from \<open>10 ^ 21\<close> on: the shortest ones that read as the number again, the nearest of them.
  \<open>k\<close> digits are tried from one on; 17 are always enough.
\<close>

definition same_float :: "int \<Rightarrow> int \<times> int \<Rightarrow> bool" where
  "same_float n x \<longleftrightarrow> (case near False (n, 1) of Fin _ a b \<Rightarrow> a * snd x = fst x * b | _ \<Rightarrow> False)"

definition shortest :: "int \<times> int \<Rightarrow> nat \<Rightarrow> nat \<Rightarrow> int option" where
  "shortest x l k =
     (let u = 10 ^ (l - k); m = fst x div (snd x * u);
          lo = same_float (m * u) x; hi = same_float ((m + 1) * u) x; r = fst x - m * u * snd x
      in if lo \<and> (\<not> hi \<or> 2 * r \<le> u * snd x) then Some m else if hi then Some (m + 1) else None)"

fun strip_zeros :: "string \<Rightarrow> string" where
  "strip_zeros [] = []"
| "strip_zeros (c # cs) = (let t = strip_zeros cs in if c = CHR ''0'' \<and> t = [] then [] else c # t)"

definition big_digits :: "int \<times> int \<Rightarrow> nat \<Rightarrow> nat \<times> int" where
  "big_digits x l =
     (case List.map_filter (\<lambda>k. map_option (Pair k) (shortest x l k)) [1..<18] of [] \<Rightarrow> (17, fst x div (snd x * 10 ^ (l - 17))) | p # _ \<Rightarrow> p)"

definition big_text :: "int \<times> int \<Rightarrow> string" where
  "big_text x =
     (let l = length (show_int (fst x div snd x)); (k, n) = big_digits x l; t = show_int n; ds = strip_zeros t
      in hd ds # (if tl ds = [] then [] else CHR ''.'' # tl ds) @ ''e+'' @ show_nat (l - 1 + (length t - k)))"

text \<open>A natural number with \<open>p\<close> of its digits behind the point.\<close>

definition pad :: "nat \<Rightarrow> string \<Rightarrow> string" where
  "pad p s = replicate (p - length s) (CHR ''0'') @ s"

definition fixed_text :: "bool \<Rightarrow> nat \<Rightarrow> int \<Rightarrow> string" where
  "fixed_text neg p n =
     (if neg then ''-'' else []) @ show_int (n div 10 ^ p) @ (if p = 0 then [] else CHR ''.'' # pad p (show_int (n mod 10 ^ p)))"

text \<open>The digits are those of the integer nearest to the number times \<open>10 ^ p\<close>, a half goes up.\<close>

definition nearest :: "int \<Rightarrow> int \<Rightarrow> int" where
  "nearest a b = (2 * a + b) div (2 * b)"

fun to_fixed :: "nat \<Rightarrow> jfloat \<Rightarrow> string" where
  "to_fixed p FNaN = ''NaN''"
| "to_fixed p (FInf neg) = (if neg then ''-Infinity'' else ''Infinity'')"
| "to_fixed p (Fin neg a b) =
     (if 10 ^ 21 * b \<le> a then (if neg then ''-'' else []) @ big_text (a, b) else fixed_text (neg \<and> a \<noteq> 0) p (nearest (a * 10 ^ p) b))"

section \<open>A number rounded is near\<close>

lemma bits_bounds: "0 < n \<Longrightarrow> 1 \<le> bits n \<and> pow2 (bits n - 1) \<le> n \<and> n < pow2 (bits n)"
proof (induction n rule: bits.induct)
  case (1 n)
  show ?case
  proof (cases "n = 1")
    case True
    then show ?thesis by (simp add: bits.simps [of 1] bits.simps [of 0] pow2_def)
  next
    case False
    then have h: "0 < n div 2" using 1(2) by simp
    have ih: "1 \<le> bits (n div 2)" "pow2 (bits (n div 2) - 1) \<le> n div 2" "n div 2 < pow2 (bits (n div 2))" using 1(1) [OF _ h] 1(2) by simp_all
    have b: "bits n = 1 + bits (n div 2)" using 1(2) by (simp add: bits.simps [of n])
    have p: "pow2 (bits n) = 2 * pow2 (bits (n div 2))" "pow2 (bits n - 1) = 2 * pow2 (bits (n div 2) - 1)"
      using ih 1(2) by (simp_all add: b pow2_def nat_add_distrib flip: power_Suc) (simp add: Suc_nat_eq_nat_zadd1)
    have "n = 2 * (n div 2) + n mod 2" "0 \<le> n mod 2" "n mod 2 < 2" by simp_all
    then show ?thesis using ih b unfolding p by (intro conjI) linarith+
  qed
qed

lemma pow2_pos [simp]: "0 < pow2 s"
  by (simp add: pow2_def)

lemma pow2_neg: "s \<le> 0 \<Longrightarrow> pow2 s = 1"
  by (simp add: pow2_def)

lemma pow2_add: "0 \<le> s \<Longrightarrow> 0 \<le> t \<Longrightarrow> pow2 (s + t) = pow2 s * pow2 t"
  by (simp add: pow2_def nat_add_distrib power_add)

lemma pow2_mono: "s \<le> t \<Longrightarrow> pow2 s \<le> pow2 t"
  by (simp add: pow2_def nat_mono)

lemma div_even_near: "0 < b \<Longrightarrow> 2 * \<bar>div_even a b * b - a\<bar> \<le> b"
proof -
  assume b: "0 < b"
  have a: "a = a div b * b + a mod b" by simp
  have m: "0 \<le> a mod b" "a mod b < b" using b by simp_all
  have "div_even a b * b - a = - (a mod b) \<and> 2 * (a mod b) \<le> b \<or> div_even a b * b - a = b - a mod b \<and> b \<le> 2 * (a mod b)"
    using a by (auto simp: div_even_def Let_def algebra_simps)
  then show ?thesis using m by (elim disjE conjE) (simp_all add: abs_if)
qed

lemma exponent_scale:
  assumes "0 < a" and "0 < b" and "53 - bits a + bits b \<le> 1074"
  shows "b * pow2 (- exponent (a, b)) * pow2 52 \<le> a * pow2 (exponent (a, b))" "52 - bits a + bits b \<le> exponent (a, b)"
proof -
  define t where "t = 53 - bits a + bits b"
  have low: "b * pow2 (- t) * pow2 52 \<le> a * pow2 t"
  proof (cases "0 \<le> t")
    case True
    have "pow2 (bits a - 1) * pow2 t = pow2 (bits b + 52)"
      using bits_bounds [OF assms(1)] True by (simp flip: pow2_add add: t_def add.commute)
    moreover have "b * pow2 52 \<le> pow2 (bits b + 52)"
      using bits_bounds [OF assms(2)] by (simp add: pow2_add)
    moreover have "pow2 (bits a - 1) * pow2 t \<le> a * pow2 t" using bits_bounds [OF assms(1)] by simp
    ultimately show ?thesis using True by (simp add: pow2_neg)
  next
    case False
    have "b * pow2 (- t) * pow2 52 \<le> pow2 (bits b) * pow2 (- t) * pow2 52"
      using bits_bounds [OF assms(2)] by (intro mult_right_mono) (simp_all add: less_imp_le)
    also have "\<dots> = pow2 (bits a - 1)" using False bits_bounds [OF assms(2)] by (simp flip: pow2_add add: t_def)
    also have "\<dots> \<le> a" using bits_bounds [OF assms(1)] by simp
    finally show ?thesis using False by (simp add: pow2_neg)
  qed
  have e: "exponent (a, b) = (if b * pow2 (- t) * pow2 53 \<le> a * pow2 t then t - 1 else t)"
    using assms(3) by (simp add: exponent_def scale_def t_def Let_def)
  show "52 - bits a + bits b \<le> exponent (a, b)" by (simp add: e t_def)
  have p: "pow2 53 = 2 * pow2 52" by (simp add: pow2_def)
  show "b * pow2 (- exponent (a, b)) * pow2 52 \<le> a * pow2 (exponent (a, b))"
  proof (cases "b * pow2 (- t) * pow2 53 \<le> a * pow2 t")
    case True
    show ?thesis
    proof (cases "1 \<le> t")
      case t: True
      then have "pow2 t = 2 * pow2 (t - 1)" using pow2_add [of "t - 1" 1] by (simp add: pow2_def)
      then show ?thesis using True t p e by (simp add: pow2_neg)
    next
      case False
      then have "pow2 (1 - t) = 2 * pow2 (- t)" using pow2_add [of "- t" 1] by (simp add: pow2_def)
      then show ?thesis using True False p e by (simp add: pow2_neg)
    qed
  qed (use e low in simp)
qed

text \<open>The error of the rounding is at most the 53rd binary digit.\<close>

lemma near_close:
  assumes "0 < a" and "0 < b" and "53 - bits a + bits b \<le> 1074" and "bits a \<le> 53"
  obtains u v where "near neg (a, b) = Fin neg u v" and "0 < v" and "2 ^ 53 * \<bar>u * b - a * v\<bar> \<le> a * v"
proof -
  define s where "s = exponent (a, b)"
  note es = exponent_scale [OF assms(1-3), folded s_def]
  have "0 \<le> s" using es(2) assms(4) bits_bounds [OF assms(2)] by linarith
  define m where "m = div_even (a * pow2 s) (b * pow2 (- s))"
  have n: "near neg (a, b) = Fin neg (m * pow2 (- s)) (pow2 s)"
    using assms(1) \<open>0 \<le> s\<close> by (simp add: near_def scale_def s_def m_def Let_def)
  have "2 * \<bar>m * (b * pow2 (- s)) - a * pow2 s\<bar> \<le> b * pow2 (- s)"
    unfolding m_def using assms(2) by (intro div_even_near) simp
  then have "2 ^ 53 * \<bar>m * pow2 (- s) * b - a * pow2 s\<bar> \<le> a * pow2 s"
    using es(1) by (simp add: pow2_def mult.assoc mult.commute [of b])
  with n show thesis by (intro that) simp_all
qed

section \<open>Reading what \<open>toFixed\<close> writes\<close>

lemma pad_digits: "\<forall>c\<in>set s. is_digit c \<Longrightarrow> \<forall>c\<in>set (pad p s). is_digit c"
  using is_digit_nth [of 0] by (auto simp: pad_def digit_chars_def)

lemma show_nat_length: "n < 10 ^ p \<Longrightarrow> 0 < p \<Longrightarrow> length (show_nat n) \<le> p"
proof (induction p arbitrary: n)
  case (Suc p)
  show ?case
  proof (cases "n < 10")
    case True
    then show ?thesis by (simp add: show_nat.simps [of n])
  next
    case False
    then have "0 < p" using Suc.prems by (cases p) auto
    moreover have "n div 10 < 10 ^ p" using Suc.prems by (simp add: less_mult_imp_div_less mult.commute)
    ultimately show ?thesis using Suc.IH [of "n div 10"] False by (simp add: show_nat.simps [of n])
  qed
qed simp

lemma pad_length: "length s \<le> p \<Longrightarrow> length (pad p s) = p"
  by (simp add: pad_def)

lemma read_digits_scale: "\<forall>c\<in>set s. is_digit c \<Longrightarrow> read_digits k s = k * 10 ^ length s + read_digits 0 s"
proof (induction s arbitrary: k)
  case (Cons c s)
  then obtain d where d: "digit_val c = Some d" by (auto simp: digit_val_digit)
  have "read_digits (10 * k + d) s = (10 * k + d) * 10 ^ length s + read_digits 0 s" "read_digits d s = d * 10 ^ length s + read_digits 0 s"
    using Cons.prems by (auto intro!: Cons.IH)
  then show ?case using d by (simp add: algebra_simps)
qed simp

lemma read_zero: "read_digits 0 (CHR ''0'' # t) = read_digits 0 t"
proof -
  have d: "digit_val (CHR ''0'') = Some 0" using digit_val_nth [of 0] by (simp add: digit_chars_def)
  show ?thesis unfolding read_digits.simps(2) d by simp
qed

lemma read_zeros: "read_digits 0 (replicate k (CHR ''0'') @ s) = read_digits 0 s"
  by (induction k) (simp_all only: replicate_0 replicate_Suc append_Nil append_Cons read_zero)

lemma read_pad: "read_digits 0 (pad p (show_nat n)) = n"
  by (simp add: pad_def read_zeros read_show_nat)

text \<open>Nothing of a text that goes on like this is read as part of the number before it.\<close>

definition stops :: "string \<Rightarrow> bool" where
  "stops t \<longleftrightarrow> t = [] \<or> \<not> is_digit (hd t) \<and> hd t \<noteq> CHR ''.'' \<and> hd t \<noteq> CHR ''e'' \<and> hd t \<noteq> CHR ''E''"

lemma take_digits: "\<forall>c\<in>set s. is_digit c \<Longrightarrow> t = [] \<or> \<not> is_digit (hd t) \<Longrightarrow> digits_then (s @ t) = (s, t)"
  by (cases t) (auto simp: digits_then_def)

lemma not_digit_dot: "\<not> is_digit (CHR ''.'')"
  by code_simp

lemma read_exponent_stops: "stops t \<Longrightarrow> read_exponent t = 0"
  by (auto simp: stops_def read_exponent_def split: list.split)

lemma parse_fixed:
  assumes "0 \<le> n" and "stops t"
  shows "parse_float (fixed_text neg p n @ t) = near neg (n, 10 ^ p)"
proof -
  let ?w = "show_int (n div 10 ^ p)" and ?f = "if p = 0 then [] else pad p (show_int (n mod 10 ^ p))"
  let ?r = "(if p = 0 then [] else CHR ''.'' # ?f) @ t"
  have i: "0 \<le> n div 10 ^ p" "0 \<le> n mod 10 ^ p" "n mod 10 ^ p < 10 ^ p" using assms(1) by (simp_all add: pos_imp_zdiv_nonneg_iff)
  then have sh: "?w = show_nat (nat (n div 10 ^ p))" "show_int (n mod 10 ^ p) = show_nat (nat (n mod 10 ^ p))" by (simp_all add: show_int_def not_less)
  have wd: "\<forall>c\<in>set ?w. is_digit c" "\<forall>c\<in>set ?f. is_digit c" using show_nat_digits pad_digits [OF show_nat_digits] by (simp_all add: sh)
  obtain c cs where w: "?w = c # cs" using sh(1) by (cases "show_nat (nat (n div 10 ^ p))") simp_all
  have c: "is_digit c" using wd(1) w by simp
  have lf: "length ?f = p"
    using show_nat_length [of "nat (n mod 10 ^ p)" p] i pad_length by (simp add: sh(2) nat_less_iff)
  have d1: "digits_then (?w @ ?r) = (?w, ?r)" using wd(1) assms(2) not_digit_dot by (intro take_digits) (auto simp: stops_def)
  have d2: "fraction ?r = (?f, t)"
    using take_digits [OF wd(2), of t] assms(2) by (auto simp: fraction_def stops_def split: list.split)
  have "int (read_digits 0 (?w @ ?f)) = n div 10 ^ p * 10 ^ p + n mod 10 ^ p"
    using read_digits_scale [OF wd(2), of "nat (n div 10 ^ p)"] lf i read_digits_append [OF wd(1), of 0 ?f]
    by (simp add: sh read_show_nat read_pad split: if_splits)
  then have v: "int (read_digits 0 (?w @ ?f)) = n" unfolding div_mult_mod_eq .
  have ni: "\<not> starts_with ''Infinity'' (?w @ ?r)"
    using c w by (auto simp: starts_with_def is_digit_def digit_chars_def)
  have "parse_unsigned_float neg (?w @ ?r) = decimal neg (int (read_digits 0 (?w @ ?f))) (0 - int (length ?f))"
    unfolding parse_unsigned_float_def Let_def d1 prod.case d2 read_exponent_stops [OF assms(2)] using ni w by simp
  then have "parse_unsigned_float neg (?w @ ?r) = near neg (n, 10 ^ p)" unfolding v lf by (simp add: decimal_def)
  moreover have "fixed_text neg p n @ t = (if neg then ''-'' else []) @ ?w @ ?r" by (simp add: fixed_text_def)
  moreover have "parse_float ((if neg then ''-'' else []) @ ?w @ r) = parse_unsigned_float neg (?w @ r)" for r
    using not_digit_special [OF c] by (simp add: w parse_float_def js_space_def)
  ultimately show ?thesis by simp
qed

lemma bits_le: "n < pow2 k \<Longrightarrow> 0 < n \<Longrightarrow> 0 \<le> k \<Longrightarrow> bits n \<le> k"
proof (rule ccontr)
  assume n: "n < pow2 k" "0 < n" "0 \<le> k" "\<not> bits n \<le> k"
  then have "pow2 k \<le> pow2 (bits n - 1)" by (intro pow2_mono) simp
  with bits_bounds [OF n(2)] n(1) show False by linarith
qed

lemma bits_ten: "p \<le> 100 \<Longrightarrow> bits (10 ^ p) \<le> 404"
proof -
  assume p: "p \<le> 100"
  have "(10 :: int) ^ p < 16 ^ Suc p"
    using power_mono [of "10 :: int" 16 p] zero_less_power [of "16 :: int" p] unfolding power_Suc by linarith
  also have "(16 :: int) ^ Suc p \<le> 16 ^ 101" using p by (intro power_increasing) auto
  finally show ?thesis using bits_le [of "10 ^ p" 404] by (simp add: pow2_def)
qed

lemma near_fixed:
  assumes "0 \<le> n" and "n < 2 ^ 52" and "p \<le> 100"
  shows "to_fixed p (near neg (n, 10 ^ p)) = fixed_text (neg \<and> n \<noteq> 0) p n"
proof (cases "n = 0")
  case True
  then show ?thesis by (simp add: near_def nearest_def)
next
  case False
  then have n: "0 < n" using assms(1) by simp
  have "bits n \<le> 52" using assms(2) n by (intro bits_le) (simp_all add: pow2_def)
  then have b: "bits n \<le> 53" "53 - bits n + bits (10 ^ p) \<le> 1074" using bits_bounds [OF n] bits_ten [OF assms(3)] by linarith+
  obtain u v where uv: "near neg (n, 10 ^ p) = Fin neg u v" "0 < v" "2 ^ 53 * \<bar>u * 10 ^ p - n * v\<bar> \<le> n * v"
    by (rule near_close [OF n _ b(2,1)]) simp_all
  have nv: "n * v < 2 ^ 52 * v" using assms(2) uv(2) by (intro mult_strict_right_mono)
  have e: "2 * \<bar>u * 10 ^ p - n * v\<bar> < v"
  proof -
    have "2 ^ 52 * (2 * \<bar>u * 10 ^ p - n * v\<bar>) < 2 ^ 52 * v" using order_le_less_trans [OF uv(3) nv] by simp
    then show ?thesis by (rule mult_left_less_imp_less) simp
  qed
  have "nearest (u * 10 ^ p) v = n"
    unfolding nearest_def using e uv(2) by (intro int_div_pos_eq [where r = "2 * (u * 10 ^ p) + v - 2 * v * n"]) (auto simp: algebra_simps abs_if split: if_splits)
  moreover have "u \<noteq> 0"
  proof
    assume "u = 0"
    then have "2 ^ 53 * (n * v) \<le> n * v" using uv(2,3) n by simp
    then show False using n uv(2) by simp
  qed
  moreover have "\<not> 10 ^ 21 * v \<le> u"
  proof
    assume "10 ^ 21 * v \<le> u"
    moreover have "1 \<le> (10 :: int) ^ p" by simp
    moreover have "0 < 10 ^ 21 * v" using uv(2) by simp
    then have "0 < u" using \<open>10 ^ 21 * v \<le> u\<close> by linarith
    then have "u * 1 \<le> u * 10 ^ p" by (intro mult_left_mono) simp_all
    ultimately have "10 ^ 21 * v \<le> u * 10 ^ p" by linarith
    moreover have "u * 10 ^ p < n * v + v" using e uv(2) abs_ge_self [of "u * 10 ^ p - n * v"] by simp
    moreover have "2 ^ 52 * v + v \<le> 10 ^ 21 * v" using uv(2) by simp
    ultimately show False using nv by simp
  qed
  ultimately show ?thesis using False uv(1) by simp
qed

text \<open>What \<open>toFixed\<close> wrote is read and written again as it was, up to \<open>2 ^ 52\<close> units of the last place, unless it is a negative zero.\<close>

lemma fixed_back:
  assumes "0 \<le> n" and "n < 2 ^ 52" and "p \<le> 100" and "neg \<longrightarrow> n \<noteq> 0" and "stops t"
  shows "to_fixed p (parse_float (fixed_text neg p n @ t)) = fixed_text neg p n"
  using near_fixed [OF assms(1-3), of neg] parse_fixed [OF assms(1,5)] assms(4) by (cases neg) auto

section \<open>What \<open>toFixed\<close> writes is a number\<close>

text \<open>A finite number is a fraction of natural numbers, and \<open>parseFloat\<close> gives no other.\<close>

definition float_ok :: "jfloat \<Rightarrow> bool" where
  "float_ok x \<longleftrightarrow> (case x of Fin _ a b \<Rightarrow> 0 \<le> a \<and> 0 < b | _ \<Rightarrow> True)"

lemma near_ok: "0 \<le> fst x \<Longrightarrow> 0 < snd x \<Longrightarrow> float_ok (near neg x) \<and> near neg x \<noteq> FNaN"
proof -
  assume x: "0 \<le> fst x" "0 < snd x"
  have "0 \<le> div_even (fst x * pow2 t) (snd x * pow2 (- t))" for t
    using x by (simp add: div_even_def Let_def pos_imp_zdiv_nonneg_iff less_imp_le)
  then show ?thesis using pow2_pos by (auto simp: near_def scale_def float_ok_def Let_def less_imp_le)
qed

lemma decimal_number: "float_ok (decimal neg (int n) k) \<and> decimal neg (int n) k \<noteq> FNaN"
  unfolding decimal_def by (rule near_ok) simp_all

lemma parse_float_ok: "float_ok (parse_float s)"
proof -
  have u: "float_ok (parse_unsigned_float neg t)" for neg t
    using decimal_number by (auto simp: parse_unsigned_float_def Let_def split_beta) (simp_all add: float_ok_def)
  show ?thesis using u by (auto simp: parse_float_def split: list.split) (simp add: float_ok_def)
qed

text \<open>A text that starts with a digit is read as a number.\<close>

lemma parse_digit:
  assumes "is_digit c"
  shows "parse_float ((if neg then ''-'' else []) @ c # r) \<noteq> FNaN"
proof -
  have "fst (digits_then (c # r)) \<noteq> []" using assms by (simp add: digits_then_def)
  moreover have "\<not> starts_with ''Infinity'' (c # r)" using assms by (auto simp: starts_with_def is_digit_def digit_chars_def)
  ultimately have "parse_unsigned_float n (c # r) \<noteq> FNaN" for n
    using decimal_number by (auto simp: parse_unsigned_float_def Let_def split_beta)
  moreover have "\<not> js_space (CHR ''-'')" by (simp add: js_space_def)
  ultimately show ?thesis using not_digit_special [OF assms] by (simp add: parse_float_def)
qed

lemma strip_zeros_hd: "strip_zeros t \<noteq> [] \<Longrightarrow> hd (strip_zeros t) = hd t"
  by (cases t) (auto simp: Let_def split: if_splits)

lemma strip_zeros_Nil: "strip_zeros t = [] \<Longrightarrow> t = replicate (length t) (CHR ''0'')"
  by (induction t) (auto simp: Let_def split: if_splits)

lemma show_nat_lower: "k < length (show_nat n) \<Longrightarrow> 0 < n \<Longrightarrow> 10 ^ k \<le> n"
  using show_nat_length [of n k] by (cases "k = 0") (auto simp: not_less [symmetric])

lemma big_digits_pos:
  assumes "0 < b" and "10 ^ 21 * b \<le> a" and "l = length (show_int (a div b))"
  shows "0 < snd (big_digits (a, b) l)"
proof -
  have p: "10 ^ 21 \<le> a div b" using assms(1,2) by (simp add: zdiv_mono1 [of "10 ^ 21 * b" a b, simplified])
  then have n: "0 < nat (a div b)" "show_int (a div b) = show_nat (nat (a div b))" by (simp_all add: show_int_def)
  have "0 < l" using n(2) assms(3) by (cases "show_nat (nat (a div b))") simp_all
  have low: "b * 10 ^ (l - k) \<le> a" if "1 \<le> k" for k
  proof -
    have "10 ^ (l - k) \<le> nat (a div b)" using show_nat_lower [of "l - k" "nat (a div b)"] n that assms(3) \<open>0 < l\<close> by simp
    then have "10 ^ (l - k) \<le> a div b" using p by (simp add: le_nat_iff)
    then have "b * 10 ^ (l - k) \<le> b * (a div b)" using assms(1) by simp
    also have "\<dots> \<le> a" using assms(1) by (metis mult_div_mod_eq le_add_same_cancel1 pos_mod_sign)
    finally show ?thesis .
  qed
  have one: "1 \<le> a div (b * 10 ^ (l - k))" if "1 \<le> k" for k
    using zdiv_mono1 [OF low [OF that], of "b * 10 ^ (l - k)"] assms(1) by simp
  have "0 < m" if "shortest (a, b) l k = Some m" "1 \<le> k" for k m
    using that(1) one [OF that(2)] by (auto simp: shortest_def Let_def split: if_splits)
  moreover have "1 \<le> fst p \<and> shortest (a, b) l (fst p) = Some (snd p)"
    if "p \<in> set (List.map_filter (\<lambda>k. map_option (Pair k) (shortest (a, b) l k)) [1..<18])" for p
    using that by (auto simp: map_filter_def)
  ultimately show ?thesis
    using one [of 17] by (auto simp: big_digits_def split: list.split) (metis list.set_intros(1) snd_conv)
qed

lemma to_fixed_number:
  assumes "float_ok x" and "x \<noteq> FNaN"
  shows "parse_float (to_fixed p x) \<noteq> FNaN"
proof (cases x)
  case FNaN
  with assms(2) show ?thesis by simp
next
  case (FInf neg)
  have "parse_float ''Infinity'' \<noteq> FNaN" "parse_float ''-Infinity'' \<noteq> FNaN" by code_simp+
  with FInf show ?thesis by simp
next
  case (Fin neg a b)
  then have ab: "0 \<le> a" "0 < b" using assms(1) by (simp_all add: float_ok_def)
  have dg: "\<exists>c cs. show_int n = c # cs \<and> is_digit c" if "0 \<le> n" for n
    using that show_nat_digits [of "nat n"] by (cases "show_nat (nat n)") (auto simp: show_int_def)
  show ?thesis
  proof (cases "10 ^ 21 * b \<le> a")
    case True
    obtain k n where kn: "big_digits (a, b) (length (show_int (a div b))) = (k, n)" by (cases "big_digits (a, b) (length (show_int (a div b)))")
    then have n: "0 < n" using big_digits_pos [OF ab(2) True refl] by simp
    have "strip_zeros (show_int n) \<noteq> []"
    proof
      assume "strip_zeros (show_int n) = []"
      then have "read_digits 0 (show_int n) = 0"
        using read_zeros [of "length (show_int n)" "[]"] strip_zeros_Nil [of "show_int n"] by simp
      then show False using n read_show_nat [of "nat n"] by (simp add: show_int_def)
    qed
    moreover obtain c cs where "show_int n = c # cs" "is_digit c" using dg [of n] n by auto
    ultimately have "\<exists>r. big_text (a, b) = c # r" using kn strip_zeros_hd [of "show_int n"] by (simp add: big_text_def Let_def)
    then show ?thesis using Fin True parse_digit [OF \<open>is_digit c\<close>, of neg] by auto
  next
    case False
    have "0 \<le> nearest (a * 10 ^ p) b" using ab by (simp add: nearest_def pos_imp_zdiv_nonneg_iff)
    then obtain c cs where "show_int (nearest (a * 10 ^ p) b div 10 ^ p) = c # cs" "is_digit c"
      using dg [of "nearest (a * 10 ^ p) b div 10 ^ p"] by (auto simp: pos_imp_zdiv_nonneg_iff)
    then show ?thesis using Fin False parse_digit [of c "neg \<and> a \<noteq> 0"] by (simp add: fixed_text_def del: if_split)
  qed
qed

text \<open>The nearest double to 1.005 is below it, and is written with two digits as such.\<close>

lemma fixed_of_double: "to_fixed 2 (parse_float ''1.005'') = ''1.00''"
  by code_simp

end
