(* ===== verification/Numberbox.thy ===== *)
theory Numberbox
  imports Js_Float Textbox
begin

text \<open>
  The field for numbers, \<open>js/plugins/jquery.numberbox.js\<close>, over the text field (theory Textbox) and the numbers of theory Js_Float.

  The field shows \<open>formatter\<close> of its value and reads what is typed with \<open>parser\<close>.  Separators have at most one character and the precision is
  one \<open>toFixed\<close> takes.  The parser makes regular expressions of the separators, the prefix and the suffix by putting a backslash before
  them: where that means the text itself the replacement is written out, otherwise it is the parameter \<open>rx\<close>, the global replacement of
  the language.  \<open>None\<close> is an exception or a loop without end.
\<close>

section \<open>State\<close>

record nbox =
  nb_box :: textbox
  nb_value :: string
  nb_min :: "jfloat option"
  nb_max :: "jfloat option"
  nb_precision :: nat
  nb_decimal :: "char option"
  nb_group :: "char option"
  nb_prefix :: string
  nb_suffix :: string

definition nbox_defaults :: nbox where
  "nbox_defaults = \<lparr>nb_box = textbox_defaults, nb_value = [], nb_min = None, nb_max = None, nb_precision = 0, nb_decimal = Some (CHR ''.''),
     nb_group = None, nb_prefix = [], nb_suffix = []\<rparr>"

text \<open>Pattern, replacement, text; \<open>None\<close> for a pattern that is none.\<close>

type_synonym regex = "string \<Rightarrow> string \<Rightarrow> string \<Rightarrow> string option"

section \<open>The parser\<close>

text \<open>A backslash and this text is a pattern for the text itself: no escape of the language, no sign of its patterns after it.\<close>

definition rx_literal :: "string \<Rightarrow> bool" where
  "rx_literal a =
     (case a of
        [] \<Rightarrow> False
      | c # cs \<Rightarrow> \<not> is_digit c \<and> c \<notin> set ''bBdDsSwWfnrtvcxuk'' \<and> list_all (\<lambda>x. x \<notin> set (CHR 0x5C # ''^$.*+?()[]{}|'')) cs)"

definition rx_replace :: "regex \<Rightarrow> string \<Rightarrow> string \<Rightarrow> string \<Rightarrow> string option" where
  "rx_replace rx a b s = (if rx_literal a then Some (replace_all a b 0 s) else rx (CHR 0x5C # a) b s)"

definition drop_affix :: "regex \<Rightarrow> string \<Rightarrow> string \<Rightarrow> string option" where
  "drop_affix rx a s =
     (if a = [] then Some s
      else if js_trim a = [] then None
      else map_option js_trim (rx_replace rx (js_trim a) [] s))"

definition put_separator :: "regex \<Rightarrow> char option \<Rightarrow> string \<Rightarrow> string \<Rightarrow> string option" where
  "put_separator rx c b s = (case c of None \<Rightarrow> Some s | Some c \<Rightarrow> map_option js_trim (rx_replace rx [c] b s))"

definition nb_read :: "regex \<Rightarrow> nbox \<Rightarrow> string \<Rightarrow> string option" where
  "nb_read rx s v =
     (if float_whole v then Some v
      else
        map_option (filter (\<lambda>c. \<not> js_space c))
          (Option.bind (drop_affix rx (nb_prefix s) v)
            (\<lambda>v. Option.bind (drop_affix rx (nb_suffix s) v)
              (\<lambda>v. Option.bind (put_separator rx (nb_group s) [] v) (put_separator rx (nb_decimal s) ''.'')))))"

definition nb_clamp :: "nbox \<Rightarrow> string \<Rightarrow> string" where
  "nb_clamp s v =
     (let below = (case nb_min s of None \<Rightarrow> False | Some m \<Rightarrow> fless (parse_float v) m);
          above = (case nb_max s of None \<Rightarrow> False | Some m \<Rightarrow> fless m (parse_float v))
      in if below then to_fixed (nb_precision s) (the (nb_min s))
         else if above then to_fixed (nb_precision s) (the (nb_max s)) else v)"

definition nb_parse :: "regex \<Rightarrow> nbox \<Rightarrow> string \<Rightarrow> string option" where
  "nb_parse rx s v =
     map_option (\<lambda>t. let x = to_fixed (nb_precision s) (parse_float t) in if x = ''NaN'' then [] else nb_clamp s x) (nb_read rx s v)"

section \<open>The formatter\<close>

text \<open>
  One turn of the loop: the first run of four digits or more is cut before its last three.  The text put there is a replacement text of
  the language, where two dollar signs mean one: with a dollar sign as the separator the last three digits are lost and a 2 comes for them.
\<close>

definition cut_run :: "char \<Rightarrow> string \<Rightarrow> string" where
  "cut_run c w = take (length w - 3) w @ c # (if c = CHR ''$'' then ''2'' else drop (length w - 3) w)"

function group_step :: "char \<Rightarrow> string \<Rightarrow> string option" where
  "group_step c s =
     (let (w, r) = digits_then s
      in if 4 \<le> length w then Some (cut_run c w @ r)
         else case r of [] \<Rightarrow> None | x # xs \<Rightarrow> map_option (\<lambda>t. w @ x # t) (group_step c xs))"
  by auto
termination
proof (relation "measure (\<lambda>(c, s). length s)")
  show "wf (measure (\<lambda>(c, s :: string). length s))" by simp
next
  fix c :: char and s :: string and p w r x xs
  assume "p = digits_then s" "(w, r) = p" "r = x # xs"
  then have "length (x # xs) \<le> length s" by (simp add: digits_then_def) (metis length_dropWhile_le)
  then show "((c, xs), (c, s)) \<in> measure (\<lambda>(c, s). length s)" by simp
qed

declare group_step.simps [simp del]

partial_function (option) group_loop :: "char \<Rightarrow> string \<Rightarrow> string option" where
  "group_loop c s = (case group_step c s of None \<Rightarrow> Some s | Some t \<Rightarrow> group_loop c t)"

declare group_loop.simps [code]

definition nb_format :: "nbox \<Rightarrow> string \<Rightarrow> string option" where
  "nb_format s v =
     (if v = [] then Some []
      else
        let s1 = takeWhile (\<lambda>c. c \<noteq> CHR ''.'') v; s2 = tl (dropWhile (\<lambda>c. c \<noteq> CHR ''.'') v);
            d = (case nb_decimal s of None \<Rightarrow> [] | Some c \<Rightarrow> [c])
        in map_option (\<lambda>s1. nb_prefix s @ s1 @ (if s2 = [] then [] else d @ s2) @ nb_suffix s)
             (case nb_group s of None \<Rightarrow> Some s1 | Some c \<Rightarrow> group_loop c s1))"

section \<open>The field\<close>

definition nb_set :: "regex \<Rightarrow> string \<Rightarrow> nbox \<Rightarrow> nbox option" where
  "nb_set rx v s =
     Option.bind (nb_parse rx s v)
       (\<lambda>x. Option.bind (nb_format s x)
         (\<lambda>c. let s = s\<lparr>nb_value := x, nb_box := text_set x (set_text c (nb_box s))\<rparr>
              in map_option (\<lambda>c. s\<lparr>nb_box := set_text c (nb_box s)\<rparr>) (nb_format s (tx_hidden (nb_box s)))))"

definition nb_create :: "regex \<Rightarrow> string \<Rightarrow> string \<Rightarrow> nbox \<Rightarrow> nbox option" where
  "nb_create rx prompt v s =
     Option.bind (nb_parse rx s v)
       (\<lambda>x. map_option (\<lambda>c. s\<lparr>nb_value := v, nb_box := set_text c (init_value x (textbox_create prompt v))\<rparr>) (nb_format s x))"

definition nb_blur :: "regex \<Rightarrow> nbox \<Rightarrow> nbox option" where
  "nb_blur rx s =
     (let s = s\<lparr>nb_box := (nb_box s)\<lparr>tx_focus := False\<rparr>\<rparr>
      in if live (nb_box s) then (let s = s\<lparr>nb_box := blur_text (nb_box s)\<rparr> in nb_set rx (get_text (nb_box s)) s) else Some s)"

definition nb_enter :: "regex \<Rightarrow> nbox \<Rightarrow> nbox option" where
  "nb_enter rx s = (if live (nb_box s) then nb_set rx (get_text (nb_box s)) s else Some s)"

definition nb_clear :: "nbox \<Rightarrow> nbox" where
  "nb_clear s = s\<lparr>nb_box := clear_text (nb_box s), nb_value := []\<rparr>"

definition nb_reset :: "regex \<Rightarrow> nbox \<Rightarrow> nbox option" where
  "nb_reset rx s = (let s = s\<lparr>nb_box := reset_text (nb_box s)\<rparr> in nb_set rx (tx_hidden (nb_box s)) s)"

text \<open>Which keys are let through: \<open>which\<close> of the event, \<open>ctrlKey\<close>, \<open>shiftKey\<close>.\<close>

definition nb_filter :: "nat \<Rightarrow> bool \<Rightarrow> bool \<Rightarrow> nbox \<Rightarrow> bool" where
  "nb_filter k ctrl shift s =
     (let v = get_text (nb_box s) in
      if k = 13 then True
      else if k = 45 then CHR ''-'' \<notin> set v
      else if k < 256 \<and> nb_decimal s = Some (char_of k) then char_of k \<notin> set v
      else if k < 256 \<and> nb_group s = Some (char_of k) then True
      else 48 \<le> k \<and> k \<le> 57 \<and> \<not> ctrl \<and> \<not> shift \<or> k = 0 \<or> k = 8 \<or> ctrl \<and> (k = 99 \<or> k = 118))"

section \<open>The loop of the formatter\<close>

text \<open>What the loop is to do: a separator before every three digits, counted from the end.\<close>

function thousands :: "char \<Rightarrow> string \<Rightarrow> string" where
  "thousands c w = (if length w \<le> 3 then w else thousands c (take (length w - 3) w) @ c # drop (length w - 3) w)"
  by auto
termination by (relation "measure (\<lambda>(c, w). length w)") auto

declare thousands.simps [simp del]

lemma digits_then_append:
  "\<forall>c\<in>set w. is_digit c \<Longrightarrow> t = [] \<or> \<not> is_digit (hd t) \<Longrightarrow> digits_then (w @ t) = (w, t)"
  by (cases t) (auto simp: digits_then_def)

lemma step_short:
  assumes "\<forall>c\<in>set w. is_digit c" and "length w < 4" and "\<not> is_digit x"
  shows "group_step c (w @ x # t) = map_option (\<lambda>t. w @ x # t) (group_step c t)"
  using digits_then_append [OF assms(1), of "x # t"] assms(2,3) by (simp add: group_step.simps [of c "w @ x # t"])

lemma step_long:
  assumes "\<forall>c\<in>set w. is_digit c" and "4 \<le> length w" and "t = [] \<or> \<not> is_digit (hd t)"
  shows "group_step c (w @ t) = Some (cut_run c w @ t)"
  using digits_then_append [OF assms(1,3)] assms(2) by (simp add: group_step.simps [of c "w @ t"])

lemma step_end: "\<forall>c\<in>set w. is_digit c \<Longrightarrow> length w < 4 \<Longrightarrow> group_step c w = None"
  using digits_then_append [of w "[]"] by (simp add: group_step.simps [of c w])

text \<open>The digits that were cut already: nothing in them is cut again.\<close>

definition settled :: "char \<Rightarrow> string \<Rightarrow> bool" where
  "settled c t \<longleftrightarrow> (t = [] \<or> \<not> is_digit (hd t)) \<and> group_step c t = None"

lemma settled_cons:
  assumes "settled c t" and "\<forall>x\<in>set w. is_digit x" and "length w = 3" and "\<not> is_digit c"
  shows "settled c (c # w @ t)"
proof -
  have "group_step c (w @ t) = None"
  proof (cases t)
    case Nil
    then show ?thesis using step_end [OF assms(2)] assms(3) by simp
  next
    case (Cons x u)
    then have "\<not> is_digit x" using assms(1) by (simp add: settled_def)
    have "group_step c u = None"
      using assms(1) step_short [of "[]" x c u] \<open>\<not> is_digit x\<close> Cons by (simp add: settled_def)
    then show ?thesis using step_short [OF assms(2) _ \<open>\<not> is_digit x\<close>] assms(3) Cons by simp
  qed
  then show ?thesis using step_short [of "[]" c c "w @ t"] assms(4) by (simp add: settled_def)
qed

lemma loop_digits:
  assumes "\<forall>x\<in>set w. is_digit x" and "settled c t" and "\<not> is_digit c" and "c \<noteq> CHR ''$''" and "a = [] \<or> a = ''-''"
  shows "group_loop c (a @ w @ t) = Some (a @ thousands c w @ t)"
  using assms(1,2)
proof (induction "length w" arbitrary: w t rule: less_induct)
  case less
  have nd: "\<not> is_digit (CHR ''-'')" by (simp add: is_digit_def digit_chars_def)
  have sa: "group_step c (a @ r) = map_option ((@) a) (group_step c r)" for r
    using assms(5) step_short [of "[]" "CHR ''-''" c r] nd by (cases "group_step c r") auto
  show ?case
  proof (cases "4 \<le> length w")
    case False
    have "group_step c (w @ t) = None"
    proof (cases t)
      case Nil
      then show ?thesis using step_end [OF less.prems(1)] False by simp
    next
      case (Cons x u)
      then have "\<not> is_digit x" using less.prems(2) by (simp add: settled_def)
      moreover have "group_step c u = None"
        using less.prems(2) step_short [of "[]" x c u] calculation Cons by (simp add: settled_def)
      ultimately show ?thesis using step_short [OF less.prems(1)] False Cons by simp
    qed
    then show ?thesis using False by (subst group_loop.simps) (simp add: sa thousands.simps [of c w])
  next
    case True
    let ?u = "take (length w - 3) w" and ?v = "drop (length w - 3) w"
    have d: "\<forall>x\<in>set ?u. is_digit x" "\<forall>x\<in>set ?v. is_digit x" using less.prems(1) by (auto dest: in_set_takeD in_set_dropD)
    have "group_step c (w @ t) = Some (?u @ c # ?v @ t)"
      using step_long [OF less.prems(1) True] less.prems(2) assms(4) by (simp add: settled_def cut_run_def)
    then have "group_loop c (a @ w @ t) = group_loop c (a @ ?u @ c # ?v @ t)"
      by (subst group_loop.simps) (simp add: sa)
    also have "\<dots> = Some (a @ thousands c ?u @ c # ?v @ t)"
      using less.hyps [OF _ d(1) settled_cons [OF less.prems(2) d(2) _ assms(3)]] True by simp
    finally show ?thesis using True by (simp add: thousands.simps [of c w])
  qed
qed

lemma thousands_digits: "c \<notin> set w \<Longrightarrow> filter (\<lambda>x. x \<noteq> c) (thousands c w) = w"
proof (induction c w rule: thousands.induct)
  case (1 c w)
  show ?case
  proof (cases "length w \<le> 3")
    case False
    let ?u = "take (length w - 3) w" and ?v = "drop (length w - 3) w"
    have "c \<notin> set ?u" "c \<notin> set ?v" using 1(2) by (meson in_set_takeD in_set_dropD)+
    then have "filter (\<lambda>x. x \<noteq> c) (thousands c ?u) = ?u" "filter (\<lambda>x. x \<noteq> c) ?v = ?v"
      using 1(1) False by (auto simp: filter_id_conv)
    then show ?thesis using False by (simp add: thousands.simps [of c w])
  qed (use 1(2) in \<open>auto simp: thousands.simps [of c w] filter_id_conv\<close>)
qed

lemma thousands_chars: "set (thousands c w) \<subseteq> insert c (set w)"
proof (induction c w rule: thousands.induct)
  case (1 c w)
  show ?case
  proof (cases "length w \<le> 3")
    case False
    then show ?thesis using 1 set_take_subset [of "length w - 3" w] set_drop_subset [of "length w - 3" w] by (auto simp: thousands.simps [of c w])
  qed (auto simp: thousands.simps [of c w])
qed

lemma thousands_hd: "w \<noteq> [] \<Longrightarrow> thousands c w \<noteq> [] \<and> hd (thousands c w) = hd w"
proof (induction c w rule: thousands.induct)
  case (1 c w)
  show ?case
  proof (cases "length w \<le> 3")
    case False
    then have "take (length w - 3) w \<noteq> []" by (cases w) auto
    then show ?thesis using 1 False by (simp add: thousands.simps [of c w])
  qed (use 1(2) in \<open>simp add: thousands.simps [of c w]\<close>)
qed

lemma thousands_last: "w \<noteq> [] \<Longrightarrow> last (thousands c w) = last w"
  by (subst thousands.simps) (auto simp: last_append)

lemma js_split_snoc: "c \<notin> set v \<Longrightarrow> js_split c (u @ c # v) = js_split c u @ [v]"
  by (induction u) (auto simp: js_split_no_sep split: list.splits)

definition well_grouped :: "char \<Rightarrow> string \<Rightarrow> bool" where
  "well_grouped c s \<longleftrightarrow> (case js_split c s of [] \<Rightarrow> False | g # gs \<Rightarrow> g \<noteq> [] \<and> length g \<le> 3 \<and> list_all (\<lambda>h. length h = 3) gs)"

lemma thousands_grouped: "w \<noteq> [] \<Longrightarrow> c \<notin> set w \<Longrightarrow> well_grouped c (thousands c w)"
proof (induction c w rule: thousands.induct)
  case (1 c w)
  show ?case
  proof (cases "length w \<le> 3")
    case False
    let ?u = "take (length w - 3) w" and ?v = "drop (length w - 3) w"
    have u: "?u \<noteq> []" "c \<notin> set ?u" "c \<notin> set ?v" using False 1(3) by (auto dest: in_set_takeD in_set_dropD)
    have "well_grouped c (thousands c ?u)" using 1(1) [OF False u(1,2)] .
    moreover have "js_split c (thousands c w) = js_split c (thousands c ?u) @ [?v]"
      using False u(3) by (simp add: thousands.simps [of c w] js_split_snoc)
    ultimately show ?thesis using False by (auto simp: well_grouped_def split: list.splits)
  qed (use 1(2,3) in \<open>simp add: thousands.simps [of c w] well_grouped_def js_split_no_sep\<close>)
qed

text \<open>
  C35: the loop of the formatter ends.  For a separator that is neither a digit nor a dollar sign, and for digits with or without a minus sign before
  them, it returns the digits in groups: every group but the first has three digits, the first one to three, and without the separators they are the digits given.
\<close>

theorem nb_grouping:
  assumes "\<not> is_digit c" and "c \<noteq> CHR ''$''" and "list_all is_digit w" and "w \<noteq> []" and "a = [] \<or> a = ''-''"
  shows "\<exists>g. group_loop c (a @ w) = Some (a @ g) \<and> well_grouped c g \<and> filter (\<lambda>x. x \<noteq> c) g = w"
proof -
  have d: "\<forall>x\<in>set w. is_digit x" "c \<notin> set w" using assms(1,3) by (auto simp: list_all_iff)
  have "settled c []" using step_end [of "[]" c] by (simp add: settled_def)
  from loop_digits [OF d(1) this assms(1,2,5)] thousands_grouped [OF assms(4) d(2)] thousands_digits [OF d(2)] show ?thesis by auto
qed

section \<open>Trimming\<close>

lemma trim_parts: "\<exists>u v. s = u @ js_trim s @ v \<and> list_all js_space u \<and> list_all js_space v"
proof -
  define t where "t = dropWhile js_space s"
  have s: "s = takeWhile js_space s @ t" by (simp add: t_def)
  have t: "t = js_trim s @ rev (takeWhile js_space (rev t))"
    unfolding js_trim_def t_def [symmetric] rev_append [symmetric] by simp
  have "list_all js_space (takeWhile js_space s)" "list_all js_space (rev (takeWhile js_space (rev t)))"
    by (auto simp: list_all_iff dest: set_takeWhileD)
  with s t show ?thesis by metis
qed

lemma trim_keeps: "x \<in> set s \<Longrightarrow> \<not> js_space x \<Longrightarrow> x \<in> set (js_trim s)"
  using trim_parts [of s] by (auto simp: list_all_iff) (metis Un_iff set_append)

lemma trim_subset: "set (js_trim s) \<subseteq> set s"
  using trim_parts [of s] by (metis set_append Un_upper1 Un_upper2 order_trans)

lemma dropWhile_spaces: "list_all js_space u \<Longrightarrow> m \<noteq> [] \<Longrightarrow> \<not> js_space (hd m) \<Longrightarrow> dropWhile js_space (u @ m) = m"
  by (induction u) (auto simp: neq_Nil_conv)

text \<open>Spaces before a text and anything after it: the text is kept, and less of what is after it.\<close>

lemma trim_core:
  assumes "list_all js_space u" and "m \<noteq> []" and "\<not> js_space (hd m)" and "\<not> js_space (last m)"
  shows "\<exists>j'. js_trim (u @ m @ j) = m @ j' \<and> set j' \<subseteq> set j"
proof -
  have 1: "dropWhile js_space (u @ m @ j) = m @ j" using dropWhile_spaces [OF assms(1), of "m @ j"] assms(2,3) by simp
  define r where "r = dropWhile js_space (rev j)"
  have "dropWhile js_space (rev j @ rev m) = r @ rev m"
  proof (cases "r = []")
    case True
    then have "\<forall>x\<in>set (rev j). js_space x" by (simp add: r_def)
    then have "dropWhile js_space (rev j @ rev m) = dropWhile js_space (rev m)" by (intro dropWhile_append2) auto
    also have "\<dots> = rev m" using assms(2,4) by (cases "rev m") (auto simp: last_rev [symmetric])
    finally show ?thesis using True by simp
  next
    case False
    then obtain x where "x \<in> set (rev j)" "\<not> js_space x" by (auto simp: r_def dropWhile_eq_Nil_conv)
    then show ?thesis by (simp add: r_def dropWhile_append1)
  qed
  then have "js_trim (u @ m @ j) = m @ rev r" by (simp add: js_trim_def 1)
  moreover have "set r \<subseteq> set j" using set_dropWhileD by (fastforce simp: r_def)
  ultimately show ?thesis by auto
qed

section \<open>Reading what was formatted\<close>

definition foreign :: "nbox \<Rightarrow> char \<Rightarrow> bool" where
  "foreign s c \<longleftrightarrow> \<not> is_digit c \<and> c \<notin> set ''-+.eExX'' \<and> nb_group s \<noteq> Some c \<and> nb_decimal s \<noteq> Some c"

text \<open>A prefix or suffix that is read as itself and has nothing in it that a number can have.\<close>

definition affix_ok :: "nbox \<Rightarrow> string \<Rightarrow> bool" where
  "affix_ok s a \<longleftrightarrow> a = [] \<or> rx_literal (js_trim a) \<and> list_all (foreign s) a"

definition separators_ok :: "nbox \<Rightarrow> bool" where
  "separators_ok s \<longleftrightarrow>
     (case nb_group s of None \<Rightarrow> True
      | Some g \<Rightarrow> rx_literal [g] \<and> \<not> js_space g \<and> g \<notin> set ''-+.eExX$'' \<and> nb_decimal s \<noteq> Some g)
     \<and> (case nb_decimal s of None \<Rightarrow> nb_precision s = 0
        | Some d \<Rightarrow> rx_literal [d] \<and> \<not> js_space d \<and> d \<notin> set ''-+eExX'')"

definition nbox_ok :: "nbox \<Rightarrow> bool" where
  "nbox_ok s \<longleftrightarrow> separators_ok s \<and> affix_ok s (nb_prefix s) \<and> affix_ok s (nb_suffix s) \<and> nb_precision s \<le> 100"

text \<open>The number without prefix and suffix, as it is shown.\<close>

definition shown_int :: "nbox \<Rightarrow> string \<Rightarrow> string" where
  "shown_int s w = (case nb_group s of None \<Rightarrow> w | Some g \<Rightarrow> thousands g w)"

definition shown_number :: "nbox \<Rightarrow> bool \<Rightarrow> int \<Rightarrow> string" where
  "shown_number s neg n =
     (let p = nb_precision s
      in (if neg then ''-'' else []) @ shown_int s (show_int (n div 10 ^ p))
           @ (if p = 0 then [] else the (nb_decimal s) # pad p (show_int (n mod 10 ^ p))))"

lemma literal_not_digit: "rx_literal [c] \<Longrightarrow> \<not> is_digit c"
  by (simp add: rx_literal_def)

lemma group_facts:
  assumes "nbox_ok s" and "nb_group s = Some g"
  shows "rx_literal [g]" and "\<not> js_space g" and "\<not> is_digit g" and "g \<noteq> CHR ''$''" and "g \<noteq> CHR ''-''" and "g \<notin> set ''.eE+-xX''"
    and "nb_decimal s \<noteq> Some g"
  using assms literal_not_digit [of g] by (simp_all add: nbox_ok_def separators_ok_def)

lemma decimal_facts:
  assumes "nbox_ok s" and "nb_decimal s = Some d"
  shows "rx_literal [d]" and "\<not> js_space d" and "\<not> is_digit d" and "d \<noteq> CHR ''-''" and "d \<notin> set ''eE+-xX''"
  using assms literal_not_digit [of d] by (simp_all add: nbox_ok_def separators_ok_def)

lemma decimal_some: "nbox_ok s \<Longrightarrow> nb_precision s \<noteq> 0 \<Longrightarrow> \<exists>d. nb_decimal s = Some d"
  by (cases "nb_decimal s") (simp_all add: nbox_ok_def separators_ok_def)

lemma fixed_parts:
  assumes "0 \<le> n"
  shows "\<forall>c\<in>set (show_int (n div 10 ^ p)). is_digit c" and "show_int (n div 10 ^ p) \<noteq> []"
    and "\<forall>c\<in>set (pad p (show_int (n mod 10 ^ p))). is_digit c" and "pad p (show_int (n mod 10 ^ p)) \<noteq> []"
proof -
  have "0 \<le> n div 10 ^ p" "0 \<le> n mod 10 ^ p" using assms by (simp_all add: pos_imp_zdiv_nonneg_iff)
  then have sh: "show_int (n div 10 ^ p) = show_nat (nat (n div 10 ^ p))" "show_int (n mod 10 ^ p) = show_nat (nat (n mod 10 ^ p))" by (simp_all add: show_int_def not_less)
  show "\<forall>c\<in>set (show_int (n div 10 ^ p)). is_digit c" "show_int (n div 10 ^ p) \<noteq> []" using show_nat_digits by (simp_all add: sh)
  show "\<forall>c\<in>set (pad p (show_int (n mod 10 ^ p))). is_digit c" using pad_digits [OF show_nat_digits] by (simp add: sh)
  show "pad p (show_int (n mod 10 ^ p)) \<noteq> []" by (simp add: sh pad_def)
qed

lemma digit_not_dot: "is_digit c \<Longrightarrow> c \<noteq> CHR ''.''"
  using not_digit_dot by auto

lemma format_fixed:
  assumes "nbox_ok s" and "0 \<le> n"
  shows "nb_format s (fixed_text neg (nb_precision s) n) = Some (nb_prefix s @ shown_number s neg n @ nb_suffix s)"
proof -
  let ?p = "nb_precision s" and ?a = "if neg then ''-'' else []"
  let ?w = "show_int (n div 10 ^ ?p)" and ?f = "pad ?p (show_int (n mod 10 ^ ?p))"
  note fp = fixed_parts [OF assms(2), of ?p]
  have nodot: "\<forall>c\<in>set (?a @ ?w). c \<noteq> CHR ''.''" using fp(1) digit_not_dot by auto
  have t: "fixed_text neg ?p n = (?a @ ?w) @ (if ?p = 0 then [] else CHR ''.'' # ?f)" by (simp add: fixed_text_def)
  have s1: "takeWhile (\<lambda>c. c \<noteq> CHR ''.'') (fixed_text neg ?p n) = ?a @ ?w"
    unfolding t using nodot by (subst takeWhile_append2) auto
  have s2: "tl (dropWhile (\<lambda>c. c \<noteq> CHR ''.'') (fixed_text neg ?p n)) = (if ?p = 0 then [] else ?f)"
    unfolding t using nodot by (subst dropWhile_append2) auto
  have g: "(case nb_group s of None \<Rightarrow> Some (?a @ ?w) | Some c \<Rightarrow> group_loop c (?a @ ?w)) = Some (?a @ shown_int s ?w)"
  proof (cases "nb_group s")
    case (Some c)
    then have "\<not> is_digit c" "c \<noteq> CHR ''$''" using group_facts [OF assms(1)] by blast+
    moreover have "settled c []" using step_end [of "[]" c] by (simp add: settled_def)
    ultimately show ?thesis using loop_digits [OF fp(1), of c "[]" ?a] Some by (simp add: shown_int_def)
  qed (simp add: shown_int_def)
  have d: "?p \<noteq> 0 \<Longrightarrow> nb_decimal s \<noteq> None" using decimal_some [OF assms(1)] by auto
  have "fixed_text neg ?p n \<noteq> []" using fp(2) by (simp add: t)
  then show ?thesis
    unfolding nb_format_def s1 s2 g Let_def using d fp(4) by (auto simp: shown_number_def Let_def)
qed

lemma drop_affix_spaces:
  assumes "affix_ok s a" and "a \<noteq> []" and "m \<noteq> []" and "\<not> js_space (hd m)" "\<not> js_space (last m)"
    and "hd (js_trim a) \<notin> set m"
  shows "\<exists>j'. drop_affix rx a (a @ m @ j) = Some (m @ j') \<and> set j' \<subseteq> set j"
    and "\<exists>j'. drop_affix rx a (m @ j) = Some (m @ j') \<and> set j' \<subseteq> set j"
proof -
  have lit: "rx_literal (js_trim a)" using assms(1,2) by (simp add: affix_ok_def)
  let ?t = "js_trim a"
  have t: "?t \<noteq> []" using lit by (auto simp: rx_literal_def)
  have d: "drop_affix rx a v = Some (js_trim (replace_all ?t [] 0 v))" for v
    using assms(2) t lit by (simp add: drop_affix_def rx_replace_def)
  obtain u v where uv: "a = u @ ?t @ v" "list_all js_space u" "list_all js_space v" using trim_parts [of a] by blast
  have h: "\<not> js_space (hd ?t)"
  proof -
    have "dropWhile js_space a \<noteq> []"
    proof
      assume e: "dropWhile js_space a = []"
      have "?t = []" unfolding js_trim_def e by simp
      with t show False by simp
    qed
    then have "\<not> js_space (hd (dropWhile js_space a))" by (rule hd_dropWhile)
    moreover have "hd ?t = hd (dropWhile js_space a)"
      using t takeWhile_dropWhile_id [of js_space "rev (dropWhile js_space a)"] unfolding js_trim_def
      by (metis hd_append2 rev_append rev_rev_ident)
    ultimately show ?thesis by simp
  qed
  have hu: "hd ?t \<notin> set u" "hd ?t \<notin> set v" using h uv(2,3) by (auto simp: list_all_iff)
  have "replace_all ?t [] 0 (a @ m @ j) = (u @ v) @ m @ replace_all ?t [] 0 j"
  proof -
    have "replace_all ?t [] 0 (a @ m @ j) = replace_all ?t [] 0 (u @ ?t @ v @ m @ j)" by (subst uv(1)) simp
    then show ?thesis using replace_foreign [OF t] replace_found [OF t] hu assms(6) by simp
  qed
  moreover have "list_all js_space (u @ v)" using uv by simp
  ultimately obtain j1 where "js_trim (replace_all ?t [] 0 (a @ m @ j)) = m @ j1" "set j1 \<subseteq> set (replace_all ?t [] 0 j)"
    using trim_core [OF _ assms(3-5), of "u @ v" "replace_all ?t [] 0 j"] by auto
  then show "\<exists>j'. drop_affix rx a (a @ m @ j) = Some (m @ j') \<and> set j' \<subseteq> set j"
    using d replace_subset [of ?t 0 j] by (intro exI [of _ j1]) auto
  obtain j2 where "js_trim (replace_all ?t [] 0 (m @ j)) = m @ j2" "set j2 \<subseteq> set (replace_all ?t [] 0 j)"
    using trim_core [OF _ assms(3-5), of "[]" "replace_all ?t [] 0 j"] replace_foreign [OF t assms(6)] by auto
  then show "\<exists>j'. drop_affix rx a (m @ j) = Some (m @ j') \<and> set j' \<subseteq> set j"
    using d replace_subset [of ?t 0 j] by (intro exI [of _ j2]) auto
qed

lemma put_separator_core:
  assumes "rx_literal [c]" and "m \<noteq> []" and "m' = concat (map (\<lambda>x. if x = c then b else [x]) m)" and "m' \<noteq> []"
    and "\<not> js_space (hd m')" "\<not> js_space (last m')" and "c \<notin> set j"
  shows "\<exists>j'. put_separator rx (Some c) b (m @ j) = Some (m' @ j') \<and> set j' \<subseteq> set j"
proof -
  have "concat (map (\<lambda>x. if x = c then b else [x]) j) = j" using assms(7) by (induction j) auto
  then have "put_separator rx (Some c) b (m @ j) = Some (js_trim ([] @ m' @ j))"
    using assms(1,3) by (simp add: put_separator_def rx_replace_def replace_char)
  then show ?thesis using trim_core [of "[]" m' j] assms(4-6) by auto
qed

lemma shown_chars:
  assumes "nbox_ok s" and "0 \<le> n"
  shows "\<forall>c\<in>set (shown_number s neg n). is_digit c \<or> c = CHR ''-'' \<or> nb_group s = Some c \<or> nb_decimal s = Some c"
    and "shown_number s neg n \<noteq> []" and "\<not> js_space (hd (shown_number s neg n))" and "is_digit (last (shown_number s neg n))"
proof -
  let ?p = "nb_precision s"
  let ?w = "show_int (n div 10 ^ ?p)" and ?f = "pad ?p (show_int (n mod 10 ^ ?p))"
  note fp = fixed_parts [OF assms(2), of ?p]
  have w: "shown_int s ?w \<noteq> []" "hd (shown_int s ?w) = hd ?w" "last (shown_int s ?w) = last ?w"
    "\<forall>c\<in>set (shown_int s ?w). is_digit c \<or> nb_group s = Some c"
    using fp(1,2) thousands_hd thousands_last thousands_chars by (fastforce simp: shown_int_def split: option.splits)+
  have d: "?p \<noteq> 0 \<Longrightarrow> nb_decimal s = Some (the (nb_decimal s))"
    using decimal_some [OF assms(1)] by auto
  have sp: "\<not> js_space (CHR ''-'')" by (simp add: js_space_def)
  show "\<forall>c\<in>set (shown_number s neg n). is_digit c \<or> c = CHR ''-'' \<or> nb_group s = Some c \<or> nb_decimal s = Some c"
    using w(4) fp(3) d by (auto simp: shown_number_def Let_def)
  show "shown_number s neg n \<noteq> []" using w(1) by (simp add: shown_number_def Let_def)
  show "\<not> js_space (hd (shown_number s neg n))"
    using w(1,2) fp(1,2) not_digit_special sp by (auto simp: shown_number_def Let_def hd_append)
  show "is_digit (last (shown_number s neg n))"
    using w(1,3) fp by (auto simp: shown_number_def Let_def last_append)
qed

lemma affix_facts:
  assumes "affix_ok s a" and "a \<noteq> []"
  shows "foreign s (hd (js_trim a))" and "\<exists>c\<in>set a. \<not> js_space c \<and> foreign s c"
proof -
  have t: "js_trim a \<noteq> []" "list_all (foreign s) a" using assms by (auto simp: affix_ok_def rx_literal_def)
  have h: "hd (js_trim a) \<in> set a" using t(1) trim_subset [of a] hd_in_set by blast
  then show "foreign s (hd (js_trim a))" using t(2) by (simp add: list_all_iff)
  have "\<exists>c\<in>set a. \<not> js_space c"
  proof (rule ccontr)
    assume "\<not> ?thesis"
    then have e: "dropWhile js_space a = []" by simp
    have "js_trim a = []" unfolding js_trim_def e by simp
    with t(1) show False by simp
  qed
  then show "\<exists>c\<in>set a. \<not> js_space c \<and> foreign s c" using t(2) by (auto simp: list_all_iff)
qed

lemma foreign_not_shown: "nbox_ok s \<Longrightarrow> 0 \<le> n \<Longrightarrow> foreign s c \<Longrightarrow> c \<notin> set (shown_number s neg n)"
  using shown_chars(1) [of s n neg] by (auto simp: foreign_def)

lemma foreign_stops: "list_all (foreign s) j \<Longrightarrow> stops j"
  by (cases j) (auto simp: stops_def foreign_def)

text \<open>The whole text is a number only if it is the number as the value has it.\<close>

lemma decimal_chars: "decimal_ok u \<Longrightarrow> c \<in> set u \<Longrightarrow> is_digit c \<or> c \<in> set ''.eE+-''"
proof -
  have d: "x \<in> set v \<Longrightarrow> is_digit x \<or> x \<in> set (snd (digits_then v))" for x v
    by (induction v) (auto simp: digits_then_def)
  have e: "exponent_ok v \<Longrightarrow> x \<in> set v \<Longrightarrow> is_digit x \<or> x \<in> set ''eE+-''" for x v
    by (auto simp: exponent_ok_def list_all_iff Let_def split: list.splits if_splits)
  assume u: "decimal_ok u" "c \<in> set u"
  show ?thesis
  proof (cases "is_digit c")
    case False
    then have "c \<in> set (snd (digits_then u))" using d u(2) by blast
    then show ?thesis
      using u(1) e d False by (fastforce simp: decimal_ok_def Let_def case_prod_unfold split: list.splits if_splits)
  qed simp
qed

lemma whole_chars:
  assumes "float_whole v" and "c \<in> set v" and "\<not> js_space c" and "x \<in> set v" and "is_digit x"
  shows "is_digit c \<or> c \<in> set ''.eE+-xX''"
proof -
  define t where "t = js_trim v"
  define u where "u = (case t of c # cs \<Rightarrow> if c = CHR ''-'' \<or> c = CHR ''+'' then cs else t | [] \<Rightarrow> [])"
  have c: "c \<in> set t" "x \<in> set t" using trim_keeps assms(2-5) not_digit_special by (auto simp: t_def)
  have cu: "y \<in> set t \<Longrightarrow> y \<in> set u \<or> y = CHR ''-'' \<or> y = CHR ''+''" for y by (cases t) (auto simp: u_def)
  have "u \<noteq> ''Infinity''"
  proof
    assume "u = ''Infinity''"
    then have "x \<in> set ''Infinity'' \<or> x = CHR ''-'' \<or> x = CHR ''+''" using cu [OF c(2)] by simp
    with assms(5) show False by (auto simp: is_digit_def digit_chars_def)
  qed
  then consider "decimal_ok u" | "hex_zero t" using assms(1) unfolding float_whole_def Let_def t_def [symmetric] u_def [symmetric] by blast
  then show ?thesis
  proof cases
    case 1
    then show ?thesis using decimal_chars [OF 1] cu [OF c(1)] by auto
  next
    case 2
    have "c \<in> set (take 2 t @ drop 2 t)" using c(1) by simp
    then have "c \<in> set (take 2 t) \<or> c \<in> set (drop 2 t)" unfolding set_append by simp
    moreover have "take 2 t = ''0x'' \<or> take 2 t = ''0X''" "\<forall>y\<in>set (drop 2 t). y = CHR ''0''"
      using 2 unfolding hex_zero_def hex_prefix_def list_all_iff by blast+
    ultimately have "c = CHR ''0'' \<or> c = CHR ''x'' \<or> c = CHR ''X''" by (elim disjE) (simp_all, blast+)
    moreover have "is_digit (CHR ''0'')" by (simp add: is_digit_def digit_chars_def)
    ultimately show ?thesis by auto
  qed
qed

lemma read_whole:
  assumes "nbox_ok s" and "0 \<le> n" and "float_whole (nb_prefix s @ shown_number s neg n @ nb_suffix s)"
  shows "nb_prefix s @ shown_number s neg n @ nb_suffix s = fixed_text neg (nb_precision s) n"
proof -
  let ?p = "nb_precision s" and ?M = "shown_number s neg n"
  let ?w = "show_int (n div 10 ^ ?p)"
  note fp = fixed_parts [OF assms(2), of ?p]
  have x: "last ?M \<in> set ?M" "is_digit (last ?M)" using shown_chars(2,4) [OF assms(1,2)] by simp_all
  note wh = whole_chars [OF assms(3)]
  have a: "a = []" if "affix_ok s a" "set a \<subseteq> set (nb_prefix s @ ?M @ nb_suffix s)" for a
  proof (rule ccontr)
    assume "a \<noteq> []"
    from affix_facts(2) [OF that(1) this] obtain c where "c \<in> set a" "\<not> js_space c" "foreign s c" by blast
    then show False using wh [of c "last ?M"] that(2) x by (auto simp: foreign_def)
  qed
  have P: "nb_prefix s = []" "nb_suffix s = []" using a assms(1) by (auto simp: nbox_ok_def)
  have "shown_int s ?w = ?w"
  proof (cases "nb_group s")
    case (Some g)
    note g = group_facts [OF assms(1) Some]
    have "g \<notin> set ?M"
    proof
      assume "g \<in> set ?M"
      then have "is_digit g \<or> g \<in> set ''.eE+-xX''" using x g(2) by (intro wh [of g "last ?M"]) simp_all
      with g(3,6) show False by blast
    qed
    then have "g \<notin> set (thousands g ?w)" using Some by (simp add: shown_number_def shown_int_def Let_def)
    then have "filter (\<lambda>c. c \<noteq> g) (thousands g ?w) = thousands g ?w" by (auto simp: filter_id_conv)
    moreover have "filter (\<lambda>c. c \<noteq> g) (thousands g ?w) = ?w" using fp(1) g(3) by (intro thousands_digits) auto
    ultimately show ?thesis using Some by (simp add: shown_int_def)
  qed (simp add: shown_int_def)
  moreover have "the (nb_decimal s) = CHR ''.''" if "?p \<noteq> 0"
  proof (cases "nb_decimal s")
    case (Some d)
    have "d \<in> set ?M" using Some that by (simp add: shown_number_def Let_def)
    then have "is_digit d \<or> d \<in> set ''.eE+-xX''" using x decimal_facts [OF assms(1) Some] by (intro wh [of d "last ?M"]) simp_all
    then show ?thesis using Some decimal_facts(3,5) [OF assms(1) Some] by auto
  qed (use decimal_some [OF assms(1) that] in simp)
  ultimately show ?thesis by (simp add: P shown_number_def fixed_text_def Let_def)
qed

lemma read_shown:
  assumes "nbox_ok s" and "0 \<le> n"
  shows "\<exists>j. nb_read rx s (nb_prefix s @ shown_number s neg n @ nb_suffix s) = Some (fixed_text neg (nb_precision s) n @ j) \<and> stops j"
proof (cases "float_whole (nb_prefix s @ shown_number s neg n @ nb_suffix s)")
  case True
  then show ?thesis using read_whole [OF assms True] by (intro exI [of _ "[]"]) (simp add: nb_read_def stops_def)
next
  case False
  let ?p = "nb_precision s" and ?M = "shown_number s neg n" and ?P = "nb_prefix s" and ?S = "nb_suffix s"
  let ?a = "if neg then ''-'' else []" and ?w = "show_int (n div 10 ^ ?p)" and ?f = "pad ?p (show_int (n mod 10 ^ ?p))"
  note fp = fixed_parts [OF assms(2), of ?p] and sc = shown_chars [OF assms, of neg]
  have ok: "affix_ok s ?P" "affix_ok s ?S" "separators_ok s" using assms(1) by (simp_all add: nbox_ok_def)
  have ml: "\<not> js_space (last ?M)" using sc(4) not_digit_special by blast
  have fM: "foreign s c \<Longrightarrow> c \<notin> set ?M" for c using foreign_not_shown [OF assms] .
  have fS: "list_all (foreign s) ?S" using ok(2) by (auto simp: affix_ok_def)
  have "\<exists>j. drop_affix rx ?P (?P @ ?M @ ?S) = Some (?M @ j) \<and> set j \<subseteq> set ?S"
  proof (cases "?P = []")
    case False
    then show ?thesis using drop_affix_spaces(1) [OF ok(1) False sc(2,3) ml fM [OF affix_facts(1) [OF ok(1) False]]] by blast
  qed (simp add: drop_affix_def)
  then obtain j1 where j1: "drop_affix rx ?P (?P @ ?M @ ?S) = Some (?M @ j1)" "set j1 \<subseteq> set ?S" by blast
  have "\<exists>j. drop_affix rx ?S (?M @ j1) = Some (?M @ j) \<and> set j \<subseteq> set j1"
  proof (cases "?S = []")
    case False
    then show ?thesis using drop_affix_spaces(2) [OF ok(2) False sc(2,3) ml fM [OF affix_facts(1) [OF ok(2) False]]] by blast
  qed (simp add: drop_affix_def)
  then obtain j2 where j2: "drop_affix rx ?S (?M @ j1) = Some (?M @ j2)" "set j2 \<subseteq> set ?S" using j1(2) by blast
  define D where "D = (if ?p = 0 then [] else the (nb_decimal s) # ?f)"
  have M: "?M = ?a @ shown_int s ?w @ D" by (simp add: shown_number_def D_def Let_def)
  have x0: "?a @ ?w \<noteq> []" "\<not> js_space (hd (?a @ ?w @ r))" for r
    using fp(1,2) not_digit_special by (auto simp: hd_append js_space_def)
  have lastD: "D \<noteq> [] \<Longrightarrow> is_digit (last D)" "is_digit (last (?a @ ?w))" using fp by (auto simp: D_def last_append)
  then have xl: "\<not> js_space (last (?a @ ?w @ D))" using fp(2) not_digit_special by (cases "D = []") (auto simp: last_append)
  have "\<exists>j. put_separator rx (nb_group s) [] (?M @ j2) = Some ((?a @ ?w @ D) @ j) \<and> set j \<subseteq> set j2"
  proof (cases "nb_group s")
    case (Some g)
    note gf = group_facts [OF assms(1) Some]
    have "g \<notin> set ?S" using fS Some by (auto simp: list_all_iff foreign_def)
    then have gj: "g \<notin> set j2" using j2(2) by blast
    have cm: "concat (map (\<lambda>x. if x = g then [] else [x]) v) = filter (\<lambda>x. x \<noteq> g) v" for v by (induction v) auto
    have "g \<notin> set D" using fp(3) gf(3,7) decimal_some [OF assms(1)] by (auto simp: D_def)
    then have "filter (\<lambda>x. x \<noteq> g) D = D" "filter (\<lambda>x. x \<noteq> g) ?a = ?a" using gf(5) by (auto simp: filter_id_conv)
    moreover have "filter (\<lambda>x. x \<noteq> g) (thousands g ?w) = ?w" using fp(1) gf(3) by (intro thousands_digits) auto
    ultimately have "filter (\<lambda>x. x \<noteq> g) ?M = ?a @ ?w @ D" unfolding M filter_append shown_int_def Some option.case by simp
    then show ?thesis using put_separator_core [OF gf(1) sc(2) _ _ x0(2) xl gj, of "[]"] Some x0(1) unfolding cm by simp
  qed (simp add: put_separator_def M shown_int_def)
  then obtain j3 where j3: "put_separator rx (nb_group s) [] (?M @ j2) = Some ((?a @ ?w @ D) @ j3)" "set j3 \<subseteq> set ?S" using j2(2) by blast
  have X: "fixed_text neg ?p n = ?a @ ?w @ (if ?p = 0 then [] else CHR ''.'' # ?f)" by (simp add: fixed_text_def)
  have Xl: "\<not> js_space (last (fixed_text neg ?p n))"
    using fp not_digit_special unfolding X by (auto simp: last_append)
  have "\<exists>j. put_separator rx (nb_decimal s) ''.'' ((?a @ ?w @ D) @ j3) = Some (fixed_text neg ?p n @ j) \<and> set j \<subseteq> set j3"
  proof (cases "nb_decimal s")
    case None
    then have "?p = 0" using ok(3) by (simp add: separators_ok_def)
    then show ?thesis using None by (intro exI [of _ j3]) (simp add: put_separator_def fixed_text_def D_def)
  next
    case (Some d)
    note d = decimal_facts [OF assms(1) Some]
    have "d \<notin> set ?S" using fS Some by (auto simp: list_all_iff foreign_def)
    then have dj: "d \<notin> set j3" using j3(2) by blast
    have id: "concat (map (\<lambda>x. if x = d then ''.'' else [x]) v) = v" if "\<forall>x\<in>set v. x \<noteq> d" for v using that by (induction v) auto
    have "\<forall>x\<in>set (?a @ ?w). x \<noteq> d" "\<forall>x\<in>set ?f. x \<noteq> d" using fp(1,3) d(3,4) by auto
    then have "concat (map (\<lambda>x. if x = d then ''.'' else [x]) (?a @ ?w @ D)) = fixed_text neg ?p n"
      using id unfolding X D_def by (simp add: Some)
    then show ?thesis
      using put_separator_core [OF d(1) _ _ _ _ Xl dj, of "?a @ ?w @ D" "''.''"] Some x0 X fp(2) by simp
  qed
  then obtain j4 where j4: "put_separator rx (nb_decimal s) ''.'' ((?a @ ?w @ D) @ j3) = Some (fixed_text neg ?p n @ j4)" "set j4 \<subseteq> set ?S"
    using j3(2) by blast
  have "is_digit c \<or> c = CHR ''-'' \<or> c = CHR ''.''" if "c \<in> set (fixed_text neg ?p n)" for c
    using that fp(1,3) unfolding X by (auto split: if_splits)
  moreover have "\<not> js_space (CHR ''-'')" "\<not> js_space (CHR ''.'')" by (simp_all add: js_space_def)
  ultimately have "\<forall>c\<in>set (fixed_text neg ?p n). \<not> js_space c" using not_digit_special by blast
  then have "nb_read rx s (?P @ ?M @ ?S) = Some (fixed_text neg ?p n @ filter (\<lambda>c. \<not> js_space c) j4)"
    unfolding nb_read_def if_not_P [OF False] j1(1) Option.bind_lunit j2(1) j3(1) j4(1) by (simp add: filter_id_conv)
  moreover have "stops (filter (\<lambda>c. \<not> js_space c) j4)" using fS j4(2) by (intro foreign_stops [of s]) (auto simp: list_all_iff)
  ultimately show ?thesis by blast
qed

lemma format_parse:
  assumes "nbox_ok s" and "0 \<le> n" and "n < 2 ^ 52" and "neg \<longrightarrow> n \<noteq> 0" and "x = fixed_text neg (nb_precision s) n" and "nb_clamp s x = x"
  shows "\<exists>t. nb_format s x = Some t \<and> nb_parse rx s t = Some x"
proof -
  let ?t = "nb_prefix s @ shown_number s neg n @ nb_suffix s"
  have p: "nb_precision s \<le> 100" using assms(1) by (simp add: nbox_ok_def)
  obtain j where j: "nb_read rx s ?t = Some (x @ j)" "stops j" using read_shown [OF assms(1,2)] assms(5) by blast
  have "to_fixed (nb_precision s) (parse_float (x @ j)) = x" unfolding assms(5) by (rule fixed_back [OF assms(2,3) p assms(4) j(2)])
  moreover have "x \<noteq> ''NaN''"
  proof
    assume n: "x = ''NaN''"
    have "hd (show_int (n div 10 ^ nb_precision s)) \<in> set x" using fixed_parts(2) [OF assms(2)] by (simp add: assms(5) fixed_text_def)
    moreover have "is_digit (hd (show_int (n div 10 ^ nb_precision s)))" using fixed_parts(1,2) [OF assms(2), of "nb_precision s"] hd_in_set by blast
    ultimately show False unfolding n by (auto simp: is_digit_def digit_chars_def)
  qed
  ultimately have "nb_parse rx s ?t = Some x" using j(1) assms(6) by (simp add: nb_parse_def Let_def)
  then show ?thesis using format_fixed [OF assms(1,2)] assms(5) by blast
qed

text \<open>A bound that is itself within the bounds when it is written with the digits of the precision.\<close>

definition inside :: "nbox \<Rightarrow> jfloat \<Rightarrow> bool" where
  "inside s x \<longleftrightarrow> (case nb_min s of None \<Rightarrow> True | Some a \<Rightarrow> \<not> fless x a) \<and> (case nb_max s of None \<Rightarrow> True | Some b \<Rightarrow> \<not> fless b x)"

definition bound_ok :: "nbox \<Rightarrow> jfloat option \<Rightarrow> bool" where
  "bound_ok s m \<longleftrightarrow> (case m of None \<Rightarrow> True | Some a \<Rightarrow> inside s (parse_float (to_fixed (nb_precision s) a)))"

lemma clamp_inside: "bound_ok s (nb_min s) \<Longrightarrow> bound_ok s (nb_max s) \<Longrightarrow> inside s (parse_float (nb_clamp s v))"
  by (auto simp: nb_clamp_def bound_ok_def inside_def Let_def split: option.splits)

lemma clamp_same: "nb_clamp s v = v" if "inside s (parse_float v)"
  using that by (auto simp: nb_clamp_def inside_def split: option.splits)

text \<open>
  C24: what the field shows it reads back.  With separators, prefix and suffix that are told apart from the digits, a number with the digits of the precision,
  below \<open>2 ^ 52\<close> units of the last place and within the bounds, is formatted, and the parser reads the text that is shown as that number again, digit by digit.
\<close>

theorem nb_roundtrip:
  assumes "nbox_ok s" and "0 \<le> n" and "n < 2 ^ 52" and "neg \<longrightarrow> n \<noteq> 0" and "x = fixed_text neg (nb_precision s) n" and "inside s (parse_float x)"
  shows "\<exists>t. nb_format s x = Some t \<and> nb_parse rx s t = Some x"
  by (rule format_parse [OF assms(1-5) clamp_same [OF assms(6)]])

lemma to_fixed_NaN: "float_ok x \<Longrightarrow> to_fixed p x = ''NaN'' \<longleftrightarrow> x = FNaN" "float_ok x \<Longrightarrow> to_fixed p x \<noteq> []"
proof -
  have n: "parse_float ''NaN'' = FNaN" "parse_float [] = FNaN" by code_simp+
  show "float_ok x \<Longrightarrow> to_fixed p x = ''NaN'' \<longleftrightarrow> x = FNaN" using to_fixed_number [of x p] n(1) by (cases "x = FNaN") auto
  show "float_ok x \<Longrightarrow> to_fixed p x \<noteq> []" using to_fixed_number [of x p] n(2) by (cases "x = FNaN") auto
qed

text \<open>
  C28: the bounds.  Whatever is typed that the parser reads, the value is empty exactly if what was read is no number, and a number otherwise: the one that was read with the digits of
  the precision if that is within the bounds, else the bound that it passes, the lower one first, with the digits of the precision.  It is within the bounds if the
  bounds written with these digits are.
\<close>

theorem nb_bounds:
  assumes "nb_read rx s v = Some r" and "\<forall>m. nb_min s = Some m \<or> nb_max s = Some m \<longrightarrow> float_ok m" and "y = to_fixed (nb_precision s) (parse_float r)"
  shows "\<exists>x. nb_parse rx s v = Some x \<and> (x = [] \<longleftrightarrow> parse_float r = FNaN) \<and>
    (x \<noteq> [] \<longrightarrow> parse_float x \<noteq> FNaN \<and> (inside s (parse_float y) \<longrightarrow> x = y) \<and>
      (\<forall>m. nb_min s = Some m \<and> fless (parse_float y) m \<longrightarrow> x = to_fixed (nb_precision s) m) \<and>
      (\<forall>m. nb_max s = Some m \<and> fless m (parse_float y) \<and> inside (s\<lparr>nb_max := None\<rparr>) (parse_float y) \<longrightarrow> x = to_fixed (nb_precision s) m) \<and>
      (bound_ok s (nb_min s) \<and> bound_ok s (nb_max s) \<longrightarrow> inside s (parse_float x)))"
proof (cases "parse_float r = FNaN")
  case True
  then show ?thesis using assms(1,3) by (simp add: nb_parse_def)
next
  case False
  have y: "y \<noteq> ''NaN''" "y \<noteq> []" "parse_float y \<noteq> FNaN"
    using False to_fixed_NaN [OF parse_float_ok] to_fixed_number [OF parse_float_ok] by (simp_all add: assms(3))
  have x: "nb_parse rx s v = Some (nb_clamp s y)" using assms(1,3) y(1) by (simp add: nb_parse_def Let_def)
  have m: "to_fixed p m \<noteq> []" "parse_float (to_fixed p m) \<noteq> FNaN" if "nb_min s = Some m \<or> nb_max s = Some m" "fless k m \<or> fless m k" for m p k
  proof -
    have "m \<noteq> FNaN" using that(2) by (cases k) auto
    then show "to_fixed p m \<noteq> []" "parse_float (to_fixed p m) \<noteq> FNaN" using assms(2) that(1) to_fixed_NaN(2) to_fixed_number by blast+
  qed
  have k: "nb_clamp s y = y \<or> (\<exists>m. (nb_min s = Some m \<or> nb_max s = Some m) \<and> (fless (parse_float y) m \<or> fless m (parse_float y)) \<and>
      nb_clamp s y = to_fixed (nb_precision s) m)"
    by (auto simp: nb_clamp_def Let_def split: option.split)
  have c: "nb_clamp s y \<noteq> []" "parse_float (nb_clamp s y) \<noteq> FNaN"
    using k y m by metis+
  have "nb_max s = Some m \<and> fless m (parse_float y) \<and> inside (s\<lparr>nb_max := None\<rparr>) (parse_float y) \<longrightarrow> nb_clamp s y = to_fixed (nb_precision s) m" for m
    by (auto simp: nb_clamp_def inside_def Let_def split: option.splits)
  moreover have "nb_min s = Some m \<and> fless (parse_float y) m \<longrightarrow> nb_clamp s y = to_fixed (nb_precision s) m" for m
    by (auto simp: nb_clamp_def Let_def)
  ultimately show ?thesis using x c False clamp_same [of s y] clamp_inside [of s y] by auto
qed

lemma trim_Nil [simp]: "js_trim [] = []"
  by (simp add: js_trim_def)

lemma parse_empty:
  assumes "nbox_ok s"
  shows "nb_parse rx s [] = Some []"
proof -
  have a: "drop_affix rx a [] = Some []" if "affix_ok s a" for a
    using that by (auto simp: drop_affix_def affix_ok_def rx_replace_def rx_literal_def)
  have c: "put_separator rx (nb_group s) [] [] = Some []" "put_separator rx (nb_decimal s) ''.'' [] = Some []"
    using group_facts(1) [OF assms] decimal_facts(1) [OF assms] by (auto simp: put_separator_def rx_replace_def split: option.split)
  have w: "\<not> float_whole []" by code_simp
  have "nb_read rx s [] = Some []" using a [of "nb_prefix s"] a [of "nb_suffix s"] c assms w by (simp add: nb_read_def nbox_ok_def)
  then show ?thesis by (simp add: nb_parse_def parse_float_def)
qed

lemma config_same:
  "nb_parse rx (s\<lparr>nb_value := y, nb_box := d\<rparr>) z = nb_parse rx s z" "nb_format (s\<lparr>nb_value := y, nb_box := d\<rparr>) z = nb_format s z"
proof -
  have "nb_clamp (s\<lparr>nb_value := y, nb_box := d\<rparr>) = nb_clamp s" "nb_read rx (s\<lparr>nb_value := y, nb_box := d\<rparr>) = nb_read rx s"
    by (intro ext, simp add: nb_clamp_def nb_read_def)+
  then show "nb_parse rx (s\<lparr>nb_value := y, nb_box := d\<rparr>) z = nb_parse rx s z" by (simp add: nb_parse_def Let_def cong: if_cong)
  show "nb_format (s\<lparr>nb_value := y, nb_box := d\<rparr>) z = nb_format s z" by (simp add: nb_format_def)
qed

lemma nb_set_result:
  assumes "nb_parse rx s v = Some x" and "nb_format s x = Some t"
  shows "nb_set rx v s = Some (s\<lparr>nb_value := x, nb_box := set_text t (text_set x (set_text t (nb_box s)))\<rparr>)"
  using assms by (simp add: nb_set_def config_same)

lemma set_text_facts [simp]:
  "tx_hidden (set_text t b) = tx_hidden b" "tx_focus (set_text t b) = tx_focus b" "live (set_text t b) = live b"
  "tx_marked (set_text t b) = tx_marked b" "tx_log (set_text t b) = tx_log b"
  by (simp_all add: set_text_def live_def Let_def)

lemma set_text_value: "\<not> tx_focus b \<Longrightarrow> tx_value (set_text t b) = t"
  by (simp add: set_text_def get_text_def Let_def)

lemma set_again:
  assumes "\<not> tx_focus b"
  shows "tx_value (set_text t (text_set x (set_text t b))) = t" "tx_hidden (set_text t (text_set x (set_text t b))) = x"
    "\<not> tx_focus (set_text t (text_set x (set_text t b)))" "live (set_text t (text_set x (set_text t b))) = live b"
    "tx_marked (set_text t (text_set x (set_text t b))) = tx_marked b"
    "tx_log (set_text t (text_set x (set_text t b))) = tx_log b @ (if tx_hidden b = x then [] else [(x, tx_hidden b)])"
  using assms by (simp_all add: set_text_value)

text \<open>
  C36: a field for numbers settles.  After a text was set that is read as a number (as above) or as nothing, the field sends that number and shows it formatted; entering and
  leaving the field again, or pressing Enter in it, changes neither the number nor the text, and reports no change.
\<close>

theorem nb_settles:
  assumes "nbox_ok s" and "live (nb_box s)" and "\<not> tx_focus (nb_box s)" and "\<not> tx_marked (nb_box s)"
    and "nb_parse rx s v = Some x" and "inside s (parse_float x)"
    and "x = [] \<or> x = fixed_text neg (nb_precision s) n \<and> 0 \<le> n \<and> n < 2 ^ 52 \<and> (neg \<longrightarrow> n \<noteq> 0)"
  shows "\<exists>t u w. nb_set rx v s = Some u \<and> nb_format s x = Some t \<and> tx_hidden (nb_box u) = x \<and> get_text (nb_box u) = t \<and>
    nb_blur rx (u\<lparr>nb_box := focus_in (nb_box u)\<rparr>) = Some w \<and>
    tx_hidden (nb_box w) = x \<and> get_text (nb_box w) = t \<and> nb_value w = nb_value u \<and> tx_log (nb_box w) = tx_log (nb_box u)"
proof -
  have "\<exists>t. nb_format s x = Some t \<and> nb_parse rx s t = Some x"
  proof (cases "x = []")
    case True
    then show ?thesis using parse_empty [OF assms(1)] by (simp add: nb_format_def)
  next
    case False
    then show ?thesis using format_parse [OF assms(1), of n neg x rx] assms(7) clamp_same [OF assms(6)] by blast
  qed
  then obtain t where t: "nb_format s x = Some t" "nb_parse rx s t = Some x" by blast
  define b where "b = set_text t (text_set x (set_text t (nb_box s)))"
  define u where "u = s\<lparr>nb_value := x, nb_box := b\<rparr>"
  have u: "nb_set rx v s = Some u" using nb_set_result [OF assms(5) t(1)] by (simp add: u_def b_def)
  note bf = set_again [OF assms(3), of t x, folded b_def]
  define c where "c = blur_text ((focus_in b)\<lparr>tx_focus := False\<rparr>)"
  have c: "\<not> tx_focus c" "live c" "\<not> tx_marked c" "tx_hidden c = x" "tx_log c = tx_log b" "get_text c = t"
    using bf assms(2,4) by (auto simp: c_def blur_text_def focus_in_def live_def get_text_def Let_def)
  define w where "w = s\<lparr>nb_value := x, nb_box := set_text t (text_set x (set_text t c))\<rparr>"
  have lf: "live ((focus_in b)\<lparr>tx_focus := False\<rparr>)" using bf(4) assms(2) by (simp add: focus_in_def live_def Let_def)
  have "nb_blur rx (u\<lparr>nb_box := focus_in (nb_box u)\<rparr>) = nb_set rx t (s\<lparr>nb_value := x, nb_box := c\<rparr>)"
    using lf c(6) by (simp add: nb_blur_def u_def c_def Let_def)
  then have "nb_blur rx (u\<lparr>nb_box := focus_in (nb_box u)\<rparr>) = Some w"
    using nb_set_result [of rx "s\<lparr>nb_value := x, nb_box := c\<rparr>" t x t] t config_same by (simp add: w_def)
  moreover have "tx_log (nb_box w) = tx_log (nb_box u)" "tx_hidden (nb_box w) = x" "get_text (nb_box w) = t"
    using set_again [OF c(1), of t x] c(4,5) by (simp_all add: w_def u_def get_text_def)
  ultimately show ?thesis using u t(1) bf by (intro exI [of _ t] exI [of _ u] exI [of _ w]) (simp add: u_def w_def get_text_def)
qed

section \<open>Examples\<close>

definition no_regex :: regex where
  "no_regex p b s = None"

definition dollar_box :: nbox where
  "dollar_box = nbox_defaults\<lparr>nb_group := Some (CHR '',''), nb_prefix := ''$ '', nb_suffix := '' USD'', nb_precision := 2,
     nb_min := Some (parse_float ''0''), nb_max := Some (parse_float ''5000'')\<rparr>"

lemma dollar_ok: "nbox_ok dollar_box"
  by code_simp

theorem nb_grouping_witness: "\<exists>g. group_loop (CHR '','') ''-1234567'' = Some (''-'' @ g) \<and> well_grouped (CHR '','') g"
proof -
  have "\<not> is_digit (CHR '','')" "list_all is_digit ''1234567''" by code_simp+
  with nb_grouping [of "CHR '',''" "''1234567''" "''-''"] show ?thesis by auto
qed

theorem nb_roundtrip_witness: "\<exists>t. nb_format dollar_box ''1234.50'' = Some t \<and> nb_parse no_regex dollar_box t = Some ''1234.50''"
  by (rule nb_roundtrip [OF dollar_ok, of 123450 False]) code_simp+

theorem nb_bounds_witness:
  "nb_parse no_regex dollar_box ''$ 70,000'' = Some ''5000.00'' \<and> inside dollar_box (parse_float ''5000.00'') \<and> parse_float ''5000.00'' \<noteq> FNaN"
proof -
  have v: "nb_parse no_regex dollar_box ''$ 70,000'' = Some ''5000.00''" "nb_read no_regex dollar_box ''$ 70,000'' = Some ''70000''" by code_simp+
  have b: "bound_ok dollar_box (nb_min dollar_box)" "bound_ok dollar_box (nb_max dollar_box)" by code_simp+
  have f: "\<forall>m. nb_min dollar_box = Some m \<or> nb_max dollar_box = Some m \<longrightarrow> float_ok m" using parse_float_ok by (auto simp: dollar_box_def)
  from nb_bounds [OF v(2) f refl] b v(1) show ?thesis by auto
qed

theorem nb_settles_witness:
  "\<exists>u w. nb_set no_regex ''$ 1,234.5 USD'' dollar_box = Some u \<and> get_text (nb_box u) = ''$ 1,234.50 USD'' \<and>
     nb_blur no_regex (u\<lparr>nb_box := focus_in (nb_box u)\<rparr>) = Some w \<and> tx_hidden (nb_box w) = ''1234.50''"
proof -
  have f: "live (nb_box dollar_box)" "\<not> tx_focus (nb_box dollar_box)" "\<not> tx_marked (nb_box dollar_box)"
    "nb_parse no_regex dollar_box ''$ 1,234.5 USD'' = Some ''1234.50''" "inside dollar_box (parse_float ''1234.50'')"
    "''1234.50'' = fixed_text False (nb_precision dollar_box) 123450" "nb_format dollar_box ''1234.50'' = Some ''$ 1,234.50 USD''" by code_simp+
  from nb_settles [OF dollar_ok f(1-5), of False 123450] f(6,7) show ?thesis by auto
qed

text \<open>
  Where the field does not settle.  With a point between the groups, as in German, 1234 is shown as 1.234, which the parser takes for a number as it is: leaving the
  field makes it 1.  A small negative number is written -0.00, which is read as 0.00.  A bound with more digits than the precision is
  rounded, here up beyond itself.  A prefix of spaces only gives a regular expression that is none.
\<close>

lemma german_misread:
  "let s = nbox_defaults\<lparr>nb_group := Some (CHR ''.''), nb_decimal := Some (CHR '','')\<rparr>
   in nb_format s ''1234'' = Some ''1.234'' \<and> nb_parse no_regex s ''1.234'' = Some ''1''"
  by code_simp

lemma negative_zero:
  "let s = nbox_defaults\<lparr>nb_precision := 2\<rparr> in nb_parse no_regex s ''-0.001'' = Some ''-0.00'' \<and> nb_parse no_regex s ''-0.00'' = Some ''0.00''"
  by code_simp

lemma bound_rounded: "let s = nbox_defaults\<lparr>nb_max := Some (parse_float ''0.6'')\<rparr> in nb_parse no_regex s ''5'' = Some ''1''"
  by code_simp

lemma space_prefix_throws: "nb_parse rx (nbox_defaults\<lparr>nb_prefix := '' ''\<rparr>) ''abc'' = None"
proof -
  have "\<not> float_whole ''abc''" "js_trim '' '' = []" by code_simp+
  then show ?thesis by (simp add: nb_parse_def nb_read_def drop_affix_def nbox_defaults_def)
qed

end
