(* ===== verification/Validatebox.thy ===== *)
theory Validatebox
  imports Js_Float Textbox
begin

text \<open>
  The checks of a field, \<open>js/plugins/jquery.validatebox.js\<close>, and the way a text field (theory Textbox) uses them.

  A rule is a validator and a message; the table of rules is a parameter, its rule \<open>length\<close> is written out below.  A rule gets its
  parameters from an object, the options, or \<open>eval\<close> of what follows its name, a parameter of the model too.  A
  parameter is its text and its number, and has no dollar sign in its text.  The delays are steps: of the loop that looks at the text while the field
  has the focus, and of the timer it starts.  \<open>None\<close> is an exception.
\<close>

section \<open>Rules\<close>

type_synonym vparam = "string \<times> jfloat"

record vrule =
  r_validator :: "string \<Rightarrow> vparam list option \<Rightarrow> bool option"
  r_message :: string

record vb_env =
  ve_rule :: "string \<Rightarrow> vrule option"
  ve_eval :: "string \<Rightarrow> vparam list option option"

datatype vtypes = NoType | OneType string | TypeList "string list" | TypeMap "(string \<times> vparam list option) list"

definition flt_le :: "jfloat \<Rightarrow> jfloat \<Rightarrow> bool" where
  "flt_le x y \<longleftrightarrow> x \<noteq> FNaN \<and> y \<noteq> FNaN \<and> \<not> fless y x"

definition length_rule :: vrule where
  "length_rule = \<lparr>r_validator = (\<lambda>v ps. map_option (\<lambda>ps.
       let n = Fin False (int (length (js_trim v))) 1; at = (\<lambda>i. if i < length ps then snd (ps ! i) else FNaN)
       in flt_le (at 0) n \<and> flt_le n (at 1)) ps),
     r_message = ''Please enter a value between {0} and {1}.''\<rparr>"

section \<open>State\<close>

record vbox =
  vb_text :: string
  vb_disabled :: bool
  vb_readonly :: bool
  vb_required :: bool
  vb_types :: vtypes
  vb_params :: "vparam list option"
  vb_missing :: string
  vb_invalidMessage :: string
  vb_novalidate :: bool
  vb_bound :: bool
  vb_invalid :: bool
  vb_message :: string
  vb_tip :: "string option"
  vb_validating :: bool
  vb_seen :: "string option"
  vb_timer :: bool
  vb_loops :: nat

definition vbox_defaults :: vbox where
  "vbox_defaults = \<lparr>vb_text = [], vb_disabled = False, vb_readonly = False, vb_required = False, vb_types = NoType, vb_params = None,
     vb_missing = ''This field is required.'', vb_invalidMessage = [], vb_novalidate = False, vb_bound = False, vb_invalid = False,
     vb_message = [], vb_tip = None, vb_validating = False, vb_seen = None, vb_timer = False, vb_loops = 0\<rparr>"

section \<open>One check: \<open>_21\<close>\<close>

text \<open>The name of a rule is the first run of letters and underscores, its parameters are the rest of the line.\<close>

definition name_char :: "char \<Rightarrow> bool" where
  "name_char c \<longleftrightarrow> c \<in> set upper_chars \<or> c \<in> set lower_chars \<or> c = CHR ''_''"

definition type_parts :: "string \<Rightarrow> (string \<times> string) option" where
  "type_parts t =
     (let u = dropWhile (\<lambda>c. \<not> name_char c) t
      in if u = [] then None
         else Some (takeWhile name_char u, takeWhile (\<lambda>c. c \<noteq> CHR 0x0A \<and> c \<noteq> CHR 0x0D) (dropWhile name_char u)))"

definition fill_message :: "vparam list option \<Rightarrow> string \<Rightarrow> string" where
  "fill_message ps m =
     (case ps of None \<Rightarrow> m
      | Some ps \<Rightarrow> fold (\<lambda>i m. replace_all (''{'' @ show_nat i @ ''}'') (fst (ps ! i)) 0 m) [0..<length ps] m)"

definition show_tip :: "vbox \<Rightarrow> vbox" where
  "show_tip s = s\<lparr>vb_tip := Some (vb_message s)\<rparr>"

definition hide_tip :: "vbox \<Rightarrow> vbox" where
  "hide_tip s = s\<lparr>vb_tip := None\<rparr>"

definition vb_fail :: "string \<Rightarrow> vbox \<Rightarrow> vbox" where
  "vb_fail m s = (let s = s\<lparr>vb_invalid := True, vb_message := m\<rparr> in if vb_validating s then show_tip s else s)"

text \<open>What a rule has to say of the text: nothing (\<open>Some None\<close>), also of an empty one, or its message.\<close>

definition rule_says :: "vb_env \<Rightarrow> string \<times> vparam list option \<Rightarrow> vbox \<Rightarrow> string option option" where
  "rule_says E tg s =
     (case type_parts (fst tg) of
        None \<Rightarrow> None
      | Some (n, rest) \<Rightarrow>
          (case ve_rule E n of
             None \<Rightarrow> Some None
           | Some r \<Rightarrow>
               if vb_text s = [] then Some None
               else
                 case (if snd tg \<noteq> None then Some (snd tg) else if vb_params s \<noteq> None then Some (vb_params s) else ve_eval E rest) of
                   None \<Rightarrow> None
                 | Some ps \<Rightarrow>
                     map_option (\<lambda>ok. if ok then None
                         else Some (if vb_invalidMessage s \<noteq> [] then vb_invalidMessage s else fill_message ps (r_message r)))
                       (r_validator r (vb_text s) ps)))"

definition vb_rule :: "vb_env \<Rightarrow> string \<times> vparam list option \<Rightarrow> vbox \<Rightarrow> (bool \<times> vbox) option" where
  "vb_rule E tg s = map_option (\<lambda>c. case c of None \<Rightarrow> (True, s) | Some m \<Rightarrow> (False, vb_fail m s)) (rule_says E tg s)"

fun vb_rules :: "vb_env \<Rightarrow> (string \<times> vparam list option) list \<Rightarrow> vbox \<Rightarrow> (bool \<times> vbox) option" where
  "vb_rules E [] s = Some (True, s)"
| "vb_rules E (t # ts) s =
     (case vb_rule E t s of None \<Rightarrow> None | Some (ok, s) \<Rightarrow> if ok then vb_rules E ts s else Some (False, s))"

fun type_list :: "vtypes \<Rightarrow> (string \<times> vparam list option) list" where
  "type_list NoType = []"
| "type_list (OneType t) = (if t = [] then [] else [(t, None)])"
| "type_list (TypeList ts) = map (\<lambda>t. (t, None)) ts"
| "type_list (TypeMap ts) = ts"

definition vb_check :: "vb_env \<Rightarrow> vbox \<Rightarrow> (bool \<times> vbox) option" where
  "vb_check E s =
     (let s = hide_tip (s\<lparr>vb_invalid := False\<rparr>) in
      if vb_novalidate s \<or> vb_disabled s then Some (True, s)
      else if vb_required s \<and> vb_text s = [] then Some (False, vb_fail (vb_missing s) s)
      else vb_rules E (type_list (vb_types s)) s)"

section \<open>Events: \<open>_6\<close>, \<open>_b\<close>, \<open>_10\<close>\<close>

definition vb_bind :: "vbox \<Rightarrow> vbox" where
  "vb_bind s = s\<lparr>vb_bound := \<not> (vb_novalidate s \<or> vb_disabled s)\<rparr>"

definition vb_switch :: "vb_env \<Rightarrow> bool option \<Rightarrow> vbox \<Rightarrow> vbox option" where
  "vb_switch E b s =
     (let s = (case b of None \<Rightarrow> s | Some b \<Rightarrow> s\<lparr>vb_novalidate := b\<rparr>);
          s = (if vb_novalidate s then hide_tip (s\<lparr>vb_invalid := False\<rparr>) else s)
      in map_option (\<lambda>(ok, s). vb_bind s) (vb_check E s))"

definition vb_create :: "vb_env \<Rightarrow> vbox \<Rightarrow> vbox option" where
  "vb_create E s = Option.bind (vb_switch E None s) (\<lambda>s. map_option snd (vb_check E s))"

text \<open>One turn of the loop; it goes on as long as the field has the focus.  A tip that is shown is only moved.\<close>

definition vb_look :: "vbox \<Rightarrow> vbox" where
  "vb_look s =
     (if \<not> vb_validating s then s
      else (if vb_seen s \<noteq> Some (vb_text s) then s\<lparr>vb_seen := Some (vb_text s), vb_timer := True\<rparr> else s)
        \<lparr>vb_loops := Suc (vb_loops s)\<rparr>)"

definition vb_focus :: "vbox \<Rightarrow> vbox" where
  "vb_focus s = (if \<not> vb_bound s \<or> vb_readonly s then s else vb_look (s\<lparr>vb_validating := True, vb_seen := None\<rparr>))"

definition vb_blur :: "vbox \<Rightarrow> vbox" where
  "vb_blur s = (if \<not> vb_bound s then s else hide_tip (s\<lparr>vb_timer := False, vb_validating := False\<rparr>))"

definition vb_loop :: "vbox \<Rightarrow> vbox" where
  "vb_loop s = (if vb_loops s = 0 then s else vb_look (s\<lparr>vb_loops := vb_loops s - 1\<rparr>))"

definition vb_fire :: "vb_env \<Rightarrow> vbox \<Rightarrow> vbox option" where
  "vb_fire E s = (if vb_timer s then map_option snd (vb_check E (s\<lparr>vb_timer := False\<rparr>)) else Some s)"

definition vb_enter :: "vbox \<Rightarrow> vbox" where
  "vb_enter s = (if vb_bound s \<and> vb_invalid s then show_tip s else s)"

definition vb_leave :: "vbox \<Rightarrow> vbox" where
  "vb_leave s = (if vb_bound s \<and> \<not> vb_validating s then hide_tip s else s)"

definition vb_destroy :: "vbox \<Rightarrow> vbox" where
  "vb_destroy s = s\<lparr>vb_validating := False, vb_timer := False, vb_tip := None, vb_bound := False\<rparr>"

section \<open>The checks of a text field: \<open>_1b\<close> of the text field\<close>

text \<open>
  Before a check of a field without the focus its input gets the value, which may be hidden behind the prompt, and its own text back
  after the check; the result is shown on the field.
\<close>

definition field_validate :: "vb_env \<Rightarrow> textbox \<Rightarrow> vbox \<Rightarrow> (bool \<times> vbox) option" where
  "field_validate E b v =
     (let old = vb_text v; v = (if tx_focus b then v else v\<lparr>vb_text := tx_value b\<rparr>)
      in map_option (\<lambda>(ok, v). (ok, if tx_focus b then v else v\<lparr>vb_text := old\<rparr>)) (vb_check E v))"

section \<open>What a check finds\<close>

text \<open>The first complaint in order; a rule after it is not asked.\<close>

fun first_complaint :: "(string \<times> vparam list option \<Rightarrow> string option option) \<Rightarrow> (string \<times> vparam list option) list \<Rightarrow> string option option" where
  "first_complaint f [] = Some None"
| "first_complaint f (t # ts) = (case f t of Some None \<Rightarrow> first_complaint f ts | r \<Rightarrow> r)"

definition verdict :: "vb_env \<Rightarrow> vbox \<Rightarrow> string option option" where
  "verdict E s =
     (if vb_novalidate s \<or> vb_disabled s then Some None
      else if vb_required s \<and> vb_text s = [] then Some (Some (vb_missing s))
      else first_complaint (\<lambda>tg. rule_says E tg s) (type_list (vb_types s)))"

lemma vb_rules_first:
  "vb_rules E ts s = map_option (\<lambda>c. case c of None \<Rightarrow> (True, s) | Some m \<Rightarrow> (False, vb_fail m s)) (first_complaint (\<lambda>tg. rule_says E tg s) ts)"
proof (induction ts)
  case (Cons t ts)
  then show ?case by (auto simp: vb_rule_def split: option.split)
qed simp

text \<open>What is said depends on the options and the text only.\<close>

lemma rule_says_cong:
  "vb_text t = vb_text s \<Longrightarrow> vb_params t = vb_params s \<Longrightarrow> vb_invalidMessage t = vb_invalidMessage s \<Longrightarrow> rule_says E tg t = rule_says E tg s"
  unfolding rule_says_def by (simp only:)

lemma vb_check_verdict:
  "vb_check E s = map_option (\<lambda>c. case c of None \<Rightarrow> (True, hide_tip (s\<lparr>vb_invalid := False\<rparr>)) | Some m \<Rightarrow> (False, vb_fail m (hide_tip (s\<lparr>vb_invalid := False\<rparr>))))
     (verdict E s)"
proof -
  have "rule_says E tg (hide_tip (s\<lparr>vb_invalid := False\<rparr>)) = rule_says E tg s" for tg by (rule rule_says_cong) (simp_all add: hide_tip_def)
  then show ?thesis by (simp add: vb_check_def verdict_def vb_rules_first hide_tip_def Let_def)
qed

text \<open>
  C25: a check says what is wrong first.  When a check returns, it says yes exactly if the checks are off, or the text is there where it must be and no rule complains; if
  it says no, the field is marked and its message is the one for the missing text or of the first rule, in the order of the options, that complains; the tip
  shows that message exactly while the field has the focus; the text is left alone, and checking again gives the same.
\<close>

theorem vb_judges:
  assumes "vb_check E s = Some (ok, t)"
  shows "\<exists>c. verdict E s = Some c \<and> ok = (c = None) \<and> vb_invalid t = (c \<noteq> None) \<and> (c \<noteq> None \<longrightarrow> c = Some (vb_message t)) \<and>
    vb_tip t = (if vb_validating s then c else None) \<and> vb_text t = vb_text s \<and> vb_check E t = Some (ok, t)"
proof -
  obtain c where c: "verdict E s = Some c" "(ok, t) = (case c of None \<Rightarrow> (True, hide_tip (s\<lparr>vb_invalid := False\<rparr>))
      | Some m \<Rightarrow> (False, vb_fail m (hide_tip (s\<lparr>vb_invalid := False\<rparr>))))"
    using assms by (auto simp: vb_check_verdict)
  have t: "t = s\<lparr>vb_invalid := (c \<noteq> None), vb_message := (case c of None \<Rightarrow> vb_message s | Some m \<Rightarrow> m), vb_tip := (if vb_validating s then c else None)\<rparr>"
    using c(2) by (cases c) (simp_all add: hide_tip_def vb_fail_def show_tip_def Let_def)
  have "rule_says E tg t = rule_says E tg s" for tg by (rule rule_says_cong) (simp_all add: t)
  then have v: "verdict E t = verdict E s" by (simp add: verdict_def t)
  have okc: "ok = (c = None)" using c(2) by (cases c) simp_all
  have "hide_tip (t\<lparr>vb_invalid := False\<rparr>) = t" if "c = None" using that by (simp add: t hide_tip_def)
  moreover have "vb_fail m (hide_tip (t\<lparr>vb_invalid := False\<rparr>)) = t" if "c = Some m" for m
    using that by (simp add: t hide_tip_def vb_fail_def show_tip_def Let_def)
  ultimately have "vb_check E t = Some (ok, t)" unfolding vb_check_verdict v c(1) using okc by (cases c) simp_all
  moreover have "vb_invalid t = (c \<noteq> None) \<and> (c \<noteq> None \<longrightarrow> c = Some (vb_message t)) \<and> vb_tip t = (if vb_validating s then c else None) \<and> vb_text t = vb_text s"
    unfolding t by (cases c) simp_all
  ultimately show ?thesis using c(1) okc by blast
qed

section \<open>Text fields\<close>

text \<open>
  A text field is judged by its value, never by its prompt.  A check of a text field judges the text that its method getText gives; a field at rest that is required and
  empty is found wrong, prompt or not; and what the input shows is left as it was.
\<close>

theorem field_judges:
  assumes "at_rest b" and "vb_text v = tx_input b" and "field_validate E b v = Some (ok, w)"
  shows "\<exists>c. verdict E (v\<lparr>vb_text := get_text b\<rparr>) = Some c \<and> ok = (c = None) \<and> vb_invalid w = (\<not> ok) \<and> vb_text w = tx_input b \<and>
    (vb_required v \<and> tx_value b = [] \<and> \<not> vb_novalidate v \<and> \<not> vb_disabled v \<longrightarrow> \<not> ok \<and> vb_message w = vb_missing v)"
proof -
  have f: "\<not> tx_focus b" using assms(1) by (simp add: at_rest_def)
  obtain t where t: "vb_check E (v\<lparr>vb_text := tx_value b\<rparr>) = Some (ok, t)" "w = t\<lparr>vb_text := tx_input b\<rparr>"
    using assms(2,3) f by (auto simp: field_validate_def Let_def)
  obtain c where c: "verdict E (v\<lparr>vb_text := tx_value b\<rparr>) = Some c" "vb_check E (v\<lparr>vb_text := tx_value b\<rparr>) = Some (case c of None \<Rightarrow> (True, hide_tip (v\<lparr>vb_text := tx_value b, vb_invalid := False\<rparr>))
      | Some m \<Rightarrow> (False, vb_fail m (hide_tip (v\<lparr>vb_text := tx_value b, vb_invalid := False\<rparr>))))"
    using t(1) by (auto simp: vb_check_verdict)
  have "ok = (c = None) \<and> vb_invalid w = (\<not> ok) \<and> (c \<noteq> None \<longrightarrow> c = Some (vb_message w))"
    using c(2) t by (cases c) (auto simp: hide_tip_def vb_fail_def show_tip_def Let_def)
  moreover have "vb_required v \<and> tx_value b = [] \<and> \<not> vb_novalidate v \<and> \<not> vb_disabled v \<Longrightarrow> c = Some (vb_missing v)"
    using c(1) by (simp add: verdict_def)
  ultimately show ?thesis using c(1) t(2) f by (auto simp: get_text_def)
qed

section \<open>The loop and the timer\<close>

text \<open>
  Entering and leaving the field in quick succession starts one loop after the other: the loops that wait do not end before they look, and they find
  the field in use again.
\<close>

lemma loops_pile_up:
  assumes "vb_bound s" and "\<not> vb_readonly s"
  shows "vb_loops (((\<lambda>s. vb_blur (vb_focus s)) ^^ k) s) = k + vb_loops s \<and> vb_bound (((\<lambda>s. vb_blur (vb_focus s)) ^^ k) s)
    \<and> \<not> vb_readonly (((\<lambda>s. vb_blur (vb_focus s)) ^^ k) s)"
  using assms by (induction k) (auto simp: vb_focus_def vb_blur_def vb_look_def hide_tip_def)

text \<open>A text the loop has not seen is checked one look and one delay later.\<close>

lemma vb_catches_up:
  assumes "vb_validating s" and "vb_loops s \<noteq> 0" and "vb_seen s \<noteq> Some (vb_text s)" and "vb_fire E (vb_loop s) = Some t"
  shows "vb_text t = vb_text s \<and> verdict E s \<noteq> None \<and> vb_invalid t = (verdict E s \<noteq> Some None) \<and> \<not> vb_timer t"
proof -
  define u where "u = s\<lparr>vb_seen := Some (vb_text s), vb_timer := False\<rparr>"
  have "(vb_loop s)\<lparr>vb_timer := False\<rparr> = u" "vb_timer (vb_loop s)" using assms(1-3) by (simp_all add: vb_loop_def vb_look_def u_def)
  then obtain ok where "vb_check E u = Some (ok, t)" using assms(4) by (auto simp: vb_fire_def)
  moreover have "verdict E u = verdict E s"
  proof -
    have "rule_says E tg u = rule_says E tg s" for tg by (rule rule_says_cong) (simp_all add: u_def)
    then show ?thesis by (simp add: verdict_def u_def)
  qed
  ultimately obtain c where "verdict E s = Some c" "(ok, t) = (case c of None \<Rightarrow> (True, hide_tip (u\<lparr>vb_invalid := False\<rparr>))
      | Some m \<Rightarrow> (False, vb_fail m (hide_tip (u\<lparr>vb_invalid := False\<rparr>))))" by (auto simp: vb_check_verdict)
  then show ?thesis by (cases c) (auto simp: hide_tip_def vb_fail_def show_tip_def u_def Let_def)
qed

section \<open>Examples\<close>

definition length_env :: vb_env where
  "length_env = \<lparr>ve_rule = (\<lambda>n. if n = ''length'' then Some length_rule else None),
     ve_eval = (\<lambda>t. if t = ''[2,5]'' then Some (Some [(''2'', Fin False 2 1), (''5'', Fin False 5 1)]) else None)\<rparr>"

definition length_box :: vbox where
  "length_box = vbox_defaults\<lparr>vb_required := True, vb_types := OneType ''length[2,5]'', vb_bound := True\<rparr>"

lemma length_checks:
  "map_option (\<lambda>(ok, t). (ok, vb_message t)) (vb_check length_env (length_box\<lparr>vb_text := '' abcdef ''\<rparr>)) =
     Some (False, ''Please enter a value between 2 and 5.'')"
  "map_option fst (vb_check length_env (length_box\<lparr>vb_text := '' abcde ''\<rparr>)) = Some True"
  "map_option (\<lambda>(ok, t). (ok, vb_message t)) (vb_check length_env length_box) = Some (False, ''This field is required.'')"
  by code_simp+

theorem vb_judges_witness:
  "\<exists>t. vb_check length_env (length_box\<lparr>vb_text := ''abcdef'', vb_validating := True\<rparr>) = Some (False, t) \<and> vb_invalid t \<and> vb_tip t = Some (vb_message t)"
proof -
  let ?s = "length_box\<lparr>vb_text := ''abcdef'', vb_validating := True\<rparr>"
  have "map_option fst (vb_check length_env ?s) = Some False" by code_simp
  then obtain t where t: "vb_check length_env ?s = Some (False, t)" by auto
  have "vb_validating ?s" by simp
  with vb_judges [OF t] t show ?thesis by auto
qed

theorem field_judges_witness:
  "\<exists>w. field_validate length_env (textbox_create ''Name'' []) (length_box\<lparr>vb_text := ''Name''\<rparr>) = Some (False, w) \<and> vb_text w = ''Name'' \<and>
     vb_message w = ''This field is required.''"
proof -
  let ?b = "textbox_create ''Name'' []" and ?v = "length_box\<lparr>vb_text := ''Name''\<rparr>"
  have f: "at_rest ?b" "vb_text ?v = tx_input ?b" "map_option fst (field_validate length_env ?b ?v) = Some False" "tx_input ?b = ''Name''" "tx_value ?b = []"
    "vb_required ?v" "\<not> vb_novalidate ?v" "\<not> vb_disabled ?v" "vb_missing ?v = ''This field is required.''" by code_simp+
  then obtain w where w: "field_validate length_env ?b ?v = Some (False, w)" by auto
  from field_judges [OF f(1,2) w] f(4-9) w show ?thesis by auto
qed

text \<open>
  Leaving the field before the delay is over stops the timer, and nothing checks what was typed.  Typing back between a look and the check
  leaves the mark of a text that is not there any more: the loop has seen this one.
\<close>

lemma left_unchecked:
  "let s = vb_blur (vb_loop ((vb_focus (length_box\<lparr>vb_text := ''abc''\<rparr>))\<lparr>vb_text := ''abcdefgh''\<rparr>))
   in \<not> vb_invalid s \<and> \<not> vb_timer s \<and> map_option fst (vb_check length_env s) = Some False"
  by code_simp

lemma stale_mark:
  "let s = vb_focus (length_box\<lparr>vb_text := ''abc''\<rparr>); s = the (vb_fire length_env (s\<lparr>vb_text := ''abcdefgh''\<rparr>)); s = vb_loop (s\<lparr>vb_text := ''abc''\<rparr>)
   in vb_invalid s \<and> \<not> vb_timer s \<and> map_option fst (vb_check length_env s) = Some True"
  by code_simp

end
