(* ===== verification/Slider.thy ===== *)
theory Slider
  imports Js_Num
begin

text \<open>
  The slider, \<open>js/plugins/jquery.slider.js\<close>: one value or a range of two, set by the program or by sliding.

  The bounds and the step are integers, a step of 0 included; the values are numbers of the language, \<open>NaN\<close> among them.  The converter of the options is a parameter: the number, rounded by
  the code with \<open>toFixed(0)\<close>, that a place along the slider stands for.  Places are pixels from the start; the drawing of handles and rules is left out.
\<close>

datatype slider_event = SlChange "jnum list" "jnum list" | SlStart | SlEnd | SlDone "jnum list"

record slider =
  sl_range :: bool
  sl_min :: int
  sl_max :: int
  sl_step :: int
  sl_value :: "jnum list"
  sl_original :: "jnum list"
  sl_disabled :: bool
  sl_dragging :: bool
  sl_inputs :: "jnum list"
  sl_log :: "slider_event list"

type_synonym converter = "slider \<Rightarrow> int \<Rightarrow> jnum"

definition slider_defaults :: slider where
  "slider_defaults = \<lparr>sl_range = False, sl_min = 0, sl_max = 100, sl_step = 1, sl_value = [Fin 0], sl_original = [Fin 0], sl_disabled = False,
     sl_dragging = False, sl_inputs = [], sl_log = []\<rparr>"

definition sl_emit :: "slider_event \<Rightarrow> slider \<Rightarrow> slider" where
  "sl_emit e s = s\<lparr>sl_log := sl_log s @ [e]\<rparr>"

section \<open>Values: \<open>_22\<close>\<close>

definition sl_clamp :: "slider \<Rightarrow> jnum \<Rightarrow> jnum" where
  "sl_clamp s v =
     (let v = (if jless v (Fin (sl_min s)) then Fin (sl_min s) else v) in if jless (Fin (sl_max s)) v then Fin (sl_max s) else v)"

definition sl_put :: "jnum list \<Rightarrow> slider \<Rightarrow> slider" where
  "sl_put vs s =
     (let ws = map (sl_clamp s) vs in s\<lparr>sl_inputs := ws, sl_value := (if sl_range s then ws else take 1 ws)\<rparr>)"

text \<open>\<open>setValues\<close>, and \<open>setValue\<close> with one: the values are taken in the order they are given.\<close>

definition sl_set :: "jnum list \<Rightarrow> slider \<Rightarrow> slider" where
  "sl_set vs s =
     (let old = sl_value s; s = sl_put vs s
      in if old \<noteq> sl_inputs s then sl_emit (SlChange (sl_value s) old) s else s)"

definition sl_clear :: "slider \<Rightarrow> slider" where
  "sl_clear s = sl_set (if sl_range s then [Fin (sl_min s), Fin (sl_max s)] else [Fin (sl_min s)]) s"

definition sl_reset :: "slider \<Rightarrow> slider" where
  "sl_reset s = sl_set (sl_original s) s"

text \<open>The start: a range with one value gets the upper bound as its second; the values are set without telling.\<close>

definition sl_create :: "slider \<Rightarrow> slider" where
  "sl_create s =
     (let v = (if sl_range s \<and> length (sl_value s) < 2 then sl_value s @ [Fin (sl_max s)] else sl_value s)
      in sl_put v (s\<lparr>sl_value := v, sl_original := v\<rparr>))"

section \<open>Sliding: \<open>_1f\<close>\<close>

text \<open>The remainder of the language has the sign of the number that is divided; with 0, and of an infinity, it is \<open>NaN\<close>.\<close>

definition js_rem :: "jnum \<Rightarrow> int \<Rightarrow> jnum" where
  "js_rem x b =
     (case x of
        Fin a \<Rightarrow> if b = 0 then NaN else Fin (if a < 0 then - ((- a) mod \<bar>b\<bar>) else a mod \<bar>b\<bar>)
      | _ \<Rightarrow> NaN)"

definition jabs :: "jnum \<Rightarrow> jnum" where
  "jabs x = (case x of Fin a \<Rightarrow> Fin \<bar>a\<bar> | NaN \<Rightarrow> NaN | _ \<Rightarrow> Inf)"

definition sl_snap :: "slider \<Rightarrow> jnum \<Rightarrow> jnum" where
  "sl_snap s x =
     (let r = jabs (js_rem x (sl_step s))
      in if jless (jplus r r) (Fin (sl_step s)) then jminus x r else jplus (jminus x r) (Fin (sl_step s)))"

text \<open>A value that is not there is \<open>undefined\<close>, which compares like \<open>NaN\<close>, and is written down as such.\<close>

definition slot :: "jnum list \<Rightarrow> nat \<Rightarrow> jnum" where
  "slot xs i = (if i < length xs then xs ! i else NaN)"

definition sl_move :: "jnum \<Rightarrow> slider \<Rightarrow> slider" where
  "sl_move x s =
     (if sl_range s
      then
        let a = slot (sl_value s) 0; b = slot (sl_value s) 1
        in sl_set (if jless x a then [x, b] else if jless b x then [a, x] else if jless (jplus x x) (jplus a b) then [x, b] else [a, x]) s
      else sl_set [x] s)"

definition sl_slide :: "converter \<Rightarrow> int \<Rightarrow> slider \<Rightarrow> slider" where
  "sl_slide cv pos s = sl_move (sl_snap s (cv s pos)) s"

section \<open>The mouse: \<open>_17\<close>\<close>

definition sl_down :: "converter \<Rightarrow> int \<Rightarrow> slider \<Rightarrow> slider" where
  "sl_down cv pos s =
     (if sl_dragging s \<or> sl_disabled s then s else (let s = sl_slide cv pos s in sl_emit (SlDone (sl_value s)) s))"

definition sl_start :: "slider \<Rightarrow> slider" where
  "sl_start s = (if sl_disabled s then s else sl_emit SlStart (s\<lparr>sl_dragging := True\<rparr>))"

definition sl_drag :: "converter \<Rightarrow> int \<Rightarrow> int \<Rightarrow> slider \<Rightarrow> slider" where
  "sl_drag cv w pos s = (if \<not> sl_dragging s \<or> pos < 0 \<or> w < pos then s else sl_slide cv pos s)"

definition sl_stop :: "converter \<Rightarrow> int \<Rightarrow> slider \<Rightarrow> slider" where
  "sl_stop cv pos s =
     (if \<not> sl_dragging s then s
      else let s = sl_emit SlEnd (sl_slide cv pos s) in (sl_emit (SlDone (sl_value s)) s)\<lparr>sl_dragging := False\<rparr>)"

definition sl_enable :: "bool \<Rightarrow> slider \<Rightarrow> slider" where
  "sl_enable b s = s\<lparr>sl_disabled := \<not> b\<rparr>"

datatype slider_op = SlDown int | SlGrab | SlDrag int int | SlDrop int | SlClear | SlReset | SlEnable bool | SlSet "jnum list"

fun slider_step :: "converter \<Rightarrow> slider_op \<Rightarrow> slider \<Rightarrow> slider" where
  "slider_step cv (SlDown p) s = sl_down cv p s"
| "slider_step cv SlGrab s = sl_start s"
| "slider_step cv (SlDrag w p) s = sl_drag cv w p s"
| "slider_step cv (SlDrop p) s = sl_stop cv p s"
| "slider_step cv SlClear s = sl_clear s"
| "slider_step cv SlReset s = sl_reset s"
| "slider_step cv (SlEnable b) s = sl_enable b s"
| "slider_step cv (SlSet vs) s = sl_set vs s"

section \<open>What sliding keeps\<close>

text \<open>No value is below the one before it; a value is \<open>NaN\<close> or within the bounds.\<close>

definition ordered :: "jnum list \<Rightarrow> bool" where
  "ordered vs \<longleftrightarrow> sorted_wrt (\<lambda>x y. \<not> jless y x) vs"

definition within :: "slider \<Rightarrow> jnum \<Rightarrow> bool" where
  "within s v \<longleftrightarrow> (case v of Fin i \<Rightarrow> sl_min s \<le> i \<and> i \<le> sl_max s | NaN \<Rightarrow> True | _ \<Rightarrow> False)"

definition slider_ok :: "slider \<Rightarrow> bool" where
  "slider_ok s \<longleftrightarrow> sl_min s \<le> sl_max s \<and> length (sl_value s) = (if sl_range s then 2 else 1) \<and> ordered (sl_value s)
     \<and> list_all (within s) (sl_value s) \<and> sl_inputs s = sl_value s \<and> length (sl_original s) = length (sl_value s) \<and> ordered (sl_original s)"

text \<open>The options of the two are the same, and the values to go back to.\<close>

definition same_slider :: "slider \<Rightarrow> slider \<Rightarrow> bool" where
  "same_slider s t \<longleftrightarrow> sl_range t = sl_range s \<and> sl_min t = sl_min s \<and> sl_max t = sl_max s \<and> sl_step t = sl_step s \<and> sl_original t = sl_original s"

lemma within_cases: "within s v \<longleftrightarrow> v = NaN \<or> (\<exists>i. v = Fin i \<and> sl_min s \<le> i \<and> i \<le> sl_max s)"
  by (cases v) (simp_all add: within_def)

lemma clamp_within: "sl_min s \<le> sl_max s \<Longrightarrow> within s (sl_clamp s v)"
  by (cases v) (auto simp: sl_clamp_def within_def Let_def)

lemma clamp_NaN: "sl_clamp s v = NaN \<longleftrightarrow> v = NaN"
  by (cases v) (auto simp: sl_clamp_def Let_def)

lemma clamp_mono: "sl_min s \<le> sl_max s \<Longrightarrow> \<not> jless w v \<Longrightarrow> \<not> jless (sl_clamp s w) (sl_clamp s v)"
  by (cases v; cases w) (auto simp: sl_clamp_def Let_def)

lemma sl_emit_ok [simp]: "slider_ok (sl_emit e s) = slider_ok s" "same_slider u (sl_emit e s) = same_slider u s" "sl_value (sl_emit e s) = sl_value s"
  by (simp_all add: sl_emit_def slider_ok_def same_slider_def within_def [abs_def])

lemma slider_flags [simp]:
  "slider_ok (s\<lparr>sl_dragging := b\<rparr>) = slider_ok s" "slider_ok (s\<lparr>sl_disabled := b\<rparr>) = slider_ok s"
  "same_slider u (s\<lparr>sl_dragging := b\<rparr>) = same_slider u s" "same_slider u (s\<lparr>sl_disabled := b\<rparr>) = same_slider u s"
  by (simp_all add: slider_ok_def same_slider_def within_def [abs_def])

lemma same_slider_refl [simp]: "same_slider s s"
  by (simp add: same_slider_def)

lemma same_slider_trans: "same_slider s t \<Longrightarrow> same_slider t u \<Longrightarrow> same_slider s u"
  by (simp add: same_slider_def)

lemma sl_put_ok:
  assumes "sl_min s \<le> sl_max s" and "length vs = (if sl_range s then 2 else 1)" and "ordered vs"
    and "length (sl_original s) = length vs" and "ordered (sl_original s)"
  shows "slider_ok (sl_put vs s)"
proof -
  have "ordered (map (sl_clamp s) vs)"
    using assms(3) clamp_mono [OF assms(1)] unfolding ordered_def sorted_wrt_map by (rule sorted_wrt_mono_rel [rotated])
  moreover have "within (s\<lparr>sl_inputs := x, sl_value := y\<rparr>) = within s" for x y by (simp add: within_def [abs_def])
  ultimately show ?thesis using assms clamp_within [OF assms(1)] by (auto simp: sl_put_def slider_ok_def list_all_iff Let_def)
qed

lemma sl_set_ok: "slider_ok s \<Longrightarrow> length vs = length (sl_value s) \<Longrightarrow> ordered vs \<Longrightarrow> slider_ok (sl_set vs s)"
proof -
  assume "slider_ok s" "length vs = length (sl_value s)" "ordered vs"
  then have "slider_ok (sl_put vs s)" by (intro sl_put_ok) (simp_all add: slider_ok_def)
  then show ?thesis by (simp add: sl_set_def Let_def)
qed

lemma sl_set_same [simp]: "same_slider u (sl_set vs s) = same_slider u s"
  by (simp add: sl_set_def sl_put_def Let_def) (simp add: same_slider_def)

lemma sl_set_values: "sl_value (sl_set vs s) = (if sl_range s then map (sl_clamp s) vs else take 1 (map (sl_clamp s) vs))"
  by (simp add: sl_set_def sl_put_def Let_def)

lemma set_numbers: "NaN \<notin> set vs \<Longrightarrow> NaN \<notin> set (sl_value (sl_set vs s))"
proof -
  assume n: "NaN \<notin> set vs"
  have "sl_clamp s v \<noteq> NaN" if "v \<in> set vs" for v
  proof -
    have "v \<noteq> NaN" using that n by blast
    then show ?thesis by (simp only: clamp_NaN not_False_eq_True)
  qed
  then have "NaN \<notin> set (map (sl_clamp s) vs)" by force
  moreover have "set (take 1 (map (sl_clamp s) vs)) \<subseteq> set (map (sl_clamp s) vs)" by (rule set_take_subset)
  ultimately show ?thesis by (auto simp only: sl_set_values split: if_split)
qed

lemma value_parts: "slider_ok s \<Longrightarrow> sl_range s \<Longrightarrow> \<exists>a b. sl_value s = [a, b] \<and> \<not> jless b a"
  by (auto simp: slider_ok_def ordered_def numeral_2_eq_2 length_Suc_conv)

lemma sl_move_ok: "slider_ok s \<Longrightarrow> slider_ok (sl_move x s)"
proof -
  assume ok: "slider_ok s"
  show ?thesis
  proof (cases "sl_range s")
    case True
    obtain a b where v: "sl_value s = [a, b]" "\<not> jless b a" using value_parts [OF ok True] by blast
    have "\<not> jless b x" if "jless x a"
      using that v(2) by (cases x; cases a; cases b) auto
    then have "ordered (if jless x a then [x, b] else if jless b x then [a, x] else if jless (jplus x x) (jplus a b) then [x, b] else [a, x])"
      by (simp add: ordered_def)
    then show ?thesis using v True ok by (auto simp: sl_move_def slot_def Let_def intro!: sl_set_ok split del: if_split) (auto split: if_splits)
  next
    case False
    then have "length (sl_value s) = 1" using ok by (simp add: slider_ok_def)
    then show ?thesis using sl_set_ok [OF ok, of "[x]"] False by (simp add: sl_move_def ordered_def)
  qed
qed

lemma sl_move_same [simp]: "same_slider u (sl_move x s) = same_slider u s"
  by (simp add: sl_move_def Let_def)

lemma sl_move_numbers:
  assumes "slider_ok s" and "NaN \<notin> set (sl_value s)" and "x \<noteq> NaN"
  shows "NaN \<notin> set (sl_value (sl_move x s))"
proof (cases "sl_range s")
  case True
  obtain a b where v: "sl_value s = [a, b]" using value_parts [OF assms(1) True] by blast
  then have "a \<noteq> NaN" "b \<noteq> NaN" using assms(2) by auto
  then show ?thesis using True v assms(3) by (auto simp: sl_move_def slot_def Let_def set_numbers)
next
  case False
  then show ?thesis using assms(3) by (simp add: sl_move_def set_numbers)
qed

lemma snap_number: "sl_step s \<noteq> 0 \<Longrightarrow> sl_snap s (Fin c) \<noteq> NaN"
  by (simp add: sl_snap_def js_rem_def jabs_def Let_def)

text \<open>What the program may set: as many values as the slider has, in order.\<close>

definition fits :: "slider \<Rightarrow> slider_op \<Rightarrow> bool" where
  "fits s p \<longleftrightarrow> (case p of SlSet vs \<Rightarrow> length vs = (if sl_range s then 2 else 1) \<and> ordered vs | _ \<Rightarrow> True)"

lemma slider_step_ok:
  assumes "slider_ok s" and "fits s p"
  shows "slider_ok (slider_step cv p s) \<and> same_slider s (slider_step cv p s)"
proof -
  have v: "length (sl_value s) = (if sl_range s then 2 else 1)" "sl_min s \<le> sl_max s" "length (sl_original s) = length (sl_value s)" "ordered (sl_original s)"
    using assms(1) by (simp_all add: slider_ok_def)
  show ?thesis
  proof (cases p)
    case SlClear
    then show ?thesis using sl_set_ok [OF assms(1)] v by (simp add: sl_clear_def ordered_def)
  next
    case SlReset
    then show ?thesis using sl_set_ok [OF assms(1) v(3,4)] by (simp add: sl_reset_def)
  next
    case (SlSet vs)
    then show ?thesis using sl_set_ok [OF assms(1), of vs] v(1) assms(2) by (simp add: fits_def)
  qed (use assms(1) in \<open>simp_all add: sl_down_def sl_drag_def sl_slide_def sl_move_ok sl_start_def sl_stop_def sl_enable_def Let_def\<close>)
qed

lemma slider_step_numbers:
  assumes "slider_ok s" and "NaN \<notin> set (sl_value s)" and "NaN \<notin> set (sl_original s)" and "sl_step s \<noteq> 0" and "\<And>u i. \<exists>c. cv u i = Fin c"
    and "\<And>vs. p = SlSet vs \<Longrightarrow> NaN \<notin> set vs"
  shows "NaN \<notin> set (sl_value (slider_step cv p s))"
proof -
  have m: "NaN \<notin> set (sl_value (sl_slide cv i s))" for i
  proof -
    obtain c where "cv s i = Fin c" using assms(5) by blast
    then show ?thesis using sl_move_numbers [OF assms(1,2) snap_number [OF assms(4)]] by (simp add: sl_slide_def)
  qed
  have d: "sl_value (s\<lparr>sl_dragging := b\<rparr>) = sl_value s" for s :: slider and b by simp
  show ?thesis
  proof (cases p)
    case SlClear
    then show ?thesis by (simp add: sl_clear_def set_numbers)
  next
    case SlReset
    then show ?thesis using assms(3) by (simp add: sl_reset_def set_numbers)
  next
    case (SlSet vs)
    then show ?thesis using assms(6) by (simp add: set_numbers)
  qed (use assms(2) m in \<open>simp_all add: sl_down_def sl_drag_def sl_start_def sl_stop_def sl_enable_def Let_def d\<close>)
qed

lemma slider_run_ok:
  assumes "slider_ok s" and "\<forall>p\<in>set ps. fits s p"
  shows "slider_ok (fold (slider_step cv) ps s) \<and>
    (NaN \<notin> set (sl_value s) \<union> set (sl_original s) \<and> sl_step s \<noteq> 0 \<and> (\<forall>u i. \<exists>c. cv u i = Fin c) \<and> (\<forall>vs. SlSet vs \<in> set ps \<longrightarrow> NaN \<notin> set vs)
      \<longrightarrow> NaN \<notin> set (sl_value (fold (slider_step cv) ps s)))"
  using assms
proof (induction ps arbitrary: s)
  case (Cons p ps)
  let ?t = "slider_step cv p s"
  have t: "slider_ok ?t" "same_slider s ?t" using slider_step_ok [of s p cv] Cons.prems by simp_all
  have "fits ?t q = fits s q" for q using t(2) by (simp add: fits_def same_slider_def split: slider_op.split)
  note IH = Cons.IH [OF t(1), unfolded this]
  have "NaN \<notin> set (sl_value ?t)"
    if "NaN \<notin> set (sl_value s) \<union> set (sl_original s)" "sl_step s \<noteq> 0" "\<forall>u i. \<exists>c. cv u i = Fin c" "\<forall>vs. SlSet vs \<in> set (p # ps) \<longrightarrow> NaN \<notin> set vs"
    using that Cons.prems(1) by (intro slider_step_numbers) auto
  then show ?case using IH Cons.prems(2) t(2) by (auto simp: same_slider_def)
qed simp

text \<open>
  C26: a slider keeps its range.  Whatever the converter, and however it is pressed, dragged, dropped, cleared, reset, disabled, enabled and set by the program to as many values as it has, in order,
  a slider created with its bounds in order and its values in order keeps one or two values, as its options say, in order, and sends exactly those.  Each is within the bounds
  or \<open>NaN\<close>; if the step is not 0, the converter gives finite numbers and neither the options nor the program give \<open>NaN\<close>, none is \<open>NaN\<close>.
\<close>

theorem slider_range:
  assumes "sl_min s \<le> sl_max s" and "ordered (sl_value s)"
    and "if sl_range s then length (sl_value s) \<in> {1, 2} \<and> \<not> jless (Fin (sl_max s)) (last (sl_value s)) else length (sl_value s) = 1"
    and "\<forall>vs. SlSet vs \<in> set ps \<longrightarrow> length vs = (if sl_range s then 2 else 1) \<and> ordered vs" and "t = fold (slider_step cv) ps (sl_create s)"
  shows "length (sl_value t) = (if sl_range s then 2 else 1) \<and> ordered (sl_value t) \<and> sl_inputs t = sl_value t \<and>
    (\<forall>v\<in>set (sl_value t). v = NaN \<or> (\<exists>i. v = Fin i \<and> sl_min s \<le> i \<and> i \<le> sl_max s)) \<and>
    (sl_step s \<noteq> 0 \<and> (\<forall>u p. \<exists>c. cv u p = Fin c) \<and> NaN \<notin> set (sl_value s) \<and> (\<forall>vs. SlSet vs \<in> set ps \<longrightarrow> NaN \<notin> set vs) \<longrightarrow> NaN \<notin> set (sl_value t))"
proof -
  let ?v = "if sl_range s \<and> length (sl_value s) < 2 then sl_value s @ [Fin (sl_max s)] else sl_value s"
  let ?u = "s\<lparr>sl_value := ?v, sl_original := ?v\<rparr>"
  have c: "sl_create s = sl_put ?v ?u" by (simp add: sl_create_def Let_def)
  have v: "length ?v = (if sl_range s then 2 else 1)" "ordered ?v"
    using assms(2,3) by (cases "sl_value s"; cases "tl (sl_value s)"; auto simp: ordered_def split: if_splits)+
  have ok: "slider_ok (sl_create s)" unfolding c by (rule sl_put_ok) (use assms(1) v in simp_all)
  have o: "sl_original (sl_create s) = ?v" "sl_range (sl_create s) = sl_range s" "sl_step (sl_create s) = sl_step s"
    "sl_min (sl_create s) = sl_min s" "sl_max (sl_create s) = sl_max s" by (simp_all add: c sl_put_def Let_def)
  have f: "\<forall>p\<in>set ps. fits (sl_create s) p" using assms(4) o(2) by (auto simp: fits_def split: slider_op.split)
  have st: "same_slider (sl_create s) t" unfolding assms(5) using ok f
  proof (induction ps rule: rev_induct)
    case (snoc p ps)
    then have "same_slider (sl_create s) (fold (slider_step cv) ps (sl_create s))" "fits (fold (slider_step cv) ps (sl_create s)) p"
      by (auto simp: fits_def same_slider_def split: slider_op.split)
    moreover have "slider_ok (fold (slider_step cv) ps (sl_create s))" using slider_run_ok [OF ok, of ps cv] snoc.prems by simp
    ultimately show ?case using slider_step_ok same_slider_trans by simp
  qed simp
  have nn: "NaN \<notin> set (sl_value (sl_create s)) \<union> set (sl_original (sl_create s))" if "NaN \<notin> set (sl_value s)"
  proof -
    have n: "NaN \<notin> set ?v" using that by auto
    have "sl_value (sl_create s) = sl_value (sl_set ?v ?u)" by (simp add: c sl_set_def sl_put_def sl_emit_def Let_def)
    then show ?thesis using set_numbers [OF n, of ?u] n unfolding o(1) by simp
  qed
  note r = slider_run_ok [OF ok f, of cv, folded assms(5)]
  have e: "sl_range t = sl_range s" "sl_min t = sl_min s" "sl_max t = sl_max s" using st o by (simp_all add: same_slider_def)
  have tok: "slider_ok t" using r by blast
  have "\<forall>v\<in>set (sl_value t). v = NaN \<or> (\<exists>i. v = Fin i \<and> sl_min s \<le> i \<and> i \<le> sl_max s)"
    using tok unfolding slider_ok_def list_all_iff within_cases e by blast
  moreover have "length (sl_value t) = (if sl_range s then 2 else 1)" "ordered (sl_value t)" "sl_inputs t = sl_value t"
    using tok e by (simp_all add: slider_ok_def)
  moreover note r [THEN conjunct2] nn
  ultimately show ?thesis unfolding o(3) by blast
qed

text \<open>
  The handle that is nearer moves.  A number from zero on is taken to the nearest multiple of the step, up from the middle; in a range it takes the place of the handle it is nearer to (of
  the upper one from the middle), and the other one stays where it is.
\<close>

theorem slider_nearest:
  assumes "slider_ok s" and "sl_range s" and "sl_value s = [Fin a, Fin b]" and "0 < sl_step s" and "cv s pos = Fin c" and "0 \<le> c"
  shows "\<exists>x. sl_step s dvd x \<and> 2 * \<bar>x - c\<bar> \<le> sl_step s \<and>
    sl_value (sl_slide cv pos s) = (if \<bar>x - a\<bar> < \<bar>x - b\<bar> \<or> x < a then [sl_clamp s (Fin x), Fin b] else [Fin a, sl_clamp s (Fin x)])"
proof -
  let ?d = "sl_step s"
  define x where "x = (if 2 * (c mod ?d) < ?d then c - c mod ?d else c - c mod ?d + ?d)"
  have r: "0 \<le> c mod ?d" "c mod ?d < ?d" using assms(4) by simp_all
  have m: "c - c mod ?d = ?d * (c div ?d)" by (simp add: minus_mod_eq_mult_div)
  have sn: "sl_snap s (cv s pos) = Fin x" using assms(4-6) r by (simp add: sl_snap_def js_rem_def jabs_def x_def Let_def)
  have "?d dvd x" unfolding x_def m by simp
  moreover have "2 * \<bar>x - c\<bar> \<le> ?d" using r by (simp add: x_def abs_if)
  moreover have ab: "sl_clamp s (Fin a) = Fin a" "sl_clamp s (Fin b) = Fin b" "a \<le> b"
    using assms(1,3) by (auto simp: slider_ok_def sl_clamp_def within_def ordered_def)
  have "(x < a \<or> \<not> b < x \<and> 2 * x < a + b) = (\<bar>x - a\<bar> < \<bar>x - b\<bar> \<or> x < a)" using ab(3) by arith
  then have "sl_value (sl_slide cv pos s) = (if \<bar>x - a\<bar> < \<bar>x - b\<bar> \<or> x < a then [sl_clamp s (Fin x), Fin b] else [Fin a, sl_clamp s (Fin x)])"
    using assms(2,3) ab by (auto simp: sl_slide_def sn sl_move_def sl_set_values slot_def Let_def)
  ultimately show ?thesis by blast
qed

section \<open>Examples\<close>

definition price_slider :: slider where
  "price_slider = sl_create (slider_defaults\<lparr>sl_range := True, sl_step := 5, sl_value := [Fin 10]\<rparr>)"

theorem slider_range_witness:
  "sl_value (fold (slider_step (\<lambda>_ p. Fin p)) [SlDown 43, SlSet [Fin 20, Inf], SlGrab, SlDrag 100 7, SlDrop 200, SlReset]
     (sl_create (slider_defaults\<lparr>sl_range := True, sl_value := [Fin 10]\<rparr>))) = [Fin 10, Fin 100] \<and> ordered [Fin 10, Fin 100]"
proof -
  let ?s = "slider_defaults\<lparr>sl_range := True, sl_value := [Fin 10]\<rparr>"
  let ?ps = "[SlDown 43, SlSet [Fin 20, Inf], SlGrab, SlDrag 100 7, SlDrop 200, SlReset]"
  have v: "sl_value (fold (slider_step (\<lambda>_ p. Fin p)) ?ps (sl_create ?s)) = [Fin 10, Fin 100]" by code_simp
  have "ordered (sl_value (fold (slider_step (\<lambda>_ p. Fin p)) ?ps (sl_create ?s)))"
    by (rule slider_range [THEN conjunct2, THEN conjunct1, OF _ _ _ _ refl]) (auto simp: slider_defaults_def ordered_def)
  then show ?thesis unfolding v by simp
qed

theorem slider_nearest_witness: "sl_value (sl_slide (\<lambda>_ p. Fin p) 43 price_slider) = [Fin 45, Fin 100]"
proof -
  have f: "slider_ok price_slider" "sl_range price_slider" "sl_value price_slider = [Fin 10, Fin 100]" "0 < sl_step price_slider"
    "sl_step price_slider = 5" "sl_min price_slider = 0" "sl_max price_slider = 100"
    by (simp_all add: price_slider_def sl_create_def slider_defaults_def sl_put_def sl_clamp_def slider_ok_def ordered_def within_def Let_def)
  from slider_nearest [OF f(1-4), of "\<lambda>_ p. Fin p" 43 43] obtain x where x: "5 dvd x" "2 * \<bar>x - 43\<bar> \<le> 5"
    "sl_value (sl_slide (\<lambda>_ p. Fin p) 43 price_slider) =
       (if \<bar>x - 10\<bar> < \<bar>x - 100\<bar> \<or> x < 10 then [sl_clamp price_slider (Fin x), Fin 100] else [Fin 10, sl_clamp price_slider (Fin x)])"
    by (auto simp: f(5))
  from x(2) have "41 \<le> x" "x \<le> 45" by (simp_all add: abs_if split: if_splits)
  with x(1) have "x = 45" by presburger
  then show ?thesis using x(3) f(6,7) by (simp add: sl_clamp_def)
qed

text \<open>
  Below zero the remainder has the sign of the number, and the nearest multiple is missed: -7 is not taken to -5 but to -9.  With a step of 0 the value becomes
  \<open>NaN\<close>.  The program can set values that are not in order.
\<close>

lemma snap_below_zero: "sl_snap (slider_defaults\<lparr>sl_min := -100, sl_step := 5\<rparr>) (Fin (-7)) = Fin (-9)"
  by code_simp

lemma step_zero: "sl_value (sl_slide (\<lambda>_ p. Fin p) 43 (slider_defaults\<lparr>sl_step := 0\<rparr>)) = [NaN]"
  by code_simp

lemma set_unordered: "sl_value (sl_set [Fin 80, Fin 20] price_slider) = [Fin 80, Fin 20]"
  by code_simp

end
