(* ===== verification/Treegrid.thy ===== *)
theory Treegrid
  imports Tr_Insert Dg_Load
begin

text \<open>
  The tree grid, \<open>js/plugins/jquery.treegrid.js\<close>: the grid whose rows are a forest.

  Rows are objects with an identifier (a number from one on; 0 stands for none, \<open>null\<close> and \<open>undefined\<close>), \<open>_parentId\<close>, \<open>state\<close>, the array
  \<open>children\<close> (which may be missing) and the values of the columns.  The elements are a forest too: the row element with what stands before the
  title in the tree column, and the row \<open>treegrid-tr-tree\<close> below it that holds its children.  Elements are found by identifier.  Requests wait in a list until
  they are answered.  Selection and editing are the grid's; animations end at once; sizes are left out.  \<open>None\<close> is an exception.
\<close>

section \<open>State\<close>

record trow =
  rw_id :: nat
  rw_parent :: nat
  rw_state :: "bool option"
  rw_array :: bool
  rw_vals :: row

text \<open>
  A row element: indents, the hit (expanded or not), the folder icon, whether it is open; the row below with the request that made it
  and whether it is shown; stripe and number; guide lines, at the spans of the columns in \<open>vr_lines\<close>.
\<close>

record vrow =
  vr_id :: nat
  vr_vals :: row
  vr_indent :: nat
  vr_hit :: "bool option"
  vr_folder :: bool
  vr_open :: bool
  vr_sub :: "(nat option \<times> bool) option"
  vr_alt :: bool
  vr_num :: nat
  vr_lines :: "nat set"
  vr_join :: bool
  vr_bottom :: bool
  vr_last :: bool
  vr_root :: "bool option"

type_synonym tdata = "trow rose list"
type_synonym tview = "vrow rose list"

datatype tinput = Rows tdata | Table int tdata

datatype tg_event = TgLoad nat | TgError | TgExpand nat | TgCollapse nat

datatype tg_ask = TgBeforeLoad nat | TgBeforeExpand nat | TgBeforeCollapse nat

record tg_env =
  te_allows :: "tg_ask \<Rightarrow> bool"
  te_filter :: "nat \<Rightarrow> tinput \<Rightarrow> tinput"
  te_url :: bool
  te_column :: "string \<Rightarrow> (jsval \<Rightarrow> jsval \<Rightarrow> int) option"

record tg_request =
  tq_row :: nat
  tq_param :: nat
  tq_page :: "(int \<times> int) option"
  tq_sort :: "(string \<times> string) option"
  tq_append :: bool
  tq_sub :: "nat option"

record treegrid =
  tg_data :: tdata
  tg_view :: tview
  tg_total :: "int option"
  tg_pager :: "int option"
  tg_pagination :: bool
  tg_pageNumber :: int
  tg_pageSize :: int
  tg_sortName :: string
  tg_sortOrder :: string
  tg_remoteSort :: bool
  tg_param :: nat
  tg_lines :: bool
  tg_striped :: bool
  tg_rownumbers :: bool
  tg_requests :: "tg_request list"
  tg_next :: nat
  tg_log :: "tg_event list"

definition treegrid_defaults :: treegrid where
  "treegrid_defaults = \<lparr>tg_data = [], tg_view = [], tg_total = None, tg_pager = Some 1, tg_pagination = False, tg_pageNumber = 1, tg_pageSize = 10,
     tg_sortName = [], tg_sortOrder = ''asc'', tg_remoteSort = True, tg_param = 0, tg_lines = False, tg_striped = False, tg_rownumbers = False,
     tg_requests = [], tg_next = 0, tg_log = []\<rparr>"

definition default_tg_env :: tg_env where
  "default_tg_env = \<lparr>te_allows = (\<lambda>_. True), te_filter = (\<lambda>_ d. d), te_url = True, te_column = (\<lambda>_. Some default_sorter)\<rparr>"

definition tg_emit :: "tg_event \<Rightarrow> treegrid \<Rightarrow> treegrid" where
  "tg_emit e s = s\<lparr>tg_log := tg_log s @ [e]\<rparr>"

section \<open>Finding rows\<close>

text \<open>\<open>_37\<close>: a queue of lists, from the roots on.\<close>

lemma kids_lists: "sum_list (map (\<lambda>c. Suc (size_list size c)) (map kids c)) < Suc (size_list size c)"
proof (induction c)
  case (Cons t c)
  then show ?case by (cases t) simp
qed simp

function bfs :: "('a \<Rightarrow> bool) \<Rightarrow> 'a rose list list \<Rightarrow> 'a rose option" where
  "bfs P [] = None"
| "bfs P (c # cc) = (case List.find (\<lambda>t. P (lab t)) c of Some t \<Rightarrow> Some t | None \<Rightarrow> bfs P (cc @ map kids c))"
  by pat_completeness auto
termination
  by (relation "measure (\<lambda>(P, cc). sum_list (map (\<lambda>c. Suc (size_list size c)) cc))") (use kids_lists in auto)

definition tg_find :: "tdata \<Rightarrow> nat \<Rightarrow> trow rose option" where
  "tg_find D n = bfs (\<lambda>r. rw_id r = n) [D]"

text \<open>\<open>_4c\<close>: for a row that is not there the code reads a property of \<open>null\<close>.\<close>

definition parent_of :: "tdata \<Rightarrow> nat \<Rightarrow> trow rose option option" where
  "parent_of D n =
     map_option (\<lambda>t. if rw_parent (lab t) = 0 then None else tg_find D (rw_parent (lab t))) (tg_find D n)"

text \<open>\<open>_1b\<close>: the children of a row are looked up by its identifier again.\<close>

definition kids_at :: "tdata \<Rightarrow> nat \<Rightarrow> tdata" where
  "kids_at D n = (case tg_find D n of None \<Rightarrow> [] | Some t \<Rightarrow> kids t)"

partial_function (option) descendants :: "tdata \<Rightarrow> tdata \<Rightarrow> trow list option" where
  "descendants D todo =
     (case todo of
        [] \<Rightarrow> Some []
      | t # ts \<Rightarrow> Option.bind (descendants D (kids_at D (rw_id (lab t)) @ ts)) (\<lambda>l. Some (lab t # l)))"

declare descendants.simps [code]

definition rows_below :: "tdata \<Rightarrow> nat \<Rightarrow> trow list option" where
  "rows_below D n = descendants D (if n = 0 then D else kids_at D n)"

partial_function (option) ancestors :: "tdata \<Rightarrow> nat \<Rightarrow> nat list option" where
  "ancestors D n =
     (case parent_of D n of
        None \<Rightarrow> None
      | Some None \<Rightarrow> Some []
      | Some (Some p) \<Rightarrow> Option.bind (ancestors D (rw_id (lab p))) (\<lambda>l. Some (l @ [rw_id (lab p)])))"

declare ancestors.simps [code]

definition row_elem :: "tview \<Rightarrow> nat \<Rightarrow> vrow rose option" where
  "row_elem V n = find_node (\<lambda>v. vr_id v = n) V"

text \<open>\<open>_59\<close>: the spans before the icon.\<close>

definition spans :: "vrow \<Rightarrow> nat" where
  "spans v = vr_indent v + (if vr_hit v = None then 0 else 1)"

definition row_level :: "tview \<Rightarrow> nat \<Rightarrow> nat" where
  "row_level V n = (if n = 0 then 0 else case row_elem V n of None \<Rightarrow> 0 | Some t \<Rightarrow> spans (lab t))"

definition tg_leaf :: "treegrid \<Rightarrow> nat \<Rightarrow> bool" where
  "tg_leaf s n = (case row_elem (tg_view s) n of None \<Rightarrow> True | Some t \<Rightarrow> vr_hit (lab t) = None)"

definition mark_row :: "nat \<Rightarrow> (vrow \<Rightarrow> vrow) \<Rightarrow> tview \<Rightarrow> tview" where
  "mark_row n f = relabel (\<lambda>v. if vr_id v = n then f v else v)"

definition upd_view :: "nat \<Rightarrow> (vrow \<Rightarrow> vrow) \<Rightarrow> treegrid \<Rightarrow> treegrid" where
  "upd_view n f s = s\<lparr>tg_view := mark_row n f (tg_view s)\<rparr>"

definition upd_data :: "nat \<Rightarrow> (trow \<Rightarrow> trow) \<Rightarrow> treegrid \<Rightarrow> treegrid" where
  "upd_data n f s = s\<lparr>tg_data := relabel (\<lambda>r. if rw_id r = n then f r else r) (tg_data s)\<rparr>"

definition kids_data :: "nat \<Rightarrow> (tdata \<Rightarrow> tdata) \<Rightarrow> treegrid \<Rightarrow> treegrid" where
  "kids_data n h s = s\<lparr>tg_data := set_kids (\<lambda>r. rw_id r = n) h (tg_data s)\<rparr>"

definition kids_view :: "nat \<Rightarrow> (tview \<Rightarrow> tview) \<Rightarrow> treegrid \<Rightarrow> treegrid" where
  "kids_view n h s = s\<lparr>tg_view := set_kids (\<lambda>v. vr_id v = n) h (tg_view s)\<rparr>"

section \<open>Guide lines: \<open>_96\<close>\<close>

text \<open>Only indents lose their classes: a hit keeps the join it was given.\<close>

definition clear_lines :: "vrow \<Rightarrow> vrow" where
  "clear_lines v =
     (let v = v\<lparr>vr_lines := {}, vr_last := False, vr_root := None\<rparr>
      in if vr_hit v = None then v\<lparr>vr_join := False, vr_bottom := False\<rparr> else v)"

definition mark_roots :: "tdata \<Rightarrow> tview \<Rightarrow> tview" where
  "mark_roots D V =
     (case D of [] \<Rightarrow> V | t # ts \<Rightarrow> mark_row (rw_id (lab t)) (\<lambda>v. v\<lparr>vr_root := Some (ts = [])\<rparr>) V)"

definition mark_last :: "tdata \<Rightarrow> tview \<Rightarrow> tview" where
  "mark_last ts V =
     (if ts = [] then V
      else mark_row (rw_id (lab (last ts)))
        (\<lambda>v. v\<lparr>vr_last := True, vr_join := False, vr_bottom := vr_bottom v \<or> vr_join v\<rparr>) V)"

fun join_each :: "tdata \<Rightarrow> tview \<Rightarrow> tview" where
  "join_each [] V = V"
| "join_each (Rose r cs # ts) V =
     join_each ts
       (if cs = [] then mark_row (rw_id r) (\<lambda>v. v\<lparr>vr_join := True\<rparr>) V else mark_last cs (join_each cs V))"

definition line_below :: "trow rose \<Rightarrow> tview \<Rightarrow> tview" where
  "line_below t V =
     (let k = row_level V (rw_id (lab t)) - 1
      in set_kids (\<lambda>v. vr_id v = rw_id (lab t)) (relabel (\<lambda>v. v\<lparr>vr_lines := insert k (vr_lines v)\<rparr>)) V)"

definition line_rows :: "tdata \<Rightarrow> tview \<Rightarrow> tview" where
  "line_rows ts V = fold line_below (butlast ts) V"

fun line_each :: "tdata \<Rightarrow> tview \<Rightarrow> tview" where
  "line_each [] V = V"
| "line_each (Rose r cs # ts) V = line_each ts (if cs = [] then V else line_rows cs (line_each cs V))"

definition draw_lines :: "tdata \<Rightarrow> tview \<Rightarrow> tview" where
  "draw_lines D V =
     (let V = mark_roots D (relabel clear_lines V); V = mark_last D (join_each D V) in line_rows D (line_each D V))"

definition show_lines :: "treegrid \<Rightarrow> treegrid" where
  "show_lines s = (if tg_lines s then s\<lparr>tg_view := draw_lines (tg_data s) (tg_view s)\<rparr> else s)"

text \<open>\<open>_1f\<close>: the numbers of the rows, in the order they stand.\<close>

fun number_rows :: "nat \<Rightarrow> tview \<Rightarrow> tview" where
  "number_rows k [] = []"
| "number_rows k (Rose v cs # ts) =
     Rose (v\<lparr>vr_num := k\<rparr>) (number_rows (Suc k) cs) # number_rows (Suc k + length (labels cs)) ts"

definition fix_numbers :: "treegrid \<Rightarrow> treegrid" where
  "fix_numbers s = (if tg_rownumbers s then s\<lparr>tg_view := number_rows 1 (tg_view s)\<rparr> else s)"

section \<open>Rendering\<close>

definition face_row :: "nat \<Rightarrow> trow \<Rightarrow> tdata \<Rightarrow> vrow \<Rightarrow> vrow" where
  "face_row lvl r cs v =
     (let v = v\<lparr>vr_id := rw_id r, vr_vals := rw_vals r, vr_indent := lvl, vr_lines := {}, vr_join := False, vr_bottom := False,
        vr_last := False, vr_root := None\<rparr>
      in if rw_state r = Some False then v\<lparr>vr_hit := Some False, vr_folder := True, vr_open := False\<rparr>
         else if cs \<noteq> [] then v\<lparr>vr_hit := Some True, vr_folder := True, vr_open := True\<rparr>
         else v\<lparr>vr_indent := Suc lvl, vr_hit := None, vr_folder := False, vr_open := False\<rparr>)"

definition new_row :: vrow where
  "new_row = \<lparr>vr_id = 0, vr_vals = (\<lambda>_. VUndef), vr_indent = 0, vr_hit = None, vr_folder = False, vr_open = False, vr_sub = None, vr_alt = False,
     vr_num = 0, vr_lines = {}, vr_join = False, vr_bottom = False, vr_last = False, vr_root = None\<rparr>"

text \<open>The stripes go on from the rows that stand in the list before these.\<close>

definition stripe_base :: "tdata \<Rightarrow> tdata \<Rightarrow> int" where
  "stripe_base D ts =
     (case ts of
        [] \<Rightarrow> 0
      | t # _ \<Rightarrow> int (case parent_of D (rw_id (lab t)) of Some (Some p) \<Rightarrow> length (kids p) | _ \<Rightarrow> length D) - int (length ts))"

fun render_rows :: "bool \<Rightarrow> tdata \<Rightarrow> nat \<Rightarrow> int \<Rightarrow> tdata \<Rightarrow> tview" where
  "render_rows striped D lvl k [] = []"
| "render_rows striped D lvl k (Rose r cs # ts) =
     Rose (face_row lvl r cs (new_row\<lparr>vr_alt := striped \<and> odd k, vr_sub := if cs = [] then None else Some (None, rw_state r \<noteq> Some False)\<rparr>))
       (render_rows striped D (Suc lvl) (stripe_base D cs) cs) # render_rows striped D lvl (k + 1) ts"

definition open_states :: "tdata \<Rightarrow> tdata" where
  "open_states = relabel (\<lambda>r. if rw_state r = None then r\<lparr>rw_state := Some True\<rparr> else r)"

section \<open>Taking data: \<open>onBeforeRender\<close>\<close>

fun adopt :: "nat \<Rightarrow> tdata \<Rightarrow> tdata" where
  "adopt p [] = []"
| "adopt p (Rose r cs # ts) = Rose (r\<lparr>rw_parent := p\<rparr>) (adopt (rw_id r) cs) # adopt p ts"

text \<open>
  \<open>transfer\<close>: flat rows become a forest.  The queue holds the rows whose children are still to be looked for; each takes its own
  out of the rows that are left, and they join the queue.  The result is the queue with all the children that were found.
\<close>

function gather :: "tdata \<Rightarrow> tdata \<Rightarrow> tdata" where
  "gather rows [] = []"
| "gather rows (n # q) =
     (let mine = filter (\<lambda>t. rw_parent (lab t) = rw_id (lab n)) rows;
          rest = filter (\<lambda>t. rw_parent (lab t) \<noteq> rw_id (lab n)) rows;
          done = gather rest (q @ mine)
      in Rose (if mine = [] then lab n else (lab n)\<lparr>rw_array := True\<rparr>) (kids n @ drop (length q) done) # take (length q) done)"
  by pat_completeness auto
termination
proof (relation "measure (\<lambda>(rows, q). length rows + length q)", simp)
  fix rows q :: tdata and n :: "trow rose" and mine rest
  assume "mine = filter (\<lambda>t. rw_parent (lab t) = rw_id (lab n)) rows" "rest = filter (\<lambda>t. rw_parent (lab t) \<noteq> rw_id (lab n)) rows"
  then have "length mine + length rest = length rows" by (simp add: sum_length_filter_compl)
  then show "((rest, q @ mine), rows, n # q) \<in> measure (\<lambda>(rows, q). length rows + length q)" by simp
qed

definition transfer :: "nat \<Rightarrow> tdata \<Rightarrow> tdata" where
  "transfer p rows =
     gather (filter (\<lambda>t. rw_parent (lab t) \<noteq> p) rows) (filter (\<lambda>t. rw_parent (lab t) = p) rows)"

text \<open>The local sort: the children of every row, and the list itself.\<close>

fun tg_cmp :: "tg_env \<Rightarrow> string list \<Rightarrow> string list \<Rightarrow> trow \<Rightarrow> trow \<Rightarrow> int option" where
  "tg_cmp E [] os a b = Some 0"
| "tg_cmp E (n # ns) os a b =
     (case te_column E n of
        None \<Rightarrow> None
      | Some f \<Rightarrow>
          let r = f (rw_vals a n) (rw_vals b n) * (case os of [] \<Rightarrow> -1 | x # _ \<Rightarrow> if x = ''asc'' then 1 else -1)
          in if r \<noteq> 0 then Some r else tg_cmp E ns (drop 1 os) a b)"

fun sort_deep :: "(trow \<Rightarrow> trow \<Rightarrow> int option) \<Rightarrow> tdata \<Rightarrow> tdata option" where
  "sort_deep c [] = Some []"
| "sort_deep c (Rose r cs # ts) =
     Option.bind (Option.bind (sort_deep c cs) (js_sort (\<lambda>a b. c (lab a) (lab b))))
       (\<lambda>cs. map_option (Cons (Rose r cs)) (sort_deep c ts))"

text \<open>The rows as they stand in the list they were added to, and as they are drawn.\<close>

definition sort_new :: "tg_env \<Rightarrow> treegrid \<Rightarrow> tdata \<Rightarrow> (tdata \<times> tdata) option" where
  "sort_new E s ts =
     (if \<not> tg_remoteSort s \<and> tg_sortName s \<noteq> []
      then
        let c = tg_cmp E (js_split (CHR '','') (tg_sortName s)) (js_split (CHR '','') (tg_sortOrder s))
        in Option.bind (sort_deep c ts) (\<lambda>us. map_option (Pair us) (js_sort (\<lambda>a b. c (lab a) (lab b)) us))
      else Some (ts, ts))"

section \<open>Loading: \<open>_2f\<close> and \<open>_15\<close>\<close>

definition clear_rows :: "nat \<Rightarrow> treegrid \<Rightarrow> treegrid" where
  "clear_rows p s =
     (if tg_find (tg_data s) p = None then s\<lparr>tg_data := [], tg_view := []\<rparr>
      else upd_data p (\<lambda>r. r\<lparr>rw_array := True\<rparr>) (kids_data p (\<lambda>_. []) (kids_view p (\<lambda>_. []) s)))"

definition take_input :: "nat \<Rightarrow> tinput \<Rightarrow> treegrid \<Rightarrow> tdata \<times> treegrid" where
  "take_input p d s =
     (case d of
        Rows ts \<Rightarrow> (adopt p ts, s)
      | Table n ts \<Rightarrow> (transfer p ts, if n = 0 then s else s\<lparr>tg_total := Some n\<rparr>))"

text \<open>An array \<open>children\<close> that was missing is the sorted one itself, otherwise a copy made before the sort.\<close>

definition add_rows :: "nat \<Rightarrow> tdata \<Rightarrow> tdata \<Rightarrow> treegrid \<Rightarrow> treegrid" where
  "add_rows p kept us s =
     (case tg_find (tg_data s) p of
        None \<Rightarrow> s\<lparr>tg_data := tg_data s @ kept\<rparr>
      | Some t \<Rightarrow> upd_data p (\<lambda>r. r\<lparr>rw_array := True\<rparr>) (kids_data p (\<lambda>cs. cs @ (if rw_array (lab t) then kept else us)) s))"

text \<open>Rows of a row without a row below it are drawn nowhere.\<close>

definition draw_rows :: "nat \<Rightarrow> tdata \<Rightarrow> treegrid \<Rightarrow> treegrid" where
  "draw_rows p us s =
     (let D = tg_data s; vs = render_rows (tg_striped s) D (row_level (tg_view s) p) (stripe_base D us) us
      in if tg_find D p = None then s\<lparr>tg_view := tg_view s @ vs\<rparr>
         else s\<lparr>tg_view := set_kids (\<lambda>v. vr_id v = p \<and> vr_sub v \<noteq> None) (\<lambda>cs. cs @ vs) (tg_view s)\<rparr>)"

definition tg_loaded :: "nat \<Rightarrow> treegrid \<Rightarrow> treegrid" where
  "tg_loaded p s =
     (let s = (if p = 0 \<and> tg_pagination s then s\<lparr>tg_pager := tg_total s\<rparr> else s) in tg_emit (TgLoad p) (show_lines (fix_numbers s)))"

definition load_rows :: "tg_env \<Rightarrow> nat \<Rightarrow> tinput \<Rightarrow> bool \<Rightarrow> treegrid \<Rightarrow> treegrid option" where
  "load_rows E p d app s =
     (let s = (if app then s else clear_rows p s); (ts, s) = take_input p (te_filter E p d) s
      in map_option (\<lambda>(kept, us). tg_loaded p (draw_rows p (open_states us) (add_rows p (open_states kept) (open_states us) s)))
           (sort_new E s ts))"

definition ask_rows :: "tg_env \<Rightarrow> nat \<Rightarrow> nat option \<Rightarrow> bool \<Rightarrow> nat option \<Rightarrow> treegrid \<Rightarrow> treegrid" where
  "ask_rows E p q app sub s =
     (let s = (case q of None \<Rightarrow> s | Some q \<Rightarrow> s\<lparr>tg_param := q\<rparr>)
      in if \<not> te_allows E (TgBeforeLoad p) \<or> \<not> te_url E then s
         else s\<lparr>tg_requests := tg_requests s @ [\<lparr>tq_row = p, tq_param = tg_param s,
           tq_page = (if tg_pagination s then Some (tg_pageNumber s, tg_pageSize s) else None),
           tq_sort = (if tg_sortName s = [] then None else Some (tg_sortName s, tg_sortOrder s)), tq_append = app, tq_sub = sub\<rparr>]\<rparr>)"

section \<open>Expanding and collapsing: \<open>_68\<close>, \<open>_64\<close>\<close>

definition open_sub :: "nat \<Rightarrow> treegrid \<Rightarrow> treegrid" where
  "open_sub n s =
     tg_emit (TgExpand n)
       (upd_view n (\<lambda>v. v\<lparr>vr_sub := map_option (\<lambda>(k, _). (k, True)) (vr_sub v)\<rparr>) (upd_data n (\<lambda>r. r\<lparr>rw_state := Some True\<rparr>) s))"

definition tg_expand :: "tg_env \<Rightarrow> nat \<Rightarrow> treegrid \<Rightarrow> treegrid option" where
  "tg_expand E n s =
     (case row_elem (tg_view s) n of
        None \<Rightarrow> Some s
      | Some t \<Rightarrow>
          if vr_hit (lab t) \<noteq> Some False \<or> \<not> te_allows E (TgBeforeExpand n) then Some s
          else if tg_find (tg_data s) n = None then None
          else
            let s = upd_view n (\<lambda>v. v\<lparr>vr_hit := Some True, vr_open := True\<rparr>) s
            in if vr_sub (lab t) \<noteq> None then Some (open_sub n s)
               else
                 let k = tg_next s
                 in Some (ask_rows E n (Some n) True (Some k) (upd_view n (\<lambda>v. v\<lparr>vr_sub := Some (Some k, False)\<rparr>) (s\<lparr>tg_next := Suc k\<rparr>))))"

definition tg_collapse :: "tg_env \<Rightarrow> nat \<Rightarrow> treegrid \<Rightarrow> treegrid option" where
  "tg_collapse E n s =
     (case row_elem (tg_view s) n of
        None \<Rightarrow> Some s
      | Some t \<Rightarrow>
          if vr_hit (lab t) \<noteq> Some True \<or> \<not> te_allows E (TgBeforeCollapse n) then Some s
          else if tg_find (tg_data s) n = None then None
          else Some (tg_emit (TgCollapse n)
            (upd_view n (\<lambda>v. v\<lparr>vr_hit := Some False, vr_open := False, vr_sub := map_option (\<lambda>(k, _). (k, False)) (vr_sub v)\<rparr>)
              (upd_data n (\<lambda>r. r\<lparr>rw_state := Some False\<rparr>) s))))"

definition tg_toggle :: "tg_env \<Rightarrow> nat \<Rightarrow> treegrid \<Rightarrow> treegrid option" where
  "tg_toggle E n s =
     (case row_elem (tg_view s) n of
        Some t \<Rightarrow> if vr_hit (lab t) = Some True then tg_collapse E n s else tg_expand E n s
      | None \<Rightarrow> tg_expand E n s)"

fun each_row :: "(nat \<Rightarrow> treegrid \<Rightarrow> treegrid option) \<Rightarrow> nat list \<Rightarrow> treegrid \<Rightarrow> treegrid option" where
  "each_row f [] s = Some s"
| "each_row f (n # ns) s = Option.bind (f n s) (each_row f ns)"

definition all_rows :: "tdata \<Rightarrow> nat \<Rightarrow> nat list option" where
  "all_rows D n =
     Option.bind (rows_below D n)
       (\<lambda>l. if n = 0 then Some (map rw_id l) else map_option (\<lambda>t. rw_id (lab t) # map rw_id l) (tg_find D n))"

definition collapse_rows :: "tg_env \<Rightarrow> nat \<Rightarrow> treegrid \<Rightarrow> treegrid option" where
  "collapse_rows E n s = Option.bind (all_rows (tg_data s) n) (\<lambda>ns. each_row (tg_collapse E) ns s)"

definition expand_rows :: "tg_env \<Rightarrow> nat \<Rightarrow> treegrid \<Rightarrow> treegrid option" where
  "expand_rows E n s = Option.bind (all_rows (tg_data s) n) (\<lambda>ns. each_row (tg_expand E) ns s)"

definition expand_path :: "tg_env \<Rightarrow> nat \<Rightarrow> treegrid \<Rightarrow> treegrid option" where
  "expand_path E n s = Option.bind (ancestors (tg_data s) n) (\<lambda>ns. each_row (tg_expand E) ns s)"

text \<open>
  The answer to the request at \<open>i\<close>: data, or an error; then the row below that was waiting is shown, or dropped if it is empty.  If that row was taken out of the page
  meanwhile, what the code does to it there, and tells if rows had been appended to it before, is left out.
\<close>

definition end_loading :: "nat \<Rightarrow> treegrid \<Rightarrow> treegrid" where
  "end_loading k s =
     (case find_node (\<lambda>v. map_option fst (vr_sub v) = Some (Some k)) (tg_view s) of
        None \<Rightarrow> s
      | Some t \<Rightarrow> if kids t = [] then upd_view (vr_id (lab t)) (\<lambda>v. v\<lparr>vr_sub := None\<rparr>) s else open_sub (vr_id (lab t)) s)"

definition tg_answer :: "tg_env \<Rightarrow> nat \<Rightarrow> tinput option \<Rightarrow> treegrid \<Rightarrow> treegrid option" where
  "tg_answer E i a s =
     (if length (tg_requests s) \<le> i then Some s
      else
        let q = tg_requests s ! i; s = s\<lparr>tg_requests := splice_del i (tg_requests s)\<rparr>
        in map_option (\<lambda>s. case tq_sub q of None \<Rightarrow> s | Some k \<Rightarrow> end_loading k s)
             (case a of None \<Rightarrow> Some (tg_emit TgError s) | Some d \<Rightarrow> load_rows E (tq_row q) d (tq_append q) s))"

section \<open>Changing rows: \<open>_80\<close>, \<open>_86\<close>, \<open>_92\<close>, \<open>updateRow\<close>\<close>

definition as_folder :: "vrow \<Rightarrow> vrow" where
  "as_folder v =
     (let v = (if vr_sub v = None then v\<lparr>vr_sub := Some (None, True)\<rparr> else v)
      in if vr_folder v then v
         else v\<lparr>vr_folder := True, vr_open := True, vr_hit := Some True, vr_indent := vr_indent v - 1, vr_join := False, vr_bottom := False\<rparr>)"

definition tg_append :: "tg_env \<Rightarrow> nat \<Rightarrow> tdata \<Rightarrow> treegrid \<Rightarrow> treegrid option" where
  "tg_append E p ts s = load_rows E p (Rows ts) True (if p = 0 then s else upd_view p as_folder s)"

definition place_last :: "bool \<Rightarrow> ('a \<Rightarrow> nat) \<Rightarrow> nat \<Rightarrow> 'a rose list \<Rightarrow> 'a rose list" where
  "place_last front key d cs =
     (case index_where (\<lambda>t. key (lab t) = d) cs of
        None \<Rightarrow> cs
      | Some i \<Rightarrow> let j = (if front then i else Suc i) in butlast (take j cs @ last cs # drop j cs))"

definition move_row :: "bool \<Rightarrow> nat \<Rightarrow> nat \<Rightarrow> tview \<Rightarrow> tview" where
  "move_row front d n V =
     (case row_elem V n of None \<Rightarrow> V | Some t \<Rightarrow> put_beside front vr_id d [t] (kill vr_id n V))"

definition tg_insert :: "tg_env \<Rightarrow> bool \<Rightarrow> nat \<Rightarrow> trow rose \<Rightarrow> treegrid \<Rightarrow> treegrid option" where
  "tg_insert E front d t s =
     Option.bind (parent_of (tg_data s) d)
       (\<lambda>po. let p = (case po of None \<Rightarrow> 0 | Some u \<Rightarrow> rw_id (lab u))
             in map_option
               (\<lambda>s. let s = (case po of None \<Rightarrow> s\<lparr>tg_data := place_last front rw_id d (tg_data s)\<rparr>
                               | Some _ \<Rightarrow> kids_data p (place_last front rw_id d) s);
                        s = s\<lparr>tg_view := move_row front d (rw_id (lab t)) (tg_view s)\<rparr>
                    in show_lines (fix_numbers s))
               (tg_append E p [t] s))"

definition as_leaf :: "vrow \<Rightarrow> vrow" where
  "as_leaf v = v\<lparr>vr_sub := None, vr_folder := False, vr_hit := None, vr_indent := Suc (vr_indent v), vr_join := False, vr_bottom := False,
     vr_lines := Suc ` vr_lines v\<rparr>"

definition cut_row :: "nat \<Rightarrow> trow rose option \<Rightarrow> treegrid \<Rightarrow> treegrid option" where
  "cut_row n po s =
     (case po of
        None \<Rightarrow> Some (s\<lparr>tg_data := drop_key rw_id n (tg_data s)\<rparr>)
      | Some u \<Rightarrow>
          if \<not> rw_array (lab u) then None
          else
            let p = rw_id (lab u); s = kids_data p (drop_key rw_id n) s
            in Some (if drop_key rw_id n (kids u) = [] then upd_view p as_leaf (kids_view p (\<lambda>_. []) s) else s))"

definition tg_remove :: "nat \<Rightarrow> treegrid \<Rightarrow> treegrid option" where
  "tg_remove n s =
     Option.bind (parent_of (tg_data s) n)
       (\<lambda>po. map_option
          (\<lambda>s. let s = fix_numbers s; s = s\<lparr>tg_total := map_option (\<lambda>k. k - 1) (tg_total s)\<rparr> in show_lines (s\<lparr>tg_pager := tg_total s\<rparr>))
          (cut_row n po (s\<lparr>tg_view := kill vr_id n (tg_view s)\<rparr>)))"

definition tg_update :: "nat \<Rightarrow> (trow \<Rightarrow> trow) \<Rightarrow> treegrid \<Rightarrow> treegrid option" where
  "tg_update n f s =
     map_option (\<lambda>t. upd_view n (face_row (row_level (tg_view s) n - 1) (f (lab t)) (kids t)) (upd_data n f s)) (tg_find (tg_data s) n)"

section \<open>Requests of the program\<close>

definition tg_reload :: "tg_env \<Rightarrow> nat \<Rightarrow> treegrid \<Rightarrow> treegrid option" where
  "tg_reload E n s =
     (if n = 0 then Some (ask_rows E 0 (Some 0) False None s)
      else if tg_find (tg_data s) n = None then None
      else
        let s = kids_view n (\<lambda>_. []) (kids_data n (\<lambda>_. []) (s\<lparr>tg_param := n\<rparr>))
        in tg_expand E n (upd_view n (\<lambda>v. v\<lparr>vr_sub := None, vr_hit := map_option (\<lambda>_. False) (vr_hit v)\<rparr>) s))"

definition tg_load :: "tg_env \<Rightarrow> nat \<Rightarrow> treegrid \<Rightarrow> treegrid option" where
  "tg_load E n s = tg_reload E n (s\<lparr>tg_pageNumber := 1\<rparr>)"

definition tg_page :: "tg_env \<Rightarrow> int \<Rightarrow> int \<Rightarrow> treegrid \<Rightarrow> treegrid" where
  "tg_page E k m s = ask_rows E 0 None False None (s\<lparr>tg_pageNumber := k, tg_pageSize := m\<rparr>)"

definition tg_sort :: "tg_env \<Rightarrow> string \<Rightarrow> string \<Rightarrow> treegrid \<Rightarrow> treegrid option" where
  "tg_sort E n ord s =
     (let s = s\<lparr>tg_sortName := n, tg_sortOrder := ord\<rparr>
      in if tg_remoteSort s then Some (ask_rows E 0 None False None s) else load_rows E 0 (Rows (tg_data s)) False s)"

definition tg_create :: "tg_env \<Rightarrow> tinput option \<Rightarrow> treegrid \<Rightarrow> treegrid option" where
  "tg_create E d s =
     map_option (ask_rows E 0 None False None) (case d of None \<Rightarrow> Some s | Some d \<Rightarrow> load_rows E 0 d False s)"

end
