(* ===== verification/Tg_Forest.thy ===== *)
theory Tg_Forest
  imports Treegrid
begin

text \<open>
  The forest of the tree grid: what its searches find, what \<open>transfer\<close> makes of flat rows, and that the row elements
  follow the rows.
\<close>

section \<open>Finding\<close>

lemma nodes_unique:
  assumes "distinct (map key (labels ts))" and "t \<in> set (nodes ts)" and "u \<in> set (nodes ts)" and "key (lab t) = key (lab u)"
  shows "t = u"
proof -
  have "distinct (map (\<lambda>t. key (lab t)) (nodes ts))" using assms(1) by (simp add: labels_nodes comp_def)
  then show ?thesis using assms(2-4) by (auto simp: distinct_map dest: inj_onD)
qed

lemma nodes_roots: "set ts \<subseteq> set (nodes ts)"
proof
  fix t assume "t \<in> set ts"
  then show "t \<in> set (nodes ts)" by (induction ts rule: nodes.induct) auto
qed

lemma nodes_below: "t \<in> set (nodes ts) \<Longrightarrow> set (nodes (kids t)) \<subseteq> set (nodes ts)"
  by (induction ts rule: forest_induct) auto

lemma nodes_in: "x \<in> set (labels ts) \<longleftrightarrow> (\<exists>t\<in>set (nodes ts). lab t = x)"
  by (auto simp: labels_nodes)

lemma nodes_concat: "nodes (concat cc) = concat (map nodes cc)"
  by (induction cc) simp_all

lemma nodes_rest: "set (nodes (concat (map kids c))) \<subseteq> set (nodes c)" and nodes_first: "set (nodes c) \<subseteq> set c \<union> set (nodes (concat (map kids c)))"
  by (induction c rule: nodes.induct) (auto simp: nodes_concat)

lemma bfs_Some: "bfs P cc = Some t \<Longrightarrow> P (lab t) \<and> t \<in> set (nodes (concat cc))"
proof (induction P cc rule: bfs.induct)
  case (2 P c cc)
  show ?case
  proof (cases "List.find (\<lambda>t. P (lab t)) c")
    case None
    then show ?thesis using 2 nodes_rest [of c] by auto
  next
    case (Some u)
    then have "P (lab u)" "u \<in> set c" by (auto simp: find_Some_iff)
    then show ?thesis using Some 2(2) nodes_roots [of c] by auto
  qed
qed simp

lemma bfs_None: "bfs P cc = None \<Longrightarrow> t \<in> set (nodes (concat cc)) \<Longrightarrow> \<not> P (lab t)"
proof (induction P cc rule: bfs.induct)
  case (2 P c cc)
  then have f: "List.find (\<lambda>t. P (lab t)) c = None" "bfs P (cc @ map kids c) = None" by (auto split: option.splits)
  then have "\<forall>t\<in>set c. \<not> P (lab t)" by (auto simp: find_None_iff)
  then show ?case using 2 f nodes_first [of c] by auto
qed simp

lemma node_found: "find_node P ts = Some t \<Longrightarrow> P (lab t) \<and> t \<in> set (nodes ts)"
  by (auto simp: find_node_eq find_Some_iff)

lemma node_missing: "find_node P ts = None \<longleftrightarrow> (\<forall>x\<in>set (labels ts). \<not> P x)"
  by (auto simp: find_node_eq find_None_iff labels_nodes)

lemma node_at: "distinct (map key (labels ts)) \<Longrightarrow> t \<in> set (nodes ts) \<Longrightarrow> find_node (\<lambda>x. key x = key (lab t)) ts = Some t"
proof (cases "find_node (\<lambda>x. key x = key (lab t)) ts")
  case None
  assume "t \<in> set (nodes ts)"
  then show ?thesis using None by (auto simp: node_missing labels_nodes)
next
  case (Some u)
  assume "distinct (map key (labels ts))" "t \<in> set (nodes ts)"
  then show ?thesis using node_found [OF Some] Some nodes_unique by blast
qed

definition rids :: "tdata \<Rightarrow> nat list" where
  "rids ts = map rw_id (labels ts)"

lemma rids_simps [simp]:
  "rids [] = []" "rids (Rose r cs # ts) = rw_id r # rids cs @ rids ts" "rids (ts @ us) = rids ts @ rids us"
  by (simp_all add: rids_def)

lemma tg_find_node: "distinct (rids D) \<Longrightarrow> tg_find D n = find_node (\<lambda>r. rw_id r = n) D"
proof (cases "bfs (\<lambda>r. rw_id r = n) [D]")
  case None
  then have "find_node (\<lambda>r. rw_id r = n) D = None" using bfs_None [OF None] by (auto simp: node_missing labels_nodes)
  then show ?thesis using None by (simp add: tg_find_def)
next
  case (Some t)
  assume "distinct (rids D)"
  then show ?thesis using bfs_Some [OF Some] node_at [of rw_id D t] Some by (auto simp: tg_find_def rids_def)
qed

lemma kids_at_node: "distinct (rids D) \<Longrightarrow> t \<in> set (nodes D) \<Longrightarrow> kids_at D (rw_id (lab t)) = kids t"
  using node_at [of rw_id D t] by (simp add: kids_at_def tg_find_node rids_def)

lemma descendants_labels:
  assumes "distinct (rids D)"
  shows "set todo \<subseteq> set (nodes D) \<Longrightarrow> descendants D todo = Some (labels todo)"
proof (induction "length (labels todo)" arbitrary: todo rule: less_induct)
  case less
  show ?case
  proof (cases todo)
    case Nil
    then show ?thesis by (subst descendants.simps) simp
  next
    case (Cons t ts)
    then have t: "t \<in> set (nodes D)" "set ts \<subseteq> set (nodes D)" using less.prems by auto
    have l: "labels todo = lab t # labels (kids t @ ts)" using Cons by (cases t) simp
    have "descendants D (kids t @ ts) = Some (labels (kids t @ ts))"
      using l t nodes_below [OF t(1)] nodes_roots [of "kids t"] by (intro less.hyps) auto
    then show ?thesis using Cons l kids_at_node [OF assms t(1)] by (subst descendants.simps) simp
  qed
qed

lemma rows_below_labels:
  assumes "distinct (rids D)"
  shows "rows_below D 0 = Some (labels D)"
    and "t \<in> set (nodes D) \<Longrightarrow> rw_id (lab t) \<noteq> 0 \<Longrightarrow> rows_below D (rw_id (lab t)) = Some (labels (kids t))"
  using descendants_labels [OF assms, of D] descendants_labels [OF assms, of "kids t"] kids_at_node [OF assms, of t]
    nodes_below [of t D] nodes_roots [of D] nodes_roots [of "kids t"] by (auto simp: rows_below_def)

text \<open>\<open>_parentId\<close> says where a row stands.\<close>

fun kin :: "tdata \<Rightarrow> bool" where
  "kin [] \<longleftrightarrow> True"
| "kin (Rose r cs # ts) \<longleftrightarrow> (\<forall>t\<in>set cs. rw_parent (lab t) = rw_id r) \<and> kin cs \<and> kin ts"

definition under :: "nat \<Rightarrow> tdata \<Rightarrow> bool" where
  "under p ts \<longleftrightarrow> kin ts \<and> (\<forall>t\<in>set ts. rw_parent (lab t) = p)"

lemma kin_append [simp]: "kin (ts @ us) \<longleftrightarrow> kin ts \<and> kin us"
  by (induction ts rule: kin.induct) auto

lemma under_simps [simp]:
  "under p []" "under p (Rose r cs # ts) \<longleftrightarrow> rw_parent r = p \<and> under (rw_id r) cs \<and> under p ts" "under p (ts @ us) \<longleftrightarrow> under p ts \<and> under p us"
  by (auto simp: under_def)

lemma under_kids: "under p ts \<Longrightarrow> t \<in> set (nodes ts) \<Longrightarrow> under (rw_id (lab t)) (kids t)"
  by (induction ts arbitrary: p rule: forest_induct) auto

lemma path_found:
  assumes "path_to P ts = Some q"
  shows "\<exists>t\<in>set (nodes ts). find_node P ts = Some t \<and> (if q = [] then t \<in> set ts else \<exists>u\<in>set (nodes ts). lab u = last q \<and> t \<in> set (kids u))"
  using assms
proof (induction ts arbitrary: q rule: forest_induct)
  case (Rose x cs ts)
  show ?case
  proof (cases "P x")
    case True
    then show ?thesis using Rose.prems by simp
  next
    case nx: False
    show ?thesis
    proof (cases "path_to P cs")
      case None
      then have "find_node P cs = None" by (auto simp: path_to_None node_missing)
      then show ?thesis using Rose.IH(2) [of q] Rose.prems nx None by (auto split: if_splits)
    next
      case (Some q')
      then have q: "q = x # q'" using Rose.prems nx by simp
      from Rose.IH(1) [OF Some] obtain t where t: "t \<in> set (nodes cs)" "find_node P cs = Some t"
        "if q' = [] then t \<in> set cs else \<exists>u\<in>set (nodes cs). lab u = last q' \<and> t \<in> set (kids u)" by blast
      show ?thesis
      proof (cases "q' = []")
        case True
        then have "lab (Rose x cs) = last q \<and> t \<in> set (kids (Rose x cs))" using t(3) q by simp
        then show ?thesis using t nx q by (intro bexI [of _ t]) (auto intro!: bexI [of _ "Rose x cs"])
      qed (use t nx q in auto)
    qed
  qed
qed simp

lemma path_upper:
  assumes "distinct (map key (labels ts))" and "path_to (\<lambda>x. key x = n) ts = Some (q @ [x])"
  shows "path_to (\<lambda>y. key y = key x) ts = Some q"
  using assms
proof (induction ts arbitrary: q rule: forest_induct)
  case (Rose y cs ts)
  have ny: "key y \<noteq> n" using Rose.prems(2) by auto
  show ?case
  proof (cases "path_to (\<lambda>x. key x = n) cs")
    case None
    then have p: "path_to (\<lambda>x. key x = n) ts = Some (q @ [x])" using Rose.prems(2) ny by simp
    then have "x \<in> set (labels ts)" using path_to_labels by fastforce
    then have x: "key x \<in> key ` set (labels ts)" by simp
    then have "key y \<noteq> key x" using Rose.prems(1) by auto
    moreover have "path_to (\<lambda>z. key z = key x) cs = None" using x Rose.prems(1) unfolding path_to_None by force
    ultimately show ?thesis using Rose.IH(2) [OF _ p] Rose.prems(1) by simp
  next
    case (Some r)
    then have q: "q @ [x] = y # r" using Rose.prems(2) ny by simp
    show ?thesis
    proof (cases q)
      case Nil
      then show ?thesis using q by simp
    next
      case (Cons z w)
      then have w: "r = w @ [x]" "z = y" using q by auto
      then have "x \<in> set (labels cs)" using path_to_labels [OF Some] by auto
      then have "key y \<noteq> key x" using Rose.prems(1) by (auto simp: image_iff)
      then show ?thesis using Rose.IH(1) [of w] Some w Cons Rose.prems(1) by simp
    qed
  qed
qed simp

lemma parent_path:
  assumes "distinct (rids D)" and "0 \<notin> set (rids D)" and "under 0 D" and "path_to (\<lambda>r. rw_id r = n) D = Some q"
  shows "parent_of D n = Some (if q = [] then None else find_node (\<lambda>r. rw_id r = rw_id (last q)) D)"
    and "q \<noteq> [] \<Longrightarrow> \<exists>u\<in>set (nodes D). find_node (\<lambda>r. rw_id r = rw_id (last q)) D = Some u \<and> lab u = last q"
proof -
  from path_found [OF assms(4)] obtain t where t: "find_node (\<lambda>r. rw_id r = n) D = Some t"
    "if q = [] then t \<in> set D else \<exists>u\<in>set (nodes D). lab u = last q \<and> t \<in> set (kids u)" by blast
  have f: "find_node (\<lambda>r. rw_id r = rw_id (lab u)) D = Some u" if "u \<in> set (nodes D)" for u
    using node_at [of rw_id D u] that assms(1) by (simp add: rids_def)
  show "q \<noteq> [] \<Longrightarrow> \<exists>u\<in>set (nodes D). find_node (\<lambda>r. rw_id r = rw_id (last q)) D = Some u \<and> lab u = last q" using t(2) f by fastforce
  show "parent_of D n = Some (if q = [] then None else find_node (\<lambda>r. rw_id r = rw_id (last q)) D)"
  proof (cases "q = []")
    case True
    then show ?thesis using t assms(1,3) by (auto simp: parent_of_def tg_find_node under_def)
  next
    case False
    then obtain u where u: "u \<in> set (nodes D)" "lab u = last q" "t \<in> set (kids u)" using t(2) by auto
    have "rw_parent (lab t) = rw_id (lab u)" using under_kids [OF assms(3) u(1)] u(3) by (simp add: under_def)
    moreover have "rw_id (lab u) \<noteq> 0" using u(1) assms(2) by (metis nodes_in image_eqI list.set_map rids_def)
    ultimately show ?thesis using t(1) False assms(1) u(2) by (simp add: parent_of_def tg_find_node)
  qed
qed

lemma ancestors_path:
  assumes "distinct (rids D)" and "0 \<notin> set (rids D)" and "under 0 D"
  shows "path_to (\<lambda>r. rw_id r = n) D = Some q \<Longrightarrow> ancestors D n = Some (map rw_id q)"
proof (induction q arbitrary: n rule: rev_induct)
  case Nil
  then show ?case using parent_path(1) [OF assms Nil] by (subst ancestors.simps) simp
next
  case (snoc x q)
  from parent_path [OF assms snoc.prems] obtain u where u: "find_node (\<lambda>r. rw_id r = rw_id x) D = Some u" "lab u = x"
    "parent_of D n = Some (Some u)" by auto
  have "path_to (\<lambda>r. rw_id r = rw_id x) D = Some q"
    using path_upper [of rw_id D n q x] assms(1) snoc.prems by (simp add: rids_def)
  then show ?case using snoc.IH u by (subst ancestors.simps) simp
qed

section \<open>Flat rows: \<open>transfer\<close>\<close>

definition arrays :: "tdata \<Rightarrow> bool" where
  "arrays ts \<longleftrightarrow> (\<forall>t\<in>set (nodes ts). kids t \<noteq> [] \<longrightarrow> rw_array (lab t))"

lemma arrays_simps [simp]:
  "arrays []" "arrays (Rose r cs # ts) \<longleftrightarrow> (cs \<noteq> [] \<longrightarrow> rw_array r) \<and> arrays cs \<and> arrays ts" "arrays (ts @ us) \<longleftrightarrow> arrays ts \<and> arrays us"
  by (auto simp: arrays_def)

definition flat :: "tdata \<Rightarrow> bool" where
  "flat ts \<longleftrightarrow> (\<forall>t\<in>set ts. kids t = [])"

lemma flat_simps [simp]: "flat []" "flat (t # ts) \<longleftrightarrow> kids t = [] \<and> flat ts" "flat (ts @ us) \<longleftrightarrow> flat ts \<and> flat us"
  by (auto simp: flat_def)

lemma flat_filter: "flat ts \<Longrightarrow> flat (filter P ts)"
  by (auto simp: flat_def)

lemma rids_split: "mset (rids (filter (\<lambda>t. \<not> P t) ts)) + mset (rids (filter P ts)) = mset (rids ts)"
proof (induction ts)
  case (Cons t ts)
  have c: "rids (t # us) = rids [t] @ rids us" for us using rids_simps(3) [of "[t]" us] by simp
  show ?case
  proof (cases "P t")
    case True
    then show ?thesis using Cons.IH c [of "filter P ts"] c [of ts] by simp
  next
    case False
    then show ?thesis using Cons.IH c [of "filter (\<lambda>t. \<not> P t) ts"] c [of ts] by simp
  qed
qed simp

lemma gather_facts:
  assumes "flat rows" and "flat q"
  shows "length (gather rows q) = length q
     \<and> map (\<lambda>t. (rw_id (lab t), rw_parent (lab t))) (gather rows q) = map (\<lambda>t. (rw_id (lab t), rw_parent (lab t))) q
     \<and> kin (gather rows q) \<and> arrays (gather rows q) \<and> mset (rids (gather rows q)) \<subseteq># mset (rids (rows @ q))"
  using assms
proof (induction rows q rule: gather.induct)
  case (2 rows n q)
  define mine where "mine = filter (\<lambda>t. rw_parent (lab t) = rw_id (lab n)) rows"
  define rest where "rest = filter (\<lambda>t. rw_parent (lab t) \<noteq> rw_id (lab n)) rows"
  define full where "full = gather rest (q @ mine)"
  let ?key = "\<lambda>t. (rw_id (lab t), rw_parent (lab t))"
  have ih: "length full = length q + length mine" "map ?key full = map ?key (q @ mine)" "kin full" "arrays full"
    "mset (rids full) \<subseteq># mset (rids (rest @ q @ mine))"
    using "2.IH" [OF mine_def rest_def] "2.prems" flat_filter [of rows] by (auto simp: full_def mine_def rest_def)
  have e: "gather rows (n # q) = Rose (if mine = [] then lab n else (lab n)\<lparr>rw_array := True\<rparr>) (drop (length q) full) # take (length q) full"
    using "2.prems" by (simp add: mine_def rest_def full_def Let_def)
  have d: "map ?key (drop (length q) full) = map ?key mine" "map ?key (take (length q) full) = map ?key q"
    using ih(2) by (simp_all add: take_map [symmetric] drop_map [symmetric])
  have p: "\<forall>t\<in>set (drop (length q) full). rw_parent (lab t) = rw_id (lab n)"
  proof
    fix t assume "t \<in> set (drop (length q) full)"
    then have "?key t \<in> set (map ?key mine)" unfolding d(1) [symmetric] by auto
    then show "rw_parent (lab t) = rw_id (lab n)" by (auto simp: mine_def)
  qed
  have k: "kin (take (length q) full)" "kin (drop (length q) full)" "arrays (take (length q) full)" "arrays (drop (length q) full)"
    using ih(3,4) kin_append [of "take (length q) full" "drop (length q) full"] arrays_simps(3) [of "take (length q) full" "drop (length q) full"] by simp_all
  have m: "mset (rids full) = mset (rids (take (length q) full)) + mset (rids (drop (length q) full))"
    using rids_simps(3) [of "take (length q) full" "drop (length q) full"] by simp
  have f: "mset (rids rest) + mset (rids mine) = mset (rids rows)"
    using rids_split [of "\<lambda>t. rw_parent (lab t) = rw_id (lab n)" rows] by (simp add: mine_def rest_def)
  have n: "rids (n # q) = rw_id (lab n) # rids q" using "2.prems" by (cases n) simp
  have "mset (rids (gather rows (n # q))) = add_mset (rw_id (lab n)) (mset (rids full))"
    unfolding e using m by simp
  also have "\<dots> \<subseteq># add_mset (rw_id (lab n)) (mset (rids (rest @ q @ mine)))" using ih(5) by simp
  also have "\<dots> = mset (rids (rows @ n # q))" using f n by (simp add: ac_simps flip: f)
  finally have "mset (rids (gather rows (n # q))) \<subseteq># mset (rids (rows @ n # q))" .
  moreover have "drop (length q) full = [] \<or> mine \<noteq> []" using ih(1) by auto
  ultimately show ?case using ih(1) d(2) p k by (auto simp: e simp del: gather.simps)
qed simp

lemma distinct_part: "mset xs \<subseteq># mset ys \<Longrightarrow> distinct ys \<Longrightarrow> distinct xs"
proof -
  assume s: "mset xs \<subseteq># mset ys" and d: "distinct ys"
  obtain zs where "mset zs = mset ys - mset xs" by (metis ex_mset)
  with s have "mset (xs @ zs) = mset ys" by simp
  with d have "distinct (xs @ zs)" by (metis mset_eq_imp_distinct_iff)
  then show "distinct xs" by simp
qed

lemma transfer_facts:
  assumes "flat rows" and "distinct (rids rows)"
  shows "under p (transfer p rows)" and "arrays (transfer p rows)" and "distinct (rids (transfer p rows))" and "set (rids (transfer p rows)) \<subseteq> set (rids rows)"
proof -
  define q where "q = filter (\<lambda>t. rw_parent (lab t) = p) rows"
  define rest where "rest = filter (\<lambda>t. rw_parent (lab t) \<noteq> p) rows"
  have t: "transfer p rows = gather rest q" by (simp add: transfer_def q_def rest_def)
  have g: "map (\<lambda>t. (rw_id (lab t), rw_parent (lab t))) (gather rest q) = map (\<lambda>t. (rw_id (lab t), rw_parent (lab t))) q"
    "kin (gather rest q)" "arrays (gather rest q)" "mset (rids (gather rest q)) \<subseteq># mset (rids (rest @ q))"
    using gather_facts [of rest q] flat_filter [OF assms(1)] by (auto simp: q_def rest_def)
  have "mset (rids (rest @ q)) = mset (rids rows)" using rids_split [of "\<lambda>t. rw_parent (lab t) = p" rows] by (simp add: q_def rest_def)
  with g(4) have m: "mset (rids (transfer p rows)) \<subseteq># mset (rids rows)" by (simp add: t)
  show "arrays (transfer p rows)" using g(3) by (simp add: t)
  have "rw_parent (lab u) = p" if "u \<in> set (gather rest q)" for u
  proof -
    have "(rw_id (lab u), rw_parent (lab u)) \<in> set (map (\<lambda>t. (rw_id (lab t), rw_parent (lab t))) q)" unfolding g(1) [symmetric] using that by auto
    then show ?thesis by (auto simp: q_def)
  qed
  then show "under p (transfer p rows)" using g(2) by (simp add: under_def t)
  show "set (rids (transfer p rows)) \<subseteq> set (rids rows)" using set_mset_mono [OF m] by simp
  show "distinct (rids (transfer p rows))" by (rule distinct_part [OF m assms(2)])
qed

definition bare :: "trow \<Rightarrow> trow rose" where
  "bare r = Rose (r\<lparr>rw_array := False\<rparr>) []"

definition flags :: "tdata \<Rightarrow> bool" where
  "flags ts \<longleftrightarrow> (\<forall>t\<in>set (nodes ts). rw_array (lab t) = (kids t \<noteq> []))"

lemma filter_bare: "filter (\<lambda>t. P (rw_parent (lab t))) (map bare xs) = map bare (filter (\<lambda>r. P (rw_parent r)) xs)"
  by (induction xs) (auto simp: bare_def)

lemma gather_back:
  assumes "distinct (rids ts)" and "flags ts" and "\<forall>t\<in>set (nodes ts). filter (\<lambda>r. rw_parent r = rw_id (lab t)) xs = map lab (kids t)"
  shows "gather (map bare xs) (map (\<lambda>t. bare (lab t)) ts) = ts"
  using assms
proof (induction "length (labels ts)" arbitrary: ts xs rule: less_induct)
  case less
  show ?case
  proof (cases ts)
    case (Cons t us)
    obtain r cs where t: "t = Rose r cs" by (cases t)
    define rest where "rest = filter (\<lambda>x. rw_parent x \<noteq> rw_id r) xs"
    have mine: "filter (\<lambda>x. rw_parent x = rw_id r) xs = map lab cs" using less.prems(3) Cons t by simp
    have n: "set (nodes (us @ cs)) \<subseteq> set (nodes ts)" using Cons t by auto
    have "gather (map bare rest) (map (\<lambda>t. bare (lab t)) (us @ cs)) = us @ cs"
    proof (rule less.hyps)
      show "length (labels (us @ cs)) < length (labels ts)" using Cons t by simp
      show "distinct (rids (us @ cs))" "flags (us @ cs)" using less.prems(1,2) Cons t n by (auto simp: flags_def)
      show "\<forall>t\<in>set (nodes (us @ cs)). filter (\<lambda>r. rw_parent r = rw_id (lab t)) rest = map lab (kids t)"
      proof
        fix u assume u: "u \<in> set (nodes (us @ cs))"
        have "rw_id (lab u) \<in> set (rids (us @ cs))" using u by (simp add: rids_def labels_nodes) (metis image_eqI comp_def UnE UnI1 UnI2)
        then have "rw_id (lab u) \<noteq> rw_id r" using less.prems(1) Cons t by auto
        then have "filter (\<lambda>x. rw_parent x = rw_id (lab u)) rest = filter (\<lambda>x. rw_parent x = rw_id (lab u)) xs"
          unfolding rest_def filter_filter by (intro filter_cong) auto
        then show "filter (\<lambda>x. rw_parent x = rw_id (lab u)) rest = map lab (kids u)" using less.prems(3) u n by auto
      qed
    qed
    moreover have "rw_array r = (cs \<noteq> [])" using less.prems(2) Cons t by (simp add: flags_def)
    moreover have "filter (\<lambda>t. rw_parent (lab t) = rw_id r) (map bare xs) = map (\<lambda>t. bare (lab t)) cs"
      "filter (\<lambda>t. rw_parent (lab t) \<noteq> rw_id r) (map bare xs) = map bare rest"
      using filter_bare [of "\<lambda>p. p = rw_id r" xs] filter_bare [of "\<lambda>p. p \<noteq> rw_id r" xs] mine by (simp_all add: rest_def)
    ultimately show ?thesis using Cons t by (simp add: bare_def Let_def)
  qed simp
qed

text \<open>
  C9: flat rows are put together again.  If the rows of a forest come flat, in any order that keeps the children of each row in theirs, each with the identifier of its parent,
  then \<open>transfer\<close> makes that forest of them; rows whose parent is not among them are left out.
\<close>

theorem tg_transfer_back:
  assumes "distinct (rids ts)" and "p \<notin> set (rids ts)" and "flags ts" and "filter (\<lambda>r. rw_parent r = p) xs = map lab ts"
    and "\<forall>t\<in>set (nodes ts). filter (\<lambda>r. rw_parent r = rw_id (lab t)) xs = map lab (kids t)"
  shows "transfer p (map bare xs) = ts"
proof -
  define rest where "rest = filter (\<lambda>r. rw_parent r \<noteq> p) xs"
  have "gather (map bare rest) (map (\<lambda>t. bare (lab t)) ts) = ts"
  proof (rule gather_back [OF assms(1,3)], rule)
    fix t assume t: "t \<in> set (nodes ts)"
    then have "rw_id (lab t) \<noteq> p" using assms(2) by (auto simp: rids_def labels_nodes)
    then have "filter (\<lambda>x. rw_parent x = rw_id (lab t)) rest = filter (\<lambda>x. rw_parent x = rw_id (lab t)) xs"
      unfolding rest_def filter_filter by (intro filter_cong) auto
    then show "filter (\<lambda>x. rw_parent x = rw_id (lab t)) rest = map lab (kids t)" using assms(5) t by simp
  qed
  then show ?thesis using filter_bare [of "\<lambda>q. q = p" xs] filter_bare [of "\<lambda>q. q \<noteq> p" xs] assms(4)
    by (simp add: transfer_def rest_def comp_def)
qed

definition sample_row :: "nat \<Rightarrow> nat \<Rightarrow> bool \<Rightarrow> trow" where
  "sample_row n p b = \<lparr>rw_id = n, rw_parent = p, rw_state = None, rw_array = b, rw_vals = (\<lambda>_. VUndef)\<rparr>"

theorem tg_transfer_back_witness:
  "transfer 0 (map bare [sample_row 3 2 False, sample_row 1 0 True, sample_row 9 8 False, sample_row 2 1 True, sample_row 4 0 False]) =
     [Rose (sample_row 1 0 True) [Rose (sample_row 2 1 True) [Rose (sample_row 3 2 False) []]], Rose (sample_row 4 0 False) []]"
  by (rule tg_transfer_back) (simp_all add: sample_row_def flags_def)

text \<open>
  Rows that come with children of their own in an object with their number: \<open>transfer\<close> leaves the \<open>_parentId\<close> of the children unset, and
  removing one takes its element away but not the row.
\<close>

lemma nested_rows_stay:
  "map_option (\<lambda>s. (rids (tg_data s), map vr_id (labels (tg_view s))))
     (Option.bind (load_rows default_tg_env 0 (Table 1 [Rose (sample_row 1 0 True) [Rose (sample_row 2 0 False) []]]) False treegrid_defaults) (tg_remove 2)) =
   Some ([1, 2], [1])"
  by code_simp

end
