(* ===== verification/Tg_View.thy ===== *)
theory Tg_View
  imports Tg_Forest
begin

text \<open>
  What the operations of the tree grid keep: the row elements are the forest of the rows, with their values, and what stands before a
  title fits the place of its row.
\<close>

section \<open>Rows and their elements\<close>

definition rkey :: "trow \<Rightarrow> nat \<times> row" where
  "rkey r = (rw_id r, rw_vals r)"

definition vkey :: "vrow \<Rightarrow> nat \<times> row" where
  "vkey v = (vr_id v, vr_vals v)"

lemma fst_key [simp]: "fst (rkey r) = rw_id r" "fst (vkey v) = vr_id v"
  by (simp_all add: rkey_def vkey_def)

definition row_ok :: "nat \<Rightarrow> vrow \<Rightarrow> tview \<Rightarrow> bool" where
  "row_ok l v cs \<longleftrightarrow> spans v = Suc l \<and> vr_folder v = (vr_hit v \<noteq> None) \<and> (cs \<noteq> [] \<longrightarrow> vr_hit v \<noteq> None \<and> vr_sub v \<noteq> None)"

fun faces :: "nat \<Rightarrow> tview \<Rightarrow> bool" where
  "faces l [] \<longleftrightarrow> True"
| "faces l (Rose v cs # ts) \<longleftrightarrow> row_ok l v cs \<and> faces (Suc l) cs \<and> faces l ts"

lemma faces_append [simp]: "faces l (ts @ us) \<longleftrightarrow> faces l ts \<and> faces l us"
  by (induction l ts rule: faces.induct) auto

lemma faces_node:
  assumes "faces l ts" and "t \<in> set (nodes ts)"
  shows "\<exists>m. row_ok m (lab t) (kids t) \<and> faces (Suc m) (kids t)"
  using assms by (induction l ts rule: faces.induct) auto

lemma faces_set_kids:
  assumes "faces l ts"
    and "\<And>t m. t \<in> set (nodes ts) \<Longrightarrow> P (lab t) \<Longrightarrow> row_ok m (lab t) (kids t) \<Longrightarrow> faces (Suc m) (kids t) \<Longrightarrow>
       row_ok m (lab t) (h (kids t)) \<and> faces (Suc m) (h (kids t))"
  shows "faces l (set_kids P h ts)"
  using assms
proof (induction l ts rule: faces.induct)
  case (2 l v cs ts)
  have ih: "faces (Suc l) (set_kids P h cs)" "faces l (set_kids P h ts)" using 2 by auto
  have e: "set_kids P h cs = [] \<longleftrightarrow> cs = []" by (cases cs rule: labels.cases) auto
  show ?case
  proof (cases "P v")
    case True
    then show ?thesis using 2(3) 2(4) [of "Rose v cs" l] ih by simp
  next
    case False
    then show ?thesis using 2(3) ih e by (simp add: row_ok_def)
  qed
qed simp

lemma faces_mark:
  assumes "faces l ts"
    and "\<And>t m. t \<in> set (nodes ts) \<Longrightarrow> vr_id (lab t) = n \<Longrightarrow> row_ok m (lab t) (kids t) \<Longrightarrow> row_ok m (f (lab t)) (kids t)"
  shows "faces l (mark_row n f ts)"
  using assms
proof (induction l ts rule: faces.induct)
  case (2 l v cs ts)
  have ih: "faces (Suc l) (mark_row n f cs)" "faces l (mark_row n f ts)" using 2 by auto
  have e: "relabel g cs = [] \<longleftrightarrow> cs = []" for g :: "vrow \<Rightarrow> vrow" by (simp add: relabel_def)
  have "row_ok l (if vr_id v = n then f v else v) cs" using 2(3) 2(4) [of "Rose v cs" l] by simp
  then show ?case using ih by (simp add: mark_row_def row_ok_def e)
qed (simp add: mark_row_def)

lemma faces_kill: "faces l ts \<Longrightarrow> faces l (kill vr_id n ts)"
  by (induction l ts rule: faces.induct) (auto simp: row_ok_def)

lemma faces_put_beside:
  assumes "faces l ts" and "\<And>t m. t \<in> set (nodes ts) \<Longrightarrow> vr_id (lab t) = d \<Longrightarrow> row_ok m (lab t) (kids t) \<Longrightarrow> faces m us"
  shows "faces l (put_beside front vr_id d us ts)"
  using assms
proof (induction l ts rule: faces.induct)
  case (2 l v cs ts)
  have ih: "faces (Suc l) (put_beside front vr_id d us cs)" "faces l (put_beside front vr_id d us ts)" using 2 by auto
  have e: "put_beside front vr_id d us cs = [] \<longleftrightarrow> cs = []" by (cases cs rule: labels.cases) auto
  show ?case using 2(3) 2(4) [of "Rose v cs" l] ih by (auto simp: row_ok_def e)
qed simp

text \<open>What the guide lines and the numbers leave alone.\<close>

definition vcore :: "vrow \<Rightarrow> (nat \<times> row) \<times> nat \<times> bool option \<times> bool \<times> (nat option \<times> bool) option" where
  "vcore v = (vkey v, vr_indent v, vr_hit v, vr_folder v, vr_sub v)"

lemma core_keys: "relabel vcore V = relabel vcore W \<Longrightarrow> relabel vkey V = relabel vkey W"
proof -
  assume "relabel vcore V = relabel vcore W"
  then have "relabel fst (relabel vcore V) = relabel fst (relabel vcore W)" by simp
  then show ?thesis by (simp add: vcore_def)
qed

lemma core_faces: "relabel vcore V = relabel vcore W \<Longrightarrow> faces l V \<Longrightarrow> faces l W"
proof (induction l V arbitrary: W rule: faces.induct)
  case (1 l)
  then show ?case by (cases W rule: labels.cases) auto
next
  case (2 l v cs ts)
  obtain w ds us where W: "W = Rose w ds # us" using 2(3) by (cases W rule: labels.cases) auto
  then have c: "vcore w = vcore v" "relabel vcore cs = relabel vcore ds" "relabel vcore ts = relabel vcore us" using 2(3) by auto
  have "cs = [] \<longleftrightarrow> ds = []" using c(2) by (auto simp: relabel_def)
  then have "row_ok l w ds" using 2(4) c(1) by (simp add: row_ok_def vcore_def spans_def)
  moreover have "faces (Suc l) ds" using 2(1) [OF c(2)] 2(4) by simp
  moreover have "faces l us" using 2(2) [OF c(3)] 2(4) by simp
  ultimately show ?case by (simp add: W)
qed

lemma core_mark: "(\<And>v. vcore (f v) = vcore v) \<Longrightarrow> relabel vcore (mark_row n f V) = relabel vcore V"
  by (auto simp: mark_row_def intro!: relabel_cong)

lemma vcore_upd [simp]:
  "vcore (v\<lparr>vr_num := k\<rparr>) = vcore v" "vcore (v\<lparr>vr_lines := l\<rparr>) = vcore v" "vcore (v\<lparr>vr_join := a\<rparr>) = vcore v"
  "vcore (v\<lparr>vr_bottom := b\<rparr>) = vcore v" "vcore (v\<lparr>vr_last := a\<rparr>) = vcore v" "vcore (v\<lparr>vr_root := c\<rparr>) = vcore v"
  by (simp_all add: vcore_def vkey_def)

lemma core_set_kids: "(\<And>cs. relabel vcore (h cs) = relabel vcore cs) \<Longrightarrow> relabel vcore (set_kids P h V) = relabel vcore V"
  by (induction V rule: forest_induct) auto

lemma core_numbers: "relabel vcore (number_rows k V) = relabel vcore V"
  by (induction k V rule: number_rows.induct) simp_all

lemma core_last: "relabel vcore (mark_last ts V) = relabel vcore V"
  by (simp add: mark_last_def core_mark)

lemma core_join: "relabel vcore (join_each ts V) = relabel vcore V"
  by (induction ts V rule: join_each.induct) (simp_all add: core_last core_mark)

lemma core_below: "relabel vcore (line_below t V) = relabel vcore V"
  unfolding line_below_def Let_def by (rule core_set_kids) simp

lemma core_rows: "relabel vcore (line_rows ts V) = relabel vcore V"
proof -
  have "relabel vcore (fold line_below us V) = relabel vcore V" for us by (induction us arbitrary: V) (simp_all add: core_below)
  then show ?thesis by (simp add: line_rows_def)
qed

lemma core_lines: "relabel vcore (line_each ts V) = relabel vcore V"
  by (induction ts V rule: line_each.induct) (simp_all add: core_rows)

lemma core_draw: "relabel vcore (draw_lines D V) = relabel vcore V"
proof -
  have "vcore (clear_lines v) = vcore v" for v by (simp add: clear_lines_def Let_def)
  then have "relabel vcore (mark_roots D (relabel clear_lines V)) = relabel vcore V"
    by (auto simp: mark_roots_def core_mark split: list.split)
  then show ?thesis by (simp add: draw_lines_def Let_def core_rows core_lines core_last core_join)
qed

lemma core_show [simp]: "relabel vcore (tg_view (show_lines s)) = relabel vcore (tg_view s)"
  by (simp add: show_lines_def core_draw)

lemma core_fix [simp]: "relabel vcore (tg_view (fix_numbers s)) = relabel vcore (tg_view s)"
  by (simp add: fix_numbers_def core_numbers)

lemma same_fields [simp]:
  "tg_data (show_lines s) = tg_data s" "tg_data (fix_numbers s) = tg_data s" "tg_data (tg_emit e s) = tg_data s"
  "tg_requests (show_lines s) = tg_requests s" "tg_requests (fix_numbers s) = tg_requests s" "tg_requests (tg_emit e s) = tg_requests s"
  "tg_remoteSort (show_lines s) = tg_remoteSort s" "tg_remoteSort (fix_numbers s) = tg_remoteSort s" "tg_remoteSort (tg_emit e s) = tg_remoteSort s"
  "tg_view (tg_emit e s) = tg_view s"
  by (simp_all add: show_lines_def fix_numbers_def tg_emit_def)

section \<open>The invariant\<close>

definition tg_ok :: "treegrid \<Rightarrow> bool" where
  "tg_ok s \<longleftrightarrow> distinct (rids (tg_data s)) \<and> 0 \<notin> set (rids (tg_data s)) \<and> under 0 (tg_data s) \<and> arrays (tg_data s)
     \<and> relabel rkey (tg_data s) = relabel vkey (tg_view s) \<and> faces 0 (tg_view s)
     \<and> (\<forall>q\<in>set (tg_requests s). tq_row q = 0 \<or> tq_append q) \<and> tg_remoteSort s"

lemma tg_ok_core:
  assumes "tg_ok s" and "tg_data u = tg_data s" and "relabel vcore (tg_view u) = relabel vcore (tg_view s)"
    and "set (tg_requests u) \<subseteq> set (tg_requests s)" and "tg_remoteSort u = tg_remoteSort s"
  shows "tg_ok u"
  using assms core_keys [OF assms(3)] core_faces [OF assms(3) [symmetric]] by (auto simp: tg_ok_def)

lemma tg_ok_simps [simp]:
  "tg_ok (show_lines s) = tg_ok s" "tg_ok (fix_numbers s) = tg_ok s" "tg_ok (tg_emit e s) = tg_ok s"
  "tg_ok (s\<lparr>tg_total := n\<rparr>) = tg_ok s" "tg_ok (s\<lparr>tg_pager := n\<rparr>) = tg_ok s" "tg_ok (s\<lparr>tg_param := p\<rparr>) = tg_ok s"
  "tg_ok (s\<lparr>tg_next := p\<rparr>) = tg_ok s" "tg_ok (s\<lparr>tg_pageNumber := i\<rparr>) = tg_ok s" "tg_ok (s\<lparr>tg_pageSize := i\<rparr>) = tg_ok s"
  "tg_ok (s\<lparr>tg_sortName := t\<rparr>) = tg_ok s" "tg_ok (s\<lparr>tg_sortOrder := t\<rparr>) = tg_ok s"
proof -
  show "tg_ok (show_lines s) = tg_ok s" by (intro iffI; erule tg_ok_core) simp_all
  show "tg_ok (fix_numbers s) = tg_ok s" by (intro iffI; erule tg_ok_core) simp_all
qed (simp_all add: tg_ok_def)

lemma vids: "relabel rkey D = relabel vkey V \<Longrightarrow> map vr_id (labels V) = rids D"
proof -
  assume "relabel rkey D = relabel vkey V"
  then have "map fst (labels (relabel rkey D)) = map fst (labels (relabel vkey V))" by simp
  then show ?thesis by (simp add: rids_def comp_def)
qed

lemma find_relabel: "find_node P (relabel f ts) = map_option (map_rose f) (find_node (\<lambda>x. P (f x)) ts)"
proof (induction ts rule: forest_induct)
  case (Rose x cs ts)
  have "map_rose f (Rose x cs) = Rose (f x) (relabel f cs)" by (simp add: relabel_def)
  then show ?case using Rose by (auto split: option.split)
qed simp

lemma find_both:
  assumes "relabel rkey D = relabel vkey V"
  shows "map_option (map_rose rkey) (find_node (\<lambda>r. rw_id r = n) D) = map_option (map_rose vkey) (find_node (\<lambda>v. vr_id v = n) V)"
proof -
  have "find_node (\<lambda>k. fst k = n) (relabel rkey D) = find_node (\<lambda>k. fst k = n) (relabel vkey V)" using assms by simp
  then show ?thesis by (simp add: find_relabel)
qed

text \<open>In a grid in order a row and its element are found together.\<close>

lemma ok_found:
  assumes "tg_ok s" and "tg_find (tg_data s) n = Some t"
  shows "\<exists>w. row_elem (tg_view s) n = Some w \<and> map_rose rkey t = map_rose vkey w \<and> t \<in> set (nodes (tg_data s)) \<and> w \<in> set (nodes (tg_view s))
     \<and> rw_id (lab t) = n \<and> vr_id (lab w) = n \<and> (kids t = [] \<longleftrightarrow> kids w = []) \<and> n \<noteq> 0"
proof -
  have f: "find_node (\<lambda>r. rw_id r = n) (tg_data s) = Some t" using assms by (simp add: tg_ok_def tg_find_node)
  obtain w where w: "row_elem (tg_view s) n = Some w" "map_rose rkey t = map_rose vkey w"
    using find_both [of "tg_data s" "tg_view s" n] f assms(1)
    by (cases "find_node (\<lambda>v. vr_id v = n) (tg_view s)") (auto simp: tg_ok_def row_elem_def)
  moreover have "t \<in> set (nodes (tg_data s))" "rw_id (lab t) = n" "w \<in> set (nodes (tg_view s))" "vr_id (lab w) = n"
    using node_found [OF f] w(1) by (auto simp: row_elem_def dest!: node_found)
  moreover have "kids t = [] \<longleftrightarrow> kids w = []" using w(2) by (cases t; cases w) auto
  moreover have "n \<noteq> 0" using calculation(3,4) assms(1) by (auto simp: tg_ok_def rids_def labels_nodes)
  ultimately show ?thesis by blast
qed

lemma ok_elem:
  assumes "tg_ok s" and "row_elem (tg_view s) n = Some w"
  shows "\<exists>t. tg_find (tg_data s) n = Some t"
  using find_both [of "tg_data s" "tg_view s" n] assms by (auto simp: tg_ok_def row_elem_def tg_find_node)

lemma elem_only:
  assumes "tg_ok s" and "row_elem (tg_view s) n = Some w" and "t \<in> set (nodes (tg_view s))" and "vr_id (lab t) = n"
  shows "t = w"
proof -
  have "distinct (map vr_id (labels (tg_view s)))" using assms(1) vids [of "tg_data s" "tg_view s"] by (simp add: tg_ok_def)
  moreover have "w \<in> set (nodes (tg_view s))" "vr_id (lab w) = n" using assms(2) by (auto simp: row_elem_def dest!: node_found)
  ultimately show ?thesis using nodes_unique assms(3,4) by metis
qed

section \<open>Loading\<close>

lemma set_kids_cong: "(\<And>x. x \<in> set (labels ts) \<Longrightarrow> P x = Q x) \<Longrightarrow> set_kids P h ts = set_kids Q h ts"
  by (induction ts rule: forest_induct) simp_all

lemma rids_relabel [simp]: "(\<And>r. rw_id (f r) = rw_id r) \<Longrightarrow> rids (relabel f ts) = rids ts"
  by (simp add: rids_def)

lemma under_relabel: "(\<And>r. rw_id (f r) = rw_id r \<and> rw_parent (f r) = rw_parent r) \<Longrightarrow> under p (relabel f ts) = under p ts"
  by (induction ts arbitrary: p rule: forest_induct) simp_all

lemma rids_shape: "rids ts = labels (relabel rw_id ts)"
  by (simp add: rids_def)

lemma shape_kids: "(\<And>cs. relabel rw_id (h cs) = h' (relabel rw_id cs)) \<Longrightarrow>
    relabel rw_id (set_kids (\<lambda>r. rw_id r = p) h ts) = set_kids (\<lambda>x. x = p) h' (relabel rw_id ts)"
  by (rule relabel_set_kids) simp_all

lemma add_rids:
  assumes "distinct (rids D)" and "distinct (rids ts)" and "set (rids D) \<inter> set (rids ts) = {}"
  shows "distinct (rids (set_kids (\<lambda>r. rw_id r = p) (\<lambda>cs. cs @ ts) D))"
    and "set (rids (set_kids (\<lambda>r. rw_id r = p) (\<lambda>cs. cs @ ts) D)) \<subseteq> set (rids D) \<union> set (rids ts)"
proof -
  have e: "relabel rw_id (set_kids (\<lambda>r. rw_id r = p) (\<lambda>cs. cs @ ts) D) = set_kids (\<lambda>x. x = p) (\<lambda>cs. cs @ relabel rw_id ts) (relabel rw_id D)"
    by (rule shape_kids) simp
  show "distinct (rids (set_kids (\<lambda>r. rw_id r = p) (\<lambda>cs. cs @ ts) D))"
    using distinct_add [of "relabel rw_id D" "relabel rw_id ts" p] assms by (simp add: rids_shape [of "set_kids _ _ _"] e) (simp add: rids_def)
  show "set (rids (set_kids (\<lambda>r. rw_id r = p) (\<lambda>cs. cs @ ts) D)) \<subseteq> set (rids D) \<union> set (rids ts)"
    using labels_add [of "\<lambda>x. x = p" "relabel rw_id ts" "relabel rw_id D"] by (simp add: rids_shape [of "set_kids _ _ _"] e) (simp add: rids_def)
qed

lemma under_add: "under q D \<Longrightarrow> under p ts \<Longrightarrow> under q (set_kids (\<lambda>r. rw_id r = p) (\<lambda>cs. cs @ ts) D)"
  by (induction D arbitrary: q rule: forest_induct) auto

lemma set_kids_empty: "(set_kids P h ts = []) = (ts = [])"
  by (cases ts rule: labels.cases) auto

lemma arrays_add:
  assumes "arrays D" and "arrays ts" and "\<And>r. rw_array r \<or> rw_id r = p \<Longrightarrow> rw_array (f r)" and "\<And>r. rw_id (f r) = rw_id r"
  shows "arrays (relabel f (set_kids (\<lambda>r. rw_id r = p) (\<lambda>cs. cs @ ts) D))"
proof -
  have e: "relabel f us = [] \<longleftrightarrow> us = []" for us by (simp add: relabel_def)
  have f: "arrays (relabel f us)" if "arrays us" for us
    using that assms(3) by (induction us rule: forest_induct) (auto simp: e)
  show ?thesis using assms(1) by (induction D rule: forest_induct) (use assms(2,3) f in \<open>auto simp: e set_kids_empty\<close>)
qed

lemma render_keys: "relabel vkey (render_rows st D l k ts) = relabel rkey ts"
  by (induction st D l k ts rule: render_rows.induct) (simp_all add: face_row_def vkey_def rkey_def Let_def)

lemma render_faces: "faces l (render_rows st D l k ts)"
proof (induction st D l k ts rule: render_rows.induct)
  case (2 st D l k r cs ts)
  have e: "render_rows st D (Suc l) j cs = [] \<longleftrightarrow> cs = []" for j by (cases cs rule: labels.cases) simp_all
  show ?case using 2 by (simp add: row_ok_def e face_row_def spans_def Let_def)
qed simp

lemma open_facts [simp]:
  "rids (open_states ts) = rids ts" "relabel rkey (open_states ts) = relabel rkey ts" "under p (open_states ts) = under p ts"
  by (auto simp: open_states_def under_relabel rkey_def intro!: relabel_cong)

lemma arrays_relabel: "(\<And>r. rw_array (f r) = rw_array r) \<Longrightarrow> arrays (relabel f ts) = arrays ts"
  by (induction ts rule: forest_induct) (auto simp: relabel_def)

lemma open_arrays [simp]: "arrays (open_states ts) = arrays ts"
  unfolding open_states_def by (rule arrays_relabel) simp

lemma adopt_facts [simp]:
  "rids (adopt p ts) = rids ts" "relabel rkey (adopt p ts) = relabel rkey ts" "under p (adopt p ts)" "arrays (adopt p ts) = arrays ts"
proof -
  have e: "adopt q cs = [] \<longleftrightarrow> cs = []" for q cs by (cases cs rule: labels.cases) simp_all
  show "rids (adopt p ts) = rids ts" "relabel rkey (adopt p ts) = relabel rkey ts" "under p (adopt p ts)" "arrays (adopt p ts) = arrays ts"
    by (induction p ts rule: adopt.induct) (simp_all add: rkey_def e)
qed

definition fresh_rows :: "tdata \<Rightarrow> treegrid \<Rightarrow> bool" where
  "fresh_rows ts s \<longleftrightarrow> distinct (rids ts) \<and> 0 \<notin> set (rids ts) \<and> set (rids (tg_data s)) \<inter> set (rids ts) = {}"

text \<open>A row that can take children: it has a hit and a row below.\<close>

definition takes_rows :: "nat \<Rightarrow> treegrid \<Rightarrow> bool" where
  "takes_rows p s \<longleftrightarrow> p = 0 \<or> (\<exists>w. row_elem (tg_view s) p = Some w \<and> vr_hit (lab w) \<noteq> None \<and> vr_sub (lab w) \<noteq> None)"

definition put_rows :: "nat \<Rightarrow> tdata \<Rightarrow> treegrid \<Rightarrow> treegrid" where
  "put_rows p ts s = tg_loaded p (draw_rows p ts (add_rows p ts ts s))"

definition keys :: "treegrid \<Rightarrow> (nat \<times> row) rose list" where
  "keys s = relabel rkey (tg_data s)"

lemma no_zero: "tg_ok s \<Longrightarrow> tg_find (tg_data s) 0 = None"
  using ok_found [of s 0] by (cases "tg_find (tg_data s) 0") auto

lemma tg_ok_fields:
  assumes "distinct (rids D)" "0 \<notin> set (rids D)" "under 0 D" "arrays D" "relabel rkey D = relabel vkey V" "faces 0 V"
    and "tg_ok s"
  shows "tg_ok (s\<lparr>tg_data := D, tg_view := V\<rparr>)"
  using assms by (simp add: tg_ok_def)

lemma put_rows_root:
  assumes "tg_ok s" and "under 0 ts" and "arrays ts" and "fresh_rows ts s"
  shows "tg_ok (put_rows 0 ts s)" and "keys (put_rows 0 ts s) = keys s @ relabel rkey ts"
proof -
  define D where "D = tg_data s @ ts"
  define V where "V = tg_view s @ render_rows (tg_striped s) D 0 (stripe_base D ts) ts"
  have z: "tg_find D 0 = None"
  proof -
    have "distinct (rids D)" "0 \<notin> set (rids D)" using assms(1,4) by (auto simp: D_def tg_ok_def fresh_rows_def)
    then show ?thesis by (auto simp: tg_find_node node_missing rids_def)
  qed
  have e: "draw_rows 0 ts (add_rows 0 ts ts s) = s\<lparr>tg_data := D, tg_view := V\<rparr>"
    using no_zero [OF assms(1)] z by (simp add: draw_rows_def add_rows_def Let_def D_def V_def row_level_def)
  have k: "relabel rkey D = relabel vkey V" using assms(1) by (simp add: D_def V_def render_keys tg_ok_def)
  have f: "faces 0 V" using assms(1) render_faces by (simp add: V_def tg_ok_def)
  have "tg_ok (s\<lparr>tg_data := D, tg_view := V\<rparr>)"
    by (rule tg_ok_fields [OF _ _ _ _ k f assms(1)]) (use assms in \<open>auto simp: D_def tg_ok_def fresh_rows_def\<close>)
  then show "tg_ok (put_rows 0 ts s)" by (simp add: put_rows_def e tg_loaded_def Let_def)
  show "keys (put_rows 0 ts s) = keys s @ relabel rkey ts"
    by (simp add: put_rows_def e tg_loaded_def Let_def keys_def D_def)
qed

lemma labels_stay: "set (labels ts) \<subseteq> set (labels (set_kids P (\<lambda>cs. cs @ us) ts))"
  by (induction ts rule: forest_induct) auto

lemma put_rows_at:
  assumes "tg_ok s" and "tg_find (tg_data s) p = Some t" and "takes_rows p s" and "under p ts" and "arrays ts" and "fresh_rows ts s"
  shows "tg_ok (put_rows p ts s)" and "keys (put_rows p ts s) = set_kids (\<lambda>k. fst k = p) (\<lambda>cs. cs @ relabel rkey ts) (keys s)"
proof -
  obtain w where w: "row_elem (tg_view s) p = Some w" "rw_id (lab t) = p" "vr_id (lab w) = p" "p \<noteq> 0" "t \<in> set (nodes (tg_data s))"
    "vr_hit (lab w) \<noteq> None" "vr_sub (lab w) \<noteq> None"
    using ok_found [OF assms(1,2)] assms(3) by (auto simp: takes_rows_def)
  define f where "f = (\<lambda>r :: trow. if rw_id r = p then r\<lparr>rw_array := True\<rparr> else r)"
  define D where "D = relabel f (set_kids (\<lambda>r. rw_id r = p) (\<lambda>cs. cs @ ts) (tg_data s))"
  define vs where "vs = render_rows (tg_striped s) D (spans (lab w)) (stripe_base D ts) ts"
  define V where "V = set_kids (\<lambda>v. vr_id v = p \<and> vr_sub v \<noteq> None) (\<lambda>cs. cs @ vs) (tg_view s)"
  note ok = assms(1) [unfolded tg_ok_def]
  note fr = assms(6) [unfolded fresh_rows_def]
  have f: "rw_id (f r) = rw_id r" "rw_parent (f r) = rw_parent r" "rkey (f r) = rkey r" "rw_array r \<or> rw_id r = p \<Longrightarrow> rw_array (f r)" for r
    by (auto simp: f_def rkey_def)
  have r: "rids D = rids (set_kids (\<lambda>r. rw_id r = p) (\<lambda>cs. cs @ ts) (tg_data s))" unfolding D_def using f(1) by simp
  have d: "distinct (rids D)" "0 \<notin> set (rids D)"
    using add_rids [of "tg_data s" ts p] ok fr by (auto simp: r)
  have u: "under 0 D" unfolding D_def using f under_add [OF _ assms(4), of 0 "tg_data s"] ok by (simp add: under_relabel)
  have a: "arrays D" unfolding D_def by (rule arrays_add) (use ok assms(5) f in auto)
  have kd: "relabel rkey D = set_kids (\<lambda>k. fst k = p) (\<lambda>cs. cs @ relabel rkey ts) (keys s)"
    unfolding D_def keys_def using f(3) by (simp add: relabel_set_kids [where Q = "\<lambda>k. fst k = p" and h' = "\<lambda>cs. cs @ relabel rkey ts"])
  have only: "u = w" if "u \<in> set (nodes (tg_view s))" "vr_id (lab u) = p" for u using elem_only [OF assms(1) w(1) that] .
  have V: "V = set_kids (\<lambda>v. vr_id v = p) (\<lambda>cs. cs @ vs) (tg_view s)"
    unfolding V_def by (rule set_kids_cong) (use only w(7) in \<open>auto simp: labels_nodes\<close>)
  have k: "relabel rkey D = relabel vkey V"
    unfolding kd V using ok by (simp add: relabel_set_kids [where Q = "\<lambda>k. fst k = p" and h' = "\<lambda>cs. cs @ relabel rkey ts"] keys_def vs_def render_keys)
  have fv: "faces 0 V" unfolding V
  proof (rule faces_set_kids)
    fix x m
    assume x: "x \<in> set (nodes (tg_view s))" "vr_id (lab x) = p" "row_ok m (lab x) (kids x)" "faces (Suc m) (kids x)"
    then have "x = w" using only by simp
    then show "row_ok m (lab x) (kids x @ vs) \<and> faces (Suc m) (kids x @ vs)"
      using x w(6,7) render_faces by (auto simp: row_ok_def vs_def)
  qed (use ok in simp)
  have found: "tg_find D p \<noteq> None"
  proof -
    have "lab t \<in> set (labels (tg_data s))" using w(5) by (auto simp: labels_nodes)
    then have "lab t \<in> set (labels (set_kids (\<lambda>r. rw_id r = p) (\<lambda>cs. cs @ ts) (tg_data s)))" by (rule subsetD [OF labels_stay])
    then have "p \<in> set (rids D)" unfolding r unfolding rids_def using w(2) by auto
    then show ?thesis using d(1) by (auto simp: tg_find_node node_missing rids_def)
  qed
  have e: "draw_rows p ts (add_rows p ts ts s) = s\<lparr>tg_data := D, tg_view := V\<rparr>"
  proof -
    have a: "add_rows p ts ts s = s\<lparr>tg_data := D\<rparr>"
      using assms(2) by (simp add: add_rows_def upd_data_def kids_data_def D_def f_def)
    have "row_level (tg_view s) p = spans (lab w)" using w(1,4) by (simp add: row_level_def)
    moreover obtain y where "tg_find D p = Some y" using found by blast
    ultimately show ?thesis by (simp add: draw_rows_def a Let_def V_def vs_def)
  qed
  have "tg_ok (s\<lparr>tg_data := D, tg_view := V\<rparr>)" by (rule tg_ok_fields [OF d u a k fv assms(1)])
  then show "tg_ok (put_rows p ts s)" using w(4) by (simp add: put_rows_def e tg_loaded_def)
  show "keys (put_rows p ts s) = set_kids (\<lambda>k. fst k = p) (\<lambda>cs. cs @ relabel rkey ts) (keys s)"
    using w(4) kd by (simp add: put_rows_def e tg_loaded_def keys_def)
qed

end
