(* ===== verification/Tg_Ops.thy ===== *)
theory Tg_Ops
  imports Tg_View
begin

text \<open>
  Every operation of the tree grid, on rows that fit: it returns, and the row elements are the forest of the rows again.
\<close>

section \<open>Loading\<close>

definition input_rows :: "tg_env \<Rightarrow> nat \<Rightarrow> tinput \<Rightarrow> tdata" where
  "input_rows E p d = (case te_filter E p d of Rows ts \<Rightarrow> adopt p ts | Table n ts \<Rightarrow> transfer p ts)"

text \<open>Data that fits: every row has an identifier of its own, children are in arrays, and a table is flat.\<close>

definition input_fits :: "tg_env \<Rightarrow> nat \<Rightarrow> tinput \<Rightarrow> tdata \<Rightarrow> bool" where
  "input_fits E p d D \<longleftrightarrow>
     (case te_filter E p d of
        Rows ts \<Rightarrow> arrays ts \<and> distinct (rids ts) \<and> 0 \<notin> set (rids ts) \<and> set (rids D) \<inter> set (rids ts) = {}
      | Table n ts \<Rightarrow> flat ts \<and> distinct (rids ts) \<and> 0 \<notin> set (rids ts) \<and> set (rids D) \<inter> set (rids ts) = {})"

lemma input_fits_rows:
  assumes "input_fits E p d D"
  shows "under p (input_rows E p d)" and "arrays (input_rows E p d)" and "distinct (rids (input_rows E p d))"
    and "0 \<notin> set (rids (input_rows E p d))" and "set (rids D) \<inter> set (rids (input_rows E p d)) = {}"
proof -
  have "under p (input_rows E p d) \<and> arrays (input_rows E p d) \<and> distinct (rids (input_rows E p d))
     \<and> 0 \<notin> set (rids (input_rows E p d)) \<and> set (rids D) \<inter> set (rids (input_rows E p d)) = {}"
  proof (cases "te_filter E p d")
    case (Rows ts)
    then show ?thesis using assms by (simp add: input_fits_def input_rows_def)
  next
    case (Table n ts)
    then have "flat ts" "distinct (rids ts)" "0 \<notin> set (rids ts)" "set (rids D) \<inter> set (rids ts) = {}" using assms by (simp_all add: input_fits_def)
    then show ?thesis using transfer_facts [of ts p] Table by (auto simp: input_rows_def)
  qed
  then show "under p (input_rows E p d)" "arrays (input_rows E p d)" "distinct (rids (input_rows E p d))"
    "0 \<notin> set (rids (input_rows E p d))" "set (rids D) \<inter> set (rids (input_rows E p d)) = {}" by simp_all
qed

lemma take_input_rows: "fst (take_input p (te_filter E p d) s) = input_rows E p d"
  by (simp add: take_input_def input_rows_def split: tinput.split)

lemma take_input_state:
  "tg_ok (snd (take_input p i s)) = tg_ok s" "tg_data (snd (take_input p i s)) = tg_data s" "tg_view (snd (take_input p i s)) = tg_view s"
  "tg_remoteSort (snd (take_input p i s)) = tg_remoteSort s" "tg_requests (snd (take_input p i s)) = tg_requests s"
  by (simp_all add: take_input_def split: tinput.split)

lemma clear_remote [simp]: "tg_remoteSort (clear_rows p s) = tg_remoteSort s"
  by (simp add: clear_rows_def upd_data_def kids_data_def kids_view_def)

lemma load_rows_remote:
  assumes "tg_remoteSort s"
  shows "load_rows E p d app s =
    Some (put_rows p (open_states (input_rows E p d)) (snd (take_input p (te_filter E p d) (if app then s else clear_rows p s))))"
proof -
  define s' where "s' = (if app then s else clear_rows p s)"
  obtain ts u where tu: "take_input p (te_filter E p d) s' = (ts, u)" by (cases "take_input p (te_filter E p d) s'")
  have "tg_remoteSort u" using take_input_state(4) [of p "te_filter E p d" s'] assms tu by (simp add: s'_def)
  moreover have "ts = input_rows E p d" using take_input_rows [of p E d s'] tu by simp
  ultimately show ?thesis using tu by (simp add: load_rows_def sort_new_def put_rows_def flip: s'_def)
qed

definition grown :: "nat \<Rightarrow> (nat \<times> row) rose list \<Rightarrow> (nat \<times> row) rose list \<Rightarrow> (nat \<times> row) rose list" where
  "grown p us K = (if p = 0 then K @ us else set_kids (\<lambda>k. fst k = p) (\<lambda>cs. cs @ us) K)"

lemma tg_load_ok:
  assumes "tg_ok s" and "input_fits E p d (if app then tg_data s else [])" and "takes_rows p s" and "app \<or> p = 0"
  shows "\<exists>u. load_rows E p d app s = Some u \<and> tg_ok u
    \<and> keys u = grown p (relabel rkey (input_rows E p d)) (if app then keys s else [])"
proof -
  define s' where "s' = snd (take_input p (te_filter E p d) (if app then s else clear_rows p s))"
  define ts where "ts = open_states (input_rows E p d)"
  have l: "load_rows E p d app s = Some (put_rows p ts s')"
    using load_rows_remote assms(1) by (simp add: s'_def ts_def tg_ok_def)
  have s': "tg_ok s'" "tg_data s' = (if app then tg_data s else [])" "tg_view s' = (if app then tg_view s else [])"
    using assms(1,4) no_zero [OF assms(1)] by (auto simp: s'_def take_input_state clear_rows_def tg_ok_def)
  note i = input_fits_rows [OF assms(2)]
  have ts: "under p ts" "arrays ts" "fresh_rows ts s'" "relabel rkey ts = relabel rkey (input_rows E p d)"
    using i s'(2) by (auto simp: ts_def fresh_rows_def split: if_splits)
  show ?thesis
  proof (cases "p = 0")
    case True
    then show ?thesis using put_rows_root [OF s'(1) _ ts(2,3)] ts(1,4) l s'(2) by (simp add: grown_def keys_def)
  next
    case False
    then obtain w where w: "row_elem (tg_view s) p = Some w" and app using assms(3,4) by (auto simp: takes_rows_def)
    then obtain t where "tg_find (tg_data s') p = Some t" using ok_elem [OF assms(1) w] s'(2) by auto
    moreover have "takes_rows p s'" using assms(3) s'(3) \<open>app\<close> by (simp add: takes_rows_def)
    ultimately show ?thesis using put_rows_at [OF s'(1) _ _ ts(1,2,3)] ts(4) l s'(2) \<open>app\<close> False by (simp add: grown_def keys_def)
  qed
qed

section \<open>Expanding and collapsing\<close>

lemma elem_in: "tg_ok s \<Longrightarrow> t \<in> set (nodes (tg_view s)) \<Longrightarrow> row_elem (tg_view s) (vr_id (lab t)) = Some t"
  unfolding row_elem_def using vids [of "tg_data s" "tg_view s"] by (intro node_at) (simp_all add: tg_ok_def)

lemma mark_faces:
  assumes "tg_ok s"
    and "\<And>w m. row_elem (tg_view s) n = Some w \<Longrightarrow> row_ok m (lab w) (kids w) \<Longrightarrow> row_ok m (f (lab w)) (kids w)"
  shows "faces 0 (mark_row n f (tg_view s))"
proof (rule faces_mark)
  fix t m
  assume t: "t \<in> set (nodes (tg_view s))" "vr_id (lab t) = n" "row_ok m (lab t) (kids t)"
  then show "row_ok m (f (lab t)) (kids t)" using assms(2) [of t m] elem_in [OF assms(1) t(1)] by simp
qed (use assms(1) in \<open>simp add: tg_ok_def\<close>)

lemma upd_view_ok:
  assumes "tg_ok s" and "\<And>v. vkey (f v) = vkey v"
    and "\<And>w m. row_elem (tg_view s) n = Some w \<Longrightarrow> row_ok m (lab w) (kids w) \<Longrightarrow> row_ok m (f (lab w)) (kids w)"
  shows "tg_ok (upd_view n f s)"
proof -
  have "relabel vkey (mark_row n f (tg_view s)) = relabel vkey (tg_view s)"
    by (auto simp: mark_row_def assms(2) intro!: relabel_cong)
  with mark_faces [OF assms(1,3)] assms(1) show ?thesis by (simp add: tg_ok_def upd_view_def)
qed

lemma upd_data_ok:
  assumes "tg_ok s" and "\<And>r. rkey (f r) = rkey r" and "\<And>r. rw_parent (f r) = rw_parent r" and "\<And>r. rw_array (f r) = rw_array r"
  shows "tg_ok (upd_data n f s)" and "keys (upd_data n f s) = keys s"
proof -
  define g where "g = (\<lambda>r. if rw_id r = n then f r else r)"
  have "rw_id (f r) = rw_id r" for r using assms(2) [of r] by (simp add: rkey_def)
  then have g: "rw_id (g r) = rw_id r" "rw_parent (g r) = rw_parent r" "rw_array (g r) = rw_array r" "rkey (g r) = rkey r" for r
    using assms(2-4) by (simp_all add: g_def)
  have k: "relabel rkey (relabel g (tg_data s)) = relabel rkey (tg_data s)" by (simp add: g)
  have a: "arrays (relabel g (tg_data s)) = arrays (tg_data s)" by (rule arrays_relabel) (simp add: g)
  show "tg_ok (upd_data n f s)" using assms(1) k a g by (simp add: tg_ok_def upd_data_def under_relabel flip: g_def)
  show "keys (upd_data n f s) = keys s" using k by (simp add: keys_def upd_data_def flip: g_def)
qed

lemma keys_upd [simp]: "keys (upd_view n f s) = keys s" "keys (tg_emit e s) = keys s" "keys (s\<lparr>tg_next := k\<rparr>) = keys s" "keys (s\<lparr>tg_param := k\<rparr>) = keys s"
  by (simp_all add: keys_def upd_view_def tg_emit_def)

lemma ask_ok: "tg_ok s \<Longrightarrow> p = 0 \<or> app \<Longrightarrow> tg_ok (ask_rows E p q app sub s)" and ask_keys: "keys (ask_rows E p q app sub s) = keys s"
  by (auto simp: ask_rows_def Let_def tg_ok_def keys_def split: option.split)

lemma open_sub_ok: "tg_ok s \<Longrightarrow> tg_ok (open_sub n s)" and open_sub_keys: "keys (open_sub n s) = keys s"
proof -
  have "rkey (r\<lparr>rw_state := b\<rparr>) = rkey r" for r b by (simp add: rkey_def)
  note d = upd_data_ok [of s "\<lambda>r. r\<lparr>rw_state := Some True\<rparr>" n, OF _ this]
  show "tg_ok (open_sub n s)" if "tg_ok s"
    unfolding open_sub_def tg_ok_simps
    by (rule upd_view_ok) (use d(1) [OF that] in \<open>auto simp: vkey_def row_ok_def spans_def\<close>)
  show "keys (open_sub n s) = keys s"
    by (auto simp: open_sub_def keys_def upd_data_def upd_view_def tg_emit_def rkey_def intro!: relabel_cong)
qed

lemma expand_ok:
  assumes "tg_ok s"
  shows "\<exists>u. tg_expand E n s = Some u \<and> tg_ok u \<and> keys u = keys s"
proof (cases "row_elem (tg_view s) n")
  case None
  then show ?thesis using assms by (simp add: tg_expand_def)
next
  case (Some w)
  then obtain t where t: "tg_find (tg_data s) n = Some t" using ok_elem [OF assms] by blast
  define u where "u = upd_view n (\<lambda>v. v\<lparr>vr_hit := Some True, vr_open := True\<rparr>) s"
  show ?thesis
  proof (cases "vr_hit (lab w) \<noteq> Some False \<or> \<not> te_allows E (TgBeforeExpand n)")
    case True
    then show ?thesis using Some assms by (auto simp: tg_expand_def)
  next
    case False
    then have h: "vr_hit (lab w) = Some False" by simp
    have u: "tg_ok u" "keys u = keys s" unfolding u_def
      by (rule upd_view_ok [OF assms]) (use Some h in \<open>auto simp: vkey_def row_ok_def spans_def\<close>)
    show ?thesis
    proof (cases "vr_sub (lab w)")
      case s: (Some x)
      have "tg_expand E n s = Some (open_sub n u)" using Some t False s by (simp add: tg_expand_def u_def)
      then show ?thesis using open_sub_ok [OF u(1)] open_sub_keys u(2) by simp
    next
      case None
      define k where "k = tg_next u"
      define x where "x = upd_view n (\<lambda>v. v\<lparr>vr_sub := Some (Some k, False)\<rparr>) (u\<lparr>tg_next := Suc k\<rparr>)"
      have "tg_ok x" unfolding x_def by (rule upd_view_ok) (use u in \<open>auto simp: vkey_def row_ok_def spans_def\<close>)
      moreover have "tg_expand E n s = Some (ask_rows E n (Some n) True (Some k) x)"
        using Some t False None by (simp add: tg_expand_def Let_def x_def k_def flip: u_def)
      moreover have "keys x = keys s" using u(2) by (simp add: x_def)
      ultimately show ?thesis using ask_ok [of x n True] by (simp add: ask_keys)
    qed
  qed
qed

lemma collapse_ok:
  assumes "tg_ok s"
  shows "\<exists>u. tg_collapse E n s = Some u \<and> tg_ok u \<and> keys u = keys s"
proof (cases "row_elem (tg_view s) n")
  case None
  then show ?thesis using assms by (simp add: tg_collapse_def)
next
  case (Some w)
  then obtain t where t: "tg_find (tg_data s) n = Some t" using ok_elem [OF assms] by blast
  show ?thesis
  proof (cases "vr_hit (lab w) \<noteq> Some True \<or> \<not> te_allows E (TgBeforeCollapse n)")
    case True
    then show ?thesis using Some assms by (auto simp: tg_collapse_def)
  next
    case False
    have "rkey (r\<lparr>rw_state := b\<rparr>) = rkey r" for r b by (simp add: rkey_def)
    note d = upd_data_ok [OF assms, of "\<lambda>r. r\<lparr>rw_state := Some False\<rparr>" n, OF this]
    have "tg_view (upd_data n (\<lambda>r. r\<lparr>rw_state := Some False\<rparr>) s) = tg_view s" by (simp add: upd_data_def)
    then have "tg_ok (upd_view n (\<lambda>v. v\<lparr>vr_hit := Some False, vr_open := False, vr_sub := map_option (\<lambda>(k, _). (k, False)) (vr_sub v)\<rparr>)
        (upd_data n (\<lambda>r. r\<lparr>rw_state := Some False\<rparr>) s))"
      by (intro upd_view_ok) (use d Some False in \<open>auto simp: vkey_def row_ok_def spans_def\<close>)
    then show ?thesis using Some t False d(2) by (simp add: tg_collapse_def)
  qed
qed

section \<open>Adding and removing rows\<close>

lemma tg_append_ok:
  assumes "tg_ok s" and "input_fits E p (Rows ts) (tg_data s)" and "p = 0 \<or> tg_find (tg_data s) p \<noteq> None"
  shows "\<exists>u. tg_append E p ts s = Some u \<and> tg_ok u \<and> keys u = grown p (relabel rkey (input_rows E p (Rows ts))) (keys s)"
proof (cases "p = 0")
  case True
  then show ?thesis using tg_load_ok [of s E p "Rows ts" True] assms by (simp add: tg_append_def takes_rows_def)
next
  case False
  then obtain t where t: "tg_find (tg_data s) p = Some t" using assms(3) by blast
  obtain w where w: "row_elem (tg_view s) p = Some w" "vr_id (lab w) = p" using ok_found [OF assms(1) t] by blast
  have af: "vr_hit (as_folder v) \<noteq> None \<and> vr_sub (as_folder v) \<noteq> None" if "vr_folder v = (vr_hit v \<noteq> None)" for v
    using that by (auto simp: as_folder_def Let_def)
  have rw: "row_ok m (as_folder v) cs" if "row_ok m v cs" for m v cs
    using that by (auto simp: as_folder_def row_ok_def spans_def Let_def)
  have k: "vkey (as_folder v) = vkey v" for v by (simp add: as_folder_def vkey_def Let_def)
  define u where "u = upd_view p as_folder s"
  have u: "tg_ok u" unfolding u_def by (rule upd_view_ok [OF assms(1) k rw])
  have wn: "w \<in> set (nodes (tg_view s))" using w(1) by (auto simp: row_elem_def dest!: node_found)
  obtain m where m: "row_ok m (lab w) (kids w)" using faces_node [OF _ wn, of 0] assms(1) by (auto simp: tg_ok_def)
  have "row_elem (tg_view u) p = Some (map_rose (\<lambda>v. if vr_id v = p then as_folder v else v) w)"
  proof -
    have "(\<lambda>v. vr_id (if vr_id v = p then as_folder v else v) = p) = (\<lambda>v. vr_id v = p)"
      by (auto simp: fun_eq_iff as_folder_def Let_def)
    then show ?thesis using w(1) by (simp add: u_def upd_view_def mark_row_def row_elem_def find_relabel)
  qed
  then have "takes_rows p u" using af [of "lab w"] m w(2) by (cases w) (auto simp: takes_rows_def row_ok_def)
  then show ?thesis using tg_load_ok [OF u, of E p "Rows ts" True] assms(2) False
    by (simp add: tg_append_def u_def) (simp add: upd_view_def keys_def)
qed

lemma path_relabel: "path_to P (relabel f ts) = map_option (map f) (path_to (\<lambda>x. P (f x)) ts)"
  by (induction ts rule: forest_induct) (auto split: option.split)

lemma index_relabel: "index_where (\<lambda>t. Q (lab t)) (relabel f cs) = index_where (\<lambda>t. Q (f (lab t))) cs"
proof (induction cs)
  case (Cons t cs)
  then show ?case by (cases t) simp
qed simp

lemma relabel_place: "relabel f (place_last front (\<lambda>x. key (f x)) d cs) = place_last front key d (relabel f cs)"
proof -
  have l: "cs \<noteq> [] \<Longrightarrow> last (relabel f cs) = map_rose f (last cs)" by (simp add: relabel_def last_map)
  show ?thesis
  proof (cases "index_where (\<lambda>t. key (f (lab t)) = d) cs")
    case None
    then show ?thesis by (simp add: place_last_def index_relabel [of "\<lambda>x. key x = d"])
  next
    case (Some i)
    then have "cs \<noteq> []" by (cases cs) auto
    then show ?thesis using Some l
      by (simp add: place_last_def index_relabel [of "\<lambda>x. key x = d"] Let_def) (simp add: relabel_def map_butlast take_map drop_map)
  qed
qed

lemma place_root:
  assumes "path_to (\<lambda>x. key x = d) os = Some []" and "distinct (map key (labels os))"
  shows "place_last front key d (os @ [u]) = put_beside front key d [u] os"
proof -
  obtain xs t ys where s: "os = xs @ t # ys" "key (lab t) = d" "d \<notin> set (map key (labels xs))" "d \<notin> set (map key (labels ys))"
    using root_split [OF assms] by blast
  have "index_where (\<lambda>t. key (lab t) = d) (xs @ t # zs) = Some (length xs)" for zs
  proof -
    have "\<forall>u\<in>set xs. key (lab u) \<noteq> d" using s(3) root_label by fastforce
    then show ?thesis using s(2) by (induction xs) simp_all
  qed
  then show ?thesis unfolding put_beside_root [OF s(3,4,2)] s(1) by (simp add: place_last_def Let_def butlast_append)
qed

text \<open>The last child of the row \<open>p\<close> beside \<open>d\<close>: the same forest on both sides.\<close>

lemma place_grown:
  assumes "distinct (map fst (labels K))" and "path_to (\<lambda>k. fst k = d) K = Some q" and "p = (if q = [] then 0 else fst (last q))"
    and "q \<noteq> [] \<Longrightarrow> p \<noteq> 0"
  shows "(if q = [] then place_last front fst d (grown p [u] K) else set_kids (\<lambda>k. fst k = p) (place_last front fst d) (grown p [u] K)) =
    put_beside front fst d [u] K"
proof (cases "q = []")
  case True
  then show ?thesis using place_root [OF _ assms(1)] assms(2,3) by (simp add: grown_def)
next
  case False
  have "set_kids (\<lambda>k. fst k = fst (last q)) (\<lambda>cs. place_last front fst d (cs @ [u])) K = put_beside front fst d [u] K"
    unfolding put_beside_def by (rule set_kids_alter [OF _ assms(1,2) False]) (simp add: place_root put_beside_def)
  then show ?thesis using False assms(3,4) by (simp add: grown_def set_kids_set_kids)
qed

lemma kill_grown:
  assumes "n \<notin> set (map fst (labels K))" and "fst (lab u) = n"
  shows "kill fst n (grown p [u] K) = K"
proof -
  have k: "kill fst n ts = ts" if "n \<notin> set (map fst (labels ts))" for ts :: "(nat \<times> row) rose list" using kill_other [OF that] .
  have a: "kill fst n (ts @ [u]) = kill fst n ts" for ts using assms(2) by (cases u) (simp add: kill_def)
  have "kill fst n (set_kids (\<lambda>k. fst k = p) (\<lambda>cs. cs @ [u]) ts) = ts" if "n \<notin> set (map fst (labels ts))" for ts
    using that by (induction ts rule: forest_induct) (auto simp: a k)
  then show ?thesis using assms(1) a k by (simp add: grown_def)
qed

lemma nodes_grown:
  assumes "p = 0 \<or> p \<in> set (map fst (labels K))"
  shows "u \<in> set (nodes (grown p [u] K))"
proof -
  have "u \<in> set (nodes (set_kids (\<lambda>k. fst k = p) (\<lambda>cs. cs @ [u]) ts))" if "p \<in> set (map fst (labels ts))" for ts
    using that nodes_roots [of "[u]"] by (induction ts rule: forest_induct) auto
  then show ?thesis using assms nodes_roots [of "[u]"] by (auto simp: grown_def)
qed

lemma place_set: "set (place_last front key d cs) = set cs"
proof (cases "index_where (\<lambda>t. key (lab t) = d) cs")
  case None
  then show ?thesis by (simp add: place_last_def)
next
  case (Some i)
  then have i: "i < length cs" by (auto dest: index_where_Some)
  define j where "j = (if front then i else Suc i)"
  have j: "j \<le> length cs" using i by (simp add: j_def)
  have e: "place_last front key d cs = butlast (take j cs @ last cs # drop j cs)" using Some by (simp add: place_last_def j_def Let_def)
  show ?thesis
  proof (cases "drop j cs = []")
    case True
    then show ?thesis using j i by (simp add: e butlast_append)
  next
    case False
    have "set cs = set (take j cs) \<union> set (drop j cs)" by (metis append_take_drop_id set_append)
    moreover have "set (drop j cs) = insert (last cs) (set (butlast (drop j cs)))"
      using False by (metis append_butlast_last_id last_drop drop_eq_Nil not_le list.set(1,2) set_append Un_insert_right sup_bot_right)
    ultimately show ?thesis using False by (simp add: e butlast_append)
  qed
qed

lemma under_all: "under p cs \<longleftrightarrow> (\<forall>t\<in>set cs. under p [t])" and arrays_all: "arrays cs \<longleftrightarrow> (\<forall>t\<in>set cs. arrays [t])"
proof (induction cs)
  case (Cons t cs)
  { case 1 show ?case using Cons under_simps(3) [of p "[t]" cs] by simp }
  { case 2 show ?case using Cons arrays_simps(3) [of "[t]" cs] by simp }
qed simp_all

lemma place_under: "under p (place_last front key d cs) = under p cs" and place_arrays: "arrays (place_last front key d cs) = arrays cs"
  using under_all [of p "place_last front key d cs"] under_all [of p cs] arrays_all [of "place_last front key d cs"] arrays_all [of cs]
  by (simp_all add: place_set)

lemma place_empty: "place_last front key d cs = [] \<longleftrightarrow> cs = []"
  using place_set [of front key d cs] by (metis set_empty)

lemma place_kids_ok:
  "under p (set_kids P (place_last front key d) D) = under p D" "arrays (set_kids P (place_last front key d) D) = arrays D"
proof (induction D arbitrary: p rule: forest_induct)
  case (Rose r cs ts)
  { case 1 show ?case using Rose by (simp add: place_under) }
  { case 2 show ?case using Rose by (simp add: place_arrays place_empty set_kids_empty) }
qed simp_all

lemma find_kids: "find_node P (set_kids P h K) = map_option (\<lambda>t. Rose (lab t) (h (kids t))) (find_node P K)"
  by (induction K rule: forest_induct) (auto split: option.split)

lemma faces_root: "faces l V \<Longrightarrow> t \<in> set V \<Longrightarrow> spans (lab t) = Suc l \<and> faces l [t]"
  by (induction l V rule: faces.induct) (auto simp: row_ok_def)

text \<open>Rows in one list have the same number of spans.\<close>

lemma beside_spans:
  assumes "tg_ok u" and "keys u = grown p [k] K" and "path_to (\<lambda>k. fst k = d) K = Some q" and "p = (if q = [] then 0 else fst (last q))"
    and "row_elem (tg_view u) (fst (lab k)) = Some x" and "row_elem (tg_view u) d = Some y" and "distinct (map fst (labels K))" and "q \<noteq> [] \<Longrightarrow> p \<noteq> 0"
  shows "\<exists>m. faces m [x] \<and> spans (lab y) = Suc m"
proof -
  have k: "relabel vkey (tg_view u) = grown p [k] K" using assms(1,2) by (simp add: tg_ok_def keys_def)
  have one: "\<exists>m. faces m [x] \<and> spans (lab y) = Suc m" if "faces m L" "k \<in> set (relabel vkey L)" "\<exists>t\<in>set (relabel vkey L). fst (lab t) = d" "set L \<subseteq> set (nodes (tg_view u))" for m L
  proof -
    from that(2) obtain a where a: "a \<in> set L" "map_rose vkey a = k" by (auto simp: relabel_def)
    from that(3) obtain b where b: "b \<in> set L" "fst (lab (map_rose vkey b)) = d" by (auto simp: relabel_def)
    have "vr_id (lab a) = fst (lab k)" using a(2) by (cases a) auto
    then have "a = x" using elem_only [OF assms(1,5)] a(1) that(4) by auto
    have "vr_id (lab b) = d" using b(2) by (cases b) auto
    then have "b = y" using elem_only [OF assms(1,6)] b(1) that(4) by auto
    show ?thesis using faces_root [OF that(1) a(1)] faces_root [OF that(1) b(1)] \<open>a = x\<close> \<open>b = y\<close> by auto
  qed
  obtain t where t: "find_node (\<lambda>k. fst k = d) K = Some t"
    "if q = [] then t \<in> set K else \<exists>u\<in>set (nodes K). lab u = last q \<and> t \<in> set (kids u)" using path_found [OF assms(3)] by blast
  have td: "fst (lab t) = d" using node_found [OF t(1)] by simp
  show ?thesis
  proof (cases "q = []")
    case True
    then show ?thesis using one [of 0 "tg_view u"] k t td assms(1,4) nodes_roots by (auto simp: grown_def tg_ok_def)
  next
    case False
    then obtain v where v: "v \<in> set (nodes K)" "lab v = last q" "t \<in> set (kids v)" using t(2) by auto
    then have f: "find_node (\<lambda>k. fst k = p) K = Some v" using node_at [OF assms(7), of v] assms(4) False by simp
    have "find_node (\<lambda>k. fst k = p) (relabel vkey (tg_view u)) = Some (Rose (lab v) (kids v @ [k]))"
      unfolding k grown_def using f assms(8) False by (simp add: find_kids)
    then obtain w where w: "find_node (\<lambda>v. vr_id v = p) (tg_view u) = Some w" "map_rose vkey w = Rose (lab v) (kids v @ [k])"
      by (auto simp: find_relabel)
    have wn: "w \<in> set (nodes (tg_view u))" using node_found [OF w(1)] by simp
    obtain m where m: "faces (Suc m) (kids w)" using faces_node [OF _ wn, of 0] assms(1) by (auto simp: tg_ok_def)
    have "relabel vkey (kids w) = kids v @ [k]" using w(2) by (cases w) (simp add: relabel_def)
    then show ?thesis using one [OF m] v(3) td nodes_roots [of "kids w"] nodes_below [OF wn] by auto
  qed
qed

end
