(* ===== verification/Tg_Steps.thy ===== *)
theory Tg_Steps
  imports Tg_Ops
begin

text \<open>
  Sequences of operations of the tree grid: what stays true through them, and that none of them throws while it is given rows
  that fit.
\<close>

lemma found_path:
  assumes "tg_ok s" and "tg_find (tg_data s) d = Some t"
  obtains q where "path_to (\<lambda>r. rw_id r = d) (tg_data s) = Some q"
    and "parent_of (tg_data s) d = Some (if q = [] then None else find_node (\<lambda>r. rw_id r = rw_id (last q)) (tg_data s))"
    and "q \<noteq> [] \<Longrightarrow> \<exists>u\<in>set (nodes (tg_data s)). find_node (\<lambda>r. rw_id r = rw_id (last q)) (tg_data s) = Some u \<and> lab u = last q"
    and "q \<noteq> [] \<Longrightarrow> rw_id (last q) \<noteq> 0"
proof -
  have "find_node (\<lambda>r. rw_id r = d) (tg_data s) = Some t" using assms by (simp add: tg_ok_def tg_find_node)
  then obtain q where q: "path_to (\<lambda>r. rw_id r = d) (tg_data s) = Some q"
    by (cases "path_to (\<lambda>r. rw_id r = d) (tg_data s)") (auto simp: path_to_None labels_nodes dest!: node_found)
  note p = parent_path [OF _ _ _ q]
  have "q \<noteq> [] \<Longrightarrow> rw_id (last q) \<noteq> 0"
  proof -
    assume "q \<noteq> []"
    then have "last q \<in> set (labels (tg_data s))" using path_to_labels [OF q] by auto
    then show ?thesis using assms(1) by (auto simp: tg_ok_def rids_def)
  qed
  then show thesis using that [OF q] p assms(1) by (simp add: tg_ok_def)
qed

definition parent_id :: "nat \<Rightarrow> treegrid \<Rightarrow> nat" where
  "parent_id d s = (case parent_of (tg_data s) d of Some (Some u) \<Rightarrow> rw_id (lab u) | _ \<Rightarrow> 0)"

lemma parent_id_path:
  assumes "tg_ok s" and "tg_find (tg_data s) d = Some t"
  obtains q where "path_to (\<lambda>k. fst k = d) (keys s) = Some q" and "parent_id d s = (if q = [] then 0 else fst (last q))"
    and "q \<noteq> [] \<Longrightarrow> parent_id d s \<noteq> 0" and "q = [] \<Longrightarrow> parent_of (tg_data s) d = Some None"
    and "q \<noteq> [] \<Longrightarrow> \<exists>u. parent_of (tg_data s) d = Some (Some u) \<and> rw_id (lab u) = parent_id d s \<and> tg_find (tg_data s) (rw_id (lab u)) = Some u"
proof -
  obtain q where q: "path_to (\<lambda>r. rw_id r = d) (tg_data s) = Some q"
    "parent_of (tg_data s) d = Some (if q = [] then None else find_node (\<lambda>r. rw_id r = rw_id (last q)) (tg_data s))"
    "q \<noteq> [] \<Longrightarrow> \<exists>u\<in>set (nodes (tg_data s)). find_node (\<lambda>r. rw_id r = rw_id (last q)) (tg_data s) = Some u \<and> lab u = last q"
    "q \<noteq> [] \<Longrightarrow> rw_id (last q) \<noteq> 0" using found_path [OF assms] by blast
  have k: "path_to (\<lambda>k. fst k = d) (keys s) = Some (map rkey q)" using q(1) by (simp add: keys_def path_relabel)
  have p: "parent_id d s = (if q = [] then 0 else rw_id (last q))" using q(2,3) by (auto simp: parent_id_def)
  show thesis
  proof (rule that [OF k])
    show "parent_id d s = (if map rkey q = [] then 0 else fst (last (map rkey q)))" using p by (simp add: last_map)
    show "parent_id d s \<noteq> 0" if "map rkey q \<noteq> []" using p q(4) that by simp
    show "parent_of (tg_data s) d = Some None" if "map rkey q = []" using q(2) that by simp
    show "\<exists>u. parent_of (tg_data s) d = Some (Some u) \<and> rw_id (lab u) = parent_id d s \<and> tg_find (tg_data s) (rw_id (lab u)) = Some u" if "map rkey q \<noteq> []"
    proof -
      have n: "q \<noteq> []" using that by simp
      then obtain u where u: "find_node (\<lambda>r. rw_id r = rw_id (last q)) (tg_data s) = Some u" "lab u = last q" using q(3) by blast
      then have "tg_find (tg_data s) (rw_id (lab u)) = Some u" using assms(1) by (simp add: tg_find_node tg_ok_def)
      then show ?thesis using q(2) n u p by auto
    qed
  qed
qed

lemma keys_rids: "map fst (labels (keys s)) = rids (tg_data s)"
  by (simp add: keys_def rids_def comp_def)

lemma distinct_keys: "tg_ok s \<Longrightarrow> distinct (map fst (labels (keys s)))"
  by (simp add: keys_rids tg_ok_def)

section \<open>Inserting\<close>

text \<open>The new row is put last and then moved: in the rows by its index, in the elements by its identifier.\<close>

lemma place_data_ok:
  assumes "tg_ok u" and "keys u = grown p [k] K" and "distinct (map fst (labels K @ labels [k]))" and "0 \<notin> set (map fst (labels K @ labels [k]))"
    and "path_to (\<lambda>k. fst k = d) K = Some q" and "p = (if q = [] then 0 else fst (last q))" and "q \<noteq> [] \<Longrightarrow> p \<noteq> 0"
    and "D = (if q = [] then place_last front rw_id d (tg_data u) else set_kids (\<lambda>r. rw_id r = p) (place_last front rw_id d) (tg_data u))"
  shows "relabel rkey D = put_beside front fst d [k] K" and "distinct (rids D)" and "0 \<notin> set (rids D)" and "under 0 D" and "arrays D"
proof -
  have K: "distinct (map fst (labels K))" using assms(3) by simp
  have dK: "d \<in> set (map fst (labels K))" using assms(5) path_to_None [of "\<lambda>k. fst k = d" K] by auto
  have place: "relabel rkey (place_last front rw_id d cs) = place_last front fst d (relabel rkey cs)" for cs
    using relabel_place [of rkey front fst d cs] by simp
  have "relabel rkey D = (if q = [] then place_last front fst d (keys u) else set_kids (\<lambda>k. fst k = p) (place_last front fst d) (keys u))"
    unfolding assms(8) keys_def using place by (auto intro: relabel_set_kids)
  then show kD: "relabel rkey D = put_beside front fst d [k] K"
    unfolding assms(2) using place_grown [OF K assms(5-7)] by simp
  have "mset (map fst (labels (put_beside front fst d [k] K))) = mset (map fst (labels K @ labels [k]))"
    using put_beside_mset [OF dK K, of front "[k]"] by (simp flip: image_mset_union)
  then have m: "mset (rids D) = mset (map fst (labels K @ labels [k]))" by (simp flip: kD) (simp add: rids_def comp_def)
  show "distinct (rids D)" using mset_eq_imp_distinct_iff [OF m] assms(3) by simp
  show "0 \<notin> set (rids D)" using mset_eq_setD [OF m] assms(4) by simp
  show "under 0 D" "arrays D" using assms(1) place_under place_arrays place_kids_ok by (simp_all add: assms(8) tg_ok_def)
qed

lemma move_row_ok:
  assumes "tg_ok u" and "keys u = grown p [k] K" and "distinct (map fst (labels K))" and "fst (lab k) \<notin> set (map fst (labels K))"
    and "path_to (\<lambda>k. fst k = d) K = Some q" and "p = (if q = [] then 0 else fst (last q))" and "q \<noteq> [] \<Longrightarrow> p \<noteq> 0"
  shows "relabel vkey (move_row front d (fst (lab k)) (tg_view u)) = put_beside front fst d [k] K" and "faces 0 (move_row front d (fst (lab k)) (tg_view u))"
proof -
  let ?n = "fst (lab k)"
  have uk: "relabel vkey (tg_view u) = grown p [k] K" using assms(1,2) by (simp add: tg_ok_def keys_def)
  have pK: "p = 0 \<or> p \<in> set (map fst (labels K))" using assms(6) path_to_labels [OF assms(5)] by (auto dest!: last_in_set)
  have du: "distinct (map fst (labels (grown p [k] K)))" using distinct_keys [OF assms(1)] assms(2) by simp
  have "find_node (\<lambda>x. fst x = ?n) (grown p [k] K) = Some k" using node_at [OF du nodes_grown [OF pK]] by simp
  then obtain y where y: "row_elem (tg_view u) ?n = Some y" "map_rose vkey y = k"
    by (auto simp: find_relabel row_elem_def simp flip: uk)
  have Ve: "move_row front d ?n (tg_view u) = put_beside front vr_id d [y] (kill vr_id ?n (tg_view u))" using y(1) by (simp add: move_row_def)
  have "relabel vkey (put_beside front (\<lambda>x. fst (vkey x)) d [y] (kill (\<lambda>x. fst (vkey x)) ?n (tg_view u))) =
      put_beside front fst d (relabel vkey [y]) (kill fst ?n (relabel vkey (tg_view u)))"
    by (simp only: relabel_put_beside relabel_kill)
  moreover have "relabel vkey [y] = [k]" using y(2) by (simp add: relabel_def)
  ultimately show "relabel vkey (move_row front d ?n (tg_view u)) = put_beside front fst d [k] K"
    unfolding Ve uk using kill_grown [OF assms(4) refl, of p] by simp
  show "faces 0 (move_row front d ?n (tg_view u))" unfolding Ve
  proof (rule faces_put_beside)
    show "faces 0 (kill vr_id ?n (tg_view u))" using faces_kill assms(1) by (simp add: tg_ok_def)
    fix z m
    assume z: "z \<in> set (nodes (kill vr_id ?n (tg_view u)))" "vr_id (lab z) = d" "row_ok m (lab z) (kids z)"
    have "lab z \<in> set (labels (tg_view u))" using z(1) kill_labels [of vr_id ?n "tg_view u"] by (auto simp: labels_nodes)
    then obtain w where w: "w \<in> set (nodes (tg_view u))" "lab w = lab z" by (auto simp: labels_nodes)
    then have "row_elem (tg_view u) d = Some w" using elem_in [OF assms(1) w(1)] z(2) by simp
    from beside_spans [OF assms(1,2,5,6) y(1) this assms(3,7)] obtain j where "faces j [y]" "spans (lab w) = Suc j" by blast
    then show "faces m [y]" using z(3) w(2) by (simp add: row_ok_def)
  qed
qed

lemma insert_row_ok:
  assumes "tg_ok s" and "tg_find (tg_data s) d = Some x" and "te_filter E (parent_id d s) (Rows [t]) = Rows [t]"
    and "input_fits E (parent_id d s) (Rows [t]) (tg_data s)"
  shows "\<exists>u. tg_insert E front d t s = Some u \<and> tg_ok u \<and> keys u = put_beside front fst d [map_rose rkey t] (keys s)"
proof -
  define p where "p = parent_id d s"
  obtain q where q: "path_to (\<lambda>k. fst k = d) (keys s) = Some q" "p = (if q = [] then 0 else fst (last q))" "q \<noteq> [] \<Longrightarrow> p \<noteq> 0"
    "q = [] \<Longrightarrow> parent_of (tg_data s) d = Some None"
    "q \<noteq> [] \<Longrightarrow> \<exists>u. parent_of (tg_data s) d = Some (Some u) \<and> rw_id (lab u) = p \<and> tg_find (tg_data s) (rw_id (lab u)) = Some u"
    unfolding p_def using parent_id_path [OF assms(1,2)] by metis
  define k where "k = map_rose rkey t"
  have k: "fst (lab k) = rw_id (lab t)" by (cases t) (simp add: k_def)
  have "input_rows E p (Rows [t]) = adopt p [t]" using assms(3) by (simp add: input_rows_def p_def)
  then have ik: "relabel rkey (input_rows E p (Rows [t])) = [k]" by (simp add: k_def relabel_def [of rkey "[t]"])
  have pf: "p = 0 \<or> tg_find (tg_data s) p \<noteq> None" using q(2,3,5) by fastforce
  obtain u where u: "tg_append E p [t] s = Some u" "tg_ok u" "keys u = grown p [k] (keys s)"
    using tg_append_ok [OF assms(1) assms(4) [folded p_def] pf] ik by auto
  have K: "distinct (map fst (labels (keys s)))" "0 \<notin> set (map fst (labels (keys s)))"
    using distinct_keys [OF assms(1)] assms(1) keys_rids [of s] unfolding tg_ok_def by simp_all
  have fit: "distinct (rids [t])" "0 \<notin> set (rids [t])" "set (rids (tg_data s)) \<inter> set (rids [t]) = {}"
    using assms(4) by (simp_all add: input_fits_def assms(3))
  have rk: "map fst (labels [k]) = rids [t]" unfolding k_def rids_def by (cases t) (simp add: relabel_def [symmetric] comp_def)
  have both: "map fst (labels (keys s) @ labels [k]) = map fst (labels (keys s)) @ rids [t]" using rk by simp
  have all: "distinct (map fst (labels (keys s) @ labels [k]))" "0 \<notin> set (map fst (labels (keys s) @ labels [k]))"
    unfolding both using K fit keys_rids [of s] by simp_all
  have nK: "fst (lab k) \<notin> set (map fst (labels (keys s)))"
    using fit(3) keys_rids [of s] unfolding k by (cases t) auto
  define D where "D = (if q = [] then place_last front rw_id d (tg_data u) else set_kids (\<lambda>r. rw_id r = p) (place_last front rw_id d) (tg_data u))"
  define V where "V = move_row front d (rw_id (lab t)) (tg_view u)"
  note D = place_data_ok [OF u(2,3) all q(1,2,3) D_def]
  note V = move_row_ok [OF u(2,3) K(1) nK q(1,2,3), of front, unfolded k, folded V_def]
  have ok: "tg_ok (u\<lparr>tg_data := D, tg_view := V\<rparr>)" using tg_ok_fields [OF D(2-5) _ V(2) u(2)] D(1) V(1) by simp
  have "tg_insert E front d t s = Some (show_lines (fix_numbers (u\<lparr>tg_data := D, tg_view := V\<rparr>)))"
  proof (cases "q = []")
    case True
    then show ?thesis using q(2,4) u(1) by (simp add: tg_insert_def D_def V_def)
  next
    case False
    then obtain v where "parent_of (tg_data s) d = Some (Some v)" "rw_id (lab v) = p" using q(5) by blast
    then show ?thesis using False u(1) by (simp add: tg_insert_def D_def V_def kids_data_def)
  qed
  then show ?thesis using ok D(1) by (simp add: keys_def k_def)
qed

section \<open>Removing\<close>

lemma kill_under: "under p ts \<Longrightarrow> under p (kill rw_id n ts)" and kill_arrays: "arrays ts \<Longrightarrow> arrays (kill rw_id n ts)"
proof (induction ts arbitrary: p rule: forest_induct)
  case (Rose r cs ts)
  { case 1 then show ?case using Rose by simp }
  { case 2 then show ?case using Rose by auto }
qed simp_all

lemma kids_view_same: "(\<And>t. t \<in> set (nodes V) \<Longrightarrow> P (lab t) \<Longrightarrow> h (kids t) = kids t) \<Longrightarrow> set_kids P h V = V"
proof (induction V rule: forest_induct)
  case (Rose x cs ts)
  then show ?case using Rose.prems [of "Rose x cs"] by simp
qed simp

definition without :: "nat \<Rightarrow> treegrid \<Rightarrow> treegrid" where
  "without n s = s\<lparr>tg_data := kill rw_id n (tg_data s), tg_view := kill vr_id n (tg_view s)\<rparr>"

lemma without_ok:
  assumes "tg_ok s"
  shows "tg_ok (without n s)" and "keys (without n s) = kill fst n (keys s)"
proof -
  have d: "distinct (map rw_id (labels (tg_data s)))" using assms by (simp add: tg_ok_def rids_def)
  have k: "relabel rkey (kill rw_id n (tg_data s)) = kill fst n (keys s)" using relabel_kill [of rkey fst n "tg_data s"] by (simp add: keys_def)
  have v: "relabel rkey (kill rw_id n (tg_data s)) = relabel vkey (kill vr_id n (tg_view s))"
    using relabel_kill [of vkey fst n "tg_view s"] assms k by (simp add: keys_def tg_ok_def)
  show "keys (without n s) = kill fst n (keys s)" using k by (simp add: without_def keys_def)
  show "tg_ok (without n s)" unfolding without_def
    by (rule tg_ok_fields [OF _ _ _ _ v _ assms])
      (use kill_distinct [OF d, of n] kill_labels [of rw_id n "tg_data s"] kill_under kill_arrays faces_kill assms in \<open>auto simp: rids_def tg_ok_def\<close>)
qed

text \<open>A parent that has no child left: its row below was empty already, and it gets the face of a row without children.\<close>

lemma leaf_face_ok:
  assumes "tg_ok s" and "tg_find (tg_data s) p = Some v" and "kids v \<noteq> []" and "find_node (\<lambda>r. rw_id r = p) (kill rw_id n (tg_data s)) = Some (Rose (lab v) [])"
  shows "kids_view p (\<lambda>_. []) (without n s) = without n s" and "tg_ok (upd_view p as_leaf (without n s))"
proof -
  note ok = without_ok(1) [OF assms(1), of n]
  define V where "V = tg_view (without n s)"
  have k: "relabel rkey (kill rw_id n (tg_data s)) = relabel vkey V" using ok by (simp add: V_def tg_ok_def) (simp add: without_def)
  obtain w where w: "row_elem (tg_view s) p = Some w" "kids v = [] \<longleftrightarrow> kids w = []" "w \<in> set (nodes (tg_view s))"
    using ok_found [OF assms(1,2)] by blast
  have hit: "vr_hit (lab w) \<noteq> None" using assms(1,3) w(2) faces_node [OF _ w(3), of 0] by (auto simp: tg_ok_def row_ok_def)
  have empty: "kids y = []" if "y \<in> set (nodes V)" "vr_id (lab y) = p" for y
  proof -
    have "row_elem V p = Some y" using elem_in [OF ok, of y] that by (simp add: V_def)
    then have "Some (Rose (rkey (lab v)) []) = Some (map_rose vkey y)" using find_both [OF k, of p] assms(4) by (simp add: row_elem_def)
    then show ?thesis by (cases y) simp
  qed
  show "kids_view p (\<lambda>_. []) (without n s) = without n s"
    using kids_view_same [of V "\<lambda>v. vr_id v = p" "\<lambda>_. []"] empty by (simp add: kids_view_def V_def)
  show "tg_ok (upd_view p as_leaf (without n s))"
  proof (rule upd_view_ok [OF ok])
    fix y m
    assume y: "row_elem (tg_view (without n s)) p = Some y" "row_ok m (lab y) (kids y)"
    then have yn: "y \<in> set (nodes V)" "vr_id (lab y) = p" by (auto simp: V_def row_elem_def dest!: node_found)
    have "lab y \<in> set (labels (tg_view s))" using yn(1) kill_labels [of vr_id n "tg_view s"] by (auto simp: V_def without_def labels_nodes)
    then obtain z where z: "z \<in> set (nodes (tg_view s))" "lab z = lab y" by (auto simp: labels_nodes)
    then have "z = w" using elem_only [OF assms(1) w(1)] yn(2) by simp
    then show "row_ok m (as_leaf (lab y)) (kids y)" using hit z(2) y(2) empty [OF yn] by (auto simp: row_ok_def as_leaf_def spans_def)
  qed (simp add: as_leaf_def vkey_def)
qed

lemma remove_ends:
  assumes "parent_of (tg_data s) n = Some po" and "cut_row n po (s\<lparr>tg_view := kill vr_id n (tg_view s)\<rparr>) = Some u" and "tg_ok u"
  shows "\<exists>w. tg_remove n s = Some w \<and> tg_ok w \<and> keys w = keys u"
  using assms by (simp add: tg_remove_def Let_def keys_def)

lemma remove_row_ok:
  assumes "tg_ok s" and "tg_find (tg_data s) n = Some x"
  shows "\<exists>u. tg_remove n s = Some u \<and> tg_ok u \<and> keys u = kill fst n (keys s)"
proof -
  obtain q where q: "path_to (\<lambda>r. rw_id r = n) (tg_data s) = Some q"
    "parent_of (tg_data s) n = Some (if q = [] then None else find_node (\<lambda>r. rw_id r = rw_id (last q)) (tg_data s))"
    "q \<noteq> [] \<Longrightarrow> \<exists>u\<in>set (nodes (tg_data s)). find_node (\<lambda>r. rw_id r = rw_id (last q)) (tg_data s) = Some u \<and> lab u = last q"
    using found_path [OF assms] by blast
  have dist: "distinct (map rw_id (labels (tg_data s)))" using assms(1) by (simp add: tg_ok_def rids_def)
  have swap: "s\<lparr>tg_view := kill vr_id n (tg_view s), tg_data := kill rw_id n (tg_data s)\<rparr> = without n s" by (simp add: without_def)
  note ok = without_ok [OF assms(1), of n]
  show ?thesis
  proof (cases "q = []")
    case True
    have "drop_key rw_id n (tg_data s) = kill rw_id n (tg_data s)" by (rule drop_key_root [OF dist path_root]) (use q(1) True in simp)
    then have "cut_row n None (s\<lparr>tg_view := kill vr_id n (tg_view s)\<rparr>) = Some (without n s)" using swap by (simp add: cut_row_def)
    then show ?thesis using remove_ends [of s n None] q(2) True ok by simp
  next
    case False
    then obtain v where v: "v \<in> set (nodes (tg_data s))" "find_node (\<lambda>r. rw_id r = rw_id (last q)) (tg_data s) = Some v" "lab v = last q" using q(3) by blast
    define p where "p = rw_id (last q)"
    have vp: "tg_find (tg_data s) p = Some v" using v assms(1) by (simp add: p_def tg_find_node tg_ok_def)
    have dk: "set_kids (\<lambda>r. rw_id r = p) (drop_key rw_id n) (tg_data s) = kill rw_id n (tg_data s)"
      unfolding p_def by (rule drop_key_at [OF dist q(1) False])
    obtain t v' where "v' \<in> set (nodes (tg_data s))" "lab v' = last q" "t \<in> set (kids v')" using path_found [OF q(1)] False by auto
    then have nv: "kids v \<noteq> []" using nodes_unique [OF dist, of v v'] v by auto
    then have "rw_array (lab v)" using assms(1) v(1) by (auto simp: tg_ok_def arrays_def)
    then have c: "cut_row n (Some v) (s\<lparr>tg_view := kill vr_id n (tg_view s)\<rparr>) =
        Some (if drop_key rw_id n (kids v) = [] then upd_view p as_leaf (kids_view p (\<lambda>_. []) (without n s)) else without n s)"
      using v(3) dk by (simp add: cut_row_def kids_data_def swap p_def Let_def)
    have "find_node (\<lambda>r. rw_id r = p) (kill rw_id n (tg_data s)) = Some (Rose (lab v) [])" if "drop_key rw_id n (kids v) = []"
      using v(2) that by (simp add: find_kids p_def flip: dk)
    note l = leaf_face_ok [OF assms(1) vp nv this]
    show ?thesis
    proof (cases "drop_key rw_id n (kids v) = []")
      case True
      then show ?thesis using remove_ends [of s n "Some v"] q(2) v(2) False c l ok(2) by simp
    next
      case nl: False
      then show ?thesis using remove_ends [of s n "Some v"] q(2) v(2) False c ok by simp
    qed
  qed
qed

section \<open>Updating, reloading, answers\<close>

definition keeps_row :: "(trow \<Rightarrow> trow) \<Rightarrow> bool" where
  "keeps_row f \<longleftrightarrow> (\<forall>r. rw_id (f r) = rw_id r \<and> rw_parent (f r) = rw_parent r \<and> rw_array (f r) = rw_array r)"

lemma update_row_ok:
  assumes "tg_ok s" and "tg_find (tg_data s) n = Some t" and "keeps_row f"
  shows "\<exists>u. tg_update n f s = Some u \<and> tg_ok u \<and> keys u = relabel (\<lambda>k. if fst k = n then rkey (f (lab t)) else k) (keys s)"
proof -
  obtain w where w: "row_elem (tg_view s) n = Some w" "w \<in> set (nodes (tg_view s))" "vr_id (lab w) = n" "kids t = [] \<longleftrightarrow> kids w = []"
    "rw_id (lab t) = n" "t \<in> set (nodes (tg_data s))" "n \<noteq> 0" using ok_found [OF assms(1,2)] by blast
  define g where "g = (\<lambda>r. if rw_id r = n then f r else r)"
  define D where "D = relabel g (tg_data s)"
  define V where "V = mark_row n (face_row (row_level (tg_view s) n - 1) (f (lab t)) (kids t)) (tg_view s)"
  have g: "rw_id (g r) = rw_id r" "rw_parent (g r) = rw_parent r" "rw_array (g r) = rw_array r" for r
    using assms(3) by (simp_all add: g_def keeps_row_def)
  have dist: "distinct (map rw_id (labels (tg_data s)))" using assms(1) by (simp add: tg_ok_def rids_def)
  have only: "r = lab t" if "r \<in> set (labels (tg_data s))" "rw_id r = n" for r
    using that dist w(5,6) by (auto simp: labels_nodes dest: nodes_unique [OF dist])
  have kD: "relabel rkey D = relabel (\<lambda>k. if fst k = n then rkey (f (lab t)) else k) (keys s)"
    unfolding D_def keys_def relabel_relabel by (rule relabel_cong) (use only in \<open>auto simp: g_def\<close>)
  have fk: "vkey (face_row l r cs v) = rkey r" for l r cs v by (simp add: face_row_def vkey_def rkey_def Let_def)
  have sv: "relabel vkey (tg_view s) = keys s" using assms(1) by (simp add: tg_ok_def keys_def)
  have kV: "relabel vkey V = relabel (\<lambda>k. if fst k = n then rkey (f (lab t)) else k) (keys s)"
    unfolding V_def mark_row_def sv [symmetric] relabel_relabel by (rule relabel_cong) (simp add: fk)
  have lv: "row_level (tg_view s) n = spans (lab w)" using w(1,7) by (simp add: row_level_def)
  have fV: "faces 0 V" unfolding V_def lv
  proof (rule mark_faces [OF assms(1)])
    fix y m
    assume y: "row_elem (tg_view s) n = Some y" "row_ok m (lab y) (kids y)"
    then have "y = w" using w(1) by simp
    then show "row_ok m (face_row (spans (lab w) - 1) (f (lab t)) (kids t) (lab y)) (kids y)"
      using y(2) w(4) by (auto simp: row_ok_def face_row_def spans_def Let_def)
  qed
  have ok: "tg_ok (s\<lparr>tg_data := D, tg_view := V\<rparr>)"
    by (rule tg_ok_fields [OF _ _ _ _ _ fV assms(1)])
      (use assms(1) g kD kV in \<open>simp_all add: D_def tg_ok_def under_relabel arrays_relabel\<close>)
  have "tg_update n f s = Some (s\<lparr>tg_data := D, tg_view := V\<rparr>)"
    using assms(2) by (simp add: tg_update_def upd_view_def upd_data_def D_def V_def g_def)
  then show ?thesis using ok kD by (simp add: keys_def)
qed

lemma cut_facts:
  "set (labels (set_kids P (\<lambda>_. []) ts)) \<subseteq> set (labels ts)" "distinct (map key (labels ts)) \<Longrightarrow> distinct (map key (labels (set_kids P (\<lambda>_. []) ts)))"
  "under p D \<Longrightarrow> under p (set_kids Q (\<lambda>_. []) D)" "arrays D \<Longrightarrow> arrays (set_kids Q (\<lambda>_. []) D)"
proof -
  show l: "set (labels (set_kids P (\<lambda>_. []) ts)) \<subseteq> set (labels ts)" for ts :: "'a rose list" by (induction ts rule: forest_induct) auto
  show "distinct (map key (labels ts)) \<Longrightarrow> distinct (map key (labels (set_kids P (\<lambda>_. []) ts)))"
  proof (induction ts rule: forest_induct)
    case (Rose x cs ts)
    have s: "key ` set (labels (set_kids P (\<lambda>_. []) us)) \<subseteq> key ` set (labels us)" for us by (rule image_mono [OF l])
    show ?case using Rose s [of cs] s [of ts] by auto blast+
  qed simp
  show "under p D \<Longrightarrow> under p (set_kids Q (\<lambda>_. []) D)" by (induction D arbitrary: p rule: forest_induct) auto
  show "arrays D \<Longrightarrow> arrays (set_kids Q (\<lambda>_. []) D)" by (induction D rule: forest_induct) (auto simp: set_kids_empty)
qed

lemma reload_ok:
  assumes "tg_ok s" and "n = 0 \<or> tg_find (tg_data s) n = Some t"
  shows "\<exists>u. tg_reload E n s = Some u \<and> tg_ok u \<and> keys u = (if n = 0 then keys s else set_kids (\<lambda>k. fst k = n) (\<lambda>_. []) (keys s))"
proof (cases "n = 0")
  case True
  then show ?thesis using ask_ok [OF assms(1), of 0 False] by (simp add: tg_reload_def ask_keys)
next
  case False
  then have t: "tg_find (tg_data s) n = Some t" using assms(2) by simp
  define D where "D = set_kids (\<lambda>r. rw_id r = n) (\<lambda>_. []) (tg_data s)"
  define V where "V = set_kids (\<lambda>v. vr_id v = n) (\<lambda>_. []) (tg_view s)"
  define s' where "s' = s\<lparr>tg_param := n, tg_data := D, tg_view := V\<rparr>"
  have k: "relabel rkey D = set_kids (\<lambda>k. fst k = n) (\<lambda>_. []) (keys s)"
    unfolding D_def keys_def by (rule relabel_set_kids) simp_all
  have kV: "relabel vkey V = set_kids (\<lambda>k. fst k = n) (\<lambda>_. []) (relabel vkey (tg_view s))"
    unfolding V_def by (rule relabel_set_kids) simp_all
  have fV: "faces 0 V" unfolding V_def by (rule faces_set_kids) (use assms(1) in \<open>auto simp: tg_ok_def row_ok_def\<close>)
  have "tg_ok (s\<lparr>tg_data := D, tg_view := V\<rparr>)"
  proof (rule tg_ok_fields [OF _ _ _ _ _ fV assms(1)])
    show "distinct (rids D)" "0 \<notin> set (rids D)" "under 0 D" "arrays D"
      using cut_facts(1) [of "\<lambda>r. rw_id r = n" "tg_data s"] cut_facts(2) [of rw_id "tg_data s"] cut_facts(3,4) assms(1)
      by (auto simp: D_def tg_ok_def rids_def)
    show "relabel rkey D = relabel vkey V" using k kV assms(1) by (simp add: tg_ok_def keys_def)
  qed
  then have ok: "tg_ok s'" by (simp add: s'_def tg_ok_def)
  define u where "u = upd_view n (\<lambda>v. v\<lparr>vr_sub := None, vr_hit := map_option (\<lambda>_. False) (vr_hit v)\<rparr>) s'"
  have empty: "kids w = []" if "row_elem V n = Some w" for w
  proof -
    have "find_node (\<lambda>v. vr_id v = n) V = map_option (\<lambda>t. Rose (lab t) []) (find_node (\<lambda>v. vr_id v = n) (tg_view s))"
      unfolding V_def by (rule find_kids)
    then show ?thesis using that by (auto simp: row_elem_def)
  qed
  have "tg_ok u" unfolding u_def
    by (rule upd_view_ok [OF ok]) (use empty in \<open>auto simp: vkey_def s'_def row_ok_def spans_def\<close>)
  moreover have "tg_reload E n s = tg_expand E n u"
    using t False by (simp add: tg_reload_def u_def s'_def kids_view_def kids_data_def D_def V_def)
  moreover have "keys u = set_kids (\<lambda>k. fst k = n) (\<lambda>_. []) (keys s)" using k by (simp add: u_def s'_def) (simp add: keys_def)
  ultimately show ?thesis using expand_ok [of u E n] False by simp
qed

lemma end_loading_ok: "tg_ok s \<Longrightarrow> tg_ok (end_loading k s)" and end_loading_keys: "keys (end_loading k s) = keys s"
proof -
  show "keys (end_loading k s) = keys s" by (simp add: end_loading_def open_sub_keys split: option.split)
  assume ok: "tg_ok s"
  show "tg_ok (end_loading k s)"
  proof (cases "find_node (\<lambda>v. map_option fst (vr_sub v) = Some (Some k)) (tg_view s)")
    case None
    then show ?thesis using ok by (simp add: end_loading_def)
  next
    case (Some t)
    have t: "t \<in> set (nodes (tg_view s))" using node_found [OF Some] by simp
    have "tg_ok (upd_view (vr_id (lab t)) (\<lambda>v. v\<lparr>vr_sub := None\<rparr>) s)" if "kids t = []"
      by (rule upd_view_ok [OF ok]) (use that elem_in [OF ok t] in \<open>auto simp: vkey_def row_ok_def spans_def\<close>)
    then show ?thesis using Some open_sub_ok [OF ok] by (simp add: end_loading_def)
  qed
qed

definition answer_fits :: "tg_env \<Rightarrow> nat \<Rightarrow> tinput option \<Rightarrow> treegrid \<Rightarrow> bool" where
  "answer_fits E i a s \<longleftrightarrow>
     (case a of None \<Rightarrow> True
      | Some d \<Rightarrow> i < length (tg_requests s) \<longrightarrow>
          (let q = tg_requests s ! i in input_fits E (tq_row q) d (if tq_append q then tg_data s else []) \<and> takes_rows (tq_row q) s))"

lemma answer_ok:
  assumes "tg_ok s" and "answer_fits E i a s"
  shows "\<exists>u. tg_answer E i a s = Some u \<and> tg_ok u"
proof (cases "i < length (tg_requests s)")
  case False
  then show ?thesis using assms(1) by (simp add: tg_answer_def)
next
  case True
  define q where "q = tg_requests s ! i"
  define s' where "s' = s\<lparr>tg_requests := splice_del i (tg_requests s)\<rparr>"
  have sub: "set (splice_del i (tg_requests s)) \<subseteq> set (tg_requests s)"
    using set_take_subset set_drop_subset by (fastforce simp: splice_del_def)
  then have s': "tg_ok s'" using assms(1) by (auto simp: s'_def tg_ok_def)
  have "q \<in> set (tg_requests s)" using True by (simp add: q_def)
  then have q: "tq_append q \<or> tq_row q = 0" using assms(1) by (auto simp: tg_ok_def)
  have "\<exists>v. (case a of None \<Rightarrow> Some (tg_emit TgError s') | Some d \<Rightarrow> load_rows E (tq_row q) d (tq_append q) s') = Some v \<and> tg_ok v"
  proof (cases a)
    case None
    then show ?thesis using s' by simp
  next
    case (Some d)
    then have "input_fits E (tq_row q) d (if tq_append q then tg_data s' else [])" "takes_rows (tq_row q) s'"
      using assms(2) True by (auto simp: answer_fits_def s'_def takes_rows_def Let_def simp flip: q_def split: if_splits)
    then show ?thesis using tg_load_ok [OF s' _ _ q] Some by auto
  qed
  then obtain v where v: "(case a of None \<Rightarrow> Some (tg_emit TgError s') | Some d \<Rightarrow> load_rows E (tq_row q) d (tq_append q) s') = Some v" "tg_ok v" by blast
  have "tg_answer E i a s = Some (case tq_sub q of None \<Rightarrow> v | Some k \<Rightarrow> end_loading k v)"
    using True v(1) by (simp add: tg_answer_def Let_def flip: q_def s'_def)
  then show ?thesis using v(2) end_loading_ok by (cases "tq_sub q") auto
qed

lemma each_row_ok:
  assumes "\<And>n s. tg_ok s \<Longrightarrow> \<exists>u. f n s = Some u \<and> tg_ok u \<and> keys u = keys s" and "tg_ok s"
  shows "\<exists>u. each_row f ns s = Some u \<and> tg_ok u \<and> keys u = keys s"
  using assms(2)
proof (induction ns arbitrary: s)
  case (Cons n ns)
  obtain u where u: "f n s = Some u" "tg_ok u" "keys u = keys s" using assms(1) [OF Cons.prems] by blast
  then show ?case using Cons.IH [OF u(2)] by simp
qed simp

lemma all_rows_found:
  assumes "tg_ok s" and "n = 0 \<or> tg_find (tg_data s) n = Some t"
  shows "\<exists>ns. all_rows (tg_data s) n = Some ns"
proof (cases "n = 0")
  case True
  then show ?thesis using rows_below_labels(1) [of "tg_data s"] assms(1) by (simp add: all_rows_def tg_ok_def)
next
  case False
  then have t: "tg_find (tg_data s) n = Some t" using assms(2) by simp
  then have "t \<in> set (nodes (tg_data s))" "rw_id (lab t) = n" using ok_found [OF assms(1) t] by auto
  then show ?thesis using rows_below_labels(2) [of "tg_data s" t] assms(1) t False by (simp add: all_rows_def tg_ok_def)
qed

section \<open>Sequences of operations\<close>

datatype tg_op =
    OpData tinput | OpAnswer nat "tinput option" | OpAppend nat tdata | OpInsert bool nat "trow rose" | OpRemove nat
  | OpUpdate nat "trow \<Rightarrow> trow" | OpExpand nat | OpCollapse nat | OpToggle nat | OpExpandAll nat | OpCollapseAll nat | OpExpandTo nat
  | OpReload nat | OpLoad nat | OpPage int int | OpSort string string

fun tg_step :: "tg_env \<Rightarrow> tg_op \<Rightarrow> treegrid \<Rightarrow> treegrid option" where
  "tg_step E (OpData d) s = load_rows E 0 d False s"
| "tg_step E (OpAnswer i a) s = tg_answer E i a s"
| "tg_step E (OpAppend p ts) s = tg_append E p ts s"
| "tg_step E (OpInsert front d t) s = tg_insert E front d t s"
| "tg_step E (OpRemove n) s = tg_remove n s"
| "tg_step E (OpUpdate n f) s = tg_update n f s"
| "tg_step E (OpExpand n) s = tg_expand E n s"
| "tg_step E (OpCollapse n) s = tg_collapse E n s"
| "tg_step E (OpToggle n) s = tg_toggle E n s"
| "tg_step E (OpExpandAll n) s = expand_rows E n s"
| "tg_step E (OpCollapseAll n) s = collapse_rows E n s"
| "tg_step E (OpExpandTo n) s = expand_path E n s"
| "tg_step E (OpReload n) s = tg_reload E n s"
| "tg_step E (OpLoad n) s = tg_load E n s"
| "tg_step E (OpPage k m) s = Some (tg_page E k m s)"
| "tg_step E (OpSort n ord) s = tg_sort E n ord s"

text \<open>What an operation asks for: the rows it names are there, and new rows have identifiers of their own.\<close>

definition has_row :: "nat \<Rightarrow> treegrid \<Rightarrow> bool" where
  "has_row n s \<longleftrightarrow> n \<in> set (rids (tg_data s))"

fun tg_fits :: "tg_env \<Rightarrow> tg_op \<Rightarrow> treegrid \<Rightarrow> bool" where
  "tg_fits E (OpData d) s \<longleftrightarrow> input_fits E 0 d []"
| "tg_fits E (OpAnswer i a) s \<longleftrightarrow> answer_fits E i a s"
| "tg_fits E (OpAppend p ts) s \<longleftrightarrow> (p = 0 \<or> has_row p s) \<and> input_fits E p (Rows ts) (tg_data s)"
| "tg_fits E (OpInsert front d t) s \<longleftrightarrow> has_row d s \<and> te_filter E (parent_id d s) (Rows [t]) = Rows [t]
     \<and> input_fits E (parent_id d s) (Rows [t]) (tg_data s)"
| "tg_fits E (OpRemove n) s \<longleftrightarrow> has_row n s"
| "tg_fits E (OpUpdate n f) s \<longleftrightarrow> has_row n s \<and> keeps_row f"
| "tg_fits E (OpExpandAll n) s \<longleftrightarrow> n = 0 \<or> has_row n s"
| "tg_fits E (OpCollapseAll n) s \<longleftrightarrow> n = 0 \<or> has_row n s"
| "tg_fits E (OpExpandTo n) s \<longleftrightarrow> has_row n s"
| "tg_fits E (OpReload n) s \<longleftrightarrow> n = 0 \<or> has_row n s"
| "tg_fits E (OpLoad n) s \<longleftrightarrow> n = 0 \<or> has_row n s"
| "tg_fits E _ s \<longleftrightarrow> True"

lemma has_row_find: "tg_ok s \<Longrightarrow> has_row n s \<Longrightarrow> \<exists>t. tg_find (tg_data s) n = Some t"
  by (cases "tg_find (tg_data s) n") (auto simp: has_row_def tg_ok_def tg_find_node node_missing rids_def)

lemma toggle_ok: "tg_ok s \<Longrightarrow> \<exists>u. tg_toggle E n s = Some u \<and> tg_ok u \<and> keys u = keys s"
  using expand_ok [of s E n] collapse_ok [of s E n] by (auto simp: tg_toggle_def split: option.split)

lemma path_ok:
  assumes "tg_ok s" and "tg_find (tg_data s) n = Some t"
  shows "\<exists>u. expand_path E n s = Some u \<and> tg_ok u \<and> keys u = keys s"
proof -
  obtain q where "path_to (\<lambda>r. rw_id r = n) (tg_data s) = Some q" using found_path [OF assms] by blast
  then have "ancestors (tg_data s) n = Some (map rw_id q)" using ancestors_path assms(1) by (simp add: tg_ok_def)
  then show ?thesis using each_row_ok [OF expand_ok assms(1)] by (simp add: expand_path_def)
qed

lemma sort_ok: "tg_ok s \<Longrightarrow> \<exists>u. tg_sort E n ord s = Some u \<and> tg_ok u \<and> keys u = keys s"
proof -
  assume ok: "tg_ok s"
  define v where "v = s\<lparr>tg_sortName := n, tg_sortOrder := ord\<rparr>"
  have "tg_ok v" "tg_remoteSort v" "keys v = keys s" using ok by (simp_all add: v_def tg_ok_def keys_def)
  then show ?thesis using ask_ok [of v 0 False] ask_keys by (simp add: tg_sort_def v_def)
qed

lemma tg_step_ok:
  assumes "tg_ok s" and "tg_fits E p s"
  shows "\<exists>u. tg_step E p s = Some u \<and> tg_ok u"
proof -
  note find = has_row_find [OF assms(1)]
  show ?thesis
  proof (cases p)
    case (OpData d)
    then show ?thesis using tg_load_ok [OF assms(1), of E 0 d False] assms(2) by (auto simp: takes_rows_def)
  next
    case (OpAnswer i a)
    then show ?thesis using answer_ok assms by simp
  next
    case (OpAppend q ts)
    then show ?thesis using tg_append_ok [OF assms(1), of E q ts] assms(2) find by fastforce
  next
    case (OpInsert front d t)
    then obtain x where "tg_find (tg_data s) d = Some x" using assms(2) find by auto
    then show ?thesis using insert_row_ok [OF assms(1), of d x E t front] OpInsert assms(2) by auto
  next
    case (OpRemove n)
    then obtain x where "tg_find (tg_data s) n = Some x" using assms(2) find by auto
    then show ?thesis using remove_row_ok [OF assms(1), of n x] OpRemove by auto
  next
    case (OpUpdate n f)
    then obtain x where "tg_find (tg_data s) n = Some x" using assms(2) find by auto
    then show ?thesis using update_row_ok [OF assms(1), of n x f] OpUpdate assms(2) by auto
  next
    case (OpExpand n)
    then show ?thesis using expand_ok [OF assms(1), of E n] by auto
  next
    case (OpCollapse n)
    then show ?thesis using collapse_ok [OF assms(1), of E n] by auto
  next
    case (OpToggle n)
    then show ?thesis using toggle_ok [OF assms(1), of E n] by auto
  next
    case (OpExpandAll n)
    then obtain x where "n = 0 \<or> tg_find (tg_data s) n = Some x" using assms(2) find by auto
    then obtain ns where "all_rows (tg_data s) n = Some ns" using all_rows_found [OF assms(1)] by blast
    then show ?thesis using each_row_ok [where f = "tg_expand E" and ns = ns, OF expand_ok assms(1)] OpExpandAll by (auto simp: expand_rows_def)
  next
    case (OpCollapseAll n)
    then obtain x where "n = 0 \<or> tg_find (tg_data s) n = Some x" using assms(2) find by auto
    then obtain ns where "all_rows (tg_data s) n = Some ns" using all_rows_found [OF assms(1)] by blast
    then show ?thesis using each_row_ok [where f = "tg_collapse E" and ns = ns, OF collapse_ok assms(1)] OpCollapseAll by (auto simp: collapse_rows_def)
  next
    case (OpExpandTo n)
    then obtain x where "tg_find (tg_data s) n = Some x" using assms(2) find by auto
    then show ?thesis using path_ok [OF assms(1), of n x E] OpExpandTo by auto
  next
    case (OpReload n)
    then obtain x where "n = 0 \<or> tg_find (tg_data s) n = Some x" using assms(2) find by auto
    then show ?thesis using reload_ok [OF assms(1), of n x E] OpReload by auto
  next
    case (OpLoad n)
    then obtain x where "n = 0 \<or> tg_find (tg_data s) n = Some x" using assms(2) find by auto
    then show ?thesis using reload_ok [of "s\<lparr>tg_pageNumber := 1\<rparr>" n x E] OpLoad assms(1) by (auto simp: tg_load_def)
  next
    case (OpPage k m)
    then show ?thesis using ask_ok [of "s\<lparr>tg_pageNumber := k, tg_pageSize := m\<rparr>" 0 False] assms(1) by (simp add: tg_page_def)
  next
    case (OpSort n ord)
    then show ?thesis using sort_ok [OF assms(1), of E n ord] by auto
  qed
qed

text \<open>The grids that are reached from an empty one that does not sort by itself.\<close>

inductive tg_reach :: "tg_env \<Rightarrow> treegrid \<Rightarrow> bool" for E where
  start: "tg_data s = [] \<Longrightarrow> tg_view s = [] \<Longrightarrow> tg_requests s = [] \<Longrightarrow> tg_remoteSort s \<Longrightarrow> tg_reach E s"
| step: "tg_reach E s \<Longrightarrow> tg_fits E p s \<Longrightarrow> tg_step E p s = Some u \<Longrightarrow> tg_reach E u"

lemma reach_ok: "tg_reach E s \<Longrightarrow> tg_ok s"
proof (induction rule: tg_reach.induct)
  case (start s)
  then show ?case by (simp add: tg_ok_def)
next
  case (step s p u)
  then show ?case using tg_step_ok [OF step.IH step.hyps(2)] by auto
qed

lemma faces_path: "faces l V \<Longrightarrow> path_to P V = Some q \<Longrightarrow> find_node P V = Some t \<Longrightarrow> spans (lab t) = Suc (l + length q)"
proof (induction l V arbitrary: q t rule: faces.induct)
  case (2 l v cs ts)
  show ?case
  proof (cases "P v")
    case True
    then show ?thesis using 2 by (auto simp: row_ok_def)
  next
    case nv: False
    show ?thesis
    proof (cases "path_to P cs")
      case None
      then have "find_node P cs = None" by (auto simp: path_to_None node_missing)
      then show ?thesis using 2 nv None by simp
    next
      case (Some r)
      then obtain c where "find_node P cs = Some c" using path_found [OF Some] by blast
      then show ?thesis using 2 nv Some by auto
    qed
  qed
qed simp

text \<open>What a reached grid shows of its rows, of the operations that fit it, and of the rows above one.\<close>

lemma reach_keys:
  assumes "tg_reach E s"
  shows "relabel (\<lambda>v. (vr_id v, vr_vals v)) (tg_view s) = relabel (\<lambda>r. (rw_id r, rw_vals r)) (tg_data s)"
proof -
  have "rkey = (\<lambda>r. (rw_id r, rw_vals r))" "vkey = (\<lambda>v. (vr_id v, vr_vals v))" by (simp_all add: fun_eq_iff rkey_def vkey_def)
  then show ?thesis using reach_ok [OF assms] by (simp add: tg_ok_def)
qed

lemma reach_above:
  assumes "tg_reach E s" and q: "path_to (\<lambda>r. rw_id r = n) (tg_data s) = Some q"
  shows "ancestors (tg_data s) n = Some (map rw_id q)" and "row_level (tg_view s) n = Suc (length q)"
    and "map_option (map_option lab) (parent_of (tg_data s) n) = Some (if q = [] then None else Some (last q))"
proof -
  note ok = reach_ok [OF assms(1)]
  note d = ok [unfolded tg_ok_def]
  show "ancestors (tg_data s) n = Some (map rw_id q)" using ancestors_path [OF _ _ _ q] d by simp
  show "map_option (map_option lab) (parent_of (tg_data s) n) = Some (if q = [] then None else Some (last q))"
    using parent_path [OF _ _ _ q] d by auto
  obtain t where t: "find_node (\<lambda>r. rw_id r = n) (tg_data s) = Some t" using path_found [OF q] by blast
  then have "tg_find (tg_data s) n = Some t" using d by (simp add: tg_find_node)
  then obtain w where w: "row_elem (tg_view s) n = Some w" "n \<noteq> 0" using ok_found [OF ok] by blast
  have "path_to (\<lambda>k. fst k = n) (relabel rkey (tg_data s)) = Some (map rkey q)" using q by (simp add: path_relabel)
  then have "path_to (\<lambda>k. fst k = n) (relabel vkey (tg_view s)) = Some (map rkey q)" using d by simp
  then obtain r where "path_to (\<lambda>v. vr_id v = n) (tg_view s) = Some r" "length r = length q" by (auto simp: path_relabel dest: map_eq_imp_length_eq)
  then have "spans (lab w) = Suc (length q)" using faces_path [of 0 "tg_view s" "\<lambda>v. vr_id v = n" r w] w(1) d by (simp add: row_elem_def)
  then show "row_level (tg_view s) n = Suc (length q)" using w by (simp add: row_level_def)
qed

text \<open>
  C3: the elements follow the rows.  However a tree grid without a local sort is loaded, expanded, collapsed, reloaded, answered, and rows appended, inserted, removed and updated, as long as the
  rows named are there and new ones have identifiers of their own: no operation throws, and the row elements stand in the same forest as the rows and show their values; of a row
  the parent and the rows above it that the grid names are the ones it stands under, and its level is their number and one.
\<close>

theorem tg_elements_follow:
  assumes "tg_reach E s"
  shows "relabel (\<lambda>v. (vr_id v, vr_vals v)) (tg_view s) = relabel (\<lambda>r. (rw_id r, rw_vals r)) (tg_data s)
    \<and> (\<forall>p. tg_fits E p s \<longrightarrow> (\<exists>u. tg_step E p s = Some u))
    \<and> (\<forall>n q. path_to (\<lambda>r. rw_id r = n) (tg_data s) = Some q \<longrightarrow>
         ancestors (tg_data s) n = Some (map rw_id q) \<and> row_level (tg_view s) n = Suc (length q)
         \<and> map_option (map_option lab) (parent_of (tg_data s) n) = Some (if q = [] then None else Some (last q)))"
  using reach_keys [OF assms] tg_step_ok [OF reach_ok [OF assms]] reach_above [OF assms] by blast

text \<open>What an operation does to the forest, where it says so itself.\<close>

fun forest_op :: "tg_op \<Rightarrow> (nat \<times> row) rose list \<Rightarrow> (nat \<times> row) rose list option" where
  "forest_op (OpAppend p ts) K = Some (if p = 0 then K @ relabel rkey ts else set_kids (\<lambda>k. fst k = p) (\<lambda>cs. cs @ relabel rkey ts) K)"
| "forest_op (OpInsert front d t) K = Some (put_beside front fst d [map_rose rkey t] K)"
| "forest_op (OpRemove n) K = Some (kill fst n K)"
| "forest_op (OpReload n) K = Some (if n = 0 then K else set_kids (\<lambda>k. fst k = n) (\<lambda>_. []) K)"
| "forest_op (OpExpand n) K = Some K"
| "forest_op (OpCollapse n) K = Some K"
| "forest_op (OpToggle n) K = Some K"
| "forest_op (OpExpandTo n) K = Some K"
| "forest_op (OpSort n ord) K = Some K"
| "forest_op _ K = None"

text \<open>
  C12: the operations on the forest.  Appending, inserting, removing, reloading, expanding and collapsing rows of a tree grid do to the forest of its rows what their names say: new rows
  stand after the children of their parent, or right before or after the row named, a row removed is gone with all below it, one reloaded
  has no children until the answer comes, and expanding and collapsing move no row.
\<close>

theorem tg_forest_ops:
  assumes "tg_reach E s" and "tg_fits E p s" and "te_filter E = (\<lambda>_ d. d)" and "forest_op p (relabel rkey (tg_data s)) = Some K"
  shows "\<exists>u. tg_step E p s = Some u \<and> relabel rkey (tg_data u) = K \<and> relabel vkey (tg_view u) = K"
proof -
  note ok = reach_ok [OF assms(1)]
  note find = has_row_find [OF ok]
  have "\<exists>u. tg_step E p s = Some u \<and> tg_ok u \<and> keys u = K"
  proof (cases p)
    case (OpAppend q ts)
    have "relabel rkey (input_rows E q (Rows ts)) = relabel rkey ts" by (simp add: input_rows_def assms(3))
    then show ?thesis using tg_append_ok [OF ok, of E q ts] assms(2,4) find OpAppend by (fastforce simp: grown_def keys_def)
  next
    case (OpInsert front d t)
    then obtain x where "tg_find (tg_data s) d = Some x" using assms(2) find by auto
    then show ?thesis using insert_row_ok [OF ok, of d x E t front] OpInsert assms(2,4) by (auto simp: keys_def)
  next
    case (OpRemove n)
    then obtain x where "tg_find (tg_data s) n = Some x" using assms(2) find by auto
    then show ?thesis using remove_row_ok [OF ok, of n x] OpRemove assms(4) by (auto simp: keys_def)
  next
    case (OpReload n)
    then obtain x where "n = 0 \<or> tg_find (tg_data s) n = Some x" using assms(2) find by auto
    then show ?thesis using reload_ok [OF ok, of n x E] OpReload assms(4) by (auto simp: keys_def)
  next
    case (OpExpand n)
    then show ?thesis using expand_ok [OF ok, of E n] assms(4) by (auto simp: keys_def)
  next
    case (OpCollapse n)
    then show ?thesis using collapse_ok [OF ok, of E n] assms(4) by (auto simp: keys_def)
  next
    case (OpToggle n)
    then show ?thesis using toggle_ok [OF ok, of E n] assms(4) by (auto simp: keys_def)
  next
    case (OpExpandTo n)
    then obtain x where "tg_find (tg_data s) n = Some x" using assms(2) find by auto
    then show ?thesis using path_ok [OF ok, of n x E] OpExpandTo assms(4) by (auto simp: keys_def)
  next
    case (OpSort n ord)
    then show ?thesis using sort_ok [OF ok, of E n ord] assms(4) by (auto simp: keys_def)
  qed (use assms(4) in simp_all)
  then obtain u where "tg_step E p s = Some u" "tg_ok u" "keys u = K" by blast
  then show ?thesis by (auto simp: keys_def tg_ok_def)
qed

text \<open>The searches of a reached grid.\<close>

lemma reach_search:
  assumes "tg_reach E s"
  shows "rows_below (tg_data s) 0 = Some (labels (tg_data s))"
    and "t \<in> set (nodes (tg_data s)) \<Longrightarrow> tg_find (tg_data s) (rw_id (lab t)) = Some t \<and> rows_below (tg_data s) (rw_id (lab t)) = Some (labels (kids t))"
    and "n \<notin> rw_id ` set (labels (tg_data s)) \<Longrightarrow> tg_find (tg_data s) n = None"
proof -
  have d: "distinct (rids (tg_data s))" "0 \<notin> set (rids (tg_data s))" using reach_ok [OF assms] by (simp_all add: tg_ok_def)
  show "rows_below (tg_data s) 0 = Some (labels (tg_data s))" by (rule rows_below_labels(1) [OF d(1)])
  show "n \<notin> rw_id ` set (labels (tg_data s)) \<Longrightarrow> tg_find (tg_data s) n = None"
    using d(1) by (auto simp: tg_find_node node_missing)
  assume t: "t \<in> set (nodes (tg_data s))"
  have "rw_id (lab t) \<noteq> 0" using t d(2) by (auto simp: rids_def labels_nodes)
  then show "tg_find (tg_data s) (rw_id (lab t)) = Some t \<and> rows_below (tg_data s) (rw_id (lab t)) = Some (labels (kids t))"
    using rows_below_labels(2) [OF d(1) t] node_at [of rw_id "tg_data s" t] t d(1) by (simp add: tg_find_node rids_def)
qed

text \<open>
  C39: the searches.  In a tree grid that was reached so, the search through the lists of children finds the row with an identifier, the children of a row are all the rows below it in the order
  they stand, and of no row all the rows; the search for the children always ends.
\<close>

theorem tg_searches:
  assumes "tg_reach E s"
  shows "rows_below (tg_data s) 0 = Some (labels (tg_data s))
    \<and> (\<forall>t\<in>set (nodes (tg_data s)). tg_find (tg_data s) (rw_id (lab t)) = Some t \<and> rows_below (tg_data s) (rw_id (lab t)) = Some (labels (kids t)))
    \<and> (\<forall>n. n \<notin> rw_id ` set (labels (tg_data s)) \<longrightarrow> tg_find (tg_data s) n = None)"
  using reach_search [OF assms] by simp

section \<open>Examples\<close>

definition flat_rows :: tdata where
  "flat_rows = map bare [sample_row 1 0 False, sample_row 2 1 False, sample_row 3 2 False, sample_row 4 1 False, sample_row 5 0 False]"

definition sample_treegrid :: treegrid where
  "sample_treegrid = the (load_rows default_tg_env 0 (Table 5 flat_rows) False (treegrid_defaults\<lparr>tg_lines := True, tg_rownumbers := True\<rparr>))"

lemma sample_reach: "tg_reach default_tg_env sample_treegrid"
proof (rule tg_reach.step)
  show "tg_reach default_tg_env (treegrid_defaults\<lparr>tg_lines := True, tg_rownumbers := True\<rparr>)"
    by (rule tg_reach.start) (simp_all add: treegrid_defaults_def)
  have "input_fits default_tg_env 0 (Table 5 flat_rows) []"
    by (simp add: input_fits_def default_tg_env_def flat_rows_def bare_def sample_row_def)
  then show fits: "tg_fits default_tg_env (OpData (Table 5 flat_rows)) (treegrid_defaults\<lparr>tg_lines := True, tg_rownumbers := True\<rparr>)" by simp
  have "\<exists>u. load_rows default_tg_env 0 (Table 5 flat_rows) False (treegrid_defaults\<lparr>tg_lines := True, tg_rownumbers := True\<rparr>) = Some u"
    by (rule exI) (rule load_rows_remote, simp add: treegrid_defaults_def)
  then show "tg_step default_tg_env (OpData (Table 5 flat_rows)) (treegrid_defaults\<lparr>tg_lines := True, tg_rownumbers := True\<rparr>) = Some sample_treegrid"
    by (auto simp: sample_treegrid_def)
qed

lemma sample_ids: "relabel rw_id (tg_data sample_treegrid) = [Rose 1 [Rose 2 [Rose 3 []], Rose 4 []], Rose 5 []]"
  by code_simp

theorem tg_elements_follow_witness:
  "row_level (tg_view sample_treegrid) 3 = 3 \<and> ancestors (tg_data sample_treegrid) 3 = Some [1, 2] \<and> (\<exists>u. tg_step default_tg_env (OpRemove 3) sample_treegrid = Some u)"
proof -
  have "path_to (\<lambda>k. k = 3) (relabel rw_id (tg_data sample_treegrid)) = Some [1, 2]" by (simp add: sample_ids)
  then obtain q where q: "path_to (\<lambda>r. rw_id r = 3) (tg_data sample_treegrid) = Some q" "map rw_id q = [1, 2]" by (auto simp: path_relabel)
  have l: "length q = 2" using arg_cong [OF q(2), of length] by simp
  have "rids (tg_data sample_treegrid) = labels (relabel rw_id (tg_data sample_treegrid))" by (simp add: rids_def)
  then have f: "tg_fits default_tg_env (OpRemove 3) sample_treegrid" unfolding tg_fits.simps has_row_def sample_ids by simp
  show ?thesis using tg_elements_follow [OF sample_reach] q f l by fastforce
qed

theorem tg_forest_ops_witness:
  "\<exists>u. tg_step default_tg_env (OpInsert True 4 (bare (sample_row 7 0 False))) sample_treegrid = Some u
     \<and> relabel rw_id (tg_data u) = [Rose 1 [Rose 2 [Rose 3 []], Rose 7 [], Rose 4 []], Rose 5 []]"
proof -
  let ?t = "bare (sample_row 7 0 False)"
  have r: "rids (tg_data sample_treegrid) = [1, 2, 3, 4, 5]"
  proof -
    have "rids (tg_data sample_treegrid) = labels (relabel rw_id (tg_data sample_treegrid))" by (simp add: rids_def)
    then show ?thesis unfolding sample_ids by simp
  qed
  have f: "tg_fits default_tg_env (OpInsert True 4 ?t) sample_treegrid"
    using r by (simp add: has_row_def input_fits_def default_tg_env_def bare_def sample_row_def)
  from tg_forest_ops [OF sample_reach f _ forest_op.simps(2)] obtain u where u: "tg_step default_tg_env (OpInsert True 4 ?t) sample_treegrid = Some u"
    "relabel rkey (tg_data u) = put_beside True fst 4 [map_rose rkey ?t] (relabel rkey (tg_data sample_treegrid))"
    by (auto simp: default_tg_env_def)
  have "relabel rw_id (tg_data u) = relabel fst (relabel rkey (tg_data u))" by simp
  also have "\<dots> = put_beside True id 4 (relabel fst [map_rose rkey ?t]) (relabel fst (relabel rkey (tg_data sample_treegrid)))"
    unfolding u(2) using relabel_put_beside [of fst True id 4 "[map_rose rkey ?t]" "relabel rkey (tg_data sample_treegrid)"] by (simp add: id_def)
  also have "\<dots> = put_beside True id 4 [Rose 7 []] [Rose 1 [Rose 2 [Rose 3 []], Rose 4 []], Rose 5 []]"
    using sample_ids by (simp add: bare_def sample_row_def relabel_def [of fst "[_]"] rkey_def)
  also have "\<dots> = [Rose 1 [Rose 2 [Rose 3 []], Rose 7 [], Rose 4 []], Rose 5 []]" by simp
  finally show ?thesis using u(1) by blast
qed

theorem tg_searches_witness: "map_option (map rw_id) (rows_below (tg_data sample_treegrid) 0) = Some [1, 2, 3, 4, 5] \<and> tg_find (tg_data sample_treegrid) 9 = None"
proof -
  have "labels (relabel rw_id (tg_data sample_treegrid)) = [1, 2, 3, 4, 5]" by (simp add: sample_ids)
  then have l: "map rw_id (labels (tg_data sample_treegrid)) = [1, 2, 3, 4, 5]" by simp
  then have "rw_id ` set (labels (tg_data sample_treegrid)) = {1, 2, 3, 4, 5}" by (metis list.set_map list.simps(15) empty_set)
  then show ?thesis using l tg_searches [OF sample_reach] by simp
qed

section \<open>What goes wrong\<close>

definition closed_row :: "nat \<Rightarrow> trow rose" where
  "closed_row n = Rose \<lparr>rw_id = n, rw_parent = 0, rw_state = Some False, rw_array = False, rw_vals = (\<lambda>_. VUndef)\<rparr> []"

definition valued :: "nat \<Rightarrow> int \<Rightarrow> trow rose" where
  "valued n k = Rose \<lparr>rw_id = n, rw_parent = 0, rw_state = None, rw_array = False, rw_vals = (\<lambda>_. VNum k)\<rparr> []"

definition leaf_row :: "nat \<Rightarrow> trow rose" where
  "leaf_row n = bare (sample_row n 0 False)"

definition signs :: "treegrid \<Rightarrow> (nat \<times> bool option \<times> (nat option \<times> bool) option \<times> bool option) list" where
  "signs s = map2 (\<lambda>v r. (vr_id v, vr_hit v, vr_sub v, rw_state r)) (labels (tg_view s)) (labels (tg_data s))"

definition run_tg :: "tg_op list \<Rightarrow> treegrid \<Rightarrow> treegrid option" where
  "run_tg ps s = fold (\<lambda>p s. Option.bind s (tg_step default_tg_env p)) ps (Some s)"

text \<open>
  A row collapsed while its children are on the way: the answer shows them and opens the row, but its sign stays the one of a closed row.
\<close>

lemma opened_behind_back:
  "map_option signs (run_tg [OpData (Rows [closed_row 1]), OpExpand 1, OpCollapse 1, OpAnswer 0 (Some (Rows [leaf_row 2]))] treegrid_defaults) =
     Some [(1, Some False, Some (Some 0, True), Some True), (2, None, None, Some True)]"
  by code_simp

text \<open>An empty answer takes the row below away, but the row keeps the sign of an open one and can only be collapsed.\<close>

lemma open_without_children:
  "map_option signs (run_tg [OpData (Rows [closed_row 1]), OpExpand 1, OpAnswer 0 (Some (Rows []))] treegrid_defaults) =
     Some [(1, Some True, None, Some False)]"
  by code_simp

text \<open>Appending to a closed row that was not loaded shows the new row under the sign of a closed one; its other children are never asked for.\<close>

lemma append_unloaded:
  "map_option (\<lambda>s. (signs s, map tq_row (tg_requests s))) (run_tg [OpData (Rows [closed_row 1]), OpAppend 1 [leaf_row 2], OpExpand 1] treegrid_defaults) =
     Some ([(1, Some True, Some (None, True), Some True), (2, None, None, Some True)], [])"
  "map_option signs (run_tg [OpData (Rows [closed_row 1]), OpAppend 1 [leaf_row 2]] treegrid_defaults) =
     Some [(1, Some False, Some (None, True), Some False), (2, None, None, Some True)]"
  by code_simp+

text \<open>The last child of a collapsed row is removed: the row is a leaf that is closed, and the next child stands open below it.\<close>

lemma closed_leaf_reopened:
  "map_option signs (run_tg [OpData (Table 2 (map bare [sample_row 1 0 False, sample_row 2 1 False])), OpCollapse 1, OpRemove 2, OpAppend 1 [leaf_row 3]] treegrid_defaults) =
     Some [(1, Some True, Some (None, True), Some False), (3, None, None, Some True)]"
  by code_simp

text \<open>Expanding puts the row into the parameters of all requests after it: turning a page asks for the page of the row expanded last.\<close>

lemma page_of_expanded:
  "map_option (\<lambda>s. map (\<lambda>q. (tq_row q, tq_param q)) (tg_requests s))
     (run_tg [OpData (Rows [closed_row 1]), OpExpand 1, OpPage 2 10] (treegrid_defaults\<lparr>tg_pagination := True\<rparr>)) = Some [(1, 1), (0, 1)]"
  by code_simp

text \<open>The children of a row that was removed before they came are put at the end of the roots.\<close>

lemma late_children_become_roots:
  "map_option (\<lambda>s. relabel rw_id (tg_data s))
     (run_tg [OpData (Rows [closed_row 1, leaf_row 5]), OpExpand 1, OpRemove 1, OpAnswer 0 (Some (Rows [leaf_row 2]))] treegrid_defaults) =
     Some [Rose 5 [], Rose 2 []]"
  by code_simp

text \<open>The local sort sorts a copy: the elements are in order, the rows of the grid are not.\<close>

lemma sort_of_a_copy:
  "map_option (\<lambda>s. (map rw_id (labels (tg_data s)), map vr_id (labels (tg_view s))))
     (run_tg [OpData (Rows [valued 1 9, valued 2 4])] (treegrid_defaults\<lparr>tg_remoteSort := False, tg_sortName := ''a''\<rparr>)) = Some ([1, 2], [2, 1])"
  by code_simp

text \<open>An updated row loses its guide lines until they are drawn again.\<close>

lemma update_loses_lines:
  "map_option (\<lambda>s. map (\<lambda>v. vr_lines v) (labels (tg_view s))) (run_tg [OpUpdate 3 (\<lambda>r. r)] sample_treegrid) = Some [{}, {0}, {}, {0}, {}]"
  "map (\<lambda>v. vr_lines v) (labels (tg_view sample_treegrid)) = [{}, {0}, {0, 1}, {0}, {}]"
  by code_simp+

text \<open>Removing a row leaves the stripes of the rows after it.\<close>

lemma stripes_stay:
  "map_option (\<lambda>s. map (\<lambda>v. vr_alt v) (labels (tg_view s)))
     (run_tg [OpData (Rows [leaf_row 1, leaf_row 2, leaf_row 3, leaf_row 4]), OpRemove 2] (treegrid_defaults\<lparr>tg_striped := True\<rparr>)) = Some [False, False, True]"
  by code_simp

end
