(* ===== verification/Tg_Lines.thy ===== *)
theory Tg_Lines
  imports Tg_Steps
begin

text \<open>
  The guide lines of the tree grid.  \<open>_96\<close> looks every row up by its identifier, walks the rows twice and asks each time for the level; what it
  draws is what one walk over the elements draws that knows where it is.
\<close>

section \<open>One walk\<close>

text \<open>\<open>A\<close> holds the columns of the rows above that have a row after them.\<close>

definition guided :: "nat set \<Rightarrow> bool \<Rightarrow> bool \<Rightarrow> vrow \<Rightarrow> vrow" where
  "guided A leaf lst v =
     (let v = (if leaf then v\<lparr>vr_join := True\<rparr> else v);
          v = (if lst then v\<lparr>vr_last := True, vr_join := False, vr_bottom := vr_bottom v \<or> vr_join v\<rparr> else v)
      in v\<lparr>vr_lines := A \<union> vr_lines v\<rparr>)"

fun guide :: "nat \<Rightarrow> nat set \<Rightarrow> tview \<Rightarrow> tview" where
  "guide l A [] = []"
| "guide l A (Rose v cs # ts) =
     Rose (guided A (cs = []) (ts = []) v) (guide (Suc l) (if ts = [] then A else insert l A) cs) # guide l A ts"

fun first_root :: "tview \<Rightarrow> tview" where
  "first_root [] = []"
| "first_root (Rose v cs # ts) = Rose (v\<lparr>vr_root := Some (ts = [])\<rparr>) cs # ts"

section \<open>The steps as functions on a row\<close>

definition last_row :: "tdata \<Rightarrow> vrow \<Rightarrow> vrow" where
  "last_row ts v =
     (if ts \<noteq> [] \<and> vr_id v = rw_id (lab (last ts)) then v\<lparr>vr_last := True, vr_join := False, vr_bottom := vr_bottom v \<or> vr_join v\<rparr> else v)"

fun join_row :: "tdata \<Rightarrow> vrow \<Rightarrow> vrow" where
  "join_row [] v = v"
| "join_row (Rose r cs # ts) v =
     join_row ts (if cs = [] then (if vr_id v = rw_id r then v\<lparr>vr_join := True\<rparr> else v) else last_row cs (join_row cs v))"

definition add_line :: "nat \<Rightarrow> trow rose \<Rightarrow> vrow \<Rightarrow> vrow" where
  "add_line l t v = (if vr_id v \<in> set (rids (kids t)) then v\<lparr>vr_lines := insert l (vr_lines v)\<rparr> else v)"

fun rows_row :: "nat \<Rightarrow> tdata \<Rightarrow> vrow \<Rightarrow> vrow" where
  "rows_row l [] v = v"
| "rows_row l (t # ts) v = (if ts = [] then v else rows_row l ts (add_line l t v))"

fun line_row :: "nat \<Rightarrow> tdata \<Rightarrow> vrow \<Rightarrow> vrow" where
  "line_row l [] v = v"
| "line_row l (Rose r cs # ts) v = line_row l ts (if cs = [] then v else rows_row (Suc l) cs (line_row (Suc l) cs v))"

lemma vr_id_steps [simp]:
  "vr_id (last_row ts v) = vr_id v" "vr_id (join_row ts v) = vr_id v" "vr_id (add_line l t v) = vr_id v" "vr_id (rows_row l ts v) = vr_id v"
  "vr_id (line_row l ts v) = vr_id v"
proof -
  show l: "vr_id (last_row ts v) = vr_id v" for ts v by (simp add: last_row_def)
  show a: "vr_id (add_line l t v) = vr_id v" for l t v by (simp add: add_line_def)
  show r: "vr_id (rows_row l ts v) = vr_id v" for l ts v by (induction l ts v rule: rows_row.induct) (simp_all add: a)
  show "vr_id (join_row ts v) = vr_id v" by (induction ts v rule: join_row.induct) (simp_all add: l)
  show "vr_id (line_row l ts v) = vr_id v" by (induction l ts v rule: line_row.induct) (simp_all add: r)
qed

lemma last_in_rids: "ts \<noteq> [] \<Longrightarrow> rw_id (lab (last ts)) \<in> set (rids ts)"
  using root_label [of "last ts" ts] by (auto simp: rids_def)

lemma steps_other:
  assumes "vr_id v \<notin> set (rids ts)"
  shows "last_row ts v = v" and "join_row ts v = v" and "rows_row l ts v = v" and "line_row l ts v = v"
proof -
  have l: "last_row ts v = v" if "vr_id v \<notin> set (rids ts)" for ts v using last_in_rids [of ts] that by (auto simp: last_row_def)
  then show "last_row ts v = v" using assms .
  have r: "rows_row l ts v = v" if "vr_id v \<notin> set (rids ts)" for l ts v
    using that
  proof (induction l ts v rule: rows_row.induct)
    case (2 l t ts v)
    have "rids (t # ts) = rids [t] @ rids ts" using rids_simps(3) [of "[t]" ts] by simp
    moreover have "set (rids (kids t)) \<subseteq> set (rids [t])" by (cases t) auto
    ultimately have "add_line l t v = v" "vr_id v \<notin> set (rids ts)" using 2(2) by (auto simp: add_line_def)
    then show ?case using 2 by simp
  qed simp
  then show "rows_row l ts v = v" using assms .
  show "join_row ts v = v" using assms by (induction ts v rule: join_row.induct) (auto simp: l)
  show "line_row l ts v = v" using assms by (induction l ts v rule: line_row.induct) (auto simp: r)
qed

definition line_steps :: "nat \<Rightarrow> tdata \<Rightarrow> vrow \<Rightarrow> vrow" where
  "line_steps l ts v = rows_row l ts (line_row l ts (last_row ts (join_row ts v)))"

lemma last_row_Cons:
  "last_row (Rose r cs # ts) v =
     (if ts \<noteq> [] then last_row ts v
      else if vr_id v = rw_id r then v\<lparr>vr_last := True, vr_join := False, vr_bottom := vr_bottom v \<or> vr_join v\<rparr> else v)"
  by (simp add: last_row_def)

text \<open>What the steps of a list do to its first row, to the rows below that, and to the rows after it.\<close>

lemma steps_head:
  assumes "distinct (rids (Rose r cs # ts))" and "vr_id w = rw_id r"
  shows "(line_steps l (Rose r cs # ts) w)\<lparr>vr_lines := A \<union> vr_lines (line_steps l (Rose r cs # ts) w)\<rparr> = guided A (cs = []) (ts = []) w"
proof -
  have d: "rw_id r \<notin> set (rids cs)" "rw_id r \<notin> set (rids ts)" using assms(1) by auto
  have "join_row (Rose r cs # ts) w = (if cs = [] then w\<lparr>vr_join := True\<rparr> else w)"
    using assms(2) d steps_other(1,2) [of w cs] steps_other(2) [of "w\<lparr>vr_join := True\<rparr>" ts] steps_other(2) [of w ts] by simp
  moreover have "rows_row l (Rose r cs # ts) v = v" if "vr_id v = rw_id r" for v
    using that d steps_other(3) [of v ts] by (simp add: add_line_def)
  moreover have "line_row l (Rose r cs # ts) v = v" if "vr_id v = rw_id r" for v
    using that d steps_other(3,4) [of v cs] steps_other(4) [of v ts] by simp
  moreover have "last_row (Rose r cs # ts) v = (if ts = [] then v\<lparr>vr_last := True, vr_join := False, vr_bottom := vr_bottom v \<or> vr_join v\<rparr> else v)"
    if "vr_id v = rw_id r" for v using that d steps_other(1) [of v ts] by (simp add: last_row_Cons)
  ultimately show ?thesis using assms(2) by (simp add: line_steps_def guided_def Let_def)
qed

lemma steps_down:
  assumes "distinct (rids (Rose r cs # ts))" and "vr_id v \<in> set (rids cs)"
  shows "(line_steps l (Rose r cs # ts) v)\<lparr>vr_lines := A \<union> vr_lines (line_steps l (Rose r cs # ts) v)\<rparr> =
    (line_steps (Suc l) cs v)\<lparr>vr_lines := (if ts = [] then A else insert l A) \<union> vr_lines (line_steps (Suc l) cs v)\<rparr>"
proof -
  have nv: "vr_id v \<notin> set (rids ts)" "vr_id v \<noteq> rw_id r" "cs \<noteq> []" using assms by auto
  have "join_row (Rose r cs # ts) v = last_row cs (join_row cs v)" using nv steps_other(2) [of "last_row cs (join_row cs v)" ts] by simp
  moreover have "last_row (Rose r cs # ts) x = x" if "vr_id x = vr_id v" for x using that nv steps_other(1) [of x ts] by (simp add: last_row_Cons)
  moreover have "line_row l (Rose r cs # ts) x = rows_row (Suc l) cs (line_row (Suc l) cs x)" if "vr_id x = vr_id v" for x
    using that nv steps_other(4) [of "rows_row (Suc l) cs (line_row (Suc l) cs x)" ts] by simp
  moreover have "rows_row l (Rose r cs # ts) x = (if ts = [] then x else x\<lparr>vr_lines := insert l (vr_lines x)\<rparr>)" if "vr_id x = vr_id v" for x
    using that nv assms(2) steps_other(3) [of "x\<lparr>vr_lines := insert l (vr_lines x)\<rparr>" ts] by (simp add: add_line_def)
  ultimately show ?thesis by (simp add: line_steps_def)
qed

lemma steps_along:
  assumes "distinct (rids (Rose r cs # ts))" and "vr_id v \<in> set (rids ts)"
  shows "line_steps l (Rose r cs # ts) v = line_steps l ts v"
proof -
  have nv: "vr_id v \<notin> set (rids cs)" "vr_id v \<noteq> rw_id r" "ts \<noteq> []" using assms by auto
  have "join_row (Rose r cs # ts) v = join_row ts v" using nv steps_other(1,2) [of v cs] by simp
  moreover have "last_row (Rose r cs # ts) x = last_row ts x" for x using nv by (simp add: last_row_Cons)
  moreover have "line_row l (Rose r cs # ts) x = line_row l ts x" if "vr_id x = vr_id v" for x
    using that nv steps_other(3,4) [of x cs] by simp
  moreover have "rows_row l (Rose r cs # ts) x = rows_row l ts x" if "vr_id x = vr_id v" for x
    using that nv by (simp add: add_line_def)
  ultimately show ?thesis by (simp add: line_steps_def)
qed

text \<open>On the elements of the same forest the steps are the one walk.\<close>

lemma steps_guide:
  assumes "relabel vr_id W = relabel rw_id ts" and "distinct (rids ts)"
  shows "relabel (\<lambda>v. (line_steps l ts v)\<lparr>vr_lines := A \<union> vr_lines (line_steps l ts v)\<rparr>) W = guide l A W"
  using assms
proof (induction ts arbitrary: W l A rule: forest_induct)
  case Nil
  then show ?case by (simp add: relabel_def)
next
  case (Rose r cs ts)
  obtain w ds us where W: "W = Rose w ds # us" using Rose.prems(1) by (cases W rule: labels.cases) auto
  then have s: "vr_id w = rw_id r" "relabel vr_id ds = relabel rw_id cs" "relabel vr_id us = relabel rw_id ts" using Rose.prems(1) by auto
  have d: "distinct (rids cs)" "distinct (rids ts)" using Rose.prems(2) by auto
  have ids: "map vr_id (labels ds) = rids cs" "map vr_id (labels us) = rids ts" using s(2,3) by (metis labels_relabel rids_def)+
  have e: "ds = [] \<longleftrightarrow> cs = []" "us = [] \<longleftrightarrow> ts = []" using s(2,3) by (auto simp: relabel_def)
  let ?f = "\<lambda>v. (line_steps l (Rose r cs # ts) v)\<lparr>vr_lines := A \<union> vr_lines (line_steps l (Rose r cs # ts) v)\<rparr>"
  have "relabel ?f ds = guide (Suc l) (if ts = [] then A else insert l A) ds"
    unfolding Rose.IH(1) [OF s(2) d(1), symmetric] by (rule relabel_cong, rule steps_down [OF Rose.prems(2)]) (simp flip: ids(1))
  moreover have "relabel ?f us = guide l A us"
    unfolding Rose.IH(2) [OF s(3) d(2), symmetric]
  proof (rule relabel_cong)
    fix v assume "v \<in> set (labels us)"
    then have "vr_id v \<in> set (rids ts)" by (simp flip: ids(2))
    from steps_along [OF Rose.prems(2) this]
    show "?f v = (line_steps l ts v)\<lparr>vr_lines := A \<union> vr_lines (line_steps l ts v)\<rparr>" by simp
  qed
  ultimately show ?case using steps_head [OF Rose.prems(2) s(1)] e by (simp add: W)
qed

section \<open>The code takes these steps\<close>

lemma mark_last_steps: "mark_last ts V = relabel (last_row ts) V"
proof (cases "ts = []")
  case True
  then show ?thesis by (simp add: mark_last_def last_row_def [abs_def])
next
  case False
  then show ?thesis by (auto simp: mark_last_def mark_row_def last_row_def intro!: relabel_cong)
qed

lemma join_each_steps: "join_each ts V = relabel (join_row ts) V"
  by (induction ts V rule: join_each.induct) (auto simp: mark_last_steps mark_row_def intro!: relabel_cong)

lemma below_ids:
  assumes "distinct (map vr_id (labels V))" and "row_elem V n = Some w" and "map vr_id (labels (kids w)) = is"
  shows "set_kids (\<lambda>v. vr_id v = n) (relabel f) V = relabel (\<lambda>v. if vr_id v \<in> set is then f v else v) V"
  using assms
proof (induction V arbitrary: rule: forest_induct)
  case (Rose x cs ts)
  let ?g = "\<lambda>v. if vr_id v \<in> set is then f v else v"
  have d: "vr_id x \<notin> vr_id ` set (labels cs)" "vr_id x \<notin> vr_id ` set (labels ts)" "vr_id ` set (labels cs) \<inter> vr_id ` set (labels ts) = {}"
    using Rose.prems(1) by auto
  have none: "relabel ?g us = us" if "set is \<inter> vr_id ` set (labels us) = {}" for us by (rule relabel_id) (use that in auto)
  have same: "set_kids (\<lambda>v. vr_id v = n) (relabel f) us = us" if "n \<notin> vr_id ` set (labels us)" for us by (rule set_kids_other) (use that in auto)
  have i: "set is = vr_id ` set (labels (kids w))" using Rose.prems(3) by (metis list.set_map)
  show ?case
  proof (cases "vr_id x = n")
    case True
    then have w: "w = Rose x cs" using Rose.prems(2) by (simp add: row_elem_def)
    then have i: "set is = vr_id ` set (labels cs)" using i by simp
    then have "relabel f cs = relabel ?g cs" by (intro relabel_cong) auto
    moreover have "relabel ?g ts = ts" using none d(3) i by simp
    ultimately show ?thesis using True same [of ts] d(1,2) i by auto
  next
    case nx: False
    show ?thesis
    proof (cases "row_elem cs n")
      case (Some y)
      then have y: "w = y" "w \<in> set (nodes cs)" "vr_id (lab w) = n" using Rose.prems(2) nx by (auto simp: row_elem_def dest: node_found)
      then have "set (labels (kids w)) \<subseteq> set (labels cs)" "n \<in> vr_id ` set (labels cs)" using nodes_labels [of w cs] by (auto simp: labels_nodes)
      then have "set is \<inter> vr_id ` set (labels ts) = {}" "vr_id x \<notin> set is" "n \<notin> vr_id ` set (labels ts)" using i d by blast+
      then show ?thesis using Rose.IH(1) [OF _ _ Rose.prems(3)] Some y(1) Rose.prems(1) nx none same by simp
    next
      case None
      then have t: "row_elem ts n = Some w" using Rose.prems(2) nx by (simp add: row_elem_def)
      then have "w \<in> set (nodes ts)" "vr_id (lab w) = n" by (auto simp: row_elem_def dest!: node_found)
      then have "set (labels (kids w)) \<subseteq> set (labels ts)" "n \<in> vr_id ` set (labels ts)" using nodes_labels [of w ts] by (auto simp: labels_nodes)
      then have "set is \<inter> vr_id ` set (labels cs) = {}" "vr_id x \<notin> set is" "n \<notin> vr_id ` set (labels cs)" using i d by blast+
      then show ?thesis using Rose.IH(2) [OF _ t Rose.prems(3)] Rose.prems(1) nx none same by simp
    qed
  qed
qed (simp add: row_elem_def)

fun placed :: "nat \<Rightarrow> tdata \<Rightarrow> tview \<Rightarrow> bool" where
  "placed l [] V \<longleftrightarrow> True"
| "placed l (Rose r cs # ts) V \<longleftrightarrow> row_level V (rw_id r) = Suc l \<and> (\<exists>w. row_elem V (rw_id r) = Some w \<and> map vr_id (labels (kids w)) = rids cs)
     \<and> placed (Suc l) cs V \<and> placed l ts V"

lemma placed_relabel:
  assumes "\<And>v. vr_id (g v) = vr_id v" and "\<And>v. spans (g v) = spans v"
  shows "placed l ts V \<Longrightarrow> placed l ts (relabel g V)"
proof (induction l ts V rule: placed.induct)
  case (2 l r cs ts V)
  have e: "row_elem (relabel g V) n = map_option (map_rose g) (row_elem V n)" for n by (simp add: row_elem_def find_relabel assms(1))
  obtain w where w: "row_elem V (rw_id r) = Some w" "map vr_id (labels (kids w)) = rids cs" using 2(3) by auto
  have "row_level (relabel g V) (rw_id r) = row_level V (rw_id r)" using w(1) assms(2) by (cases w) (simp add: row_level_def e)
  moreover have "map vr_id (labels (kids (map_rose g w))) = rids cs"
    using w(2) assms(1) by (cases w) (simp add: relabel_def [symmetric] comp_def)
  ultimately show ?case using 2 w(1) by (simp add: e)
qed simp

lemma spans_steps [simp]: "spans (add_line l t v) = spans v" "spans (rows_row l ts v) = spans v" "spans (line_row l ts v) = spans v"
proof -
  show a: "spans (add_line l t v) = spans v" for l t v by (simp add: add_line_def spans_def)
  show r: "spans (rows_row l ts v) = spans v" for l ts v by (induction l ts v rule: rows_row.induct) (simp_all add: a)
  show "spans (line_row l ts v) = spans v" by (induction l ts v rule: line_row.induct) (simp_all add: r)
qed

lemma line_below_steps:
  assumes "distinct (map vr_id (labels V))" and "placed l (t # ts) V"
  shows "line_below t V = relabel (add_line l t) V"
proof -
  obtain r cs where t: "t = Rose r cs" by (cases t)
  obtain w where w: "row_elem V (rw_id r) = Some w" "map vr_id (labels (kids w)) = rids cs" "row_level V (rw_id r) = Suc l" using assms(2) t by auto
  have "line_below t V = relabel (\<lambda>v. if vr_id v \<in> set (rids cs) then v\<lparr>vr_lines := insert l (vr_lines v)\<rparr> else v) V"
    unfolding line_below_def Let_def using below_ids [OF assms(1) w(1,2)] w(3) t by simp
  then show ?thesis by (simp add: add_line_def [abs_def] t)
qed

lemma line_rows_steps: "distinct (map vr_id (labels V)) \<Longrightarrow> placed l ts V \<Longrightarrow> line_rows ts V = relabel (rows_row l ts) V"
proof (induction ts arbitrary: V)
  case (Cons t ts)
  show ?case
  proof (cases "ts = []")
    case True
    then show ?thesis by (simp add: line_rows_def)
  next
    case False
    have p: "placed l ts V" using Cons.prems(2) by (cases t) simp
    have "line_rows ts (relabel (add_line l t) V) = relabel (rows_row l ts) (relabel (add_line l t) V)"
      using Cons.prems(1) placed_relabel [OF _ _ p, of "add_line l t"] by (intro Cons.IH) (simp_all add: comp_def)
    then show ?thesis using line_below_steps [OF Cons.prems] False by (simp add: line_rows_def)
  qed
qed (auto simp: line_rows_def intro!: relabel_id [symmetric])

lemma line_each_steps: "distinct (map vr_id (labels V)) \<Longrightarrow> placed l ts V \<Longrightarrow> line_each ts V = relabel (line_row l ts) V"
proof (induction ts arbitrary: V l rule: forest_induct)
  case (Rose r cs ts)
  have p: "placed (Suc l) cs V" "placed l ts V" using Rose.prems(2) by simp_all
  define W where "W = (if cs = [] then V else line_rows cs (line_each cs V))"
  define g where "g = (\<lambda>v. if cs = [] then v else rows_row (Suc l) cs (line_row (Suc l) cs v))"
  have g: "vr_id (g v) = vr_id v" "spans (g v) = spans v" for v by (simp_all add: g_def)
  have W: "W = relabel g V"
  proof (cases "cs = []")
    case False
    have "line_each cs V = relabel (line_row (Suc l) cs) V" by (rule Rose.IH(1) [OF Rose.prems(1) p(1)])
    moreover have "line_rows cs (relabel (line_row (Suc l) cs) V) = relabel (rows_row (Suc l) cs) (relabel (line_row (Suc l) cs) V)"
      by (rule line_rows_steps) (use Rose.prems(1) placed_relabel [OF _ _ p(1)] in \<open>simp_all add: comp_def\<close>)
    ultimately show ?thesis using False by (simp add: W_def g_def)
  qed (simp add: W_def g_def)
  have "line_each ts W = relabel (line_row l ts) W"
    by (rule Rose.IH(2)) (use Rose.prems(1) placed_relabel [OF _ _ p(2)] g in \<open>simp_all add: W comp_def\<close>)
  then show ?case by (simp add: W g_def flip: W_def)
qed (auto intro!: relabel_id [symmetric])

lemma placed_ok:
  assumes "distinct (map vr_id (labels V))" and "0 \<notin> set (map vr_id (labels V))"
  shows "set (nodes W) \<subseteq> set (nodes V) \<Longrightarrow> relabel vr_id W = relabel rw_id ts \<Longrightarrow> faces l W \<Longrightarrow> placed l ts V"
proof (induction ts arbitrary: W l rule: forest_induct)
  case (Rose r cs ts)
  obtain w ds us where W: "W = Rose w ds # us" using Rose.prems(2) by (cases W rule: labels.cases) auto
  have s: "vr_id w = rw_id r" "relabel vr_id ds = relabel rw_id cs" "relabel vr_id us = relabel rw_id ts" using Rose.prems(2) W by auto
  have n: "Rose w ds \<in> set (nodes V)" using Rose.prems(1) W by auto
  have f: "row_elem V (rw_id r) = Some (Rose w ds)" using node_at [OF assms(1) n] s(1) by (simp add: row_elem_def)
  have z: "rw_id r \<noteq> 0" using n assms(2) s(1) by (force simp: labels_nodes)
  have "map vr_id (labels ds) = rids cs" using s(2) by (metis labels_relabel rids_def)
  moreover have "row_level V (rw_id r) = Suc l" using f z Rose.prems(3) W by (simp add: row_level_def row_ok_def)
  ultimately show ?case using Rose.IH(1) [OF _ s(2)] Rose.IH(2) [OF _ s(3)] Rose.prems(1,3) f W by simp
qed simp

lemma first_root_shape: "relabel vr_id (first_root V) = relabel vr_id V" and first_root_core: "relabel vcore (first_root V) = relabel vcore V"
  by (cases V rule: first_root.cases; simp)+

lemma mark_roots_first:
  assumes "relabel vr_id V = relabel rw_id D" and "distinct (rids D)"
  shows "mark_roots D V = first_root V"
proof (cases D rule: labels.cases)
  case (2 r cs ts)
  obtain w ds us where V: "V = Rose w ds # us" using assms(1) 2 by (cases V rule: labels.cases) auto
  have s: "vr_id w = rw_id r" "relabel vr_id ds = relabel rw_id cs" "relabel vr_id us = relabel rw_id ts" using assms(1) V 2 by auto
  have i: "map vr_id (labels ds) = rids cs" "map vr_id (labels us) = rids ts" using s(2,3) by (metis labels_relabel rids_def)+
  have keep: "relabel (\<lambda>v. if vr_id v = rw_id r then v\<lparr>vr_root := b\<rparr> else v) xs = xs" if "rw_id r \<notin> set (map vr_id (labels xs))" for xs b
    by (rule relabel_id) (use that in force)
  have "us = [] \<longleftrightarrow> ts = []" using s(3) by (auto simp: relabel_def)
  then show ?thesis using assms(2) 2 s(1) keep [of ds] keep [of us] unfolding i by (simp add: V mark_roots_def mark_row_def)
next
  case 1
  then show ?thesis using assms(1) by (cases V rule: labels.cases) (auto simp: mark_roots_def)
qed

lemma clear_core: "relabel vcore (relabel clear_lines V) = relabel vcore V"
proof -
  have "vcore (clear_lines v) = vcore v" for v by (simp add: clear_lines_def Let_def)
  then show ?thesis by simp
qed

text \<open>
  C8: the guide lines.  When they are shown, \<open>showLines\<close> draws in a tree grid that was reached so what one walk over its elements draws: through the column of every row above that has
  a row after it goes a line, a row without children is joined to the line of its own column, with a corner if it is the last, and the first root is marked.
\<close>

theorem tg_lines_one_walk:
  assumes "tg_reach E s" and "tg_lines s"
  shows "tg_view (show_lines s) = guide 0 {} (first_root (relabel clear_lines (tg_view s)))"
proof -
  have ok: "tg_ok s" by (rule reach_ok [OF assms(1)])
  define D where "D = tg_data s"
  define U where "U = first_root (relabel clear_lines (tg_view s))"
  have d: "distinct (rids D)" "0 \<notin> set (rids D)" using ok by (simp_all add: tg_ok_def D_def)
  have "relabel fst (relabel vkey (tg_view s)) = relabel fst (relabel rkey D)" using ok by (simp add: tg_ok_def D_def)
  then have sV: "relabel vr_id (tg_view s) = relabel rw_id D" by simp
  have core: "relabel vcore U = relabel vcore (tg_view s)" by (simp only: U_def first_root_core clear_core)
  have sC: "relabel vr_id (relabel clear_lines (tg_view s)) = relabel rw_id D"
    using sV by (simp add: clear_lines_def Let_def if_distrib cong: if_cong)
  then have sU: "relabel vr_id U = relabel rw_id D" by (simp only: U_def first_root_shape)
  have iU: "map vr_id (labels U) = rids D" using sU by (metis labels_relabel rids_def)
  have fU: "faces 0 U" using core_faces [OF core [symmetric]] ok by (simp add: tg_ok_def)
  have p: "placed 0 D U" by (rule placed_ok [OF _ _ _ sU fU]) (use iU d in simp_all)
  have J: "mark_last D (join_each D U) = relabel (\<lambda>v. last_row D (join_row D v)) U" by (simp add: mark_last_steps join_each_steps)
  have sp: "spans (last_row D (join_row D v)) = spans v" for v
  proof -
    have "spans (last_row ts v) = spans v" for ts v by (simp add: last_row_def spans_def)
    moreover have "spans (join_row ts v) = spans v" for ts by (induction ts v rule: join_row.induct) (simp_all add: calculation, simp_all add: spans_def)
    ultimately show ?thesis by simp
  qed
  define X where "X = relabel (\<lambda>v. last_row D (join_row D v)) U"
  have pX: "placed 0 D X" unfolding X_def by (rule placed_relabel [OF _ _ p]) (simp_all add: sp)
  have iX: "map vr_id (labels X) = rids D" using iU by (simp add: X_def comp_def)
  have L: "line_each D X = relabel (line_row 0 D) X" by (rule line_each_steps [OF _ pX]) (use iX d in simp)
  have R: "line_rows D (relabel (line_row 0 D) X) = relabel (rows_row 0 D) (relabel (line_row 0 D) X)"
    by (rule line_rows_steps) (use iX d placed_relabel [OF _ _ pX] in \<open>simp_all add: comp_def\<close>)
  have "tg_view (show_lines s) = relabel (line_steps 0 D) U"
    using assms(2) mark_roots_first [OF sC d(1)] J L R
    by (simp add: show_lines_def draw_lines_def Let_def flip: D_def U_def X_def) (simp add: X_def line_steps_def [abs_def])
  also have "\<dots> = guide 0 {} U" using steps_guide [OF sU d(1), where l = 0 and A = "{}"] by simp
  finally show ?thesis by (simp add: U_def)
qed

theorem tg_lines_one_walk_witness:
  "map (\<lambda>v. (vr_id v, vr_lines v, vr_join v, vr_bottom v)) (labels (tg_view (show_lines sample_treegrid))) =
     [(1, {}, False, False), (2, {0}, False, False), (3, {0, 1}, False, True), (4, {0}, False, True), (5, {}, False, True)]"
proof -
  have "tg_lines sample_treegrid" by code_simp
  moreover have "map (\<lambda>v. (vr_id v, vr_lines v, vr_join v, vr_bottom v)) (labels (guide 0 {} (first_root (relabel clear_lines (tg_view sample_treegrid))))) =
     [(1, {}, False, False), (2, {0}, False, False), (3, {0, 1}, False, True), (4, {0}, False, True), (5, {}, False, True)]" by code_simp
  ultimately show ?thesis using tg_lines_one_walk [OF sample_reach] by simp
qed

text \<open>
  A closed row keeps on its hit the class a row without children was given: one that was the last stays joined with a corner when a row is appended after it.
\<close>

lemma stale_corner:
  "map_option (\<lambda>s. map (\<lambda>v. (vr_join v, vr_bottom v)) (labels (tg_view s)))
     (run_tg [OpData (Rows [closed_row 1]), OpAppend 0 [leaf_row 2]] (treegrid_defaults\<lparr>tg_lines := True\<rparr>)) = Some [(True, True), (False, True)]"
  by code_simp

end
