(* ===== verification/Spec2Isabelle.thy ===== *)
theory Spec2Isabelle
  imports Easyloader Calendar Dg_Changes Tr_Insert Accordion Date_Box Numberbox Validatebox Slider Tg_Lines
begin

text \<open>
  Verification library for the browser side of dolmmframework: the widgets of
  \<open>src/dol-framework-service-consumer/src/main/webapp/js\<close> (EasyUI 1.4.2), which the administration
  pages are built of.  The same files are in \<open>dol-framework-zookeeper-admin\<close>.

  Parts and theories.

  \<^item> \<open>easyloader.js\<close>: theory Easyloader.  The table of modules, the resolution of dependencies, the
    queue of requests, script and style elements with their load events and timers.
  \<^item> \<open>jquery.pagination.js\<close>: theory Pagination.
  \<^item> \<open>jquery.calendar.js\<close>: theory Js_Date (dates of the language), theory Weeks (the loops that cut
    a month into weeks, over any calendar with a day line), theory Calendar (table, menu, handlers).
  \<^item> \<open>jquery.datagrid.js\<close>: theory Js_Value (values of rows and their comparison), theory Dg_State (the
    state, columns, finder and array helpers), theory Dg_Select (selection and checks), theory Dg_Render
    (the view, and the insertion, deletion and update of a row in it), theory Dg_Load (requests,
    answers, the page of data, local sort, pagers, the sort state of the header), theory Dg_Edit (the
    editors of a row, begin, end and cancel of an edit, insertion and deletion), theory Dg_Changes (the
    record of changes, accept and reject); theory Dg_Frame says what each group leaves alone.
  \<^item> \<open>jquery.tree.js\<close>: theory Rose (forests), theory Tr_State (node objects, the elements found again by
    number, boxes and their cascade), theory Tr_Load (loading, expanding, changes of the forest, drops,
    titles, filter, mouse), theory Tr_Check (the cascade), theory Tr_Forest, theory Tr_Ops and theory
    Tr_Insert (objects and elements stay the same forest).
  \<^item> \<open>jquery.treegrid.js\<close>: theory Treegrid (rows and row elements as forests, requests and their answers, all
    operations), theory Tg_Forest (searches, and \<open>transfer\<close> of flat rows), theories Tg_View and Tg_Ops (every operation keeps
    elements and rows the same forest), theory Tg_Steps (sequences of operations, the forest operations they refine, what
    goes wrong), theory Tg_Lines (guide lines).
  \<^item> \<open>jquery.panel.js\<close>, \<open>jquery.tabs.js\<close>, \<open>jquery.accordion.js\<close>: theory Panel (flags, display, geometry,
    loading, animations), theory Tabs and theory Accordion, whose entries are panels: they call the
    operations of theory Panel with their own callbacks around them.
  \<^item> \<open>jquery.textbox.js\<close>: theory Textbox (value, input and hidden input of a field, the focus and the prompt);
    \<open>jquery.combo.js\<close> and \<open>jquery.combobox.js\<close>: theory Combo (the values, the list and its marks, queries, keys);
    \<open>jquery.timespinner.js\<close>, \<open>jquery.datetimespinner.js\<close> and the texts of the date fields: theory Time_Fields;
    \<open>jquery.datebox.js\<close> and \<open>jquery.datetimebox.js\<close>: theory Date_Box, which puts theories Combo, Calendar and
    Time_Fields together the way the fields do.
  \<^item> \<open>jquery.numberbox.js\<close>: theory Js_Float (doubles with their rounding, \<open>parseFloat\<close> and \<open>toFixed\<close>) and theory
    Numberbox (parser, formatter and the field over theory Textbox); \<open>jquery.validatebox.js\<close>: theory Validatebox
    (the checks of a field, their messages, the loop and the timer while typing); \<open>jquery.slider.js\<close>: theory Slider.

  State.  Each widget keeps an options object and elements in the page.  A record holds both: the
  options the code reads as fields, the elements as the lists of cells, rows or buttons the code finds
  again by class, index or attribute.  Rows of the grid are shared objects and are references
  into a store.  A callback whose result matters is a parameter (\<open>cal_env\<close>, \<open>grid_env\<close>); a callback
  that is only told something is an entry in a log.

  Errors.  An exception of the language is \<open>Inl\<close> or \<open>None\<close>; \<open>NaN\<close> and the infinities are values of
  \<open>jnum\<close> where a computation can produce them.

  Parameters.  The global replacement with a regular expression, where a prefix or separator is not read
  literally (\<open>regex\<close>), the table of rules and \<open>eval\<close> (\<open>vb_env\<close>), the converter of a slider.

  Bounds.  The recursion over module dependencies takes a depth: 6 is enough for the table shipped
  (\<open>el_resolve_returns\<close>).  Calendar theorems are about the years that the four digits and more of a
  date handle, 101 to 275759, the range of the dates of the language.  A number field reads back what it
  shows up to \<open>2 ^ 52\<close> units of its last place, where a double still tells two of them apart.  The loop of its formatter
  may have no end (\<open>group_loop\<close> is a partial function); \<open>nb_grouping\<close> says for which separators it has one.

  What is shown.  The loader: each module once, after what it needs, and a report only when all is there.  The grid: the marks, the two arrays and
  the box of the header agree after every operation on rows of the page and every click, the operations are set operations on keys, the view drawn step by step is the one drawn at
  once, \<open>getChanges\<close> is exactly what was done since the load and \<open>rejectChanges\<close> undoes it.  Trees and tree grids: elements and objects stay one forest, and each operation
  is one change of that forest.  The panel: its own geometry comes back after any operations, and its display and flags follow the events it told; the flags and the
  display can go apart, under the conditions named in theory Panel.  Tabs and accordion: one entry is open.  The calendar: six whole weeks.  The fields: what is shown is read back, bounds hold of what is
  a number or a time (a \<open>NaN\<close> passes them, and where one can come from is stated), typing is held to the list, a slider keeps its order if it is set in order.

  Not modelled: sizes in pixels, scrolling, drag and drop, styles of markup beyond the classes the
  code reads back, the minified bundles, jQuery itself, and the Java modules of the repository.
\<close>

end
